(* ===== verification/Prelude.thy ===== *)
theory Prelude
  imports "HOL-Library.Word"
begin

text \<open>
  The shared prelude of the development: the machine integer types of the sources
  (\<open>uint8_t\<close> .. \<open>uint64_t\<close> as words), the named theorem collections that the component
  theories extend, and the generic lemmas on words, ring indices and option results that
  several components need.  Nothing here models code.
\<close>

unbundle bit_operations_syntax

type_synonym u8 = "8 word"
type_synonym u16 = "16 word"
type_synonym u32 = "32 word"
type_synonym u64 = "64 word"

named_theorems nvm_defs \<open>macro-like definitions that proofs unfold\<close>
named_theorems unat_simps \<open>rules that move a word expression to natural numbers\<close>
named_theorems ring_simps \<open>rules on positions of a ring buffer\<close>

section \<open>Words\<close>

lemma unat_and_mask [unat_simps]:
  "unat (w AND mask k) = unat w mod 2 ^ k" for w :: "'a::len word"
  by (simp add: unsigned_take_bit_eq take_bit_eq_mod [of k "unat w"] flip: take_bit_eq_mask)

lemma unat_drop_bit_div [unat_simps]:
  "unat (drop_bit k w) = unat w div 2 ^ k" for w :: "'a::len word"
  unfolding unat_drop_bit_eq by (simp add: drop_bit_eq_div)

lemma unat_inc:
  "unat w + 1 < 2 ^ LENGTH('a) \<Longrightarrow> unat (w + 1) = unat w + 1" for w :: "'a::len word"
  using unat_add_lem [of w 1] by (cases "LENGTH('a) = 1") auto

lemma unat_add_bounded:
  "unat a + unat b < 2 ^ LENGTH('a) \<Longrightarrow> unat (a + b) = unat a + unat b"
  for a b :: "'a::len word"
  using unat_add_lem [of a b] by simp

lemma unat_sub_le:
  "b \<le> a \<Longrightarrow> unat (a - b) = unat a - unat b" for a b :: "'a::len word"
  by (rule unat_sub)

lemma unat_eq_iff: "a = b \<longleftrightarrow> unat a = unat b" for a b :: "'a::len word"
  by (simp add: word_unat_eq_iff)

lemma and_mask_eq_unat_iff:
  "a AND mask k = b AND mask k \<longleftrightarrow> unat a mod 2 ^ k = unat b mod 2 ^ k"
  for a b :: "'a::len word"
  by (simp add: unat_eq_iff unat_simps)

lemma mask_minus_and_not:
  "lo \<le> hi \<Longrightarrow> (mask hi :: 'a::len word) - mask lo = mask hi AND NOT (mask lo)"
proof -
  assume "lo \<le> hi"
  then have "mask lo AND mask hi = (mask lo :: 'a word)"
    by (simp add: and.commute bit_eq_iff bit_simps) auto
  then have "mask hi = (mask hi AND NOT (mask lo)) + (mask lo :: 'a word)"
    by (subst disjunctive_add) (auto simp: bit_eq_iff bit_simps)
  then show ?thesis by (metis add_diff_cancel_right')
qed

lemma push_bit_one_minus_one: "push_bit k 1 - 1 = (mask k :: 'a::len word)"
  by (simp add: mask_eq_exp_minus_1 push_bit_eq_mult)

lemma unat_ucast_mod:
  "unat (ucast w :: 'b::len word) = unat w mod 2 ^ LENGTH('b)" for w :: "'a::len word"
  by (simp add: unsigned_ucast_eq take_bit_eq_mod)

lemma unat_ucast_up:
  "LENGTH('a) \<le> LENGTH('b) \<Longrightarrow> unat (ucast w :: 'b::len word) = unat w" for w :: "'a::len word"
proof -
  assume "LENGTH('a) \<le> LENGTH('b)"
  then have "(2::nat) ^ LENGTH('a) \<le> 2 ^ LENGTH('b)" by (rule power_increasing) simp
  then have "unat w < 2 ^ LENGTH('b)" using unsigned_less [of w, where 'a = nat] by linarith
  then show ?thesis by (simp add: unat_ucast_mod)
qed

lemma unat_mask_le: "k \<le> LENGTH('a) \<Longrightarrow> unat (mask k :: 'a::len word) = 2 ^ k - 1"
proof -
  assume "k \<le> LENGTH('a)"
  then have "uint (mask k :: 'a word) = mask k" by (simp add: uint_mask_eq min_absorb2)
  then have "int (unat (mask k :: 'a word)) = 2 ^ k - 1" by (simp add: mask_eq_exp_minus_1)
  moreover have "int (2 ^ k - 1) = 2 ^ k - 1" by (simp add: of_nat_diff)
  ultimately show ?thesis by (metis of_nat_eq_iff)
qed

text \<open>A wrapping difference is right modulo every divisor of the word's range.\<close>

lemma unat_diff_mod:
  fixes a b :: "'a::len word"
  assumes "q dvd 2 ^ LENGTH('a)" and "unat b \<le> q"
  shows "unat (a - b) mod q = (unat a + q - unat b) mod q"
proof -
  obtain m where m: "2 ^ LENGTH('a) = q * m" using assms(1) by (rule dvdE)
  have "m \<noteq> 0" using m by (metis mult_0_right power_not_zero zero_neq_numeral)
  then obtain m' where m': "m = Suc m'" by (cases m) auto
  show ?thesis
  proof (cases "unat b \<le> unat a")
    case True
    then have "unat a + q - unat b = (unat a - unat b) + q" by simp
    then have "(unat a + q - unat b) mod q = (unat a - unat b) mod q" by (metis mod_add_self2)
    then show ?thesis using True by (simp add: unat_sub_if')
  next
    case False
    have "unat a + 2 ^ LENGTH('a) - unat b = (unat a + q - unat b) + q * m'"
      using assms(2) unfolding m m' by simp
    then have "(unat a + 2 ^ LENGTH('a) - unat b) mod q = (unat a + q - unat b) mod q" by simp
    then show ?thesis using False by (simp add: unat_sub_if')
  qed
qed

section \<open>Positions of a ring\<close>

lemma mod_inc:
  "(q::nat) > 0 \<Longrightarrow> x < q \<Longrightarrow> (x + 1) mod q = (if x + 1 = q then 0 else x + 1)"
  by auto

lemma upt_shift_map: "map (\<lambda>i. f (k + i)) [0..<n] = map f [k..<k + n]"
  by (rule nth_equalityI) auto

lemma mod_eq_window:
  assumes "a mod q = b mod q" and "a \<le> b" and "b < a + q"
  shows "a = (b::nat)"
proof -
  have "q dvd b - a"
    using assms(1,2) mod_eq_dvd_iff_nat [of a b q] by simp
  then have "(b - a) mod q = 0" by simp
  moreover have "b - a < q" using assms(2,3) by linarith
  ultimately show ?thesis using assms(2) by simp
qed

lemma mod_window_inj:
  assumes "(a + i) mod q = (a + j) mod q" and "i < q" and "j < (q::nat)"
  shows "i = j"
proof (cases "i \<le> j")
  case True
  then have "a + i = a + j" using mod_eq_window [OF assms(1)] assms(3) by linarith
  then show ?thesis by simp
next
  case False
  then have "a + j = a + i" using mod_eq_window [OF assms(1) [symmetric]] assms(2) by linarith
  then show ?thesis by simp
qed

lemma mod_eq_earlier:
  assumes "a mod q = b mod q" and "a < b"
  shows "a + q \<le> (b::nat)"
proof (rule ccontr)
  assume "\<not> a + q \<le> b"
  then have "a = b" using assms mod_eq_window [of a q b] by linarith
  then show False using assms(2) by simp
qed

lemma div_of_mod_eq:
  assumes "a mod q = b mod q" and "a < (b::nat)" and "0 < q"
  shows "a div q < b div q"
proof -
  have "a + q \<le> b" using assms(1,2) by (rule mod_eq_earlier)
  then have "(a + q) div q \<le> b div q" by (rule div_le_mono)
  moreover have "(a + q) div q = a div q + 1" using assms(3) div_add_self2 [of q a] by simp
  ultimately show ?thesis by simp
qed

lemma mod_div_unique:
  "a mod q = b mod q \<Longrightarrow> a div q = b div q \<Longrightarrow> a = (b::nat)"
  by (metis div_mult_mod_eq)

lemma ring_succ_neq:
  assumes "h \<le> t" and "t + 1 - h \<le> q" and "(t + 1) mod q \<noteq> h mod q" and "0 < (q::nat)"
  shows "t + 1 - h < q"
proof (rule ccontr)
  assume "\<not> t + 1 - h < q"
  then have "t + 1 = h + q" using assms(1,2) by linarith
  then have "(t + 1) mod q = h mod q" by simp
  then show False using assms(3) by simp
qed

end
