(* ===== verification/Nvm_Util.thy ===== *)
theory Nvm_Util
  imports Prelude
begin

text \<open>
  The macro layer of libnvm: bit fields and alignment (\<open>include/nvm_util.h\<close>), the register
  fields of \<open>src/regs.h\<close>, status packing (\<open>include/nvm_error.h\<close>) and the small helpers of
  \<open>src/lib_util.h\<close>.  Sizes and addresses are 64-bit words, so every sum and product wraps as
  in C.  The lemmas show what the macros compute on natural numbers and that fields written
  with the write macro are read back by the read macro.
\<close>

section \<open>Bit fields (nvm\_util.h)\<close>

definition NVM_MASK :: "nat \<Rightarrow> u64" where
  "NVM_MASK num_bits = push_bit num_bits 1 - 1"

definition NVM_MASK_PART :: "nat \<Rightarrow> nat \<Rightarrow> u64" where
  "NVM_MASK_PART hi lo = NVM_MASK (hi + 1) - NVM_MASK lo"

text \<open>\<open>_RB\<close>: extract bits \<open>hi..lo\<close>; \<open>_WB\<close>: place a value at bits \<open>hi..lo\<close>.\<close>

definition RB :: "u64 \<Rightarrow> nat \<Rightarrow> nat \<Rightarrow> u64" where
  "RB v hi lo = drop_bit lo (v AND NVM_MASK_PART hi lo)"

definition WB :: "u64 \<Rightarrow> nat \<Rightarrow> nat \<Rightarrow> u64" where
  "WB v hi lo = push_bit lo v AND NVM_MASK_PART hi lo"

section \<open>Pages and alignment (nvm\_util.h)\<close>

definition NVM_PAGE_TO_BLOCK :: "u64 \<Rightarrow> u64 \<Rightarrow> u64 \<Rightarrow> u64" where
  "NVM_PAGE_TO_BLOCK page_size block_size pageno = (page_size * pageno) div block_size"

definition NVM_BLOCK_TO_PAGE :: "u64 \<Rightarrow> u64 \<Rightarrow> u64 \<Rightarrow> u64" where
  "NVM_BLOCK_TO_PAGE page_size block_size blockno = (block_size * blockno) div page_size"

definition NVM_PAGE_MASK :: "u64 \<Rightarrow> u64" where
  "NVM_PAGE_MASK page_size = NOT (page_size - 1)"

definition NVM_ADDR_MASK :: "u64 \<Rightarrow> u64 \<Rightarrow> u64" where
  "NVM_ADDR_MASK addr page_size = addr AND NVM_PAGE_MASK page_size"

definition NVM_PAGE_ALIGN :: "u64 \<Rightarrow> u64 \<Rightarrow> u64" where
  "NVM_PAGE_ALIGN sz page_size = (sz + page_size - 1) AND NVM_PAGE_MASK page_size"

definition NVM_ADDR_OFFSET :: "u64 \<Rightarrow> u64 \<Rightarrow> u64 \<Rightarrow> u64" where
  "NVM_ADDR_OFFSET addr page_size pageno = addr + page_size * pageno"

definition NVM_PTR_OFFSET :: "u64 \<Rightarrow> u64 \<Rightarrow> u64 \<Rightarrow> u64" where
  "NVM_PTR_OFFSET ptr page_size pageno = ptr + page_size * pageno"

text \<open>\<open>NVM_CTRL_ALIGN\<close> / \<open>NVM_CTRL_PAGES\<close> take the controller's page size.\<close>

definition NVM_CTRL_ALIGN :: "u64 \<Rightarrow> u64 \<Rightarrow> u64" where
  "NVM_CTRL_ALIGN ctrl_page_size sz = NVM_PAGE_ALIGN sz ctrl_page_size"

definition NVM_CTRL_PAGES :: "u64 \<Rightarrow> u64 \<Rightarrow> u64" where
  "NVM_CTRL_PAGES ctrl_page_size sz = NVM_CTRL_ALIGN ctrl_page_size sz div ctrl_page_size"

definition sizeof_nvm_cmd_t :: u64 where "sizeof_nvm_cmd_t = 64"

definition sizeof_nvm_cpl_t :: u64 where "sizeof_nvm_cpl_t = 16"

text \<open>The cast to \<open>uint16_t\<close> of \<open>qs - 1\<close> is written out.\<close>

definition NVM_SQ_PAGES :: "u64 \<Rightarrow> u64 \<Rightarrow> u64" where
  "NVM_SQ_PAGES ctrl_page_size qs =
     (ucast (ucast (qs - 1) :: u16) * sizeof_nvm_cmd_t) div ctrl_page_size + 1"

definition NVM_CQ_PAGES :: "u64 \<Rightarrow> u64 \<Rightarrow> u64" where
  "NVM_CQ_PAGES ctrl_page_size qs =
     (ucast (ucast (qs - 1) :: u16) * sizeof_nvm_cpl_t) div ctrl_page_size + 1"

section \<open>Controller registers (regs.h)\<close>

definition CAP_MPSMAX :: "u64 \<Rightarrow> u64" where "CAP_MPSMAX cap = RB cap 55 52"
definition CAP_MPSMIN :: "u64 \<Rightarrow> u64" where "CAP_MPSMIN cap = RB cap 51 48"
definition CAP_DSTRD :: "u64 \<Rightarrow> u64" where "CAP_DSTRD cap = RB cap 35 32"
definition CAP_TO :: "u64 \<Rightarrow> u64" where "CAP_TO cap = RB cap 31 24"
definition CAP_CQR :: "u64 \<Rightarrow> u64" where "CAP_CQR cap = RB cap 16 16"
definition CAP_MQES :: "u64 \<Rightarrow> u64" where "CAP_MQES cap = RB cap 15 0"
definition CSTS_RDY :: "u64 \<Rightarrow> u64" where "CSTS_RDY csts = RB csts 0 0"

definition CC_IOCQES :: "u64 \<Rightarrow> u64" where "CC_IOCQES v = WB v 23 20"
definition CC_IOSQES :: "u64 \<Rightarrow> u64" where "CC_IOSQES v = WB v 19 16"
definition CC_MPS :: "u64 \<Rightarrow> u64" where "CC_MPS v = WB v 10 7"
definition CC_CSS :: "u64 \<Rightarrow> u64" where "CC_CSS v = WB 0 3 1"
definition CC_EN :: "u64 \<Rightarrow> u64" where "CC_EN v = WB v 0 0"
definition AQA_ACQS :: "u64 \<Rightarrow> u64" where "AQA_ACQS v = WB v 27 16"
definition AQA_ASQS :: "u64 \<Rightarrow> u64" where "AQA_ASQS v = WB v 11 0"

text \<open>Fields of the controller configuration register, composed as \<open>nvm_raw_ctrl_reset\<close> writes them (src/ctrl.cpp).\<close>

definition cc_enable :: "u64 \<Rightarrow> u64 \<Rightarrow> u64 \<Rightarrow> u64" where
  "cc_enable cqes sqes mps =
     CC_IOCQES cqes OR CC_IOSQES sqes OR CC_MPS mps OR CC_CSS 0 OR CC_EN 1"

definition SQ_DBL :: "u64 \<Rightarrow> u64 \<Rightarrow> nat \<Rightarrow> u64" where
  "SQ_DBL p y dstrd = p + 0x1000 + (2 * y) * push_bit dstrd 4"

definition CQ_DBL :: "u64 \<Rightarrow> u64 \<Rightarrow> nat \<Rightarrow> u64" where
  "CQ_DBL p y dstrd = p + 0x1000 + (2 * y + 1) * push_bit dstrd 4"

section \<open>Status codes (nvm\_error.h)\<close>

text \<open>The status field of a completion is its 16-bit word at byte 14 (phase tag in bit 0).\<close>

definition NVM_ERR_SCT :: "u16 \<Rightarrow> u8" where
  "NVM_ERR_SCT sf = ucast (RB (ucast sf) 11 9)"

definition NVM_ERR_SC :: "u16 \<Rightarrow> u8" where
  "NVM_ERR_SC sf = ucast (RB (ucast sf) 8 1)"

definition NVM_ERR_DNR :: "u16 \<Rightarrow> bool" where
  "NVM_ERR_DNR sf \<longleftrightarrow> RB (ucast sf) 15 15 \<noteq> 0"

definition NVM_ERR_STATUS :: "u16 option \<Rightarrow> int" where
  "NVM_ERR_STATUS cpl =
     (case cpl of None \<Rightarrow> 0
      | Some sf \<Rightarrow> - (push_bit 8 (uint (NVM_ERR_SCT sf)) OR uint (NVM_ERR_SC sf)))"

definition NVM_ERR_OK :: "u16 \<Rightarrow> bool" where
  "NVM_ERR_OK sf \<longleftrightarrow> NVM_ERR_SCT sf = 0 \<and> NVM_ERR_SC sf = 0"

definition NVM_ERR_PACK :: "u16 option \<Rightarrow> int \<Rightarrow> int" where
  "NVM_ERR_PACK cpl err = (if err \<noteq> 0 then err else NVM_ERR_STATUS cpl)"

definition NVM_ERR_UNPACK_ERRNO :: "int \<Rightarrow> int" where
  "NVM_ERR_UNPACK_ERRNO status = (if status > 0 then status else 0)"

definition NVM_ERR_UNPACK_SCT :: "int \<Rightarrow> int" where
  "NVM_ERR_UNPACK_SCT status = (if status < 0 then drop_bit 8 (- status) AND 0xff else 0)"

definition NVM_ERR_UNPACK_SC :: "int \<Rightarrow> int" where
  "NVM_ERR_UNPACK_SC status = (if status < 0 then (- status) AND 0xff else 0)"

definition nvm_ok :: "int \<Rightarrow> bool" where
  "nvm_ok status \<longleftrightarrow> status = 0"

section \<open>Helpers (lib\_util.h)\<close>

text \<open>The loop of \<open>_nvm_b2log\<close>: \<open>count\<close> is incremented while \<open>n > 0\<close>, one is subtracted at the end.\<close>

function b2log_loop :: "u32 \<Rightarrow> u32 \<Rightarrow> u32" where
  "b2log_loop n count = (if n > 0 then b2log_loop (drop_bit 1 n) (count + 1) else count)"
  by pat_completeness auto
termination
proof (relation "measure (\<lambda>(n, count). unat n)")
  fix n count :: u32 assume "n > 0"
  then have "unat n > 0" by (simp add: word_less_nat_alt)
  then show "((drop_bit 1 n, count + 1), n, count) \<in> measure (\<lambda>(n, count). unat n)"
    using unat_drop_bit_div [of 1 n] by simp
qed simp

declare b2log_loop.simps [simp del]

definition nvm_b2log :: "u32 \<Rightarrow> u32" where
  "nvm_b2log n = b2log_loop n 0 - 1"

definition nvm_delay_remain :: "u64 \<Rightarrow> u64" where
  "nvm_delay_remain remaining_nanoseconds =
     (if remaining_nanoseconds = 0 then 0
      else remaining_nanoseconds - min 1000000 remaining_nanoseconds)"

section \<open>Lemmas: bit fields\<close>

lemma NVM_MASK_eq: "NVM_MASK n = mask n"
  unfolding NVM_MASK_def by (rule push_bit_one_minus_one)

lemma bit_NVM_MASK_PART:
  "lo \<le> hi \<Longrightarrow> bit (NVM_MASK_PART hi lo) n \<longleftrightarrow> n < 64 \<and> lo \<le> n \<and> n \<le> hi"
  by (auto simp: NVM_MASK_PART_def NVM_MASK_eq mask_minus_and_not bit_simps)

lemma bit_RB:
  "lo \<le> hi \<Longrightarrow> bit (RB v hi lo) n \<longleftrightarrow> n \<le> hi - lo \<and> bit v (lo + n)"
  by (auto simp: RB_def bit_simps bit_NVM_MASK_PART dest: bit_imp_le_length)

lemma bit_WB:
  "lo \<le> hi \<Longrightarrow> bit (WB v hi lo) n \<longleftrightarrow> n < 64 \<and> lo \<le> n \<and> n \<le> hi \<and> bit v (n - lo)"
  by (auto simp: WB_def bit_simps bit_NVM_MASK_PART)

lemma RB_OR: "lo \<le> hi \<Longrightarrow> RB (a OR b) hi lo = RB a hi lo OR RB b hi lo"
  by (rule bit_word_eqI) (auto simp: bit_RB bit_simps)

lemma RB_WB_same:
  "lo \<le> hi \<Longrightarrow> hi < 64 \<Longrightarrow> RB (WB v hi lo) hi lo = take_bit (hi - lo + 1) v"
  by (rule bit_word_eqI) (auto simp: bit_RB bit_WB bit_simps)

lemma RB_WB_disjoint:
  "lo \<le> hi \<Longrightarrow> lo' \<le> hi' \<Longrightarrow> hi < lo' \<or> hi' < lo \<Longrightarrow> RB (WB v hi lo) hi' lo' = 0"
  by (rule bit_word_eqI) (auto simp: bit_RB bit_WB bit_simps)

lemma RB_bound: "lo \<le> hi \<Longrightarrow> RB v hi lo \<le> mask (hi - lo + 1)"
proof -
  assume "lo \<le> hi"
  then have "RB v hi lo AND mask (hi - lo + 1) = RB v hi lo"
    by (intro bit_word_eqI) (auto simp: bit_RB bit_simps dest: bit_imp_le_length)
  then show ?thesis by (metis word_and_le1)
qed

lemma RB_eq_take_bit: "lo \<le> hi \<Longrightarrow> RB v hi lo = take_bit (hi - lo + 1) (drop_bit lo v)"
  by (rule bit_word_eqI) (auto simp: bit_RB bit_simps)

lemmas cc_defs = CC_IOCQES_def CC_IOSQES_def CC_MPS_def CC_CSS_def CC_EN_def

section \<open>Lemmas: alignment\<close>

lemma NVM_PAGE_MASK_pow2: "k < 64 \<Longrightarrow> NVM_PAGE_MASK (push_bit k 1) = NOT (mask k)"
  unfolding NVM_PAGE_MASK_def push_bit_one_minus_one by (rule refl)

lemma unat_and_not_mask: "unat (w AND NOT (mask k)) = unat w div 2 ^ k * 2 ^ k" for w :: u64
proof -
  have "w = (w AND NOT (mask k)) + (w AND mask k)"
    by (subst disjunctive_add) (auto simp: bit_eq_iff bit_simps)
  moreover have "w AND mask k \<le> w" by (rule word_and_le2)
  ultimately have "w AND NOT (mask k) = w - (w AND mask k)"
    by (metis add_diff_cancel_right')
  then have "unat (w AND NOT (mask k)) = unat w - unat w mod 2 ^ k"
    using \<open>w AND mask k \<le> w\<close> by (simp add: unat_sub unat_simps)
  then show ?thesis by (simp add: minus_mod_eq_div_mult)
qed

lemma unat_pow2: "k < 64 \<Longrightarrow> unat (push_bit k 1 :: u64) = 2 ^ k"
proof -
  assume k: "k < 64"
  have "unat (push_bit k 1 :: u64) = take_bit 64 (push_bit k (unat (1::u64)))"
    unfolding unsigned_push_bit_eq by simp
  also have "\<dots> = 2 ^ k mod 2 ^ 64" by (simp add: take_bit_eq_mod)
  also have "\<dots> = 2 ^ k"
  proof (rule mod_less)
    show "(2::nat) ^ k < 2 ^ 64" using k by (rule power_strict_increasing) simp
  qed
  finally show ?thesis .
qed

lemma unat_NVM_PAGE_ALIGN:
  assumes "k < 64" and "unat sz + 2 ^ k \<le> 2 ^ 64"
  shows "unat (NVM_PAGE_ALIGN sz (push_bit k 1)) = (unat sz + 2 ^ k - 1) div 2 ^ k * 2 ^ k"
proof -
  let ?p = "push_bit k 1 :: u64"
  have p: "unat ?p = 2 ^ k" using assms(1) by (rule unat_pow2)
  have m: "unat (?p - 1) = 2 ^ k - 1"
    by (subst unat_sub) (use p in \<open>simp_all add: word_le_nat_alt\<close>)
  have "unat (sz + (?p - 1)) = unat sz + (2 ^ k - 1)"
    by (subst unat_add_bounded) (use assms(2) m in \<open>simp_all\<close>)
  then have s: "unat (sz + ?p - 1) = unat sz + 2 ^ k - 1"
    by (simp add: add_diff_eq)
  show ?thesis
    unfolding NVM_PAGE_ALIGN_def NVM_PAGE_MASK_pow2 [OF assms(1)] unat_and_not_mask s by (rule refl)
qed

section \<open>Lemmas: status codes\<close>

lemma NVM_ERR_SCT_bound: "uint (NVM_ERR_SCT sf) < 8"
proof -
  have "RB (ucast sf) 11 9 \<le> (mask (11 - 9 + 1) :: u64)" by (rule RB_bound) simp
  moreover have "11 - 9 + 1 = (3::nat)" by simp
  ultimately have "RB (ucast sf) 11 9 \<le> (mask 3 :: u64)" by (simp only:)
  moreover have "unat (mask 3 :: u64) = 7" by (simp add: mask_numeral)
  ultimately have "unat (RB (ucast sf) 11 9) \<le> 7" by (simp only: word_le_nat_alt)
  moreover have "unat (NVM_ERR_SCT sf) \<le> unat (RB (ucast sf) 11 9)"
    unfolding NVM_ERR_SCT_def unsigned_ucast_eq by (rule take_bit_nat_less_eq_self)
  ultimately have "unat (NVM_ERR_SCT sf) \<le> 7" by linarith
  then have "int (unat (NVM_ERR_SCT sf)) < 8" by linarith
  then show ?thesis by (simp only: of_nat_unat)
qed

lemma status_join:
  fixes a b :: int
  assumes "0 \<le> a" and "0 \<le> b" and "b < 256"
  shows "push_bit 8 a OR b = 256 * a + b"
proof -
  have "take_bit 8 b = b" using assms(2,3) by (simp add: take_bit_eq_mod)
  then have "\<not> (bit (push_bit 8 a) n \<and> bit b n)" for n
    by (metis bit_push_bit_iff bit_take_bit_iff linorder_not_le)
  then have "push_bit 8 a OR b = push_bit 8 a + b"
    by (simp add: disjunctive_add)
  then show ?thesis by (simp add: push_bit_eq_mult)
qed

lemma NVM_ERR_STATUS_value:
  "NVM_ERR_STATUS (Some sf) = - (256 * uint (NVM_ERR_SCT sf) + uint (NVM_ERR_SC sf))"
proof -
  have "uint (NVM_ERR_SC sf) < 256" using uint_lt2p [of "NVM_ERR_SC sf"] by simp
  then show ?thesis by (simp add: NVM_ERR_STATUS_def status_join)
qed

lemma unpack_join:
  fixes a b :: int
  assumes "0 \<le> a" and "a < 256" and "0 \<le> b" and "b < 256"
  shows "drop_bit 8 (256 * a + b) AND 0xff = a" and "(256 * a + b) AND 0xff = b"
proof -
  have m: "0xff = (mask 8 :: int)" by (simp add: mask_eq_exp_minus_1)
  show "drop_bit 8 (256 * a + b) AND 0xff = a"
    unfolding m by (simp add: drop_bit_eq_div take_bit_eq_mod assms flip: take_bit_eq_mask)
  show "(256 * a + b) AND 0xff = b"
    unfolding m by (simp add: take_bit_eq_mod assms flip: take_bit_eq_mask)
qed

lemma unpack_packed:
  fixes a b :: int
  assumes "0 \<le> a" and "a < 256" and "0 \<le> b" and "b < 256"
  shows "NVM_ERR_UNPACK_SCT (- (256 * a + b)) = a" and "NVM_ERR_UNPACK_SC (- (256 * a + b)) = b"
    and "NVM_ERR_UNPACK_ERRNO (- (256 * a + b)) = 0"
proof -
  define s where "s = 256 * a + b"
  have "s = 0 \<and> a = 0 \<and> b = 0 \<or> 0 < s" using assms(1,3) unfolding s_def by linarith
  moreover have "drop_bit 8 s AND 0xff = a" "s AND 0xff = b"
    using unpack_join [OF assms] unfolding s_def by simp_all
  ultimately have "NVM_ERR_UNPACK_SCT (- s) = a \<and> NVM_ERR_UNPACK_SC (- s) = b \<and> NVM_ERR_UNPACK_ERRNO (- s) = 0"
    by (auto simp: NVM_ERR_UNPACK_SCT_def NVM_ERR_UNPACK_SC_def NVM_ERR_UNPACK_ERRNO_def)
  then show "NVM_ERR_UNPACK_SCT (- (256 * a + b)) = a" "NVM_ERR_UNPACK_SC (- (256 * a + b)) = b"
    "NVM_ERR_UNPACK_ERRNO (- (256 * a + b)) = 0" unfolding s_def by simp_all
qed

section \<open>Lemmas: logarithm and delays\<close>

lemma b2log_loop_count: "b2log_loop n (count + 1) = b2log_loop n count + 1"
proof (induction n count rule: b2log_loop.induct)
  case (1 n count)
  show ?case
  proof (cases "n > 0")
    case True
    then show ?thesis
      using 1 by (simp add: b2log_loop.simps [of n])
  next
    case False
    then show ?thesis by (simp add: b2log_loop.simps [of n])
  qed
qed

lemma nvm_b2log_step: "1 < n \<Longrightarrow> nvm_b2log n = nvm_b2log (drop_bit 1 n) + 1"
proof -
  assume "1 < n"
  then have "n > 0" by (metis order_less_trans word_gt_0 zero_neq_one word_less_1)
  then have "b2log_loop n 0 = b2log_loop (drop_bit 1 n) 0 + 1"
    by (subst b2log_loop.simps) (simp add: b2log_loop_count [of _ 0, simplified])
  then show ?thesis by (simp add: nvm_b2log_def)
qed

lemma nvm_b2log_one: "nvm_b2log 1 = 0"
  by (simp add: nvm_b2log_def b2log_loop.simps)

lemma nvm_b2log_bounds_aux:
  "unat n = m \<Longrightarrow> 0 < m \<Longrightarrow> 2 ^ unat (nvm_b2log n) \<le> m \<and> m < 2 ^ (unat (nvm_b2log n) + 1) \<and>
     unat (nvm_b2log n) < 32"
proof (induction m arbitrary: n rule: less_induct)
  case (less m)
  show ?case
  proof (cases "m = 1")
    case True
    then have "n = 1" using less.prems(1) by (metis unat_1 word_unat_eq_iff)
    then show ?thesis using True by (simp add: nvm_b2log_one)
  next
    case False
    then have gt: "1 < n" and m2: "m div 2 > 0" "m div 2 < m"
      using less.prems by (auto simp: word_less_nat_alt)
    have d: "unat (drop_bit 1 n) = m div 2"
      using unat_drop_bit_div [of 1 n] less.prems(1) by simp
    let ?b = "unat (nvm_b2log (drop_bit 1 n))"
    have IH: "2 ^ ?b \<le> m div 2" "m div 2 < 2 ^ (?b + 1)" "?b < 32"
      using less.IH [OF m2(2) d m2(1)] by auto
    have "m < 2 ^ 32" using less.prems(1) unsigned_less [of n, where 'a = nat] by simp
    then have "m div 2 < 2 ^ 31" by simp
    then have "(2::nat) ^ ?b < 2 ^ 31" using IH(1) by (rule le_less_trans [rotated])
    then have "?b < 31" by (rule power_less_imp_less_exp [rotated]) simp
    then have "unat (nvm_b2log n) = ?b + 1"
      by (simp add: nvm_b2log_step [OF gt] unat_inc)
    then show ?thesis using IH \<open>?b < 31\<close> by auto
  qed
qed

lemma nvm_delay_remain_less: "r > 0 \<Longrightarrow> unat (nvm_delay_remain r) < unat r"
proof -
  assume r: "r > 0"
  have "min 1000000 r \<le> r" by simp
  moreover have "unat (min 1000000 r) > 0" using r by (simp add: min_def word_less_nat_alt)
  moreover have "r \<noteq> 0" using r by (simp add: word_gt_0)
  moreover have "unat r > 0" using r by (simp add: word_less_nat_alt)
  ultimately show ?thesis by (simp add: nvm_delay_remain_def unat_sub)
qed

section \<open>Properties\<close>

text \<open>C38: A completion's status survives packing into an \<open>int\<close>: when no errno is given, the
  status code type and the status code are unpacked exactly and the errno part is 0; a positive
  errno is unpacked exactly and hides the completion; the result is 0 exactly when the errno is
  0 and the completion reports success.\<close>

theorem NVM_ERR_roundtrip:
  "NVM_ERR_UNPACK_SCT (NVM_ERR_PACK (Some sf) 0) = uint (NVM_ERR_SCT sf) \<and>
   NVM_ERR_UNPACK_SC (NVM_ERR_PACK (Some sf) 0) = uint (NVM_ERR_SC sf) \<and>
   NVM_ERR_UNPACK_ERRNO (NVM_ERR_PACK (Some sf) 0) = 0 \<and>
   NVM_ERR_UNPACK_ERRNO (NVM_ERR_PACK cpl (int (Suc e))) = int (Suc e) \<and>
   (nvm_ok (NVM_ERR_PACK (Some sf) err) \<longleftrightarrow> err = 0 \<and> NVM_ERR_OK sf)"
proof -
  let ?a = "uint (NVM_ERR_SCT sf)" and ?b = "uint (NVM_ERR_SC sf)"
  have r: "0 \<le> ?a" "?a < 256" "0 \<le> ?b" "?b < 256"
    using NVM_ERR_SCT_bound [of sf] uint_lt2p [of "NVM_ERR_SC sf"] by simp_all
  have p: "NVM_ERR_PACK (Some sf) 0 = - (256 * ?a + ?b)"
    by (simp add: NVM_ERR_PACK_def NVM_ERR_STATUS_value)
  have z: "256 * ?a + ?b = 0 \<longleftrightarrow> ?a = 0 \<and> ?b = 0" using r(1,3) by linarith
  note unpack_packed [OF r]
  moreover have "nvm_ok (NVM_ERR_PACK (Some sf) err) \<longleftrightarrow> err = 0 \<and> NVM_ERR_OK sf"
    using p z by (auto simp: nvm_ok_def NVM_ERR_OK_def NVM_ERR_PACK_def uint_0_iff)
  ultimately show ?thesis
    unfolding p by (simp add: NVM_ERR_PACK_def NVM_ERR_UNPACK_ERRNO_def)
qed

text \<open>\<open>NVM_PAGE_ALIGN\<close> rounds up: for a power-of-two page size and a size that does not wrap,
  the result is the least multiple of the page size that is at least the size.\<close>

theorem NVM_PAGE_ALIGN_least:
  assumes "k < 64" and "unat sz + 2 ^ k \<le> 2 ^ 64"
  shows "2 ^ k dvd unat (NVM_PAGE_ALIGN sz (push_bit k 1)) \<and>
         unat sz \<le> unat (NVM_PAGE_ALIGN sz (push_bit k 1)) \<and>
         unat (NVM_PAGE_ALIGN sz (push_bit k 1)) < unat sz + 2 ^ k"
proof -
  let ?p = "2 ^ k :: nat"
  have p: "0 < ?p" by simp
  have v: "unat (NVM_PAGE_ALIGN sz (push_bit k 1)) = (unat sz + ?p - 1) div ?p * ?p"
    using assms by (rule unat_NVM_PAGE_ALIGN)
  have "(unat sz + ?p - 1) div ?p * ?p + (unat sz + ?p - 1) mod ?p = unat sz + ?p - 1"
    by (rule div_mult_mod_eq)
  moreover have "(unat sz + ?p - 1) mod ?p < ?p" using p by (rule mod_less_divisor)
  ultimately have "unat sz \<le> (unat sz + ?p - 1) div ?p * ?p" "(unat sz + ?p - 1) div ?p * ?p < unat sz + ?p"
    using p by linarith+
  then show ?thesis unfolding v by simp
qed

theorem NVM_PAGE_ALIGN_least_witness:
  "unat (NVM_PAGE_ALIGN 5000 (push_bit 12 1)) < 5000 + 4096 \<and> 5000 \<le> unat (NVM_PAGE_ALIGN 5000 (push_bit 12 1))"
  using NVM_PAGE_ALIGN_least [of 12 5000] by simp

text \<open>\<open>_nvm_b2log\<close> computes the floor of the binary logarithm of every positive number.\<close>

theorem nvm_b2log_floor:
  assumes "0 < n"
  shows "2 ^ unat (nvm_b2log n) \<le> unat n \<and> unat n < 2 ^ (unat (nvm_b2log n) + 1)"
  using nvm_b2log_bounds_aux [OF refl, of n] assms by (simp add: word_less_nat_alt)

theorem nvm_b2log_floor_witness:
  "2 ^ unat (nvm_b2log 1000) \<le> (1000::nat) \<and> 1000 < (2::nat) ^ (unat (nvm_b2log 1000) + 1)"
  using nvm_b2log_floor [of 1000] by simp

text \<open>The controller configuration word that the reset sequence writes holds the three
  encoded sizes, each cut to its four bits, with the command set field 0 and the enable bit set:
  no field overlaps another.\<close>

theorem cc_enable_fields:
  "RB (cc_enable cqes sqes mps) 23 20 = take_bit 4 cqes \<and>
   RB (cc_enable cqes sqes mps) 19 16 = take_bit 4 sqes \<and>
   RB (cc_enable cqes sqes mps) 10 7 = take_bit 4 mps \<and>
   RB (cc_enable cqes sqes mps) 3 1 = 0 \<and>
   RB (cc_enable cqes sqes mps) 0 0 = 1"
proof -
  have "RB (WB v hi lo) hi lo = take_bit 4 v" if "lo + 3 = hi" "hi < 64" for v hi lo
    using that RB_WB_same [of lo hi v] by (metis Suc_1 add_diff_cancel_left' eval_nat_numeral(3) le_add1
      numeral_3_eq_3 numeral_eq_Suc plus_1_eq_Suc pred_numeral_simps(2) semiring_norm(26,27) add.commute)
  then show ?thesis
    by (simp add: cc_enable_def cc_defs RB_OR RB_WB_disjoint RB_WB_same)
qed

end
