(* ===== verification/Nvm_Cmd.thy ===== *)
theory Nvm_Cmd
  imports Nvm_Util
begin

text \<open>
  NVM commands (\<open>include/nvm_cmd.h\<close>): the 64-byte command as sixteen 32-bit words, the opcode
  enumerations, the header, data pointer and block range setters, and the builders of physical
  region page (PRP) lists and of chains of such lists.  PRP pages live in a memory indexed by
  byte address that holds one 64-bit entry per aligned address; \<open>ioaddrs\<close> is the caller's
  array, read through a pointer.  The last section walks a finished chain the way an NVMe
  controller does and shows that it visits exactly the caller's addresses, in order.
\<close>

section \<open>Commands\<close>

record nvm_cmd_t =
  dword :: "u32 list"

definition wf_cmd :: "nvm_cmd_t \<Rightarrow> bool" where
  "wf_cmd cmd \<longleftrightarrow> length (dword cmd) = 16"

definition NVM_CMD_NS_ALL :: u32 where "NVM_CMD_NS_ALL = 0xffffffff"

definition NVM_CMD_OPCODE :: "u64 \<Rightarrow> u64 \<Rightarrow> u64 \<Rightarrow> u64" where
  "NVM_CMD_OPCODE gen fn data = WB gen 7 7 OR WB fn 6 2 OR WB data 1 0"

datatype nvm_io_command_set = NVM_IO_FLUSH | NVM_IO_WRITE | NVM_IO_READ | NVM_IO_WRITE_ZEROES

fun io_opcode :: "nvm_io_command_set \<Rightarrow> u64" where
  "io_opcode NVM_IO_FLUSH = NVM_CMD_OPCODE 0 0 0"
| "io_opcode NVM_IO_WRITE = NVM_CMD_OPCODE 0 0 1"
| "io_opcode NVM_IO_READ = NVM_CMD_OPCODE 0 0 2"
| "io_opcode NVM_IO_WRITE_ZEROES = NVM_CMD_OPCODE 0 2 0"

datatype nvm_admin_command_set =
    NVM_ADMIN_DELETE_SQ | NVM_ADMIN_CREATE_SQ | NVM_ADMIN_GET_LOG_PAGE
  | NVM_ADMIN_DELETE_CQ | NVM_ADMIN_CREATE_CQ | NVM_ADMIN_IDENTIFY
  | NVM_ADMIN_ABORT | NVM_ADMIN_SET_FEATURES | NVM_ADMIN_GET_FEATURES

fun admin_opcode :: "nvm_admin_command_set \<Rightarrow> u64" where
  "admin_opcode NVM_ADMIN_DELETE_SQ = NVM_CMD_OPCODE 0 0 0"
| "admin_opcode NVM_ADMIN_CREATE_SQ = NVM_CMD_OPCODE 0 0 1"
| "admin_opcode NVM_ADMIN_GET_LOG_PAGE = NVM_CMD_OPCODE 0 0 2"
| "admin_opcode NVM_ADMIN_DELETE_CQ = NVM_CMD_OPCODE 0 1 0"
| "admin_opcode NVM_ADMIN_CREATE_CQ = NVM_CMD_OPCODE 0 1 1"
| "admin_opcode NVM_ADMIN_IDENTIFY = NVM_CMD_OPCODE 0 1 2"
| "admin_opcode NVM_ADMIN_ABORT = NVM_CMD_OPCODE 0 2 0"
| "admin_opcode NVM_ADMIN_SET_FEATURES = NVM_CMD_OPCODE 0 2 1"
| "admin_opcode NVM_ADMIN_GET_FEATURES = NVM_CMD_OPCODE 0 2 2"

definition set_dword :: "nat \<Rightarrow> u32 \<Rightarrow> nvm_cmd_t \<Rightarrow> nvm_cmd_t" where
  "set_dword i v cmd = cmd\<lparr>dword := (dword cmd)[i := v]\<rparr>"

definition nvm_cmd_header :: "nvm_cmd_t \<Rightarrow> u16 \<Rightarrow> u8 \<Rightarrow> u32 \<Rightarrow> nvm_cmd_t" where
  "nvm_cmd_header cmd cid opcode ns_id =
     set_dword 1 ns_id
       (set_dword 0 (push_bit 16 (ucast cid) OR push_bit 14 0 OR push_bit 8 0
                       OR (ucast opcode AND 0x7f)) cmd)"

definition nvm_cmd_data_ptr :: "nvm_cmd_t \<Rightarrow> u64 \<Rightarrow> u64 \<Rightarrow> nvm_cmd_t" where
  "nvm_cmd_data_ptr cmd prp1 prp2 =
     (let cmd0 = set_dword 0 (dword cmd ! 0 AND NOT (push_bit 14 3 OR push_bit 8 3)) cmd;
          cmd6 = set_dword 6 (ucast prp1) cmd0;
          cmd7 = set_dword 7 (ucast (drop_bit 32 prp1)) cmd6;
          cmd8 = set_dword 8 (ucast prp2) cmd7
      in set_dword 9 (ucast (drop_bit 32 prp2)) cmd8)"

text \<open>\<open>n_blks - 1\<close> is computed after promotion to \<open>int\<close>; masking makes 0 blocks mean 65536.\<close>

definition nvm_cmd_rw_blks :: "nvm_cmd_t \<Rightarrow> u64 \<Rightarrow> u16 \<Rightarrow> nvm_cmd_t" where
  "nvm_cmd_rw_blks cmd start_lba n_blks =
     (let cmd10 = set_dword 10 (ucast start_lba) cmd;
          cmd11 = set_dword 11 (ucast (drop_bit 32 start_lba)) cmd10
      in set_dword 12 ((dword cmd11 ! 12 AND 0xffff0000) OR ((ucast n_blks - 1) AND 0xffff)) cmd11)"

section \<open>PRP lists\<close>

record nvm_prp_list_t =
  pl_vaddr :: u64
  pl_local :: bool
  pl_page_size :: nat
  pl_ioaddr :: u64

type_synonym prp_mem = "u64 \<Rightarrow> u64"

definition entry_addr :: "u64 \<Rightarrow> nat \<Rightarrow> u64" where
  "entry_addr vaddr i = vaddr + 8 * of_nat i"

text \<open>The copy loop: the memory after \<open>n\<close> iterations.\<close>

primrec prp_fill :: "prp_mem \<Rightarrow> u64 \<Rightarrow> (nat \<Rightarrow> u64) \<Rightarrow> nat \<Rightarrow> prp_mem" where
  "prp_fill mem vaddr ioaddrs 0 = mem"
| "prp_fill mem vaddr ioaddrs (Suc n) =
     (prp_fill mem vaddr ioaddrs n)(entry_addr vaddr n := ioaddrs n)"

text \<open>\<open>--n_prps\<close> is on a \<open>size_t\<close>: it wraps for a page smaller than one entry.\<close>

definition nvm_prp_list :: "prp_mem \<Rightarrow> nvm_prp_list_t \<Rightarrow> nat \<Rightarrow> (nat \<Rightarrow> u64) \<Rightarrow> prp_mem \<times> nat" where
  "nvm_prp_list mem l n_pages ioaddrs =
     (if n_pages = 0 then (mem, 0)
      else
        (let n_prps = pl_page_size l div 8;
             n_prps = (if n_pages > n_prps then (n_prps + 2 ^ 64 - 1) mod 2 ^ 64 else n_pages)
         in (prp_fill mem (pl_vaddr l) ioaddrs n_prps, n_prps)))"

function prp_chain_loop ::
  "prp_mem \<Rightarrow> nvm_prp_list_t list \<Rightarrow> nat \<Rightarrow> nat \<Rightarrow> nat \<Rightarrow> nat \<Rightarrow> nat \<Rightarrow> (nat \<Rightarrow> u64) \<Rightarrow> prp_mem \<times> nat"
where
  "prp_chain_loop mem ls i_list n_lists list_prps n_prps n_pages ioaddrs =
     (if i_list < n_lists \<and> n_prps < n_pages then
        (let mem1 = mem(entry_addr (pl_vaddr (ls ! (i_list - 1))) list_prps := pl_ioaddr (ls ! i_list));
             (mem2, list_prps') = nvm_prp_list mem1 (ls ! i_list) (n_pages - n_prps)
                                    (\<lambda>k. ioaddrs (n_prps + k))
         in prp_chain_loop mem2 ls (i_list + 1) n_lists list_prps' (n_prps + list_prps') n_pages ioaddrs)
      else (mem, n_prps))"
  by pat_completeness auto
termination
  by (relation "measure (\<lambda>(mem, ls, i_list, n_lists, _). n_lists - i_list)") auto

declare prp_chain_loop.simps [simp del]

text \<open>A \<open>NULL\<close> list array is \<open>None\<close>.\<close>

definition nvm_prp_list_chain ::
  "prp_mem \<Rightarrow> nat \<Rightarrow> nvm_prp_list_t list option \<Rightarrow> nat \<Rightarrow> (nat \<Rightarrow> u64) \<Rightarrow> prp_mem \<times> nat"
where
  "nvm_prp_list_chain mem n_lists list_arr n_pages ioaddrs =
     (case list_arr of
        None \<Rightarrow> (mem, 0)
      | Some ls \<Rightarrow>
          if n_lists = 0 then (mem, 0)
          else
            (let (mem1, list_prps) = nvm_prp_list mem (ls ! 0) n_pages ioaddrs
             in prp_chain_loop mem1 ls 1 n_lists list_prps list_prps n_pages ioaddrs))"

definition nvm_cmd_data ::
  "prp_mem \<Rightarrow> nvm_cmd_t \<Rightarrow> nat \<Rightarrow> nvm_prp_list_t list option \<Rightarrow> nat \<Rightarrow> (nat \<Rightarrow> u64)
     \<Rightarrow> prp_mem \<times> nvm_cmd_t \<times> nat"
where
  "nvm_cmd_data mem cmd n_lists list_arr n_pages ioaddrs =
     (if n_pages = 0 then (mem, cmd, 0)
      else
        (let n_lists' = (case list_arr of None \<Rightarrow> 0 | Some _ \<Rightarrow> n_lists);
             dptr0 = ioaddrs 0
         in if n_pages > 2 \<and> n_lists' \<noteq> 0 then
              (let (mem1, k) = nvm_prp_list_chain mem n_lists' list_arr (n_pages - 1) (\<lambda>j. ioaddrs (1 + j));
                   dptr1 = pl_ioaddr (the list_arr ! 0)
               in (mem1, nvm_cmd_data_ptr cmd dptr0 dptr1, 1 + k))
            else if n_pages \<ge> 2 then (mem, nvm_cmd_data_ptr cmd dptr0 (ioaddrs 1), 2)
            else (mem, nvm_cmd_data_ptr cmd dptr0 0, 1)))"

text \<open>\<open>NVM_PRP_LIST_INIT\<close> and \<open>NVM_PRP_LIST\<close>, the latter on the fields of a DMA descriptor.\<close>

definition NVM_PRP_LIST_INIT :: "u64 \<Rightarrow> bool \<Rightarrow> nat \<Rightarrow> u64 \<Rightarrow> nvm_prp_list_t" where
  "NVM_PRP_LIST_INIT vaddr loc page_size ioaddr =
     \<lparr>pl_vaddr = vaddr, pl_local = loc, pl_page_size = page_size, pl_ioaddr = ioaddr\<rparr>"

record nvm_dma_t =
  dma_vaddr :: u64
  dma_local :: bool
  dma_contiguous :: bool
  dma_page_size :: u64
  dma_ioaddrs :: "u64 list"

definition NVM_PRP_LIST :: "nvm_dma_t \<Rightarrow> nat \<Rightarrow> nvm_prp_list_t" where
  "NVM_PRP_LIST dma offset =
     NVM_PRP_LIST_INIT
       (NVM_PTR_OFFSET (dma_vaddr dma) (dma_page_size dma) (of_nat offset))
       (dma_local dma) (unat (dma_page_size dma)) (dma_ioaddrs dma ! offset)"

section \<open>What a controller reads\<close>

text \<open>
  The device side of the data pointer (NVMe base specification, PRP lists): a list page of
  \<open>e\<close> entries is read up to the number of pages that remain; when more remain than entries,
  the last entry is the bus address of the next list.  \<open>bus\<close> translates the bus address of a
  list page to the address where the host wrote it.
\<close>

function prp_walk :: "prp_mem \<Rightarrow> (u64 \<Rightarrow> u64) \<Rightarrow> nat \<Rightarrow> nat \<Rightarrow> u64 \<Rightarrow> u64 list" where
  "prp_walk mem bus e n a =
     (if n \<le> e \<or> e < 2 then map (\<lambda>i. mem (entry_addr (bus a) i)) [0..<n]
      else map (\<lambda>i. mem (entry_addr (bus a) i)) [0..<e - 1]
             @ prp_walk mem bus e (n - (e - 1)) (mem (entry_addr (bus a) (e - 1))))"
  by pat_completeness auto
termination by (relation "measure (\<lambda>(mem, bus, e, n, a). n)") auto

declare prp_walk.simps [simp del]

definition cmd_prp1 :: "nvm_cmd_t \<Rightarrow> u64" where
  "cmd_prp1 cmd = push_bit 32 (ucast (dword cmd ! 7)) OR ucast (dword cmd ! 6)"

definition cmd_prp2 :: "nvm_cmd_t \<Rightarrow> u64" where
  "cmd_prp2 cmd = push_bit 32 (ucast (dword cmd ! 9)) OR ucast (dword cmd ! 8)"

definition cmd_slba :: "nvm_cmd_t \<Rightarrow> u64" where
  "cmd_slba cmd = push_bit 32 (ucast (dword cmd ! 11)) OR ucast (dword cmd ! 10)"

definition cmd_nlb :: "nvm_cmd_t \<Rightarrow> nat" where
  "cmd_nlb cmd = unat (dword cmd ! 12 AND 0xffff) + 1"

definition cmd_cid :: "nvm_cmd_t \<Rightarrow> u16" where
  "cmd_cid cmd = ucast (drop_bit 16 (dword cmd ! 0))"

definition cmd_opc :: "nvm_cmd_t \<Rightarrow> u8" where
  "cmd_opc cmd = ucast (dword cmd ! 0 AND 0xff)"

definition device_pages :: "prp_mem \<Rightarrow> (u64 \<Rightarrow> u64) \<Rightarrow> nat \<Rightarrow> nat \<Rightarrow> nvm_cmd_t \<Rightarrow> u64 list" where
  "device_pages mem bus e n cmd =
     (if n = 0 then [] else if n = 1 then [cmd_prp1 cmd]
      else if n = 2 then [cmd_prp1 cmd, cmd_prp2 cmd]
      else cmd_prp1 cmd # prp_walk mem bus e (n - 1) (cmd_prp2 cmd))"

text \<open>The lists handed to the builder: pages of \<open>e\<close> entries, pairwise disjoint, translated by \<open>bus\<close>.\<close>

definition prp_page :: "nat \<Rightarrow> u64 \<Rightarrow> u64 set" where
  "prp_page e vaddr = entry_addr vaddr ` {0..<e}"

definition wf_lists :: "(u64 \<Rightarrow> u64) \<Rightarrow> nat \<Rightarrow> nvm_prp_list_t list \<Rightarrow> bool" where
  "wf_lists bus e ls \<longleftrightarrow>
     2 \<le> e \<and> 8 * e \<le> 0x10000000000000000 \<and>
     (\<forall>l \<in> set ls. pl_page_size l div 8 = e \<and> bus (pl_ioaddr l) = pl_vaddr l) \<and>
     (\<forall>i < length ls. \<forall>j < length ls. i \<noteq> j \<longrightarrow>
        prp_page e (pl_vaddr (ls ! i)) \<inter> prp_page e (pl_vaddr (ls ! j)) = {})"

section \<open>Lemmas: command fields\<close>

lemma set_dword_nth [simp]:
  "i < length (dword cmd) \<Longrightarrow> dword (set_dword i v cmd) ! j = (if j = i then v else dword cmd ! j)"
  by (simp add: set_dword_def)

lemma length_set_dword [simp]: "length (dword (set_dword i v cmd)) = length (dword cmd)"
  by (simp add: set_dword_def)

lemma wf_cmd_length [simp]: "wf_cmd cmd \<Longrightarrow> length (dword cmd) = 16"
  by (simp add: wf_cmd_def)

lemma wf_cmd_setters [simp]:
  assumes "wf_cmd cmd"
  shows "wf_cmd (nvm_cmd_header cmd cid opcode ns_id)"
    and "wf_cmd (nvm_cmd_data_ptr cmd prp1 prp2)"
    and "wf_cmd (nvm_cmd_rw_blks cmd lba n)"
  using assms
  by (simp_all add: wf_cmd_def nvm_cmd_header_def nvm_cmd_data_ptr_def nvm_cmd_rw_blks_def Let_def)

lemma join_halves:
  "push_bit 32 (ucast (ucast (drop_bit 32 v) :: u32)) OR ucast (ucast v :: u32) = v" for v :: u64
  by (rule bit_word_eqI) (auto simp: bit_simps)

lemma data_ptr_fields:
  assumes "wf_cmd cmd"
  shows "cmd_prp1 (nvm_cmd_data_ptr cmd prp1 prp2) = prp1"
    and "cmd_prp2 (nvm_cmd_data_ptr cmd prp1 prp2) = prp2"
  using assms by (simp_all add: cmd_prp1_def cmd_prp2_def nvm_cmd_data_ptr_def Let_def join_halves)

lemma mask16_word: "0xffff = (mask 16 :: u32)"
  by (simp add: mask_numeral)

lemma unat_mask16: "unat (w AND 0xffff) = unat w mod 65536" for w :: u32
  unfolding mask16_word unat_and_mask by simp

lemma nlb_field: "(a AND 0xffff0000 OR b AND 0xffff) AND 0xffff = b AND (0xffff :: u32)"
proof -
  have "(a AND 0xffff0000) AND 0xffff = (0 :: u32)"
    unfolding and.assoc by simp
  then show ?thesis by (simp add: bit.conj_disj_distrib2 and.assoc)
qed

lemma header_masks: "(0x7f :: u32) = mask 7" "(0xff :: u32) = mask 8" "(3 :: u32) = mask 2" "(0x7f :: u8) = mask 7"
  by (simp_all add: mask_numeral)

lemma header_cid:
  "ucast (drop_bit 16 ((push_bit 16 (ucast cid) OR (ucast opcode AND 0x7f))
            AND NOT (push_bit 14 3 OR push_bit 8 (3 :: u32)))) = (cid :: u16)" for opcode :: u8
  unfolding header_masks by (rule bit_word_eqI) (auto simp: bit_simps)

lemma header_opc:
  "ucast (((push_bit 16 (ucast cid) OR (ucast opcode AND 0x7f))
            AND NOT (push_bit 14 3 OR push_bit 8 (3 :: u32))) AND 0xff) = (opcode AND 0x7f :: u8)"
  for cid :: u16
  unfolding header_masks by (rule bit_word_eqI) (auto simp: bit_simps)

lemma nlb_value:
  "unat ((ucast n - 1) AND (0xffff :: u32)) + 1 = (if n = 0 then 65536 else unat n)" for n :: u16
proof (cases "n = 0")
  case False
  then have "1 \<le> unat n" by (metis less_one not_le unat_eq_zero)
  moreover have u: "unat (ucast n :: u32) = unat n" using unsigned_less [of n, where 'a = nat]
    by (simp add: unsigned_ucast_eq take_bit_nat_eq_self_iff)
  ultimately have "unat (ucast n - 1 :: u32) = unat n - 1"
    by (subst unat_sub) (simp_all add: word_le_nat_alt)
  moreover have "unat n < 65536" using unsigned_less [of n, where 'a = nat] by simp
  ultimately show ?thesis using False \<open>1 \<le> unat n\<close> by (simp add: unat_mask16)
qed (simp add: unat_mask16)

section \<open>Lemmas: PRP chains\<close>

lemma entry_addr_inj:
  assumes "i < e" and "j < e" and "8 * e \<le> 0x10000000000000000" and "entry_addr v i = entry_addr v j"
  shows "i = j"
proof -
  have *: "of_nat (8 * i) = (of_nat (8 * j) :: u64)" using assms(4) by (simp add: entry_addr_def)
  have v: "unat (of_nat (8 * k) :: u64) = 8 * k" if "k < e" for k
  proof -
    have "unat (of_nat (8 * k) :: u64) = (8 * k) mod 2 ^ 64" by (simp only: unat_of_nat) simp
    also have "\<dots> = 8 * k" using that assms(3) by (intro mod_less) simp
    finally show ?thesis .
  qed
  have "8 * i = 8 * j" using v [OF assms(1)] v [OF assms(2)] unfolding * by (rule trans [OF sym])
  then show ?thesis by simp
qed

lemma prp_fill_other:
  "n \<le> e \<Longrightarrow> a \<notin> prp_page e vaddr \<Longrightarrow> prp_fill mem vaddr ioaddrs n a = mem a"
  by (induction n) (auto simp: prp_page_def)

lemma prp_fill_entry:
  assumes "8 * e \<le> 0x10000000000000000" and "n \<le> e" and "i < e"
  shows "prp_fill mem vaddr ioaddrs n (entry_addr vaddr i) =
           (if i < n then ioaddrs i else mem (entry_addr vaddr i))"
  using assms(2)
proof (induction n)
  case (Suc n)
  have "entry_addr vaddr i = entry_addr vaddr n \<longleftrightarrow> i = n"
    using entry_addr_inj [OF assms(3) _ assms(1)] Suc.prems by auto
  then show ?case using Suc by auto
qed simp

lemma nvm_prp_list_eq:
  assumes "pl_page_size l div 8 = e" and "2 \<le> e" and "8 * e \<le> 0x10000000000000000"
  shows "nvm_prp_list mem l n ioaddrs =
           (let k = (if n > e then e - 1 else n) in (prp_fill mem (pl_vaddr l) ioaddrs k, k))"
proof -
  have "(e + 2 ^ 64 - 1) mod 2 ^ 64 = e - 1"
  proof -
    have "e + 2 ^ 64 - 1 = (e - 1) + 2 ^ 64" using assms(2) by linarith
    moreover have "e - 1 < 2 ^ 64" using assms(3) by simp
    ultimately show ?thesis by (metis mod_add_self2 mod_less)
  qed
  then show ?thesis
    using assms(1) by (simp add: nvm_prp_list_def Let_def)
qed

lemma wf_listsD:
  assumes "wf_lists bus e ls"
  shows "2 \<le> e" and "8 * e \<le> 0x10000000000000000"
    and "i < length ls \<Longrightarrow> pl_page_size (ls ! i) div 8 = e"
    and "i < length ls \<Longrightarrow> bus (pl_ioaddr (ls ! i)) = pl_vaddr (ls ! i)"
    and "i < length ls \<Longrightarrow> j < length ls \<Longrightarrow> i \<noteq> j \<Longrightarrow> k < e \<Longrightarrow>
           entry_addr (pl_vaddr (ls ! i)) k \<notin> prp_page e (pl_vaddr (ls ! j))"
  using assms unfolding wf_lists_def by (auto, auto simp: prp_page_def disjoint_iff)

text \<open>The chain from list \<open>i\<close> on: fill list \<open>i\<close>, then go on with the loop.\<close>

definition prp_chain_from ::
  "prp_mem \<Rightarrow> nvm_prp_list_t list \<Rightarrow> nat \<Rightarrow> nat \<Rightarrow> nat \<Rightarrow> (nat \<Rightarrow> u64) \<Rightarrow> prp_mem \<times> nat" where
  "prp_chain_from mem ls i n_prps n_pages ioaddrs =
     (let (mem1, k) = nvm_prp_list mem (ls ! i) (n_pages - n_prps) (\<lambda>j. ioaddrs (n_prps + j))
      in prp_chain_loop mem1 ls (i + 1) (length ls) k (n_prps + k) n_pages ioaddrs)"

lemma prp_chain_from_last:
  assumes "wf_lists bus e ls" and "i < length ls" and "n_pages - n_prps \<le> e" and "n_prps \<le> n_pages"
  shows "prp_chain_from mem ls i n_prps n_pages ioaddrs =
           (prp_fill mem (pl_vaddr (ls ! i)) (\<lambda>j. ioaddrs (n_prps + j)) (n_pages - n_prps), n_pages)"
  using assms wf_listsD(1,2) [OF assms(1)] wf_listsD(3) [OF assms(1), of i]
  by (simp add: prp_chain_from_def nvm_prp_list_eq [where e = e] Let_def prp_chain_loop.simps)

lemma prp_chain_from_next:
  assumes "wf_lists bus e ls" and "i + 1 < length ls" and "n_pages - n_prps > e" and "n_prps \<le> n_pages"
  shows "prp_chain_from mem ls i n_prps n_pages ioaddrs =
           prp_chain_from
             ((prp_fill mem (pl_vaddr (ls ! i)) (\<lambda>j. ioaddrs (n_prps + j)) (e - 1))
                (entry_addr (pl_vaddr (ls ! i)) (e - 1) := pl_ioaddr (ls ! (i + 1))))
             ls (i + 1) (n_prps + (e - 1)) n_pages ioaddrs"
proof -
  obtain m where m: "e = Suc m" using wf_listsD(1) [OF assms(1)] by (cases e) auto
  have "n_prps + m < n_pages" using assms(3) m by linarith
  moreover have "nvm_prp_list mem (ls ! i) (n_pages - n_prps) f =
                   (prp_fill mem (pl_vaddr (ls ! i)) f m, m)" for f
    using nvm_prp_list_eq [of "ls ! i" e] wf_listsD(1-3) [OF assms(1)] assms(2,3) m
    by (simp add: Let_def)
  ultimately show ?thesis
    unfolding prp_chain_from_def m using assms(2)
    by (simp add: prp_chain_loop.simps [of _ _ "Suc i"])
qed

lemma prp_chain_from_frame:
  assumes "wf_lists bus e ls"
  shows "\<lbrakk> i + d = length ls; 0 < d; n_prps \<le> n_pages; n_pages - n_prps \<le> d * (e - 1) + 1;
           \<forall>j. i \<le> j \<and> j < length ls \<longrightarrow> a \<notin> prp_page e (pl_vaddr (ls ! j)) \<rbrakk> \<Longrightarrow>
         fst (prp_chain_from mem ls i n_prps n_pages ioaddrs) a = mem a"
proof (induction d arbitrary: mem i n_prps)
  case (Suc d)
  have i: "i < length ls" and a: "a \<notin> prp_page e (pl_vaddr (ls ! i))" using Suc.prems by auto
  have e: "2 \<le> e" using wf_listsD(1) [OF assms] .
  show ?case
  proof (cases "n_pages - n_prps \<le> e")
    case True
    then show ?thesis
      using prp_chain_from_last [OF assms i] Suc.prems(3) prp_fill_other [OF _ a] by simp
  next
    case False
    then have "d \<noteq> 0" using Suc.prems(4) e by (cases "d = 0") auto
    then have nx: "i + 1 < length ls" using Suc.prems(1) by linarith
    have neq: "a \<noteq> entry_addr (pl_vaddr (ls ! i)) (e - 1)" using a e by (auto simp: prp_page_def)
    let ?m = "(prp_fill mem (pl_vaddr (ls ! i)) (\<lambda>j. ioaddrs (n_prps + j)) (e - 1))
                (entry_addr (pl_vaddr (ls ! i)) (e - 1) := pl_ioaddr (ls ! (i + 1)))"
    have "fst (prp_chain_from ?m ls (i + 1) (n_prps + (e - 1)) n_pages ioaddrs) a = ?m a"
      using Suc.prems False \<open>d \<noteq> 0\<close> by (intro Suc.IH) auto
    moreover have "?m a = mem a"
      using neq prp_fill_other [OF _ a, of "e - 1" mem] e by simp
    ultimately show ?thesis
      using prp_chain_from_next [OF assms nx] False Suc.prems(3) by simp
  qed
qed simp

lemma prp_chain_from_walk:
  assumes "wf_lists bus e ls"
  shows "\<lbrakk> i + d = length ls; 0 < d; n_prps \<le> n_pages; n_pages - n_prps \<le> d * (e - 1) + 1 \<rbrakk> \<Longrightarrow>
         prp_walk (fst (prp_chain_from mem ls i n_prps n_pages ioaddrs)) bus e (n_pages - n_prps)
            (pl_ioaddr (ls ! i)) = map ioaddrs [n_prps..<n_pages] \<and>
         snd (prp_chain_from mem ls i n_prps n_pages ioaddrs) = n_pages"
proof (induction d arbitrary: mem i n_prps)
  case (Suc d)
  note e = wf_listsD(1,2) [OF assms]
  have i: "i < length ls" using Suc.prems by auto
  note bus = wf_listsD(4) [OF assms i]
  let ?v = "pl_vaddr (ls ! i)"
  let ?R = "prp_chain_from mem ls i n_prps n_pages ioaddrs"
  show ?case
  proof (cases "n_pages - n_prps \<le> e")
    case True
    have R: "?R = (prp_fill mem ?v (\<lambda>j. ioaddrs (n_prps + j)) (n_pages - n_prps), n_pages)"
      using prp_chain_from_last [OF assms i True Suc.prems(3)] .
    have "prp_walk (fst ?R) bus e (n_pages - n_prps) (pl_ioaddr (ls ! i)) =
            map (\<lambda>k. ioaddrs (n_prps + k)) [0..<n_pages - n_prps]"
      using True e by (simp add: R prp_walk.simps [of _ bus] bus prp_fill_entry [where e = e])
    also have "\<dots> = map ioaddrs [n_prps..<n_pages]"
      by (rule nth_equalityI) auto
    finally show ?thesis using R by simp
  next
    case False
    then have "d \<noteq> 0" using Suc.prems(4) e by (cases "d = 0") auto
    then have nx: "i + 1 < length ls" using Suc.prems(1) by linarith
    let ?m = "(prp_fill mem ?v (\<lambda>j. ioaddrs (n_prps + j)) (e - 1))
                (entry_addr ?v (e - 1) := pl_ioaddr (ls ! (i + 1)))"
    have R: "?R = prp_chain_from ?m ls (i + 1) (n_prps + (e - 1)) n_pages ioaddrs"
      using prp_chain_from_next [OF assms nx _ Suc.prems(3)] False by simp
    have pre: "i + 1 + d = length ls" "0 < d" "n_prps + (e - 1) \<le> n_pages"
      "n_pages - (n_prps + (e - 1)) \<le> d * (e - 1) + 1"
      using Suc.prems False \<open>d \<noteq> 0\<close> by auto
    have keep: "fst ?R (entry_addr ?v k) = ?m (entry_addr ?v k)" if "k < e" for k
      unfolding R using pre that wf_listsD(5) [OF assms i _ _ that]
      by (intro prp_chain_from_frame [OF assms]) auto
    have ent: "fst ?R (entry_addr ?v k) = ioaddrs (n_prps + k)" if "k < e - 1" for k
    proof -
      have "entry_addr ?v k \<noteq> entry_addr ?v (e - 1)"
        using entry_addr_inj [of k e "e - 1" ?v] that e by fastforce
      then show ?thesis using keep [of k] that e by (simp add: prp_fill_entry [where e = e])
    qed
    have lnk: "fst ?R (entry_addr ?v (e - 1)) = pl_ioaddr (ls ! (i + 1))"
      using keep [of "e - 1"] e by simp
    have "prp_walk (fst ?R) bus e (n_pages - n_prps) (pl_ioaddr (ls ! i)) =
            map (\<lambda>k. ioaddrs (n_prps + k)) [0..<e - 1]
              @ prp_walk (fst ?R) bus e (n_pages - (n_prps + (e - 1))) (pl_ioaddr (ls ! (i + 1)))"
      using False e by (simp add: prp_walk.simps [of _ bus e "n_pages - n_prps"] bus lnk [simplified] ent)
    also have "prp_walk (fst ?R) bus e (n_pages - (n_prps + (e - 1))) (pl_ioaddr (ls ! (i + 1))) =
                 map ioaddrs [n_prps + (e - 1)..<n_pages]"
      unfolding R using Suc.IH [OF pre] by blast
    also have "map (\<lambda>k. ioaddrs (n_prps + k)) [0..<e - 1] = map ioaddrs [n_prps..<n_prps + (e - 1)]"
      by (rule nth_equalityI) auto
    also have "\<dots> @ map ioaddrs [n_prps + (e - 1)..<n_pages] = map ioaddrs [n_prps..<n_pages]"
      using pre(3) upt_add_eq_append [of n_prps "n_prps + (e - 1)" "n_pages - (n_prps + (e - 1))"]
      by (metis le_add1 le_add_diff_inverse map_append)
    finally show ?thesis using R Suc.IH [OF pre] by simp
  qed
qed simp

lemma nvm_prp_list_chain_from:
  "ls \<noteq> [] \<Longrightarrow> nvm_prp_list_chain mem (length ls) (Some ls) n_pages ioaddrs =
     prp_chain_from mem ls 0 0 n_pages ioaddrs"
  by (simp add: nvm_prp_list_chain_def prp_chain_from_def)

section \<open>Properties\<close>

text \<open>C25: A command built with \<open>nvm_cmd_data\<close> describes the transfer the caller asked for: for
  any number of pages that the given lists can hold, a controller that follows the data pointer
  and the PRP chain visits exactly the addresses \<open>ioaddrs 0 .. ioaddrs (n_pages - 1)\<close> in that
  order, and the function reports all of them as used.\<close>

theorem nvm_cmd_data_device_pages:
  assumes "wf_cmd cmd" and "wf_lists bus e ls" and "ls \<noteq> []"
    and "n_pages \<le> length ls * (e - 1) + 2"
  shows "case nvm_cmd_data mem cmd (length ls) (Some ls) n_pages ioaddrs of (mem', cmd', n) \<Rightarrow>
           device_pages mem' bus e n_pages cmd' = map ioaddrs [0..<n_pages] \<and> n = n_pages"
proof -
  consider (zero) "n_pages = 0" | (one) "n_pages = 1" | (two) "n_pages = 2" | (more) "n_pages > 2"
    by linarith
  then show ?thesis
  proof cases
    case more
    let ?io = "\<lambda>j. ioaddrs (1 + j)"
    let ?R = "prp_chain_from mem ls 0 0 (n_pages - 1) ?io"
    have W: "prp_walk (fst ?R) bus e (n_pages - 1) (pl_ioaddr (ls ! 0)) = map ?io [0..<n_pages - 1]"
      and S: "snd ?R = n_pages - 1"
      using prp_chain_from_walk [OF assms(2), of 0 "length ls" 0 "n_pages - 1" mem ?io] assms(3,4)
      by auto
    have "map ioaddrs [0..<n_pages] = ioaddrs 0 # map ?io [0..<n_pages - 1]"
      using more by (intro nth_equalityI) (auto simp: nth_Cons')
    then show ?thesis
      using more assms(1,3) W S
      by (auto simp: nvm_cmd_data_def device_pages_def data_ptr_fields nvm_prp_list_chain_from
            split: prod.splits)
  qed (use assms(1) in \<open>simp_all add: nvm_cmd_data_def device_pages_def data_ptr_fields numeral_2_eq_2\<close>)
qed

definition witness_lists :: "nvm_prp_list_t list" where
  "witness_lists =
     [NVM_PRP_LIST_INIT 0x1000 True 16 0x7000, NVM_PRP_LIST_INIT 0x2000 True 16 0x8000]"

theorem nvm_cmd_data_device_pages_witness:
  "case nvm_cmd_data (\<lambda>_. 0) \<lparr>dword = replicate 16 0\<rparr> 2 (Some witness_lists) 4 (\<lambda>i. 0x10000 + 0x1000 * of_nat i)
     of (mem', cmd', n) \<Rightarrow>
       device_pages mem' (\<lambda>a. a - 0x6000) 2 4 cmd' = [0x10000, 0x11000, 0x12000, 0x13000] \<and> n = 4"
proof -
  have "prp_page 2 v = {v, v + 8}" for v
    unfolding prp_page_def by (simp add: entry_addr_def atLeastLessThan_upt numeral_2_eq_2)
  then have "wf_lists (\<lambda>a. a - 0x6000) 2 witness_lists"
    by (simp add: wf_lists_def witness_lists_def NVM_PRP_LIST_INIT_def All_less_Suc)
  then show ?thesis
    using nvm_cmd_data_device_pages [where cmd = "\<lparr>dword = replicate 16 0\<rparr>" and bus = "\<lambda>a. a - 0x6000"
        and e = 2 and ls = witness_lists and n_pages = 4 and mem = "\<lambda>_. 0"
        and ioaddrs = "\<lambda>i. 0x10000 + 0x1000 * of_nat i"]
    by (simp add: wf_cmd_def witness_lists_def upt_rec numeral_2_eq_2 [symmetric])
qed

lemma rw_cmd_fields:
  assumes "wf_cmd cmd"
  shows "let c = nvm_cmd_rw_blks (nvm_cmd_data_ptr (nvm_cmd_header cmd cid opcode ns) prp1 prp2) lba n in
           cmd_cid c = cid \<and> cmd_opc c = opcode AND 0x7f \<and> dword c ! 1 = ns \<and>
           cmd_prp1 c = prp1 \<and> cmd_prp2 c = prp2 \<and> cmd_slba c = lba \<and>
           cmd_nlb c = (if n = 0 then 65536 else unat n)"
proof -
  let ?h = "nvm_cmd_header cmd cid opcode ns"
  let ?c = "nvm_cmd_rw_blks (nvm_cmd_data_ptr ?h prp1 prp2) lba n"
  have w: "wf_cmd ?h" "wf_cmd (nvm_cmd_data_ptr ?h prp1 prp2)" using assms by simp_all
  have d0: "dword ?c ! 0 = dword ?h ! 0 AND NOT (push_bit 14 3 OR push_bit 8 3)"
    and d1: "dword ?c ! 1 = ns"
    and prp: "cmd_prp1 ?c = cmd_prp1 (nvm_cmd_data_ptr ?h prp1 prp2)"
             "cmd_prp2 ?c = cmd_prp2 (nvm_cmd_data_ptr ?h prp1 prp2)"
    using assms w by (simp_all add: cmd_prp1_def cmd_prp2_def nvm_cmd_rw_blks_def nvm_cmd_data_ptr_def
      nvm_cmd_header_def Let_def)
  have h0: "dword ?h ! 0 = push_bit 16 (ucast cid) OR (ucast opcode AND 0x7f)"
    using assms by (simp add: nvm_cmd_header_def)
  have lba: "cmd_slba ?c = lba" and nlb: "cmd_nlb ?c = unat ((ucast n - 1) AND (0xffff :: u32)) + 1"
    using w by (simp_all add: cmd_slba_def cmd_nlb_def nvm_cmd_rw_blks_def Let_def join_halves nlb_field)
  show ?thesis
    using d1 prp lba nlb data_ptr_fields [OF w(1)] header_cid header_opc nlb_value
    by (simp add: Let_def cmd_cid_def cmd_opc_def d0 h0)
qed

text \<open>A read or write command carries what the caller put in: after \<open>nvm_cmd_header\<close>,
  \<open>nvm_cmd_data_ptr\<close> and \<open>nvm_cmd_rw_blks\<close> (the sequence of every data transfer in the cache
  layer) the device reads back the command identifier, the opcode without its top bit, the
  namespace, both PRP entries, the start block and the block count, 0 meaning 65536 blocks.\<close>

theorem nvm_cmd_rw_roundtrip:
  assumes "wf_cmd cmd"
  shows "let c = nvm_cmd_rw_blks (nvm_cmd_data_ptr (nvm_cmd_header cmd cid opcode ns) prp1 prp2) lba n in
           cmd_cid c = cid \<and> cmd_opc c = opcode AND 0x7f \<and> dword c ! 1 = ns \<and>
           cmd_prp1 c = prp1 \<and> cmd_prp2 c = prp2 \<and> cmd_slba c = lba \<and>
           cmd_nlb c = (if n = 0 then 65536 else unat n)"
  using assms by (rule rw_cmd_fields)

theorem nvm_cmd_rw_roundtrip_witness:
  "let c = nvm_cmd_rw_blks (nvm_cmd_data_ptr
             (nvm_cmd_header \<lparr>dword = replicate 16 0\<rparr> 0x12 0x02 1) 0x1000 0x2000) 0x100000080 8 in
     cmd_cid c = 0x12 \<and> cmd_opc c = 2 \<and> cmd_prp2 c = 0x2000 \<and> cmd_slba c = 0x100000080 \<and> cmd_nlb c = 8"
  using nvm_cmd_rw_roundtrip [of "\<lparr>dword = replicate 16 0\<rparr>" "0x12" 2 1 "0x1000" "0x2000"
      "0x100000080" 8]
  by (simp add: wf_cmd_def Let_def)

end
