(* ===== verification/Nvm_Queue.thy ===== *)
theory Nvm_Queue
  imports Nvm_Cmd
begin

text \<open>
  The single-threaded queue descriptor (\<open>include/nvm_types.h\<close>, \<open>include/nvm_queue.h\<close>,
  \<open>src/queue.cpp\<close>): creation and reset, the submission side (enqueue, submit, update), the
  completion side (poll, dequeue, blocking dequeue, update) and the n-thread enqueue.  The
  queue memory is a function from byte addresses to entries; a doorbell write is an output.
  The submission side is shown to be a bounded FIFO of slots for power-of-two sizes through
  the locale \<open>slot_ring\<close>; the completion side is put together with a device that posts
  entries with alternating phase tags, and every posted entry is delivered once and in order.
\<close>

section \<open>The queue descriptor\<close>

record nvm_queue_t =
  head_lock :: u32
  tail_lock :: u32
  q_head :: u32
  q_tail :: u32
  in_ticket :: u32
  cid_ticket :: u32
  q_no :: u16
  q_es :: u16
  q_qs :: u32
  q_phase :: bool
  q_local :: bool
  q_last :: u32
  q_db :: "u64 option"
  q_vaddr :: u64
  q_ioaddr :: u64

record nvm_ctrl_t =
  c_page_size :: u64
  c_dstrd :: u8
  c_timeout :: u64
  c_max_qs :: u32
  c_mm_size :: u64
  c_mm_ptr :: u64

datatype errno = EINVAL | ENOMEM | ENOTTY | EIO | ENOSPC | EAGAIN | ENODEV | EINTR | EFAULT | ETIME | ERANGE | EBADF

definition nvm_queue_clear ::
  "nvm_queue_t \<Rightarrow> nvm_ctrl_t \<Rightarrow> bool \<Rightarrow> u16 \<Rightarrow> u32 \<Rightarrow> bool \<Rightarrow> u64 \<Rightarrow> u64 \<Rightarrow> errno + nvm_queue_t"
where
  "nvm_queue_clear queue ctrl cq no qs loc vaddr ioaddr =
     (if qs < 2 \<or> qs > 0x10000 \<or> qs > c_max_qs ctrl then Inl EINVAL
      else Inr (queue\<lparr>
        q_no := no, q_qs := qs,
        q_es := (if cq then ucast sizeof_nvm_cpl_t else ucast sizeof_nvm_cmd_t),
        q_head := 0, q_tail := 0, q_last := 0, q_phase := True, q_local := loc,
        head_lock := 0, tail_lock := 0, in_ticket := 0, cid_ticket := 0,
        q_db := Some (if cq then CQ_DBL (c_mm_ptr ctrl) (ucast no) (unat (c_dstrd ctrl))
                      else SQ_DBL (c_mm_ptr ctrl) (ucast no) (unat (c_dstrd ctrl))),
        q_vaddr := vaddr, q_ioaddr := ioaddr\<rparr>))"

definition nvm_queue_reset :: "nvm_queue_t \<Rightarrow> nvm_queue_t" where
  "nvm_queue_reset queue = queue\<lparr>q_head := 0, q_tail := 0, q_last := 0, q_phase := True\<rparr>"

text \<open>\<open>sq->es * sq->tail\<close> is computed on 32 bits and added to the base pointer.\<close>

definition slot_addr :: "nvm_queue_t \<Rightarrow> u32 \<Rightarrow> u64" where
  "slot_addr q i = q_vaddr q + ucast ((ucast (q_es q) :: u32) * i)"

definition NVM_DEFAULT_CID :: "nvm_queue_t \<Rightarrow> u16" where
  "NVM_DEFAULT_CID sq = ucast (q_tail sq + (if q_phase sq then 0 else 1) * q_qs sq)"

section \<open>Submission\<close>

definition nvm_sq_full :: "nvm_queue_t \<Rightarrow> bool" where
  "nvm_sq_full sq \<longleftrightarrow> ucast (ucast (q_tail sq - q_head sq) :: u16) mod q_qs sq = q_qs sq - 1"

definition nvm_sq_enqueue :: "nvm_queue_t \<Rightarrow> nvm_queue_t \<times> u64 option" where
  "nvm_sq_enqueue sq =
     (if nvm_sq_full sq then (sq, None)
      else
        (let cmd = slot_addr sq (q_tail sq);
             sq1 = sq\<lparr>q_tail := q_tail sq + 1\<rparr>;
             sq2 = (if q_tail sq1 = q_qs sq1 then sq1\<lparr>q_phase := \<not> q_phase sq1, q_tail := 0\<rparr> else sq1)
         in (sq2, Some cmd)))"

text \<open>\<open>nvm_sq_enqueue_n\<close>: the call of the \<open>i\<close>-th of \<open>n\<close> threads (\<open>last\<close> is a pointer or \<open>NULL\<close>).\<close>

definition nvm_sq_enqueue_n :: "nvm_queue_t \<Rightarrow> u64 option \<Rightarrow> u16 \<Rightarrow> u16 \<Rightarrow> nvm_queue_t \<times> u64 option" where
  "nvm_sq_enqueue_n sq last_cmd n i =
     (let start = q_vaddr sq;
          end_p = start + ucast (q_qs sq * ucast (q_es sq))
      in if ucast n \<ge> q_qs sq then (sq, None)
         else
           (let cmd = (case last_cmd of
                         None \<Rightarrow> start + ucast (q_es sq) * ucast i
                       | Some lc \<Rightarrow>
                           (let cmd1 = lc + ucast n * ucast (q_es sq)
                            in if end_p \<le> cmd1 then start + (cmd1 - end_p) else cmd1));
                sq1 = (if i = 0 then sq\<lparr>q_tail := (q_tail sq + ucast n) mod q_qs sq\<rparr> else sq)
            in (sq1, Some cmd)))"

text \<open>Round \<open>r\<close> of thread \<open>i\<close>, which passes the pointer of its previous round.\<close>

primrec enqueue_n_round :: "nvm_queue_t \<Rightarrow> u16 \<Rightarrow> u16 \<Rightarrow> nat \<Rightarrow> nvm_queue_t \<times> u64 option" where
  "enqueue_n_round sq n i 0 = nvm_sq_enqueue_n sq None n i"
| "enqueue_n_round sq n i (Suc r) =
     (case enqueue_n_round sq n i r of (sq', p) \<Rightarrow> nvm_sq_enqueue_n sq' p n i)"

text \<open>A doorbell write is the register address and the value.\<close>

definition nvm_sq_submit :: "nvm_queue_t \<Rightarrow> nvm_queue_t \<times> (u64 \<times> u32) option" where
  "nvm_sq_submit sq =
     (case q_db sq of
        Some db \<Rightarrow> if q_last sq \<noteq> q_tail sq then (sq\<lparr>q_last := q_tail sq\<rparr>, Some (db, q_tail sq)) else (sq, None)
      | None \<Rightarrow> (sq, None))"

definition nvm_sq_update :: "nvm_queue_t \<Rightarrow> nvm_queue_t" where
  "nvm_sq_update sq =
     (if q_db sq \<noteq> None then
        (let sq1 = sq\<lparr>q_head := q_head sq + 1\<rparr>
         in if q_head sq1 = q_qs sq1 then sq1\<lparr>q_head := 0\<rparr> else sq1)
      else sq)"

section \<open>Completion\<close>

record nvm_cpl_t =
  cpl_dword :: "u32 list"

definition NVM_CPL_CID :: "nvm_cpl_t \<Rightarrow> u16" where "NVM_CPL_CID cpl = ucast (cpl_dword cpl ! 3)"
definition NVM_CPL_SQHD :: "nvm_cpl_t \<Rightarrow> u16" where "NVM_CPL_SQHD cpl = ucast (cpl_dword cpl ! 2)"
definition NVM_CPL_SQID :: "nvm_cpl_t \<Rightarrow> u16" where "NVM_CPL_SQID cpl = ucast (drop_bit 16 (cpl_dword cpl ! 2))"
definition NVM_CPL_SF :: "nvm_cpl_t \<Rightarrow> u16" where "NVM_CPL_SF cpl = ucast (drop_bit 16 (cpl_dword cpl ! 3))"

definition cpl_phase :: "nvm_cpl_t \<Rightarrow> bool" where
  "cpl_phase cpl \<longleftrightarrow> RB (ucast (NVM_CPL_SF cpl)) 0 0 \<noteq> 0"

type_synonym cq_mem = "u64 \<Rightarrow> nvm_cpl_t"

definition nvm_cq_poll :: "cq_mem \<Rightarrow> nvm_queue_t \<Rightarrow> u64 option" where
  "nvm_cq_poll mem cq =
     (let cpl = slot_addr cq (q_head cq)
      in if (\<not> cpl_phase (mem cpl)) \<noteq> (\<not> q_phase cq) then None else Some cpl)"

definition nvm_cq_dequeue :: "cq_mem \<Rightarrow> nvm_queue_t \<Rightarrow> nvm_queue_t \<times> u64 option" where
  "nvm_cq_dequeue mem cq =
     (case nvm_cq_poll mem cq of
        None \<Rightarrow> (cq, None)
      | Some cpl \<Rightarrow>
          (let cq1 = cq\<lparr>q_head := q_head cq + 1\<rparr>
           in (if q_head cq1 = q_qs cq1 then cq1\<lparr>q_head := 0, q_phase := \<not> q_phase cq1\<rparr> else cq1, Some cpl)))"

definition nvm_cq_update :: "nvm_queue_t \<Rightarrow> nvm_queue_t \<times> (u64 \<times> u32) option" where
  "nvm_cq_update cq =
     (case q_db cq of
        Some db \<Rightarrow> if q_last cq \<noteq> q_head cq
                   then (cq\<lparr>q_last := q_head cq, q_tail := q_head cq\<rparr>, Some (db, q_head cq)) else (cq, None)
      | None \<Rightarrow> (cq, None))"

text \<open>
  The blocking dequeue: \<open>mems i\<close> is the queue memory the \<open>i\<close>-th poll sees, since the device
  writes while the caller sleeps.  The loop ends because every delay shortens the remaining time.
\<close>

function dequeue_block_loop ::
  "(nat \<Rightarrow> cq_mem) \<Rightarrow> nat \<Rightarrow> nvm_queue_t \<Rightarrow> u64 option \<Rightarrow> u64 \<Rightarrow> nvm_queue_t \<times> u64 option"
where
  "dequeue_block_loop mems i cq cpl nsecs =
     (if cpl = None \<and> nsecs > 0 then
        (case nvm_cq_dequeue (mems i) cq of (cq', cpl') \<Rightarrow>
           dequeue_block_loop mems (i + 1) cq' cpl' (nvm_delay_remain nsecs))
      else (cq, cpl))"
  by pat_completeness auto
termination
  by (relation "measure (\<lambda>(mems, i, cq, cpl, nsecs). unat nsecs)") (auto simp: nvm_delay_remain_less)

declare dequeue_block_loop.simps [simp del]

definition nvm_cq_dequeue_block ::
  "(nat \<Rightarrow> cq_mem) \<Rightarrow> nvm_queue_t \<Rightarrow> u64 \<Rightarrow> nvm_queue_t \<times> u64 option" where
  "nvm_cq_dequeue_block mems cq timeout =
     (case nvm_cq_dequeue (mems 0) cq of (cq', cpl) \<Rightarrow>
        dequeue_block_loop mems 1 cq' cpl (timeout * 1000000))"

section \<open>A completion queue with its device\<close>

text \<open>
  The device side of a completion queue as NVMe defines it: completion number \<open>p\<close> goes to slot
  \<open>p mod qs\<close> with phase tag 1 in even rounds and 0 in odd rounds, and the device posts only
  while the slot after its tail is not the head value last written to the doorbell.  \<open>posted\<close>
  and \<open>got\<close> record what was written and what the driver took, in order.
\<close>

record cq_sys =
  sys_q :: nvm_queue_t
  sys_mem :: cq_mem
  sys_db :: u32
  posted :: "nvm_cpl_t list"
  got :: "nvm_cpl_t list"

definition set_phase :: "bool \<Rightarrow> nvm_cpl_t \<Rightarrow> nvm_cpl_t" where
  "set_phase b cpl = cpl\<lparr>cpl_dword := (cpl_dword cpl)[3 :=
     (if b then cpl_dword cpl ! 3 OR push_bit 16 1 else cpl_dword cpl ! 3 AND NOT (push_bit 16 1))]\<rparr>"

definition device_post :: "nvm_cpl_t \<Rightarrow> cq_sys \<Rightarrow> cq_sys" where
  "device_post cpl s =
     (let qs = unat (q_qs (sys_q s)); p = length (posted s); c = set_phase (even (p div qs)) cpl
      in s\<lparr>sys_mem := (sys_mem s)(slot_addr (sys_q s) (of_nat (p mod qs)) := c), posted := posted s @ [c]\<rparr>)"

definition device_can_post :: "cq_sys \<Rightarrow> bool" where
  "device_can_post s \<longleftrightarrow>
     (length (posted s) + 1) mod unat (q_qs (sys_q s)) \<noteq> unat (sys_db s)"

definition driver_dequeue :: "cq_sys \<Rightarrow> cq_sys" where
  "driver_dequeue s =
     (case nvm_cq_dequeue (sys_mem s) (sys_q s) of
        (q', None) \<Rightarrow> s\<lparr>sys_q := q'\<rparr>
      | (q', Some a) \<Rightarrow> s\<lparr>sys_q := q', got := got s @ [sys_mem s a]\<rparr>)"

definition driver_update :: "cq_sys \<Rightarrow> cq_sys" where
  "driver_update s =
     (case nvm_cq_update (sys_q s) of
        (q', None) \<Rightarrow> s\<lparr>sys_q := q'\<rparr>
      | (q', Some (db, v)) \<Rightarrow> s\<lparr>sys_q := q', sys_db := v\<rparr>)"

inductive cq_step :: "cq_sys \<Rightarrow> cq_sys \<Rightarrow> bool" where
  post: "device_can_post s \<Longrightarrow> length (cpl_dword cpl) = 4 \<Longrightarrow> cq_step s (device_post cpl s)"
| deq: "cq_step s (driver_dequeue s)"
| upd: "cq_step s (driver_update s)"

text \<open>A freshly cleared queue over zeroed memory.\<close>

definition cq_fresh :: "cq_sys \<Rightarrow> bool" where
  "cq_fresh s \<longleftrightarrow>
     (let q = sys_q s in
       2 \<le> q_qs q \<and> q_qs q \<le> 0x10000 \<and> q_es q = 16 \<and> q_head q = 0 \<and> q_last q = 0 \<and> q_phase q \<and>
       q_db q \<noteq> None \<and> (\<forall>i < unat (q_qs q). \<not> cpl_phase (sys_mem s (slot_addr q (of_nat i)))) \<and>
       sys_db s = 0 \<and> posted s = [] \<and> got s = [])"

text \<open>The system invariant; \<open>a\<close> counts the completions acknowledged through the doorbell.\<close>

definition cq_inv :: "nat \<Rightarrow> cq_sys \<Rightarrow> bool" where
  "cq_inv a s \<longleftrightarrow>
     (let q = sys_q s; qs = unat (q_qs q); c = length (got s); p = length (posted s) in
       2 \<le> qs \<and> qs \<le> 65536 \<and> q_es q = 16 \<and> q_db q \<noteq> None \<and>
       a \<le> c \<and> c \<le> p \<and> p < a + qs \<and>
       unat (q_head q) = c mod qs \<and> q_phase q = even (c div qs) \<and>
       unat (sys_db s) = a mod qs \<and> q_last q = sys_db s \<and>
       got s = take c (posted s) \<and>
       (\<forall>i < p. p < i + qs + 1 \<longrightarrow> sys_mem s (slot_addr q (of_nat (i mod qs))) = posted s ! i \<and>
                               cpl_phase (posted s ! i) = even (i div qs)) \<and>
       (\<forall>i. p \<le> i \<and> i < p + qs \<longrightarrow> cpl_phase (sys_mem s (slot_addr q (of_nat (i mod qs)))) = odd (i div qs)))"

section \<open>The submission queue as a ring of slots\<close>

definition sq_inv :: "nvm_queue_t \<Rightarrow> bool" where
  "sq_inv q \<longleftrightarrow> (\<exists>k. 1 \<le> k \<and> k \<le> 16 \<and> unat (q_qs q) = 2 ^ k) \<and>
     q_head q < q_qs q \<and> q_tail q < q_qs q \<and> q_db q \<noteq> None"

definition sq_count :: "nvm_queue_t \<Rightarrow> nat" where
  "sq_count q = (unat (q_tail q) + unat (q_qs q) - unat (q_head q)) mod unat (q_qs q)"

text \<open>The slot numbers between head and tail, oldest first.\<close>

definition sq_pend :: "nvm_queue_t \<Rightarrow> nat list" where
  "sq_pend q = map (\<lambda>i. (unat (q_head q) + i) mod unat (q_qs q)) [0..<sq_count q]"

definition sq_cap :: "nvm_queue_t \<Rightarrow> nat" where
  "sq_cap q = unat (q_qs q) - 1"

text \<open>\<open>nvm_sq_enqueue\<close> with its answer as a slot number: the tail before the call.\<close>

definition sq_enq_slot :: "nvm_queue_t \<Rightarrow> nvm_queue_t \<times> nat option" where
  "sq_enq_slot q = (case nvm_sq_enqueue q of
      (q', None) \<Rightarrow> (q', None) | (q', Some a) \<Rightarrow> (q', Some (unat (q_tail q))))"

datatype ring_op = Enq | Rel

text \<open>
  A run of enqueue and release operations; the result is the final queue, the slots handed out
  and the slots released, both in order.  Releasing from an empty queue is not a run.
\<close>

fun ring_run :: "('q \<Rightarrow> 'q \<times> 'a option) \<Rightarrow> ('q \<Rightarrow> 'q) \<Rightarrow> ('q \<Rightarrow> 'a list) \<Rightarrow> ring_op list \<Rightarrow> 'q
    \<Rightarrow> ('q \<times> 'a list \<times> 'a list) option" where
  "ring_run e r p [] q = Some (q, [], [])"
| "ring_run e r p (Enq # ops) q =
     (case e q of (q', s) \<Rightarrow>
        map_option (\<lambda>(q'', h, f). (q'', (case s of None \<Rightarrow> [] | Some x \<Rightarrow> [x]) @ h, f)) (ring_run e r p ops q'))"
| "ring_run e r p (Rel # ops) q =
     (if p q = [] then None
      else map_option (\<lambda>(q'', h, f). (q'', h, hd (p q) # f)) (ring_run e r p ops (r q)))"

text \<open>The contract of a bounded ring of slots, and what its clients may rely on.\<close>

locale slot_ring =
  fixes enq :: "'q \<Rightarrow> 'q \<times> 'a option"
    and rel :: "'q \<Rightarrow> 'q"
    and pend :: "'q \<Rightarrow> 'a list"
    and cap :: "'q \<Rightarrow> nat"
    and invar :: "'q \<Rightarrow> bool"
  assumes enq_full: "invar q \<Longrightarrow> length (pend q) = cap q \<Longrightarrow> enq q = (q, None)"
    and enq_slot: "invar q \<Longrightarrow> length (pend q) < cap q \<Longrightarrow>
          \<exists>s. snd (enq q) = Some s \<and> pend (fst (enq q)) = pend q @ [s]"
    and rel_pend: "invar q \<Longrightarrow> pend q \<noteq> [] \<Longrightarrow> pend (rel q) = tl (pend q)"
    and pend_distinct: "invar q \<Longrightarrow> distinct (pend q)"
    and pend_cap: "invar q \<Longrightarrow> length (pend q) \<le> cap q"
    and invar_enq: "invar q \<Longrightarrow> invar (fst (enq q))"
    and invar_rel: "invar q \<Longrightarrow> invar (rel q)"
    and cap_enq: "invar q \<Longrightarrow> cap (fst (enq q)) = cap q"
    and cap_rel: "invar q \<Longrightarrow> cap (rel q) = cap q"
begin

lemma enq_cases:
  assumes "invar q"
  shows "snd (enq q) = None \<longleftrightarrow> length (pend q) = cap q"
    and "pend (fst (enq q)) = pend q @ (case snd (enq q) of None \<Rightarrow> [] | Some s \<Rightarrow> [s])"
  using enq_full [OF assms] enq_slot [OF assms] pend_cap [OF assms]
  by (auto simp: le_less)

lemma run_fifo:
  "invar q \<Longrightarrow> ring_run enq rel pend ops q = Some (q', h, f) \<Longrightarrow>
     invar q' \<and> cap q' = cap q \<and> pend q @ h = f @ pend q'"
proof (induction ops arbitrary: q h f)
  case (Cons x ops)
  show ?case
  proof (cases x)
    case Enq
    then obtain h' where *: "ring_run enq rel pend ops (fst (enq q)) = Some (q', h', f)"
      and h: "h = (case snd (enq q) of None \<Rightarrow> [] | Some x \<Rightarrow> [x]) @ h'"
      using Cons.prems(2) by (auto split: prod.splits)
    show ?thesis
      using Cons.IH [OF invar_enq [OF Cons.prems(1)] *] enq_cases(2) [OF Cons.prems(1)]
        cap_enq [OF Cons.prems(1)] by (simp add: h)
  next
    case Rel
    then obtain f' where ne: "pend q \<noteq> []" and *: "ring_run enq rel pend ops (rel q) = Some (q', h, f')"
      and f: "f = hd (pend q) # f'"
      using Cons.prems(2) by (auto split: if_splits)
    show ?thesis
      using Cons.IH [OF invar_rel [OF Cons.prems(1)] *] rel_pend [OF Cons.prems(1) ne]
        cap_rel [OF Cons.prems(1)] ne by (auto simp: f neq_Nil_conv)
  qed
qed simp

end

section \<open>Lemmas: the submission queue is a slot ring\<close>

lemma sq_invD:
  assumes "sq_inv q"
  shows "unat (q_qs q) dvd 65536" and "2 \<le> unat (q_qs q)" and "unat (q_qs q) \<le> 65536"
    and "unat (q_head q) < unat (q_qs q)" and "unat (q_tail q) < unat (q_qs q)" and "q_db q \<noteq> None"
proof -
  obtain k where k: "1 \<le> k" "k \<le> 16" "unat (q_qs q) = 2 ^ k" using assms by (auto simp: sq_inv_def)
  have "(2::nat) ^ k dvd 2 ^ 16" using k(2) by (rule le_imp_power_dvd)
  then show "unat (q_qs q) dvd 65536" using k(3) by simp
  then show "unat (q_qs q) \<le> 65536" by (rule dvd_imp_le) simp
  have "(2::nat) ^ 1 \<le> 2 ^ k" using k(1) by (rule power_increasing) simp
  then show "2 \<le> unat (q_qs q)" using k(3) by simp
qed (use assms in \<open>auto simp: sq_inv_def word_less_nat_alt\<close>)

lemma sq_count_less: "sq_inv q \<Longrightarrow> sq_count q < unat (q_qs q)"
  using sq_invD(2) [of q] by (simp add: sq_count_def)

lemma nvm_sq_full_iff:
  assumes "sq_inv q"
  shows "nvm_sq_full q \<longleftrightarrow> sq_count q = unat (q_qs q) - 1"
proof -
  note I = sq_invD [OF assms]
  have d32: "unat (q_qs q) dvd 2 ^ LENGTH(32)"
    using dvd_trans [OF I(1), of "2 ^ 32"] by simp
  have "unat (ucast (ucast (q_tail q - q_head q) :: u16) mod q_qs q) =
          unat (q_tail q - q_head q) mod 65536 mod unat (q_qs q)"
    by (simp add: unat_mod unat_ucast_up unat_ucast_mod)
  also have "\<dots> = unat (q_tail q - q_head q) mod unat (q_qs q)"
    using I(1) by (rule mod_mod_cancel)
  also have "\<dots> = sq_count q"
    unfolding sq_count_def using I(4) by (intro unat_diff_mod [OF d32]) simp
  finally have a: "unat (ucast (ucast (q_tail q - q_head q) :: u16) mod q_qs q) = sq_count q" .
  have "q_qs q \<noteq> 0" using I(2) by (metis not_numeral_le_zero unat_0)
  then have "unat (q_qs q - 1) = unat (q_qs q) - 1" by (rule unat_minus_one)
  then show ?thesis unfolding nvm_sq_full_def unat_eq_iff a by simp
qed

lemma ring_distance_inc:
  assumes "h < q" and "t < (q::nat)" and "(t + q - h) mod q < q - 1"
  shows "((t + 1) mod q + q - h) mod q = (t + q - h) mod q + 1"
proof -
  have "((t + 1) mod q + q - h) mod q = (t + 1 + q - h) mod q"
  proof (cases "t + 1 = q")
    case True
    then have "(t + 1) mod q = 0" by simp
    then show ?thesis using True assms(1)
      by (metis Nat.add_diff_assoc add.commute less_imp_le_nat mod_add_self1 add_0)
  qed (use assms(2) in simp)
  also have "\<dots> = (t + q - h + 1) mod q" using assms(1) by (simp add: Suc_diff_le)
  also have "\<dots> = (t + q - h) mod q + 1"
    using assms(3) by (metis Suc_eq_plus1 less_diff_conv mod_Suc nat_neq_iff)
  finally show ?thesis .
qed

lemma ring_distance_dec:
  assumes "h < q" and "t < (q::nat)" and "(t + q - h) mod q \<noteq> 0"
  shows "(t + q - (h + 1) mod q) mod q = (t + q - h) mod q - 1"
proof -
  have "t \<noteq> h" using assms(3) by auto
  then show ?thesis using assms(1,2)
    by (cases "h < t"; cases "h + 1 = q") (auto simp: mod_if)
qed

lemma ring_tail: "h < q \<Longrightarrow> t < q \<Longrightarrow> (h + (t + q - h) mod q) mod q = (t::nat)"
  by (metis Nat.add_diff_assoc le_add2 less_imp_le_nat add.commute add_diff_cancel_left' mod_add_right_eq
      mod_add_self2 mod_less trans_le_add2)


lemma sq_enqueue_ok:
  assumes "sq_inv q" and "sq_count q < unat (q_qs q) - 1"
  shows "snd (nvm_sq_enqueue q) = Some (slot_addr q (q_tail q))"
    and "unat (q_tail (fst (nvm_sq_enqueue q))) = (unat (q_tail q) + 1) mod unat (q_qs q)"
    and "q_head (fst (nvm_sq_enqueue q)) = q_head q"
    and "q_qs (fst (nvm_sq_enqueue q)) = q_qs q"
    and "q_db (fst (nvm_sq_enqueue q)) = q_db q"
proof -
  note I = sq_invD [OF assms(1)]
  have nf: "\<not> nvm_sq_full q" using assms(2) nvm_sq_full_iff [OF assms(1)] by simp
  have u: "unat (q_tail q + 1) = unat (q_tail q) + 1" using I(3,5) by (intro unat_inc) simp
  have "q_tail q + 1 = q_qs q \<longleftrightarrow> unat (q_tail q) + 1 = unat (q_qs q)" by (simp add: unat_eq_iff u)
  then show "unat (q_tail (fst (nvm_sq_enqueue q))) = (unat (q_tail q) + 1) mod unat (q_qs q)"
    using nf I(5) u by (auto simp: nvm_sq_enqueue_def Let_def)
qed (use assms nvm_sq_full_iff [OF assms(1)] in \<open>auto simp: nvm_sq_enqueue_def Let_def\<close>)

lemma sq_update_ok:
  assumes "sq_inv q"
  shows "unat (q_head (nvm_sq_update q)) = (unat (q_head q) + 1) mod unat (q_qs q)"
    and "q_tail (nvm_sq_update q) = q_tail q"
    and "q_qs (nvm_sq_update q) = q_qs q"
    and "q_db (nvm_sq_update q) = q_db q"
proof -
  note I = sq_invD [OF assms]
  have u: "unat (q_head q + 1) = unat (q_head q) + 1" using I(3,4) by (intro unat_inc) simp
  have "q_head q + 1 = q_qs q \<longleftrightarrow> unat (q_head q) + 1 = unat (q_qs q)" by (simp add: unat_eq_iff u)
  then show "unat (q_head (nvm_sq_update q)) = (unat (q_head q) + 1) mod unat (q_qs q)"
    using I(4,6) u by (auto simp: nvm_sq_update_def Let_def)
qed (auto simp: nvm_sq_update_def Let_def)

lemma sq_inv_cong:
  "sq_inv q \<Longrightarrow> q_qs q' = q_qs q \<Longrightarrow> q_db q' = q_db q \<Longrightarrow> q_head q' < q_qs q \<Longrightarrow> q_tail q' < q_qs q \<Longrightarrow> sq_inv q'"
  by (simp add: sq_inv_def)

lemma sq_inv_steps:
  assumes "sq_inv q"
  shows "sq_inv (fst (nvm_sq_enqueue q))" and "sq_inv (nvm_sq_update q)"
proof -
  note I = sq_invD [OF assms]
  have q0: "unat (q_qs q) > 0" using I(2) by simp
  show "sq_inv (fst (nvm_sq_enqueue q))"
  proof (cases "sq_count q < unat (q_qs q) - 1")
    case True
    note E = sq_enqueue_ok [OF assms True]
    show ?thesis
      by (rule sq_inv_cong [OF assms E(4,5)]) (use E I q0 in \<open>simp_all add: word_less_nat_alt\<close>)
  next
    case False
    then have "nvm_sq_full q" using nvm_sq_full_iff [OF assms] sq_count_less [OF assms] by linarith
    then show ?thesis using assms by (simp add: nvm_sq_enqueue_def)
  qed
  note U = sq_update_ok [OF assms]
  show "sq_inv (nvm_sq_update q)"
    by (rule sq_inv_cong [OF assms U(3,4)]) (use U I q0 in \<open>simp_all add: word_less_nat_alt\<close>)
qed

lemma length_sq_pend [simp]: "length (sq_pend q) = sq_count q"
  by (simp add: sq_pend_def)

lemma sq_pend_enqueue:
  assumes "sq_inv q" and "sq_count q < unat (q_qs q) - 1"
  shows "sq_pend (fst (nvm_sq_enqueue q)) = sq_pend q @ [unat (q_tail q)]"
proof -
  note I = sq_invD [OF assms(1)] and E = sq_enqueue_ok [OF assms]
  have "sq_count (fst (nvm_sq_enqueue q)) = sq_count q + 1"
    unfolding sq_count_def E using ring_distance_inc [OF I(4,5)] assms(2) by (simp add: sq_count_def)
  moreover have "(unat (q_head q) + sq_count q) mod unat (q_qs q) = unat (q_tail q)"
    unfolding sq_count_def by (rule ring_tail [OF I(4,5)])
  ultimately show ?thesis by (simp add: sq_pend_def E)
qed

lemma sq_pend_update:
  assumes "sq_inv q" and "sq_count q \<noteq> 0"
  shows "sq_pend (nvm_sq_update q) = tl (sq_pend q)"
proof -
  note I = sq_invD [OF assms(1)] and U = sq_update_ok [OF assms(1)]
  have c: "sq_count (nvm_sq_update q) = sq_count q - 1"
    unfolding sq_count_def U using ring_distance_dec [OF I(4,5)] assms(2) by (simp add: sq_count_def)
  show ?thesis
  proof (rule nth_equalityI)
    fix i assume "i < length (sq_pend (nvm_sq_update q))"
    then show "sq_pend (nvm_sq_update q) ! i = tl (sq_pend q) ! i"
      using c nth_upt [of 0 "Suc i" "sq_count q"]
      by (simp add: sq_pend_def U nth_tl mod_add_left_eq add.assoc)
  qed (simp add: c)
qed

lemma sq_pend_distinct: "sq_inv q \<Longrightarrow> distinct (sq_pend q)"
  using sq_count_less [of q]
  by (auto simp: sq_pend_def distinct_map inj_on_def dest: mod_window_inj)

lemma sq_enq_slot_fst [simp]: "fst (sq_enq_slot q) = fst (nvm_sq_enqueue q)"
  by (simp add: sq_enq_slot_def split: prod.split option.split)

interpretation sq: slot_ring sq_enq_slot nvm_sq_update sq_pend sq_cap sq_inv
proof
  fix q assume q: "sq_inv q"
  show "length (sq_pend q) = sq_cap q \<Longrightarrow> sq_enq_slot q = (q, None)"
    using nvm_sq_full_iff [OF q] by (simp add: sq_cap_def sq_enq_slot_def nvm_sq_enqueue_def)
  show "\<exists>s. snd (sq_enq_slot q) = Some s \<and> sq_pend (fst (sq_enq_slot q)) = sq_pend q @ [s]"
    if "length (sq_pend q) < sq_cap q"
    using that sq_pend_enqueue [OF q] sq_enqueue_ok(1) [OF q]
    by (auto simp: sq_cap_def sq_enq_slot_def split: prod.splits option.splits)
  show "sq_pend q \<noteq> [] \<Longrightarrow> sq_pend (nvm_sq_update q) = tl (sq_pend q)"
    by (rule sq_pend_update [OF q]) (metis length_0_conv length_sq_pend)
  show "distinct (sq_pend q)" using q by (rule sq_pend_distinct)
  show "length (sq_pend q) \<le> sq_cap q" using sq_count_less [OF q] by (simp add: sq_cap_def)
  show "sq_inv (fst (sq_enq_slot q))" "sq_inv (nvm_sq_update q)" using sq_inv_steps [OF q] by simp_all
  show "sq_cap (fst (sq_enq_slot q)) = sq_cap q"
    by (simp add: sq_cap_def nvm_sq_enqueue_def Let_def)
  show "sq_cap (nvm_sq_update q) = sq_cap q" using sq_update_ok(3) [OF q] by (simp add: sq_cap_def)
qed


section \<open>Lemmas: the completion queue and its device\<close>

lemma slot_addr_unat:
  assumes "q_es q = 16" and "i < 65536"
  shows "slot_addr q (of_nat i) = q_vaddr q + of_nat (16 * i)"
proof -
  have "unat (ucast (ucast (q_es q) * of_nat i :: u32) :: u64) = 16 * i"
  proof -
    have u: "unat (of_nat i :: u32) = i" using assms(2) by (simp add: unat_of_nat)
    have "unat ((16 :: u32) * of_nat i) = 16 * i"
      using assms(2) u unat_mult_lem [of "16 :: u32" "of_nat i"] by simp
    then show ?thesis using assms(1) by (simp add: unat_ucast_up)
  qed
  moreover have "unat (of_nat (16 * i) :: u64) = 16 * i"
    using assms(2) by (simp only: unat_of_nat) simp
  ultimately show ?thesis unfolding slot_addr_def by (metis word_unat_eq_iff)
qed

lemma slot_addr_inj:
  assumes "q_es q = 16" and "i < 65536" and "j < 65536" and "slot_addr q (of_nat i) = slot_addr q (of_nat j)"
  shows "i = j"
proof -
  have "of_nat (16 * i) = (of_nat (16 * j) :: u64)"
    using assms by (simp add: slot_addr_unat)
  then have "unat (of_nat (16 * i) :: u64) = unat (of_nat (16 * j) :: u64)" by (rule arg_cong)
  then show ?thesis using assms(2,3) unfolding unat_of_nat by simp
qed

lemma cpl_phase_bit: "cpl_phase cpl \<longleftrightarrow> bit (cpl_dword cpl ! 3) 16"
proof -
  have "RB v 0 0 \<noteq> 0 \<longleftrightarrow> bit v 0" for v
  proof -
    have "bit (RB v 0 0) n \<longleftrightarrow> n = 0 \<and> bit v 0" for n by (auto simp: bit_RB)
    then show ?thesis by (metis bit_eq_iff bit_0_eq bot_apply bot_bool_def)
  qed
  then show ?thesis by (simp add: cpl_phase_def NVM_CPL_SF_def bit_simps)
qed

lemma cpl_phase_set_phase [simp]:
  "length (cpl_dword cpl) = 4 \<Longrightarrow> cpl_phase (set_phase b cpl) = b"
  by (auto simp: cpl_phase_bit set_phase_def bit_simps)

lemma div_mod_succ:
  "(q::nat) > 0 \<Longrightarrow> (c + 1) mod q = (if c mod q + 1 = q then 0 else c mod q + 1)"
  "(q::nat) > 0 \<Longrightarrow> even ((c + 1) div q) = (if c mod q + 1 = q then odd (c div q) else even (c div q))"
  by (auto simp: mod_Suc div_Suc)


lemma cq_invD:
  assumes "cq_inv a s"
  shows "2 \<le> unat (q_qs (sys_q s))" "unat (q_qs (sys_q s)) \<le> 65536" "q_es (sys_q s) = 16"
    "q_db (sys_q s) \<noteq> None" "a \<le> length (got s)" "length (got s) \<le> length (posted s)"
    "length (posted s) < a + unat (q_qs (sys_q s))"
    "unat (q_head (sys_q s)) = length (got s) mod unat (q_qs (sys_q s))"
    "q_phase (sys_q s) = even (length (got s) div unat (q_qs (sys_q s)))"
    "unat (sys_db s) = a mod unat (q_qs (sys_q s))" "q_last (sys_q s) = sys_db s"
    "got s = take (length (got s)) (posted s)"
    "i < length (posted s) \<Longrightarrow> length (posted s) < i + unat (q_qs (sys_q s)) + 1 \<Longrightarrow>
       sys_mem s (slot_addr (sys_q s) (of_nat (i mod unat (q_qs (sys_q s))))) = posted s ! i"
    "i < length (posted s) \<Longrightarrow> length (posted s) < i + unat (q_qs (sys_q s)) + 1 \<Longrightarrow>
       cpl_phase (posted s ! i) = even (i div unat (q_qs (sys_q s)))"
    "length (posted s) \<le> i \<Longrightarrow> i < length (posted s) + unat (q_qs (sys_q s)) \<Longrightarrow>
       cpl_phase (sys_mem s (slot_addr (sys_q s) (of_nat (i mod unat (q_qs (sys_q s)))))) =
         odd (i div unat (q_qs (sys_q s)))"
  using assms unfolding cq_inv_def Let_def by blast+

lemma cq_poll_eq:
  assumes "cq_inv a s"
  shows "nvm_cq_poll (sys_mem s) (sys_q s) =
           (if length (got s) < length (posted s)
            then Some (slot_addr (sys_q s) (of_nat (length (got s) mod unat (q_qs (sys_q s))))) else None)"
    and "length (got s) < length (posted s) \<Longrightarrow>
           sys_mem s (slot_addr (sys_q s) (of_nat (length (got s) mod unat (q_qs (sys_q s))))) =
             posted s ! length (got s)"
proof -
  note I = cq_invD [OF assms]
  let ?qs = "unat (q_qs (sys_q s))" and ?c = "length (got s)" and ?p = "length (posted s)"
  have h: "of_nat (?c mod ?qs) = q_head (sys_q s)" by (simp flip: I(8))
  have w: "?p < ?c + ?qs + 1" using I(5,7) by linarith
  show m: "sys_mem s (slot_addr (sys_q s) (of_nat (?c mod ?qs))) = posted s ! ?c" if "?c < ?p"
    using I(13) [OF that w] .
  show "nvm_cq_poll (sys_mem s) (sys_q s) =
          (if ?c < ?p then Some (slot_addr (sys_q s) (of_nat (?c mod ?qs))) else None)"
  proof (cases "?c < ?p")
    case True
    then show ?thesis using m I(9) I(14) [OF True w] by (simp add: nvm_cq_poll_def Let_def h)
  next
    case False
    then have "?c = ?p" using I(6) by simp
    then have "cpl_phase (sys_mem s (slot_addr (sys_q s) (q_head (sys_q s)))) = odd (?c div ?qs)"
      using I(15) [of ?c] I(1) unfolding h by simp
    then show ?thesis using I(9) False by (simp add: nvm_cq_poll_def Let_def)
  qed
qed

lemma cq_inv_deq:
  assumes "cq_inv a s"
  shows "cq_inv a (driver_dequeue s)"
proof (cases "length (got s) < length (posted s)")
  case True
  note I = cq_invD [OF assms]
  let ?qs = "unat (q_qs (sys_q s))" and ?c = "length (got s)"
  let ?a = "slot_addr (sys_q s) (of_nat (?c mod ?qs))"
  have "?c mod ?qs < 65536" using I(1,2) mod_less_divisor [of ?qs ?c] by linarith
  then have u: "unat (q_head (sys_q s) + 1) = ?c mod ?qs + 1"
    using I(8) by (subst unat_inc) auto
  have e: "q_head (sys_q s) + 1 = q_qs (sys_q s) \<longleftrightarrow> ?c mod ?qs + 1 = ?qs" by (simp add: unat_eq_iff u)
  define q' where "q' = fst (nvm_cq_dequeue (sys_mem s) (sys_q s))"
  have D: "nvm_cq_dequeue (sys_mem s) (sys_q s) =
      ((let cq1 = (sys_q s)\<lparr>q_head := q_head (sys_q s) + 1\<rparr>
        in if q_head cq1 = q_qs cq1 then cq1\<lparr>q_head := 0, q_phase := \<not> q_phase cq1\<rparr> else cq1), Some ?a)"
    using True by (simp add: nvm_cq_dequeue_def cq_poll_eq [OF assms] Let_def)
  have d: "nvm_cq_dequeue (sys_mem s) (sys_q s) = (q', Some ?a)" by (simp add: q'_def D)
  have q': "q' = (sys_q s)\<lparr>q_head := q_head q', q_phase := q_phase q'\<rparr>"
    by (simp add: q'_def D Let_def)
  have "0 < ?qs" using I(1) by linarith
  then have hp: "unat (q_head q') = (?c + 1) mod ?qs" "q_phase q' = even ((?c + 1) div ?qs)"
    using e u I(9) unfolding div_mod_succ [OF \<open>0 < ?qs\<close>] by (auto simp: q'_def D Let_def)
  have f: "q_qs q' = q_qs (sys_q s)" "q_es q' = q_es (sys_q s)" "q_db q' = q_db (sys_q s)"
    "q_last q' = q_last (sys_q s)" "slot_addr q' = slot_addr (sys_q s)"
    by (subst q', simp add: slot_addr_def fun_eq_iff)+
  have t: "got s @ [posted s ! ?c] = take (Suc ?c) (posted s)"
    using I(12) True by (metis take_Suc_conv_app_nth)
  show ?thesis
    unfolding driver_dequeue_def d cq_inv_def Let_def
    using I True hp t cq_poll_eq(2) [OF assms True] by (simp add: f)
next
  case False
  then show ?thesis using assms cq_poll_eq(1) [OF assms] by (simp add: driver_dequeue_def nvm_cq_dequeue_def)
qed

lemma cq_inv_upd:
  assumes "cq_inv a s"
  shows "\<exists>a'. cq_inv a' (driver_update s)"
proof (cases "q_last (sys_q s) = q_head (sys_q s)")
  case True
  then show ?thesis using assms by (auto simp: driver_update_def nvm_cq_update_def split: option.split)
next
  case False
  note I = cq_invD [OF assms]
  obtain db where db: "q_db (sys_q s) = Some db" using I(4) by auto
  let ?q' = "(sys_q s)\<lparr>q_last := q_head (sys_q s), q_tail := q_head (sys_q s)\<rparr>"
  have sl: "slot_addr ?q' = slot_addr (sys_q s)" by (simp add: slot_addr_def fun_eq_iff)
  have "cq_inv (length (got s)) (driver_update s)"
    unfolding driver_update_def nvm_cq_update_def db cq_inv_def Let_def
    using False I db by (simp add: sl)
  then show ?thesis ..
qed


lemma cq_inv_post:
  assumes "cq_inv a s" and "device_can_post s" and "length (cpl_dword cpl) = 4"
  shows "cq_inv a (device_post cpl s)"
proof -
  note I = cq_invD [OF assms(1)]
  let ?q = "sys_q s" and ?p = "length (posted s)"
  let ?qs = "unat (q_qs ?q)"
  let ?x = "set_phase (even (?p div ?qs)) cpl"
  let ?s' = "device_post cpl s"
  have q0: "0 < ?qs" using I(1) by linarith
  have p': "?p + 1 < a + ?qs"
  proof (rule ccontr)
    assume "\<not> ?thesis"
    then have "?p + 1 = a + ?qs" using I(7) by linarith
    then have "(?p + 1) mod ?qs = a mod ?qs" by simp
    then show False using assms(2) I(10) by (simp add: device_can_post_def)
  qed
  have mem: "sys_mem ?s' (slot_addr ?q (of_nat (i mod ?qs))) =
      (if i mod ?qs = ?p mod ?qs then ?x else sys_mem s (slot_addr ?q (of_nat (i mod ?qs))))" for i
  proof -
    have "i mod ?qs < 65536" "?p mod ?qs < 65536"
      using q0 I(2) mod_less_divisor [of ?qs] order_less_le_trans by blast+
    then show ?thesis using slot_addr_inj [OF I(3)]
      by (auto simp: device_post_def Let_def)
  qed
  have ne: "i mod ?qs \<noteq> ?p mod ?qs" if "i < ?p \<and> ?p < i + ?qs \<or> ?p < i \<and> i < ?p + ?qs" for i
    using that mod_eq_window [of i ?qs ?p] mod_eq_window [of ?p ?qs i] by fastforce
  have old: "sys_mem ?s' (slot_addr ?q (of_nat (i mod ?qs))) = posted ?s' ! i \<and>
      cpl_phase (posted ?s' ! i) = even (i div ?qs)" if "i < ?p + 1" "?p + 1 < i + ?qs + 1" for i
  proof (cases "i = ?p")
    case True
    then show ?thesis using mem [of i] assms(3) by (simp add: device_post_def Let_def nth_append)
  next
    case False
    then have "i < ?p" using that by linarith
    then show ?thesis
      using mem [of i] ne [of i] that I(13) [of i] I(14) [of i]
      by (simp add: device_post_def Let_def nth_append)
  qed
  have new: "cpl_phase (sys_mem ?s' (slot_addr ?q (of_nat (i mod ?qs)))) = odd (i div ?qs)"
    if "?p + 1 \<le> i" "i < ?p + 1 + ?qs" for i
  proof (cases "i = ?p + ?qs")
    case True
    then show ?thesis using mem [of i] assms(3) q0 div_add_self2 [of ?qs ?p] by simp
  next
    case False
    then show ?thesis using mem [of i] ne [of i] that I(15) [of i] by simp
  qed
  have f: "sys_q ?s' = ?q" "got ?s' = got s" "sys_db ?s' = sys_db s" "length (posted ?s') = ?p + 1"
    "take (length (got s)) (posted ?s') = take (length (got s)) (posted s)"
    using I(6) by (simp_all add: device_post_def Let_def)
  show ?thesis
    unfolding cq_inv_def Let_def f using I(1-12) p' old new by auto
qed

lemma cq_inv_fresh: "cq_fresh s \<Longrightarrow> cq_inv 0 s"
  by (simp add: cq_fresh_def cq_inv_def Let_def word_le_nat_alt)

lemma cq_inv_reachable: "cq_step\<^sup>*\<^sup>* s s' \<Longrightarrow> cq_inv a s \<Longrightarrow> \<exists>a'. cq_inv a' s'"
proof (induction rule: rtranclp_induct)
  case (step y z)
  then obtain a' where "cq_inv a' y" by blast
  then show ?case using cq_inv_post cq_inv_deq cq_inv_upd
    by (cases rule: cq_step.cases [OF step.hyps(2)]) blast+
qed blast

lemma dequeue_block_loop_found:
  "\<lbrakk> \<forall>j < k. snd (nvm_cq_dequeue (mems (i + j)) cq) = None; nvm_cq_dequeue (mems (i + k)) cq = (cq', Some c);
     k * 1000000 < unat nsecs \<rbrakk> \<Longrightarrow> dequeue_block_loop mems i cq None nsecs = (cq', Some c)"
proof (induction k arbitrary: i nsecs)
  case 0
  then have "nsecs > 0" by (simp add: word_less_nat_alt)
  then show ?case using 0 by (simp add: dequeue_block_loop.simps)
next
  case (Suc k)
  have keep: "nvm_cq_dequeue m q = (q, None)" if "snd (nvm_cq_dequeue m q) = None" for m q
    using that by (simp add: nvm_cq_dequeue_def Let_def split: option.splits)
  have d: "nvm_cq_dequeue (mems i) cq = (cq, None)" using Suc.prems(1) by (intro keep) auto
  have n: "nsecs > 0" "nsecs \<noteq> 0" using Suc.prems(3) by (auto simp: word_less_nat_alt)
  have "unat (nvm_delay_remain nsecs) \<ge> unat nsecs - 1000000"
    using n by (auto simp: nvm_delay_remain_def unat_sub min_def word_le_nat_alt)
  then have "k * 1000000 < unat (nvm_delay_remain nsecs)" using Suc.prems(3) by simp
  then have "dequeue_block_loop mems (i + 1) cq None (nvm_delay_remain nsecs) = (cq', Some c)"
    using Suc.prems(1,2) by (intro Suc.IH) (auto simp: add.assoc [symmetric])
  then show ?case using n d by (simp add: dequeue_block_loop.simps [of _ i])
qed


section \<open>Lemmas: enqueueing by n threads\<close>

lemma unat_add_of_nat:
  "unat v + k < 2 ^ 64 \<Longrightarrow> unat (v + of_nat k) = unat v + k" for v :: u64
proof -
  assume a: "unat v + k < 2 ^ 64"
  have "unat (of_nat k :: u64) = k mod 2 ^ 64" unfolding unat_of_nat by simp
  also have "\<dots> = k" using a by (intro mod_less) linarith
  finally have u: "unat (of_nat k :: u64) = k" .
  show ?thesis using a u by (subst unat_add_bounded) simp_all
qed

lemma ucast_mult_64:
  "unat q \<le> 65536 \<Longrightarrow> (ucast (q * 64 :: u32) :: u64) = of_nat (64 * unat q)"
proof -
  assume q: "unat q \<le> 65536"
  have "unat (q * 64) = unat q * 64" using q unat_mult_lem [of q 64] by simp
  then have "unat (ucast (q * 64 :: u32) :: u64) = 64 * unat q" by (simp add: unat_ucast_up)
  moreover have "unat (of_nat (64 * unat q) :: u64) = 64 * unat q" unfolding unat_of_nat using q by simp
  ultimately show ?thesis by (metis word_unat_eq_iff)
qed

lemma enqueue_n_frame:
  "q_es (fst (nvm_sq_enqueue_n sq p n i)) = q_es sq" "q_vaddr (fst (nvm_sq_enqueue_n sq p n i)) = q_vaddr sq"
  "q_qs (fst (nvm_sq_enqueue_n sq p n i)) = q_qs sq"
  by (simp_all add: nvm_sq_enqueue_n_def Let_def)

lemma enqueue_n_round_frame:
  "q_es (fst (enqueue_n_round sq n i r)) = q_es sq \<and> q_vaddr (fst (enqueue_n_round sq n i r)) = q_vaddr sq \<and>
   q_qs (fst (enqueue_n_round sq n i r)) = q_qs sq"
  by (induction r) (simp_all add: enqueue_n_frame case_prod_beta)

lemma enqueue_n_first:
  assumes "q_es sq = 64" and "unat n < unat (q_qs sq)"
  shows "snd (nvm_sq_enqueue_n sq None n i) = Some (q_vaddr sq + of_nat (64 * unat i))"
proof -
  have "\<not> ucast n \<ge> q_qs sq" using assms(2) by (simp add: word_le_nat_alt unat_ucast_up)
  then show ?thesis using assms(1) by (simp add: nvm_sq_enqueue_n_def Let_def)
qed

lemma enqueue_n_next:
  assumes "q_es sq = 64" and "unat (q_vaddr sq) + 128 * unat (q_qs sq) < 2 ^ 64"
    and "unat (q_qs sq) \<le> 65536" and "unat n < unat (q_qs sq)" and "x < unat (q_qs sq)"
  shows "snd (nvm_sq_enqueue_n sq (Some (q_vaddr sq + of_nat (64 * x))) n i) =
           Some (q_vaddr sq + of_nat (64 * ((x + unat n) mod unat (q_qs sq))))"
proof -
  let ?v = "q_vaddr sq" and ?q = "unat (q_qs sq)"
  have nf: "\<not> ucast n \<ge> q_qs sq" using assms(4) by (simp add: word_le_nat_alt unat_ucast_up)
  have es: "(ucast (q_es sq) :: u32) = 64" "(ucast (q_es sq) :: u64) = 64" using assms(1) by simp_all
  have n: "ucast n * (64::u64) = of_nat (64 * unat n)" by (simp add: mult.commute)
  have e: "unat (?v + of_nat (64 * ?q)) = unat ?v + 64 * ?q" using assms(2) by (intro unat_add_of_nat) simp
  have c: "unat (?v + of_nat (64 * x) + of_nat (64 * unat n)) = unat ?v + 64 * (x + unat n)"
    using assms(2,4,5) unat_add_of_nat [of ?v "64 * x + 64 * unat n"] by (simp add: add.assoc)
  have le: "?v + of_nat (64 * ?q) \<le> ?v + of_nat (64 * x) + of_nat (64 * unat n) \<longleftrightarrow> ?q \<le> x + unat n"
    unfolding word_le_nat_alt e c by (subst add_le_cancel_left) (simp only: mult_le_cancel1, simp)
  show ?thesis
  proof (cases "?q \<le> x + unat n")
    case True
    then obtain d where d: "x + unat n = ?q + d" using le_Suc_ex by blast
    then have "(x + unat n) mod ?q = d" using assms(4,5) by simp
    moreover have "?v + (?v + of_nat (64 * x) + of_nat (64 * unat n) - (?v + of_nat (64 * ?q))) =
        ?v + of_nat (64 * d)"
    proof -
      have "of_nat (64 * x) + of_nat (64 * unat n) = (of_nat (64 * ?q) + of_nat (64 * d) :: u64)"
        unfolding of_nat_add [symmetric] using d by (metis distrib_left)
      then show ?thesis by (simp add: algebra_simps)
    qed
    ultimately show ?thesis
      using nf le True assms(3) unfolding nvm_sq_enqueue_n_def Let_def es ucast_mult_64 [OF assms(3)] n by simp
  next
    case False
    then have "(x + unat n) mod ?q = x + unat n" by simp
    then show ?thesis
      using nf le False unfolding nvm_sq_enqueue_n_def Let_def es ucast_mult_64 [OF assms(3)] n
      by (simp add: algebra_simps)
  qed
qed

section \<open>Properties\<close>

text \<open>C3: Completions are delivered exactly once and in order.  In every state that a freshly
  cleared completion queue reaches by any interleaving of device posts, \<open>nvm_cq_dequeue\<close> and
  \<open>nvm_cq_update\<close>, over any number of wraps, the driver has taken a prefix of what the device
  posted; it polls a completion exactly when one is outstanding, and that entry is the oldest
  one not yet taken.\<close>

theorem cq_delivery:
  assumes "cq_fresh s0" and "cq_step\<^sup>*\<^sup>* s0 s"
  shows "got s = take (length (got s)) (posted s) \<and>
         (nvm_cq_poll (sys_mem s) (sys_q s) = None \<longleftrightarrow> length (got s) = length (posted s)) \<and>
         (\<forall>a. nvm_cq_poll (sys_mem s) (sys_q s) = Some a \<longrightarrow> sys_mem s a = posted s ! length (got s))"
proof -
  obtain a where a: "cq_inv a s" using cq_inv_reachable [OF assms(2) cq_inv_fresh [OF assms(1)]] ..
  show ?thesis
    using cq_invD(6,12) [OF a] cq_poll_eq [OF a] by (auto split: if_splits)
qed

definition witness_cq :: cq_sys where
  "witness_cq = \<lparr>sys_q = \<lparr>head_lock = 0, tail_lock = 0, q_head = 0, q_tail = 0, in_ticket = 0, cid_ticket = 0,
      q_no = 1, q_es = 16, q_qs = 2, q_phase = True, q_local = True, q_last = 0, q_db = Some 0x100c,
      q_vaddr = 0x10000, q_ioaddr = 0\<rparr>, sys_mem = (\<lambda>_. \<lparr>cpl_dword = [0, 0, 0, 0]\<rparr>), sys_db = 0,
      posted = [], got = []\<rparr>"

theorem cq_delivery_witness:
  "\<exists>s. cq_step\<^sup>*\<^sup>* witness_cq s \<and> length (posted s) = 1 \<and>
       nvm_cq_poll (sys_mem s) (sys_q s) \<noteq> None \<and> got s = []"
proof -
  let ?c = "\<lparr>cpl_dword = [0, 0, 0, 7]\<rparr>"
  have f: "cq_fresh witness_cq"
    by (simp add: cq_fresh_def witness_cq_def Let_def cpl_phase_bit)
  have "cq_step witness_cq (device_post ?c witness_cq)"
    by (rule cq_step.post) (simp_all add: device_can_post_def witness_cq_def)
  then have r: "cq_step\<^sup>*\<^sup>* witness_cq (device_post ?c witness_cq)" by simp
  have "length (posted (device_post ?c witness_cq)) = 1" "got (device_post ?c witness_cq) = []"
    by (simp_all add: device_post_def witness_cq_def Let_def)
  then show ?thesis using r cq_delivery [OF f r] by (intro exI [of _ "device_post ?c witness_cq"]) auto
qed

text \<open>C30: The submission queue is a bounded FIFO of slots for power-of-two sizes: over any run
  of \<open>nvm_sq_enqueue\<close> and \<open>nvm_sq_update\<close>, the slots released are the slots handed out, in the
  same order; no slot is handed out again while it is pending; and at most \<open>qs - 1\<close> are pending.\<close>

theorem sq_fifo:
  assumes "sq_inv q" and "ring_run sq_enq_slot nvm_sq_update sq_pend ops q = Some (q', handed, released)"
  shows "sq_pend q @ handed = released @ sq_pend q' \<and> distinct (sq_pend q') \<and>
         length (sq_pend q') \<le> unat (q_qs q) - 1"
proof -
  have *: "sq_inv q'" "sq_cap q' = sq_cap q" "sq_pend q @ handed = released @ sq_pend q'"
    using sq.run_fifo [OF assms] by auto
  then show ?thesis using sq.pend_distinct [OF *(1)] sq.pend_cap [OF *(1)] by (simp add: sq_cap_def)
qed

text \<open>\<open>nvm_sq_enqueue\<close> fails exactly when \<open>qs - 1\<close> slots are pending, and otherwise answers
  the address of the tail slot.\<close>

theorem sq_enqueue_answer:
  assumes "sq_inv q"
  shows "snd (nvm_sq_enqueue q) =
           (if length (sq_pend q) = unat (q_qs q) - 1 then None else Some (slot_addr q (q_tail q)))"
  using nvm_sq_full_iff [OF assms] by (simp add: nvm_sq_enqueue_def Let_def)

definition witness_sq :: nvm_queue_t where
  "witness_sq = (sys_q witness_cq)\<lparr>q_es := 64, q_head := 1, q_tail := 1, q_qs := 4\<rparr>"

lemma sq_inv_witness: "sq_inv witness_sq"
proof -
  have "(4::nat) = 2 ^ 2" by simp
  then show ?thesis by (auto simp: sq_inv_def witness_sq_def witness_cq_def intro!: exI [of _ 2])
qed

theorem sq_fifo_witness:
  "\<exists>q' h f. ring_run sq_enq_slot nvm_sq_update sq_pend [Enq, Enq, Enq, Enq, Rel] witness_sq = Some (q', h, f) \<and>
      sq_pend witness_sq @ h = f @ sq_pend q'"
proof -
  have "ring_run sq_enq_slot nvm_sq_update sq_pend [Enq, Enq, Enq, Enq, Rel] witness_sq \<noteq> None"
    by code_simp
  then obtain q' h f where
    r: "ring_run sq_enq_slot nvm_sq_update sq_pend [Enq, Enq, Enq, Enq, Rel] witness_sq = Some (q', h, f)"
    by auto
  then show ?thesis using sq_fifo [OF sq_inv_witness r] by auto
qed

theorem sq_enqueue_answer_witness:
  "snd (nvm_sq_enqueue witness_sq) = Some (slot_addr witness_sq 1)"
  using sq_enqueue_answer [OF sq_inv_witness]
  by (simp add: witness_sq_def witness_cq_def sq_count_def)

text \<open>The full test of \<open>nvm_sq_enqueue\<close> is wrong for a size that is not a power of two, though
  \<open>nvm_queue_clear\<close> accepts it: with three entries, head 1 and tail 0, both other slots are
  pending and the call still hands out slot 0 and makes the queue look empty.\<close>

theorem sq_full_non_power_of_two:
  "case nvm_queue_clear witness_sq \<lparr>c_page_size = 4096, c_dstrd = 0, c_timeout = 500, c_max_qs = 1024,
          c_mm_size = 0x2000, c_mm_ptr = 0\<rparr> False 1 3 True 0x10000 0 of
     Inl e \<Rightarrow> False
   | Inr q0 \<Rightarrow>
       (let q1 = nvm_sq_update (fst (nvm_sq_enqueue q0));
            q = fst (nvm_sq_enqueue (fst (nvm_sq_enqueue q1)))
        in sq_count q = unat (q_qs q) - 1 \<and> snd (nvm_sq_enqueue q) = Some (slot_addr q 0) \<and>
           sq_count (fst (nvm_sq_enqueue q)) = 0)"
  by code_simp

text \<open>The blocking dequeue returns what arrives in time: if polls 0 to \<open>k - 1\<close> find nothing and
  poll \<open>k\<close> finds completion \<open>c\<close>, with less than the timeout (in milliseconds, one per delay)
  spent by then, \<open>nvm_cq_dequeue_block\<close> returns \<open>c\<close>.\<close>

theorem dequeue_block_in_time:
  assumes "\<forall>j < k. snd (nvm_cq_dequeue (mems j) cq) = None"
    and "nvm_cq_dequeue (mems k) cq = (cq', Some c)"
    and "k \<le> unat timeout" and "unat timeout * 1000000 < 2 ^ 64"
  shows "nvm_cq_dequeue_block mems cq timeout = (cq', Some c)"
proof (cases k)
  case 0
  then show ?thesis using assms(2) by (simp add: nvm_cq_dequeue_block_def dequeue_block_loop.simps)
next
  case (Suc k')
  have "snd (nvm_cq_dequeue (mems 0) cq) = None" using assms(1) Suc by simp
  then have d: "nvm_cq_dequeue (mems 0) cq = (cq, None)"
    by (simp add: nvm_cq_dequeue_def Let_def split: option.splits)
  have n: "unat (timeout * 1000000) = unat timeout * 1000000"
    using assms(4) unat_mult_lem [of timeout "1000000"] by simp
  have "dequeue_block_loop mems 1 cq None (timeout * 1000000) = (cq', Some c)"
    using assms Suc n by (intro dequeue_block_loop_found [where k = k']) auto
  then show ?thesis using d by (simp add: nvm_cq_dequeue_block_def)
qed


theorem dequeue_block_in_time_witness:
  "snd (nvm_cq_dequeue_block (\<lambda>i. if i < 2 then (\<lambda>_. \<lparr>cpl_dword = [0, 0, 0, 0]\<rparr>) else (\<lambda>_. \<lparr>cpl_dword = [0, 0, 0, 0x10007]\<rparr>))
     (sys_q witness_cq) 5) = Some 0x10000"
proof -
  let ?m = "\<lambda>i::nat. if i < 2 then (\<lambda>_. \<lparr>cpl_dword = [0, 0, 0, 0]\<rparr>) else (\<lambda>_. \<lparr>cpl_dword = [0, 0, 0, 0x10007]\<rparr>)"
  have a: "\<forall>j < 2. snd (nvm_cq_dequeue (?m j) (sys_q witness_cq)) = None"
    by (simp add: nvm_cq_dequeue_def nvm_cq_poll_def cpl_phase_bit witness_cq_def)
  have "bit (0x10007 :: u32) 16" by (simp add: bit_simps)
  then have b: "nvm_cq_dequeue (?m 2) (sys_q witness_cq) = ((sys_q witness_cq)\<lparr>q_head := 1\<rparr>, Some 0x10000)"
    by (simp add: nvm_cq_dequeue_def nvm_cq_poll_def cpl_phase_bit witness_cq_def slot_addr_def)
  have "nvm_cq_dequeue_block ?m (sys_q witness_cq) 5 = ((sys_q witness_cq)\<lparr>q_head := 1\<rparr>, Some 0x10000)"
    by (rule dequeue_block_in_time [OF a b]) simp_all
  then show ?thesis by simp
qed

text \<open>C29: With \<open>n\<close> threads that each pass their previous pointer back, \<open>nvm_sq_enqueue_n\<close> gives
  thread \<open>i\<close> in round \<open>r\<close> the slot \<open>(r * n + i) mod qs\<close>: the threads of a round get different
  slots and successive rounds continue where the last one stopped.\<close>

theorem sq_enqueue_n_slot:
  assumes "q_es sq = 64" and "unat (q_vaddr sq) + 128 * unat (q_qs sq) < 2 ^ 64"
    and "unat (q_qs sq) \<le> 65536" and "i < n" and "unat n < unat (q_qs sq)"
  shows "snd (enqueue_n_round sq n i r) =
           Some (q_vaddr sq + of_nat (64 * ((r * unat n + unat i) mod unat (q_qs sq))))"
proof (induction r)
  case 0
  have "unat i < unat (q_qs sq)" using assms(4,5) by (simp add: word_less_nat_alt)
  then show ?case using enqueue_n_first [OF assms(1,5)] by simp
next
  case (Suc r)
  obtain sq' where r: "enqueue_n_round sq n i r =
      (sq', Some (q_vaddr sq + of_nat (64 * ((r * unat n + unat i) mod unat (q_qs sq)))))"
    using Suc by (metis prod.collapse)
  have f: "q_es sq' = q_es sq" "q_vaddr sq' = q_vaddr sq" "q_qs sq' = q_qs sq"
    using enqueue_n_round_frame [of sq n i r] r by simp_all
  have x: "(r * unat n + unat i) mod unat (q_qs sq) < unat (q_qs sq)" using assms(5) by simp
  have "snd (nvm_sq_enqueue_n sq' (Some (q_vaddr sq + of_nat (64 * ((r * unat n + unat i) mod unat (q_qs sq))))) n i) =
      Some (q_vaddr sq + of_nat (64 * (((r * unat n + unat i) mod unat (q_qs sq) + unat n) mod unat (q_qs sq))))"
    using enqueue_n_next [of sq' n] assms x unfolding f by blast
  moreover have "((r * unat n + unat i) mod unat (q_qs sq) + unat n) mod unat (q_qs sq) =
      (Suc r * unat n + unat i) mod unat (q_qs sq)"
    unfolding mod_add_left_eq by (simp add: ac_simps)
  ultimately show ?case unfolding enqueue_n_round.simps r by simp
qed

theorem sq_enqueue_n_slot_witness:
  "snd (enqueue_n_round witness_sq 3 2 5) = Some (0x10000 + of_nat (64 * ((5 * 3 + 2) mod 4)))"
  using sq_enqueue_n_slot [where sq = witness_sq and i = 2 and n = 3 and r = 5] by (simp add: witness_sq_def witness_cq_def word_less_nat_alt)

end
