(* ===== verification/Ticket_Ring.thy ===== *)
theory Ticket_Ring
  imports Prelude
begin

text \<open>
  The abstract protocol behind the parallel submission queue: tickets are drawn in order, the
  holder of ticket \<open>t\<close> waits for its turn at position \<open>t mod q\<close>, copies its command in two
  halves, sets the mark of the position, waits until the mark is claimed and finally bumps the
  turn counter; the consumer bumps the counter once more when it frees the position.  All
  quantities are natural numbers and nothing wraps.  The operations below are the atomic steps;
  \<open>ring_inv\<close> is kept by each of them.  \<open>Par_Sq\<close> shows that the code of \<open>sq_enqueue\<close> performs
  exactly these steps.
\<close>

datatype stage = Waiting | Copy0 | Copy1 | Copied | Marked | Leaving | Finished

record 'a ring =
  r_q :: nat
  r_n :: nat
  r_hm :: nat
  r_lb :: nat
  r_st :: "nat \<Rightarrow> stage"
  r_tk :: "nat \<Rightarrow> nat"
  r_mark :: "nat \<Rightarrow> bool"
  r_slot :: "nat \<Rightarrow> 'a \<times> 'a"
  r_cmd :: "nat \<Rightarrow> 'a \<times> 'a"

definition passed :: "stage \<Rightarrow> bool" where
  "passed x \<longleftrightarrow> x \<noteq> Waiting"

definition marked :: "stage \<Rightarrow> bool" where
  "marked x \<longleftrightarrow> x \<in> {Marked, Leaving, Finished}"

lemmas stage_defs = passed_def marked_def

section \<open>Operations\<close>

definition ring_draw :: "'a \<times> 'a \<Rightarrow> 'a ring \<Rightarrow> 'a ring" where
  "ring_draw c r = r\<lparr>r_n := r_n r + 1, r_st := (r_st r)(r_n r := Waiting), r_cmd := (r_cmd r)(r_n r := c)\<rparr>"

definition ring_stage :: "nat \<Rightarrow> stage \<Rightarrow> 'a ring \<Rightarrow> 'a ring" where
  "ring_stage t x r = r\<lparr>r_st := (r_st r)(t := x)\<rparr>"

definition ring_copy :: "nat \<Rightarrow> 'a \<times> 'a \<Rightarrow> stage \<Rightarrow> 'a ring \<Rightarrow> 'a ring" where
  "ring_copy t c x r = r\<lparr>r_slot := (r_slot r)(t mod r_q r := c), r_st := (r_st r)(t := x)\<rparr>"

definition ring_mark :: "nat \<Rightarrow> 'a ring \<Rightarrow> 'a ring" where
  "ring_mark t r = r\<lparr>r_mark := (r_mark r)(t mod r_q r := True), r_st := (r_st r)(t := Marked)\<rparr>"

definition ring_claim :: "'a ring \<Rightarrow> 'a ring" where
  "ring_claim r = r\<lparr>r_mark := (r_mark r)(r_lb r mod r_q r := False), r_lb := r_lb r + 1\<rparr>"

definition ring_finish :: "nat \<Rightarrow> 'a ring \<Rightarrow> 'a ring" where
  "ring_finish t r = r\<lparr>r_tk := (r_tk r)(t mod r_q r := r_tk r (t mod r_q r) + 1), r_st := (r_st r)(t := Finished)\<rparr>"

definition ring_bump :: "'a ring \<Rightarrow> 'a ring" where
  "ring_bump r = r\<lparr>r_tk := (r_tk r)(r_hm r mod r_q r := r_tk r (r_hm r mod r_q r) + 1), r_hm := r_hm r + 1\<rparr>"

section \<open>Invariant\<close>

definition finished_at :: "'a ring \<Rightarrow> nat \<Rightarrow> nat set" where
  "finished_at r p = {t. t < r_n r \<and> t mod r_q r = p \<and> r_st r t = Finished}"

definition freed_at :: "'a ring \<Rightarrow> nat \<Rightarrow> nat set" where
  "freed_at r p = {t. t < r_hm r \<and> t mod r_q r = p}"

definition unclaimed_at :: "'a ring \<Rightarrow> nat \<Rightarrow> nat set" where
  "unclaimed_at r p = {t. r_lb r \<le> t \<and> t < r_n r \<and> t mod r_q r = p \<and> marked (r_st r t)}"

definition inv_order :: "'a ring \<Rightarrow> bool" where
  "inv_order r \<longleftrightarrow> 0 < r_q r \<and> r_hm r \<le> r_lb r \<and> r_lb r \<le> r_n r"

definition inv_turn :: "'a ring \<Rightarrow> bool" where
  "inv_turn r \<longleftrightarrow> (\<forall>p < r_q r. r_tk r p = card (finished_at r p) + card (freed_at r p))"

definition inv_pass :: "'a ring \<Rightarrow> bool" where
  "inv_pass r \<longleftrightarrow> (\<forall>t < r_n r. passed (r_st r t) \<longrightarrow>
     (\<forall>u < t. u mod r_q r = t mod r_q r \<longrightarrow> r_st r u = Finished \<and> u < r_hm r))"

definition inv_mark :: "'a ring \<Rightarrow> bool" where
  "inv_mark r \<longleftrightarrow> (\<forall>p < r_q r. r_mark r p \<longleftrightarrow> unclaimed_at r p \<noteq> {})"

definition inv_claim :: "'a ring \<Rightarrow> bool" where
  "inv_claim r \<longleftrightarrow> (\<forall>t < r_lb r. marked (r_st r t)) \<and>
     (\<forall>t < r_n r. r_st r t \<in> {Leaving, Finished} \<longrightarrow> t < r_lb r)"

definition inv_slot :: "'a ring \<Rightarrow> bool" where
  "inv_slot r \<longleftrightarrow> (\<forall>t < r_n r. r_hm r \<le> t \<longrightarrow>
     (r_st r t = Copy1 \<longrightarrow> fst (r_slot r (t mod r_q r)) = fst (r_cmd r t)) \<and>
     (r_st r t = Copied \<or> marked (r_st r t) \<longrightarrow> r_slot r (t mod r_q r) = r_cmd r t))"

definition ring_inv :: "'a ring \<Rightarrow> bool" where
  "ring_inv r \<longleftrightarrow> inv_order r \<and> inv_turn r \<and> inv_pass r \<and> inv_mark r \<and> inv_claim r \<and> inv_slot r"

lemmas inv_defs = ring_inv_def inv_order_def inv_turn_def inv_pass_def inv_mark_def inv_claim_def inv_slot_def

section \<open>Counting\<close>

lemma finite_at [simp]: "finite (finished_at r p)" "finite (freed_at r p)"
  by (simp_all add: finished_at_def freed_at_def)

lemma earlier_eq_image:
  assumes "0 < (q::nat)"
  shows "{u. u < t \<and> u mod q = t mod q} = (\<lambda>j. j * q + t mod q) ` {..<t div q}"
proof (rule set_eqI, rule iffI)
  fix u assume u: "u \<in> {u. u < t \<and> u mod q = t mod q}"
  then have "u div q < t div q" using assms by (auto intro: div_of_mod_eq)
  moreover have "u = u div q * q + t mod q" using u by (metis (mono_tags, lifting) div_mult_mod_eq mem_Collect_eq)
  ultimately show "u \<in> (\<lambda>j. j * q + t mod q) ` {..<t div q}" by blast
next
  fix u assume "u \<in> (\<lambda>j. j * q + t mod q) ` {..<t div q}"
  then obtain j where j: "j < t div q" "u = j * q + t mod q" by auto
  have "(j + 1) * q \<le> t div q * q" using j(1) by (intro mult_le_mono1) simp
  then have "j * q + q \<le> t div q * q" by simp
  then have "u < t" using j(2) assms div_mult_mod_eq [of t q] by linarith
  then show "u \<in> {u. u < t \<and> u mod q = t mod q}" using j(2) by simp
qed

lemma card_earlier: "0 < (q::nat) \<Longrightarrow> card {u. u < t \<and> u mod q = t mod q} = t div q"
proof -
  assume q: "0 < q"
  then have "inj_on (\<lambda>j. j * q + t mod q) {..<t div q}" by (auto simp: inj_on_def)
  then show ?thesis unfolding earlier_eq_image [OF q] by (simp add: card_image)
qed

text \<open>The turn counter lets ticket \<open>t\<close> pass only when all earlier tickets of its position are done.\<close>

lemma turn_all_done:
  assumes "ring_inv r" and "t < r_n r" and "r_st r t = Waiting"
    and "r_tk r (t mod r_q r) = 2 * (t div r_q r)"
  shows "\<forall>u < t. u mod r_q r = t mod r_q r \<longrightarrow> r_st r u = Finished \<and> u < r_hm r"
proof -
  let ?p = "t mod r_q r" and ?E = "{u. u < t \<and> u mod r_q r = t mod r_q r}"
  have q: "0 < r_q r" using assms(1) by (simp add: inv_defs)
  have later: "\<not> passed (r_st r u)" if "t < u" "u < r_n r" "u mod r_q r = ?p" for u
    using assms(1,3) that by (auto simp: ring_inv_def inv_pass_def)
  have F: "finished_at r ?p \<subseteq> ?E"
  proof
    fix u assume u: "u \<in> finished_at r ?p"
    then have "u \<noteq> t" "\<not> t < u" using assms(3) later by (auto simp: finished_at_def passed_def)
    then show "u \<in> ?E" using u by (auto simp: finished_at_def)
  qed
  have notfreed: "\<not> t < r_hm r"
    using assms(1,3) by (auto simp: inv_defs stage_defs dest: less_le_trans)
  have G: "freed_at r ?p \<subseteq> ?E"
  proof
    fix u assume u: "u \<in> freed_at r ?p"
    then have "u < t" using notfreed by (auto simp: freed_at_def intro: ccontr)
    then show "u \<in> ?E" using u by (auto simp: freed_at_def)
  qed
  have fin: "finite ?E" by simp
  have E: "card ?E = t div r_q r" using q by (rule card_earlier)
  have "card (finished_at r ?p) + card (freed_at r ?p) = 2 * (t div r_q r)"
    using assms(1,4) q by (simp add: ring_inv_def inv_turn_def)
  moreover have "card (finished_at r ?p) \<le> card ?E" "card (freed_at r ?p) \<le> card ?E"
    using F G fin by (auto intro: card_mono)
  ultimately have "card (finished_at r ?p) = card ?E" "card (freed_at r ?p) = card ?E" using E by linarith+
  then have "finished_at r ?p = ?E" "freed_at r ?p = ?E" using F G fin card_subset_eq by blast+
  then show ?thesis by (auto simp: finished_at_def freed_at_def set_eq_iff)
qed

section \<open>Preservation\<close>

lemma ring_invD:
  assumes "ring_inv r"
  shows "inv_order r" "inv_turn r" "inv_pass r" "inv_mark r" "inv_claim r" "inv_slot r"
  using assms by (simp_all add: ring_inv_def)

lemma ring_invI:
  "inv_order r \<Longrightarrow> inv_turn r \<Longrightarrow> inv_pass r \<Longrightarrow> inv_mark r \<Longrightarrow> inv_claim r \<Longrightarrow> inv_slot r \<Longrightarrow> ring_inv r"
  by (simp add: ring_inv_def)

lemma inv_orderD: "ring_inv r \<Longrightarrow> 0 < r_q r \<and> r_hm r \<le> r_lb r \<and> r_lb r \<le> r_n r"
  by (simp add: ring_inv_def inv_order_def)

lemma inv_passD:
  "\<lbrakk> ring_inv r; t < r_n r; passed (r_st r t); u < t; u mod r_q r = t mod r_q r \<rbrakk> \<Longrightarrow>
     r_st r u = Finished \<and> u < r_hm r"
  by (simp add: ring_inv_def inv_pass_def)

text \<open>While \<open>t\<close> is past its wait and not yet free, no other ticket of its position is active.\<close>

lemma only_active:
  assumes "ring_inv r" and "t < r_n r" and "r_hm r \<le> t" and "passed (r_st r t)"
    and "u < r_n r" and "u mod r_q r = t mod r_q r" and "passed (r_st r u)" and "r_hm r \<le> u"
  shows "u = t"
  using inv_passD [OF assms(1,2,4), of u] inv_passD [OF assms(1,5,7), of t] assms(3,6,8)
  by (metis linorder_neqE_nat not_le)

lemma ring_draw_inv:
  assumes "ring_inv r"
  shows "ring_inv (ring_draw c r)"
proof (rule ring_invI)
  note O = inv_orderD [OF assms] and D = ring_invD [OF assms]
  show "inv_order (ring_draw c r)" using O by (simp add: inv_order_def ring_draw_def)
  have "finished_at (ring_draw c r) p = finished_at r p" for p
    by (auto simp: finished_at_def ring_draw_def)
  moreover have "freed_at (ring_draw c r) p = freed_at r p" for p
    by (simp add: freed_at_def ring_draw_def)
  ultimately show "inv_turn (ring_draw c r)" using D(2) by (simp add: inv_turn_def ring_draw_def)
  show "inv_pass (ring_draw c r)"
    using D(3) O by (auto simp: inv_pass_def ring_draw_def passed_def less_Suc_eq)
  have "unclaimed_at (ring_draw c r) p = unclaimed_at r p" for p
    by (auto simp: unclaimed_at_def ring_draw_def marked_def)
  then show "inv_mark (ring_draw c r)" using D(4) by (simp add: inv_mark_def ring_draw_def)
  show "inv_claim (ring_draw c r)"
    using D(5) O by (auto simp: inv_claim_def ring_draw_def less_Suc_eq)
  show "inv_slot (ring_draw c r)"
    using D(6) by (auto simp: inv_slot_def ring_draw_def marked_def less_Suc_eq)
qed

lemma finished_at_stage:
  "x \<noteq> Finished \<Longrightarrow> r_st r t \<noteq> Finished \<Longrightarrow> finished_at (ring_stage t x r) p = finished_at r p"
  by (auto simp: finished_at_def ring_stage_def)

lemma unclaimed_of_unmarked:
  "ring_inv r \<Longrightarrow> \<not> marked (r_st r t) \<Longrightarrow> r_hm r \<le> t \<and> r_lb r \<le> t"
proof -
  assume i: "ring_inv r" and m: "\<not> marked (r_st r t)"
  have "r_lb r \<le> t" using ring_invD(5) [OF i] m by (auto simp: inv_claim_def not_le [symmetric])
  then show ?thesis using inv_orderD [OF i] by linarith
qed

lemma unclaimed_at_stage:
  "marked x = marked (r_st r t) \<Longrightarrow> unclaimed_at (ring_stage t x r) p = unclaimed_at r p"
  by (auto simp: unclaimed_at_def ring_stage_def)

lemma freed_at_stage: "freed_at (ring_stage t x r) p = freed_at r p"
  by (simp add: freed_at_def ring_stage_def)

text \<open>A change of stage that neither sets nor clears a mark, nor passes, finishes or leaves.\<close>

lemma ring_stage_groups:
  assumes "ring_inv r" and "x \<noteq> Finished" and "r_st r t \<noteq> Finished" and "marked x = marked (r_st r t)"
  shows "inv_order (ring_stage t x r)" "inv_turn (ring_stage t x r)" "inv_mark (ring_stage t x r)"
proof -
  note D = ring_invD [OF assms(1)]
  show "inv_order (ring_stage t x r)" using D(1) by (simp add: inv_order_def ring_stage_def)
  show "inv_turn (ring_stage t x r)"
    using D(2) unfolding inv_turn_def finished_at_stage [OF assms(2,3)] freed_at_stage by (simp add: ring_stage_def)
  show "inv_mark (ring_stage t x r)"
    using D(4) unfolding inv_mark_def unclaimed_at_stage [OF assms(4)] by (simp add: ring_stage_def)
qed

lemma inv_pass_stage:
  assumes "ring_inv r" and "r_st r t \<noteq> Finished"
    and "passed x \<Longrightarrow> \<forall>u < t. u mod r_q r = t mod r_q r \<longrightarrow> r_st r u = Finished \<and> u < r_hm r"
  shows "inv_pass (ring_stage t x r)"
proof -
  have "u \<noteq> t" if "passed (r_st r w)" "w < r_n r" "u < w" "u mod r_q r = w mod r_q r" for u w
    using inv_passD [OF assms(1) that(2,1,3,4)] assms(2) by auto
  then show ?thesis
    using ring_invD(3) [OF assms(1)] assms(3) by (auto simp: inv_pass_def ring_stage_def)
qed

lemma ring_pass_inv:
  assumes "ring_inv r" and "t < r_n r" and "r_st r t = Waiting"
    and "r_tk r (t mod r_q r) = 2 * (t div r_q r)"
  shows "ring_inv (ring_stage t Copy0 r)"
proof (rule ring_invI)
  note D = ring_invD [OF assms(1)]
  show "inv_pass (ring_stage t Copy0 r)"
    using turn_all_done [OF assms] assms(3) by (intro inv_pass_stage [OF assms(1)]) simp_all
  show "inv_claim (ring_stage t Copy0 r)"
    using D(5) assms(3) by (auto simp: inv_claim_def ring_stage_def marked_def)
  show "inv_slot (ring_stage t Copy0 r)"
    using D(6) by (auto simp: inv_slot_def ring_stage_def marked_def)
qed (use assms ring_stage_groups [OF assms(1), of Copy0 t] in \<open>simp_all add: marked_def\<close>)

lemma pass_of_passed:
  "ring_inv r \<Longrightarrow> t < r_n r \<Longrightarrow> passed (r_st r t) \<Longrightarrow>
     \<forall>u < t. u mod r_q r = t mod r_q r \<longrightarrow> r_st r u = Finished \<and> u < r_hm r"
  by (simp add: inv_passD)

lemma ring_leave_inv:
  assumes "ring_inv r" and "t < r_n r" and "r_st r t = Marked" and "\<not> r_mark r (t mod r_q r)"
  shows "ring_inv (ring_stage t Leaving r)"
proof (rule ring_invI)
  note D = ring_invD [OF assms(1)]
  have "t < r_lb r"
  proof (rule ccontr)
    assume "\<not> t < r_lb r"
    then have "t \<in> unclaimed_at r (t mod r_q r)" using assms(2,3) by (simp add: unclaimed_at_def marked_def)
    then show False using D(4) assms(4) inv_orderD [OF assms(1)] by (auto simp: inv_mark_def)
  qed
  then show "inv_claim (ring_stage t Leaving r)"
    using D(5) by (auto simp: inv_claim_def ring_stage_def marked_def)
  show "inv_pass (ring_stage t Leaving r)"
    using pass_of_passed [OF assms(1,2)] assms(3) by (intro inv_pass_stage [OF assms(1)]) (simp_all add: passed_def)
  show "inv_slot (ring_stage t Leaving r)"
    using D(6) assms(3) by (auto simp: inv_slot_def ring_stage_def marked_def)
qed (use assms ring_stage_groups [OF assms(1), of Leaving t] in \<open>simp_all add: marked_def\<close>)

lemma ring_copy_groups:
  "inv_order (ring_copy t c x r) = inv_order (ring_stage t x r)"
  "inv_turn (ring_copy t c x r) = inv_turn (ring_stage t x r)"
  "inv_pass (ring_copy t c x r) = inv_pass (ring_stage t x r)"
  "inv_mark (ring_copy t c x r) = inv_mark (ring_stage t x r)"
  "inv_claim (ring_copy t c x r) = inv_claim (ring_stage t x r)"
  by (simp_all add: inv_order_def inv_turn_def inv_pass_def inv_mark_def inv_claim_def ring_copy_def
      ring_stage_def finished_at_def freed_at_def unclaimed_at_def)

lemma ring_copy_inv:
  assumes "ring_inv r" and "t < r_n r"
    and "r_st r t = Copy0 \<and> x = Copy1 \<and> c = (fst (r_cmd r t), snd (r_slot r (t mod r_q r))) \<or>
         r_st r t = Copy1 \<and> x = Copied \<and> c = (fst (r_slot r (t mod r_q r)), snd (r_cmd r t))"
  shows "ring_inv (ring_copy t c x r)"
proof (rule ring_invI)
  note D = ring_invD [OF assms(1)]
  have nm: "\<not> marked (r_st r t)" "\<not> marked x" "passed (r_st r t)" "x \<noteq> Finished" "r_st r t \<noteq> Finished"
    using assms(3) by (auto simp: stage_defs)
  note G = ring_stage_groups [OF assms(1) nm(4,5)]
  show "inv_order (ring_copy t c x r)" "inv_turn (ring_copy t c x r)" "inv_mark (ring_copy t c x r)"
    using G nm by (simp_all add: ring_copy_groups)
  show "inv_pass (ring_copy t c x r)"
    unfolding ring_copy_groups using pass_of_passed [OF assms(1,2) nm(3)] nm(5) by (intro inv_pass_stage [OF assms(1)])
  show "inv_claim (ring_copy t c x r)"
    unfolding ring_copy_groups using D(5) assms(3) by (auto simp: inv_claim_def ring_stage_def marked_def)
  have other: "u mod r_q r \<noteq> t mod r_q r" if "u \<noteq> t" "u < r_n r" "r_hm r \<le> u" "passed (r_st r u)" for u
    using only_active [OF assms(1,2) _ nm(3), of u] unclaimed_of_unmarked [OF assms(1) nm(1)] that by blast
  have me: "c = r_cmd r t \<or> x = Copy1 \<and> fst c = fst (r_cmd r t)"
    using assms(3) D(6) assms(2) unclaimed_of_unmarked [OF assms(1) nm(1)]
    by (auto simp: inv_slot_def prod_eq_iff)
  show "inv_slot (ring_copy t c x r)"
    unfolding inv_slot_def
  proof (intro allI impI)
    fix u assume u: "u < r_n (ring_copy t c x r)" "r_hm (ring_copy t c x r) \<le> u"
    let ?r = "ring_copy t c x r"
    show "(r_st ?r u = Copy1 \<longrightarrow> fst (r_slot ?r (u mod r_q ?r)) = fst (r_cmd ?r u)) \<and>
          (r_st ?r u = Copied \<or> marked (r_st ?r u) \<longrightarrow> r_slot ?r (u mod r_q ?r) = r_cmd ?r u)"
    proof (cases "u = t")
      case True
      then show ?thesis using me nm(2) assms(3) by (auto simp: ring_copy_def)
    next
      case False
      then show ?thesis using other [of u] D(6) u
        by (auto simp: ring_copy_def inv_slot_def stage_defs)
    qed
  qed
qed

lemma ring_mark_inv:
  assumes "ring_inv r" and "t < r_n r" and "r_st r t = Copied"
  shows "ring_inv (ring_mark t r)"
proof (rule ring_invI)
  note D = ring_invD [OF assms(1)] and O = inv_orderD [OF assms(1)]
  have lb: "r_hm r \<le> t" "r_lb r \<le> t" using unclaimed_of_unmarked [OF assms(1)] assms(3) by (simp_all add: marked_def)
  have "finished_at (ring_mark t r) p = finished_at r p" "freed_at (ring_mark t r) p = freed_at r p" for p
    using assms(3) by (auto simp: finished_at_def freed_at_def ring_mark_def)
  then show "inv_turn (ring_mark t r)" using D(2) by (simp add: inv_turn_def ring_mark_def)
  show "inv_order (ring_mark t r)" using O by (simp add: inv_order_def ring_mark_def)
  have "inv_pass (ring_stage t Marked r)"
    using pass_of_passed [OF assms(1,2)] assms(3) by (intro inv_pass_stage [OF assms(1)]) (simp_all add: passed_def)
  then show "inv_pass (ring_mark t r)" by (simp add: inv_pass_def ring_mark_def ring_stage_def)
  have "unclaimed_at (ring_mark t r) p = unclaimed_at r p \<union> (if p = t mod r_q r then {t} else {})" for p
    using assms(2) lb by (auto simp: unclaimed_at_def ring_mark_def marked_def)
  then show "inv_mark (ring_mark t r)" using D(4) by (simp add: inv_mark_def ring_mark_def)
  show "inv_claim (ring_mark t r)" using D(5) by (auto simp: inv_claim_def ring_mark_def marked_def)
  show "inv_slot (ring_mark t r)" using D(6) assms(3) by (auto simp: inv_slot_def ring_mark_def marked_def)
qed

text \<open>A set mark at the claim position belongs to the next ticket in order.\<close>

lemma marked_is_next:
  assumes "ring_inv r" and "r_mark r (r_lb r mod r_q r)"
  shows "r_lb r < r_n r \<and> marked (r_st r (r_lb r)) \<and> unclaimed_at r (r_lb r mod r_q r) = {r_lb r}"
proof -
  note D = ring_invD [OF assms(1)] and O = inv_orderD [OF assms(1)]
  have eq: "t = r_lb r" if "t \<in> unclaimed_at r (r_lb r mod r_q r)" for t
  proof (rule ccontr)
    assume "t \<noteq> r_lb r"
    then have "r_lb r < r_hm r"
      using that inv_passD [OF assms(1), of t "r_lb r"] by (auto simp: unclaimed_at_def stage_defs)
    then show False using O by simp
  qed
  have "unclaimed_at r (r_lb r mod r_q r) \<noteq> {}" using D(4) assms(2) O by (simp add: inv_mark_def)
  then have "unclaimed_at r (r_lb r mod r_q r) = {r_lb r}" using eq by blast
  then show ?thesis by (auto simp: unclaimed_at_def set_eq_iff)
qed

lemma ring_claim_inv:
  assumes "ring_inv r" and "r_mark r (r_lb r mod r_q r)"
  shows "ring_inv (ring_claim r)"
proof (rule ring_invI)
  note D = ring_invD [OF assms(1)] and O = inv_orderD [OF assms(1)] and N = marked_is_next [OF assms]
  have "finished_at (ring_claim r) p = finished_at r p" "freed_at (ring_claim r) p = freed_at r p" for p
    by (auto simp: finished_at_def freed_at_def ring_claim_def)
  then show "inv_turn (ring_claim r)" using D(2) by (simp add: inv_turn_def ring_claim_def)
  show "inv_order (ring_claim r)" using O N by (simp add: inv_order_def ring_claim_def)
  show "inv_pass (ring_claim r)" using D(3) by (simp add: inv_pass_def ring_claim_def)
  have "unclaimed_at (ring_claim r) p = unclaimed_at r p - {r_lb r}" for p
    by (auto simp: unclaimed_at_def ring_claim_def)
  moreover have "r_lb r \<notin> unclaimed_at r p" if "p \<noteq> r_lb r mod r_q r" for p
    using that by (auto simp: unclaimed_at_def)
  ultimately show "inv_mark (ring_claim r)"
    using D(4) N by (auto simp: inv_mark_def ring_claim_def)
  show "inv_claim (ring_claim r)" using D(5) N by (auto simp: inv_claim_def ring_claim_def less_Suc_eq)
  show "inv_slot (ring_claim r)" using D(6) by (simp add: inv_slot_def ring_claim_def)
qed

lemma ring_finish_inv:
  assumes "ring_inv r" and "t < r_n r" and "r_st r t = Leaving"
  shows "ring_inv (ring_finish t r)"
proof (rule ring_invI)
  note D = ring_invD [OF assms(1)] and O = inv_orderD [OF assms(1)]
  have "finished_at (ring_finish t r) p = finished_at r p \<union> (if p = t mod r_q r then {t} else {})" for p
    using assms(2) by (auto simp: finished_at_def ring_finish_def)
  moreover have "t \<notin> finished_at r p" for p using assms(3) by (simp add: finished_at_def)
  moreover have "freed_at (ring_finish t r) p = freed_at r p" for p by (simp add: freed_at_def ring_finish_def)
  moreover have "r_tk (ring_finish t r) p = r_tk r p + (if p = t mod r_q r then 1 else 0)" for p
    by (simp add: ring_finish_def)
  moreover have "r_q (ring_finish t r) = r_q r" by (simp add: ring_finish_def)
  ultimately show "inv_turn (ring_finish t r)" using D(2) by (simp add: inv_turn_def)
  show "inv_order (ring_finish t r)" using O by (simp add: inv_order_def ring_finish_def)
  have "inv_pass (ring_stage t Finished r)"
    using pass_of_passed [OF assms(1,2)] assms(3) by (intro inv_pass_stage [OF assms(1)]) (simp_all add: passed_def)
  then show "inv_pass (ring_finish t r)" by (simp add: inv_pass_def ring_finish_def ring_stage_def)
  have "unclaimed_at (ring_finish t r) p = unclaimed_at r p" for p
    using assms(3) by (auto simp: unclaimed_at_def ring_finish_def marked_def)
  then show "inv_mark (ring_finish t r)" using D(4) by (simp add: inv_mark_def ring_finish_def)
  show "inv_claim (ring_finish t r)" using D(5) assms by (auto simp: inv_claim_def ring_finish_def marked_def)
  show "inv_slot (ring_finish t r)" using D(6) assms(3) by (auto simp: inv_slot_def ring_finish_def marked_def)
qed

lemma ring_bump_inv:
  assumes "ring_inv r" and "r_hm r < r_lb r"
  shows "ring_inv (ring_bump r)"
proof (rule ring_invI)
  note D = ring_invD [OF assms(1)] and O = inv_orderD [OF assms(1)]
  have "freed_at (ring_bump r) p = freed_at r p \<union> (if p = r_hm r mod r_q r then {r_hm r} else {})" for p
    by (auto simp: freed_at_def ring_bump_def less_Suc_eq)
  moreover have "r_hm r \<notin> freed_at r p" for p by (simp add: freed_at_def)
  moreover have "finished_at (ring_bump r) p = finished_at r p" for p by (simp add: finished_at_def ring_bump_def)
  moreover have "r_tk (ring_bump r) p = r_tk r p + (if p = r_hm r mod r_q r then 1 else 0)" for p
    by (simp add: ring_bump_def)
  moreover have "r_q (ring_bump r) = r_q r" by (simp add: ring_bump_def)
  ultimately show "inv_turn (ring_bump r)" using D(2) by (simp add: inv_turn_def)
  show "inv_order (ring_bump r)" using O assms(2) by (simp add: inv_order_def ring_bump_def)
  show "inv_pass (ring_bump r)" using D(3) unfolding inv_pass_def ring_bump_def by (simp add: less_SucI)
  have "unclaimed_at (ring_bump r) p = unclaimed_at r p" for p by (simp add: unclaimed_at_def ring_bump_def)
  then show "inv_mark (ring_bump r)" using D(4) by (simp add: inv_mark_def ring_bump_def)
  show "inv_claim (ring_bump r)" using D(5) by (simp add: inv_claim_def ring_bump_def)
  show "inv_slot (ring_bump r)" using D(6) by (simp add: inv_slot_def ring_bump_def)
qed

lemma turn_bound: "ring_inv r \<Longrightarrow> p < r_q r \<Longrightarrow> r_tk r p \<le> r_n r + r_hm r"
proof -
  assume i: "ring_inv r" and p: "p < r_q r"
  have "card (finished_at r p) \<le> card {..<r_n r}" "card (freed_at r p) \<le> card {..<r_hm r}"
    by (intro card_mono; auto simp: finished_at_def freed_at_def)+
  then show ?thesis using ring_invD(2) [OF i] p by (simp add: inv_turn_def)
qed

text \<open>What the invariant gives to a reader of the claimed part of the ring.\<close>

lemma claimed_slot:
  "ring_inv r \<Longrightarrow> r_hm r \<le> t \<Longrightarrow> t < r_lb r \<Longrightarrow> r_slot r (t mod r_q r) = r_cmd r t"
  using inv_orderD [of r] ring_invD(5,6) [of r] by (simp add: inv_claim_def inv_slot_def)

end
