(* ===== verification/Par_Sq.thy ===== *)
theory Par_Sq
  imports Nvm_Queue Ticket_Ring
begin

text \<open>
  The lock-free submission queue that GPU threads share (\<open>include/nvm_parallel_queue.h\<close>):
  \<open>sq_enqueue\<close> and \<open>sq_enqueue_async\<close> (the same code), \<open>move_tail\<close>, and the part of
  \<open>move_head_cq\<close> that releases submission slots.  Every access to a shared variable is one step
  of the thread that makes it; the steps of all threads, and of the completion side that moves
  the head, are interleaved in any order over one shared memory (sequential consistency).
  A spinning loop stays at its program counter.  The invariant below shows that every command
  announced to the device is intact and in ticket order, whatever the interleaving.
\<close>

section \<open>Shared and local state\<close>

definition LOCKED :: u32 where "LOCKED = 1"
definition UNLOCKED :: u32 where "UNLOCKED = 0"

text \<open>
  The queue fields that \<open>sq_enqueue\<close> uses; an array of padded atomics is a function of its
  index; a slot of the queue memory is its two 32-byte halves (\<open>copy_type\<close>).  The doorbell
  register holds the value last written.  The fields whose names start with \<open>g_\<close> are ghosts that
  no step reads: \<open>g_owner\<close> the thread that drew a ticket, \<open>g_lb\<close> the number of marks claimed
  by \<open>move_tail\<close>, \<open>g_ann\<close> the number of commands announced through the doorbell.
\<close>

record psq =
  ps_log2 :: nat
  ps_head :: u32
  ps_tail :: u32
  ps_in_ticket :: u32
  ps_tail_lock :: u32
  ps_head_lock :: u32
  ps_tickets :: "nat \<Rightarrow> u32"
  ps_tail_mark :: "nat \<Rightarrow> u32"
  ps_slots :: "nat \<Rightarrow> u32 list \<times> u32 list"
  ps_db :: u32
  ps_pc_tail :: u64
  g_owner :: "nat \<Rightarrow> nat"
  g_lb :: nat
  g_ann :: nat

datatype enq_pc = EStart | EWait1 | EWait2 | ECopy0 | ECopy1 | EPc1 | EMark | ECheck
  | ELockLoad | ELockOr | ETailLoad | EMove1 | EMove2 | EMoveEnd | EPc2 | EDoorbell | ETailStore
  | EUnlock | ERecheck | EFinal | EDone

text \<open>A call of \<open>sq_enqueue\<close>: its program counter, arguments and local variables.\<close>

record enq_call =
  e_pc :: enq_pc
  e_cmd :: nvm_cmd_t
  e_use_pc :: bool
  e_cur_pc_tail :: u64
  e_ticket :: u32
  e_cur_tail :: u32
  e_count :: u32

definition qs_minus_1 :: "psq \<Rightarrow> u32" where
  "qs_minus_1 s = mask (ps_log2 s)"

definition ring_pos :: "psq \<Rightarrow> u32 \<Rightarrow> nat" where
  "ring_pos s x = unat (x AND qs_minus_1 s)"

definition get_id :: "u64 \<Rightarrow> nat \<Rightarrow> u64" where
  "get_id x y = drop_bit y x * 2"

definition e_pos :: "psq \<Rightarrow> enq_call \<Rightarrow> nat" where
  "e_pos s c = ring_pos s (e_ticket c)"

definition e_id :: "psq \<Rightarrow> enq_call \<Rightarrow> u64" where
  "e_id s c = get_id (ucast (e_ticket c)) (ps_log2 s)"

section \<open>The steps of sq\_enqueue\<close>

definition enq_take_ticket :: "nat \<Rightarrow> psq \<times> enq_call \<Rightarrow> psq \<times> enq_call" where
  "enq_take_ticket tid = (\<lambda>(s, c).
     (s\<lparr>ps_in_ticket := ps_in_ticket s + 1, g_owner := (g_owner s)(unat (ps_in_ticket s) := tid)\<rparr>,
      c\<lparr>e_ticket := ps_in_ticket s, e_pc := EWait1\<rparr>))"

text \<open>The relaxed and the acquire wait loop: one load each time around.\<close>

definition enq_wait :: "psq \<times> enq_call \<Rightarrow> psq \<times> enq_call" where
  "enq_wait = (\<lambda>(s, c).
     if ucast (ps_tickets s (e_pos s c)) \<noteq> e_id s c then (s, c)
     else (s, c\<lparr>e_pc := (if e_pc c = EWait1 then EWait2 else ECopy0)\<rparr>))"

text \<open>The copy loop has two iterations of 32 bytes.\<close>

definition enq_copy :: "psq \<times> enq_call \<Rightarrow> psq \<times> enq_call" where
  "enq_copy = (\<lambda>(s, c).
     let p = e_pos s c; old = ps_slots s p in
     if e_pc c = ECopy0
     then (s\<lparr>ps_slots := (ps_slots s)(p := (take 8 (dword (e_cmd c)), snd old))\<rparr>, c\<lparr>e_pc := ECopy1\<rparr>)
     else (s\<lparr>ps_slots := (ps_slots s)(p := (fst old, drop 8 (dword (e_cmd c))))\<rparr>,
           c\<lparr>e_pc := (if e_use_pc c then EPc1 else EMark)\<rparr>))"

definition enq_mark :: "psq \<times> enq_call \<Rightarrow> psq \<times> enq_call" where
  "enq_mark = (\<lambda>(s, c).
     if e_pc c = EPc1 then (s, c\<lparr>e_cur_pc_tail := ps_pc_tail s, e_pc := EMark\<rparr>)
     else if e_pc c = EMark
     then (s\<lparr>ps_tail_mark := (ps_tail_mark s)(e_pos s c := LOCKED)\<rparr>, c\<lparr>e_pc := ECheck\<rparr>)
     else (s, c\<lparr>e_pc := (if ps_tail_mark s (e_pos s c) = LOCKED then ELockLoad else EFinal)\<rparr>))"

definition enq_lock :: "psq \<times> enq_call \<Rightarrow> psq \<times> enq_call" where
  "enq_lock = (\<lambda>(s, c).
     if e_pc c = ELockLoad
     then (s, c\<lparr>e_pc := (if ps_tail_lock s = LOCKED then ERecheck else ELockOr)\<rparr>)
     else if e_pc c = ELockOr
     then (s\<lparr>ps_tail_lock := ps_tail_lock s OR LOCKED\<rparr>,
           c\<lparr>e_pc := (if ps_tail_lock s = LOCKED then ERecheck else ETailLoad)\<rparr>)
     else (s, c\<lparr>e_cur_tail := ps_tail s, e_count := 0, e_pc := EMove1\<rparr>))"

text \<open>\<open>move_tail\<close>: the head test, the exchange of the mark, and the final \<open>fetch_add\<close> on \<open>head_lock\<close>.\<close>

definition move_tail :: "psq \<times> enq_call \<Rightarrow> psq \<times> enq_call" where
  "move_tail = (\<lambda>(s, c).
     if e_pc c = EMove1
     then (s, c\<lparr>e_pc := (if (e_cur_tail c + e_count c + 1) AND qs_minus_1 s \<noteq> ps_head s AND qs_minus_1 s
                          then EMove2 else EMoveEnd)\<rparr>)
     else if e_pc c = EMove2
     then (let p = ring_pos s (e_cur_tail c + e_count c); old = ps_tail_mark s p;
               s1 = s\<lparr>ps_tail_mark := (ps_tail_mark s)(p := UNLOCKED)\<rparr>
           in if old = LOCKED then (s1\<lparr>g_lb := g_lb s + 1\<rparr>, c\<lparr>e_count := e_count c + 1, e_pc := EMove1\<rparr>)
              else (s1, c\<lparr>e_pc := EMoveEnd\<rparr>))
     else (s\<lparr>ps_head_lock := ps_head_lock s + 1\<rparr>,
           c\<lparr>e_pc := (if e_count c = 0 then EUnlock else if e_use_pc c then EPc2 else EDoorbell)\<rparr>))"

definition enq_publish :: "psq \<times> enq_call \<Rightarrow> psq \<times> enq_call" where
  "enq_publish = (\<lambda>(s, c).
     let new_tail = e_cur_tail c + e_count c in
     if e_pc c = EPc2 then (s, c\<lparr>e_cur_pc_tail := ps_pc_tail s, e_pc := EDoorbell\<rparr>)
     else if e_pc c = EDoorbell
     then (s\<lparr>ps_db := new_tail AND qs_minus_1 s, g_ann := unat new_tail\<rparr>, c\<lparr>e_pc := ETailStore\<rparr>)
     else if e_pc c = ETailStore then (s\<lparr>ps_tail := new_tail\<rparr>, c\<lparr>e_pc := EUnlock\<rparr>)
     else (s\<lparr>ps_tail_lock := UNLOCKED\<rparr>, c\<lparr>e_pc := ERecheck\<rparr>))"

definition enq_final :: "psq \<times> enq_call \<Rightarrow> psq \<times> enq_call" where
  "enq_final = (\<lambda>(s, c).
     if e_pc c = ERecheck
     then (s, c\<lparr>e_pc := (if ps_tail_mark s (e_pos s c) = LOCKED then ELockLoad else EFinal)\<rparr>)
     else (s\<lparr>ps_tickets := (ps_tickets s)(e_pos s c := ps_tickets s (e_pos s c) + 1)\<rparr>, c\<lparr>e_pc := EDone\<rparr>))"

text \<open>One step of a call of thread \<open>tid\<close>; a finished call does nothing.\<close>

fun enq_step :: "nat \<Rightarrow> psq \<times> enq_call \<Rightarrow> psq \<times> enq_call" where
  "enq_step tid (s, c) =
     (case e_pc c of
        EStart \<Rightarrow> enq_take_ticket tid (s, c)
      | EWait1 \<Rightarrow> enq_wait (s, c) | EWait2 \<Rightarrow> enq_wait (s, c)
      | ECopy0 \<Rightarrow> enq_copy (s, c) | ECopy1 \<Rightarrow> enq_copy (s, c)
      | EPc1 \<Rightarrow> enq_mark (s, c) | EMark \<Rightarrow> enq_mark (s, c) | ECheck \<Rightarrow> enq_mark (s, c)
      | ELockLoad \<Rightarrow> enq_lock (s, c) | ELockOr \<Rightarrow> enq_lock (s, c) | ETailLoad \<Rightarrow> enq_lock (s, c)
      | EMove1 \<Rightarrow> move_tail (s, c) | EMove2 \<Rightarrow> move_tail (s, c) | EMoveEnd \<Rightarrow> move_tail (s, c)
      | EPc2 \<Rightarrow> enq_publish (s, c) | EDoorbell \<Rightarrow> enq_publish (s, c)
      | ETailStore \<Rightarrow> enq_publish (s, c) | EUnlock \<Rightarrow> enq_publish (s, c)
      | ERecheck \<Rightarrow> enq_final (s, c) | EFinal \<Rightarrow> enq_final (s, c)
      | EDone \<Rightarrow> (s, c))"

text \<open>\<open>sq_enqueue_async\<close> repeats the body of \<open>sq_enqueue\<close>.\<close>

definition sq_enqueue_async_step :: "nat \<Rightarrow> psq \<times> enq_call \<Rightarrow> psq \<times> enq_call" where
  "sq_enqueue_async_step = enq_step"

section \<open>The release of slots by the completion side\<close>

text \<open>
  The second half of \<open>move_head_cq\<close>, which runs under the completion queue's \<open>head_lock\<close>, so
  one instance at a time: \<open>mv_loc\<close> and \<open>mv_count\<close> are its locals \<open>loc\<close> and \<open>sq_move_count\<close>,
  \<open>mv_new\<close> is \<open>new_sq_head\<close> from the completion entry and \<open>mv_goal\<close> (ghost) the number of
  commands the device reported as fetched.
\<close>

record head_mover =
  mv_loc :: u32
  mv_count :: u32
  mv_new :: u16
  mv_goal :: nat

definition release_start :: "u16 \<Rightarrow> nat \<Rightarrow> psq \<Rightarrow> head_mover option" where
  "release_start new_sq_head goal s =
     (let loc = ps_head s AND qs_minus_1 s
      in if loc \<noteq> ucast new_sq_head
         then Some \<lparr>mv_loc = loc, mv_count = 0, mv_new = new_sq_head, mv_goal = goal\<rparr> else None)"

definition release_step :: "psq \<times> head_mover \<Rightarrow> psq \<times> head_mover option" where
  "release_step = (\<lambda>(s, m).
     if mv_loc m \<noteq> ucast (mv_new m)
     then (s\<lparr>ps_tickets := (ps_tickets s)(unat (mv_loc m) := ps_tickets s (unat (mv_loc m)) + 1)\<rparr>,
           Some (m\<lparr>mv_count := mv_count m + 1, mv_loc := (mv_loc m + 1) AND qs_minus_1 s\<rparr>))
     else (s\<lparr>ps_head := ps_head s + mv_count m\<rparr>, None))"

section \<open>Interleavings\<close>

record par_sys =
  sh :: psq
  calls :: "nat \<Rightarrow> enq_call"
  mover :: "head_mover option"

text \<open>
  The device reports in each completion the head of the submission queue up to which it has
  fetched commands: a count between what was released and what was announced to it, sent modulo
  the queue size.  Tickets are drawn while fewer than \<open>2 ^ 31 - 1\<close> have been.
\<close>

inductive par_step :: "par_sys \<Rightarrow> par_sys \<Rightarrow> bool" where
  call: "\<lbrakk> e_pc (calls S i) = EStart \<Longrightarrow> unat (ps_in_ticket (sh S)) < 2 ^ 31 - 1;
           enq_step i (sh S, calls S i) = (s', c') \<rbrakk> \<Longrightarrow>
         par_step S (S\<lparr>sh := s', calls := (calls S)(i := c')\<rparr>)"
| rel_start: "\<lbrakk> mover S = None; unat (ps_head (sh S)) \<le> n; n \<le> g_ann (sh S) \<rbrakk> \<Longrightarrow>
         par_step S (S\<lparr>mover := release_start (of_nat (n mod 2 ^ ps_log2 (sh S))) n (sh S)\<rparr>)"
| rel_step: "\<lbrakk> mover S = Some m; release_step (sh S, m) = (s', m') \<rbrakk> \<Longrightarrow>
         par_step S (S\<lparr>sh := s', mover := m'\<rparr>)"

text \<open>A freshly created queue and calls that have not started.\<close>

definition par_init :: "par_sys \<Rightarrow> bool" where
  "par_init S \<longleftrightarrow>
     (let s = sh S in
       1 \<le> ps_log2 s \<and> ps_log2 s \<le> 16 \<and> ps_head s = 0 \<and> ps_tail s = 0 \<and> ps_in_ticket s = 0 \<and>
       ps_tail_lock s = UNLOCKED \<and> (\<forall>p. ps_tickets s p = 0) \<and> (\<forall>p. ps_tail_mark s p = UNLOCKED) \<and>
       g_lb s = 0 \<and> g_ann s = 0 \<and> ps_db s = 0 \<and> mover S = None \<and> (\<forall>i. e_pc (calls S i) = EStart))"

section \<open>The abstract ring of a state\<close>

fun stage_of :: "enq_pc \<Rightarrow> stage" where
  "stage_of EStart = Waiting" | "stage_of EWait1 = Waiting" | "stage_of EWait2 = Waiting"
| "stage_of ECopy0 = Copy0" | "stage_of ECopy1 = Copy1" | "stage_of EPc1 = Copied" | "stage_of EMark = Copied"
| "stage_of EFinal = Leaving" | "stage_of EDone = Finished"
| "stage_of _ = Marked"

text \<open>The program counters between taking and releasing \<open>tail_lock\<close>, and those with a live count.\<close>

definition holds :: "enq_pc \<Rightarrow> bool" where
  "holds p \<longleftrightarrow> p \<in> {ETailLoad, EMove1, EMove2, EMoveEnd, EPc2, EDoorbell, ETailStore, EUnlock}"

definition moving :: "enq_pc \<Rightarrow> bool" where
  "moving p \<longleftrightarrow> p \<in> {EMove1, EMove2, EMoveEnd, EPc2, EDoorbell, ETailStore}"

definition halves :: "enq_call \<Rightarrow> u32 list \<times> u32 list" where
  "halves c = (take 8 (dword (e_cmd c)), drop 8 (dword (e_cmd c)))"

definition hm :: "par_sys \<Rightarrow> nat" where
  "hm S = unat (ps_head (sh S)) + (case mover S of None \<Rightarrow> 0 | Some m \<Rightarrow> unat (mv_count m))"

definition par_abs :: "par_sys \<Rightarrow> u32 list ring" where
  "par_abs S = (let s = sh S; n = unat (ps_in_ticket s) in
     \<lparr>r_q = 2 ^ ps_log2 s, r_n = n, r_hm = hm S, r_lb = g_lb s,
      r_st = (\<lambda>t. if t < n then stage_of (e_pc (calls S (g_owner s t))) else Waiting),
      r_tk = (\<lambda>p. unat (ps_tickets s p)), r_mark = (\<lambda>p. ps_tail_mark s p = LOCKED),
      r_slot = ps_slots s, r_cmd = (\<lambda>t. if t < n then halves (calls S (g_owner s t)) else ([], []))\<rparr>)"

definition own_inv :: "par_sys \<Rightarrow> bool" where
  "own_inv S \<longleftrightarrow>
     (\<forall>i. e_pc (calls S i) \<noteq> EStart \<longrightarrow>
        unat (e_ticket (calls S i)) < unat (ps_in_ticket (sh S)) \<and> g_owner (sh S) (unat (e_ticket (calls S i))) = i) \<and>
     (\<forall>t < unat (ps_in_ticket (sh S)). e_pc (calls S (g_owner (sh S) t)) \<noteq> EStart \<and>
        unat (e_ticket (calls S (g_owner (sh S) t))) = t)"

definition call_ctl :: "psq \<Rightarrow> enq_call \<Rightarrow> bool" where
  "call_ctl s c \<longleftrightarrow>
     (moving (e_pc c) \<longrightarrow> e_cur_tail c = ps_tail s \<and> unat (ps_tail s) + unat (e_count c) = g_lb s \<and>
        g_ann s = (if e_pc c = ETailStore then g_lb s else unat (ps_tail s))) \<and>
     (e_pc c = EMove2 \<longrightarrow> g_lb s + 1 < unat (ps_head s) + 2 ^ ps_log2 s)"

definition ctl_inv :: "par_sys \<Rightarrow> bool" where
  "ctl_inv S \<longleftrightarrow>
     (ps_tail_lock (sh S) = LOCKED \<or> ps_tail_lock (sh S) = UNLOCKED) \<and>
     (ps_tail_lock (sh S) = LOCKED \<longleftrightarrow> (\<exists>i. holds (e_pc (calls S i)))) \<and>
     (\<forall>i j. holds (e_pc (calls S i)) \<longrightarrow> holds (e_pc (calls S j)) \<longrightarrow> i = j) \<and>
     (\<forall>i. call_ctl (sh S) (calls S i)) \<and>
     ((\<forall>i. \<not> moving (e_pc (calls S i))) \<longrightarrow> unat (ps_tail (sh S)) = g_lb (sh S) \<and> g_ann (sh S) = g_lb (sh S))"

definition mov_inv :: "par_sys \<Rightarrow> bool" where
  "mov_inv S \<longleftrightarrow>
     hm S \<le> g_ann (sh S) \<and> g_ann (sh S) \<le> g_lb (sh S) \<and>
     g_lb (sh S) < unat (ps_head (sh S)) + 2 ^ ps_log2 (sh S) \<and>
     unat (ps_db (sh S)) = g_ann (sh S) mod 2 ^ ps_log2 (sh S) \<and>
     (\<forall>m. mover S = Some m \<longrightarrow> unat (mv_loc m) = hm S mod 2 ^ ps_log2 (sh S) \<and>
        mv_new m = of_nat (mv_goal m mod 2 ^ ps_log2 (sh S)) \<and> hm S \<le> mv_goal m \<and> mv_goal m \<le> g_ann (sh S))"

definition par_inv :: "par_sys \<Rightarrow> bool" where
  "par_inv S \<longleftrightarrow> 1 \<le> ps_log2 (sh S) \<and> ps_log2 (sh S) \<le> 16 \<and> unat (ps_in_ticket (sh S)) < 2 ^ 31 \<and>
     own_inv S \<and> ring_inv (par_abs S) \<and> ctl_inv S \<and> mov_inv S"

section \<open>Lemmas: words and positions\<close>

lemma ring_pos_mod: "ring_pos s x = unat x mod 2 ^ ps_log2 s"
  by (simp add: ring_pos_def qs_minus_1_def unat_and_mask)

lemma qs_mask_mod: "unat (x AND qs_minus_1 s) = unat x mod 2 ^ ps_log2 s"
  by (simp add: qs_minus_1_def unat_and_mask)

lemma e_pos_mod: "e_pos s c = unat (e_ticket c) mod 2 ^ ps_log2 s"
  by (simp add: e_pos_def ring_pos_mod)

lemma unat_get_id: "unat (get_id (ucast (t :: u32)) k) = 2 * (unat t div 2 ^ k)"
proof -
  have "unat t div 2 ^ k < 2 ^ 32"
    by (rule le_less_trans [OF div_le_dividend]) (use unsigned_less [of t, where 'a = nat] in simp)
  moreover have d: "unat (drop_bit k (ucast t :: u64)) = unat t div 2 ^ k"
    by (simp add: unat_drop_bit_div unat_ucast_up)
  ultimately have "unat (drop_bit k (ucast t :: u64)) * unat (2 :: u64) < 2 ^ LENGTH(64)" by simp
  then show ?thesis using d unat_mult_lem [of "drop_bit k (ucast t :: u64)" 2] by (simp add: get_id_def)
qed

lemma turn_test:
  "ucast (v :: u32) = e_id s c \<longleftrightarrow> unat v = 2 * (unat (e_ticket c) div 2 ^ ps_log2 s)"
  by (simp add: e_id_def unat_eq_iff unat_ucast_up unat_get_id)

lemma locked_neq [simp]: "LOCKED \<noteq> UNLOCKED" "UNLOCKED \<noteq> LOCKED"
  by (simp_all add: LOCKED_def UNLOCKED_def)

section \<open>Lemmas: the abstract ring of a step\<close>

abbreviation upd_call :: "par_sys \<Rightarrow> nat \<Rightarrow> psq \<Rightarrow> enq_call \<Rightarrow> par_sys" where
  "upd_call S i s' c' \<equiv> S\<lparr>sh := s', calls := (calls S)(i := c')\<rparr>"

lemma par_inv_own:
  assumes "par_inv S" and "e_pc (calls S i) \<noteq> EStart"
  shows "unat (e_ticket (calls S i)) < unat (ps_in_ticket (sh S))"
    and "g_owner (sh S) (unat (e_ticket (calls S i))) = i"
    and "t < unat (ps_in_ticket (sh S)) \<Longrightarrow> g_owner (sh S) t = i \<longleftrightarrow> t = unat (e_ticket (calls S i))"
  using assms by (auto simp: par_inv_def own_inv_def)

text \<open>The effect on the ring of a step of call \<open>i\<close> that draws no ticket.\<close>

lemma par_abs_call:
  assumes "par_inv S" and "e_pc (calls S i) \<noteq> EStart"
    and "ps_in_ticket s' = ps_in_ticket (sh S)" and "g_owner s' = g_owner (sh S)"
    and "ps_head s' = ps_head (sh S)" and "ps_log2 s' = ps_log2 (sh S)"
    and "e_cmd c' = e_cmd (calls S i)"
  shows "par_abs (upd_call S i s' c') =
     (par_abs S)\<lparr>r_st := (r_st (par_abs S))(unat (e_ticket (calls S i)) := stage_of (e_pc c')),
       r_lb := g_lb s', r_tk := (\<lambda>p. unat (ps_tickets s' p)), r_mark := (\<lambda>p. ps_tail_mark s' p = LOCKED),
       r_slot := ps_slots s'\<rparr>"
proof -
  note O = par_inv_own [OF assms(1,2)]
  have st: "(\<lambda>t. if t < unat (ps_in_ticket (sh S))
        then stage_of (e_pc (((calls S)(i := c')) (g_owner (sh S) t))) else Waiting) =
      (\<lambda>t. if t < unat (ps_in_ticket (sh S)) then stage_of (e_pc (calls S (g_owner (sh S) t))) else Waiting)
        (unat (e_ticket (calls S i)) := stage_of (e_pc c'))"
    using O by (auto simp: fun_eq_iff)
  have cm: "halves (((calls S)(i := c')) j) = halves (calls S j)" for j
    using assms(7) by (simp add: halves_def)
  show ?thesis
    by (simp add: par_abs_def Let_def assms(3-6) st cm hm_def del: fun_upd_apply cong: if_cong)
qed

lemma own_inv_call:
  assumes "own_inv S" and "e_pc (calls S i) \<noteq> EStart" and "e_pc c' \<noteq> EStart"
    and "e_ticket c' = e_ticket (calls S i)"
    and "ps_in_ticket s' = ps_in_ticket (sh S)" and "g_owner s' = g_owner (sh S)"
  shows "own_inv (upd_call S i s' c')"
  using assms by (auto simp: own_inv_def)


lemma par_abs_sel [simp]:
  "r_q (par_abs S) = 2 ^ ps_log2 (sh S)" "r_n (par_abs S) = unat (ps_in_ticket (sh S))"
  "r_hm (par_abs S) = hm S" "r_lb (par_abs S) = g_lb (sh S)"
  "r_tk (par_abs S) p = unat (ps_tickets (sh S) p)"
  "r_mark (par_abs S) p \<longleftrightarrow> ps_tail_mark (sh S) p = LOCKED"
  "r_slot (par_abs S) = ps_slots (sh S)"
  by (simp_all add: par_abs_def Let_def)

lemma par_abs_own:
  assumes "par_inv S" and "e_pc (calls S i) \<noteq> EStart"
  shows "r_st (par_abs S) (unat (e_ticket (calls S i))) = stage_of (e_pc (calls S i))"
    and "r_cmd (par_abs S) (unat (e_ticket (calls S i))) = halves (calls S i)"
  using par_inv_own(1,2) [OF assms] by (simp_all add: par_abs_def Let_def)

lemma par_invD:
  assumes "par_inv S"
  shows "1 \<le> ps_log2 (sh S)" "ps_log2 (sh S) \<le> 16" "unat (ps_in_ticket (sh S)) < 2 ^ 31"
    "own_inv S" "ring_inv (par_abs S)" "ctl_inv S" "mov_inv S"
  using assms by (simp_all add: par_inv_def)

lemma ctl_inv_frame:
  assumes "ctl_inv S" and "ps_tail_lock s' = ps_tail_lock (sh S)" and "ps_tail s' = ps_tail (sh S)"
    and "g_lb s' = g_lb (sh S)" and "g_ann s' = g_ann (sh S)" and "ps_head s' = ps_head (sh S)"
    and "ps_log2 s' = ps_log2 (sh S)"
    and "holds (e_pc c') = holds (e_pc (calls S i))" and "moving (e_pc c') = moving (e_pc (calls S i))"
    and "call_ctl s' c'"
  shows "ctl_inv (upd_call S i s' c')"
proof -
  have c: "call_ctl s' c = call_ctl (sh S) c" for c using assms by (simp add: call_ctl_def)
  have p: "holds (e_pc (((calls S)(i := c')) j)) = holds (e_pc (calls S j))"
    "moving (e_pc (((calls S)(i := c')) j)) = moving (e_pc (calls S j))" for j using assms(8,9) by auto
  have "call_ctl s' (((calls S)(i := c')) j)" for j
    using assms(1,10) by (simp add: ctl_inv_def c)
  then show ?thesis using assms(1-5) by (auto simp: ctl_inv_def p simp del: fun_upd_apply)
qed

lemma mov_inv_frame:
  assumes "mov_inv S" and "g_lb s' = g_lb (sh S)" and "g_ann s' = g_ann (sh S)"
    and "ps_head s' = ps_head (sh S)" and "ps_log2 s' = ps_log2 (sh S)" and "ps_db s' = ps_db (sh S)"
  shows "mov_inv (upd_call S i s' c')"
  using assms by (simp add: mov_inv_def hm_def)

text \<open>A step of call \<open>i\<close> that changes at most turn counters, marks, slots and \<open>head_lock\<close>.\<close>

lemma par_inv_quiet:
  assumes "par_inv S" and "e_pc (calls S i) \<noteq> EStart" and "e_pc c' \<noteq> EStart"
    and "e_ticket c' = e_ticket (calls S i)" and "e_cmd c' = e_cmd (calls S i)"
    and "s' = (sh S)\<lparr>ps_tickets := tk, ps_tail_mark := mk, ps_slots := sl, ps_head_lock := hl\<rparr>"
    and "holds (e_pc c') = holds (e_pc (calls S i))" and "moving (e_pc c') = moving (e_pc (calls S i))"
    and "call_ctl s' c'"
    and "ring_inv ((par_abs S)\<lparr>r_st := (r_st (par_abs S))(unat (e_ticket (calls S i)) := stage_of (e_pc c')),
            r_tk := (\<lambda>p. unat (tk p)), r_mark := (\<lambda>p. mk p = LOCKED), r_slot := sl\<rparr>)"
  shows "par_inv (upd_call S i s' c')"
proof -
  note D = par_invD [OF assms(1)]
  have "r_lb_update (\<lambda>_. g_lb (sh S)) r = r" if "r_lb r = g_lb (sh S)" for r :: "u32 list ring"
    using that by simp
  then have "par_abs (upd_call S i s' c') =
      (par_abs S)\<lparr>r_st := (r_st (par_abs S))(unat (e_ticket (calls S i)) := stage_of (e_pc c')),
         r_tk := (\<lambda>p. unat (tk p)), r_mark := (\<lambda>p. mk p = LOCKED), r_slot := sl\<rparr>"
    using par_abs_call [OF assms(1,2) _ _ _ _ assms(5), of s'] assms(6) by simp
  then have "ring_inv (par_abs (upd_call S i s' c'))" using assms(10) by simp
  moreover have "own_inv (upd_call S i s' c')"
    using own_inv_call [OF D(4) assms(2,3,4)] assms(6) by simp
  moreover have "ctl_inv (upd_call S i s' c')"
    using ctl_inv_frame [OF D(6) _ _ _ _ _ _ assms(7,8,9)] assms(6) by simp
  moreover have "mov_inv (upd_call S i s' c')"
    using mov_inv_frame [OF D(7)] assms(6) by simp
  ultimately show ?thesis using D(1-3) assms(6) by (simp add: par_inv_def)
qed

lemma ring_same:
  assumes "par_inv S" and "e_pc (calls S i) \<noteq> EStart" and "stage_of p = stage_of (e_pc (calls S i))"
  shows "(par_abs S)\<lparr>r_st := (r_st (par_abs S))(unat (e_ticket (calls S i)) := stage_of p),
            r_tk := (\<lambda>p. unat (ps_tickets (sh S) p)), r_mark := (\<lambda>p. ps_tail_mark (sh S) p = LOCKED),
            r_slot := ps_slots (sh S)\<rparr> = par_abs S"
proof -
  have "(r_st (par_abs S))(unat (e_ticket (calls S i)) := stage_of p) = r_st (par_abs S)"
    using par_abs_own(1) [OF assms(1,2)] assms(3) by (simp add: fun_upd_idem_iff)
  then show ?thesis by (simp add: par_abs_def Let_def)
qed

text \<open>A step that only moves the program counter within its stage.\<close>

lemma par_inv_local:
  assumes "par_inv S" and "e_pc (calls S i) \<noteq> EStart" and "e_pc c' \<noteq> EStart"
    and "e_ticket c' = e_ticket (calls S i)" and "e_cmd c' = e_cmd (calls S i)"
    and "s' = sh S \<or> s' = (sh S)\<lparr>ps_head_lock := hl\<rparr>"
    and "stage_of (e_pc c') = stage_of (e_pc (calls S i))"
    and "holds (e_pc c') = holds (e_pc (calls S i))" and "moving (e_pc c') = moving (e_pc (calls S i))"
    and "call_ctl (sh S) c'"
  shows "par_inv (upd_call S i s' c')"
proof -
  have s': "s' = (sh S)\<lparr>ps_tickets := ps_tickets (sh S), ps_tail_mark := ps_tail_mark (sh S),
      ps_slots := ps_slots (sh S), ps_head_lock := ps_head_lock s'\<rparr>"
    using assms(6) by auto
  have "call_ctl s' c'" using assms(6,10) by (auto simp: call_ctl_def)
  then show ?thesis
    using par_inv_quiet [OF assms(1-5) s' assms(8,9)] ring_same [OF assms(1,2,7)] par_invD(5) [OF assms(1)]
    by simp
qed

lemmas pc_defs = holds_def moving_def

lemma call_ctl_idle: "\<not> moving (e_pc c) \<Longrightarrow> call_ctl s c"
  by (auto simp: call_ctl_def moving_def)


section \<open>Lemmas: preservation by the steps of a call\<close>

lemma leave_step:
  assumes "par_inv S" and "ring_inv (ring_stage (unat (e_ticket (calls S i))) Leaving (par_abs S))"
    and "e_pc (calls S i) = ECheck \<or> e_pc (calls S i) = ERecheck"
    and "s' = sh S" and "c' = (calls S i)\<lparr>e_pc := EFinal\<rparr>"
  shows "par_inv (upd_call S i s' c')"
proof -
  have ns: "e_pc (calls S i) \<noteq> EStart" using assms(3) by auto
  show ?thesis
    by (rule par_inv_quiet [OF assms(1) ns, where tk = "ps_tickets (sh S)" and mk = "ps_tail_mark (sh S)"
          and sl = "ps_slots (sh S)" and hl = "ps_head_lock (sh S)"])
      (use assms(2-5) in \<open>auto simp: pc_defs call_ctl_def ring_stage_def par_abs_def Let_def\<close>)
qed

lemma enq_wait_inv:
  assumes "par_inv S" and "e_pc (calls S i) \<in> {EWait1, EWait2}"
  shows "par_inv (upd_call S i (fst (enq_wait (sh S, calls S i))) (snd (enq_wait (sh S, calls S i))))"
proof -
  let ?c = "calls S i" and ?s = "sh S"
  have ns: "e_pc ?c \<noteq> EStart" using assms(2) by auto
  note T = par_inv_own(1) [OF assms(1) ns] and A = par_abs_own [OF assms(1) ns]
  show ?thesis
  proof (cases "ucast (ps_tickets ?s (e_pos ?s ?c)) = e_id ?s ?c \<and> e_pc ?c = EWait2")
    case True
    then have w: "enq_wait (?s, ?c) = (?s, ?c\<lparr>e_pc := ECopy0\<rparr>)" by (simp add: enq_wait_def)
    let ?t = "unat (e_ticket ?c)"
    have "ring_inv (ring_stage ?t Copy0 (par_abs S))"
      using par_invD(5) [OF assms(1)] T A assms(2) True
      by (intro ring_pass_inv) (auto simp: turn_test e_pos_mod)
    then have r: "ring_inv ((par_abs S)\<lparr>r_st := (r_st (par_abs S))(?t := Copy0),
        r_tk := (\<lambda>p. unat (ps_tickets ?s p)), r_mark := (\<lambda>p. ps_tail_mark ?s p = LOCKED), r_slot := ps_slots ?s\<rparr>)"
      by (simp add: ring_stage_def par_abs_def Let_def)
    show ?thesis unfolding w fst_conv snd_conv
      by (rule par_inv_quiet [OF assms(1) ns, where tk = "ps_tickets ?s" and mk = "ps_tail_mark ?s"
            and sl = "ps_slots ?s" and hl = "ps_head_lock ?s"])
        (use assms(2) r in \<open>auto simp: pc_defs call_ctl_def\<close>)
  next
    case False
    then show ?thesis using assms(2)
      by (intro par_inv_local [OF assms(1) ns]) (auto simp: enq_wait_def pc_defs call_ctl_def)
  qed
qed

lemma enq_copy_inv:
  assumes "par_inv S" and "e_pc (calls S i) \<in> {ECopy0, ECopy1}"
  shows "par_inv (upd_call S i (fst (enq_copy (sh S, calls S i))) (snd (enq_copy (sh S, calls S i))))"
proof -
  let ?c = "calls S i" and ?s = "sh S"
  let ?t = "unat (e_ticket ?c)" and ?p = "unat (e_ticket ?c) mod 2 ^ ps_log2 ?s"
  have ns: "e_pc ?c \<noteq> EStart" using assms(2) by auto
  note T = par_inv_own(1) [OF assms(1) ns] and A = par_abs_own [OF assms(1) ns]
  define v where "v = (if e_pc ?c = ECopy0 then (fst (halves ?c), snd (ps_slots ?s ?p))
                       else (fst (ps_slots ?s ?p), snd (halves ?c)))"
  define x where "x = (if e_pc ?c = ECopy0 then Copy1 else Copied)"
  have e: "fst (enq_copy (?s, ?c)) = ?s\<lparr>ps_slots := (ps_slots ?s)(?p := v)\<rparr>"
      "e_pc (snd (enq_copy (?s, ?c))) \<in> {ECopy1, EPc1, EMark}"
      "stage_of (e_pc (snd (enq_copy (?s, ?c)))) = x"
      "e_cmd (snd (enq_copy (?s, ?c))) = e_cmd ?c" "e_ticket (snd (enq_copy (?s, ?c))) = e_ticket ?c"
    using assms(2) by (auto simp: enq_copy_def Let_def e_pos_mod v_def x_def halves_def)
  have "ring_inv (ring_copy ?t v x (par_abs S))"
    using par_invD(5) [OF assms(1)] T A assms(2) by (intro ring_copy_inv) (auto simp: v_def x_def)
  then have r: "ring_inv ((par_abs S)\<lparr>r_st := (r_st (par_abs S))(?t := x),
        r_tk := (\<lambda>p. unat (ps_tickets ?s p)), r_mark := (\<lambda>p. ps_tail_mark ?s p = LOCKED),
        r_slot := (ps_slots ?s)(?p := v)\<rparr>)"
    by (simp add: ring_copy_def par_abs_def Let_def)
  show ?thesis unfolding e(1)
    by (rule par_inv_quiet [OF assms(1) ns, where tk = "ps_tickets ?s" and mk = "ps_tail_mark ?s"
          and sl = "(ps_slots ?s)(?p := v)" and hl = "ps_head_lock ?s"])
      (use assms(2) r e(2-) in \<open>auto simp: pc_defs call_ctl_def\<close>)
qed

lemma enq_mark_inv:
  assumes "par_inv S" and "e_pc (calls S i) \<in> {EPc1, EMark, ECheck}"
  shows "par_inv (upd_call S i (fst (enq_mark (sh S, calls S i))) (snd (enq_mark (sh S, calls S i))))"
proof -
  let ?c = "calls S i" and ?s = "sh S"
  let ?t = "unat (e_ticket ?c)" and ?p = "unat (e_ticket ?c) mod 2 ^ ps_log2 ?s"
  have ns: "e_pc ?c \<noteq> EStart" using assms(2) by auto
  note T = par_inv_own(1) [OF assms(1) ns] and A = par_abs_own [OF assms(1) ns]
  consider (pc) "e_pc ?c = EPc1" | (mark) "e_pc ?c = EMark"
    | (stay) "e_pc ?c = ECheck" "ps_tail_mark ?s ?p = LOCKED"
    | (leave) "e_pc ?c = ECheck" "ps_tail_mark ?s ?p \<noteq> LOCKED"
    using assms(2) by auto
  then show ?thesis
  proof cases
    case mark
    have "ring_inv (ring_mark ?t (par_abs S))"
      using par_invD(5) [OF assms(1)] T A mark by (intro ring_mark_inv) auto
    moreover have "(\<lambda>p. (p = ?p \<longrightarrow> True) \<and> (p \<noteq> ?p \<longrightarrow> ps_tail_mark ?s p = LOCKED)) =
        (\<lambda>p. ps_tail_mark ?s p = LOCKED)(?p := True)" by (auto simp: fun_eq_iff)
    ultimately have r: "ring_inv ((par_abs S)\<lparr>r_st := (r_st (par_abs S))(?t := Marked),
        r_tk := (\<lambda>p. unat (ps_tickets ?s p)),
        r_mark := (\<lambda>p. ((ps_tail_mark ?s)(?p := LOCKED)) p = LOCKED), r_slot := ps_slots ?s\<rparr>)"
      by (simp add: ring_mark_def par_abs_def Let_def fun_upd_def cong: if_cong)
    have e: "enq_mark (?s, ?c) = (?s\<lparr>ps_tail_mark := (ps_tail_mark ?s)(?p := LOCKED)\<rparr>, ?c\<lparr>e_pc := ECheck\<rparr>)"
      using mark by (simp add: enq_mark_def e_pos_mod)
    show ?thesis unfolding e fst_conv snd_conv
      by (rule par_inv_quiet [OF assms(1) ns, where tk = "ps_tickets ?s"
            and mk = "(ps_tail_mark ?s)(?p := LOCKED)" and sl = "ps_slots ?s" and hl = "ps_head_lock ?s"])
        (use mark r in \<open>auto simp: pc_defs call_ctl_def\<close>)
  next
    case leave
    have "ring_inv (ring_stage ?t Leaving (par_abs S))"
      using par_invD(5) [OF assms(1)] T A leave by (intro ring_leave_inv) auto
    then show ?thesis using leave ns assms(1) by (intro leave_step) (auto simp: enq_mark_def e_pos_mod)
  qed (intro par_inv_local [OF assms(1) ns]; auto simp: enq_mark_def pc_defs call_ctl_def e_pos_mod)+
qed


lemma moving_holds: "moving p \<Longrightarrow> holds p"
  by (auto simp: pc_defs)

lemma others_idle:
  assumes "ctl_inv S" and "holds (e_pc (calls S i)) \<or> ps_tail_lock (sh S) \<noteq> LOCKED" and "j \<noteq> i"
  shows "\<not> holds (e_pc (calls S j))"
  using assms by (auto simp: ctl_inv_def)

text \<open>Call \<open>i\<close> holds the tail lock after the step, having held it before or found it free.\<close>

lemma ctl_inv_holder:
  assumes "ctl_inv S" and "holds (e_pc (calls S i)) \<or> ps_tail_lock (sh S) \<noteq> LOCKED"
    and "holds (e_pc c')" and "ps_tail_lock s' = LOCKED" and "call_ctl s' c'"
    and "\<not> moving (e_pc c') \<Longrightarrow> unat (ps_tail s') = g_lb s' \<and> g_ann s' = g_lb s'"
  shows "ctl_inv (upd_call S i s' c')"
proof -
  note O = others_idle [OF assms(1,2)]
  have "call_ctl s' (((calls S)(i := c')) j)" for j
    using O [of j] assms(5) by (auto intro: call_ctl_idle dest: moving_holds)
  then show ?thesis using O assms(3,4,6) by (auto simp: ctl_inv_def simp del: fun_upd_apply) (auto split: if_splits)
qed

lemma ctl_inv_release:
  assumes "ctl_inv S" and "holds (e_pc (calls S i))" and "\<not> holds (e_pc c')" and "ps_tail_lock s' = UNLOCKED"
    and "unat (ps_tail s') = g_lb s' \<and> g_ann s' = g_lb s'"
  shows "ctl_inv (upd_call S i s' c')"
proof -
  have O: "\<not> holds (e_pc (((calls S)(i := c')) j))" for j
    using others_idle [OF assms(1), of i j] assms(2,3) by auto
  then have "call_ctl s' (((calls S)(i := c')) j)" for j
    using moving_holds by (blast intro: call_ctl_idle)
  then show ?thesis using O assms(4,5) by (simp add: ctl_inv_def del: fun_upd_apply)
qed

text \<open>A step inside the critical section that leaves the ring as it is.\<close>

lemma par_inv_hold:
  assumes "par_inv S" and "e_pc (calls S i) \<noteq> EStart" and "e_pc c' \<noteq> EStart"
    and "stage_of (e_pc c') = stage_of (e_pc (calls S i))"
    and "e_ticket c' = e_ticket (calls S i)" and "e_cmd c' = e_cmd (calls S i)"
    and "s' = (sh S)\<lparr>ps_tail_lock := l, ps_tail := tv, ps_db := d, g_ann := a, ps_head_lock := hl\<rparr>"
    and "ctl_inv (upd_call S i s' c')" and "mov_inv (upd_call S i s' c')"
  shows "par_inv (upd_call S i s' c')"
proof -
  note D = par_invD [OF assms(1)]
  have "(r_st (par_abs S))(unat (e_ticket (calls S i)) := stage_of (e_pc c')) = r_st (par_abs S)"
    using par_abs_own(1) [OF assms(1,2)] assms(4) by (simp add: fun_upd_idem_iff)
  then have "par_abs (upd_call S i s' c') = par_abs S"
    using par_abs_call [OF assms(1,2) _ _ _ _ assms(6), of s'] assms(7)
    by (simp add: par_abs_def Let_def)
  moreover have "own_inv (upd_call S i s' c')"
    using own_inv_call [OF D(4) assms(2,3,5)] assms(7) by simp
  ultimately show ?thesis using D(1-3,5) assms(7-9) by (simp add: par_inv_def)
qed

lemma ctl_call: "ctl_inv S \<Longrightarrow> call_ctl (sh S) (calls S i)"
  by (simp add: ctl_inv_def)

lemma enq_lock_inv:
  assumes "par_inv S" and "e_pc (calls S i) \<in> {ELockLoad, ELockOr, ETailLoad}"
  shows "par_inv (upd_call S i (fst (enq_lock (sh S, calls S i))) (snd (enq_lock (sh S, calls S i))))"
proof -
  let ?c = "calls S i" and ?s = "sh S"
  have ns: "e_pc ?c \<noteq> EStart" using assms(2) by auto
  note D = par_invD [OF assms(1)]
  consider (load) "e_pc ?c = ELockLoad" | (taken) "e_pc ?c = ELockOr" "ps_tail_lock ?s = LOCKED"
    | (free) "e_pc ?c = ELockOr" "ps_tail_lock ?s \<noteq> LOCKED" | (tail) "e_pc ?c = ETailLoad"
    using assms(2) by auto
  then show ?thesis
  proof cases
    case load
    then show ?thesis
      by (intro par_inv_local [OF assms(1) ns]) (auto simp: enq_lock_def pc_defs call_ctl_def)
  next
    case taken
    have e: "enq_lock (?s, ?c) = (?s, ?c\<lparr>e_pc := ERecheck\<rparr>)"
      using taken by (simp add: enq_lock_def)
    show ?thesis unfolding e fst_conv snd_conv using taken
      by (intro par_inv_local [OF assms(1) ns]) (auto simp: pc_defs call_ctl_def)
  next
    case free
    have u: "ps_tail_lock ?s OR LOCKED = LOCKED"
      using D(6) free by (auto simp: ctl_inv_def LOCKED_def UNLOCKED_def)
    have "\<not> moving (e_pc (calls S j))" for j
      using D(6) free(2) moving_holds by (auto simp: ctl_inv_def)
    then have t: "unat (ps_tail ?s) = g_lb ?s \<and> g_ann ?s = g_lb ?s" using D(6) by (simp add: ctl_inv_def)
    have e: "enq_lock (?s, ?c) = (?s\<lparr>ps_tail_lock := LOCKED\<rparr>, ?c\<lparr>e_pc := ETailLoad\<rparr>)"
      using free by (simp add: enq_lock_def u)
    have "ctl_inv (upd_call S i (?s\<lparr>ps_tail_lock := LOCKED\<rparr>) (?c\<lparr>e_pc := ETailLoad\<rparr>))"
      using t free by (intro ctl_inv_holder [OF D(6)]) (simp_all add: pc_defs call_ctl_def)
    moreover have "mov_inv (upd_call S i (?s\<lparr>ps_tail_lock := LOCKED\<rparr>) (?c\<lparr>e_pc := ETailLoad\<rparr>))"
      by (intro mov_inv_frame [OF D(7)]) simp_all
    ultimately show ?thesis unfolding e fst_conv snd_conv using free
      by (intro par_inv_hold [OF assms(1) ns, where l = LOCKED and tv = "ps_tail ?s" and d = "ps_db ?s"
            and a = "g_ann ?s" and hl = "ps_head_lock ?s"]) simp_all
  next
    case tail
    have hold: "holds (e_pc ?c)" using tail by (simp add: pc_defs)
    have "\<not> moving (e_pc (calls S j))" for j
      using others_idle [OF D(6), of i j] hold tail moving_holds by (cases "j = i") (auto simp: pc_defs)
    then have t: "unat (ps_tail ?s) = g_lb ?s \<and> g_ann ?s = g_lb ?s" using D(6) by (simp add: ctl_inv_def)
    let ?c' = "?c\<lparr>e_cur_tail := ps_tail ?s, e_count := 0, e_pc := EMove1\<rparr>"
    have e: "enq_lock (?s, ?c) = (?s, ?c')" using tail by (simp add: enq_lock_def)
    have "ps_tail_lock ?s = LOCKED" using D(6) hold by (auto simp: ctl_inv_def)
    then have "ctl_inv (upd_call S i ?s ?c')"
      using t hold by (intro ctl_inv_holder [OF D(6)]) (simp_all add: pc_defs call_ctl_def)
    moreover have "mov_inv (upd_call S i ?s ?c')" by (intro mov_inv_frame [OF D(7)]) simp_all
    ultimately show ?thesis unfolding e fst_conv snd_conv using tail
      by (intro par_inv_hold [OF assms(1) ns, where l = "ps_tail_lock ?s" and tv = "ps_tail ?s" and d = "ps_db ?s"
            and a = "g_ann ?s" and hl = "ps_head_lock ?s"]) simp_all
  qed
qed


text \<open>What a call in the moving part of the critical section knows.\<close>

lemma moving_facts:
  assumes "par_inv S" and "moving (e_pc (calls S i))"
  shows "e_cur_tail (calls S i) = ps_tail (sh S)"
    and "unat (e_cur_tail (calls S i) + e_count (calls S i)) = g_lb (sh S)"
    and "unat (e_cur_tail (calls S i) + e_count (calls S i) + 1) = g_lb (sh S) + 1"
    and "g_lb (sh S) < 2 ^ 31"
    and "unat (ps_tail (sh S)) + unat (e_count (calls S i)) = g_lb (sh S)"
    and "ps_tail_lock (sh S) = LOCKED"
proof -
  note D = par_invD [OF assms(1)]
  have c: "e_cur_tail (calls S i) = ps_tail (sh S)"
    "unat (ps_tail (sh S)) + unat (e_count (calls S i)) = g_lb (sh S)"
    using ctl_call [OF D(6), of i] assms(2) by (simp_all add: call_ctl_def)
  then show "e_cur_tail (calls S i) = ps_tail (sh S)"
    "unat (ps_tail (sh S)) + unat (e_count (calls S i)) = g_lb (sh S)" by auto
  show b: "g_lb (sh S) < 2 ^ 31" using inv_orderD [OF D(5)] D(3) by simp
  show u: "unat (e_cur_tail (calls S i) + e_count (calls S i)) = g_lb (sh S)"
    using c b by (subst unat_add_bounded) simp_all
  show "unat (e_cur_tail (calls S i) + e_count (calls S i) + 1) = g_lb (sh S) + 1"
    using u b by (subst unat_inc) simp_all
  show "ps_tail_lock (sh S) = LOCKED" using D(6) moving_holds [OF assms(2)] by (auto simp: ctl_inv_def)
qed

lemma move_test_inv:
  assumes "par_inv S" and "e_pc (calls S i) = EMove1"
  shows "par_inv (upd_call S i (fst (move_tail (sh S, calls S i))) (snd (move_tail (sh S, calls S i))))"
proof -
  let ?c = "calls S i" and ?s = "sh S"
  have ns: "e_pc ?c \<noteq> EStart" and mv: "moving (e_pc ?c)" using assms(2) by (auto simp: pc_defs)
  note D = par_invD [OF assms(1)] and F = moving_facts [OF assms(1) mv]
  note C = ctl_call [OF D(6), of i]
  let ?go = "(e_cur_tail ?c + e_count ?c + 1) AND qs_minus_1 ?s \<noteq> ps_head ?s AND qs_minus_1 ?s"
  have e: "move_tail (?s, ?c) = (?s, ?c\<lparr>e_pc := (if ?go then EMove2 else EMoveEnd)\<rparr>)"
    using assms(2) by (simp add: move_tail_def)
  have "g_lb ?s + 1 < unat (ps_head ?s) + 2 ^ ps_log2 ?s" if ?go
  proof -
    have ne: "(g_lb ?s + 1) mod 2 ^ ps_log2 ?s \<noteq> unat (ps_head ?s) mod 2 ^ ps_log2 ?s"
      using that F(3) unfolding unat_eq_iff qs_mask_mod by simp
    have h: "unat (ps_head ?s) \<le> g_lb ?s" "g_lb ?s < unat (ps_head ?s) + 2 ^ ps_log2 ?s"
      using D(7) by (simp_all add: mov_inv_def hm_def)
    have "g_lb ?s + 1 - unat (ps_head ?s) < 2 ^ ps_log2 ?s"
      using h by (intro ring_succ_neq [OF h(1) _ ne]) simp_all
    then show ?thesis using h(1) by linarith
  qed
  then have "call_ctl ?s (?c\<lparr>e_pc := (if ?go then EMove2 else EMoveEnd)\<rparr>)"
    using C assms(2) by (auto simp: call_ctl_def pc_defs)
  then show ?thesis unfolding e fst_conv snd_conv using assms(2)
    by (intro par_inv_local [OF assms(1) ns]) (auto simp: pc_defs)
qed

lemma move_claim_inv:
  assumes "par_inv S" and "e_pc (calls S i) = EMove2"
  shows "par_inv (upd_call S i (fst (move_tail (sh S, calls S i))) (snd (move_tail (sh S, calls S i))))"
proof -
  let ?c = "calls S i" and ?s = "sh S"
  have ns: "e_pc ?c \<noteq> EStart" and mv: "moving (e_pc ?c)" using assms(2) by (auto simp: pc_defs)
  note D = par_invD [OF assms(1)] and F = moving_facts [OF assms(1) mv]
  note C = ctl_call [OF D(6), of i]
  let ?p = "g_lb ?s mod 2 ^ ps_log2 ?s"
  let ?mk = "(ps_tail_mark ?s)(?p := UNLOCKED)"
  have pos: "ring_pos ?s (e_cur_tail ?c + e_count ?c) = ?p" by (simp add: ring_pos_mod F(2))
  have mk: "(\<lambda>p. ?mk p = LOCKED) = (\<lambda>p. ps_tail_mark ?s p = LOCKED)(?p := False)"
    by (auto simp: fun_eq_iff)
  have st: "(r_st (par_abs S))(unat (e_ticket ?c) := Marked) = r_st (par_abs S)"
    using par_abs_own(1) [OF assms(1) ns] assms(2) by (simp add: fun_upd_idem_iff)
  show ?thesis
  proof (cases "ps_tail_mark ?s ?p = LOCKED")
    case True
    let ?s' = "?s\<lparr>ps_tail_mark := ?mk, g_lb := g_lb ?s + 1\<rparr>"
    let ?c' = "?c\<lparr>e_count := e_count ?c + 1, e_pc := EMove1\<rparr>"
    have e: "move_tail (?s, ?c) = (?s', ?c')"
      using True assms(2) by (simp add: move_tail_def pos Let_def)
    have "par_abs (upd_call S i ?s' ?c') = ring_claim (par_abs S)"
      using par_abs_call [OF assms(1) ns, of ?s' ?c'] st
      by (simp add: ring_claim_def par_abs_def Let_def mk del: fun_upd_apply)
    then have R: "ring_inv (par_abs (upd_call S i ?s' ?c'))"
      using ring_claim_inv [OF D(5)] True by simp
    have cnt: "unat (e_count ?c + 1) = unat (e_count ?c) + 1" using F(4,5) by (subst unat_inc) simp_all
    have call: "call_ctl ?s' ?c'" using C assms(2) cnt by (simp add: call_ctl_def pc_defs)
    have "ctl_inv (upd_call S i ?s' ?c')"
      using F(6) call mv moving_holds by (intro ctl_inv_holder [OF D(6)]) (auto simp: pc_defs)
    moreover have "mov_inv (upd_call S i ?s' ?c')"
      using D(7) C assms(2) by (auto simp: mov_inv_def hm_def call_ctl_def)
    moreover have "own_inv (upd_call S i ?s' ?c')" by (rule own_inv_call [OF D(4) ns]) simp_all
    ultimately show ?thesis unfolding e fst_conv snd_conv using D(1-3) R by (simp add: par_inv_def)
  next
    case False
    have e: "move_tail (?s, ?c) = (?s\<lparr>ps_tail_mark := ?mk\<rparr>, ?c\<lparr>e_pc := EMoveEnd\<rparr>)"
      using False assms(2) by (simp add: move_tail_def pos Let_def)
    have "(\<lambda>p. ?mk p = LOCKED) = (\<lambda>p. ps_tail_mark ?s p = LOCKED)"
      unfolding mk using False by (simp add: fun_upd_idem_iff)
    then have "(par_abs S)\<lparr>r_st := (r_st (par_abs S))(unat (e_ticket ?c) := Marked),
        r_tk := (\<lambda>p. unat (ps_tickets ?s p)), r_mark := (\<lambda>p. ?mk p = LOCKED), r_slot := ps_slots ?s\<rparr> = par_abs S"
      unfolding st by (simp add: par_abs_def Let_def)
    then have r: "ring_inv ((par_abs S)\<lparr>r_st := (r_st (par_abs S))(unat (e_ticket ?c) := Marked),
        r_tk := (\<lambda>p. unat (ps_tickets ?s p)), r_mark := (\<lambda>p. ?mk p = LOCKED), r_slot := ps_slots ?s\<rparr>)"
      using D(5) by (simp only:)
    show ?thesis unfolding e fst_conv snd_conv
      by (rule par_inv_quiet [OF assms(1) ns, where tk = "ps_tickets ?s" and mk = ?mk
            and sl = "ps_slots ?s" and hl = "ps_head_lock ?s"])
        (use assms(2) r C in \<open>simp_all add: pc_defs call_ctl_def\<close>)
  qed
qed

lemma move_end_inv:
  assumes "par_inv S" and "e_pc (calls S i) = EMoveEnd"
  shows "par_inv (upd_call S i (fst (move_tail (sh S, calls S i))) (snd (move_tail (sh S, calls S i))))"
proof -
  let ?c = "calls S i" and ?s = "sh S"
  have ns: "e_pc ?c \<noteq> EStart" and mv: "moving (e_pc ?c)" using assms(2) by (auto simp: pc_defs)
  note D = par_invD [OF assms(1)] and F = moving_facts [OF assms(1) mv]
  note C = ctl_call [OF D(6), of i]
  let ?s' = "?s\<lparr>ps_head_lock := ps_head_lock ?s + 1\<rparr>"
  show ?thesis
  proof (cases "e_count ?c = 0")
    case True
    let ?c' = "?c\<lparr>e_pc := EUnlock\<rparr>"
    have e: "move_tail (?s, ?c) = (?s', ?c')" using True assms(2) by (simp add: move_tail_def)
    have "ctl_inv (upd_call S i ?s' ?c')"
      using F(6) True C F(5) assms(2) by (intro ctl_inv_holder [OF D(6)]) (auto simp: pc_defs call_ctl_def)
    moreover have "mov_inv (upd_call S i ?s' ?c')" by (intro mov_inv_frame [OF D(7)]) simp_all
    ultimately show ?thesis unfolding e fst_conv snd_conv using assms(2)
      by (intro par_inv_hold [OF assms(1) ns, where l = "ps_tail_lock ?s" and tv = "ps_tail ?s" and d = "ps_db ?s"
            and a = "g_ann ?s" and hl = "ps_head_lock ?s + 1"]) simp_all
  next
    case False
    have e: "move_tail (?s, ?c) = (?s', ?c\<lparr>e_pc := (if e_use_pc ?c then EPc2 else EDoorbell)\<rparr>)"
      using False assms(2) by (simp add: move_tail_def)
    show ?thesis unfolding e fst_conv snd_conv using assms(2) C
      by (intro par_inv_local [OF assms(1) ns, where hl = "ps_head_lock ?s + 1"])
        (auto simp: pc_defs call_ctl_def)
  qed
qed


lemma enq_publish_inv:
  assumes "par_inv S" and "e_pc (calls S i) \<in> {EPc2, EDoorbell, ETailStore, EUnlock}"
  shows "par_inv (upd_call S i (fst (enq_publish (sh S, calls S i))) (snd (enq_publish (sh S, calls S i))))"
proof -
  let ?c = "calls S i" and ?s = "sh S"
  let ?nt = "e_cur_tail ?c + e_count ?c"
  have ns: "e_pc ?c \<noteq> EStart" and h: "holds (e_pc ?c)" using assms(2) by (auto simp: pc_defs)
  note D = par_invD [OF assms(1)] and C = ctl_call [OF par_invD(6) [OF assms(1)], of i]
  have lk: "ps_tail_lock ?s = LOCKED" using D(6) h by (auto simp: ctl_inv_def)
  consider (pc) "e_pc ?c = EPc2" | (db) "e_pc ?c = EDoorbell" | (st) "e_pc ?c = ETailStore" | (un) "e_pc ?c = EUnlock"
    using assms(2) by auto
  then show ?thesis
  proof cases
    case pc
    then show ?thesis using C
      by (intro par_inv_local [OF assms(1) ns]) (auto simp: enq_publish_def pc_defs call_ctl_def)
  next
    case db
    let ?s' = "?s\<lparr>ps_db := ?nt AND qs_minus_1 ?s, g_ann := unat ?nt\<rparr>" and ?c' = "?c\<lparr>e_pc := ETailStore\<rparr>"
    have F: "unat ?nt = g_lb ?s" using moving_facts(2) [OF assms(1)] db by (simp add: pc_defs)
    have e: "enq_publish (?s, ?c) = (?s', ?c')" using db by (simp add: enq_publish_def Let_def)
    have "ctl_inv (upd_call S i ?s' ?c')"
      using lk h C db F by (intro ctl_inv_holder [OF D(6)]) (auto simp: pc_defs call_ctl_def)
    moreover have "mov_inv (upd_call S i ?s' ?c')"
      using D(7) F by (auto simp: mov_inv_def hm_def qs_mask_mod dest: order_trans)
    ultimately show ?thesis unfolding e fst_conv snd_conv using db
      by (intro par_inv_hold [OF assms(1) ns, where l = "ps_tail_lock ?s" and tv = "ps_tail ?s"
            and d = "?nt AND qs_minus_1 ?s" and a = "unat ?nt" and hl = "ps_head_lock ?s"]) simp_all
  next
    case st
    let ?s' = "?s\<lparr>ps_tail := ?nt\<rparr>" and ?c' = "?c\<lparr>e_pc := EUnlock\<rparr>"
    have F: "unat ?nt = g_lb ?s" using moving_facts(2) [OF assms(1)] st by (simp add: pc_defs)
    have e: "enq_publish (?s, ?c) = (?s', ?c')" using st by (simp add: enq_publish_def Let_def)
    have "ctl_inv (upd_call S i ?s' ?c')"
      using lk h C st F by (intro ctl_inv_holder [OF D(6)]) (auto simp: pc_defs call_ctl_def)
    moreover have "mov_inv (upd_call S i ?s' ?c')" by (intro mov_inv_frame [OF D(7)]) simp_all
    ultimately show ?thesis unfolding e fst_conv snd_conv using st
      by (intro par_inv_hold [OF assms(1) ns, where l = "ps_tail_lock ?s" and tv = ?nt
            and d = "ps_db ?s" and a = "g_ann ?s" and hl = "ps_head_lock ?s"]) simp_all
  next
    case un
    let ?s' = "?s\<lparr>ps_tail_lock := UNLOCKED\<rparr>" and ?c' = "?c\<lparr>e_pc := ERecheck\<rparr>"
    have "\<not> moving (e_pc (calls S j))" for j
      using others_idle [OF D(6), of i j] h un moving_holds by (cases "j = i") (auto simp: pc_defs)
    then have t: "unat (ps_tail ?s) = g_lb ?s \<and> g_ann ?s = g_lb ?s" using D(6) by (simp add: ctl_inv_def)
    have e: "enq_publish (?s, ?c) = (?s', ?c')" using un by (simp add: enq_publish_def Let_def)
    have "ctl_inv (upd_call S i ?s' ?c')"
      using h t by (intro ctl_inv_release [OF D(6)]) (simp_all add: pc_defs)
    moreover have "mov_inv (upd_call S i ?s' ?c')" by (intro mov_inv_frame [OF D(7)]) simp_all
    ultimately show ?thesis unfolding e fst_conv snd_conv using un
      by (intro par_inv_hold [OF assms(1) ns, where l = UNLOCKED and tv = "ps_tail ?s"
            and d = "ps_db ?s" and a = "g_ann ?s" and hl = "ps_head_lock ?s"]) simp_all
  qed
qed

lemma turn_inc:
  assumes "par_inv S" and "p < 2 ^ ps_log2 (sh S)"
  shows "unat (ps_tickets (sh S) p + 1) = unat (ps_tickets (sh S) p) + 1"
proof -
  note D = par_invD [OF assms(1)]
  have "unat (ps_tickets (sh S) p) \<le> unat (ps_in_ticket (sh S)) + hm S"
    using turn_bound [OF D(5), of p] assms(2) by simp
  moreover have "hm S \<le> unat (ps_in_ticket (sh S))" using inv_orderD [OF D(5)] by simp
  ultimately show ?thesis using D(3) by (intro unat_inc) simp
qed

lemma tickets_inc:
  assumes "par_inv S" and "p < 2 ^ ps_log2 (sh S)"
  shows "(\<lambda>x. unat (((ps_tickets (sh S))(p := ps_tickets (sh S) p + 1)) x)) =
           (r_tk (par_abs S))(p := r_tk (par_abs S) p + 1)"
  using turn_inc [OF assms] by (auto simp: fun_eq_iff)

lemma enq_final_inv:
  assumes "par_inv S" and "e_pc (calls S i) \<in> {ERecheck, EFinal}"
  shows "par_inv (upd_call S i (fst (enq_final (sh S, calls S i))) (snd (enq_final (sh S, calls S i))))"
proof -
  let ?c = "calls S i" and ?s = "sh S"
  let ?t = "unat (e_ticket ?c)" and ?p = "unat (e_ticket ?c) mod 2 ^ ps_log2 ?s"
  have ns: "e_pc ?c \<noteq> EStart" using assms(2) by auto
  note T = par_inv_own(1) [OF assms(1) ns] and A = par_abs_own [OF assms(1) ns]
  consider (stay) "e_pc ?c = ERecheck" "ps_tail_mark ?s ?p = LOCKED"
    | (leave) "e_pc ?c = ERecheck" "ps_tail_mark ?s ?p \<noteq> LOCKED" | (fin) "e_pc ?c = EFinal"
    using assms(2) by auto
  then show ?thesis
  proof cases
    case stay
    then show ?thesis
      by (intro par_inv_local [OF assms(1) ns]) (auto simp: enq_final_def pc_defs call_ctl_def e_pos_mod)
  next
    case leave
    have "ring_inv (ring_stage ?t Leaving (par_abs S))"
      using par_invD(5) [OF assms(1)] T A leave by (intro ring_leave_inv) auto
    then show ?thesis using leave ns assms(1) by (intro leave_step) (auto simp: enq_final_def e_pos_mod)
  next
    case fin
    let ?tk = "(ps_tickets ?s)(?p := ps_tickets ?s ?p + 1)"
    have e: "enq_final (?s, ?c) = (?s\<lparr>ps_tickets := ?tk\<rparr>, ?c\<lparr>e_pc := EDone\<rparr>)"
      using fin by (simp add: enq_final_def e_pos_mod)
    have tki: "(\<lambda>p. unat (?tk p)) = (r_tk (par_abs S))(?p := r_tk (par_abs S) ?p + 1)"
      by (rule tickets_inc [OF assms(1)]) simp
    have "ring_inv (ring_finish ?t (par_abs S))"
      using par_invD(5) [OF assms(1)] T A fin by (intro ring_finish_inv) auto
    moreover have "ring_finish ?t (par_abs S) = (par_abs S)\<lparr>r_st := (r_st (par_abs S))(?t := Finished),
        r_tk := (\<lambda>p. unat (?tk p)), r_mark := (\<lambda>p. ps_tail_mark ?s p = LOCKED), r_slot := ps_slots ?s\<rparr>"
      unfolding tki by (simp add: ring_finish_def par_abs_def Let_def)
    ultimately have r: "ring_inv ((par_abs S)\<lparr>r_st := (r_st (par_abs S))(?t := Finished),
        r_tk := (\<lambda>p. unat (?tk p)), r_mark := (\<lambda>p. ps_tail_mark ?s p = LOCKED), r_slot := ps_slots ?s\<rparr>)"
      by (simp only:)
    show ?thesis unfolding e fst_conv snd_conv
      by (rule par_inv_quiet [OF assms(1) ns, where tk = ?tk and mk = "ps_tail_mark ?s"
            and sl = "ps_slots ?s" and hl = "ps_head_lock ?s"])
        (use fin r in \<open>simp_all add: pc_defs call_ctl_def del: fun_upd_apply\<close>)
  qed
qed

lemma enq_take_ticket_inv:
  assumes "par_inv S" and "e_pc (calls S i) = EStart" and "unat (ps_in_ticket (sh S)) < 2 ^ 31 - 1"
  shows "par_inv (upd_call S i (fst (enq_take_ticket i (sh S, calls S i))) (snd (enq_take_ticket i (sh S, calls S i))))"
proof -
  let ?c = "calls S i" and ?s = "sh S"
  let ?n = "unat (ps_in_ticket ?s)"
  note D = par_invD [OF assms(1)]
  let ?s' = "?s\<lparr>ps_in_ticket := ps_in_ticket ?s + 1, g_owner := (g_owner ?s)(?n := i)\<rparr>"
  let ?c' = "?c\<lparr>e_ticket := ps_in_ticket ?s, e_pc := EWait1\<rparr>"
  have e: "enq_take_ticket i (?s, ?c) = (?s', ?c')" by (simp add: enq_take_ticket_def)
  have n: "unat (ps_in_ticket ?s + 1) = ?n + 1" using assms(3) by (subst unat_inc) simp_all
  have oi: "g_owner ?s t \<noteq> i" if "t < ?n" for t
    using D(4) that assms(2) by (auto simp: own_inv_def)
  have own: "own_inv (upd_call S i ?s' ?c')"
    using D(4) oi n by (auto simp: own_inv_def less_Suc_eq)
  have "par_abs (upd_call S i ?s' ?c') = ring_draw (halves ?c) (par_abs S)"
    using oi by (auto simp: par_abs_def ring_draw_def Let_def n hm_def halves_def fun_eq_iff less_Suc_eq)
  then have "ring_inv (par_abs (upd_call S i ?s' ?c'))" using ring_draw_inv [OF D(5)] by simp
  moreover have "ctl_inv (upd_call S i ?s' ?c')"
    using assms(2) by (intro ctl_inv_frame [OF D(6)]) (simp_all add: pc_defs call_ctl_def)
  moreover have "mov_inv (upd_call S i ?s' ?c')" by (intro mov_inv_frame [OF D(7)]) simp_all
  ultimately show ?thesis unfolding e fst_conv snd_conv using D(1,2) own n assms(3) by (simp add: par_inv_def)
qed

lemma par_inv_call:
  assumes "par_inv S" and "e_pc (calls S i) = EStart \<Longrightarrow> unat (ps_in_ticket (sh S)) < 2 ^ 31 - 1"
    and "enq_step i (sh S, calls S i) = (s', c')"
  shows "par_inv (upd_call S i s' c')"
proof -
  have s': "s' = fst (enq_step i (sh S, calls S i))" and c': "c' = snd (enq_step i (sh S, calls S i))"
    using assms(3) by simp_all
  show ?thesis unfolding s' c'
  proof (cases "e_pc (calls S i)")
    case EDone
    then show "par_inv (upd_call S i (fst (enq_step i (sh S, calls S i))) (snd (enq_step i (sh S, calls S i))))"
      using assms(1) by (intro par_inv_local [OF assms(1)]) (auto simp: call_ctl_def pc_defs)
  qed (use assms(1,2) enq_take_ticket_inv [of S i] enq_wait_inv [of S i] enq_copy_inv [of S i] enq_mark_inv [of S i]
        enq_lock_inv [of S i] move_test_inv [of S i] move_claim_inv [of S i] move_end_inv [of S i]
        enq_publish_inv [of S i] enq_final_inv [of S i] in \<open>simp_all\<close>)
qed


section \<open>Lemmas: preservation by the release of slots\<close>

lemma release_start_inv:
  assumes "par_inv S" and "mover S = None" and "unat (ps_head (sh S)) \<le> n" and "n \<le> g_ann (sh S)"
  shows "par_inv (S\<lparr>mover := release_start (of_nat (n mod 2 ^ ps_log2 (sh S))) n (sh S)\<rparr>)"
proof -
  note D = par_invD [OF assms(1)]
  let ?m = "release_start (of_nat (n mod 2 ^ ps_log2 (sh S))) n (sh S)"
  let ?S = "S\<lparr>mover := ?m\<rparr>"
  have h: "hm ?S = hm S" using assms(2) by (simp add: hm_def release_start_def Let_def)
  then have "par_abs ?S = par_abs S" by (simp add: par_abs_def Let_def cong: if_cong)
  moreover have "own_inv ?S = own_inv S" "ctl_inv ?S = ctl_inv S" by (simp_all add: own_inv_def ctl_inv_def)
  moreover have "mov_inv ?S"
    using D(7) assms h unfolding mov_inv_def
    by (auto simp: release_start_def Let_def qs_mask_mod hm_def split: if_splits)
  ultimately show ?thesis using D by (simp add: par_inv_def)
qed

lemma goal_reached:
  assumes "par_inv S" and "mover S = Some m"
  shows "mv_loc m = ucast (mv_new m) \<longleftrightarrow> hm S = mv_goal m"
proof -
  note D = par_invD [OF assms(1)]
  let ?q = "2 ^ ps_log2 (sh S) :: nat"
  have q: "?q \<le> 65536" using power_increasing [OF D(2), of "2 :: nat"] by simp
  have M: "unat (mv_loc m) = hm S mod ?q" "mv_new m = of_nat (mv_goal m mod ?q)" "hm S \<le> mv_goal m"
    "mv_goal m \<le> g_ann (sh S)" "g_ann (sh S) \<le> g_lb (sh S)" "g_lb (sh S) < unat (ps_head (sh S)) + ?q"
    using D(7) assms(2) by (auto simp: mov_inv_def)
  have "mv_goal m mod ?q < ?q" by simp
  then have "mv_goal m mod ?q < 65536" using q by linarith
  then have "unat (mv_new m) = mv_goal m mod ?q" unfolding M(2) unat_of_nat by simp
  then have "mv_loc m = ucast (mv_new m) \<longleftrightarrow> hm S mod ?q = mv_goal m mod ?q"
    by (simp add: unat_eq_iff unat_ucast_up M(1))
  moreover have "mv_goal m < hm S + ?q" using M(4,5,6) by (simp add: hm_def)
  ultimately show ?thesis using mod_eq_window [of "hm S" ?q "mv_goal m"] M(3) by auto
qed

lemma ctl_inv_sh:
  assumes "ctl_inv S" and "ps_tail_lock s' = ps_tail_lock (sh S)" and "ps_tail s' = ps_tail (sh S)"
    and "g_lb s' = g_lb (sh S)" and "g_ann s' = g_ann (sh S)" and "unat (ps_head (sh S)) \<le> unat (ps_head s')"
    and "ps_log2 s' = ps_log2 (sh S)"
  shows "ctl_inv (S\<lparr>sh := s', mover := m'\<rparr>)"
proof -
  have "call_ctl s' c" if "call_ctl (sh S) c" for c
    using that assms(2-7) by (auto simp: call_ctl_def)
  then show ?thesis using assms(1-5) by (auto simp: ctl_inv_def)
qed

lemma release_step_inv:
  assumes "par_inv S" and "mover S = Some m" and "release_step (sh S, m) = (s', m')"
  shows "par_inv (S\<lparr>sh := s', mover := m'\<rparr>)"
proof -
  note D = par_invD [OF assms(1)] and G = goal_reached [OF assms(1,2)]
  let ?s = "sh S" and ?S = "S\<lparr>sh := s', mover := m'\<rparr>" and ?q = "2 ^ ps_log2 (sh S) :: nat"
  have M: "unat (mv_loc m) = hm S mod ?q" "mv_new m = of_nat (mv_goal m mod ?q)" "hm S \<le> mv_goal m"
    "mv_goal m \<le> g_ann ?s" "g_ann ?s \<le> g_lb ?s" "g_lb ?s < unat (ps_head ?s) + ?q"
    "hm S = unat (ps_head ?s) + unat (mv_count m)"
    using D(7) assms(2) by (auto simp: mov_inv_def hm_def)
  have lim: "g_lb ?s < 2 ^ 31" using inv_orderD [OF D(5)] D(3) by simp
  show ?thesis
  proof (cases "mv_loc m = ucast (mv_new m)")
    case True
    then have s': "s' = ?s\<lparr>ps_head := ps_head ?s + mv_count m\<rparr>" "m' = None"
      using assms(3) by (simp_all add: release_step_def)
    have hd: "unat (ps_head ?s + mv_count m) = hm S"
      using M(3-5,7) lim by (subst unat_add_bounded) simp_all
    then have h: "hm ?S = hm S" by (simp add: hm_def s')
    then have "par_abs ?S = par_abs S" by (simp add: par_abs_def Let_def s' cong: if_cong)
    moreover have "own_inv ?S" using D(4) by (simp add: own_inv_def s')
    moreover have "ctl_inv ?S" using M(7) hd by (intro ctl_inv_sh [OF D(6)]) (simp_all add: s')
    moreover have "mov_inv ?S" using D(7) M(7) hd h unfolding mov_inv_def by (simp add: s')
    ultimately show ?thesis using D by (simp add: par_inv_def s')
  next
    case False
    let ?p = "hm S mod ?q"
    let ?tk = "(ps_tickets ?s)(?p := ps_tickets ?s ?p + 1)"
    have s': "s' = ?s\<lparr>ps_tickets := ?tk\<rparr>"
        "m' = Some (m\<lparr>mv_count := mv_count m + 1, mv_loc := (mv_loc m + 1) AND qs_minus_1 ?s\<rparr>)"
      using assms(3) False by (auto simp: release_step_def M(1))
    have lt: "hm S < mv_goal m" using False G M(3) by auto
    have cnt: "unat (mv_count m + 1) = unat (mv_count m) + 1"
      using lt M(4,5,7) lim by (intro unat_inc) simp
    have h: "hm ?S = hm S + 1" by (simp add: hm_def s' cnt assms(2))
    have tki: "(\<lambda>p. unat (?tk p)) = (r_tk (par_abs S))(?p := r_tk (par_abs S) ?p + 1)"
      by (rule tickets_inc [OF assms(1)]) simp
    have "par_abs ?S = ring_bump (par_abs S)"
      using h tki by (simp add: par_abs_def ring_bump_def Let_def s' del: fun_upd_apply cong: if_cong)
    then have "ring_inv (par_abs ?S)" using ring_bump_inv [OF D(5)] lt M(4,5) by simp
    moreover have "own_inv ?S" using D(4) by (simp add: own_inv_def s')
    moreover have "ctl_inv ?S" by (intro ctl_inv_sh [OF D(6)]) (simp_all add: s')
    moreover have "mov_inv ?S"
    proof -
      have q: "?q \<le> 65536" using power_increasing [OF D(2), of "2 :: nat"] by simp
      have "hm S mod ?q < ?q" by simp
      then have "hm S mod ?q < 65536" using q by linarith
      then have "unat (mv_loc m + 1) = hm S mod ?q + 1" using M(1) by (subst unat_inc) simp_all
      then have "unat ((mv_loc m + 1) AND qs_minus_1 ?s) = (hm S + 1) mod ?q"
        unfolding qs_mask_mod by (simp add: mod_Suc_eq)
      then show ?thesis using D(7) h lt M(2,4) assms(2) unfolding mov_inv_def by (simp add: s')
    qed
    ultimately show ?thesis using D by (simp add: par_inv_def s')
  qed
qed

lemma par_inv_init: "par_init S \<Longrightarrow> par_inv S"
  by (auto simp: par_init_def par_inv_def own_inv_def ctl_inv_def mov_inv_def call_ctl_def par_abs_def Let_def
      inv_defs hm_def pc_defs finished_at_def freed_at_def unclaimed_at_def)

lemma par_inv_reachable: "par_step\<^sup>*\<^sup>* S S' \<Longrightarrow> par_inv S \<Longrightarrow> par_inv S'"
proof (induction rule: rtranclp_induct)
  case (step y z)
  from step.hyps(2) step.IH [OF step.prems] show ?case
    by (cases rule: par_step.cases) (auto intro: par_inv_call release_start_inv release_step_inv)
qed


section \<open>A call that runs alone\<close>

definition solo :: "nat \<Rightarrow> nat \<Rightarrow> psq \<times> enq_call \<Rightarrow> psq \<times> enq_call" where
  "solo k tid = (enq_step tid ^^ k)"

text \<open>A queue at rest with room for one more command.\<close>

definition quiet_room :: "psq \<Rightarrow> bool" where
  "quiet_room s \<longleftrightarrow>
     ps_tail_lock s = UNLOCKED \<and> ps_tail s = ps_in_ticket s \<and>
     unat (ps_tickets s (ring_pos s (ps_in_ticket s))) = 2 * (unat (ps_in_ticket s) div 2 ^ ps_log2 s) \<and>
     (ps_in_ticket s + 1) AND qs_minus_1 s \<noteq> ps_head s AND qs_minus_1 s \<and>
     (\<forall>p. ps_tail_mark s p = UNLOCKED) \<and>
     ring_pos s (ps_in_ticket s + 1) \<noteq> ring_pos s (ps_in_ticket s)"

lemma solo_add: "solo (a + b) tid x = solo b tid (solo a tid x)"
  by (simp add: solo_def add.commute [of a b] funpow_add)

lemma solo_0 [simp]: "solo 0 tid x = x"
  by (simp add: solo_def)

lemma solo_Suc: "solo (Suc k) tid x = solo k tid (enq_step tid x)"
  by (simp add: solo_def funpow_swap1)

lemmas enq_step_defs = enq_take_ticket_def enq_wait_def enq_copy_def enq_mark_def enq_lock_def
  move_tail_def enq_publish_def enq_final_def

lemma solo_done: "e_pc c = EDone \<Longrightarrow> solo k tid (s, c) = (s, c)"
  by (induction k) (simp_all add: solo_Suc)

lemma solo_copy_mark:
  assumes "quiet_room s" and "e_pc c = EStart" and "\<not> e_use_pc c"
  shows "solo 7 tid (s, c) =
     (s\<lparr>ps_in_ticket := ps_in_ticket s + 1, g_owner := (g_owner s)(unat (ps_in_ticket s) := tid),
        ps_slots := (ps_slots s)(ring_pos s (ps_in_ticket s) := halves c),
        ps_tail_mark := (ps_tail_mark s)(ring_pos s (ps_in_ticket s) := LOCKED)\<rparr>,
      c\<lparr>e_ticket := ps_in_ticket s, e_pc := ELockLoad\<rparr>)"
  using assms unfolding quiet_room_def
  by (simp add: numeral_eq_Suc solo_Suc enq_step_defs e_pos_mod ring_pos_mod turn_test halves_def Let_def)

text \<open>From the mark to the end: one command is claimed, announced and finished.\<close>

lemma solo_submit:
  assumes "e_pc c = ELockLoad" and "\<not> e_use_pc c" and "ps_tail_lock s = UNLOCKED" and "e_ticket c = ps_tail s"
    and "ps_tail_mark s (ring_pos s (ps_tail s)) = LOCKED"
    and "ps_tail_mark s (ring_pos s (ps_tail s + 1)) = UNLOCKED"
    and "(ps_tail s + 1) AND qs_minus_1 s \<noteq> ps_head s AND qs_minus_1 s"
    and "ring_pos s (ps_tail s + 1) \<noteq> ring_pos s (ps_tail s)"
  shows "\<exists>hl c'. solo 13 tid (s, c) =
     (s\<lparr>ps_tail := ps_tail s + 1, ps_db := (ps_tail s + 1) AND qs_minus_1 s, g_ann := unat (ps_tail s + 1),
        g_lb := g_lb s + 1, ps_head_lock := hl, ps_tail_mark := (ps_tail_mark s)(ring_pos s (ps_tail s) := UNLOCKED),
        ps_tickets := (ps_tickets s)(ring_pos s (ps_tail s) := ps_tickets s (ring_pos s (ps_tail s)) + 1)\<rparr>, c') \<and>
     e_pc c' = EDone \<and> e_ticket c' = e_ticket c"
proof -
  let ?p = "ring_pos s (ps_tail s)"
  let ?c1 = "c\<lparr>e_cur_tail := ps_tail s, e_count := 1, e_pc := EMove1\<rparr>"
  let ?s1 = "s\<lparr>ps_tail_lock := LOCKED, ps_tail_mark := (ps_tail_mark s)(?p := UNLOCKED), g_lb := g_lb s + 1\<rparr>"
  have one: "solo 5 tid (s, c) = (?s1, ?c1)"
    using assms by (simp add: numeral_eq_Suc solo_Suc enq_step_defs ring_pos_def qs_minus_1_def Let_def
        LOCKED_def UNLOCKED_def)
  let ?s2 = "s\<lparr>ps_tail := ps_tail s + 1, ps_db := (ps_tail s + 1) AND qs_minus_1 s, g_ann := unat (ps_tail s + 1),
        g_lb := g_lb s + 1, ps_head_lock := ps_head_lock s + 1, ps_tail_mark := (ps_tail_mark s)(?p := UNLOCKED),
        ps_tickets := (ps_tickets s)(?p := ps_tickets s ?p + 1)\<rparr>"
  let ?c2 = "?c1\<lparr>e_pc := EDone\<rparr>"
  have fin: "solo 6 tid (?s1, ?c1\<lparr>e_pc := EMoveEnd\<rparr>) = (?s2, ?c2)"
    using assms(2,3,4) by (simp add: numeral_eq_Suc solo_Suc enq_step_defs e_pos_def ring_pos_def qs_minus_1_def Let_def
        LOCKED_def UNLOCKED_def)
  have "solo 13 tid (s, c) = (?s2, ?c2)"
  proof (cases "(ps_tail s + 1 + 1) AND qs_minus_1 s \<noteq> ps_head s AND qs_minus_1 s")
    case True
    have "ring_pos s (ps_tail s + 1) \<noteq> ?p" "ps_tail_mark s (ring_pos s (ps_tail s + 1)) = UNLOCKED" using assms(6,8) by auto
    moreover have "(ps_tail_mark s)(?p := UNLOCKED, ring_pos s (ps_tail s + 1) := UNLOCKED) = (ps_tail_mark s)(?p := UNLOCKED)"
      using assms(6) by (auto simp: fun_eq_iff)
    ultimately have two: "solo 2 tid (?s1, ?c1) = (?s1, ?c1\<lparr>e_pc := EMoveEnd\<rparr>)"
      using True by (simp add: numeral_eq_Suc solo_Suc enq_step_defs ring_pos_def qs_minus_1_def Let_def)
    have "solo 13 tid (s, c) = solo 6 tid (solo 2 tid (solo 5 tid (s, c)))"
      by (simp flip: solo_add)
    then show ?thesis unfolding one two fin .
  next
    case False
    then have two: "solo 1 tid (?s1, ?c1) = (?s1, ?c1\<lparr>e_pc := EMoveEnd\<rparr>)"
      by (simp add: solo_Suc enq_step_defs qs_minus_1_def)
    have "solo 13 tid (s, c) = solo 1 tid (solo 6 tid (solo 1 tid (solo 5 tid (s, c))))"
      by (simp flip: solo_add)
    then show ?thesis unfolding one two fin by (simp add: solo_done)
  qed
  then show ?thesis by auto
qed

lemma solo_result:
  assumes "quiet_room s" and "e_pc c = EStart" and "\<not> e_use_pc c"
  shows "case solo 20 tid (s, c) of (s', c') \<Rightarrow>
           e_pc c' = EDone \<and> e_ticket c' = ps_in_ticket s \<and>
           ps_slots s' (ring_pos s (ps_in_ticket s)) = halves c \<and>
           ps_db s' = (ps_in_ticket s + 1) AND qs_minus_1 s \<and> ps_tail s' = ps_tail s + 1 \<and>
           ps_tail_lock s' = UNLOCKED \<and> ps_in_ticket s' = ps_tail s' \<and>
           g_ann s' = unat (ps_in_ticket s + 1) \<and> ps_head s' = ps_head s \<and> ps_log2 s' = ps_log2 s"
proof -
  note Q = assms(1) [unfolded quiet_room_def]
  define s7 where "s7 = fst (solo 7 tid (s, c))"
  define c7 where "c7 = snd (solo 7 tid (s, c))"
  note seven = solo_copy_mark [OF assms, of tid]
  have s7: "solo 7 tid (s, c) = (s7, c7)" by (simp add: s7_def c7_def)
  have f: "e_pc c7 = ELockLoad" "\<not> e_use_pc c7" "ps_tail_lock s7 = UNLOCKED" "e_ticket c7 = ps_tail s7"
    "ps_tail s7 = ps_in_ticket s" "ps_log2 s7 = ps_log2 s" "ps_head s7 = ps_head s"
    "ps_tail_mark s7 = (ps_tail_mark s)(ring_pos s (ps_in_ticket s) := LOCKED)"
    "ps_slots s7 = (ps_slots s)(ring_pos s (ps_in_ticket s) := halves c)" "ps_in_ticket s7 = ps_in_ticket s + 1"
    using Q assms(3) by (simp_all add: s7_def c7_def seven)
  have rp: "ring_pos s7 = ring_pos s" "qs_minus_1 s7 = qs_minus_1 s"
    by (simp_all add: ring_pos_def qs_minus_1_def f(6) fun_eq_iff)
  obtain hl c' where r: "solo 13 tid (s7, c7) = (s7\<lparr>ps_tail := ps_tail s7 + 1,
      ps_db := (ps_tail s7 + 1) AND qs_minus_1 s7, g_ann := unat (ps_tail s7 + 1), g_lb := g_lb s7 + 1,
      ps_head_lock := hl, ps_tail_mark := (ps_tail_mark s7)(ring_pos s7 (ps_tail s7) := UNLOCKED),
      ps_tickets := (ps_tickets s7)(ring_pos s7 (ps_tail s7) := ps_tickets s7 (ring_pos s7 (ps_tail s7)) + 1)\<rparr>, c')"
    "e_pc c' = EDone" "e_ticket c' = e_ticket c7"
    using solo_submit [of c7 s7 tid] f Q unfolding rp by auto
  have "solo 20 tid (s, c) = solo 13 tid (solo 7 tid (s, c))" by (simp flip: solo_add)
  then show ?thesis unfolding s7 r using r(2,3) f Q by (simp add: rp)
qed

section \<open>Properties\<close>

text \<open>C1: Every command announced to the device is intact and in order.  From a freshly created
  queue, under every interleaving of the atomic steps of any number of \<open>sq_enqueue\<close> calls with
  the release of slots by the completion side: the doorbell holds the number of announced
  commands modulo the queue size; fewer than \<open>qs\<close> announced commands are unreleased, so the
  device can tell how many are new; and for every announced command \<open>t\<close> whose slot is not yet
  being released, slot \<open>t mod qs\<close> holds both halves of the command of the call that drew ticket \<open>t\<close>.\<close>

theorem sq_enqueue_announced_intact:
  assumes "par_init S0" and "par_step\<^sup>*\<^sup>* S0 S"
  shows "unat (ps_db (sh S)) = g_ann (sh S) mod 2 ^ ps_log2 (sh S) \<and>
         g_ann (sh S) - unat (ps_head (sh S)) < 2 ^ ps_log2 (sh S) \<and>
         (\<forall>t. hm S \<le> t \<and> t < g_ann (sh S) \<longrightarrow>
            unat (e_ticket (calls S (g_owner (sh S) t))) = t \<and>
            ps_slots (sh S) (t mod 2 ^ ps_log2 (sh S)) = halves (calls S (g_owner (sh S) t)))"
proof -
  have I: "par_inv S" using par_inv_reachable [OF assms(2) par_inv_init [OF assms(1)]] .
  note D = par_invD [OF I]
  have b: "g_ann (sh S) \<le> g_lb (sh S)" "g_lb (sh S) < unat (ps_head (sh S)) + 2 ^ ps_log2 (sh S)"
    "unat (ps_db (sh S)) = g_ann (sh S) mod 2 ^ ps_log2 (sh S)"
    using D(7) by (simp_all add: mov_inv_def)
  have "unat (e_ticket (calls S (g_owner (sh S) t))) = t \<and>
        ps_slots (sh S) (t mod 2 ^ ps_log2 (sh S)) = halves (calls S (g_owner (sh S) t))"
    if "hm S \<le> t" "t < g_ann (sh S)" for t
  proof -
    have n: "t < unat (ps_in_ticket (sh S))" "t < g_lb (sh S)" using that(2) b(1) inv_orderD [OF D(5)] by auto
    then have "r_cmd (par_abs S) t = halves (calls S (g_owner (sh S) t))" by (simp add: par_abs_def Let_def)
    then show ?thesis using claimed_slot [OF D(5), of t] that(1) n D(4) by (simp add: own_inv_def)
  qed
  moreover have "g_ann (sh S) - unat (ps_head (sh S)) < 2 ^ ps_log2 (sh S)"
    using b(1,2) zero_less_power [of "2 :: nat" "ps_log2 (sh S)"] by linarith
  ultimately show ?thesis using b(3) by blast
qed

text \<open>C2: Slots are exclusive and the doorbell section is mutually exclusive: in every reachable
  state at most one call is between taking and releasing \<open>tail_lock\<close>, and two calls that are past
  their wait for the same position, with that position not yet released, are the same call, so
  no command is overwritten before the device is done with it.\<close>

theorem sq_enqueue_exclusive:
  assumes "par_init S0" and "par_step\<^sup>*\<^sup>* S0 S"
  shows "(\<forall>i j. holds (e_pc (calls S i)) \<and> holds (e_pc (calls S j)) \<longrightarrow> i = j) \<and>
         (\<forall>i j. e_pc (calls S i) \<notin> {EStart, EWait1, EWait2} \<and> e_pc (calls S j) \<notin> {EStart, EWait1, EWait2} \<and>
            hm S \<le> unat (e_ticket (calls S i)) \<and> hm S \<le> unat (e_ticket (calls S j)) \<and>
            e_pos (sh S) (calls S i) = e_pos (sh S) (calls S j) \<longrightarrow> i = j)"
proof -
  have I: "par_inv S" using par_inv_reachable [OF assms(2) par_inv_init [OF assms(1)]] .
  note D = par_invD [OF I]
  have "i = j" if a: "e_pc (calls S i) \<notin> {EStart, EWait1, EWait2}" "e_pc (calls S j) \<notin> {EStart, EWait1, EWait2}"
    and b: "hm S \<le> unat (e_ticket (calls S i))" "hm S \<le> unat (e_ticket (calls S j))"
    and c: "e_pos (sh S) (calls S i) = e_pos (sh S) (calls S j)" for i j
  proof -
    have p: "passed (stage_of p)" if "p \<notin> {EStart, EWait1, EWait2}" for p
      using that by (cases p) (auto simp: passed_def)
    have ns: "e_pc (calls S i) \<noteq> EStart" "e_pc (calls S j) \<noteq> EStart" using a by auto
    note Oi = par_inv_own [OF I ns(1)] and Oj = par_inv_own [OF I ns(2)]
    have "unat (e_ticket (calls S j)) = unat (e_ticket (calls S i))"
      using only_active [OF D(5), of "unat (e_ticket (calls S i))" "unat (e_ticket (calls S j))"]
        Oi(1) Oj(1) b c p [OF a(1)] p [OF a(2)] par_abs_own(1) [OF I ns(1)] par_abs_own(1) [OF I ns(2)]
      by (simp add: e_pos_mod)
    then show ?thesis using Oi(2) Oj(2) by simp
  qed
  then show ?thesis using D(6) by (auto simp: ctl_inv_def)
qed

text \<open>C28: \<open>sq_enqueue\<close> terminates when it runs alone on a queue with room: after 20 atomic steps
  the call has returned, its command is in slot \<open>ticket mod qs\<close>, the doorbell was rung with the
  next position, the tail is one further and the tail lock is free.\<close>

theorem sq_enqueue_solo:
  assumes "quiet_room s" and "e_pc c = EStart" and "\<not> e_use_pc c"
  shows "case solo 20 tid (s, c) of (s', c') \<Rightarrow>
           e_pc c' = EDone \<and> e_ticket c' = ps_in_ticket s \<and>
           ps_slots s' (ring_pos s (ps_in_ticket s)) = halves c \<and>
           ps_db s' = (ps_in_ticket s + 1) AND qs_minus_1 s \<and> ps_tail s' = ps_tail s + 1 \<and>
           ps_tail_lock s' = UNLOCKED \<and> ps_in_ticket s' = ps_tail s'"
  using solo_result [OF assms, of tid] by (simp add: case_prod_beta)

definition witness_psq :: psq where
  "witness_psq = \<lparr>ps_log2 = 2, ps_head = 0, ps_tail = 0, ps_in_ticket = 0, ps_tail_lock = UNLOCKED,
     ps_head_lock = 0, ps_tickets = (\<lambda>_. 0), ps_tail_mark = (\<lambda>_. UNLOCKED), ps_slots = (\<lambda>_. ([], [])),
     ps_db = 0, ps_pc_tail = 0, g_owner = (\<lambda>_. 0), g_lb = 0, g_ann = 0\<rparr>"

definition witness_call :: enq_call where
  "witness_call = \<lparr>e_pc = EStart, e_cmd = \<lparr>dword = replicate 16 7\<rparr>, e_use_pc = False, e_cur_pc_tail = 0,
     e_ticket = 0, e_cur_tail = 0, e_count = 0\<rparr>"

definition witness_par :: par_sys where
  "witness_par = \<lparr>sh = witness_psq, calls = (\<lambda>_. witness_call), mover = None\<rparr>"

lemma witness_init: "par_init witness_par"
  by (simp add: par_init_def witness_par_def witness_psq_def witness_call_def Let_def)

lemma quiet_room_witness: "quiet_room witness_psq"
proof -
  have "mask 2 = (3 :: u32)" by (simp add: mask_numeral)
  then show ?thesis by (simp add: quiet_room_def witness_psq_def ring_pos_def qs_minus_1_def)
qed

text \<open>Steps of call 0 alone, as steps of the system.\<close>

lemma enq_step_started: "e_pc (snd (enq_step tid (s, c))) \<noteq> EStart"
  by (cases "e_pc c") (simp_all add: enq_step_defs Let_def)

lemma solo_par_steps:
  "(e_pc (calls S 0) = EStart \<Longrightarrow> unat (ps_in_ticket (sh S)) < 2 ^ 31 - 1) \<Longrightarrow>
   par_step\<^sup>*\<^sup>* S (upd_call S 0 (fst (solo k 0 (sh S, calls S 0))) (snd (solo k 0 (sh S, calls S 0))))"
proof (induction k arbitrary: S)
  case (Suc k)
  obtain s' c' where e: "enq_step 0 (sh S, calls S 0) = (s', c')" by force
  let ?S = "upd_call S 0 s' c'"
  have "par_step S ?S" using Suc.prems e by (rule par_step.call)
  moreover have "e_pc c' \<noteq> EStart" using enq_step_started [of 0 "sh S" "calls S 0"] e by simp
  then have "par_step\<^sup>*\<^sup>* ?S (upd_call ?S 0 (fst (solo k 0 (sh ?S, calls ?S 0))) (snd (solo k 0 (sh ?S, calls ?S 0))))"
    by (intro Suc.IH) simp
  moreover have "upd_call ?S 0 a b = upd_call S 0 a b" for a b by simp
  moreover have "(sh ?S, calls ?S 0) = (s', c')" by simp
  ultimately have "par_step\<^sup>*\<^sup>* S (upd_call S 0 (fst (solo k 0 (s', c'))) (snd (solo k 0 (s', c'))))"
    by (metis converse_rtranclp_into_rtranclp)
  then show ?case unfolding solo_Suc e .
qed simp

lemma witness_steps:
  "par_step\<^sup>*\<^sup>* witness_par (upd_call witness_par 0 (fst (solo k 0 (witness_psq, witness_call)))
     (snd (solo k 0 (witness_psq, witness_call))))"
  using solo_par_steps [of witness_par k] by (simp add: witness_par_def witness_psq_def)

lemma mask_witness: "qs_minus_1 witness_psq = 3"
  by (simp add: qs_minus_1_def witness_psq_def mask_numeral)

theorem sq_enqueue_announced_intact_witness:
  "\<exists>S. par_step\<^sup>*\<^sup>* witness_par S \<and> g_ann (sh S) = 1 \<and> unat (ps_db (sh S)) = g_ann (sh S) mod 4 \<and>
       ps_slots (sh S) 0 = halves (calls S (g_owner (sh S) 0))"
proof -
  let ?r = "solo 20 0 (witness_psq, witness_call)"
  let ?S = "upd_call witness_par 0 (fst ?r) (snd ?r)"
  have f: "g_ann (fst ?r) = 1" "ps_head (fst ?r) = 0" "ps_log2 (fst ?r) = 2"
    using solo_result [OF quiet_room_witness, of witness_call 0]
    by (simp_all add: witness_call_def case_prod_beta) (simp_all add: witness_psq_def)
  have "hm ?S = 0" using f by (simp add: hm_def witness_par_def)
  then show ?thesis
    using sq_enqueue_announced_intact [OF witness_init witness_steps [of 20]] witness_steps [of 20] f
    by (intro exI [of _ ?S]) simp
qed

theorem sq_enqueue_exclusive_witness:
  "\<exists>S. par_step\<^sup>*\<^sup>* witness_par S \<and> e_pc (calls S 0) = ETailLoad \<and> (\<forall>j. holds (e_pc (calls S j)) \<longrightarrow> j = 0)"
proof -
  let ?r = "solo 9 0 (witness_psq, witness_call)"
  let ?S = "upd_call witness_par 0 (fst ?r) (snd ?r)"
  have c: "e_pc witness_call = EStart" "\<not> e_use_pc witness_call" by (simp_all add: witness_call_def)
  have "?r = solo 2 0 (solo 7 0 (witness_psq, witness_call))" by (simp flip: solo_add)
  then have p: "e_pc (snd ?r) = ETailLoad"
    unfolding solo_copy_mark [OF quiet_room_witness c, of 0]
    by (simp add: eval_nat_numeral solo_Suc enq_step_defs) (simp add: witness_psq_def)
  have pc: "e_pc (calls ?S 0) = ETailLoad" using p by simp
  then have h: "holds (e_pc (calls ?S 0))" unfolding pc by (simp add: holds_def)
  have "\<forall>j. holds (e_pc (calls ?S j)) \<longrightarrow> j = 0"
    using conjunct1 [OF sq_enqueue_exclusive [OF witness_init witness_steps [of 9]]] h by blast
  then show ?thesis using witness_steps [of 9] pc by blast
qed

theorem sq_enqueue_solo_witness:
  "e_pc (snd (solo 20 5 (witness_psq, witness_call))) = EDone \<and>
   ps_db (fst (solo 20 5 (witness_psq, witness_call))) = 1"
  using sq_enqueue_solo [OF quiet_room_witness, of witness_call 5]
  by (simp add: witness_call_def case_prod_beta mask_witness) (simp add: witness_psq_def)

end
