(* ===== verification/Par_Cq.thy ===== *)
theory Par_Cq
  imports Par_Sq
begin

text \<open>
  The completion side of the parallel queue (\<open>include/nvm_parallel_queue.h\<close>): allocation of
  command identifiers (\<open>get_cid\<close>, \<open>put_cid\<close>), the scan for a completion (\<open>cq_poll\<close>,
  \<open>cq_poll_async\<close>, \<open>cq_try_poll\<close>, \<open>cq_try_peek_head\<close>), the sequential effect of
  \<open>move_head_cq\<close>, and \<open>cq_dequeue\<close> as interleaved atomic steps.  The scan is shown equal to a
  search in the list of outstanding completions; identifiers are never shared; and the head
  doorbell never passes a completion whose consumer has not marked it.
\<close>

section \<open>Command identifiers\<close>

record cid_pool =
  cp_ticket :: u32
  cp_cid :: "nat \<Rightarrow> u32"

definition cid_of_ticket :: "u32 \<Rightarrow> nat" where
  "cid_of_ticket t = unat (t AND 65535)"

text \<open>The loop of \<open>get_cid\<close> when no other thread interferes; it runs forever if no identifier is free.\<close>

partial_function (option) get_cid :: "cid_pool \<Rightarrow> (cid_pool \<times> nat) option" where
  "get_cid p =
     (let cid = cid_of_ticket (cp_ticket p);
          old = cp_cid p cid;
          p1 = p\<lparr>cp_ticket := cp_ticket p + 1, cp_cid := (cp_cid p)(cid := old OR LOCKED)\<rparr>
      in if old = LOCKED then get_cid p1 else Some (p1, cid))"

definition put_cid :: "nat \<Rightarrow> cid_pool \<Rightarrow> cid_pool" where
  "put_cid cid p = p\<lparr>cp_cid := (cp_cid p)(cid := UNLOCKED)\<rparr>"

text \<open>The same loop as atomic steps of many threads.\<close>

datatype cid_pc = CDraw | COr nat | CHold nat

definition cid_step :: "cid_pool \<times> cid_pc \<Rightarrow> cid_pool \<times> cid_pc" where
  "cid_step = (\<lambda>(p, c). case c of
       CDraw \<Rightarrow> (p\<lparr>cp_ticket := cp_ticket p + 1\<rparr>, COr (cid_of_ticket (cp_ticket p)))
     | COr cid \<Rightarrow> (p\<lparr>cp_cid := (cp_cid p)(cid := cp_cid p cid OR LOCKED)\<rparr>,
                  if cp_cid p cid = LOCKED then CDraw else CHold cid)
     | CHold cid \<Rightarrow> (put_cid cid p, CDraw))"

inductive cid_run :: "cid_pool \<times> (nat \<Rightarrow> cid_pc) \<Rightarrow> cid_pool \<times> (nat \<Rightarrow> cid_pc) \<Rightarrow> bool" where
  "cid_step (p, c i) = (p', c') \<Longrightarrow> cid_run (p, c) (p', c(i := c'))"

section \<open>Scanning for a completion\<close>

record pcq =
  pq_log2 :: nat
  pq_head :: u32
  pq_tail :: u32
  pq_dw2 :: "nat \<Rightarrow> u32"
  pq_dw3 :: "nat \<Rightarrow> u32"
  pq_head_lock :: u32
  pq_head_mark :: "nat \<Rightarrow> u32"
  pq_pos_locks :: "nat \<Rightarrow> u32"
  pq_db :: u32

definition cq_minus_1 :: "pcq \<Rightarrow> u32" where
  "cq_minus_1 q = mask (pq_log2 q)"

definition cq_loc :: "pcq \<Rightarrow> u32 \<Rightarrow> nat" where
  "cq_loc q cur_head = unat (cur_head AND cq_minus_1 q)"

definition search_phase :: "pcq \<Rightarrow> u32 \<Rightarrow> bool" where
  "search_phase q cur_head \<longleftrightarrow> NOT (drop_bit (pq_log2 q) cur_head) AND 1 \<noteq> 0"

definition entry_cid :: "u32 \<Rightarrow> u16" where
  "entry_cid e = ucast (e AND 0x0000ffff)"

definition entry_phase :: "u32 \<Rightarrow> bool" where
  "entry_phase e \<longleftrightarrow> drop_bit 16 (e AND 0x00010000) \<noteq> 0"

text \<open>The body of the scan loop at offset \<open>i\<close>: the answer is position, absolute index and head.\<close>

function cq_scan :: "pcq \<Rightarrow> u16 \<Rightarrow> u32 \<Rightarrow> nat \<Rightarrow> (nat \<times> u32 \<times> u32) option" where
  "cq_scan q search_cid h i =
     (if i < unat (cq_minus_1 q) then
        (let cur_head = h + of_nat i;
             loc = cq_loc q cur_head;
             cpl_entry = pq_dw3 q loc
         in if entry_cid cpl_entry = search_cid \<and> entry_phase cpl_entry = search_phase q cur_head
            then Some (loc, cur_head, h)
            else if entry_phase cpl_entry \<noteq> search_phase q cur_head then None
            else cq_scan q search_cid h (i + 1))
      else None)"
  by pat_completeness auto
termination by (relation "measure (\<lambda>(q, c, h, i). unat (cq_minus_1 q) - i)") auto

declare cq_scan.simps [simp del]

definition cq_try_poll :: "pcq \<Rightarrow> u16 \<Rightarrow> (nat \<times> u32 \<times> u32) option" where
  "cq_try_poll q search_cid = cq_scan q search_cid (pq_head q) 0"

text \<open>
  The polling loop: \<open>qs k\<close> is the queue as pass \<open>k\<close> over it sees it.  \<open>cq_poll_async\<close> has the same
  body.
\<close>

partial_function (option) cq_poll :: "(nat \<Rightarrow> pcq) \<Rightarrow> nat \<Rightarrow> u16 \<Rightarrow> (nat \<times> u32 \<times> u32) option" where
  "cq_poll qs k search_cid =
     (case cq_scan (qs k) search_cid (pq_head (qs k)) 0 of
        Some r \<Rightarrow> Some r
      | None \<Rightarrow> cq_poll qs (k + 1) search_cid)"

definition cq_poll_async :: "(nat \<Rightarrow> pcq) \<Rightarrow> nat \<Rightarrow> u16 \<Rightarrow> (nat \<times> u32 \<times> u32) option" where
  "cq_poll_async = cq_poll"

definition cq_try_peek_head :: "pcq \<Rightarrow> (u16 \<times> nat \<times> u32 \<times> u32) option" where
  "cq_try_peek_head q =
     (let h = pq_head q; loc = cq_loc q h; cpl_entry = pq_dw3 q loc
      in if entry_phase cpl_entry \<noteq> search_phase q h then None
         else Some (entry_cid cpl_entry, loc, h, h))"

section \<open>Moving the heads\<close>

text \<open>The first loop of \<open>move_head_cq\<close>: marks are taken while they are set.\<close>

function mark_run :: "pcq \<Rightarrow> u32 \<Rightarrow> u32 \<Rightarrow> pcq \<times> u32" where
  "mark_run q cur_head count =
     (let loc = cq_loc q (cur_head + count);
          q1 = q\<lparr>pq_head_mark := (pq_head_mark q)(loc := UNLOCKED)\<rparr>
      in if pq_head_mark q loc = LOCKED then mark_run q1 cur_head (count + 1) else (q1, count))"
  by pat_completeness auto
termination
proof (relation "measure (\<lambda>(q, h, c). card {p. p \<le> unat (cq_minus_1 q) \<and> pq_head_mark q p = LOCKED})")
  fix q :: pcq and h c :: u32 and loc q1
  assume loc: "loc = cq_loc q (h + c)"
    and q1: "q1 = q\<lparr>pq_head_mark := (pq_head_mark q)(loc := UNLOCKED)\<rparr>"
    and l: "pq_head_mark q loc = LOCKED"
  let ?A = "{p. p \<le> unat (cq_minus_1 q) \<and> pq_head_mark q p = LOCKED}"
  let ?B = "{p. p \<le> unat (cq_minus_1 q1) \<and> pq_head_mark q1 p = LOCKED}"
  have "?B \<subseteq> ?A - {loc}" by (auto simp: q1 cq_minus_1_def)
  moreover have "loc \<in> ?A"
    using l word_and_le1 [of "h + c" "cq_minus_1 q"] by (simp add: loc cq_loc_def word_le_nat_alt and.commute)
  moreover have "finite ?A" by simp
  ultimately have "card ?B < card ?A" by (meson card_Diff1_less card_mono finite_Diff le_less_trans)
  then show "((q1, h, c + 1), q, h, c) \<in> measure (\<lambda>(q, h, c). card {p. p \<le> unat (cq_minus_1 q) \<and> pq_head_mark q p = LOCKED})"
    by simp
qed simp

declare mark_run.simps [simp del]

text \<open>The second part: the submission slots up to the reported head are released.\<close>

partial_function (option) release_loop :: "psq \<Rightarrow> head_mover \<Rightarrow> psq option" where
  "release_loop s m =
     (case release_step (s, m) of
        (s', None) \<Rightarrow> Some s'
      | (s', Some m') \<Rightarrow> release_loop s' m')"

definition move_head_cq :: "pcq \<Rightarrow> u32 \<Rightarrow> psq \<Rightarrow> (pcq \<times> psq \<times> u32) option" where
  "move_head_cq q cur_head sq =
     (case mark_run q cur_head 0 of (q1, count) \<Rightarrow>
        if count \<noteq> 0 then
          (let loc1 = cq_loc q (cur_head + (count - 1));
               new_sq_head = ucast (pq_dw2 q loc1 AND 0x0000ffff)
           in case release_start new_sq_head 0 sq of
                None \<Rightarrow> Some (q1, sq, count)
              | Some m \<Rightarrow> map_option (\<lambda>sq'. (q1, sq', count)) (release_loop sq m))
        else Some (q1, sq, count))"

text \<open>\<open>clean_cids\<close>: the first \<open>count\<close> entries of \<open>clean_cid\<close> are given back.\<close>

primrec clean_cids :: "(nat \<Rightarrow> nat) \<Rightarrow> cid_pool \<Rightarrow> nat \<Rightarrow> cid_pool" where
  "clean_cids clean_cid p 0 = p"
| "clean_cids clean_cid p (Suc n) = put_cid (clean_cid n) (clean_cids clean_cid p n)"

section \<open>Dequeueing as interleaved steps\<close>

text \<open>
  \<open>cq_dequeue\<close> for the consumer of completion number \<open>j\<close>, at whose position \<open>pos\<close> the poll
  found it: \<open>loc_\<close> is \<open>j\<close> and \<open>cur_head_\<close> the head the poll saw.  The submission-queue half of
  \<open>move_head_cq\<close> does not touch the completion queue; it is the step \<open>DSqRelease\<close> here and is
  modelled in \<open>Par_Sq\<close>.  Ghosts: \<open>gq_posted\<close> completions written by the device, \<open>gq_hb\<close> marks
  taken by head movers, \<open>gq_ann\<close> completions acknowledged through the doorbell.
\<close>

datatype deq_pc = DStart | DPos1 | DPos2 | DMark | DCheck | DLockOr | DHeadLoad | DMove | DSqRelease
  | DDoorbell | DHeadStore | DUnlock | DRecheck | DNewHead | DExit | DPosUnlock | DDone

record deq_call =
  d_pc :: deq_pc
  d_loc :: u32
  d_cur :: u32
  d_head :: u32
  d_count :: u32
  d_new_head :: u32

record dcq = pcq +
  gq_posted :: nat
  gq_hb :: nat
  gq_ann :: nat

definition d_pos :: "dcq \<Rightarrow> deq_call \<Rightarrow> nat" where
  "d_pos q c = unat (d_loc c AND mask (pq_log2 q))"

definition deq_enter :: "dcq \<times> deq_call \<Rightarrow> dcq \<times> deq_call" where
  "deq_enter = (\<lambda>(q, c).
     let p = d_pos q c in
     if d_pc c = DStart then (q\<lparr>pq_tail := pq_tail q + 1\<rparr>, c\<lparr>d_pc := DPos1\<rparr>)
     else if d_pc c = DPos1 then (q, if pq_pos_locks q p \<noteq> 0 then c else c\<lparr>d_pc := DPos2\<rparr>)
     else if d_pc c = DPos2
     then (q\<lparr>pq_pos_locks := (pq_pos_locks q)(p := pq_pos_locks q p OR 1)\<rparr>,
           if pq_pos_locks q p \<noteq> 0 then c else c\<lparr>d_pc := DMark\<rparr>)
     else (q\<lparr>pq_head_mark := (pq_head_mark q)(p := LOCKED)\<rparr>, c\<lparr>d_pc := DCheck\<rparr>))"

definition deq_check :: "dcq \<times> deq_call \<Rightarrow> dcq \<times> deq_call" where
  "deq_check = (\<lambda>(q, c). (q, c\<lparr>d_pc := (if pq_head_mark q (d_pos q c) = LOCKED then DLockOr else DNewHead)\<rparr>))"

definition deq_move :: "dcq \<times> deq_call \<Rightarrow> dcq \<times> deq_call" where
  "deq_move = (\<lambda>(q, c).
     if d_pc c = DLockOr
     then (q\<lparr>pq_head_lock := pq_head_lock q OR LOCKED\<rparr>,
           c\<lparr>d_pc := (if pq_head_lock q = LOCKED then DRecheck else DHeadLoad)\<rparr>)
     else if d_pc c = DHeadLoad then (q, c\<lparr>d_head := pq_head q, d_count := 0, d_pc := DMove\<rparr>)
     else
       (let p = unat ((d_head c + d_count c) AND mask (pq_log2 q)); old = pq_head_mark q p;
            q1 = q\<lparr>pq_head_mark := (pq_head_mark q)(p := UNLOCKED)\<rparr>
        in if old = LOCKED then (q1\<lparr>gq_hb := gq_hb q + 1\<rparr>, c\<lparr>d_count := d_count c + 1\<rparr>)
           else (q1, c\<lparr>d_pc := (if d_count c = 0 then DUnlock else DSqRelease)\<rparr>)))"

definition deq_publish :: "dcq \<times> deq_call \<Rightarrow> dcq \<times> deq_call" where
  "deq_publish = (\<lambda>(q, c).
     let new_head = d_head c + d_count c in
     if d_pc c = DSqRelease then (q, c\<lparr>d_pc := DDoorbell\<rparr>)
     else if d_pc c = DDoorbell
     then (q\<lparr>pq_db := new_head AND mask (pq_log2 q), gq_ann := unat new_head\<rparr>, c\<lparr>d_pc := DHeadStore\<rparr>)
     else if d_pc c = DHeadStore then (q\<lparr>pq_head := new_head\<rparr>, c\<lparr>d_pc := DUnlock\<rparr>)
     else (q\<lparr>pq_head_lock := UNLOCKED\<rparr>, c\<lparr>d_pc := DRecheck\<rparr>))"

text \<open>The exit loop: leave once the head has passed \<open>loc_\<close>, otherwise load the head again.\<close>

definition deq_passed :: "deq_call \<Rightarrow> bool" where
  "deq_passed c \<longleftrightarrow>
     (if d_new_head c > d_cur c then d_loc c \<ge> d_cur c \<and> d_loc c < d_new_head c
      else if d_new_head c < d_cur c then d_loc c \<ge> d_cur c \<or> d_loc c < d_new_head c
      else False)"

definition deq_exit :: "dcq \<times> deq_call \<Rightarrow> dcq \<times> deq_call" where
  "deq_exit = (\<lambda>(q, c).
     if d_pc c = DNewHead then (q, c\<lparr>d_new_head := pq_head q, d_pc := DExit\<rparr>)
     else if d_pc c = DExit then (q, c\<lparr>d_pc := (if deq_passed c then DPosUnlock else DNewHead)\<rparr>)
     else (q\<lparr>pq_pos_locks := (pq_pos_locks q)(d_pos q c := 0)\<rparr>, c\<lparr>d_pc := DDone\<rparr>))"

fun deq_step :: "dcq \<times> deq_call \<Rightarrow> dcq \<times> deq_call" where
  "deq_step (q, c) =
     (case d_pc c of
        DStart \<Rightarrow> deq_enter (q, c) | DPos1 \<Rightarrow> deq_enter (q, c) | DPos2 \<Rightarrow> deq_enter (q, c)
      | DMark \<Rightarrow> deq_enter (q, c) | DCheck \<Rightarrow> deq_check (q, c) | DRecheck \<Rightarrow> deq_check (q, c)
      | DLockOr \<Rightarrow> deq_move (q, c) | DHeadLoad \<Rightarrow> deq_move (q, c) | DMove \<Rightarrow> deq_move (q, c)
      | DSqRelease \<Rightarrow> deq_publish (q, c) | DDoorbell \<Rightarrow> deq_publish (q, c)
      | DHeadStore \<Rightarrow> deq_publish (q, c) | DUnlock \<Rightarrow> deq_publish (q, c)
      | DNewHead \<Rightarrow> deq_exit (q, c) | DExit \<Rightarrow> deq_exit (q, c) | DPosUnlock \<Rightarrow> deq_exit (q, c)
      | DDone \<Rightarrow> (q, c))"

text \<open>
  The device posts while fewer than \<open>qs - 1\<close> completions are unacknowledged; the consumer of
  completion \<open>j\<close> starts once \<open>j\<close> is posted, with the head its poll saw: at most \<open>j\<close> and at most the
  current head.
  Fewer than \<open>2 ^ 32\<close> completions are posted.
\<close>

inductive cqs_step :: "dcq \<times> (nat \<Rightarrow> deq_call) \<Rightarrow> dcq \<times> (nat \<Rightarrow> deq_call) \<Rightarrow> bool" where
  post: "\<lbrakk> gq_posted q + 1 < gq_ann q + 2 ^ pq_log2 q; gq_posted q + 1 < 2 ^ 32 \<rbrakk> \<Longrightarrow>
     cqs_step (q, c) (q\<lparr>gq_posted := gq_posted q + 1\<rparr>, c)"
| call: "\<lbrakk> j < gq_posted q; d_pc (c j) = DStart \<Longrightarrow> d_cur (c j) \<le> pq_head q; deq_step (q, c j) = (q', c') \<rbrakk> \<Longrightarrow> cqs_step (q, c) (q', c(j := c'))"

definition cqs_init :: "dcq \<times> (nat \<Rightarrow> deq_call) \<Rightarrow> bool" where
  "cqs_init = (\<lambda>(q, c).
     1 \<le> pq_log2 q \<and> pq_log2 q \<le> 16 \<and> pq_head q = 0 \<and> pq_head_lock q = UNLOCKED \<and>
     (\<forall>p. pq_head_mark q p = UNLOCKED) \<and> gq_posted q = 0 \<and> gq_hb q = 0 \<and> gq_ann q = 0 \<and> pq_db q = 0 \<and>
     (\<forall>j. d_pc (c j) = DStart) \<and> (\<forall>j < 2 ^ 32. unat (d_loc (c j)) = j \<and> d_cur (c j) \<le> d_loc (c j)))"

section \<open>Outstanding completions\<close>

text \<open>
  Completions \<open>c .. p - 1\<close> are posted and not yet released, with identifiers \<open>cids\<close>; the slot
  after them still has the tag of the previous round.
\<close>

definition cq_rep :: "pcq \<Rightarrow> nat \<Rightarrow> nat \<Rightarrow> (nat \<Rightarrow> u16) \<Rightarrow> bool" where
  "cq_rep q c p cids \<longleftrightarrow>
     1 \<le> pq_log2 q \<and> pq_log2 q \<le> 16 \<and> unat (pq_head q) = c \<and> c \<le> p \<and> p < c + 2 ^ pq_log2 q \<and> p < 2 ^ 32 \<and>
     (\<forall>i. c \<le> i \<and> i < p \<longrightarrow> entry_cid (pq_dw3 q (i mod 2 ^ pq_log2 q)) = cids i \<and>
        entry_phase (pq_dw3 q (i mod 2 ^ pq_log2 q)) = even (i div 2 ^ pq_log2 q)) \<and>
     entry_phase (pq_dw3 q (p mod 2 ^ pq_log2 q)) = odd (p div 2 ^ pq_log2 q)"

section \<open>Lemmas: identifiers\<close>

definition pool_ok :: "cid_pool \<Rightarrow> bool" where
  "pool_ok p \<longleftrightarrow> (\<forall>i. cp_cid p i = LOCKED \<or> cp_cid p i = UNLOCKED)"

lemma locked_or [simp]: "LOCKED OR LOCKED = LOCKED" "UNLOCKED OR LOCKED = LOCKED"
  by (simp_all add: LOCKED_def UNLOCKED_def)

lemma cid_of_ticket_mod: "cid_of_ticket t = unat t mod 65536"
  by (simp add: cid_of_ticket_def unat_mask16)

lemma get_cid_found:
  "\<lbrakk> \<forall>j < k. cp_cid p (cid_of_ticket (cp_ticket p + of_nat j)) = LOCKED;
     cp_cid p (cid_of_ticket (cp_ticket p + of_nat k)) = UNLOCKED \<rbrakk> \<Longrightarrow>
   get_cid p = Some (p\<lparr>cp_ticket := cp_ticket p + of_nat k + 1,
                       cp_cid := (cp_cid p)(cid_of_ticket (cp_ticket p + of_nat k) := LOCKED)\<rparr>,
                     cid_of_ticket (cp_ticket p + of_nat k))"
proof (induction k arbitrary: p)
  case 0
  then show ?case by (simp add: get_cid.simps Let_def del: fun_upd_apply)
next
  case (Suc k)
  let ?c = "cid_of_ticket (cp_ticket p)"
  have l: "cp_cid p ?c = LOCKED" using Suc.prems(1) by (auto dest: spec [of _ 0])
  have "get_cid p = get_cid (p\<lparr>cp_ticket := cp_ticket p + 1\<rparr>)"
    using l by (subst get_cid.simps) (simp add: Let_def fun_upd_idem)
  also have "\<dots> = Some (p\<lparr>cp_ticket := cp_ticket p + of_nat (Suc k) + 1,
      cp_cid := (cp_cid p)(cid_of_ticket (cp_ticket p + of_nat (Suc k)) := LOCKED)\<rparr>,
      cid_of_ticket (cp_ticket p + of_nat (Suc k)))"
  proof -
    have e: "cp_ticket p + 1 + of_nat j = cp_ticket p + of_nat (Suc j)" for j by simp
    let ?p = "p\<lparr>cp_ticket := cp_ticket p + 1\<rparr>"
    have t: "cp_ticket ?p = cp_ticket p + 1" "cp_cid ?p = cp_cid p" by simp_all
    have u: "?p\<lparr>cp_ticket := x, cp_cid := y\<rparr> = p\<lparr>cp_ticket := x, cp_cid := y\<rparr>" for x y by simp
    have "\<forall>j < k. cp_cid p (cid_of_ticket (cp_ticket p + of_nat (Suc j))) = LOCKED" using Suc.prems(1) by blast
    then show ?thesis using Suc.IH [of ?p] Suc.prems(2) unfolding t e u by blast
  qed
  finally show ?case .
qed

lemma cid_reachable:
  assumes "d < 65536"
  shows "\<exists>k. cid_of_ticket (t + of_nat k) = d"
proof -
  define k where "k = (d + (65536 - unat t mod 65536)) mod 65536"
  have "unat (of_nat k :: u32) = k" by (simp add: unat_of_nat k_def)
  then have "cid_of_ticket (t + of_nat k) = (unat t + k) mod 65536"
    by (simp add: cid_of_ticket_mod unat_word_ariths(1) mod_mod_cancel)
  also have "\<dots> = (unat t mod 65536 + (d + (65536 - unat t mod 65536))) mod 65536"
    unfolding k_def mod_add_right_eq mod_add_left_eq by (rule refl)
  also have "\<dots> = (d + 65536) mod 65536"
    using mod_less_divisor [of 65536 "unat t"] by (intro arg_cong [where f = "\<lambda>x. x mod 65536"]) linarith
  finally show ?thesis using assms by auto
qed

lemma get_cid_returns:
  assumes "pool_ok p" and "d < 65536" and "cp_cid p d = UNLOCKED"
  shows "\<exists>p' e. get_cid p = Some (p', e) \<and> e < 65536 \<and> cp_cid p e = UNLOCKED \<and>
            cp_cid p' = (cp_cid p)(e := LOCKED)"
proof -
  let ?f = "\<lambda>k. cid_of_ticket (cp_ticket p + of_nat k)"
  obtain k0 where "?f k0 = d" using cid_reachable [OF assms(2)] by blast
  then have ex: "cp_cid p (?f k0) = UNLOCKED" using assms(3) by simp
  define k where "k = (LEAST k. cp_cid p (?f k) = UNLOCKED)"
  have k: "cp_cid p (?f k) = UNLOCKED" unfolding k_def using ex by (rule LeastI)
  have "cp_cid p (?f j) = LOCKED" if "j < k" for j
    using not_less_Least [of j "\<lambda>k. cp_cid p (?f k) = UNLOCKED"] that assms(1) by (auto simp: k_def pool_ok_def)
  then have "get_cid p = Some (p\<lparr>cp_ticket := cp_ticket p + of_nat k + 1, cp_cid := (cp_cid p)(?f k := LOCKED)\<rparr>, ?f k)"
    using k by (intro get_cid_found) auto
  moreover have "?f k < 65536" by (simp add: cid_of_ticket_mod)
  ultimately show ?thesis using k by auto
qed

lemma cid_run_inv:
  assumes "cid_run\<^sup>*\<^sup>* (p0, \<lambda>_. CDraw) (p, c)" and "\<forall>i. cp_cid p0 i = UNLOCKED"
  shows "pool_ok p \<and> (\<forall>i d. c i = CHold d \<longrightarrow> cp_cid p d = LOCKED) \<and>
         (\<forall>i j d. c i = CHold d \<longrightarrow> c j = CHold d \<longrightarrow> i = j)"
  using assms(1)
proof (induction "(p, c)" arbitrary: p c rule: rtranclp_induct)
  case base
  then show ?case using assms(2) by (simp add: pool_ok_def)
next
  case (step y)
  obtain q e where y: "y = (q, e)" by force
  note IH = step.hyps(3) [OF y]
  from step.hyps(2) [unfolded y] obtain i c' where s: "cid_step (q, e i) = (p, c')" and c: "c = e(i := c')"
    by (auto elim: cid_run.cases)
  show ?case using IH s
    by (cases "e i") (auto simp: cid_step_def c put_cid_def pool_ok_def split: if_splits)
qed

section \<open>Lemmas: the scan\<close>

lemma cq_loc_mod: "cq_loc q w = unat w mod 2 ^ pq_log2 q"
  by (simp add: cq_loc_def cq_minus_1_def unat_and_mask)

lemma search_phase_even: "search_phase q w \<longleftrightarrow> even (unat w div 2 ^ pq_log2 q)"
proof -
  have "NOT v AND 1 \<noteq> 0 \<longleftrightarrow> even v" for v :: u32
    by (simp add: and_one_eq odd_iff_mod_2_eq_one [symmetric])
  moreover have "even (unat v) = even v" for v :: u32
    using bit_unsigned_iff [of v 0, where 'a = nat] by (simp add: bit_0)
  ultimately show ?thesis
    unfolding search_phase_def by (simp add: unat_drop_bit_div [symmetric])
qed


lemma cq_scan_find:
  assumes "cq_rep q c p cids"
  shows "c + i \<le> p \<Longrightarrow> cq_scan q cid (pq_head q) i =
     map_option (\<lambda>j. (j mod 2 ^ pq_log2 q, of_nat j, pq_head q)) (List.find (\<lambda>j. cids j = cid) [c + i..<p])"
proof (induction "p - (c + i)" arbitrary: i)
  case 0
  then have ci: "c + i = p" by simp
  let ?w = "pq_head q + of_nat i"
  have w: "unat ?w = p" using assms ci unat_of_nat [where 'a = 32, of i]
    by (subst unat_add_bounded) (auto simp: cq_rep_def)
  have "entry_phase (pq_dw3 q (cq_loc q ?w)) \<noteq> search_phase q ?w"
    using assms w by (simp add: cq_rep_def cq_loc_mod search_phase_even)
  then show ?case using ci by (simp add: cq_scan.simps Let_def)
next
  case (Suc n)
  have lt: "c + i < p" using Suc.hyps(2) by simp
  let ?w = "pq_head q + of_nat i"
  have i: "i < 2 ^ 32" and c: "unat (pq_head q) = c" "pq_log2 q \<le> 16" using assms lt by (auto simp: cq_rep_def)
  have w: "unat ?w = c + i" using assms lt unat_of_nat [where 'a = 32, of i]
    by (subst unat_add_bounded) (auto simp: cq_rep_def)
  have hc: "of_nat c = pq_head q" by (simp flip: c(1))
  have e: "entry_cid (pq_dw3 q (cq_loc q ?w)) = cids (c + i)"
    "entry_phase (pq_dw3 q (cq_loc q ?w)) = search_phase q ?w"
    using assms w lt by (auto simp: cq_rep_def cq_loc_mod search_phase_even)
  have b: "i < unat (cq_minus_1 q)"
    using assms lt by (auto simp: cq_rep_def cq_minus_1_def unat_mask_le)
  have IH: "cq_scan q cid (pq_head q) (i + 1) =
     map_option (\<lambda>j. (j mod 2 ^ pq_log2 q, of_nat j, pq_head q)) (List.find (\<lambda>j. cids j = cid) [c + (i + 1)..<p])"
    using Suc.hyps(2) lt by (intro Suc.hyps(1)) simp_all
  have u: "[c + i..<p] = (c + i) # [c + (i + 1)..<p]" using lt by (simp add: upt_conv_Cons)
  have l: "cq_loc q ?w = (c + i) mod 2 ^ pq_log2 q" by (simp add: cq_loc_mod w)
  show ?case
    unfolding u cq_scan.simps [of q cid "pq_head q" i] Let_def using b e IH hc by (simp add: l)
qed

section \<open>Lemmas: runs of marks\<close>

lemma mark_run_length:
  "\<lbrakk> 2 ^ pq_log2 q \<le> (65536 :: nat); unat h + unat count + k < 2 ^ 32; k < 2 ^ pq_log2 q;
     \<forall>j < k. pq_head_mark q ((unat h + unat count + j) mod 2 ^ pq_log2 q) = LOCKED;
     pq_head_mark q ((unat h + unat count + k) mod 2 ^ pq_log2 q) = UNLOCKED \<rbrakk> \<Longrightarrow>
   mark_run q h count =
     (q\<lparr>pq_head_mark := (\<lambda>p. if \<exists>j < k. p = (unat h + unat count + j) mod 2 ^ pq_log2 q then UNLOCKED
                            else pq_head_mark q p)\<rparr>, count + of_nat k)"
proof (induction k arbitrary: q count)
  case 0
  have u: "unat (h + count) = unat h + unat count" using "0.prems"(2) by (intro unat_add_bounded) simp
  have "pq_head_mark q (cq_loc q (h + count)) = UNLOCKED" using "0.prems"(5) by (simp add: cq_loc_mod u)
  then have "(pq_head_mark q)(cq_loc q (h + count) := UNLOCKED) = pq_head_mark q" by (simp add: fun_upd_idem_iff)
  then show ?case using "0.prems"(5) by (simp add: mark_run.simps Let_def cq_loc_mod u)
next
  case (Suc k)
  let ?Q = "2 ^ pq_log2 q :: nat"
  have u: "unat (h + count) = unat h + unat count" "unat (count + 1) = unat count + 1"
    using Suc.prems(2) by (simp_all add: unat_add_bounded unat_inc)
  let ?p0 = "(unat h + unat count) mod ?Q"
  let ?q = "q\<lparr>pq_head_mark := (pq_head_mark q)(?p0 := UNLOCKED)\<rparr>"
  have l: "pq_head_mark q ?p0 = LOCKED" using Suc.prems(4) by (auto dest: spec [of _ 0])
  have st: "mark_run q h count = mark_run ?q h (count + 1)"
    using l by (subst mark_run.simps) (simp add: Let_def cq_loc_mod u)
  have ne: "(unat h + unat count + 1 + j) mod ?Q \<noteq> ?p0" if "j \<le> k" for j
    using that Suc.prems(3) mod_window_inj [of "unat h + unat count" "1 + j" ?Q 0] by (auto simp: add.assoc)
  have IH: "mark_run ?q h (count + 1) =
     (?q\<lparr>pq_head_mark := (\<lambda>p. if \<exists>j < k. p = (unat h + unat (count + 1) + j) mod 2 ^ pq_log2 ?q then UNLOCKED
                            else pq_head_mark ?q p)\<rparr>, count + 1 + of_nat k)"
    using Suc.prems ne u(2) by (intro Suc.IH) (auto simp: add.assoc [symmetric])
  have ex: "(\<exists>j < Suc k. p = (unat h + unat count + j) mod ?Q) \<longleftrightarrow>
      p = ?p0 \<or> (\<exists>j < k. p = (unat h + unat count + 1 + j) mod ?Q)" for p
    by (auto simp: less_Suc_eq_0_disj)
  have "(\<lambda>p. if \<exists>j < k. p = (unat h + unat (count + 1) + j) mod ?Q then UNLOCKED
               else ((pq_head_mark q)(?p0 := UNLOCKED)) p) =
        (\<lambda>p. if \<exists>j < Suc k. p = (unat h + unat count + j) mod ?Q then UNLOCKED else pq_head_mark q p)"
    unfolding ex u(2) by (auto simp: fun_eq_iff)
  then show ?case unfolding st IH by (simp del: fun_upd_apply cong: if_cong)
qed


lemma release_loop_run:
  "\<lbrakk> ps_log2 s \<le> 16; unat (mv_loc m) < 2 ^ ps_log2 s; d < 2 ^ ps_log2 s;
     unat (mv_new m) = (unat (mv_loc m) + d) mod 2 ^ ps_log2 s \<rbrakk> \<Longrightarrow>
   release_loop s m = Some (s\<lparr>ps_head := ps_head s + (mv_count m + of_nat d),
      ps_tickets := (\<lambda>p. ps_tickets s p + (if \<exists>j < d. p = (unat (mv_loc m) + j) mod 2 ^ ps_log2 s then 1 else 0))\<rparr>)"
proof (induction d arbitrary: s m)
  case 0
  then have "mv_loc m = ucast (mv_new m)" by (simp add: unat_eq_iff unat_ucast_up)
  then show ?case by (simp add: release_loop.simps release_step_def)
next
  case (Suc d)
  let ?Q = "2 ^ ps_log2 s :: nat" and ?l = "unat (mv_loc m)"
  have q: "?Q \<le> 65536" using power_increasing [OF Suc.prems(1), of "2 :: nat"] by simp
  have ne: "mv_loc m \<noteq> ucast (mv_new m)"
  proof
    assume "mv_loc m = ucast (mv_new m)"
    then have "?l = unat (mv_new m)" by (simp add: unat_ucast_up)
    then have "?l = (?l + Suc d) mod ?Q" using Suc.prems(4) by simp
    then show False using mod_window_inj [of ?l 0 ?Q "Suc d"] Suc.prems(2,3) by simp
  qed
  let ?s = "s\<lparr>ps_tickets := (ps_tickets s)(?l := ps_tickets s ?l + 1)\<rparr>"
  let ?m = "m\<lparr>mv_count := mv_count m + 1, mv_loc := (mv_loc m + 1) AND qs_minus_1 s\<rparr>"
  have st: "release_loop s m = release_loop ?s ?m"
    using ne by (subst release_loop.simps) (simp add: release_step_def)
  have "?l + 1 < 2 ^ 32" using Suc.prems(2) q by simp
  then have l': "unat (mv_loc ?m) = (?l + 1) mod ?Q" by (simp add: qs_mask_mod unat_inc)
  have IH: "release_loop ?s ?m = Some (?s\<lparr>ps_head := ps_head ?s + (mv_count ?m + of_nat d),
      ps_tickets := (\<lambda>p. ps_tickets ?s p + (if \<exists>j < d. p = (unat (mv_loc ?m) + j) mod 2 ^ ps_log2 ?s then 1 else 0))\<rparr>)"
    using Suc.prems l' by (intro Suc.IH) (simp_all add: mod_Suc_eq mod_simps)
  have ex: "(\<exists>j < Suc d. p = (?l + j) mod ?Q) \<longleftrightarrow> p = ?l \<or> (\<exists>j < d. p = ((?l + 1) mod ?Q + j) mod ?Q)" for p
    using Suc.prems(2) by (auto simp: less_Suc_eq_0_disj mod_simps)
  have nl: "((?l + 1) mod ?Q + j) mod ?Q \<noteq> ?l" if "j < d" for j
    using mod_window_inj [of ?l "1 + j" ?Q 0] Suc.prems(2,3) that by (auto simp: mod_simps)
  have "(\<lambda>p. ps_tickets ?s p + (if \<exists>j < d. p = (unat (mv_loc ?m) + j) mod 2 ^ ps_log2 ?s then 1 else 0)) =
        (\<lambda>p. ps_tickets s p + (if \<exists>j < Suc d. p = (?l + j) mod ?Q then 1 else 0))"
    unfolding ex l' using nl nl [symmetric] by (auto simp: fun_eq_iff)
  then show ?case unfolding st IH by (simp add: add.assoc)
qed


section \<open>The invariant of dequeueing\<close>

definition d_marked :: "deq_pc \<Rightarrow> bool" where
  "d_marked p \<longleftrightarrow> p \<notin> {DStart, DPos1, DPos2, DMark}"

definition d_holds :: "deq_pc \<Rightarrow> bool" where
  "d_holds p \<longleftrightarrow> p \<in> {DHeadLoad, DMove, DSqRelease, DDoorbell, DHeadStore, DUnlock}"

definition d_moving :: "deq_pc \<Rightarrow> bool" where
  "d_moving p \<longleftrightarrow> p \<in> {DMove, DSqRelease, DDoorbell, DHeadStore}"

lemmas dpc_defs = d_marked_def d_holds_def d_moving_def

definition dcall_ok :: "dcq \<Rightarrow> nat \<Rightarrow> deq_call \<Rightarrow> bool" where
  "dcall_ok q j c \<longleftrightarrow>
     (d_pc c \<noteq> DStart \<longrightarrow> j < gq_posted q \<and> d_cur c \<le> pq_head q) \<and>
     (j < 2 ^ 32 \<longrightarrow> unat (d_loc c) = j \<and> d_cur c \<le> d_loc c) \<and>
     (d_pc c \<in> {DNewHead, DExit, DPosUnlock, DDone} \<longrightarrow> j < gq_hb q) \<and>
     (j < gq_hb q \<longrightarrow> d_marked (d_pc c)) \<and>
     (d_pc c \<in> {DPosUnlock, DDone} \<longrightarrow> j < unat (pq_head q)) \<and>
     (d_pc c = DExit \<longrightarrow> d_cur c \<le> d_new_head c \<and> d_new_head c \<le> pq_head q) \<and>
     (d_moving (d_pc c) \<longrightarrow> d_head c = pq_head q \<and> unat (pq_head q) + unat (d_count c) = gq_hb q \<and>
        gq_ann q = (if d_pc c = DHeadStore then gq_hb q else unat (pq_head q)))"

definition dglob_ok :: "dcq \<Rightarrow> bool" where
  "dglob_ok q \<longleftrightarrow> 1 \<le> pq_log2 q \<and> pq_log2 q \<le> 16 \<and> gq_posted q < 2 ^ 32 \<and>
     unat (pq_head q) \<le> gq_hb q \<and> gq_ann q \<le> gq_hb q \<and> gq_hb q \<le> gq_posted q \<and>
     gq_posted q < gq_ann q + 2 ^ pq_log2 q \<and> unat (pq_db q) = gq_ann q mod 2 ^ pq_log2 q"

definition dlock_ok :: "dcq \<Rightarrow> (nat \<Rightarrow> deq_pc) \<Rightarrow> bool" where
  "dlock_ok q pc \<longleftrightarrow>
     (pq_head_lock q = LOCKED \<or> pq_head_lock q = UNLOCKED) \<and>
     (pq_head_lock q = LOCKED \<longleftrightarrow> (\<exists>j. d_holds (pc j))) \<and>
     (\<forall>i j. d_holds (pc i) \<longrightarrow> d_holds (pc j) \<longrightarrow> i = j) \<and>
     ((\<forall>j. \<not> d_moving (pc j)) \<longrightarrow> unat (pq_head q) = gq_hb q \<and> gq_ann q = gq_hb q)"

definition dmarks :: "dcq \<Rightarrow> (nat \<Rightarrow> deq_pc) \<Rightarrow> nat \<Rightarrow> nat set" where
  "dmarks q pc p = {j. gq_hb q \<le> j \<and> j < gq_posted q \<and> j mod 2 ^ pq_log2 q = p \<and> d_marked (pc j)}"

definition dmark_ok :: "dcq \<Rightarrow> (nat \<Rightarrow> deq_pc) \<Rightarrow> bool" where
  "dmark_ok q pc \<longleftrightarrow> (\<forall>p < 2 ^ pq_log2 q. pq_head_mark q p = LOCKED \<longleftrightarrow> dmarks q pc p \<noteq> {})"

definition cqs_inv :: "dcq \<Rightarrow> (nat \<Rightarrow> deq_call) \<Rightarrow> bool" where
  "cqs_inv q c \<longleftrightarrow> dglob_ok q \<and> (\<forall>j. dcall_ok q j (c j)) \<and>
     dlock_ok q (d_pc \<circ> c) \<and> dmark_ok q (d_pc \<circ> c)"

lemma cqs_invD:
  assumes "cqs_inv q c"
  shows "dglob_ok q" "dcall_ok q j (c j)" "dlock_ok q (d_pc \<circ> c)" "dmark_ok q (d_pc \<circ> c)"
  using assms by (simp_all add: cqs_inv_def)

lemma comp_upd: "d_pc \<circ> c(j := c') = (d_pc \<circ> c)(j := d_pc c')"
  by (auto simp: fun_eq_iff)

lemma dlock_frame:
  assumes "dlock_ok q pc" and "d_holds p' = d_holds (pc j)" and "d_moving p' = d_moving (pc j)"
    and "pq_head_lock q' = pq_head_lock q" and "pq_head q' = pq_head q" and "gq_hb q' = gq_hb q" and "gq_ann q' = gq_ann q"
  shows "dlock_ok q' (pc(j := p'))"
proof -
  have "d_holds ((pc(j := p')) i) = d_holds (pc i)" "d_moving ((pc(j := p')) i) = d_moving (pc i)" for i
    using assms(2,3) by auto
  then show ?thesis using assms(1,4-) by (auto simp: dlock_ok_def simp del: fun_upd_apply)
qed

lemma dmark_frame:
  assumes "dmark_ok q pc" and "d_marked p' = d_marked (pc j)" and "pq_head_mark q' = pq_head_mark q"
    and "gq_hb q' = gq_hb q" and "gq_posted q' = gq_posted q" and "pq_log2 q' = pq_log2 q"
  shows "dmark_ok q' (pc(j := p'))"
proof -
  have "dmarks q' (pc(j := p')) p = dmarks q pc p" for p using assms by (auto simp: dmarks_def)
  then show ?thesis using assms by (simp add: dmark_ok_def)
qed

text \<open>Steps that only move the program counter, or touch the tail counter and position locks.\<close>

lemma cqs_inv_quiet:
  assumes "cqs_inv q c" and "q' = q\<lparr>pq_tail := t, pq_pos_locks := l\<rparr>"
    and "d_marked (d_pc c') = d_marked (d_pc (c j))" and "d_holds (d_pc c') = d_holds (d_pc (c j))"
    and "d_moving (d_pc c') = d_moving (d_pc (c j))" and "dcall_ok q j c'"
  shows "cqs_inv q' (c(j := c'))"
proof -
  note D = cqs_invD [OF assms(1)]
  have k: "dcall_ok q' i x = dcall_ok q i x" for i x by (simp add: dcall_ok_def assms(2))
  have "\<forall>i. dcall_ok q' i ((c(j := c')) i)" unfolding k using D(2) assms(6) by simp
  moreover have "dglob_ok q'" using D(1) by (simp add: dglob_ok_def assms(2))
  moreover have "dlock_ok q' ((d_pc \<circ> c)(j := d_pc c'))"
    using assms(4,5) by (intro dlock_frame [OF D(3)]) (simp_all add: assms(2))
  moreover have "dmark_ok q' ((d_pc \<circ> c)(j := d_pc c'))"
    using assms(3) by (intro dmark_frame [OF D(4)]) (simp_all add: assms(2))
  ultimately show ?thesis by (simp add: cqs_inv_def comp_upd)
qed

lemma d_pos_mod: "d_pos q c = unat (d_loc c) mod 2 ^ pq_log2 q"
  by (simp add: d_pos_def unat_and_mask)

lemma deq_mark_inv:
  assumes "cqs_inv q c" and "j < gq_posted q" and "d_pc (c j) = DMark"
  shows "cqs_inv (q\<lparr>pq_head_mark := (pq_head_mark q)(d_pos q (c j) := LOCKED)\<rparr>) (c(j := (c j)\<lparr>d_pc := DCheck\<rparr>))"
proof -
  note D = cqs_invD [OF assms(1)]
  let ?q = "q\<lparr>pq_head_mark := (pq_head_mark q)(d_pos q (c j) := LOCKED)\<rparr>"
  have j: "j < 2 ^ 32" using assms(2) D(1) by (simp add: dglob_ok_def)
  have hb: "gq_hb q \<le> j" using D(2) [of j] assms(3) by (auto simp: dcall_ok_def d_marked_def not_less [symmetric])
  have pos: "d_pos q (c j) = j mod 2 ^ pq_log2 q" using D(2) [of j] j by (simp add: dcall_ok_def d_pos_mod)
  have k: "dcall_ok ?q i x = dcall_ok q i x" for i x by (simp add: dcall_ok_def)
  have "\<forall>i. dcall_ok ?q i ((c(j := (c j)\<lparr>d_pc := DCheck\<rparr>)) i)"
    unfolding k using D(2) assms(3) by (auto simp: dcall_ok_def dpc_defs)
  moreover have "dmarks ?q ((d_pc \<circ> c)(j := DCheck)) p =
      dmarks q (d_pc \<circ> c) p \<union> (if p = j mod 2 ^ pq_log2 q then {j} else {})" for p
    using assms(2) hb by (auto simp: dmarks_def d_marked_def)
  then have "dmark_ok ?q ((d_pc \<circ> c)(j := DCheck))" using D(4) by (simp add: dmark_ok_def pos)
  moreover have "dlock_ok ?q ((d_pc \<circ> c)(j := DCheck))"
    using assms(3) by (intro dlock_frame [OF D(3)]) (simp_all add: dpc_defs)
  moreover have "dglob_ok ?q" using D(1) by (simp add: dglob_ok_def)
  ultimately show ?thesis by (simp add: cqs_inv_def comp_upd)
qed


lemma d_moving_holds: "d_moving p \<Longrightarrow> d_holds p"
  by (auto simp: dpc_defs)

lemma dothers_idle:
  assumes "dlock_ok q pc" and "d_holds (pc j) \<or> pq_head_lock q \<noteq> LOCKED" and "i \<noteq> j"
  shows "\<not> d_holds (pc i)"
  using assms by (auto simp: dlock_ok_def)

lemma dlock_holder:
  assumes "dlock_ok q pc" and "d_holds (pc j) \<or> pq_head_lock q \<noteq> LOCKED" and "d_holds p'"
    and "pq_head_lock q' = LOCKED" and "\<not> d_moving p' \<Longrightarrow> unat (pq_head q') = gq_hb q' \<and> gq_ann q' = gq_hb q'"
  shows "dlock_ok q' (pc(j := p'))"
  using dothers_idle [OF assms(1,2)] assms(3-) unfolding dlock_ok_def by (auto split: if_splits)

lemma dlock_release:
  assumes "dlock_ok q pc" and "d_holds (pc j)" and "\<not> d_holds p'" and "pq_head_lock q' = UNLOCKED"
    and "unat (pq_head q') = gq_hb q'" and "gq_ann q' = gq_hb q'"
  shows "dlock_ok q' (pc(j := p'))"
  using dothers_idle [OF assms(1), of j] assms(2-) unfolding dlock_ok_def by auto

text \<open>A step of the call that holds or takes the lock; other calls keep their conditions.\<close>

lemma cqs_inv_crit:
  assumes "cqs_inv q c" and "dlock_ok q' ((d_pc \<circ> c)(j := d_pc c'))" and "dmark_ok q' ((d_pc \<circ> c)(j := d_pc c'))"
    and "dglob_ok q'" and "dcall_ok q' j c'"
    and "\<And>i. i \<noteq> j \<Longrightarrow> dcall_ok q i (c i) \<Longrightarrow> \<not> d_holds (d_pc (c i)) \<Longrightarrow> dcall_ok q' i (c i)"
    and "d_holds (d_pc (c j)) \<or> pq_head_lock q \<noteq> LOCKED"
  shows "cqs_inv q' (c(j := c'))"
proof -
  note D = cqs_invD [OF assms(1)]
  have "\<forall>i. dcall_ok q' i ((c(j := c')) i)"
    using assms(5,6) D(2) dothers_idle [OF D(3), of j] assms(7) by auto
  then show ?thesis using assms(2-4) by (simp add: cqs_inv_def comp_upd)
qed

lemma dcall_ok_other:
  assumes "dcall_ok q i x" and "\<not> d_holds (d_pc x)" and "gq_posted q' = gq_posted q" and "gq_hb q' = gq_hb q"
    and "pq_head q \<le> pq_head q'"
  shows "dcall_ok q' i x"
proof -
  have m: "\<not> d_moving (d_pc x)" using assms(2) d_moving_holds by blast
  have u: "unat (pq_head q) \<le> unat (pq_head q')" using assms(5) by (simp add: word_le_nat_alt)
  have t: "w \<le> pq_head q \<Longrightarrow> w \<le> pq_head q'" for w using assms(5) by (rule order_trans [rotated])
  show ?thesis
    using assms(1) m u t unfolding dcall_ok_def assms(3,4) by (metis order_less_le_trans)
qed

lemma no_moving:
  "dlock_ok q pc \<Longrightarrow> \<forall>j. \<not> d_moving (pc j) \<Longrightarrow> unat (pq_head q) = gq_hb q \<and> gq_ann q = gq_hb q"
  by (simp add: dlock_ok_def)

lemma deq_lock_inv:
  assumes "cqs_inv q c" and "d_pc (c j) = DLockOr" and "pq_head_lock q \<noteq> LOCKED"
  shows "cqs_inv (q\<lparr>pq_head_lock := pq_head_lock q OR LOCKED\<rparr>) (c(j := (c j)\<lparr>d_pc := DHeadLoad\<rparr>))"
proof -
  note D = cqs_invD [OF assms(1)]
  have l: "pq_head_lock q OR LOCKED = LOCKED"
    using D(3) assms(3) by (auto simp: dlock_ok_def LOCKED_def UNLOCKED_def)
  have m: "unat (pq_head q) = gq_hb q \<and> gq_ann q = gq_hb q"
    using D(3) assms(3) d_moving_holds by (intro no_moving [OF D(3)]) (auto simp: dlock_ok_def)
  show ?thesis unfolding l
  proof (rule cqs_inv_crit [OF assms(1)])
    show "dlock_ok (q\<lparr>pq_head_lock := LOCKED\<rparr>) ((d_pc \<circ> c)(j := d_pc ((c j)\<lparr>d_pc := DHeadLoad\<rparr>)))"
      using assms(3) m by (intro dlock_holder [OF D(3)]) (simp_all add: dpc_defs)
    show "dmark_ok (q\<lparr>pq_head_lock := LOCKED\<rparr>) ((d_pc \<circ> c)(j := d_pc ((c j)\<lparr>d_pc := DHeadLoad\<rparr>)))"
      using assms(2) by (intro dmark_frame [OF D(4)]) (simp_all add: dpc_defs)
  qed (use D(1) D(2) [of j] assms(2,3) in \<open>auto simp: dglob_ok_def dcall_ok_def dpc_defs\<close>)
qed

lemma deq_head_load_inv:
  assumes "cqs_inv q c" and "d_pc (c j) = DHeadLoad"
  shows "cqs_inv q (c(j := (c j)\<lparr>d_head := pq_head q, d_count := 0, d_pc := DMove\<rparr>))"
proof -
  note D = cqs_invD [OF assms(1)]
  have h: "d_holds ((d_pc \<circ> c) j)" using assms(2) by (simp add: dpc_defs)
  have "\<forall>i. \<not> d_moving ((d_pc \<circ> c) i)"
  proof
    fix i show "\<not> d_moving ((d_pc \<circ> c) i)"
      using dothers_idle [OF D(3) disjI1 [OF h], of i] assms(2) d_moving_holds by (cases "i = j") (auto simp: dpc_defs)
  qed
  then have m: "unat (pq_head q) = gq_hb q \<and> gq_ann q = gq_hb q" by (rule no_moving [OF D(3)])
  have l: "pq_head_lock q = LOCKED" using D(3) h by (auto simp: dlock_ok_def)
  show ?thesis
  proof (rule cqs_inv_crit [OF assms(1)])
    show "dlock_ok q ((d_pc \<circ> c)(j := d_pc ((c j)\<lparr>d_head := pq_head q, d_count := 0, d_pc := DMove\<rparr>)))"
      using h l by (intro dlock_holder [OF D(3)]) (simp_all add: dpc_defs)
    show "dmark_ok q ((d_pc \<circ> c)(j := d_pc ((c j)\<lparr>d_head := pq_head q, d_count := 0, d_pc := DMove\<rparr>)))"
      using assms(2) by (intro dmark_frame [OF D(4)]) (simp_all add: dpc_defs)
  qed (use D(1) D(2) [of j] assms(2) h m in \<open>auto simp: dcall_ok_def dpc_defs\<close>)
qed

lemma d_moving_facts:
  assumes "cqs_inv q c" and "d_moving (d_pc (c j))"
  shows "d_head (c j) = pq_head q" "unat (pq_head q) + unat (d_count (c j)) = gq_hb q"
    "unat (d_head (c j) + d_count (c j)) = gq_hb q" "pq_head_lock q = LOCKED" "gq_hb q < 2 ^ 32"
    "gq_posted q < gq_hb q + 2 ^ pq_log2 q"
proof -
  note D = cqs_invD [OF assms(1)]
  show a: "d_head (c j) = pq_head q" "unat (pq_head q) + unat (d_count (c j)) = gq_hb q"
    using D(2) [of j] assms(2) by (simp_all add: dcall_ok_def)
  show b: "gq_hb q < 2 ^ 32" "gq_posted q < gq_hb q + 2 ^ pq_log2 q" using D(1) by (auto simp: dglob_ok_def)
  show "unat (d_head (c j) + d_count (c j)) = gq_hb q" using a b(1) by (subst unat_add_bounded) simp_all
  show "pq_head_lock q = LOCKED" using D(3) d_moving_holds [OF assms(2)] by (auto simp: dlock_ok_def)
qed


text \<open>A set mark at the claim position belongs to the oldest completion not yet claimed.\<close>

lemma dmark_is_next:
  assumes "cqs_inv q c" and "pq_head_mark q (gq_hb q mod 2 ^ pq_log2 q) = LOCKED"
  shows "dmarks q (d_pc \<circ> c) (gq_hb q mod 2 ^ pq_log2 q) = {gq_hb q}"
proof -
  note D = cqs_invD [OF assms(1)]
  have w: "gq_posted q < gq_hb q + 2 ^ pq_log2 q" using D(1) by (auto simp: dglob_ok_def)
  have "j = gq_hb q" if "j \<in> dmarks q (d_pc \<circ> c) (gq_hb q mod 2 ^ pq_log2 q)" for j
    using that w mod_eq_window [of "gq_hb q" "2 ^ pq_log2 q" j] by (auto simp: dmarks_def)
  moreover have "dmarks q (d_pc \<circ> c) (gq_hb q mod 2 ^ pq_log2 q) \<noteq> {}"
    using D(4) assms(2) by (simp add: dmark_ok_def)
  ultimately show ?thesis by blast
qed

lemma deq_claim_inv:
  assumes "cqs_inv q c" and "d_pc (c j) = DMove"
    and "pq_head_mark q (gq_hb q mod 2 ^ pq_log2 q) = LOCKED"
  shows "cqs_inv (q\<lparr>pq_head_mark := (pq_head_mark q)(gq_hb q mod 2 ^ pq_log2 q := UNLOCKED), gq_hb := gq_hb q + 1\<rparr>)
           (c(j := (c j)\<lparr>d_count := d_count (c j) + 1\<rparr>))" (is "cqs_inv ?q (c(j := ?c))")
proof -
  note D = cqs_invD [OF assms(1)] and N = dmark_is_next [OF assms(1,3)]
  have mv: "d_moving (d_pc (c j))" using assms(2) by (simp add: dpc_defs)
  note F = d_moving_facts [OF assms(1) mv]
  have n: "gq_hb q < gq_posted q" "d_marked (d_pc (c (gq_hb q)))" using N by (auto simp: dmarks_def set_eq_iff)
  have cnt: "unat (d_count (c j) + 1) = unat (d_count (c j)) + 1"
    using F(2,5) n(1) D(1) by (intro unat_inc) (simp add: dglob_ok_def)
  have pc: "(d_pc \<circ> c)(j := d_pc ?c) = d_pc \<circ> c" by (auto simp: fun_eq_iff)
  have left: "dmarks ?q (d_pc \<circ> c) p = dmarks q (d_pc \<circ> c) p - {gq_hb q}" for p
    by (auto simp: dmarks_def)
  have out: "gq_hb q \<notin> dmarks q (d_pc \<circ> c) p" if "p \<noteq> gq_hb q mod 2 ^ pq_log2 q" for p
    using that by (auto simp: dmarks_def)
  show ?thesis
  proof (rule cqs_inv_crit [OF assms(1)])
    show "dlock_ok ?q ((d_pc \<circ> c)(j := d_pc ?c))"
      using F(4) mv d_moving_holds by (intro dlock_holder [OF D(3)]) (auto simp: assms(2) dpc_defs)
    have "(pq_head_mark ?q p = LOCKED) = (dmarks q (d_pc \<circ> c) p - {gq_hb q} \<noteq> {})"
      if "p < 2 ^ pq_log2 q" for p
    proof (cases "p = gq_hb q mod 2 ^ pq_log2 q")
      case True
      then show ?thesis using N by simp
    next
      case False
      then show ?thesis using D(4) out [OF False] that by (simp add: dmark_ok_def)
    qed
    then show "dmark_ok ?q ((d_pc \<circ> c)(j := d_pc ?c))"
      unfolding pc dmark_ok_def left by (simp del: fun_upd_apply)
    show "dglob_ok ?q" using D(1) n(1) by (simp add: dglob_ok_def)
    show "dcall_ok ?q j ?c" using D(2) [of j] cnt assms(2) by (auto simp: dcall_ok_def dpc_defs)
    show "dcall_ok ?q i (c i)" if "i \<noteq> j" "dcall_ok q i (c i)" "\<not> d_holds (d_pc (c i))" for i
      using that n d_moving_holds [of "d_pc (c i)"] by (auto simp: dcall_ok_def less_Suc_eq)
  qed (use mv d_moving_holds in auto)
qed

lemma deq_stop_inv:
  assumes "cqs_inv q c" and "d_pc (c j) = DMove"
    and "pq_head_mark q (gq_hb q mod 2 ^ pq_log2 q) \<noteq> LOCKED"
  shows "cqs_inv (q\<lparr>pq_head_mark := (pq_head_mark q)(gq_hb q mod 2 ^ pq_log2 q := UNLOCKED)\<rparr>)
           (c(j := (c j)\<lparr>d_pc := (if d_count (c j) = 0 then DUnlock else DSqRelease)\<rparr>))" (is "cqs_inv ?q (c(j := ?c))")
proof -
  note D = cqs_invD [OF assms(1)]
  have mv: "d_moving (d_pc (c j))" using assms(2) by (simp add: dpc_defs)
  note F = d_moving_facts [OF assms(1) mv]
  have mk: "(pq_head_mark ?q p = LOCKED) = (pq_head_mark q p = LOCKED)" for p using assms(3) by auto
  have ms: "dmarks ?q ((d_pc \<circ> c)(j := d_pc ?c)) p = dmarks q (d_pc \<circ> c) p" for p
    using assms(2) by (auto simp: dmarks_def d_marked_def)
  show ?thesis
  proof (rule cqs_inv_crit [OF assms(1)])
    show "dlock_ok ?q ((d_pc \<circ> c)(j := d_pc ?c))"
    proof (rule dlock_holder [OF D(3)])
      show "unat (pq_head ?q) = gq_hb ?q \<and> gq_ann ?q = gq_hb ?q" if "\<not> d_moving (d_pc ?c)"
      proof -
        have "d_count (c j) = 0" using that by (auto simp: dpc_defs split: if_splits)
        moreover have "gq_ann q = unat (pq_head q)" using D(2) [of j] assms(2) by (simp add: dcall_ok_def dpc_defs)
        ultimately show ?thesis using F(2) by simp
      qed
    qed (use F(4) mv d_moving_holds in \<open>simp_all add: dpc_defs\<close>)
    show "dmark_ok ?q ((d_pc \<circ> c)(j := d_pc ?c))"
      using D(4) unfolding dmark_ok_def ms mk by simp
    show "dglob_ok ?q" using D(1) by (simp add: dglob_ok_def)
    show "dcall_ok ?q j ?c" using D(2) [of j] assms(2) by (auto simp: dcall_ok_def dpc_defs)
  qed (use mv d_moving_holds in \<open>auto simp: dcall_ok_def\<close>)
qed

lemma deq_doorbell_inv:
  assumes "cqs_inv q c" and "d_pc (c j) = DDoorbell"
  shows "cqs_inv (q\<lparr>pq_db := (d_head (c j) + d_count (c j)) AND mask (pq_log2 q), gq_ann := unat (d_head (c j) + d_count (c j))\<rparr>)
           (c(j := (c j)\<lparr>d_pc := DHeadStore\<rparr>))" (is "cqs_inv ?q (c(j := ?c))")
proof -
  note D = cqs_invD [OF assms(1)]
  have mv: "d_moving (d_pc (c j))" using assms(2) by (simp add: dpc_defs)
  note F = d_moving_facts [OF assms(1) mv]
  show ?thesis
  proof (rule cqs_inv_crit [OF assms(1)])
    show "dlock_ok ?q ((d_pc \<circ> c)(j := d_pc ?c))"
      using F mv d_moving_holds by (intro dlock_holder [OF D(3)]) (auto simp: dpc_defs)
    show "dmark_ok ?q ((d_pc \<circ> c)(j := d_pc ?c))"
      using assms(2) by (intro dmark_frame [OF D(4)]) (simp_all add: dpc_defs)
    show "dglob_ok ?q" using D(1) F(3) by (auto simp: dglob_ok_def unat_and_mask)
    show "dcall_ok ?q j ?c" using D(2) [of j] assms(2) F by (auto simp: dcall_ok_def dpc_defs)
    show "dcall_ok ?q i (c i)" if "i \<noteq> j" "dcall_ok q i (c i)" "\<not> d_holds (d_pc (c i))" for i
      by (rule dcall_ok_other [OF that(2,3)]) simp_all
  qed (use mv d_moving_holds in auto)
qed

lemma deq_head_store_inv:
  assumes "cqs_inv q c" and "d_pc (c j) = DHeadStore"
  shows "cqs_inv (q\<lparr>pq_head := d_head (c j) + d_count (c j)\<rparr>) (c(j := (c j)\<lparr>d_pc := DUnlock\<rparr>))"
    (is "cqs_inv ?q (c(j := ?c))")
proof -
  note D = cqs_invD [OF assms(1)]
  have mv: "d_moving (d_pc (c j))" using assms(2) by (simp add: dpc_defs)
  note F = d_moving_facts [OF assms(1) mv]
  have ann: "gq_ann q = gq_hb q" using D(2) [of j] assms(2) by (simp add: dcall_ok_def dpc_defs)
  have up: "pq_head q \<le> d_head (c j) + d_count (c j)" "unat (pq_head q) \<le> gq_hb q"
    using F(2,3) by (simp_all add: word_le_nat_alt)
  show ?thesis
  proof (rule cqs_inv_crit [OF assms(1)])
    show "dlock_ok ?q ((d_pc \<circ> c)(j := d_pc ?c))"
      using F mv d_moving_holds ann by (intro dlock_holder [OF D(3)]) (auto simp: dpc_defs)
    show "dmark_ok ?q ((d_pc \<circ> c)(j := d_pc ?c))"
      using assms(2) by (intro dmark_frame [OF D(4)]) (simp_all add: dpc_defs)
    show "dglob_ok ?q" using D(1) F(3) by (simp add: dglob_ok_def)
    show "dcall_ok ?q j ?c" using D(2) [of j] assms(2) up by (auto simp: dcall_ok_def dpc_defs)
    show "dcall_ok ?q i (c i)" if "i \<noteq> j" "dcall_ok q i (c i)" "\<not> d_holds (d_pc (c i))" for i
      by (rule dcall_ok_other [OF that(2,3)]) (simp_all add: up)
  qed (use mv d_moving_holds in auto)
qed

lemma deq_unlock_inv:
  assumes "cqs_inv q c" and "d_pc (c j) = DUnlock"
  shows "cqs_inv (q\<lparr>pq_head_lock := UNLOCKED\<rparr>) (c(j := (c j)\<lparr>d_pc := DRecheck\<rparr>))" (is "cqs_inv ?q (c(j := ?c))")
proof -
  note D = cqs_invD [OF assms(1)]
  have h: "d_holds ((d_pc \<circ> c) j)" using assms(2) by (simp add: dpc_defs)
  have "\<forall>i. \<not> d_moving ((d_pc \<circ> c) i)"
  proof
    fix i show "\<not> d_moving ((d_pc \<circ> c) i)"
      using dothers_idle [OF D(3) disjI1 [OF h], of i] assms(2) d_moving_holds by (cases "i = j") (auto simp: dpc_defs)
  qed
  then have m: "unat (pq_head q) = gq_hb q \<and> gq_ann q = gq_hb q" by (rule no_moving [OF D(3)])
  show ?thesis
  proof (rule cqs_inv_crit [OF assms(1)])
    show "dlock_ok ?q ((d_pc \<circ> c)(j := d_pc ?c))"
      using h m by (intro dlock_release [OF D(3)]) (simp_all add: dpc_defs)
    show "dmark_ok ?q ((d_pc \<circ> c)(j := d_pc ?c))"
      using assms(2) by (intro dmark_frame [OF D(4)]) (simp_all add: dpc_defs)
    show "dglob_ok ?q" using D(1) by (simp add: dglob_ok_def)
    show "dcall_ok ?q j ?c" using D(2) [of j] assms(2) by (auto simp: dcall_ok_def dpc_defs)
  qed (use h in \<open>auto simp: dcall_ok_def\<close>)
qed


lemma dcall_pc:
  "dcall_ok q j x \<Longrightarrow> d_pc x \<noteq> DStart \<Longrightarrow> d_pc c' = p \<Longrightarrow>
     p \<notin> {DStart, DNewHead, DExit, DPosUnlock, DDone} \<Longrightarrow> \<not> d_moving p \<Longrightarrow> d_marked p = d_marked (d_pc x) \<Longrightarrow>
     d_loc c' = d_loc x \<Longrightarrow> d_cur c' = d_cur x \<Longrightarrow> dcall_ok q j c'"
  by (simp add: dcall_ok_def)

lemma deq_check_inv:
  assumes "cqs_inv q c" and "j < gq_posted q" and "d_pc (c j) \<in> {DCheck, DRecheck}"
  shows "cqs_inv q (c(j := (c j)\<lparr>d_pc := (if pq_head_mark q (d_pos q (c j)) = LOCKED then DLockOr else DNewHead)\<rparr>))"
    (is "cqs_inv q (c(j := ?c))")
proof -
  note D = cqs_invD [OF assms(1)]
  have j: "j < 2 ^ 32" using assms(2) D(1) by (simp add: dglob_ok_def)
  have pos: "d_pos q (c j) = j mod 2 ^ pq_log2 q" using D(2) [of j] j by (simp add: dcall_ok_def d_pos_mod)
  have "j < gq_hb q" if "pq_head_mark q (d_pos q (c j)) \<noteq> LOCKED"
  proof (rule ccontr)
    assume "\<not> j < gq_hb q"
    then have "j \<in> dmarks q (d_pc \<circ> c) (j mod 2 ^ pq_log2 q)"
      using assms(2,3) by (auto simp: dmarks_def d_marked_def)
    then show False using that D(4) by (auto simp: pos dmark_ok_def)
  qed
  moreover have "d_pc (c j) \<noteq> DStart" "d_marked (d_pc (c j))" "\<not> d_moving (d_pc (c j))"
    using assms(3) by (auto simp: dpc_defs)
  ultimately have "dcall_ok q j ?c" using D(2) [of j] by (simp add: dcall_ok_def dpc_defs)
  then show ?thesis
    using assms(3) by (intro cqs_inv_quiet [OF assms(1), where t = "pq_tail q" and l = "pq_pos_locks q"])
      (auto simp: dpc_defs)
qed

lemma deq_exit_inv:
  assumes "cqs_inv q c" and "j < gq_posted q" and "d_pc (c j) \<in> {DNewHead, DExit, DPosUnlock}"
  shows "cqs_inv (fst (deq_exit (q, c j))) (c(j := snd (deq_exit (q, c j))))"
proof -
  note D = cqs_invD [OF assms(1)]
  have j: "j < 2 ^ 32" using assms(2) D(1) by (simp add: dglob_ok_def)
  note J = D(2) [of j, unfolded dcall_ok_def]
  have hb: "j < gq_hb q" and cur: "d_cur (c j) \<le> pq_head q" and loc: "unat (d_loc (c j)) = j" using J assms(3) j by auto
  have out: "j < unat (pq_head q)" if "d_pc (c j) = DExit" "deq_passed (c j)"
  proof -
    have nh: "d_cur (c j) \<le> d_new_head (c j)" "d_new_head (c j) \<le> pq_head q" using J that(1) by auto
    then have "d_loc (c j) < d_new_head (c j)" using that(2) by (auto simp: deq_passed_def split: if_splits)
    then have "d_loc (c j) < pq_head q" using nh(2) by (rule order_less_le_trans)
    then show ?thesis by (simp add: word_less_nat_alt loc)
  qed
  have "dcall_ok q j (snd (deq_exit (q, c j)))"
    using J assms(3) out by (auto simp: deq_exit_def dcall_ok_def dpc_defs)
  then show ?thesis
    using assms(3) by (intro cqs_inv_quiet [OF assms(1), where t = "pq_tail q"
        and l = "pq_pos_locks (fst (deq_exit (q, c j)))"]) (auto simp: deq_exit_def dpc_defs)
qed

lemma deq_enter_inv:
  assumes "cqs_inv q c" and "j < gq_posted q" and "d_pc (c j) = DStart \<Longrightarrow> d_cur (c j) \<le> pq_head q"
    and "d_pc (c j) \<in> {DStart, DPos1, DPos2}"
  shows "cqs_inv (fst (deq_enter (q, c j))) (c(j := snd (deq_enter (q, c j))))"
proof -
  note J = cqs_invD(2) [OF assms(1), of j, unfolded dcall_ok_def]
  have "dcall_ok q j (snd (deq_enter (q, c j)))"
    using J assms(2-4) by (auto simp: deq_enter_def dcall_ok_def dpc_defs Let_def)
  then show ?thesis
    using assms(4) by (intro cqs_inv_quiet [OF assms(1), where t = "pq_tail (fst (deq_enter (q, c j)))"
        and l = "pq_pos_locks (fst (deq_enter (q, c j)))"]) (auto simp: deq_enter_def dpc_defs Let_def)
qed

lemma deq_move_inv:
  assumes "cqs_inv q c" and "d_pc (c j) \<in> {DLockOr, DHeadLoad, DMove}"
  shows "cqs_inv (fst (deq_move (q, c j))) (c(j := snd (deq_move (q, c j))))"
proof -
  note D = cqs_invD [OF assms(1)]
  consider (busy) "d_pc (c j) = DLockOr" "pq_head_lock q = LOCKED" | (free) "d_pc (c j) = DLockOr" "pq_head_lock q \<noteq> LOCKED"
    | (load) "d_pc (c j) = DHeadLoad" | (move) "d_pc (c j) = DMove" using assms(2) by auto
  then show ?thesis
  proof cases
    case busy
    have e: "deq_move (q, c j) = (q, (c j)\<lparr>d_pc := DRecheck\<rparr>)"
      using busy by (simp add: deq_move_def)
    have "dcall_ok q j ((c j)\<lparr>d_pc := DRecheck\<rparr>)" by (rule dcall_pc [OF D(2) [of j], where p = DRecheck]) (simp_all add: busy dpc_defs)
    then show ?thesis unfolding e fst_conv snd_conv
      by (intro cqs_inv_quiet [OF assms(1), where t = "pq_tail q" and l = "pq_pos_locks q"]) (simp_all add: busy dpc_defs)
  next
    case free
    then show ?thesis using deq_lock_inv [OF assms(1) free] by (simp add: deq_move_def)
  next
    case load
    then show ?thesis using deq_head_load_inv [OF assms(1) load] by (simp add: deq_move_def)
  next
    case move
    have p: "unat ((d_head (c j) + d_count (c j)) AND mask (pq_log2 q)) = gq_hb q mod 2 ^ pq_log2 q"
      using d_moving_facts(3) [OF assms(1), of j] move by (simp add: unat_and_mask dpc_defs)
    show ?thesis
      using deq_claim_inv [OF assms(1) move] deq_stop_inv [OF assms(1) move] move
      by (simp add: deq_move_def Let_def p)
  qed
qed

lemma deq_publish_inv:
  assumes "cqs_inv q c" and "d_pc (c j) \<in> {DSqRelease, DDoorbell, DHeadStore, DUnlock}"
  shows "cqs_inv (fst (deq_publish (q, c j))) (c(j := snd (deq_publish (q, c j))))"
proof (cases "d_pc (c j) = DSqRelease")
  case True
  have "dcall_ok q j ((c j)\<lparr>d_pc := DDoorbell\<rparr>)"
    using cqs_invD(2) [OF assms(1), of j] True by (auto simp: dcall_ok_def dpc_defs)
  then show ?thesis
    using True by (intro cqs_inv_quiet [OF assms(1), where t = "pq_tail q" and l = "pq_pos_locks q"])
      (simp_all add: deq_publish_def Let_def dpc_defs)
next
  case False
  then show ?thesis
    using assms deq_doorbell_inv [of q c j] deq_head_store_inv [of q c j] deq_unlock_inv [of q c j]
    by (auto simp: deq_publish_def Let_def)
qed

lemma deq_step_inv:
  assumes "cqs_inv q c" and "j < gq_posted q" and "d_pc (c j) = DStart \<Longrightarrow> d_cur (c j) \<le> pq_head q"
  shows "cqs_inv (fst (deq_step (q, c j))) (c(j := snd (deq_step (q, c j))))"
proof (cases "d_pc (c j)")
  case DMark
  then show ?thesis using deq_mark_inv [OF assms(1,2)] by (simp add: deq_enter_def Let_def)
next
  case DCheck
  then show ?thesis using deq_check_inv [OF assms(1,2)] by (simp add: deq_check_def)
next
  case DRecheck
  then show ?thesis using deq_check_inv [OF assms(1,2)] by (simp add: deq_check_def)
next
  case DDone
  then show ?thesis using assms(1) by simp
qed (use deq_enter_inv [OF assms] deq_exit_inv [OF assms(1,2)] deq_move_inv [OF assms(1), of j]
      deq_publish_inv [OF assms(1), of j] in simp_all)

lemma cqs_inv_post:
  assumes "cqs_inv q c" and "gq_posted q + 1 < gq_ann q + 2 ^ pq_log2 q" and "gq_posted q + 1 < 2 ^ 32"
  shows "cqs_inv (q\<lparr>gq_posted := gq_posted q + 1\<rparr>) c" (is "cqs_inv ?q c")
proof -
  note D = cqs_invD [OF assms(1)]
  have "d_pc (c (gq_posted q)) = DStart" using D(2) [of "gq_posted q"] by (auto simp: dcall_ok_def)
  then have "dmarks ?q (d_pc \<circ> c) p = dmarks q (d_pc \<circ> c) p" for p
    by (auto simp: dmarks_def d_marked_def less_Suc_eq)
  then have "dmark_ok ?q (d_pc \<circ> c)" using D(4) by (simp add: dmark_ok_def)
  moreover have "\<forall>j. dcall_ok ?q j (c j)"
  proof
    fix j show "dcall_ok ?q j (c j)" using D(2) [of j] unfolding dcall_ok_def by (simp add: less_SucI)
  qed
  moreover have "dglob_ok ?q" using D(1) assms(2,3) by (simp add: dglob_ok_def)
  moreover have "dlock_ok ?q (d_pc \<circ> c)" using D(3) by (auto simp: dlock_ok_def)
  ultimately show ?thesis by (simp add: cqs_inv_def)
qed

lemma cqs_inv_init: "cqs_init (q, c) \<Longrightarrow> cqs_inv q c"
  by (auto simp: cqs_init_def cqs_inv_def dglob_ok_def dcall_ok_def dlock_ok_def dmark_ok_def dmarks_def dpc_defs)

lemma cqs_inv_reachable:
  "cqs_step\<^sup>*\<^sup>* S S' \<Longrightarrow> cqs_inv (fst S) (snd S) \<Longrightarrow> cqs_inv (fst S') (snd S')"
proof (induction rule: rtranclp_induct)
  case (step y z)
  show ?case
    using step.hyps(2) step.IH [OF step.prems] deq_step_inv cqs_inv_post
    by (cases rule: cqs_step.cases) (metis fst_conv snd_conv)+
qed


section \<open>Properties\<close>

text \<open>C26: \<open>cq_try_poll\<close> finds exactly the outstanding completions: on a completion queue whose
  completions \<open>c .. p - 1\<close> are posted and unreleased, it answers the first of them that carries
  the searched identifier (its position, absolute number and the head), and nothing if there is
  none.  Stale entries of earlier rounds are never taken for new ones.\<close>

theorem cq_try_poll_finds:
  assumes "cq_rep q c p cids"
  shows "cq_try_poll q cid =
     map_option (\<lambda>j. (j mod 2 ^ pq_log2 q, of_nat j, pq_head q)) (List.find (\<lambda>j. cids j = cid) [c..<p])"
  using cq_scan_find [OF assms, of 0] assms by (simp add: cq_try_poll_def cq_rep_def)

definition witness_pcq :: pcq where
  "witness_pcq = \<lparr>pq_log2 = 1, pq_head = 1, pq_tail = 0, pq_dw2 = (\<lambda>_. 0),
     pq_dw3 = (\<lambda>p. if p = 1 then 0x10007 else 0x10003), pq_head_lock = 0, pq_head_mark = (\<lambda>_. UNLOCKED),
     pq_pos_locks = (\<lambda>_. 0), pq_db = 0\<rparr>"

lemma witness_pcq_rep: "cq_rep witness_pcq 1 2 (\<lambda>_. 7)"
proof -
  have i: "1 \<le> i \<and> i < 2 \<longleftrightarrow> i = (1::nat)" for i by auto
  show ?thesis unfolding cq_rep_def i
    by (simp add: witness_pcq_def entry_cid_def entry_phase_def)
qed

theorem cq_try_poll_finds_witness: "cq_try_poll witness_pcq 7 = Some (1, 1, 1)"
  using cq_try_poll_finds [OF witness_pcq_rep, of 7] by (simp add: witness_pcq_def upt_rec)

text \<open>C25: \<open>cq_poll\<close> returns as soon as the completion is there: if the scans 0 to \<open>k - 1\<close> see
  no outstanding completion with the identifier and scan \<open>k\<close> sees completion \<open>j\<close> as the first
  one, the polling loop ends with \<open>j\<close>.\<close>

theorem cq_poll_returns:
  assumes "\<forall>i \<le> k. cq_rep (qs i) (c i) (p i) (cids i)"
    and "\<forall>i < k. \<forall>j. c i \<le> j \<and> j < p i \<longrightarrow> cids i j \<noteq> cid"
    and "List.find (\<lambda>j. cids k j = cid) [c k..<p k] = Some j"
  shows "cq_poll qs 0 cid = Some (j mod 2 ^ pq_log2 (qs k), of_nat j, pq_head (qs k))"
proof -
  have sc: "cq_scan (qs i) cid (pq_head (qs i)) 0 =
      map_option (\<lambda>j. (j mod 2 ^ pq_log2 (qs i), of_nat j, pq_head (qs i)))
        (List.find (\<lambda>j. cids i j = cid) [c i..<p i])" if "i \<le> k" for i
    using cq_scan_find [of "qs i" "c i" "p i" "cids i" 0 cid] assms(1) that by (simp add: cq_rep_def)
  have "i \<le> k \<Longrightarrow> cq_poll qs (k - i) cid = Some (j mod 2 ^ pq_log2 (qs k), of_nat j, pq_head (qs k))" for i
  proof (induction i)
    case 0
    then show ?case using assms(3) sc [of k] by (simp add: cq_poll.simps)
  next
    case (Suc i)
    have "List.find (\<lambda>j. cids (k - Suc i) j = cid) [c (k - Suc i)..<p (k - Suc i)] = None"
      using assms(2) Suc.prems by (auto simp: find_None_iff)
    then have "cq_poll qs (k - Suc i) cid = cq_poll qs (k - Suc i + 1) cid"
      using sc [of "k - Suc i"] by (subst cq_poll.simps) simp
    moreover have "k - Suc i + 1 = k - i" using Suc.prems by simp
    ultimately show ?case using Suc by simp
  qed
  from this [of k] show ?thesis by simp
qed

theorem cq_poll_returns_witness: "cq_poll (\<lambda>_. witness_pcq) 0 7 = Some (1, 1, 1)"
  using cq_poll_returns [of 0 "\<lambda>_. witness_pcq" "\<lambda>_. 1" "\<lambda>_. 2" "\<lambda>_ _. 7" 7 1] witness_pcq_rep
  by (simp add: witness_pcq_def upt_rec)

text \<open>C29: Command identifiers are exclusive: starting from a pool with all identifiers free, under
  every interleaving of the atomic steps of any number of threads that allocate with \<open>get_cid\<close>
  and give back with \<open>put_cid\<close>, no two threads hold the same identifier.\<close>

theorem get_cid_exclusive:
  assumes "\<forall>d. cp_cid p0 d = UNLOCKED" and "cid_run\<^sup>*\<^sup>* (p0, \<lambda>_. CDraw) (p, c)"
    and "c i = CHold d" and "c j = CHold d"
  shows "i = j"
  using cid_run_inv [OF assms(2,1)] assms(3,4) by blast

theorem get_cid_exclusive_witness:
  "\<exists>p c. cid_run\<^sup>*\<^sup>* (\<lparr>cp_ticket = 0, cp_cid = \<lambda>_. UNLOCKED\<rparr>, \<lambda>_. CDraw) (p, c) \<and> c 0 = CHold 0 \<and>
         (\<forall>j. c j = CHold 0 \<longrightarrow> j = 0)"
proof -
  let ?p0 = "\<lparr>cp_ticket = 0, cp_cid = \<lambda>_. UNLOCKED\<rparr>"
  let ?c1 = "(\<lambda>_. CDraw)(0 :: nat := COr 0)" and ?p1 = "\<lparr>cp_ticket = 1, cp_cid = \<lambda>_. UNLOCKED\<rparr>"
  let ?c2 = "?c1(0 := CHold 0)" and ?p2 = "\<lparr>cp_ticket = 1, cp_cid = (\<lambda>_. UNLOCKED)(0 := LOCKED)\<rparr>"
  have s1: "cid_run (?p0, \<lambda>_. CDraw) (?p1, ?c1)"
    by (rule cid_run.intros) (simp add: cid_step_def cid_of_ticket_def)
  have s2: "cid_run (?p1, ?c1) (?p2, ?c2)"
    by (rule cid_run.intros) (simp add: cid_step_def LOCKED_def UNLOCKED_def fun_upd_def)
  have r: "cid_run\<^sup>*\<^sup>* (?p0, \<lambda>_. CDraw) (?p2, ?c2)"
    using s1 s2 by (meson converse_rtranclp_into_rtranclp rtranclp.rtrancl_refl)
  have free: "\<forall>d. cp_cid ?p0 d = UNLOCKED" by simp
  have "j = 0" if "?c2 j = CHold 0" for j
  proof -
    have "?c2 0 = CHold 0" by (rule fun_upd_same)
    with get_cid_exclusive [where c = ?c2 and i = j and j = 0 and d = 0, OF free r that] show ?thesis .
  qed
  then have "\<forall>j. ?c2 j = CHold 0 \<longrightarrow> j = 0" by blast
  moreover have "?c2 0 = CHold 0" by (rule fun_upd_same)
  ultimately show ?thesis using r by blast
qed

text \<open>\<open>get_cid\<close> running alone always returns while one of the 65536 identifiers is free: it
  answers a free identifier, locks exactly that one and leaves the others alone.\<close>

theorem get_cid_total:
  assumes "pool_ok p" and "d < 65536" and "cp_cid p d = UNLOCKED"
  shows "\<exists>p' e. get_cid p = Some (p', e) \<and> e < 65536 \<and> cp_cid p e = UNLOCKED \<and>
            cp_cid p' = (cp_cid p)(e := LOCKED)"
  by (rule get_cid_returns [OF assms])

theorem get_cid_total_witness:
  "\<exists>p' e. get_cid \<lparr>cp_ticket = 3, cp_cid = (\<lambda>i. if i = 3 then LOCKED else UNLOCKED)\<rparr> = Some (p', e) \<and> e \<noteq> 3"
proof -
  let ?p = "\<lparr>cp_ticket = 3, cp_cid = (\<lambda>i. if i = 3 then LOCKED else UNLOCKED)\<rparr>"
  have "pool_ok ?p" "cp_cid ?p 5 = UNLOCKED" by (simp_all add: pool_ok_def)
  then obtain p' e where "get_cid ?p = Some (p', e)" "cp_cid ?p e = UNLOCKED"
    using get_cid_total [of ?p 5] by auto
  then show ?thesis by (auto split: if_splits)
qed

text \<open>C27: \<open>move_head_cq\<close> terminates and does its work: when the \<open>k\<close> completions from the head on are
  marked and the next is not, it takes exactly these \<open>k\<close> marks, reports \<open>k\<close>, and releases to
  the submission side exactly the \<open>d\<close> slots from the old head up to the head position reported
  in the last of these completions: each of their turn counters goes up by one, no other does,
  and the submission head advances by \<open>d\<close>.\<close>

theorem move_head_cq_effect:
  assumes "pq_log2 q \<le> 16" and "ps_log2 sq \<le> 16" and "0 < k" and "k < 2 ^ pq_log2 q"
    and "unat cur_head + k < 2 ^ 32"
    and "\<forall>j < k. pq_head_mark q ((unat cur_head + j) mod 2 ^ pq_log2 q) = LOCKED"
    and "pq_head_mark q ((unat cur_head + k) mod 2 ^ pq_log2 q) = UNLOCKED"
    and "unat (pq_dw2 q ((unat cur_head + (k - 1)) mod 2 ^ pq_log2 q) AND 0xffff) =
           (unat (ps_head sq) + d) mod 2 ^ ps_log2 sq"
    and "d < 2 ^ ps_log2 sq"
  shows "\<exists>q' sq'. move_head_cq q cur_head sq = Some (q', sq', of_nat k) \<and>
     (\<forall>p. pq_head_mark q' p = (if \<exists>j < k. p = (unat cur_head + j) mod 2 ^ pq_log2 q then UNLOCKED else pq_head_mark q p)) \<and>
     ps_head sq' = ps_head sq + of_nat d \<and>
     (\<forall>p. ps_tickets sq' p = ps_tickets sq p +
        (if \<exists>j < d. p = (unat (ps_head sq) + j) mod 2 ^ ps_log2 sq then 1 else 0))"
proof -
  let ?Q = "2 ^ pq_log2 q :: nat" and ?R = "2 ^ ps_log2 sq :: nat"
  have Q: "?Q \<le> 65536" "?R \<le> 65536"
    using power_increasing [OF assms(1), of "2 :: nat"] power_increasing [OF assms(2), of "2 :: nat"] by simp_all
  define mk where "mk = (\<lambda>p. if \<exists>j < k. p = (unat cur_head + j) mod ?Q then UNLOCKED else pq_head_mark q p)"
  have r: "mark_run q cur_head 0 = (q\<lparr>pq_head_mark := mk\<rparr>, of_nat k)"
    using mark_run_length [of q cur_head 0 k] Q(1) assms(4-7) by (simp add: mk_def)
  have kk: "k < 65536" using assms(4) Q(1) by linarith
  then have k1: "unat (of_nat k :: u32) = k" by (simp add: unat_of_nat)
  then have kn: "(of_nat k :: u32) \<noteq> 0" using assms(3) by auto
  have "unat (of_nat k - 1 :: u32) = k - 1" using unat_minus_one [OF kn] k1 by simp
  then have "unat (cur_head + (of_nat k - 1)) = unat cur_head + (k - 1)"
    using assms(5) by (subst unat_add_bounded) simp_all
  then have loc: "cq_loc q (cur_head + (of_nat k - 1)) = (unat cur_head + (k - 1)) mod ?Q" by (simp add: cq_loc_mod)
  define n where "n = (ucast (pq_dw2 q ((unat cur_head + (k - 1)) mod ?Q) AND 0xffff) :: u16)"
  have n: "unat n = (unat (ps_head sq) + d) mod ?R"
  proof -
    have "(unat (ps_head sq) + d) mod ?R < ?R" by simp
    then have "(unat (ps_head sq) + d) mod ?R < 65536" using Q(2) by linarith
    then show ?thesis using assms(8) by (simp add: n_def unat_ucast_mod)
  qed
  have h: "unat (ps_head sq AND qs_minus_1 sq) = unat (ps_head sq) mod ?R" by (rule qs_mask_mod)
  define sq' where "sq' = sq\<lparr>ps_head := ps_head sq + of_nat d,
    ps_tickets := (\<lambda>p. ps_tickets sq p + (if \<exists>j < d. p = (unat (ps_head sq) + j) mod ?R then 1 else 0))\<rparr>"
  have "move_head_cq q cur_head sq = Some (q\<lparr>pq_head_mark := mk\<rparr>, sq', of_nat k)"
  proof (cases "d = 0")
    case True
    then have "release_start n 0 sq = None"
      using n h by (simp add: release_start_def unat_eq_iff unat_ucast_up)
    moreover have "sq' = sq" by (simp add: sq'_def True)
    ultimately show ?thesis using r kn loc by (simp add: move_head_cq_def Let_def n_def)
  next
    case False
    let ?m = "\<lparr>mv_loc = ps_head sq AND qs_minus_1 sq, mv_count = 0, mv_new = n, mv_goal = 0\<rparr>"
    have "unat (ps_head sq) mod ?R \<noteq> (unat (ps_head sq) + d) mod ?R"
      using mod_window_inj [of "unat (ps_head sq)" 0 ?R d] False assms(9) by auto
    then have st: "release_start n 0 sq = Some ?m"
      using n h by (simp add: release_start_def Let_def unat_eq_iff unat_ucast_up)
    have "release_loop sq ?m = Some (sq\<lparr>ps_head := ps_head sq + (mv_count ?m + of_nat d),
      ps_tickets := (\<lambda>p. ps_tickets sq p + (if \<exists>j < d. p = (unat (mv_loc ?m) + j) mod 2 ^ ps_log2 sq then 1 else 0))\<rparr>)"
      using assms(2,9) n h by (intro release_loop_run) (simp_all add: mod_simps)
    then have "release_loop sq ?m = Some sq'" by (simp add: sq'_def h mod_simps)
    then show ?thesis using r kn loc st by (simp add: move_head_cq_def Let_def n_def)
  qed
  then show ?thesis by (auto simp: sq'_def mk_def)
qed

definition witness_mark_cq :: pcq where
  "witness_mark_cq = witness_pcq\<lparr>pq_head_mark := (\<lambda>p. if p = 1 then LOCKED else UNLOCKED), pq_dw2 := (\<lambda>_. 2)\<rparr>"

theorem move_head_cq_effect_witness:
  "\<exists>q' sq'. move_head_cq witness_mark_cq 1 witness_psq = Some (q', sq', 1) \<and> ps_head sq' = 2 \<and>
     ps_tickets sq' 0 = 1 \<and> ps_tickets sq' 2 = 0"
proof -
  have e: "(\<exists>j < 2. p = j mod 4) \<longleftrightarrow> p = 0 \<or> p = (1::nat)" for p by (auto simp: less_2_cases_iff)
  show ?thesis
    using move_head_cq_effect [of witness_mark_cq witness_psq 1 1 2]
    by (auto simp: witness_mark_cq_def witness_pcq_def witness_psq_def e)
qed

text \<open>C19: The head doorbell is safe: under every interleaving of device posts and of the atomic
  steps of \<open>cq_dequeue\<close> by the consumers of all completions, a completion is acknowledged to
  the device, and its slot given back, only after its consumer has marked it; a call returns
  only after its completion is behind the head; the doorbell holds the number acknowledged
  modulo the queue size; and one call at a time moves the head.\<close>

theorem cq_dequeue_safe:
  assumes "cqs_init S0" and "cqs_step\<^sup>*\<^sup>* S0 (q, c)"
  shows "(\<forall>j < gq_ann q. d_marked (d_pc (c j))) \<and>
         (\<forall>j. d_pc (c j) = DDone \<longrightarrow> j < unat (pq_head q)) \<and>
         unat (pq_db q) = gq_ann q mod 2 ^ pq_log2 q \<and>
         (\<forall>i j. d_holds (d_pc (c i)) \<and> d_holds (d_pc (c j)) \<longrightarrow> i = j)"
proof -
  have I: "cqs_inv q c"
    using cqs_inv_reachable [OF assms(2)] cqs_inv_init [of "fst S0" "snd S0"] assms(1) by simp
  note D = cqs_invD [OF I]
  have "d_marked (d_pc (c j))" if "j < gq_ann q" for j
    using D(1) D(2) [of j] that by (auto simp: dglob_ok_def dcall_ok_def)
  moreover have "j < unat (pq_head q)" if "d_pc (c j) = DDone" for j
    using D(2) [of j] that by (simp add: dcall_ok_def)
  ultimately show ?thesis using D(1,3) by (auto simp: dglob_ok_def dlock_ok_def)
qed


text \<open>The consumer of completion 0 running alone, as steps of the system.\<close>

lemma deq_step_keeps:
  "d_pc (snd (deq_step (q, c))) \<noteq> DStart" "gq_posted (fst (deq_step (q, c))) = gq_posted q"
  by (cases "d_pc c"; simp add: deq_enter_def deq_check_def deq_move_def deq_publish_def deq_exit_def Let_def)+

lemma deq_solo_steps:
  "0 < gq_posted q \<Longrightarrow> (d_pc (c 0) = DStart \<Longrightarrow> d_cur (c 0) \<le> pq_head q) \<Longrightarrow>
   cqs_step\<^sup>*\<^sup>* (q, c) (fst ((deq_step ^^ k) (q, c 0)), c(0 := snd ((deq_step ^^ k) (q, c 0))))"
proof (induction k arbitrary: q c)
  case (Suc k)
  obtain q' c' where e: "deq_step (q, c 0) = (q', c')" by force
  have k: "d_pc c' \<noteq> DStart" "gq_posted q' = gq_posted q" using deq_step_keeps [of q "c 0"] e by simp_all
  have "cqs_step (q, c) (q', c(0 := c'))" using cqs_step.call [where j = 0 and q = q and c = c, OF Suc.prems e] .
  moreover have "cqs_step\<^sup>*\<^sup>* (q', c(0 := c')) (fst ((deq_step ^^ k) (q', (c(0 := c')) 0)),
      (c(0 := c'))(0 := snd ((deq_step ^^ k) (q', (c(0 := c')) 0))))"
    using k Suc.prems(1) by (intro Suc.IH) simp_all
  ultimately have "cqs_step\<^sup>*\<^sup>* (q, c) (fst ((deq_step ^^ k) (q', c')), c(0 := snd ((deq_step ^^ k) (q', c'))))"
    by (simp add: converse_rtranclp_into_rtranclp)
  then show ?case by (simp add: funpow_Suc_right e del: funpow.simps deq_step.simps fun_upd_apply)
qed simp

definition witness_dcq :: dcq where
  "witness_dcq = \<lparr>pq_log2 = 1, pq_head = 0, pq_tail = 0, pq_dw2 = (\<lambda>_. 0), pq_dw3 = (\<lambda>_. 0), pq_head_lock = UNLOCKED,
     pq_head_mark = (\<lambda>_. UNLOCKED), pq_pos_locks = (\<lambda>_. 0), pq_db = 0, gq_posted = 0, gq_hb = 0, gq_ann = 0\<rparr>"

definition witness_dcall :: "nat \<Rightarrow> deq_call" where
  "witness_dcall j = \<lparr>d_pc = DStart, d_loc = of_nat j, d_cur = 0, d_head = 0, d_count = 0, d_new_head = 0\<rparr>"

theorem cq_dequeue_safe_witness:
  "\<exists>q c. cqs_step\<^sup>*\<^sup>* (witness_dcq, witness_dcall) (q, c) \<and> d_pc (c 0) = DDone \<and> 0 < unat (pq_head q)"
proof -
  let ?q = "witness_dcq\<lparr>gq_posted := 1\<rparr>"
  let ?r = "(deq_step ^^ 17) (?q, witness_dcall 0)"
  have i: "cqs_init (witness_dcq, witness_dcall)"
    by (simp add: cqs_init_def witness_dcq_def witness_dcall_def unat_of_nat)
  have "cqs_step (witness_dcq, witness_dcall) (witness_dcq\<lparr>gq_posted := gq_posted witness_dcq + 1\<rparr>, witness_dcall)"
    by (rule cqs_step.post) (simp_all add: witness_dcq_def)
  then have p: "cqs_step (witness_dcq, witness_dcall) (?q, witness_dcall)" by (simp add: witness_dcq_def)
  have "cqs_step\<^sup>*\<^sup>* (?q, witness_dcall) (fst ?r, witness_dcall(0 := snd ?r))"
    by (rule deq_solo_steps) (simp_all add: witness_dcall_def)
  then have r: "cqs_step\<^sup>*\<^sup>* (witness_dcq, witness_dcall) (fst ?r, witness_dcall(0 := snd ?r))"
    using p by (rule converse_rtranclp_into_rtranclp [rotated])
  have d: "d_pc (snd ?r) = DDone"
    by (simp add: eval_nat_numeral funpow_swap1 witness_dcq_def witness_dcall_def deq_enter_def deq_check_def deq_move_def
        deq_publish_def deq_exit_def deq_passed_def d_pos_def LOCKED_def UNLOCKED_def)
  then have "0 < unat (pq_head (fst ?r))" using cq_dequeue_safe [OF i r] by (auto dest: spec [of _ 0])
  then show ?thesis using r d by (intro exI [of _ "fst ?r"] exI [of _ "witness_dcall(0 := snd ?r)"]) simp
qed

end
