(* ===== verification/Page_Cache.thy ===== *)
theory Page_Cache
  imports Par_Cq
begin

text \<open>
  The page cache (\<open>include/page_cache.h\<close>): page state words, the placement of pages on the
  controllers, the data transfers \<open>read_data\<close> and \<open>write_data\<close>, the slot allocator
  \<open>find_slot\<close> with its eviction and write-back, and the synchronous \<open>acquire_page\<close> and
  \<open>release_page\<close>, \<open>__flush\<close> and \<open>clear_cache_safe\<close>.  A call is one step here: it runs from
  its first to its last access without another thread.  A loop that would spin has the value
  \<open>None\<close>.

  The state of the device side is part of the record: \<open>disk\<close> holds the blocks of each
  controller and \<open>frame\<close> the cache memory, by the bus address of a slot and the block inside the
  slot.  \<open>device_exec\<close> is what an NVMe controller does with a read or write command, decoded
  from the sixteen words the driver built; the transport of the command through the queues is the
  subject of \<open>Par_Sq\<close> and \<open>Par_Cq\<close>.
\<close>

section \<open>Constants\<close>

definition FREE :: u32 where "FREE = 2"
definition no_reuse :: u64 where "no_reuse = 0xFFFF000000000000"
definition ALL_CTRLS :: u64 where "ALL_CTRLS = 0xffffffffffffffff"

datatype data_dist_t = REPLICATE | STRIPE

definition INVALID :: u32 where "INVALID = 0"
definition VALID :: u32 where "VALID = 0x80000000"
definition BUSY :: u32 where "BUSY = 0x40000000"
definition DIRTY :: u32 where "DIRTY = 0x20000000"
definition CNT_SHIFT :: nat where "CNT_SHIFT = 29"
definition CNT_MASK :: u32 where "CNT_MASK = 0x1fffffff"
definition DISABLE_BUSY_ENABLE_VALID :: u32 where "DISABLE_BUSY_ENABLE_VALID = 0xc0000000"
definition DISABLE_BUSY_MASK :: u32 where "DISABLE_BUSY_MASK = 0xbfffffff"
definition NV_NB :: u32 where "NV_NB = 0"
definition NV_B :: u32 where "NV_B = 1"
definition V_NB :: u32 where "V_NB = 2"
definition V_B :: u32 where "V_B = 3"

lemmas state_consts [nvm_defs] =
  INVALID_def VALID_def BUSY_def DIRTY_def CNT_SHIFT_def CNT_MASK_def DISABLE_BUSY_ENABLE_VALID_def
  DISABLE_BUSY_MASK_def NV_NB_def NV_B_def V_NB_def V_B_def

section \<open>State\<close>

record data_page_t =
  dp_state :: u32
  dp_ref_count :: u32
  dp_polling_flag :: u32
  dp_offset :: u32
  dp_prefetch_count :: u8
  dp_prefetch_counter :: u8
  dp_cpu_feature_offset :: u32

record cache_page_t =
  page_take_lock :: u32
  page_translation :: u64
  next_reuse :: u64
  reuse_chunk :: "u64 list"

text \<open>
  The fields of \<open>page_cache_d_t\<close>, of the ranges added to it (\<open>range_d_t\<close>, by range identifier)
  and of the controllers it drives (by controller number, and queue pair).  \<open>pc_local_cmd\<close> is
  the content of the uninitialised local \<open>nvm_cmd_t cmd\<close> of the transfer functions.
\<close>

record 'b page_cache =
  pc_base_addr :: u64
  pc_page_size :: u64
  pc_page_size_log :: u64
  pc_n_pages :: u64
  pc_cache_pages :: "u32 \<Rightarrow> cache_page_t"
  pc_page_ticket :: u32
  pc_prp1 :: "u64 \<Rightarrow> u64"
  pc_prp2 :: "u64 \<Rightarrow> u64"
  pc_prps :: bool
  pc_n_ranges :: u64
  pc_n_ranges_bits :: u64
  pc_n_ranges_mask :: u64
  pc_ranges :: "u64 \<Rightarrow> u64 \<Rightarrow> data_page_t"
  pc_page_starts :: "u64 \<Rightarrow> u64"
  pc_page_counts :: "u64 \<Rightarrow> u64"
  pc_dists :: "u64 \<Rightarrow> data_dist_t"
  pc_access_cnt :: "u64 \<Rightarrow> u64"
  pc_miss_cnt :: "u64 \<Rightarrow> u64"
  pc_hit_cnt :: "u64 \<Rightarrow> u64"
  pc_ctrl_counter :: u64
  pc_q_tail :: u64
  pc_n_ctrls :: u64
  pc_n_blocks_per_page :: u64
  pc_n_qps :: "u64 \<Rightarrow> u32"
  pc_access_counter :: "u64 \<Rightarrow> u64"
  pc_namespace :: u32
  pc_cids :: "u64 \<Rightarrow> u32 \<Rightarrow> cid_pool"
  pc_local_cmd :: nvm_cmd_t
  disk :: "u64 \<Rightarrow> u64 \<Rightarrow> 'b"
  frame :: "u64 \<Rightarrow> nat \<Rightarrow> 'b"

definition page_of :: "'b page_cache \<Rightarrow> u64 \<Rightarrow> u64 \<Rightarrow> data_page_t" where
  "page_of pc r pg = pc_ranges pc r pg"

definition upd_page :: "u64 \<Rightarrow> u64 \<Rightarrow> (data_page_t \<Rightarrow> data_page_t) \<Rightarrow> 'b page_cache \<Rightarrow> 'b page_cache" where
  "upd_page r pg f pc = pc\<lparr>pc_ranges := (pc_ranges pc)(r := (pc_ranges pc r)(pg := f (pc_ranges pc r pg)))\<rparr>"

definition upd_state :: "u64 \<Rightarrow> u64 \<Rightarrow> (u32 \<Rightarrow> u32) \<Rightarrow> 'b page_cache \<Rightarrow> 'b page_cache" where
  "upd_state r pg f = upd_page r pg (\<lambda>p. p\<lparr>dp_state := f (dp_state p)\<rparr>)"

definition upd_slot :: "u32 \<Rightarrow> (cache_page_t \<Rightarrow> cache_page_t) \<Rightarrow> 'b page_cache \<Rightarrow> 'b page_cache" where
  "upd_slot s f pc = pc\<lparr>pc_cache_pages := (pc_cache_pages pc)(s := f (pc_cache_pages pc s))\<rparr>"

section \<open>Placement\<close>

definition backing_page :: "u64 \<Rightarrow> u64 \<Rightarrow> u64 \<Rightarrow> data_dist_t \<Rightarrow> u64" where
  "backing_page page_start page_offset n_ctrls dist =
     (case dist of STRIPE \<Rightarrow> page_start + page_offset div n_ctrls
                 | REPLICATE \<Rightarrow> page_start + page_offset)"

definition backing_ctrl :: "u64 \<Rightarrow> u64 \<Rightarrow> data_dist_t \<Rightarrow> u64" where
  "backing_ctrl page_offset n_ctrls dist =
     (case dist of STRIPE \<Rightarrow> page_offset mod n_ctrls | REPLICATE \<Rightarrow> ALL_CTRLS)"

definition get_backing_page :: "'b page_cache \<Rightarrow> u64 \<Rightarrow> u64 \<Rightarrow> u64" where
  "get_backing_page pc r page_offset =
     backing_page (pc_page_starts pc r) page_offset (pc_n_ctrls pc) (pc_dists pc r)"

definition get_backing_ctrl :: "'b page_cache \<Rightarrow> u64 \<Rightarrow> u64 \<Rightarrow> u64" where
  "get_backing_ctrl pc r page_offset = backing_ctrl page_offset (pc_n_ctrls pc) (pc_dists pc r)"

definition get_global_address :: "'b page_cache \<Rightarrow> u64 \<Rightarrow> u64 \<Rightarrow> u64" where
  "get_global_address pc range_id page = push_bit (unat (pc_n_ranges_bits pc)) page OR range_id"

definition get_cache_page_addr :: "'b page_cache \<Rightarrow> u32 \<Rightarrow> u64" where
  "get_cache_page_addr pc page_trans = pc_base_addr pc + ucast page_trans * pc_page_size pc"

text \<open>How \<open>find_slot\<close> and \<open>__flush\<close> take a global address apart.\<close>

definition addr_range :: "'b page_cache \<Rightarrow> u64 \<Rightarrow> u64" where
  "addr_range pc ga = ga AND pc_n_ranges_mask pc"

definition addr_page :: "'b page_cache \<Rightarrow> u64 \<Rightarrow> u64" where
  "addr_page pc ga = drop_bit (unat (pc_n_ranges_bits pc)) ga"

section \<open>Data transfers\<close>

definition rw_cmd :: "'b page_cache \<Rightarrow> u16 \<Rightarrow> u8 \<Rightarrow> u64 \<Rightarrow> u64 \<Rightarrow> u64 \<Rightarrow> nvm_cmd_t" where
  "rw_cmd pc cid opcode starting_lba n_blocks pc_entry =
     (let cmd = nvm_cmd_header (pc_local_cmd pc) cid opcode (pc_namespace pc);
          prp1 = pc_prp1 pc pc_entry;
          prp2 = (if pc_prps pc then pc_prp2 pc pc_entry else 0);
          cmd = nvm_cmd_data_ptr cmd prp1 prp2
      in nvm_cmd_rw_blks cmd starting_lba (ucast n_blocks))"

definition device_exec :: "u64 \<Rightarrow> nvm_cmd_t \<Rightarrow> 'b page_cache \<Rightarrow> 'b page_cache" where
  "device_exec ctrl cmd pc =
     (let n = cmd_nlb cmd; lba = cmd_slba cmd; a = cmd_prp1 cmd in
      if cmd_opc cmd = ucast (io_opcode NVM_IO_READ) then
        pc\<lparr>frame := (frame pc)(a := \<lambda>k. if k < n then disk pc ctrl (lba + of_nat k) else frame pc a k)\<rparr>
      else if cmd_opc cmd = ucast (io_opcode NVM_IO_WRITE) then
        pc\<lparr>disk := (disk pc)(ctrl := \<lambda>l. if unat (l - lba) < n then frame pc a (unat (l - lba)) else disk pc ctrl l)\<rparr>
      else pc)"

definition set_cids :: "u64 \<Rightarrow> u32 \<Rightarrow> cid_pool \<Rightarrow> 'b page_cache \<Rightarrow> 'b page_cache" where
  "set_cids ctrl queue p pc = pc\<lparr>pc_cids := (pc_cids pc)(ctrl := (pc_cids pc ctrl)(queue := p))\<rparr>"

text \<open>
  One transfer through queue pair \<open>queue\<close> of controller \<open>ctrl\<close>: identifier, command, submission
  and completion, accounting, identifier back.  \<open>access_data\<close> leaves \<open>q_tail\<close> alone.
\<close>

definition access_data :: "'b page_cache \<Rightarrow> u64 \<Rightarrow> u32 \<Rightarrow> u64 \<Rightarrow> u64 \<Rightarrow> u64 \<Rightarrow> u8 \<Rightarrow> 'b page_cache option" where
  "access_data pc ctrl queue starting_lba n_blocks pc_entry opcode =
     (case get_cid (pc_cids pc ctrl queue) of
        None \<Rightarrow> None
      | Some (p, cid) \<Rightarrow>
          (let cmd = rw_cmd pc (of_nat cid) opcode starting_lba n_blocks pc_entry;
               pc1 = set_cids ctrl queue p pc;
               pc2 = device_exec ctrl cmd pc1
           in Some (set_cids ctrl queue (put_cid cid (pc_cids pc2 ctrl queue)) pc2)))"

definition read_data :: "'b page_cache \<Rightarrow> u64 \<Rightarrow> u32 \<Rightarrow> u64 \<Rightarrow> u64 \<Rightarrow> u64 \<Rightarrow> 'b page_cache option" where
  "read_data pc ctrl queue starting_lba n_blocks pc_entry =
     map_option (\<lambda>pc1. pc1\<lparr>pc_q_tail := pc_q_tail pc1 + 1\<rparr>)
       (access_data pc ctrl queue starting_lba n_blocks pc_entry (ucast (io_opcode NVM_IO_READ)))"

definition write_data :: "'b page_cache \<Rightarrow> u64 \<Rightarrow> u32 \<Rightarrow> u64 \<Rightarrow> u64 \<Rightarrow> u64 \<Rightarrow> 'b page_cache option" where
  "write_data pc ctrl queue starting_lba n_blocks pc_entry =
     map_option (\<lambda>pc1. pc1\<lparr>pc_q_tail := pc_q_tail pc1 + 1\<rparr>)
       (access_data pc ctrl queue starting_lba n_blocks pc_entry (ucast (io_opcode NVM_IO_WRITE)))"

section \<open>Eviction and write-back\<close>

text \<open>The write of a dirty page back to the controller that holds it, or to all of them.\<close>

fun write_all :: "'b page_cache \<Rightarrow> u32 \<Rightarrow> u64 \<Rightarrow> u64 \<Rightarrow> nat \<Rightarrow> nat \<Rightarrow> 'b page_cache option" where
  "write_all pc queue lba entry ctrl 0 = Some pc"
| "write_all pc queue lba entry ctrl (Suc n) =
     (case write_data pc (of_nat ctrl) (queue mod pc_n_qps pc (of_nat ctrl)) lba (pc_n_blocks_per_page pc) entry of
        None \<Rightarrow> None
      | Some pc1 \<Rightarrow> write_all pc1 queue lba entry (ctrl + 1) n)"

definition write_back :: "'b page_cache \<Rightarrow> u32 \<Rightarrow> u32 \<Rightarrow> u64 \<Rightarrow> u64 \<Rightarrow> 'b page_cache option" where
  "write_back pc queue page r pg =
     (let ctrl = backing_ctrl pg (pc_n_ctrls pc) (pc_dists pc r);
          index = backing_page (pc_page_starts pc r) pg (pc_n_ctrls pc) (pc_dists pc r);
          lba = index * pc_n_blocks_per_page pc
      in if ctrl = ALL_CTRLS then write_all pc queue lba (ucast page) 0 (unat (pc_n_ctrls pc))
         else write_data pc ctrl (queue mod pc_n_qps pc ctrl) lba (pc_n_blocks_per_page pc) (ucast page))"

text \<open>
  The eviction attempt on the page that occupies slot \<open>page\<close>; the answer says whether the slot
  is free for the caller (\<open>!fail\<close>).
\<close>

definition try_evict :: "'b page_cache \<Rightarrow> u32 \<Rightarrow> u32 \<Rightarrow> ('b page_cache \<times> bool) option" where
  "try_evict pc queue page =
     (let ga = page_translation (pc_cache_pages pc page);
          r = addr_range pc ga;
          pg = addr_page pc ga;
          expected_state = dp_state (pc_ranges pc r pg);
          cnt = expected_state AND CNT_MASK;
          b = expected_state AND BUSY
      in if cnt = 0 \<and> b = 0 then
           (let new_expected_state = dp_state (pc_ranges pc r pg);
                pc1 = upd_state r pg (\<lambda>s. s OR BUSY) pc
            in if new_expected_state AND BUSY = 0 then
                 if new_expected_state AND CNT_MASK = 0 then
                   (case (if new_expected_state AND DIRTY \<noteq> 0 then write_back pc1 queue page r pg else Some pc1) of
                      None \<Rightarrow> None
                    | Some pc2 \<Rightarrow> Some (upd_state r pg (\<lambda>s. s AND CNT_MASK) pc2, True))
                 else Some (upd_state r pg (\<lambda>s. s AND DISABLE_BUSY_MASK) pc1, False)
               else Some (pc1, False))
         else Some (pc, False))"

definition take_slot :: "u32 \<Rightarrow> u64 \<Rightarrow> 'b page_cache \<Rightarrow> 'b page_cache" where
  "take_slot page global_address = upd_slot page (\<lambda>c. c\<lparr>page_translation := global_address\<rparr>)"

definition set_lock :: "u32 \<Rightarrow> u32 \<Rightarrow> 'b page_cache \<Rightarrow> 'b page_cache" where
  "set_lock page v = upd_slot page (\<lambda>c. c\<lparr>page_take_lock := v\<rparr>)"

text \<open>One pass of the loop of \<open>find_slot\<close>: the slot drawn and whether it was taken.\<close>

definition find_slot_pass :: "'b page_cache \<Rightarrow> u64 \<Rightarrow> u32 \<Rightarrow> ('b page_cache \<times> u32 \<times> bool) option" where
  "find_slot_pass pc global_address queue =
     (let page = ucast (ucast (pc_page_ticket pc) mod pc_n_pages pc) :: u32;
          pc = pc\<lparr>pc_page_ticket := pc_page_ticket pc + 1\<rparr>;
          v = page_take_lock (pc_cache_pages pc page)
      in if v = FREE then
           Some (set_lock page UNLOCKED (take_slot page global_address (set_lock page LOCKED pc)), page, True)
         else if v = UNLOCKED then
           (case try_evict (set_lock page LOCKED pc) queue page of
              None \<Rightarrow> None
            | Some (pc1, ok) \<Rightarrow>
                (let pc2 = (if ok then take_slot page global_address pc1 else pc1)
                 in Some (set_lock page UNLOCKED pc2, page, ok)))
         else Some (pc, page, False))"

partial_function (option) find_slot_loop :: "'b page_cache \<Rightarrow> u64 \<Rightarrow> u32 \<Rightarrow> ('b page_cache \<times> u32) option" where
  "find_slot_loop pc global_address queue =
     (case find_slot_pass pc global_address queue of
        None \<Rightarrow> None
      | Some (pc1, page, ok) \<Rightarrow> if ok then Some (pc1, page) else find_slot_loop pc1 global_address queue)"

definition find_slot :: "'b page_cache \<Rightarrow> u64 \<Rightarrow> u64 \<Rightarrow> u32 \<Rightarrow> ('b page_cache \<times> u32) option" where
  "find_slot pc address range_id queue =
     find_slot_loop pc (push_bit (unat (pc_n_ranges_bits pc)) address OR range_id) queue"

section \<open>Acquire\<close>

text \<open>The prefetch bookkeeping at the start of every acquire: the extra count it takes.\<close>

definition prefetch_enter :: "data_page_t \<Rightarrow> data_page_t \<times> u32" where
  "prefetch_enter p =
     (let prefetch_count = dp_prefetch_count p;
          (p1, c1) = (if prefetch_count \<noteq> 0 \<and> drop_bit 7 prefetch_count = 0
                      then (p\<lparr>dp_prefetch_count := prefetch_count OR 0x80\<rparr>, 1) else (p, 0));
          window_count = dp_prefetch_counter p1
      in if window_count > 1 \<and> drop_bit 7 window_count = 0
         then (p1\<lparr>dp_prefetch_counter := window_count OR 0x80\<rparr>, 1) else (p1, c1))"

text \<open>The controller a page is read from: its stripe, or the next one in turn.\<close>

definition pick_ctrl :: "'b page_cache \<Rightarrow> u64 \<Rightarrow> u64 \<Rightarrow> 'b page_cache \<times> u64" where
  "pick_ctrl pc r index =
     (let ctrl = get_backing_ctrl pc r index
      in if ctrl = ALL_CTRLS
         then (pc\<lparr>pc_ctrl_counter := pc_ctrl_counter pc + 1\<rparr>, pc_ctrl_counter pc mod pc_n_ctrls pc)
         else (pc, ctrl))"

definition bump :: "u64 \<Rightarrow> u64 \<Rightarrow> (u64 \<Rightarrow> u64) \<Rightarrow> u64 \<Rightarrow> u64" where
  "bump i n f = f(i := f i + n)"

text \<open>The refill of an invalid page, after its \<open>BUSY\<close> bit was taken.\<close>

definition acquire_fill :: "'b page_cache \<Rightarrow> u64 \<Rightarrow> u64 \<Rightarrow> u32 \<Rightarrow> bool \<Rightarrow> u32 \<Rightarrow> ('b page_cache \<times> u64) option" where
  "acquire_fill pc r index count write queue =
     (case find_slot pc index r queue of
        None \<Rightarrow> None
      | Some (pc1, page_trans) \<Rightarrow>
          (let (pc2, ctrl) = pick_ctrl pc1 r index;
               b_page = get_backing_page pc2 r index;
               pc3 = pc2\<lparr>pc_access_counter := bump ctrl 1 (pc_access_counter pc2)\<rparr>
           in case read_data pc3 ctrl queue (b_page * pc_n_blocks_per_page pc3) (pc_n_blocks_per_page pc3) (ucast page_trans) of
                None \<Rightarrow> None
              | Some pc4 \<Rightarrow>
                  (let pc5 = upd_page r index (\<lambda>p. p\<lparr>dp_offset := page_trans\<rparr>) pc4;
                       pc6 = pc5\<lparr>pc_miss_cnt := bump r (ucast count) (pc_miss_cnt pc5)\<rparr>;
                       pc7 = (if write then upd_state r index (\<lambda>s. s OR DIRTY) pc6 else pc6);
                       pc8 = upd_state r index (\<lambda>s. s XOR DISABLE_BUSY_ENABLE_VALID) pc7
                   in Some (pc8, ucast page_trans))))"

definition state_of_word :: "u32 \<Rightarrow> u32" where
  "state_of_word read_state = drop_bit (CNT_SHIFT + 1) read_state AND 3"

partial_function (option) acquire_loop ::
  "'b page_cache \<Rightarrow> u64 \<Rightarrow> u64 \<Rightarrow> u32 \<Rightarrow> bool \<Rightarrow> u32 \<Rightarrow> u32 \<Rightarrow> ('b page_cache \<times> u64) option"
where
  "acquire_loop pc r index count write queue read_state =
     (let st = state_of_word read_state in
      if st = NV_NB then
        (let st_new = dp_state (pc_ranges pc r index);
             pc1 = upd_state r index (\<lambda>s. s OR BUSY) pc
         in if st_new AND BUSY = 0 then acquire_fill pc1 r index count write queue
            else acquire_loop pc1 r index count write queue (dp_state (pc_ranges pc1 r index)))
      else if st = V_NB then
        (let pc1 = (if write \<and> read_state AND DIRTY = 0 then upd_state r index (\<lambda>s. s OR DIRTY) pc else pc);
             page_trans = dp_offset (pc_ranges pc1 r index)
         in Some (pc1\<lparr>pc_hit_cnt := bump r (ucast count) (pc_hit_cnt pc1)\<rparr>, ucast page_trans))
      else acquire_loop pc r index count write queue (dp_state (pc_ranges pc r index)))"

definition acquire_page :: "'b page_cache \<Rightarrow> u64 \<Rightarrow> u64 \<Rightarrow> u32 \<Rightarrow> bool \<Rightarrow> u32 \<Rightarrow> ('b page_cache \<times> u64) option" where
  "acquire_page pc r index count write queue =
     (let pc1 = pc\<lparr>pc_access_cnt := bump r (ucast count) (pc_access_cnt pc)\<rparr>;
          (p, p_count) = prefetch_enter (pc_ranges pc1 r index);
          pc2 = upd_page r index (\<lambda>_. p) pc1;
          read_state = dp_state (pc_ranges pc2 r index);
          pc3 = upd_state r index (\<lambda>s. s + (count + p_count)) pc2
      in acquire_loop pc3 r index count write queue read_state)"

section \<open>Release\<close>

text \<open>One of the two prefetch counters at release: its new value and the count it gives back.\<close>

definition prefetch_leave :: "u8 \<Rightarrow> u8 \<times> bool" where
  "prefetch_leave st =
     (let cnt = st AND 0x7F
      in if cnt > 0 then (if cnt = 1 \<and> drop_bit 7 st = 1 then (0, True) else (st - 1, False))
         else (st, False))"

definition release_page1 :: "'b page_cache \<Rightarrow> u64 \<Rightarrow> u64 \<Rightarrow> 'b page_cache" where
  "release_page1 pc r index =
     (let (wb_st, t) = prefetch_leave (dp_prefetch_counter (pc_ranges pc r index));
          pc1 = upd_page r index (\<lambda>p. p\<lparr>dp_prefetch_counter := wb_st\<rparr>) pc
      in upd_state r index (\<lambda>s. s - (1 + of_bool t)) pc1)"

definition release_page :: "'b page_cache \<Rightarrow> u64 \<Rightarrow> u64 \<Rightarrow> u32 \<Rightarrow> 'b page_cache" where
  "release_page pc r index count =
     (let (p_st, t1) = prefetch_leave (dp_prefetch_count (pc_ranges pc r index));
          pc1 = upd_page r index (\<lambda>p. p\<lparr>dp_prefetch_count := p_st\<rparr>) pc;
          (wb_st, t2) = prefetch_leave (dp_prefetch_counter (pc_ranges pc1 r index));
          pc2 = upd_page r index (\<lambda>p. p\<lparr>dp_prefetch_counter := wb_st\<rparr>) pc1;
          tc = of_bool (t1 \<or> t2);
          pc3 = upd_state r index (\<lambda>s. s - (count + tc)) pc2
      in upd_page r index (\<lambda>p. p\<lparr>dp_ref_count := dp_ref_count p - (count + tc)\<rparr>) pc3)"

definition mark_page_dirty :: "'b page_cache \<Rightarrow> u64 \<Rightarrow> u64 \<Rightarrow> 'b page_cache" where
  "mark_page_dirty pc r index = upd_state r index (\<lambda>s. s OR DIRTY) pc"

definition set_cpu_buffer :: "'b page_cache \<Rightarrow> u64 \<Rightarrow> u64 \<Rightarrow> u32 \<Rightarrow> 'b page_cache" where
  "set_cpu_buffer pc r index offset =
     upd_page r index (\<lambda>p. p\<lparr>dp_cpu_feature_offset := push_bit 1 offset OR 1\<rparr>) pc"

definition get_cpu_offset :: "'b page_cache \<Rightarrow> u64 \<Rightarrow> u64 \<Rightarrow> u32" where
  "get_cpu_offset pc r index = dp_cpu_feature_offset (pc_ranges pc r index)"

definition set_prefetch_val :: "'b page_cache \<Rightarrow> u64 \<Rightarrow> u64 \<Rightarrow> u64 \<Rightarrow> 'b page_cache" where
  "set_prefetch_val pc r pg count =
     upd_page r pg (\<lambda>p. p\<lparr>dp_prefetch_count := dp_prefetch_count p + ucast count\<rparr>) pc"

definition set_window_buffer_counter :: "'b page_cache \<Rightarrow> u64 \<Rightarrow> u64 \<Rightarrow> u64 \<Rightarrow> 'b page_cache" where
  "set_window_buffer_counter pc r pg count =
     upd_page r pg (\<lambda>p. p\<lparr>dp_prefetch_counter := dp_prefetch_counter p + ucast count\<rparr>) pc"

section \<open>Flush and clear\<close>

text \<open>The work of the flush thread of slot \<open>page\<close> on multiprocessor \<open>smid\<close>.\<close>

definition flush_page :: "'b page_cache \<Rightarrow> u32 \<Rightarrow> u32 \<Rightarrow> 'b page_cache option" where
  "flush_page pc smid page =
     (if ucast page < pc_n_pages pc then
        (let ga = page_translation (pc_cache_pages pc page);
             r = addr_range pc ga;
             pg = addr_page pc ga;
             d = dp_state (pc_ranges pc r pg) AND DIRTY
         in if d \<noteq> 0 then
              (case write_back pc smid page r pg of
                 None \<Rightarrow> None
               | Some pc1 \<Rightarrow> Some (upd_state r pg (\<lambda>s. s AND NOT DIRTY) pc1))
            else Some pc)
      else Some pc)"

fun flush_threads :: "'b page_cache \<Rightarrow> (u32 \<times> u32) list \<Rightarrow> 'b page_cache option" where
  "flush_threads pc [] = Some pc"
| "flush_threads pc ((smid, page) # ts) =
     (case flush_page pc smid page of None \<Rightarrow> None | Some pc1 \<Rightarrow> flush_threads pc1 ts)"

definition clear_cache_safe :: "'b page_cache \<Rightarrow> 'b page_cache" where
  "clear_cache_safe pc =
     pc\<lparr>pc_cache_pages := (\<lambda>s. if ucast s < pc_n_pages pc
          then \<lparr>page_take_lock = FREE, page_translation = 0, next_reuse = 0, reuse_chunk = replicate 8 0\<rparr>
          else pc_cache_pages pc s),
        pc_page_ticket := 0, pc_ctrl_counter := 0\<rparr>"

section \<open>Lemmas: page state words\<close>

definition is_valid :: "u32 \<Rightarrow> bool" where "is_valid st \<longleftrightarrow> bit st 31"
definition is_busy :: "u32 \<Rightarrow> bool" where "is_busy st \<longleftrightarrow> bit st 30"
definition is_dirty :: "u32 \<Rightarrow> bool" where "is_dirty st \<longleftrightarrow> bit st 29"
definition cnt_of :: "u32 \<Rightarrow> nat" where "cnt_of st = unat (st AND CNT_MASK)"

named_theorems flag_simps \<open>what the atomic operations do to the flags of a page state\<close>

lemma bit_flag:
  "bit VALID n \<longleftrightarrow> n = 31" "bit BUSY n \<longleftrightarrow> n = 30" "bit DIRTY n \<longleftrightarrow> n = 29" "bit CNT_MASK n \<longleftrightarrow> n < 29"
  "bit DISABLE_BUSY_ENABLE_VALID n \<longleftrightarrow> n = 30 \<or> n = 31"
proof -
  have w: "VALID = 2 ^ 31" "BUSY = 2 ^ 30" "DIRTY = 2 ^ 29" "CNT_MASK = mask 29"
    "DISABLE_BUSY_ENABLE_VALID = BUSY OR VALID"
    by (simp_all add: nvm_defs mask_eq_exp_minus_1)
  show "bit VALID n \<longleftrightarrow> n = 31" "bit BUSY n \<longleftrightarrow> n = 30" "bit DIRTY n \<longleftrightarrow> n = 29" "bit CNT_MASK n \<longleftrightarrow> n < 29"
    by (auto simp only: w bit_exp_iff bit_mask_iff possible_bit_word) simp_all
  then show "bit DISABLE_BUSY_ENABLE_VALID n \<longleftrightarrow> n = 30 \<or> n = 31"
    unfolding w(5) bit_or_iff by (auto simp: w(1,2) bit_exp_iff simp del: power_numeral)
qed

lemma and_zero_iff: "w AND v = 0 \<longleftrightarrow> (\<forall>n. bit v n \<longrightarrow> \<not> bit w n)" for w v :: "'a::len word"
proof
  show "\<forall>n. bit v n \<longrightarrow> \<not> bit w n" if "w AND v = 0" using that by (metis bit_and_iff bit_0_eq bot_apply bot_bool_def)
  show "w AND v = 0" if "\<forall>n. bit v n \<longrightarrow> \<not> bit w n"
    using that by (intro bit_word_eqI) (auto simp: bit_and_iff)
qed

lemma and_flag [flag_simps]:
  "s AND BUSY = 0 \<longleftrightarrow> \<not> is_busy s" "s AND DIRTY = 0 \<longleftrightarrow> \<not> is_dirty s"
  by (simp_all add: and_zero_iff bit_flag is_busy_def is_dirty_def)

lemma and_cnt [flag_simps]: "s AND CNT_MASK = 0 \<longleftrightarrow> cnt_of s = 0"
  by (simp add: cnt_of_def unat_eq_0)

lemma cnt_of_mod: "cnt_of s = unat s mod 2 ^ 29"
  proof -
  have "CNT_MASK = mask 29" by (simp add: CNT_MASK_def mask_eq_exp_minus_1)
  then show ?thesis using unat_and_mask [of s 29] by (simp only: cnt_of_def)
qed

lemma or_flag [flag_simps]:
  "is_valid (s OR BUSY) = is_valid s" "is_busy (s OR BUSY)" "is_dirty (s OR BUSY) = is_dirty s"
  "is_valid (s OR DIRTY) = is_valid s" "is_busy (s OR DIRTY) = is_busy s" "is_dirty (s OR DIRTY)"
  "cnt_of (s OR BUSY) = cnt_of s" "cnt_of (s OR DIRTY) = cnt_of s"
proof -
  have "(s OR BUSY) AND CNT_MASK = s AND CNT_MASK" "(s OR DIRTY) AND CNT_MASK = s AND CNT_MASK"
    by (auto intro!: bit_word_eqI simp: bit_flag bit_and_iff bit_or_iff bit_xor_iff bit_not_iff)
  then show "cnt_of (s OR BUSY) = cnt_of s" "cnt_of (s OR DIRTY) = cnt_of s" by (simp_all add: cnt_of_def)
qed (auto simp: is_valid_def is_busy_def is_dirty_def bit_flag bit_and_iff bit_or_iff bit_xor_iff bit_not_iff)

lemma xor_flag [flag_simps]:
  "is_valid (s XOR DISABLE_BUSY_ENABLE_VALID) = (\<not> is_valid s)"
  "is_busy (s XOR DISABLE_BUSY_ENABLE_VALID) = (\<not> is_busy s)"
  "is_dirty (s XOR DISABLE_BUSY_ENABLE_VALID) = is_dirty s"
  "cnt_of (s XOR DISABLE_BUSY_ENABLE_VALID) = cnt_of s"
proof -
  have "(s XOR DISABLE_BUSY_ENABLE_VALID) AND CNT_MASK = s AND CNT_MASK"
    by (auto intro!: bit_word_eqI simp: bit_flag bit_and_iff bit_or_iff bit_xor_iff bit_not_iff)
  then show "cnt_of (s XOR DISABLE_BUSY_ENABLE_VALID) = cnt_of s" by (simp add: cnt_of_def)
qed (auto simp: is_valid_def is_busy_def is_dirty_def bit_flag bit_and_iff bit_or_iff bit_xor_iff bit_not_iff)

lemma and_flag_masks [flag_simps]:
  "\<not> is_valid (s AND CNT_MASK)" "\<not> is_busy (s AND CNT_MASK)" "\<not> is_dirty (s AND CNT_MASK)"
  "cnt_of (s AND CNT_MASK) = cnt_of s"
  "is_valid (s AND NOT DIRTY) = is_valid s" "is_busy (s AND NOT DIRTY) = is_busy s" "\<not> is_dirty (s AND NOT DIRTY)"
  "cnt_of (s AND NOT DIRTY) = cnt_of s"
proof -
  have "(s AND NOT DIRTY) AND CNT_MASK = s AND CNT_MASK" by (auto intro!: bit_word_eqI simp: bit_flag bit_and_iff bit_or_iff bit_xor_iff bit_not_iff)
  then show "cnt_of (s AND NOT DIRTY) = cnt_of s" by (simp add: cnt_of_def)
qed (auto simp: is_valid_def is_busy_def is_dirty_def cnt_of_def bit_flag bit_and_iff bit_or_iff bit_xor_iff bit_not_iff)

lemma flags_of_div:
  "is_valid s = odd (unat s div 2 ^ 31)" "is_busy s = odd (unat s div 2 ^ 30)" "is_dirty s = odd (unat s div 2 ^ 29)"
proof -
  have "bit s n = odd (unat s div 2 ^ n)" if "n < 32" for n
    using that by (simp add: bit_unsigned_iff possible_bit_def flip: bit_iff_odd)
  from this [of 31] this [of 30] this [of 29]
  show "is_valid s = odd (unat s div 2 ^ 31)" "is_busy s = odd (unat s div 2 ^ 30)" "is_dirty s = odd (unat s div 2 ^ 29)"
    by (simp_all add: is_valid_def is_busy_def is_dirty_def)
qed

lemma flags_of_div29:
  "is_valid s = odd (unat s div 2 ^ 29 div 4)" "is_busy s = odd (unat s div 2 ^ 29 div 2)" "is_dirty s = odd (unat s div 2 ^ 29)"
  by (simp_all add: flags_of_div div_mult2_eq [symmetric])

lemma flags_eqI:
  assumes "unat t div 2 ^ 29 = unat s div 2 ^ 29"
  shows "is_valid t = is_valid s" "is_busy t = is_busy s" "is_dirty t = is_dirty s"
  using assms by (simp_all only: flags_of_div29)

text \<open>Counting stays below the flags as long as the count fits.\<close>

lemma div_add_small: "x mod m + c < m \<Longrightarrow> (x + c) div m = x div m \<and> (x + c) mod m = x mod m + c" for x :: nat
proof -
  assume a: "x mod m + c < m"
  have "x + c = x div m * m + (x mod m + c)" by simp
  then show ?thesis using a by (metis div_mult_self3 div_less add_0_right mod_mult_self3 mod_less less_nat_zero_code)
qed

lemma state_add:
  assumes "cnt_of s + unat c < 2 ^ 29"
  shows "unat (s + c) div 2 ^ 29 = unat s div 2 ^ 29" "cnt_of (s + c) = cnt_of s + unat c"
proof -
  have a: "unat s mod 2 ^ 29 + unat c < 2 ^ 29" using assms by (simp add: cnt_of_mod)
  have d: "unat s = unat s div 2 ^ 29 * 2 ^ 29 + unat s mod 2 ^ 29" by simp
  have "unat s < 2 ^ 32" using unsigned_less [of s, where 'a = nat] by simp
  then have "unat s div 2 ^ 29 \<le> 7" by (simp add: less_mult_imp_div_less)
  then have "unat s div 2 ^ 29 * 2 ^ 29 \<le> 7 * 2 ^ 29" by (rule mult_le_mono1)
  then have "unat s + unat c < 2 ^ 29 * 8" using a d by linarith
  then have "unat s + unat c < 2 ^ 32" by simp
  then have u: "unat (s + c) = unat s + unat c" by (intro unat_add_bounded) simp
  then show "unat (s + c) div 2 ^ 29 = unat s div 2 ^ 29" "cnt_of (s + c) = cnt_of s + unat c"
    using div_add_small [OF a] by (simp_all only: u cnt_of_mod)
qed

lemma state_sub:
  assumes "unat c \<le> cnt_of s"
  shows "unat (s - c) div 2 ^ 29 = unat s div 2 ^ 29" "cnt_of (s - c) = cnt_of s - unat c"
proof -
  have le: "unat c \<le> unat s" using assms mod_less_eq_dividend [of "unat s" "2 ^ 29"] by (simp add: cnt_of_mod)
  then have u: "unat (s - c) = unat s - unat c" by (simp add: unat_sub word_le_nat_alt)
  have "unat s mod 2 ^ 29 < 2 ^ 29" by simp
  have d: "unat (s - c) = unat s div 2 ^ 29 * 2 ^ 29 + (unat s mod 2 ^ 29 - unat c)"
    using assms by (simp add: u cnt_of_mod)
  have l: "unat s mod 2 ^ 29 - unat c < 2 ^ 29" using \<open>unat s mod 2 ^ 29 < 2 ^ 29\<close> by linarith
  have m: "a * 2 ^ 29 + b < a * 2 ^ 29 + 2 ^ 29 \<Longrightarrow> (a * 2 ^ 29 + b) div 2 ^ 29 = a \<and> (a * 2 ^ 29 + b) mod 2 ^ 29 = b" for a b :: nat
    by simp
  show "unat (s - c) div 2 ^ 29 = unat s div 2 ^ 29" "cnt_of (s - c) = cnt_of s - unat c"
    unfolding cnt_of_mod d using m [of "unat s div 2 ^ 29"] l by simp_all
qed

lemmas state_add_flags = flags_eqI [OF state_add(1)] state_add(2)
lemmas state_sub_flags = flags_eqI [OF state_sub(1)] state_sub(2)

lemma state_of_word_cases:
  "state_of_word s = NV_NB \<longleftrightarrow> \<not> is_valid s \<and> \<not> is_busy s"
  "state_of_word s = V_NB \<longleftrightarrow> is_valid s \<and> \<not> is_busy s"
proof -
  let ?x = "unat s div 2 ^ 30"
  have "drop_bit 30 s AND mask 2 = state_of_word s" by (simp add: state_of_word_def CNT_SHIFT_def mask_eq_exp_minus_1)
  then have u: "unat (state_of_word s) = ?x mod 4" using unat_and_mask [of "drop_bit 30 s" 2] by (simp add: unat_drop_bit_div)
  have v: "is_valid s = odd (?x div 2)" "is_busy s = odd ?x" by (simp_all add: flags_of_div div_mult2_eq [symmetric])
  have g: "y mod 4 = 0 \<longleftrightarrow> even (y div 2) \<and> even y" "y mod 4 = 2 \<longleftrightarrow> odd (y div 2) \<and> even y" for y :: nat
    by presburger+
  have "state_of_word s = NV_NB \<longleftrightarrow> ?x mod 4 = 0" "state_of_word s = V_NB \<longleftrightarrow> ?x mod 4 = 2"
    by (simp_all add: unat_eq_iff [of "state_of_word s"] u NV_NB_def V_NB_def)
  then show "state_of_word s = NV_NB \<longleftrightarrow> \<not> is_valid s \<and> \<not> is_busy s"
      "state_of_word s = V_NB \<longleftrightarrow> is_valid s \<and> \<not> is_busy s"
    unfolding g v by simp_all
qed

end
