(* ===== verification/Page_Cache_Inv.thy ===== *)
theory Page_Cache_Inv
  imports Page_Cache
begin

text \<open>
  The invariant of the page cache between calls and what each elementary change does to it: data
  transfers as the device decodes them, the two-way link between valid pages and slots, and the
  abstraction \<open>content\<close>, the block a reader of a page must see, which is in the page's slot while
  the page is valid and on its controller otherwise.
\<close>

section \<open>Transfers\<close>

text \<open>Every queue has a free identifier; and no identifier was taken or given back in between.\<close>

definition cids_free :: "(u64 \<Rightarrow> u32 \<Rightarrow> cid_pool) \<Rightarrow> bool" where
  "cids_free C \<longleftrightarrow> (\<forall>c q. pool_ok (C c q) \<and> (\<exists>i < 65536. cp_cid (C c q) i = UNLOCKED))"

definition same_cids :: "(u64 \<Rightarrow> u32 \<Rightarrow> cid_pool) \<Rightarrow> (u64 \<Rightarrow> u32 \<Rightarrow> cid_pool) \<Rightarrow> bool" where
  "same_cids C' C \<longleftrightarrow> (\<forall>c q. cp_cid (C' c q) = cp_cid (C c q))"

lemma same_cids_refl [simp]: "same_cids C C" and same_cids_trans: "same_cids A B \<Longrightarrow> same_cids B C \<Longrightarrow> same_cids A C"
  by (simp_all add: same_cids_def)

lemma cids_free_unused [simp]: "cids_free (\<lambda>_ _. \<lparr>cp_ticket = t, cp_cid = (\<lambda>_. UNLOCKED)\<rparr>)"
  by (auto simp: cids_free_def pool_ok_def intro!: exI [of _ 0])

lemma same_cids_free: "same_cids C' C \<Longrightarrow> cids_free C' = cids_free C"
  by (simp add: same_cids_def cids_free_def pool_ok_def)

definition blocks_ok :: "u64 \<Rightarrow> bool" where
  "blocks_ok n \<longleftrightarrow> 1 \<le> unat n \<and> unat n \<le> 65536"

lemma UNLOCKED_neq [simp]: "UNLOCKED \<noteq> LOCKED" "LOCKED \<noteq> UNLOCKED" "FREE \<noteq> UNLOCKED" "UNLOCKED \<noteq> FREE"
  by (simp_all add: LOCKED_def UNLOCKED_def FREE_def)

lemma get_put_cid_free:
  assumes "cids_free C"
  shows "\<exists>p' cid. get_cid (C c q) = Some (p', cid) \<and> cid < 65536 \<and> cp_cid (C c q) cid = UNLOCKED \<and>
    cp_cid p' = (cp_cid (C c q))(cid := LOCKED) \<and> cp_cid (put_cid cid p') = cp_cid (C c q)"
proof -
  obtain i where "pool_ok (C c q)" "i < 65536" "cp_cid (C c q) i = UNLOCKED" using assms by (auto simp: cids_free_def)
  then show ?thesis using get_cid_returns [of "C c q" i] by (auto simp: put_cid_def fun_eq_iff)
qed

lemma opcodes: "ucast (NVM_CMD_OPCODE 0 0 2) = (2::u8)" "ucast (NVM_CMD_OPCODE 0 0 1) = (1::u8)"
  by (simp_all add: NVM_CMD_OPCODE_def WB_def NVM_MASK_def NVM_MASK_PART_def)

lemma rw_cmd_decoded:
  assumes "wf_cmd (pc_local_cmd pc)" and "blocks_ok n"
  shows "cmd_opc (rw_cmd pc cid opc lba n e) = opc AND 0x7f" "cmd_prp1 (rw_cmd pc cid opc lba n e) = pc_prp1 pc e"
    "cmd_slba (rw_cmd pc cid opc lba n e) = lba" "cmd_nlb (rw_cmd pc cid opc lba n e) = unat n"
proof -
  have "(if (ucast n :: u16) = 0 then 65536 else unat (ucast n :: u16)) = unat n"
  proof (cases "unat n = 65536")
    case True
    then have "unat (ucast n :: u16) = 0" by (simp add: unat_ucast_mod)
    then show ?thesis using True by (simp add: unat_eq_0)
  next
    case False
    then have "unat (ucast n :: u16) = unat n" "unat n \<noteq> 0" using assms(2) by (auto simp: unat_ucast_mod blocks_ok_def)
    then show ?thesis by (metis unat_0)
  qed
  then show "cmd_opc (rw_cmd pc cid opc lba n e) = opc AND 0x7f" "cmd_prp1 (rw_cmd pc cid opc lba n e) = pc_prp1 pc e"
    "cmd_slba (rw_cmd pc cid opc lba n e) = lba" "cmd_nlb (rw_cmd pc cid opc lba n e) = unat n"
    using rw_cmd_fields [OF assms(1)] by (simp_all add: rw_cmd_def Let_def)
qed

lemma access_data_eq:
  assumes "cids_free (pc_cids pc)"
  shows "\<exists>C cid. same_cids C (pc_cids pc) \<and>
    access_data pc c q lba n e opc = Some ((device_exec c (rw_cmd pc cid opc lba n e) pc)\<lparr>pc_cids := C\<rparr>)"
proof -
  obtain p' cid where g: "get_cid (pc_cids pc c q) = Some (p', cid)" and p: "cp_cid (put_cid cid p') = cp_cid (pc_cids pc c q)"
    using get_put_cid_free [OF assms, of c q] by blast
  have d: "device_exec c cmd (pc\<lparr>pc_cids := C\<rparr>) = (device_exec c cmd pc)\<lparr>pc_cids := C\<rparr>" for cmd C
    by (simp add: device_exec_def Let_def cong: if_cong)
  have "access_data pc c q lba n e opc = Some ((device_exec c (rw_cmd pc (of_nat cid) opc lba n e) pc)
      \<lparr>pc_cids := (pc_cids pc)(c := (pc_cids pc c)(q := put_cid cid p'))\<rparr>)"
    by (simp add: access_data_def g Let_def set_cids_def d)
  moreover have "same_cids ((pc_cids pc)(c := (pc_cids pc c)(q := put_cid cid p'))) (pc_cids pc)" using p by (simp add: same_cids_def)
  ultimately show ?thesis by blast
qed

lemma read_data_ok:
  assumes "cids_free (pc_cids pc)" and "wf_cmd (pc_local_cmd pc)" and "blocks_ok n"
  shows "\<exists>C. same_cids C (pc_cids pc) \<and> read_data pc c q lba n e = Some (pc\<lparr>pc_cids := C, pc_q_tail := pc_q_tail pc + 1,
    frame := (frame pc)(pc_prp1 pc e := \<lambda>k. if k < unat n then disk pc c (lba + of_nat k) else frame pc (pc_prp1 pc e) k)\<rparr>)"
  using access_data_eq [OF assms(1), of c q lba n e "ucast (io_opcode NVM_IO_READ)"]
  by (elim exE conjE) (auto simp: read_data_def device_exec_def Let_def opcodes rw_cmd_decoded [OF assms(2,3)])

definition written :: "'b page_cache \<Rightarrow> u64 \<Rightarrow> u64 \<Rightarrow> u64 \<Rightarrow> u64 \<Rightarrow> 'b" where
  "written pc e lba c = (\<lambda>l. if unat (l - lba) < unat (pc_n_blocks_per_page pc) then frame pc (pc_prp1 pc e) (unat (l - lba))
     else disk pc c l)"

lemma write_data_ok:
  assumes "cids_free (pc_cids pc)" and "wf_cmd (pc_local_cmd pc)" and "blocks_ok (pc_n_blocks_per_page pc)"
  shows "\<exists>C. same_cids C (pc_cids pc) \<and> write_data pc c q lba (pc_n_blocks_per_page pc) e =
    Some (pc\<lparr>pc_cids := C, pc_q_tail := pc_q_tail pc + 1, disk := (disk pc)(c := written pc e lba c)\<rparr>)"
  using access_data_eq [OF assms(1), of c q lba "pc_n_blocks_per_page pc" e "ucast (io_opcode NVM_IO_WRITE)"]
  by (elim exE conjE) (auto simp: write_data_def device_exec_def Let_def opcodes rw_cmd_decoded [OF assms(2,3)] written_def)

section \<open>Configuration\<close>

text \<open>
  The pages of the added ranges; the controllers and the block range a page is stored on; and what
  is asked of a configuration: at least one slot and controller, distinct bus addresses of the
  slots, identifiers that fit the bits left for them, and block areas of the ranges that do not
  overlap.
\<close>

definition in_dom :: "'b page_cache \<Rightarrow> u64 \<Rightarrow> u64 \<Rightarrow> bool" where
  "in_dom pc r pg \<longleftrightarrow> r < pc_n_ranges pc \<and> pg < pc_page_counts pc r"

definition ctrls_of :: "'b page_cache \<Rightarrow> u64 \<Rightarrow> u64 \<Rightarrow> u64 set" where
  "ctrls_of pc r pg = (case pc_dists pc r of STRIPE \<Rightarrow> {pg mod pc_n_ctrls pc} | REPLICATE \<Rightarrow> {c. c < pc_n_ctrls pc})"

definition home_ctrl :: "'b page_cache \<Rightarrow> u64 \<Rightarrow> u64 \<Rightarrow> u64" where
  "home_ctrl pc r pg = (case pc_dists pc r of STRIPE \<Rightarrow> pg mod pc_n_ctrls pc | REPLICATE \<Rightarrow> 0)"

definition nblk :: "'b page_cache \<Rightarrow> nat" where
  "nblk pc = unat (pc_n_blocks_per_page pc)"

definition page_lba :: "'b page_cache \<Rightarrow> u64 \<Rightarrow> u64 \<Rightarrow> u64" where
  "page_lba pc r pg = get_backing_page pc r pg * pc_n_blocks_per_page pc"

definition area_len :: "'b page_cache \<Rightarrow> u64 \<Rightarrow> nat" where
  "area_len pc r = (case pc_dists pc r of
       STRIPE \<Rightarrow> (unat (pc_page_counts pc r) + unat (pc_n_ctrls pc) - 1) div unat (pc_n_ctrls pc)
     | REPLICATE \<Rightarrow> unat (pc_page_counts pc r))"

definition cfg_slots :: "'b page_cache \<Rightarrow> bool" where
  "cfg_slots pc \<longleftrightarrow> 0 < pc_n_pages pc \<and> unat (pc_n_pages pc) \<le> 2 ^ 32 \<and> 0 < pc_n_ctrls pc \<and>
     wf_cmd (pc_local_cmd pc) \<and> blocks_ok (pc_n_blocks_per_page pc) \<and> inj_on (pc_prp1 pc) {e. e < pc_n_pages pc}"

definition cfg_addr :: "'b page_cache \<Rightarrow> bool" where
  "cfg_addr pc \<longleftrightarrow> (\<exists>k. pc_n_ranges_mask pc = mask k \<and> k \<le> unat (pc_n_ranges_bits pc) \<and>
       unat (pc_n_ranges_bits pc) < 64 \<and> unat (pc_n_ranges pc) \<le> 2 ^ k) \<and>
     (\<forall>r < pc_n_ranges pc. unat (pc_page_counts pc r) * 2 ^ unat (pc_n_ranges_bits pc) \<le> 2 ^ 64)"

definition cfg_disk :: "'b page_cache \<Rightarrow> bool" where
  "cfg_disk pc \<longleftrightarrow>
     (\<forall>r < pc_n_ranges pc. (unat (pc_page_starts pc r) + area_len pc r) * nblk pc \<le> 2 ^ 64) \<and>
     (\<forall>r < pc_n_ranges pc. \<forall>r' < pc_n_ranges pc. r \<noteq> r' \<longrightarrow>
        unat (pc_page_starts pc r) + area_len pc r \<le> unat (pc_page_starts pc r') \<or>
        unat (pc_page_starts pc r') + area_len pc r' \<le> unat (pc_page_starts pc r))"

definition cfg_ok :: "'b page_cache \<Rightarrow> bool" where
  "cfg_ok pc \<longleftrightarrow> cfg_slots pc \<and> cfg_addr pc \<and> cfg_disk pc"

subsection \<open>Global addresses\<close>

lemma high_bit_zero: "unat w < 2 ^ k \<Longrightarrow> k \<le> n \<Longrightarrow> \<not> bit w n" for w :: "'a::len word"
proof -
  assume "unat w < 2 ^ k" "k \<le> n"
  then have "unat w < 2 ^ n" using power_increasing [of k n "2::nat"] by (simp add: order_less_le_trans)
  then have "\<not> bit (unat w) n" by (simp add: bit_iff_odd)
  then show ?thesis by (simp add: bit_unsigned_iff)
qed

lemma global_address_split:
  fixes page r :: u64
  assumes "unat r < 2 ^ k" and "k \<le> b" and "b < 64" and "unat page * 2 ^ b < 2 ^ 64"
  shows "(push_bit b page OR r) AND mask k = r" "drop_bit b (push_bit b page OR r) = page"
proof -
  have r: "\<not> bit r n" if "k \<le> n" for n using high_bit_zero [OF assms(1) that] .
  have "(2::nat) ^ 64 = 2 ^ (64 - b) * 2 ^ b" using assms(3) by (simp flip: power_add)
  then have "unat page * 2 ^ b < 2 ^ (64 - b) * 2 ^ b" using assms(4) by (simp only:)
  then have "unat page < 2 ^ (64 - b)" by simp
  then have p: "\<not> bit page n" if "64 - b \<le> n" for n using that by (rule high_bit_zero)
  have r': "n < k" if "bit r n" for n using r that not_less by blast
  show "(push_bit b page OR r) AND mask k = r"
    using assms(2) r r' by (intro bit_word_eqI) (auto simp: bit_and_iff bit_or_iff bit_mask_iff bit_push_bit_iff not_less)
  have p': "b + n < 64" if "bit page n" for n using p [of n] that assms(3) by linarith
  show "drop_bit b (push_bit b page OR r) = page"
    using assms(2,3) r p' by (intro bit_word_eqI) (auto simp: bit_drop_bit_eq bit_or_iff bit_push_bit_iff not_less)
qed

lemma addr_roundtrip:
  assumes "cfg_addr pc" and "in_dom pc r pg"
  shows "addr_range pc (get_global_address pc r pg) = r" "addr_page pc (get_global_address pc r pg) = pg"
proof -
  obtain k where k: "pc_n_ranges_mask pc = mask k" "k \<le> unat (pc_n_ranges_bits pc)" "unat (pc_n_ranges_bits pc) < 64"
      "unat (pc_n_ranges pc) \<le> 2 ^ k"
    using assms(1) by (auto simp: cfg_addr_def)
  have r: "unat r < 2 ^ k" using assms(2) k(4) by (auto simp: in_dom_def word_less_nat_alt)
  have "unat pg * 2 ^ unat (pc_n_ranges_bits pc) < unat (pc_page_counts pc r) * 2 ^ unat (pc_n_ranges_bits pc)"
    using assms(2) by (auto simp: in_dom_def word_less_nat_alt)
  moreover have "unat (pc_page_counts pc r) * 2 ^ unat (pc_n_ranges_bits pc) \<le> 2 ^ 64"
    using assms by (auto simp: cfg_addr_def in_dom_def)
  ultimately have p: "unat pg * 2 ^ unat (pc_n_ranges_bits pc) < 2 ^ 64" by linarith
  show "addr_range pc (get_global_address pc r pg) = r" "addr_page pc (get_global_address pc r pg) = pg"
    using global_address_split [OF r k(2,3) p] by (simp_all add: addr_range_def addr_page_def get_global_address_def k(1))
qed

lemma global_address_inj:
  assumes "cfg_addr pc" and "in_dom pc r pg" and "in_dom pc r' pg'"
    and "get_global_address pc r pg = get_global_address pc r' pg'"
  shows "r = r'" "pg = pg'"
  using assms addr_roundtrip by metis+

subsection \<open>Blocks\<close>

definition bpage :: "'b page_cache \<Rightarrow> u64 \<Rightarrow> u64 \<Rightarrow> nat" where
  "bpage pc r pg = unat (pc_page_starts pc r) +
     (case pc_dists pc r of STRIPE \<Rightarrow> unat pg div unat (pc_n_ctrls pc) | REPLICATE \<Rightarrow> unat pg)"

lemma bpage_less:
  assumes "0 < pc_n_ctrls pc" and "in_dom pc r pg"
  shows "bpage pc r pg < unat (pc_page_starts pc r) + area_len pc r"
proof -
  let ?n = "unat (pc_n_ctrls pc)"
  have n: "0 < ?n" and p: "unat pg < unat (pc_page_counts pc r)"
    using assms by (auto simp: word_less_nat_alt in_dom_def)
  have "unat pg div ?n < (unat (pc_page_counts pc r) + ?n - 1) div ?n"
  proof -
    have "unat pg + ?n \<le> unat (pc_page_counts pc r) + ?n - 1" using p by linarith
    then have "(unat pg + ?n) div ?n \<le> (unat (pc_page_counts pc r) + ?n - 1) div ?n" by (rule div_le_mono)
    then show ?thesis using n by (simp add: div_add_self2)
  qed
  then show ?thesis using p by (cases "pc_dists pc r") (simp_all add: bpage_def area_len_def)
qed

lemma bpage_room:
  assumes "cfg_ok pc" and "in_dom pc r pg"
  shows "(bpage pc r pg + 1) * nblk pc \<le> 2 ^ 64"
proof -
  have "bpage pc r pg + 1 \<le> unat (pc_page_starts pc r) + area_len pc r"
    using bpage_less [OF _ assms(2)] assms(1) by (simp add: cfg_ok_def cfg_slots_def Suc_le_eq)
  then have "(bpage pc r pg + 1) * nblk pc \<le> (unat (pc_page_starts pc r) + area_len pc r) * nblk pc"
    by (rule mult_le_mono1)
  then show ?thesis using assms by (auto simp: cfg_ok_def cfg_disk_def in_dom_def intro: order_trans)
qed

lemma nblk_pos: "cfg_ok pc \<Longrightarrow> 0 < nblk pc"
  by (simp add: cfg_ok_def cfg_slots_def blocks_ok_def nblk_def)

lemma unat_page_lba:
  assumes "cfg_ok pc" and "in_dom pc r pg"
  shows "unat (page_lba pc r pg) = bpage pc r pg * nblk pc"
proof -
  have "(bpage pc r pg + 1) * 1 \<le> (bpage pc r pg + 1) * nblk pc"
    using nblk_pos [OF assms(1)] by (intro mult_le_mono2) simp
  then have b: "bpage pc r pg + 1 \<le> 2 ^ 64" using bpage_room [OF assms] by (simp only: mult_1_right)
  have "unat (get_backing_page pc r pg) = bpage pc r pg"
  proof (cases "pc_dists pc r")
    case REPLICATE
    then show ?thesis using b by (simp add: get_backing_page_def backing_page_def bpage_def unat_add_bounded)
  next
    case STRIPE
    then show ?thesis using b by (simp add: get_backing_page_def backing_page_def bpage_def unat_div_distrib unat_add_bounded)
  qed
  moreover have "bpage pc r pg * nblk pc < 2 ^ 64" using bpage_room [OF assms] nblk_pos [OF assms(1)] by simp
  ultimately show ?thesis by (simp add: page_lba_def nblk_def unat_mult_lem [THEN iffD1])
qed

lemma bpage_neq:
  assumes "cfg_ok pc" and "in_dom pc r pg" and "in_dom pc r' pg'" and "(r, pg) \<noteq> (r', pg')"
    and "c \<in> ctrls_of pc r pg" and "c \<in> ctrls_of pc r' pg'"
  shows "bpage pc r pg \<noteq> bpage pc r' pg'"
proof (cases "r = r'")
  case False
  have "0 < pc_n_ctrls pc" using assms(1) by (simp add: cfg_ok_def cfg_slots_def)
  then have "bpage pc r pg < unat (pc_page_starts pc r) + area_len pc r" "bpage pc r' pg' < unat (pc_page_starts pc r') + area_len pc r'"
    using bpage_less assms(2,3) by blast+
  moreover have "unat (pc_page_starts pc r) \<le> bpage pc r pg" "unat (pc_page_starts pc r') \<le> bpage pc r' pg'"
    by (simp_all add: bpage_def)
  moreover have "unat (pc_page_starts pc r) + area_len pc r \<le> unat (pc_page_starts pc r') \<or>
        unat (pc_page_starts pc r') + area_len pc r' \<le> unat (pc_page_starts pc r)"
    using assms(1-3) False unfolding cfg_ok_def cfg_disk_def in_dom_def by blast
  ultimately show ?thesis by linarith
next
  case True
  then have pg: "unat pg \<noteq> unat pg'" using assms(4) by (simp add: word_unat_eq_iff)
  show ?thesis
  proof (cases "pc_dists pc r")
    case REPLICATE
    then show ?thesis using True pg by (simp add: bpage_def)
  next
    case STRIPE
    then have "pg mod pc_n_ctrls pc = pg' mod pc_n_ctrls pc" using assms(5,6) True by (simp add: ctrls_of_def)
    then have "unat pg mod unat (pc_n_ctrls pc) = unat pg' mod unat (pc_n_ctrls pc)" by (metis unat_mod_distrib)
    then have "unat pg div unat (pc_n_ctrls pc) \<noteq> unat pg' div unat (pc_n_ctrls pc)" using pg mod_div_unique by blast
    then show ?thesis using STRIPE True by (simp add: bpage_def)
  qed
qed

text \<open>Block \<open>k\<close> of one page is outside the block range of another one on the same controller.\<close>

lemma block_unat:
  assumes "cfg_ok pc" and "in_dom pc r pg" and "k < nblk pc"
  shows "unat (page_lba pc r pg + of_nat k) = bpage pc r pg * nblk pc + k" "unat (of_nat k :: u64) = k"
proof -
  have l: "bpage pc r pg * nblk pc + k < 2 ^ 64" using bpage_room [OF assms(1,2)] assms(3) by simp
  then have k: "unat (of_nat k :: u64) = k" by (simp add: unat_of_nat)
  show "unat (of_nat k :: u64) = k" by (fact k)
  have "unat (page_lba pc r pg) + unat (of_nat k :: u64) < 2 ^ LENGTH(64)"
    using l unfolding k unat_page_lba [OF assms(1,2)] by simp
  then have "unat (page_lba pc r pg + of_nat k) = unat (page_lba pc r pg) + unat (of_nat k :: u64)"
    by (rule unat_add_bounded)
  then show "unat (page_lba pc r pg + of_nat k) = bpage pc r pg * nblk pc + k"
    unfolding k unat_page_lba [OF assms(1,2)] .
qed

lemma blocks_disjoint:
  assumes cfg: "cfg_ok pc" and d: "in_dom pc r pg" "in_dom pc r' pg'" and ne: "(r, pg) \<noteq> (r', pg')"
    and c: "c \<in> ctrls_of pc r pg" "c \<in> ctrls_of pc r' pg'" and k: "k < nblk pc"
  shows "\<not> unat (page_lba pc r' pg' + of_nat k - page_lba pc r pg) < nblk pc"
proof -
  let ?n = "nblk pc" let ?b = "bpage pc r pg" let ?b' = "bpage pc r' pg'"
  let ?l = "page_lba pc r' pg' + of_nat k"
  have l: "unat ?l = ?b' * ?n + k" by (rule block_unat [OF cfg d(2) k])
  have s: "unat (page_lba pc r pg) = ?b * ?n" by (rule unat_page_lba [OF cfg d(1)])
  have "?b < ?b' \<or> ?b' < ?b" using bpage_neq [OF cfg d ne c] by linarith
  then show ?thesis
  proof
    assume "?b < ?b'"
    then have "(?b + 1) * ?n \<le> ?b' * ?n" by (intro mult_le_mono1) simp
    then have "?b * ?n + ?n \<le> unat ?l" using l by simp
    then show ?thesis using s by (simp add: unat_sub_if')
  next
    assume "?b' < ?b"
    then have "(?b' + 1) * ?n \<le> ?b * ?n" by (intro mult_le_mono1) simp
    then have "unat ?l < unat (page_lba pc r pg)" using l s k by simp
    then have "unat (?l - page_lba pc r pg) = unat ?l + 2 ^ 64 - ?b * ?n" using s by (simp add: unat_sub_if')
    then show ?thesis using bpage_room [OF cfg d(1)] by simp
  qed
qed

lemma block_inside:
  "\<lbrakk>cfg_ok pc; in_dom pc r pg; k < nblk pc\<rbrakk> \<Longrightarrow> unat (page_lba pc r pg + of_nat k - page_lba pc r pg) = k"
  using block_unat(2) by simp

section \<open>Write-back\<close>

definition wb_disk :: "'b page_cache \<Rightarrow> u32 \<Rightarrow> u64 \<Rightarrow> u64 \<Rightarrow> u64 \<Rightarrow> u64 \<Rightarrow> 'b" where
  "wb_disk pc s r pg = (\<lambda>c. if c \<in> ctrls_of pc r pg then written pc (ucast s) (page_lba pc r pg) c else disk pc c)"

lemma write_all_ok:
  "\<lbrakk> cids_free (pc_cids pc); wf_cmd (pc_local_cmd pc); blocks_ok (pc_n_blocks_per_page pc); ctrl + n \<le> 2 ^ 64 \<rbrakk> \<Longrightarrow>
   \<exists>C T. same_cids C (pc_cids pc) \<and> write_all pc q lba e ctrl n = Some (pc\<lparr>pc_cids := C, pc_q_tail := T,
     disk := \<lambda>c. if ctrl \<le> unat c \<and> unat c < ctrl + n then written pc e lba c else disk pc c\<rparr>)"
proof (induction n arbitrary: pc ctrl)
  case 0
  have "(\<lambda>c. if ctrl \<le> unat c \<and> unat c < ctrl + 0 then written pc e lba c else disk pc c) = disk pc"
    by (rule ext) auto
  then show ?case using 0 by (intro exI [of _ "pc_cids pc"] exI [of _ "pc_q_tail pc"]) simp
next
  case (Suc n)
  let ?q = "q mod pc_n_qps pc (of_nat ctrl)"
  obtain C where C: "same_cids C (pc_cids pc)" and w: "write_data pc (of_nat ctrl) ?q lba (pc_n_blocks_per_page pc) e =
      Some (pc\<lparr>pc_cids := C, pc_q_tail := pc_q_tail pc + 1, disk := (disk pc)(of_nat ctrl := written pc e lba (of_nat ctrl))\<rparr>)"
    using write_data_ok [OF Suc.prems(1-3)] by blast
  let ?pc = "pc\<lparr>pc_cids := C, pc_q_tail := pc_q_tail pc + 1, disk := (disk pc)(of_nat ctrl := written pc e lba (of_nat ctrl))\<rparr>"
  obtain C' T where "same_cids C' C" and r: "write_all ?pc q lba e (ctrl + 1) n = Some (?pc\<lparr>pc_cids := C', pc_q_tail := T,
     disk := \<lambda>c. if ctrl + 1 \<le> unat c \<and> unat c < ctrl + 1 + n then written ?pc e lba c else disk ?pc c\<rparr>)"
    using Suc.IH [of ?pc "ctrl + 1"] Suc.prems same_cids_free [OF C] by auto
  moreover have "(\<lambda>c. if ctrl + 1 \<le> unat c \<and> unat c < ctrl + 1 + n then written ?pc e lba c else disk ?pc c) =
      (\<lambda>c. if ctrl \<le> unat c \<and> unat c < ctrl + Suc n then written pc e lba c else disk pc c)"
  proof
    fix c :: u64
    have u: "unat (of_nat ctrl :: u64) = ctrl" using Suc.prems(4) by (simp add: unat_of_nat)
    then have eq: "c = of_nat ctrl \<longleftrightarrow> unat c = ctrl" by (metis word_unat_eq_iff)
    show "(if ctrl + 1 \<le> unat c \<and> unat c < ctrl + 1 + n then written ?pc e lba c else disk ?pc c) =
      (if ctrl \<le> unat c \<and> unat c < ctrl + Suc n then written pc e lba c else disk pc c)"
      using eq by (auto simp: written_def fun_eq_iff)
  qed
  ultimately show ?case using w same_cids_trans [OF _ C] by (auto simp: Let_def)
qed

lemma write_back_ok:
  assumes "cids_free (pc_cids pc)" and "cfg_ok pc"
  shows "\<exists>C T. same_cids C (pc_cids pc) \<and> write_back pc q s r pg = Some (pc\<lparr>pc_cids := C, pc_q_tail := T, disk := wb_disk pc s r pg\<rparr>)"
proof -
  have w: "wf_cmd (pc_local_cmd pc)" "blocks_ok (pc_n_blocks_per_page pc)" and n: "0 < pc_n_ctrls pc"
    using assms(2) by (simp_all add: cfg_ok_def cfg_slots_def)
  show ?thesis
  proof (cases "pc_dists pc r")
    case STRIPE
    have "pg mod pc_n_ctrls pc < pc_n_ctrls pc" using n by (simp add: word_mod_less_divisor)
    then have "pg mod pc_n_ctrls pc \<noteq> ALL_CTRLS"
      using unsigned_less [of "pc_n_ctrls pc", where 'a = nat] by (auto simp: ALL_CTRLS_def word_less_nat_alt)
    moreover have "wb_disk pc s r pg = (disk pc)(pg mod pc_n_ctrls pc := written pc (ucast s) (page_lba pc r pg) (pg mod pc_n_ctrls pc))"
      using STRIPE by (auto simp: wb_disk_def ctrls_of_def)
    moreover obtain C where "same_cids C (pc_cids pc)" "write_data pc (pg mod pc_n_ctrls pc) (q mod pc_n_qps pc (pg mod pc_n_ctrls pc))
        (page_lba pc r pg) (pc_n_blocks_per_page pc) (ucast s) = Some (pc\<lparr>pc_cids := C, pc_q_tail := pc_q_tail pc + 1,
          disk := (disk pc)(pg mod pc_n_ctrls pc := written pc (ucast s) (page_lba pc r pg) (pg mod pc_n_ctrls pc))\<rparr>)"
      using write_data_ok [OF assms(1) w] by blast
    ultimately show ?thesis using STRIPE
      by (auto simp: write_back_def Let_def backing_ctrl_def page_lba_def get_backing_page_def
          intro!: exI [of _ C] exI [of _ "pc_q_tail pc + 1"])
  next
    case REPLICATE
    have "unat (pc_n_ctrls pc) \<le> 2 ^ 64" using unsigned_less [of "pc_n_ctrls pc", where 'a = nat] by simp
    then obtain C T where "same_cids C (pc_cids pc)" "write_all pc q (page_lba pc r pg) (ucast s) 0 (unat (pc_n_ctrls pc)) =
        Some (pc\<lparr>pc_cids := C, pc_q_tail := T,
          disk := \<lambda>c. if 0 \<le> unat c \<and> unat c < 0 + unat (pc_n_ctrls pc) then written pc (ucast s) (page_lba pc r pg) c else disk pc c\<rparr>)"
      using write_all_ok [OF assms(1) w, of 0 "unat (pc_n_ctrls pc)" q "page_lba pc r pg" "ucast s"] by auto
    then show ?thesis using REPLICATE
      by (auto simp: write_back_def Let_def backing_ctrl_def wb_disk_def ctrls_of_def page_lba_def get_backing_page_def
          word_less_nat_alt intro!: exI [of _ C] exI [of _ T])
  qed
qed

section \<open>Invariant\<close>

text \<open>
  Slots outside \<open>X\<close> are free or hold the valid page whose address they carry; a valid page is
  not busy and owns its slot; a dirty page is valid; and the blocks of a page that is not dirty
  hold its content on every controller that stores it.
\<close>

definition dstate :: "'b page_cache \<Rightarrow> u64 \<Rightarrow> u64 \<Rightarrow> u32" where
  "dstate pc r pg = dp_state (pc_ranges pc r pg)"

definition doffset :: "'b page_cache \<Rightarrow> u64 \<Rightarrow> u64 \<Rightarrow> u32" where
  "doffset pc r pg = dp_offset (pc_ranges pc r pg)"

definition is_slot :: "'b page_cache \<Rightarrow> u32 \<Rightarrow> bool" where
  "is_slot pc s \<longleftrightarrow> ucast s < pc_n_pages pc"

definition holds_page :: "'b page_cache \<Rightarrow> u32 \<Rightarrow> u64 \<Rightarrow> u64 \<Rightarrow> bool" where
  "holds_page pc s r pg \<longleftrightarrow> page_take_lock (pc_cache_pages pc s) = UNLOCKED \<and>
     page_translation (pc_cache_pages pc s) = get_global_address pc r pg"

definition slots_ok :: "u32 set \<Rightarrow> 'b page_cache \<Rightarrow> bool" where
  "slots_ok X pc \<longleftrightarrow> (\<forall>s. is_slot pc s \<longrightarrow> s \<notin> X \<longrightarrow> page_take_lock (pc_cache_pages pc s) = FREE \<or>
     (\<exists>r pg. in_dom pc r pg \<and> holds_page pc s r pg \<and> is_valid (dstate pc r pg) \<and> doffset pc r pg = s))"

definition pages_ok :: "u32 set \<Rightarrow> 'b page_cache \<Rightarrow> bool" where
  "pages_ok X pc \<longleftrightarrow> (\<forall>r pg. in_dom pc r pg \<longrightarrow>
     (is_valid (dstate pc r pg) \<longrightarrow> \<not> is_busy (dstate pc r pg) \<and> doffset pc r pg \<notin> X \<and> is_slot pc (doffset pc r pg) \<and>
        holds_page pc (doffset pc r pg) r pg) \<and>
     (is_dirty (dstate pc r pg) \<longrightarrow> is_valid (dstate pc r pg)))"

definition slot_data :: "'b page_cache \<Rightarrow> u32 \<Rightarrow> nat \<Rightarrow> 'b" where
  "slot_data pc s = frame pc (pc_prp1 pc (ucast s))"

definition content :: "'b page_cache \<Rightarrow> u64 \<Rightarrow> u64 \<Rightarrow> nat \<Rightarrow> 'b" where
  "content pc r pg k =
     (if is_valid (dstate pc r pg) then slot_data pc (doffset pc r pg) k
      else disk pc (home_ctrl pc r pg) (page_lba pc r pg + of_nat k))"

definition data_ok :: "'b page_cache \<Rightarrow> bool" where
  "data_ok pc \<longleftrightarrow> (\<forall>r pg. in_dom pc r pg \<longrightarrow> \<not> is_dirty (dstate pc r pg) \<longrightarrow>
     (\<forall>k < nblk pc. \<forall>c \<in> ctrls_of pc r pg. disk pc c (page_lba pc r pg + of_nat k) = content pc r pg k))"

definition inv0 :: "u32 set \<Rightarrow> 'b page_cache \<Rightarrow> bool" where
  "inv0 X pc \<longleftrightarrow> cfg_ok pc \<and> cids_free (pc_cids pc) \<and> slots_ok X pc \<and> pages_ok X pc \<and> data_ok pc"

definition quiet :: "'b page_cache \<Rightarrow> bool" where
  "quiet pc \<longleftrightarrow> (\<forall>r pg. in_dom pc r pg \<longrightarrow> \<not> is_busy (dstate pc r pg))"

definition cache_inv :: "'b page_cache \<Rightarrow> bool" where
  "cache_inv pc \<longleftrightarrow> inv0 {} pc \<and> quiet pc"

definition same_content :: "'b page_cache \<Rightarrow> 'b page_cache \<Rightarrow> bool" where
  "same_content pc' pc \<longleftrightarrow> (\<forall>r pg. in_dom pc r pg \<longrightarrow> (\<forall>k < nblk pc. content pc' r pg k = content pc r pg k))"

definition cfg_eq :: "'b page_cache \<Rightarrow> 'b page_cache \<Rightarrow> bool" where
  "cfg_eq pc' pc \<longleftrightarrow> pc_n_pages pc' = pc_n_pages pc \<and> pc_n_ctrls pc' = pc_n_ctrls pc \<and> pc_local_cmd pc' = pc_local_cmd pc \<and>
     pc_n_blocks_per_page pc' = pc_n_blocks_per_page pc \<and> pc_prp1 pc' = pc_prp1 pc \<and> pc_n_ranges_mask pc' = pc_n_ranges_mask pc \<and>
     pc_n_ranges_bits pc' = pc_n_ranges_bits pc \<and> pc_n_ranges pc' = pc_n_ranges pc \<and> pc_page_counts pc' = pc_page_counts pc \<and>
     pc_page_starts pc' = pc_page_starts pc \<and> pc_dists pc' = pc_dists pc \<and> pc_base_addr pc' = pc_base_addr pc \<and>
     pc_page_size pc' = pc_page_size pc \<and> pc_page_size_log pc' = pc_page_size_log pc \<and> pc_n_qps pc' = pc_n_qps pc"

lemma cfg_eqD:
  assumes "cfg_eq pc' pc"
  shows "cfg_ok pc' = cfg_ok pc" "in_dom pc' = in_dom pc" "ctrls_of pc' = ctrls_of pc" "home_ctrl pc' = home_ctrl pc"
    "nblk pc' = nblk pc" "page_lba pc' = page_lba pc" "get_global_address pc' = get_global_address pc" "is_slot pc' = is_slot pc"
    "addr_range pc' = addr_range pc" "addr_page pc' = addr_page pc"
proof -
  note e = assms [unfolded cfg_eq_def]
  show "in_dom pc' = in_dom pc" "ctrls_of pc' = ctrls_of pc" "home_ctrl pc' = home_ctrl pc"
    "nblk pc' = nblk pc" "page_lba pc' = page_lba pc" "get_global_address pc' = get_global_address pc" "is_slot pc' = is_slot pc"
    "addr_range pc' = addr_range pc" "addr_page pc' = addr_page pc"
    using e by (simp_all add: fun_eq_iff in_dom_def ctrls_of_def home_ctrl_def nblk_def page_lba_def get_backing_page_def
        get_global_address_def is_slot_def addr_range_def addr_page_def split: data_dist_t.splits)
  show "cfg_ok pc' = cfg_ok pc"
  proof -
    have "area_len pc' = area_len pc" using e by (simp add: fun_eq_iff area_len_def split: data_dist_t.splits)
    then show ?thesis using e by (simp add: cfg_ok_def cfg_slots_def cfg_addr_def cfg_disk_def nblk_def)
  qed
qed

lemma same_content_refl [simp]: "same_content pc pc"
  by (simp add: same_content_def)

lemma same_content_trans:
  "\<lbrakk>same_content pc2 pc1; same_content pc1 pc; cfg_eq pc1 pc\<rbrakk> \<Longrightarrow> same_content pc2 pc"
  by (simp add: same_content_def cfg_eqD)

lemma cfg_eq_refl [simp]: "cfg_eq pc pc" and cfg_eq_trans: "cfg_eq a b \<Longrightarrow> cfg_eq b c \<Longrightarrow> cfg_eq a c"
  by (simp_all add: cfg_eq_def)

lemma home_in_ctrls: "0 < pc_n_ctrls pc \<Longrightarrow> home_ctrl pc r pg \<in> ctrls_of pc r pg"
  by (cases "pc_dists pc r") (simp_all add: home_ctrl_def ctrls_of_def)

section \<open>The invariant step by step\<close>

lemma inv0D:
  assumes "inv0 X pc"
  shows "cfg_ok pc" "cids_free (pc_cids pc)" "0 < pc_n_ctrls pc"
  using assms by (simp_all add: inv0_def cfg_ok_def cfg_slots_def)

lemma inv0_valid:
  assumes "inv0 X pc" and "in_dom pc r pg" and "is_valid (dstate pc r pg)"
  shows "\<not> is_busy (dstate pc r pg)" "doffset pc r pg \<notin> X" "is_slot pc (doffset pc r pg)" "holds_page pc (doffset pc r pg) r pg"
  using assms by (simp_all add: inv0_def pages_ok_def)

lemma inv0_dirty: "\<lbrakk>inv0 X pc; in_dom pc r pg; is_dirty (dstate pc r pg)\<rbrakk> \<Longrightarrow> is_valid (dstate pc r pg)"
  by (simp add: inv0_def pages_ok_def)

lemma inv0_clean:
  "\<lbrakk>inv0 X pc; in_dom pc r pg; \<not> is_dirty (dstate pc r pg); k < nblk pc; c \<in> ctrls_of pc r pg\<rbrakk> \<Longrightarrow>
   disk pc c (page_lba pc r pg + of_nat k) = content pc r pg k"
  by (simp add: inv0_def data_ok_def)

text \<open>Two valid pages never share a slot, and a slot determines its frame.\<close>

lemma offset_inj:
  assumes "inv0 X pc" and "in_dom pc r pg" "is_valid (dstate pc r pg)" and "in_dom pc r' pg'" "is_valid (dstate pc r' pg')"
    and "doffset pc r pg = doffset pc r' pg'"
  shows "r = r' \<and> pg = pg'"
proof -
  have "get_global_address pc r pg = get_global_address pc r' pg'"
    using inv0_valid(4) [OF assms(1-3)] inv0_valid(4) [OF assms(1,4,5)] assms(6) by (simp add: holds_page_def)
  then show ?thesis using global_address_inj assms(1,2,4) by (auto simp: inv0_def cfg_ok_def)
qed

lemma prp1_inj:
  assumes "cfg_ok pc" and "is_slot pc s" and "is_slot pc s'" and "pc_prp1 pc (ucast s) = pc_prp1 pc (ucast s')"
  shows "s = s'"
proof -
  have "(ucast s :: u64) = ucast s'"
    using assms by (auto simp: cfg_ok_def cfg_slots_def is_slot_def dest: inj_onD)
  then have "unat (ucast s :: u64) = unat (ucast s' :: u64)" by simp
  then have "unat s = unat s'" by (simp add: unat_ucast_up)
  then show ?thesis by (simp add: word_unat_eq_iff)
qed

lemma inv0_flags:
  assumes inv: "inv0 X pc" and eq: "cfg_eq pc' pc" and cids: "cids_free (pc_cids pc')"
    and same: "pc_cache_pages pc' = pc_cache_pages pc" "disk pc' = disk pc" "frame pc' = frame pc"
    and st: "\<And>r pg. in_dom pc r pg \<Longrightarrow> is_valid (dstate pc' r pg) = is_valid (dstate pc r pg) \<and>
        (is_valid (dstate pc r pg) \<longrightarrow> doffset pc' r pg = doffset pc r pg \<and> \<not> is_busy (dstate pc' r pg)) \<and>
        (is_dirty (dstate pc r pg) \<longrightarrow> is_dirty (dstate pc' r pg)) \<and> (is_dirty (dstate pc' r pg) \<longrightarrow> is_valid (dstate pc r pg))"
  shows "inv0 X pc'" "same_content pc' pc"
proof -
  note e = cfg_eqD [OF eq]
  have p: "pc_prp1 pc' = pc_prp1 pc" using eq by (simp add: cfg_eq_def)
  have c: "content pc' r pg k = content pc r pg k" if "in_dom pc r pg" for r pg k
    using st [OF that] by (simp add: content_def slot_data_def same e p)
  have h: "holds_page pc' = holds_page pc" by (simp add: fun_eq_iff holds_page_def same e)
  show "same_content pc' pc" using c by (simp add: same_content_def)
  have "slots_ok X pc'"
  proof (unfold slots_ok_def e h same, intro allI impI)
    fix s assume "is_slot pc s" "s \<notin> X"
    then consider "page_take_lock (pc_cache_pages pc s) = FREE"
      | r pg where "in_dom pc r pg" "holds_page pc s r pg" "is_valid (dstate pc r pg)" "doffset pc r pg = s"
      using inv by (auto simp: inv0_def slots_ok_def)
    then show "page_take_lock (pc_cache_pages pc s) = FREE \<or>
        (\<exists>r pg. in_dom pc r pg \<and> holds_page pc s r pg \<and> is_valid (dstate pc' r pg) \<and> doffset pc' r pg = s)"
      using st by cases auto
  qed
  moreover have "pages_ok X pc'"
    unfolding pages_ok_def e h using st inv by (simp add: inv0_def pages_ok_def)
  moreover have "data_ok pc'"
  proof (unfold data_ok_def e same, intro allI impI ballI)
    fix r pg k x assume a: "in_dom pc r pg" "\<not> is_dirty (dstate pc' r pg)" "k < nblk pc" "x \<in> ctrls_of pc r pg"
    then have "\<not> is_dirty (dstate pc r pg)" using st by blast
    then show "disk pc x (page_lba pc r pg + of_nat k) = content pc' r pg k"
      using inv0_clean [OF inv a(1) _ a(3,4)] c [OF a(1)] by simp
  qed
  ultimately show "inv0 X pc'" using inv cids by (simp add: inv0_def e)
qed

lemma inv0_free:
  assumes "inv0 X pc" and "page_take_lock (pc_cache_pages pc s) = FREE"
  shows "inv0 (insert s X) pc"
  using assms by (auto simp: inv0_def slots_ok_def pages_ok_def holds_page_def)

text \<open>Giving a taken slot a new address.\<close>

lemma inv0_take:
  assumes inv: "inv0 (insert s X) pc" and eq: "cfg_eq pc' pc" and cids: "cids_free (pc_cids pc')"
    and same: "disk pc' = disk pc" "frame pc' = frame pc" "pc_ranges pc' = pc_ranges pc"
    and slots: "\<And>x. x \<noteq> s \<Longrightarrow> pc_cache_pages pc' x = pc_cache_pages pc x"
  shows "inv0 (insert s X) pc'" "same_content pc' pc"
proof -
  note e = cfg_eqD [OF eq]
  have p: "pc_prp1 pc' = pc_prp1 pc" using eq by (simp add: cfg_eq_def)
  have d: "dstate pc' = dstate pc" "doffset pc' = doffset pc" by (simp_all add: fun_eq_iff dstate_def doffset_def same)
  have c: "content pc' = content pc" by (simp add: fun_eq_iff content_def slot_data_def same e p d)
  have h: "holds_page pc' x = holds_page pc x" if "x \<noteq> s" for x using slots [OF that] by (simp add: fun_eq_iff holds_page_def e)
  show "same_content pc' pc" by (simp add: same_content_def c)
  have "slots_ok (insert s X) pc'" using inv by (auto simp: inv0_def slots_ok_def e d h slots)
  moreover have "pages_ok (insert s X) pc'" using inv by (auto simp: inv0_def pages_ok_def e d h)
  moreover have "data_ok pc'" using inv by (simp add: inv0_def data_ok_def e d c same)
  ultimately show "inv0 (insert s X) pc'" using inv cids by (simp add: inv0_def e)
qed

text \<open>Reading into a taken slot.\<close>

lemma inv0_read:
  assumes inv: "inv0 (insert s X) pc" and s: "is_slot pc s" and eq: "cfg_eq pc' pc" and cids: "cids_free (pc_cids pc')"
    and same: "disk pc' = disk pc" "pc_cache_pages pc' = pc_cache_pages pc" "pc_ranges pc' = pc_ranges pc"
    and fr: "\<And>a. a \<noteq> pc_prp1 pc (ucast s) \<Longrightarrow> frame pc' a = frame pc a"
  shows "inv0 (insert s X) pc'" "same_content pc' pc"
proof -
  note e = cfg_eqD [OF eq]
  have p: "pc_prp1 pc' = pc_prp1 pc" using eq by (simp add: cfg_eq_def)
  have d: "dstate pc' = dstate pc" "doffset pc' = doffset pc" by (simp_all add: fun_eq_iff dstate_def doffset_def same)
  have h: "holds_page pc' = holds_page pc" by (simp add: fun_eq_iff holds_page_def e same)
  have c: "content pc' r pg k = content pc r pg k" if "in_dom pc r pg" for r pg k
  proof (cases "is_valid (dstate pc r pg)")
    case True
    note v = inv0_valid [OF inv that True]
    have "pc_prp1 pc (ucast (doffset pc r pg)) \<noteq> pc_prp1 pc (ucast s)"
      using prp1_inj [OF inv0D(1) [OF inv] v(3) s] v(2) by blast
    then show ?thesis using True by (simp add: content_def slot_data_def d p fr)
  qed (simp add: content_def d e same)
  show "same_content pc' pc" using c by (simp add: same_content_def)
  have "slots_ok (insert s X) pc'" using inv by (simp add: inv0_def slots_ok_def e d h same)
  moreover have "pages_ok (insert s X) pc'" using inv by (simp add: inv0_def pages_ok_def e d h)
  moreover have "data_ok pc'" using inv c by (simp add: inv0_def data_ok_def e d same)
  ultimately show "inv0 (insert s X) pc'" using inv cids by (simp add: inv0_def e)
qed

text \<open>Handing the filled slot to its page.\<close>

lemma inv0_fill:
  assumes inv: "inv0 (insert s X) pc" and s: "is_slot pc s" "s \<notin> X" and eq: "cfg_eq pc' pc" and cids: "cids_free (pc_cids pc')"
    and same: "disk pc' = disk pc" "pc_cache_pages pc' = pc_cache_pages pc" "frame pc' = frame pc"
    and dom: "in_dom pc r pg" and h: "holds_page pc s r pg" and nv: "\<not> is_valid (dstate pc r pg)"
    and fr: "\<And>k. k < nblk pc \<Longrightarrow> slot_data pc s k = content pc r pg k"
    and new: "is_valid (dstate pc' r pg)" "\<not> is_busy (dstate pc' r pg)" "doffset pc' r pg = s"
    and others: "\<And>r' pg'. (r', pg') \<noteq> (r, pg) \<Longrightarrow> dstate pc' r' pg' = dstate pc r' pg' \<and> doffset pc' r' pg' = doffset pc r' pg'"
  shows "inv0 X pc'" "same_content pc' pc"
proof -
  note e = cfg_eqD [OF eq]
  have p: "pc_prp1 pc' = pc_prp1 pc" using eq by (simp add: cfg_eq_def)
  have hp: "holds_page pc' = holds_page pc" by (simp add: fun_eq_iff holds_page_def e same)
  have sd: "slot_data pc' = slot_data pc" by (simp add: fun_eq_iff slot_data_def p same)
  have c: "content pc' r' pg' k = content pc r' pg' k" if "in_dom pc r' pg'" "k < nblk pc" for r' pg' k
  proof (cases "(r', pg') = (r, pg)")
    case True
    then show ?thesis using new fr [OF that(2)] by (simp add: content_def sd)
  next
    case False
    then show ?thesis using others [OF False] by (simp add: content_def sd e same)
  qed
  show "same_content pc' pc" using c by (simp add: same_content_def)
  have "slots_ok X pc'"
  proof (unfold slots_ok_def e hp same, intro allI impI)
    fix x assume x: "is_slot pc x" "x \<notin> X"
    show "page_take_lock (pc_cache_pages pc x) = FREE \<or>
        (\<exists>r pg. in_dom pc r pg \<and> holds_page pc x r pg \<and> is_valid (dstate pc' r pg) \<and> doffset pc' r pg = x)"
    proof (cases "x = s")
      case True
      then show ?thesis using dom h new by blast
    next
      case False
      then consider "page_take_lock (pc_cache_pages pc x) = FREE"
        | r' pg' where "in_dom pc r' pg'" "holds_page pc x r' pg'" "is_valid (dstate pc r' pg')" "doffset pc r' pg' = x"
        using inv x by (auto simp: inv0_def slots_ok_def)
      then show ?thesis
      proof cases
        case (2 r' pg')
        then have "(r', pg') \<noteq> (r, pg)" using nv by auto
        then show ?thesis using 2 others by metis
      qed simp
    qed
  qed
  moreover have "pages_ok X pc'"
  proof (unfold pages_ok_def e hp, intro allI impI)
    fix r' pg' assume d: "in_dom pc r' pg'"
    show "(is_valid (dstate pc' r' pg') \<longrightarrow> \<not> is_busy (dstate pc' r' pg') \<and> doffset pc' r' pg' \<notin> X \<and>
        is_slot pc (doffset pc' r' pg') \<and> holds_page pc (doffset pc' r' pg') r' pg') \<and>
        (is_dirty (dstate pc' r' pg') \<longrightarrow> is_valid (dstate pc' r' pg'))"
    proof (cases "(r', pg') = (r, pg)")
      case True
      then show ?thesis using new h s by simp
    next
      case False
      then show ?thesis using others [OF False] inv0_valid [OF inv d] inv0_dirty [OF inv d] by simp
    qed
  qed
  moreover have "data_ok pc'"
  proof (unfold data_ok_def e same, intro allI impI ballI)
    fix r' pg' k x assume a: "in_dom pc r' pg'" "\<not> is_dirty (dstate pc' r' pg')" "k < nblk pc" "x \<in> ctrls_of pc r' pg'"
    have "\<not> is_dirty (dstate pc r' pg')"
    proof (cases "(r', pg') = (r, pg)")
      case True
      then show ?thesis using nv inv0_dirty [OF inv dom] by blast
    next
      case False
      then show ?thesis using others [OF False] a(2) by simp
    qed
    then show "disk pc x (page_lba pc r' pg' + of_nat k) = content pc' r' pg' k"
      using inv0_clean [OF inv a(1) _ a(3,4)] c [OF a(1,3)] by simp
  qed
  ultimately show "inv0 X pc'" using inv cids by (simp add: inv0_def e)
qed

text \<open>Writing a page back: its blocks hold its content afterwards, the blocks of others are untouched.\<close>

lemma wb_disk_own:
  assumes "inv0 X pc" and "in_dom pc r pg" and "is_valid (dstate pc r pg)" and "k < nblk pc" and "c \<in> ctrls_of pc r pg"
  shows "wb_disk pc (doffset pc r pg) r pg c (page_lba pc r pg + of_nat k) = content pc r pg k"
  using assms block_inside [OF inv0D(1) [OF assms(1)] assms(2,4)]
  by (simp add: wb_disk_def written_def content_def slot_data_def nblk_def)

lemma wb_disk_other:
  assumes "inv0 X pc" and "in_dom pc r pg" and "in_dom pc r' pg'" and "(r', pg') \<noteq> (r, pg)"
    and "k < nblk pc" and "c \<in> ctrls_of pc r' pg'"
  shows "wb_disk pc s r pg c (page_lba pc r' pg' + of_nat k) = disk pc c (page_lba pc r' pg' + of_nat k)"
proof (cases "c \<in> ctrls_of pc r pg")
  case True
  then have "\<not> unat (page_lba pc r' pg' + of_nat k - page_lba pc r pg) < nblk pc"
    using blocks_disjoint [OF inv0D(1) [OF assms(1)] assms(2,3) _ True assms(6,5)] assms(4) by auto
  then show ?thesis by (simp add: wb_disk_def written_def nblk_def)
qed (simp add: wb_disk_def)

lemma content_stored:
  assumes inv: "inv0 X pc" and d: "in_dom pc r pg" and st: "is_dirty (dstate pc r pg) \<Longrightarrow> D = wb_disk pc (doffset pc r pg) r pg"
      "\<not> is_dirty (dstate pc r pg) \<Longrightarrow> D = disk pc" and k: "k < nblk pc" and c: "c \<in> ctrls_of pc r pg"
  shows "D c (page_lba pc r pg + of_nat k) = content pc r pg k"
  using wb_disk_own [OF inv d _ k c] inv0_dirty [OF inv d] inv0_clean [OF inv d _ k c] st by metis

text \<open>Eviction and flush: the disk of a page is brought up to date and its dirty bit dropped.\<close>

lemma stored_disk:
  assumes inv: "inv0 X pc" and eq: "cfg_eq pc' pc" and dom: "in_dom pc r pg" and v: "is_valid (dstate pc r pg)"
    and D: "disk pc' = (if is_dirty (dstate pc r pg) then wb_disk pc (doffset pc r pg) r pg else disk pc)"
    and same: "frame pc' = frame pc"
    and own: "is_valid (dstate pc' r pg) \<longrightarrow> doffset pc' r pg = doffset pc r pg"
    and others: "\<And>r' pg'. (r', pg') \<noteq> (r, pg) \<Longrightarrow> dstate pc' r' pg' = dstate pc r' pg' \<and> doffset pc' r' pg' = doffset pc r' pg'"
  shows "same_content pc' pc" "data_ok pc'"
proof -
  note e = cfg_eqD [OF eq]
  have sd: "slot_data pc' = slot_data pc" using eq by (simp add: fun_eq_iff slot_data_def same cfg_eq_def)
  have own': "disk pc' c (page_lba pc r pg + of_nat k) = content pc r pg k" if "k < nblk pc" "c \<in> ctrls_of pc r pg" for k c
    using that by (intro content_stored [OF inv dom]) (simp_all add: D)
  have oth: "disk pc' c (page_lba pc r' pg' + of_nat k) = disk pc c (page_lba pc r' pg' + of_nat k)"
    if "in_dom pc r' pg'" "(r', pg') \<noteq> (r, pg)" "k < nblk pc" "c \<in> ctrls_of pc r' pg'" for r' pg' k c
    using wb_disk_other [OF inv dom that] by (simp add: D)
  have c: "content pc' r' pg' k = content pc r' pg' k" if d: "in_dom pc r' pg'" and k: "k < nblk pc" for r' pg' k
  proof (cases "(r', pg') = (r, pg)")
    case True
    then show ?thesis
      using own v own' [OF k home_in_ctrls [OF inv0D(3) [OF inv]]] by (auto simp: content_def [of pc'] sd e) (simp add: content_def)
  next
    case False
    then show ?thesis
      using others [OF False] oth [OF d False k home_in_ctrls [OF inv0D(3) [OF inv]]] by (simp add: content_def sd e)
  qed
  show "same_content pc' pc" using c by (simp add: same_content_def)
  show "data_ok pc'"
  proof (unfold data_ok_def e, intro allI impI ballI)
    fix r' pg' k x assume a: "in_dom pc r' pg'" "\<not> is_dirty (dstate pc' r' pg')" "k < nblk pc" "x \<in> ctrls_of pc r' pg'"
    show "disk pc' x (page_lba pc r' pg' + of_nat k) = content pc' r' pg' k"
    proof (cases "(r', pg') = (r, pg)")
      case True
      then show ?thesis using own' a(3,4) c [OF a(1,3)] by simp
    next
      case False
      then show ?thesis
        using oth [OF a(1) False a(3,4)] others [OF False] a(2) inv0_clean [OF inv a(1) _ a(3,4)] c [OF a(1,3)] by simp
    qed
  qed
qed

lemma inv0_evict:
  assumes inv: "inv0 X pc" and eq: "cfg_eq pc' pc" and cids: "cids_free (pc_cids pc')"
    and dom: "in_dom pc r pg" and v: "is_valid (dstate pc r pg)"
    and D: "disk pc' = (if is_dirty (dstate pc r pg) then wb_disk pc (doffset pc r pg) r pg else disk pc)"
    and same: "frame pc' = frame pc" and slots: "\<And>x. x \<noteq> doffset pc r pg \<Longrightarrow> pc_cache_pages pc' x = pc_cache_pages pc x"
    and own: "\<not> is_valid (dstate pc' r pg)" "\<not> is_dirty (dstate pc' r pg)"
    and others: "\<And>r' pg'. (r', pg') \<noteq> (r, pg) \<Longrightarrow> dstate pc' r' pg' = dstate pc r' pg' \<and> doffset pc' r' pg' = doffset pc r' pg'"
  shows "inv0 (insert (doffset pc r pg) X) pc'" "same_content pc' pc"
proof -
  note e = cfg_eqD [OF eq]
  let ?s = "doffset pc r pg"
  have h: "holds_page pc' x = holds_page pc x" if "x \<noteq> ?s" for x using slots [OF that] by (simp add: fun_eq_iff holds_page_def e)
  have sd: "same_content pc' pc" "data_ok pc'"
    using stored_disk [OF inv eq dom v D same _ others] own by simp_all
  show "same_content pc' pc" by (fact sd)
  have "slots_ok (insert ?s X) pc'"
  proof (unfold slots_ok_def e, intro allI impI)
    fix x assume "is_slot pc x" "x \<notin> insert ?s X"
    then consider "page_take_lock (pc_cache_pages pc x) = FREE"
      | r' pg' where "in_dom pc r' pg'" "holds_page pc x r' pg'" "is_valid (dstate pc r' pg')" "doffset pc r' pg' = x"
      using inv by (auto simp: inv0_def slots_ok_def)
    then show "page_take_lock (pc_cache_pages pc' x) = FREE \<or>
      (\<exists>r pg. in_dom pc r pg \<and> holds_page pc' x r pg \<and> is_valid (dstate pc' r pg) \<and> doffset pc' r pg = x)"
    proof cases
      case 1
      then show ?thesis using slots \<open>x \<notin> insert ?s X\<close> by simp
    next
      case (2 r' pg')
      then have "(r', pg') \<noteq> (r, pg)" using \<open>x \<notin> insert ?s X\<close> by auto
      then show ?thesis using 2 others h \<open>x \<notin> insert ?s X\<close> by (metis insertI1)
    qed
  qed
  moreover have "pages_ok (insert ?s X) pc'"
  proof (unfold pages_ok_def e, intro allI impI)
    fix r' pg' assume d: "in_dom pc r' pg'"
    show "(is_valid (dstate pc' r' pg') \<longrightarrow> \<not> is_busy (dstate pc' r' pg') \<and> doffset pc' r' pg' \<notin> insert ?s X \<and>
        is_slot pc (doffset pc' r' pg') \<and> holds_page pc' (doffset pc' r' pg') r' pg') \<and>
        (is_dirty (dstate pc' r' pg') \<longrightarrow> is_valid (dstate pc' r' pg'))"
    proof (cases "(r', pg') = (r, pg)")
      case True
      then show ?thesis using own by simp
    next
      case False
      have "doffset pc r' pg' \<noteq> ?s" if "is_valid (dstate pc r' pg')"
        using offset_inj [OF inv d that dom v] False by auto
      then show ?thesis using others [OF False] inv0_valid [OF inv d] inv0_dirty [OF inv d] h by auto
    qed
  qed
  ultimately show "inv0 (insert ?s X) pc'" using inv cids sd(2) by (simp add: inv0_def e)
qed

lemma inv0_flush:
  assumes inv: "inv0 X pc" and eq: "cfg_eq pc' pc" and cids: "cids_free (pc_cids pc')"
    and dom: "in_dom pc r pg" and v: "is_valid (dstate pc r pg)"
    and D: "disk pc' = (if is_dirty (dstate pc r pg) then wb_disk pc (doffset pc r pg) r pg else disk pc)"
    and same: "frame pc' = frame pc" "pc_cache_pages pc' = pc_cache_pages pc"
    and own: "is_valid (dstate pc' r pg)" "\<not> is_busy (dstate pc' r pg)" "doffset pc' r pg = doffset pc r pg"
    and others: "\<And>r' pg'. (r', pg') \<noteq> (r, pg) \<Longrightarrow> dstate pc' r' pg' = dstate pc r' pg' \<and> doffset pc' r' pg' = doffset pc r' pg'"
  shows "inv0 X pc'" "same_content pc' pc"
proof -
  note e = cfg_eqD [OF eq]
  have h: "holds_page pc' = holds_page pc" by (simp add: fun_eq_iff holds_page_def e same)
  have sd: "same_content pc' pc" "data_ok pc'"
    using stored_disk [OF inv eq dom v D same(1) _ others] own by simp_all
  show "same_content pc' pc" by (fact sd)
  have st: "is_valid (dstate pc' r' pg') = is_valid (dstate pc r' pg') \<and> doffset pc' r' pg' = doffset pc r' pg'" for r' pg'
    using own v others by (cases "(r', pg') = (r, pg)") auto
  have "slots_ok X pc'" using inv by (simp add: inv0_def slots_ok_def e h same st)
  moreover have "pages_ok X pc'"
  proof (unfold pages_ok_def e h, intro allI impI)
    fix r' pg' assume d: "in_dom pc r' pg'"
    show "(is_valid (dstate pc' r' pg') \<longrightarrow> \<not> is_busy (dstate pc' r' pg') \<and> doffset pc' r' pg' \<notin> X \<and>
        is_slot pc (doffset pc' r' pg') \<and> holds_page pc (doffset pc' r' pg') r' pg') \<and>
        (is_dirty (dstate pc' r' pg') \<longrightarrow> is_valid (dstate pc' r' pg'))"
      using own others inv0_valid [OF inv d] inv0_dirty [OF inv d] st by (cases "(r', pg') = (r, pg)") auto
  qed
  ultimately show "inv0 X pc'" using inv cids sd(2) by (simp add: inv0_def e)
qed

end
