(* ===== verification/Page_Cache_Ops.thy ===== *)
theory Page_Cache_Ops
  imports Page_Cache_Inv
begin

text \<open>
  What the operations of the page cache do: \<open>find_slot\<close> takes a free slot or evicts one page
  without users and ends while there is one; \<open>acquire_page\<close>, \<open>release_page\<close>, a store through a
  held page and \<open>__flush\<close> keep the invariant; and the cache as a whole refines a flat memory
  (locale \<open>memory_view\<close>).  The last theorems show where \<open>__flush\<close> and \<open>clear_cache_safe\<close> fall short.
\<close>

section \<open>Finding a slot\<close>

definition draw :: "'b page_cache \<Rightarrow> u32" where
  "draw pc = ucast (ucast (pc_page_ticket pc) mod pc_n_pages pc)"

definition evictable :: "'b page_cache \<Rightarrow> u64 \<Rightarrow> u64 \<Rightarrow> bool" where
  "evictable pc r pg \<longleftrightarrow> in_dom pc r pg \<and> is_valid (dstate pc r pg) \<and> cnt_of (dstate pc r pg) = 0"

definition set_state :: "u64 \<Rightarrow> u64 \<Rightarrow> u32 \<Rightarrow> (u64 \<Rightarrow> u64 \<Rightarrow> data_page_t) \<Rightarrow> u64 \<Rightarrow> u64 \<Rightarrow> data_page_t" where
  "set_state r pg st R = R(r := (R r)(pg := (R r pg)\<lparr>dp_state := st\<rparr>))"

text \<open>
  The slots in \<open>X\<close> wait for a transfer to finish: they are taken for pages that are not valid yet and
  have users, so that nobody takes these slots.
\<close>

definition held_slots :: "u32 set \<Rightarrow> 'b page_cache \<Rightarrow> bool" where
  "held_slots X pc \<longleftrightarrow> (\<forall>s \<in> X. is_slot pc s \<and> (\<exists>r pg. in_dom pc r pg \<and> holds_page pc s r pg \<and> \<not> is_valid (dstate pc r pg) \<and>
     cnt_of (dstate pc r pg) \<noteq> 0))"

text \<open>What a call that found slot \<open>s\<close> for address \<open>ga\<close> did: it took a free slot or evicted one unused page.\<close>

definition slot_taken :: "u32 set \<Rightarrow> 'b page_cache \<Rightarrow> 'b page_cache \<Rightarrow> u32 \<Rightarrow> u64 \<Rightarrow> bool" where
  "slot_taken X pc pc' s ga \<longleftrightarrow> inv0 (insert s X) pc' \<and> same_content pc' pc \<and> cfg_eq pc' pc \<and> is_slot pc s \<and> s \<notin> X \<and>
     page_take_lock (pc_cache_pages pc' s) = UNLOCKED \<and> page_translation (pc_cache_pages pc' s) = ga \<and>
     (\<forall>x. x \<noteq> s \<longrightarrow> pc_cache_pages pc' x = pc_cache_pages pc x) \<and> frame pc' = frame pc \<and> same_cids (pc_cids pc') (pc_cids pc) \<and>
     (pc_ranges pc' = pc_ranges pc \<or>
      (\<exists>r pg. evictable pc r pg \<and> doffset pc r pg = s \<and> pc_ranges pc' = set_state r pg 0 (pc_ranges pc)))"

lemma ucast_up_down: "ucast (ucast s :: u64) = (s :: u32)"
proof -
  have "unat (ucast (ucast s :: u64) :: u32) = unat s mod 2 ^ 32"
    using unat_ucast_mod [of "ucast s :: u64", where 'b = 32] unat_ucast_up [of s, where 'b = 64] by simp
  also have "\<dots> = unat s" using unsigned_less [of s, where 'a = nat] by simp
  finally show ?thesis by (simp add: word_unat_eq_iff)
qed

lemma is_slot_draw: "cfg_slots pc \<Longrightarrow> is_slot pc (draw pc)"
proof -
  assume c: "cfg_slots pc"
  let ?m = "ucast (pc_page_ticket pc) mod pc_n_pages pc"
  have "?m < pc_n_pages pc" using c by (simp add: cfg_slots_def word_mod_less_divisor)
  then have m: "unat ?m < unat (pc_n_pages pc)" by (simp add: word_less_nat_alt)
  moreover have "unat (pc_n_pages pc) \<le> 2 ^ 32" using c by (simp add: cfg_slots_def)
  ultimately have "unat (draw pc) = unat ?m" by (simp add: draw_def unat_ucast_mod)
  then have "unat (ucast (draw pc) :: u64) = unat ?m" by (simp add: unat_ucast_up)
  then show ?thesis using m by (simp add: is_slot_def word_less_nat_alt)
qed

lemma draw_at: "\<lbrakk>cfg_slots pc; is_slot pc s; pc_page_ticket pc = s\<rbrakk> \<Longrightarrow> draw pc = s"
proof -
  assume a: "cfg_slots pc" "is_slot pc s" "pc_page_ticket pc = s"
  have l: "unat (ucast s :: u64) = unat s" by (simp add: unat_ucast_up)
  then have "unat (ucast s mod pc_n_pages pc) = unat s" using a(2) by (simp add: is_slot_def word_less_nat_alt unat_mod_distrib)
  then have "ucast s mod pc_n_pages pc = ucast s" using l by (metis word_unat_eq_iff)
  then show ?thesis using a(3) by (simp add: draw_def ucast_up_down)
qed

lemma inv0_slotE:
  assumes "inv0 X pc" and "held_slots X pc" and "is_slot pc s"
  obtains (free) "page_take_lock (pc_cache_pages pc s) = FREE" "s \<notin> X"
    | (used) r pg where "page_take_lock (pc_cache_pages pc s) = UNLOCKED" "in_dom pc r pg" "is_valid (dstate pc r pg)"
        "doffset pc r pg = s" "page_translation (pc_cache_pages pc s) = get_global_address pc r pg" "s \<notin> X"
    | (held) r pg where "s \<in> X" "page_take_lock (pc_cache_pages pc s) = UNLOCKED" "in_dom pc r pg" "\<not> is_valid (dstate pc r pg)"
        "page_translation (pc_cache_pages pc s) = get_global_address pc r pg" "cnt_of (dstate pc r pg) \<noteq> 0"
  using assms by (cases "s \<in> X") (auto simp: inv0_def slots_ok_def holds_page_def held_slots_def)

lemma held_slots_empty [simp]: "held_slots {} pc"
  by (simp add: held_slots_def)

lemma held_slots_ticket [simp]: "held_slots X (pc\<lparr>pc_page_ticket := t\<rparr>) = held_slots X pc"
  by (simp add: held_slots_def is_slot_def in_dom_def holds_page_def dstate_def get_global_address_def)

lemma pass_free:
  assumes "page_take_lock (pc_cache_pages pc (draw pc)) = FREE"
  shows "find_slot_pass pc ga q = Some (pc\<lparr>pc_page_ticket := pc_page_ticket pc + 1,
    pc_cache_pages := (pc_cache_pages pc)(draw pc := (pc_cache_pages pc (draw pc))\<lparr>page_translation := ga, page_take_lock := UNLOCKED\<rparr>)\<rparr>,
    draw pc, True)"
  using assms by (simp add: find_slot_pass_def Let_def draw_def [symmetric] set_lock_def take_slot_def upd_slot_def)

lemma occupant_addr:
  assumes "inv0 X pc" and "in_dom pc r pg" and "page_translation (pc_cache_pages pc s) = get_global_address pc r pg"
  shows "addr_range pc (page_translation (pc_cache_pages pc s)) = r" "addr_page pc (page_translation (pc_cache_pages pc s)) = pg"
  using assms addr_roundtrip by (auto simp: inv0_def cfg_ok_def)

lemma try_evict_used:
  assumes "addr_range pc (page_translation (pc_cache_pages pc s)) = r" "addr_page pc (page_translation (pc_cache_pages pc s)) = pg"
    and "cnt_of (dstate pc r pg) \<noteq> 0"
  shows "try_evict pc q s = Some (pc, False)"
  using assms by (simp add: try_evict_def Let_def flag_simps dstate_def)

lemma pass_used:
  assumes inv: "inv0 X pc" and l: "page_take_lock (pc_cache_pages pc (draw pc)) = UNLOCKED" and d: "in_dom pc r pg"
    and t: "page_translation (pc_cache_pages pc (draw pc)) = get_global_address pc r pg" and c: "cnt_of (dstate pc r pg) \<noteq> 0"
  shows "find_slot_pass pc ga q = Some (pc\<lparr>pc_page_ticket := pc_page_ticket pc + 1\<rparr>, draw pc, False)"
proof -
  let ?s = "draw pc"
  let ?pc = "set_lock ?s LOCKED (pc\<lparr>pc_page_ticket := pc_page_ticket pc + 1\<rparr>)"
  have "try_evict ?pc q ?s = Some (?pc, False)"
    using c occupant_addr [OF inv d t]
    by (intro try_evict_used) (simp_all add: addr_range_def addr_page_def set_lock_def upd_slot_def dstate_def)
  moreover have "set_lock ?s UNLOCKED ?pc = pc\<lparr>pc_page_ticket := pc_page_ticket pc + 1\<rparr>"
  proof -
    have "(pc_cache_pages pc ?s)\<lparr>page_take_lock := UNLOCKED\<rparr> = pc_cache_pages pc ?s" using l by simp
    then show ?thesis by (simp add: set_lock_def upd_slot_def)
  qed
  ultimately show ?thesis using l by (simp add: find_slot_pass_def Let_def draw_def [symmetric])
qed


text \<open>The eviction of an unused page.\<close>

lemma evict_disk:
  assumes inv: "inv0 X pc" and eq: "cfg_eq pc1 pc" and c: "cids_free (pc_cids pc1)" and d: "disk pc1 = disk pc" "frame pc1 = frame pc"
  shows "\<exists>C T. same_cids C (pc_cids pc1) \<and> (if b then write_back pc1 q s r pg else Some pc1) =
    Some (pc1\<lparr>pc_cids := C, pc_q_tail := T, disk := (if b then wb_disk pc s r pg else disk pc)\<rparr>)"
proof (cases b)
  case True
  have "cfg_ok pc1" using inv0D(1) [OF inv] cfg_eqD(1) [OF eq] by simp
  moreover have "pc_prp1 pc1 = pc_prp1 pc" using eq by (simp add: cfg_eq_def)
  then have "wb_disk pc1 s r pg = wb_disk pc s r pg"
    using cfg_eqD(3,6) [OF eq] eq by (simp add: wb_disk_def written_def d cfg_eq_def cong: if_cong)
  ultimately show ?thesis using True write_back_ok [OF c, of q s r pg] by auto
next
  case False
  then show ?thesis using c d by (intro exI [of _ "pc_cids pc1"] exI [of _ "pc_q_tail pc1"]) simp
qed

lemma upd_state_ranges: "upd_state r pg f pc = pc\<lparr>pc_ranges := set_state r pg (f (dp_state (pc_ranges pc r pg))) (pc_ranges pc)\<rparr>"
  by (simp add: upd_state_def upd_page_def set_state_def)

lemma set_state_set_state [simp]: "set_state r pg a (set_state r pg b R) = set_state r pg a R"
  and set_state_same [simp]: "dp_state (set_state r pg a R r pg) = a"
  by (simp_all add: set_state_def)

lemma evicted_word: "cnt_of s = 0 \<Longrightarrow> (s OR BUSY) AND CNT_MASK = 0"
  by (simp add: flag_simps)

lemma pass_evict:
  assumes inv: "inv0 X pc" and l: "page_take_lock (pc_cache_pages pc (draw pc)) = UNLOCKED" and d: "in_dom pc r pg"
    and v: "is_valid (dstate pc r pg)"
    and t: "page_translation (pc_cache_pages pc (draw pc)) = get_global_address pc r pg" and c: "cnt_of (dstate pc r pg) = 0"
  shows "\<exists>C T. same_cids C (pc_cids pc) \<and> find_slot_pass pc ga q = Some (pc\<lparr>pc_page_ticket := pc_page_ticket pc + 1,
    pc_cache_pages := (pc_cache_pages pc)(draw pc := (pc_cache_pages pc (draw pc))\<lparr>page_translation := ga, page_take_lock := UNLOCKED\<rparr>),
    pc_ranges := set_state r pg 0 (pc_ranges pc), pc_cids := C, pc_q_tail := T,
    disk := (if is_dirty (dstate pc r pg) then wb_disk pc (draw pc) r pg else disk pc)\<rparr>, draw pc, True)"
proof -
  let ?s = "draw pc" and ?st = "dstate pc r pg"
  let ?pc0 = "set_lock ?s LOCKED (pc\<lparr>pc_page_ticket := pc_page_ticket pc + 1\<rparr>)"
  let ?pc1 = "upd_state r pg (\<lambda>s. s OR BUSY) ?pc0"
  have nb: "\<not> is_busy ?st" using inv0_valid(1) [OF inv d v] .
  have a: "addr_range ?pc0 (page_translation (pc_cache_pages ?pc0 ?s)) = r" "addr_page ?pc0 (page_translation (pc_cache_pages ?pc0 ?s)) = pg"
    using occupant_addr [OF inv d t] by (simp_all add: addr_range_def addr_page_def set_lock_def upd_slot_def)
  have st: "dp_state (pc_ranges ?pc0 r pg) = ?st" by (simp add: set_lock_def upd_slot_def dstate_def)
  have e1: "cfg_eq ?pc1 pc" "disk ?pc1 = disk pc" "frame ?pc1 = frame pc" "pc_cids ?pc1 = pc_cids pc"
    by (simp_all add: cfg_eq_def upd_state_def upd_page_def set_lock_def upd_slot_def)
  obtain C T where C: "same_cids C (pc_cids pc)" and w: "(if is_dirty ?st then write_back ?pc1 q ?s r pg else Some ?pc1) =
      Some (?pc1\<lparr>pc_cids := C, pc_q_tail := T, disk := (if is_dirty ?st then wb_disk pc ?s r pg else disk pc)\<rparr>)"
    using evict_disk [OF inv e1(1) _ e1(2,3)] inv0D(2) [OF inv] unfolding e1(4) by blast
  have "try_evict ?pc0 q ?s =
      Some (upd_state r pg (\<lambda>s. s AND CNT_MASK) (?pc1\<lparr>pc_cids := C, pc_q_tail := T,
              disk := (if is_dirty ?st then wb_disk pc ?s r pg else disk pc)\<rparr>), True)"
    unfolding try_evict_def Let_def a st using c nb w by (simp add: flag_simps)
  moreover have "?pc1\<lparr>pc_cids := C, pc_q_tail := T, disk := D\<rparr> =
      ?pc0\<lparr>pc_ranges := set_state r pg (?st OR BUSY) (pc_ranges pc), pc_cids := C, pc_q_tail := T, disk := D\<rparr>" for D
    by (simp add: upd_state_ranges set_lock_def upd_slot_def dstate_def)
  ultimately have "try_evict ?pc0 q ?s =
      Some (?pc0\<lparr>pc_ranges := set_state r pg 0 (pc_ranges pc), pc_cids := C, pc_q_tail := T,
              disk := (if is_dirty ?st then wb_disk pc ?s r pg else disk pc)\<rparr>, True)"
    using evicted_word [OF c] by (simp add: upd_state_ranges set_lock_def upd_slot_def dstate_def)
  then show ?thesis using l C
    by (intro exI [of _ C] exI [of _ T])
      (simp add: find_slot_pass_def Let_def draw_def [symmetric] set_lock_def take_slot_def upd_slot_def)
qed


lemma taken_free:
  assumes inv: "inv0 X pc" and l: "page_take_lock (pc_cache_pages pc s) = FREE" and s: "is_slot pc s" "s \<notin> X"
  shows "slot_taken X pc (pc\<lparr>pc_page_ticket := t,
    pc_cache_pages := (pc_cache_pages pc)(s := (pc_cache_pages pc s)\<lparr>page_translation := ga, page_take_lock := UNLOCKED\<rparr>)\<rparr>) s ga"
    (is "slot_taken X pc ?pc s ga")
proof -
  have e: "cfg_eq ?pc pc" by (simp add: cfg_eq_def)
  have "inv0 (insert s X) ?pc" "same_content ?pc pc"
    using inv0_take [OF inv0_free [OF inv l] e] inv0D(2) [OF inv] by simp_all
  then show ?thesis using e s by (simp add: slot_taken_def)
qed

lemma taken_evict:
  assumes inv: "inv0 X pc" and d: "in_dom pc r pg" and v: "is_valid (dstate pc r pg)" and c: "cnt_of (dstate pc r pg) = 0"
    and s: "doffset pc r pg = s" and C: "same_cids C (pc_cids pc)"
  shows "slot_taken X pc (pc\<lparr>pc_page_ticket := t,
    pc_cache_pages := (pc_cache_pages pc)(s := (pc_cache_pages pc s)\<lparr>page_translation := ga, page_take_lock := UNLOCKED\<rparr>),
    pc_ranges := set_state r pg 0 (pc_ranges pc), pc_cids := C, pc_q_tail := T,
    disk := (if is_dirty (dstate pc r pg) then wb_disk pc s r pg else disk pc)\<rparr>) s ga"
    (is "slot_taken X pc ?pc s ga")
proof -
  have e: "cfg_eq ?pc pc" by (simp add: cfg_eq_def)
  have own: "dstate ?pc r pg = 0" by (simp add: dstate_def)
  then have own': "\<not> is_valid (dstate ?pc r pg)" "\<not> is_dirty (dstate ?pc r pg)" by (simp_all add: is_valid_def is_dirty_def)
  have others: "dstate ?pc r' pg' = dstate pc r' pg' \<and> doffset ?pc r' pg' = doffset pc r' pg'" if "(r', pg') \<noteq> (r, pg)" for r' pg'
    using that by (auto simp: dstate_def doffset_def set_state_def)
  have "cids_free (pc_cids ?pc)" using inv0D(2) [OF inv] same_cids_free [OF C] by simp
  then have "inv0 (insert s X) ?pc" "same_content ?pc pc"
    using inv0_evict [OF inv e _ d v _ _ _ own' others, unfolded s] by auto
  moreover have "is_slot pc s" "s \<notin> X" using inv0_valid(2,3) [OF inv d v] s by simp_all
  moreover have "evictable pc r pg" using d v c by (simp add: evictable_def)
  ultimately show ?thesis using e s C by (auto simp: slot_taken_def)
qed

lemma pass_cases:
  assumes inv: "inv0 X pc" and held: "held_slots X pc"
  shows "(\<exists>pc'. find_slot_pass pc ga q = Some (pc', draw pc, True) \<and> slot_taken X pc pc' (draw pc) ga) \<or>
    (find_slot_pass pc ga q = Some (pc\<lparr>pc_page_ticket := pc_page_ticket pc + 1\<rparr>, draw pc, False) \<and>
     (draw pc \<in> X \<or> (\<exists>r pg. in_dom pc r pg \<and> is_valid (dstate pc r pg) \<and> doffset pc r pg = draw pc \<and> cnt_of (dstate pc r pg) \<noteq> 0)))"
proof -
  have s: "is_slot pc (draw pc)" using is_slot_draw [of pc] inv0D(1) [OF inv] by (simp add: cfg_ok_def)
  show ?thesis
  proof (cases rule: inv0_slotE [OF inv held s])
    case 1
    then show ?thesis using pass_free taken_free [OF inv 1(1) s 1(2)] by blast
  next
    case (2 r pg)
    show ?thesis
    proof (cases "cnt_of (dstate pc r pg) = 0")
      case True
      then show ?thesis using pass_evict [OF inv 2(1,2,3,5) True] taken_evict [OF inv 2(2,3) True 2(4)] by blast
    next
      case False
      then show ?thesis using pass_used [OF inv 2(1,2,5) False] 2 by blast
    qed
  next
    case (3 r pg)
    then show ?thesis using pass_used [OF inv 3(2,3,5,6)] by blast
  qed
qed

lemma inv0_ticket [simp]: "inv0 X (pc\<lparr>pc_page_ticket := t\<rparr>) = inv0 X pc"
proof -
  have "inv0 X (pc\<lparr>pc_page_ticket := t\<rparr>)" if "inv0 X pc" for pc t
    using that inv0D(2) [OF that] inv0_valid(1) [OF that] inv0_dirty [OF that]
    by (intro inv0_flags(1) [OF that]) (simp_all add: cfg_eq_def dstate_def doffset_def)
  from this [of pc t] this [of "pc\<lparr>pc_page_ticket := t\<rparr>" "pc_page_ticket pc"] show ?thesis by auto
qed

lemma slot_taken_ticket [simp]: "slot_taken X (pc\<lparr>pc_page_ticket := t\<rparr>) pc' s ga = slot_taken X pc pc' s ga"
proof -
  let ?pc = "pc\<lparr>pc_page_ticket := t\<rparr>"
  have e: "cfg_eq ?pc pc" by (simp add: cfg_eq_def)
  have d: "dstate ?pc = dstate pc" "doffset ?pc = doffset pc" by (simp_all add: fun_eq_iff dstate_def doffset_def)
  have "content ?pc = content pc" by (simp add: fun_eq_iff content_def slot_data_def d cfg_eqD [OF e])
  then show ?thesis
    by (simp add: slot_taken_def same_content_def cfg_eqD [OF e] evictable_def d) (simp add: cfg_eq_def)
qed

lemma find_slot_loop_taken:
  assumes "find_slot_loop pc ga q = Some y"
  shows "inv0 X pc \<and> held_slots X pc \<longrightarrow> slot_taken X pc (fst y) (snd y) ga"
proof (rule find_slot_loop.raw_induct [where P = "\<lambda>pc ga q y. inv0 X pc \<and> held_slots X pc \<longrightarrow> slot_taken X pc (fst y) (snd y) ga", OF _ assms])
  fix f and pc :: "'a page_cache" and ga q y
  assume IH: "\<And>pc ga q y. f pc ga q = Some y \<Longrightarrow> inv0 X pc \<and> held_slots X pc \<longrightarrow> slot_taken X pc (fst y) (snd y) ga"
    and body: "(case find_slot_pass pc ga q of None \<Rightarrow> None
      | Some (pc1, page, ok) \<Rightarrow> if ok then Some (pc1, page) else f pc1 ga q) = Some y"
  show "inv0 X pc \<and> held_slots X pc \<longrightarrow> slot_taken X pc (fst y) (snd y) ga"
  proof
    assume a: "inv0 X pc \<and> held_slots X pc"
    then show "slot_taken X pc (fst y) (snd y) ga"
      using pass_cases [of X pc ga q] body IH [of "pc\<lparr>pc_page_ticket := pc_page_ticket pc + 1\<rparr>" ga q y] by auto
  qed
qed

text \<open>
  A slot is available if it is free or its page has no users.  The ticket comes past every slot, so
  \<open>find_slot\<close> returns while one is available.
\<close>

definition available :: "'b page_cache \<Rightarrow> u32 \<Rightarrow> bool" where
  "available pc s \<longleftrightarrow> is_slot pc s \<and> (page_take_lock (pc_cache_pages pc s) = FREE \<or> (\<exists>r pg. evictable pc r pg \<and> doffset pc r pg = s))"


lemma available_ticket [simp]: "available (pc\<lparr>pc_page_ticket := t\<rparr>) s = available pc s"
proof -
  let ?pc = "pc\<lparr>pc_page_ticket := t\<rparr>"
  have e: "cfg_eq ?pc pc" by (simp add: cfg_eq_def)
  have d: "dstate ?pc = dstate pc" "doffset ?pc = doffset pc" by (simp_all add: fun_eq_iff dstate_def doffset_def)
  show ?thesis by (simp add: available_def evictable_def d cfg_eqD [OF e])
qed

lemma find_slot_loop_returns:
  "\<lbrakk>inv0 X pc; held_slots X pc; available pc s\<rbrakk> \<Longrightarrow> \<exists>y. find_slot_loop pc ga q = Some y"
proof (induction "unat (s - pc_page_ticket pc)" arbitrary: pc)
  case 0
  then have t: "pc_page_ticket pc = s" by (simp add: unat_eq_0)
  have dr: "draw pc = s" using t 0 by (intro draw_at) (simp_all add: inv0_def cfg_ok_def available_def)
  have "\<not> (in_dom pc r pg \<and> is_valid (dstate pc r pg) \<and> doffset pc r pg = s \<and> cnt_of (dstate pc r pg) \<noteq> 0)" for r pg
    using 0(4) inv0_valid(4) [OF 0(2)] offset_inj [OF 0(2)] by (fastforce simp: available_def evictable_def holds_page_def)
  moreover have "s \<notin> X"
    using 0(3,4) inv0_valid(2) [OF 0(2)] by (auto simp: available_def evictable_def held_slots_def holds_page_def)
  ultimately obtain pc' where "find_slot_pass pc ga q = Some (pc', s, True)" using pass_cases [OF 0(2,3), of ga q] dr by auto
  then show ?case by (subst find_slot_loop.simps) simp
next
  case (Suc n)
  let ?pc = "pc\<lparr>pc_page_ticket := pc_page_ticket pc + 1\<rparr>"
  consider pc' where "find_slot_pass pc ga q = Some (pc', draw pc, True)" | "find_slot_pass pc ga q = Some (?pc, draw pc, False)"
    using pass_cases [OF Suc.prems(1,2), of ga q] by blast
  then show ?case
  proof cases
    case 1
    then show ?thesis by (subst find_slot_loop.simps) simp
  next
    case 2
    have "s - (pc_page_ticket pc + 1) = (s - pc_page_ticket pc) - 1" by simp
    moreover have "1 \<le> s - pc_page_ticket pc" using Suc.hyps(2) by (simp add: word_le_nat_alt)
    ultimately have "n = unat (s - pc_page_ticket ?pc)" using Suc.hyps(2) unat_sub [of 1 "s - pc_page_ticket pc"] by (simp add: diff_diff_eq)
    then obtain y where "find_slot_loop ?pc ga q = Some y" using Suc.hyps(1) [of ?pc] Suc.prems by auto
    then show ?thesis using 2 by (subst find_slot_loop.simps) simp
  qed
qed


section \<open>Acquire\<close>

definition others_kept :: "'b page_cache \<Rightarrow> 'b page_cache \<Rightarrow> u64 \<Rightarrow> u64 \<Rightarrow> bool" where
  "others_kept pc pc' r pg \<longleftrightarrow> (\<forall>r' pg'. (r', pg') \<noteq> (r, pg) \<longrightarrow> pc_ranges pc' r' pg' = pc_ranges pc r' pg' \<or>
     (evictable pc r' pg' \<and> pc_ranges pc' r' pg' = (pc_ranges pc r' pg')\<lparr>dp_state := 0\<rparr>))"

lemma slot_taken_page:
  assumes "slot_taken X pc pc' s ga" and "\<not> is_valid (dstate pc r pg)"
  shows "pc_ranges pc' r pg = pc_ranges pc r pg"
  using assms by (auto simp: slot_taken_def evictable_def set_state_def)

lemma slot_taken_others: "slot_taken X pc pc' s ga \<Longrightarrow> others_kept pc pc' r pg"
  by (auto simp: slot_taken_def others_kept_def set_state_def split: if_splits)

lemma pick_ctrl_ok:
  assumes "0 < pc_n_ctrls pc"
  shows "\<exists>n c. pick_ctrl pc r pg = (pc\<lparr>pc_ctrl_counter := n\<rparr>, c) \<and> c \<in> ctrls_of pc r pg"
proof (cases "pc_dists pc r")
  case REPLICATE
  then show ?thesis using assms
    by (simp add: pick_ctrl_def get_backing_ctrl_def backing_ctrl_def ctrls_of_def word_mod_less_divisor) blast
next
  case STRIPE
  have "pg mod pc_n_ctrls pc < pc_n_ctrls pc" using assms by (simp add: word_mod_less_divisor)
  then have "pg mod pc_n_ctrls pc \<noteq> ALL_CTRLS"
    using unsigned_less [of "pc_n_ctrls pc", where 'a = nat] by (auto simp: ALL_CTRLS_def word_less_nat_alt)
  then show ?thesis using STRIPE
    by (intro exI [of _ "pc_ctrl_counter pc"] exI [of _ "pg mod pc_n_ctrls pc"]) (simp add: pick_ctrl_def get_backing_ctrl_def backing_ctrl_def ctrls_of_def)
qed

text \<open>The record that \<open>acquire_fill\<close> returns, field by field.\<close>

lemma acquire_fill_taken:
  assumes ok: "cids_free (pc_cids pc1)" "wf_cmd (pc_local_cmd pc1)" "blocks_ok (pc_n_blocks_per_page pc1)" "0 < pc_n_ctrls pc1"
    and f: "find_slot pc pg r q = Some (pc1, s)" and e: "cfg_eq pc1 pc"
  shows "\<exists>C n A T c. same_cids C (pc_cids pc1) \<and> c \<in> ctrls_of pc r pg \<and> acquire_fill pc r pg count w q = Some (pc1\<lparr>pc_ctrl_counter := n,
      pc_access_counter := A, pc_cids := C, pc_q_tail := T,
      frame := (frame pc1)(pc_prp1 pc1 (ucast s) := \<lambda>k. if k < nblk pc1 then disk pc1 c (page_lba pc1 r pg + of_nat k)
                                                     else frame pc1 (pc_prp1 pc1 (ucast s)) k),
      pc_ranges := (pc_ranges pc1)(r := (pc_ranges pc1 r)(pg := (pc_ranges pc1 r pg)
        \<lparr>dp_offset := s, dp_state := (if w then dstate pc1 r pg OR DIRTY else dstate pc1 r pg) XOR DISABLE_BUSY_ENABLE_VALID\<rparr>)),
      pc_miss_cnt := bump r (ucast count) (pc_miss_cnt pc1)\<rparr>, ucast s)"
proof -
  obtain m c where p: "pick_ctrl pc1 r pg = (pc1\<lparr>pc_ctrl_counter := m\<rparr>, c)" and c: "c \<in> ctrls_of pc1 r pg"
    using pick_ctrl_ok [OF ok(4)] by blast
  let ?A = "bump c 1 (pc_access_counter pc1)"
  let ?pc3 = "pc1\<lparr>pc_ctrl_counter := m, pc_access_counter := ?A\<rparr>"
  have "cids_free (pc_cids ?pc3)" "wf_cmd (pc_local_cmd ?pc3)" "blocks_ok (pc_n_blocks_per_page ?pc3)"
    using ok by simp_all
  then obtain C where C: "same_cids C (pc_cids ?pc3)" and rd: "read_data ?pc3 c q (page_lba pc1 r pg) (pc_n_blocks_per_page ?pc3) (ucast s) =
      Some (?pc3\<lparr>pc_cids := C, pc_q_tail := pc_q_tail ?pc3 + 1,
        frame := (frame ?pc3)(pc_prp1 ?pc3 (ucast s) := \<lambda>k. if k < unat (pc_n_blocks_per_page ?pc3) then disk ?pc3 c (page_lba pc1 r pg + of_nat k)
          else frame ?pc3 (pc_prp1 ?pc3 (ucast s)) k)\<rparr>)"
    using read_data_ok by blast
  have b: "get_backing_page (pc1\<lparr>pc_ctrl_counter := m\<rparr>) r pg * pc_n_blocks_per_page ?pc3 = page_lba pc1 r pg"
    by (simp add: page_lba_def get_backing_page_def)
  have c': "c \<in> ctrls_of pc r pg" using c cfg_eqD(3) [OF e] by simp
  have "acquire_fill pc r pg count w q = Some (pc1\<lparr>pc_ctrl_counter := m,
      pc_access_counter := ?A, pc_cids := C, pc_q_tail := pc_q_tail pc1 + 1,
      frame := (frame pc1)(pc_prp1 pc1 (ucast s) := \<lambda>k. if k < nblk pc1 then disk pc1 c (page_lba pc1 r pg + of_nat k)
                                                     else frame pc1 (pc_prp1 pc1 (ucast s)) k),
      pc_ranges := (pc_ranges pc1)(r := (pc_ranges pc1 r)(pg := (pc_ranges pc1 r pg)
        \<lparr>dp_offset := s, dp_state := (if w then dstate pc1 r pg OR DIRTY else dstate pc1 r pg) XOR DISABLE_BUSY_ENABLE_VALID\<rparr>)),
      pc_miss_cnt := bump r (ucast count) (pc_miss_cnt pc1)\<rparr>, ucast s)"
    unfolding acquire_fill_def f p option.case prod.case Let_def
    by (simp add: b [simplified] rd [simplified] upd_page_def upd_state_def nblk_def dstate_def cong: if_cong)
  moreover have "same_cids C (pc_cids pc1)" using C by simp
  ultimately show ?thesis using c' by blast
qed

lemma acquire_fill_eq:
  assumes inv: "inv0 {} pc" and f: "find_slot pc pg r q = Some (pc1, s)" and t: "slot_taken {} pc pc1 s (get_global_address pc r pg)"
  shows "\<exists>C n A T c. same_cids C (pc_cids pc1) \<and> c \<in> ctrls_of pc r pg \<and> acquire_fill pc r pg count w q = Some (pc1\<lparr>pc_ctrl_counter := n,
      pc_access_counter := A, pc_cids := C, pc_q_tail := T,
      frame := (frame pc1)(pc_prp1 pc1 (ucast s) := \<lambda>k. if k < nblk pc1 then disk pc1 c (page_lba pc1 r pg + of_nat k)
                                                     else frame pc1 (pc_prp1 pc1 (ucast s)) k),
      pc_ranges := (pc_ranges pc1)(r := (pc_ranges pc1 r)(pg := (pc_ranges pc1 r pg)
        \<lparr>dp_offset := s, dp_state := (if w then dstate pc1 r pg OR DIRTY else dstate pc1 r pg) XOR DISABLE_BUSY_ENABLE_VALID\<rparr>)),
      pc_miss_cnt := bump r (ucast count) (pc_miss_cnt pc1)\<rparr>, ucast s)"
proof (rule acquire_fill_taken [OF _ _ _ _ f])
  have inv1: "inv0 {s} pc1" and "cfg_eq pc1 pc" using t by (simp_all add: slot_taken_def)
  then show "cids_free (pc_cids pc1)" "wf_cmd (pc_local_cmd pc1)" "blocks_ok (pc_n_blocks_per_page pc1)" "0 < pc_n_ctrls pc1" "cfg_eq pc1 pc"
    using inv0D(1,2) [OF inv1] inv0D(3) [OF inv1] by (simp_all add: cfg_ok_def cfg_slots_def)
qed


text \<open>A taken slot that received the blocks of its page and was handed to it, whatever else changed.\<close>

lemma filled_ok:
  assumes t: "slot_taken X pc pc1 s (get_global_address pc r pg)" and dom: "in_dom pc r pg" and nv: "\<not> is_valid (dstate pc r pg)"
    and e: "cfg_eq pc' pc1" and cids: "cids_free (pc_cids pc')" and same: "disk pc' = disk pc1" "pc_cache_pages pc' = pc_cache_pages pc1"
    and c: "c \<in> ctrls_of pc r pg"
    and fr: "frame pc' = (frame pc1)(pc_prp1 pc1 (ucast s) := \<lambda>k. if k < nblk pc1 then disk pc1 c (page_lba pc1 r pg + of_nat k)
              else frame pc1 (pc_prp1 pc1 (ucast s)) k)"
    and new: "is_valid (dstate pc' r pg)" "\<not> is_busy (dstate pc' r pg)" "doffset pc' r pg = s"
    and others: "\<And>r' pg'. (r', pg') \<noteq> (r, pg) \<Longrightarrow> pc_ranges pc' r' pg' = pc_ranges pc1 r' pg'"
  shows "inv0 X pc'" "same_content pc' pc" "cfg_eq pc' pc" "others_kept pc pc' r pg"
proof -
  have inv1: "inv0 (insert s X) pc1" and sc1: "same_content pc1 pc" and e1: "cfg_eq pc1 pc" using t by (simp_all add: slot_taken_def)
  note e1D = cfg_eqD [OF e1]
  have s: "is_slot pc1 s" and sX: "s \<notin> X" and h1: "holds_page pc1 s r pg"
    using t by (simp_all add: slot_taken_def holds_page_def e1D)
  have pg1: "pc_ranges pc1 r pg = pc_ranges pc r pg" by (rule slot_taken_page [OF t nv])
  have dom1: "in_dom pc1 r pg" and nv1: "\<not> is_valid (dstate pc1 r pg)" using dom nv pg1 by (simp_all add: e1D dstate_def)
  have nd1: "\<not> is_dirty (dstate pc1 r pg)" using inv0_dirty [OF inv1 dom1] nv1 by blast
  let ?pc2 = "pc1\<lparr>frame := frame pc', pc_cids := pc_cids pc'\<rparr>"
  have e2: "cfg_eq ?pc2 pc1" by (simp add: cfg_eq_def)
  have r2: "inv0 (insert s X) ?pc2" "same_content ?pc2 pc1" using inv0_read [OF inv1 s e2] cids by (auto simp: fr)
  note e2D = cfg_eqD [OF e2]
  have e3: "cfg_eq pc' ?pc2" using e by (simp add: cfg_eq_def)
  have sd: "slot_data ?pc2 s k = content ?pc2 r pg k" if "k < nblk ?pc2" for k
  proof -
    have k: "k < nblk pc1" using that unfolding e2D .
    have "slot_data ?pc2 s k = disk pc1 c (page_lba pc1 r pg + of_nat k)" using k by (simp add: slot_data_def fr)
    also have "\<dots> = content pc1 r pg k" using inv0_clean [OF inv1 dom1 nd1 k] c by (simp add: e1D)
    also have "\<dots> = content ?pc2 r pg k" using r2(2) dom1 k by (simp add: same_content_def)
    finally show ?thesis .
  qed
  have oth: "dstate pc' r' pg' = dstate ?pc2 r' pg' \<and> doffset pc' r' pg' = doffset ?pc2 r' pg'" if "(r', pg') \<noteq> (r, pg)" for r' pg'
    using others [OF that] by (simp add: dstate_def doffset_def)
  have d2: "in_dom ?pc2 r pg" "holds_page ?pc2 s r pg" "is_slot ?pc2 s" "\<not> is_valid (dstate ?pc2 r pg)"
    unfolding e2D holds_page_def using dom1 h1 s nv1 by (simp_all add: holds_page_def dstate_def)
  have r3: "inv0 X pc'" "same_content pc' ?pc2"
    using inv0_fill [OF r2(1) d2(3) sX e3 cids _ _ _ d2(1,2,4) sd new oth] same by auto
  show "inv0 X pc'" by (fact r3)
  show "same_content pc' pc" using same_content_trans [OF same_content_trans [OF r3(2) r2(2) e2] sc1 e1] .
  show "cfg_eq pc' pc" by (rule cfg_eq_trans [OF e e1])
  show "others_kept pc pc' r pg" using slot_taken_others [OF t, of r pg] others by (auto simp: others_kept_def)
qed

lemma acquire_fill_ok:
  assumes inv: "inv0 {} pc" and dom: "in_dom pc r pg" and nv: "\<not> is_valid (dstate pc r pg)" and bz: "is_busy (dstate pc r pg)"
    and f: "find_slot pc pg r q = Some (pc1, s)"
  shows "\<exists>pc'. acquire_fill pc r pg count w q = Some (pc', ucast s) \<and> inv0 {} pc' \<and> same_content pc' pc \<and> cfg_eq pc' pc \<and>
    others_kept pc pc' r pg \<and> doffset pc' r pg = s \<and>
    pc_ranges pc' r pg = (pc_ranges pc r pg)\<lparr>dp_offset := s,
      dp_state := (if w then dstate pc r pg OR DIRTY else dstate pc r pg) XOR DISABLE_BUSY_ENABLE_VALID\<rparr>"
proof -
  let ?ga = "get_global_address pc r pg"
  have t: "slot_taken {} pc pc1 s ?ga"
    using find_slot_loop_taken [of pc ?ga q "(pc1, s)"] f inv by (simp add: find_slot_def get_global_address_def)
  have pg1: "pc_ranges pc1 r pg = pc_ranges pc r pg" by (rule slot_taken_page [OF t nv])
  obtain C n A T c where C: "same_cids C (pc_cids pc1)" and c: "c \<in> ctrls_of pc r pg" and eq: "acquire_fill pc r pg count w q = Some (pc1\<lparr>pc_ctrl_counter := n,
      pc_access_counter := A, pc_cids := C, pc_q_tail := T,
      frame := (frame pc1)(pc_prp1 pc1 (ucast s) := \<lambda>k. if k < nblk pc1 then disk pc1 c (page_lba pc1 r pg + of_nat k)
                                                     else frame pc1 (pc_prp1 pc1 (ucast s)) k),
      pc_ranges := (pc_ranges pc1)(r := (pc_ranges pc1 r)(pg := (pc_ranges pc1 r pg)
        \<lparr>dp_offset := s, dp_state := (if w then dstate pc1 r pg OR DIRTY else dstate pc1 r pg) XOR DISABLE_BUSY_ENABLE_VALID\<rparr>)),
      pc_miss_cnt := bump r (ucast count) (pc_miss_cnt pc1)\<rparr>, ucast s)" (is "_ = Some (?pc', _)")
    using acquire_fill_eq [OF inv f t, of count w] by blast
  have e: "cfg_eq ?pc' pc1" by (simp add: cfg_eq_def)
  have rec: "pc_ranges ?pc' r pg = (pc_ranges pc r pg)\<lparr>dp_offset := s,
      dp_state := (if w then dstate pc r pg OR DIRTY else dstate pc r pg) XOR DISABLE_BUSY_ENABLE_VALID\<rparr>"
    using pg1 by (simp add: dstate_def)
  then have own: "dstate ?pc' r pg = (if w then dstate pc r pg OR DIRTY else dstate pc r pg) XOR DISABLE_BUSY_ENABLE_VALID"
    "doffset ?pc' r pg = s"
    by (simp_all add: dstate_def doffset_def)
  have new: "is_valid (dstate ?pc' r pg)" "\<not> is_busy (dstate ?pc' r pg)"
    unfolding own using nv bz by (simp_all add: flag_simps)
  have others: "pc_ranges ?pc' r' pg' = pc_ranges pc1 r' pg'" if "(r', pg') \<noteq> (r, pg)" for r' pg'
    using that by auto
  have "cids_free (pc_cids pc1)" using t inv0D(2) by (auto simp: slot_taken_def)
  then have "cids_free (pc_cids ?pc')" using same_cids_free [OF C] by simp
  then have "inv0 {} ?pc'" "same_content ?pc' pc" "cfg_eq ?pc' pc" "others_kept pc ?pc' r pg"
    using filled_ok [OF t dom nv e _ _ _ c _ new own(2) others] by simp_all
  then show ?thesis using eq own(2) rec by blast
qed

lemma prefetch_enter_keeps:
  assumes "prefetch_enter p = (p', n)"
  shows "dp_state p' = dp_state p" "dp_offset p' = dp_offset p" "dp_ref_count p' = dp_ref_count p" "unat n \<le> 1"
  using assms by (auto simp: prefetch_enter_def Let_def split: if_splits)

text \<open>The count that an acquire adds besides its own.\<close>

definition extra_count :: "data_page_t \<Rightarrow> nat" where
  "extra_count p = unat (snd (prefetch_enter p))"

definition acquired :: "'b page_cache \<Rightarrow> 'b page_cache \<Rightarrow> u64 \<Rightarrow> u64 \<Rightarrow> u32 \<Rightarrow> bool \<Rightarrow> u64 \<Rightarrow> bool" where
  "acquired pc pc' r pg count w a \<longleftrightarrow> cache_inv pc' \<and> same_content pc' pc \<and> cfg_eq pc' pc \<and> others_kept pc pc' r pg \<and>
     is_valid (dstate pc' r pg) \<and> a = ucast (doffset pc' r pg) \<and>
     is_dirty (dstate pc' r pg) = (is_dirty (dstate pc r pg) \<or> w) \<and>
     (is_valid (dstate pc r pg) \<longrightarrow> doffset pc' r pg = doffset pc r pg) \<and>
     cnt_of (dstate pc' r pg) = cnt_of (dstate pc r pg) + unat count + extra_count (pc_ranges pc r pg)"

lemma quiet_after:
  assumes "quiet pc" and "cfg_eq pc' pc" and "others_kept pc pc' r pg" and "\<not> is_busy (dstate pc' r pg)"
  shows "quiet pc'"
  unfolding quiet_def cfg_eqD(2) [OF assms(2)]
proof (intro allI impI)
  fix r' pg' assume d: "in_dom pc r' pg'"
  show "\<not> is_busy (dstate pc' r' pg')"
  proof (cases "(r', pg') = (r, pg)")
    case True
    then show ?thesis using assms(4) by simp
  next
    case False
    then consider "pc_ranges pc' r' pg' = pc_ranges pc r' pg'" | "pc_ranges pc' r' pg' = (pc_ranges pc r' pg')\<lparr>dp_state := 0\<rparr>"
      using assms(3) unfolding others_kept_def by blast
    then show ?thesis using assms(1) d by cases (simp_all add: quiet_def dstate_def is_busy_def)
  qed
qed

text \<open>The state after the entry of an acquire: prefetch bookkeeping done, count taken.\<close>

definition entered :: "'b page_cache \<Rightarrow> u64 \<Rightarrow> u64 \<Rightarrow> u32 \<Rightarrow> 'b page_cache" where
  "entered pc r pg count =
     (let pc1 = pc\<lparr>pc_access_cnt := bump r (ucast count) (pc_access_cnt pc)\<rparr>;
          (p, n) = prefetch_enter (pc_ranges pc r pg)
      in upd_state r pg (\<lambda>s. s + (count + n)) (upd_page r pg (\<lambda>_. p) pc1))"

lemma acquire_page_entered:
  "acquire_page pc r pg count w q = acquire_loop (entered pc r pg count) r pg count w q (dstate pc r pg)"
proof -
  obtain p n where p: "prefetch_enter (pc_ranges pc r pg) = (p, n)" by force
  then show ?thesis using prefetch_enter_keeps(1) [OF p]
    by (simp add: acquire_page_def entered_def Let_def upd_page_def dstate_def)
qed

lemma entered_page:
  assumes b: "cnt_of (dstate pc r pg) + unat count + extra_count (pc_ranges pc r pg) < 2 ^ 29"
  shows "is_valid (dstate (entered pc r pg count) r pg) = is_valid (dstate pc r pg)"
    "is_busy (dstate (entered pc r pg count) r pg) = is_busy (dstate pc r pg)"
    "is_dirty (dstate (entered pc r pg count) r pg) = is_dirty (dstate pc r pg)"
    "cnt_of (dstate (entered pc r pg count) r pg) = cnt_of (dstate pc r pg) + unat count + extra_count (pc_ranges pc r pg)"
    "doffset (entered pc r pg count) r pg = doffset pc r pg"
proof -
  obtain p n where p: "prefetch_enter (pc_ranges pc r pg) = (p, n)" by force
  have n: "unat n = extra_count (pc_ranges pc r pg)" by (simp add: extra_count_def p)
  have "unat (count + n) = unat count + unat n" using b n by (intro unat_add_bounded) simp
  then have s: "cnt_of (dstate pc r pg) + unat (count + n) < 2 ^ 29" and u: "unat (count + n) = unat count + extra_count (pc_ranges pc r pg)"
    using b n by simp_all
  have e: "dstate (entered pc r pg count) r pg = dstate pc r pg + (count + n)"
      "doffset (entered pc r pg count) r pg = doffset pc r pg"
    using prefetch_enter_keeps [OF p] by (simp_all add: entered_def p upd_state_def upd_page_def dstate_def doffset_def)
  show "is_valid (dstate (entered pc r pg count) r pg) = is_valid (dstate pc r pg)"
    "is_busy (dstate (entered pc r pg count) r pg) = is_busy (dstate pc r pg)"
    "is_dirty (dstate (entered pc r pg count) r pg) = is_dirty (dstate pc r pg)"
    "cnt_of (dstate (entered pc r pg count) r pg) = cnt_of (dstate pc r pg) + unat count + extra_count (pc_ranges pc r pg)"
    "doffset (entered pc r pg count) r pg = doffset pc r pg"
    unfolding e using state_add_flags [OF s] u by simp_all
qed

lemma entered_rest:
  "cfg_eq (entered pc r pg count) pc" "pc_cids (entered pc r pg count) = pc_cids pc" "disk (entered pc r pg count) = disk pc"
  "frame (entered pc r pg count) = frame pc" "pc_cache_pages (entered pc r pg count) = pc_cache_pages pc"
  "(r', pg') \<noteq> (r, pg) \<Longrightarrow> pc_ranges (entered pc r pg count) r' pg' = pc_ranges pc r' pg'"
  by (auto simp: entered_def Let_def split_beta cfg_eq_def upd_state_def upd_page_def)


lemma inv0_entered:
  assumes inv: "inv0 X pc" and b: "cnt_of (dstate pc r pg) + unat count + extra_count (pc_ranges pc r pg) < 2 ^ 29"
  shows "inv0 X (entered pc r pg count)" "same_content (entered pc r pg count) pc"
proof -
  let ?E = "entered pc r pg count"
  have "is_valid (dstate ?E r' pg') = is_valid (dstate pc r' pg') \<and> doffset ?E r' pg' = doffset pc r' pg' \<and>
      is_busy (dstate ?E r' pg') = is_busy (dstate pc r' pg') \<and> is_dirty (dstate ?E r' pg') = is_dirty (dstate pc r' pg')" for r' pg'
    using entered_page [OF b] entered_rest(6) [of r' pg' r pg pc count]
    by (cases "(r', pg') = (r, pg)") (auto simp: dstate_def doffset_def)
  then show "inv0 X ?E" "same_content ?E pc"
    using inv0_flags [OF inv entered_rest(1) _ entered_rest(5,3,4)] inv0D(2) [OF inv] inv0_valid(1) [OF inv] inv0_dirty [OF inv]
    by (simp_all add: entered_rest(2))
qed

lemma inv0_upd_state:
  assumes inv: "inv0 X pc" and st: "is_valid (f (dstate pc r pg)) = is_valid (dstate pc r pg)"
      "is_valid (dstate pc r pg) \<Longrightarrow> \<not> is_busy (f (dstate pc r pg))"
      "is_dirty (dstate pc r pg) \<Longrightarrow> is_dirty (f (dstate pc r pg))" "is_dirty (f (dstate pc r pg)) \<Longrightarrow> is_valid (dstate pc r pg)"
  shows "inv0 X (upd_state r pg f pc)" "same_content (upd_state r pg f pc) pc"
proof -
  let ?pc = "upd_state r pg f pc"
  have d: "dstate ?pc r' pg' = (if (r', pg') = (r, pg) then f (dstate pc r pg) else dstate pc r' pg')"
      "doffset ?pc r' pg' = doffset pc r' pg'" for r' pg'
    by (auto simp: dstate_def doffset_def upd_state_def upd_page_def)
  have e: "cfg_eq ?pc pc" "pc_cids ?pc = pc_cids pc" "pc_cache_pages ?pc = pc_cache_pages pc" "disk ?pc = disk pc" "frame ?pc = frame pc"
    by (simp_all add: cfg_eq_def upd_state_def upd_page_def)
  show "inv0 X ?pc" "same_content ?pc pc"
    using inv0_flags [OF inv e(1) _ e(3-5)] inv0D(2) [OF inv] inv0_valid(1) [OF inv] inv0_dirty [OF inv] st
    by (auto simp: d e(2))
qed

lemma inv0_hit_cnt: "inv0 X pc \<Longrightarrow> inv0 X (pc\<lparr>pc_hit_cnt := h\<rparr>)" "same_content (pc\<lparr>pc_hit_cnt := h\<rparr>) pc"
proof -
  let ?pc = "pc\<lparr>pc_hit_cnt := h\<rparr>"
  have e: "cfg_eq ?pc pc" by (simp add: cfg_eq_def)
  have d: "dstate ?pc = dstate pc" "doffset ?pc = doffset pc" by (simp_all add: fun_eq_iff dstate_def doffset_def)
  show "same_content ?pc pc" by (simp add: same_content_def content_def slot_data_def d cfg_eqD [OF e])
  assume inv: "inv0 X pc"
  show "inv0 X ?pc"
    using inv0_flags(1) [OF inv e] inv0D(2) [OF inv] inv0_valid(1) [OF inv] inv0_dirty [OF inv] by (simp add: d)
qed

lemma acquire_hit:
  assumes inv: "cache_inv pc" and dom: "in_dom pc r pg" and v: "is_valid (dstate pc r pg)"
    and b: "cnt_of (dstate pc r pg) + unat count + extra_count (pc_ranges pc r pg) < 2 ^ 29"
  shows "\<exists>pc' a. acquire_page pc r pg count w q = Some (pc', a) \<and> acquired pc pc' r pg count w a"
proof -
  let ?E = "entered pc r pg count"
  let ?w = "w \<and> \<not> is_dirty (dstate pc r pg)"
  let ?pc1 = "if ?w then upd_state r pg (\<lambda>s. s OR DIRTY) ?E else ?E"
  let ?pc' = "?pc1\<lparr>pc_hit_cnt := bump r (ucast count) (pc_hit_cnt ?pc1)\<rparr>"
  have i: "inv0 {} pc" and q: "quiet pc" using inv by (simp_all add: cache_inv_def)
  have nb: "\<not> is_busy (dstate pc r pg)" using q dom by (simp add: quiet_def)
  note E = inv0_entered [OF i b] entered_page [OF b] entered_rest
  have "state_of_word (dstate pc r pg) = V_NB" "state_of_word (dstate pc r pg) \<noteq> NV_NB" using v nb by (simp_all add: state_of_word_cases)
  then have eq: "acquire_page pc r pg count w q = Some (?pc', ucast (doffset ?pc' r pg))"
    unfolding acquire_page_entered by (subst acquire_loop.simps) (simp add: flag_simps Let_def doffset_def)
  have p1: "inv0 {} ?pc1 \<and> same_content ?pc1 ?E"
    using inv0_upd_state [OF E(1), of "\<lambda>s. s OR DIRTY" r pg] E v nb by (simp add: flag_simps)
  have d1: "dstate ?pc1 r pg = (if ?w then dstate ?E r pg OR DIRTY else dstate ?E r pg)" "doffset ?pc1 r pg = doffset ?E r pg"
      "cfg_eq ?pc1 ?E" "(r', pg') \<noteq> (r, pg) \<Longrightarrow> pc_ranges ?pc1 r' pg' = pc_ranges pc r' pg'" for r' pg'
    using entered_rest(6) [of r' pg' r pg pc count]
    by (auto simp: upd_state_def upd_page_def dstate_def doffset_def cfg_eq_def)
  have ce: "cfg_eq ?pc' pc" using cfg_eq_trans [OF d1(3) entered_rest(1)] by (simp add: cfg_eq_def)
  have ok: "others_kept pc ?pc' r pg" using d1(4) by (simp add: others_kept_def)
  have sc: "same_content ?pc' pc"
    using same_content_trans [OF same_content_trans [OF inv0_hit_cnt(2) p1 [THEN conjunct2] d1(3)] E(2) entered_rest(1)] .
  have ds: "dstate ?pc' r pg = dstate ?pc1 r pg" "doffset ?pc' r pg = doffset ?pc1 r pg" by (simp_all add: dstate_def doffset_def)
  have "\<not> is_busy (dstate ?pc' r pg)" unfolding ds d1 using nb E by (simp add: flag_simps)
  then have "cache_inv ?pc'"
    using inv0_hit_cnt(1) [OF p1 [THEN conjunct1]] quiet_after [OF q ce ok] by (simp add: cache_inv_def)
  moreover have "is_valid (dstate ?pc' r pg)" "is_dirty (dstate ?pc' r pg) = (is_dirty (dstate pc r pg) \<or> w)"
      "cnt_of (dstate ?pc' r pg) = cnt_of (dstate pc r pg) + unat count + extra_count (pc_ranges pc r pg)"
    unfolding ds d1 using v E(3,5,6) by (auto simp: flag_simps)
  moreover have "doffset ?pc' r pg = doffset pc r pg" unfolding ds d1 by (fact E(7))
  ultimately have "acquired pc ?pc' r pg count w (ucast (doffset ?pc' r pg))"
    unfolding acquired_def using sc ce ok by blast
  then show ?thesis using eq by blast
qed


definition busied :: "'b page_cache \<Rightarrow> u64 \<Rightarrow> u64 \<Rightarrow> u32 \<Rightarrow> 'b page_cache" where
  "busied pc r pg count = upd_state r pg (\<lambda>s. s OR BUSY) (entered pc r pg count)"

lemma busied_page:
  assumes b: "cnt_of (dstate pc r pg) + unat count + extra_count (pc_ranges pc r pg) < 2 ^ 29"
  shows "is_valid (dstate (busied pc r pg count) r pg) = is_valid (dstate pc r pg)" "is_busy (dstate (busied pc r pg count) r pg)"
    "is_dirty (dstate (busied pc r pg count) r pg) = is_dirty (dstate pc r pg)"
    "cnt_of (dstate (busied pc r pg count) r pg) = cnt_of (dstate pc r pg) + unat count + extra_count (pc_ranges pc r pg)"
    "(r', pg') \<noteq> (r, pg) \<Longrightarrow> pc_ranges (busied pc r pg count) r' pg' = pc_ranges pc r' pg'"
    "cfg_eq (busied pc r pg count) pc" "pc_cache_pages (busied pc r pg count) = pc_cache_pages pc"
proof -
  have d: "dstate (busied pc r pg count) r pg = dstate (entered pc r pg count) r pg OR BUSY"
    by (simp add: busied_def dstate_def upd_state_def upd_page_def)
  show "is_valid (dstate (busied pc r pg count) r pg) = is_valid (dstate pc r pg)" "is_busy (dstate (busied pc r pg count) r pg)"
    "is_dirty (dstate (busied pc r pg count) r pg) = is_dirty (dstate pc r pg)"
    "cnt_of (dstate (busied pc r pg count) r pg) = cnt_of (dstate pc r pg) + unat count + extra_count (pc_ranges pc r pg)"
    unfolding d using entered_page [OF b] by (simp_all add: flag_simps)
  show "cfg_eq (busied pc r pg count) pc" "pc_cache_pages (busied pc r pg count) = pc_cache_pages pc"
    using entered_rest(1,5) [of pc r pg count] by (simp_all add: busied_def upd_state_def upd_page_def cfg_eq_def)
  show "(r', pg') \<noteq> (r, pg) \<Longrightarrow> pc_ranges (busied pc r pg count) r' pg' = pc_ranges pc r' pg'"
    using entered_rest(6) [of r' pg' r pg pc count] by (auto simp: busied_def upd_state_def upd_page_def)
qed

lemma acquire_miss_eq:
  assumes "cache_inv pc" and "in_dom pc r pg" and "\<not> is_valid (dstate pc r pg)"
    and b: "cnt_of (dstate pc r pg) + unat count + extra_count (pc_ranges pc r pg) < 2 ^ 29"
  shows "acquire_page pc r pg count w q = acquire_fill (busied pc r pg count) r pg count w q"
proof -
  have nb: "\<not> is_busy (dstate pc r pg)" using assms by (simp add: cache_inv_def quiet_def)
  then have "state_of_word (dstate pc r pg) = NV_NB" using assms(3) by (simp add: state_of_word_cases)
  then show ?thesis unfolding acquire_page_entered
    using entered_page(2) [OF b] nb by (subst acquire_loop.simps) (simp add: busied_def Let_def flag_simps dstate_def)
qed

lemma inv0_busied:
  assumes "cache_inv pc" and "\<not> is_valid (dstate pc r pg)" and "in_dom pc r pg"
    and b: "cnt_of (dstate pc r pg) + unat count + extra_count (pc_ranges pc r pg) < 2 ^ 29"
  shows "inv0 {} (busied pc r pg count)" "same_content (busied pc r pg count) pc"
proof -
  have i: "inv0 {} pc" using assms(1) by (simp add: cache_inv_def)
  note E = inv0_entered [OF i b] entered_page [OF b] entered_rest(1) [of pc r pg count]
  have nd: "\<not> is_dirty (dstate pc r pg)" using inv0_dirty [OF i assms(3)] assms(2) by blast
  have "inv0 {} (busied pc r pg count) \<and> same_content (busied pc r pg count) (entered pc r pg count)"
    unfolding busied_def using inv0_upd_state [OF E(1), of "\<lambda>s. s OR BUSY" r pg] E assms(2) nd by (simp add: flag_simps)
  then show "inv0 {} (busied pc r pg count)" "same_content (busied pc r pg count) pc"
    using same_content_trans [OF _ E(2) E(8)] by blast+
qed

lemma evictable_busied:
  assumes "cnt_of (dstate pc r pg) + unat count + extra_count (pc_ranges pc r pg) < 2 ^ 29" and "\<not> is_valid (dstate pc r pg)"
  shows "evictable (busied pc r pg count) = evictable pc"
proof (intro ext)
  fix r' pg'
  show "evictable (busied pc r pg count) r' pg' = evictable pc r' pg'"
  proof (cases "(r', pg') = (r, pg)")
    case True
    then show ?thesis using assms(2) busied_page(1) [OF assms(1)] by (simp add: evictable_def)
  next
    case False
    then show ?thesis using busied_page(5) [OF assms(1) False] cfg_eqD(2) [OF busied_page(6) [OF assms(1)]]
      by (simp add: evictable_def dstate_def)
  qed
qed

lemma acquire_miss:
  assumes inv: "cache_inv pc" and dom: "in_dom pc r pg" and nv: "\<not> is_valid (dstate pc r pg)"
    and b: "cnt_of (dstate pc r pg) + unat count + extra_count (pc_ranges pc r pg) < 2 ^ 29"
    and f: "find_slot (busied pc r pg count) pg r q = Some (pc1, s)"
  shows "\<exists>pc' a. acquire_page pc r pg count w q = Some (pc', a) \<and> acquired pc pc' r pg count w a"
proof -
  let ?B = "busied pc r pg count"
  note B = busied_page [OF b]
  have d: "in_dom ?B r pg" "\<not> is_valid (dstate ?B r pg)" using dom nv B(1) cfg_eqD(2) [OF B(6)] by simp_all
  obtain pc' where eq: "acquire_fill ?B r pg count w q = Some (pc', ucast s)" and i: "inv0 {} pc'" and sc: "same_content pc' ?B"
      and ce: "cfg_eq pc' ?B" and ok: "others_kept ?B pc' r pg" and o: "doffset pc' r pg = s"
      and st: "pc_ranges pc' r pg = (pc_ranges ?B r pg)\<lparr>dp_offset := s,
        dp_state := (if w then dstate ?B r pg OR DIRTY else dstate ?B r pg) XOR DISABLE_BUSY_ENABLE_VALID\<rparr>"
    using acquire_fill_ok [OF inv0_busied(1) [OF inv nv dom b] d B(2) f] by blast
  have ce': "cfg_eq pc' pc" by (rule cfg_eq_trans [OF ce B(6)])
  have ok': "others_kept pc pc' r pg"
    using ok B(5) evictable_busied [OF b nv] by (simp add: others_kept_def)
  have ds: "dstate pc' r pg = (if w then dstate ?B r pg OR DIRTY else dstate ?B r pg) XOR DISABLE_BUSY_ENABLE_VALID"
    using st by (simp add: dstate_def)
  have fl: "is_valid (dstate pc' r pg)" "\<not> is_busy (dstate pc' r pg)" "is_dirty (dstate pc' r pg) = (is_dirty (dstate pc r pg) \<or> w)"
      "cnt_of (dstate pc' r pg) = cnt_of (dstate pc r pg) + unat count + extra_count (pc_ranges pc r pg)"
    unfolding ds using d(2) B(2-4) by (auto simp: flag_simps)
  have "cache_inv pc'" using i quiet_after [OF _ ce' ok' fl(2)] inv by (simp add: cache_inv_def)
  moreover have "same_content pc' pc" by (rule same_content_trans [OF sc inv0_busied(2) [OF inv nv dom b] B(6)])
  ultimately have "acquired pc pc' r pg count w (ucast s)"
    using ce' ok' fl o nv by (simp add: acquired_def)
  then show ?thesis using eq acquire_miss_eq [OF inv dom nv b] by auto
qed

lemma acquire_page_ok:
  assumes inv: "cache_inv pc" and dom: "in_dom pc r pg"
    and b: "cnt_of (dstate pc r pg) + unat count + extra_count (pc_ranges pc r pg) < 2 ^ 29"
    and a: "acquire_page pc r pg count w q = Some (pc', a)"
  shows "acquired pc pc' r pg count w a"
proof (cases "is_valid (dstate pc r pg)")
  case True
  then show ?thesis using acquire_hit [OF inv dom True b, of w q] a by auto
next
  case False
  then obtain pc1 s where "find_slot (busied pc r pg count) pg r q = Some (pc1, s)"
    using a acquire_miss_eq [OF inv dom False b] by (auto simp: acquire_fill_def split: option.splits)
  then show ?thesis using acquire_miss [OF inv dom False b, of q pc1 s w] a by auto
qed

lemma acquire_page_returns:
  assumes inv: "cache_inv pc" and dom: "in_dom pc r pg"
    and b: "cnt_of (dstate pc r pg) + unat count + extra_count (pc_ranges pc r pg) < 2 ^ 29"
    and av: "is_valid (dstate pc r pg) \<or> available pc s"
  shows "\<exists>pc' a. acquire_page pc r pg count w q = Some (pc', a) \<and> acquired pc pc' r pg count w a"
proof (cases "is_valid (dstate pc r pg)")
  case True
  then show ?thesis by (rule acquire_hit [OF inv dom _ b])
next
  case False
  have "available (busied pc r pg count) s"
  proof -
    have "doffset (busied pc r pg count) r' pg' = doffset pc r' pg'" if "evictable pc r' pg'" for r' pg'
    proof -
      have "(r', pg') \<noteq> (r, pg)" using that False by (auto simp: evictable_def)
      then show ?thesis using busied_page(5) [OF b] by (simp add: doffset_def)
    qed
    then show ?thesis
      using av False by (auto simp: available_def evictable_busied [OF b False] busied_page(7) [OF b] cfg_eqD(8) [OF busied_page(6) [OF b]])
  qed
  then obtain y where "find_slot (busied pc r pg count) pg r q = Some y"
    unfolding find_slot_def using find_slot_loop_returns [OF inv0_busied(1) [OF inv False dom b] held_slots_empty] by blast
  then show ?thesis using acquire_miss [OF inv dom False b] by (cases y) blast
qed


section \<open>Release, store and flush\<close>

definition release_extra :: "data_page_t \<Rightarrow> nat" where
  "release_extra p = of_bool (snd (prefetch_leave (dp_prefetch_count p)) \<or> snd (prefetch_leave (dp_prefetch_counter p)))"

lemma release_page_eq:
  "\<exists>p. release_page pc r pg count = upd_page r pg (\<lambda>_. p) pc \<and> dp_offset p = doffset pc r pg \<and>
     dp_state p = dstate pc r pg - (count + of_nat (release_extra (pc_ranges pc r pg)))"
  by (auto simp: release_page_def Let_def split_beta upd_page_def upd_state_def doffset_def dstate_def release_extra_def)

lemma release_page_ok:
  assumes inv: "cache_inv pc" and dom: "in_dom pc r pg"
    and c: "unat count + release_extra (pc_ranges pc r pg) \<le> cnt_of (dstate pc r pg)"
  shows "cache_inv (release_page pc r pg count)" "same_content (release_page pc r pg count) pc" "cfg_eq (release_page pc r pg count) pc"
    "cnt_of (dstate (release_page pc r pg count) r pg) = cnt_of (dstate pc r pg) - (unat count + release_extra (pc_ranges pc r pg))"
    "is_valid (dstate (release_page pc r pg count) r pg) = is_valid (dstate pc r pg)"
    "is_dirty (dstate (release_page pc r pg count) r pg) = is_dirty (dstate pc r pg)"
    "others_kept pc (release_page pc r pg count) r pg"
proof -
  let ?t = "of_nat (release_extra (pc_ranges pc r pg)) :: u32"
  obtain p where eq: "release_page pc r pg count = upd_page r pg (\<lambda>_. p) pc" and o: "dp_offset p = doffset pc r pg"
    and st: "dp_state p = dstate pc r pg - (count + ?t)"
    using release_page_eq [of pc r pg count] by blast
  have t: "unat ?t = release_extra (pc_ranges pc r pg)" by (simp add: release_extra_def unat_of_nat)
  have "cnt_of (dstate pc r pg) < 2 ^ 29" by (simp add: cnt_of_mod)
  then have u: "unat (count + ?t) = unat count + release_extra (pc_ranges pc r pg)"
    using c t by (subst unat_add_bounded) simp_all
  have c': "unat (count + ?t) \<le> cnt_of (dstate pc r pg)" using c u by simp
  note f = state_sub_flags [OF c']
  let ?pc = "upd_page r pg (\<lambda>_. p) pc"
  have d: "dstate ?pc r' pg' = (if (r', pg') = (r, pg) then dstate pc r pg - (count + ?t) else dstate pc r' pg')"
      "doffset ?pc r' pg' = doffset pc r' pg'" for r' pg'
    using st o by (auto simp: dstate_def doffset_def upd_page_def)
  have e: "cfg_eq ?pc pc" "pc_cids ?pc = pc_cids pc" "pc_cache_pages ?pc = pc_cache_pages pc" "disk ?pc = disk pc" "frame ?pc = frame pc"
    by (simp_all add: cfg_eq_def upd_page_def)
  have i: "inv0 {} pc" and q: "quiet pc" using inv by (simp_all add: cache_inv_def)
  have keep: "is_valid (dstate ?pc r' pg') = is_valid (dstate pc r' pg')" "is_busy (dstate ?pc r' pg') = is_busy (dstate pc r' pg')"
      "is_dirty (dstate ?pc r' pg') = is_dirty (dstate pc r' pg')" for r' pg'
    using f by (auto simp: d)
  have "inv0 {} ?pc \<and> same_content ?pc pc"
    using inv0_flags [OF i e(1) _ e(3-5)] inv0D(2) [OF i] inv0_valid(1) [OF i] inv0_dirty [OF i] by (simp add: keep d(2) e(2))
  moreover have "quiet ?pc" using q by (simp add: quiet_def cfg_eqD(2) [OF e(1)] keep)
  moreover have "others_kept pc ?pc r pg" by (auto simp: others_kept_def upd_page_def)
  ultimately show "cache_inv (release_page pc r pg count)" "same_content (release_page pc r pg count) pc"
    "cfg_eq (release_page pc r pg count) pc"
    "cnt_of (dstate (release_page pc r pg count) r pg) = cnt_of (dstate pc r pg) - (unat count + release_extra (pc_ranges pc r pg))"
    "is_valid (dstate (release_page pc r pg count) r pg) = is_valid (dstate pc r pg)"
    "is_dirty (dstate (release_page pc r pg count) r pg) = is_dirty (dstate pc r pg)"
    "others_kept pc (release_page pc r pg count) r pg"
    unfolding eq using e(1) f u by (simp_all add: cache_inv_def d)
qed

text \<open>A write by a thread that holds the page, through the address of the page's slot.\<close>

definition store_block :: "'b page_cache \<Rightarrow> u64 \<Rightarrow> u64 \<Rightarrow> nat \<Rightarrow> 'b \<Rightarrow> 'b page_cache" where
  "store_block pc r pg k v =
     (let a = pc_prp1 pc (ucast (dp_offset (pc_ranges pc r pg)))
      in pc\<lparr>frame := (frame pc)(a := (frame pc a)(k := v))\<rparr>)"

lemma store_block_ok:
  assumes inv: "cache_inv pc" and dom: "in_dom pc r pg" and v: "is_valid (dstate pc r pg)" "is_dirty (dstate pc r pg)"
  shows "cache_inv (store_block pc r pg k x)" "cfg_eq (store_block pc r pg k x) pc"
    "in_dom pc r' pg' \<Longrightarrow> content (store_block pc r pg k x) r' pg' k' = (if (r', pg', k') = (r, pg, k) then x else content pc r' pg' k')"
proof -
  let ?pc = "store_block pc r pg k x"
  have i: "inv0 {} pc" and q: "quiet pc" using inv by (simp_all add: cache_inv_def)
  show e: "cfg_eq ?pc pc" by (simp add: store_block_def Let_def cfg_eq_def)
  note eD = cfg_eqD [OF e]
  have d: "dstate ?pc = dstate pc" "doffset ?pc = doffset pc" "holds_page ?pc = holds_page pc" "pc_cids ?pc = pc_cids pc"
      "disk ?pc = disk pc" "pc_cache_pages ?pc = pc_cache_pages pc"
    by (simp_all add: fun_eq_iff dstate_def doffset_def holds_page_def eD store_block_def Let_def)
      (simp_all add: get_global_address_def)
  have c: "content ?pc r' pg' k' = (if (r', pg', k') = (r, pg, k) then x else content pc r' pg' k')" if d': "in_dom pc r' pg'" for r' pg' k'
  proof (cases "is_valid (dstate pc r' pg')")
    case True
    have "pc_prp1 pc (ucast (doffset pc r' pg')) = pc_prp1 pc (ucast (doffset pc r pg)) \<longleftrightarrow> (r', pg') = (r, pg)"
      using prp1_inj [OF inv0D(1) [OF i] inv0_valid(3) [OF i d' True] inv0_valid(3) [OF i dom v(1)]]
        offset_inj [OF i d' True dom v(1)] by auto
    then show ?thesis using True unfolding content_def d by (auto simp: slot_data_def store_block_def Let_def doffset_def)
  next
    case False
    then have "(r', pg') \<noteq> (r, pg)" using v by auto
    then show ?thesis using False unfolding content_def d eD by auto
  qed
  show "in_dom pc r' pg' \<Longrightarrow> content ?pc r' pg' k' = (if (r', pg', k') = (r, pg, k) then x else content pc r' pg' k')" by (rule c)
  have "slots_ok {} ?pc" "pages_ok {} ?pc" using i by (simp_all add: inv0_def slots_ok_def pages_ok_def eD d)
  moreover have "data_ok ?pc"
    unfolding data_ok_def eD d using c v(2) i by (auto simp: inv0_def data_ok_def)
  ultimately show "cache_inv ?pc" using i q by (simp add: cache_inv_def inv0_def quiet_def eD d)
qed

lemma flush_page_ok:
  assumes inv: "cache_inv pc" and s: "is_slot pc s" and l: "page_take_lock (pc_cache_pages pc s) = UNLOCKED"
  shows "\<exists>pc'. flush_page pc smid s = Some pc' \<and> cache_inv pc' \<and> same_content pc' pc \<and> cfg_eq pc' pc \<and>
    (\<forall>r pg. in_dom pc r pg \<longrightarrow> cnt_of (dstate pc' r pg) = cnt_of (dstate pc r pg) \<and>
      is_valid (dstate pc' r pg) = is_valid (dstate pc r pg) \<and>
      is_dirty (dstate pc' r pg) = (is_dirty (dstate pc r pg) \<and> \<not> (is_valid (dstate pc r pg) \<and> doffset pc r pg = s)))"
proof -
  have i: "inv0 {} pc" and q: "quiet pc" using inv by (simp_all add: cache_inv_def)
  obtain r pg where dom: "in_dom pc r pg" and v: "is_valid (dstate pc r pg)" and o: "doffset pc r pg = s"
      and t: "page_translation (pc_cache_pages pc s) = get_global_address pc r pg"
    by (cases rule: inv0_slotE [OF i held_slots_empty s]) (use l in auto)
  note a = occupant_addr [OF i dom t]
  have uniq: "(r', pg') = (r, pg)" if "in_dom pc r' pg'" "is_valid (dstate pc r' pg')" "doffset pc r' pg' = s" for r' pg'
    using offset_inj [OF i that(1,2) dom v] that(3) o by simp
  show ?thesis
  proof (cases "is_dirty (dstate pc r pg)")
    case False
    then have "flush_page pc smid s = Some pc"
      unfolding flush_page_def Let_def a using s by (simp add: is_slot_def flag_simps dstate_def)
    then show ?thesis using inv False uniq by (auto intro!: exI [of _ pc])
  next
    case True
    obtain C T where C: "same_cids C (pc_cids pc)" and w: "write_back pc smid s r pg = Some (pc\<lparr>pc_cids := C, pc_q_tail := T, disk := wb_disk pc s r pg\<rparr>)"
      using write_back_ok [OF inv0D(2,1) [OF i]] by blast
    let ?pc' = "upd_state r pg (\<lambda>s. s AND NOT DIRTY) (pc\<lparr>pc_cids := C, pc_q_tail := T, disk := wb_disk pc s r pg\<rparr>)"
    have eq: "flush_page pc smid s = Some ?pc'"
      unfolding flush_page_def Let_def a using s True by (simp add: is_slot_def flag_simps dstate_def w)
    have e: "cfg_eq ?pc' pc" by (simp add: cfg_eq_def upd_state_def upd_page_def)
    have d: "dstate ?pc' r' pg' = (if (r', pg') = (r, pg) then dstate pc r pg AND NOT DIRTY else dstate pc r' pg')"
      "doffset ?pc' r' pg' = doffset pc r' pg'" for r' pg'
      by (auto simp: dstate_def doffset_def upd_state_def upd_page_def)
    have m: "pc_cids ?pc' = C" "disk ?pc' = wb_disk pc s r pg" "frame ?pc' = frame pc" "pc_cache_pages ?pc' = pc_cache_pages pc"
      by (simp_all add: upd_state_def upd_page_def)
    have own: "is_valid (dstate ?pc' r pg)" "\<not> is_busy (dstate ?pc' r pg)"
      using v inv0_valid(1) [OF i dom v] by (simp_all add: d flag_simps)
    have D: "disk ?pc' = (if is_dirty (dstate pc r pg) then wb_disk pc (doffset pc r pg) r pg else disk pc)"
      using m(2) True o by simp
    have oth: "dstate ?pc' r' pg' = dstate pc r' pg' \<and> doffset ?pc' r' pg' = doffset pc r' pg'" if "(r', pg') \<noteq> (r, pg)" for r' pg'
      using that by (auto simp: d)
    have "cids_free (pc_cids ?pc')" using inv0D(2) [OF i] same_cids_free [OF C] m(1) by simp
    then have "inv0 {} ?pc' \<and> same_content ?pc' pc"
      using inv0_flush [OF i e _ dom v D m(3,4) own d(2) oth] by blast
    moreover have "quiet ?pc'" using q by (auto simp: quiet_def d cfg_eqD(2) [OF e] flag_simps)
    moreover have "cnt_of (dstate ?pc' r' pg') = cnt_of (dstate pc r' pg') \<and> is_valid (dstate ?pc' r' pg') = is_valid (dstate pc r' pg') \<and>
        is_dirty (dstate ?pc' r' pg') = (is_dirty (dstate pc r' pg') \<and> \<not> (is_valid (dstate pc r' pg') \<and> doffset pc r' pg' = s))"
      if "in_dom pc r' pg'" for r' pg'
    proof (cases "(r', pg') = (r, pg)")
      case True
      then show ?thesis using v o by (simp add: d flag_simps)
    next
      case False
      then have "dstate ?pc' r' pg' = dstate pc r' pg'" using oth by blast
      then show ?thesis using uniq [OF that] False by auto
    qed
    ultimately have "cache_inv ?pc' \<and> same_content ?pc' pc \<and> cfg_eq ?pc' pc \<and>
      (\<forall>r pg. in_dom pc r pg \<longrightarrow> cnt_of (dstate ?pc' r pg) = cnt_of (dstate pc r pg) \<and>
        is_valid (dstate ?pc' r pg) = is_valid (dstate pc r pg) \<and>
        is_dirty (dstate ?pc' r pg) = (is_dirty (dstate pc r pg) \<and> \<not> (is_valid (dstate pc r pg) \<and> doffset pc r pg = s)))"
      unfolding cache_inv_def using e by blast
    then show ?thesis using eq by blast
  qed
qed


section \<open>The cache as a memory\<close>

text \<open>
  A store with operations \<open>do\<close> that callers may apply where \<open>ok\<close> holds, seen as a memory \<open>view\<close>:
  every operation changes the view as its specification \<open>spec\<close> says.
\<close>

fun run_ops :: "('op \<Rightarrow> 's \<Rightarrow> bool) \<Rightarrow> ('op \<Rightarrow> 's \<Rightarrow> 's option) \<Rightarrow> 'op list \<Rightarrow> 's \<Rightarrow> 's option" where
  "run_ops ok act [] s = Some s"
| "run_ops ok act (op # ops) s =
     (if ok op s then (case act op s of None \<Rightarrow> None | Some s1 \<Rightarrow> run_ops ok act ops s1) else None)"

locale memory_view =
  fixes ok :: "'op \<Rightarrow> 's \<Rightarrow> bool" and act :: "'op \<Rightarrow> 's \<Rightarrow> 's option" and inv :: "'s \<Rightarrow> bool"
    and view :: "'s \<Rightarrow> 'k \<Rightarrow> 'v option" and spec :: "'op \<Rightarrow> ('k \<Rightarrow> 'v option) \<Rightarrow> 'k \<Rightarrow> 'v option"
  assumes act_inv: "\<lbrakk>inv s; ok op s; act op s = Some s'\<rbrakk> \<Longrightarrow> inv s'"
    and act_view: "\<lbrakk>inv s; ok op s; act op s = Some s'\<rbrakk> \<Longrightarrow> view s' = spec op (view s)"
begin

lemma run_inv: "\<lbrakk>inv s; run_ops ok act ops s = Some s'\<rbrakk> \<Longrightarrow> inv s'"
  by (induction ops arbitrary: s) (auto split: if_splits option.splits dest: act_inv)

lemma run_view: "\<lbrakk>inv s; run_ops ok act ops s = Some s'\<rbrakk> \<Longrightarrow> view s' = fold spec ops (view s)"
proof (induction ops arbitrary: s)
  case (Cons op ops)
  then obtain s1 where s1: "ok op s" "act op s = Some s1" "run_ops ok act ops s1 = Some s'"
    by (auto split: if_splits option.splits)
  then have "view s' = fold spec ops (view s1)" using Cons.IH act_inv [OF Cons.prems(1) s1(1,2)] by blast
  then show ?case using act_view [OF Cons.prems(1) s1(1,2)] by simp
qed simp

end

datatype 'b cache_op =
    Acquire u64 u64 u32 bool u32
  | Release u64 u64 u32
  | Store u64 u64 nat 'b
  | Flush u32 u32

fun cache_do :: "'b cache_op \<Rightarrow> 'b page_cache \<Rightarrow> 'b page_cache option" where
  "cache_do (Acquire r pg count w q) pc = map_option fst (acquire_page pc r pg count w q)"
| "cache_do (Release r pg count) pc = Some (release_page pc r pg count)"
| "cache_do (Store r pg k v) pc = Some (store_block pc r pg k v)"
| "cache_do (Flush smid s) pc = flush_page pc smid s"

text \<open>
  The callers' side: they stay inside the ranges, below \<open>2 ^ 29\<close> users per page, give back only
  what they took, write only pages they hold for writing, and flush used slots.
\<close>

fun cache_ok :: "'b cache_op \<Rightarrow> 'b page_cache \<Rightarrow> bool" where
  "cache_ok (Acquire r pg count w q) pc \<longleftrightarrow> in_dom pc r pg \<and>
     cnt_of (dstate pc r pg) + unat count + extra_count (pc_ranges pc r pg) < 2 ^ 29"
| "cache_ok (Release r pg count) pc \<longleftrightarrow> in_dom pc r pg \<and>
     unat count + release_extra (pc_ranges pc r pg) \<le> cnt_of (dstate pc r pg)"
| "cache_ok (Store r pg k v) pc \<longleftrightarrow> in_dom pc r pg \<and> k < nblk pc \<and> 0 < cnt_of (dstate pc r pg) \<and>
     is_valid (dstate pc r pg) \<and> is_dirty (dstate pc r pg)"
| "cache_ok (Flush smid s) pc \<longleftrightarrow> is_slot pc s \<and> page_take_lock (pc_cache_pages pc s) = UNLOCKED"

definition cache_view :: "'b page_cache \<Rightarrow> u64 \<times> u64 \<times> nat \<Rightarrow> 'b option" where
  "cache_view pc = (\<lambda>(r, pg, k). if in_dom pc r pg \<and> k < nblk pc then Some (content pc r pg k) else None)"

fun flat_spec :: "'b cache_op \<Rightarrow> (u64 \<times> u64 \<times> nat \<Rightarrow> 'b option) \<Rightarrow> u64 \<times> u64 \<times> nat \<Rightarrow> 'b option" where
  "flat_spec (Store r pg k v) m = m((r, pg, k) \<mapsto> v)"
| "flat_spec _ m = m"

lemma same_content_view: "\<lbrakk>same_content pc' pc; cfg_eq pc' pc\<rbrakk> \<Longrightarrow> cache_view pc' = cache_view pc"
  by (auto simp: cache_view_def same_content_def cfg_eqD)

lemma cache_step:
  assumes "cache_inv pc" and "cache_ok op pc" and "cache_do op pc = Some pc'"
  shows "cache_inv pc'" "cache_view pc' = flat_spec op (cache_view pc)"
proof -
  have "cache_inv pc' \<and> cache_view pc' = flat_spec op (cache_view pc)"
  proof (cases op)
    case (Acquire r pg count w q)
    then obtain a where "acquire_page pc r pg count w q = Some (pc', a)" using assms(3) by auto
    then have "acquired pc pc' r pg count w a" using assms Acquire by (intro acquire_page_ok) simp_all
    then show ?thesis using Acquire by (simp add: acquired_def same_content_view)
  next
    case (Release r pg count)
    then show ?thesis using release_page_ok(1-3) [OF assms(1), of r pg count] assms by (auto intro: same_content_view)
  next
    case (Store r pg k v)
    then have ok: "in_dom pc r pg" "is_valid (dstate pc r pg)" "is_dirty (dstate pc r pg)" "k < nblk pc"
      and eq: "pc' = store_block pc r pg k v" using assms by simp_all
    note s = store_block_ok [OF assms(1) ok(1-3), where k = k and x = v]
    have "cache_view pc' x = flat_spec op (cache_view pc) x" for x
      using s(3) ok Store unfolding eq by (cases x) (auto simp: cache_view_def cfg_eqD [OF s(2)])
    then show ?thesis using s(1) eq by auto
  next
    case (Flush smid s)
    then show ?thesis using flush_page_ok [OF assms(1), of s smid] assms by (auto intro: same_content_view)
  qed
  then show "cache_inv pc'" "cache_view pc' = flat_spec op (cache_view pc)" by simp_all
qed

interpretation cache: memory_view cache_ok cache_do cache_inv cache_view flat_spec
  using cache_step by unfold_locales


section \<open>Properties\<close>

text \<open>One slot and one range of two pages, striped over one controller with one-block pages.\<close>

definition witness_page :: data_page_t where
  "witness_page = \<lparr>dp_state = INVALID, dp_ref_count = 0, dp_polling_flag = 0, dp_offset = 0, dp_prefetch_count = 0,
     dp_prefetch_counter = 0, dp_cpu_feature_offset = 0\<rparr>"

definition witness_pc :: "nat page_cache" where
  "witness_pc = \<lparr>pc_base_addr = 0, pc_page_size = 512, pc_page_size_log = 9, pc_n_pages = 1,
     pc_cache_pages = (\<lambda>_. \<lparr>page_take_lock = FREE, page_translation = 0, next_reuse = no_reuse, reuse_chunk = replicate 8 no_reuse\<rparr>),
     pc_page_ticket = 0, pc_prp1 = (\<lambda>e. 0x10000 + 512 * e), pc_prp2 = (\<lambda>_. 0), pc_prps = False,
     pc_n_ranges = 1, pc_n_ranges_bits = 1, pc_n_ranges_mask = 0, pc_ranges = (\<lambda>_ _. witness_page),
     pc_page_starts = (\<lambda>_. 0), pc_page_counts = (\<lambda>_. 2), pc_dists = (\<lambda>_. STRIPE),
     pc_access_cnt = (\<lambda>_. 0), pc_miss_cnt = (\<lambda>_. 0), pc_hit_cnt = (\<lambda>_. 0), pc_ctrl_counter = 0, pc_q_tail = 0,
     pc_n_ctrls = 1, pc_n_blocks_per_page = 1, pc_n_qps = (\<lambda>_. 1), pc_access_counter = (\<lambda>_. 0), pc_namespace = 1,
     pc_cids = (\<lambda>_ _. \<lparr>cp_ticket = 0, cp_cid = (\<lambda>_. UNLOCKED)\<rparr>), pc_local_cmd = \<lparr>dword = replicate 16 0\<rparr>,
     disk = (\<lambda>c l. 100 + unat l), frame = (\<lambda>_ _. 0)\<rparr>"

lemma witness_pc_inv: "cache_inv witness_pc"
proof -
  have one: "x < 1 \<longleftrightarrow> x = 0" for x :: u64 by (simp add: word_less_nat_alt unat_eq_0)
  have "cfg_slots witness_pc"
    by (simp add: cfg_slots_def witness_pc_def wf_cmd_def blocks_ok_def one)
  moreover have "cfg_addr witness_pc"
    by (simp add: cfg_addr_def witness_pc_def)
  moreover have "cfg_disk witness_pc"
    by (auto simp: cfg_disk_def witness_pc_def area_len_def nblk_def one)
  ultimately have "cfg_ok witness_pc" by (simp add: cfg_ok_def)
  moreover have st: "dstate witness_pc r pg = 0" for r pg by (simp add: dstate_def witness_pc_def witness_page_def INVALID_def)
  moreover have "ctrls_of witness_pc r pg = {home_ctrl witness_pc r pg}" for r pg
    by (simp add: ctrls_of_def home_ctrl_def witness_pc_def)
  ultimately show ?thesis
    by (simp add: cache_inv_def inv0_def quiet_def slots_ok_def pages_ok_def data_ok_def is_valid_def is_busy_def is_dirty_def content_def)
      (simp add: witness_pc_def)
qed

lemma witness_pc_facts:
  "in_dom witness_pc 0 0" "in_dom witness_pc 0 1" "nblk witness_pc = 1" "dstate witness_pc r pg = 0"
  "extra_count (pc_ranges witness_pc r pg) = 0" "available witness_pc 0" "content witness_pc 0 1 0 = 101"
  by (simp_all add: in_dom_def nblk_def dstate_def extra_count_def prefetch_enter_def witness_page_def INVALID_def available_def
      is_slot_def content_def is_valid_def home_ctrl_def page_lba_def get_backing_page_def backing_page_def witness_pc_def)

lemma cnt_of_0 [simp]: "cnt_of 0 = 0" and not_valid_0 [simp]: "\<not> is_valid 0"
  by (simp_all add: cnt_of_def is_valid_def)

text \<open>C4: The cache is transparent to callers that keep its contract \<open>cache_ok\<close>: acquires and releases in the bounds of
  the user count, stores only on pages that are held and dirty (acquired for writing), flushes only of slots that hold a
  page.  For every such sequence of calls, whatever hits, misses, evictions and write-backs it causes, the content of
  every block afterwards is the value last written to it, or the original one; and the cache invariant holds.  Two
  callers in the code do not keep the contract: \<open>flush_cache\<close> flushes unused slots (C39), and \<open>bam_ptr\<close> can store on a
  page that is not dirty (C37).\<close>

theorem cache_transparent:
  assumes "cache_inv pc" and "run_ops cache_ok cache_do ops pc = Some pc'"
  shows "cache_inv pc' \<and> cache_view pc' = fold flat_spec ops (cache_view pc)"
  using cache.run_inv [OF assms] cache.run_view [OF assms] by simp

theorem cache_transparent_witness:
  "cache_view witness_pc (0, 1, 0) = Some 101 \<and>
   (\<exists>pc'. run_ops cache_ok cache_do [Acquire 0 1 1 True 0, Store 0 1 0 7] witness_pc = Some pc' \<and>
     cache_view pc' (0, 1, 0) = Some 7 \<and> cache_inv pc')"
proof -
  note w = witness_pc_inv witness_pc_facts
  obtain pc1 a where a: "acquire_page witness_pc 0 1 1 True 0 = Some (pc1, a)" "acquired witness_pc pc1 0 1 1 True a"
    using acquire_page_returns [OF w(1,3), of 1 0 True 0] w(5-7) by auto
  then have "in_dom pc1 0 1" "nblk pc1 = 1" "is_valid (dstate pc1 0 1)" "is_dirty (dstate pc1 0 1)" "cnt_of (dstate pc1 0 1) = 1"
    using w(3,4,5,6) cfg_eqD(2,5) [of pc1 witness_pc] by (simp_all add: acquired_def)
  then have r: "run_ops cache_ok cache_do [Acquire 0 1 1 True 0, Store 0 1 0 7] witness_pc = Some (store_block pc1 0 1 0 7)"
    using a(1) w(3,5,6) by simp
  have "cache_view witness_pc (0, 1, 0) = Some 101" using w(3,4,8) by (simp add: cache_view_def)
  then show ?thesis using cache_transparent [OF w(1) r] r by auto
qed

text \<open>C11: A successful \<open>acquire_page\<close> hands out the right data and pins it: the page is valid, its
  user count has grown by the count asked for (plus one while a prefetch is pending), the slot
  whose index is returned holds the content of the page, a write acquire marks it dirty, and every
  other page that is in use keeps its slot and its state word.\<close>

theorem acquire_page_correct:
  assumes "cache_inv pc" and "in_dom pc r pg" and "cnt_of (dstate pc r pg) + unat count + extra_count (pc_ranges pc r pg) < 2 ^ 29"
    and "acquire_page pc r pg count w q = Some (pc', a)"
  shows "is_valid (dstate pc' r pg) \<and> (w \<longrightarrow> is_dirty (dstate pc' r pg)) \<and>
    cnt_of (dstate pc' r pg) = cnt_of (dstate pc r pg) + unat count + extra_count (pc_ranges pc r pg) \<and>
    (\<forall>k < nblk pc. frame pc' (pc_prp1 pc' a) k = content pc r pg k) \<and>
    (\<forall>r' pg'. (r', pg') \<noteq> (r, pg) \<and> 0 < cnt_of (dstate pc r' pg') \<longrightarrow> pc_ranges pc' r' pg' = pc_ranges pc r' pg')"
proof -
  have acq: "acquired pc pc' r pg count w a" by (rule acquire_page_ok [OF assms])
  have "frame pc' (pc_prp1 pc' a) k = content pc r pg k" if "k < nblk pc" for k
  proof -
    have "content pc' r pg k = content pc r pg k" "is_valid (dstate pc' r pg)" "a = ucast (doffset pc' r pg)"
      using acq that assms(2) by (simp_all add: acquired_def same_content_def)
    then show ?thesis by (simp add: content_def [of pc'] slot_data_def)
  qed
  moreover have "pc_ranges pc' r' pg' = pc_ranges pc r' pg'" if "(r', pg') \<noteq> (r, pg)" "0 < cnt_of (dstate pc r' pg')" for r' pg'
    using acq that unfolding acquired_def others_kept_def evictable_def by force
  ultimately show ?thesis using acq by (simp add: acquired_def)
qed

theorem acquire_page_correct_witness:
  "\<exists>pc' a. acquire_page witness_pc 0 1 3 False 0 = Some (pc', a) \<and> cnt_of (dstate pc' 0 1) = 3 \<and> frame pc' (pc_prp1 pc' a) 0 = 101"
proof -
  note w = witness_pc_inv witness_pc_facts
  have b: "cnt_of (dstate witness_pc 0 1) + unat (3::u32) + extra_count (pc_ranges witness_pc 0 1) < 2 ^ 29" using w(5,6) by simp
  obtain pc' a where a: "acquire_page witness_pc 0 1 3 False 0 = Some (pc', a)"
    using acquire_page_returns [OF w(1,3) b] w(7) by blast
  show ?thesis using acquire_page_correct [OF w(1,3) b a] a w(4,5,6,8) by auto
qed

text \<open>C15: \<open>acquire_page\<close> returns whenever it can be served: the page is already valid, or some slot
  is free or holds a page without users.  The eviction loop then ends.\<close>

theorem acquire_page_total:
  assumes "cache_inv pc" and "in_dom pc r pg" and "cnt_of (dstate pc r pg) + unat count + extra_count (pc_ranges pc r pg) < 2 ^ 29"
    and "is_valid (dstate pc r pg) \<or> available pc s"
  shows "\<exists>pc' a. acquire_page pc r pg count w q = Some (pc', a)"
  using acquire_page_returns [OF assms] by blast

theorem acquire_page_total_witness: "\<exists>pc' a. acquire_page witness_pc 0 0 1 False 0 = Some (pc', a)"
  using acquire_page_total [OF witness_pc_inv witness_pc_facts(1), of 1 0 False 0] witness_pc_facts by simp

text \<open>C16: Flushing makes a page durable: after the flush thread of a used slot, every controller that
  stores the page in that slot holds its current content, the page is clean and still valid, and
  no other block changed.\<close>

theorem flush_page_durable:
  assumes "cache_inv pc" and "in_dom pc r pg" and "is_valid (dstate pc r pg)"
  shows "\<exists>pc'. flush_page pc smid (doffset pc r pg) = Some pc' \<and> is_valid (dstate pc' r pg) \<and> \<not> is_dirty (dstate pc' r pg) \<and>
    (\<forall>k < nblk pc. \<forall>c \<in> ctrls_of pc r pg. disk pc' c (page_lba pc r pg + of_nat k) = content pc r pg k) \<and>
    cache_view pc' = cache_view pc"
proof -
  have i: "inv0 {} pc" using assms(1) by (simp add: cache_inv_def)
  note v = inv0_valid [OF i assms(2,3)]
  obtain pc' where f: "flush_page pc smid (doffset pc r pg) = Some pc'" "cache_inv pc'" "same_content pc' pc" "cfg_eq pc' pc"
      "is_valid (dstate pc' r pg)" "\<not> is_dirty (dstate pc' r pg)"
    using flush_page_ok [OF assms(1) v(3), of smid] v(4) assms(2,3) by (auto simp: holds_page_def)
  note e = cfg_eqD [OF f(4)]
  have i': "inv0 {} pc'" using f(2) by (simp add: cache_inv_def)
  have "disk pc' c (page_lba pc r pg + of_nat k) = content pc r pg k" if "k < nblk pc" "c \<in> ctrls_of pc r pg" for k c
    using inv0_clean [OF i', of r pg k c] f(3,6) that assms(2) by (simp add: e same_content_def)
  then show ?thesis using f same_content_view [OF f(3,4)] by blast
qed

theorem flush_page_durable_witness:
  "\<exists>pc pc'. is_dirty (dstate pc 0 1) \<and> flush_page pc 0 (doffset pc 0 1) = Some pc' \<and> disk pc' 0 1 = (101::nat)"
proof -
  note w = witness_pc_inv witness_pc_facts
  obtain pc1 a where a: "acquired witness_pc pc1 0 1 1 True a"
    using acquire_page_returns [OF w(1,3), of 1 0 True 0] w(5-7) by auto
  then have e: "cfg_eq pc1 witness_pc" and s: "same_content pc1 witness_pc" by (simp_all add: acquired_def)
  note e' = cfg_eqD [OF e]
  have c: "0 \<in> ctrls_of pc1 0 1" "page_lba pc1 0 1 = 1" "content pc1 0 1 0 = 101" "in_dom pc1 0 1" "nblk pc1 = 1"
    using w(3,4,8) s by (simp_all add: e' same_content_def)
      (simp_all add: ctrls_of_def page_lba_def get_backing_page_def backing_page_def witness_pc_def)
  have v: "cache_inv pc1" "is_valid (dstate pc1 0 1)" "is_dirty (dstate pc1 0 1)" using a by (simp_all add: acquired_def)
  obtain pc' where f: "flush_page pc1 0 (doffset pc1 0 1) = Some pc'"
      and "\<forall>k < nblk pc1. \<forall>c \<in> ctrls_of pc1 0 1. disk pc' c (page_lba pc1 0 1 + of_nat k) = content pc1 0 1 k"
    using flush_page_durable [OF v(1) c(4) v(2), of 0] by blast
  then have "disk pc' 0 (page_lba pc1 0 1 + of_nat 0) = content pc1 0 1 0" using c(1,5) by simp
  then show ?thesis using f v(3) c(2,3) by auto
qed


text \<open>Page 0 valid and dirty in slot 0, slot 1 never used.\<close>

definition dirty_page0 :: "nat page_cache" where
  "dirty_page0 = witness_pc\<lparr>pc_n_pages := 2,
     pc_cache_pages := (pc_cache_pages witness_pc)(0 := (pc_cache_pages witness_pc 0)\<lparr>page_take_lock := UNLOCKED\<rparr>),
     pc_ranges := (\<lambda>_. (\<lambda>_. witness_page)(0 := witness_page\<lparr>dp_state := VALID OR DIRTY, dp_offset := 0\<rparr>)),
     frame := (\<lambda>a. if a = 0x10000 then (\<lambda>_. 7) else (\<lambda>_. 0))\<rparr>"

text \<open>C39: \<open>__flush\<close> does not look at \<open>page_take_lock\<close>: a thread of a slot that was never used takes the
  slot's address (zero after \<open>clear_cache_safe\<close>) for real and, if page 0 of range 0 is dirty in
  another slot, overwrites its blocks on the controller with the content of the unused slot, so
  that the next miss on the page reads that instead of the data.\<close>

theorem flush_unused_slot_corrupts:
  "content dirty_page0 0 0 0 = 7 \<and> page_take_lock (pc_cache_pages dirty_page0 1) = FREE \<and>
   (\<exists>pc'. flush_page dirty_page0 0 1 = Some pc' \<and> disk pc' 0 0 = 0 \<and> \<not> is_dirty (dstate pc' 0 0))"
proof -
  let ?pc = dirty_page0
  have c: "cids_free (pc_cids ?pc)" "wf_cmd (pc_local_cmd ?pc)" "blocks_ok (pc_n_blocks_per_page ?pc)"
    by (simp_all add: dirty_page0_def witness_pc_def wf_cmd_def blocks_ok_def)
  obtain C where "write_data ?pc 0 (0 mod pc_n_qps ?pc 0) 0 (pc_n_blocks_per_page ?pc) 1 =
      Some (?pc\<lparr>pc_cids := C, pc_q_tail := pc_q_tail ?pc + 1, disk := (disk ?pc)(0 := written ?pc 1 0 0)\<rparr>)"
    using write_data_ok [OF c, of 0 "0 mod pc_n_qps ?pc 0" 0 1] by blast
  moreover have "pc_n_ctrls ?pc = 1" "pc_dists ?pc 0 = STRIPE" "pc_page_starts ?pc 0 = 0" "pc_n_blocks_per_page ?pc = 1"
    by (simp_all add: dirty_page0_def witness_pc_def)
  ultimately have w: "write_back ?pc 0 1 0 0 =
      Some (?pc\<lparr>pc_cids := C, pc_q_tail := pc_q_tail ?pc + 1, disk := (disk ?pc)(0 := written ?pc 1 0 0)\<rparr>)"
    by (simp add: write_back_def Let_def backing_ctrl_def backing_page_def ALL_CTRLS_def)
  have a: "addr_range ?pc (page_translation (pc_cache_pages ?pc 1)) = 0" "addr_page ?pc (page_translation (pc_cache_pages ?pc 1)) = 0"
    by (simp_all add: addr_range_def addr_page_def dirty_page0_def witness_pc_def)
  have s: "dp_state (pc_ranges ?pc 0 0) = VALID OR DIRTY" "(ucast (1::u32) :: u64) < pc_n_pages ?pc"
    by (simp_all add: dirty_page0_def)
  have "(VALID OR DIRTY) AND DIRTY \<noteq> 0" by (simp add: VALID_def DIRTY_def)
  then have f: "flush_page ?pc 0 1 = Some (upd_state 0 0 (\<lambda>s. s AND NOT DIRTY)
      (?pc\<lparr>pc_cids := C, pc_q_tail := pc_q_tail ?pc + 1, disk := (disk ?pc)(0 := written ?pc 1 0 0)\<rparr>))"
    unfolding flush_page_def Let_def a s(1) using s(2) w by simp
  have d: "written ?pc 1 0 0 0 = 0" by (simp add: written_def dirty_page0_def witness_pc_def)
  have v: "is_valid (VALID OR DIRTY)" by (simp add: is_valid_def bit_or_iff bit_flag)
  have "content ?pc 0 0 0 = 7"
    using v by (simp add: content_def dstate_def doffset_def slot_data_def dirty_page0_def) (simp add: witness_pc_def)
  moreover have "page_take_lock (pc_cache_pages ?pc 1) = FREE" by (simp add: dirty_page0_def witness_pc_def)
  ultimately show ?thesis
    using f d by (simp add: upd_state_def upd_page_def dstate_def flag_simps)
qed

subsection \<open>Allocation after \<open>clear_cache_safe\<close>\<close>

text \<open>A valid page is handed out with its slot and nothing is transferred, whatever the state of the slots.\<close>

lemma acquire_valid_hit:
  assumes "is_valid (dstate pc r pg)" and "\<not> is_busy (dstate pc r pg)"
  shows "\<exists>pc'. acquire_page pc r pg count w q = Some (pc', ucast (doffset pc r pg)) \<and> frame pc' = frame pc \<and> pc_prp1 pc' = pc_prp1 pc"
proof -
  obtain p n where p: "prefetch_enter (pc_ranges pc r pg) = (p, n)" by force
  note pk = prefetch_enter_keeps [OF p]
  have st: "state_of_word (dp_state p) = V_NB" using assms pk(1) by (simp add: state_of_word_cases dstate_def)
  have ne: "V_NB \<noteq> NV_NB" by (simp add: V_NB_def NV_NB_def)
  show ?thesis
    unfolding acquire_page_def
    by (subst acquire_loop.simps) (simp add: p Let_def st ne upd_page_def upd_state_def doffset_def pk(2))
qed

text \<open>The first slot drawn after the reset is slot 0, and it is taken whatever page it holds.\<close>

lemma find_slot_first_free:
  assumes "pc_page_ticket pc = 0" and "page_take_lock (pc_cache_pages pc 0) = FREE"
  shows "find_slot pc pg r q = Some (pc\<lparr>pc_page_ticket := 1, pc_cache_pages := (pc_cache_pages pc)
    (0 := (pc_cache_pages pc 0)\<lparr>page_translation := get_global_address pc r pg, page_take_lock := UNLOCKED\<rparr>)\<rparr>, 0)"
  unfolding find_slot_def
  by (subst find_slot_loop.simps)
    (simp add: find_slot_pass_def Let_def assms set_lock_def take_slot_def upd_slot_def get_global_address_def)

lemma acquire_first_free:
  assumes ok: "cids_free (pc_cids pc)" "cfg_ok pc" and nv: "\<not> is_valid (dstate pc r pg)" and nb: "\<not> is_busy (dstate pc r pg)"
    and b: "cnt_of (dstate pc r pg) + unat count + extra_count (pc_ranges pc r pg) < 2 ^ 29"
    and fr: "pc_page_ticket pc = 0" "page_take_lock (pc_cache_pages pc 0) = FREE"
  shows "\<exists>pc' c. acquire_page pc r pg count w q = Some (pc', 0) \<and> is_valid (dstate pc' r pg) \<and> doffset pc' r pg = 0 \<and>
    (\<forall>r' pg'. (r', pg') \<noteq> (r, pg) \<longrightarrow> pc_ranges pc' r' pg' = pc_ranges pc r' pg') \<and> cfg_eq pc' pc \<and> c \<in> ctrls_of pc r pg \<and>
    (\<forall>k < nblk pc. frame pc' (pc_prp1 pc' 0) k = disk pc c (page_lba pc r pg + of_nat k))"
proof -
  let ?B = "busied pc r pg count"
  note B = busied_page [OF b]
  have cB: "pc_cids ?B = pc_cids pc" "disk ?B = disk pc" "pc_page_ticket ?B = pc_page_ticket pc"
    by (simp_all add: busied_def entered_def Let_def split_beta upd_state_def upd_page_def)
  have st: "state_of_word (dstate pc r pg) = NV_NB" using nv nb by (simp add: state_of_word_cases)
  have "\<not> is_busy (dstate (entered pc r pg count) r pg)" using entered_page(2) [OF b] nb by simp
  then have acq: "acquire_page pc r pg count w q = acquire_fill ?B r pg count w q"
    unfolding acquire_page_entered by (subst acquire_loop.simps) (simp add: st Let_def busied_def flag_simps dstate_def [symmetric])
  let ?pc1 = "?B\<lparr>pc_page_ticket := 1, pc_cache_pages := (pc_cache_pages ?B)
    (0 := (pc_cache_pages ?B 0)\<lparr>page_translation := get_global_address ?B r pg, page_take_lock := UNLOCKED\<rparr>)\<rparr>"
  have f: "find_slot ?B pg r q = Some (?pc1, 0)" using fr by (intro find_slot_first_free) (simp_all add: B(7) cB(3))
  have e1: "cfg_eq ?pc1 ?B" by (simp add: cfg_eq_def)
  have "cids_free (pc_cids ?pc1)" "wf_cmd (pc_local_cmd ?pc1)" "blocks_ok (pc_n_blocks_per_page ?pc1)" "0 < pc_n_ctrls ?pc1"
    using ok B(6) by (simp_all add: cB cfg_ok_def cfg_slots_def cfg_eq_def)
  then obtain C n A T c where c: "c \<in> ctrls_of ?B r pg" and fill: "acquire_fill ?B r pg count w q = Some (?pc1\<lparr>pc_ctrl_counter := n,
      pc_access_counter := A, pc_cids := C, pc_q_tail := T,
      frame := (frame ?pc1)(pc_prp1 ?pc1 (ucast (0::u32)) := \<lambda>k. if k < nblk ?pc1 then disk ?pc1 c (page_lba ?pc1 r pg + of_nat k)
                                                     else frame ?pc1 (pc_prp1 ?pc1 (ucast (0::u32))) k),
      pc_ranges := (pc_ranges ?pc1)(r := (pc_ranges ?pc1 r)(pg := (pc_ranges ?pc1 r pg)
        \<lparr>dp_offset := 0, dp_state := (if w then dstate ?pc1 r pg OR DIRTY else dstate ?pc1 r pg) XOR DISABLE_BUSY_ENABLE_VALID\<rparr>)),
      pc_miss_cnt := bump r (ucast count) (pc_miss_cnt ?pc1)\<rparr>, ucast (0::u32))" (is "_ = Some (?pc', _)")
    using acquire_fill_taken [OF _ _ _ _ f e1, of count w] by blast
  have "dstate ?pc1 = dstate ?B" by (simp add: fun_eq_iff dstate_def)
  then have "dstate ?pc' r pg = (if w then dstate ?B r pg OR DIRTY else dstate ?B r pg) XOR DISABLE_BUSY_ENABLE_VALID"
    by (simp add: dstate_def)
  then have "is_valid (dstate ?pc' r pg)" using B(1,2) nv by (simp add: flag_simps)
  moreover have "doffset ?pc' r pg = 0" by (simp add: doffset_def)
  moreover have "pc_ranges ?pc' r' pg' = pc_ranges pc r' pg'" if "(r', pg') \<noteq> (r, pg)" for r' pg' using that B(5) [of r' pg'] by auto
  moreover have "cfg_eq ?pc' pc" using B(6) by (simp add: cfg_eq_def)
  moreover have "c \<in> ctrls_of pc r pg" "nblk ?pc1 = nblk pc" "page_lba ?pc1 r pg = page_lba pc r pg"
    using c cfg_eqD [OF B(6)] cfg_eqD [OF cfg_eq_trans [OF e1 B(6)]] by simp_all
  ultimately show ?thesis using acq fill by (intro exI [of _ ?pc'] exI [of _ c]) (simp add: cB)
qed

text \<open>C40: \<open>clear_cache_safe\<close> frees every slot but leaves the page states alone.  Take a page that is valid in
  slot 0, the first that the allocator draws after the reset, and a page that is not in the cache.  When
  the second page is acquired after the reset, it gets slot 0, although the first page still counts as
  valid there, with whatever users it has: two valid pages share one slot, and an acquire of the first
  page is a hit that hands out the content of the second.\<close>

theorem clear_cache_safe_keeps_valid:
  assumes "cache_inv pc" and "in_dom pc r pg" and "is_valid (dstate pc r pg)" and "doffset pc r pg = 0"
    and "in_dom pc r' pg'" and "\<not> is_valid (dstate pc r' pg')"
    and "cnt_of (dstate pc r' pg') + unat count + extra_count (pc_ranges pc r' pg') < 2 ^ 29"
  shows "\<exists>pc'. acquire_page (clear_cache_safe pc) r' pg' count w q = Some (pc', 0) \<and>
    is_valid (dstate pc' r pg) \<and> cnt_of (dstate pc' r pg) = cnt_of (dstate pc r pg) \<and> is_valid (dstate pc' r' pg') \<and>
    doffset pc' r pg = 0 \<and> doffset pc' r' pg' = 0 \<and>
    (\<exists>pc''. acquire_page pc' r pg count' False q' = Some (pc'', 0) \<and>
      (\<forall>k < nblk pc. frame pc'' (pc_prp1 pc'' 0) k = content pc r' pg' k))"
proof -
  let ?pc = "clear_cache_safe pc"
  have i: "inv0 {} pc" and qt: "quiet pc" using assms(1) by (simp_all add: cache_inv_def)
  have ne: "(r, pg) \<noteq> (r', pg')" using assms(3,6) by auto
  have nb: "\<not> is_busy (dstate pc r pg)" "\<not> is_busy (dstate pc r' pg')" using qt assms(2,5) by (simp_all add: quiet_def)
  have nd: "\<not> is_dirty (dstate pc r' pg')" using inv0_dirty [OF i assms(5)] assms(6) by blast
  have e: "cfg_eq ?pc pc" by (simp add: cfg_eq_def clear_cache_safe_def)
  have d: "dstate ?pc = dstate pc" "pc_ranges ?pc = pc_ranges pc" "disk ?pc = disk pc" "pc_cids ?pc = pc_cids pc" "pc_page_ticket ?pc = 0"
    by (simp_all add: dstate_def clear_cache_safe_def fun_eq_iff)
  have "is_slot pc 0" using inv0_valid(3) [OF i assms(2,3)] assms(4) by simp
  then have fr: "page_take_lock (pc_cache_pages ?pc 0) = FREE" by (simp add: clear_cache_safe_def is_slot_def)
  have "cids_free (pc_cids ?pc)" "cfg_ok ?pc" using inv0D(1,2) [OF i] cfg_eqD(1) [OF e] by (simp_all add: d)
  then obtain pc' c where a: "acquire_page ?pc r' pg' count w q = Some (pc', 0)" "is_valid (dstate pc' r' pg')" "doffset pc' r' pg' = 0"
      "pc_ranges pc' r pg = pc_ranges pc r pg" "c \<in> ctrls_of pc r' pg'"
      "\<forall>k < nblk pc. frame pc' (pc_prp1 pc' 0) k = disk pc c (page_lba pc r' pg' + of_nat k)"
    using acquire_first_free [of ?pc r' pg' count w q] assms(6,7) nb(2) fr ne cfg_eqD [OF e] by (auto simp: d)
  have v: "dstate pc' r pg = dstate pc r pg" "doffset pc' r pg = 0" using a(4) assms(4) by (simp_all add: dstate_def doffset_def)
  have "\<forall>k < nblk pc. frame pc' (pc_prp1 pc' 0) k = content pc r' pg' k" using inv0_clean [OF i assms(5) nd] a(5,6) by simp
  moreover obtain pc'' where "acquire_page pc' r pg count' False q' = Some (pc'', 0)" "frame pc'' = frame pc'" "pc_prp1 pc'' = pc_prp1 pc'"
    using acquire_valid_hit [of pc' r pg count' False q'] v assms(3) nb(1) by auto
  ultimately show ?thesis using a(1-3) v assms(3) by auto
qed

text \<open>Page 1 of the example cache is read into its only slot; after the reset page 0 gets that slot too.\<close>

theorem clear_cache_safe_keeps_valid_witness:
  "\<exists>pc pc' pc'' :: nat page_cache. cache_inv pc \<and> content pc 0 1 0 = 101 \<and> content pc 0 0 0 = 100 \<and>
    acquire_page (clear_cache_safe pc) 0 0 1 False 0 = Some (pc', 0) \<and> acquire_page pc' 0 1 1 False 0 = Some (pc'', 0) \<and>
    frame pc'' (pc_prp1 pc'' 0) 0 = 100"
proof -
  note w = witness_pc_inv witness_pc_facts
  obtain pc1 a where a: "acquired witness_pc pc1 0 1 1 True a"
    using acquire_page_returns [OF w(1,3), of 1 0 True 0] w(5-7) by auto
  then have e: "cfg_eq pc1 witness_pc" and s: "same_content pc1 witness_pc" by (simp_all add: acquired_def)
  have v: "cache_inv pc1" "is_valid (dstate pc1 0 1)" "in_dom pc1 0 1" "in_dom pc1 0 0" "nblk pc1 = 1"
    using a w(2,3,4) cfg_eqD [OF e] by (simp_all add: acquired_def)
  have "is_slot pc1 (doffset pc1 0 1)" using inv0_valid(3) [of "{}" pc1 0 1] v by (simp add: cache_inv_def)
  moreover have "x < 1 \<longleftrightarrow> x = 0" for x :: u64 by (simp add: word_less_nat_alt unat_eq_0)
  ultimately have "ucast (doffset pc1 0 1) = (0 :: u64)" using e by (simp add: is_slot_def cfg_eq_def witness_pc_def)
  moreover have "unat (ucast (doffset pc1 0 1) :: u64) = unat (doffset pc1 0 1)" by (simp add: unat_ucast_up)
  ultimately have z: "doffset pc1 0 1 = 0" by (simp add: unat_eq_0)
  have "\<not> evictable witness_pc 0 0" using w(5) by (simp add: evictable_def)
  moreover have "others_kept witness_pc pc1 0 1" using a by (simp add: acquired_def)
  ultimately have p0: "pc_ranges pc1 0 0 = pc_ranges witness_pc 0 0"
    unfolding others_kept_def by (metis prod.inject zero_neq_one)
  then have b: "\<not> is_valid (dstate pc1 0 0)" "cnt_of (dstate pc1 0 0) + unat (1::u32) + extra_count (pc_ranges pc1 0 0) < 2 ^ 29"
    using w(5) [of 0 0] w(6) [of 0 0] by (simp_all add: dstate_def)
  have c: "content pc1 0 1 0 = 101" "content pc1 0 0 0 = content witness_pc 0 0 0" using s w by (simp_all add: same_content_def)
  have "content witness_pc 0 0 0 = 100"
    by (simp add: content_def is_valid_def home_ctrl_def page_lba_def get_backing_page_def backing_page_def dstate_def INVALID_def witness_page_def witness_pc_def)
  then show ?thesis using clear_cache_safe_keeps_valid [OF v(1,3,2) z v(4) b, of False 0 1 0] v c by auto
qed

end
