(* ===== verification/Page_Async.thy ===== *)
theory Page_Async
  imports Page_Cache_Ops
begin

text \<open>
  The asynchronous path of the page cache (\<open>include/page_cache.h\<close>): \<open>read_data_submit_async\<close>,
  \<open>read_data_wait_async\<close> and \<open>read_data_try_wait_async\<close>, the allocator that goes by \<open>ref_count\<close>,
  and \<open>acquire_page_submit_async\<close>, \<open>acquire_page_wait_async\<close> and \<open>acquire_page_try_wait_async\<close>.
  Between submission and wait the command is outstanding at the device: \<open>ac_sub\<close> holds the
  commands submitted on each queue pair by identifier and \<open>ac_done\<close> the identifiers of the
  completions not yet dequeued.  \<open>device_complete\<close> is the controller executing one of them.
\<close>

section \<open>Context and transfers\<close>

record s_ctx =
  cx_cid :: u16
  cx_has_pending_io :: u8
  cx_cmd :: nvm_cmd_t
  cx_page_trans :: u32
  cx_member_acquire_ctrl :: u64
  cx_observed_page_translation :: u64
  cx_isHit :: bool

record 'b async_cache =
  ac_pc :: "'b page_cache"
  ac_sub :: "u64 \<times> u32 \<times> u16 \<Rightarrow> nvm_cmd_t option"
  ac_done :: "u64 \<times> u32 \<Rightarrow> u16 list"

definition ASYNC_PAGE_TRANS_PENDING :: u32 where "ASYNC_PAGE_TRANS_PENDING = 0xFFFFFFFF"

definition read_data_submit_async ::
  "'b async_cache \<Rightarrow> u64 \<Rightarrow> u32 \<Rightarrow> u64 \<Rightarrow> u64 \<Rightarrow> s_ctx \<Rightarrow> ('b async_cache \<times> s_ctx) option"
where
  "read_data_submit_async ac ctrl queue starting_lba n_blocks ctx =
     (case get_cid (pc_cids (ac_pc ac) ctrl queue) of
        None \<Rightarrow> None
      | Some (p, c) \<Rightarrow>
          (let cid = of_nat c :: u16;
               cmd = rw_cmd (ac_pc ac) cid (ucast (io_opcode NVM_IO_READ)) starting_lba n_blocks (ucast (cx_page_trans ctx))
           in Some (ac\<lparr>ac_pc := set_cids ctrl queue p (ac_pc ac), ac_sub := (ac_sub ac)((ctrl, queue, cid) \<mapsto> cmd)\<rparr>,
                    ctx\<lparr>cx_cid := cid, cx_has_pending_io := 1, cx_cmd := cmd\<rparr>)))"

definition device_complete :: "u64 \<Rightarrow> u32 \<Rightarrow> u16 \<Rightarrow> 'b async_cache \<Rightarrow> 'b async_cache" where
  "device_complete ctrl queue cid ac =
     (case ac_sub ac (ctrl, queue, cid) of
        None \<Rightarrow> ac
      | Some cmd \<Rightarrow> ac\<lparr>ac_pc := device_exec ctrl cmd (ac_pc ac), ac_sub := (ac_sub ac)((ctrl, queue, cid) := None),
                       ac_done := (ac_done ac)((ctrl, queue) := ac_done ac (ctrl, queue) @ [cid])\<rparr>)"

text \<open>What follows the poll in both waits: accounting, dequeue, identifier back.\<close>

definition async_finish :: "'b async_cache \<Rightarrow> u64 \<Rightarrow> u32 \<Rightarrow> s_ctx \<Rightarrow> 'b async_cache \<times> s_ctx" where
  "async_finish ac ctrl queue ctx =
     (let pc = ac_pc ac;
          pc1 = pc\<lparr>pc_q_tail := pc_q_tail pc + 1\<rparr>;
          pc2 = set_cids ctrl queue (put_cid (unat (cx_cid ctx)) (pc_cids pc1 ctrl queue)) pc1
      in (ac\<lparr>ac_pc := pc2, ac_done := (ac_done ac)((ctrl, queue) := remove1 (cx_cid ctx) (ac_done ac (ctrl, queue)))\<rparr>,
          ctx\<lparr>cx_has_pending_io := 0\<rparr>))"

definition read_data_try_wait_async ::
  "'b async_cache \<Rightarrow> u64 \<Rightarrow> u32 \<Rightarrow> s_ctx \<Rightarrow> ('b async_cache \<times> s_ctx) option"
where
  "read_data_try_wait_async ac ctrl queue ctx =
     (if cx_cid ctx \<in> set (ac_done ac (ctrl, queue)) then Some (async_finish ac ctrl queue ctx) else None)"

text \<open>The blocking wait polls until the completion is there; alone it would poll forever otherwise.\<close>

partial_function (option) read_data_wait_async ::
  "'b async_cache \<Rightarrow> u64 \<Rightarrow> u32 \<Rightarrow> s_ctx \<Rightarrow> ('b async_cache \<times> s_ctx) option"
where
  "read_data_wait_async ac ctrl queue ctx =
     (if cx_cid ctx \<in> set (ac_done ac (ctrl, queue)) then Some (async_finish ac ctrl queue ctx)
      else read_data_wait_async ac ctrl queue ctx)"

section \<open>The allocator that goes by reference counts\<close>

definition try_evict_ctx :: "'b page_cache \<Rightarrow> u32 \<Rightarrow> u32 \<Rightarrow> ('b page_cache \<times> bool) option" where
  "try_evict_ctx pc queue page =
     (let ga = page_translation (pc_cache_pages pc page);
          r = addr_range pc ga;
          pg = addr_page pc ga;
          expected_state = dp_ref_count (pc_ranges pc r pg);
          cnt = expected_state;
          b = expected_state AND BUSY
      in if cnt = 0 \<and> b = 0 then
           (let new_expected_state = dp_state (pc_ranges pc r pg);
                pc1 = upd_state r pg (\<lambda>s. s OR BUSY) pc
            in if new_expected_state AND BUSY = 0 then
                 if new_expected_state AND CNT_MASK = 0 then
                   (case (if new_expected_state AND DIRTY \<noteq> 0 then write_back pc1 queue page r pg else Some pc1) of
                      None \<Rightarrow> None
                    | Some pc2 \<Rightarrow> Some (upd_state r pg (\<lambda>s. s AND CNT_MASK) pc2, True))
                 else Some (upd_state r pg (\<lambda>s. s AND DISABLE_BUSY_MASK) pc1, False)
               else Some (pc1, False))
         else Some (pc, False))"

definition find_slot_ctx_pass :: "'b page_cache \<Rightarrow> u64 \<Rightarrow> u32 \<Rightarrow> ('b page_cache \<times> u32 \<times> bool) option" where
  "find_slot_ctx_pass pc global_address queue =
     (let page = ucast (ucast (pc_page_ticket pc) mod pc_n_pages pc) :: u32;
          pc = pc\<lparr>pc_page_ticket := pc_page_ticket pc + 1\<rparr>;
          v = page_take_lock (pc_cache_pages pc page)
      in if v = FREE then
           Some (set_lock page UNLOCKED (take_slot page global_address (set_lock page LOCKED pc)), page, True)
         else if v = UNLOCKED then
           (case try_evict_ctx (set_lock page LOCKED pc) queue page of
              None \<Rightarrow> None
            | Some (pc1, ok) \<Rightarrow>
                (let pc2 = (if ok then take_slot page global_address pc1 else pc1)
                 in Some (set_lock page UNLOCKED pc2, page, ok)))
         else Some (pc, page, False))"

partial_function (option) find_slot_ctx_loop :: "'b page_cache \<Rightarrow> u64 \<Rightarrow> u32 \<Rightarrow> ('b page_cache \<times> u32) option" where
  "find_slot_ctx_loop pc global_address queue =
     (case find_slot_ctx_pass pc global_address queue of
        None \<Rightarrow> None
      | Some (pc1, page, ok) \<Rightarrow> if ok then Some (pc1, page) else find_slot_ctx_loop pc1 global_address queue)"

definition find_slot_ctx :: "'b page_cache \<Rightarrow> u64 \<Rightarrow> u64 \<Rightarrow> u32 \<Rightarrow> ('b page_cache \<times> u32) option" where
  "find_slot_ctx pc address range_id queue =
     find_slot_ctx_loop pc (push_bit (unat (pc_n_ranges_bits pc)) address OR range_id) queue"

section \<open>Submit\<close>

definition observe :: "'b page_cache \<Rightarrow> u32 \<Rightarrow> u64" where
  "observe pc page_trans =
     (if page_trans = ASYNC_PAGE_TRANS_PENDING \<or> ucast page_trans \<ge> pc_n_pages pc then 0
      else page_translation (pc_cache_pages pc page_trans))"

definition upd_pc :: "('b page_cache \<Rightarrow> 'b page_cache) \<Rightarrow> 'b async_cache \<Rightarrow> 'b async_cache" where
  "upd_pc f ac = ac\<lparr>ac_pc := f (ac_pc ac)\<rparr>"

text \<open>The miss branch, after the \<open>BUSY\<close> bit was taken.\<close>

definition submit_miss ::
  "'b async_cache \<Rightarrow> u64 \<Rightarrow> u64 \<Rightarrow> u32 \<Rightarrow> s_ctx \<Rightarrow> ('b async_cache \<times> s_ctx \<times> u64) option"
where
  "submit_miss ac r index queue ctx =
     (let pc1 = upd_page r index (\<lambda>p. p\<lparr>dp_polling_flag := 0\<rparr>) (ac_pc ac);
          pc2 = upd_page r index (\<lambda>p. p\<lparr>dp_offset := ASYNC_PAGE_TRANS_PENDING\<rparr>) pc1
      in case find_slot_ctx pc2 index r queue of
           None \<Rightarrow> None
         | Some (pc3, page_trans) \<Rightarrow>
             (let ctx1 = ctx\<lparr>cx_page_trans := page_trans, cx_observed_page_translation := observe pc3 page_trans\<rparr>;
                  pc4 = upd_page r index (\<lambda>p. p\<lparr>dp_offset := page_trans\<rparr>) pc3;
                  (pc5, ctrl) = pick_ctrl pc4 r index;
                  b_page = get_backing_page pc5 r index;
                  pc6 = pc5\<lparr>pc_access_counter := bump ctrl 1 (pc_access_counter pc5)\<rparr>;
                  ctx2 = ctx1\<lparr>cx_member_acquire_ctrl := ctrl\<rparr>
              in case read_data_submit_async (ac\<lparr>ac_pc := pc6\<rparr>) ctrl queue (b_page * pc_n_blocks_per_page pc6)
                        (pc_n_blocks_per_page pc6) ctx2 of
                   None \<Rightarrow> None
                 | Some (ac7, ctx3) \<Rightarrow> Some (ac7, ctx3, ucast page_trans)))"

text \<open>Joining a miss in flight: spin until the slot number is there, then pick a controller.\<close>

partial_function (option) join_wait :: "'b page_cache \<Rightarrow> u64 \<Rightarrow> u64 \<Rightarrow> u32 option" where
  "join_wait pc r index =
     (let page_trans = dp_offset (pc_ranges pc r index)
      in if page_trans = ASYNC_PAGE_TRANS_PENDING \<or>
            page_translation (pc_cache_pages pc page_trans) \<noteq> get_global_address pc r index
         then join_wait pc r index else Some page_trans)"

partial_function (option) submit_loop ::
  "'b async_cache \<Rightarrow> u64 \<Rightarrow> u64 \<Rightarrow> u32 \<Rightarrow> bool \<Rightarrow> u32 \<Rightarrow> s_ctx \<Rightarrow> u32 \<Rightarrow> ('b async_cache \<times> s_ctx \<times> u64) option"
where
  "submit_loop ac r index count write queue ctx read_state =
     (let st = state_of_word read_state in
      if st = NV_NB then
        (let ctx1 = ctx\<lparr>cx_isHit := False\<rparr>;
             st_new = dp_state (pc_ranges (ac_pc ac) r index);
             ac1 = upd_pc (upd_state r index (\<lambda>s. s OR BUSY)) ac
         in if st_new AND BUSY = 0 then submit_miss ac1 r index queue ctx1
            else submit_loop ac1 r index count write queue ctx1 (dp_state (pc_ranges (ac_pc ac1) r index)))
      else if st = V_NB then
        (let ac1 = (if write \<and> read_state AND DIRTY = 0 then upd_pc (upd_state r index (\<lambda>s. s OR DIRTY)) ac else ac);
             page_trans = dp_offset (pc_ranges (ac_pc ac1) r index);
             ctx1 = ctx\<lparr>cx_isHit := True, cx_page_trans := page_trans,
                        cx_observed_page_translation := observe (ac_pc ac1) page_trans\<rparr>
         in Some (upd_pc (\<lambda>pc. pc\<lparr>pc_hit_cnt := bump r (ucast count) (pc_hit_cnt pc)\<rparr>) ac1, ctx1, ucast page_trans))
      else if st = NV_B then
        (case join_wait (ac_pc ac) r index of
           None \<Rightarrow> None
         | Some page_trans \<Rightarrow>
             (let (pc1, ctrl) = pick_ctrl (ac_pc ac) r index
              in Some (ac\<lparr>ac_pc := pc1\<rparr>,
                       ctx\<lparr>cx_isHit := False, cx_page_trans := page_trans,
                           cx_observed_page_translation := page_translation (pc_cache_pages (ac_pc ac) page_trans),
                           cx_member_acquire_ctrl := ctrl\<rparr>, ucast page_trans)))
      else submit_loop ac r index count write queue ctx (dp_state (pc_ranges (ac_pc ac) r index)))"

definition acquire_page_submit_async ::
  "'b async_cache \<Rightarrow> u64 \<Rightarrow> u64 \<Rightarrow> u32 \<Rightarrow> bool \<Rightarrow> u32 \<Rightarrow> s_ctx \<Rightarrow> ('b async_cache \<times> s_ctx \<times> u64) option"
where
  "acquire_page_submit_async ac r index count write queue ctx =
     (let pc = ac_pc ac;
          pc1 = pc\<lparr>pc_access_cnt := bump r (ucast count) (pc_access_cnt pc)\<rparr>;
          (p, p_count) = prefetch_enter (pc_ranges pc1 r index);
          pc2 = upd_page r index (\<lambda>_. p) pc1;
          read_state = dp_state (pc_ranges pc2 r index);
          pc3 = upd_state r index (\<lambda>s. s + (count + p_count)) pc2;
          pc4 = upd_page r index (\<lambda>p. p\<lparr>dp_ref_count := dp_ref_count p + (count + p_count)\<rparr>) pc3
      in submit_loop (ac\<lparr>ac_pc := pc4\<rparr>) r index count write queue ctx read_state)"

section \<open>Wait\<close>

text \<open>What the thread that won the polling flag does once the transfer is complete.\<close>

definition wait_install ::
  "'b async_cache \<Rightarrow> u64 \<Rightarrow> u64 \<Rightarrow> u32 \<Rightarrow> bool \<Rightarrow> s_ctx \<Rightarrow> 'b async_cache \<times> s_ctx \<times> u64"
where
  "wait_install ac r index count write ctx =
     (let pc = ac_pc ac;
          pc1 = upd_page r index (\<lambda>p. p\<lparr>dp_offset := cx_page_trans ctx\<rparr>) pc;
          ctx1 = ctx\<lparr>cx_observed_page_translation := observe pc1 (cx_page_trans ctx)\<rparr>;
          pc2 = pc1\<lparr>pc_miss_cnt := bump r (ucast count) (pc_miss_cnt pc1)\<rparr>;
          pc3 = (if write then upd_state r index (\<lambda>s. s OR DIRTY) pc2 else pc2);
          pc4 = upd_state r index (\<lambda>s. s XOR DISABLE_BUSY_ENABLE_VALID) pc3;
          pc5 = upd_page r index (\<lambda>p. p\<lparr>dp_polling_flag := 0\<rparr>) pc4
      in (ac\<lparr>ac_pc := pc5\<rparr>, ctx1\<lparr>cx_isHit := True\<rparr>, ucast (cx_page_trans ctx)))"

text \<open>What a waiter does that finds the page valid.\<close>

definition wait_valid ::
  "'b async_cache \<Rightarrow> u64 \<Rightarrow> u64 \<Rightarrow> bool \<Rightarrow> u32 \<Rightarrow> s_ctx \<Rightarrow> 'b async_cache \<times> s_ctx \<times> u64"
where
  "wait_valid ac r index write read_state ctx =
     (let pc = upd_page r index (\<lambda>p. p\<lparr>dp_polling_flag := 0\<rparr>) (ac_pc ac);
          pc1 = (if write \<and> read_state AND DIRTY = 0 then upd_state r index (\<lambda>s. s OR DIRTY) pc else pc);
          page_trans = dp_offset (pc_ranges pc1 r index);
          ctx1 = ctx\<lparr>cx_page_trans := page_trans, cx_observed_page_translation := observe pc1 page_trans\<rparr>
      in (ac\<lparr>ac_pc := pc1\<rparr>, ctx1, ucast page_trans))"

partial_function (option) wait_loop ::
  "'b async_cache \<Rightarrow> u64 \<Rightarrow> u64 \<Rightarrow> u32 \<Rightarrow> bool \<Rightarrow> u32 \<Rightarrow> s_ctx \<Rightarrow> u32 \<Rightarrow> ('b async_cache \<times> s_ctx \<times> u64) option"
where
  "wait_loop ac r index count write queue ctx read_state =
     (let st = state_of_word read_state in
      if st = V_NB then
        (case wait_valid ac r index write read_state ctx of (ac1, ctx1, page_trans) \<Rightarrow>
           Some (upd_pc (\<lambda>pc. pc\<lparr>pc_hit_cnt := bump r (ucast count) (pc_hit_cnt pc)\<rparr>) ac1, ctx1, page_trans))
      else if st = NV_B then
        (let ctx0 = ctx\<lparr>cx_isHit := False\<rparr> in
         if dp_polling_flag (pc_ranges (ac_pc ac) r index) = 0 then
           (let ac1 = upd_pc (upd_page r index (\<lambda>p. p\<lparr>dp_polling_flag := 1\<rparr>)) ac
            in case read_data_wait_async ac1 (cx_member_acquire_ctrl ctx0) queue ctx0 of
                 None \<Rightarrow> None
               | Some (ac2, ctx1) \<Rightarrow> Some (wait_install ac2 r index count write ctx1))
         else wait_loop ac r index count write queue ctx0 (dp_state (pc_ranges (ac_pc ac) r index)))
      else wait_loop ac r index count write queue ctx (dp_state (pc_ranges (ac_pc ac) r index)))"

definition acquire_page_wait_async ::
  "'b async_cache \<Rightarrow> u64 \<Rightarrow> u64 \<Rightarrow> u32 \<Rightarrow> bool \<Rightarrow> u32 \<Rightarrow> s_ctx \<Rightarrow> ('b async_cache \<times> s_ctx \<times> u64) option"
where
  "acquire_page_wait_async ac r index count write queue ctx =
     (let read_state = dp_state (pc_ranges (ac_pc ac) r index)
      in if cx_isHit ctx
         then Some (ac, ctx\<lparr>cx_observed_page_translation := observe (ac_pc ac) (cx_page_trans ctx)\<rparr>, ucast (cx_page_trans ctx))
         else wait_loop ac r index count write queue ctx read_state)"

text \<open>The non-blocking wait: the answer is \<open>None\<close> for \<open>false\<close>.\<close>

definition acquire_page_try_wait_async ::
  "'b async_cache \<Rightarrow> u64 \<Rightarrow> u64 \<Rightarrow> u32 \<Rightarrow> bool \<Rightarrow> u32 \<Rightarrow> s_ctx \<Rightarrow> 'b async_cache \<times> s_ctx \<times> u64 option"
where
  "acquire_page_try_wait_async ac r index count write queue ctx =
     (let read_state = dp_state (pc_ranges (ac_pc ac) r index); st = state_of_word read_state in
      if cx_isHit ctx
      then (ac, ctx\<lparr>cx_observed_page_translation := observe (ac_pc ac) (cx_page_trans ctx)\<rparr>, Some (ucast (cx_page_trans ctx)))
      else if st = V_NB then
        (case wait_valid ac r index write read_state ctx of (ac1, ctx1, page_trans) \<Rightarrow> (ac1, ctx1, Some page_trans))
      else if st = NV_B then
        (if dp_polling_flag (pc_ranges (ac_pc ac) r index) = 0 then
           (let ac1 = upd_pc (upd_page r index (\<lambda>p. p\<lparr>dp_polling_flag := 1\<rparr>)) ac
            in case read_data_try_wait_async ac1 (cx_member_acquire_ctrl ctx) queue ctx of
                 None \<Rightarrow> (upd_pc (upd_page r index (\<lambda>p. p\<lparr>dp_polling_flag := 0\<rparr>)) ac1, ctx, None)
               | Some (ac2, ctx1) \<Rightarrow>
                   (case wait_install ac2 r index count write ctx1 of (ac3, ctx2, page_trans) \<Rightarrow> (ac3, ctx2, Some page_trans)))
         else
           (let read_state = dp_state (pc_ranges (ac_pc ac) r index)
            in if state_of_word read_state = V_NB
               then (let page_trans = dp_offset (pc_ranges (ac_pc ac) r index)
                     in (ac, ctx\<lparr>cx_page_trans := page_trans, cx_observed_page_translation := observe (ac_pc ac) page_trans\<rparr>,
                         Some (ucast page_trans)))
               else (ac, ctx, None)))
      else (ac, ctx, None))"

section \<open>Lemmas: the two allocators agree\<close>

definition refs_ok :: "'b page_cache \<Rightarrow> bool" where
  "refs_ok pc \<longleftrightarrow> (\<forall>r pg. in_dom pc r pg \<longrightarrow> is_valid (dstate pc r pg) \<longrightarrow>
     (dp_ref_count (pc_ranges pc r pg) = 0 \<longleftrightarrow> cnt_of (dstate pc r pg) = 0))"

lemma not_busy_0 [simp]: "\<not> is_busy 0"
  by (simp add: is_busy_def)

lemma try_evict_ctx_eq:
  assumes "addr_range pc (page_translation (pc_cache_pages pc s)) = r" "addr_page pc (page_translation (pc_cache_pages pc s)) = pg"
    and "dp_ref_count (pc_ranges pc r pg) = 0 \<longleftrightarrow> cnt_of (dstate pc r pg) = 0" and "\<not> is_busy (dstate pc r pg)"
  shows "try_evict_ctx pc q s = try_evict pc q s"
  using assms by (cases "cnt_of (dstate pc r pg) = 0") (simp_all add: try_evict_ctx_def try_evict_def Let_def flag_simps dstate_def)

text \<open>The users of the pages that wait for a transfer are counted too.\<close>

definition held_refs :: "u32 set \<Rightarrow> 'b page_cache \<Rightarrow> bool" where
  "held_refs X pc \<longleftrightarrow> (\<forall>s \<in> X. \<forall>r pg. in_dom pc r pg \<longrightarrow> page_translation (pc_cache_pages pc s) = get_global_address pc r pg \<longrightarrow>
     dp_ref_count (pc_ranges pc r pg) \<noteq> 0)"

lemma held_refs_empty [simp]: "held_refs {} pc"
  by (simp add: held_refs_def)

lemma refs_ok_ticket [simp]: "refs_ok (pc\<lparr>pc_page_ticket := t\<rparr>) = refs_ok pc" "held_refs X (pc\<lparr>pc_page_ticket := t\<rparr>) = held_refs X pc"
  by (simp_all add: refs_ok_def held_refs_def in_dom_def dstate_def get_global_address_def)

definition slots_kept :: "u32 set \<Rightarrow> 'b page_cache \<Rightarrow> bool" where
  "slots_kept X pc \<longleftrightarrow> inv0 X pc \<and> held_slots X pc \<and> refs_ok pc \<and> held_refs X pc"

lemma slots_kept_ticket [simp]: "slots_kept X (pc\<lparr>pc_page_ticket := t\<rparr>) = slots_kept X pc"
  by (simp add: slots_kept_def)

lemma find_slot_ctx_pass_eq:
  assumes k: "slots_kept X pc"
  shows "find_slot_ctx_pass pc ga q = find_slot_pass pc ga q"
proof -
  have inv: "inv0 X pc" and held: "held_slots X pc" and refs: "refs_ok pc" "held_refs X pc" using k by (simp_all add: slots_kept_def)
  let ?s = "draw pc" and ?pc = "set_lock (draw pc) LOCKED (pc\<lparr>pc_page_ticket := pc_page_ticket pc + 1\<rparr>)"
  have s: "is_slot pc ?s" using is_slot_draw [of pc] inv0D(1) [OF inv] by (simp add: cfg_ok_def)
  have "try_evict_ctx ?pc q ?s = try_evict ?pc q ?s" if "page_take_lock (pc_cache_pages pc ?s) = UNLOCKED"
  proof (cases rule: inv0_slotE [OF inv held s])
    case 1
    then show ?thesis using that by simp
  next
    case (2 r pg)
    show ?thesis
      using occupant_addr [OF inv 2(2,5)] refs(1) 2(2,3) inv0_valid(1) [OF inv 2(2,3)]
      by (intro try_evict_ctx_eq) (simp_all add: addr_range_def addr_page_def set_lock_def upd_slot_def dstate_def refs_ok_def)
  next
    case (3 r pg)
    have a: "addr_range ?pc (page_translation (pc_cache_pages ?pc ?s)) = r" "addr_page ?pc (page_translation (pc_cache_pages ?pc ?s)) = pg"
      using occupant_addr [OF inv 3(3,5)] by (simp_all add: addr_range_def addr_page_def set_lock_def upd_slot_def)
    have "dp_ref_count (pc_ranges ?pc r pg) \<noteq> 0" using refs(2) 3(1,3,5) by (simp add: held_refs_def set_lock_def upd_slot_def)
    then have "try_evict_ctx ?pc q ?s = Some (?pc, False)" using a by (simp add: try_evict_ctx_def Let_def)
    moreover have "try_evict ?pc q ?s = Some (?pc, False)"
      by (rule try_evict_used [OF a]) (use 3(6) in \<open>simp add: dstate_def set_lock_def upd_slot_def\<close>)
    ultimately show ?thesis by simp
  qed
  then show ?thesis
    unfolding find_slot_ctx_pass_def find_slot_pass_def Let_def draw_def [symmetric] by (simp cong: if_cong)
qed

lemma find_slot_ctx_loop_eq:
  assumes "find_slot_loop pc ga q = Some y"
  shows "slots_kept X pc \<longrightarrow> find_slot_ctx_loop pc ga q = Some y"
proof (rule find_slot_loop.raw_induct
    [where P = "\<lambda>pc ga q y. slots_kept X pc \<longrightarrow> find_slot_ctx_loop pc ga q = Some y", OF _ assms])
  fix f and pc :: "'a page_cache" and ga q y
  assume IH: "\<And>pc ga q y. f pc ga q = Some y \<Longrightarrow> slots_kept X pc \<longrightarrow> find_slot_ctx_loop pc ga q = Some y"
    and body: "(case find_slot_pass pc ga q of None \<Rightarrow> None
      | Some (pc1, page, ok) \<Rightarrow> if ok then Some (pc1, page) else f pc1 ga q) = Some y"
  show "slots_kept X pc \<longrightarrow> find_slot_ctx_loop pc ga q = Some y"
  proof
    assume a: "slots_kept X pc"
    note p = find_slot_ctx_pass_eq [OF a]
    have "inv0 X pc" "held_slots X pc" using a by (simp_all add: slots_kept_def)
    then show "find_slot_ctx_loop pc ga q = Some y"
      using pass_cases [of X pc ga q] a body IH [of "pc\<lparr>pc_page_ticket := pc_page_ticket pc + 1\<rparr>" ga q y]
      by (subst find_slot_ctx_loop.simps) (auto simp: p)
  qed
qed

lemma find_slot_ctx_loop_taken:
  assumes "find_slot_ctx_loop pc ga q = Some y"
  shows "slots_kept X pc \<longrightarrow> slot_taken X pc (fst y) (snd y) ga"
proof (rule find_slot_ctx_loop.raw_induct
    [where P = "\<lambda>pc ga q y. slots_kept X pc \<longrightarrow> slot_taken X pc (fst y) (snd y) ga", OF _ assms])
  fix f and pc :: "'a page_cache" and ga q y
  assume IH: "\<And>pc ga q y. f pc ga q = Some y \<Longrightarrow> slots_kept X pc \<longrightarrow> slot_taken X pc (fst y) (snd y) ga"
    and body: "(case find_slot_ctx_pass pc ga q of None \<Rightarrow> None
      | Some (pc1, page, ok) \<Rightarrow> if ok then Some (pc1, page) else f pc1 ga q) = Some y"
  show "slots_kept X pc \<longrightarrow> slot_taken X pc (fst y) (snd y) ga"
  proof
    assume a: "slots_kept X pc"
    note p = find_slot_ctx_pass_eq [OF a]
    have "inv0 X pc" "held_slots X pc" using a by (simp_all add: slots_kept_def)
    then show "slot_taken X pc (fst y) (snd y) ga"
      using pass_cases [of X pc ga q] a body [unfolded p] IH [of "pc\<lparr>pc_page_ticket := pc_page_ticket pc + 1\<rparr>" ga q y] by auto
  qed
qed

lemma find_slot_ctx_found:
  "\<lbrakk>slots_kept X pc; find_slot_ctx pc pg r q = Some (pc1, s)\<rbrakk> \<Longrightarrow> slot_taken X pc pc1 s (get_global_address pc r pg)"
  using find_slot_ctx_loop_taken [of pc "get_global_address pc r pg" q "(pc1, s)" X] by (simp add: find_slot_ctx_def get_global_address_def)

lemma find_slot_ctx_taken:
  assumes "slots_kept X pc" and "available pc s"
  shows "\<exists>pc1 s1. find_slot_ctx pc pg r q = Some (pc1, s1) \<and> slot_taken X pc pc1 s1 (get_global_address pc r pg)"
proof -
  let ?ga = "get_global_address pc r pg"
  have i: "inv0 X pc" "held_slots X pc" using assms(1) by (simp_all add: slots_kept_def)
  obtain y where y: "find_slot_loop pc ?ga q = Some y" using find_slot_loop_returns [OF i assms(2)] by blast
  have "find_slot_ctx_loop pc ?ga q = Some y" using find_slot_ctx_loop_eq [OF y] assms(1) by blast
  moreover have "slot_taken X pc (fst y) (snd y) ?ga" using find_slot_loop_taken [OF y] i by blast
  ultimately show ?thesis by (cases y) (simp add: find_slot_ctx_def get_global_address_def)
qed


section \<open>Lemmas: submit, completion, wait\<close>

text \<open>The state in which the miss branch of the submission looks for a slot.\<close>

definition submitted :: "'b page_cache \<Rightarrow> u64 \<Rightarrow> u64 \<Rightarrow> u32 \<Rightarrow> 'b page_cache" where
  "submitted pc r pg count =
     (let n = snd (prefetch_enter (pc_ranges pc r pg));
          pc1 = upd_page r pg (\<lambda>p. p\<lparr>dp_ref_count := dp_ref_count p + (count + n)\<rparr>) (entered pc r pg count);
          pc2 = upd_state r pg (\<lambda>s. s OR BUSY) pc1;
          pc3 = upd_page r pg (\<lambda>p. p\<lparr>dp_polling_flag := 0\<rparr>) pc2
      in upd_page r pg (\<lambda>p. p\<lparr>dp_offset := ASYNC_PAGE_TRANS_PENDING\<rparr>) pc3)"

lemma state_of_word_busy: "state_of_word s = NV_B \<longleftrightarrow> \<not> is_valid s \<and> is_busy s"
proof -
  let ?x = "unat s div 2 ^ 30"
  have "drop_bit 30 s AND mask 2 = state_of_word s" by (simp add: state_of_word_def CNT_SHIFT_def mask_eq_exp_minus_1)
  then have u: "unat (state_of_word s) = ?x mod 4" using unat_and_mask [of "drop_bit 30 s" 2] by (simp add: unat_drop_bit_div)
  have v: "is_valid s = odd (?x div 2)" "is_busy s = odd ?x" by (simp_all add: flags_of_div div_mult2_eq [symmetric])
  have g: "y mod 4 = 1 \<longleftrightarrow> even (y div 2) \<and> odd y" for y :: nat by presburger
  have "state_of_word s = NV_B \<longleftrightarrow> ?x mod 4 = 1" by (simp add: unat_eq_iff [of "state_of_word s"] u NV_B_def)
  then show ?thesis unfolding g v by simp
qed

lemma submit_miss_eq:
  assumes nv: "\<not> is_valid (dstate (ac_pc ac) r pg)" and nb: "\<not> is_busy (dstate (ac_pc ac) r pg)"
    and b: "cnt_of (dstate (ac_pc ac) r pg) + unat count + extra_count (pc_ranges (ac_pc ac) r pg) < 2 ^ 29"
  shows "acquire_page_submit_async ac r pg count w q ctx =
    (case find_slot_ctx (submitted (ac_pc ac) r pg count) pg r q of
       None \<Rightarrow> None
     | Some (pc3, s) \<Rightarrow>
         (let ctx1 = ctx\<lparr>cx_isHit := False, cx_page_trans := s, cx_observed_page_translation := observe pc3 s\<rparr>;
              pc4 = upd_page r pg (\<lambda>p. p\<lparr>dp_offset := s\<rparr>) pc3;
              (pc5, c) = pick_ctrl pc4 r pg;
              pc6 = pc5\<lparr>pc_access_counter := bump c 1 (pc_access_counter pc5)\<rparr>
          in case read_data_submit_async (ac\<lparr>ac_pc := pc6\<rparr>) c q (get_backing_page pc5 r pg * pc_n_blocks_per_page pc6)
                    (pc_n_blocks_per_page pc6) (ctx1\<lparr>cx_member_acquire_ctrl := c\<rparr>) of
               None \<Rightarrow> None | Some (ac7, ctx3) \<Rightarrow> Some (ac7, ctx3, ucast s)))"
proof -
  let ?pc = "ac_pc ac"
  obtain p n where p: "prefetch_enter (pc_ranges ?pc r pg) = (p, n)" by force
  note pk = prefetch_enter_keeps [OF p]
  have st: "state_of_word (dp_state p) = NV_NB" using nv nb pk(1) by (simp add: state_of_word_cases dstate_def)
  have "is_busy (dstate (entered ?pc r pg count) r pg) = is_busy (dstate ?pc r pg)" by (rule entered_page(2) [OF b])
  then have nb': "\<not> is_busy (dp_state p + (count + n))" using nb pk(1) by (simp add: entered_def p dstate_def upd_page_def upd_state_def)
  have sub: "submitted ?pc r pg count = ?pc\<lparr>pc_access_cnt := bump r (ucast count) (pc_access_cnt ?pc),
      pc_ranges := (pc_ranges ?pc)(r := (pc_ranges ?pc r)(pg := p\<lparr>dp_ref_count := dp_ref_count p + (count + n),
        dp_state := (dp_state p + (count + n)) OR BUSY, dp_polling_flag := 0, dp_offset := ASYNC_PAGE_TRANS_PENDING\<rparr>))\<rparr>"
    by (simp add: submitted_def entered_def p upd_page_def upd_state_def)
  show ?thesis
    unfolding sub acquire_page_submit_async_def
    by (subst submit_loop.simps)
      (simp add: p Let_def st nb' flag_simps upd_page_def upd_state_def upd_pc_def submit_miss_def cong: option.case_cong prod.case_cong)
qed


lemma submitted_page:
  "dstate (submitted pc r pg count) r pg = dstate (busied pc r pg count) r pg"
  "(r', pg') \<noteq> (r, pg) \<Longrightarrow> pc_ranges (submitted pc r pg count) r' pg' = pc_ranges pc r' pg'"
  "cfg_eq (submitted pc r pg count) pc" "pc_cache_pages (submitted pc r pg count) = pc_cache_pages pc"
  "disk (submitted pc r pg count) = disk pc" "frame (submitted pc r pg count) = frame pc" "pc_cids (submitted pc r pg count) = pc_cids pc"
  "dp_polling_flag (pc_ranges (submitted pc r pg count) r pg) = 0"
  by (auto simp: submitted_def busied_def entered_def Let_def split_beta upd_page_def upd_state_def dstate_def cfg_eq_def)

lemma inv0_submitted:
  assumes i: "inv0 X pc" and nv: "\<not> is_valid (dstate pc r pg)" and dom: "in_dom pc r pg"
    and b: "cnt_of (dstate pc r pg) + unat count + extra_count (pc_ranges pc r pg) < 2 ^ 29"
  shows "inv0 X (submitted pc r pg count)" "same_content (submitted pc r pg count) pc"
proof -
  let ?S = "submitted pc r pg count"
  have nd: "\<not> is_dirty (dstate pc r pg)" using inv0_dirty [OF i dom] nv by blast
  have "is_valid (dstate ?S r' pg') = is_valid (dstate pc r' pg') \<and>
        (is_valid (dstate pc r' pg') \<longrightarrow> doffset ?S r' pg' = doffset pc r' pg' \<and> \<not> is_busy (dstate ?S r' pg')) \<and>
        (is_dirty (dstate pc r' pg') \<longrightarrow> is_dirty (dstate ?S r' pg')) \<and> (is_dirty (dstate ?S r' pg') \<longrightarrow> is_valid (dstate pc r' pg'))"
    if d: "in_dom pc r' pg'" for r' pg'
  proof (cases "(r', pg') = (r, pg)")
    case True
    then show ?thesis using nv nd busied_page(1,3) [OF b] by (simp add: submitted_page(1))
  next
    case False
    then show ?thesis
      using inv0_valid(1) [OF i d] inv0_dirty [OF i d] submitted_page(2) [OF False, of pc count] by (simp add: dstate_def doffset_def)
  qed
  then show "inv0 X ?S" "same_content ?S pc"
    using inv0_flags [OF i submitted_page(3) _ submitted_page(4-6)] inv0D(2) [OF i] by (simp_all add: submitted_page(7))
qed

lemma submitted_others:
  assumes "\<not> is_valid (dstate pc r pg)" and b: "cnt_of (dstate pc r pg) + unat count + extra_count (pc_ranges pc r pg) < 2 ^ 29"
  shows "evictable (submitted pc r pg count) = evictable pc" "available (submitted pc r pg count) s = available pc s"
    "refs_ok (submitted pc r pg count) = refs_ok pc"
proof -
  let ?S = "submitted pc r pg count"
  note e = cfg_eqD [OF submitted_page(3) [of pc r pg count]]
  have v: "\<not> is_valid (dstate ?S r pg)" using assms(1) busied_page(1) [OF b] by (simp add: submitted_page(1))
  have p: "pc_ranges ?S r' pg' = pc_ranges pc r' pg'" if "is_valid (dstate pc r' pg') \<or> is_valid (dstate ?S r' pg')" for r' pg'
    using that v assms(1) by (intro submitted_page(2)) auto
  then have d: "is_valid (dstate ?S r' pg') = is_valid (dstate pc r' pg')" for r' pg' by (metis dstate_def)
  show ev: "evictable ?S = evictable pc"
    using p d by (fastforce simp: fun_eq_iff evictable_def e dstate_def)
  have "doffset ?S r' pg' = doffset pc r' pg'" if "evictable pc r' pg'" for r' pg'
    using p [of r' pg'] that by (simp add: evictable_def doffset_def)
  then have "(evictable pc r' pg' \<and> doffset ?S r' pg' = x) = (evictable pc r' pg' \<and> doffset pc r' pg' = x)" for r' pg' x by metis
  then show "available ?S s = available pc s" by (simp add: available_def ev e submitted_page(4))
  show "refs_ok ?S = refs_ok pc" using p d by (auto simp: refs_ok_def e dstate_def)
qed

lemma slots_kept_submitted:
  assumes k: "slots_kept X pc" and nv: "\<not> is_valid (dstate pc r pg)" and dom: "in_dom pc r pg"
    and b: "cnt_of (dstate pc r pg) + unat count + extra_count (pc_ranges pc r pg) < 2 ^ 29"
    and X: "\<forall>s \<in> X. page_translation (pc_cache_pages pc s) \<noteq> get_global_address pc r pg"
  shows "slots_kept X (submitted pc r pg count)"
proof -
  let ?S = "submitted pc r pg count"
  note e = cfg_eqD [OF submitted_page(3) [of pc r pg count]]
  have i: "inv0 X pc" using k by (simp add: slots_kept_def)
  have own: "pc_ranges ?S r' pg' = pc_ranges pc r' pg'" if "s \<in> X" "page_translation (pc_cache_pages pc s) = get_global_address pc r' pg'" for s r' pg'
    using that X by (intro submitted_page(2)) auto
  have h: "holds_page ?S = holds_page pc" by (simp add: fun_eq_iff holds_page_def e submitted_page(4))
  have "held_slots X ?S"
  proof (unfold held_slots_def e h, intro ballI)
    fix s assume s: "s \<in> X"
    then obtain r' pg' where "is_slot pc s" "in_dom pc r' pg'" "holds_page pc s r' pg'" "\<not> is_valid (dstate pc r' pg')" "cnt_of (dstate pc r' pg') \<noteq> 0"
      using k by (auto simp: slots_kept_def held_slots_def)
    moreover from this have "dstate ?S r' pg' = dstate pc r' pg'" using own [OF s] by (simp add: dstate_def holds_page_def)
    ultimately show "is_slot pc s \<and> (\<exists>r pg. in_dom pc r pg \<and> holds_page pc s r pg \<and> \<not> is_valid (dstate ?S r pg) \<and> cnt_of (dstate ?S r pg) \<noteq> 0)"
      by metis
  qed
  moreover have "held_refs X ?S"
    using k own by (auto simp: slots_kept_def held_refs_def e submitted_page(4))
  ultimately show ?thesis
    using inv0_submitted(1) [OF i nv dom b] k submitted_others(3) [OF nv b] by (simp add: slots_kept_def)
qed

text \<open>The outcome of a submission that missed, while the slots in \<open>X\<close> wait for other transfers.\<close>

definition in_flight :: "u32 set \<Rightarrow> 'b async_cache \<Rightarrow> 'b async_cache \<Rightarrow> s_ctx \<Rightarrow> u64 \<Rightarrow> u64 \<Rightarrow> u32 \<Rightarrow> u32 \<Rightarrow> 'b page_cache \<Rightarrow> u32 \<Rightarrow> bool" where
  "in_flight X ac0 ac ctx r pg count q pc3 s \<longleftrightarrow>
     (let pc = ac_pc ac0; c = cx_member_acquire_ctrl ctx; cid = cx_cid ctx in
      slot_taken X (submitted pc r pg count) pc3 s (get_global_address pc r pg) \<and> c \<in> ctrls_of pc r pg \<and>
      \<not> cx_isHit ctx \<and> cx_page_trans ctx = s \<and> cx_has_pending_io ctx = 1 \<and>
      ac_sub ac = (ac_sub ac0)((c, q, cid) \<mapsto>
        rw_cmd (ac_pc ac) cid (ucast (io_opcode NVM_IO_READ)) (page_lba pc r pg) (pc_n_blocks_per_page pc) (ucast s)) \<and>
      ac_done ac = ac_done ac0 \<and> cp_cid (pc_cids pc c q) (unat cid) = UNLOCKED \<and>
      (\<exists>m A C. ac_pc ac = pc3\<lparr>pc_ranges := (pc_ranges pc3)(r := (pc_ranges pc3 r)(pg := (pc_ranges pc3 r pg)\<lparr>dp_offset := s\<rparr>)),
        pc_ctrl_counter := m, pc_access_counter := A, pc_cids := C\<rparr> \<and>
        cp_cid (C c q) = (cp_cid (pc_cids pc c q))(unat cid := LOCKED) \<and>
        (\<forall>c' q'. (c', q') \<noteq> (c, q) \<longrightarrow> cp_cid (C c' q') = cp_cid (pc_cids pc c' q'))))"

lemma submit_found:
  assumes k: "slots_kept X (ac_pc ac)" and dom: "in_dom (ac_pc ac) r pg"
    and nv: "\<not> is_valid (dstate (ac_pc ac) r pg)" and nb: "\<not> is_busy (dstate (ac_pc ac) r pg)"
    and f: "find_slot_ctx (submitted (ac_pc ac) r pg count) pg r q = Some (pc3, s)"
    and b: "cnt_of (dstate (ac_pc ac) r pg) + unat count + extra_count (pc_ranges (ac_pc ac) r pg) < 2 ^ 29"
    and X: "\<forall>s \<in> X. page_translation (pc_cache_pages (ac_pc ac) s) \<noteq> get_global_address (ac_pc ac) r pg"
  shows "\<exists>ac1 ctx1. acquire_page_submit_async ac r pg count w q ctx = Some (ac1, ctx1, ucast s) \<and>
    in_flight X ac ac1 ctx1 r pg count q pc3 s"
proof -
  let ?pc = "ac_pc ac" and ?S = "submitted (ac_pc ac) r pg count"
  have eS: "cfg_eq ?S ?pc" by (rule submitted_page(3))
  have kS: "slots_kept X ?S" by (rule slots_kept_submitted [OF k nv dom b X])
  have "slot_taken X ?S pc3 s (get_global_address ?S r pg)" by (rule find_slot_ctx_found [OF kS f])
  then have t: "slot_taken X ?S pc3 s (get_global_address ?pc r pg)" using cfg_eqD(7) [OF eS] by simp
  then have i3: "inv0 (insert s X) pc3" and e3: "cfg_eq pc3 ?pc" and sc: "same_cids (pc_cids pc3) (pc_cids ?pc)"
    using cfg_eq_trans [OF _ eS] submitted_page(7) [of ?pc r pg count] by (auto simp: slot_taken_def)
  let ?pc4 = "upd_page r pg (\<lambda>p. p\<lparr>dp_offset := s\<rparr>) pc3"
  have e4: "cfg_eq ?pc4 ?pc" using e3 by (simp add: cfg_eq_def upd_page_def)
  have "0 < pc_n_ctrls ?pc4" using inv0D(3) [OF i3] by (simp add: upd_page_def)
  then obtain m c where p: "pick_ctrl ?pc4 r pg = (?pc4\<lparr>pc_ctrl_counter := m\<rparr>, c)" and c: "c \<in> ctrls_of ?pc r pg"
    using pick_ctrl_ok [of ?pc4 r pg] cfg_eqD(3) [OF e4] by auto
  let ?A = "bump c 1 (pc_access_counter pc3)"
  let ?pc6 = "?pc4\<lparr>pc_ctrl_counter := m, pc_access_counter := ?A\<rparr>"
  obtain p' cid where g: "get_cid (pc_cids ?pc6 c q) = Some (p', cid)" and cid: "cid < 65536" "cp_cid (pc_cids pc3 c q) cid = UNLOCKED"
      "cp_cid p' = (cp_cid (pc_cids pc3 c q))(cid := LOCKED)"
    using get_put_cid_free [OF inv0D(2) [OF i3], of c q] by (auto simp: upd_page_def)
  let ?cid = "of_nat cid :: u16" and ?C = "(pc_cids pc3)(c := (pc_cids pc3 c)(q := p'))"
  have u: "unat ?cid = cid" using cid(1) by (simp add: unat_of_nat)
  let ?pc7 = "pc3\<lparr>pc_ranges := (pc_ranges pc3)(r := (pc_ranges pc3 r)(pg := (pc_ranges pc3 r pg)\<lparr>dp_offset := s\<rparr>)),
        pc_ctrl_counter := m, pc_access_counter := ?A, pc_cids := ?C\<rparr>"
  have lba: "get_backing_page (?pc4\<lparr>pc_ctrl_counter := m\<rparr>) r pg * pc_n_blocks_per_page ?pc6 = page_lba ?pc r pg"
    and nbk: "pc_n_blocks_per_page ?pc6 = pc_n_blocks_per_page ?pc"
    using e4 by (simp_all add: page_lba_def get_backing_page_def cfg_eq_def)
  have cmd: "rw_cmd ?pc6 x y l n e = rw_cmd ?pc7 x y l n e" for x y l n e by (simp add: rw_cmd_def upd_page_def)
  let ?cmd = "rw_cmd ?pc7 ?cid (ucast (io_opcode NVM_IO_READ)) (page_lba ?pc r pg) (pc_n_blocks_per_page ?pc) (ucast s)"
  let ?ctx1 = "ctx\<lparr>cx_isHit := False, cx_page_trans := s, cx_observed_page_translation := observe pc3 s, cx_member_acquire_ctrl := c\<rparr>"
  have "read_data_submit_async (ac\<lparr>ac_pc := ?pc6\<rparr>) c q (page_lba ?pc r pg) (pc_n_blocks_per_page ?pc) ?ctx1 =
      Some (ac\<lparr>ac_pc := ?pc7, ac_sub := (ac_sub ac)((c, q, ?cid) \<mapsto> ?cmd)\<rparr>,
            ?ctx1\<lparr>cx_cid := ?cid, cx_has_pending_io := 1, cx_cmd := ?cmd\<rparr>)" (is "_ = Some (?ac1, ?ctx3)")
    using g unfolding read_data_submit_async_def by (simp add: Let_def cmd [symmetric]) (simp add: set_cids_def upd_page_def)
  then have sub: "acquire_page_submit_async ac r pg count w q ctx = Some (?ac1, ?ctx3, ucast s)"
    unfolding submit_miss_eq [OF nv nb b] f option.case prod.case Let_def p using lba nbk by (simp add: upd_page_def)
  have "cp_cid (?C c q) = (cp_cid (pc_cids ?pc c q))(unat ?cid := LOCKED)" "cp_cid (pc_cids ?pc c q) (unat ?cid) = UNLOCKED"
    "\<forall>c' q'. (c', q') \<noteq> (c, q) \<longrightarrow> cp_cid (?C c' q') = cp_cid (pc_cids ?pc c' q')"
    using cid(2,3) u sc by (auto simp: same_cids_def)
  then have "in_flight X ac ?ac1 ?ctx3 r pg count q pc3 s"
    using t c unfolding in_flight_def Let_def by (intro conjI exI [of _ m] exI [of _ ?A] exI [of _ ?C]) simp_all
  then show ?thesis using sub by blast
qed

lemma submit_in_flight:
  assumes k: "slots_kept X (ac_pc ac)" and dom: "in_dom (ac_pc ac) r pg"
    and nv: "\<not> is_valid (dstate (ac_pc ac) r pg)" and nb: "\<not> is_busy (dstate (ac_pc ac) r pg)" and av: "available (ac_pc ac) s0"
    and b: "cnt_of (dstate (ac_pc ac) r pg) + unat count + extra_count (pc_ranges (ac_pc ac) r pg) < 2 ^ 29"
    and X: "\<forall>s \<in> X. page_translation (pc_cache_pages (ac_pc ac) s) \<noteq> get_global_address (ac_pc ac) r pg"
  shows "\<exists>ac1 ctx1 pc3 s. acquire_page_submit_async ac r pg count w q ctx = Some (ac1, ctx1, ucast s) \<and>
    in_flight X ac ac1 ctx1 r pg count q pc3 s"
proof -
  have "slots_kept X (submitted (ac_pc ac) r pg count)" by (rule slots_kept_submitted [OF k nv dom b X])
  moreover have "available (submitted (ac_pc ac) r pg count) s0" using submitted_others(2) [OF nv b] av by blast
  ultimately obtain pc3 s where "find_slot_ctx (submitted (ac_pc ac) r pg count) pg r q = Some (pc3, s)"
    using find_slot_ctx_taken by blast
  from submit_found [OF k dom nv nb this b X] show ?thesis by blast
qed

lemma submit_only_found:
  assumes k: "slots_kept X (ac_pc ac)" and dom: "in_dom (ac_pc ac) r pg"
    and nv: "\<not> is_valid (dstate (ac_pc ac) r pg)" and nb: "\<not> is_busy (dstate (ac_pc ac) r pg)"
    and b: "cnt_of (dstate (ac_pc ac) r pg) + unat count + extra_count (pc_ranges (ac_pc ac) r pg) < 2 ^ 29"
    and X: "\<forall>s \<in> X. page_translation (pc_cache_pages (ac_pc ac) s) \<noteq> get_global_address (ac_pc ac) r pg"
    and ret: "acquire_page_submit_async ac r pg count w q ctx = Some (ac1, ctx1, a)"
  shows "\<exists>pc3 s. a = ucast s \<and> in_flight X ac ac1 ctx1 r pg count q pc3 s"
proof -
  obtain pc3 s where "find_slot_ctx (submitted (ac_pc ac) r pg count) pg r q = Some (pc3, s)"
    using ret unfolding submit_miss_eq [OF nv nb b] by (auto split: option.splits)
  from submit_found [OF k dom nv nb this b X, of w ctx] ret show ?thesis by auto
qed

lemma wait_wins:
  assumes "\<not> cx_isHit ctx" and "state_of_word (dstate (ac_pc ac) r pg) = NV_B" and "dp_polling_flag (pc_ranges (ac_pc ac) r pg) = 0"
    and "cx_cid ctx \<in> set (ac_done ac (cx_member_acquire_ctrl ctx, q))"
  shows "acquire_page_wait_async ac r pg count w q ctx =
    (let ac1 = upd_pc (upd_page r pg (\<lambda>p. p\<lparr>dp_polling_flag := 1\<rparr>)) ac;
         (ac2, ctx1) = async_finish ac1 (cx_member_acquire_ctrl ctx) q ctx
     in Some (wait_install ac2 r pg count w ctx1))"
proof -
  have ctx: "ctx\<lparr>cx_isHit := False\<rparr> = ctx" using assms(1) by simp
  have ne: "NV_B \<noteq> V_NB" by (simp add: NV_B_def V_NB_def)
  show ?thesis
    unfolding acquire_page_wait_async_def
    using assms ne by (subst wait_loop.simps, subst read_data_wait_async.simps)
      (simp add: Let_def ctx dstate_def upd_pc_def split_beta)
qed

lemma in_flight_page:
  assumes fl: "in_flight X ac0 ac ctx r pg count q pc3 s" and nv: "\<not> is_valid (dstate pc r pg)"
    and b: "cnt_of (dstate pc r pg) + unat count + extra_count (pc_ranges pc r pg) < 2 ^ 29"
    and pc: "pc = ac_pc ac0"
  shows "dstate (ac_pc ac) r pg = dstate (busied pc r pg count) r pg" "dp_polling_flag (pc_ranges (ac_pc ac) r pg) = 0"
    "dstate pc3 r pg = dstate (busied pc r pg count) r pg"
proof -
  have t: "slot_taken X (submitted pc r pg count) pc3 s (get_global_address pc r pg)" using fl pc by (simp add: in_flight_def Let_def)
  have "\<not> is_valid (dstate (submitted pc r pg count) r pg)" using nv busied_page(1) [OF b] by (simp add: submitted_page(1))
  then have p: "pc_ranges pc3 r pg = pc_ranges (submitted pc r pg count) r pg" by (rule slot_taken_page [OF t])
  then show d: "dstate pc3 r pg = dstate (busied pc r pg count) r pg" using submitted_page(1) by (simp add: dstate_def)
  have "pc_ranges (ac_pc ac) r pg = (pc_ranges pc3 r pg)\<lparr>dp_offset := s\<rparr>" using fl unfolding in_flight_def Let_def by auto
  then show "dstate (ac_pc ac) r pg = dstate (busied pc r pg count) r pg" "dp_polling_flag (pc_ranges (ac_pc ac) r pg) = 0"
    using d submitted_page(8) p by (simp_all add: dstate_def)
qed

lemma in_flight_completed:
  assumes fl: "in_flight X ac0 ac ctx r pg count q pc3 s" and c: "c = cx_member_acquire_ctrl ctx" and pc: "pc = ac_pc ac0"
  shows "ac_pc (device_complete c q (cx_cid ctx) ac) = (ac_pc ac)\<lparr>frame := (frame pc3)(pc_prp1 pc3 (ucast s) := \<lambda>k.
      if k < nblk pc3 then disk pc3 c (page_lba pc3 r pg + of_nat k) else frame pc3 (pc_prp1 pc3 (ucast s)) k)\<rparr>"
    and "cx_cid ctx \<in> set (ac_done (device_complete c q (cx_cid ctx) ac) (c, q))"
proof -
  have t: "slot_taken X (submitted pc r pg count) pc3 s (get_global_address pc r pg)" using fl pc by (simp add: in_flight_def Let_def)
  then have inv3: "inv0 (insert s X) pc3" and e: "cfg_eq pc3 (submitted pc r pg count)" by (simp_all add: slot_taken_def)
  have e': "cfg_eq pc3 pc" by (rule cfg_eq_trans [OF e submitted_page(3)])
  have nb: "pc_n_blocks_per_page pc3 = pc_n_blocks_per_page pc" using e' by (simp add: cfg_eq_def)
  let ?cmd = "rw_cmd (ac_pc ac) (cx_cid ctx) (ucast (io_opcode NVM_IO_READ)) (page_lba pc r pg) (pc_n_blocks_per_page pc) (ucast s)"
  have sub: "ac_sub ac (c, q, cx_cid ctx) = Some ?cmd" using fl c pc by (simp add: in_flight_def Let_def)
  obtain R m A C where ac: "ac_pc ac = pc3\<lparr>pc_ranges := R, pc_ctrl_counter := m, pc_access_counter := A, pc_cids := C\<rparr>"
    using fl unfolding in_flight_def Let_def by blast
  have "wf_cmd (pc_local_cmd (ac_pc ac))" "blocks_ok (pc_n_blocks_per_page pc)"
    using inv0D(1) [OF inv3] nb by (simp_all add: ac cfg_ok_def cfg_slots_def)
  note dec = rw_cmd_decoded [OF this]
  have lba: "page_lba pc3 r pg = page_lba pc r pg" and nk: "nblk pc3 = unat (pc_n_blocks_per_page pc)"
    using cfg_eqD [OF e'] by (simp_all add: nblk_def nb)
  have "device_exec c ?cmd (ac_pc ac) = (ac_pc ac)\<lparr>frame := (frame (ac_pc ac))(pc_prp1 (ac_pc ac) (ucast s) := \<lambda>k.
      if k < unat (pc_n_blocks_per_page pc) then disk (ac_pc ac) c (page_lba pc r pg + of_nat k) else frame (ac_pc ac) (pc_prp1 (ac_pc ac) (ucast s)) k)\<rparr>"
    unfolding device_exec_def Let_def dec by (simp add: opcodes)
  then show "ac_pc (device_complete c q (cx_cid ctx) ac) = (ac_pc ac)\<lparr>frame := (frame pc3)(pc_prp1 pc3 (ucast s) := \<lambda>k.
      if k < nblk pc3 then disk pc3 c (page_lba pc3 r pg + of_nat k) else frame pc3 (pc_prp1 pc3 (ucast s)) k)\<rparr>"
    unfolding lba nk by (simp add: device_complete_def sub) (simp add: ac cong: if_cong)
  show "cx_cid ctx \<in> set (ac_done (device_complete c q (cx_cid ctx) ac) (c, q))"
    by (simp add: device_complete_def sub)
qed

lemma in_flight_wait:
  assumes inv: "cache_inv pc" and dom: "in_dom pc r pg" and nv: "\<not> is_valid (dstate pc r pg)"
    and b: "cnt_of (dstate pc r pg) + unat count + extra_count (pc_ranges pc r pg) < 2 ^ 29"
    and fl: "in_flight {} ac0 ac ctx r pg count q pc3 s" and pc: "pc = ac_pc ac0"
  shows "\<exists>ac' ctx'. acquire_page_wait_async (device_complete (cx_member_acquire_ctrl ctx) q (cx_cid ctx) ac) r pg count w q ctx = Some (ac', ctx', ucast s) \<and>
    acquired pc (ac_pc ac') r pg count w (ucast s) \<and> cx_isHit ctx' \<and> cx_has_pending_io ctx' = 0"
proof -
  let ?c = "cx_member_acquire_ctrl ctx" and ?S = "submitted pc r pg count"
  let ?D = "device_complete ?c q (cx_cid ctx) ac" and ?B = "dstate (busied pc r pg count) r pg"
  let ?F = "(frame pc3)(pc_prp1 pc3 (ucast s) := \<lambda>k. if k < nblk pc3 then disk pc3 ?c (page_lba pc3 r pg + of_nat k) else frame pc3 (pc_prp1 pc3 (ucast s)) k)"
  have t: "slot_taken {} ?S pc3 s (get_global_address pc r pg)" and c: "?c \<in> ctrls_of pc r pg" and hit: "\<not> cx_isHit ctx"
    and tr: "cx_page_trans ctx = s"
    using fl pc by (simp_all add: in_flight_def Let_def)
  obtain m A C where ac: "ac_pc ac = pc3\<lparr>pc_ranges := (pc_ranges pc3)(r := (pc_ranges pc3 r)(pg := (pc_ranges pc3 r pg)\<lparr>dp_offset := s\<rparr>)),
        pc_ctrl_counter := m, pc_access_counter := A, pc_cids := C\<rparr>"
      and C: "cp_cid (C ?c q) = (cp_cid (pc_cids pc ?c q))(unat (cx_cid ctx) := LOCKED)" "cp_cid (pc_cids pc ?c q) (unat (cx_cid ctx)) = UNLOCKED"
        "\<forall>c' q'. (c', q') \<noteq> (?c, q) \<longrightarrow> cp_cid (C c' q') = cp_cid (pc_cids pc c' q')"
    using fl pc unfolding in_flight_def Let_def by blast
  have "same_cids (C(?c := (C ?c)(q := put_cid (unat (cx_cid ctx)) (C ?c q)))) (pc_cids pc)"
    using C by (auto simp: same_cids_def put_cid_def fun_eq_iff)
  moreover have "cids_free (pc_cids pc)" using inv inv0D(2) by (auto simp: cache_inv_def)
  ultimately have C: "cids_free (C(?c := (C ?c)(q := put_cid (unat (cx_cid ctx)) (C ?c q))))" using same_cids_free by blast
  note D = in_flight_completed [OF fl refl pc]
  note P = in_flight_page [OF fl nv b pc]
  note Bz = busied_page [OF b]
  note eS = submitted_page(3) [of pc r pg count]
  have d: "dstate (ac_pc ?D) r pg = ?B" "dp_polling_flag (pc_ranges (ac_pc ?D) r pg) = 0"
    unfolding D(1) using P by (simp_all add: dstate_def)
  have st: "state_of_word (dstate (ac_pc ?D) r pg) = NV_B" using Bz(1,2) nv by (simp add: state_of_word_busy d)
  let ?ac1 = "upd_pc (upd_page r pg (\<lambda>p. p\<lparr>dp_polling_flag := 1\<rparr>)) ?D"
  let ?R = "wait_install (fst (async_finish ?ac1 ?c q ctx)) r pg count w (snd (async_finish ?ac1 ?c q ctx))"
  let ?pc' = "ac_pc (fst ?R)"
  have w: "acquire_page_wait_async ?D r pg count w q ctx = Some ?R"
    using wait_wins [OF hit st d(2) D(2)] by (simp add: Let_def split_beta)
  note defs = wait_install_def async_finish_def Let_def upd_pc_def upd_page_def upd_state_def set_cids_def D(1) ac
  have e3: "cfg_eq ?pc' pc3" by (simp add: cfg_eq_def defs)
  have f: "disk ?pc' = disk pc3" "pc_cache_pages ?pc' = pc_cache_pages pc3" "frame ?pc' = ?F" "cids_free (pc_cids ?pc')"
      "doffset ?pc' r pg = s" "\<And>r' pg'. (r', pg') \<noteq> (r, pg) \<Longrightarrow> pc_ranges ?pc' r' pg' = pc_ranges pc3 r' pg'"
    using C by (auto simp: defs doffset_def tr)
  have "dstate ?pc' r pg = (if w then dstate pc3 r pg OR DIRTY else dstate pc3 r pg) XOR DISABLE_BUSY_ENABLE_VALID"
    by (simp add: defs dstate_def)
  then have st': "dstate ?pc' r pg = (if w then ?B OR DIRTY else ?B) XOR DISABLE_BUSY_ENABLE_VALID" unfolding P(3) .
  have fl': "is_valid (dstate ?pc' r pg)" "\<not> is_busy (dstate ?pc' r pg)" "is_dirty (dstate ?pc' r pg) = (is_dirty (dstate pc r pg) \<or> w)"
      "cnt_of (dstate ?pc' r pg) = cnt_of (dstate pc r pg) + unat count + extra_count (pc_ranges pc r pg)"
    unfolding st' using nv Bz(1-4) by (auto simp: flag_simps)
  have nvS: "\<not> is_valid (dstate ?S r pg)" using nv Bz(1) by (simp add: submitted_page(1))
  have domS: "in_dom ?S r pg" and cS: "?c \<in> ctrls_of ?S r pg" and tS: "slot_taken {} ?S pc3 s (get_global_address ?S r pg)"
    unfolding cfg_eqD [OF eS] using dom c t by simp_all
  note ok = filled_ok [OF tS domS nvS e3 f(4,1,2) cS f(3) fl'(1,2) f(5,6)]
  have ce: "cfg_eq ?pc' pc" by (rule cfg_eq_trans [OF ok(3) eS])
  have oth: "others_kept pc ?pc' r pg"
    using ok(4) submitted_others(1) [OF nv b] submitted_page(2) [of _ _ r pg pc count] by (simp add: others_kept_def)
  have "cache_inv ?pc'" using ok(1) quiet_after [OF _ ce oth fl'(2)] inv by (simp add: cache_inv_def)
  moreover have "same_content ?pc' pc" using same_content_trans [OF ok(2) inv0_submitted(2) [of "{}", OF _ nv dom b] eS] inv by (simp add: cache_inv_def)
  ultimately have "acquired pc ?pc' r pg count w (ucast s)"
    using ce oth fl' f(5) nv by (simp add: acquired_def)
  moreover have "?R = (fst ?R, fst (snd ?R), ucast s)" "cx_isHit (fst (snd ?R))" "cx_has_pending_io (fst (snd ?R)) = 0"
    by (simp_all add: wait_install_def async_finish_def Let_def tr)
  ultimately show ?thesis using w by metis
qed

subsection \<open>A page that is in the cache\<close>

lemma submit_loop_valid:
  assumes "state_of_word rs = V_NB"
  shows "submit_loop ac r pg count w q ctx rs =
    (let ac1 = (if w \<and> rs AND DIRTY = 0 then upd_pc (upd_state r pg (\<lambda>s. s OR DIRTY)) ac else ac);
         t = dp_offset (pc_ranges (ac_pc ac1) r pg)
     in Some (upd_pc (\<lambda>pc. pc\<lparr>pc_hit_cnt := bump r (ucast count) (pc_hit_cnt pc)\<rparr>) ac1,
          ctx\<lparr>cx_isHit := True, cx_page_trans := t, cx_observed_page_translation := observe (ac_pc ac1) t\<rparr>, ucast t))"
proof -
  have "V_NB \<noteq> NV_NB" by (simp add: V_NB_def NV_NB_def)
  then show ?thesis using assms by (subst submit_loop.simps) (simp add: Let_def)
qed

lemma observe_updates [simp]:
  "observe (pc\<lparr>pc_ranges := R\<rparr>) t = observe pc t" "observe (pc\<lparr>pc_access_cnt := A\<rparr>) t = observe pc t"
  "observe (pc\<lparr>pc_hit_cnt := A\<rparr>) t = observe pc t"
  by (simp_all add: observe_def)

lemma acquired_ref_count:
  assumes "acquired pc pc' r pg count w a"
  shows "acquired pc (upd_page r pg (\<lambda>p. p\<lparr>dp_ref_count := x\<rparr>) pc') r pg count w a"
proof -
  let ?U = "upd_page r pg (\<lambda>p. p\<lparr>dp_ref_count := x\<rparr>) pc'"
  have e: "cfg_eq ?U pc'" "pc_cids ?U = pc_cids pc'" "pc_cache_pages ?U = pc_cache_pages pc'" "disk ?U = disk pc'" "frame ?U = frame pc'"
    by (simp_all add: cfg_eq_def upd_page_def)
  have d: "dstate ?U = dstate pc'" "doffset ?U = doffset pc'" by (simp_all add: fun_eq_iff dstate_def doffset_def upd_page_def)
  have i: "inv0 {} pc'" and q: "quiet pc'" using assms by (simp_all add: acquired_def cache_inv_def)
  have "inv0 {} ?U" "same_content ?U pc'"
    using inv0_flags [OF i e(1) _ e(3-5)] inv0D(2) [OF i] inv0_valid(1) [OF i] inv0_dirty [OF i] by (simp_all add: d e(2))
  moreover have "quiet ?U" using q cfg_eqD(2) [OF e(1)] by (simp add: quiet_def d)
  moreover have "others_kept pc ?U r pg" using assms by (simp add: acquired_def others_kept_def upd_page_def)
  moreover have "cfg_eq ?U pc" using cfg_eq_trans [OF e(1)] assms by (simp add: acquired_def)
  moreover have "same_content ?U pc"
    using same_content_trans [OF \<open>same_content ?U pc'\<close>, of pc] assms by (simp add: acquired_def)
  ultimately show ?thesis using assms by (simp add: acquired_def cache_inv_def d)
qed

text \<open>A hit of the submission is a hit of \<open>acquire_page\<close> that counts the reference too.\<close>

lemma submit_hit:
  assumes inv: "cache_inv (ac_pc ac)" and dom: "in_dom (ac_pc ac) r pg" and v: "is_valid (dstate (ac_pc ac) r pg)"
    and b: "cnt_of (dstate (ac_pc ac) r pg) + unat count + extra_count (pc_ranges (ac_pc ac) r pg) < 2 ^ 29"
  shows "\<exists>ac1 ctx1. acquire_page_submit_async ac r pg count w q ctx = Some (ac1, ctx1, ucast (cx_page_trans ctx1)) \<and>
    acquired (ac_pc ac) (ac_pc ac1) r pg count w (ucast (cx_page_trans ctx1)) \<and> cx_isHit ctx1 \<and>
    cx_has_pending_io ctx1 = cx_has_pending_io ctx"
proof -
  let ?pc = "ac_pc ac"
  have nb: "\<not> is_busy (dstate ?pc r pg)" using inv dom by (simp add: cache_inv_def quiet_def)
  obtain p n where p: "prefetch_enter (pc_ranges ?pc r pg) = (p, n)" by force
  note pk = prefetch_enter_keeps [OF p]
  have st: "state_of_word (dp_state p) = V_NB" using v nb pk(1) by (simp add: state_of_word_cases dstate_def)
  have ne: "V_NB \<noteq> NV_NB" by (simp add: V_NB_def NV_NB_def)
  obtain pc' a where a: "acquire_page ?pc r pg count w q = Some (pc', a)" "acquired ?pc pc' r pg count w a"
    using acquire_hit [OF inv dom v b] by blast
  let ?U = "upd_page r pg (\<lambda>p'. p'\<lparr>dp_ref_count := dp_ref_count p + (count + n)\<rparr>) pc'"
  let ?P = "p\<lparr>dp_state := dp_state p + (count + n)\<rparr>"
  let ?Q = "if w \<and> dp_state p AND DIRTY = 0 then ?P\<lparr>dp_state := dp_state ?P OR DIRTY\<rparr> else ?P"
  let ?R = "\<lambda>P. ?pc\<lparr>pc_access_cnt := bump r (ucast count) (pc_access_cnt ?pc), pc_ranges := (pc_ranges ?pc)(r := (pc_ranges ?pc r)(pg := P)),
      pc_hit_cnt := bump r (ucast count) (pc_hit_cnt ?pc)\<rparr>"
  have "acquire_page ?pc r pg count w q = Some (?R ?Q, ucast (dp_offset p))"
    unfolding acquire_page_def
    by (subst acquire_loop.simps) (simp add: p Let_def st ne upd_page_def upd_state_def)
  then have pc': "pc' = ?R ?Q" "a = ucast (dp_offset p)" using a(1) by simp_all
  have U: "?U = ?R (?Q\<lparr>dp_ref_count := dp_ref_count p + (count + n)\<rparr>)" unfolding pc' by (simp add: upd_page_def)
  have o: "doffset pc' r pg = dp_offset p" unfolding pc' by (simp add: doffset_def)
  have ob: "observe pc' x = observe ?pc x" for x unfolding pc' by simp
  let ?E = "?pc\<lparr>pc_access_cnt := bump r (ucast count) (pc_access_cnt ?pc), pc_ranges := (pc_ranges ?pc)(r := (pc_ranges ?pc r)(pg := 
      ?P\<lparr>dp_ref_count := dp_ref_count p + (count + n)\<rparr>))\<rparr>"
  have "acquire_page_submit_async ac r pg count w q ctx = submit_loop (ac\<lparr>ac_pc := ?E\<rparr>) r pg count w q ctx (dp_state p)"
    by (simp add: acquire_page_submit_async_def Let_def p upd_page_def upd_state_def)
  also have "\<dots> = Some (ac\<lparr>ac_pc := ?U\<rparr>, ctx\<lparr>cx_isHit := True, cx_page_trans := dp_offset p, cx_observed_page_translation := observe ?pc (dp_offset p)\<rparr>,
      ucast (dp_offset p))"

  proof (cases "w \<and> dp_state p AND DIRTY = 0")
    case True
    have comm: "p\<lparr>dp_ref_count := x, dp_state := y\<rparr> = p\<lparr>dp_state := y, dp_ref_count := x\<rparr>" for x y by simp
    show ?thesis unfolding submit_loop_valid [OF st] U unfolding if_P [OF True] Let_def upd_pc_def upd_page_def upd_state_def by (simp add: comm)
  next
    case False
    show ?thesis unfolding submit_loop_valid [OF st] U unfolding if_not_P [OF False] Let_def upd_pc_def upd_page_def upd_state_def by simp
  qed
  finally have "acquire_page_submit_async ac r pg count w q ctx = Some (ac\<lparr>ac_pc := ?U\<rparr>,
      ctx\<lparr>cx_isHit := True, cx_page_trans := doffset pc' r pg, cx_observed_page_translation := observe pc' (doffset pc' r pg)\<rparr>, a)"
    unfolding o pc'(2) ob .
  moreover have "a = ucast (doffset pc' r pg)" using a(2) by (simp add: acquired_def)
  ultimately show ?thesis using acquired_ref_count [OF a(2)] by simp
qed

section \<open>Properties\<close>

text \<open>The controller executes the command that the context waits for, if it waits for one.\<close>

definition transfer_done :: "u32 \<Rightarrow> s_ctx \<Rightarrow> 'b async_cache \<Rightarrow> 'b async_cache" where
  "transfer_done q ctx ac =
     (if cx_has_pending_io ctx = 0 then ac else device_complete (cx_member_acquire_ctrl ctx) q (cx_cid ctx) ac)"

text \<open>C10: Submit, completion, wait is \<open>acquire_page\<close> cut in two.  When a page in no transfer is acquired
  through \<open>acquire_page_submit_async\<close> with a context that waits for nothing, the controller executes
  the command that was submitted, if one was, and the same thread calls \<open>acquire_page_wait_async\<close>
  with nothing in between, both calls return, the slot handed out at submission is the one returned
  by the wait, and the cache is in a state that the synchronous \<open>acquire_page\<close> guarantees: the page is
  valid, pinned, dirty for a write, its slot holds its content, and the content of every other page is
  untouched.  This holds for a page that is in the cache, and for one that is not when some slot is
  free or holds a page without users and, as the allocator of this path goes by them, the reference
  counts of the valid pages are zero exactly when their user counts are (which mixing in synchronous
  acquires and releases would break).\<close>

theorem async_acquire_correct:
  assumes "cache_inv (ac_pc ac)" and "in_dom (ac_pc ac) r pg" and "cx_has_pending_io ctx = 0"
    and "is_valid (dstate (ac_pc ac) r pg) \<or> refs_ok (ac_pc ac) \<and> available (ac_pc ac) s0"
    and "cnt_of (dstate (ac_pc ac) r pg) + unat count + extra_count (pc_ranges (ac_pc ac) r pg) < 2 ^ 29"
  shows "\<exists>ac1 ctx1 ac2 ctx2 a. acquire_page_submit_async ac r pg count w q ctx = Some (ac1, ctx1, a) \<and>
    acquire_page_wait_async (transfer_done q ctx1 ac1) r pg count w q ctx1 = Some (ac2, ctx2, a) \<and>
    acquired (ac_pc ac) (ac_pc ac2) r pg count w a \<and> cx_has_pending_io ctx2 = 0"
proof (cases "is_valid (dstate (ac_pc ac) r pg)")
  case True
  obtain ac1 ctx1 where "acquire_page_submit_async ac r pg count w q ctx = Some (ac1, ctx1, ucast (cx_page_trans ctx1))"
      "acquired (ac_pc ac) (ac_pc ac1) r pg count w (ucast (cx_page_trans ctx1))" "cx_isHit ctx1" "cx_has_pending_io ctx1 = 0"
    using submit_hit [OF assms(1,2) True assms(5), of w q ctx] assms(3) by auto
  then show ?thesis by (simp add: transfer_done_def acquire_page_wait_async_def)
next
  case False
  have "slots_kept {} (ac_pc ac)" "\<not> is_busy (dstate (ac_pc ac) r pg)"
    using assms(1,2,4) False by (simp_all add: slots_kept_def cache_inv_def quiet_def)
  then obtain ac1 ctx1 pc3 s where sub: "acquire_page_submit_async ac r pg count w q ctx = Some (ac1, ctx1, ucast s)"
    and fl: "in_flight {} ac ac1 ctx1 r pg count q pc3 s"
    using submit_in_flight [of "{}" ac r pg s0 count] assms(2,4,5) False by blast
  have "transfer_done q ctx1 ac1 = device_complete (cx_member_acquire_ctrl ctx1) q (cx_cid ctx1) ac1"
    using fl by (simp add: transfer_done_def in_flight_def Let_def)
  then show ?thesis using sub in_flight_wait [OF assms(1,2) False assms(5) fl refl, of w] by auto
qed

definition witness_ac :: "nat async_cache" where
  "witness_ac = \<lparr>ac_pc = witness_pc, ac_sub = (\<lambda>_. None), ac_done = (\<lambda>_. [])\<rparr>"

definition witness_ctx :: s_ctx where
  "witness_ctx = \<lparr>cx_cid = 0, cx_has_pending_io = 0, cx_cmd = \<lparr>dword = replicate 16 0\<rparr>, cx_page_trans = 0, cx_member_acquire_ctrl = 0,
     cx_observed_page_translation = 0, cx_isHit = False\<rparr>"

lemma witness_ac_facts:
  "ac_pc witness_ac = witness_pc" "cx_has_pending_io witness_ctx = 0" "refs_ok witness_pc"
  "ac_sub witness_ac = (\<lambda>_. None)" "ac_done witness_ac = (\<lambda>_. [])"
  using witness_pc_facts by (simp_all add: witness_ac_def witness_ctx_def refs_ok_def)

theorem async_acquire_correct_witness:
  "\<exists>ac1 ctx1 ac2 ctx2 a. acquire_page_submit_async witness_ac 0 1 1 False 0 witness_ctx = Some (ac1, ctx1, a) \<and>
    acquire_page_wait_async (transfer_done 0 ctx1 ac1) 0 1 1 False 0 ctx1 = Some (ac2, ctx2, a) \<and>
    acquired witness_pc (ac_pc ac2) 0 1 1 False a \<and> cx_has_pending_io ctx2 = 0"
  using async_acquire_correct [of witness_ac 0 1 witness_ctx 0 1 False 0] witness_pc_inv witness_pc_facts witness_ac_facts by simp

subsection \<open>A second submitter of the same miss\<close>

lemma prefetch_enter_flag: "dp_polling_flag (fst (prefetch_enter p)) = dp_polling_flag p"
  by (simp add: prefetch_enter_def Let_def)

text \<open>The branch for a busy page: the caller counts itself, waits for the slot number and picks a
  controller; the identifier in its context stays what it was.\<close>

lemma submit_joins:
  assumes nv: "\<not> is_valid (dstate (ac_pc ac) r pg)" and bs: "is_busy (dstate (ac_pc ac) r pg)"
    and b: "cnt_of (dstate (ac_pc ac) r pg) + unat count + extra_count (pc_ranges (ac_pc ac) r pg) < 2 ^ 29"
    and s: "doffset (ac_pc ac) r pg = s" "s \<noteq> ASYNC_PAGE_TRANS_PENDING"
      "page_translation (pc_cache_pages (ac_pc ac) s) = get_global_address (ac_pc ac) r pg"
  shows "\<exists>pc' ctx'. acquire_page_submit_async ac r pg count w q ctx = Some (ac\<lparr>ac_pc := pc'\<rparr>, ctx', ucast s) \<and>
    state_of_word (dstate pc' r pg) = NV_B \<and> dp_polling_flag (pc_ranges pc' r pg) = dp_polling_flag (pc_ranges (ac_pc ac) r pg) \<and>
    cx_cid ctx' = cx_cid ctx \<and> \<not> cx_isHit ctx'"
proof -
  let ?pc = "ac_pc ac"
  obtain p n where p: "prefetch_enter (pc_ranges ?pc r pg) = (p, n)" by force
  note pk = prefetch_enter_keeps [OF p]
  have ne: "NV_B \<noteq> NV_NB" "NV_B \<noteq> V_NB" by (simp_all add: NV_B_def NV_NB_def V_NB_def)
  have st: "state_of_word (dp_state p) = NV_B" using nv bs pk(1) by (simp add: state_of_word_busy dstate_def)
  let ?E = "upd_page r pg (\<lambda>p. p\<lparr>dp_ref_count := dp_ref_count p + (count + n)\<rparr>) (entered ?pc r pg count)"
  have sub: "acquire_page_submit_async ac r pg count w q ctx = submit_loop (ac\<lparr>ac_pc := ?E\<rparr>) r pg count w q ctx (dp_state p)"
    by (simp add: acquire_page_submit_async_def entered_def Let_def p upd_page_def upd_state_def)
  have e: "cfg_eq ?E ?pc" "pc_cache_pages ?E = pc_cache_pages ?pc" "dstate ?E r pg = dstate (entered ?pc r pg count) r pg"
      "doffset ?E r pg = doffset ?pc r pg"
    using entered_rest(1,5) [of ?pc r pg count] entered_page(5) [OF b] by (simp_all add: cfg_eq_def upd_page_def dstate_def doffset_def)
  have j: "join_wait ?E r pg = Some s"
    using s e(4) cfg_eqD(7) [OF e(1)] by (subst join_wait.simps) (simp add: Let_def e(2) doffset_def)
  obtain pc' c where c: "pick_ctrl ?E r pg = (pc', c)" by force
  then have r: "pc_ranges pc' = pc_ranges ?E" by (auto simp: pick_ctrl_def Let_def split: if_splits)
  have "submit_loop (ac\<lparr>ac_pc := ?E\<rparr>) r pg count w q ctx (dp_state p) =
      Some (ac\<lparr>ac_pc := pc'\<rparr>, ctx\<lparr>cx_isHit := False, cx_page_trans := s,
        cx_observed_page_translation := page_translation (pc_cache_pages ?E s), cx_member_acquire_ctrl := c\<rparr>, ucast s)"
    (is "_ = Some (_, ?ctx', _)")
    by (subst submit_loop.simps) (simp add: st ne j c Let_def)
  moreover have "state_of_word (dstate pc' r pg) = NV_B"
    using entered_page(1,2) [OF b] nv bs e(3) r by (simp add: state_of_word_busy dstate_def)
  moreover have "dp_polling_flag (pc_ranges pc' r pg) = dp_polling_flag (pc_ranges ?pc r pg)"
    using prefetch_enter_flag [of "pc_ranges ?pc r pg"] unfolding r by (simp add: entered_def p upd_page_def upd_state_def)
  ultimately show ?thesis unfolding sub by (intro exI [of _ pc'] exI [of _ ?ctx'] conjI) simp_all
qed

lemma read_data_wait_stuck:
  assumes "cx_cid ctx \<notin> set (ac_done ac (c, q))"
  shows "read_data_wait_async ac c q ctx = None"
proof (cases "read_data_wait_async ac c q ctx")
  case (Some y)
  have "cx_cid ctx \<in> set (ac_done ac (c, q))"
  proof (rule read_data_wait_async.raw_induct
      [where P = "\<lambda>ac c q ctx y. cx_cid ctx \<in> set (ac_done ac (c, q))", OF _ Some])
    fix f and ac :: "'a async_cache" and c q ctx y
    assume "\<And>ac c q ctx y. f ac c q ctx = Some y \<Longrightarrow> cx_cid ctx \<in> set (ac_done ac (c, q))"
      and "(if cx_cid ctx \<in> set (ac_done ac (c, q)) then Some (async_finish ac c q ctx) else f ac c q ctx) = Some y"
    then show "cx_cid ctx \<in> set (ac_done ac (c, q))" by (cases "cx_cid ctx \<in> set (ac_done ac (c, q))") auto
  qed
  then show ?thesis using assms by blast
qed

lemma wait_loop_stuck:
  assumes "state_of_word rs = NV_B"
    and "state_of_word (dp_state (pc_ranges (ac_pc ac) r pg)) = NV_B" and "dp_polling_flag (pc_ranges (ac_pc ac) r pg) \<noteq> 0"
  shows "wait_loop ac r pg count w q ctx rs = None"
proof (cases "wait_loop ac r pg count w q ctx rs")
  case (Some y)
  have ne: "NV_B \<noteq> V_NB" by (simp add: NV_B_def V_NB_def)
  have "state_of_word rs = NV_B \<longrightarrow> state_of_word (dp_state (pc_ranges (ac_pc ac) r pg)) = NV_B \<longrightarrow>
      dp_polling_flag (pc_ranges (ac_pc ac) r pg) = 0"
  proof (rule wait_loop.raw_induct [where P = "\<lambda>ac r pg count w q ctx rs y. state_of_word rs = NV_B \<longrightarrow>
        state_of_word (dp_state (pc_ranges (ac_pc ac) r pg)) = NV_B \<longrightarrow> dp_polling_flag (pc_ranges (ac_pc ac) r pg) = 0", OF _ Some])
  qed (use ne in \<open>auto simp: Let_def split: if_splits\<close>)
  then show ?thesis using assms by blast
qed

text \<open>A waiter that wins the polling flag without a completion of its own keeps the flag and polls for
  ever; one that finds the flag taken polls for ever behind it.\<close>

lemma wait_without_completion:
  assumes st: "state_of_word (dstate (ac_pc ac) r pg) = NV_B" and f: "dp_polling_flag (pc_ranges (ac_pc ac) r pg) = 0"
    and h: "\<not> cx_isHit ctx" and c: "cx_cid ctx \<notin> set (ac_done ac (cx_member_acquire_ctrl ctx, q))"
  shows "acquire_page_wait_async ac r pg count w q ctx = None"
proof -
  let ?ac1 = "upd_pc (upd_page r pg (\<lambda>p. p\<lparr>dp_polling_flag := 1\<rparr>)) ac"
  have ctx: "ctx\<lparr>cx_isHit := False\<rparr> = ctx" using h by simp
  have ne: "NV_B \<noteq> V_NB" by (simp add: NV_B_def V_NB_def)
  have "read_data_wait_async ?ac1 (cx_member_acquire_ctrl ctx) q ctx = None"
    using c by (intro read_data_wait_stuck) (simp add: upd_pc_def)
  then show ?thesis
    unfolding acquire_page_wait_async_def using f h st ne by (subst wait_loop.simps) (simp add: Let_def ctx dstate_def)
qed

lemma wait_behind_flag:
  assumes "state_of_word (dstate (ac_pc ac) r pg) = NV_B" and "\<not> cx_isHit ctx"
  shows "acquire_page_wait_async (upd_pc (upd_page r pg (\<lambda>p. p\<lparr>dp_polling_flag := 1\<rparr>)) ac) r pg count w q ctx = None"
proof -
  let ?ac1 = "upd_pc (upd_page r pg (\<lambda>p. p\<lparr>dp_polling_flag := 1\<rparr>)) ac"
  let ?rs = "dp_state (pc_ranges (ac_pc ?ac1) r pg)"
  have "state_of_word ?rs = NV_B" "dp_polling_flag (pc_ranges (ac_pc ?ac1) r pg) \<noteq> 0"
    using assms(1) by (simp_all add: upd_pc_def upd_page_def dstate_def)
  then have "wait_loop ?ac1 r pg count w q ctx ?rs = None" by (intro wait_loop_stuck)
  then show ?thesis using assms(2) by (simp add: acquire_page_wait_async_def Let_def)
qed

text \<open>The joiner of an outstanding miss gets the slot and leaves everything else alone.\<close>

lemma join_in_flight:
  assumes fl: "in_flight {} ac0 ac own r pg count q pc3 s" and nv: "\<not> is_valid (dstate (ac_pc ac0) r pg)"
    and b: "cnt_of (dstate (ac_pc ac0) r pg) + unat count + extra_count (pc_ranges (ac_pc ac0) r pg) < 2 ^ 29"
    and b': "cnt_of (dstate (ac_pc ac) r pg) + unat count' + extra_count (pc_ranges (ac_pc ac) r pg) < 2 ^ 29"
    and n: "unat (pc_n_pages (ac_pc ac0)) < 2 ^ 32"
  shows "\<exists>pc' ctx'. acquire_page_submit_async ac r pg count' w' q' ctx = Some (ac\<lparr>ac_pc := pc'\<rparr>, ctx', ucast s) \<and>
    state_of_word (dstate pc' r pg) = NV_B \<and> dp_polling_flag (pc_ranges pc' r pg) = 0 \<and> cx_cid ctx' = cx_cid ctx \<and> \<not> cx_isHit ctx'"
proof -
  let ?pc = "ac_pc ac0"
  note P = in_flight_page [OF fl nv b refl]
  have t: "slot_taken {} (submitted ?pc r pg count) pc3 s (get_global_address ?pc r pg)" using fl by (simp add: in_flight_def Let_def)
  obtain m A C where ac: "ac_pc ac = pc3\<lparr>pc_ranges := (pc_ranges pc3)(r := (pc_ranges pc3 r)(pg := (pc_ranges pc3 r pg)\<lparr>dp_offset := s\<rparr>)),
        pc_ctrl_counter := m, pc_access_counter := A, pc_cids := C\<rparr>"
    using fl unfolding in_flight_def Let_def by blast
  have e: "cfg_eq (ac_pc ac) ?pc"
    using cfg_eq_trans [OF _ submitted_page(3), of pc3 ?pc r pg count] t by (simp add: ac cfg_eq_def slot_taken_def)
  have sl: "is_slot ?pc s" "page_translation (pc_cache_pages pc3 s) = get_global_address ?pc r pg"
    using t cfg_eqD [OF submitted_page(3) [of ?pc r pg count]] by (simp_all add: slot_taken_def is_slot_def)
  have "s \<noteq> ASYNC_PAGE_TRANS_PENDING"
    using sl(1) n by (auto simp: is_slot_def ASYNC_PAGE_TRANS_PENDING_def word_less_nat_alt unat_ucast_up)
  moreover have "\<not> is_valid (dstate (ac_pc ac) r pg)" "is_busy (dstate (ac_pc ac) r pg)"
    using busied_page(1,2) [OF b] nv P(1) by simp_all
  moreover have "doffset (ac_pc ac) r pg = s" "page_translation (pc_cache_pages (ac_pc ac) s) = get_global_address (ac_pc ac) r pg"
    using sl(2) cfg_eqD(7) [OF e] by (simp_all add: ac doffset_def)
  ultimately show ?thesis using submit_joins [of ac r pg count' s w' q' ctx] b' P(2) by metis
qed

text \<open>C33: A thread that joins a miss in flight gets no command identifier: the branch of
  \<open>acquire_page_submit_async\<close> for a busy page hands out the slot and a controller, and leaves \<open>cid\<close> in
  the caller's context as it was.  Take a thread that submits a miss while nothing else is
  outstanding, then one that joins it with a context whose old \<open>cid\<close> differs from the submitter's,
  and let the controller complete the transfer, so that no command is outstanding any more.  The
  submitter's wait would return now; but when the joiner waits first it takes the polling flag and
  polls for an identifier that never completes, so its wait does not return, and the wait of the
  submitter behind the flag does not return either.  (Below \<open>2 ^ 32\<close> slots, so that the number of the
  slot is not the mark of a pending one.)\<close>

theorem async_joiner_deadlock:
  assumes "cache_inv (ac_pc ac)" and "refs_ok (ac_pc ac)" and "in_dom (ac_pc ac) r pg" and "unat (pc_n_pages (ac_pc ac)) < 2 ^ 32"
    and "\<not> is_valid (dstate (ac_pc ac) r pg)"
    and "cnt_of (dstate (ac_pc ac) r pg) + unat count + extra_count (pc_ranges (ac_pc ac) r pg) < 2 ^ 29"
    and "ac_sub ac = (\<lambda>_. None)" and "ac_done ac = (\<lambda>_. [])"
    and "acquire_page_submit_async ac r pg count w q ctx = Some (ac1, owner, a)"
    and "cnt_of (dstate (ac_pc ac1) r pg) + unat count' + extra_count (pc_ranges (ac_pc ac1) r pg) < 2 ^ 29"
    and "cx_cid ctx' \<noteq> cx_cid owner"
  shows "\<exists>ac2 joiner ac3. acquire_page_submit_async ac1 r pg count' w' q' ctx' = Some (ac2, joiner, a) \<and>
    device_complete (cx_member_acquire_ctrl owner) q (cx_cid owner) ac2 = ac3 \<and> ac_sub ac3 = (\<lambda>_. None) \<and>
    acquire_page_wait_async ac3 r pg count w q owner \<noteq> None \<and>
    acquire_page_wait_async ac3 r pg count' w' q' joiner = None \<and>
    acquire_page_wait_async (upd_pc (upd_page r pg (\<lambda>p. p\<lparr>dp_polling_flag := 1\<rparr>)) ac3) r pg count w q owner = None"
proof -
  have k: "slots_kept {} (ac_pc ac)" "\<not> is_busy (dstate (ac_pc ac) r pg)"
    using assms(1-3) by (simp_all add: slots_kept_def cache_inv_def quiet_def)
  obtain pc3 s where a: "a = ucast s" and fl: "in_flight {} ac ac1 owner r pg count q pc3 s"
    using submit_only_found [OF k(1) assms(3,5) k(2) assms(6) _ assms(9)] by blast
  obtain pc' joiner where j: "acquire_page_submit_async ac1 r pg count' w' q' ctx' = Some (ac1\<lparr>ac_pc := pc'\<rparr>, joiner, a)"
      "state_of_word (dstate pc' r pg) = NV_B" "dp_polling_flag (pc_ranges pc' r pg) = 0" "cx_cid joiner = cx_cid ctx'" "\<not> cx_isHit joiner"
    using join_in_flight [OF fl assms(5,6,10,4)] unfolding a by blast
  let ?c = "cx_member_acquire_ctrl owner" and ?ac2 = "ac1\<lparr>ac_pc := pc'\<rparr>"
  let ?ac3 = "device_complete ?c q (cx_cid owner) ?ac2"
  obtain cmd where o: "\<not> cx_isHit owner" "ac_sub ac1 = (ac_sub ac)((?c, q, cx_cid owner) \<mapsto> cmd)" "ac_done ac1 = ac_done ac"
    using fl by (auto simp: in_flight_def Let_def)
  have D: "ac_sub ?ac3 = (\<lambda>_. None)" "ac_done ?ac3 = (\<lambda>_. [])((?c, q) := [cx_cid owner])" "pc_ranges (ac_pc ?ac3) = pc_ranges pc'"
    using o(2,3) assms(7,8) by (simp_all add: device_complete_def device_exec_def Let_def fun_eq_iff)
  have st: "state_of_word (dstate (ac_pc ?ac3) r pg) = NV_B" "dp_polling_flag (pc_ranges (ac_pc ?ac3) r pg) = 0"
    using j(2,3) by (simp_all add: D(3) dstate_def)
  have "acquire_page_wait_async ?ac3 r pg count w q owner \<noteq> None"
    using wait_wins [OF o(1) st] by (simp add: D(2) Let_def split_beta)
  moreover have "acquire_page_wait_async ?ac3 r pg count' w' q' joiner = None"
    using st j(4,5) assms(11) by (intro wait_without_completion) (simp_all add: D(2))
  ultimately show ?thesis using j(1) D(1) wait_behind_flag [OF st(1) o(1)] by blast
qed

text \<open>Page 1 of the example cache is submitted and joined with an identifier one above the submitter's.\<close>

theorem async_joiner_deadlock_witness:
  "\<exists>ac1 owner a ac2 joiner. acquire_page_submit_async witness_ac 0 1 1 False 0 witness_ctx = Some (ac1, owner, a) \<and>
    acquire_page_submit_async ac1 0 1 1 False 0 (witness_ctx\<lparr>cx_cid := cx_cid owner + 1\<rparr>) = Some (ac2, joiner, a) \<and>
    acquire_page_wait_async (device_complete (cx_member_acquire_ctrl owner) 0 (cx_cid owner) ac2) 0 1 1 False 0 joiner = None"
proof -
  note w = witness_pc_inv witness_pc_facts witness_ac_facts
  have b: "cnt_of (dstate (ac_pc witness_ac) 0 1) + unat (1::u32) + extra_count (pc_ranges (ac_pc witness_ac) 0 1) < 2 ^ 29"
    using w by simp
  have "slots_kept {} witness_pc" using w by (simp add: slots_kept_def cache_inv_def)
  then obtain ac1 owner pc3 s where sub: "acquire_page_submit_async witness_ac 0 1 1 False 0 witness_ctx = Some (ac1, owner, ucast s)"
    and fl: "in_flight {} witness_ac ac1 owner 0 1 1 0 pc3 s"
    using submit_in_flight [of "{}" witness_ac 0 1 0 1 False 0 witness_ctx] b w by auto
  have "extra_count (pc_ranges (ac_pc ac1) 0 1) \<le> 1"
    using prefetch_enter_keeps(4) [of "pc_ranges (ac_pc ac1) 0 1"] by (simp add: extra_count_def prod_eq_iff)
  moreover have "cnt_of (dstate (ac_pc ac1) 0 1) = 1"
    using in_flight_page(1) [OF fl _ b refl] busied_page(4) [OF b] w by simp
  ultimately have b1: "cnt_of (dstate (ac_pc ac1) 0 1) + unat (1::u32) + extra_count (pc_ranges (ac_pc ac1) 0 1) < 2 ^ 29" by simp
  have "unat (pc_n_pages witness_pc) < 2 ^ 32" by (simp add: witness_pc_def)
  then show ?thesis
    using async_joiner_deadlock [OF _ _ _ _ _ b _ _ sub b1, of "witness_ctx\<lparr>cx_cid := cx_cid owner + 1\<rparr>" False 0] w sub by auto
qed

end
