(* ===== verification/Nvm_Ctrl.thy ===== *)
theory Nvm_Ctrl
  imports Nvm_Queue
begin

text \<open>
  Controller handles (\<open>src/ctrl.cpp\<close>, \<open>src/lib_ctrl.h\<close>, \<open>src/linux/device.cpp\<close>): the handle and
  its reference count, \<open>_nvm_ctrl_init\<close> with the capability register it reads, and the reset
  sequence \<open>nvm_raw_ctrl_reset\<close> with the registers it writes.  Registers are values: \<open>cap\<close> is the
  capability register, \<open>csts i\<close> what the \<open>i\<close>-th read of the status register returns, and the writes
  are listed in order.  \<open>get\<close> and \<open>put\<close> are critical sections of a mutex, so that each is one step;
  what \<open>put\<close> does after leaving its section is a step of its own.
\<close>

section \<open>The handle\<close>

datatype device_type = DEVICE_TYPE_UNKNOWN | DEVICE_TYPE_IOCTL | DEVICE_TYPE_SMARTIO

text \<open>Which of the callbacks are set; a device is known by a number.\<close>

record device_ops =
  release_device :: bool
  map_range :: bool
  unmap_range :: bool

record controller =
  ct_count :: u32
  ct_type :: device_type
  ct_device :: "nat option"
  ct_ops :: device_ops
  ct_handle :: nvm_ctrl_t

definition NVM_CTRL_MEM_MINSIZE :: u64 where "NVM_CTRL_MEM_MINSIZE = 0x2000"

definition encode_page_size :: "u64 \<Rightarrow> u32" where
  "encode_page_size ps = nvm_b2log (ucast (drop_bit 12 ps))"

definition encode_entry_size :: "u64 \<Rightarrow> u32" where
  "encode_entry_size es = nvm_b2log (ucast es)"

text \<open>\<open>None\<close> is a null pointer; \<open>malloc_ok\<close> is whether the allocation succeeds.\<close>

definition create_handle :: "bool \<Rightarrow> nat option \<Rightarrow> device_ops option \<Rightarrow> device_type \<Rightarrow> controller option" where
  "create_handle malloc_ok dev ops type =
     (if dev \<noteq> None \<and> (case ops of None \<Rightarrow> True | Some o' \<Rightarrow> \<not> release_device o') then None
      else if \<not> malloc_ok then None
      else Some \<lparr>ct_count = 1, ct_type = type, ct_device = dev,
        ct_ops = (case ops of None \<Rightarrow> \<lparr>release_device = False, map_range = False, unmap_range = False\<rparr> | Some o' \<Rightarrow> o'),
        ct_handle = \<lparr>c_page_size = 0, c_dstrd = 0, c_timeout = 0, c_max_qs = 0, c_mm_size = 0, c_mm_ptr = 0\<rparr>\<rparr>)"

definition nvm_ctrl_init_handle ::
  "bool \<Rightarrow> u64 \<Rightarrow> u64 \<Rightarrow> nat option \<Rightarrow> device_ops option \<Rightarrow> device_type \<Rightarrow> u64 \<Rightarrow> u64 \<Rightarrow> errno + controller"
where
  "nvm_ctrl_init_handle malloc_ok page_size cap dev ops type mm_ptr mm_size =
     (case create_handle malloc_ok dev ops type of
        None \<Rightarrow> Inl ENOMEM
      | Some container \<Rightarrow>
          if mm_size < NVM_CTRL_MEM_MINSIZE then Inl EINVAL
          else if page_size = 0 then Inl ENOMEM
          else
            (let host_page_size = ucast (encode_page_size page_size) :: u8;
                 max_page_size = ucast (CAP_MPSMAX cap) :: u8;
                 min_page_size = ucast (CAP_MPSMIN cap) :: u8
             in if \<not> (min_page_size \<le> host_page_size \<and> host_page_size \<le> max_page_size) then Inl ERANGE
                else Inr (container\<lparr>ct_handle := (ct_handle container)\<lparr>
                  c_mm_ptr := mm_ptr, c_mm_size := mm_size, c_page_size := page_size,
                  c_dstrd := ucast (CAP_DSTRD cap), c_timeout := CAP_TO cap * 500,
                  c_max_qs := ucast (CAP_MQES cap + 1)\<rparr>\<rparr>)))"

definition nvm_raw_ctrl_init :: "bool \<Rightarrow> u64 \<Rightarrow> u64 \<Rightarrow> u64 \<Rightarrow> u64 \<Rightarrow> errno + controller" where
  "nvm_raw_ctrl_init malloc_ok page_size cap mm_ptr mm_size =
     nvm_ctrl_init_handle malloc_ok page_size cap None None DEVICE_TYPE_UNKNOWN mm_ptr mm_size"

text \<open>
  \<open>nvm_ctrl_init\<close> of \<open>src/linux/device.cpp\<close>: \<open>fd\<close> is the duplicated descriptor, \<open>mm\<close> the mapped
  registers; every failure closes the descriptor again.  (A failed \<open>mmap\<close> would be noticed only if it
  returned a null pointer.)
\<close>

definition ioctl_ops :: device_ops where
  "ioctl_ops = \<lparr>release_device = True, map_range = True, unmap_range = True\<rparr>"

definition nvm_ctrl_init ::
  "bool \<Rightarrow> (errno + nat) \<Rightarrow> errno option \<Rightarrow> (errno + u64) \<Rightarrow> bool \<Rightarrow> u64 \<Rightarrow> u64 \<Rightarrow> errno + controller"
where
  "nvm_ctrl_init dev_ok fd fcntl mm malloc_ok page_size cap =
     (if \<not> dev_ok then Inl ENOMEM
      else case fd of
        Inl e \<Rightarrow> Inl e
      | Inr d \<Rightarrow>
          (case fcntl of
             Some e \<Rightarrow> Inl e
           | None \<Rightarrow>
               (case mm of
                  Inl e \<Rightarrow> Inl e
                | Inr mm_ptr \<Rightarrow>
                    nvm_ctrl_init_handle malloc_ok page_size cap (Some d) (Some ioctl_ops) DEVICE_TYPE_IOCTL
                      mm_ptr NVM_CTRL_MEM_MINSIZE)))"

section \<open>Reset\<close>

datatype reg_write = Write_CC u32 | Write_AQA u32 | Write_ACQ u64 | Write_ASQ u64

text \<open>Polling the ready bit; the answer is the number of the next read, or \<open>None\<close> for a timeout.\<close>

function wait_rdy :: "(nat \<Rightarrow> u32) \<Rightarrow> u64 \<Rightarrow> nat \<Rightarrow> u64 \<Rightarrow> nat option" where
  "wait_rdy csts rdy i remaining =
     (if CSTS_RDY (ucast (csts i)) = rdy then Some (i + 1)
      else if remaining = 0 then None
      else wait_rdy csts rdy (i + 1) (nvm_delay_remain remaining))"
  by pat_completeness auto
termination
  by (relation "measure (\<lambda>(csts, rdy, i, remaining). unat remaining)") (auto simp: nvm_delay_remain_less word_gt_0)

declare wait_rdy.simps [simp del]

definition nvm_raw_ctrl_reset ::
  "u32 \<Rightarrow> (nat \<Rightarrow> u32) \<Rightarrow> nvm_ctrl_t \<Rightarrow> u64 \<Rightarrow> u64 \<Rightarrow> errno option \<times> reg_write list"
where
  "nvm_raw_ctrl_reset cc csts ctrl acq_addr asq_addr =
     (let disable = [Write_CC (cc AND NOT 1)];
          timeout = c_timeout ctrl * 1000000
      in case wait_rdy csts 0 0 (nvm_delay_remain timeout) of
           None \<Rightarrow> (Some ETIME, disable)
         | Some i \<Rightarrow>
             (let cq_max_entries = ucast (c_page_size ctrl div sizeof_nvm_cpl_t - 1) :: u32;
                  sq_max_entries = ucast (c_page_size ctrl div sizeof_nvm_cmd_t - 1) :: u32;
                  cqes = ucast (encode_entry_size sizeof_nvm_cpl_t);
                  sqes = ucast (encode_entry_size sizeof_nvm_cmd_t);
                  writes = disable @
                    [Write_AQA (ucast (AQA_ACQS (ucast cq_max_entries) OR AQA_ASQS (ucast sq_max_entries))),
                     Write_ACQ acq_addr, Write_ASQ asq_addr,
                     Write_CC (ucast (cc_enable cqes sqes (ucast (encode_page_size (c_page_size ctrl)))))]
              in case wait_rdy csts 1 i (nvm_delay_remain timeout) of
                   None \<Rightarrow> (Some ETIME, writes)
                 | Some _ \<Rightarrow> (None, writes)))"

section \<open>References\<close>

text \<open>
  A handle with its callers: \<open>rc_count\<close> is the field \<open>count\<close>, \<open>rc_released\<close> and \<open>rc_removed\<close> count
  the calls of \<open>release_device\<close> and of \<open>remove_handle\<close>, and \<open>rc_leaving\<close> holds, for every
  \<open>_nvm_ctrl_put\<close> that has left its critical section and not returned, the local \<open>count\<close> it took along.
\<close>

record ctrl_refs =
  rc_count :: u32
  rc_device :: bool
  rc_released :: nat
  rc_removed :: nat
  rc_leaving :: "u32 list"

definition nvm_ctrl_get :: "ctrl_refs \<Rightarrow> ctrl_refs" where
  "nvm_ctrl_get s = s\<lparr>rc_count := rc_count s + 1\<rparr>"

definition nvm_ctrl_put_locked :: "ctrl_refs \<Rightarrow> ctrl_refs" where
  "nvm_ctrl_put_locked s =
     (let count = rc_count s - 1;
          s1 = s\<lparr>rc_count := count\<rparr>;
          s2 = (if count = 0 then s1\<lparr>rc_released := rc_released s1 + of_bool (rc_device s1), rc_device := False\<rparr> else s1)
      in s2\<lparr>rc_leaving := rc_leaving s2 @ [count]\<rparr>)"

definition nvm_ctrl_put_leave :: "nat \<Rightarrow> ctrl_refs \<Rightarrow> ctrl_refs" where
  "nvm_ctrl_put_leave i s =
     (let count = rc_leaving s ! i;
          s1 = s\<lparr>rc_leaving := take i (rc_leaving s) @ drop (Suc i) (rc_leaving s)\<rparr>
      in if count = 0 then s1\<lparr>rc_removed := rc_removed s1 + 1\<rparr> else s1)"

text \<open>A caller takes or gives back a reference only while one is held.\<close>

inductive ctrl_step :: "ctrl_refs \<Rightarrow> ctrl_refs \<Rightarrow> bool" where
  get: "\<lbrakk>0 < rc_count s; unat (rc_count s) + 1 < 2 ^ 32\<rbrakk> \<Longrightarrow> ctrl_step s (nvm_ctrl_get s)"
| put: "0 < rc_count s \<Longrightarrow> ctrl_step s (nvm_ctrl_put_locked s)"
| leave: "i < length (rc_leaving s) \<Longrightarrow> ctrl_step s (nvm_ctrl_put_leave i s)"

definition ctrl_refs_init :: "bool \<Rightarrow> ctrl_refs" where
  "ctrl_refs_init dev = \<lparr>rc_count = 1, rc_device = dev, rc_released = 0, rc_removed = 0, rc_leaving = []\<rparr>"

definition zeros :: "u32 list \<Rightarrow> nat" where
  "zeros xs = length (filter (\<lambda>c. c = 0) xs)"

definition ctrl_refs_inv :: "bool \<Rightarrow> ctrl_refs \<Rightarrow> bool" where
  "ctrl_refs_inv dev s \<longleftrightarrow> rc_removed s + zeros (rc_leaving s) = of_bool (rc_count s = 0) \<and>
     rc_released s = of_bool (rc_count s = 0 \<and> dev) \<and> rc_device s = (dev \<and> rc_count s \<noteq> 0)"

lemma zeros_simps [simp]: "zeros [] = 0" "zeros (xs @ ys) = zeros xs + zeros ys" "zeros (c # xs) = of_bool (c = 0) + zeros xs"
  by (simp_all add: zeros_def)

lemma zeros_split: "i < length xs \<Longrightarrow> zeros xs = zeros (take i xs @ drop (Suc i) xs) + of_bool (xs ! i = 0)"
  using id_take_nth_drop [of i xs] by (metis (no_types, lifting) add.assoc add.commute zeros_simps(2,3))

lemma ctrl_step_inv: "ctrl_step s s' \<Longrightarrow> ctrl_refs_inv dev s \<Longrightarrow> ctrl_refs_inv dev s'"
proof (induction rule: ctrl_step.induct)
  case (get s)
  have "rc_count s + 1 \<noteq> 0" using unat_inc [of "rc_count s"] get(2) by auto
  then show ?case using get by (auto simp: ctrl_refs_inv_def nvm_ctrl_get_def)
next
  case (put s)
  then show ?case by (auto simp: ctrl_refs_inv_def nvm_ctrl_put_locked_def Let_def)
next
  case (leave i s)
  then show ?case using zeros_split [OF leave(1)] by (auto simp: ctrl_refs_inv_def nvm_ctrl_put_leave_def Let_def)
qed

lemma ctrl_steps_inv: "ctrl_step\<^sup>*\<^sup>* (ctrl_refs_init dev) s \<Longrightarrow> ctrl_refs_inv dev s"
  by (induction rule: rtranclp_induct) (auto simp: ctrl_step_inv, simp add: ctrl_refs_inv_def ctrl_refs_init_def)

section \<open>Lemmas: polling\<close>

lemma nvm_delay_remain_ge: "unat r - 1000000 \<le> unat (nvm_delay_remain r)"
  by (cases "r = 0") (auto simp: nvm_delay_remain_def unat_sub min_def word_le_nat_alt)

lemma wait_rdy_in_time:
  "\<lbrakk>CSTS_RDY (ucast (csts (i + k))) = rdy; k * 1000000 \<le> unat r\<rbrakk> \<Longrightarrow> \<exists>j. wait_rdy csts rdy i r = Some j"
proof (induction k arbitrary: i r)
  case 0
  then show ?case by (subst wait_rdy.simps) simp
next
  case (Suc k)
  have "r \<noteq> 0" using Suc.prems(2) by auto
  moreover have "k * 1000000 \<le> unat (nvm_delay_remain r)" using Suc.prems(2) nvm_delay_remain_ge [of r] by simp
  ultimately show ?case using Suc.IH [of "Suc i" "nvm_delay_remain r"] Suc.prems(1) by (subst wait_rdy.simps) simp
qed

lemma wait_rdy_found: "wait_rdy csts rdy i r = Some j \<Longrightarrow> i < j \<and> CSTS_RDY (ucast (csts (j - 1))) = rdy"
proof (induction csts rdy i r rule: wait_rdy.induct)
  case (1 csts rdy i r)
  show ?case
  proof (cases "CSTS_RDY (ucast (csts i)) = rdy")
    case True
    then show ?thesis using 1(2) by (subst (asm) wait_rdy.simps) auto
  next
    case False
    then have "r \<noteq> 0" "wait_rdy csts rdy (i + 1) (nvm_delay_remain r) = Some j"
      using 1(2) by (subst (asm) wait_rdy.simps, auto split: if_splits)+
    then show ?thesis using 1(1) False by fastforce
  qed
qed

lemma wait_rdy_timeout:
  "wait_rdy csts rdy i r = None \<Longrightarrow> \<exists>k. unat r \<le> k * 1000000 \<and> (\<forall>j \<le> k. CSTS_RDY (ucast (csts (i + j))) \<noteq> rdy)"
proof (induction csts rdy i r rule: wait_rdy.induct)
  case (1 csts rdy i r)
  have n: "CSTS_RDY (ucast (csts i)) \<noteq> rdy" using 1(2) by (subst (asm) wait_rdy.simps) (auto split: if_splits)
  show ?case
  proof (cases "r = 0")
    case True
    then show ?thesis using n by (intro exI [of _ 0]) simp
  next
    case False
    then have "wait_rdy csts rdy (i + 1) (nvm_delay_remain r) = None" using 1(2) n by (subst (asm) wait_rdy.simps) simp
    then obtain k where k: "unat (nvm_delay_remain r) \<le> k * 1000000" "\<forall>j \<le> k. CSTS_RDY (ucast (csts (i + 1 + j))) \<noteq> rdy"
      using 1(1) n False by blast
    have "CSTS_RDY (ucast (csts (i + j))) \<noteq> rdy" if "j \<le> Suc k" for j
      using that n k(2) by (cases j) auto
    then show ?thesis using k(1) nvm_delay_remain_ge [of r] by (intro exI [of _ "Suc k"]) auto
  qed
qed

section \<open>Properties\<close>

text \<open>The writes of a reset that gets past its first wait.\<close>

definition reset_writes :: "u32 \<Rightarrow> nvm_ctrl_t \<Rightarrow> u64 \<Rightarrow> u64 \<Rightarrow> reg_write list" where
  "reset_writes cc ctrl acq_addr asq_addr =
     [Write_CC (cc AND NOT 1),
      Write_AQA (ucast (AQA_ACQS (ucast (ucast (c_page_size ctrl div sizeof_nvm_cpl_t - 1) :: u32)) OR
                        AQA_ASQS (ucast (ucast (c_page_size ctrl div sizeof_nvm_cmd_t - 1) :: u32)))),
      Write_ACQ acq_addr, Write_ASQ asq_addr,
      Write_CC (ucast (cc_enable (ucast (encode_entry_size sizeof_nvm_cpl_t)) (ucast (encode_entry_size sizeof_nvm_cmd_t))
                        (ucast (encode_page_size (c_page_size ctrl)))))]"

lemma delay_ms:
  assumes "k < unat t" and "unat t * 1000000 < 2 ^ 64"
  shows "k * 1000000 \<le> unat (nvm_delay_remain (t * 1000000))"
proof -
  have "unat (t * 1000000) = unat t * 1000000" using assms(2) unat_mult_lem [of t "1000000"] by simp
  moreover have "(k + 1) * 1000000 \<le> unat t * 1000000" using assms(1) by (intro mult_le_mono1) simp
  ultimately show ?thesis using nvm_delay_remain_ge [of "t * 1000000"] by simp
qed

text \<open>C22: The reset sequence is safe and comes to an end.  The admin queue registers and the enabling
  write follow, in this order, only after the controller was seen not ready; success is reported only
  after it was then seen ready, and the one error is \<open>ETIME\<close>, reported after polling for the whole
  timeout.  A controller that becomes not ready, and ready again, within the timeout of its
  capability register (in polls, one per millisecond) is reset successfully.\<close>

theorem ctrl_reset_correct:
  assumes t: "unat (c_timeout ctrl) * 1000000 < 2 ^ 64"
  shows "case nvm_raw_ctrl_reset cc csts ctrl acq_addr asq_addr of
      (None, writes) \<Rightarrow> writes = reset_writes cc ctrl acq_addr asq_addr \<and>
        (\<exists>i j. i < j \<and> CSTS_RDY (ucast (csts i)) = 0 \<and> CSTS_RDY (ucast (csts j)) = 1)
    | (Some e, writes) \<Rightarrow> e = ETIME \<and>
        (writes = [Write_CC (cc AND NOT 1)] \<and> (\<forall>k < unat (c_timeout ctrl). CSTS_RDY (ucast (csts k)) \<noteq> 0) \<or>
         writes = reset_writes cc ctrl acq_addr asq_addr \<and>
         (\<exists>i. CSTS_RDY (ucast (csts i)) = 0 \<and> (\<forall>k < unat (c_timeout ctrl). CSTS_RDY (ucast (csts (i + 1 + k))) \<noteq> 1)))"
proof -
  let ?T = "nvm_delay_remain (c_timeout ctrl * 1000000)"
  have late: "\<forall>k < unat (c_timeout ctrl). CSTS_RDY (ucast (csts (i + k))) \<noteq> rdy" if "wait_rdy csts rdy i ?T = None" for i rdy
    using wait_rdy_in_time [of csts i _ rdy ?T] delay_ms [OF _ t] that by (metis option.distinct(1))
  show ?thesis
  proof (cases "wait_rdy csts 0 0 ?T")
    case None
    then show ?thesis using late [OF None] by (simp add: nvm_raw_ctrl_reset_def Let_def)
  next
    case (Some i)
    note f0 = wait_rdy_found [OF Some]
    show ?thesis
    proof (cases "wait_rdy csts 1 i ?T")
      case None
      have "\<exists>i. CSTS_RDY (ucast (csts i)) = 0 \<and> (\<forall>k < unat (c_timeout ctrl). CSTS_RDY (ucast (csts (i + 1 + k))) \<noteq> 1)"
        using late [OF None] f0 by (intro exI [of _ "i - 1"]) simp
      then show ?thesis using Some None by (simp add: nvm_raw_ctrl_reset_def Let_def reset_writes_def)
    next
      case (Some j)
      have "\<exists>i j. i < j \<and> CSTS_RDY (ucast (csts i)) = 0 \<and> CSTS_RDY (ucast (csts j)) = 1"
        using f0 wait_rdy_found [OF Some] by (intro exI [of _ "i - 1"] exI [of _ "j - 1"]) auto
      then show ?thesis using \<open>wait_rdy csts 0 0 ?T = Some i\<close> Some by (simp add: nvm_raw_ctrl_reset_def Let_def reset_writes_def)
    qed
  qed
qed

theorem ctrl_reset_correct_witness:
  "case nvm_raw_ctrl_reset 0x460001 (\<lambda>i. if i < 2 then 1 else if i < 5 then 0 else 1)
     \<lparr>c_page_size = 4096, c_dstrd = 0, c_timeout = 500, c_max_qs = 1024, c_mm_size = 0x2000, c_mm_ptr = 0\<rparr> 0x1000 0x2000 of
      (None, writes) \<Rightarrow> length writes = 5 | (Some e, _) \<Rightarrow> False"
proof -
  let ?csts = "\<lambda>i::nat. if i < 2 then 1 else if i < 5 then 0 else (1::u32)"
  let ?ctrl = "\<lparr>c_page_size = 4096, c_dstrd = 0, c_timeout = 500, c_max_qs = 1024, c_mm_size = 0x2000, c_mm_ptr = 0\<rparr>"
  have r: "CSTS_RDY (ucast (1::u32)) = 1" "CSTS_RDY (ucast (0::u32)) = 0"
    by (simp_all add: CSTS_RDY_def RB_def NVM_MASK_PART_def NVM_MASK_def)
  have "\<not> (\<forall>k < unat (c_timeout ?ctrl). CSTS_RDY (ucast (?csts k)) \<noteq> 0)"
    using r by (auto intro!: exI [of _ 2])
  moreover have "\<exists>k < unat (c_timeout ?ctrl). CSTS_RDY (ucast (?csts (i + 1 + k))) = 1" for i
    using r by (intro exI [of _ 7]) auto
  ultimately show ?thesis
    using ctrl_reset_correct [where ctrl = ?ctrl and cc = "0x460001" and csts = ?csts and acq_addr = "0x1000" and asq_addr = "0x2000"] by (auto simp: reset_writes_def split: prod.splits option.splits)
qed

text \<open>C24: What \<open>_nvm_ctrl_init\<close> accepts is in bounds: the mapped registers cover the minimum, a page size
  that is a power of two is one the controller supports, the doorbell stride is below 16, queues may
  have 1 to 65536 entries, the timeout is at most 127.5 seconds, so that its value in nanoseconds does
  not wrap, and the handle starts with one reference.\<close>

theorem ctrl_init_bounds:
  assumes "nvm_ctrl_init_handle malloc_ok page_size cap dev ops type mm_ptr mm_size = Inr c"
  shows "0x2000 \<le> unat mm_size \<and> unat (c_dstrd (ct_handle c)) < 16 \<and>
    1 \<le> unat (c_max_qs (ct_handle c)) \<and> unat (c_max_qs (ct_handle c)) \<le> 65536 \<and>
    unat (c_timeout (ct_handle c)) \<le> 127500 \<and> unat (c_timeout (ct_handle c)) * 1000000 < 2 ^ 64 \<and> ct_count c = 1 \<and>
    (\<forall>k. 12 \<le> k \<and> k < 44 \<and> page_size = push_bit k 1 \<longrightarrow>
       12 + unat (CAP_MPSMIN cap) \<le> k \<and> k \<le> 12 + unat (CAP_MPSMAX cap) \<and> c_page_size (ct_handle c) = page_size)"
proof -
  let ?ps = "ucast (encode_page_size page_size) :: u8"
  obtain c0 where c0: "create_handle malloc_ok dev ops type = Some c0" and m: "\<not> mm_size < NVM_CTRL_MEM_MINSIZE"
    and p: "ucast (CAP_MPSMIN cap) \<le> ?ps" "?ps \<le> ucast (CAP_MPSMAX cap)"
    and c: "c = c0\<lparr>ct_handle := (ct_handle c0)\<lparr>c_mm_ptr := mm_ptr, c_mm_size := mm_size, c_page_size := page_size,
                  c_dstrd := ucast (CAP_DSTRD cap), c_timeout := CAP_TO cap * 500, c_max_qs := ucast (CAP_MQES cap + 1)\<rparr>\<rparr>"
    using assms by (auto simp: nvm_ctrl_init_handle_def Let_def split: option.splits if_splits)
  have field: "unat (RB cap hi lo) < 2 ^ (hi - lo + 1)" if "lo \<le> hi" for hi lo
    unfolding RB_eq_take_bit [OF that, of cap] unsigned_take_bit_eq by (rule take_bit_nat_less_exp)
  have f: "unat (CAP_MPSMAX cap) < 16" "unat (CAP_MPSMIN cap) < 16" "unat (CAP_DSTRD cap) < 16" "unat (CAP_TO cap) < 256" "unat (CAP_MQES cap) < 65536"
    using field [of 52 55] field [of 48 51] field [of 32 35] field [of 24 31] field [of 0 15]
    by (simp_all add: CAP_MPSMAX_def CAP_MPSMIN_def CAP_DSTRD_def CAP_TO_def CAP_MQES_def)
  have u8: "unat (ucast x :: u8) = unat x" if "unat x < 256" for x :: u64 using that by (simp add: unat_ucast_mod)
  have d: "unat (ucast (CAP_DSTRD cap) :: u8) < 16" using f(3) by (simp add: u8)
  have q1: "unat (CAP_MQES cap + 1) = unat (CAP_MQES cap) + 1" using f(5) by (intro unat_inc) simp
  then have q: "unat (ucast (CAP_MQES cap + 1) :: u32) = unat (CAP_MQES cap) + 1" using f(5) by (simp add: unat_ucast_mod)
  have t: "unat (CAP_TO cap * 500) = unat (CAP_TO cap) * 500" using f(4) unat_mult_lem [of "CAP_TO cap" 500] by simp
  have pg: "12 + unat (CAP_MPSMIN cap) \<le> k \<and> k \<le> 12 + unat (CAP_MPSMAX cap)"
    if "12 \<le> k" "k < 44" "page_size = push_bit k 1" for k
  proof -
    have "unat (drop_bit 12 page_size) = 2 ^ (k - 12)"
      using that unat_pow2 [of k] by (simp add: unat_drop_bit_div power_diff)
    moreover have "(2::nat) ^ (k - 12) < 2 ^ 32" using that by (intro power_strict_increasing) simp_all
    ultimately have u: "unat (ucast (drop_bit 12 page_size) :: u32) = 2 ^ (k - 12)" by (simp add: unat_ucast_mod)
    let ?b = "unat (encode_page_size page_size)"
    have "2 ^ ?b \<le> (2::nat) ^ (k - 12)" "(2::nat) ^ (k - 12) < 2 ^ (?b + 1)" "?b < 32"
      using nvm_b2log_bounds_aux [OF u] by (auto simp: encode_page_size_def)
    then have "?b = k - 12" by (metis (no_types, lifting) Suc_eq_plus1 le_antisym less_Suc_eq_le one_less_numeral_iff power_increasing_iff power_strict_increasing_iff semiring_norm(76))
    then have "unat ?ps = k - 12" using \<open>?b < 32\<close> by (simp add: unat_ucast_mod)
    then show ?thesis using p f(1,2) that(1) by (simp add: word_le_nat_alt u8) linarith
  qed
  have "ct_count c0 = 1" using c0 by (auto simp: create_handle_def split: if_splits)
  moreover have "0x2000 \<le> unat mm_size" using m by (simp add: NVM_CTRL_MEM_MINSIZE_def word_less_nat_alt)
  moreover have "unat (CAP_TO cap * 500) \<le> 127500" "unat (CAP_TO cap * 500) * 1000000 < 2 ^ 64" unfolding t using f(4) by simp_all
  ultimately show ?thesis using d q f(5) pg by (simp add: c)
qed

theorem ctrl_init_bounds_witness:
  "\<exists>c. nvm_ctrl_init_handle True 4096 0x200203ff (Some 3) (Some ioctl_ops) DEVICE_TYPE_IOCTL 0 0x2000 = Inr c \<and>
     1 \<le> unat (c_max_qs (ct_handle c))"
proof -
  have "\<exists>c. nvm_ctrl_init_handle True 4096 0x200203ff (Some 3) (Some ioctl_ops) DEVICE_TYPE_IOCTL 0 0x2000 = Inr c"
    by (simp add: nvm_ctrl_init_handle_def create_handle_def ioctl_ops_def NVM_CTRL_MEM_MINSIZE_def encode_page_size_def Let_def nvm_b2log_one
        CAP_MPSMIN_def CAP_MPSMAX_def RB_def NVM_MASK_PART_def NVM_MASK_def)
  then show ?thesis using ctrl_init_bounds by blast
qed

text \<open>C23: References to a controller handle are safe: from a handle with one reference, under every
  interleaving of \<open>_nvm_ctrl_get\<close> and \<open>_nvm_ctrl_put\<close> by callers that hold a reference, the device is
  released exactly when the last reference is given back, never twice, and the handle is freed at most
  once, only with no reference left, by the call that took the count to zero.\<close>

theorem ctrl_put_once:
  assumes "ctrl_step\<^sup>*\<^sup>* (ctrl_refs_init dev) s"
  shows "rc_released s = of_bool (rc_count s = 0 \<and> dev) \<and> rc_removed s \<le> of_bool (rc_count s = 0) \<and>
    (rc_leaving s = [] \<longrightarrow> rc_removed s = of_bool (rc_count s = 0))"
proof -
  have i: "ctrl_refs_inv dev s" by (rule ctrl_steps_inv [OF assms])
  then have "rc_removed s + zeros (rc_leaving s) = of_bool (rc_count s = 0)" by (simp add: ctrl_refs_inv_def)
  moreover from this have "rc_removed s \<le> of_bool (rc_count s = 0)" by linarith
  ultimately show ?thesis using i by (auto simp: ctrl_refs_inv_def)
qed

theorem ctrl_put_once_witness:
  "\<exists>s. ctrl_step\<^sup>*\<^sup>* (ctrl_refs_init True) s \<and> rc_leaving s = [] \<and> rc_removed s = 1 \<and> rc_released s = 1"
proof -
  let ?a = "ctrl_refs_init True"
  let ?z = "nvm_ctrl_put_leave 0 (nvm_ctrl_put_leave 0 (nvm_ctrl_put_locked (nvm_ctrl_put_locked (nvm_ctrl_get ?a))))"
  note d = nvm_ctrl_get_def nvm_ctrl_put_locked_def nvm_ctrl_put_leave_def ctrl_refs_init_def Let_def
  have "ctrl_step ?a (nvm_ctrl_get ?a)" by (rule ctrl_step.get) (simp_all add: ctrl_refs_init_def)
  moreover have "ctrl_step (nvm_ctrl_get ?a) (nvm_ctrl_put_locked (nvm_ctrl_get ?a))" by (rule ctrl_step.put) (simp add: d)
  moreover have "ctrl_step (nvm_ctrl_put_locked (nvm_ctrl_get ?a)) (nvm_ctrl_put_locked (nvm_ctrl_put_locked (nvm_ctrl_get ?a)))"
    by (rule ctrl_step.put) (simp add: d)
  moreover have "ctrl_step (nvm_ctrl_put_locked (nvm_ctrl_put_locked (nvm_ctrl_get ?a)))
      (nvm_ctrl_put_leave 0 (nvm_ctrl_put_locked (nvm_ctrl_put_locked (nvm_ctrl_get ?a))))" by (rule ctrl_step.leave) (simp add: d)
  moreover have "ctrl_step (nvm_ctrl_put_leave 0 (nvm_ctrl_put_locked (nvm_ctrl_put_locked (nvm_ctrl_get ?a)))) ?z"
    by (rule ctrl_step.leave) (simp add: d)
  ultimately have r: "ctrl_step\<^sup>*\<^sup>* ?a ?z" by (meson rtranclp.rtrancl_into_rtrancl rtranclp.rtrancl_refl)
  have "rc_count ?z = 0" "rc_leaving ?z = []" by (simp_all add: d)
  then show ?thesis using ctrl_put_once [OF r] r by auto
qed

end
