(* ===== verification/Nvm_Dma.thy ===== *)
theory Nvm_Dma
  imports Nvm_Ctrl
begin

text \<open>
  DMA mappings (\<open>src/dma.cpp\<close>, \<open>src/linux/dma.cpp\<close>): handles with the bus address of every
  controller page, and the reference counted mapping descriptors behind them.  The heap holds the
  controllers, descriptors (\<open>struct map\<close>) and handle containers by address.  What an allocation
  returns and what the device's \<open>map_range\<close> answers are arguments; the callbacks are counted:
  \<open>hp_released\<close> the calls of \<open>release\<close>, \<open>hp_unmapped\<close> those of \<open>unmap\<close> and
  \<open>hp_dev_released\<close> those of \<open>release_device\<close>.
\<close>

section \<open>Handles\<close>

record va_range =
  va_remote :: bool
  va_vaddr :: u64
  va_page_size :: u64
  va_n_pages :: u64

definition n_ctrl_pages :: "u64 \<Rightarrow> u64 \<Rightarrow> u64 \<Rightarrow> u64" where
  "n_ctrl_pages ctrl_page_size page_size n_pages = (page_size * n_pages) div ctrl_page_size"

definition ctrl_page_addr :: "u64 \<Rightarrow> u64 \<Rightarrow> u64 list \<Rightarrow> nat \<Rightarrow> u64" where
  "ctrl_page_addr ctrl_page_size page_size ioaddrs i_page =
     (let current_page = (of_nat i_page * ctrl_page_size) div page_size;
          offset_within_page = (of_nat i_page * ctrl_page_size) mod page_size
      in ioaddrs ! unat current_page + offset_within_page)"

definition populate_handle :: "nvm_dma_t \<Rightarrow> va_range \<Rightarrow> u64 \<Rightarrow> u64 list \<Rightarrow> nvm_dma_t" where
  "populate_handle handle va ctrl_page_size ioaddrs =
     (let page_size = va_page_size va;
          n = unat (n_ctrl_pages ctrl_page_size page_size (va_n_pages va));
          addrs = map (ctrl_page_addr ctrl_page_size page_size ioaddrs) [0..<n]
      in handle\<lparr>dma_vaddr := va_vaddr va, dma_page_size := ctrl_page_size,
           dma_contiguous := list_all (\<lambda>i. i = 0 \<or> addrs ! (i - 1) + ctrl_page_size = addrs ! i) [0..<n],
           dma_ioaddrs := addrs\<rparr>)"

section \<open>The heap\<close>

record dma_map_t =
  mp_count :: u32
  mp_ctrl :: nat
  mp_va :: "va_range option"
  mp_unmap :: bool

record container =
  cn_map :: nat
  cn_handle :: nvm_dma_t

record dma_heap =
  hp_ctrls :: "nat \<Rightarrow> controller option"
  hp_maps :: "nat \<Rightarrow> dma_map_t option"
  hp_conts :: "nat \<Rightarrow> container option"
  hp_taken :: nat
  hp_released :: nat
  hp_unmapped :: nat
  hp_dev_released :: nat

definition heap_ctrl_get :: "dma_heap \<Rightarrow> nat \<Rightarrow> dma_heap option" where
  "heap_ctrl_get h c =
     (case hp_ctrls h c of
        None \<Rightarrow> None
      | Some ct \<Rightarrow> Some (h\<lparr>hp_ctrls := (hp_ctrls h)(c \<mapsto> ct\<lparr>ct_count := ct_count ct + 1\<rparr>)\<rparr>))"

definition heap_ctrl_put :: "dma_heap \<Rightarrow> nat \<Rightarrow> dma_heap" where
  "heap_ctrl_put h c =
     (case hp_ctrls h c of
        None \<Rightarrow> h
      | Some ct \<Rightarrow>
          (let count = ct_count ct - 1 in
           h\<lparr>hp_ctrls := (hp_ctrls h)(c := if count = 0 then None else Some (ct\<lparr>ct_count := count\<rparr>)),
             hp_dev_released := hp_dev_released h + of_bool (count = 0 \<and> ct_device ct \<noteq> None)\<rparr>))"

definition ctrl_page_size :: "dma_heap \<Rightarrow> nat \<Rightarrow> u64" where
  "ctrl_page_size h c = (case hp_ctrls h c of None \<Rightarrow> 0 | Some ct \<Rightarrow> c_page_size (ct_handle ct))"

definition create_map :: "dma_heap \<Rightarrow> nat option \<Rightarrow> nat \<Rightarrow> va_range \<Rightarrow> dma_heap \<times> (errno + nat)" where
  "create_map h mem ctrl va =
     (case heap_ctrl_get h ctrl of
        None \<Rightarrow> (h, Inl ENOSPC)
      | Some h1 \<Rightarrow>
          (case mem of
             None \<Rightarrow> (heap_ctrl_put h1 ctrl, Inl ENOMEM)
           | Some m \<Rightarrow> (h1\<lparr>hp_maps := (hp_maps h1)(m \<mapsto> \<lparr>mp_count = 1, mp_ctrl = ctrl, mp_va = Some va, mp_unmap = False\<rparr>)\<rparr>, Inr m)))"

definition remove_map :: "dma_heap \<Rightarrow> nat \<Rightarrow> dma_heap" where
  "remove_map h m =
     (case hp_maps h m of
        None \<Rightarrow> h
      | Some md \<Rightarrow> (heap_ctrl_put h (mp_ctrl md))\<lparr>hp_maps := (hp_maps h)(m := None)\<rparr>)"

definition put_map :: "dma_heap \<Rightarrow> nat \<Rightarrow> dma_heap" where
  "put_map h m =
     (case hp_maps h m of
        None \<Rightarrow> h
      | Some md \<Rightarrow>
          (let count = mp_count md - 1;
               md1 = md\<lparr>mp_count := count\<rparr>
           in if count = 0 then
                remove_map (h\<lparr>hp_unmapped := hp_unmapped h + of_bool (mp_unmap md),
                              hp_released := hp_released h + 1,
                              hp_maps := (hp_maps h)(m \<mapsto> md1\<lparr>mp_va := None\<rparr>)\<rparr>) m
              else if mp_va md1 = None then remove_map (h\<lparr>hp_maps := (hp_maps h)(m \<mapsto> md1)\<rparr>) m
              else h\<lparr>hp_maps := (hp_maps h)(m \<mapsto> md1)\<rparr>))"

definition get_map :: "dma_heap \<Rightarrow> nat \<Rightarrow> dma_heap \<times> errno option" where
  "get_map h m =
     (case hp_maps h m of
        None \<Rightarrow> (h, Some EINVAL)
      | Some md \<Rightarrow> (h\<lparr>hp_maps := (hp_maps h)(m \<mapsto> md\<lparr>mp_count := mp_count md + 1\<rparr>)\<rparr>, None))"

text \<open>The new container, not yet in the heap: \<open>junk\<close> is what \<open>malloc\<close> left in the handle.\<close>

definition create_container :: "dma_heap \<Rightarrow> nat option \<Rightarrow> nvm_dma_t \<Rightarrow> nat \<Rightarrow> errno + container" where
  "create_container h mem junk m =
     (case hp_maps h m of
        None \<Rightarrow> Inl EINVAL
      | Some md \<Rightarrow>
          (case mp_va md of
             None \<Rightarrow> Inl EINVAL
           | Some va \<Rightarrow>
               if va_page_size va = 0 \<or> va_n_pages va = 0 \<or> (va_page_size va * va_n_pages va) mod ctrl_page_size h (mp_ctrl md) \<noteq> 0
               then Inl EINVAL
               else if mem = None then Inl ENOMEM
               else Inr \<lparr>cn_map = m, cn_handle = junk\<lparr>dma_contiguous := True, dma_local := \<not> va_remote va\<rparr>\<rparr>))"

text \<open>\<open>mapped\<close> is what the device's \<open>map_range\<close> answers.\<close>

definition dma_map :: "dma_heap \<Rightarrow> bool \<Rightarrow> (errno + u64 list) \<Rightarrow> container \<Rightarrow> dma_heap \<times> (errno + container)" where
  "dma_map h calloc_ok mapped cont =
     (case hp_maps h (cn_map cont) of
        None \<Rightarrow> (h, Inl EINVAL)
      | Some md \<Rightarrow>
          (case (hp_ctrls h (mp_ctrl md), mp_va md) of
             (Some ct, Some va) \<Rightarrow>
               if \<not> map_range (ct_ops ct) then (h, Inl EINVAL)
               else if \<not> calloc_ok then (h, Inl ENOMEM)
               else (case mapped of
                       Inl e \<Rightarrow> (h, Inl e)
                     | Inr ioaddrs \<Rightarrow>
                         (h\<lparr>hp_maps := (hp_maps h)(cn_map cont \<mapsto> md\<lparr>mp_unmap := unmap_range (ct_ops ct)\<rparr>)\<rparr>,
                          Inr (cont\<lparr>cn_handle := populate_handle (cn_handle cont) va (c_page_size (ct_handle ct)) ioaddrs\<rparr>)))
           | _ \<Rightarrow> (h, Inl EINVAL)))"

definition nvm_dma_init ::
  "dma_heap \<Rightarrow> bool \<Rightarrow> nat option \<Rightarrow> nat option \<Rightarrow> nvm_dma_t \<Rightarrow> bool \<Rightarrow> (errno + u64 list) \<Rightarrow> nat \<Rightarrow> va_range \<Rightarrow> dma_heap \<times> (errno + nat)"
where
  "nvm_dma_init h has_release mem_map mem_cont junk calloc_ok mapped ctrl va =
     (if \<not> has_release then (h, Inl EINVAL)
      else case create_map h mem_map ctrl va of
        (h1, Inl e) \<Rightarrow> (h1, Inl e)
      | (h1, Inr m) \<Rightarrow>
          (case create_container h1 mem_cont junk m of
             Inl e \<Rightarrow> (remove_map h1 m, Inl e)
           | Inr cont \<Rightarrow>
               (case dma_map h1 calloc_ok mapped cont of
                  (h2, Inl e) \<Rightarrow> (remove_map h2 m, Inl e)
                | (h2, Inr cont1) \<Rightarrow>
                    (let k = the mem_cont in
                     (h2\<lparr>hp_conts := (hp_conts h2)(k \<mapsto> cont1), hp_taken := hp_taken h2 + 1\<rparr>, Inr k)))))"

text \<open>
  \<open>nvm_dma_map\<close> with bus addresses from the caller: here the library allocates the address range
  descriptor itself and frees it when it fails.
\<close>

definition nvm_dma_map ::
  "dma_heap \<Rightarrow> bool \<Rightarrow> nat option \<Rightarrow> nat option \<Rightarrow> nvm_dma_t \<Rightarrow> nat \<Rightarrow> u64 \<Rightarrow> u64 \<Rightarrow> u64 \<Rightarrow> u64 list option \<Rightarrow> dma_heap \<times> (errno + nat)"
where
  "nvm_dma_map h va_ok mem_map mem_cont junk ctrl vaddr page_size n_pages ioaddrs =
     (case ioaddrs of
        None \<Rightarrow> (h, Inl EINVAL)
      | Some addrs \<Rightarrow>
          if \<not> va_ok then (h, Inl ENOMEM)
          else
            (let va = \<lparr>va_remote = False, va_vaddr = vaddr, va_page_size = page_size, va_n_pages = n_pages\<rparr>
             in case create_map h mem_map ctrl va of
                  (h1, Inl e) \<Rightarrow> (h1, Inl e)
                | (h1, Inr m) \<Rightarrow>
                    (case create_container h1 mem_cont junk m of
                       Inl e \<Rightarrow> (remove_map h1 m, Inl e)
                     | Inr cont \<Rightarrow>
                         (let k = the mem_cont;
                              cont1 = cont\<lparr>cn_handle := populate_handle (cn_handle cont) va (ctrl_page_size h1 ctrl) addrs\<rparr>
                          in (h1\<lparr>hp_conts := (hp_conts h1)(k \<mapsto> cont1), hp_taken := hp_taken h1 + 1\<rparr>, Inr k)))))"

definition nvm_dma_remap :: "dma_heap \<Rightarrow> nat option \<Rightarrow> nvm_dma_t \<Rightarrow> nat \<Rightarrow> dma_heap \<times> (errno + nat)" where
  "nvm_dma_remap h mem_cont junk other =
     (case hp_conts h other of
        None \<Rightarrow> (h, Inl EINVAL)
      | Some oc \<Rightarrow>
          (case get_map h (cn_map oc) of
             (h1, Some e) \<Rightarrow> (h1, Inl e)
           | (h1, None) \<Rightarrow>
               (case create_container h1 mem_cont junk (cn_map oc) of
                  Inl e \<Rightarrow> (put_map h1 (cn_map oc), Inl e)
                | Inr cont \<Rightarrow>
                    (let k = the mem_cont;
                         md = the (hp_maps h1 (cn_map oc));
                         va = \<lparr>va_remote = \<not> dma_local (cn_handle oc), va_vaddr = va_vaddr (the (mp_va md)),
                               va_page_size = dma_page_size (cn_handle oc), va_n_pages = of_nat (length (dma_ioaddrs (cn_handle oc)))\<rparr>;
                         cont1 = cont\<lparr>cn_handle := populate_handle (cn_handle cont) va (ctrl_page_size h1 (mp_ctrl md)) (dma_ioaddrs (cn_handle oc))\<rparr>
                     in (h1\<lparr>hp_conts := (hp_conts h1)(k \<mapsto> cont1)\<rparr>, Inr k)))))"

definition nvm_dma_unmap :: "dma_heap \<Rightarrow> nat \<Rightarrow> dma_heap" where
  "nvm_dma_unmap h k =
     (case hp_conts h k of
        None \<Rightarrow> h
      | Some cont \<Rightarrow> (let h1 = put_map h (cn_map cont) in h1\<lparr>hp_conts := (hp_conts h1)(k := None)\<rparr>))"

definition nvm_ctrl_free :: "dma_heap \<Rightarrow> nat \<Rightarrow> dma_heap" where
  "nvm_ctrl_free h c = heap_ctrl_put h c"

definition nvm_ctrl_from_dma :: "dma_heap \<Rightarrow> nat \<Rightarrow> nat option" where
  "nvm_ctrl_from_dma h k =
     (case hp_conts h k of None \<Rightarrow> None | Some cont \<Rightarrow> map_option mp_ctrl (hp_maps h (cn_map cont)))"

definition nvm_dma_va :: "dma_heap \<Rightarrow> nat \<Rightarrow> va_range option" where
  "nvm_dma_va h k =
     (case hp_conts h k of None \<Rightarrow> None | Some cont \<Rightarrow> Option.bind (hp_maps h (cn_map cont)) mp_va)"

section \<open>Mapping through the kernel module (linux/dma.cpp)\<close>

datatype mapping_type = MAP_TYPE_CUDA | MAP_TYPE_HOST | MAP_TYPE_API

definition create_mapping_descriptor :: "bool \<Rightarrow> u64 \<Rightarrow> u64 \<Rightarrow> u64 \<Rightarrow> errno + va_range" where
  "create_mapping_descriptor malloc_ok page_size buffer size' =
     (let n_pages = NVM_PAGE_ALIGN size' page_size div page_size in
      if n_pages = 0 then Inl EINVAL
      else if \<not> malloc_ok then Inl ENOMEM
      else Inr \<lparr>va_remote = False, va_vaddr = buffer, va_page_size = page_size, va_n_pages = n_pages\<rparr>)"

definition nvm_dma_map_host ::
  "dma_heap \<Rightarrow> bool \<Rightarrow> nat option \<Rightarrow> nat option \<Rightarrow> nvm_dma_t \<Rightarrow> bool \<Rightarrow> (errno + u64 list) \<Rightarrow> nat \<Rightarrow> u64 \<Rightarrow> u64 \<Rightarrow> dma_heap \<times> (errno + nat)"
where
  "nvm_dma_map_host h md_ok mem_map mem_cont junk calloc_ok mapped ctrl vaddr size0 =
     (let ps = ctrl_page_size h ctrl; size' = NVM_CTRL_ALIGN ps size0 in
      if size' = 0 then (h, Inl EINVAL)
      else if map_option ct_type (hp_ctrls h ctrl) \<noteq> Some DEVICE_TYPE_IOCTL then (h, Inl EBADF)
      else case create_mapping_descriptor md_ok ps vaddr size' of
             Inl e \<Rightarrow> (h, Inl e)
           | Inr va \<Rightarrow> nvm_dma_init h True mem_map mem_cont junk calloc_ok mapped ctrl va)"

definition nvm_dma_map_device ::
  "dma_heap \<Rightarrow> bool \<Rightarrow> nat option \<Rightarrow> nat option \<Rightarrow> nvm_dma_t \<Rightarrow> bool \<Rightarrow> (errno + u64 list) \<Rightarrow> nat \<Rightarrow> u64 \<Rightarrow> u64 \<Rightarrow> dma_heap \<times> (errno + nat)"
where
  "nvm_dma_map_device h md_ok mem_map mem_cont junk calloc_ok mapped ctrl devptr size' =
     (if map_option ct_type (hp_ctrls h ctrl) \<noteq> Some DEVICE_TYPE_IOCTL then (h, Inl EBADF)
      else case create_mapping_descriptor md_ok (push_bit 16 1) devptr size' of
             Inl e \<Rightarrow> (h, Inl e)
           | Inr va \<Rightarrow> nvm_dma_init h True mem_map mem_cont junk calloc_ok mapped ctrl va)"

definition nvm_dma_create ::
  "dma_heap \<Rightarrow> (errno + u64) \<Rightarrow> bool \<Rightarrow> nat option \<Rightarrow> nat option \<Rightarrow> nvm_dma_t \<Rightarrow> bool \<Rightarrow> (errno + u64 list) \<Rightarrow> nat \<Rightarrow> u64 \<Rightarrow> dma_heap \<times> (errno + nat)"
where
  "nvm_dma_create h memalign md_ok mem_map mem_cont junk calloc_ok mapped ctrl size0 =
     (let ps = ctrl_page_size h ctrl; size' = NVM_CTRL_ALIGN ps size0 in
      if size' = 0 then (h, Inl EINVAL)
      else if map_option ct_type (hp_ctrls h ctrl) \<noteq> Some DEVICE_TYPE_IOCTL then (h, Inl EBADF)
      else case memalign of
             Inl e \<Rightarrow> (h, Inl e)
           | Inr buffer \<Rightarrow>
               (case create_mapping_descriptor md_ok ps buffer size' of
                  Inl e \<Rightarrow> (h, Inl e)
                | Inr va \<Rightarrow> nvm_dma_init h True mem_map mem_cont junk calloc_ok mapped ctrl va))"

section \<open>Invariant\<close>

definition conts_in :: "(nat \<Rightarrow> container option) \<Rightarrow> nat \<Rightarrow> nat set" where
  "conts_in C m = {k. \<exists>cn. C k = Some cn \<and> cn_map cn = m}"

definition maps_in :: "(nat \<Rightarrow> dma_map_t option) \<Rightarrow> nat \<Rightarrow> nat set" where
  "maps_in M c = {m. \<exists>md. M m = Some md \<and> mp_ctrl md = c}"

text \<open>
  Every count is the number of references: a descriptor is referenced by its containers, a
  controller by its descriptors and, for the controllers in \<open>U\<close>, by the handle of the user.
\<close>

definition dma_inv :: "nat set \<Rightarrow> dma_heap \<Rightarrow> bool" where
  "dma_inv U h \<longleftrightarrow> finite (dom (hp_maps h)) \<and> finite (dom (hp_conts h)) \<and>
     (\<forall>k cn. hp_conts h k = Some cn \<longrightarrow> hp_maps h (cn_map cn) \<noteq> None) \<and>
     (\<forall>m md. hp_maps h m = Some md \<longrightarrow>
        mp_va md \<noteq> None \<and> unat (mp_count md) = card (conts_in (hp_conts h) m) \<and> mp_count md \<noteq> 0 \<and> hp_ctrls h (mp_ctrl md) \<noteq> None) \<and>
     (\<forall>c ct. hp_ctrls h c = Some ct \<longrightarrow>
        unat (ct_count ct) = card (maps_in (hp_maps h) c) + of_bool (c \<in> U) \<and> ct_count ct \<noteq> 0) \<and>
     (\<forall>c \<in> U. hp_ctrls h c \<noteq> None) \<and>
     hp_taken h = hp_released h + card (dom (hp_maps h))"

lemma dma_invI:
  assumes "finite (dom (hp_maps h))" and "finite (dom (hp_conts h))"
    and "\<And>k cn. hp_conts h k = Some cn \<Longrightarrow> hp_maps h (cn_map cn) \<noteq> None"
    and "\<And>m md. hp_maps h m = Some md \<Longrightarrow>
        mp_va md \<noteq> None \<and> unat (mp_count md) = card (conts_in (hp_conts h) m) \<and> mp_count md \<noteq> 0 \<and> hp_ctrls h (mp_ctrl md) \<noteq> None"
    and "\<And>c ct. hp_ctrls h c = Some ct \<Longrightarrow>
        unat (ct_count ct) = card (maps_in (hp_maps h) c) + of_bool (c \<in> U) \<and> ct_count ct \<noteq> 0"
    and "hp_taken h = hp_released h + card (dom (hp_maps h))"
    and "\<And>c. c \<in> U \<Longrightarrow> hp_ctrls h c \<noteq> None"
  shows "dma_inv U h"
  unfolding dma_inv_def using assms by blast

text \<open>No count is at its limit.\<close>

definition room :: "dma_heap \<Rightarrow> bool" where
  "room h \<longleftrightarrow> (\<forall>c ct. hp_ctrls h c = Some ct \<longrightarrow> ct_count ct \<noteq> - 1) \<and> (\<forall>m md. hp_maps h m = Some md \<longrightarrow> mp_count md \<noteq> - 1)"

lemma unat_Suc: "x \<noteq> - 1 \<Longrightarrow> unat (x + 1) = Suc (unat x) \<and> x + 1 \<noteq> 0" for x :: u32
proof -
  assume "x \<noteq> - 1"
  then have n: "x + 1 \<noteq> 0" by (metis add_eq_0_iff2)
  have "unat x + 1 \<noteq> 2 ^ 32"
  proof
    assume "unat x + 1 = 2 ^ 32"
    then have "(of_nat (unat x + 1) :: u32) = of_nat (2 ^ 32)" by (rule arg_cong)
    then show False using n by simp
  qed
  then have "unat x + 1 < 2 ^ LENGTH(32)" using unsigned_less [of x, where 'a = nat] by simp
  then show ?thesis using n by (simp add: unat_inc)
qed

lemma unat_pred: "x \<noteq> 0 \<Longrightarrow> unat (x - 1) = unat x - 1" for x :: u32
  by (metis One_nat_def Suc_leI bot_nat_0.not_eq_extremum unat_1 unat_eq_0 unat_sub_le word_le_nat_alt)

subsection \<open>Sets of references\<close>

lemma conts_in_subset: "conts_in C m \<subseteq> dom C" and maps_in_subset: "maps_in M c \<subseteq> dom M"
  by (auto simp: conts_in_def maps_in_def)

lemma conts_in_add: "C k = None \<Longrightarrow> conts_in (C(k \<mapsto> cn)) m = (if cn_map cn = m then insert k (conts_in C m) else conts_in C m)"
  and conts_in_del: "conts_in (C(k := None)) m = conts_in C m - {k}"
  and conts_in_fresh: "C k = None \<Longrightarrow> k \<notin> conts_in C m"
  by (auto simp: conts_in_def)

lemma maps_in_add: "M m = None \<Longrightarrow> maps_in (M(m \<mapsto> md)) c = (if mp_ctrl md = c then insert m (maps_in M c) else maps_in M c)"
  and maps_in_del: "maps_in (M(m := None)) c = maps_in M c - {m}"
  and maps_in_fresh: "M m = None \<Longrightarrow> m \<notin> maps_in M c"
  and maps_in_upd: "M m = Some md \<Longrightarrow> mp_ctrl md' = mp_ctrl md \<Longrightarrow> maps_in (M(m \<mapsto> md')) c = maps_in M c"
  by (auto simp: maps_in_def)

lemma dma_invD:
  assumes "dma_inv U h"
  shows "finite (conts_in (hp_conts h) m)" "finite (maps_in (hp_maps h) c)"
    "hp_conts h k = Some cn \<Longrightarrow> \<exists>md. hp_maps h (cn_map cn) = Some md"
    "hp_maps h m = Some md \<Longrightarrow> mp_va md \<noteq> None \<and> unat (mp_count md) = card (conts_in (hp_conts h) m) \<and> mp_count md \<noteq> 0"
    "hp_maps h m = Some md \<Longrightarrow> \<exists>ct. hp_ctrls h (mp_ctrl md) = Some ct"
    "hp_ctrls h c = Some ct \<Longrightarrow> unat (ct_count ct) = card (maps_in (hp_maps h) c) + of_bool (c \<in> U) \<and> ct_count ct \<noteq> 0"
  using assms finite_subset [OF conts_in_subset] finite_subset [OF maps_in_subset] by (auto simp: dma_inv_def)

subsection \<open>Failures leave the heap as it was\<close>

lemma ctrl_get_put:
  assumes "heap_ctrl_get h c = Some h1" and "\<And>ct. hp_ctrls h c = Some ct \<Longrightarrow> ct_count ct \<noteq> 0"
  shows "heap_ctrl_put h1 c = h"
proof -
  obtain ct where ct: "hp_ctrls h c = Some ct" and h1: "h1 = h\<lparr>hp_ctrls := (hp_ctrls h)(c \<mapsto> ct\<lparr>ct_count := ct_count ct + 1\<rparr>)\<rparr>"
    using assms(1) by (auto simp: heap_ctrl_get_def split: option.splits)
  have "ct_count ct \<noteq> 0" by (rule assms(2) [OF ct])
  then show ?thesis using ct by (simp add: h1 heap_ctrl_put_def Let_def map_upd_triv)
qed

lemma create_map_remove:
  assumes inv: "dma_inv U h" and c: "create_map h (Some m) c va = (h1, Inr m)" and f: "hp_maps h m = None"
  shows "remove_map h1 m = h"
proof -
  obtain h0 where g: "heap_ctrl_get h c = Some h0"
    and h1: "h1 = h0\<lparr>hp_maps := (hp_maps h0)(m \<mapsto> \<lparr>mp_count = 1, mp_ctrl = c, mp_va = Some va, mp_unmap = False\<rparr>)\<rparr>"
    using c by (auto simp: create_map_def split: option.splits)
  have h0: "hp_maps h0 = hp_maps h" using g by (auto simp: heap_ctrl_get_def split: option.splits)
  have p: "heap_ctrl_put h0 c = h" using ctrl_get_put [OF g] dma_invD(6) [OF inv] by blast
  have q: "heap_ctrl_put (h'\<lparr>hp_maps := M\<rparr>) c = (heap_ctrl_put h' c)\<lparr>hp_maps := M\<rparr>" for h' M
    by (simp add: heap_ctrl_put_def Let_def split: option.splits)
  show ?thesis using p f by (simp add: h1 remove_map_def q h0 fun_upd_idem)
qed

text \<open>
  A new descriptor with its first container: what \<open>nvm_dma_init\<close> and \<open>nvm_dma_map\<close> do when they
  succeed, up to the content of handle and descriptor.
\<close>

definition mapped_heap :: "dma_heap \<Rightarrow> nat \<Rightarrow> controller \<Rightarrow> nat \<Rightarrow> nat \<Rightarrow> bool \<Rightarrow> va_range \<Rightarrow> nvm_dma_t \<Rightarrow> dma_heap" where
  "mapped_heap h c ct m k um va dh = h\<lparr>hp_ctrls := (hp_ctrls h)(c \<mapsto> ct\<lparr>ct_count := ct_count ct + 1\<rparr>),
     hp_maps := (hp_maps h)(m \<mapsto> \<lparr>mp_count = 1, mp_ctrl = c, mp_va = Some va, mp_unmap = um\<rparr>),
     hp_conts := (hp_conts h)(k \<mapsto> \<lparr>cn_map = m, cn_handle = dh\<rparr>), hp_taken := hp_taken h + 1\<rparr>"

lemma mapped_heap_inv:
  assumes inv: "dma_inv U h" and rm: "room h" and c: "hp_ctrls h c = Some ct" and m: "hp_maps h m = None" and k: "hp_conts h k = None"
  shows "dma_inv U (mapped_heap h c ct m k um va dh)"
proof -
  let ?h = "mapped_heap h c ct m k um va dh" and ?md = "\<lparr>mp_count = 1, mp_ctrl = c, mp_va = Some va, mp_unmap = um\<rparr>"
  note D = dma_invD [OF inv]
  have empty: "conts_in (hp_conts h) m = {}" using D(3) m by (fastforce simp: conts_in_def)
  have ci: "conts_in (hp_conts ?h) m' = (if m' = m then {k} else conts_in (hp_conts h) m')" for m'
    using empty by (simp add: mapped_heap_def conts_in_add [of "hp_conts h" k, OF k])
  have mi: "maps_in (hp_maps ?h) c' = (if c' = c then insert m (maps_in (hp_maps h) c') else maps_in (hp_maps h) c')" for c'
    by (auto simp: mapped_heap_def maps_in_add [of "hp_maps h" m, OF m])
  have cm: "card (maps_in (hp_maps ?h) c') = card (maps_in (hp_maps h) c') + of_bool (c' = c)" for c'
    using maps_in_fresh [of "hp_maps h" m, OF m] D(2) by (simp add: mi)
  have cnt: "unat (ct_count ct + 1) = Suc (unat (ct_count ct))" "ct_count ct + 1 \<noteq> 0"
    using unat_Suc [of "ct_count ct"] rm c by (auto simp: room_def)
  have hc: "hp_ctrls ?h = (hp_ctrls h)(c \<mapsto> ct\<lparr>ct_count := ct_count ct + 1\<rparr>)" by (simp add: mapped_heap_def)
  have "finite (dom (hp_maps ?h))" "finite (dom (hp_conts ?h))" using inv by (simp_all add: dma_inv_def mapped_heap_def)
  moreover have "hp_maps ?h (cn_map cn) \<noteq> None" if "hp_conts ?h k' = Some cn" for k' cn
    using that D(3) by (fastforce simp: mapped_heap_def split: if_splits)
  moreover have "mp_va md \<noteq> None \<and> unat (mp_count md) = card (conts_in (hp_conts ?h) m') \<and> mp_count md \<noteq> 0 \<and> hp_ctrls ?h (mp_ctrl md) \<noteq> None"
    if "hp_maps ?h m' = Some md" for m' md
  proof (cases "m' = m")
    case True
    then have "md = ?md" using that by (simp add: mapped_heap_def)
    then show ?thesis using True by (simp add: ci) (simp add: mapped_heap_def)
  next
    case False
    then have md: "hp_maps h m' = Some md" using that by (simp add: mapped_heap_def)
    then show ?thesis using False D(4,5) [OF md] by (auto simp: ci) (simp add: mapped_heap_def)
  qed
  moreover have "unat (ct_count ct') = card (maps_in (hp_maps ?h) c') + of_bool (c' \<in> U) \<and> ct_count ct' \<noteq> 0"
    if "hp_ctrls ?h c' = Some ct'" for c' ct'
    using that D(6) c cnt unfolding cm hc by (auto split: if_splits)
  moreover have "\<forall>c' \<in> U. hp_ctrls ?h c' \<noteq> None" using inv by (auto simp: dma_inv_def mapped_heap_def)
  moreover have "hp_taken ?h = hp_released ?h + card (dom (hp_maps ?h))"
    using inv m by (simp add: dma_inv_def mapped_heap_def domIff)
  ultimately show ?thesis unfolding dma_inv_def by blast
qed

lemma create_map_cases:
  assumes inv: "dma_inv U h" and c: "hp_ctrls h c = Some ct"
  shows "create_map h mem c va = (case mem of None \<Rightarrow> (h, Inl ENOMEM)
    | Some m \<Rightarrow> (h\<lparr>hp_ctrls := (hp_ctrls h)(c \<mapsto> ct\<lparr>ct_count := ct_count ct + 1\<rparr>),
        hp_maps := (hp_maps h)(m \<mapsto> \<lparr>mp_count = 1, mp_ctrl = c, mp_va = Some va, mp_unmap = False\<rparr>)\<rparr>, Inr m))"
proof -
  have g: "heap_ctrl_get h c = Some (h\<lparr>hp_ctrls := (hp_ctrls h)(c \<mapsto> ct\<lparr>ct_count := ct_count ct + 1\<rparr>)\<rparr>)"
    using c by (simp add: heap_ctrl_get_def)
  then show ?thesis using ctrl_get_put [OF g] dma_invD(6) [OF inv] by (simp add: create_map_def split: option.splits)
qed

text \<open>Both constructors of a handle either fail and leave the heap alone, or add one.\<close>

lemma nvm_dma_init_cases:
  assumes inv: "dma_inv U h" and c: "hp_ctrls h c = Some ct"
    and f: "\<And>m. mem_map = Some m \<Longrightarrow> hp_maps h m = None"
  shows "(\<exists>e. nvm_dma_init h rel mem_map mem_cont junk ca mapped c va = (h, Inl e)) \<or>
    (\<exists>m k um dh. mem_map = Some m \<and> mem_cont = Some k \<and>
       nvm_dma_init h rel mem_map mem_cont junk ca mapped c va = (mapped_heap h c ct m k um va dh, Inr k))"
proof (cases "rel \<and> mem_map \<noteq> None")
  case False
  then show ?thesis by (auto simp: nvm_dma_init_def create_map_cases [OF inv c])
next
  case True
  then obtain m where m: "mem_map = Some m" "rel" by blast
  let ?md = "\<lparr>mp_count = 1, mp_ctrl = c, mp_va = Some va, mp_unmap = False\<rparr>"
  let ?h1 = "h\<lparr>hp_ctrls := (hp_ctrls h)(c \<mapsto> ct\<lparr>ct_count := ct_count ct + 1\<rparr>), hp_maps := (hp_maps h)(m \<mapsto> ?md)\<rparr>"
  have cm: "create_map h (Some m) c va = (?h1, Inr m)" by (simp add: create_map_cases [OF inv c])
  have r: "remove_map ?h1 m = h" by (rule create_map_remove [OF inv cm f [OF m(1)]])
  show ?thesis
  proof (cases "create_container ?h1 mem_cont junk m")
    case (Inl e)
    then show ?thesis using m cm r by (auto simp: nvm_dma_init_def)
  next
    case (Inr cont)
    then obtain k dh where k: "mem_cont = Some k" "cont = \<lparr>cn_map = m, cn_handle = dh\<rparr>"
      by (auto simp: create_container_def split: if_splits)
    show ?thesis
    proof (cases "map_range (ct_ops ct) \<and> ca \<and> (\<exists>a. mapped = Inr a)")
      case True
      then show ?thesis using m cm Inr k
        by (auto simp: nvm_dma_init_def dma_map_def Let_def mapped_heap_def intro!: exI)
    next
      case False
      then have "\<exists>e. dma_map ?h1 ca mapped cont = (?h1, Inl e)"
        using k by (cases mapped) (auto simp: dma_map_def)
      then show ?thesis using m cm Inr r by (auto simp: nvm_dma_init_def)
    qed
  qed
qed

lemma nvm_dma_map_cases:
  assumes inv: "dma_inv U h" and c: "hp_ctrls h c = Some ct"
    and f: "\<And>m. mem_map = Some m \<Longrightarrow> hp_maps h m = None"
  shows "(\<exists>e. nvm_dma_map h va_ok mem_map mem_cont junk c vaddr ps n addrs = (h, Inl e)) \<or>
    (\<exists>m k va dh. mem_map = Some m \<and> mem_cont = Some k \<and>
       nvm_dma_map h va_ok mem_map mem_cont junk c vaddr ps n addrs = (mapped_heap h c ct m k False va dh, Inr k))"
proof (cases "addrs \<noteq> None \<and> va_ok \<and> mem_map \<noteq> None")
  case False
  then show ?thesis by (auto simp: nvm_dma_map_def create_map_cases [OF inv c] split: option.splits)
next
  case True
  then obtain m a where m: "mem_map = Some m" "addrs = Some a" "va_ok" by blast
  let ?va = "\<lparr>va_remote = False, va_vaddr = vaddr, va_page_size = ps, va_n_pages = n\<rparr>"
  let ?md = "\<lparr>mp_count = 1, mp_ctrl = c, mp_va = Some ?va, mp_unmap = False\<rparr>"
  let ?h1 = "h\<lparr>hp_ctrls := (hp_ctrls h)(c \<mapsto> ct\<lparr>ct_count := ct_count ct + 1\<rparr>), hp_maps := (hp_maps h)(m \<mapsto> ?md)\<rparr>"
  have cm: "create_map h (Some m) c ?va = (?h1, Inr m)" by (simp add: create_map_cases [OF inv c])
  have r: "remove_map ?h1 m = h" by (rule create_map_remove [OF inv cm f [OF m(1)]])
  show ?thesis
  proof (cases "create_container ?h1 mem_cont junk m")
    case (Inl e)
    then show ?thesis using m cm r by (auto simp: nvm_dma_map_def Let_def)
  next
    case (Inr cont)
    then obtain k dh where k: "mem_cont = Some k" "cont = \<lparr>cn_map = m, cn_handle = dh\<rparr>"
      by (auto simp: create_container_def split: if_splits)
    then show ?thesis using m cm Inr by (auto simp: nvm_dma_map_def Let_def mapped_heap_def intro!: exI)
  qed
qed

lemma nvm_dma_remap_cases:
  assumes inv: "dma_inv U h" and o: "hp_conts h k0 = Some oc"
  shows "(\<exists>e. nvm_dma_remap h mem_cont junk k0 = (h, Inl e)) \<or>
    (\<exists>k dh md. mem_cont = Some k \<and> hp_maps h (cn_map oc) = Some md \<and> nvm_dma_remap h mem_cont junk k0 =
      (h\<lparr>hp_maps := (hp_maps h)(cn_map oc \<mapsto> md\<lparr>mp_count := mp_count md + 1\<rparr>),
         hp_conts := (hp_conts h)(k \<mapsto> \<lparr>cn_map = cn_map oc, cn_handle = dh\<rparr>)\<rparr>, Inr k))"
proof -
  obtain md where md: "hp_maps h (cn_map oc) = Some md" using dma_invD(3) [OF inv o] by blast
  let ?h1 = "h\<lparr>hp_maps := (hp_maps h)(cn_map oc \<mapsto> md\<lparr>mp_count := mp_count md + 1\<rparr>)\<rparr>"
  have g: "get_map h (cn_map oc) = (?h1, None)" using md by (simp add: get_map_def)
  have p: "put_map ?h1 (cn_map oc) = h"
    using dma_invD(4) [OF inv md] md by (auto simp: put_map_def Let_def fun_upd_idem)
  show ?thesis
  proof (cases "create_container ?h1 mem_cont junk (cn_map oc)")
    case (Inl e)
    then show ?thesis using o g p by (simp add: nvm_dma_remap_def)
  next
    case (Inr cont)
    then obtain k dh where k: "mem_cont = Some k" "cont = \<lparr>cn_map = cn_map oc, cn_handle = dh\<rparr>"
      by (auto simp: create_container_def split: option.splits if_splits)
    then show ?thesis using o g Inr md by (simp add: nvm_dma_remap_def Let_def) (rule exI, rule refl)
  qed
qed

lemma remapped_inv:
  assumes inv: "dma_inv U h" and rm: "room h" and md: "hp_maps h m = Some md" and k: "hp_conts h k = None"
  shows "dma_inv U (h\<lparr>hp_maps := (hp_maps h)(m \<mapsto> md\<lparr>mp_count := mp_count md + 1\<rparr>),
     hp_conts := (hp_conts h)(k \<mapsto> \<lparr>cn_map = m, cn_handle = dh\<rparr>)\<rparr>)"
proof -
  note D = dma_invD [OF inv]
  let ?C = "(hp_conts h)(k \<mapsto> \<lparr>cn_map = m, cn_handle = dh\<rparr>)" and ?M = "(hp_maps h)(m \<mapsto> md\<lparr>mp_count := mp_count md + 1\<rparr>)"
  have ci: "card (conts_in ?C m') = card (conts_in (hp_conts h) m') + of_bool (m' = m)" for m'
    using D(1) conts_in_fresh [of "hp_conts h" k, OF k] by (simp add: conts_in_add [of "hp_conts h" k, OF k])
  have mi: "maps_in ?M c = maps_in (hp_maps h) c" for c by (rule maps_in_upd [of "hp_maps h" m, OF md]) simp
  have cnt: "unat (mp_count md + 1) = Suc (unat (mp_count md))" "mp_count md + 1 \<noteq> 0"
    using unat_Suc [of "mp_count md"] rm md by (auto simp: room_def)
  have "mp_va md' \<noteq> None \<and> unat (mp_count md') = card (conts_in ?C m') \<and> mp_count md' \<noteq> 0 \<and> hp_ctrls h (mp_ctrl md') \<noteq> None"
    if "?M m' = Some md'" for m' md'
    using that D(4,5) md cnt unfolding ci by (auto split: if_splits)
  moreover have "?M (cn_map cn) \<noteq> None" if "?C k' = Some cn" for k' cn
    using that D(3) by (fastforce split: if_splits)
  moreover have "insert m (dom (hp_maps h)) = dom (hp_maps h)" using md by blast
  ultimately show ?thesis using inv by (simp add: dma_inv_def mi)
qed

text \<open>Giving back a controller reference that no descriptor or user counts on any more.\<close>

lemma ctrl_put_inv:
  assumes c: "hp_ctrls h c = Some ct" and nz: "ct_count ct \<noteq> 0"
    and cnt: "unat (ct_count ct) = Suc (card (maps_in M c) + of_bool (c \<in> U))"
    and others: "\<And>c' ct'. c' \<noteq> c \<Longrightarrow> hp_ctrls h c' = Some ct' \<Longrightarrow> unat (ct_count ct') = card (maps_in M c') + of_bool (c' \<in> U) \<and> ct_count ct' \<noteq> 0"
    and hp: "hp_ctrls (heap_ctrl_put h c) c' = Some ct'"
  shows "unat (ct_count ct') = card (maps_in M c') + of_bool (c' \<in> U) \<and> ct_count ct' \<noteq> 0"
proof (cases "c' = c")
  case True
  then have "ct' = ct\<lparr>ct_count := ct_count ct - 1\<rparr>" "ct_count ct - 1 \<noteq> 0"
    using hp c by (auto simp: heap_ctrl_put_def Let_def split: if_splits)
  then show ?thesis using unat_pred [OF nz] cnt True by simp
next
  case False
  then show ?thesis using hp c others by (auto simp: heap_ctrl_put_def Let_def split: if_splits)
qed

lemma ctrl_put_keeps:
  assumes c: "hp_ctrls h c = Some ct" and "1 < unat (ct_count ct) \<or> c' \<noteq> c" and "hp_ctrls h c' \<noteq> None"
  shows "hp_ctrls (heap_ctrl_put h c) c' \<noteq> None"
proof -
  have "ct_count ct - 1 \<noteq> 0 \<or> c' \<noteq> c" using assms(2) by auto
  then show ?thesis using assms(1,3) by (auto simp: heap_ctrl_put_def Let_def)
qed

lemma unmap_last_inv:
  assumes inv: "dma_inv U h" and k: "hp_conts h k = Some cn" and m: "cn_map cn = m" and md: "hp_maps h m = Some md"
    and one: "card (conts_in (hp_conts h) m) = 1"
  shows "nvm_dma_unmap h k = (heap_ctrl_put h (mp_ctrl md))\<lparr>hp_maps := (hp_maps h)(m := None), hp_conts := (hp_conts h)(k := None),
      hp_released := hp_released h + 1, hp_unmapped := hp_unmapped h + of_bool (mp_unmap md)\<rparr>" (is "_ = ?h'")
    and "dma_inv U (nvm_dma_unmap h k)"
proof -
  note D = dma_invD [OF inv]
  have one': "conts_in (hp_conts h) m = {k}" using one k m by (metis (mono_tags, lifting) card_1_singletonE conts_in_def mem_Collect_eq singletonD)
  have "unat (mp_count md) = 1" using D(4) [OF md] one by simp
  then have c1: "mp_count md = 1" by (metis unat_1 word_unat_eq_iff)
  have hc: "hp_conts (heap_ctrl_put h c) = hp_conts h" "hp_taken (heap_ctrl_put h c) = hp_taken h" for c
    by (simp_all add: heap_ctrl_put_def Let_def split: option.splits)
  obtain ct where ct: "hp_ctrls h (mp_ctrl md) = Some ct" using D(5) [OF md] by blast
  show eq: "nvm_dma_unmap h k = ?h'"
    using k m md c1 ct by (intro dma_heap.equality) (simp_all add: nvm_dma_unmap_def put_map_def remove_map_def heap_ctrl_put_def Let_def)
  let ?M = "(hp_maps h)(m := None)" and ?C = "(hp_conts h)(k := None)" and ?c = "mp_ctrl md"
  have mi: "card (maps_in (hp_maps h) c) = card (maps_in ?M c) + of_bool (c = ?c)" for c
  proof -
    have "m \<in> maps_in (hp_maps h) c \<longleftrightarrow> c = ?c" using md by (auto simp: maps_in_def)
    then show ?thesis using D(2) [of c] card_Suc_Diff1 [of "maps_in (hp_maps h) c" m] by (auto simp: maps_in_del)
  qed
  have cts: "unat (ct_count ct') = card (maps_in ?M c') + of_bool (c' \<in> U) \<and> ct_count ct' \<noteq> 0" if "hp_ctrls ?h' c' = Some ct'" for c' ct'
  proof -
    have u: "unat (ct_count ct) = Suc (card (maps_in ?M ?c) + of_bool (?c \<in> U))" "ct_count ct \<noteq> 0" using D(6) [OF ct] mi [of ?c] by simp_all
    have oth: "unat (ct_count x) = card (maps_in ?M y) + of_bool (y \<in> U) \<and> ct_count x \<noteq> 0"
      if "y \<noteq> ?c" "hp_ctrls h y = Some x" for x y using D(6) [OF that(2)] mi [of y] that(1) by simp
    have "hp_ctrls (heap_ctrl_put h ?c) c' = Some ct'" using that by simp
    then show ?thesis by (intro ctrl_put_inv [OF ct u(2,1) oth]) simp_all
  qed
  have live: "hp_ctrls ?h' c \<noteq> None" if "c \<in> U \<or> (\<exists>m' md'. ?M m' = Some md' \<and> mp_ctrl md' = c)" for c
  proof -
    have l: "hp_ctrls h c \<noteq> None" using that inv D(5) by (fastforce simp: dma_inv_def split: if_splits)
    have "1 < unat (ct_count ct) \<or> c \<noteq> ?c"
    proof (cases "c = ?c")
      case True
      then have "c \<in> U \<or> maps_in ?M ?c \<noteq> {}" using that by (auto simp: maps_in_def)
      then have "c \<in> U \<or> 0 < card (maps_in ?M ?c)" using D(2) [of ?c] by (auto simp: maps_in_del card_gt_0_iff)
      then show ?thesis using D(6) [OF ct] mi [of ?c] True by auto
    qed simp
    then show ?thesis using ctrl_put_keeps [OF ct _ l] by simp
  qed
  have ci: "conts_in ?C m' = conts_in (hp_conts h) m'" if "m' \<noteq> m" for m'
    using that k m by (auto simp: conts_in_def)
  have maps: "mp_va x \<noteq> None \<and> unat (mp_count x) = card (conts_in ?C m') \<and> mp_count x \<noteq> 0" if "?M m' = Some x" for m' x
    using that D(4) [of m' x] ci [of m'] by (auto split: if_splits)
  have cont: "?M (cn_map x) \<noteq> None" if "?C k' = Some x" for k' x
  proof -
    have x: "hp_conts h k' = Some x" "k' \<noteq> k" using that by (auto split: if_splits)
    then have "cn_map x \<noteq> m" using one' by (auto simp: conts_in_def)
    then show ?thesis using D(3) [OF x(1)] by auto
  qed
  have "card (dom (hp_maps h)) = Suc (card (dom ?M))"
    using inv md card_Suc_Diff1 [of "dom (hp_maps h)" m] by (simp add: dma_inv_def domI)
  then have "hp_taken h = hp_released h + 1 + card (dom ?M)" using inv by (simp add: dma_inv_def)
  moreover have F: "hp_maps ?h' = ?M" "hp_conts ?h' = ?C" "hp_taken ?h' = hp_taken h" "hp_released ?h' = hp_released h + 1"
    using hc by simp_all
  ultimately have taken: "hp_taken ?h' = hp_released ?h' + card (dom (hp_maps ?h'))" by simp
  have fin: "finite (dom (hp_maps ?h'))" "finite (dom (hp_conts ?h'))" using inv unfolding F by (simp_all add: dma_inv_def)
  have "dma_inv U ?h'"
  proof (rule dma_invI [OF fin _ _ _ taken])
    fix k' x assume "hp_conts ?h' k' = Some x"
    then show "hp_maps ?h' (cn_map x) \<noteq> None" unfolding F by (rule cont)
  next
    fix m' x assume x: "hp_maps ?h' m' = Some x"
    show "mp_va x \<noteq> None \<and> unat (mp_count x) = card (conts_in (hp_conts ?h') m') \<and> mp_count x \<noteq> 0 \<and> hp_ctrls ?h' (mp_ctrl x) \<noteq> None"
      using maps [of m' x] live [of "mp_ctrl x"] x unfolding F by blast
  next
    fix c' x assume "hp_ctrls ?h' c' = Some x"
    then show "unat (ct_count x) = card (maps_in (hp_maps ?h') c') + of_bool (c' \<in> U) \<and> ct_count x \<noteq> 0" unfolding F by (rule cts)
  qed (use live in blast)
  then show "dma_inv U (nvm_dma_unmap h k)" unfolding eq .
qed

lemma unmap_more_inv:
  assumes inv: "dma_inv U h" and k: "hp_conts h k = Some cn" and m: "cn_map cn = m" and md: "hp_maps h m = Some md"
    and more: "card (conts_in (hp_conts h) m) \<noteq> 1"
  shows "nvm_dma_unmap h k = h\<lparr>hp_maps := (hp_maps h)(m \<mapsto> md\<lparr>mp_count := mp_count md - 1\<rparr>), hp_conts := (hp_conts h)(k := None)\<rparr>"
    and "dma_inv U (nvm_dma_unmap h k)"
proof -
  note D = dma_invD [OF inv]
  let ?M = "(hp_maps h)(m \<mapsto> md\<lparr>mp_count := mp_count md - 1\<rparr>)" and ?C = "(hp_conts h)(k := None)"
  note c = D(4) [OF md]
  have p: "unat (mp_count md - 1) = unat (mp_count md) - 1" using unat_pred c by blast
  have nz: "mp_count md - 1 \<noteq> 0"
  proof
    assume "mp_count md - 1 = 0"
    then have "mp_count md = 1" by simp
    then show False using c more by simp
  qed
  show eq: "nvm_dma_unmap h k = h\<lparr>hp_maps := ?M, hp_conts := ?C\<rparr>"
    using k m md nz c by (auto simp: nvm_dma_unmap_def put_map_def Let_def)
  have ki: "k \<in> conts_in (hp_conts h) m' \<longleftrightarrow> m' = m" for m' using k m by (auto simp: conts_in_def)
  then have ci: "card (conts_in (hp_conts h) m') = card (conts_in ?C m') + of_bool (m' = m)" for m'
    using D(1) [of m'] card_Suc_Diff1 [of "conts_in (hp_conts h) m'" k] by (auto simp: conts_in_del)
  have mi: "maps_in ?M c = maps_in (hp_maps h) c" for c by (rule maps_in_upd [of "hp_maps h" m, OF md]) simp
  have "mp_va x \<noteq> None \<and> unat (mp_count x) = card (conts_in ?C m') \<and> mp_count x \<noteq> 0 \<and> hp_ctrls h (mp_ctrl x) \<noteq> None"
    if "?M m' = Some x" for m' x
  proof (cases "m' = m")
    case True
    then show ?thesis using that c p nz ci [of m] D(5) [OF md] by auto
  next
    case False
    then show ?thesis using that D(4,5) [of m' x] ci [of m'] by auto
  qed
  moreover have "?M (cn_map x) \<noteq> None" if "?C k' = Some x" for k' x
    using that D(3) by (fastforce split: if_splits)
  moreover have "insert m (dom (hp_maps h)) = dom (hp_maps h)" using md by blast
  ultimately have "dma_inv U (h\<lparr>hp_maps := ?M, hp_conts := ?C\<rparr>)" using inv by (simp add: dma_inv_def mi)
  then show "dma_inv U (nvm_dma_unmap h k)" unfolding eq .
qed

lemma ctrl_free_inv:
  assumes inv: "dma_inv U h" and u: "c \<in> U"
  shows "dma_inv (U - {c}) (nvm_ctrl_free h c)"
proof -
  note D = dma_invD [OF inv]
  obtain ct where ct: "hp_ctrls h c = Some ct" using inv u by (auto simp: dma_inv_def)
  have f: "hp_maps (heap_ctrl_put h c) = hp_maps h" "hp_conts (heap_ctrl_put h c) = hp_conts h"
      "hp_taken (heap_ctrl_put h c) = hp_taken h" "hp_released (heap_ctrl_put h c) = hp_released h"
    by (simp_all add: heap_ctrl_put_def Let_def split: option.splits)
  have n: "unat (ct_count ct) = Suc (card (maps_in (hp_maps h) c))" using D(6) [OF ct] u by simp
  have cts: "unat (ct_count x) = card (maps_in (hp_maps h) c') + of_bool (c' \<in> U - {c}) \<and> ct_count x \<noteq> 0"
    if "hp_ctrls (heap_ctrl_put h c) c' = Some x" for c' x
    using D(6) [OF ct] n D(6) by (intro ctrl_put_inv [OF ct _ _ _ that]) auto
  have live: "hp_ctrls (heap_ctrl_put h c) c' \<noteq> None" if "c' \<in> U - {c} \<or> (\<exists>m md. hp_maps h m = Some md \<and> mp_ctrl md = c')" for c'
  proof (rule ctrl_put_keeps [OF ct])
    show "hp_ctrls h c' \<noteq> None" using that inv D(5) by (fastforce simp: dma_inv_def)
    show "1 < unat (ct_count ct) \<or> c' \<noteq> c"
    proof (cases "c' = c")
      case True
      then have "maps_in (hp_maps h) c \<noteq> {}" using that by (auto simp: maps_in_def)
      then show ?thesis using D(2) [of c] n by (simp add: card_gt_0_iff)
    qed simp
  qed
  show ?thesis
    unfolding dma_inv_def nvm_ctrl_free_def f using inv cts live by (simp add: dma_inv_def) blast
qed

section \<open>Runs\<close>

text \<open>
  The calls that a program with handles makes: it maps for a live controller, allocations give fresh
  addresses, it remaps and unmaps live handles and frees a controller handle once.
\<close>

definition fresh :: "dma_heap \<Rightarrow> nat option \<Rightarrow> nat option \<Rightarrow> bool" where
  "fresh h mem_map mem_cont \<longleftrightarrow> (\<forall>m. mem_map = Some m \<longrightarrow> hp_maps h m = None) \<and> (\<forall>k. mem_cont = Some k \<longrightarrow> hp_conts h k = None)"

inductive dma_step :: "nat set \<times> dma_heap \<Rightarrow> nat set \<times> dma_heap \<Rightarrow> bool" where
  step_init: "\<lbrakk>hp_ctrls h c \<noteq> None; fresh h mm mc; room h\<rbrakk> \<Longrightarrow>
     dma_step (U, h) (U, fst (nvm_dma_init h rel mm mc junk ca mapped c va))"
| step_map: "\<lbrakk>hp_ctrls h c \<noteq> None; fresh h mm mc; room h\<rbrakk> \<Longrightarrow>
     dma_step (U, h) (U, fst (nvm_dma_map h va_ok mm mc junk c vaddr ps n addrs))"
| step_map_host: "\<lbrakk>hp_ctrls h c \<noteq> None; fresh h mm mc; room h\<rbrakk> \<Longrightarrow>
     dma_step (U, h) (U, fst (nvm_dma_map_host h md_ok mm mc junk ca mapped c vaddr sz))"
| step_map_device: "\<lbrakk>hp_ctrls h c \<noteq> None; fresh h mm mc; room h\<rbrakk> \<Longrightarrow>
     dma_step (U, h) (U, fst (nvm_dma_map_device h md_ok mm mc junk ca mapped c vaddr sz))"
| step_create: "\<lbrakk>hp_ctrls h c \<noteq> None; fresh h mm mc; room h\<rbrakk> \<Longrightarrow>
     dma_step (U, h) (U, fst (nvm_dma_create h memalign md_ok mm mc junk ca mapped c sz))"
| step_remap: "\<lbrakk>hp_conts h k \<noteq> None; fresh h None mc; room h\<rbrakk> \<Longrightarrow>
     dma_step (U, h) (U, fst (nvm_dma_remap h mc junk k))"
| step_unmap: "hp_conts h k \<noteq> None \<Longrightarrow> dma_step (U, h) (U, nvm_dma_unmap h k)"
| step_free: "c \<in> U \<Longrightarrow> dma_step (U, h) (U - {c}, nvm_ctrl_free h c)"

lemma init_inv:
  assumes inv: "dma_inv U h" and c: "hp_ctrls h c \<noteq> None" and f: "fresh h mm mc" and r: "room h"
  shows "dma_inv U (fst (nvm_dma_init h rel mm mc junk ca mapped c va))"
proof -
  obtain ct where ct: "hp_ctrls h c = Some ct" using c by blast
  show ?thesis
    using nvm_dma_init_cases [OF inv ct, of mm rel mc junk ca mapped va] f mapped_heap_inv [OF inv r ct] inv by (auto simp: fresh_def)
qed

lemma unmap_inv: "dma_inv U h \<Longrightarrow> hp_conts h k \<noteq> None \<Longrightarrow> dma_inv U (nvm_dma_unmap h k)"
proof -
  assume inv: "dma_inv U h" and "hp_conts h k \<noteq> None"
  then obtain cn md where k: "hp_conts h k = Some cn" and md: "hp_maps h (cn_map cn) = Some md" using dma_invD(3) by blast
  show ?thesis using unmap_last_inv(2) [OF inv k refl md] unmap_more_inv(2) [OF inv k refl md] by blast
qed

lemma dma_step_inv:
  assumes "dma_step (U, h) (U', h')" and inv: "dma_inv U h"
  shows "dma_inv U' h'"
  using assms(1)
proof (cases rule: dma_step.cases)
  case step_init
  then show ?thesis using init_inv [OF inv] by simp
next
  case (step_map c mm mc va_ok junk vaddr ps n addrs)
  then obtain ct where ct: "hp_ctrls h c = Some ct" by blast
  show ?thesis using step_map nvm_dma_map_cases [OF inv ct, of mm va_ok mc junk vaddr ps n addrs] mapped_heap_inv [OF inv step_map(5) ct] inv
    by (auto simp: fresh_def)
next
  case step_map_host
  then show ?thesis using init_inv [OF inv] inv by (simp add: nvm_dma_map_host_def Let_def split: sum.splits)
next
  case step_map_device
  then show ?thesis using init_inv [OF inv] inv by (simp add: nvm_dma_map_device_def split: sum.splits)
next
  case step_create
  then show ?thesis using init_inv [OF inv] inv by (simp add: nvm_dma_create_def Let_def split: sum.splits)
next
  case (step_remap k mc junk)
  then obtain oc where oc: "hp_conts h k = Some oc" by blast
  show ?thesis using step_remap nvm_dma_remap_cases [OF inv oc, of mc junk] remapped_inv [OF inv step_remap(5)] inv by (auto simp: fresh_def)
next
  case step_unmap
  then show ?thesis using unmap_inv [OF inv] by simp
next
  case step_free
  then show ?thesis using ctrl_free_inv [OF inv] by simp
qed

lemma dma_steps_inv: "dma_step\<^sup>*\<^sup>* s s' \<Longrightarrow> dma_inv (fst s) (snd s) \<Longrightarrow> dma_inv (fst s') (snd s')"
  by (induction rule: rtranclp_induct) (auto simp: dma_step_inv)

section \<open>Concurrent releases\<close>

text \<open>
  \<open>put_map\<close> by several threads: the critical section is one step, the test of \<open>md->va\<close> after it
  another, as in the model of \<open>_nvm_ctrl_put\<close>.  \<open>mr_leaving\<close> is the number of calls between the two.
\<close>

record map_refs =
  mr_count :: u32
  mr_va :: bool
  mr_released :: nat
  mr_removed :: nat
  mr_leaving :: nat

definition put_map_locked :: "map_refs \<Rightarrow> map_refs" where
  "put_map_locked s =
     (let count = mr_count s - 1;
          s1 = s\<lparr>mr_count := count\<rparr>;
          s2 = (if count = 0 then s1\<lparr>mr_released := mr_released s1 + 1, mr_va := False\<rparr> else s1)
      in s2\<lparr>mr_leaving := mr_leaving s2 + 1\<rparr>)"

definition put_map_leave :: "map_refs \<Rightarrow> map_refs" where
  "put_map_leave s =
     (let s1 = s\<lparr>mr_leaving := mr_leaving s - 1\<rparr>
      in if \<not> mr_va s1 then s1\<lparr>mr_removed := mr_removed s1 + 1\<rparr> else s1)"

inductive map_step :: "map_refs \<Rightarrow> map_refs \<Rightarrow> bool" where
  map_put: "0 < mr_count s \<Longrightarrow> map_step s (put_map_locked s)"
| map_leave: "0 < mr_leaving s \<Longrightarrow> map_step s (put_map_leave s)"

section \<open>Lemmas: bus addresses\<close>

lemma div_mult_same:
  assumes "0 < (c::nat)" and "p = c * q"
  shows "(o' div c * c) div p = o' div p" "(o' div c * c) mod p + o' mod c = o' mod p"
proof -
  show "(o' div c * c) div p = o' div p" using assms by (simp add: div_mult2_eq)
  have "(o' div c * c) mod p = c * (o' div c mod q)" using assms by (simp add: mult.commute mod_mult2_eq)
  then show "(o' div c * c) mod p + o' mod c = o' mod p" using assms(2) by (simp add: mod_mult2_eq)
qed

lemma ctrl_page_addr_eq:
  assumes "0 < unat c" and "unat p = unat c * q" and "o' < 2 ^ 64"
  shows "ctrl_page_addr c p a (o' div unat c) + of_nat (o' mod unat c) = a ! (o' div unat p) + of_nat (o' mod unat p)"
proof -
  have le: "o' div unat c * unat c \<le> o'" by simp
  then have off: "unat (of_nat (o' div unat c) * c) = o' div unat c * unat c"
  proof -
    have i: "unat (of_nat (o' div unat c) :: u64) = o' div unat c"
      using le_less_trans [OF div_le_dividend [of o' "unat c"] assms(3)] by (simp add: unat_of_nat)
    then show ?thesis using le_less_trans [OF le assms(3)] unat_mult_lem [of "of_nat (o' div unat c) :: u64" c] by simp
  qed
  note d = div_mult_same [OF assms(1,2)]
  have m: "(of_nat (o' div unat c) * c) mod p = of_nat (o' div unat c * unat c mod unat p)"
  proof -
    have "of_nat (unat ((of_nat (o' div unat c) * c) mod p)) = (of_nat (o' div unat c) * c) mod p" by simp
    then show ?thesis unfolding unat_mod_distrib off by simp
  qed
  have "ctrl_page_addr c p a (o' div unat c) = a ! (o' div unat p) + of_nat (o' div unat c * unat c mod unat p)"
    by (simp add: ctrl_page_addr_def m unat_div_distrib off d(1))
  moreover have "(of_nat (o' div unat c * unat c mod unat p) + of_nat (o' mod unat c) :: u64) = of_nat (o' mod unat p)"
    using d(2) by (metis of_nat_add)
  ultimately show ?thesis by (simp add: add.assoc)
qed

lemma contiguous_addrs:
  assumes "list_all (\<lambda>i. i = 0 \<or> xs ! (i - 1) + c = xs ! i) [0..<length xs]" and "i < length xs"
  shows "xs ! i = xs ! 0 + of_nat i * (c :: u64)"
  using assms(2)
proof (induction i)
  case (Suc i)
  then have "xs ! i + c = xs ! Suc i" using assms(1) by (force simp: list_all_iff)
  then show ?case using Suc by (simp add: algebra_simps)
qed simp

section \<open>Properties\<close>

text \<open>C21: A DMA handle and the list of pages it was made from describe the same memory.  For a host page
  size that is a multiple of the controller's and a range below \<open>2 ^ 64\<close> bytes, \<open>populate_handle\<close> lists one bus address per controller
  page of the range, and every byte of the range has the same bus address through the handle as
  through the original pages; a handle marked contiguous is one block of bus addresses.  (For smaller host pages,
  which \<open>create_container\<close> also accepts, \<open>populate_handle_small_pages\<close> shows that this fails.)\<close>

theorem populate_handle_translates:
  assumes "0 < unat cps" and "unat cps dvd unat (va_page_size va)"
    and "unat (va_page_size va) * unat (va_n_pages va) < 2 ^ 64"
  shows "let d = populate_handle dh va cps ioaddrs; total = unat (va_page_size va) * unat (va_n_pages va) in
    length (dma_ioaddrs d) = total div unat cps \<and>
    (\<forall>off < total. off div unat cps < length (dma_ioaddrs d) \<and>
       dma_ioaddrs d ! (off div unat cps) + of_nat (off mod unat cps) =
       ioaddrs ! (off div unat (va_page_size va)) + of_nat (off mod unat (va_page_size va))) \<and>
    (dma_contiguous d \<longrightarrow> (\<forall>i < length (dma_ioaddrs d). dma_ioaddrs d ! i = dma_ioaddrs d ! 0 + of_nat i * cps))"
proof -
  let ?p = "va_page_size va" and ?d = "populate_handle dh va cps ioaddrs"
  let ?t = "unat ?p * unat (va_n_pages va)"
  have "unat (?p * va_n_pages va) = ?t" using assms(3) unat_mult_lem [of ?p "va_n_pages va"] by simp
  then have n: "unat (n_ctrl_pages cps ?p (va_n_pages va)) = ?t div unat cps" by (simp add: n_ctrl_pages_def unat_div_distrib)
  have l: "length (dma_ioaddrs ?d) = ?t div unat cps" by (simp add: populate_handle_def Let_def n)
  obtain q where q: "unat ?p = unat cps * q" using assms(2) by (rule dvdE)
  have byte: "off div unat cps < ?t div unat cps \<and> dma_ioaddrs ?d ! (off div unat cps) + of_nat (off mod unat cps) =
       ioaddrs ! (off div unat ?p) + of_nat (off mod unat ?p)" if o: "off < ?t" for off
  proof -
    have "off < unat cps * (q * unat (va_n_pages va))" using o q by (simp add: mult.assoc)
    then have i: "off div unat cps < ?t div unat cps"
      using assms(1) q by (simp add: mult.assoc less_mult_imp_div_less mult.commute [of "unat cps"])
    then have "dma_ioaddrs ?d ! (off div unat cps) = ctrl_page_addr cps ?p ioaddrs (off div unat cps)"
      by (simp add: populate_handle_def Let_def n)
    moreover have "off < 2 ^ 64" using o assms(3) by linarith
    ultimately show ?thesis using i ctrl_page_addr_eq [OF assms(1) q] by simp
  qed
  have cont: "dma_ioaddrs ?d ! i = dma_ioaddrs ?d ! 0 + of_nat i * cps" if "dma_contiguous ?d" "i < length (dma_ioaddrs ?d)" for i
    using contiguous_addrs [OF _ that(2), of cps] that(1) by (simp add: populate_handle_def Let_def)
  show ?thesis unfolding Let_def using l byte cont by (metis (no_types, lifting))
qed

theorem populate_handle_translates_witness:
  "let d = populate_handle \<lparr>dma_vaddr = 0, dma_local = True, dma_contiguous = True, dma_page_size = 0, dma_ioaddrs = []\<rparr>
       \<lparr>va_remote = False, va_vaddr = 0, va_page_size = 0x10000, va_n_pages = 2\<rparr> 0x1000 [0xA0000, 0x50000] in
   length (dma_ioaddrs d) = 32 \<and> dma_ioaddrs d ! 17 + 5 = 0x51005"
proof -
  let ?va = "\<lparr>va_remote = False, va_vaddr = 0, va_page_size = 0x10000, va_n_pages = 2\<rparr>"
  let ?dh = "\<lparr>dma_vaddr = 0, dma_local = True, dma_contiguous = True, dma_page_size = 0, dma_ioaddrs = []\<rparr>"
  let ?d = "populate_handle ?dh ?va 0x1000 [0xA0000, 0x50000]"
  have h: "0 < unat (0x1000 :: u64)" "unat (0x1000 :: u64) dvd unat (va_page_size ?va)"
      "unat (va_page_size ?va) * unat (va_n_pages ?va) < 2 ^ 64" by simp_all
  note t = populate_handle_translates [OF h, where dh = ?dh and ioaddrs = "[0xA0000, 0x50000]", unfolded Let_def]
  have "length (dma_ioaddrs ?d) = 32" using conjunct1 [OF t] by (simp del: upt_Suc)
  moreover have "dma_ioaddrs ?d ! (0x11005 div 0x1000) + of_nat (0x11005 mod 0x1000) = [0xA0000, 0x50000] ! (0x11005 div 0x10000) + of_nat (0x11005 mod 0x10000)"
    using conjunct1 [OF conjunct2 [OF t], rule_format, of "0x11005"] by simp
  ultimately show ?thesis by (simp add: Let_def)
qed

text \<open>
  For host pages smaller than the controller's, which \<open>create_container\<close> accepts as long as the total
  is a multiple, the handle is wrong: the second of two scattered host pages is looked for behind the
  first one.
\<close>

lemma populate_handle_small_pages:
  "let d = populate_handle \<lparr>dma_vaddr = 0, dma_local = True, dma_contiguous = True, dma_page_size = 0, dma_ioaddrs = []\<rparr>
       \<lparr>va_remote = False, va_vaddr = 0, va_page_size = 0x1000, va_n_pages = 2\<rparr> 0x2000 [0x10000, 0x90000] in
   dma_ioaddrs d = [0x10000] \<and> dma_contiguous d \<and> (0x1000 * 2) mod (0x2000 :: u64) = 0 \<and>
   dma_ioaddrs d ! (0x1000 div 0x2000) + of_nat (0x1000 mod 0x2000) = 0x11000"
  by (simp add: populate_handle_def n_ctrl_pages_def ctrl_page_addr_def Let_def)

text \<open>C20: Every reference is counted.  Starting from controllers that only their users hold, whatever
  handles are created (from bus addresses, host or device memory), remapped and unmapped and whatever
  allocations, device mappings and size checks fail on the way, a descriptor lives exactly as long as
  some handle refers to it and its count is the number of these handles; a controller lives as long as
  a descriptor or its user refers to it; and every address range taken over has been released exactly
  once if its descriptor is gone, and not otherwise.\<close>

theorem dma_refs_counted:
  assumes "hp_maps h0 = Map.empty" and "hp_conts h0 = Map.empty" and "hp_taken h0 = hp_released h0"
    and "\<forall>c ct. hp_ctrls h0 c = Some ct \<longrightarrow> ct_count ct = 1" and "dma_step\<^sup>*\<^sup>* (dom (hp_ctrls h0), h0) (U, h)"
  shows "(\<forall>m md. hp_maps h m = Some md \<longrightarrow>
            unat (mp_count md) = card {k. \<exists>cn. hp_conts h k = Some cn \<and> cn_map cn = m} \<and> 0 < mp_count md \<and> mp_va md \<noteq> None) \<and>
    (\<forall>c ct. hp_ctrls h c = Some ct \<longrightarrow>
            unat (ct_count ct) = card {m. \<exists>md. hp_maps h m = Some md \<and> mp_ctrl md = c} + of_bool (c \<in> U) \<and> 0 < ct_count ct) \<and>
    (\<forall>k cn. hp_conts h k = Some cn \<longrightarrow> (\<exists>md ct. hp_maps h (cn_map cn) = Some md \<and> hp_ctrls h (mp_ctrl md) = Some ct)) \<and>
    hp_taken h = hp_released h + card (dom (hp_maps h))"
proof -
  have "dma_inv (dom (hp_ctrls h0)) h0" using assms(1-4) by (auto simp: dma_inv_def maps_in_def)
  then have inv: "dma_inv U h" using dma_steps_inv [OF assms(5)] by simp
  note D = dma_invD [OF inv]
  show ?thesis
  proof (intro conjI allI impI)
    show "hp_taken h = hp_released h + card (dom (hp_maps h))" using inv by (simp add: dma_inv_def)
    show "\<exists>md ct. hp_maps h (cn_map cn) = Some md \<and> hp_ctrls h (mp_ctrl md) = Some ct" if "hp_conts h k = Some cn" for k cn
      using D(3) [OF that] D(5) by blast
  qed (use D(3-6) in \<open>auto simp: conts_in_def maps_in_def word_gt_0\<close>)
qed

definition witness_ctrl :: controller where
  "witness_ctrl = \<lparr>ct_count = 1, ct_type = DEVICE_TYPE_IOCTL, ct_device = Some 3, ct_ops = ioctl_ops,
     ct_handle = \<lparr>c_page_size = 4096, c_dstrd = 0, c_timeout = 500, c_max_qs = 1024, c_mm_size = 0x2000, c_mm_ptr = 0\<rparr>\<rparr>"

definition witness_heap :: dma_heap where
  "witness_heap = \<lparr>hp_ctrls = [0 \<mapsto> witness_ctrl], hp_maps = Map.empty, hp_conts = Map.empty, hp_taken = 0, hp_released = 0,
     hp_unmapped = 0, hp_dev_released = 0\<rparr>"

definition witness_dh :: nvm_dma_t where
  "witness_dh = \<lparr>dma_vaddr = 0, dma_local = True, dma_contiguous = True, dma_page_size = 0, dma_ioaddrs = []\<rparr>"

theorem dma_refs_counted_witness:
  "\<exists>h. dma_step\<^sup>*\<^sup>* ({0}, witness_heap) ({0}, h) \<and> hp_conts h 7 \<noteq> None \<and> hp_taken h = 1 \<and> hp_released h = 0 \<and> card (dom (hp_maps h)) = 1"
proof -
  let ?h = "fst (nvm_dma_map witness_heap True (Some 5) (Some 7) witness_dh 0 0 4096 2 (Some [0x10000, 0x40000]))"
  note w = witness_heap_def witness_ctrl_def witness_dh_def
  have "dma_step ({0}, witness_heap) ({0}, ?h)"
    by (rule step_map) (simp_all add: w fresh_def room_def)
  then have s: "dma_step\<^sup>*\<^sup>* ({0}, witness_heap) ({0}, ?h)" by blast
  have k: "hp_conts ?h 7 \<noteq> None" "hp_taken ?h = 1" "hp_released ?h = 0"
    by (simp_all add: nvm_dma_map_def create_map_def create_container_def heap_ctrl_get_def ctrl_page_size_def Let_def w)
  have "hp_taken ?h = hp_released ?h + card (dom (hp_maps ?h))"
    using dma_refs_counted [of witness_heap "{0}" ?h] s by (simp add: w)
  then show ?thesis using s k by (intro exI [of _ ?h]) simp
qed

text \<open>C35: \<open>put_map\<close> is not safe when two threads unmap the last two handles of a descriptor: it tests
  \<open>md->va\<close> after leaving its critical section, so that the thread that took the count to one may find
  the range gone too, and both call \<open>remove_map\<close>, which frees the descriptor and gives back the
  controller reference twice.\<close>

theorem put_map_double_free:
  "\<exists>s. map_step\<^sup>*\<^sup>* \<lparr>mr_count = 2, mr_va = True, mr_released = 0, mr_removed = 0, mr_leaving = 0\<rparr> s \<and>
     mr_released s = 1 \<and> mr_removed s = 2"
proof -
  let ?a = "\<lparr>mr_count = 2, mr_va = True, mr_released = 0, mr_removed = 0, mr_leaving = 0\<rparr>"
  let ?b = "put_map_locked ?a" let ?c = "put_map_locked ?b" let ?d = "put_map_leave ?c" let ?e = "put_map_leave ?d"
  note d = put_map_locked_def put_map_leave_def Let_def
  have "map_step ?a ?b" "map_step ?b ?c" by (rule map_put, simp add: d)+
  moreover have "map_step ?c ?d" "map_step ?d ?e" by (rule map_leave, simp add: d)+
  ultimately have "map_step\<^sup>*\<^sup>* ?a ?e" by (meson rtranclp.rtrancl_into_rtrancl rtranclp.rtrancl_refl)
  then show ?thesis by (intro exI [of _ ?e]) (simp add: d)
qed

end
