(* ===== verification/Page_Cache_Setup.thy ===== *)
theory Page_Cache_Setup
  imports Page_Async Nvm_Dma
begin

text \<open>
  Construction of the page cache (\<open>page_cache_t\<close>, \<open>add_range\<close> and \<open>range_t\<close> of
  \<open>include/page_cache.h\<close>): the parameters of the cache, the tables of physical region pages that
  its commands use, and the ranges.  \<open>createDma\<close> is an argument: the DMA handle for a requested size
  (its first argument tells the two requests apart), as \<open>populate_handle\<close> fills it.  The record given
  to the constructor holds what it does not set: the controllers' queues and blocks, the content of the
  cache memory, and whatever uninitialised memory contains.
\<close>

section \<open>Definitions\<close>

text \<open>\<open>std::log2\<close> of an integer, converted back to an integer (exact below \<open>2 ^ 48\<close> and for powers of two).\<close>

fun flog :: "nat \<Rightarrow> nat" where
  "flog n = (if n < 2 then 0 else Suc (flog (n div 2)))"

declare flog.simps [simp del]

definition std_log2 :: "u64 \<Rightarrow> u64" where
  "std_log2 n = of_nat (flog (unat n))"

text \<open>What the constructor reads of the controller.\<close>

record ctrl_params =
  cp_page_size :: u64
  cp_blk_size :: u64
  cp_lba_data_size :: u64

record prp_tables =
  pt_prp1 :: "u64 list"
  pt_prp2 :: "u64 list"
  pt_prps :: bool
  pt_list :: "u64 list"

definition prp_setup_small :: "u64 \<Rightarrow> nat \<Rightarrow> u64 \<Rightarrow> nvm_dma_t \<Rightarrow> prp_tables" where
  "prp_setup_small ps np ctrl_ps pages_dma =
     (let how_many_in_one = unat (ctrl_ps div ps);
          temp = concat (map (\<lambda>a. map (\<lambda>j. a + of_nat j * ps) [0..<how_many_in_one]) (dma_ioaddrs pages_dma))
      in \<lparr>pt_prp1 = take np temp, pt_prp2 = [], pt_prps = False, pt_list = []\<rparr>)"

definition prp_setup_pair :: "nat \<Rightarrow> nvm_dma_t \<Rightarrow> prp_tables" where
  "prp_setup_pair np pages_dma =
     \<lparr>pt_prp1 = map (\<lambda>i. dma_ioaddrs pages_dma ! (i * 2)) [0..<np],
      pt_prp2 = map (\<lambda>i. dma_ioaddrs pages_dma ! (i * 2 + 1)) [0..<np], pt_prps = True, pt_list = []\<rparr>"

definition fill_list_page :: "u64 list \<Rightarrow> nat \<Rightarrow> nat \<Rightarrow> u64 list \<Rightarrow> nat \<Rightarrow> u64 list" where
  "fill_list_page ioaddrs how_many_in_one uints_per_page temp3 i =
     foldl (\<lambda>t j. t[i * uints_per_page + j := ioaddrs ! (i * how_many_in_one + j + 1)]) temp3 [0..<how_many_in_one - 1]"

definition prp_setup_list :: "u64 \<Rightarrow> nat \<Rightarrow> u64 \<Rightarrow> nvm_dma_t \<Rightarrow> (u64 \<Rightarrow> nvm_dma_t) \<Rightarrow> prp_tables" where
  "prp_setup_list ps np ctrl_ps pages_dma createDma =
     (let prp_list_size = ucast (ctrl_ps * of_nat np) :: u32;
          prp_list_dma = createDma (NVM_PAGE_ALIGN (ucast prp_list_size) (push_bit 16 1));
          uints_per_page = unat (ucast (ctrl_ps div 8) :: u32);
          how_many_in_one = unat (ucast (ps div ctrl_ps) :: u32);
          temp3 = foldl (fill_list_page (dma_ioaddrs pages_dma) how_many_in_one uints_per_page)
                    (replicate (unat prp_list_size) 0) [0..<np]
      in \<lparr>pt_prp1 = map (\<lambda>i. dma_ioaddrs pages_dma ! (i * how_many_in_one)) [0..<np],
          pt_prp2 = map (\<lambda>i. dma_ioaddrs prp_list_dma ! i) [0..<np], pt_prps = True,
          pt_list = take (unat prp_list_size div 8) temp3\<rparr>)"

definition prp_setup :: "u64 \<Rightarrow> u64 \<Rightarrow> u64 \<Rightarrow> nvm_dma_t \<Rightarrow> (u64 \<Rightarrow> nvm_dma_t) \<Rightarrow> prp_tables" where
  "prp_setup ps np ctrl_ps pages_dma createDma =
     (if ps \<le> dma_page_size pages_dma then prp_setup_small ps (unat np) ctrl_ps pages_dma
      else if ps \<le> dma_page_size pages_dma * 2 then prp_setup_pair (unat np) pages_dma
      else prp_setup_list ps (unat np) ctrl_ps pages_dma createDma)"

definition new_slot :: "cache_page_t \<Rightarrow> cache_page_t" where
  "new_slot junk = junk\<lparr>page_take_lock := FREE, next_reuse := 0xFFFF000000000000, reuse_chunk := replicate 8 no_reuse\<rparr>"

definition page_cache_ctor ::
  "u64 \<Rightarrow> u64 \<Rightarrow> ctrl_params \<Rightarrow> u64 \<Rightarrow> u64 \<Rightarrow> (nat \<Rightarrow> u64 \<Rightarrow> nvm_dma_t) \<Rightarrow> 'b page_cache \<Rightarrow> string + 'b page_cache \<times> prp_tables"
where
  "page_cache_ctor ps np ctrl max_range n_ctrls createDma pc =
     (let pages_dma = createDma 0 (NVM_PAGE_ALIGN (ps * np) (push_bit 16 1));
          uints_per_page = ucast (cp_page_size ctrl div 8) :: u32
      in if ps > cp_page_size ctrl * ucast uints_per_page \<or> np = 0 \<or> ps < cp_lba_data_size ctrl
         then Inl ''page_cache_t: Can't have such page size or number of pages''
         else
           (let pt = prp_setup ps np (cp_page_size ctrl) pages_dma (createDma 1)
            in Inr (pc\<lparr>
                 pc_page_size := ps, pc_n_pages := np, pc_n_ctrls := n_ctrls,
                 pc_n_blocks_per_page := ps div cp_blk_size ctrl,
                 pc_n_ranges := 0,
                 pc_n_ranges_bits := (if max_range = 1 then 1 else std_log2 max_range),
                 pc_n_ranges_mask := max_range - 1,
                 pc_page_size_log := std_log2 ps,
                 pc_cache_pages := (\<lambda>i. new_slot (pc_cache_pages pc i)),
                 pc_page_starts := (\<lambda>_. 0), pc_page_ticket := 0, pc_ctrl_counter := 0, pc_q_tail := 0,
                 pc_base_addr := dma_vaddr pages_dma,
                 pc_prp1 := (\<lambda>e. pt_prp1 pt ! unat e), pc_prp2 := (\<lambda>e. pt_prp2 pt ! unat e), pc_prps := pt_prps pt\<rparr>, pt)))"

text \<open>A range: what \<open>range_d_t\<close> holds besides the pages, which are kept by range number in the cache.\<close>

record range_d_t =
  rd_index_start :: u64
  rd_count :: u64
  rd_range_id :: u64
  rd_page_start_offset :: u64
  rd_page_size :: u64
  rd_page_start :: u64
  rd_page_count :: u64
  rd_n_elems_per_page :: u64
  rd_dist :: data_dist_t

definition new_page :: "data_page_t \<Rightarrow> data_page_t" where
  "new_page junk = junk\<lparr>dp_state := INVALID, dp_offset := 0, dp_cpu_feature_offset := 0, dp_prefetch_count := 0, dp_prefetch_counter := 0\<rparr>"

definition add_range :: "(u64 \<Rightarrow> data_page_t) \<Rightarrow> range_d_t \<Rightarrow> 'b page_cache \<Rightarrow> 'b page_cache \<times> range_d_t" where
  "add_range pages rng pc =
     (let r = pc_n_ranges pc
      in (pc\<lparr>pc_n_ranges := r + 1, pc_ranges := (pc_ranges pc)(r := pages),
             pc_page_starts := (pc_page_starts pc)(r := rd_page_start rng),
             pc_page_counts := (pc_page_counts pc)(r := rd_page_count rng),
             pc_dists := (pc_dists pc)(r := rd_dist rng)\<rparr>,
          rng\<lparr>rd_range_id := r\<rparr>))"

definition range_ctor ::
  "u64 \<Rightarrow> (u64 \<Rightarrow> data_page_t) \<Rightarrow> u64 \<Rightarrow> u64 \<Rightarrow> u64 \<Rightarrow> u64 \<Rightarrow> u64 \<Rightarrow> data_dist_t \<Rightarrow> 'b page_cache \<Rightarrow> 'b page_cache \<times> range_d_t"
where
  "range_ctor sizeof_T junk is count ps pc_count pso dist pc =
     (let rng = \<lparr>rd_index_start = is, rd_count = count, rd_range_id = 0, rd_page_start_offset = pso,
                   rd_page_size = pc_page_size pc, rd_page_start = ps, rd_page_count = pc_count,
                   rd_n_elems_per_page = pc_page_size pc div sizeof_T, rd_dist = dist\<rparr>;
          (pc1, range1) = add_range (\<lambda>i. new_page (junk i)) rng pc;
          r = rd_range_id range1
      in (pc1\<lparr>pc_access_cnt := (pc_access_cnt pc1)(r := 0), pc_miss_cnt := (pc_miss_cnt pc1)(r := 0),
              pc_hit_cnt := (pc_hit_cnt pc1)(r := 0)\<rparr>, range1))"

section \<open>Lemmas: parameters\<close>

lemma flog_pow2: "flog (2 ^ k) = k"
proof (induction k)
  case 0
  then show ?case by (simp add: flog.simps)
next
  case (Suc k)
  have "\<not> (2::nat) ^ Suc k < 2" by simp
  then show ?case using Suc by (subst flog.simps) simp
qed

lemma std_log2_pow2: "k < 64 \<Longrightarrow> unat (std_log2 (push_bit k 1)) = k"
  using unat_pow2 [of k] by (simp add: std_log2_def flog_pow2 unat_of_nat)

section \<open>Lemmas: tables of physical region pages\<close>

text \<open>The bus address of a byte of a DMA region.\<close>

definition bus_of :: "nvm_dma_t \<Rightarrow> nat \<Rightarrow> u64" where
  "bus_of dma b = dma_ioaddrs dma ! (b div unat (dma_page_size dma)) + of_nat (b mod unat (dma_page_size dma))"

lemma foldl_upd:
  "length (foldl (\<lambda>t j. t[f j := g j]) t js) = length t"
  by (induction js arbitrary: t) simp_all

lemma fill_list_page_nth:
  "x < length t \<Longrightarrow> foldl (\<lambda>t j. t[b + j := io ! (o' + j + 1)]) t [0..<n] ! x =
     (if b \<le> x \<and> x < b + n then io ! (o' + (x - b) + 1) else t ! x)"
  by (induction n) (auto simp: nth_list_update foldl_upd less_Suc_eq)

lemma length_fill: "length (foldl (fill_list_page io h u) t is) = length t"
  by (induction "is" arbitrary: t) (simp_all add: fill_list_page_def foldl_upd)

lemma fill_lists_nth:
  assumes "i < np" and "j < h - 1" and "h \<le> u" and "i * u + j < length t"
  shows "foldl (fill_list_page io h u) t [0..<np] ! (i * u + j) = io ! (i * h + j + 1)"
  using assms(1)
proof (induction np)
  case (Suc np)
  let ?t = "foldl (fill_list_page io h u) t [0..<np]"
  have x: "i * u + j < length ?t" using assms(4) by (simp add: length_fill)
  have r: "foldl (fill_list_page io h u) t [0..<Suc np] ! (i * u + j) =
      (if np * u \<le> i * u + j \<and> i * u + j < np * u + (h - 1) then io ! (np * h + (i * u + j - np * u) + 1) else ?t ! (i * u + j))"
    using fill_list_page_nth [OF x, of "np * u" io "np * h" "h - 1"] by (simp add: fill_list_page_def)
  show ?case
  proof (cases "i = np")
    case True
    moreover have "j < h - 1 \<Longrightarrow> np * u + j < np * u + (h - 1)" by linarith
    ultimately show ?thesis unfolding r using assms(2) by simp
  next
    case False
    then have "i < np" using Suc.prems by simp
    then have "i * u + u \<le> np * u" by (metis Suc_leI mult_Suc mult_le_mono1 add.commute)
    then have "i * u + j < np * u" using assms(2,3) by simp
    then show ?thesis unfolding r using Suc.IH \<open>i < np\<close> by simp
  qed
qed simp

lemma concat_rows_nth:
  "i < length xs \<Longrightarrow> j < h \<Longrightarrow> concat (map (\<lambda>a. map (f a) [0..<h]) xs) ! (i * h + j) = f (xs ! i) j"
proof (induction xs arbitrary: i)
  case (Cons a xs)
  show ?case
  proof (cases i)
    case 0
    then show ?thesis using Cons.prems by (simp add: nth_append)
  next
    case (Suc i')
    have "(h + i' * h + j) - h = i' * h + j" by simp
    then show ?thesis using Suc Cons by (simp add: nth_append)
  qed
qed simp

lemma length_concat_rows: "length (concat (map (\<lambda>a. map (f a) [0..<h]) xs)) = length xs * h"
  by (induction xs) simp_all

lemma small_prp1:
  assumes "unat c = unat ps * h" and "0 < unat ps" and "0 < h" and "dma_page_size dma = c"
    and "e < np" and "unat ps * np \<le> length (dma_ioaddrs dma) * unat c"
  shows "pt_prp1 (prp_setup_small ps np c dma) ! e = bus_of dma (e * unat ps)"
proof -
  have h: "unat (c div ps) = h" using assms(1,2) by (simp add: unat_div_distrib)
  have "unat ps * e < unat ps * np" using assms(2,5) by simp
  then have "unat ps * e < unat ps * (length (dma_ioaddrs dma) * h)" using assms(1,6) by (simp add: mult.left_commute mult.commute)
  then have "e < length (dma_ioaddrs dma) * h" by simp
  then have i: "e div h < length (dma_ioaddrs dma)" and j: "e mod h < h" using assms(3) by (simp_all add: less_mult_imp_div_less)
  have d: "e * unat ps div unat c = e div h" "e * unat ps mod unat c = e mod h * unat ps"
  proof -
    show "e * unat ps div unat c = e div h" unfolding assms(1) mult.commute [of e] using assms(2) by (simp add: div_mult_mult1)
    show "e * unat ps mod unat c = e mod h * unat ps" unfolding assms(1) mult.commute [of e] mult_mod_right [symmetric] by (rule mult.commute)
  qed
  have "pt_prp1 (prp_setup_small ps np c dma) ! e = concat (map (\<lambda>a. map (\<lambda>j. a + of_nat j * ps) [0..<h]) (dma_ioaddrs dma)) ! (e div h * h + e mod h)"
    using assms(5) by (simp add: prp_setup_small_def Let_def h)
  also have "\<dots> = dma_ioaddrs dma ! (e div h) + of_nat (e mod h) * ps" by (rule concat_rows_nth [OF i j])
  finally show ?thesis by (simp add: bus_of_def assms(4) d)
qed

text \<open>How the controller sees the list pages: entry \<open>x\<close> of the array lies 8 bytes after entry \<open>x - 1\<close>.\<close>

definition list_mem :: "nvm_dma_t \<Rightarrow> prp_tables \<Rightarrow> u64 \<Rightarrow> u64" where
  "list_mem list_dma pt a = pt_list pt ! (unat (a - dma_vaddr list_dma) div 8)"

definition slot_pages :: "u64 \<Rightarrow> u64 \<Rightarrow> nat" where
  "slot_pages ps c = max 1 (unat (ps div c))"

text \<open>
  What the construction relies on: page sizes that divide one another, a handle in units of the
  controller's page with room for all slots, and, where list pages are used, an array of them that
  stays below \<open>2 ^ 32\<close> bytes and whose pages the controller finds at the addresses of their handle.
\<close>

definition dma_ok :: "u64 \<Rightarrow> u64 \<Rightarrow> u64 \<Rightarrow> nvm_dma_t \<Rightarrow> nvm_dma_t \<Rightarrow> (u64 \<Rightarrow> u64) \<Rightarrow> bool" where
  "dma_ok ps np c dma list_dma bus \<longleftrightarrow> 0 < unat ps \<and> 16 \<le> unat c \<and> 8 dvd unat c \<and> unat c < 2 ^ 32 \<and> dma_page_size dma = c \<and>
     (unat ps dvd unat c \<or> unat c dvd unat ps) \<and> unat ps < 2 ^ 32 \<and> unat ps * unat np \<le> length (dma_ioaddrs dma) * unat c \<and>
     (2 < slot_pages ps c \<longrightarrow> unat c * unat np < 2 ^ 32 \<and>
        (\<forall>i < unat np. bus (dma_ioaddrs list_dma ! i) = dma_vaddr list_dma + of_nat (i * unat c)))"

lemma unat_ucast32: "unat w < 2 ^ 32 \<Longrightarrow> unat (ucast w :: u32) = unat w" for w :: u64
  by (simp add: unat_ucast_mod)

lemma unat_of_nat32: "x < 2 ^ 32 \<Longrightarrow> unat (of_nat x :: u64) = x"
  by (simp add: unat_of_nat)

lemma scaled_less: "8 * (n * u) = m \<Longrightarrow> x < n * u \<Longrightarrow> 8 * x < m \<and> x < m \<and> x < m div 8" for x n u m :: nat
  by auto

lemma list_prps:
  assumes ok: "dma_ok ps np c dma (createDma (NVM_PAGE_ALIGN (ucast (ucast (c * of_nat (unat np)) :: u32)) (push_bit 16 1))) bus"
    (is "dma_ok _ _ _ _ ?L _")
    and h: "unat ps = unat c * h" and h3: "2 < h" and hu: "h \<le> unat c div 8" and e: "e < unat np"
  shows "pt_prp1 (prp_setup_list ps (unat np) c dma createDma) ! e = dma_ioaddrs dma ! (e * h)"
    and "pt_prp2 (prp_setup_list ps (unat np) c dma createDma) ! e = dma_ioaddrs ?L ! e"
    and "j < h - 1 \<Longrightarrow> list_mem ?L (prp_setup_list ps (unat np) c dma createDma) (entry_addr (bus (dma_ioaddrs ?L ! e)) j) =
      dma_ioaddrs dma ! (e * h + j + 1)"
proof -
  let ?t = "prp_setup_list ps (unat np) c dma createDma" and ?u = "unat c div 8"
  have c: "0 < unat c" "8 dvd unat c" "unat c < 2 ^ 32" "unat ps < 2 ^ 32" using ok by (auto simp: dma_ok_def)
  have hm: "unat (ps div c) = h" using h c(1) by (simp add: unat_div_distrib)
  have h32: "h < 2 ^ 32" using h c(1,4) by (metis One_nat_def Suc_leI le_less_trans mult_le_mono1 nat_mult_1)
  have sp: "2 < slot_pages ps c" using h3 hm by (simp add: slot_pages_def)
  then have n: "unat c * unat np < 2 ^ 32"
    and bus: "bus (dma_ioaddrs ?L ! e) = dma_vaddr ?L + of_nat (e * unat c)" using ok e by (auto simp: dma_ok_def)
  have sz: "unat (c * np) = unat c * unat np" using n unat_mult_lem [of c np] by simp
  have sz32: "unat (ucast (c * np) :: u32) = unat c * unat np" using n sz by (simp add: unat_ucast32)
  have u: "unat (ucast (c div 8) :: u32) = ?u"
    using c(3) div_le_dividend [of "unat c" 8] by (subst unat_ucast32) (simp_all add: unat_div_distrib)
  have hm32: "unat (ucast (ps div c) :: u32) = h" using hm h32 by (simp add: unat_ucast32)
  note d = prp_setup_list_def Let_def hm32 u
  show "pt_prp1 ?t ! e = dma_ioaddrs dma ! (e * h)" "pt_prp2 ?t ! e = dma_ioaddrs ?L ! e" using e by (simp_all add: d)
  show "list_mem ?L ?t (entry_addr (bus (dma_ioaddrs ?L ! e)) j) = dma_ioaddrs dma ! (e * h + j + 1)" if j: "j < h - 1"
  proof -
    have cu: "unat c = 8 * ?u" using c(2) by simp
    have ju: "j < ?u" using j hu by linarith
    have "e * ?u + j < e * ?u + ?u" using ju by simp
    also have "\<dots> = (e + 1) * ?u" by simp
    also have "\<dots> \<le> unat np * ?u" using e by (intro mult_le_mono1) simp
    finally have x: "e * ?u + j < unat np * ?u" .
    have "8 * (unat np * ?u) = unat c * unat np" using cu by (metis mult.assoc mult.commute)
    note s8 = scaled_less [OF this x]
    have x8: "8 * (e * ?u + j) < 2 ^ 32" and xl: "e * ?u + j < unat c * unat np" and xd: "e * ?u + j < unat c * unat np div 8"
      using s8 less_trans [OF _ n] by blast+
    have "e * unat c = 8 * (e * ?u)" using cu by (metis mult.left_commute)
    then have eq: "e * unat c + 8 * j = 8 * (e * ?u + j)" by (simp only: distrib_left)
    have "entry_addr (bus (dma_ioaddrs ?L ! e)) j - dma_vaddr ?L = of_nat (e * unat c + 8 * j)"
      unfolding bus entry_addr_def by simp
    then have "entry_addr (bus (dma_ioaddrs ?L ! e)) j - dma_vaddr ?L = of_nat (8 * (e * ?u + j))" unfolding eq .
    moreover have "unat (of_nat (8 * (e * ?u + j)) :: u64) = 8 * (e * ?u + j)" by (rule unat_of_nat32 [OF x8])
    ultimately have "list_mem ?L ?t (entry_addr (bus (dma_ioaddrs ?L ! e)) j) = pt_list ?t ! (e * ?u + j)" by (simp add: list_mem_def)
    also have "\<dots> = foldl (fill_list_page (dma_ioaddrs dma) h ?u) (replicate (unat c * unat np) 0) [0..<unat np] ! (e * ?u + j)"
      using xd by (simp add: d sz32)
    also have "\<dots> = dma_ioaddrs dma ! (e * h + j + 1)" using xl by (intro fill_lists_nth [OF e j hu]) simp
    finally show ?thesis .
  qed
qed

lemma rw_cmd_prps:
  assumes "wf_cmd (pc_local_cmd pc)"
  shows "cmd_prp1 (rw_cmd pc cid opc lba n e) = pc_prp1 pc e" "cmd_prp2 (rw_cmd pc cid opc lba n e) = (if pc_prps pc then pc_prp2 pc e else 0)"
  using rw_cmd_fields [OF assms] by (simp_all add: rw_cmd_def Let_def)

lemma bus_of_page: "0 < unat (dma_page_size dma) \<Longrightarrow> unat ps = unat (dma_page_size dma) * h \<Longrightarrow>
    bus_of dma (e * unat ps + t * unat (dma_page_size dma)) = dma_ioaddrs dma ! (e * h + t)"
proof -
  assume c: "0 < unat (dma_page_size dma)" and ps: "unat ps = unat (dma_page_size dma) * h"
  have "e * unat ps + t * unat (dma_page_size dma) = unat (dma_page_size dma) * (e * h + t)"
    unfolding ps by (simp add: distrib_left mult.left_commute mult.commute)
  then show ?thesis using c by (simp add: bus_of_def)
qed

lemma page_cache_ctorD:
  assumes "page_cache_ctor ps np ctrl max_range n_ctrls createDma pc0 = Inr (pc, pt)"
  shows "pt = prp_setup ps np (cp_page_size ctrl) (createDma 0 (NVM_PAGE_ALIGN (ps * np) (push_bit 16 1))) (createDma 1)"
    "ps \<le> cp_page_size ctrl * ucast (ucast (cp_page_size ctrl div 8) :: u32)" "np \<noteq> 0"
    "pc_prp1 pc e = pt_prp1 pt ! unat e" "pc_prp2 pc e = pt_prp2 pt ! unat e" "pc_prps pc = pt_prps pt" "pc_local_cmd pc = pc_local_cmd pc0"
    "pc_n_pages pc = np" "pc_n_ctrls pc = n_ctrls" "pc_n_blocks_per_page pc = ps div cp_blk_size ctrl" "pc_n_ranges pc = 0"
    "pc_n_ranges_bits pc = (if max_range = 1 then 1 else std_log2 max_range)" "pc_n_ranges_mask pc = max_range - 1"
    "page_take_lock (pc_cache_pages pc s) = FREE" "pc_cids pc = pc_cids pc0" "disk pc = disk pc0"
  using assms by (auto simp: page_cache_ctor_def Let_def new_slot_def not_less split: if_splits)

lemma slot_prps:
  assumes ctor: "page_cache_ctor ps np ctrl max_range n_ctrls createDma pc0 = Inr (pc, pt)" and wf: "wf_cmd (pc_local_cmd pc0)"
    and ok: "dma_ok ps np (cp_page_size ctrl) (createDma 0 (NVM_PAGE_ALIGN (ps * np) (push_bit 16 1)))
      (createDma 1 (NVM_PAGE_ALIGN (ucast (ucast (cp_page_size ctrl * of_nat (unat np)) :: u32)) (push_bit 16 1))) bus" (is "dma_ok _ _ ?c ?D ?L _")
    and e: "e < np"
  shows "device_pages (list_mem ?L pt) bus (unat ?c div 8) (slot_pages ps ?c) (rw_cmd pc cid opc lba n e) =
    map (\<lambda>t. bus_of ?D (unat e * unat ps + t * unat ?c)) [0..<slot_pages ps ?c]"
proof -
  note C = page_cache_ctorD [OF ctor]
  have wf': "wf_cmd (pc_local_cmd pc)" using wf C(7) by simp
  note P = rw_cmd_prps [OF wf', of cid opc lba n e] C(4-6)
  have c: "0 < unat ?c" "unat ?c < 2 ^ 32" "dma_page_size ?D = ?c" "0 < unat ps" and e': "unat e < unat np"
    using ok e by (auto simp: dma_ok_def word_less_nat_alt)
  have c2: "unat (?c * 2) = unat ?c * 2" using c(2) unat_mult_lem [of ?c 2] by simp
  consider (small) "ps \<le> ?c" | (pair) "\<not> ps \<le> ?c" "ps \<le> ?c * 2" | (lists) "\<not> ps \<le> ?c" "\<not> ps \<le> ?c * 2" by blast
  then show ?thesis
  proof cases
    case small
    then have "unat ps \<le> unat ?c" by (simp add: word_le_nat_alt)
    then have "unat ps dvd unat ?c" using ok c(4) dvd_imp_le [of "unat ?c" "unat ps"] by (auto simp: dma_ok_def)
    then obtain h where h: "unat ?c = unat ps * h" by (rule dvdE)
    have "0 < h" using h c(1) by (cases h) simp_all
    then have "pt_prp1 (prp_setup_small ps (unat np) ?c ?D) ! unat e = bus_of ?D (unat e * unat ps)"
      using h c(3,4) e' ok by (intro small_prp1) (auto simp: dma_ok_def)
    moreover have pt: "pt = prp_setup_small ps (unat np) ?c ?D" using C(1) small c(3) by (simp add: prp_setup_def)
    moreover have "slot_pages ps ?c = 1"
    proof -
      have "unat ps div unat ?c \<le> 1" using \<open>unat ps \<le> unat ?c\<close> c(1) by (metis div_le_mono div_self less_not_refl)
      then show ?thesis by (simp add: slot_pages_def unat_div_distrib max_def)
    qed
    ultimately show ?thesis using P by (simp add: device_pages_def)
  next
    case pair
    then have lt: "unat ?c < unat ps" "unat ps \<le> unat ?c * 2" using c2 by (simp_all add: word_le_nat_alt)
    then have "unat ?c dvd unat ps" using ok c(4) dvd_imp_le [of "unat ps" "unat ?c"] by (auto simp: dma_ok_def)
    then obtain h where h: "unat ps = unat ?c * h" by (rule dvdE)
    then have h2: "h = 2" using lt c(1) by (cases h) (auto simp: le_Suc_eq)
    have pt: "pt = prp_setup_pair (unat np) ?D" using C(1) pair c(3) by (simp add: prp_setup_def)
    have "unat (ps div ?c) = 2" using h h2 c(1) by (simp add: unat_div_distrib)
    then have n: "slot_pages ps ?c = 2" by (simp add: slot_pages_def)
    note b = bus_of_page [of ?D ps 2 "unat e", unfolded c(3)]
    have "map (\<lambda>t. bus_of ?D (unat e * unat ps + t * unat ?c)) [0..<2] = [dma_ioaddrs ?D ! (unat e * 2), dma_ioaddrs ?D ! (unat e * 2 + 1)]"
      using b [OF c(1), of 0] b [OF c(1), of 1] h h2 by (simp add: upt_rec)
    then show ?thesis using P n e' unfolding pt by (simp add: device_pages_def prp_setup_pair_def)
  next
    case lists
    then have lt: "unat ?c * 2 < unat ps" using c2 by (simp add: word_le_nat_alt)
    then have "unat ?c dvd unat ps" using ok c(4) dvd_imp_le [of "unat ps" "unat ?c"] by (auto simp: dma_ok_def)
    then obtain h where h: "unat ps = unat ?c * h" by (rule dvdE)
    then have h3: "2 < h" using lt c(1) by (metis mult.commute mult_less_cancel1)
    have u: "unat (ucast (?c div 8) :: u32) = unat ?c div 8"
      using c(2) div_le_dividend [of "unat ?c" 8] by (subst unat_ucast32) (simp_all add: unat_div_distrib)
    have hu: "h \<le> unat ?c div 8"
    proof -
      have "unat ps \<le> unat (?c * ucast (ucast (?c div 8) :: u32))" using C(2) by (simp add: word_le_nat_alt)
      also have "\<dots> \<le> unat ?c * unat (ucast (ucast (?c div 8) :: u32) :: u64)" unfolding unat_word_ariths(2) by (rule mod_less_eq_dividend)
      also have "\<dots> = unat ?c * (unat ?c div 8)" using u by (simp add: unat_ucast_up)
      finally show ?thesis using h c(1) by simp
    qed
    have pt: "pt = prp_setup_list ps (unat np) ?c ?D (createDma 1)" using C(1) lists c(3) by (simp add: prp_setup_def)
    have n: "slot_pages ps ?c = h" using h c(1) h3 by (simp add: slot_pages_def unat_div_distrib)
    note l = list_prps [where createDma = "createDma 1", OF ok h h3 hu e', folded pt]
    have p2: "cmd_prp2 (rw_cmd pc cid opc lba n e) = dma_ioaddrs ?L ! unat e" and p1: "cmd_prp1 (rw_cmd pc cid opc lba n e) = dma_ioaddrs ?D ! (unat e * h)"
      using P l(1,2) by (simp_all add: pt prp_setup_list_def Let_def)
    have "h - 1 \<le> unat ?c div 8" using hu by simp
    then have w: "prp_walk (list_mem ?L pt) bus (unat ?c div 8) (h - 1) (dma_ioaddrs ?L ! unat e) = map (\<lambda>j. dma_ioaddrs ?D ! (unat e * h + j + 1)) [0..<h - 1]"
      using l(3) by (subst prp_walk.simps) simp
    have b: "bus_of ?D (unat e * unat ps + t * unat ?c) = dma_ioaddrs ?D ! (unat e * h + t)" for t
      using bus_of_page [of ?D ps h "unat e" t] c(1,3) h by simp
    have "device_pages (list_mem ?L pt) bus (unat ?c div 8) h (rw_cmd pc cid opc lba n e) =
        dma_ioaddrs ?D ! (unat e * h) # map (\<lambda>j. dma_ioaddrs ?D ! (unat e * h + j + 1)) [0..<h - 1]"
      using h3 w p1 p2 by (simp add: device_pages_def)
    also have "\<dots> = map (\<lambda>t. dma_ioaddrs ?D ! (unat e * h + t)) [0..<h]"
      using h3 by (intro nth_equalityI) (auto simp: nth_Cons')
    finally show ?thesis unfolding n b .
  qed
qed

lemma prp1_bus:
  assumes ctor: "page_cache_ctor ps np ctrl max_range n_ctrls createDma pc0 = Inr (pc, pt)" and wf: "wf_cmd (pc_local_cmd pc0)"
    and ok: "dma_ok ps np (cp_page_size ctrl) (createDma 0 (NVM_PAGE_ALIGN (ps * np) (push_bit 16 1)))
      (createDma 1 (NVM_PAGE_ALIGN (ucast (ucast (cp_page_size ctrl * of_nat (unat np)) :: u32)) (push_bit 16 1))) bus" (is "dma_ok _ _ ?c ?D ?L _")
    and e: "e < np"
  shows "pc_prp1 pc e = bus_of ?D (unat e * unat ps)"
proof -
  let ?n = "slot_pages ps ?c" and ?cmd = "rw_cmd pc 0 0 0 0 e"
  have n: "0 < ?n" by (simp add: slot_pages_def)
  then have "hd (device_pages (list_mem ?L pt) bus (unat ?c div 8) ?n ?cmd) = cmd_prp1 ?cmd" by (simp add: device_pages_def)
  moreover have "hd (map (\<lambda>t. bus_of ?D (unat e * unat ps + t * unat ?c)) [0..<?n]) = bus_of ?D (unat e * unat ps)"
    using n by (simp add: hd_map)
  moreover have "cmd_prp1 ?cmd = pc_prp1 pc e" using rw_cmd_prps(1) wf page_cache_ctorD(7) [OF ctor] by metis
  ultimately show ?thesis using slot_prps [OF ctor wf ok e, of 0 0 0 0] by metis
qed

section \<open>Adding ranges\<close>

record range_args =
  ra_junk :: "u64 \<Rightarrow> data_page_t"
  ra_is :: u64
  ra_count :: u64
  ra_ps :: u64
  ra_pc :: u64
  ra_pso :: u64
  ra_dist :: data_dist_t

definition add_ranges :: "u64 \<Rightarrow> range_args list \<Rightarrow> 'b page_cache \<Rightarrow> 'b page_cache" where
  "add_ranges sizeof_T args pc =
     foldl (\<lambda>p a. fst (range_ctor sizeof_T (ra_junk a) (ra_is a) (ra_count a) (ra_ps a) (ra_pc a) (ra_pso a) (ra_dist a) p)) pc args"

lemma range_ctor_state:
  "fst (range_ctor sz junk is cnt ps pcn pso dist pc) = pc\<lparr>pc_n_ranges := pc_n_ranges pc + 1,
     pc_ranges := (pc_ranges pc)(pc_n_ranges pc := \<lambda>i. new_page (junk i)),
     pc_page_starts := (pc_page_starts pc)(pc_n_ranges pc := ps),
     pc_page_counts := (pc_page_counts pc)(pc_n_ranges pc := pcn),
     pc_dists := (pc_dists pc)(pc_n_ranges pc := dist),
     pc_access_cnt := (pc_access_cnt pc)(pc_n_ranges pc := 0), pc_miss_cnt := (pc_miss_cnt pc)(pc_n_ranges pc := 0),
     pc_hit_cnt := (pc_hit_cnt pc)(pc_n_ranges pc := 0)\<rparr>"
  by (simp add: range_ctor_def add_range_def Let_def)

definition same_base :: "'b page_cache \<Rightarrow> 'b page_cache \<Rightarrow> bool" where
  "same_base q pc \<longleftrightarrow> pc_n_pages q = pc_n_pages pc \<and> pc_n_ctrls q = pc_n_ctrls pc \<and> pc_local_cmd q = pc_local_cmd pc \<and>
     pc_n_blocks_per_page q = pc_n_blocks_per_page pc \<and> pc_prp1 q = pc_prp1 pc \<and> pc_n_ranges_mask q = pc_n_ranges_mask pc \<and>
     pc_n_ranges_bits q = pc_n_ranges_bits pc \<and> pc_cids q = pc_cids pc \<and> disk q = disk pc \<and> pc_cache_pages q = pc_cache_pages pc"

lemma add_ranges_state:
  assumes "pc_n_ranges pc = 0" and "length args < 2 ^ 64"
  shows "same_base (add_ranges sz args pc) pc \<and> unat (pc_n_ranges (add_ranges sz args pc)) = length args \<and>
    (\<forall>i < length args. pc_dists (add_ranges sz args pc) (of_nat i) = ra_dist (args ! i)) \<and>
    (\<forall>r < pc_n_ranges (add_ranges sz args pc). \<forall>pg. dstate (add_ranges sz args pc) r pg = INVALID)"
  using assms(2)
proof (induction args rule: rev_induct)
  case Nil
  then show ?case using assms(1) by (simp add: add_ranges_def same_base_def)
next
  case (snoc a args)
  let ?q = "add_ranges sz args pc" and ?q' = "add_ranges sz (args @ [a]) pc"
  have IH: "same_base ?q pc" "unat (pc_n_ranges ?q) = length args" "\<forall>i < length args. pc_dists ?q (of_nat i) = ra_dist (args ! i)"
      "\<forall>r < pc_n_ranges ?q. \<forall>pg. dstate ?q r pg = INVALID"
    using snoc by auto
  have q': "?q' = fst (range_ctor sz (ra_junk a) (ra_is a) (ra_count a) (ra_ps a) (ra_pc a) (ra_pso a) (ra_dist a) ?q)"
    by (simp add: add_ranges_def)
  have n: "unat (pc_n_ranges ?q + 1) = Suc (length args)" using snoc.prems IH(2) unat_inc [of "pc_n_ranges ?q"] by simp
  have new: "pc_n_ranges ?q = of_nat (length args)" unfolding IH(2) [symmetric] by simp
  have "same_base ?q' pc" using IH(1) by (simp add: q' range_ctor_state same_base_def)
  moreover have "unat (pc_n_ranges ?q') = length (args @ [a])" using n by (simp add: q' range_ctor_state)
  moreover have "pc_dists ?q' (of_nat i) = ra_dist ((args @ [a]) ! i)" if "i < length (args @ [a])" for i
  proof (cases "i = length args")
    case True
    then show ?thesis by (simp add: q' range_ctor_state new)
  next
    case False
    then have "i < length args" using that by simp
    moreover have "(of_nat i :: u64) \<noteq> of_nat (length args)"
      using False that snoc.prems by (simp add: unat_eq_iff [of "of_nat i :: u64"] unat_of_nat)
    ultimately show ?thesis using IH(3) by (simp add: q' range_ctor_state new nth_append)
  qed
  moreover have "dstate ?q' r pg = INVALID" if "r < pc_n_ranges ?q'" for r pg
  proof -
    have "r < pc_n_ranges ?q \<or> r = pc_n_ranges ?q"
      using that n IH(2) by (auto simp: q' range_ctor_state word_less_nat_alt unat_eq_iff less_Suc_eq)
    then show ?thesis using IH(4) by (auto simp: q' range_ctor_state dstate_def new_page_def)
  qed
  ultimately show ?case by blast
qed

text \<open>A cache with nothing in it.\<close>

lemma empty_cache_inv:
  assumes "cfg_ok pc" and "cids_free (pc_cids pc)" and "\<And>s. page_take_lock (pc_cache_pages pc s) = FREE"
    and st: "\<And>r pg. r < pc_n_ranges pc \<Longrightarrow> dstate pc r pg = INVALID"
    and rep: "\<And>r c. r < pc_n_ranges pc \<Longrightarrow> pc_dists pc r = REPLICATE \<Longrightarrow> c < pc_n_ctrls pc \<Longrightarrow> disk pc c = disk pc 0"
  shows "cache_inv pc"
proof -
  have f: "\<not> is_valid (dstate pc r pg) \<and> \<not> is_busy (dstate pc r pg) \<and> \<not> is_dirty (dstate pc r pg)" if "in_dom pc r pg" for r pg
    using st [of r pg] that by (simp add: in_dom_def is_valid_def is_busy_def is_dirty_def INVALID_def)
  have "disk pc c (page_lba pc r pg + of_nat k) = content pc r pg k" if "in_dom pc r pg" "c \<in> ctrls_of pc r pg" for r pg c k
    using that f [OF that(1)] rep [of r c] by (cases "pc_dists pc r") (auto simp: content_def home_ctrl_def ctrls_of_def in_dom_def)
  then show ?thesis using assms(1-3) f by (simp add: cache_inv_def inv0_def quiet_def slots_ok_def pages_ok_def data_ok_def)
qed

section \<open>Properties\<close>

lemma cfg_addr_pow2:
  assumes "pc_n_ranges_bits pc = (if push_bit k 1 = (1::u64) then 1 else std_log2 (push_bit k 1))" and "pc_n_ranges_mask pc = push_bit k 1 - 1"
    and "k < 64" and "unat (pc_n_ranges pc) \<le> 2 ^ k"
    and "\<And>r. r < pc_n_ranges pc \<Longrightarrow> unat (pc_page_counts pc r) * 2 ^ unat (pc_n_ranges_bits pc) \<le> 2 ^ 64"
  shows "cfg_addr pc"
proof -
  have "pc_n_ranges_mask pc = mask k" unfolding assms(2) by (rule push_bit_one_minus_one)
  moreover have "k \<le> unat (pc_n_ranges_bits pc) \<and> unat (pc_n_ranges_bits pc) < 64"
  proof (cases "push_bit k 1 = (1::u64)")
    case True
    then have "(2::nat) ^ k = 1" using unat_pow2 [OF assms(3)] by simp
    then have "k = 0" by simp
    then show ?thesis using assms(1) True by simp
  next
    case False
    then show ?thesis using assms(1,3) std_log2_pow2 [OF assms(3)] by simp
  qed
  ultimately show ?thesis using assms(4,5) unfolding cfg_addr_def by blast
qed

text \<open>A concrete instance for the witnesses: one slot of three controller pages.\<close>

definition witness_dma :: "nat \<Rightarrow> u64 \<Rightarrow> nvm_dma_t" where
  "witness_dma n s = (if n = 0
     then \<lparr>dma_vaddr = 0x700000, dma_local = True, dma_contiguous = False, dma_page_size = 4096, dma_ioaddrs = [0x10000, 0x11000, 0x12000]\<rparr>
     else \<lparr>dma_vaddr = 0x900000, dma_local = True, dma_contiguous = False, dma_page_size = 4096, dma_ioaddrs = [0x40000]\<rparr>)"

definition setup_ctrl :: ctrl_params where
  "setup_ctrl = \<lparr>cp_page_size = 4096, cp_blk_size = 512, cp_lba_data_size = 512\<rparr>"

definition witness_built :: "nat page_cache \<times> prp_tables" where
  "witness_built = projr (page_cache_ctor 12288 1 setup_ctrl 1 1 witness_dma witness_pc)"

definition witness_args :: range_args where
  "witness_args = \<lparr>ra_junk = (\<lambda>_. witness_page), ra_is = 0, ra_count = 3072, ra_ps = 0, ra_pc = 2, ra_pso = 0, ra_dist = STRIPE\<rparr>"

lemma witness_ctor: "page_cache_ctor 12288 1 setup_ctrl (push_bit 0 1) 1 witness_dma witness_pc = Inr (fst witness_built, snd witness_built)"
  by (simp add: witness_built_def page_cache_ctor_def Let_def setup_ctrl_def)

lemma witness_dma_ok: "dma_ok 12288 1 (cp_page_size setup_ctrl) (witness_dma 0 s) (witness_dma 1 t) (\<lambda>_. 0x900000)"
  by (simp add: dma_ok_def setup_ctrl_def witness_dma_def)

lemma witness_bus: "b < 12288 \<Longrightarrow> bus_of (witness_dma 0 s) b = 0x10000 + of_nat b"
proof -
  assume b: "b < 12288"
  then have "b div 4096 = 0 \<or> b div 4096 = 1 \<or> b div 4096 = 2" by auto
  then have "dma_ioaddrs (witness_dma 0 s) ! (b div 4096) = 0x10000 + of_nat (4096 * (b div 4096))" by (auto simp: witness_dma_def)
  moreover have "dma_page_size (witness_dma 0 s) = 4096" by (simp add: witness_dma_def)
  ultimately have "bus_of (witness_dma 0 s) b = 0x10000 + of_nat (4096 * (b div 4096) + b mod 4096)"
    unfolding of_nat_add by (simp add: bus_of_def)
  then show ?thesis by simp
qed

lemma witness_bus_inj: "inj_on (bus_of (witness_dma 0 s)) {0..<unat (12288::u64) * unat (1::u64)}"
proof (rule inj_onI)
  fix x y assume xy: "x \<in> {0..<unat (12288::u64) * unat (1::u64)}" "y \<in> {0..<unat (12288::u64) * unat (1::u64)}"
    "bus_of (witness_dma 0 s) x = bus_of (witness_dma 0 s) y"
  then have "(of_nat x :: u64) = of_nat y" using witness_bus [of x s] witness_bus [of y s] by simp
  then have "unat (of_nat x :: u64) = unat (of_nat y :: u64)" by simp
  then show "x = y" using xy(1,2) by (simp add: unat_of_nat)
qed

text \<open>C17: The constructors establish the invariant.  A page cache built by \<open>page_cache_t\<close>, for a maximum
  number of ranges that is a power of two, with as many \<open>range_t\<close> added as that allows, satisfies the
  invariant that all operations keep: every slot is free and distinct for the controller, every page is
  invalid, and the addresses that the slots store can be taken apart again.  Asked of the environment
  are a DMA region whose bytes have different bus addresses, block areas that do not overlap, and equal
  replicas.\<close>

theorem fresh_cache_inv:
  assumes ctor: "page_cache_ctor ps np ctrl (push_bit k 1) n_ctrls createDma pc0 = Inr (pc, pt)" and wf: "wf_cmd (pc_local_cmd pc0)"
    and ok: "dma_ok ps np (cp_page_size ctrl) (createDma 0 (NVM_PAGE_ALIGN (ps * np) (push_bit 16 1)))
      (createDma 1 (NVM_PAGE_ALIGN (ucast (ucast (cp_page_size ctrl * of_nat (unat np)) :: u32)) (push_bit 16 1))) bus"
    and inj: "inj_on (bus_of (createDma 0 (NVM_PAGE_ALIGN (ps * np) (push_bit 16 1)))) {0..<unat ps * unat np}"
    and hw: "cids_free (pc_cids pc0)" "0 < n_ctrls" "unat np \<le> 2 ^ 32" "blocks_ok (ps div cp_blk_size ctrl)"
    and args: "k < 64" "length args \<le> 2 ^ k"
      "\<forall>r < pc_n_ranges (add_ranges sz args pc). unat (pc_page_counts (add_ranges sz args pc) r) * 2 ^ unat (pc_n_ranges_bits pc) \<le> 2 ^ 64"
      "cfg_disk (add_ranges sz args pc)"
      "\<forall>a \<in> set args. ra_dist a = REPLICATE \<longrightarrow> (\<forall>c < n_ctrls. disk pc0 c = disk pc0 0)"
  shows "cache_inv (add_ranges sz args pc)"
proof -
  let ?q = "add_ranges sz args pc" and ?D = "createDma 0 (NVM_PAGE_ALIGN (ps * np) (push_bit 16 1))"
  note C = page_cache_ctorD [OF ctor]
  have "(2::nat) ^ k < 2 ^ 64" using args(1) by (intro power_strict_increasing) simp_all
  then have len: "length args < 2 ^ 64" using args(2) by linarith
  have S: "same_base ?q pc" "unat (pc_n_ranges ?q) = length args" "\<forall>i < length args. pc_dists ?q (of_nat i) = ra_dist (args ! i)"
      "\<forall>r < pc_n_ranges ?q. \<forall>pg. dstate ?q r pg = INVALID"
    using add_ranges_state [OF C(11) len] by blast+
  have B: "pc_n_pages ?q = np" "pc_n_ctrls ?q = n_ctrls" "pc_local_cmd ?q = pc_local_cmd pc0" "pc_n_blocks_per_page ?q = ps div cp_blk_size ctrl"
      "pc_prp1 ?q = pc_prp1 pc" "pc_cids ?q = pc_cids pc0" "disk ?q = disk pc0" "pc_cache_pages ?q = pc_cache_pages pc"
      "pc_n_ranges_mask ?q = push_bit k 1 - 1" "pc_n_ranges_bits ?q = pc_n_ranges_bits pc"
    using S(1) C by (simp_all add: same_base_def)
  have "inj_on (pc_prp1 pc) {e. e < np}"
  proof (rule inj_onI)
    fix e e' assume e: "e \<in> {e. e < np}" "e' \<in> {e. e < np}" "pc_prp1 pc e = pc_prp1 pc e'"
    have ps: "0 < unat ps" using ok by (simp add: dma_ok_def)
    have r: "unat x * unat ps \<in> {0..<unat ps * unat np}" if "x < np" for x
      using that ps by (simp add: word_less_nat_alt mult.commute)
    have "bus_of ?D (unat e * unat ps) = bus_of ?D (unat e' * unat ps)" using e prp1_bus [OF ctor wf ok] by simp
    then have "unat e * unat ps = unat e' * unat ps" using inj e r by (auto dest: inj_onD)
    then show "e = e'" using ps by (simp add: word_unat_eq_iff)
  qed
  then have "cfg_slots ?q" using B hw wf C(3) by (simp add: cfg_slots_def word_gt_0)
  moreover have "cfg_addr ?q" using args B C(12) S(2) by (intro cfg_addr_pow2 [of ?q k]) simp_all
  ultimately have cfg: "cfg_ok ?q" using args(4) by (simp add: cfg_ok_def)
  have rep: "disk ?q c = disk ?q 0" if "r < pc_n_ranges ?q" "pc_dists ?q r = REPLICATE" "c < pc_n_ctrls ?q" for r c
  proof -
    have u: "unat r < length args" using that(1) S(2) by (simp add: word_less_nat_alt)
    then have "pc_dists ?q (of_nat (unat r)) = ra_dist (args ! unat r)" using S(3) by blast
    then have "ra_dist (args ! unat r) = REPLICATE" using that(2) by simp
    then show ?thesis using args(5) u that(3) B(2,7) nth_mem [OF u] by auto
  qed
  show ?thesis using empty_cache_inv [OF cfg _ _ _ rep] hw(1) S(4) B(6,8) C(14) by simp
qed

theorem fresh_cache_inv_witness:
  "cache_inv (add_ranges 8 [witness_args] (fst witness_built)) \<and> in_dom (add_ranges 8 [witness_args] (fst witness_built)) 0 1"
proof -
  note C = page_cache_ctorD [OF witness_ctor]
  note n = range_ctor_state C(8-12) witness_args_def setup_ctrl_def
  have one: "x < 1 \<longleftrightarrow> x = 0" for x :: u64 by (simp add: word_less_nat_alt unat_eq_0)
  let ?q = "add_ranges 8 [witness_args] (fst witness_built)"
  have "wf_cmd (pc_local_cmd witness_pc)" "cids_free (pc_cids witness_pc)" by (simp_all add: witness_pc_def wf_cmd_def)
  moreover have "blocks_ok (12288 div cp_blk_size setup_ctrl)" by (simp add: blocks_ok_def setup_ctrl_def)
  moreover have "\<forall>r < pc_n_ranges ?q. unat (pc_page_counts ?q r) * 2 ^ unat (pc_n_ranges_bits (fst witness_built)) \<le> 2 ^ 64"
    by (simp add: add_ranges_def n one)
  moreover have "cfg_disk ?q" by (simp add: add_ranges_def cfg_disk_def area_len_def nblk_def n one)
  moreover have "\<forall>a \<in> set [witness_args]. ra_dist a = REPLICATE \<longrightarrow> (\<forall>c < 1. disk witness_pc c = disk witness_pc 0)"
    by (simp add: witness_args_def)
  moreover have "in_dom ?q 0 1" by (simp add: add_ranges_def in_dom_def n)
  ultimately show ?thesis using fresh_cache_inv [OF witness_ctor _ witness_dma_ok witness_bus_inj, of "[witness_args]" 8] by simp
qed

text \<open>C18: Commands name the right memory.  Take a cache that the constructor made over DMA memory as \<open>dma_ok\<close> has it:
  pages and controller pages divide each other, the region covers all slots, and, when a slot takes more than two
  controller pages, the area of the page lists is below \<open>2 ^ 32\<close> bytes (its size is computed with 32 bits) and every list page is at
  the bus address given for it.  Then for every slot, a controller that
  executes a command made by \<open>read_data\<close> or \<open>write_data\<close> for it and follows the data pointer, with the
  page list that the constructor wrote, visits exactly the controller pages of the slot's bytes, in
  order, whether a slot is a part of a controller page, one, two or more.\<close>

theorem slot_prps_correct:
  assumes "page_cache_ctor ps np ctrl max_range n_ctrls createDma pc0 = Inr (pc, pt)" and "wf_cmd (pc_local_cmd pc0)"
    and "dma_ok ps np (cp_page_size ctrl) (createDma 0 (NVM_PAGE_ALIGN (ps * np) (push_bit 16 1)))
      (createDma 1 (NVM_PAGE_ALIGN (ucast (ucast (cp_page_size ctrl * of_nat (unat np)) :: u32)) (push_bit 16 1))) bus"
    and "e < np"
  shows "device_pages (list_mem (createDma 1 (NVM_PAGE_ALIGN (ucast (ucast (cp_page_size ctrl * of_nat (unat np)) :: u32)) (push_bit 16 1))) pt)
      bus (unat (cp_page_size ctrl) div 8) (slot_pages ps (cp_page_size ctrl)) (rw_cmd pc cid opc lba n e) =
    map (\<lambda>t. bus_of (createDma 0 (NVM_PAGE_ALIGN (ps * np) (push_bit 16 1))) (unat e * unat ps + t * unat (cp_page_size ctrl)))
      [0..<slot_pages ps (cp_page_size ctrl)]"
  by (rule slot_prps [OF assms])

theorem slot_prps_correct_witness:
  "device_pages (list_mem (witness_dma 1 0x10000) (snd witness_built)) (\<lambda>_. 0x900000) 512 3 (rw_cmd (fst witness_built) 5 2 0 24 0) =
     [0x10000, 0x11000, 0x12000]"
proof -
  have wf: "wf_cmd (pc_local_cmd witness_pc)" by (simp add: witness_pc_def wf_cmd_def)
  have sz: "witness_dma n s = witness_dma n t" for n s t by (simp add: witness_dma_def)
  have p: "slot_pages 12288 4096 = 3" "cp_page_size setup_ctrl = 4096"
    by (simp_all add: slot_pages_def setup_ctrl_def unat_div_distrib)
  have "[0..<3] = [0, 1, 2::nat]" by (simp add: upt_rec)
  then show ?thesis
    using slot_prps_correct [OF witness_ctor wf witness_dma_ok, of 0 5 2 0 24] witness_bus [of 0] witness_bus [of 4096] witness_bus [of 8192]
    by (simp add: p sz [of "Suc 0" "NVM_PAGE_ALIGN 4096 65536" "65536"])
qed

text \<open>C34: For a maximum number of ranges that is not a power of two the cache mixes up its ranges.  With
  three ranges the constructor computes one bit for the range and the mask 2, so that the address stored
  for any page of range 1 is never read back as one of range 1: evicting or flushing such a page works on
  the page of another range.\<close>

theorem three_ranges_mixed_up:
  assumes "page_cache_ctor ps np ctrl 3 n_ctrls createDma pc0 = Inr (pc, pt)"
  shows "addr_range pc (get_global_address pc 1 pg) \<noteq> 1"
proof -
  note C = page_cache_ctorD [OF assms]
  have m: "pc_n_ranges_mask pc = 2" using C(13) by simp
  have "\<not> bit (addr_range pc (get_global_address pc 1 pg)) 0" by (simp add: addr_range_def m bit_and_iff bit_numeral_rec)
  moreover have "bit (1::u64) 0" by simp
  ultimately show ?thesis by metis
qed

theorem three_ranges_mixed_up_witness:
  "\<exists>pc pt. page_cache_ctor 12288 1 setup_ctrl 3 1 witness_dma witness_pc = Inr (pc, pt) \<and>
     addr_range pc (get_global_address pc 1 5) \<noteq> 1"
proof -
  obtain pc pt where "page_cache_ctor 12288 1 setup_ctrl 3 1 witness_dma witness_pc = Inr (pc, pt)"
    by (simp add: page_cache_ctor_def Let_def setup_ctrl_def)
  then show ?thesis using three_ranges_mixed_up by blast
qed

end
