(* ===== verification/Bam_Array.thy ===== *)
theory Bam_Array
  imports Page_Cache_Setup
begin

text \<open>
  Arrays over the page cache (\<open>array_d_t\<close> of \<open>include/page_cache.h\<close>): the lookup of ranges, the
  coalescing of the lanes of a warp that touch the same page, and the element accesses built on it.
  A warp call is one operation here: the lanes that act are a msk of 32 bits, every lane has an index
  of its own, and the three lists of a \<open>schedule\<close> are the orders in which the hardware lets the lanes
  run through the divergent parts: acquiring, accessing the element, releasing.  A block of the
  cache holds elements, so that the cache has contents \<open>nat \<Rightarrow> 't\<close>.
\<close>

section \<open>Lanes of a warp\<close>

definition active_lanes :: "u32 \<Rightarrow> nat list" where
  "active_lanes msk = filter (bit msk) [0..<32]"

definition lanes_mask :: "nat list \<Rightarrow> u32" where
  "lanes_mask ls = foldr (\<lambda>l m. m OR push_bit l 1) ls 0"

text \<open>The warp primitives \<open>__match_any_sync\<close>, \<open>__popc\<close> and \<open>__ffs\<close>.\<close>

definition match_any :: "u32 \<Rightarrow> (nat \<Rightarrow> 'a) \<Rightarrow> nat \<Rightarrow> u32" where
  "match_any msk v lane = lanes_mask (filter (\<lambda>l. v l = v lane) (active_lanes msk))"

definition popc :: "u32 \<Rightarrow> u32" where
  "popc m = of_nat (length (active_lanes m))"

definition ffs :: "u32 \<Rightarrow> nat" where
  "ffs m = (case active_lanes m of [] \<Rightarrow> 0 | l # _ \<Rightarrow> l + 1)"

record schedule =
  sd_acquire :: "nat list"
  sd_access :: "nat list"
  sd_release :: "nat list"

section \<open>Ranges and indices\<close>

record array_d_t =
  ad_sizeof_T :: u64
  ad_ranges :: "range_d_t list"

text \<open>The position of the first range that passes the test of \<open>find_range\<close>, \<open>None\<close> for -1.\<close>

fun find_range_from :: "range_d_t list \<Rightarrow> nat \<Rightarrow> u64 \<Rightarrow> nat option" where
  "find_range_from [] k i = None"
| "find_range_from (rng # rs) k i =
     (if rd_index_start rng \<le> i \<and> rd_count rng > i then Some k else find_range_from rs (k + 1) i)"

definition find_range :: "array_d_t \<Rightarrow> u64 \<Rightarrow> nat option" where
  "find_range arr i = find_range_from (ad_ranges arr) 0 i"

definition get_page :: "'b page_cache \<Rightarrow> u64 \<Rightarrow> range_d_t \<Rightarrow> u64 \<Rightarrow> u64" where
  "get_page pc sz rng i = drop_bit (unat (pc_page_size_log pc)) ((i - rd_index_start rng) * sz + rd_page_start_offset rng)"

definition get_subindex :: "'b page_cache \<Rightarrow> u64 \<Rightarrow> range_d_t \<Rightarrow> u64 \<Rightarrow> u64" where
  "get_subindex pc sz rng i = ((i - rd_index_start rng) * sz + rd_page_start_offset rng) AND (pc_page_size pc - 1)"

text \<open>What a lane computes of its index before it meets the others.\<close>

record lane_t =
  ln_rng :: u64
  ln_page :: u64
  ln_sub :: u64
  ln_gaddr :: u64

definition array_lane :: "'b page_cache \<Rightarrow> array_d_t \<Rightarrow> u64 \<Rightarrow> lane_t" where
  "array_lane pc arr i =
     (let rng = ad_ranges arr ! the (find_range arr i);
          page = get_page pc (ad_sizeof_T arr) rng i
      in \<lparr>ln_rng = rd_range_id rng, ln_page = page, ln_sub = get_subindex pc (ad_sizeof_T arr) rng i,
          ln_gaddr = get_global_address pc (rd_range_id rng) page\<rparr>)"

text \<open>The active mask inside the branch that is taken for \<open>r != -1\<close>.\<close>

definition found_mask :: "array_d_t \<Rightarrow> u32 \<Rightarrow> (nat \<Rightarrow> u64) \<Rightarrow> u32" where
  "found_mask arr msk idx = lanes_mask (filter (\<lambda>l. find_range arr (idx l) \<noteq> None) (active_lanes msk))"

definition get_page_gid :: "'b page_cache \<Rightarrow> array_d_t \<Rightarrow> u64 \<Rightarrow> (u64 \<times> u64 \<times> u64) option" where
  "get_page_gid pc arr i =
     (case find_range arr i of
        None \<Rightarrow> None
      | Some r \<Rightarrow>
          (let rng = ad_ranges arr ! r; pg = get_page pc (ad_sizeof_T arr) rng i
           in Some (rd_range_id rng, pg, get_global_address pc (rd_range_id rng) pg)))"

section \<open>Coalescing\<close>

text \<open>All lanes call on the same array, so that the match of \<open>this\<close> is one of equal values.\<close>

definition eq_mask_of :: "u32 \<Rightarrow> (nat \<Rightarrow> lane_t) \<Rightarrow> nat \<Rightarrow> u32" where
  "eq_mask_of msk L lane = match_any msk (\<lambda>l. ln_gaddr (L l)) lane AND match_any msk (\<lambda>_. ()) lane"

definition master_of :: "u32 \<Rightarrow> (nat \<Rightarrow> lane_t) \<Rightarrow> nat \<Rightarrow> nat" where
  "master_of msk L lane = ffs (eq_mask_of msk L lane) - 1"

definition count_of :: "u32 \<Rightarrow> (nat \<Rightarrow> lane_t) \<Rightarrow> nat \<Rightarrow> u32" where
  "count_of msk L lane = popc (eq_mask_of msk L lane)"

text \<open>The masters acquire their pages, one after the other; \<open>base\<close> is the variable of each lane.\<close>

fun coalesce_acquire ::
  "u32 \<Rightarrow> (nat \<Rightarrow> lane_t) \<Rightarrow> bool \<Rightarrow> u32 \<Rightarrow> nat list \<Rightarrow> 'b page_cache \<Rightarrow> (nat \<Rightarrow> u64) \<Rightarrow> ('b page_cache \<times> (nat \<Rightarrow> u64)) option"
where
  "coalesce_acquire msk L write queue [] pc base = Some (pc, base)"
| "coalesce_acquire msk L write queue (l # ls) pc base =
     (if master_of msk L l = l then
        (case acquire_page pc (ln_rng (L l)) (ln_page (L l)) (count_of msk L l) write queue of
           None \<Rightarrow> None
         | Some (pc1, b) \<Rightarrow> coalesce_acquire msk L write queue ls pc1 (base(l := b)))
      else coalesce_acquire msk L write queue ls pc base)"

definition coalesce_page ::
  "'b page_cache \<Rightarrow> u32 \<Rightarrow> (nat \<Rightarrow> lane_t) \<Rightarrow> bool \<Rightarrow> u32 \<Rightarrow> nat list \<Rightarrow> ('b page_cache \<times> (nat \<Rightarrow> u64)) option"
where
  "coalesce_page pc msk L write smid order =
     (let queue = smid mod pc_n_qps pc 0 in
      case coalesce_acquire msk L write queue order pc (\<lambda>_. 0) of
        None \<Rightarrow> None
      | Some (pc1, base) \<Rightarrow> Some (pc1, \<lambda>l. base (master_of msk L l)))"

fun coalesce_release :: "u32 \<Rightarrow> (nat \<Rightarrow> lane_t) \<Rightarrow> nat list \<Rightarrow> 'b page_cache \<Rightarrow> 'b page_cache" where
  "coalesce_release msk L [] pc = pc"
| "coalesce_release msk L (l # ls) pc =
     coalesce_release msk L ls
       (if master_of msk L l = l then release_page pc (ln_rng (L l)) (ln_page (L l)) (count_of msk L l) else pc)"

section \<open>Element accesses\<close>

text \<open>An element behind an address of the cache memory: the slot it lies in, its block there, its place in the block.\<close>

definition elems_per_block :: "'b page_cache \<Rightarrow> u64 \<Rightarrow> nat" where
  "elems_per_block pc sz = unat (pc_page_size pc) div unat (pc_n_blocks_per_page pc) div unat sz"

definition load_T :: "(nat \<Rightarrow> 't) page_cache \<Rightarrow> u64 \<Rightarrow> u64 \<Rightarrow> 't" where
  "load_T pc sz a =
     (let off = unat (a - pc_base_addr pc); ps = unat (pc_page_size pc);
          e = off mod ps div unat sz
      in frame pc (pc_prp1 pc (of_nat (off div ps))) (e div elems_per_block pc sz) (e mod elems_per_block pc sz))"

definition store_T :: "(nat \<Rightarrow> 't) page_cache \<Rightarrow> u64 \<Rightarrow> u64 \<Rightarrow> 't \<Rightarrow> (nat \<Rightarrow> 't) page_cache" where
  "store_T pc sz a v =
     (let off = unat (a - pc_base_addr pc); ps = unat (pc_page_size pc);
          e = off mod ps div unat sz;
          p = pc_prp1 pc (of_nat (off div ps)); k = e div elems_per_block pc sz
      in pc\<lparr>frame := (frame pc)(p := (frame pc p)(k := (frame pc p k)(e mod elems_per_block pc sz := v)))\<rparr>)"

definition lane_addr :: "'b page_cache \<Rightarrow> (nat \<Rightarrow> lane_t) \<Rightarrow> (nat \<Rightarrow> u64) \<Rightarrow> nat \<Rightarrow> u64" where
  "lane_addr pc L base l = get_cache_page_addr pc (ucast (base l)) + ln_sub (L l)"

text \<open>Lanes without a range return what the uninitialised \<open>ret\<close> holds (\<open>junk\<close>).\<close>

definition seq_read ::
  "(nat \<Rightarrow> 't) page_cache \<Rightarrow> array_d_t \<Rightarrow> u32 \<Rightarrow> (nat \<Rightarrow> u64) \<Rightarrow> u32 \<Rightarrow> schedule \<Rightarrow> (nat \<Rightarrow> 't) \<Rightarrow> ((nat \<Rightarrow> 't) page_cache \<times> (nat \<Rightarrow> 't)) option"
where
  "seq_read pc arr msk0 idx smid sd junk =
     (let msk = found_mask arr msk0 idx; L = (\<lambda>l. array_lane pc arr (idx l)) in
      case coalesce_page pc msk L False smid (sd_acquire sd) of
        None \<Rightarrow> None
      | Some (pc1, base) \<Rightarrow>
          (let ret = (\<lambda>l. if bit msk l then load_T pc1 (ad_sizeof_T arr) (lane_addr pc1 L base l) else junk l)
           in Some (coalesce_release msk L (sd_release sd) pc1, ret)))"

definition seq_write ::
  "(nat \<Rightarrow> 't) page_cache \<Rightarrow> array_d_t \<Rightarrow> u32 \<Rightarrow> (nat \<Rightarrow> u64) \<Rightarrow> (nat \<Rightarrow> 't) \<Rightarrow> u32 \<Rightarrow> schedule \<Rightarrow> (nat \<Rightarrow> 't) page_cache option"
where
  "seq_write pc arr msk0 idx val smid sd =
     (let msk = found_mask arr msk0 idx; L = (\<lambda>l. array_lane pc arr (idx l)) in
      case coalesce_page pc msk L True smid (sd_acquire sd) of
        None \<Rightarrow> None
      | Some (pc1, base) \<Rightarrow>
          (let pc2 = foldl (\<lambda>p l. store_T p (ad_sizeof_T arr) (lane_addr p L base l) (val l)) pc1 (sd_access sd)
           in Some (coalesce_release msk L (sd_release sd) pc2)))"

text \<open>\<open>AtomicAdd\<close> acquires without \<open>coalesce_page\<close>, with a queue of the controller that is next in turn.\<close>

fun atomic_adds ::
  "u64 \<Rightarrow> (nat \<Rightarrow> lane_t) \<Rightarrow> (nat \<Rightarrow> u64) \<Rightarrow> (nat \<Rightarrow> 't::plus) \<Rightarrow> nat list \<Rightarrow> (nat \<Rightarrow> 't) page_cache \<Rightarrow> (nat \<Rightarrow> 't) \<Rightarrow>
   (nat \<Rightarrow> 't) page_cache \<times> (nat \<Rightarrow> 't)"
where
  "atomic_adds sz L base val [] pc old = (pc, old)"
| "atomic_adds sz L base val (l # ls) pc old =
     (let a = lane_addr pc L base l; v = load_T pc sz a
      in atomic_adds sz L base val ls (store_T pc sz a (v + val l)) (old(l := v)))"

definition AtomicAdd ::
  "(nat \<Rightarrow> 't::{plus,zero}) page_cache \<Rightarrow> array_d_t \<Rightarrow> u32 \<Rightarrow> (nat \<Rightarrow> u64) \<Rightarrow> (nat \<Rightarrow> 't) \<Rightarrow> u32 \<Rightarrow> schedule \<Rightarrow>
   ((nat \<Rightarrow> 't) page_cache \<times> (nat \<Rightarrow> 't)) option"
where
  "AtomicAdd pc0 arr msk0 idx val smid sd =
     (let msk = found_mask arr msk0 idx; L = (\<lambda>l. array_lane pc0 arr (idx l)) in
      if msk = 0 then Some (pc0, \<lambda>_. 0)
      else
       (let ctrl = pc_ctrl_counter pc0 mod pc_n_ctrls pc0;
            pc = pc0\<lparr>pc_ctrl_counter := pc_ctrl_counter pc0 + 1\<rparr>;
            queue = smid mod pc_n_qps pc ctrl
        in case coalesce_acquire msk L True queue (sd_acquire sd) pc (\<lambda>_. 0) of
             None \<Rightarrow> None
           | Some (pc1, base) \<Rightarrow>
               (let (pc2, old) = atomic_adds (ad_sizeof_T arr) L (\<lambda>l. base (master_of msk L l)) val (sd_access sd) pc1 (\<lambda>_. 0)
                in Some (coalesce_release msk L (sd_release sd) pc2, old))))"

section \<open>Lemmas: lanes\<close>

lemma bit_lanes_mask: "bit (lanes_mask ls) l \<longleftrightarrow> l \<in> set ls \<and> l < 32"
  by (induction ls) (auto simp: lanes_mask_def bit_or_iff bit_push_bit_iff bit_1_iff simp del: push_bit_of_1)

lemma set_active: "l \<in> set (active_lanes m) \<longleftrightarrow> bit m l"
proof -
  have "l < 32" if "bit m l" using that bit_imp_le_length [of m l] by simp
  then show ?thesis by (auto simp: active_lanes_def)
qed

lemma active_lanes_mask: "active_lanes (lanes_mask (filter P (active_lanes m))) = filter P (active_lanes m)"
proof -
  have "bit (lanes_mask (filter P (active_lanes m))) = (\<lambda>l. bit m l \<and> P l)"
    using bit_imp_le_length [of m] by (auto simp: fun_eq_iff bit_lanes_mask set_active)
  then show ?thesis by (simp add: active_lanes_def conj_commute)
qed

lemma bit_match_any: "bit (match_any m v lane) l \<longleftrightarrow> bit m l \<and> v l = v lane"
  using bit_imp_le_length [of m l] by (auto simp: match_any_def bit_lanes_mask set_active)

lemma bit_found_mask: "bit (found_mask arr m idx) l \<longleftrightarrow> bit m l \<and> find_range arr (idx l) \<noteq> None"
  using bit_imp_le_length [of m l] by (auto simp: found_mask_def bit_lanes_mask set_active)

lemma bit_eq_mask: "bit (eq_mask_of m L lane) l \<longleftrightarrow> bit m l \<and> ln_gaddr (L l) = ln_gaddr (L lane)"
  by (auto simp: eq_mask_of_def bit_and_iff bit_match_any)

lemma eq_mask_lanes: "active_lanes (eq_mask_of m L lane) = filter (\<lambda>l. ln_gaddr (L l) = ln_gaddr (L lane)) (active_lanes m)"
  by (auto simp: active_lanes_def bit_eq_mask intro: filter_cong)

text \<open>The masters: one for every address that occurs, the first lane with it.\<close>

lemma master:
  assumes "bit m l"
  shows "bit m (master_of m L l)" "ln_gaddr (L (master_of m L l)) = ln_gaddr (L l)"
    "master_of m L (master_of m L l) = master_of m L l"
proof -
  have "l \<in> set (active_lanes (eq_mask_of m L l))" using assms by (simp add: set_active bit_eq_mask)
  then obtain a as where a: "active_lanes (eq_mask_of m L l) = a # as" by (cases "active_lanes (eq_mask_of m L l)") auto
  then have ma: "master_of m L l = a" by (simp add: master_of_def ffs_def)
  have "a \<in> set (active_lanes (eq_mask_of m L l))" using a by simp
  then show g: "bit m (master_of m L l)" "ln_gaddr (L (master_of m L l)) = ln_gaddr (L l)" by (simp_all add: ma set_active bit_eq_mask)
  have "active_lanes (eq_mask_of m L a) = active_lanes (eq_mask_of m L l)" using g(2) by (simp add: eq_mask_lanes ma)
  then show "master_of m L (master_of m L l) = master_of m L l" by (simp add: ma master_of_def ffs_def a)
qed

lemma master_cong: "ln_gaddr (L l) = ln_gaddr (L l') \<Longrightarrow> master_of m L l = master_of m L l'"
  by (simp add: master_of_def ffs_def eq_mask_lanes)

lemma count_of_bounds: "bit m l \<Longrightarrow> 0 < unat (count_of m L l) \<and> unat (count_of m L l) \<le> 32"
proof -
  assume "bit m l"
  then have "l \<in> set (active_lanes (eq_mask_of m L l))" by (simp add: set_active bit_eq_mask)
  then have p: "0 < length (active_lanes (eq_mask_of m L l))" by (rule length_pos_if_in_set)
  have "length (active_lanes (eq_mask_of m L l)) \<le> length [0..<32::nat]" unfolding active_lanes_def by (rule length_filter_le)
  then show ?thesis using p by (simp add: count_of_def popc_def unat_of_nat)
qed

section \<open>Lemmas: elements\<close>

definition ad_ok :: "'b page_cache \<Rightarrow> array_d_t \<Rightarrow> bool" where
  "ad_ok pc arr \<longleftrightarrow> 0 < unat (ad_sizeof_T arr) \<and>
     (\<exists>k < 64. unat (pc_page_size_log pc) = k \<and> pc_page_size pc = push_bit k 1) \<and>
     0 < elems_per_block pc (ad_sizeof_T arr) \<and>
     unat (pc_page_size pc) = nblk pc * elems_per_block pc (ad_sizeof_T arr) * unat (ad_sizeof_T arr) \<and>
     unat (pc_n_pages pc) * unat (pc_page_size pc) \<le> 2 ^ 64 \<and>
     distinct (map rd_range_id (ad_ranges arr)) \<and>
     (\<forall>rng \<in> set (ad_ranges arr). rd_range_id rng < pc_n_ranges pc \<and> unat (ad_sizeof_T arr) dvd unat (rd_page_start_offset rng) \<and>
        (unat (rd_count rng) - unat (rd_index_start rng)) * unat (ad_sizeof_T arr) + unat (rd_page_start_offset rng)
          \<le> unat (pc_page_counts pc (rd_range_id rng)) * unat (pc_page_size pc) \<and>
        unat (pc_page_counts pc (rd_range_id rng)) * unat (pc_page_size pc) < 2 ^ 64)"

lemma cfg_eq_array:
  assumes "cfg_eq pc' pc"
  shows "ad_ok pc' arr = ad_ok pc arr" "elems_per_block pc' sz = elems_per_block pc sz" "array_lane pc' arr i = array_lane pc arr i"
  using assms cfg_eqD(5,7) [OF assms]
  by (simp_all add: cfg_eq_def ad_ok_def elems_per_block_def array_lane_def Let_def get_page_def get_subindex_def)

lemma find_range_from_some:
  "find_range_from rs k i = Some j \<Longrightarrow> k \<le> j \<and> j - k < length rs \<and> rd_index_start (rs ! (j - k)) \<le> i \<and> i < rd_count (rs ! (j - k))"
proof (induction rs arbitrary: k)
  case (Cons rng rs)
  show ?case
  proof (cases "rd_index_start rng \<le> i \<and> rd_count rng > i")
    case False
    then have "find_range_from rs (k + 1) i = Some j" using Cons.prems by auto
    then have IH: "k + 1 \<le> j" "j - (k + 1) < length rs" "rd_index_start (rs ! (j - (k + 1))) \<le> i" "i < rd_count (rs ! (j - (k + 1)))"
      using Cons.IH by blast+
    then have "j - k = Suc (j - (k + 1))" by simp
    then show ?thesis using IH by simp
  qed (use Cons.prems in auto)
qed simp

lemma find_range_some:
  assumes "find_range arr i = Some k"
  shows "k < length (ad_ranges arr)" "rd_index_start (ad_ranges arr ! k) \<le> i" "i < rd_count (ad_ranges arr ! k)"
  using find_range_from_some [of "ad_ranges arr" 0 i k] assms by (simp_all add: find_range_def)

text \<open>The byte offset of an element in its range.\<close>

definition byte_off :: "array_d_t \<Rightarrow> nat \<Rightarrow> u64 \<Rightarrow> nat" where
  "byte_off arr k i = (unat i - unat (rd_index_start (ad_ranges arr ! k))) * unat (ad_sizeof_T arr) + unat (rd_page_start_offset (ad_ranges arr ! k))"

lemma byte_off:
  assumes ok: "ad_ok pc arr" and f: "find_range arr i = Some k"
  shows "unat ((i - rd_index_start (ad_ranges arr ! k)) * ad_sizeof_T arr + rd_page_start_offset (ad_ranges arr ! k)) = byte_off arr k i"
    "byte_off arr k i + unat (ad_sizeof_T arr) \<le> unat (pc_page_counts pc (rd_range_id (ad_ranges arr ! k))) * unat (pc_page_size pc)"
    "unat (ad_sizeof_T arr) dvd byte_off arr k i"
proof -
  let ?rng = "ad_ranges arr ! k" and ?sz = "ad_sizeof_T arr"
  note F = find_range_some [OF f]
  have r: "(unat (rd_count ?rng) - unat (rd_index_start ?rng)) * unat ?sz + unat (rd_page_start_offset ?rng)
          \<le> unat (pc_page_counts pc (rd_range_id ?rng)) * unat (pc_page_size pc)"
      "unat (pc_page_counts pc (rd_range_id ?rng)) * unat (pc_page_size pc) < 2 ^ 64" "unat ?sz dvd unat (rd_page_start_offset ?rng)"
    using ok nth_mem [OF F(1)] by (auto simp: ad_ok_def)
  have "Suc (unat i - unat (rd_index_start ?rng)) \<le> unat (rd_count ?rng) - unat (rd_index_start ?rng)"
    using F by (simp add: word_less_nat_alt word_le_nat_alt)
  then have "Suc (unat i - unat (rd_index_start ?rng)) * unat ?sz \<le> (unat (rd_count ?rng) - unat (rd_index_start ?rng)) * unat ?sz"
    by (rule mult_le_mono1)
  then show b: "byte_off arr k i + unat ?sz \<le> unat (pc_page_counts pc (rd_range_id ?rng)) * unat (pc_page_size pc)"
    using r(1) by (simp add: byte_off_def)
  have d: "unat (i - rd_index_start ?rng) = unat i - unat (rd_index_start ?rng)" using F(2) by (rule unat_sub)
  have l: "byte_off arr k i < 2 ^ 64" using b r(2) by linarith
  then have "unat (i - rd_index_start ?rng) * unat ?sz < 2 ^ 64" by (simp add: byte_off_def d)
  then have m: "unat ((i - rd_index_start ?rng) * ?sz) = (unat i - unat (rd_index_start ?rng)) * unat ?sz"
    unfolding d [symmetric] using unat_mult_lem [of "i - rd_index_start ?rng" ?sz] by simp
  have "unat ((i - rd_index_start ?rng) * ?sz) + unat (rd_page_start_offset ?rng) < 2 ^ LENGTH(64)" using l by (simp add: m byte_off_def)
  then show "unat ((i - rd_index_start ?rng) * ?sz + rd_page_start_offset ?rng) = byte_off arr k i"
    by (subst unat_add_bounded) (simp_all add: m byte_off_def)
  show "unat ?sz dvd byte_off arr k i" using r(3) by (simp add: byte_off_def)
qed

lemma and_pow2_minus_1: "k < 64 \<Longrightarrow> unat (x AND (push_bit k 1 - 1)) = unat x mod 2 ^ k" for x :: u64
proof -
  assume "k < 64"
  have "x AND (push_bit k 1 - 1) = take_bit k x" unfolding push_bit_one_minus_one by (rule take_bit_eq_mask [symmetric])
  then have "unat (x AND (push_bit k 1 - 1)) = take_bit k (unat x)" by (simp only: unsigned_take_bit_eq)
  then show ?thesis by (simp only: take_bit_eq_mod)
qed

lemma unat_drop: "unat (drop_bit k x) = unat x div 2 ^ k" for x :: u64
proof -
  have "unat (drop_bit k x) = drop_bit k (unat x)" by (rule bit_eqI) (simp add: bit_unsigned_iff bit_drop_bit_eq)
  then show ?thesis by (simp only: drop_bit_eq_div)
qed

text \<open>Where an index lives: range, page and element of the page.\<close>

definition elem_loc :: "'b page_cache \<Rightarrow> array_d_t \<Rightarrow> u64 \<Rightarrow> (u64 \<times> u64 \<times> nat) option" where
  "elem_loc pc arr i =
     (case find_range arr i of
        None \<Rightarrow> None
      | Some _ \<Rightarrow> (let ln = array_lane pc arr i in Some (ln_rng ln, ln_page ln, unat (ln_sub ln) div unat (ad_sizeof_T arr))))"

lemma array_lane:
  assumes ok: "ad_ok pc arr" and f: "find_range arr i = Some k"
  shows "ln_rng (array_lane pc arr i) = rd_range_id (ad_ranges arr ! k)"
    "unat (ln_page (array_lane pc arr i)) = byte_off arr k i div unat (pc_page_size pc)"
    "unat (ln_sub (array_lane pc arr i)) = byte_off arr k i mod unat (pc_page_size pc)"
    "ln_gaddr (array_lane pc arr i) = get_global_address pc (ln_rng (array_lane pc arr i)) (ln_page (array_lane pc arr i))"
    "in_dom pc (ln_rng (array_lane pc arr i)) (ln_page (array_lane pc arr i))"
    "unat (ad_sizeof_T arr) dvd unat (ln_sub (array_lane pc arr i))"
    "unat (ln_sub (array_lane pc arr i)) < unat (pc_page_size pc)"
    "unat (ln_sub (array_lane pc arr i)) div unat (ad_sizeof_T arr) < nblk pc * elems_per_block pc (ad_sizeof_T arr)"
proof -
  let ?rng = "ad_ranges arr ! k" and ?sz = "ad_sizeof_T arr" and ?ln = "array_lane pc arr i" and ?ps = "unat (pc_page_size pc)"
  obtain e where e: "e < 64" "unat (pc_page_size_log pc) = e" "pc_page_size pc = push_bit e 1" using ok by (auto simp: ad_ok_def)
  have ps: "?ps = 2 ^ e" using unat_pow2 [OF e(1)] e(3) by simp
  note B = byte_off [OF ok f]
  show r: "ln_rng ?ln = rd_range_id ?rng" by (simp add: array_lane_def Let_def f)
  show p: "unat (ln_page ?ln) = byte_off arr k i div ?ps"
    by (simp add: array_lane_def Let_def f get_page_def unat_drop B(1) e(2) ps)
  show s: "unat (ln_sub ?ln) = byte_off arr k i mod ?ps"
    unfolding ps by (simp add: array_lane_def Let_def f get_subindex_def e(3) and_pow2_minus_1 [OF e(1)] B(1) del: push_bit_of_1)
  show "ln_gaddr ?ln = get_global_address pc (ln_rng ?ln) (ln_page ?ln)" by (simp add: array_lane_def Let_def f)
  have sz: "0 < unat ?sz" and pz: "?ps = nblk pc * elems_per_block pc ?sz * unat ?sz" using ok by (auto simp: ad_ok_def)
  have "byte_off arr k i < unat (pc_page_counts pc (rd_range_id ?rng)) * ?ps" using B(2) sz by linarith
  then have "byte_off arr k i div ?ps < unat (pc_page_counts pc (rd_range_id ?rng))" by (rule less_mult_imp_div_less)
  moreover have "rd_range_id ?rng < pc_n_ranges pc" using ok find_range_some(1) [OF f] by (auto simp: ad_ok_def)
  ultimately show "in_dom pc (ln_rng ?ln) (ln_page ?ln)" by (simp add: in_dom_def r word_less_nat_alt p)
  have "unat ?sz dvd ?ps" unfolding pz by simp
  then show d: "unat ?sz dvd unat (ln_sub ?ln)" unfolding s using B(3) by (simp add: dvd_mod)
  show l: "unat (ln_sub ?ln) < ?ps" unfolding s ps by simp
  then have "unat (ln_sub ?ln) < nblk pc * elems_per_block pc ?sz * unat ?sz" using pz by linarith
  then show "unat (ln_sub ?ln) div unat ?sz < nblk pc * elems_per_block pc ?sz" by (rule less_mult_imp_div_less)
qed

lemma elem_loc_inj:
  assumes ok: "ad_ok pc arr" and i: "elem_loc pc arr i = Some x" and j: "elem_loc pc arr j = Some x"
  shows "i = j"
proof -
  obtain k where k: "find_range arr i = Some k" using i by (auto simp: elem_loc_def split: option.splits)
  obtain k' where k': "find_range arr j = Some k'" using j by (auto simp: elem_loc_def split: option.splits)
  note A = array_lane [OF ok k] and A' = array_lane [OF ok k']
  have e: "ln_rng (array_lane pc arr i) = ln_rng (array_lane pc arr j)" "ln_page (array_lane pc arr i) = ln_page (array_lane pc arr j)"
      "unat (ln_sub (array_lane pc arr i)) div unat (ad_sizeof_T arr) = unat (ln_sub (array_lane pc arr j)) div unat (ad_sizeof_T arr)"
    using i j k k' by (auto simp: elem_loc_def Let_def)
  have "map rd_range_id (ad_ranges arr) ! k = map rd_range_id (ad_ranges arr) ! k'"
    using e(1) A(1) A'(1) find_range_some(1) [OF k] find_range_some(1) [OF k'] by simp
  then have kk: "k = k'"
    using ok find_range_some(1) [OF k] find_range_some(1) [OF k'] by (simp add: ad_ok_def distinct_conv_nth) metis
  have "unat (ln_sub (array_lane pc arr i)) = unat (ln_sub (array_lane pc arr j))"
    using e(3) A(6) A'(6) by (metis dvd_div_mult_self)
  then have "byte_off arr k i mod unat (pc_page_size pc) = byte_off arr k' j mod unat (pc_page_size pc)"
      "byte_off arr k i div unat (pc_page_size pc) = byte_off arr k' j div unat (pc_page_size pc)"
    using e(2) A(2,3) A'(2,3) by simp_all
  then have "byte_off arr k i = byte_off arr k j" unfolding kk by (metis div_mult_mod_eq)
  then have "unat i - unat (rd_index_start (ad_ranges arr ! k)) = unat j - unat (rd_index_start (ad_ranges arr ! k))"
    using ok by (auto simp: byte_off_def ad_ok_def)
  then have "unat i = unat j"
    using find_range_some(2) [OF k] find_range_some(2) [OF k'] kk by (simp add: word_le_nat_alt)
  then show ?thesis by (simp add: word_unat_eq_iff)
qed

section \<open>Lemmas: pages without pending prefetches\<close>

definition unprefetched :: "data_page_t \<Rightarrow> bool" where
  "unprefetched p \<longleftrightarrow> dp_prefetch_count p = 0 \<and> dp_prefetch_counter p = 0"

definition no_prefetch :: "'b page_cache \<Rightarrow> bool" where
  "no_prefetch pc \<longleftrightarrow> (\<forall>r pg. in_dom pc r pg \<longrightarrow> unprefetched (pc_ranges pc r pg))"

lemma prefetch_enter_0: "unprefetched p \<Longrightarrow> prefetch_enter p = (p, 0)"
  by (simp add: unprefetched_def prefetch_enter_def)

lemma unprefetched_extra: "unprefetched p \<Longrightarrow> extra_count p = 0" "unprefetched p \<Longrightarrow> release_extra p = 0"
  by (simp_all add: extra_count_def prefetch_enter_0 release_extra_def) (simp add: unprefetched_def prefetch_leave_def)

lemma unprefetched_upd [simp]: "unprefetched (p\<lparr>dp_state := s\<rparr>) = unprefetched p" "unprefetched (p\<lparr>dp_offset := x\<rparr>) = unprefetched p"
  "unprefetched (p\<lparr>dp_ref_count := y\<rparr>) = unprefetched p"
  by (simp_all add: unprefetched_def)

lemma entered_unprefetched: "unprefetched (pc_ranges pc r pg) \<Longrightarrow> unprefetched (pc_ranges (entered pc r pg count) r pg)"
  by (simp add: entered_def prefetch_enter_0 upd_state_def upd_page_def)

lemma entered_cpu: "dp_cpu_feature_offset (pc_ranges (entered pc r pg count) r pg) = dp_cpu_feature_offset (pc_ranges pc r pg)"
  by (auto simp: entered_def prefetch_enter_def upd_state_def upd_page_def Let_def split: prod.splits)

lemma acquire_unprefetched:
  fixes pc :: "'b page_cache"
  defines "cpu \<equiv> \<lambda>pc :: 'b page_cache. \<lambda>r pg. dp_cpu_feature_offset (pc_ranges pc r pg)"
  assumes inv: "cache_inv pc" and dom: "in_dom pc r pg"
    and b: "cnt_of (dstate pc r pg) + unat count + extra_count (pc_ranges pc r pg) < 2 ^ 29"
    and u: "unprefetched (pc_ranges pc r pg)" and a: "acquire_page pc r pg count w q = Some (pc', s)"
  shows "unprefetched (pc_ranges pc' r pg)" "cpu pc' r pg = cpu pc r pg"
proof -
  have "unprefetched (pc_ranges pc' r pg) \<and> cpu pc' r pg = cpu pc r pg"
  proof (cases "is_valid (dstate pc r pg)")
    case True
    have nb: "\<not> is_busy (dstate pc r pg)" using inv dom by (simp add: cache_inv_def quiet_def)
    have "state_of_word (dstate pc r pg) = V_NB" "state_of_word (dstate pc r pg) \<noteq> NV_NB" using True nb by (simp_all add: state_of_word_cases)
    then show ?thesis using a entered_unprefetched [OF u, of count] entered_cpu [of pc r pg count] unfolding acquire_page_entered
      by (subst (asm) acquire_loop.simps) (auto simp: cpu_def Let_def upd_state_def upd_page_def split: if_splits)
  next
    case False
    let ?B = "busied pc r pg count"
    have d: "in_dom ?B r pg" "\<not> is_valid (dstate ?B r pg)" "is_busy (dstate ?B r pg)"
      using dom False busied_page(1,2) [OF b] cfg_eqD(2) [OF busied_page(6) [OF b]] by simp_all
    have f: "acquire_fill ?B r pg count w q = Some (pc', s)" using a acquire_miss_eq [OF inv dom False b] by simp
    then obtain pc1 t where t: "find_slot ?B pg r q = Some (pc1, t)" by (auto simp: acquire_fill_def split: option.splits)
    have "pc_ranges pc' r pg = (pc_ranges ?B r pg)\<lparr>dp_offset := t,
        dp_state := (if w then dstate ?B r pg OR DIRTY else dstate ?B r pg) XOR DISABLE_BUSY_ENABLE_VALID\<rparr>"
      using acquire_fill_ok [OF inv0_busied(1) [OF inv False dom b] d t, of count w] f by auto
    moreover have "unprefetched (pc_ranges ?B r pg)"
      using entered_unprefetched [OF u, of count] by (simp add: busied_def upd_state_def upd_page_def)
    moreover have "cpu ?B r pg = cpu pc r pg" using entered_cpu [of pc r pg count] by (simp add: cpu_def busied_def upd_state_def upd_page_def)
    ultimately show ?thesis by (simp add: cpu_def)
  qed
  then show "unprefetched (pc_ranges pc' r pg)" "cpu pc' r pg = cpu pc r pg" by blast+
qed

lemma others_kept_unprefetched:
  "\<lbrakk>others_kept pc pc' r pg; (r', pg') \<noteq> (r, pg); unprefetched (pc_ranges pc r' pg')\<rbrakk> \<Longrightarrow> unprefetched (pc_ranges pc' r' pg')"
  unfolding others_kept_def by (metis unprefetched_upd(1))

lemma others_kept_cpu:
  assumes "others_kept pc pc' r pg" and "(r', pg') \<noteq> (r, pg)"
  shows "dp_cpu_feature_offset (pc_ranges pc' r' pg') = dp_cpu_feature_offset (pc_ranges pc r' pg')"
proof -
  consider "pc_ranges pc' r' pg' = pc_ranges pc r' pg'" | "pc_ranges pc' r' pg' = (pc_ranges pc r' pg')\<lparr>dp_state := 0\<rparr>"
    using assms unfolding others_kept_def by blast
  then show ?thesis by cases simp_all
qed

section \<open>Lemmas: a warp at work\<close>

text \<open>
  The state inside a warp call, against the state \<open>pc\<close> before it: \<open>H\<close> is the number of users the
  warp has added to each page, \<open>B\<close> the slot of each page it holds, \<open>V\<close> the contents.
\<close>

definition warp_state ::
  "'b page_cache \<Rightarrow> (u64 \<times> u64 \<Rightarrow> nat) \<Rightarrow> (u64 \<times> u64 \<Rightarrow> u64) \<Rightarrow> bool \<Rightarrow> (u64 \<Rightarrow> u64 \<Rightarrow> nat \<Rightarrow> 'b) \<Rightarrow> 'b page_cache \<Rightarrow> bool"
where
  "warp_state pc H B w V pc' \<longleftrightarrow> cache_inv pc' \<and> cfg_eq pc' pc \<and> no_prefetch pc' \<and>
     (\<forall>r pg. in_dom pc r pg \<longrightarrow> cnt_of (dstate pc' r pg) = cnt_of (dstate pc r pg) + H (r, pg)) \<and>
     (\<forall>r pg. in_dom pc r pg \<longrightarrow> 0 < H (r, pg) \<longrightarrow>
        is_valid (dstate pc' r pg) \<and> B (r, pg) = ucast (doffset pc' r pg) \<and> (w \<longrightarrow> is_dirty (dstate pc' r pg))) \<and>
     (\<forall>r pg k. in_dom pc r pg \<longrightarrow> k < nblk pc \<longrightarrow> content pc' r pg k = V r pg k) \<and>
     (\<forall>r pg. in_dom pc r pg \<longrightarrow> dp_cpu_feature_offset (pc_ranges pc' r pg) = dp_cpu_feature_offset (pc_ranges pc r pg))"

lemma warp_stateD:
  assumes "warp_state pc H B w V pc'"
  shows "cache_inv pc'" "cfg_eq pc' pc" "no_prefetch pc'" "in_dom pc' = in_dom pc" "nblk pc' = nblk pc"
    "in_dom pc r pg \<Longrightarrow> cnt_of (dstate pc' r pg) = cnt_of (dstate pc r pg) + H (r, pg)"
    "in_dom pc r pg \<Longrightarrow> 0 < H (r, pg) \<Longrightarrow>
      is_valid (dstate pc' r pg) \<and> B (r, pg) = ucast (doffset pc' r pg) \<and> (w \<longrightarrow> is_dirty (dstate pc' r pg))"
    "in_dom pc r pg \<Longrightarrow> k < nblk pc \<Longrightarrow> content pc' r pg k = V r pg k"
    "in_dom pc r pg \<Longrightarrow> unprefetched (pc_ranges pc' r pg)"
    "in_dom pc r pg \<Longrightarrow> dp_cpu_feature_offset (pc_ranges pc' r pg) = dp_cpu_feature_offset (pc_ranges pc r pg)"
  using assms cfg_eqD(2,5) [of pc' pc] by (auto simp: warp_state_def no_prefetch_def)

lemma warp_start: "\<lbrakk>cache_inv pc; no_prefetch pc\<rbrakk> \<Longrightarrow> warp_state pc (\<lambda>_. 0) B w (content pc) pc"
  by (simp add: warp_state_def cfg_eq_def)

lemma others_kept_cases:
  assumes "others_kept pc pc' r pg" and "(r', pg') \<noteq> (r, pg)"
  shows "cnt_of (dstate pc' r' pg') = cnt_of (dstate pc r' pg')" "0 < cnt_of (dstate pc r' pg') \<Longrightarrow> pc_ranges pc' r' pg' = pc_ranges pc r' pg'"
proof -
  consider "pc_ranges pc' r' pg' = pc_ranges pc r' pg'" | "evictable pc r' pg'" "pc_ranges pc' r' pg' = (pc_ranges pc r' pg')\<lparr>dp_state := 0\<rparr>"
    using assms unfolding others_kept_def by blast
  then have "cnt_of (dstate pc' r' pg') = cnt_of (dstate pc r' pg') \<and> (0 < cnt_of (dstate pc r' pg') \<longrightarrow> pc_ranges pc' r' pg' = pc_ranges pc r' pg')"
    by cases (simp_all add: dstate_def evictable_def)
  then show "cnt_of (dstate pc' r' pg') = cnt_of (dstate pc r' pg')" "0 < cnt_of (dstate pc r' pg') \<Longrightarrow> pc_ranges pc' r' pg' = pc_ranges pc r' pg'"
    by simp_all
qed

lemma warp_acquire_step:
  assumes ws: "warp_state pc H B w V pc'" and dom: "in_dom pc r pg"
    and b: "cnt_of (dstate pc r pg) + H (r, pg) + unat count < 2 ^ 29" and a: "acquire_page pc' r pg count w q = Some (pc'', s)"
  shows "warp_state pc (H((r, pg) := H (r, pg) + unat count)) (B((r, pg) := s)) w V pc''"
    "0 < H (r, pg) \<Longrightarrow> B (r, pg) = s"
proof -
  note D = warp_stateD [OF ws]
  have dom': "in_dom pc' r pg" using dom D(4) by simp
  have u: "unprefetched (pc_ranges pc' r pg)" by (rule D(9) [OF dom])
  have b': "cnt_of (dstate pc' r pg) + unat count + extra_count (pc_ranges pc' r pg) < 2 ^ 29"
    using b D(6) [OF dom] unprefetched_extra(1) [OF u] by simp
  have A: "acquired pc' pc'' r pg count w s" by (rule acquire_page_ok [OF D(1) dom' b' a])
  show "0 < H (r, pg) \<Longrightarrow> B (r, pg) = s" using A D(7) [OF dom] by (simp add: acquired_def)
  let ?H = "H((r, pg) := H (r, pg) + unat count)"
  from A have k: "others_kept pc' pc'' r pg" and ce: "cfg_eq pc'' pc'" and sc: "same_content pc'' pc'" and i: "cache_inv pc''"
    and own: "is_valid (dstate pc'' r pg)" "s = ucast (doffset pc'' r pg)" "w \<longrightarrow> is_dirty (dstate pc'' r pg)"
      "cnt_of (dstate pc'' r pg) = cnt_of (dstate pc r pg) + H (r, pg) + unat count"
    using D(6) [OF dom] unprefetched_extra(1) [OF u] by (auto simp: acquired_def)
  have np: "no_prefetch pc''" unfolding no_prefetch_def cfg_eqD(2) [OF ce]
    using acquire_unprefetched(1) [OF D(1) dom' b' u a] others_kept_unprefetched [OF k] D(3) unfolding no_prefetch_def by (metis prod.inject)
  have "cnt_of (dstate pc'' r' pg') = cnt_of (dstate pc r' pg') + ?H (r', pg')" if "in_dom pc r' pg'" for r' pg'
    using own(4) others_kept_cases(1) [OF k, of r' pg'] D(6) [OF that] by auto
  moreover have "is_valid (dstate pc'' r' pg') \<and> (B((r, pg) := s)) (r', pg') = ucast (doffset pc'' r' pg') \<and> (w \<longrightarrow> is_dirty (dstate pc'' r' pg'))"
    if d: "in_dom pc r' pg'" and h: "0 < ?H (r', pg')" for r' pg'
  proof (cases "(r', pg') = (r, pg)")
    case True
    then show ?thesis using own by simp
  next
    case False
    then have "0 < H (r', pg')" using h by auto
    then have "pc_ranges pc'' r' pg' = pc_ranges pc' r' pg'" using others_kept_cases(2) [OF k False] D(6) [OF d] by simp
    then show ?thesis using D(7) [OF d \<open>0 < H (r', pg')\<close>] False by (auto simp: dstate_def doffset_def)
  qed
  moreover have "content pc'' r' pg' j = V r' pg' j" if "in_dom pc r' pg'" "j < nblk pc" for r' pg' j
    using sc that D(4,5) D(8) [OF that] by (simp add: same_content_def)
  moreover have "dp_cpu_feature_offset (pc_ranges pc'' r' pg') = dp_cpu_feature_offset (pc_ranges pc r' pg')" if "in_dom pc r' pg'" for r' pg'
    using acquire_unprefetched(2) [OF D(1) dom' b' u a] others_kept_cpu [OF k, of r' pg'] D(10) [OF that] by (cases "(r', pg') = (r, pg)") auto
  ultimately show "warp_state pc ?H (B((r, pg) := s)) w V pc''"
    unfolding warp_state_def using i cfg_eq_trans [OF ce D(2)] np by blast
qed

lemma warp_release_step:
  assumes ws: "warp_state pc H B w V pc'" and dom: "in_dom pc r pg" and H: "unat count \<le> H (r, pg)"
  shows "warp_state pc (H((r, pg) := H (r, pg) - unat count)) B w V (release_page pc' r pg count)"
proof -
  note D = warp_stateD [OF ws]
  let ?pc = "release_page pc' r pg count"
  have dom': "in_dom pc' r pg" using dom D(4) by simp
  have u: "unprefetched (pc_ranges pc' r pg)" by (rule D(9) [OF dom])
  have c: "unat count + release_extra (pc_ranges pc' r pg) \<le> cnt_of (dstate pc' r pg)"
    using D(6) [OF dom] H unprefetched_extra(2) [OF u] by simp
  note R = release_page_ok [OF D(1) dom' c]
  have eq: "pc_ranges ?pc r' pg' = pc_ranges pc' r' pg'" if "(r', pg') \<noteq> (r, pg)" for r' pg'
    using that release_page_eq [of pc' r pg count] by (auto simp: upd_page_def)
  have own: "unprefetched (pc_ranges ?pc r pg)"
    using u by (simp add: release_page_def Let_def split_beta upd_page_def upd_state_def) (simp add: unprefetched_def prefetch_leave_def)
  have np: "no_prefetch ?pc" unfolding no_prefetch_def cfg_eqD(2) [OF R(3)]
  proof (intro allI impI)
    fix r' pg' assume "in_dom pc' r' pg'"
    then show "unprefetched (pc_ranges ?pc r' pg')" using own eq [of r' pg'] D(3) by (cases "(r', pg') = (r, pg)") (auto simp: no_prefetch_def)
  qed
  have "cnt_of (dstate ?pc r' pg') = cnt_of (dstate pc r' pg') + (H((r, pg) := H (r, pg) - unat count)) (r', pg')" if "in_dom pc r' pg'" for r' pg'
    using R(4) D(6) [OF that] H unprefetched_extra(2) [OF u] eq [of r' pg'] by (auto simp: dstate_def)
  moreover have "is_valid (dstate ?pc r' pg') \<and> B (r', pg') = ucast (doffset ?pc r' pg') \<and> (w \<longrightarrow> is_dirty (dstate ?pc r' pg'))"
    if d: "in_dom pc r' pg'" and h: "0 < (H((r, pg) := H (r, pg) - unat count)) (r', pg')" for r' pg'
  proof -
    have "0 < H (r', pg')" using h by (auto split: if_splits)
    note P = D(7) [OF d this]
    show ?thesis
    proof (cases "(r', pg') = (r, pg)")
      case True
      have "doffset ?pc r pg = doffset pc' r pg" using release_page_eq [of pc' r pg count] by (auto simp: upd_page_def doffset_def)
      then show ?thesis using P R(5,6) True by simp
    next
      case False
      show ?thesis using P eq [OF False] by (simp add: dstate_def doffset_def)
    qed
  qed
  moreover have "content ?pc r' pg' j = V r' pg' j" if "in_dom pc r' pg'" "j < nblk pc" for r' pg' j
    using R(2) that D(4,5) D(8) [OF that] by (simp add: same_content_def)
  moreover have "dp_cpu_feature_offset (pc_ranges ?pc r' pg') = dp_cpu_feature_offset (pc_ranges pc r' pg')" if "in_dom pc r' pg'" for r' pg'
  proof (cases "(r', pg') = (r, pg)")
    case True
    then show ?thesis using D(10) [OF that] by (auto simp: release_page_def Let_def split_beta upd_page_def upd_state_def)
  qed (use eq D(10) [OF that] in simp)
  ultimately show ?thesis unfolding warp_state_def using R(1) cfg_eq_trans [OF R(3) D(2)] np by blast
qed

text \<open>A page is found a slot for as long as fewer pages are in use than there are slots.\<close>

lemma slots_card:
  assumes "cfg_ok pc"
  shows "card {s. is_slot pc s} = unat (pc_n_pages pc)"
proof -
  have n: "unat (pc_n_pages pc) \<le> 2 ^ 32" using assms by (simp add: cfg_ok_def cfg_slots_def)
  have "{s. is_slot pc s} = (of_nat :: nat \<Rightarrow> u32) ` {..<unat (pc_n_pages pc)}"
  proof (intro set_eqI iffI)
    fix s assume "s \<in> {s. is_slot pc s}"
    then have "unat s < unat (pc_n_pages pc)" by (simp add: is_slot_def word_less_nat_alt unat_ucast_up)
    then show "s \<in> (of_nat :: nat \<Rightarrow> u32) ` {..<unat (pc_n_pages pc)}" by (intro image_eqI [of _ _ "unat s"]) simp_all
  next
    fix s assume "s \<in> (of_nat :: nat \<Rightarrow> u32) ` {..<unat (pc_n_pages pc)}"
    then obtain x where x: "s = of_nat x" "x < unat (pc_n_pages pc)" by auto
    then have "unat s = x" using n by (simp add: unat_of_nat)
    then show "s \<in> {s. is_slot pc s}" using x by (simp add: is_slot_def word_less_nat_alt unat_ucast_up)
  qed
  moreover have "inj_on (of_nat :: nat \<Rightarrow> u32) {..<unat (pc_n_pages pc)}"
  proof (rule inj_onI)
    fix x y assume xy: "x \<in> {..<unat (pc_n_pages pc)}" "y \<in> {..<unat (pc_n_pages pc)}" "(of_nat x :: u32) = of_nat y"
    then have "unat (of_nat x :: u32) = unat (of_nat y :: u32)" by simp
    then show "x = y" using xy(1,2) n by (simp add: unat_of_nat)
  qed
  ultimately show ?thesis by (simp add: card_image)
qed

definition in_use :: "'b page_cache \<Rightarrow> (u64 \<times> u64) set" where
  "in_use pc = {(r, pg). in_dom pc r pg \<and> 0 < cnt_of (dstate pc r pg)}"

lemma slot_available:
  assumes inv: "cache_inv pc" and c: "card {(r, pg). in_dom pc r pg \<and> is_valid (dstate pc r pg) \<and> 0 < cnt_of (dstate pc r pg)} < unat (pc_n_pages pc)"
  shows "\<exists>s. available pc s"
proof -
  let ?P = "{(r, pg). in_dom pc r pg \<and> is_valid (dstate pc r pg) \<and> 0 < cnt_of (dstate pc r pg)}"
  have i: "inv0 {} pc" using inv by (simp add: cache_inv_def)
  have "card ((\<lambda>(r, pg). doffset pc r pg) ` ?P) \<le> card ?P" by (rule card_image_le) simp
  then have "card ((\<lambda>(r, pg). doffset pc r pg) ` ?P) < card {s. is_slot pc s}" using c unfolding slots_card [OF inv0D(1) [OF i]] by linarith
  moreover have "card {s. is_slot pc s} \<le> card ((\<lambda>(r, pg). doffset pc r pg) ` ?P)" if "{s. is_slot pc s} \<subseteq> (\<lambda>(r, pg). doffset pc r pg) ` ?P"
    using that by (intro card_mono) simp_all
  ultimately have "\<not> {s. is_slot pc s} \<subseteq> (\<lambda>(r, pg). doffset pc r pg) ` ?P" by (meson not_le)
  then obtain s where s: "is_slot pc s" "s \<notin> (\<lambda>(r, pg). doffset pc r pg) ` ?P" by blast
  show ?thesis
  proof (cases rule: inv0_slotE [OF i held_slots_empty s(1)])
    case 1
    then show ?thesis using s(1) by (intro exI [of _ s]) (simp add: available_def)
  next
    case (2 r pg)
    then have "(r, pg) \<notin> ?P" using s(2) by auto
    then have "evictable pc r pg" using 2 by (simp add: evictable_def)
    then show ?thesis using 2(4) s(1) by (intro exI [of _ s]) (auto simp: available_def)
  qed simp
qed

lemma warp_acquire_returns:
  assumes ws: "warp_state pc H B w V pc'" and dom: "in_dom pc r pg"
    and b: "cnt_of (dstate pc r pg) + H (r, pg) + unat count < 2 ^ 29"
    and room: "card (in_use pc \<union> P) \<le> unat (pc_n_pages pc)" "(r, pg) \<in> P" "{x. 0 < H x} \<subseteq> P"
  shows "\<exists>pc'' s. acquire_page pc' r pg count w q = Some (pc'', s)"
proof -
  note D = warp_stateD [OF ws]
  have dom': "in_dom pc' r pg" using dom D(4) by simp
  have b': "cnt_of (dstate pc' r pg) + unat count + extra_count (pc_ranges pc' r pg) < 2 ^ 29"
    using b D(6) [OF dom] unprefetched_extra(1) [OF D(9) [OF dom]] by simp
  have "\<exists>s. is_valid (dstate pc' r pg) \<or> available pc' s"
  proof (cases "is_valid (dstate pc' r pg)")
    case False
    let ?P = "{(r, pg). in_dom pc' r pg \<and> is_valid (dstate pc' r pg) \<and> 0 < cnt_of (dstate pc' r pg)}"
    have "?P \<subseteq> (in_use pc \<union> P) - {(r, pg)}"
    proof
      fix x assume "x \<in> ?P"
      then obtain r' pg' where x: "x = (r', pg')" "in_dom pc r' pg'" "is_valid (dstate pc' r' pg')" "0 < cnt_of (dstate pc' r' pg')"
        using D(4) by auto
      then have "0 < cnt_of (dstate pc r' pg') \<or> 0 < H (r', pg')" using D(6) [OF x(2)] by simp
      then show "x \<in> (in_use pc \<union> P) - {(r, pg)}" using x False room(3) by (auto simp: in_use_def)
    qed
    then have "card ?P \<le> card ((in_use pc \<union> P) - {(r, pg)})" by (intro card_mono) simp_all
    also have "\<dots> < card (in_use pc \<union> P)" using room(2) by (intro card_Diff1_less) simp_all
    finally have "card ?P < unat (pc_n_pages pc')" using room(1) D(2) by (simp add: cfg_eq_def)
    then show ?thesis using slot_available [OF D(1)] by blast
  qed simp
  then show ?thesis using acquire_page_returns [OF D(1) dom' b'] by blast
qed

section \<open>Lemmas: acquiring and releasing together\<close>

definition lane_page :: "(nat \<Rightarrow> lane_t) \<Rightarrow> nat \<Rightarrow> u64 \<times> u64" where
  "lane_page L l = (ln_rng (L l), ln_page (L l))"

text \<open>What the lanes of a warp satisfy: pages inside the ranges, with room for 32 users more, told apart by their addresses.\<close>

definition lanes_ok :: "'b page_cache \<Rightarrow> u32 \<Rightarrow> (nat \<Rightarrow> lane_t) \<Rightarrow> bool" where
  "lanes_ok pc m L \<longleftrightarrow>
     (\<forall>l. bit m l \<longrightarrow> in_dom pc (ln_rng (L l)) (ln_page (L l)) \<and> cnt_of (dstate pc (ln_rng (L l)) (ln_page (L l))) + 32 < 2 ^ 29) \<and>
     (\<forall>l l'. bit m l \<longrightarrow> bit m l' \<longrightarrow> (ln_gaddr (L l) = ln_gaddr (L l')) = (lane_page L l = lane_page L l'))"

lemma lanes_okD:
  assumes "lanes_ok pc m L" and "bit m l"
  shows "in_dom pc (ln_rng (L l)) (ln_page (L l))" "cnt_of (dstate pc (ln_rng (L l)) (ln_page (L l))) + unat (count_of m L l) < 2 ^ 29"
    "0 < unat (count_of m L l)"
    "bit m l' \<Longrightarrow> (ln_gaddr (L l) = ln_gaddr (L l')) = (lane_page L l = lane_page L l')"
proof -
  note o = assms(1) [unfolded lanes_ok_def]
  note d = o [THEN conjunct1, rule_format, OF assms(2)]
  show "bit m l' \<Longrightarrow> (ln_gaddr (L l) = ln_gaddr (L l')) = (lane_page L l = lane_page L l')"
    by (rule o [THEN conjunct2, rule_format, OF assms(2)])
  have c: "0 < unat (count_of m L l)" "unat (count_of m L l) \<le> 32" using count_of_bounds [OF assms(2), of L] by blast+
  show "in_dom pc (ln_rng (L l)) (ln_page (L l))" by (rule conjunct1 [OF d])
  show "0 < unat (count_of m L l)" by (fact c(1))
  have "cnt_of (dstate pc (ln_rng (L l)) (ln_page (L l))) + 32 < 2 ^ 29" by (rule conjunct2 [OF d])
  then show "cnt_of (dstate pc (ln_rng (L l)) (ln_page (L l))) + unat (count_of m L l) < 2 ^ 29" using c(2) by linarith
qed

lemma masters_differ:
  assumes "lanes_ok pc m L" and "bit m l" "bit m l'" and "master_of m L l = l" "master_of m L l' = l'" and "lane_page L l = lane_page L l'"
  shows "l = l'"
proof -
  have "ln_gaddr (L l) = ln_gaddr (L l')" using lanes_okD(4) [OF assms(1,2,3)] assms(6) by blast
  then have "master_of m L l = master_of m L l'" by (rule master_cong)
  then show ?thesis unfolding assms(4,5) .
qed

text \<open>The users a warp has added after the masters in a list of lanes acquired their pages.\<close>

definition held :: "u32 \<Rightarrow> (nat \<Rightarrow> lane_t) \<Rightarrow> nat list \<Rightarrow> (u64 \<times> u64 \<Rightarrow> nat) \<Rightarrow> u64 \<times> u64 \<Rightarrow> nat" where
  "held m L ls H = fold (\<lambda>l H. if master_of m L l = l then H(lane_page L l := H (lane_page L l) + unat (count_of m L l)) else H) ls H"

definition unheld :: "u32 \<Rightarrow> (nat \<Rightarrow> lane_t) \<Rightarrow> nat list \<Rightarrow> (u64 \<times> u64 \<Rightarrow> nat) \<Rightarrow> u64 \<times> u64 \<Rightarrow> nat" where
  "unheld m L ls H = fold (\<lambda>l H. if master_of m L l = l then H(lane_page L l := H (lane_page L l) - unat (count_of m L l)) else H) ls H"

lemma held_other: "(\<And>l. l \<in> set ls \<Longrightarrow> master_of m L l = l \<Longrightarrow> lane_page L l \<noteq> x) \<Longrightarrow> held m L ls H x = H x"
  and unheld_other: "(\<And>l. l \<in> set ls \<Longrightarrow> master_of m L l = l \<Longrightarrow> lane_page L l \<noteq> x) \<Longrightarrow> unheld m L ls H x = H x"
  by (induction ls arbitrary: H) (auto simp: held_def unheld_def)

lemma held_at:
  assumes ok: "lanes_ok pc m L" and d: "distinct ls" and ls: "\<forall>l \<in> set ls. bit m l" and l: "l \<in> set ls" "master_of m L l = l"
  shows "held m L ls H (lane_page L l) = H (lane_page L l) + unat (count_of m L l)"
    "unheld m L ls H (lane_page L l) = H (lane_page L l) - unat (count_of m L l)"
proof -
  have e: "l' = l" if "l' \<in> set ls" "master_of m L l' = l'" "lane_page L l' = lane_page L l" for l'
    using masters_differ [OF ok _ _ that(2) l(2) that(3)] ls l(1) that(1) by blast
  have "(l \<notin> set xs \<longrightarrow> held m L xs H (lane_page L l) = H (lane_page L l) \<and> unheld m L xs H (lane_page L l) = H (lane_page L l)) \<and>
      (l \<in> set xs \<longrightarrow> held m L xs H (lane_page L l) = H (lane_page L l) + unat (count_of m L l) \<and>
         unheld m L xs H (lane_page L l) = H (lane_page L l) - unat (count_of m L l))" if "set xs \<subseteq> set ls" "distinct xs" for xs
    using that
  proof (induction xs rule: rev_induct)
    case Nil
    then show ?case by (simp add: held_def unheld_def)
  next
    case (snoc a xs)
    show ?case
    proof (cases "a = l")
      case True
      then show ?thesis using l(2) snoc by (simp add: held_def unheld_def)
    next
      case False
      then have "\<not> (master_of m L a = a \<and> lane_page L a = lane_page L l)" using e snoc.prems by auto
      then show ?thesis using snoc False by (auto simp: held_def unheld_def)
    qed
  qed
  then show "held m L ls H (lane_page L l) = H (lane_page L l) + unat (count_of m L l)"
    "unheld m L ls H (lane_page L l) = H (lane_page L l) - unat (count_of m L l)" using l(1) d by blast+
qed

lemma held_pages: "{x. 0 < held m L ls H x} \<subseteq> {x. 0 < H x} \<union> lane_page L ` set ls"
  by (induction ls rule: rev_induct) (auto simp: held_def)

lemma coalesce_acquire_ok:
  assumes ok: "lanes_ok pc m L" and room: "card (in_use pc \<union> P) \<le> unat (pc_n_pages pc)"
  shows "\<lbrakk>warp_state pc H B w V pc'; distinct ls; \<forall>l \<in> set ls. bit m l \<and> lane_page L l \<in> P; {x. 0 < H x} \<subseteq> P;
      \<forall>l \<in> set ls. master_of m L l = l \<longrightarrow>
        cnt_of (dstate pc (ln_rng (L l)) (ln_page (L l))) + H (lane_page L l) + unat (count_of m L l) < 2 ^ 29\<rbrakk> \<Longrightarrow>
    \<exists>pc'' base' B'. coalesce_acquire m L w q ls pc' base = Some (pc'', base') \<and> warp_state pc (held m L ls H) B' w V pc'' \<and>
      (\<forall>l. l \<notin> set ls \<longrightarrow> base' l = base l) \<and>
      (\<forall>x. (\<forall>l \<in> set ls. master_of m L l = l \<longrightarrow> lane_page L l \<noteq> x) \<longrightarrow> B' x = B x) \<and> (\<forall>x. 0 < H x \<longrightarrow> B' x = B x) \<and>
      (\<forall>l \<in> set ls. master_of m L l = l \<longrightarrow> B' (lane_page L l) = base' l)"
proof (induction ls arbitrary: pc' H B base)
  case Nil
  then show ?case by (auto simp: held_def)
next
  case (Cons l ls)
  have l: "bit m l" "lane_page L l \<in> P" "l \<notin> set ls" using Cons.prems(2,3) by auto
  note D = lanes_okD [OF ok l(1)]
  show ?case
  proof (cases "master_of m L l = l")
    case False
    then have "\<forall>l' \<in> set ls. master_of m L l' = l' \<longrightarrow>
        cnt_of (dstate pc (ln_rng (L l')) (ln_page (L l'))) + H (lane_page L l') + unat (count_of m L l') < 2 ^ 29" "distinct ls" "\<forall>l \<in> set ls. bit m l \<and> lane_page L l \<in> P"
      using Cons.prems by auto
    then obtain pc'' base' B' where "coalesce_acquire m L w q ls pc' base = Some (pc'', base')" "warp_state pc (held m L ls H) B' w V pc''"
        "\<forall>l. l \<notin> set ls \<longrightarrow> base' l = base l" "\<forall>x. 0 < H x \<longrightarrow> B' x = B x" "\<forall>x. (\<forall>l \<in> set ls. master_of m L l = l \<longrightarrow> lane_page L l \<noteq> x) \<longrightarrow> B' x = B x"
        "\<forall>l \<in> set ls. master_of m L l = l \<longrightarrow> B' (lane_page L l) = base' l"
      using Cons.IH [OF Cons.prems(1), of base] Cons.prems(4) by blast
    then show ?thesis using False by (intro exI [of _ pc''] exI [of _ base'] exI [of _ B']) (simp add: held_def)
  next
    case True
    let ?x = "lane_page L l" and ?c = "count_of m L l"
    have x: "?x = (ln_rng (L l), ln_page (L l))" by (simp add: lane_page_def)
    have b: "cnt_of (dstate pc (ln_rng (L l)) (ln_page (L l))) + H (ln_rng (L l), ln_page (L l)) + unat ?c < 2 ^ 29"
      using Cons.prems(5) True by (simp add: x)
    obtain pc1 s where a: "acquire_page pc' (ln_rng (L l)) (ln_page (L l)) ?c w q = Some (pc1, s)"
      using warp_acquire_returns [OF Cons.prems(1) D(1) b room _ Cons.prems(4)] l(2) x by metis
    have ws: "warp_state pc (H(?x := H ?x + unat ?c)) (B(?x := s)) w V pc1" and Bs: "0 < H ?x \<Longrightarrow> B ?x = s"
      using warp_acquire_step [OF Cons.prems(1) D(1) b a] by (simp_all add: x)
    have other: "lane_page L l' \<noteq> ?x" if "l' \<in> set ls" "master_of m L l' = l'" for l'
      using masters_differ [OF ok _ l(1) that(2) True] that(1) l(3) Cons.prems(3) by auto
    have "distinct ls" "\<forall>l \<in> set ls. bit m l \<and> lane_page L l \<in> P" "{y. 0 < (H(?x := H ?x + unat ?c)) y} \<subseteq> P"
        "\<forall>l' \<in> set ls. master_of m L l' = l' \<longrightarrow>
          cnt_of (dstate pc (ln_rng (L l')) (ln_page (L l'))) + (H(?x := H ?x + unat ?c)) (lane_page L l') + unat (count_of m L l') < 2 ^ 29"
      using Cons.prems other l(2) by auto
    then obtain pc'' base' B' where r: "coalesce_acquire m L w q ls pc1 (base(l := s)) = Some (pc'', base')"
        "warp_state pc (held m L ls (H(?x := H ?x + unat ?c))) B' w V pc''" "\<forall>l'. l' \<notin> set ls \<longrightarrow> base' l' = (base(l := s)) l'"
        "\<forall>y. (\<forall>l \<in> set ls. master_of m L l = l \<longrightarrow> lane_page L l \<noteq> y) \<longrightarrow> B' y = (B(?x := s)) y"
        "\<forall>l \<in> set ls. master_of m L l = l \<longrightarrow> B' (lane_page L l) = base' l"
        "\<forall>y. 0 < (H(?x := H ?x + unat ?c)) y \<longrightarrow> B' y = (B(?x := s)) y"
      using Cons.IH [OF ws, of "base(l := s)"] by blast
    have "B' ?x = (B(?x := s)) ?x" using r(4) other by blast
    then have "B' ?x = s" by simp
    moreover have "base' l = s" using r(3) l(3) by simp
    moreover have "B' y = B y" if "0 < H y" for y
    proof (cases "y = ?x")
      case True
      then show ?thesis using Bs that \<open>B' ?x = s\<close> by simp
    next
      case False
      then show ?thesis using spec [OF r(6), of y] that by simp
    qed
    ultimately show ?thesis using r True a
      by (intro exI [of _ pc''] exI [of _ base'] exI [of _ B']) (simp add: held_def)
  qed
qed

lemma coalesce_release_ok:
  assumes ok: "lanes_ok pc m L"
  shows "\<lbrakk>warp_state pc H B w V pc'; distinct ls; \<forall>l \<in> set ls. bit m l;
      \<forall>l \<in> set ls. master_of m L l = l \<longrightarrow> unat (count_of m L l) \<le> H (lane_page L l)\<rbrakk> \<Longrightarrow>
    warp_state pc (unheld m L ls H) B w V (coalesce_release m L ls pc')"
proof (induction ls arbitrary: pc' H)
  case Nil
  then show ?case by (simp add: unheld_def)
next
  case (Cons l ls)
  have l: "bit m l" "l \<notin> set ls" using Cons.prems(2,3) by auto
  show ?case
  proof (cases "master_of m L l = l")
    case False
    then show ?thesis using Cons by (simp add: unheld_def)
  next
    case True
    let ?x = "lane_page L l" and ?c = "count_of m L l"
    have x: "?x = (ln_rng (L l), ln_page (L l))" by (simp add: lane_page_def)
    have "unat ?c \<le> H (ln_rng (L l), ln_page (L l))" using Cons.prems(4) True by (simp add: x)
    then have ws: "warp_state pc (H(?x := H ?x - unat ?c)) B w V (release_page pc' (ln_rng (L l)) (ln_page (L l)) ?c)"
      unfolding x by (rule warp_release_step [OF Cons.prems(1) lanes_okD(1) [OF ok l(1)]])
    have "lane_page L l' \<noteq> ?x" if "l' \<in> set ls" "master_of m L l' = l'" for l'
      using masters_differ [OF ok _ l(1) that(2) True] that(1) l(2) Cons.prems(3) by auto
    then have "warp_state pc (unheld m L ls (H(?x := H ?x - unat ?c))) B w V (coalesce_release m L ls (release_page pc' (ln_rng (L l)) (ln_page (L l)) ?c))"
      using Cons.prems(2-4) by (intro Cons.IH [OF ws]) auto
    then show ?thesis using True by (simp add: unheld_def)
  qed
qed

section \<open>Lemmas: an element through its address\<close>

lemma slot_addr_split:
  assumes ps: "s < (n :: nat)" "n * p \<le> 2 ^ 64" "sub < p" and s: "unat (sw :: u64) = s" "unat (pw :: u64) = p" "unat (subw :: u64) = sub"
  shows "unat (base + sw * pw + subw - base) = s * p + sub"
proof -
  have "s * p + sub < (s + 1) * p" using ps(3) by simp
  also have "\<dots> \<le> n * p" using ps(1) by (intro mult_le_mono1) simp
  finally have l: "s * p + sub < 2 ^ 64" using ps(2) by linarith
  then have m: "unat (sw * pw) = s * p" using unat_mult_lem [of sw pw] s by simp
  have "unat (sw * pw) + unat subw < 2 ^ LENGTH(64)" using l by (simp add: m s)
  then have "unat (sw * pw + subw) = s * p + sub" by (subst unat_add_bounded) (simp_all add: m s)
  then show ?thesis by simp
qed

lemma slot_access:
  assumes ok: "ad_ok pc arr" and s: "is_slot pc s" and sub: "unat sub < unat (pc_page_size pc)"
  defines "a \<equiv> get_cache_page_addr pc s + sub" and "e \<equiv> unat sub div unat (ad_sizeof_T arr)" and "epb \<equiv> elems_per_block pc (ad_sizeof_T arr)"
  shows "load_T pc (ad_sizeof_T arr) a = frame pc (pc_prp1 pc (ucast s)) (e div epb) (e mod epb)"
    "store_T pc (ad_sizeof_T arr) a v = pc\<lparr>frame := (frame pc)(pc_prp1 pc (ucast s) :=
       (frame pc (pc_prp1 pc (ucast s)))(e div epb := (frame pc (pc_prp1 pc (ucast s)) (e div epb))(e mod epb := v)))\<rparr>"
proof -
  let ?ps = "unat (pc_page_size pc)"
  have n: "unat (pc_n_pages pc) * ?ps \<le> 2 ^ 64" using ok unfolding ad_ok_def by blast
  have u: "unat (ucast s :: u64) = unat s" by (simp add: unat_ucast_up)
  have sl: "unat s < unat (pc_n_pages pc)" using s by (simp add: is_slot_def word_less_nat_alt u)
  have "a - pc_base_addr pc = pc_base_addr pc + ucast s * pc_page_size pc + sub - pc_base_addr pc" by (simp add: a_def get_cache_page_addr_def)
  then have o: "unat (a - pc_base_addr pc) = unat s * ?ps + unat sub" using slot_addr_split [OF sl n sub u refl refl] by simp
  have "(of_nat (unat s) :: u64) = ucast s" by (metis u of_nat_unat)
  then have "(of_nat ((unat s * ?ps + unat sub) div ?ps) :: u64) = ucast s" using sub by simp
  moreover have "(unat s * ?ps + unat sub) mod ?ps = unat sub" using sub by simp
  ultimately show "load_T pc (ad_sizeof_T arr) a = frame pc (pc_prp1 pc (ucast s)) (e div epb) (e mod epb)"
    "store_T pc (ad_sizeof_T arr) a v = pc\<lparr>frame := (frame pc)(pc_prp1 pc (ucast s) :=
       (frame pc (pc_prp1 pc (ucast s)))(e div epb := (frame pc (pc_prp1 pc (ucast s)) (e div epb))(e mod epb := v)))\<rparr>"
    unfolding load_T_def store_T_def Let_def o e_def epb_def by simp_all
qed

definition lane_elem :: "array_d_t \<Rightarrow> (nat \<Rightarrow> lane_t) \<Rightarrow> nat \<Rightarrow> nat" where
  "lane_elem arr L l = unat (ln_sub (L l)) div unat (ad_sizeof_T arr)"

text \<open>Contents with one element changed.\<close>

definition put_elem ::
  "nat \<Rightarrow> u64 \<Rightarrow> u64 \<Rightarrow> nat \<Rightarrow> 't \<Rightarrow> (u64 \<Rightarrow> u64 \<Rightarrow> nat \<Rightarrow> nat \<Rightarrow> 't) \<Rightarrow> u64 \<Rightarrow> u64 \<Rightarrow> nat \<Rightarrow> nat \<Rightarrow> 't"
where
  "put_elem epb r pg e v V = (\<lambda>r' pg' k. if (r', pg', k) = (r, pg, e div epb) then (V r' pg' k)(e mod epb := v) else V r' pg' k)"

text \<open>A lane whose page the warp holds.\<close>

definition lane_held :: "'b page_cache \<Rightarrow> (u64 \<times> u64 \<Rightarrow> nat) \<Rightarrow> (u64 \<times> u64 \<Rightarrow> u64) \<Rightarrow> array_d_t \<Rightarrow> (nat \<Rightarrow> lane_t) \<Rightarrow> (nat \<Rightarrow> u64) \<Rightarrow> nat \<Rightarrow> bool" where
  "lane_held pc H B arr L base l \<longleftrightarrow> in_dom pc (ln_rng (L l)) (ln_page (L l)) \<and> 0 < H (lane_page L l) \<and> base l = B (lane_page L l) \<and>
     unat (ln_sub (L l)) < unat (pc_page_size pc) \<and> lane_elem arr L l < nblk pc * elems_per_block pc (ad_sizeof_T arr)"

lemma lane_access:
  assumes ok: "ad_ok pc arr" and ws: "warp_state pc H B w V p" and l: "lane_held pc H B arr L base l"
  defines "r \<equiv> ln_rng (L l)" and "pg \<equiv> ln_page (L l)" and "e \<equiv> lane_elem arr L l" and "epb \<equiv> elems_per_block pc (ad_sizeof_T arr)"
  shows "load_T p (ad_sizeof_T arr) (lane_addr p L base l) = V r pg (e div epb) (e mod epb)"
    "w \<Longrightarrow> warp_state pc H B w (put_elem epb r pg e v V) (store_T p (ad_sizeof_T arr) (lane_addr p L base l) v)"
proof -
  note D = warp_stateD [OF ws]
  have d: "in_dom pc r pg" and h: "0 < H (r, pg)" and b: "base l = B (r, pg)" and sub: "unat (ln_sub (L l)) < unat (pc_page_size pc)"
      and en: "e < nblk pc * epb"
    using l by (simp_all add: lane_held_def r_def pg_def lane_page_def e_def epb_def)
  have d': "in_dom p r pg" using d D(4) by simp
  have val: "is_valid (dstate p r pg)" and base: "base l = ucast (doffset p r pg)" and dirty: "w \<longrightarrow> is_dirty (dstate p r pg)"
    using D(7) [OF d h] b by simp_all
  have i: "inv0 {} p" using D(1) by (simp add: cache_inv_def)
  have s: "is_slot p (doffset p r pg)" by (rule inv0_valid(3) [OF i d' val])
  have ok': "ad_ok p arr" and ep: "elems_per_block p (ad_sizeof_T arr) = epb" and psz: "pc_page_size p = pc_page_size pc"
    using cfg_eq_array(1,2) [OF D(2)] ok D(2) by (simp_all add: epb_def cfg_eq_def)
  have k: "e div epb < nblk pc" using en by (rule less_mult_imp_div_less)
  have a: "lane_addr p L base l = get_cache_page_addr p (doffset p r pg) + ln_sub (L l)"
    by (simp add: lane_addr_def base ucast_up_down)
  have ee: "unat (ln_sub (L l)) div unat (ad_sizeof_T arr) = e" by (simp add: e_def lane_elem_def)
  note S = slot_access [OF ok' s, of "ln_sub (L l)", unfolded psz, OF sub, folded a, unfolded ep ee]
  have c: "frame p (pc_prp1 p (ucast (doffset p r pg))) j = V r pg j" if "j < nblk pc" for j
    using D(8) [OF d that] val by (simp add: content_def slot_data_def)
  show "load_T p (ad_sizeof_T arr) (lane_addr p L base l) = V r pg (e div epb) (e mod epb)" unfolding S(1) using c [OF k] by simp
  show "warp_state pc H B w (put_elem epb r pg e v V) (store_T p (ad_sizeof_T arr) (lane_addr p L base l) v)" if w: w
  proof -
    let ?x = "(V r pg (e div epb))(e mod epb := v)"
    have eq: "store_T p (ad_sizeof_T arr) (lane_addr p L base l) v = store_block p r pg (e div epb) ?x" (is "?p = _")
      unfolding S(2) c [OF k] store_block_def Let_def by (simp add: doffset_def)
    have dy: "is_dirty (dstate p r pg)" using dirty w by blast
    note SB = store_block_ok [OF D(1) d' val dy, where k = "e div epb" and x = ?x, folded eq]
    have rg: "pc_ranges ?p = pc_ranges p" unfolding eq by (simp add: store_block_def Let_def)
    have ds: "dstate ?p = dstate p" "doffset ?p = doffset p" by (simp_all add: fun_eq_iff dstate_def doffset_def rg)
    have np: "no_prefetch ?p" using D(3) by (simp add: no_prefetch_def rg cfg_eqD(2) [OF SB(2)])
    have "content ?p r' pg' j = put_elem epb r pg e v V r' pg' j" if "in_dom pc r' pg'" "j < nblk pc" for r' pg' j
      using SB(3) [of r' pg' j] D(8) [OF that] that(1) D(4) by (auto simp: put_elem_def)
    then show ?thesis unfolding warp_state_def ds rg using SB(1) cfg_eq_trans [OF SB(2) D(2)] np D(6,7,10) by blast
  qed
qed

section \<open>The array as a flat memory\<close>

definition elem_map :: "'b page_cache \<Rightarrow> array_d_t \<Rightarrow> (u64 \<Rightarrow> u64 \<Rightarrow> nat \<Rightarrow> nat \<Rightarrow> 't) \<Rightarrow> u64 \<Rightarrow> 't option" where
  "elem_map pc arr V i = (case elem_loc pc arr i of None \<Rightarrow> None
     | Some (r, pg, e) \<Rightarrow> Some (V r pg (e div elems_per_block pc (ad_sizeof_T arr)) (e mod elems_per_block pc (ad_sizeof_T arr))))"

definition elem_view :: "(nat \<Rightarrow> 't) page_cache \<Rightarrow> array_d_t \<Rightarrow> u64 \<Rightarrow> 't option" where
  "elem_view pc arr = elem_map pc arr (content pc)"

lemma elem_loc_lane:
  "find_range arr i = Some k \<Longrightarrow> elem_loc pc arr i =
     Some (ln_rng (array_lane pc arr i), ln_page (array_lane pc arr i), lane_elem arr (\<lambda>_. array_lane pc arr i) l)"
  by (simp add: elem_loc_def Let_def lane_elem_def)

lemma elem_map_put:
  assumes ok: "ad_ok pc arr" and i: "elem_loc pc arr i = Some (r, pg, e)"
  shows "elem_map pc arr (put_elem (elems_per_block pc (ad_sizeof_T arr)) r pg e v V) = (elem_map pc arr V)(i \<mapsto> v)"
proof
  fix j
  let ?epb = "elems_per_block pc (ad_sizeof_T arr)"
  show "elem_map pc arr (put_elem ?epb r pg e v V) j = ((elem_map pc arr V)(i \<mapsto> v)) j"
  proof (cases "j = i")
    case True
    then show ?thesis by (simp add: elem_map_def i put_elem_def)
  next
    case False
    show ?thesis
    proof (cases "elem_loc pc arr j")
      case None
      then show ?thesis using False by (simp add: elem_map_def)
    next
      case (Some x)
      obtain r' pg' e' where x: "x = (r', pg', e')" by (cases x)
      have ne: "(r', pg', e') \<noteq> (r, pg, e)" using elem_loc_inj [OF ok i, of j] Some x False by auto
      have "e' = e" if "e' div ?epb = e div ?epb" "e' mod ?epb = e mod ?epb" using that by (metis div_mult_mod_eq)
      then show ?thesis using Some x ne False by (auto simp: elem_map_def put_elem_def)
    qed
  qed
qed

lemma elem_view_cong:
  assumes "ad_ok pc arr" and ce: "cfg_eq pc' pc" and "\<And>r pg k. \<lbrakk>in_dom pc r pg; k < nblk pc\<rbrakk> \<Longrightarrow> content pc' r pg k = V r pg k"
  shows "elem_view pc' arr = elem_map pc arr V"
proof
  fix i
  show "elem_view pc' arr i = elem_map pc arr V i"
  proof (cases "find_range arr i")
    case None
    then show ?thesis by (simp add: elem_view_def elem_map_def elem_loc_def)
  next
    case (Some k)
    note A = array_lane [OF assms(1) Some]
    have "unat (ln_sub (array_lane pc arr i)) div unat (ad_sizeof_T arr) div elems_per_block pc (ad_sizeof_T arr) < nblk pc"
      using A(8) by (rule less_mult_imp_div_less)
    then show ?thesis using assms(3) [OF A(5)] Some
      by (simp add: elem_view_def elem_map_def elem_loc_def Let_def cfg_eq_array [OF ce])
  qed
qed

text \<open>The orders in which the lanes run: each a permutation of the lanes that found their range.\<close>

definition sched_ok :: "array_d_t \<Rightarrow> u32 \<Rightarrow> (nat \<Rightarrow> u64) \<Rightarrow> schedule \<Rightarrow> bool" where
  "sched_ok arr msk idx sd \<longleftrightarrow>
     (\<forall>ls \<in> {sd_acquire sd, sd_access sd, sd_release sd}. distinct ls \<and> set ls = {l. bit (found_mask arr msk idx) l})"

text \<open>Room for the warp: its pages have no users near the limit, and with the pages in use they fit into the slots.\<close>

definition warp_room :: "'b page_cache \<Rightarrow> array_d_t \<Rightarrow> u32 \<Rightarrow> (nat \<Rightarrow> u64) \<Rightarrow> bool" where
  "warp_room pc arr msk idx \<longleftrightarrow>
     (let m = found_mask arr msk idx; L = (\<lambda>l. array_lane pc arr (idx l))
      in (\<forall>l. bit m l \<longrightarrow> cnt_of (dstate pc (ln_rng (L l)) (ln_page (L l))) + 32 < 2 ^ 29) \<and>
         card (in_use pc \<union> lane_page L ` {l. bit m l}) \<le> unat (pc_n_pages pc))"

definition array_inv :: "array_d_t \<Rightarrow> 'b page_cache \<Rightarrow> bool" where
  "array_inv arr pc \<longleftrightarrow> cache_inv pc \<and> no_prefetch pc \<and> ad_ok pc arr"

lemma warp_lanes_ok:
  assumes "array_inv arr pc" and "warp_room pc arr msk idx"
  shows "lanes_ok pc (found_mask arr msk idx) (\<lambda>l. array_lane pc arr (idx l))"
proof -
  have ok: "ad_ok pc arr" and ca: "cfg_addr pc" using assms(1) by (simp_all add: array_inv_def cache_inv_def inv0_def cfg_ok_def)
  have c: "cnt_of (dstate pc (ln_rng (array_lane pc arr (idx l))) (ln_page (array_lane pc arr (idx l)))) + 32 < 2 ^ 29"
    if "bit (found_mask arr msk idx) l" for l
    using assms(2) that unfolding warp_room_def Let_def by blast
  have d: "in_dom pc (ln_rng (array_lane pc arr (idx l))) (ln_page (array_lane pc arr (idx l)))"
    "ln_gaddr (array_lane pc arr (idx l)) = get_global_address pc (ln_rng (array_lane pc arr (idx l))) (ln_page (array_lane pc arr (idx l)))"
    if "bit (found_mask arr msk idx) l" for l
  proof -
    have "find_range arr (idx l) \<noteq> None" using that by (simp add: bit_found_mask)
    then obtain k where "find_range arr (idx l) = Some k" by blast
    then show "in_dom pc (ln_rng (array_lane pc arr (idx l))) (ln_page (array_lane pc arr (idx l)))"
      "ln_gaddr (array_lane pc arr (idx l)) = get_global_address pc (ln_rng (array_lane pc arr (idx l))) (ln_page (array_lane pc arr (idx l)))"
      using array_lane(4,5) [OF ok] by blast+
  qed
  have "(ln_gaddr (array_lane pc arr (idx l)) = ln_gaddr (array_lane pc arr (idx l'))) =
      (lane_page (\<lambda>l. array_lane pc arr (idx l)) l = lane_page (\<lambda>l. array_lane pc arr (idx l)) l')"
    if "bit (found_mask arr msk idx) l" "bit (found_mask arr msk idx) l'" for l l'
    using global_address_inj [OF ca d(1) [OF that(1)] d(1) [OF that(2)]] d(2) [OF that(1)] d(2) [OF that(2)]
    by (auto simp: lane_page_def)
  then show ?thesis using c d(1) unfolding lanes_ok_def by blast
qed

text \<open>The acquiring half of a warp call holds the pages of all lanes, the releasing half gives all of them back.\<close>

lemma warp_acquires:
  assumes inv: "array_inv arr pc" and sd: "sched_ok arr msk idx sd" and room: "warp_room pc arr msk idx"
    and ws: "warp_state pc (\<lambda>_. 0) B0 w V pc0"
  defines "m \<equiv> found_mask arr msk idx" and "L \<equiv> \<lambda>l. array_lane pc arr (idx l)"
  shows "\<exists>pc1 base B. coalesce_acquire m L w q (sd_acquire sd) pc0 base0 = Some (pc1, base) \<and>
    warp_state pc (held m L (sd_acquire sd) (\<lambda>_. 0)) B w V pc1 \<and>
    (\<forall>l. bit m l \<longrightarrow> lane_held pc (held m L (sd_acquire sd) (\<lambda>_. 0)) B arr L (\<lambda>l. base (master_of m L l)) l)"
proof -
  have lok: "lanes_ok pc m L" unfolding m_def L_def by (rule warp_lanes_ok [OF inv room])
  have ls: "distinct (sd_acquire sd)" "set (sd_acquire sd) = {l. bit m l}" using sd by (simp_all add: sched_ok_def m_def)
  have c: "card (in_use pc \<union> lane_page L ` {l. bit m l}) \<le> unat (pc_n_pages pc)"
    using room by (simp add: warp_room_def Let_def m_def L_def)
  obtain pc1 base B where a: "coalesce_acquire m L w q (sd_acquire sd) pc0 base0 = Some (pc1, base)"
      and ws1: "warp_state pc (held m L (sd_acquire sd) (\<lambda>_. 0)) B w V pc1"
      and B: "\<forall>l \<in> set (sd_acquire sd). master_of m L l = l \<longrightarrow> B (lane_page L l) = base l"
    using coalesce_acquire_ok [OF lok c ws ls(1), of q base0] ls(2) lanes_okD(2) [OF lok] by auto
  have "lane_held pc (held m L (sd_acquire sd) (\<lambda>_. 0)) B arr L (\<lambda>l. base (master_of m L l)) l" if b: "bit m l" for l
  proof -
    let ?a = "master_of m L l"
    note M = master [OF b, of L]
    have in_ls: "?a \<in> set (sd_acquire sd)" using ls(2) M(1) by simp
    have pg: "lane_page L ?a = lane_page L l" using lanes_okD(4) [OF lok M(1) b] M(2) by simp
    have "held m L (sd_acquire sd) (\<lambda>_. 0) (lane_page L ?a) = unat (count_of m L ?a)"
      using held_at(1) [OF lok ls(1) _ in_ls M(3)] ls(2) by simp
    then have "0 < held m L (sd_acquire sd) (\<lambda>_. 0) (lane_page L l)" using lanes_okD(3) [OF lok M(1)] pg by simp
    moreover have "base ?a = B (lane_page L l)" using B in_ls M(3) pg by auto
    moreover have "find_range arr (idx l) \<noteq> None" using b by (simp add: m_def bit_found_mask)
    then obtain k where "find_range arr (idx l) = Some k" by blast
    then have "unat (ln_sub (L l)) < unat (pc_page_size pc)" "lane_elem arr L l < nblk pc * elems_per_block pc (ad_sizeof_T arr)"
      using array_lane(7,8) inv by (auto simp: array_inv_def L_def lane_elem_def)
    ultimately show ?thesis using lanes_okD(1) [OF lok b] by (simp add: lane_held_def)
  qed
  then show ?thesis using a ws1 by blast
qed

lemma warp_releases:
  assumes inv: "array_inv arr pc" and sd: "sched_ok arr msk idx sd" and room: "warp_room pc arr msk idx"
  defines "m \<equiv> found_mask arr msk idx" and "L \<equiv> \<lambda>l. array_lane pc arr (idx l)"
  assumes ws: "warp_state pc (held m L (sd_acquire sd) (\<lambda>_. 0)) B w V p"
  shows "warp_state pc (\<lambda>_. 0) B w V (coalesce_release m L (sd_release sd) p)"
proof -
  have lok: "lanes_ok pc m L" unfolding m_def L_def by (rule warp_lanes_ok [OF inv room])
  have ls: "set (sd_acquire sd) = {l. bit m l}" "distinct (sd_release sd)" "set (sd_release sd) = {l. bit m l}" "distinct (sd_acquire sd)"
    using sd by (simp_all add: sched_ok_def m_def)
  let ?H = "held m L (sd_acquire sd) (\<lambda>_. 0)"
  have "warp_state pc (unheld m L (sd_release sd) ?H) B w V (coalesce_release m L (sd_release sd) p)"
    using coalesce_release_ok [OF lok ws ls(2)] held_at(1) [OF lok ls(4)] ls by auto
  moreover have "unheld m L (sd_release sd) ?H x = 0" for x
  proof (cases "\<exists>l. bit m l \<and> master_of m L l = l \<and> lane_page L l = x")
    case True
    then obtain l where l: "bit m l" "master_of m L l = l" "lane_page L l = x" by blast
    have "?H x = unat (count_of m L l)" using held_at(1) [OF lok ls(4), of l "\<lambda>_. 0"] ls(1) l by simp
    then show ?thesis using held_at(2) [OF lok ls(2), of l ?H] ls(3) l by simp
  next
    case False
    then have "unheld m L (sd_release sd) ?H x = ?H x" "?H x = 0" using ls by (auto intro!: unheld_other held_other)
    then show ?thesis by simp
  qed
  then have "unheld m L (sd_release sd) ?H = (\<lambda>_. 0)" by (simp add: fun_eq_iff)
  ultimately show ?thesis by simp
qed

text \<open>What a finished warp call leaves: the invariant, all users given back, and the contents \<open>V\<close>.\<close>

definition warp_done :: "array_d_t \<Rightarrow> (nat \<Rightarrow> 't) page_cache \<Rightarrow> (nat \<Rightarrow> 't) page_cache \<Rightarrow> (u64 \<Rightarrow> 't option) \<Rightarrow> bool" where
  "warp_done arr pc pc' M \<longleftrightarrow> array_inv arr pc' \<and> elem_view pc' arr = M \<and>
     (\<forall>r pg. in_dom pc r pg \<longrightarrow> cnt_of (dstate pc' r pg) = cnt_of (dstate pc r pg))"

lemma warp_doneI:
  assumes "array_inv arr pc" and ws: "warp_state pc (\<lambda>_. 0) B w V pc'"
  shows "warp_done arr pc pc' (elem_map pc arr V)"
proof -
  note D = warp_stateD [OF ws]
  have "ad_ok pc arr" using assms(1) by (simp add: array_inv_def)
  then have "elem_view pc' arr = elem_map pc arr V" "array_inv arr pc'"
    using D(8) elem_view_cong [OF _ D(2)] D(1,3) cfg_eq_array(1) [OF D(2)] by (auto simp: array_inv_def)
  then show ?thesis using D(6) by (simp add: warp_done_def)
qed

lemma array_start: "array_inv arr pc \<Longrightarrow> warp_state pc (\<lambda>_. 0) B w (content pc) pc"
  by (rule warp_start) (simp_all add: array_inv_def)

lemma elem_map_lane:
  assumes "bit (found_mask arr msk idx) l"
  shows "elem_loc pc arr (idx l) = Some (ln_rng (array_lane pc arr (idx l)), ln_page (array_lane pc arr (idx l)), lane_elem arr (\<lambda>l. array_lane pc arr (idx l)) l)"
    "elem_map pc arr V (idx l) = Some (V (ln_rng (array_lane pc arr (idx l))) (ln_page (array_lane pc arr (idx l))) (lane_elem arr (\<lambda>l. array_lane pc arr (idx l)) l div elems_per_block pc (ad_sizeof_T arr))
       (lane_elem arr (\<lambda>l. array_lane pc arr (idx l)) l mod elems_per_block pc (ad_sizeof_T arr)))"
proof -
  have "find_range arr (idx l) \<noteq> None" using assms(1) by (simp add: bit_found_mask)
  then show e: "elem_loc pc arr (idx l) = Some (ln_rng (array_lane pc arr (idx l)), ln_page (array_lane pc arr (idx l)), lane_elem arr (\<lambda>l. array_lane pc arr (idx l)) l)"
    by (auto simp: elem_loc_def Let_def lane_elem_def)
  show "elem_map pc arr V (idx l) = Some (V (ln_rng (array_lane pc arr (idx l))) (ln_page (array_lane pc arr (idx l))) (lane_elem arr (\<lambda>l. array_lane pc arr (idx l)) l div elems_per_block pc (ad_sizeof_T arr))
       (lane_elem arr (\<lambda>l. array_lane pc arr (idx l)) l mod elems_per_block pc (ad_sizeof_T arr)))"
    by (simp add: elem_map_def e)
qed

lemma seq_read_ok:
  assumes inv: "array_inv arr pc" and sd: "sched_ok arr msk idx sd" and room: "warp_room pc arr msk idx"
  shows "\<exists>pc' ret. seq_read pc arr msk idx smid sd junk = Some (pc', ret) \<and> warp_done arr pc pc' (elem_view pc arr) \<and>
    (\<forall>l. bit (found_mask arr msk idx) l \<longrightarrow> elem_view pc arr (idx l) = Some (ret l))"
proof -
  let ?m = "found_mask arr msk idx" and ?L = "\<lambda>l. array_lane pc arr (idx l)"
  have ok: "ad_ok pc arr" using inv by (simp add: array_inv_def)
  obtain pc1 base B where a: "coalesce_acquire ?m ?L False (smid mod pc_n_qps pc 0) (sd_acquire sd) pc (\<lambda>_. 0) = Some (pc1, base)"
      and ws: "warp_state pc (held ?m ?L (sd_acquire sd) (\<lambda>_. 0)) B False (content pc) pc1"
      and h: "\<forall>l. bit ?m l \<longrightarrow> lane_held pc (held ?m ?L (sd_acquire sd) (\<lambda>_. 0)) B arr ?L (\<lambda>l. base (master_of ?m ?L l)) l"
    using warp_acquires [OF inv sd room array_start [OF inv, of "\<lambda>_. 0" False], of "smid mod pc_n_qps pc 0" "\<lambda>_. 0"] by blast
  let ?ret = "\<lambda>l. if bit ?m l then load_T pc1 (ad_sizeof_T arr) (lane_addr pc1 ?L (\<lambda>l. base (master_of ?m ?L l)) l) else junk l"
  have r: "seq_read pc arr msk idx smid sd junk = Some (coalesce_release ?m ?L (sd_release sd) pc1, ?ret)"
    by (simp add: seq_read_def Let_def coalesce_page_def a)
  have "elem_view pc arr (idx l) = Some (?ret l)" if b: "bit ?m l" for l
    using lane_access(1) [OF ok ws h [rule_format, OF b]] elem_map_lane(2) [OF b, of pc "content pc"] b by (simp add: elem_view_def)
  then show ?thesis
    using r warp_doneI [OF inv warp_releases [OF inv sd room ws]] by (auto simp: elem_view_def [symmetric])
qed

lemma stores_ok:
  assumes ok: "ad_ok pc arr"
    and h: "\<forall>l \<in> set ls. bit (found_mask arr msk idx) l \<and> lane_held pc H B arr (\<lambda>l. array_lane pc arr (idx l)) base l"
  shows "warp_state pc H B True V p \<Longrightarrow>
    \<exists>V'. warp_state pc H B True V'
        (foldl (\<lambda>p l. store_T p (ad_sizeof_T arr) (lane_addr p (\<lambda>l. array_lane pc arr (idx l)) base l) (val l)) p ls) \<and>
      elem_map pc arr V' = fold (\<lambda>l M. M(idx l \<mapsto> val l)) ls (elem_map pc arr V)"
  using h
proof (induction ls arbitrary: p V)
  case Nil
  then show ?case by auto
next
  case (Cons l ls)
  have l: "bit (found_mask arr msk idx) l" "lane_held pc H B arr (\<lambda>l. array_lane pc arr (idx l)) base l" using Cons.prems(2) by simp_all
  have "\<forall>l \<in> set ls. bit (found_mask arr msk idx) l \<and> lane_held pc H B arr (\<lambda>l. array_lane pc arr (idx l)) base l"
    using Cons.prems(2) by simp
  from Cons.IH [OF lane_access(2) [OF ok Cons.prems(1) l(2) TrueI, where v = "val l"] this]
  show ?case unfolding elem_map_put [OF ok elem_map_lane(1) [OF l(1)]] foldl.simps fold.simps comp_def .
qed

lemma seq_write_ok:
  assumes inv: "array_inv arr pc" and sd: "sched_ok arr msk idx sd" and room: "warp_room pc arr msk idx"
  shows "\<exists>pc'. seq_write pc arr msk idx val smid sd = Some pc' \<and>
    warp_done arr pc pc' (fold (\<lambda>l M. M(idx l \<mapsto> val l)) (sd_access sd) (elem_view pc arr))"
proof -
  let ?m = "found_mask arr msk idx" and ?L = "\<lambda>l. array_lane pc arr (idx l)"
  have ok: "ad_ok pc arr" using inv by (simp add: array_inv_def)
  obtain pc1 base B where a: "coalesce_acquire ?m ?L True (smid mod pc_n_qps pc 0) (sd_acquire sd) pc (\<lambda>_. 0) = Some (pc1, base)"
      and ws: "warp_state pc (held ?m ?L (sd_acquire sd) (\<lambda>_. 0)) B True (content pc) pc1"
      and h: "\<forall>l. bit ?m l \<longrightarrow> lane_held pc (held ?m ?L (sd_acquire sd) (\<lambda>_. 0)) B arr ?L (\<lambda>l. base (master_of ?m ?L l)) l"
    using warp_acquires [OF inv sd room array_start [OF inv, of "\<lambda>_. 0" True], of "smid mod pc_n_qps pc 0" "\<lambda>_. 0"] by blast
  let ?b = "\<lambda>l. base (master_of ?m ?L l)"
  let ?p = "foldl (\<lambda>p l. store_T p (ad_sizeof_T arr) (lane_addr p ?L ?b l) (val l)) pc1 (sd_access sd)"
  have "\<forall>l \<in> set (sd_access sd). bit ?m l \<and> lane_held pc (held ?m ?L (sd_acquire sd) (\<lambda>_. 0)) B arr ?L ?b l"
    using sd h by (simp add: sched_ok_def)
  then obtain V' where V': "warp_state pc (held ?m ?L (sd_acquire sd) (\<lambda>_. 0)) B True V' ?p"
      "elem_map pc arr V' = fold (\<lambda>l M. M(idx l \<mapsto> val l)) (sd_access sd) (elem_map pc arr (content pc))"
    using stores_ok [OF ok _ ws, of "sd_access sd" msk idx ?b val] by blast
  have "seq_write pc arr msk idx val smid sd = Some (coalesce_release ?m ?L (sd_release sd) ?p)"
    by (simp add: seq_write_def Let_def coalesce_page_def a)
  then show ?thesis using warp_doneI [OF inv warp_releases [OF inv sd room V'(1)]] V'(2) by (simp add: elem_view_def)
qed

lemma counter_state:
  assumes "array_inv arr pc"
  shows "warp_state pc (\<lambda>_. 0) B w (content pc) (pc\<lparr>pc_ctrl_counter := n\<rparr>)"
proof -
  let ?pc = "pc\<lparr>pc_ctrl_counter := n\<rparr>"
  have e: "cfg_eq ?pc pc" by (simp add: cfg_eq_def)
  have d: "dstate ?pc = dstate pc" "doffset ?pc = doffset pc" by (simp_all add: fun_eq_iff dstate_def doffset_def)
  have i: "inv0 {} pc" and q: "quiet pc" using assms by (simp_all add: array_inv_def cache_inv_def)
  have "inv0 {} ?pc" using inv0_flags(1) [OF i e] inv0D(2) [OF i] inv0_valid(1) [OF i] inv0_dirty [OF i] by (simp add: d)
  moreover have "quiet ?pc" using q by (simp add: quiet_def d cfg_eqD [OF e])
  moreover have "content ?pc = content pc" by (simp add: fun_eq_iff content_def slot_data_def d cfg_eqD [OF e])
  moreover have "no_prefetch ?pc" using assms by (simp add: array_inv_def no_prefetch_def cfg_eqD [OF e])
  ultimately show ?thesis using e by (simp add: warp_state_def cache_inv_def d)
qed

text \<open>What the lanes of an atomic addition do to a flat memory, one after the other.\<close>

fun flat_adds :: "(nat \<Rightarrow> u64) \<Rightarrow> (nat \<Rightarrow> 't::plus) \<Rightarrow> nat list \<Rightarrow> (u64 \<Rightarrow> 't option) \<Rightarrow> (nat \<Rightarrow> 't) \<Rightarrow> (u64 \<Rightarrow> 't option) \<times> (nat \<Rightarrow> 't)" where
  "flat_adds idx val [] M old = (M, old)"
| "flat_adds idx val (l # ls) M old = (let v = the (M (idx l)) in flat_adds idx val ls (M(idx l \<mapsto> v + val l)) (old(l := v)))"

lemma atomic_adds_ok:
  assumes ok: "ad_ok pc arr"
    and h: "\<forall>l \<in> set ls. bit (found_mask arr msk idx) l \<and> lane_held pc H B arr (\<lambda>l. array_lane pc arr (idx l)) base l"
  shows "warp_state pc H B True V p \<Longrightarrow>
    \<exists>V' p' old'. atomic_adds (ad_sizeof_T arr) (\<lambda>l. array_lane pc arr (idx l)) base val ls p old = (p', old') \<and>
      warp_state pc H B True V' p' \<and> flat_adds idx val ls (elem_map pc arr V) old = (elem_map pc arr V', old')"
  using h
proof (induction ls arbitrary: p V old)
  case Nil
  then show ?case by auto
next
  case (Cons l ls)
  let ?L = "\<lambda>l. array_lane pc arr (idx l)"
  let ?v = "load_T p (ad_sizeof_T arr) (lane_addr p ?L base l)"
  have l: "bit (found_mask arr msk idx) l" "lane_held pc H B arr ?L base l" using Cons.prems(2) by simp_all
  have v: "the (elem_map pc arr V (idx l)) = ?v"
    using lane_access(1) [OF ok Cons.prems(1) l(2)] elem_map_lane(2) [OF l(1), of pc V] by simp
  have "\<forall>l \<in> set ls. bit (found_mask arr msk idx) l \<and> lane_held pc H B arr ?L base l" using Cons.prems(2) by simp
  from Cons.IH [OF lane_access(2) [OF ok Cons.prems(1) l(2) TrueI, where v = "?v + val l"] this, of "old(l := ?v)"]
  show ?case unfolding elem_map_put [OF ok elem_map_lane(1) [OF l(1)]] atomic_adds.simps flat_adds.simps Let_def v .
qed

lemma AtomicAdd_ok:
  assumes inv: "array_inv arr pc" and sd: "sched_ok arr msk idx sd" and room: "warp_room pc arr msk idx"
  shows "\<exists>pc' old. AtomicAdd pc arr msk idx val smid sd = Some (pc', old) \<and>
    (let (M, o') = flat_adds idx val (sd_access sd) (elem_view pc arr) (\<lambda>_. 0) in warp_done arr pc pc' M \<and> old = o')"
proof (cases "found_mask arr msk idx = 0")
  case True
  then have "sd_access sd = []" using sd by (simp add: sched_ok_def)
  then show ?thesis using True inv by (simp add: AtomicAdd_def Let_def warp_done_def)
next
  case False
  let ?m = "found_mask arr msk idx" and ?L = "\<lambda>l. array_lane pc arr (idx l)"
  let ?q = "smid mod pc_n_qps pc (pc_ctrl_counter pc mod pc_n_ctrls pc)" and ?pc0 = "pc\<lparr>pc_ctrl_counter := pc_ctrl_counter pc + 1\<rparr>"
  have ok: "ad_ok pc arr" using inv by (simp add: array_inv_def)
  obtain pc1 base B where a: "coalesce_acquire ?m ?L True ?q (sd_acquire sd) ?pc0 (\<lambda>_. 0) = Some (pc1, base)"
      and ws: "warp_state pc (held ?m ?L (sd_acquire sd) (\<lambda>_. 0)) B True (content pc) pc1"
      and h: "\<forall>l. bit ?m l \<longrightarrow> lane_held pc (held ?m ?L (sd_acquire sd) (\<lambda>_. 0)) B arr ?L (\<lambda>l. base (master_of ?m ?L l)) l"
    using warp_acquires [OF inv sd room counter_state [OF inv], where q = ?q and ?base0.0 = "\<lambda>_. 0"] by blast
  let ?b = "\<lambda>l. base (master_of ?m ?L l)"
  have "\<forall>l \<in> set (sd_access sd). bit ?m l \<and> lane_held pc (held ?m ?L (sd_acquire sd) (\<lambda>_. 0)) B arr ?L ?b l"
    using sd h by (simp add: sched_ok_def)
  then obtain V' p' old' where r: "atomic_adds (ad_sizeof_T arr) ?L ?b val (sd_access sd) pc1 (\<lambda>_. 0) = (p', old')"
      "warp_state pc (held ?m ?L (sd_acquire sd) (\<lambda>_. 0)) B True V' p'"
      "flat_adds idx val (sd_access sd) (elem_map pc arr (content pc)) (\<lambda>_. 0) = (elem_map pc arr V', old')"
    using atomic_adds_ok [OF ok _ ws, of "sd_access sd" msk idx ?b val "\<lambda>_. 0"] by blast
  have "AtomicAdd pc arr msk idx val smid sd = Some (coalesce_release ?m ?L (sd_release sd) p', old')"
    using False by (simp add: AtomicAdd_def Let_def a r(1))
  then show ?thesis using warp_doneI [OF inv warp_releases [OF inv sd room r(2)]] r(3) by (simp add: elem_view_def)
qed

section \<open>Sequences of warp operations\<close>

datatype 't warp_op =
    SeqRead u32 "nat \<Rightarrow> u64" u32 schedule
  | SeqWrite u32 "nat \<Rightarrow> u64" "nat \<Rightarrow> 't" u32 schedule
  | Atomic u32 "nat \<Rightarrow> u64" "nat \<Rightarrow> 't" u32 schedule

fun warp_do :: "array_d_t \<Rightarrow> 't warp_op \<Rightarrow> (nat \<Rightarrow> 't::{plus,zero}) page_cache \<Rightarrow> (nat \<Rightarrow> 't) page_cache option" where
  "warp_do arr (SeqRead msk idx smid sd) pc = map_option fst (seq_read pc arr msk idx smid sd (\<lambda>_. 0))"
| "warp_do arr (SeqWrite msk idx val smid sd) pc = seq_write pc arr msk idx val smid sd"
| "warp_do arr (Atomic msk idx val smid sd) pc = map_option fst (AtomicAdd pc arr msk idx val smid sd)"

fun warp_spec :: "'t warp_op \<Rightarrow> (u64 \<Rightarrow> 't::{plus,zero} option) \<Rightarrow> u64 \<Rightarrow> 't option" where
  "warp_spec (SeqRead msk idx smid sd) M = M"
| "warp_spec (SeqWrite msk idx val smid sd) M = fold (\<lambda>l M. M(idx l \<mapsto> val l)) (sd_access sd) M"
| "warp_spec (Atomic msk idx val smid sd) M = fst (flat_adds idx val (sd_access sd) M (\<lambda>_. 0))"

text \<open>The callers' side: orders that are permutations of the lanes, and room in the cache.\<close>

fun warp_ok :: "array_d_t \<Rightarrow> 't warp_op \<Rightarrow> (nat \<Rightarrow> 't) page_cache \<Rightarrow> bool" where
  "warp_ok arr (SeqRead msk idx smid sd) pc \<longleftrightarrow> sched_ok arr msk idx sd \<and> warp_room pc arr msk idx"
| "warp_ok arr (SeqWrite msk idx val smid sd) pc \<longleftrightarrow> sched_ok arr msk idx sd \<and> warp_room pc arr msk idx"
| "warp_ok arr (Atomic msk idx val smid sd) pc \<longleftrightarrow> sched_ok arr msk idx sd \<and> warp_room pc arr msk idx"

lemma warp_step:
  assumes "array_inv arr pc" and "warp_ok arr op pc"
  shows "\<exists>pc'. warp_do arr op pc = Some pc' \<and> warp_done arr pc pc' (warp_spec op (elem_view pc arr))"
proof (cases op)
  case (SeqRead msk idx smid sd)
  then show ?thesis using seq_read_ok [OF assms(1), of msk idx sd smid "\<lambda>_. 0"] assms(2) by auto
next
  case (SeqWrite msk idx val smid sd)
  then show ?thesis using seq_write_ok [OF assms(1), of msk idx sd val smid] assms(2) by auto
next
  case (Atomic msk idx val smid sd)
  then show ?thesis using AtomicAdd_ok [OF assms(1), of msk idx sd val smid] assms(2) by (auto simp: split_beta)
qed

lemma warp_done_view: "warp_done arr pc pc' M \<Longrightarrow> array_inv arr pc' \<and> elem_view pc' arr = M"
  by (simp add: warp_done_def)

interpretation warp: memory_view "warp_ok arr" "warp_do arr" "array_inv arr" "\<lambda>pc. elem_view pc arr" warp_spec
  by unfold_locales (use warp_step warp_done_view in fastforce)+

section \<open>Properties\<close>

text \<open>One slot of 512 bytes and one range of two pages with 64 elements of 8 bytes each; a warp of two lanes.\<close>

definition warp_pc :: "(nat \<Rightarrow> nat) page_cache" where
  "warp_pc = \<lparr>pc_base_addr = 0x700000, pc_page_size = 512, pc_page_size_log = 9, pc_n_pages = 1,
     pc_cache_pages = (\<lambda>_. \<lparr>page_take_lock = FREE, page_translation = 0, next_reuse = no_reuse, reuse_chunk = replicate 8 no_reuse\<rparr>),
     pc_page_ticket = 0, pc_prp1 = (\<lambda>e. 0x10000 + 512 * e), pc_prp2 = (\<lambda>_. 0), pc_prps = False,
     pc_n_ranges = 1, pc_n_ranges_bits = 1, pc_n_ranges_mask = 0, pc_ranges = (\<lambda>_ _. witness_page),
     pc_page_starts = (\<lambda>_. 0), pc_page_counts = (\<lambda>_. 2), pc_dists = (\<lambda>_. STRIPE),
     pc_access_cnt = (\<lambda>_. 0), pc_miss_cnt = (\<lambda>_. 0), pc_hit_cnt = (\<lambda>_. 0), pc_ctrl_counter = 0, pc_q_tail = 0,
     pc_n_ctrls = 1, pc_n_blocks_per_page = 1, pc_n_qps = (\<lambda>_. 1), pc_access_counter = (\<lambda>_. 0), pc_namespace = 1,
     pc_cids = (\<lambda>_ _. \<lparr>cp_ticket = 0, cp_cid = (\<lambda>_. UNLOCKED)\<rparr>), pc_local_cmd = \<lparr>dword = replicate 16 0\<rparr>,
     disk = (\<lambda>c l e. 1000 * unat l + e), frame = (\<lambda>_ _ _. 0)\<rparr>"

definition warp_arr :: array_d_t where
  "warp_arr = \<lparr>ad_sizeof_T = 8, ad_ranges = [\<lparr>rd_index_start = 0, rd_count = 128, rd_range_id = 0, rd_page_start_offset = 0,
     rd_page_size = 512, rd_page_start = 0, rd_page_count = 2, rd_n_elems_per_page = 64, rd_dist = STRIPE\<rparr>]\<rparr>"

definition warp_idx :: "nat \<Rightarrow> u64" where
  "warp_idx l = (if l = 0 then 70 else 71)"

definition warp_sd :: schedule where
  "warp_sd = \<lparr>sd_acquire = [1, 0], sd_access = [0, 1], sd_release = [0, 1]\<rparr>"

lemma warp_pc_inv: "array_inv warp_arr warp_pc"
proof -
  have one: "x < 1 \<longleftrightarrow> x = 0" for x :: u64 by (simp add: word_less_nat_alt unat_eq_0)
  have "cfg_slots warp_pc" by (simp add: cfg_slots_def warp_pc_def wf_cmd_def blocks_ok_def one)
  moreover have "cfg_addr warp_pc" by (simp add: cfg_addr_def warp_pc_def)
  moreover have "cfg_disk warp_pc" by (auto simp: cfg_disk_def warp_pc_def area_len_def nblk_def one)
  ultimately have "cfg_ok warp_pc" by (simp add: cfg_ok_def)
  then have "cache_inv warp_pc"
    by (rule empty_cache_inv) (auto simp: warp_pc_def dstate_def witness_page_def)
  moreover have "ad_ok warp_pc warp_arr"
    by (simp add: ad_ok_def warp_pc_def warp_arr_def elems_per_block_def nblk_def)
  moreover have "no_prefetch warp_pc" by (simp add: no_prefetch_def unprefetched_def warp_pc_def witness_page_def)
  ultimately show ?thesis by (simp add: array_inv_def)
qed

lemma warp_facts:
  "bit (found_mask warp_arr 3 warp_idx) l \<longleftrightarrow> l = 0 \<or> l = 1" "sched_ok warp_arr 3 warp_idx warp_sd"
  "warp_room warp_pc warp_arr 3 warp_idx" "elem_view warp_pc warp_arr 70 = Some 1006" "elem_view warp_pc warp_arr 71 = Some 1007"
proof -
  have m3: "(3::u32) = mask 2" by (simp add: mask_eq_exp_minus_1)
  have b3: "bit (3::u32) l \<longleftrightarrow> l < 2" for l unfolding m3 bit_mask_iff by auto
  have f: "find_range warp_arr (warp_idx l) = Some 0" for l by (simp add: find_range_def warp_arr_def warp_idx_def)
  show b: "bit (found_mask warp_arr 3 warp_idx) l \<longleftrightarrow> l = 0 \<or> l = 1" for l unfolding bit_found_mask f b3 by auto
  show "sched_ok warp_arr 3 warp_idx warp_sd" by (auto simp: sched_ok_def warp_sd_def b)
  have st: "dstate warp_pc r pg = 0" for r pg by (simp add: dstate_def warp_pc_def witness_page_def INVALID_def)
  have z: "unat (0x238 :: u64) div 512 = 1" by simp
  have pg: "ln_rng (array_lane warp_pc warp_arr (warp_idx l)) = 0" "ln_page (array_lane warp_pc warp_arr (warp_idx l)) = 1" for l
    by (simp_all add: array_lane_def Let_def f get_page_def) (simp_all add: warp_arr_def warp_pc_def warp_idx_def)
  have "in_use warp_pc = {}" by (simp add: in_use_def st)
  moreover have "lane_page (\<lambda>l. array_lane warp_pc warp_arr (warp_idx l)) ` {l. bit (found_mask warp_arr 3 warp_idx) l} = {(0, 1)}"
    unfolding b by (auto simp: lane_page_def pg)
  moreover have "unat (pc_n_pages warp_pc) = 1" by (simp add: warp_pc_def)
  ultimately show "warp_room warp_pc warp_arr 3 warp_idx" by (simp add: warp_room_def Let_def st)
  have loc: "elem_loc warp_pc warp_arr 70 = Some (0, 1, 6)" "elem_loc warp_pc warp_arr 71 = Some (0, 1, 7)"
    by (simp_all add: elem_loc_def array_lane_def Let_def find_range_def get_page_def get_subindex_def warp_arr_def warp_pc_def)
  have "content warp_pc 0 1 0 = (\<lambda>e. 1000 + e)"
    by (simp add: content_def st) (simp add: home_ctrl_def page_lba_def get_backing_page_def backing_page_def warp_pc_def fun_eq_iff)
  then show "elem_view warp_pc warp_arr 70 = Some 1006" "elem_view warp_pc warp_arr 71 = Some 1007"
    by (simp_all add: elem_view_def elem_map_def loc) (simp_all add: elems_per_block_def warp_pc_def warp_arr_def)
qed

text \<open>C5: An array over the page cache is a flat array, of the elements whose index \<open>find_range\<close> finds.  With no window-buffer or
  prefetch counter pending (\<open>no_prefetch\<close>, part of \<open>array_inv\<close>), for every sequence of warp-wide reads, writes and
  atomic additions, with any pattern of indices per lane, any order in which the lanes of each warp get
  through the divergent parts, and any hits, misses and evictions this causes, the array holds what a flat
  array holds after the lanes' stores in their order; and the invariant of cache and array is kept.\<close>

theorem array_transparent:
  assumes "array_inv arr pc" and "run_ops (warp_ok arr) (warp_do arr) ops pc = Some pc'"
  shows "array_inv arr pc' \<and> elem_view pc' arr = fold warp_spec ops (elem_view pc arr)"
  using warp.run_inv [OF assms] warp.run_view [OF assms] by simp

theorem array_transparent_witness:
  "\<exists>pc'. run_ops (warp_ok warp_arr) (warp_do warp_arr) [SeqWrite 3 warp_idx (\<lambda>l. 7 + l) 0 warp_sd] warp_pc = Some pc' \<and>
     elem_view pc' warp_arr 71 = Some 8"
proof -
  let ?op = "SeqWrite 3 warp_idx (\<lambda>l. 7 + l) 0 warp_sd"
  have ok: "warp_ok warp_arr ?op warp_pc" using warp_facts(2,3) by simp
  then obtain pc' where "warp_do warp_arr ?op warp_pc = Some pc'" using warp_step [OF warp_pc_inv] by blast
  then have r: "run_ops (warp_ok warp_arr) (warp_do warp_arr) [?op] warp_pc = Some pc'" using ok by (simp del: warp_do.simps warp_ok.simps)
  show ?thesis using array_transparent [OF warp_pc_inv r] r by (simp add: warp_sd_def warp_idx_def)
qed

text \<open>C12: Warp accesses return, with the right values.  Let no window-buffer or prefetch counter be pending on any
  page (\<open>no_prefetch\<close>, part of \<open>array_inv\<close>: an acquire with such a counter pins one user more), and let the cache have room (the pages in
  use and the pages the warp touches fit into the slots, with room for 32 users more).  Then \<open>seq_read\<close>, \<open>seq_write\<close>
  and \<open>AtomicAdd\<close> come back: a read with the element of every lane whose index \<open>find_range\<close> finds (C36 shows which it
  misses), an atomic addition with the values of a sequential run of the lanes in the order of their accesses; and
  every user count is what it was.\<close>

theorem warp_access_correct:
  assumes "array_inv arr pc" and "sched_ok arr msk idx sd" and "warp_room pc arr msk idx"
  shows "(\<exists>pc' ret. seq_read pc arr msk idx smid sd junk = Some (pc', ret) \<and> warp_done arr pc pc' (elem_view pc arr) \<and>
      (\<forall>l. bit msk l \<and> find_range arr (idx l) \<noteq> None \<longrightarrow> elem_view pc arr (idx l) = Some (ret l))) \<and>
    (\<exists>pc'. seq_write pc arr msk idx val smid sd = Some pc' \<and>
      warp_done arr pc pc' (fold (\<lambda>l M. M(idx l \<mapsto> val l)) (sd_access sd) (elem_view pc arr))) \<and>
    (\<exists>pc' old. AtomicAdd pc arr msk idx val smid sd = Some (pc', old) \<and>
      warp_done arr pc pc' (fst (flat_adds idx val (sd_access sd) (elem_view pc arr) (\<lambda>_. 0))) \<and>
      old = snd (flat_adds idx val (sd_access sd) (elem_view pc arr) (\<lambda>_. 0)))"
  using seq_read_ok [OF assms, of smid junk] seq_write_ok [OF assms, of val smid] AtomicAdd_ok [OF assms, of val smid]
  by (auto simp: bit_found_mask split_beta)

theorem warp_access_correct_witness:
  "\<exists>pc' ret. seq_read warp_pc warp_arr 3 warp_idx 0 warp_sd (\<lambda>_. 0) = Some (pc', ret) \<and> ret 0 = 1006 \<and> ret 1 = 1007"
proof -
  obtain pc' ret where r: "seq_read warp_pc warp_arr 3 warp_idx 0 warp_sd (\<lambda>_. 0) = Some (pc', ret)"
      "\<forall>l. bit (3::u32) l \<and> find_range warp_arr (warp_idx l) \<noteq> None \<longrightarrow> elem_view warp_pc warp_arr (warp_idx l) = Some (ret l)"
    using warp_access_correct [OF warp_pc_inv warp_facts(2,3), of 0 "\<lambda>_. 0" "\<lambda>_. 0"] by blast
  have "bit (3::u32) 0 \<and> find_range warp_arr (warp_idx 0) \<noteq> None" "bit (3::u32) 1 \<and> find_range warp_arr (warp_idx 1) \<noteq> None"
    using warp_facts(1) [of 0] warp_facts(1) [of 1] by (simp_all add: bit_found_mask)
  then show ?thesis using r warp_facts(4,5) by (intro exI [of _ pc'] exI [of _ ret]) (auto simp: warp_idx_def dest: spec [of _ 0] spec [of _ 1])
qed

text \<open>C36: An array cannot be put together from ranges that follow one another.  \<open>find_range\<close> compares the
  index with the number of elements of a range, not with its end: a range that starts at or behind its
  number of elements is never found, so that reads there return an uninitialised value and writes are lost.\<close>

theorem find_range_misses:
  assumes "k < length (ad_ranges arr)" and "rd_count (ad_ranges arr ! k) \<le> rd_index_start (ad_ranges arr ! k)"
  shows "find_range arr i \<noteq> Some k"
  using find_range_some [of arr i k] assms by auto

theorem find_range_misses_witness:
  "find_range \<lparr>ad_sizeof_T = 8, ad_ranges =
     [\<lparr>rd_index_start = 0, rd_count = 64, rd_range_id = 0, rd_page_start_offset = 0, rd_page_size = 512, rd_page_start = 0,
       rd_page_count = 1, rd_n_elems_per_page = 64, rd_dist = STRIPE\<rparr>,
      \<lparr>rd_index_start = 64, rd_count = 64, rd_range_id = 1, rd_page_start_offset = 0, rd_page_size = 512, rd_page_start = 1,
       rd_page_count = 1, rd_n_elems_per_page = 64, rd_dist = STRIPE\<rparr>]\<rparr> 70 \<noteq> Some 1"
  by (rule find_range_misses) simp_all

end
