(* ===== verification/Bam_Ptr.thy ===== *)
theory Bam_Ptr
  imports Bam_Array
begin

text \<open>
  Pointers into arrays (\<open>bam_ptr\<close> of \<open>include/page_cache.h\<close>) and the functions of \<open>array_d_t\<close> they
  are made of.  A pointer keeps the page of its last access acquired, with the range of indices on it
  and its address; an access outside gives the page back and acquires another.  The lanes of a warp
  have a pointer each and act together as in \<open>Bam_Array\<close>.
\<close>

section \<open>Array functions that leave a page acquired\<close>

definition sub_mask :: "u32 \<Rightarrow> (nat \<Rightarrow> bool) \<Rightarrow> u32" where
  "sub_mask msk P = lanes_mask (filter P (active_lanes msk))"

text \<open>The page, subindex and address of an index in a range given by its number.\<close>

definition lane_at :: "'b page_cache \<Rightarrow> array_d_t \<Rightarrow> nat \<Rightarrow> u64 \<Rightarrow> lane_t" where
  "lane_at pc arr k i =
     (let rng = ad_ranges arr ! k; page = get_page pc (ad_sizeof_T arr) rng i
      in \<lparr>ln_rng = rd_range_id rng, ln_page = page, ln_sub = get_subindex pc (ad_sizeof_T arr) rng i,
          ln_gaddr = get_global_address pc (rd_range_id rng) page\<rparr>)"

text \<open>
  What an acquire returns through its references: the pointer to a \<open>data_page_t\<close> (the range and the
  position in its \<open>pages\<close>), the first index of the page and the one behind its last, the number of the
  range, and the address of the page.
\<close>

record page_ref =
  pr_page :: "(u64 \<times> u64) option"
  pr_start :: u64
  pr_end :: u64
  pr_range :: "nat option"
  pr_addr :: "u64 option"

definition array_acquire_page ::
  "'b page_cache \<Rightarrow> array_d_t \<Rightarrow> u32 \<Rightarrow> (nat \<Rightarrow> u64) \<Rightarrow> u32 \<Rightarrow> nat list \<Rightarrow> (nat \<Rightarrow> page_ref) \<Rightarrow> ('b page_cache \<times> (nat \<Rightarrow> page_ref)) option"
where
  "array_acquire_page pc arr msk0 idx smid order old =
     (let msk = found_mask arr msk0 idx; L = (\<lambda>l. array_lane pc arr (idx l)) in
      case coalesce_page pc msk L False smid order of
        None \<Rightarrow> None
      | Some (pc1, base) \<Rightarrow>
          Some (pc1, \<lambda>l.
            (case find_range arr (idx l) of
               None \<Rightarrow> (old l)\<lparr>pr_page := None, pr_range := None, pr_addr := None\<rparr>
             | Some r \<Rightarrow>
                 (let n = rd_n_elems_per_page (ad_ranges arr ! r); start = n * ln_page (L l)
                  in \<lparr>pr_page = Some (ln_rng (L l), base l), pr_start = start, pr_end = start + n, pr_range = Some r,
                      pr_addr = Some (get_cache_page_addr pc1 (ucast (base l)))\<rparr>))))"

definition array_release_page ::
  "'b page_cache \<Rightarrow> array_d_t \<Rightarrow> u32 \<Rightarrow> (nat \<Rightarrow> nat option) \<Rightarrow> (nat \<Rightarrow> u64) \<Rightarrow> nat list \<Rightarrow> 'b page_cache"
where
  "array_release_page pc arr msk0 r idx order =
     coalesce_release (sub_mask msk0 (\<lambda>l. r l \<noteq> None)) (\<lambda>l. lane_at pc arr (the (r l)) (idx l)) order pc"

text \<open>\<open>acquire_page_\<close>: one lane alone, with a range and page it has looked up before (\<open>get_page_gid\<close>).\<close>

definition array_acquire_page1 ::
  "'b page_cache \<Rightarrow> range_d_t option \<Rightarrow> u64 \<Rightarrow> u32 \<Rightarrow> page_ref \<Rightarrow> ('b page_cache \<times> page_ref) option"
where
  "array_acquire_page1 pc rng page smid old =
     (case rng of
        None \<Rightarrow> Some (pc, old\<lparr>pr_page := None, pr_addr := None\<rparr>)
      | Some rg \<Rightarrow>
          (case acquire_page pc (rd_range_id rg) page 1 False (smid mod pc_n_qps pc 0) of
             None \<Rightarrow> None
           | Some (pc1, base) \<Rightarrow>
               (let start = rd_n_elems_per_page rg * page
                in Some (pc1, old\<lparr>pr_page := Some (rd_range_id rg, base), pr_start := start, pr_end := start + rd_n_elems_per_page rg,
                              pr_addr := Some (get_cache_page_addr pc1 (ucast base))\<rparr>))))"

section \<open>Pointers\<close>

record bam_ptr =
  bp_page :: "(u64 \<times> u64) option"
  bp_start :: u64
  bp_end :: u64
  bp_range :: "nat option"
  bp_addr :: "u64 option"
  bp_is_subRef :: bool

definition bam_ptr_new :: "bool \<Rightarrow> bam_ptr" where
  "bam_ptr_new is_subRef = \<lparr>bp_page = None, bp_start = 0, bp_end = 0, bp_range = None, bp_addr = None, bp_is_subRef = is_subRef\<rparr>"

text \<open>The two versions of \<open>fini\<close>: the one without argument always gives the page back.\<close>

definition bp_fini_if :: "(nat \<Rightarrow> bool) \<Rightarrow> 'b page_cache \<Rightarrow> array_d_t \<Rightarrow> u32 \<Rightarrow> (nat \<Rightarrow> bam_ptr) \<Rightarrow> nat list \<Rightarrow> 'b page_cache \<times> (nat \<Rightarrow> bam_ptr)" where
  "bp_fini_if is_subRef pc arr msk ps order =
     (array_release_page pc arr (sub_mask msk (\<lambda>l. bp_page (ps l) \<noteq> None \<and> is_subRef l)) (\<lambda>l. bp_range (ps l)) (\<lambda>l. bp_start (ps l)) order,
      \<lambda>l. if bit msk l \<and> bp_page (ps l) \<noteq> None then (ps l)\<lparr>bp_page := None\<rparr> else ps l)"

definition bp_fini :: "'b page_cache \<Rightarrow> array_d_t \<Rightarrow> u32 \<Rightarrow> (nat \<Rightarrow> bam_ptr) \<Rightarrow> nat list \<Rightarrow> 'b page_cache \<times> (nat \<Rightarrow> bam_ptr)" where
  "bp_fini = bp_fini_if (\<lambda>_. True)"

text \<open>The destructor; what is left are pointers as a constructor makes them.\<close>

definition bam_ptr_delete :: "'b page_cache \<Rightarrow> array_d_t \<Rightarrow> u32 \<Rightarrow> (nat \<Rightarrow> bam_ptr) \<Rightarrow> nat list \<Rightarrow> 'b page_cache \<times> (nat \<Rightarrow> bam_ptr)" where
  "bam_ptr_delete pc arr msk ps order =
     (fst (bp_fini_if (\<lambda>l. bp_is_subRef (ps l)) pc arr msk ps order), \<lambda>l. if bit msk l then bam_ptr_new (bp_is_subRef (ps l)) else ps l)"

definition ref_of :: "bam_ptr \<Rightarrow> page_ref" where
  "ref_of p = \<lparr>pr_page = bp_page p, pr_start = bp_start p, pr_end = bp_end p, pr_range = bp_range p, pr_addr = bp_addr p\<rparr>"

definition set_ref :: "bam_ptr \<Rightarrow> page_ref \<Rightarrow> bam_ptr" where
  "set_ref p r = p\<lparr>bp_page := pr_page r, bp_start := pr_start r, bp_end := pr_end r, bp_range := pr_range r, bp_addr := pr_addr r\<rparr>"

definition bp_update_page ::
  "'b page_cache \<Rightarrow> array_d_t \<Rightarrow> u32 \<Rightarrow> (nat \<Rightarrow> bam_ptr) \<Rightarrow> (nat \<Rightarrow> u64) \<Rightarrow> u32 \<Rightarrow> schedule \<Rightarrow> ('b page_cache \<times> (nat \<Rightarrow> bam_ptr)) option"
where
  "bp_update_page pc arr msk ps idx smid sd =
     (let (pc1, ps1) = bp_fini pc arr msk ps (sd_release sd) in
      case array_acquire_page pc1 arr msk idx smid (sd_acquire sd) (\<lambda>l. ref_of (ps1 l)) of
        None \<Rightarrow> None
      | Some (pc2, ref) \<Rightarrow> Some (pc2, \<lambda>l. if bit msk l then set_ref (ps1 l) (ref l) else ps1 l))"

text \<open>The lanes whose index is not on the page of their pointer.\<close>

definition bp_need :: "u32 \<Rightarrow> (nat \<Rightarrow> bam_ptr) \<Rightarrow> (nat \<Rightarrow> u64) \<Rightarrow> u32" where
  "bp_need msk ps idx = sub_mask msk (\<lambda>l. idx l < bp_start (ps l) \<or> idx l \<ge> bp_end (ps l))"

definition bp_elem :: "array_d_t \<Rightarrow> bam_ptr \<Rightarrow> u64 \<Rightarrow> u64" where
  "bp_elem arr p i = the (bp_addr p) + (i - bp_start p) * ad_sizeof_T arr"

text \<open>\<open>read\<close>; a lane with a null address faults, which is no result.\<close>

definition bp_read ::
  "(nat \<Rightarrow> 't) page_cache \<Rightarrow> array_d_t \<Rightarrow> u32 \<Rightarrow> (nat \<Rightarrow> bam_ptr) \<Rightarrow> (nat \<Rightarrow> u64) \<Rightarrow> u32 \<Rightarrow> schedule \<Rightarrow>
   ((nat \<Rightarrow> 't) page_cache \<times> (nat \<Rightarrow> bam_ptr) \<times> (nat \<Rightarrow> 't)) option"
where
  "bp_read pc arr msk ps idx smid sd =
     (case bp_update_page pc arr (bp_need msk ps idx) ps idx smid sd of
        None \<Rightarrow> None
      | Some (pc1, ps1) \<Rightarrow>
          if list_ex (\<lambda>l. bp_addr (ps1 l) = None) (active_lanes msk) then None
          else Some (pc1, ps1, \<lambda>l. load_T pc1 (ad_sizeof_T arr) (bp_elem arr (ps1 l) (idx l))))"

text \<open>\<open>operator[]\<close>, which returns a reference: only an access that changes the page marks one dirty.\<close>

definition bp_mark :: "u32 \<Rightarrow> (nat \<Rightarrow> bam_ptr) \<Rightarrow> 'b page_cache \<Rightarrow> 'b page_cache" where
  "bp_mark msk ps pc = foldl (\<lambda>p l. upd_state (fst (the (bp_page (ps l)))) (snd (the (bp_page (ps l)))) (\<lambda>s. s OR DIRTY) p) pc (active_lanes msk)"

definition bp_ref ::
  "'b page_cache \<Rightarrow> array_d_t \<Rightarrow> u32 \<Rightarrow> (nat \<Rightarrow> bam_ptr) \<Rightarrow> (nat \<Rightarrow> u64) \<Rightarrow> u32 \<Rightarrow> schedule \<Rightarrow> ('b page_cache \<times> (nat \<Rightarrow> bam_ptr)) option"
where
  "bp_ref pc arr msk ps idx smid sd =
     (let need = bp_need msk ps idx in
      case bp_update_page pc arr need ps idx smid sd of
        None \<Rightarrow> None
      | Some (pc1, ps1) \<Rightarrow>
          if list_ex (\<lambda>l. bp_page (ps1 l) = None) (active_lanes need) \<or> list_ex (\<lambda>l. bp_addr (ps1 l) = None) (active_lanes msk) then None
          else Some (bp_mark need ps1 pc1, ps1))"

definition bp_assign ::
  "(nat \<Rightarrow> 't) page_cache \<Rightarrow> array_d_t \<Rightarrow> u32 \<Rightarrow> (nat \<Rightarrow> bam_ptr) \<Rightarrow> (nat \<Rightarrow> u64) \<Rightarrow> (nat \<Rightarrow> 't) \<Rightarrow> u32 \<Rightarrow> schedule \<Rightarrow>
   ((nat \<Rightarrow> 't) page_cache \<times> (nat \<Rightarrow> bam_ptr)) option"
where
  "bp_assign pc arr msk ps idx val smid sd =
     (case bp_ref pc arr msk ps idx smid sd of
        None \<Rightarrow> None
      | Some (pc1, ps1) \<Rightarrow> Some (foldl (\<lambda>p l. store_T p (ad_sizeof_T arr) (bp_elem arr (ps1 l) (idx l)) (val l)) pc1 (sd_access sd), ps1))"

text \<open>The same operator in an expression: the value behind the reference.\<close>

definition bp_value ::
  "(nat \<Rightarrow> 't) page_cache \<Rightarrow> array_d_t \<Rightarrow> u32 \<Rightarrow> (nat \<Rightarrow> bam_ptr) \<Rightarrow> (nat \<Rightarrow> u64) \<Rightarrow> u32 \<Rightarrow> schedule \<Rightarrow>
   ((nat \<Rightarrow> 't) page_cache \<times> (nat \<Rightarrow> bam_ptr) \<times> (nat \<Rightarrow> 't)) option"
where
  "bp_value pc arr msk ps idx smid sd =
     (case bp_ref pc arr msk ps idx smid sd of
        None \<Rightarrow> None
      | Some (pc1, ps1) \<Rightarrow> Some (pc1, ps1, \<lambda>l. load_T pc1 (ad_sizeof_T arr) (bp_elem arr (ps1 l) (idx l))))"

text \<open>\<open>memref\<close>: without an update the result is an uninitialised variable (\<open>junk\<close>).\<close>

definition bp_memref ::
  "'b page_cache \<Rightarrow> array_d_t \<Rightarrow> u32 \<Rightarrow> (nat \<Rightarrow> bam_ptr) \<Rightarrow> (nat \<Rightarrow> u64) \<Rightarrow> u32 \<Rightarrow> schedule \<Rightarrow> (nat \<Rightarrow> u64 option) \<Rightarrow>
   ('b page_cache \<times> (nat \<Rightarrow> bam_ptr) \<times> (nat \<Rightarrow> u64 option)) option"
where
  "bp_memref pc arr msk ps idx smid sd junk =
     (case bp_update_page pc arr (bp_need msk ps idx) ps idx smid sd of
        None \<Rightarrow> None
      | Some (pc1, ps1) \<Rightarrow> Some (pc1, ps1, \<lambda>l. if bit (bp_need msk ps idx) l then bp_addr (ps1 l) else junk l))"

section \<open>Lemmas: masks and users\<close>

lemma bit_sub_mask: "bit (sub_mask m P) l \<longleftrightarrow> bit m l \<and> P l"
  by (auto simp: sub_mask_def bit_lanes_mask set_active dest: bit_imp_le_length)

lemma bit_need: "bit (bp_need m ps idx) l \<longleftrightarrow> bit m l \<and> \<not> (bp_start (ps l) \<le> idx l \<and> idx l < bp_end (ps l))"
  by (auto simp: bp_need_def bit_sub_mask not_le not_less)

lemma lane_at_array: "find_range arr i = Some k \<Longrightarrow> lane_at pc arr k i = array_lane pc arr i"
  by (simp add: lane_at_def array_lane_def Let_def)

lemma count_of_card:
  assumes "lanes_ok pc m L" and "bit m l"
  shows "unat (count_of m L l) = card {l'. bit m l' \<and> lane_page L l' = lane_page L l}"
proof -
  have "active_lanes (eq_mask_of m L l) = filter (\<lambda>l'. ln_gaddr (L l') = ln_gaddr (L l)) (active_lanes m)" by (rule eq_mask_lanes)
  moreover have "set (filter (\<lambda>l'. ln_gaddr (L l') = ln_gaddr (L l)) (active_lanes m)) = {l'. bit m l' \<and> lane_page L l' = lane_page L l}"
    using lanes_okD(4) [OF assms(1) _ assms(2)] by (auto simp: set_active)
  moreover have "distinct (filter (\<lambda>l'. ln_gaddr (L l') = ln_gaddr (L l)) (active_lanes m))" by (simp add: active_lanes_def)
  ultimately have c: "length (active_lanes (eq_mask_of m L l)) = card {l'. bit m l' \<and> lane_page L l' = lane_page L l}"
    using distinct_card by metis
  have "length (active_lanes (eq_mask_of m L l)) \<le> length [0..<32::nat]" unfolding active_lanes_def by (rule length_filter_le)
  then show ?thesis unfolding count_of_def popc_def c by (simp add: unat_of_nat)
qed

text \<open>Over a whole warp, acquiring adds to a page a user for every lane on it and releasing takes one away.\<close>

lemma held_total:
  assumes ok: "lanes_ok pc m L" and ls: "distinct ls" "set ls = {l. bit m l}"
  shows "held m L ls H x = H x + card {l. bit m l \<and> lane_page L l = x}" "unheld m L ls H x = H x - card {l. bit m l \<and> lane_page L l = x}"
proof -
  have "held m L ls H x = H x + card {l. bit m l \<and> lane_page L l = x} \<and> unheld m L ls H x = H x - card {l. bit m l \<and> lane_page L l = x}"
  proof (cases "\<exists>l. bit m l \<and> lane_page L l = x")
    case True
    then obtain l where l: "bit m l" "lane_page L l = x" by blast
    let ?a = "master_of m L l"
    note M = master [OF l(1), of L]
    have pg: "lane_page L ?a = x" using lanes_okD(4) [OF ok M(1) l(1)] M(2) l(2) by simp
    have "?a \<in> set ls" using ls(2) M(1) by simp
    then show ?thesis using held_at [OF ok ls(1) _ _ M(3), of H] count_of_card [OF ok M(1)] ls(2) pg by simp
  next
    case False
    then have "{l. bit m l \<and> lane_page L l = x} = {}" by blast
    then have "card {l. bit m l \<and> lane_page L l = x} = 0" by (simp only: card.empty)
    moreover have "held m L ls H x = H x" "unheld m L ls H x = H x" using False ls(2) by (auto intro!: held_other unheld_other)
    ultimately show ?thesis by linarith
  qed
  then show "held m L ls H x = H x + card {l. bit m l \<and> lane_page L l = x}" "unheld m L ls H x = H x - card {l. bit m l \<and> lane_page L l = x}"
    by simp_all
qed

section \<open>Lemmas: the pages of a flat range\<close>

text \<open>What pointers rely on: one range, of indices from 0 on, that begins at the start of a page.\<close>

definition flat_range :: "'b page_cache \<Rightarrow> array_d_t \<Rightarrow> bool" where
  "flat_range pc arr \<longleftrightarrow> (\<exists>rng. ad_ranges arr = [rng] \<and> rd_index_start rng = 0 \<and> rd_page_start_offset rng = 0 \<and>
     unat (rd_n_elems_per_page rng) * unat (ad_sizeof_T arr) = unat (pc_page_size pc))"

abbreviation epp :: "array_d_t \<Rightarrow> u64" where
  "epp arr \<equiv> rd_n_elems_per_page (ad_ranges arr ! 0)"

lemma flat_find: "flat_range pc arr \<Longrightarrow> find_range arr i = (if i < rd_count (ad_ranges arr ! 0) then Some 0 else None)"
  by (auto simp: flat_range_def find_range_def)

lemma flat_lane:
  assumes ok: "ad_ok pc arr" and fl: "flat_range pc arr" and i: "find_range arr i \<noteq> None"
  shows "find_range arr i = Some 0" "unat (ln_page (array_lane pc arr i)) = unat i div unat (epp arr)"
    "unat (ln_sub (array_lane pc arr i)) = (unat i mod unat (epp arr)) * unat (ad_sizeof_T arr)"
    "ln_rng (array_lane pc arr i) = rd_range_id (ad_ranges arr ! 0)" "0 < unat (epp arr)"
    "unat (epp arr) * (unat i div unat (epp arr)) + unat (epp arr) < 2 ^ 64"
proof -
  obtain rng where rng: "ad_ranges arr = [rng]" "rd_index_start rng = 0" "rd_page_start_offset rng = 0"
      "unat (rd_n_elems_per_page rng) * unat (ad_sizeof_T arr) = unat (pc_page_size pc)" using fl by (auto simp: flat_range_def)
  show f: "find_range arr i = Some 0" using i flat_find [OF fl, of i] by (simp split: if_splits)
  have sz: "0 < unat (ad_sizeof_T arr)" using ok by (simp add: ad_ok_def)
  have b: "byte_off arr 0 i = unat i * unat (ad_sizeof_T arr)" by (simp add: byte_off_def rng)
  have ps: "unat (pc_page_size pc) = unat (epp arr) * unat (ad_sizeof_T arr)" using rng by simp
  note A = array_lane [OF ok f]
  show "unat (ln_page (array_lane pc arr i)) = unat i div unat (epp arr)" unfolding A(2) b ps using sz by simp
  show "unat (ln_sub (array_lane pc arr i)) = (unat i mod unat (epp arr)) * unat (ad_sizeof_T arr)" unfolding A(3) b ps by simp
  show "ln_rng (array_lane pc arr i) = rd_range_id (ad_ranges arr ! 0)" by (rule A(1))
  have psz: "0 < unat (pc_page_size pc)" using A(7) by linarith
  then show e: "0 < unat (epp arr)" unfolding ps by simp
  have d: "in_dom pc (ln_rng (array_lane pc arr i)) (ln_page (array_lane pc arr i))" by (rule A(5))
  have "unat (ln_page (array_lane pc arr i)) < unat (pc_page_counts pc (ln_rng (array_lane pc arr i)))" using d by (simp add: in_dom_def word_less_nat_alt)
  then have "(unat i div unat (epp arr) + 1) * unat (pc_page_size pc) \<le> unat (pc_page_counts pc (ln_rng (array_lane pc arr i))) * unat (pc_page_size pc)"
    unfolding A(2) b ps using sz by (intro mult_le_mono1) simp
  also have "\<dots> < 2 ^ 64" unfolding A(1) using ok by (simp only: ad_ok_def rng(1)) auto
  finally have "(unat i div unat (epp arr) + 1) * unat (epp arr) * unat (ad_sizeof_T arr) < 2 ^ 64" unfolding ps by (simp only: mult.assoc)
  moreover have "(unat i div unat (epp arr) + 1) * unat (epp arr) * 1 \<le> (unat i div unat (epp arr) + 1) * unat (epp arr) * unat (ad_sizeof_T arr)"
    using sz by (intro mult_le_mono2) simp
  ultimately show "unat (epp arr) * (unat i div unat (epp arr)) + unat (epp arr) < 2 ^ 64" by (simp add: algebra_simps)
qed

text \<open>The first index of a page, as the pointer stores it.\<close>

lemma flat_start:
  assumes ok: "ad_ok pc arr" and fl: "flat_range pc arr" and i: "find_range arr i \<noteq> None"
  defines "s \<equiv> epp arr * ln_page (array_lane pc arr i)"
  shows "unat s = unat (epp arr) * (unat i div unat (epp arr))" "unat (s + epp arr) = unat s + unat (epp arr)"
    "find_range arr s = Some 0" "unat s \<le> unat i" "unat i < unat s + unat (epp arr)"
proof -
  note F = flat_lane [OF ok fl i]
  have "unat (epp arr) * unat (ln_page (array_lane pc arr i)) < 2 ^ 64" using F(2,6) by simp
  then show s: "unat s = unat (epp arr) * (unat i div unat (epp arr))" unfolding s_def F(2) [symmetric] using unat_mult_lem [of "epp arr" "ln_page (array_lane pc arr i)"] by simp
  show "unat (s + epp arr) = unat s + unat (epp arr)" using F(6) s by (subst unat_add_bounded) simp_all
  show le: "unat s \<le> unat i" unfolding s by simp
  show "unat i < unat s + unat (epp arr)" unfolding s using F(5)
    by (metis add.commute dividend_less_times_div mult.commute)
  have "s \<le> i" using le by (simp add: word_le_nat_alt)
  moreover have "i < rd_count (ad_ranges arr ! 0)" using F(1) flat_find [OF fl, of i] by (simp split: if_splits)
  ultimately show "find_range arr s = Some 0" using flat_find [OF fl, of s] by simp
qed

lemma flat_near:
  assumes ok: "ad_ok pc arr" and fl: "flat_range pc arr" and f: "find_range arr s = Some 0" "find_range arr i = Some 0"
    and s: "unat (epp arr) dvd unat s" and le: "unat s \<le> unat i" "unat i < unat s + unat (epp arr)"
  shows "lane_page (\<lambda>_. array_lane pc arr i) l = lane_page (\<lambda>_. array_lane pc arr s) l"
    "(i - s) * ad_sizeof_T arr = ln_sub (array_lane pc arr i)"
proof -
  have fi: "find_range arr i \<noteq> None" and fs: "find_range arr s \<noteq> None" using f by simp_all
  note Fi = flat_lane [OF ok fl fi] and Fs = flat_lane [OF ok fl fs]
  obtain q where q: "unat s = unat (epp arr) * q" using s by blast
  have "unat i = unat (epp arr) * q + (unat i - unat s)" "unat i - unat s < unat (epp arr)" using q le by simp_all
  then have d: "unat i div unat (epp arr) = q" "unat i mod unat (epp arr) = unat i - unat s"
    by (metis div_mult_self4 div_less Fi(5) add_0_right less_not_refl, metis mod_mult_self4 mod_less)
  have "unat s div unat (epp arr) = q" using q Fi(5) by simp
  then have "ln_page (array_lane pc arr i) = ln_page (array_lane pc arr s)" using Fi(2) Fs(2) d(1) by (simp add: word_unat_eq_iff)
  then show "lane_page (\<lambda>_. array_lane pc arr i) l = lane_page (\<lambda>_. array_lane pc arr s) l" using Fi(4) Fs(4) by (simp add: lane_page_def)
  have u: "unat (i - s) = unat i - unat s" using le(1) by (simp add: unat_sub word_le_nat_alt)
  have b: "unat (i - s) * unat (ad_sizeof_T arr) = unat (ln_sub (array_lane pc arr i))" unfolding u Fi(3) d(2) ..
  have "unat (i - s) * unat (ad_sizeof_T arr) < 2 ^ LENGTH(64)" unfolding b by (rule unsigned_less)
  then have "unat ((i - s) * ad_sizeof_T arr) = unat (i - s) * unat (ad_sizeof_T arr)" using unat_mult_lem by blast
  then show "(i - s) * ad_sizeof_T arr = ln_sub (array_lane pc arr i)" using b by (simp add: word_unat_eq_iff)
qed

section \<open>Lemmas: pointers at work\<close>

text \<open>The page a pointer holds: the one its release gives back.\<close>

definition ptr_pg :: "'b page_cache \<Rightarrow> array_d_t \<Rightarrow> bam_ptr \<Rightarrow> (u64 \<times> u64) option" where
  "ptr_pg pc arr p = (case bp_page p of None \<Rightarrow> None
     | Some _ \<Rightarrow> Some (lane_page (\<lambda>_. array_lane pc arr (bp_start p)) 0))"

definition holders :: "'b page_cache \<Rightarrow> array_d_t \<Rightarrow> (nat \<Rightarrow> bam_ptr) \<Rightarrow> u64 \<times> u64 \<Rightarrow> nat" where
  "holders pc arr ps x = card {l. l < 32 \<and> ptr_pg pc arr (ps l) = Some x}"

text \<open>A pointer is empty, or describes a page that is held in slot \<open>B\<close>.\<close>

definition ptr_ok :: "'b page_cache \<Rightarrow> array_d_t \<Rightarrow> (u64 \<times> u64 \<Rightarrow> u64) \<Rightarrow> bam_ptr \<Rightarrow> bool" where
  "ptr_ok pc arr B p \<longleftrightarrow>
     (case ptr_pg pc arr p of None \<Rightarrow> bp_end p \<le> bp_start p
      | Some x \<Rightarrow> bp_page p = Some (fst x, B x) \<and> bp_addr p = Some (get_cache_page_addr pc (ucast (B x))) \<and> bp_range p = Some 0 \<and>
          find_range arr (bp_start p) = Some 0 \<and> unat (epp arr) dvd unat (bp_start p) \<and>
          unat (bp_end p) = unat (bp_start p) + unat (epp arr) \<and> cnt_of (dstate pc (fst x) (snd x)) + 64 < 2 ^ 29)"

text \<open>
  Against the cache \<open>pc0\<close> the pointers started from: every page has a user more for every pointer on it,
  the pages of pointers stay in their slots, and the contents are the same.
\<close>

definition ptrs_state :: "array_d_t \<Rightarrow> 'b page_cache \<Rightarrow> 'b page_cache \<Rightarrow> (nat \<Rightarrow> bam_ptr) \<Rightarrow> bool" where
  "ptrs_state arr pc0 pc ps \<longleftrightarrow> array_inv arr pc0 \<and> flat_range pc0 arr \<and>
     (\<exists>B. warp_state pc0 (holders pc0 arr ps) B False (content pc0) pc \<and> (\<forall>l < 32. ptr_ok pc0 arr B (ps l)))"

text \<open>The orders of the lanes of a pointer access: releasing those that leave a page, acquiring those that need one.\<close>

definition ptr_sched :: "array_d_t \<Rightarrow> u32 \<Rightarrow> (nat \<Rightarrow> bam_ptr) \<Rightarrow> (nat \<Rightarrow> u64) \<Rightarrow> schedule \<Rightarrow> bool" where
  "ptr_sched arr msk ps idx sd \<longleftrightarrow>
     distinct (sd_release sd) \<and> set (sd_release sd) = {l. bit msk l \<and> bp_page (ps l) \<noteq> None} \<and>
     distinct (sd_acquire sd) \<and> set (sd_acquire sd) = {l. bit (found_mask arr msk idx) l}"

definition held_pages_of :: "'b page_cache \<Rightarrow> array_d_t \<Rightarrow> (nat \<Rightarrow> bam_ptr) \<Rightarrow> (u64 \<times> u64) set" where
  "held_pages_of pc arr ps = {x. \<exists>l < 32. ptr_pg pc arr (ps l) = Some x}"

definition ptr_room :: "'b page_cache \<Rightarrow> array_d_t \<Rightarrow> u32 \<Rightarrow> (nat \<Rightarrow> bam_ptr) \<Rightarrow> (nat \<Rightarrow> u64) \<Rightarrow> bool" where
  "ptr_room pc arr msk ps idx \<longleftrightarrow>
     (let L = (\<lambda>l. array_lane pc arr (idx l))
      in (\<forall>l. bit msk l \<longrightarrow> cnt_of (dstate pc (ln_rng (L l)) (ln_page (L l))) + 64 < 2 ^ 29) \<and>
         card (in_use pc \<union> (held_pages_of pc arr ps \<union> lane_page L ` {l. bit msk l})) \<le> unat (pc_n_pages pc))"

lemma ptr_okD:
  assumes "ptr_ok pc arr B p" and "bp_page p = Some g"
  defines "ln \<equiv> array_lane pc arr (bp_start p)" and "x \<equiv> lane_page (\<lambda>_. array_lane pc arr (bp_start p)) 0"
  shows "ptr_pg pc arr p = Some x" "bp_addr p = Some (get_cache_page_addr pc (ucast (B x)))" "bp_range p = Some 0"
    "find_range arr (bp_start p) = Some 0" "unat (epp arr) dvd unat (bp_start p)"
    "unat (bp_end p) = unat (bp_start p) + unat (epp arr)" "cnt_of (dstate pc (ln_rng ln) (ln_page ln)) + 64 < 2 ^ 29"
    "bp_page p = Some (ln_rng ln, B x)" "x = (ln_rng ln, ln_page ln)"
  using assms(1,2) by (simp_all add: ptr_ok_def ptr_pg_def x_def ln_def lane_page_def)

lemma ptr_pg_None: "ptr_pg pc arr p = None \<longleftrightarrow> bp_page p = None"
  by (simp add: ptr_pg_def split: option.splits)

lemma lanes_ok_at:
  assumes inv: "array_inv arr pc"
    and f: "\<And>l. bit m l \<Longrightarrow> find_range arr (idx l) \<noteq> None \<and>
      cnt_of (dstate pc (ln_rng (array_lane pc arr (idx l))) (ln_page (array_lane pc arr (idx l)))) + 64 < 2 ^ 29"
  shows "lanes_ok pc m (\<lambda>l. array_lane pc arr (idx l))"
proof -
  have ok: "ad_ok pc arr" and ca: "cfg_addr pc" using inv by (simp_all add: array_inv_def cache_inv_def inv0_def cfg_ok_def)
  have A: "in_dom pc (ln_rng (array_lane pc arr (idx l))) (ln_page (array_lane pc arr (idx l)))"
      "ln_gaddr (array_lane pc arr (idx l)) = get_global_address pc (ln_rng (array_lane pc arr (idx l))) (ln_page (array_lane pc arr (idx l)))"
      "cnt_of (dstate pc (ln_rng (array_lane pc arr (idx l))) (ln_page (array_lane pc arr (idx l)))) + 32 < 2 ^ 29" if b: "bit m l" for l
  proof -
    obtain k where k: "find_range arr (idx l) = Some k" using f [OF b] by blast
    show "in_dom pc (ln_rng (array_lane pc arr (idx l))) (ln_page (array_lane pc arr (idx l)))"
      "ln_gaddr (array_lane pc arr (idx l)) = get_global_address pc (ln_rng (array_lane pc arr (idx l))) (ln_page (array_lane pc arr (idx l)))"
      by (rule array_lane(5) [OF ok k], rule array_lane(4) [OF ok k])
    show "cnt_of (dstate pc (ln_rng (array_lane pc arr (idx l))) (ln_page (array_lane pc arr (idx l)))) + 32 < 2 ^ 29"
      using f [OF b] by linarith
  qed
  have "(ln_gaddr (array_lane pc arr (idx l)) = ln_gaddr (array_lane pc arr (idx l'))) =
      (lane_page (\<lambda>l. array_lane pc arr (idx l)) l = lane_page (\<lambda>l. array_lane pc arr (idx l)) l')" if "bit m l" "bit m l'" for l l'
    using global_address_inj [OF ca A(1) [OF that(1)] A(1) [OF that(2)]] A(2) [OF that(1)] A(2) [OF that(2)] by (auto simp: lane_page_def)
  then show ?thesis using A(1,3) unfolding lanes_ok_def by blast
qed

lemma lane_page_0: "lane_page (\<lambda>l. array_lane pc arr (f l)) l = lane_page (\<lambda>_. array_lane pc arr (f l)) l'"
  by (simp add: lane_page_def)

lemma coalesce_cong:
  assumes "\<And>l. bit m l \<Longrightarrow> L l = L' l"
  shows "bit m l \<Longrightarrow> eq_mask_of m L l = eq_mask_of m L' l"
    "\<forall>l \<in> set ls. bit m l \<Longrightarrow> coalesce_release m L ls pc = coalesce_release m L' ls pc"
proof -
  show e: "eq_mask_of m L l = eq_mask_of m L' l" if "bit m l" for l
    by (rule bit_word_eqI) (use assms that in \<open>auto simp: bit_eq_mask\<close>)
  show "\<forall>l \<in> set ls. bit m l \<Longrightarrow> coalesce_release m L ls pc = coalesce_release m L' ls pc"
    by (induction ls arbitrary: pc) (simp_all add: master_of_def count_of_def e assms)
qed

lemma cfg_eq_lane_at: "cfg_eq pc' pc \<Longrightarrow> lane_at pc' arr k i = lane_at pc arr k i"
  using cfg_eqD(7) [of pc' pc] by (simp add: cfg_eq_def lane_at_def Let_def get_page_def get_subindex_def)

text \<open>Giving back the pages of some lanes.\<close>

lemma array_release_ok:
  assumes st: "array_inv arr pc0" "warp_state pc0 (holders pc0 arr ps) B False V pc" "\<forall>l < 32. ptr_ok pc0 arr B (ps l)"
    and ls: "distinct ls" "set ls = {l. bit m l \<and> bp_page (ps l) \<noteq> None}"
    and ps': "\<And>l. ptr_pg pc0 arr (ps' l) = (if bit m l then None else ptr_pg pc0 arr (ps l))"
    and m': "\<And>l. bit m' l \<longleftrightarrow> bit m l \<and> bp_page (ps l) \<noteq> None"
  shows "warp_state pc0 (holders pc0 arr ps') B False V (array_release_page pc arr m' (\<lambda>l. bp_range (ps l)) (\<lambda>l. bp_start (ps l)) ls)"
proof -
  let ?L = "\<lambda>l. array_lane pc0 arr (bp_start (ps l))"
  have P: "bp_range (ps l) = Some 0" "find_range arr (bp_start (ps l)) = Some 0" "ptr_pg pc0 arr (ps l) = Some (lane_page ?L l)"
      "cnt_of (dstate pc0 (ln_rng (?L l)) (ln_page (?L l))) + 64 < 2 ^ 29" "l < 32"
    if b: "bit m' l" for l
  proof -
    show l: "l < 32" using bit_imp_le_length [OF b] by simp
    have "bp_page (ps l) \<noteq> None" using b m' by blast
    then obtain g where g: "bp_page (ps l) = Some g" by blast
    note D = ptr_okD [OF st(3) [rule_format, OF l] g]
    show "bp_range (ps l) = Some 0" "find_range arr (bp_start (ps l)) = Some 0" "ptr_pg pc0 arr (ps l) = Some (lane_page ?L l)"
      "cnt_of (dstate pc0 (ln_rng (?L l)) (ln_page (?L l))) + 64 < 2 ^ 29"
      using D(1,3,4,7) by (simp_all add: lane_page_def)
  qed
  have lok: "lanes_ok pc0 m' ?L" by (rule lanes_ok_at [OF st(1)]) (use P(2,4) in simp)
  have e: "sub_mask m' (\<lambda>l. bp_range (ps l) \<noteq> None) = m'" by (rule bit_word_eqI) (use P(1) in \<open>auto simp: bit_sub_mask\<close>)
  have lsm: "set ls = {l. bit m' l}" using ls(2) m' by auto
  have "lane_at pc arr (the (bp_range (ps l))) (bp_start (ps l)) = ?L l" if "bit m' l" for l
    using P(1,2) [OF that] by (simp add: cfg_eq_lane_at [OF warp_stateD(2) [OF st(2)]] lane_at_array)
  then have r: "array_release_page pc arr m' (\<lambda>l. bp_range (ps l)) (\<lambda>l. bp_start (ps l)) ls = coalesce_release m' ?L ls pc"
    unfolding array_release_page_def e using lsm by (intro coalesce_cong(2)) auto
  have c: "card {l. bit m' l \<and> lane_page ?L l = x} \<le> holders pc0 arr ps x" for x
    unfolding holders_def by (rule card_mono) (use P(3,5) in auto)
  have "\<forall>l \<in> set ls. master_of m' ?L l = l \<longrightarrow> unat (count_of m' ?L l) \<le> holders pc0 arr ps (lane_page ?L l)"
    using count_of_card [OF lok] c lsm by simp
  then have "warp_state pc0 (unheld m' ?L ls (holders pc0 arr ps)) B False V (coalesce_release m' ?L ls pc)"
    using coalesce_release_ok [OF lok st(2) ls(1)] lsm by simp
  moreover have "unheld m' ?L ls (holders pc0 arr ps) x = holders pc0 arr ps' x" for x
  proof -
    have "{l. l < 32 \<and> ptr_pg pc0 arr (ps' l) = Some x} = {l. l < 32 \<and> ptr_pg pc0 arr (ps l) = Some x} - {l. bit m' l \<and> lane_page ?L l = x}"
    proof (intro set_eqI iffI)
      fix l assume "l \<in> {l. l < 32 \<and> ptr_pg pc0 arr (ps' l) = Some x}"
      then show "l \<in> {l. l < 32 \<and> ptr_pg pc0 arr (ps l) = Some x} - {l. bit m' l \<and> lane_page ?L l = x}"
        using ps' [of l] m' [of l] by (auto split: if_splits)
    next
      fix l assume "l \<in> {l. l < 32 \<and> ptr_pg pc0 arr (ps l) = Some x} - {l. bit m' l \<and> lane_page ?L l = x}"
      then have l: "l < 32" "ptr_pg pc0 arr (ps l) = Some x" "\<not> (bit m' l \<and> lane_page ?L l = x)" by auto
      then have "\<not> bit m' l" using P(3) [of l] by auto
      moreover have "bp_page (ps l) \<noteq> None" using l(2) ptr_pg_None [of pc0 arr "ps l"] by simp
      ultimately show "l \<in> {l. l < 32 \<and> ptr_pg pc0 arr (ps' l) = Some x}" using l(1,2) ps' [of l] m' [of l] by simp
    qed
    moreover have "{l. bit m' l \<and> lane_page ?L l = x} \<subseteq> {l. l < 32 \<and> ptr_pg pc0 arr (ps l) = Some x}" using P(3,5) by auto
    ultimately show ?thesis unfolding held_total(2) [OF lok ls(1) lsm] holders_def
      by (simp add: card_Diff_subset finite_subset)
  qed
  then have "unheld m' ?L ls (holders pc0 arr ps) = holders pc0 arr ps'" by (simp add: fun_eq_iff)
  ultimately show ?thesis unfolding r by simp
qed

text \<open>Acquiring pages for pointers that hold none.\<close>

lemma holders_le: "holders pc arr ps x \<le> 32"
proof -
  have "holders pc arr ps x \<le> card {..<32::nat}" unfolding holders_def by (rule card_mono) auto
  then show ?thesis by simp
qed

lemma array_acquire_ok:
  assumes inv: "array_inv arr pc0" and fl: "flat_range pc0 arr"
    and ws: "warp_state pc0 (holders pc0 arr ps) B False V pc" and pk: "\<forall>l < 32. ptr_ok pc0 arr B (ps l)"
    and free: "\<And>l. bit m l \<Longrightarrow> bp_page (ps l) = None" and f: "\<And>l. bit m l \<Longrightarrow> find_range arr (idx l) \<noteq> None"
    and ls: "distinct ls" "set ls = {l. bit (found_mask arr m idx) l}" and room: "ptr_room pc0 arr m ps idx"
  shows "\<exists>pc' ref B'. array_acquire_page pc arr m idx smid ls old = Some (pc', ref) \<and>
    (let ps' = (\<lambda>l. if bit m l then set_ref (ps l) (ref l) else ps l)
     in warp_state pc0 (holders pc0 arr ps') B' False V pc' \<and> (\<forall>l < 32. ptr_ok pc0 arr B' (ps' l)) \<and>
        (\<forall>l. bit m l \<longrightarrow> bp_page (ps' l) \<noteq> None \<and> bp_start (ps' l) \<le> idx l \<and> idx l < bp_end (ps' l)))"
proof -
  let ?L = "\<lambda>l. array_lane pc0 arr (idx l)" and ?H = "holders pc0 arr ps" and ?q = "smid mod pc_n_qps pc 0"
  have ok: "ad_ok pc0 arr" using inv by (simp add: array_inv_def)
  have fm: "found_mask arr m idx = m" by (rule bit_word_eqI) (use f in \<open>auto simp: bit_found_mask\<close>)
  have c64: "cnt_of (dstate pc0 (ln_rng (?L l)) (ln_page (?L l))) + 64 < 2 ^ 29" if "bit m l" for l
    using room that unfolding ptr_room_def Let_def by blast
  have lok: "lanes_ok pc0 m ?L" by (rule lanes_ok_at [OF inv]) (use f c64 in blast)
  let ?P = "held_pages_of pc0 arr ps \<union> lane_page ?L ` {l. bit m l}"
  have card: "card (in_use pc0 \<union> ?P) \<le> unat (pc_n_pages pc0)" using room by (simp add: ptr_room_def Let_def)
  have hp: "{x. 0 < ?H x} \<subseteq> ?P" by (auto simp: holders_def held_pages_of_def card_gt_0_iff)
  have cb: "cnt_of (dstate pc0 (ln_rng (?L l)) (ln_page (?L l))) + ?H (lane_page ?L l) + unat (count_of m ?L l) < 2 ^ 29" if "bit m l" for l
    using c64 [OF that] holders_le [of pc0 arr ps "lane_page ?L l"] count_of_bounds [OF that, of ?L] by linarith
  have lsm: "set ls = {l. bit m l}" using ls(2) fm by simp
  have "\<forall>l \<in> set ls. bit m l \<and> lane_page ?L l \<in> ?P" using lsm by auto
  moreover have "\<forall>l \<in> set ls. master_of m ?L l = l \<longrightarrow>
      cnt_of (dstate pc0 (ln_rng (?L l)) (ln_page (?L l))) + ?H (lane_page ?L l) + unat (count_of m ?L l) < 2 ^ 29" using lsm cb by auto
  ultimately obtain pc' base B' where a: "coalesce_acquire m ?L False ?q ls pc (\<lambda>_. 0) = Some (pc', base)"
      and ws': "warp_state pc0 (held m ?L ls ?H) B' False V pc'" and keep: "\<forall>x. 0 < ?H x \<longrightarrow> B' x = B x"
      and new: "\<forall>l \<in> set ls. master_of m ?L l = l \<longrightarrow> B' (lane_page ?L l) = base l"
    using coalesce_acquire_ok [OF lok card ws ls(1) _ hp, of ?q "\<lambda>_. 0"] by blast
  have L: "array_lane pc arr (idx l) = ?L l" for l using cfg_eq_array(3) [OF warp_stateD(2) [OF ws]] by simp
  define ref where "ref = (\<lambda>l. (case find_range arr (idx l) of None \<Rightarrow> (old l)\<lparr>pr_page := None, pr_range := None, pr_addr := None\<rparr>
     | Some r \<Rightarrow> (let n = rd_n_elems_per_page (ad_ranges arr ! r); start = n * ln_page (?L l)
         in \<lparr>pr_page = Some (ln_rng (?L l), base (master_of m ?L l)), pr_start = start, pr_end = start + n, pr_range = Some r,
             pr_addr = Some (get_cache_page_addr pc' (ucast (base (master_of m ?L l))))\<rparr>)))"
  have r: "array_acquire_page pc arr m idx smid ls old = Some (pc', ref)"
    by (simp add: array_acquire_page_def Let_def fm L coalesce_page_def a ref_def)
  define ps' where "ps' l = (if bit m l then set_ref (ps l) (ref l) else ps l)" for l
  have own: "ptr_ok pc0 arr B' (ps' l)" "ptr_pg pc0 arr (ps' l) = Some (lane_page ?L l)" "bp_page (ps' l) \<noteq> None"
      "bp_start (ps' l) \<le> idx l" "idx l < bp_end (ps' l)" if b: "bit m l" for l
  proof -
    let ?a = "master_of m ?L l" and ?s = "epp arr * ln_page (?L l)"
    note M = master [OF b, of ?L]
    have pg: "lane_page ?L ?a = lane_page ?L l" using lanes_okD(4) [OF lok M(1) b] M(2) by simp
    have "?a \<in> set ls" using lsm M(1) by simp
    then have B: "base ?a = B' (lane_page ?L l)" using new M(3) pg by auto
    have f0: "find_range arr (idx l) = Some 0" by (rule flat_lane(1) [OF ok fl f [OF b]])
    note S = flat_start [OF ok fl f [OF b]]
    have gs: "get_cache_page_addr pc' s = get_cache_page_addr pc0 s" for s
      using warp_stateD(2) [OF ws'] by (simp add: cfg_eq_def get_cache_page_addr_def)
    have P: "bp_page (ps' l) = Some (ln_rng (?L l), base ?a)" "bp_start (ps' l) = ?s" "bp_end (ps' l) = ?s + epp arr"
        "bp_range (ps' l) = Some 0" "bp_addr (ps' l) = Some (get_cache_page_addr pc0 (ucast (base ?a)))"
      using b f0 gs by (simp_all add: ps'_def set_ref_def Let_def ref_def)
    have dv: "unat (epp arr) dvd unat ?s" unfolding S(1) by simp
    have x: "lane_page (\<lambda>_. array_lane pc0 arr ?s) l' = lane_page ?L l" for l'
      using flat_near(1) [OF ok fl S(3) f0 dv S(4,5)] by (simp add: lane_page_def)
    show pp: "ptr_pg pc0 arr (ps' l) = Some (lane_page ?L l)" unfolding ptr_pg_def P(1,2) x by simp
    have "cnt_of (dstate pc0 (fst (lane_page ?L l)) (snd (lane_page ?L l))) + 64 < 2 ^ 29" using c64 [OF b] by (simp add: lane_page_def)
    moreover have "(ln_rng (?L l), base ?a) = (fst (lane_page ?L l), B' (lane_page ?L l))" using B by (simp add: lane_page_def)
    ultimately show "ptr_ok pc0 arr B' (ps' l)" unfolding ptr_ok_def pp option.case P S(2) using S(3) dv B by simp
    show "bp_page (ps' l) \<noteq> None" by (simp add: P)
    show "bp_start (ps' l) \<le> idx l" "idx l < bp_end (ps' l)" unfolding P using S(2,4,5) by (simp_all add: word_le_nat_alt word_less_nat_alt)
  qed
  have rest: "ps' l = ps l" if "\<not> bit m l" for l using that by (simp add: ps'_def)
  have "ptr_ok pc0 arr B' (ps' l)" if l: "l < 32" for l
  proof (cases "bit m l")
    case False
    have pk': "ptr_ok pc0 arr B (ps l)" using pk l by blast
    show ?thesis
    proof (cases "ptr_pg pc0 arr (ps l)")
      case None
      then show ?thesis using pk' rest [OF False] by (simp add: ptr_ok_def)
    next
      case (Some x)
      then have "0 < ?H x" using l by (auto simp: holders_def card_gt_0_iff)
      then have "B' x = B x" using keep by blast
      then show ?thesis using pk' rest [OF False] Some by (simp add: ptr_ok_def)
    qed
  qed (rule own(1))
  moreover have "held m ?L ls ?H x = holders pc0 arr ps' x" for x
  proof -
    have e: "{l. l < 32 \<and> ptr_pg pc0 arr (ps' l) = Some x} = {l. l < 32 \<and> ptr_pg pc0 arr (ps l) = Some x} \<union> {l. bit m l \<and> lane_page ?L l = x}"
    proof (intro set_eqI)
      fix l
      have "ptr_pg pc0 arr (ps l) = None" if "bit m l" using free [OF that] by (simp add: ptr_pg_def)
      then show "l \<in> {l. l < 32 \<and> ptr_pg pc0 arr (ps' l) = Some x} \<longleftrightarrow>
          l \<in> {l. l < 32 \<and> ptr_pg pc0 arr (ps l) = Some x} \<union> {l. bit m l \<and> lane_page ?L l = x}"
        using own(2) [of l] rest [of l] bit_imp_le_length [of m l] by (cases "bit m l") auto
    qed
    have d: "{l. l < 32 \<and> ptr_pg pc0 arr (ps l) = Some x} \<inter> {l. bit m l \<and> lane_page ?L l = x} = {}"
      using free by (auto simp: ptr_pg_def)
    have fin: "finite {l. bit m l \<and> lane_page ?L l = x}"
      by (rule finite_subset [of _ "{..<32}"]) (auto dest: bit_imp_le_length)
    show ?thesis unfolding held_total(1) [OF lok ls(1) lsm] holders_def e by (rule card_Un_disjoint [symmetric]) (use d fin in simp_all)
  qed
  then have "held m ?L ls ?H = holders pc0 arr ps'" by (simp add: fun_eq_iff)
  moreover have "(\<lambda>l. if bit m l then set_ref (ps l) (ref l) else ps l) = ps'" by (rule ext) (simp only: ps'_def)
  ultimately show ?thesis
    using r ws' own(3-5) by (intro exI [of _ pc'] exI [of _ ref] exI [of _ B']) (simp add: Let_def)
qed

lemma held_pages_mono:
  "(\<And>l. ptr_pg pc arr (ps' l) = None \<or> ptr_pg pc arr (ps' l) = ptr_pg pc arr (ps l)) \<Longrightarrow> ptr_room pc arr m ps idx \<Longrightarrow> ptr_room pc arr m ps' idx"
proof -
  assume a: "\<And>l. ptr_pg pc arr (ps' l) = None \<or> ptr_pg pc arr (ps' l) = ptr_pg pc arr (ps l)" and r: "ptr_room pc arr m ps idx"
  have "ptr_pg pc arr (ps l) = Some x" if "ptr_pg pc arr (ps' l) = Some x" for l x using a [of l] that by auto
  then have "held_pages_of pc arr ps' \<subseteq> held_pages_of pc arr ps" unfolding held_pages_of_def by blast
  then have "card (in_use pc \<union> (held_pages_of pc arr ps' \<union> X)) \<le> card (in_use pc \<union> (held_pages_of pc arr ps \<union> X))" for X
    by (intro card_mono) auto
  then show ?thesis using r unfolding ptr_room_def Let_def by (meson le_trans)
qed

lemma bp_update_ok:
  assumes st: "array_inv arr pc0" "flat_range pc0 arr" "warp_state pc0 (holders pc0 arr ps) B False V pc" "\<forall>l < 32. ptr_ok pc0 arr B (ps l)"
    and f: "\<And>l. bit m l \<Longrightarrow> find_range arr (idx l) \<noteq> None"
    and sd: "ptr_sched arr m ps idx sd" and room: "ptr_room pc0 arr m ps idx"
  shows "\<exists>pc' ps' B'. bp_update_page pc arr m ps idx smid sd = Some (pc', ps') \<and>
    warp_state pc0 (holders pc0 arr ps') B' False V pc' \<and> (\<forall>l < 32. ptr_ok pc0 arr B' (ps' l)) \<and>
    (\<forall>l. bit m l \<longrightarrow> bp_page (ps' l) \<noteq> None \<and> bp_start (ps' l) \<le> idx l \<and> idx l < bp_end (ps' l)) \<and>
    (\<forall>l. \<not> bit m l \<longrightarrow> ps' l = ps l)"
proof -
  let ?ps1 = "\<lambda>l. if bit m l \<and> bp_page (ps l) \<noteq> None then (ps l)\<lparr>bp_page := None\<rparr> else ps l"
  have ls: "distinct (sd_release sd)" "set (sd_release sd) = {l. bit m l \<and> bp_page (ps l) \<noteq> None}"
      "distinct (sd_acquire sd)" "set (sd_acquire sd) = {l. bit (found_mask arr m idx) l}"
    using sd unfolding ptr_sched_def by blast+
  have p1: "ptr_pg pc0 arr (?ps1 l) = (if bit m l then None else ptr_pg pc0 arr (ps l))" for l
    by (cases "bp_page (ps l)") (simp_all add: ptr_pg_def)
  have "warp_state pc0 (holders pc0 arr ?ps1) B False V (array_release_page pc arr (sub_mask m (\<lambda>l. bp_page (ps l) \<noteq> None \<and> True))
      (\<lambda>l. bp_range (ps l)) (\<lambda>l. bp_start (ps l)) (sd_release sd))"
    by (rule array_release_ok [OF st(1,3,4) ls(1,2) p1]) (simp add: bit_sub_mask)
  then obtain pc1 where fi: "bp_fini pc arr m ps (sd_release sd) = (pc1, ?ps1)" and ws1: "warp_state pc0 (holders pc0 arr ?ps1) B False V pc1"
    by (auto simp: bp_fini_def bp_fini_if_def)
  define ps1 where "ps1 = ?ps1"
  define c where "c l = (if l < 32 \<and> bit m l then (ps1 l)\<lparr>bp_end := bp_start (ps1 l)\<rparr> else ps1 l)" for l
  have q1: "ptr_pg pc0 arr (ps1 l) = (if bit m l then None else ptr_pg pc0 arr (ps l))" for l unfolding ps1_def by (rule p1)
  have pcp: "ptr_pg pc0 arr (c l) = ptr_pg pc0 arr (ps1 l)" for l by (cases "bp_page (ps1 l)") (simp_all add: ptr_pg_def c_def)
  have free: "bp_page (c l) = None" if "bit m l" for l using q1 [of l] pcp [of l] that ptr_pg_None by metis
  have pk: "\<forall>l < 32. ptr_ok pc0 arr B (c l)"
  proof (intro allI impI)
    fix l :: nat assume l: "l < 32"
    show "ptr_ok pc0 arr B (c l)"
    proof (cases "bit m l")
      case True
      then show ?thesis using q1 [of l] pcp [of l] l by (simp add: ptr_ok_def c_def)
    next
      case False
      then show ?thesis using st(4) l by (simp add: c_def ps1_def)
    qed
  qed
  have hc: "holders pc0 arr c = holders pc0 arr ps1" by (simp add: fun_eq_iff holders_def pcp)
  have rm: "ptr_room pc0 arr m c idx" by (rule held_pages_mono [OF _ room]) (simp add: pcp q1)
  have wsc: "warp_state pc0 (holders pc0 arr c) B False V pc1" unfolding hc ps1_def by (rule ws1)
  obtain pc2 ref B' where a: "array_acquire_page pc1 arr m idx smid (sd_acquire sd) (\<lambda>l. ref_of (ps1 l)) = Some (pc2, ref)"
      and A: "let ps' = (\<lambda>l. if bit m l then set_ref (c l) (ref l) else c l)
       in warp_state pc0 (holders pc0 arr ps') B' False V pc2 \<and> (\<forall>l < 32. ptr_ok pc0 arr B' (ps' l)) \<and>
        (\<forall>l. bit m l \<longrightarrow> bp_page (ps' l) \<noteq> None \<and> bp_start (ps' l) \<le> idx l \<and> idx l < bp_end (ps' l))"
    using array_acquire_ok [OF st(1,2) wsc pk free f ls(3,4) rm, of smid "\<lambda>l. ref_of (ps1 l)"] by blast
  define ps2 where "ps2 = (\<lambda>l. if bit m l then set_ref (ps1 l) (ref l) else ps1 l)"
  have e: "(\<lambda>l. if bit m l then set_ref (c l) (ref l) else c l) = ps2" by (rule ext) (simp add: set_ref_def c_def ps2_def)
  have "bp_update_page pc arr m ps idx smid sd = Some (pc2, ps2)"
    unfolding bp_update_page_def fi ps1_def [symmetric] prod.case Let_def a option.case ps2_def [symmetric] ..
  moreover have "ps2 l = ps l" if "\<not> bit m l" for l using that by (simp add: ps2_def ps1_def)
  ultimately show ?thesis using A unfolding e Let_def by blast
qed

lemma ptr_load:
  assumes st: "array_inv arr pc0" "flat_range pc0 arr" "warp_state pc0 (holders pc0 arr ps) B w V pc" "\<forall>l < 32. ptr_ok pc0 arr B (ps l)"
    and l: "l < 32" "bp_page (ps l) \<noteq> None" and f: "find_range arr i \<noteq> None" and i: "bp_start (ps l) \<le> i" "i < bp_end (ps l)"
  shows "bp_addr (ps l) \<noteq> None" "elem_map pc0 arr V i = Some (load_T pc (ad_sizeof_T arr) (bp_elem arr (ps l) i))"
proof -
  have ok: "ad_ok pc0 arr" using st(1) by (simp add: array_inv_def)
  obtain g where g: "bp_page (ps l) = Some g" using l(2) by blast
  note D = ptr_okD [OF st(4) [rule_format, OF l(1)] g]
  let ?L = "\<lambda>_ :: nat. array_lane pc0 arr i" and ?x = "lane_page (\<lambda>_. array_lane pc0 arr (bp_start (ps l))) 0"
  have f0: "find_range arr i = Some 0" by (rule flat_lane(1) [OF ok st(2) f])
  have le: "unat (bp_start (ps l)) \<le> unat i" "unat i < unat (bp_start (ps l)) + unat (epp arr)"
    using i D(6) by (simp_all add: word_le_nat_alt word_less_nat_alt)
  note N = flat_near [OF ok st(2) D(4) f0 D(5) le]
  have x: "lane_page ?L 0 = ?x" by (rule N(1))
  show "bp_addr (ps l) \<noteq> None" by (simp add: D(2))
  have h: "0 < holders pc0 arr ps ?x" using D(1) l(1) by (auto simp: holders_def card_gt_0_iff)
  have "lane_held pc0 (holders pc0 arr ps) B arr ?L (\<lambda>_. B ?x) 0"
    unfolding lane_held_def x using h array_lane(5,7,8) [OF ok f0] by (simp add: lane_elem_def)
  from lane_access(1) [OF ok st(3) this]
  have a: "load_T pc (ad_sizeof_T arr) (lane_addr pc ?L (\<lambda>_. B ?x) 0) = V (ln_rng (?L 0)) (ln_page (?L 0))
      (lane_elem arr ?L 0 div elems_per_block pc0 (ad_sizeof_T arr)) (lane_elem arr ?L 0 mod elems_per_block pc0 (ad_sizeof_T arr))" .
  have "bp_elem arr (ps l) i = lane_addr pc ?L (\<lambda>_. B ?x) 0"
    using warp_stateD(2) [OF st(3)] by (simp add: bp_elem_def D(2) N(2) lane_addr_def cfg_eq_def get_cache_page_addr_def)
  then show "elem_map pc0 arr V i = Some (load_T pc (ad_sizeof_T arr) (bp_elem arr (ps l) i))"
    using a by (simp add: elem_map_def elem_loc_lane [OF f0, of pc0 0])
qed

lemma bp_read_ok:
  assumes st: "ptrs_state arr pc0 pc ps" and f: "\<And>l. bit msk l \<Longrightarrow> find_range arr (idx l) \<noteq> None"
    and sd: "ptr_sched arr (bp_need msk ps idx) ps idx sd" and room: "ptr_room pc0 arr (bp_need msk ps idx) ps idx"
  shows "\<exists>pc' ps' ret. bp_read pc arr msk ps idx smid sd = Some (pc', ps', ret) \<and> ptrs_state arr pc0 pc' ps' \<and>
    (\<forall>l. bit msk l \<longrightarrow> elem_view pc0 arr (idx l) = Some (ret l))"
proof -
  let ?m = "bp_need msk ps idx"
  obtain B where B: "array_inv arr pc0" "flat_range pc0 arr" "warp_state pc0 (holders pc0 arr ps) B False (content pc0) pc"
      "\<forall>l < 32. ptr_ok pc0 arr B (ps l)" using st by (auto simp: ptrs_state_def)
  have fm: "find_range arr (idx l) \<noteq> None" if "bit ?m l" for l using that f by (simp add: bit_need)
  obtain pc' ps' B' where u: "bp_update_page pc arr ?m ps idx smid sd = Some (pc', ps')"
      and W: "warp_state pc0 (holders pc0 arr ps') B' False (content pc0) pc'" "\<forall>l < 32. ptr_ok pc0 arr B' (ps' l)"
      and new: "\<forall>l. bit ?m l \<longrightarrow> bp_page (ps' l) \<noteq> None \<and> bp_start (ps' l) \<le> idx l \<and> idx l < bp_end (ps' l)"
      and old: "\<forall>l. \<not> bit ?m l \<longrightarrow> ps' l = ps l"
    using bp_update_ok [OF B fm sd room, of smid] by blast
  have on: "bp_page (ps' l) \<noteq> None \<and> bp_start (ps' l) \<le> idx l \<and> idx l < bp_end (ps' l)" if "bit msk l" for l
  proof (cases "bit ?m l")
    case False
    then have s: "bp_start (ps l) \<le> idx l" "idx l < bp_end (ps l)" using that by (simp_all add: bit_need)
    have "bp_page (ps l) \<noteq> None"
    proof
      assume "bp_page (ps l) = None"
      moreover have "ptr_ok pc0 arr B (ps l)" using B(4) bit_imp_le_length [OF that] by simp
      ultimately have "bp_end (ps l) \<le> bp_start (ps l)" by (simp add: ptr_ok_def ptr_pg_def)
      then show False using s by simp
    qed
    then show ?thesis using s old False by simp
  qed (use new in blast)
  let ?ret = "\<lambda>l. load_T pc' (ad_sizeof_T arr) (bp_elem arr (ps' l) (idx l))"
  have P: "bp_addr (ps' l) \<noteq> None" "elem_view pc0 arr (idx l) = Some (?ret l)" if b: "bit msk l" for l
  proof -
    have l: "l < 32" using bit_imp_le_length [OF b] by simp
    show "bp_addr (ps' l) \<noteq> None" "elem_view pc0 arr (idx l) = Some (?ret l)"
      unfolding elem_view_def using ptr_load [OF B(1,2) W l _ f [OF b]] on [OF b] by blast+
  qed
  then have "\<not> list_ex (\<lambda>l. bp_addr (ps' l) = None) (active_lanes msk)" by (auto simp: list_ex_iff set_active)
  then have "bp_read pc arr msk ps idx smid sd = Some (pc', ps', ?ret)" by (simp add: bp_read_def u)
  moreover have "ptrs_state arr pc0 pc' ps'" using B(1,2) W by (auto simp: ptrs_state_def)
  ultimately show ?thesis using P(2) by blast
qed

section \<open>Sequences of pointer accesses\<close>

lemma bam_ptr_delete_ok:
  assumes st: "ptrs_state arr pc0 pc ps" and ls: "distinct order" "set order = {l. bit msk l \<and> bp_page (ps l) \<noteq> None}"
    and sub: "\<And>l. bit msk l \<Longrightarrow> bp_is_subRef (ps l)"
  shows "ptrs_state arr pc0 (fst (bam_ptr_delete pc arr msk ps order)) (snd (bam_ptr_delete pc arr msk ps order))"
proof -
  obtain B where B: "array_inv arr pc0" "flat_range pc0 arr" "warp_state pc0 (holders pc0 arr ps) B False (content pc0) pc"
      "\<forall>l < 32. ptr_ok pc0 arr B (ps l)" using st by (auto simp: ptrs_state_def)
  let ?ps = "\<lambda>l. if bit msk l then bam_ptr_new (bp_is_subRef (ps l)) else ps l"
  have n: "ptr_pg pc0 arr (bam_ptr_new b) = None" for b by (simp add: ptr_pg_def bam_ptr_new_def)
  have p: "ptr_pg pc0 arr (?ps l) = (if bit msk l then None else ptr_pg pc0 arr (ps l))" for l by (simp add: n)
  have "warp_state pc0 (holders pc0 arr ?ps) B False (content pc0) (fst (bam_ptr_delete pc arr msk ps order))"
    unfolding bam_ptr_delete_def bp_fini_if_def fst_conv
    by (rule array_release_ok [OF B(1,3,4) ls p]) (use sub in \<open>auto simp: bit_sub_mask\<close>)
  moreover have "\<forall>l < 32. ptr_ok pc0 arr B (?ps l)" using B(4) by (simp add: ptr_ok_def n) (simp add: bam_ptr_new_def)
  ultimately have "ptrs_state arr pc0 (fst (bam_ptr_delete pc arr msk ps order)) ?ps" unfolding ptrs_state_def using B(1,2) by blast
  then show ?thesis by (simp add: bam_ptr_delete_def)
qed

lemma ptrs_start:
  assumes "array_inv arr pc" and "flat_range pc arr"
  shows "ptrs_state arr pc pc (\<lambda>_. bam_ptr_new b)"
proof -
  have "holders pc arr (\<lambda>_. bam_ptr_new b) = (\<lambda>_. 0)" by (simp add: fun_eq_iff holders_def ptr_pg_def bam_ptr_new_def)
  then show ?thesis using assms array_start [OF assms(1), of "\<lambda>_. 0" False]
    by (auto simp: ptrs_state_def ptr_ok_def ptr_pg_def bam_ptr_new_def)
qed

lemma ptrs_view:
  assumes "ptrs_state arr pc0 pc ps"
  shows "elem_view pc arr = elem_view pc0 arr" "cache_inv pc" "in_dom pc0 r pg \<Longrightarrow> cnt_of (dstate pc r pg) = cnt_of (dstate pc0 r pg) + holders pc0 arr ps (r, pg)"
    "in_dom pc0 r pg \<Longrightarrow> dp_cpu_feature_offset (pc_ranges pc r pg) = dp_cpu_feature_offset (pc_ranges pc0 r pg)"
proof -
  obtain B where B: "array_inv arr pc0" "warp_state pc0 (holders pc0 arr ps) B False (content pc0) pc" using assms by (auto simp: ptrs_state_def)
  note D = warp_stateD [OF B(2)]
  have "ad_ok pc0 arr" using B(1) by (simp add: array_inv_def)
  then show "elem_view pc arr = elem_view pc0 arr" unfolding elem_view_def [of pc0] by (rule elem_view_cong [OF _ D(2) D(8)])
  show "cache_inv pc" by (rule D(1))
  show "in_dom pc0 r pg \<Longrightarrow> cnt_of (dstate pc r pg) = cnt_of (dstate pc0 r pg) + holders pc0 arr ps (r, pg)" by (rule D(6))
  show "in_dom pc0 r pg \<Longrightarrow> dp_cpu_feature_offset (pc_ranges pc r pg) = dp_cpu_feature_offset (pc_ranges pc0 r pg)" by (rule D(10))
qed

datatype ptr_op = PtrRead u32 "nat \<Rightarrow> u64" u32 schedule | PtrDelete u32 "nat list"

fun ptr_do :: "array_d_t \<Rightarrow> ptr_op \<Rightarrow> (nat \<Rightarrow> 't) page_cache \<times> (nat \<Rightarrow> bam_ptr) \<Rightarrow> ((nat \<Rightarrow> 't) page_cache \<times> (nat \<Rightarrow> bam_ptr)) option" where
  "ptr_do arr (PtrRead msk idx smid sd) (pc, ps) = map_option (\<lambda>(pc', ps', _). (pc', ps')) (bp_read pc arr msk ps idx smid sd)"
| "ptr_do arr (PtrDelete msk order) (pc, ps) = Some (bam_ptr_delete pc arr msk ps order)"

fun ptr_op_ok :: "array_d_t \<Rightarrow> 'b page_cache \<Rightarrow> ptr_op \<Rightarrow> 'b page_cache \<times> (nat \<Rightarrow> bam_ptr) \<Rightarrow> bool" where
  "ptr_op_ok arr pc0 (PtrRead msk idx smid sd) (pc, ps) \<longleftrightarrow> (\<forall>l. bit msk l \<longrightarrow> find_range arr (idx l) \<noteq> None) \<and>
     ptr_sched arr (bp_need msk ps idx) ps idx sd \<and> ptr_room pc0 arr (bp_need msk ps idx) ps idx"
| "ptr_op_ok arr pc0 (PtrDelete msk order) (pc, ps) \<longleftrightarrow> distinct order \<and> set order = {l. bit msk l \<and> bp_page (ps l) \<noteq> None} \<and>
     (\<forall>l. bit msk l \<longrightarrow> bp_is_subRef (ps l))"

lemma ptr_step:
  assumes "ptrs_state arr pc0 (fst s) (snd s)" and "ptr_op_ok arr pc0 op s"
  shows "\<exists>s'. ptr_do arr op s = Some s' \<and> ptrs_state arr pc0 (fst s') (snd s')"
proof (cases op)
  case (PtrRead msk idx smid sd)
  obtain pc ps where s: "s = (pc, ps)" by (cases s)
  have f: "find_range arr (idx l) \<noteq> None" if "bit msk l" for l using assms(2) that by (simp add: s PtrRead)
  obtain pc' ps' ret where "bp_read pc arr msk ps idx smid sd = Some (pc', ps', ret)" "ptrs_state arr pc0 pc' ps'"
    using bp_read_ok [of arr pc0 pc ps msk idx sd smid, OF _ f] assms by (auto simp: s PtrRead)
  then show ?thesis by (simp add: s PtrRead)
next
  case (PtrDelete msk order)
  obtain pc ps where s: "s = (pc, ps)" by (cases s)
  have o: "distinct order" "set order = {l. bit msk l \<and> bp_page (ps l) \<noteq> None}" using assms(2) by (simp_all add: s PtrDelete)
  have sub: "bp_is_subRef (ps l)" if "bit msk l" for l using assms(2) that by (simp add: s PtrDelete)
  show ?thesis using bam_ptr_delete_ok [of arr pc0 pc ps order msk, OF _ o sub] assms(1) by (simp add: s PtrDelete)
qed

interpretation ptr: memory_view "ptr_op_ok arr pc0" "ptr_do arr" "\<lambda>s. ptrs_state arr pc0 (fst s) (snd s)" "\<lambda>s. elem_view (fst s) arr" "\<lambda>_ M. M"
proof unfold_locales
  fix s s' :: "(nat \<Rightarrow> 'a) page_cache \<times> (nat \<Rightarrow> bam_ptr)" and op
  assume a: "ptrs_state arr pc0 (fst s) (snd s)" "ptr_op_ok arr pc0 op s" "ptr_do arr op s = Some s'"
  then show st: "ptrs_state arr pc0 (fst s') (snd s')" using ptr_step [OF a(1,2)] by auto
  show "elem_view (fst s') arr = elem_view (fst s) arr" using ptrs_view(1) [OF st] ptrs_view(1) [OF a(1)] by simp
qed

section \<open>Assignments through pointers\<close>

text \<open>The state of a page is marked dirty only where the pointer's \<open>page\<close> points: at the position of the slot.\<close>

lemma bp_mark_other:
  assumes "\<forall>l. bit m l \<longrightarrow> bp_page (ps l) \<noteq> Some (r, pg)" and "\<forall>l. bit m l \<longrightarrow> bp_page (ps l) \<noteq> None"
  shows "pc_ranges (bp_mark m ps pc) r pg = pc_ranges pc r pg"
proof -
  have "pc_ranges (foldl (\<lambda>p l. upd_state (fst (the (bp_page (ps l)))) (snd (the (bp_page (ps l)))) (\<lambda>s. s OR DIRTY) p) pc ls) r pg = pc_ranges pc r pg"
    if "set ls \<subseteq> {l. bit m l}" for ls
    using that
  proof (induction ls arbitrary: pc)
    case (Cons l ls)
    then have "bp_page (ps l) \<noteq> Some (r, pg)" "bp_page (ps l) \<noteq> None" using assms by auto
    then have "pc_ranges (upd_state (fst (the (bp_page (ps l)))) (snd (the (bp_page (ps l)))) (\<lambda>s. s OR DIRTY) pc) r pg = pc_ranges pc r pg"
      by (auto simp: upd_state_def upd_page_def)
    then show ?case using Cons by simp
  qed simp
  then show ?thesis unfolding bp_mark_def by (simp add: set_active subset_iff)
qed

definition no_sd :: "nat list \<Rightarrow> schedule" where
  "no_sd ls = \<lparr>sd_acquire = [], sd_access = ls, sd_release = []\<rparr>"

lemma active_0: "active_lanes 0 = []"
  by (simp add: active_lanes_def)

lemma bit_one32: "bit (1::u32) l \<longleftrightarrow> l = 0"
  by (simp add: bit_1_iff)

lemma active_1: "active_lanes 1 = [0]"
proof -
  have "active_lanes 1 = filter (\<lambda>l. l = 0) [0..<32]" unfolding active_lanes_def bit_one32 ..
  also have "\<dots> = [0]" by (simp add: upt_rec)
  finally show ?thesis .
qed

lemma update_none: "bp_update_page pc arr 0 ps idx smid (no_sd ls) = Some (pc, ps)"
proof -
  have "sub_mask 0 P = 0" for P by (simp add: sub_mask_def active_0 lanes_mask_def)
  then have "bp_fini pc arr 0 ps [] = (pc, ps)" by (simp add: bp_fini_def bp_fini_if_def array_release_page_def)
  then show ?thesis by (simp add: bp_update_page_def no_sd_def array_acquire_page_def Let_def coalesce_page_def)
qed

text \<open>A lane alone that assigns on the page it holds: only the memory of the cache changes.\<close>

lemma assign_cached:
  assumes "bp_addr (ps 0) \<noteq> None" and "bp_start (ps 0) \<le> i" "i < bp_end (ps 0)"
  shows "bp_assign pc arr 1 ps (\<lambda>_. i) (\<lambda>_. v) smid (no_sd [0]) = Some (store_T pc (ad_sizeof_T arr) (bp_elem arr (ps 0) i) v, ps)"
proof -
  have n: "bp_need 1 ps (\<lambda>_. i) = 0" by (rule bit_word_eqI) (use assms(2,3) in \<open>auto simp: bit_need bit_one32\<close>)
  have "sd_access (no_sd [0]) = [0]" by (simp add: no_sd_def)
  then show ?thesis using assms(1) by (simp add: bp_assign_def bp_ref_def Let_def n update_none active_0 active_1 bp_mark_def)
qed

lemma delete_one:
  assumes "bp_page (ps 0) \<noteq> None" and "bp_is_subRef (ps 0)" and "bp_range (ps 0) = Some 0"
  shows "fst (bam_ptr_delete pc arr 1 ps [0]) =
    release_page pc (ln_rng (lane_at pc arr 0 (bp_start (ps 0)))) (ln_page (lane_at pc arr 0 (bp_start (ps 0)))) 1"
proof -
  have m: "sub_mask 1 P = (if P 0 then 1 else 0)" for P
    by (simp add: sub_mask_def active_1 lanes_mask_def)
  have e: "eq_mask_of 1 L 0 = 1" for L :: "nat \<Rightarrow> lane_t" by (rule bit_word_eqI) (auto simp: bit_eq_mask bit_one32)
  then have "master_of 1 L 0 = 0" "count_of 1 L 0 = 1" for L :: "nat \<Rightarrow> lane_t"
    by (simp_all add: master_of_def count_of_def ffs_def popc_def active_1)
  then show ?thesis using assms by (simp add: bam_ptr_delete_def bp_fini_if_def array_release_page_def m)
qed

lemma store_T_same:
  "pc_ranges (store_T pc sz a v) = pc_ranges pc" "disk (store_T pc sz a v) = disk pc" "pc_cache_pages (store_T pc sz a v) = pc_cache_pages pc"
  "cfg_eq (store_T pc sz a v) pc"
  by (simp_all add: store_T_def Let_def cfg_eq_def)

text \<open>Evicting an unused clean page drops what its slot holds.\<close>

lemma evict_clean:
  assumes t: "addr_range pc (page_translation (pc_cache_pages pc s)) = r" "addr_page pc (page_translation (pc_cache_pages pc s)) = pg"
    and st: "cnt_of (dstate pc r pg) = 0" "\<not> is_busy (dstate pc r pg)" "\<not> is_dirty (dstate pc r pg)"
  shows "try_evict pc q s = Some (pc\<lparr>pc_ranges := set_state r pg 0 (pc_ranges pc)\<rparr>, True)"
proof -
  have "try_evict pc q s = Some (upd_state r pg (\<lambda>s. s AND CNT_MASK) (upd_state r pg (\<lambda>s. s OR BUSY) pc), True)"
    unfolding try_evict_def Let_def t using st by (simp add: flag_simps dstate_def [symmetric])
  then show ?thesis using evicted_word [OF st(1)] by (simp add: upd_state_ranges dstate_def)
qed

text \<open>
  A clean page with one user whose slot was written to: after its release the eviction drops the slot, and
  the page has its old contents again.
\<close>

lemma release_evict:
  assumes inv: "cache_inv pc" and d: "in_dom pc r pg" and v: "is_valid (dstate pc r pg)" and clean: "\<not> is_dirty (dstate pc r pg)"
    and one: "cnt_of (dstate pc r pg) = 1" and un: "unprefetched (pc_ranges pc r pg)"
    and S: "pc_ranges pc1 = pc_ranges pc" "disk pc1 = disk pc" "pc_cache_pages pc1 = pc_cache_pages pc" "cfg_eq pc1 pc"
  shows "\<exists>pc3. try_evict (release_page pc1 r pg 1) q (doffset pc r pg) = Some (pc3, True) \<and> cfg_eq pc3 pc \<and>
    (\<forall>k < nblk pc. content pc3 r pg k = content pc r pg k)"
proof -
  let ?s = "doffset pc r pg" and ?pc2 = "release_page pc1 r pg 1"
  have i: "inv0 {} pc" and nb: "\<not> is_busy (dstate pc r pg)" using inv d by (simp_all add: cache_inv_def quiet_def)
  obtain p where e2: "?pc2 = upd_page r pg (\<lambda>_. p) pc1" and dp: "dp_state p = dstate pc1 r pg - (1 + of_nat (release_extra (pc_ranges pc1 r pg)))"
    using release_page_eq [of pc1 r pg 1] by auto
  have "dp_state p = dstate pc r pg - 1" using dp unprefetched_extra(2) [OF un] by (simp add: S(1) dstate_def)
  then have st2: "dstate ?pc2 r pg = dstate pc r pg - 1" unfolding e2 by (simp add: upd_page_def dstate_def)
  have "unat (1 :: u32) \<le> cnt_of (dstate pc r pg)" using one by simp
  note F = state_sub_flags [OF this, folded st2]
  have h: "holds_page pc ?s r pg" by (rule inv0_valid(4) [OF i d v])
  have cp: "pc_cache_pages ?pc2 = pc_cache_pages pc" "disk ?pc2 = disk pc" unfolding e2 by (simp_all add: upd_page_def S)
  have c2: "cfg_eq ?pc2 pc" unfolding e2 by (rule cfg_eq_trans [OF _ S(4)]) (simp add: upd_page_def cfg_eq_def)
  have t: "addr_range ?pc2 (page_translation (pc_cache_pages ?pc2 ?s)) = r" "addr_page ?pc2 (page_translation (pc_cache_pages ?pc2 ?s)) = pg"
    unfolding cp cfg_eqD(9,10) [OF c2] using occupant_addr [OF i d, of ?s] h by (simp_all add: holds_page_def)
  have c0: "cnt_of (dstate ?pc2 r pg) = 0" using F(4) one by simp
  have ev: "try_evict ?pc2 q ?s = Some (?pc2\<lparr>pc_ranges := set_state r pg 0 (pc_ranges ?pc2)\<rparr>, True)" (is "_ = Some (?pc3, True)")
    by (rule evict_clean [OF t c0]) (use F nb clean in simp_all)
  have c3: "cfg_eq ?pc3 pc" by (rule cfg_eq_trans [OF _ c2]) (simp add: cfg_eq_def)
  have "content ?pc3 r pg k = content pc r pg k" if k: "k < nblk pc" for k
  proof -
    have "\<not> is_valid (dstate ?pc3 r pg)" by (simp add: dstate_def set_state_def is_valid_def)
    then have "content ?pc3 r pg k = disk pc (home_ctrl pc r pg) (page_lba pc r pg + of_nat k)"
      by (simp add: content_def cfg_eqD [OF c3] cp(2))
    then show ?thesis using inv0_clean [OF i d clean k home_in_ctrls [OF inv0D(3) [OF i]]] by simp
  qed
  then show ?thesis using ev c3 by blast
qed

lemma holder_counts: "l < 32 \<Longrightarrow> ptr_pg pc arr (ps l) = Some x \<Longrightarrow> 0 < holders pc arr ps x"
proof -
  assume "l < 32" "ptr_pg pc arr (ps l) = Some x"
  then have "{l. l < 32 \<and> ptr_pg pc arr (ps l) = Some x} \<noteq> {}" by blast
  then show ?thesis unfolding holders_def by (simp only: card_gt_0_iff) simp
qed

text \<open>The first access of a lane alone.\<close>

lemma master_1: "master_of 1 L 0 = 0" "count_of 1 L 0 = 1"
proof -
  have "eq_mask_of 1 L 0 = 1" by (rule bit_word_eqI) (auto simp: bit_eq_mask bit_one32)
  then show "master_of 1 L 0 = 0" "count_of 1 L 0 = 1" by (simp_all add: master_of_def count_of_def ffs_def popc_def active_1)
qed

lemma first_access:
  assumes inv: "array_inv arr pc" and fl: "flat_range pc arr" and f: "find_range arr i \<noteq> None"
    and room: "ptr_room pc arr 1 (\<lambda>_. bam_ptr_new True) (\<lambda>_. i)"
  defines "r \<equiv> ln_rng (array_lane pc arr i)" and "pg \<equiv> ln_page (array_lane pc arr i)"
  shows "\<exists>pc' ps. bp_update_page pc arr 1 (\<lambda>_. bam_ptr_new True) (\<lambda>_. i) smid \<lparr>sd_acquire = [0], sd_access = [0], sd_release = []\<rparr> = Some (pc', ps) \<and>
    ptrs_state arr pc pc' ps \<and> bp_start (ps 0) \<le> i \<and> i < bp_end (ps 0) \<and> bp_is_subRef (ps 0) \<and> ptr_pg pc arr (ps 0) = Some (r, pg) \<and>
    is_dirty (dstate pc' r pg) = is_dirty (dstate pc r pg) \<and> cnt_of (dstate pc' r pg) = cnt_of (dstate pc r pg) + 1"
proof -
  let ?ps = "\<lambda>_ :: nat. bam_ptr_new True" and ?sd = "\<lparr>sd_acquire = [0], sd_access = [0], sd_release = []\<rparr>"
  obtain B where B: "array_inv arr pc" "flat_range pc arr" "warp_state pc (holders pc arr ?ps) B False (content pc) pc" "\<forall>l < 32. ptr_ok pc arr B (?ps l)"
    using ptrs_start [OF inv fl, of True] by (auto simp: ptrs_state_def)
  have fm: "bit (found_mask arr 1 (\<lambda>_. i)) l \<longleftrightarrow> l = 0" for l using f by (auto simp: bit_found_mask bit_one32)
  have sd: "ptr_sched arr 1 ?ps (\<lambda>_. i) ?sd" by (simp add: ptr_sched_def fm) (simp add: bam_ptr_new_def)
  obtain pc' ps' B' where u: "bp_update_page pc arr 1 ?ps (\<lambda>_. i) smid ?sd = Some (pc', ps')"
      and W: "warp_state pc (holders pc arr ps') B' False (content pc) pc'" "\<forall>l < 32. ptr_ok pc arr B' (ps' l)"
      and on: "bp_page (ps' 0) \<noteq> None" "bp_start (ps' 0) \<le> i" "i < bp_end (ps' 0)"
    using bp_update_ok [OF B _ sd room, of smid] f by (auto simp: bit_one32)
  have ok: "ad_ok pc arr" using inv by (simp add: array_inv_def)
  have f0: "find_range arr i = Some 0" by (rule flat_lane(1) [OF ok fl f])
  obtain gg where "bp_page (ps' 0) = Some gg" using on(1) by blast
  note P = ptr_okD [OF W(2) [rule_format, of 0, OF zero_less_numeral] this]
  have le: "unat (bp_start (ps' 0)) \<le> unat i" "unat i < unat (bp_start (ps' 0)) + unat (epp arr)"
    using on P(6) by (simp_all add: word_le_nat_alt word_less_nat_alt)
  have pp: "ptr_pg pc arr (ps' 0) = Some (r, pg)"
    using P(1) flat_near(1) [OF ok fl P(4) f0 P(5) le, of 0] by (simp add: lane_page_def r_def pg_def)
  have m1: "found_mask arr 1 (\<lambda>_. i) = 1" by (rule bit_word_eqI) (auto simp: fm bit_one32)
  have fini: "bp_fini pc arr 1 ?ps [] = (pc, ?ps)" by (auto simp: bp_fini_def bp_fini_if_def array_release_page_def bam_ptr_new_def)
  have sub: "bp_is_subRef (ps' 0)" using u by (auto simp: bp_update_page_def fini bit_one32 set_ref_def split: option.splits) (simp_all add: bam_ptr_new_def)
  have "\<exists>s. acquire_page pc r pg 1 False (smid mod pc_n_qps pc 0) = Some (pc', s)"
    using u by (auto simp: bp_update_page_def fini array_acquire_page_def Let_def m1 coalesce_page_def master_1 r_def pg_def split: option.splits)
  then obtain s where a: "acquire_page pc r pg 1 False (smid mod pc_n_qps pc 0) = Some (pc', s)" by blast
  have d: "in_dom pc r pg" unfolding r_def pg_def by (rule array_lane(5) [OF ok f0])
  have un: "unprefetched (pc_ranges pc r pg)" using inv d by (simp add: array_inv_def no_prefetch_def)
  have "cnt_of (dstate pc r pg) + 64 < 2 ^ 29" using room by (simp add: ptr_room_def Let_def bit_one32 r_def pg_def)
  then have "acquired pc pc' r pg 1 False s"
    using inv by (intro acquire_page_ok [OF _ d _ a]) (simp_all add: array_inv_def unprefetched_extra(1) [OF un])
  then have "is_dirty (dstate pc' r pg) = is_dirty (dstate pc r pg)" "cnt_of (dstate pc' r pg) = cnt_of (dstate pc r pg) + 1"
    by (auto simp: acquired_def unprefetched_extra(1) [OF un])
  moreover have "ptrs_state arr pc pc' ps'" using B(1,2) W by (auto simp: ptrs_state_def)
  ultimately show ?thesis using u on sub pp by blast
qed

text \<open>The cache and array of the examples of \<open>Bam_Array\<close>.\<close>

lemma ptr_example:
  "flat_range warp_pc warp_arr" "find_range warp_arr 71 = Some 0" "ptr_room warp_pc warp_arr 1 (\<lambda>_. bam_ptr_new True) (\<lambda>_. 71)"
  "ln_rng (array_lane warp_pc warp_arr 71) = 0" "ln_page (array_lane warp_pc warp_arr 71) = 1" "dstate warp_pc r pg = 0"
proof -
  show "flat_range warp_pc warp_arr" by (simp add: flat_range_def warp_pc_def warp_arr_def)
  show f: "find_range warp_arr 71 = Some 0" by (simp add: find_range_def warp_arr_def)
  show st: "dstate warp_pc r pg = 0" for r pg by (simp add: dstate_def warp_pc_def witness_page_def INVALID_def)
  show p: "ln_rng (array_lane warp_pc warp_arr 71) = 0" "ln_page (array_lane warp_pc warp_arr 71) = 1"
    by (simp_all add: array_lane_def Let_def f get_page_def) (simp_all add: warp_arr_def warp_pc_def)
  have "held_pages_of warp_pc warp_arr (\<lambda>_. bam_ptr_new True) = {}" by (simp add: held_pages_of_def ptr_pg_def bam_ptr_new_def)
  moreover have "in_use warp_pc = {}" by (simp add: in_use_def st)
  moreover have "lane_page (\<lambda>l. array_lane warp_pc warp_arr 71) ` {l. bit (1::u32) l} = {(0, 1)}" by (auto simp: lane_page_def p bit_one32)
  moreover have "unat (pc_n_pages warp_pc) = 1" by (simp add: warp_pc_def)
  ultimately show "ptr_room warp_pc warp_arr 1 (\<lambda>_. bam_ptr_new True) (\<lambda>_. 71)" by (simp add: ptr_room_def Let_def st)
qed

section \<open>Properties\<close>

text \<open>C13: Pointers are transparent to reads.  Take an array over one range whose elements start at index 0
  (\<open>flat_range\<close>), with no window-buffer or prefetch counter pending on any page (\<open>no_prefetch\<close>, part of \<open>array_inv\<close>), and
  reads whose indices are all found and for which the cache has room (\<open>ptr_op_ok\<close>).  However the lanes of a warp read
  through their pointers (with any pattern of indices, any order of the lanes in the divergent parts, and any hits,
  misses and evictions) and delete them, the elements of the array stay what they are, every page has exactly one user
  more for every pointer on it, and a next read within the same conditions returns, with the element of every lane.\<close>

theorem bam_ptr_reads:
  assumes "array_inv arr pc0" and "flat_range pc0 arr"
    and "run_ops (ptr_op_ok arr pc0) (ptr_do arr) ops (pc0, \<lambda>_. bam_ptr_new True) = Some (pc, ps)"
  shows "cache_inv pc \<and> elem_view pc arr = elem_view pc0 arr \<and>
    (\<forall>r pg. in_dom pc0 r pg \<longrightarrow> cnt_of (dstate pc r pg) = cnt_of (dstate pc0 r pg) + holders pc0 arr ps (r, pg)) \<and>
    (\<forall>msk idx smid sd. ptr_op_ok arr pc0 (PtrRead msk idx smid sd) (pc, ps) \<longrightarrow>
      (\<exists>pc' ps' ret. bp_read pc arr msk ps idx smid sd = Some (pc', ps', ret) \<and>
        (\<forall>l. bit msk l \<longrightarrow> elem_view pc0 arr (idx l) = Some (ret l))))"
proof -
  have st: "ptrs_state arr pc0 pc ps" using ptr.run_inv [OF _ assms(3)] ptrs_start [OF assms(1,2)] by simp
  have "\<exists>pc' ps' ret. bp_read pc arr msk ps idx smid sd = Some (pc', ps', ret) \<and> (\<forall>l. bit msk l \<longrightarrow> elem_view pc0 arr (idx l) = Some (ret l))"
    if "ptr_op_ok arr pc0 (PtrRead msk idx smid sd) (pc, ps)" for msk idx smid sd
    using bp_read_ok [OF st, of msk idx sd smid] that by auto
  then show ?thesis using ptrs_view(1-3) [OF st] by blast
qed

theorem bam_ptr_reads_witness:
  "\<exists>pc' ps' ret. bp_read warp_pc warp_arr 1 (\<lambda>_. bam_ptr_new True) (\<lambda>_. 71) 0 \<lparr>sd_acquire = [0], sd_access = [0], sd_release = []\<rparr> =
     Some (pc', ps', ret) \<and> ret 0 = 1007"
proof -
  let ?ps = "\<lambda>_ :: nat. bam_ptr_new True" and ?sd = "\<lparr>sd_acquire = [0], sd_access = [0], sd_release = []\<rparr>"
  have fm: "bit (found_mask warp_arr 1 (\<lambda>_. 71)) l \<longleftrightarrow> l = 0" for l using ptr_example(2) by (auto simp: bit_found_mask bit_one32)
  have n: "bp_need 1 ?ps (\<lambda>_. 71) = 1" by (rule bit_word_eqI) (auto simp: bit_need bam_ptr_new_def)
  have "ptr_sched warp_arr 1 ?ps (\<lambda>_. 71) ?sd" by (simp add: ptr_sched_def fm) (simp add: bam_ptr_new_def)
  then have "ptr_op_ok warp_arr warp_pc (PtrRead 1 (\<lambda>_. 71) 0 ?sd) (warp_pc, ?ps)" using ptr_example(2,3) n by simp
  then show ?thesis
    using bam_ptr_reads [OF warp_pc_inv ptr_example(1), of "[]" warp_pc ?ps] warp_facts(5) by (fastforce simp: bit_one32)
qed

text \<open>C37: An assignment through a pointer is lost.  \<open>operator[]\<close> marks a page dirty only when it moves the pointer to
  another page.  After a read on the page, an assignment on it changes the memory of the cache and is seen through
  the pointer, but the page stays clean: once the pointer is deleted the eviction of the page drops the value and
  the array has its old element again.\<close>

theorem bam_ptr_assign_lost:
  assumes "ptrs_state arr pc0 pc ps" and "find_range arr i \<noteq> None" and "bp_start (ps 0) \<le> i" "i < bp_end (ps 0)"
    and "bp_is_subRef (ps 0)" and "ptr_pg pc0 arr (ps 0) = Some (r, pg)"
    and "\<not> is_dirty (dstate pc r pg)" and "cnt_of (dstate pc r pg) = 1"
  shows "\<exists>pc1 pc3. bp_assign pc arr 1 ps (\<lambda>_. i) (\<lambda>_. v) smid (no_sd [0]) = Some (pc1, ps) \<and>
    load_T pc1 (ad_sizeof_T arr) (bp_elem arr (ps 0) i) = v \<and>
    try_evict (fst (bam_ptr_delete pc1 arr 1 ps [0])) q (doffset pc r pg) = Some (pc3, True) \<and>
    elem_view pc3 arr i = elem_view pc0 arr i"
proof -
  obtain B where B: "array_inv arr pc0" "flat_range pc0 arr" "warp_state pc0 (holders pc0 arr ps) B False (content pc0) pc"
      "\<forall>l < 32. ptr_ok pc0 arr B (ps l)" using assms(1) by (auto simp: ptrs_state_def)
  note D = warp_stateD [OF B(3)]
  have ok: "ad_ok pc0 arr" using B(1) by (simp add: array_inv_def)
  have g: "bp_page (ps 0) \<noteq> None" using assms(6) ptr_pg_None [of pc0 arr "ps 0"] by simp
  then obtain gg where "bp_page (ps 0) = Some gg" by blast
  note P = ptr_okD [OF B(4) [rule_format, of 0, OF zero_less_numeral] this]
  have rp: "ln_rng (array_lane pc0 arr (bp_start (ps 0))) = r" "ln_page (array_lane pc0 arr (bp_start (ps 0))) = pg"
    using P(1) assms(6) by (simp_all add: lane_page_def)
  have d0: "in_dom pc0 r pg" using array_lane(5) [OF ok P(4)] rp by simp
  have "0 < holders pc0 arr ps (r, pg)" by (rule holder_counts [of 0]) (simp_all add: assms(6))
  then have v: "is_valid (dstate pc r pg)" using D(7) [OF d0] by blast
  let ?a = "bp_elem arr (ps 0) i"
  let ?pc1 = "store_T pc (ad_sizeof_T arr) ?a v"
  note S = store_T_same [of pc "ad_sizeof_T arr" ?a v]
  have asg: "bp_assign pc arr 1 ps (\<lambda>_. i) (\<lambda>_. v) smid (no_sd [0]) = Some (?pc1, ps)"
    by (rule assign_cached [where ps = ps, OF _ assms(3,4)]) (simp add: P(2))
  have ld: "load_T ?pc1 (ad_sizeof_T arr) ?a = v" by (simp add: load_T_def store_T_def Let_def elems_per_block_def)
  have la: "lane_at ?pc1 arr 0 (bp_start (ps 0)) = array_lane pc0 arr (bp_start (ps 0))"
    using cfg_eq_lane_at [OF cfg_eq_trans [OF S(4) D(2)]] lane_at_array [OF P(4)] by simp
  have del: "fst (bam_ptr_delete ?pc1 arr 1 ps [0]) = release_page ?pc1 r pg 1"
    unfolding delete_one [where ps = ps, OF g assms(5) P(3)] la rp ..
  obtain pc3 where e: "try_evict (release_page ?pc1 r pg 1) q (doffset pc r pg) = Some (pc3, True)" "cfg_eq pc3 pc"
      "\<forall>k < nblk pc. content pc3 r pg k = content pc r pg k"
    using release_evict [OF D(1) _ v assms(7,8) D(9) [OF d0] S] d0 D(4) by fastforce
  have f0: "find_range arr i = Some 0" by (rule flat_lane(1) [OF ok B(2) assms(2)])
  have "unat (bp_start (ps 0)) \<le> unat i" "unat i < unat (bp_start (ps 0)) + unat (epp arr)"
    using assms(3,4) P(6) by (simp_all add: word_le_nat_alt word_less_nat_alt)
  then have pgi: "ln_rng (array_lane pc0 arr i) = r" "ln_page (array_lane pc0 arr i) = pg"
    using flat_near(1) [OF ok B(2) P(4) f0 P(5), of 0] rp by (simp_all add: lane_page_def)
  have "lane_elem arr (\<lambda>_. array_lane pc0 arr i) 0 div elems_per_block pc0 (ad_sizeof_T arr) < nblk pc0"
    using array_lane(8) [OF ok f0] by (simp add: lane_elem_def less_mult_imp_div_less)
  then have "elem_view pc3 arr i = elem_view pc0 arr i"
    using e(3) D(5) D(8) [OF d0] cfg_eq_array(2,3) [OF cfg_eq_trans [OF e(2) D(2)]]
    by (simp add: elem_view_def elem_map_def elem_loc_lane [OF f0, of _ 0] pgi)
  then show ?thesis using asg ld e(1) del by auto
qed

theorem bam_ptr_assign_lost_witness:
  "\<exists>pc ps pc1 pc3. bp_assign pc warp_arr 1 ps (\<lambda>_. 71) (\<lambda>_. 5 :: nat) 0 (no_sd [0]) = Some (pc1, ps) \<and>
    load_T pc1 8 (bp_elem warp_arr (ps 0) 71) = 5 \<and>
    try_evict (fst (bam_ptr_delete pc1 warp_arr 1 ps [0])) 0 (doffset pc 0 1) = Some (pc3, True) \<and> elem_view pc3 warp_arr 71 = Some 1007"
proof -
  obtain pc ps where p: "ptrs_state warp_arr warp_pc pc ps" "bp_start (ps 0) \<le> 71" "71 < bp_end (ps 0)" "bp_is_subRef (ps 0)"
      "ptr_pg warp_pc warp_arr (ps 0) = Some (0, 1)" "\<not> is_dirty (dstate pc 0 1)" "cnt_of (dstate pc 0 1) = 1"
    using first_access [OF warp_pc_inv ptr_example(1) _ ptr_example(3), of 0] ptr_example(2,4-6)
    by (auto simp: is_dirty_def cnt_of_def)
  have f: "find_range warp_arr 71 \<noteq> None" by (simp add: ptr_example(2))
  have z: "ad_sizeof_T warp_arr = 8" by (simp add: warp_arr_def)
  show ?thesis using bam_ptr_assign_lost [OF p(1) f p(2-7), of 5 0 0] unfolding warp_facts(5) z by blast
qed

end
