(* ===== verification/Gids_Kernel.thy ===== *)
theory Gids_Kernel
  imports Bam_Ptr
begin

text \<open>
  The kernels of \<open>gids_kernel.cu\<close> that read features through \<open>bam_ptr\<close> synchronously, and those that prepare
  and clear the cache.  A kernel is given for one warp (or one thread, where threads act alone); a launch runs
  its warps one after the other, in any order.  \<open>dim\<close> and \<open>cache_dim\<close> are nonnegative.
\<close>

section \<open>Gathering features\<close>

record feature_args =
  fa_index :: "int \<Rightarrow> u64"
  fa_dim :: nat
  fa_num_idx :: int
  fa_cache_dim :: nat
  fa_key_off :: u64

text \<open>\<open>w\<close> is \<open>bid * num_warps + warp_id\<close>; as \<open>idx_idx\<close> it is an \<open>int\<close>.\<close>

definition idx_idx :: "u64 \<Rightarrow> int" where
  "idx_idx w = sint (ucast w :: u32)"

definition row_index :: "feature_args \<Rightarrow> u64 \<Rightarrow> u64" where
  "row_index fa w = fa_index fa (idx_idx w) + fa_key_off fa"

definition feature_index :: "feature_args \<Rightarrow> u64 \<Rightarrow> nat \<Rightarrow> u64" where
  "feature_index fa w tid = row_index fa w * of_nat (fa_cache_dim fa) + of_nat tid"

definition out_index :: "feature_args \<Rightarrow> u64 \<Rightarrow> nat \<Rightarrow> u64" where
  "out_index fa w tid = w * of_nat (fa_dim fa) + of_nat tid"

text \<open>The lanes with \<open>tid < dim\<close> in pass \<open>j\<close> of the loop, where lane \<open>l\<close> has \<open>tid = 32 * j + l\<close>.\<close>

definition loop_mask :: "feature_args \<Rightarrow> nat \<Rightarrow> u32" where
  "loop_mask fa j = lanes_mask (filter (\<lambda>l. 32 * j + l < fa_dim fa) [0..<32])"

definition passes :: "feature_args \<Rightarrow> nat" where
  "passes fa = (fa_dim fa + 31) div 32"

text \<open>The lanes that take part in the steps of a pointer access, in the order of a permutation of all lanes.\<close>

definition restrict_sd :: "array_d_t \<Rightarrow> u32 \<Rightarrow> (nat \<Rightarrow> bam_ptr) \<Rightarrow> (nat \<Rightarrow> u64) \<Rightarrow> schedule \<Rightarrow> schedule" where
  "restrict_sd arr msk ps idx p =
     (let need = bp_need msk ps idx
      in \<lparr>sd_acquire = filter (\<lambda>l. bit (found_mask arr need idx) l) (sd_acquire p), sd_access = filter (\<lambda>l. bit msk l) (sd_access p),
          sd_release = filter (\<lambda>l. bit need l \<and> bp_page (ps l) \<noteq> None) (sd_release p)\<rparr>)"

fun feature_loop ::
  "(nat \<Rightarrow> 't) page_cache \<Rightarrow> array_d_t \<Rightarrow> (nat \<Rightarrow> bam_ptr) \<Rightarrow> (u64 \<Rightarrow> 't) \<Rightarrow> feature_args \<Rightarrow> u64 \<Rightarrow> u32 \<Rightarrow> (nat \<Rightarrow> schedule) \<Rightarrow> nat list \<Rightarrow>
   ((nat \<Rightarrow> 't) page_cache \<times> (nat \<Rightarrow> bam_ptr) \<times> (u64 \<Rightarrow> 't)) option"
where
  "feature_loop pc arr ps out fa w smid perms [] = Some (pc, ps, out)"
| "feature_loop pc arr ps out fa w smid perms (j # js) =
     (let msk = loop_mask fa j; idx = (\<lambda>l. feature_index fa w (32 * j + l)) in
      case bp_read pc arr msk ps idx smid (restrict_sd arr msk ps idx (perms j)) of
        None \<Rightarrow> None
      | Some (pc1, ps1, val) \<Rightarrow>
          feature_loop pc1 arr ps1 (foldl (\<lambda>o' l. o'(out_index fa w (32 * j + l) := val l)) out (active_lanes msk)) fa w smid perms js)"

text \<open>The destructor of the pointers at the end of the block.\<close>

definition end_of_block :: "array_d_t \<Rightarrow> nat list \<Rightarrow> 'b page_cache \<Rightarrow> (nat \<Rightarrow> bam_ptr) \<Rightarrow> 'b page_cache" where
  "end_of_block arr order pc ps = fst (bam_ptr_delete pc arr (-1) ps (filter (\<lambda>l. bp_page (ps l) \<noteq> None) order))"

definition read_feature_kernel ::
  "(nat \<Rightarrow> 't) page_cache \<Rightarrow> array_d_t \<Rightarrow> (u64 \<Rightarrow> 't) \<Rightarrow> feature_args \<Rightarrow> u64 \<Rightarrow> u32 \<Rightarrow> (nat \<Rightarrow> schedule) \<Rightarrow>
   ((nat \<Rightarrow> 't) page_cache \<times> (u64 \<Rightarrow> 't)) option"
where
  "read_feature_kernel pc arr out fa w smid perms =
     (if idx_idx w < fa_num_idx fa then
        (case feature_loop pc arr (\<lambda>_. bam_ptr_new True) out fa w smid perms [0..<passes fa] of
           None \<Rightarrow> None
         | Some (pc1, ps1, out1) \<Rightarrow> Some (end_of_block arr (sd_release (perms (passes fa))) pc1 ps1, out1))
      else Some (pc, out))"

text \<open>A launch: the warps with their multiprocessors and lane orders, one after the other.\<close>

fun launch ::
  "('s \<Rightarrow> 'o \<Rightarrow> 'w \<Rightarrow> ('s \<times> 'o) option) \<Rightarrow> 'w list \<Rightarrow> 's \<Rightarrow> 'o \<Rightarrow> ('s \<times> 'o) option"
where
  "launch k [] s out = Some (s, out)"
| "launch k (w # ws) s out = (case k s out w of None \<Rightarrow> None | Some (s1, out1) \<Rightarrow> launch k ws s1 out1)"

definition read_feature ::
  "(nat \<Rightarrow> 't) page_cache \<Rightarrow> array_d_t \<Rightarrow> (u64 \<Rightarrow> 't) \<Rightarrow> feature_args \<Rightarrow> (u64 \<times> u32 \<times> (nat \<Rightarrow> schedule)) list \<Rightarrow>
   ((nat \<Rightarrow> 't) page_cache \<times> (u64 \<Rightarrow> 't)) option"
where
  "read_feature pc arr out fa ws = launch (\<lambda>p out (w, smid, perms). read_feature_kernel p arr out fa w smid perms) ws pc out"

section \<open>The kernel with a buffer in host memory\<close>

record 't cpu_buffer =
  device_cpu_buffer :: "u64 \<Rightarrow> 't"
  cpu_buffer_len :: u64

text \<open>Where a row lies in the buffer, if it does; \<open>(cpu_off >> 1) * cache_dim\<close> is a product of 32 bits.\<close>

definition cpu_row :: "'b page_cache \<Rightarrow> u64 \<Rightarrow> feature_args \<Rightarrow> 't cpu_buffer \<Rightarrow> bool \<Rightarrow> u64 \<Rightarrow> u64 option" where
  "cpu_row pc r fa buf cpu_seq row =
     (let cpu_off = get_cpu_offset pc r row in
      if cpu_seq then (if row < cpu_buffer_len buf then Some (row * of_nat (fa_cache_dim fa)) else None)
      else if cpu_off AND 1 = 1 then Some (ucast (drop_bit 1 cpu_off * of_nat (fa_cache_dim fa) :: u32)) else None)"

fun copy_loop :: "(u64 \<Rightarrow> 't) \<Rightarrow> u64 \<Rightarrow> (u64 \<Rightarrow> 't) \<Rightarrow> feature_args \<Rightarrow> u64 \<Rightarrow> nat list \<Rightarrow> u64 \<Rightarrow> 't" where
  "copy_loop buf base out fa w [] = out"
| "copy_loop buf base out fa w (j # js) =
     copy_loop buf base (foldl (\<lambda>o' l. o'(out_index fa w (32 * j + l) := buf (base + of_nat (32 * j + l)))) out (active_lanes (loop_mask fa j))) fa w js"

text \<open>The output has beside the features the count of rows taken from the buffer (\<open>d_cpu_access\<close>).\<close>

definition read_feature_kernel_with_cpu_backing_memory ::
  "(nat \<Rightarrow> 't) page_cache \<Rightarrow> array_d_t \<Rightarrow> u64 \<Rightarrow> 't cpu_buffer \<Rightarrow> bool \<Rightarrow> (u64 \<Rightarrow> 't) \<times> u32 \<Rightarrow> feature_args \<Rightarrow> u64 \<Rightarrow> u32 \<Rightarrow> (nat \<Rightarrow> schedule) \<Rightarrow>
   ((nat \<Rightarrow> 't) page_cache \<times> (u64 \<Rightarrow> 't) \<times> u32) option"
where
  "read_feature_kernel_with_cpu_backing_memory pc arr r buf cpu_seq out fa w smid perms =
     (if idx_idx w < fa_num_idx fa then
        (case cpu_row pc r fa buf cpu_seq (row_index fa w) of
           Some base \<Rightarrow> Some (pc, copy_loop (device_cpu_buffer buf) base (fst out) fa w [0..<passes fa], snd out + 1)
         | None \<Rightarrow>
             (case feature_loop pc arr (\<lambda>_. bam_ptr_new True) (fst out) fa w smid perms [0..<passes fa] of
                None \<Rightarrow> None
              | Some (pc1, ps1, out1) \<Rightarrow> Some (end_of_block arr (sd_release (perms (passes fa))) pc1 ps1, out1, snd out)))
      else Some (pc, out))"

definition read_feature_with_cpu ::
  "(nat \<Rightarrow> 't) page_cache \<Rightarrow> array_d_t \<Rightarrow> u64 \<Rightarrow> 't cpu_buffer \<Rightarrow> bool \<Rightarrow> (u64 \<Rightarrow> 't) \<times> u32 \<Rightarrow> feature_args \<Rightarrow>
   (u64 \<times> u32 \<times> (nat \<Rightarrow> schedule)) list \<Rightarrow> ((nat \<Rightarrow> 't) page_cache \<times> (u64 \<Rightarrow> 't) \<times> u32) option"
where
  "read_feature_with_cpu pc arr r buf cpu_seq out fa ws =
     launch (\<lambda>p out (w, smid, perms). read_feature_kernel_with_cpu_backing_memory p arr r buf cpu_seq out fa w smid perms) ws pc out"

section \<open>Host calls\<close>

text \<open>\<open>read_feature\<close> with the synchronous kernels: blocks of \<open>b_size\<close> threads for \<open>num_index\<close> rows.\<close>

definition grid_size :: "u64 \<Rightarrow> u64 \<Rightarrow> u64" where
  "grid_size b_size num_index = (let n_warp = b_size div 32 in (num_index + n_warp - 1) div n_warp)"

definition read_feature_host ::
  "bool \<Rightarrow> (nat \<Rightarrow> 't) page_cache \<Rightarrow> array_d_t \<Rightarrow> u64 \<Rightarrow> 't cpu_buffer \<Rightarrow> bool \<Rightarrow> (u64 \<Rightarrow> 't) \<times> u32 \<Rightarrow> feature_args \<Rightarrow>
   (u64 \<times> u32 \<times> (nat \<Rightarrow> schedule)) list \<Rightarrow> ((nat \<Rightarrow> 't) page_cache \<times> (u64 \<Rightarrow> 't) \<times> u32) option"
where
  "read_feature_host cpu_buffer_flag pc arr r buf seq_flag out fa ws =
     (if \<not> cpu_buffer_flag
      then map_option (\<lambda>(pc', o'). (pc', o', snd out)) (read_feature pc arr (fst out) fa ws)
      else read_feature_with_cpu pc arr r buf seq_flag out fa ws)"

section \<open>Other kernels, for one thread\<close>

definition clear_cache_kernel :: "nat \<Rightarrow> 'b page_cache \<Rightarrow> 'b page_cache" where
  "clear_cache_kernel idx pc = (if idx = 0 then clear_cache_safe pc else pc)"

definition clear_range_pages_kernel :: "u64 \<Rightarrow> u64 \<Rightarrow> 'b page_cache \<Rightarrow> 'b page_cache" where
  "clear_range_pages_kernel r idx pc =
     (if idx < pc_page_counts pc r then
        upd_page r idx (\<lambda>p. p\<lparr>dp_state := INVALID, dp_offset := 0, dp_prefetch_count := 0, dp_prefetch_counter := 0,
                              dp_cpu_feature_offset := 0\<rparr>) pc
      else pc)"

definition set_cpu_buffer_kernel :: "u64 \<Rightarrow> (u32 \<Rightarrow> u64) \<Rightarrow> u32 \<Rightarrow> u32 \<Rightarrow> 'b page_cache \<Rightarrow> 'b page_cache" where
  "set_cpu_buffer_kernel r idx_ptr num idx pc = (if idx < num then set_cpu_buffer pc r (idx_ptr idx) idx else pc)"

text \<open>A block of 32 threads copies the row of its number into the buffer; \<open>ptr[]\<close> is the operator that marks pages.\<close>

fun buffer_data_loop ::
  "(nat \<Rightarrow> 't) page_cache \<Rightarrow> array_d_t \<Rightarrow> (nat \<Rightarrow> bam_ptr) \<Rightarrow> (u64 \<Rightarrow> 't) \<Rightarrow> u64 \<Rightarrow> u64 \<Rightarrow> nat \<Rightarrow> u32 \<Rightarrow> (nat \<Rightarrow> schedule) \<Rightarrow> nat list \<Rightarrow>
   ((nat \<Rightarrow> 't) page_cache \<times> (nat \<Rightarrow> bam_ptr) \<times> (u64 \<Rightarrow> 't)) option"
where
  "buffer_data_loop pc arr ps buf bid row dim smid perms [] = Some (pc, ps, buf)"
| "buffer_data_loop pc arr ps buf bid row dim smid perms (j # js) =
     (let msk = lanes_mask (filter (\<lambda>l. 32 * j + l < dim) [0..<32]); idx = (\<lambda>l. row * of_nat dim + of_nat (32 * j + l)) in
      case bp_value pc arr msk ps idx smid (restrict_sd arr msk ps idx (perms j)) of
        None \<Rightarrow> None
      | Some (pc1, ps1, val) \<Rightarrow>
          buffer_data_loop pc1 arr ps1 (foldl (\<lambda>b l. b(bid * of_nat dim + of_nat (32 * j + l) := val l)) buf (active_lanes msk)) bid row dim smid perms js)"

definition set_cpu_buffer_data_kernel ::
  "(nat \<Rightarrow> 't) page_cache \<Rightarrow> array_d_t \<Rightarrow> (u64 \<Rightarrow> 't) \<Rightarrow> (u64 \<Rightarrow> u64) \<Rightarrow> nat \<Rightarrow> int \<Rightarrow> u64 \<Rightarrow> u32 \<Rightarrow> (nat \<Rightarrow> schedule) \<Rightarrow>
   ((nat \<Rightarrow> 't) page_cache \<times> (u64 \<Rightarrow> 't)) option"
where
  "set_cpu_buffer_data_kernel pc arr buf idx_ptr dim num bid smid perms =
     (if bid < of_int num then
        (case buffer_data_loop pc arr (\<lambda>_. bam_ptr_new True) buf bid (idx_ptr bid) dim smid perms [0..<(dim + 31) div 32] of
           None \<Rightarrow> None
         | Some (pc1, ps1, buf1) \<Rightarrow> Some (end_of_block arr (sd_release (perms ((dim + 31) div 32))) pc1 ps1, buf1))
      else Some (pc, buf))"

text \<open>
  The host's \<open>set_cpu_buffer\<close>: the threads \<open>ts\<close> of the first kernel mark the rows of the list \<open>idx_ptr\<close>, the blocks \<open>bs\<close>
  of the second one copy them; afterwards \<open>seq_flag\<close> is false.
\<close>

definition set_cpu_buffer_marks :: "u64 \<Rightarrow> (u32 \<Rightarrow> u64) \<Rightarrow> u32 \<Rightarrow> u32 list \<Rightarrow> 'b page_cache \<Rightarrow> 'b page_cache" where
  "set_cpu_buffer_marks r idx_ptr num ts pc = foldl (\<lambda>p t. set_cpu_buffer_kernel r idx_ptr num t p) pc ts"

definition set_cpu_buffer_host ::
  "(nat \<Rightarrow> 't) page_cache \<Rightarrow> array_d_t \<Rightarrow> u64 \<Rightarrow> 't cpu_buffer \<Rightarrow> (u32 \<Rightarrow> u64) \<Rightarrow> nat \<Rightarrow> u32 \<Rightarrow> u32 list \<Rightarrow>
   (u64 \<times> u32 \<times> (nat \<Rightarrow> schedule)) list \<Rightarrow> ((nat \<Rightarrow> 't) page_cache \<times> 't cpu_buffer \<times> bool) option"
where
  "set_cpu_buffer_host pc arr r buf idx_ptr dim num ts bs =
     map_option (\<lambda>(pc1, b). (pc1, buf\<lparr>device_cpu_buffer := b\<rparr>, False))
       (launch (\<lambda>p b (bid, smid, perms). set_cpu_buffer_data_kernel p arr b (\<lambda>x. idx_ptr (ucast x)) dim (sint num) bid smid perms) bs
          (set_cpu_buffer_marks r idx_ptr num ts pc) (device_cpu_buffer buf))"

text \<open>\<open>set_window_buffer_counter\<close> of the array: the leader of the lanes adds to the counter of its own page.\<close>

definition array_leader :: "array_d_t \<Rightarrow> u32 \<Rightarrow> (nat \<Rightarrow> u64) \<Rightarrow> (u64 \<Rightarrow> u64 \<Rightarrow> 'b page_cache \<Rightarrow> 'b page_cache) \<Rightarrow> 'b page_cache \<Rightarrow> 'b page_cache" where
  "array_leader arr msk0 idx f pc =
     (let msk = found_mask arr msk0 idx; leader = ffs msk - 1; ln = array_lane pc arr (idx leader)
      in if msk = 0 then pc else f (ln_rng ln) (ln_page ln) pc)"

definition array_set_window_buffer_counter :: "array_d_t \<Rightarrow> u32 \<Rightarrow> (nat \<Rightarrow> u64) \<Rightarrow> u8 \<Rightarrow> 'b page_cache \<Rightarrow> 'b page_cache" where
  "array_set_window_buffer_counter arr msk idx p_val = array_leader arr msk idx (\<lambda>r pg pc. set_window_buffer_counter pc r pg (ucast p_val))"

definition array_set_prefetching :: "array_d_t \<Rightarrow> u32 \<Rightarrow> (nat \<Rightarrow> u64) \<Rightarrow> u8 \<Rightarrow> 'b page_cache \<Rightarrow> 'b page_cache" where
  "array_set_prefetching arr msk idx p_val = array_leader arr msk idx (\<lambda>r pg pc. set_prefetch_val pc r pg (ucast p_val))"

text \<open>The methods of the pointer ignore their second argument.\<close>

definition bp_set_window_buffer_counter :: "array_d_t \<Rightarrow> u32 \<Rightarrow> (nat \<Rightarrow> u64) \<Rightarrow> u64 \<Rightarrow> 'b page_cache \<Rightarrow> 'b page_cache" where
  "bp_set_window_buffer_counter arr msk idx prefetch_val = array_set_window_buffer_counter arr msk idx 1"

definition bp_set_prefetch_val :: "array_d_t \<Rightarrow> u32 \<Rightarrow> (nat \<Rightarrow> u64) \<Rightarrow> u64 \<Rightarrow> 'b page_cache \<Rightarrow> 'b page_cache" where
  "bp_set_prefetch_val arr msk idx prefetch_val = array_set_prefetching arr msk idx 2"

text \<open>Thread 0 of a block; the pointers of the block hold no page, so that their destructors do nothing.\<close>

definition set_window_buffering_kernel :: "array_d_t \<Rightarrow> (u64 \<Rightarrow> u64) \<Rightarrow> u64 \<Rightarrow> int \<Rightarrow> u64 \<Rightarrow> 'b page_cache \<Rightarrow> 'b page_cache" where
  "set_window_buffering_kernel arr index_ptr page_size hash_off bid pc =
     (let page_idx = index_ptr bid + of_int hash_off
      in bp_set_window_buffer_counter arr 1 (\<lambda>_. page_idx * page_size div ad_sizeof_T arr) 1 pc)"

section \<open>Lemmas: one warp\<close>

lemma bit_loop_mask: "bit (loop_mask fa j) l \<longleftrightarrow> l < 32 \<and> 32 * j + l < fa_dim fa"
  by (auto simp: loop_mask_def bit_lanes_mask)

lemma all_tids: "t < fa_dim fa \<Longrightarrow> t div 32 \<in> set [0..<passes fa] \<and> t mod 32 < 32 \<and> t = 32 * (t div 32) + t mod 32"
  by (auto simp: passes_def)

definition perms_ok :: "(nat \<Rightarrow> schedule) \<Rightarrow> bool" where
  "perms_ok perms \<longleftrightarrow> (\<forall>j. distinct (sd_acquire (perms j)) \<and> set (sd_acquire (perms j)) = {..<32} \<and>
     distinct (sd_release (perms j)) \<and> set (sd_release (perms j)) = {..<32})"

text \<open>Room for a gather: 64 slots beside the pages in use, and 64 users more for every page.\<close>

definition gather_room :: "'b page_cache \<Rightarrow> bool" where
  "gather_room pc \<longleftrightarrow> card (in_use pc) + 64 \<le> unat (pc_n_pages pc) \<and>
     (\<forall>r pg. in_dom pc r pg \<longrightarrow> cnt_of (dstate pc r pg) + 64 < 2 ^ 29)"

lemma card_image_lanes: "card (f ` {l. bit (m :: u32) l}) \<le> 32"
proof -
  have s: "{l. bit m l} \<subseteq> {..<32}" using bit_imp_le_length [of m] by auto
  then have "card (f ` {l. bit m l}) \<le> card {l. bit m l}" by (intro card_image_le) (rule finite_subset, auto)
  also have "\<dots> \<le> card {..<32::nat}" using s by (intro card_mono) auto
  finally show ?thesis by simp
qed

lemma gather_ptr_room:
  assumes inv: "array_inv arr pc" and room: "gather_room pc" and f: "\<And>l. bit m l \<Longrightarrow> find_range arr (idx l) \<noteq> None"
  shows "ptr_room pc arr m ps idx"
proof -
  have ok: "ad_ok pc arr" using inv by (simp add: array_inv_def)
  have "cnt_of (dstate pc (ln_rng (array_lane pc arr (idx l))) (ln_page (array_lane pc arr (idx l)))) + 64 < 2 ^ 29" if b: "bit m l" for l
  proof -
    have "find_range arr (idx l) \<noteq> None" by (rule f [OF b])
    then obtain k where "find_range arr (idx l) = Some k" by blast
    then show ?thesis using array_lane(5) [OF ok] room by (simp add: gather_room_def)
  qed
  moreover have "card (in_use pc \<union> (held_pages_of pc arr ps \<union> X)) \<le> unat (pc_n_pages pc)"
    if X: "card X \<le> 32" for X
  proof -
    have "held_pages_of pc arr ps \<subseteq> (\<lambda>l. the (ptr_pg pc arr (ps l))) ` {..<32}" by (force simp: held_pages_of_def)
    then have "card (held_pages_of pc arr ps) \<le> card ((\<lambda>l. the (ptr_pg pc arr (ps l))) ` {..<32::nat})" by (intro card_mono) auto
    also have "\<dots> \<le> card {..<32::nat}" by (rule card_image_le) simp
    finally have "card (held_pages_of pc arr ps) \<le> 32" by simp
    then have "card (in_use pc) + (card (held_pages_of pc arr ps) + card X) \<le> unat (pc_n_pages pc)" using room X by (simp add: gather_room_def)
    moreover have "card (in_use pc \<union> (held_pages_of pc arr ps \<union> X)) \<le> card (in_use pc) + (card (held_pages_of pc arr ps) + card X)"
      by (rule le_trans [OF card_Un_le]) (simp add: card_Un_le)
    ultimately show ?thesis by linarith
  qed
  ultimately show ?thesis unfolding ptr_room_def Let_def using card_image_lanes by blast
qed

lemma restrict_sched:
  assumes "perms_ok perms"
  shows "ptr_sched arr (bp_need msk ps idx) ps idx (restrict_sd arr msk ps idx (perms j))"
proof -
  have b: "l < 32" if "bit (m :: u32) l" for m l using bit_imp_le_length [OF that] by simp
  show ?thesis using assms by (auto simp: ptr_sched_def restrict_sd_def Let_def perms_ok_def dest: b)
qed

lemma update_subRef: "bp_update_page pc arr msk ps idx smid sd = Some (pc', ps') \<Longrightarrow> bp_is_subRef (ps' l) = bp_is_subRef (ps l)"
  by (auto simp: bp_update_page_def bp_fini_def bp_fini_if_def set_ref_def split: option.splits if_splits)

lemma read_subRef: "bp_read pc arr msk ps idx smid sd = Some (pc', ps', ret) \<Longrightarrow> bp_is_subRef (ps' l) = bp_is_subRef (ps l)"
  by (rule update_subRef) (auto simp: bp_read_def split: option.splits if_splits)

lemma foldl_cells:
  "x \<notin> f ` set ls \<Longrightarrow> foldl (\<lambda>o' l. o'(f l := g l)) out ls x = out x"
  "inj_on f (set ls) \<Longrightarrow> l \<in> set ls \<Longrightarrow> foldl (\<lambda>o' l. o'(f l := g l)) out ls (f l) = g l"
proof -
  show a: "x \<notin> f ` set ls \<Longrightarrow> foldl (\<lambda>o' l. o'(f l := g l)) out ls x = out x" for x ls
    by (induction ls arbitrary: out) auto
  show "inj_on f (set ls) \<Longrightarrow> l \<in> set ls \<Longrightarrow> foldl (\<lambda>o' l. o'(f l := g l)) out ls (f l) = g l"
  proof (induction ls rule: rev_induct)
    case (snoc x xs)
    show ?case
    proof (cases "x = l")
      case False
      then have "f l \<noteq> f x" "l \<in> set xs" using snoc.prems by (auto simp: inj_on_def)
      then show ?thesis using snoc by (simp add: inj_on_def)
    qed simp
  qed simp
qed

text \<open>The outputs of a warp do not overlap.\<close>

lemma out_index_inj:
  assumes "unat w * fa_dim fa + fa_dim fa < 2 ^ 64" "unat w' * fa_dim fa + fa_dim fa < 2 ^ 64" and t: "t < fa_dim fa" "t' < fa_dim fa"
  shows "out_index fa w t = out_index fa w' t' \<longleftrightarrow> w = w' \<and> t = t'"
proof -
  have u: "unat (out_index fa x s) = unat x * fa_dim fa + s" if "unat x * fa_dim fa + fa_dim fa < 2 ^ 64" "s < fa_dim fa" for x s
  proof -
    have d: "unat (of_nat (fa_dim fa) :: u64) = fa_dim fa" "unat (of_nat s :: u64) = s" using that by (simp_all add: unat_of_nat)
    have l: "unat x * fa_dim fa + s < 2 ^ LENGTH(64)" using that by simp
    then have m: "unat (x * of_nat (fa_dim fa)) = unat x * fa_dim fa" using unat_mult_lem [of x "of_nat (fa_dim fa)"] d by simp
    show ?thesis unfolding out_index_def using l by (subst unat_add_bounded) (simp_all add: m d)
  qed
  have "unat x * fa_dim fa + s = unat y * fa_dim fa + s' \<Longrightarrow> unat x = unat y \<and> s = s'" if "s < fa_dim fa" "s' < fa_dim fa" for x y :: u64 and s s'
  proof -
    assume e: "unat x * fa_dim fa + s = unat y * fa_dim fa + s'"
    have "unat x = (unat x * fa_dim fa + s) div fa_dim fa" using that by simp
    also have "\<dots> = unat y" unfolding e using that by simp
    finally show ?thesis using e by simp
  qed
  then show ?thesis using u assms by (metis word_unat_eq_iff)
qed

definition warp_fits :: "feature_args \<Rightarrow> u64 \<Rightarrow> bool" where
  "warp_fits fa w \<longleftrightarrow> unat w * fa_dim fa + fa_dim fa < 2 ^ 64"

definition row_found :: "array_d_t \<Rightarrow> feature_args \<Rightarrow> u64 \<Rightarrow> bool" where
  "row_found arr fa w \<longleftrightarrow> (\<forall>t < fa_dim fa. find_range arr (feature_index fa w t) \<noteq> None)"

lemma pass_out:
  assumes "warp_fits fa w"
  shows "t < fa_dim fa \<Longrightarrow> t div 32 = j \<Longrightarrow>
      foldl (\<lambda>o' l. o'(out_index fa w (32 * j + l) := g l)) out (active_lanes (loop_mask fa j)) (out_index fa w t) = g (t mod 32)"
    "(\<And>t. t < fa_dim fa \<Longrightarrow> t div 32 = j \<Longrightarrow> x \<noteq> out_index fa w t) \<Longrightarrow>
      foldl (\<lambda>o' l. o'(out_index fa w (32 * j + l) := g l)) out (active_lanes (loop_mask fa j)) x = out x"
proof -
  note I = out_index_inj [OF assms [unfolded warp_fits_def] assms [unfolded warp_fits_def]]
  have lanes: "set (active_lanes (loop_mask fa j)) = {l. l < 32 \<and> 32 * j + l < fa_dim fa}" by (auto simp: set_active bit_loop_mask)
  show "foldl (\<lambda>o' l. o'(out_index fa w (32 * j + l) := g l)) out (active_lanes (loop_mask fa j)) (out_index fa w t) = g (t mod 32)"
    if t: "t < fa_dim fa" "t div 32 = j"
  proof -
    define l where "l = t mod 32"
    have e: "t = 32 * j + l" "l < 32" using t(2) mult_div_mod_eq [of 32 t] by (simp_all add: l_def)
    have "inj_on (\<lambda>l. out_index fa w (32 * j + l)) (set (active_lanes (loop_mask fa j)))" unfolding lanes by (auto simp: inj_on_def I)
    moreover have "l \<in> set (active_lanes (loop_mask fa j))" unfolding lanes using t(1) e by simp
    ultimately have "foldl (\<lambda>o' l. o'(out_index fa w (32 * j + l) := g l)) out (active_lanes (loop_mask fa j)) (out_index fa w (32 * j + l)) = g l"
      by (rule foldl_cells(2))
    then show ?thesis by (simp only: e(1) [symmetric] l_def [symmetric])
  qed
  show "foldl (\<lambda>o' l. o'(out_index fa w (32 * j + l) := g l)) out (active_lanes (loop_mask fa j)) x = out x"
    if "\<And>t. t < fa_dim fa \<Longrightarrow> t div 32 = j \<Longrightarrow> x \<noteq> out_index fa w t"
  proof (rule foldl_cells(1))
    have "x \<noteq> out_index fa w (32 * j + l)" if "l < 32" "32 * j + l < fa_dim fa" for l
      using \<open>\<And>t. t < fa_dim fa \<Longrightarrow> t div 32 = j \<Longrightarrow> x \<noteq> out_index fa w t\<close> [of "32 * j + l"] that by simp
    then show "x \<notin> (\<lambda>l. out_index fa w (32 * j + l)) ` set (active_lanes (loop_mask fa j))" unfolding lanes by blast
  qed
qed

lemma feature_loop_ok:
  assumes perms: "perms_ok perms" and room: "gather_room pc0" and fits: "warp_fits fa w" and f: "row_found arr fa w"
  shows "\<lbrakk>ptrs_state arr pc0 pc ps; \<forall>l. bp_is_subRef (ps l); distinct js\<rbrakk> \<Longrightarrow>
    \<exists>pc' ps' out'. feature_loop pc arr ps out fa w smid perms js = Some (pc', ps', out') \<and> ptrs_state arr pc0 pc' ps' \<and> (\<forall>l. bp_is_subRef (ps' l)) \<and>
      (\<forall>t < fa_dim fa. t div 32 \<in> set js \<longrightarrow> elem_view pc0 arr (feature_index fa w t) = Some (out' (out_index fa w t))) \<and>
      (\<forall>x. (\<forall>t < fa_dim fa. t div 32 \<in> set js \<longrightarrow> x \<noteq> out_index fa w t) \<longrightarrow> out' x = out x)"
proof (induction js arbitrary: pc ps out)
  case (Cons j js)
  let ?msk = "loop_mask fa j" and ?idx = "\<lambda>l. feature_index fa w (32 * j + l)"
  have inv: "array_inv arr pc0" using Cons.prems(1) by (simp add: ptrs_state_def)
  have fm: "find_range arr (?idx l) \<noteq> None" if "bit ?msk l" for l using f that by (simp add: row_found_def bit_loop_mask)
  have rm: "ptr_room pc0 arr (bp_need ?msk ps ?idx) ps ?idx"
    by (rule gather_ptr_room [OF inv room]) (use fm in \<open>auto simp: bit_need\<close>)
  obtain pc1 ps1 val where r: "bp_read pc arr ?msk ps ?idx smid (restrict_sd arr ?msk ps ?idx (perms j)) = Some (pc1, ps1, val)"
      and st: "ptrs_state arr pc0 pc1 ps1" and v: "\<forall>l. bit ?msk l \<longrightarrow> elem_view pc0 arr (?idx l) = Some (val l)"
    using bp_read_ok [OF Cons.prems(1) fm restrict_sched [OF perms] rm, of smid] by blast
  have sub: "\<forall>l. bp_is_subRef (ps1 l)" using read_subRef [OF r] Cons.prems(2) by simp
  let ?out = "foldl (\<lambda>o' l. o'(out_index fa w (32 * j + l) := val l)) out (active_lanes ?msk)"
  obtain pc' ps' out' where IH: "feature_loop pc1 arr ps1 ?out fa w smid perms js = Some (pc', ps', out')" "ptrs_state arr pc0 pc' ps'"
      "\<forall>l. bp_is_subRef (ps' l)"
      "\<forall>t < fa_dim fa. t div 32 \<in> set js \<longrightarrow> elem_view pc0 arr (feature_index fa w t) = Some (out' (out_index fa w t))"
      "\<forall>x. (\<forall>t < fa_dim fa. t div 32 \<in> set js \<longrightarrow> x \<noteq> out_index fa w t) \<longrightarrow> out' x = ?out x"
    using Cons.IH [OF st sub, of ?out] Cons.prems(3) by auto
  note I = out_index_inj [OF fits [unfolded warp_fits_def] fits [unfolded warp_fits_def]]
  have "elem_view pc0 arr (feature_index fa w t) = Some (out' (out_index fa w t))" if t: "t < fa_dim fa" "t div 32 \<in> set (j # js)" for t
  proof (cases "t div 32 \<in> set js")
    case False
    then have j: "t div 32 = j" using t(2) by simp
    then have e: "32 * j + t mod 32 = t" using mult_div_mod_eq [of 32 t] by simp
    have "out' (out_index fa w t) = ?out (out_index fa w t)" using IH(5) I t(1) False by auto
    also have "\<dots> = val (t mod 32)" by (rule pass_out(1) [OF fits t(1) j])
    finally have o: "out' (out_index fa w t) = val (t mod 32)" .
    have "bit ?msk (t mod 32)" using t(1) e by (simp add: bit_loop_mask)
    then have "elem_view pc0 arr (feature_index fa w (32 * j + t mod 32)) = Some (val (t mod 32))" using v by blast
    then show ?thesis unfolding e o .
  qed (use IH(4) t in blast)
  moreover have "out' x = out x" if "\<forall>t < fa_dim fa. t div 32 \<in> set (j # js) \<longrightarrow> x \<noteq> out_index fa w t" for x
  proof -
    have "?out x = out x" by (rule pass_out(2) [OF fits]) (use that in auto)
    then show ?thesis using IH(5) that by simp
  qed
  moreover have "feature_loop pc arr ps out fa w smid perms (j # js) = Some (pc', ps', out')" using IH(1) r by (simp add: Let_def)
  ultimately show ?case using IH(2,3) by blast
qed auto

text \<open>What a gather leaves of the cache: everything as it was, for those who look through the array.\<close>

definition gathered :: "array_d_t \<Rightarrow> (nat \<Rightarrow> 't) page_cache \<Rightarrow> (nat \<Rightarrow> 't) page_cache \<Rightarrow> bool" where
  "gathered arr pc pc' \<longleftrightarrow> array_inv arr pc' \<and> flat_range pc' arr \<and> cfg_eq pc' pc \<and> elem_view pc' arr = elem_view pc arr \<and>
     (\<forall>r pg. in_dom pc r pg \<longrightarrow> cnt_of (dstate pc' r pg) = cnt_of (dstate pc r pg) \<and> get_cpu_offset pc' r pg = get_cpu_offset pc r pg)"

lemma gathered_refl: "array_inv arr pc \<Longrightarrow> flat_range pc arr \<Longrightarrow> gathered arr pc pc"
  by (simp add: gathered_def cfg_eq_def)

lemma gathered_trans: "gathered arr pc pc' \<Longrightarrow> gathered arr pc' pc'' \<Longrightarrow> gathered arr pc pc''"
  using cfg_eq_trans [of pc'' pc' pc] cfg_eqD(2) [of pc' pc] by (auto simp: gathered_def)

lemma gathered_room:
  assumes "gathered arr pc pc'" and "gather_room pc"
  shows "gather_room pc'"
proof -
  have c: "in_dom pc' = in_dom pc" "pc_n_pages pc' = pc_n_pages pc" "\<And>r pg. in_dom pc r pg \<Longrightarrow> cnt_of (dstate pc' r pg) = cnt_of (dstate pc r pg)"
    using assms(1) cfg_eqD(2) [of pc' pc] by (auto simp: gathered_def cfg_eq_def)
  have "in_use pc' = in_use pc" using c by (auto simp: in_use_def)
  then show ?thesis using assms(2) c by (simp add: gather_room_def)
qed

lemma feature_warp_ok:
  assumes inv: "array_inv arr pc" and fl: "flat_range pc arr" and room: "gather_room pc" and perms: "perms_ok perms"
    and fits: "warp_fits fa w" and f: "row_found arr fa w"
  shows "\<exists>pc1 ps1 out'. feature_loop pc arr (\<lambda>_. bam_ptr_new True) out fa w smid perms [0..<passes fa] = Some (pc1, ps1, out') \<and>
    gathered arr pc (end_of_block arr (sd_release (perms k)) pc1 ps1) \<and>
    (\<forall>t < fa_dim fa. elem_view pc arr (feature_index fa w t) = Some (out' (out_index fa w t))) \<and>
    (\<forall>x. (\<forall>t < fa_dim fa. x \<noteq> out_index fa w t) \<longrightarrow> out' x = out x)"
proof -
  have "\<forall>l :: nat. bp_is_subRef (bam_ptr_new True)" by (simp add: bam_ptr_new_def)
  then obtain pc1 ps1 out' where r: "feature_loop pc arr (\<lambda>_. bam_ptr_new True) out fa w smid perms [0..<passes fa] = Some (pc1, ps1, out')"
      and st: "ptrs_state arr pc pc1 ps1" and sub: "\<forall>l. bp_is_subRef (ps1 l)"
      and o: "\<forall>t < fa_dim fa. t div 32 \<in> set [0..<passes fa] \<longrightarrow> elem_view pc arr (feature_index fa w t) = Some (out' (out_index fa w t))"
      "\<forall>x. (\<forall>t < fa_dim fa. t div 32 \<in> set [0..<passes fa] \<longrightarrow> x \<noteq> out_index fa w t) \<longrightarrow> out' x = out x"
    using feature_loop_ok [OF perms room fits f ptrs_start [OF inv fl], of True "[0..<passes fa]" out smid] by auto
  let ?order = "filter (\<lambda>l. bp_page (ps1 l) \<noteq> None) (sd_release (perms k))"
  have m: "bit (-1 :: u32) l \<longleftrightarrow> l < 32" for l by (simp add: bit_minus_1_iff possible_bit_word)
  have ls: "distinct ?order" "set ?order = {l. bit (-1 :: u32) l \<and> bp_page (ps1 l) \<noteq> None}" using perms by (auto simp: perms_ok_def m)
  let ?pc = "end_of_block arr (sd_release (perms k)) pc1 ps1" and ?ps = "snd (bam_ptr_delete pc1 arr (-1) ps1 ?order)"
  have st2: "ptrs_state arr pc ?pc ?ps" unfolding end_of_block_def using bam_ptr_delete_ok [OF st ls] sub by blast
  have "?ps l = bam_ptr_new True" if "l < 32" for l using that sub by (simp add: bam_ptr_delete_def m)
  then have "{l. l < 32 \<and> ptr_pg pc arr (?ps l) = Some x} = {}" for x by (auto simp: ptr_pg_def bam_ptr_new_def)
  then have h: "holders pc arr ?ps = (\<lambda>_. 0)" unfolding holders_def fun_eq_iff by (simp only: card.empty) simp
  obtain B where ws: "warp_state pc (\<lambda>_. 0) B False (content pc) ?pc" using st2 unfolding ptrs_state_def h by blast
  have "warp_done arr pc ?pc (elem_view pc arr)" using warp_doneI [OF inv ws] by (simp add: elem_view_def)
  moreover have "cfg_eq ?pc pc" by (rule warp_stateD(2) [OF ws])
  moreover then have "flat_range ?pc arr" using fl by (simp add: flat_range_def cfg_eq_def)
  moreover have "get_cpu_offset ?pc r pg = get_cpu_offset pc r pg" if "in_dom pc r pg" for r pg
    using warp_stateD(10) [OF ws that] by (simp add: get_cpu_offset_def)
  ultimately have "gathered arr pc ?pc" by (simp add: gathered_def warp_done_def)
  then show ?thesis using r o all_tids by blast
qed

lemma copy_loop_ok:
  assumes "warp_fits fa w"
  shows "distinct js \<Longrightarrow>
    (\<forall>t < fa_dim fa. t div 32 \<in> set js \<longrightarrow> copy_loop buf base out fa w js (out_index fa w t) = buf (base + of_nat t)) \<and>
    (\<forall>x. (\<forall>t < fa_dim fa. t div 32 \<in> set js \<longrightarrow> x \<noteq> out_index fa w t) \<longrightarrow> copy_loop buf base out fa w js x = out x)"
proof (induction js arbitrary: out)
  case (Cons j js)
  define o2 where "o2 = foldl (\<lambda>o' l. o'(out_index fa w (32 * j + l) := buf (base + of_nat (32 * j + l)))) out (active_lanes (loop_mask fa j))"
  have e: "copy_loop buf base out fa w (j # js) = copy_loop buf base o2 fa w js" by (simp add: o2_def)
  have IH: "\<forall>t < fa_dim fa. t div 32 \<in> set js \<longrightarrow> copy_loop buf base o2 fa w js (out_index fa w t) = buf (base + of_nat t)"
      "\<forall>x. (\<forall>t < fa_dim fa. t div 32 \<in> set js \<longrightarrow> x \<noteq> out_index fa w t) \<longrightarrow> copy_loop buf base o2 fa w js x = o2 x"
    using Cons.IH [of o2] Cons.prems by simp_all
  note I = out_index_inj [OF assms [unfolded warp_fits_def] assms [unfolded warp_fits_def]]
  have "copy_loop buf base o2 fa w js (out_index fa w t) = buf (base + of_nat t)" if t: "t < fa_dim fa" "t div 32 \<in> set (j # js)" for t
  proof (cases "t div 32 \<in> set js")
    case False
    then have j: "t div 32 = j" using t(2) by simp
    have "\<forall>t' < fa_dim fa. t' div 32 \<in> set js \<longrightarrow> out_index fa w t \<noteq> out_index fa w t'" using I t(1) False by auto
    then have "copy_loop buf base o2 fa w js (out_index fa w t) = o2 (out_index fa w t)" using IH(2) by blast
    also have "\<dots> = buf (base + of_nat (32 * j + t mod 32))" unfolding o2_def by (rule pass_out(1) [OF assms t(1) j])
    also have "32 * j + t mod 32 = t" using j mult_div_mod_eq [of 32 t] by simp
    finally show ?thesis .
  qed (use IH t in simp)
  moreover have "copy_loop buf base o2 fa w js x = out x" if "\<forall>t < fa_dim fa. t div 32 \<in> set (j # js) \<longrightarrow> x \<noteq> out_index fa w t" for x
  proof -
    have "o2 x = out x" unfolding o2_def by (rule pass_out(2) [OF assms]) (use that in auto)
    then show ?thesis using IH that by simp
  qed
  ultimately show ?case unfolding e by simp
qed simp

section \<open>Lemmas: a launch\<close>

text \<open>Kernels whose warps keep an invariant of the cache and fill cells of the output of their own.\<close>

locale row_kernel =
  fixes k :: "'s \<Rightarrow> 'o \<Rightarrow> 'w \<Rightarrow> ('s \<times> 'o) option" and inv :: "'s \<Rightarrow> bool" and ok :: "'w \<Rightarrow> bool"
    and cells :: "'w \<Rightarrow> 'x set" and rd :: "'o \<Rightarrow> 'x \<Rightarrow> 'v" and good :: "'w \<Rightarrow> 'o \<Rightarrow> bool"
  assumes step: "\<lbrakk>inv s; ok w\<rbrakk> \<Longrightarrow> \<exists>s' out'. k s out w = Some (s', out') \<and> inv s' \<and> good w out' \<and> (\<forall>x. x \<notin> cells w \<longrightarrow> rd out' x = rd out x)"
    and good_cong: "\<lbrakk>good w out; \<forall>x \<in> cells w. rd out' x = rd out x\<rbrakk> \<Longrightarrow> good w out'"
begin

lemma launch_all:
  "\<lbrakk>inv s; \<forall>w \<in> set ws. ok w; distinct ws; \<forall>w \<in> set ws. \<forall>w' \<in> set ws. w \<noteq> w' \<longrightarrow> cells w \<inter> cells w' = {}\<rbrakk> \<Longrightarrow>
   \<exists>s' out'. launch k ws s out = Some (s', out') \<and> inv s' \<and> (\<forall>w \<in> set ws. good w out') \<and>
     (\<forall>x. (\<forall>w \<in> set ws. x \<notin> cells w) \<longrightarrow> rd out' x = rd out x)"
proof (induction ws arbitrary: s out)
  case (Cons w ws)
  obtain s1 out1 where 1: "k s out w = Some (s1, out1)" "inv s1" "good w out1" "\<forall>x. x \<notin> cells w \<longrightarrow> rd out1 x = rd out x"
    using step [of s w out] Cons.prems by auto
  obtain s' out' where 2: "launch k ws s1 out1 = Some (s', out')" "inv s'" "\<forall>w \<in> set ws. good w out'"
      "\<forall>x. (\<forall>w \<in> set ws. x \<notin> cells w) \<longrightarrow> rd out' x = rd out1 x"
    using Cons.IH [OF 1(2), of out1] Cons.prems by auto
  have "\<forall>w' \<in> set ws. cells w \<inter> cells w' = {}" using Cons.prems by auto
  then have "good w out'" using good_cong [OF 1(3)] 2(4) by blast
  then show ?case using 1 2 by auto
qed auto

end

type_synonym warp_run = "u64 \<times> u32 \<times> (nat \<Rightarrow> schedule)"

definition run_ok :: "array_d_t \<Rightarrow> feature_args \<Rightarrow> warp_run \<Rightarrow> bool" where
  "run_ok arr fa = (\<lambda>(w, smid, perms). perms_ok perms \<and> (idx_idx w < fa_num_idx fa \<longrightarrow> warp_fits fa w \<and> row_found arr fa w))"

definition run_cells :: "feature_args \<Rightarrow> warp_run \<Rightarrow> u64 set" where
  "run_cells fa = (\<lambda>(w, smid, perms). {x. idx_idx w < fa_num_idx fa \<and> (\<exists>t < fa_dim fa. x = out_index fa w t)})"

definition run_good :: "array_d_t \<Rightarrow> feature_args \<Rightarrow> (nat \<Rightarrow> 't) page_cache \<Rightarrow> warp_run \<Rightarrow> (u64 \<Rightarrow> 't) \<Rightarrow> bool" where
  "run_good arr fa pc = (\<lambda>(w, smid, perms) out. idx_idx w < fa_num_idx fa \<longrightarrow>
     (\<forall>t < fa_dim fa. elem_view pc arr (feature_index fa w t) = Some (out (out_index fa w t))))"

definition gather_inv :: "array_d_t \<Rightarrow> (nat \<Rightarrow> 't) page_cache \<Rightarrow> (nat \<Rightarrow> 't) page_cache \<Rightarrow> bool" where
  "gather_inv arr pc0 pc \<longleftrightarrow> gathered arr pc0 pc \<and> gather_room pc0"

lemma gather_invD:
  assumes "gather_inv arr pc0 pc"
  shows "array_inv arr pc" "flat_range pc arr" "gather_room pc" "elem_view pc arr = elem_view pc0 arr"
  using assms gathered_room by (auto simp: gather_inv_def gathered_def)

lemma ssd_run:
  assumes inv: "gather_inv arr pc0 pc" and ok: "run_ok arr fa (w, smid, perms)" and i: "idx_idx w < fa_num_idx fa"
  shows "\<exists>pc1 ps1 out'. feature_loop pc arr (\<lambda>_. bam_ptr_new True) out fa w smid perms [0..<passes fa] = Some (pc1, ps1, out') \<and>
    gather_inv arr pc0 (end_of_block arr (sd_release (perms (passes fa))) pc1 ps1) \<and> run_good arr fa pc0 (w, smid, perms) out' \<and>
    (\<forall>x. x \<notin> run_cells fa (w, smid, perms) \<longrightarrow> out' x = out x)"
proof -
  note D = gather_invD [OF inv]
  have o: "perms_ok perms" "warp_fits fa w" "row_found arr fa w" using ok i by (simp_all add: run_ok_def)
  from feature_warp_ok [OF D(1-3) o, of out smid "passes fa"]
  show ?thesis using inv D(4) i gathered_trans unfolding gather_inv_def run_good_def run_cells_def by fastforce
qed

lemma run_good_cong: "\<lbrakk>run_good arr fa pc w out; \<forall>x \<in> run_cells fa w. out' x = out x\<rbrakk> \<Longrightarrow> run_good arr fa pc w out'"
  by (cases w) (auto simp: run_good_def run_cells_def)

interpretation plain: row_kernel "\<lambda>p out (w, smid, perms). read_feature_kernel p arr out fa w smid perms"
  "gather_inv arr pc0" "run_ok arr fa" "run_cells fa" "\<lambda>out x. out x" "run_good arr fa pc0"
proof unfold_locales
  fix s :: "(nat \<Rightarrow> 'a) page_cache" and wr out
  assume a: "gather_inv arr pc0 s" "run_ok arr fa wr"
  obtain w smid perms where w: "wr = (w, smid, perms)" by (cases wr)
  show "\<exists>s' out'. (case wr of (w, smid, perms) \<Rightarrow> read_feature_kernel s arr out fa w smid perms) = Some (s', out') \<and> gather_inv arr pc0 s' \<and>
      run_good arr fa pc0 wr out' \<and> (\<forall>x. x \<notin> run_cells fa wr \<longrightarrow> out' x = out x)"
  proof (cases "idx_idx w < fa_num_idx fa")
    case True
    from ssd_run [OF a(1) a(2) [unfolded w] True, of out] show ?thesis using True by (auto simp: w read_feature_kernel_def)
  next
    case False
    then show ?thesis using a(1) by (simp add: w read_feature_kernel_def run_good_def)
  qed
qed (rule run_good_cong)

text \<open>The buffer in host memory holds the rows that are looked up in it.\<close>

definition buffer_mirrors :: "(nat \<Rightarrow> 't) page_cache \<Rightarrow> array_d_t \<Rightarrow> u64 \<Rightarrow> 't cpu_buffer \<Rightarrow> bool \<Rightarrow> feature_args \<Rightarrow> warp_run \<Rightarrow> bool" where
  "buffer_mirrors pc arr r buf cpu_seq fa = (\<lambda>(w, smid, perms). idx_idx w < fa_num_idx fa \<longrightarrow> in_dom pc r (row_index fa w) \<and>
     (\<forall>base. cpu_row pc r fa buf cpu_seq (row_index fa w) = Some base \<longrightarrow>
        (\<forall>t < fa_dim fa. elem_view pc arr (feature_index fa w t) = Some (device_cpu_buffer buf (base + of_nat t)))))"

interpretation backed: row_kernel "\<lambda>p out (w, smid, perms). read_feature_kernel_with_cpu_backing_memory p arr r buf cpu_seq out fa w smid perms"
  "gather_inv arr pc0" "\<lambda>w. run_ok arr fa w \<and> buffer_mirrors pc0 arr r buf cpu_seq fa w" "run_cells fa" "\<lambda>out x. fst out x"
  "\<lambda>w out. run_good arr fa pc0 w (fst out)"
proof unfold_locales
  fix s :: "(nat \<Rightarrow> 'a) page_cache" and wr and out :: "(u64 \<Rightarrow> 'a) \<times> u32"
  assume a: "gather_inv arr pc0 s" "run_ok arr fa wr \<and> buffer_mirrors pc0 arr r buf cpu_seq fa wr"
  obtain w smid perms where w: "wr = (w, smid, perms)" by (cases wr)
  have ok: "run_ok arr fa (w, smid, perms)" using a(2) by (simp add: w)
  show "\<exists>s' out'. (case wr of (w, smid, perms) \<Rightarrow> read_feature_kernel_with_cpu_backing_memory s arr r buf cpu_seq out fa w smid perms) = Some (s', out') \<and>
      gather_inv arr pc0 s' \<and> run_good arr fa pc0 wr (fst out') \<and> (\<forall>x. x \<notin> run_cells fa wr \<longrightarrow> fst out' x = fst out x)"
  proof (cases "idx_idx w < fa_num_idx fa")
    case True
    have d: "in_dom pc0 r (row_index fa w)" using a(2) True by (simp add: w buffer_mirrors_def)
    then have off: "get_cpu_offset s r (row_index fa w) = get_cpu_offset pc0 r (row_index fa w)"
      using a(1) by (simp add: gather_inv_def gathered_def)
    then have row: "cpu_row s r fa buf cpu_seq (row_index fa w) = cpu_row pc0 r fa buf cpu_seq (row_index fa w)" by (simp add: cpu_row_def)
    show ?thesis
    proof (cases "cpu_row pc0 r fa buf cpu_seq (row_index fa w)")
      case None
      from ssd_run [OF a(1) ok True, of "fst out"] show ?thesis
        using True row None by (auto simp: w read_feature_kernel_with_cpu_backing_memory_def)
    next
      case (Some base)
      have fits: "warp_fits fa w" using ok True by (simp add: run_ok_def)
      have m: "\<forall>t < fa_dim fa. elem_view pc0 arr (feature_index fa w t) = Some (device_cpu_buffer buf (base + of_nat t))"
        using a(2) True Some by (simp add: w buffer_mirrors_def)
      note C = copy_loop_ok [OF fits, of "[0..<passes fa]" "device_cpu_buffer buf" base "fst out"]
      have "run_good arr fa pc0 wr (copy_loop (device_cpu_buffer buf) base (fst out) fa w [0..<passes fa])"
        using C m all_tids by (auto simp: w run_good_def)
      then show ?thesis using True row Some C a(1)
        by (auto simp: w read_feature_kernel_with_cpu_backing_memory_def run_cells_def)
    qed
  next
    case False
    then show ?thesis using a(1) by (simp add: w read_feature_kernel_with_cpu_backing_memory_def run_good_def)
  qed
qed (rule run_good_cong)

lemma run_cells_disjoint:
  assumes "distinct (map fst ws)" and "\<forall>w \<in> set ws. run_ok arr fa w"
  shows "\<forall>w \<in> set ws. \<forall>w' \<in> set ws. w \<noteq> w' \<longrightarrow> run_cells fa w \<inter> run_cells fa w' = {}" "distinct ws"
proof -
  show "distinct ws" using assms(1) by (simp add: distinct_map)
  show "\<forall>w \<in> set ws. \<forall>w' \<in> set ws. w \<noteq> w' \<longrightarrow> run_cells fa w \<inter> run_cells fa w' = {}"
  proof (intro ballI impI)
    fix a b assume ab: "a \<in> set ws" "b \<in> set ws" "a \<noteq> b"
    then have ne: "fst a \<noteq> fst b" using assms(1) by (auto simp: distinct_map inj_on_def)
    have ok: "run_ok arr fa a" "run_ok arr fa b" using ab assms(2) by blast+
    have False if x: "x \<in> run_cells fa a" "x \<in> run_cells fa b" for x
    proof -
      obtain t t' where t: "t < fa_dim fa" "x = out_index fa (fst a) t" "t' < fa_dim fa" "x = out_index fa (fst b) t'"
        using x by (auto simp: run_cells_def split_beta)
      have "warp_fits fa (fst a)" "warp_fits fa (fst b)" using x ok by (auto simp: run_cells_def run_ok_def split_beta)
      then have "fst a = fst b" using out_index_inj [of "fst a" fa "fst b" t t'] t by (simp add: warp_fits_def)
      then show False using ne by blast
    qed
    then show "run_cells fa a \<inter> run_cells fa b = {}" by blast
  qed
qed

lemma good_outputs_eq:
  assumes "\<forall>w \<in> set ws. run_good arr fa pc w out1" and "\<forall>x. (\<forall>w \<in> set ws. x \<notin> run_cells fa w) \<longrightarrow> out1 x = out x"
    and "\<forall>w \<in> set ws. run_good arr fa pc w out2" and "\<forall>x. (\<forall>w \<in> set ws. x \<notin> run_cells fa w) \<longrightarrow> out2 x = out x"
  shows "out1 = out2"
proof
  fix x
  show "out1 x = out2 x"
  proof (cases "\<exists>w \<in> set ws. x \<in> run_cells fa w")
    case True
    then obtain w where w: "w \<in> set ws" "x \<in> run_cells fa w" by blast
    then obtain t where t: "idx_idx (fst w) < fa_num_idx fa" "t < fa_dim fa" "x = out_index fa (fst w) t" by (auto simp: run_cells_def split_beta)
    have "Some (out1 x) = Some (out2 x)" using assms(1,3) w(1) t by (auto simp: run_good_def split_beta)
    then show ?thesis by simp
  qed (use assms(2,4) in simp)
qed

text \<open>A cache of 128 slots, and one warp that gathers a row of two elements.\<close>

definition gather_pc :: "(nat \<Rightarrow> nat) page_cache" where
  "gather_pc = warp_pc\<lparr>pc_n_pages := 128, pc_prp1 := (\<lambda>e. e)\<rparr>"

definition gather_fa :: feature_args where
  "gather_fa = \<lparr>fa_index = (\<lambda>_. 1), fa_dim = 2, fa_num_idx = 1, fa_cache_dim = 64, fa_key_off = 0\<rparr>"

definition all_lanes :: "nat \<Rightarrow> schedule" where
  "all_lanes j = \<lparr>sd_acquire = [0..<32], sd_access = [0..<32], sd_release = [0..<32]\<rparr>"

definition gather_run :: warp_run where
  "gather_run = (0, 0, all_lanes)"

lemma gather_example:
  "array_inv warp_arr gather_pc" "flat_range gather_pc warp_arr" "gather_room gather_pc" "run_ok warp_arr gather_fa gather_run"
  "elem_view gather_pc warp_arr 64 = Some 1000" "elem_view gather_pc warp_arr 65 = Some 1001" "idx_idx 0 < fa_num_idx gather_fa"
  "t < 2 \<Longrightarrow> feature_index gather_fa 0 t = 64 + of_nat t" "in_dom gather_pc 0 1" "row_index gather_fa 0 = 1"
proof -
  have one: "x < 1 \<longleftrightarrow> x = 0" for x :: u64 by (simp add: word_less_nat_alt unat_eq_0)
  have "cfg_slots gather_pc" by (simp add: cfg_slots_def gather_pc_def warp_pc_def wf_cmd_def blocks_ok_def)
  moreover have "cfg_addr gather_pc" by (simp add: cfg_addr_def gather_pc_def warp_pc_def)
  moreover have "cfg_disk gather_pc" by (auto simp: cfg_disk_def gather_pc_def warp_pc_def area_len_def nblk_def one)
  ultimately have "cfg_ok gather_pc" by (simp add: cfg_ok_def)
  then have "cache_inv gather_pc"
    by (rule empty_cache_inv) (auto simp: gather_pc_def warp_pc_def dstate_def witness_page_def)
  moreover have "ad_ok gather_pc warp_arr"
    by (simp add: ad_ok_def gather_pc_def warp_pc_def warp_arr_def elems_per_block_def nblk_def)
  moreover have "no_prefetch gather_pc" by (simp add: no_prefetch_def unprefetched_def gather_pc_def warp_pc_def witness_page_def)
  ultimately show "array_inv warp_arr gather_pc" by (simp add: array_inv_def)
  show "flat_range gather_pc warp_arr" by (simp add: flat_range_def gather_pc_def warp_pc_def warp_arr_def)
  have st: "dstate gather_pc r pg = 0" for r pg by (simp add: dstate_def gather_pc_def warp_pc_def witness_page_def INVALID_def)
  have "in_use gather_pc = {}" by (simp add: in_use_def st)
  moreover have "unat (pc_n_pages gather_pc) = 128" by (simp add: gather_pc_def)
  ultimately show "gather_room gather_pc" by (simp add: gather_room_def st)
  show fi: "feature_index gather_fa 0 t = 64 + of_nat t" if "t < 2" for t
    by (simp add: feature_index_def row_index_def gather_fa_def)
  have two: "t < 2 \<longleftrightarrow> t = 0 \<or> t = 1" for t :: nat by auto
  have "fa_dim gather_fa = 2" by (simp add: gather_fa_def)
  then have "row_found warp_arr gather_fa 0"
    unfolding row_found_def using fi [of 0] fi [of 1] by (auto simp: two find_range_def warp_arr_def)
  moreover have "perms_ok all_lanes" by (auto simp: perms_ok_def all_lanes_def)
  moreover have "warp_fits gather_fa 0" by (simp add: warp_fits_def gather_fa_def)
  ultimately show "run_ok warp_arr gather_fa gather_run" by (simp add: run_ok_def gather_run_def)
  show "idx_idx 0 < fa_num_idx gather_fa" by (simp add: idx_idx_def gather_fa_def)
  have loc: "elem_loc gather_pc warp_arr 64 = Some (0, 1, 0)" "elem_loc gather_pc warp_arr 65 = Some (0, 1, 1)"
    by (simp_all add: elem_loc_def array_lane_def Let_def find_range_def get_page_def get_subindex_def warp_arr_def gather_pc_def warp_pc_def)
  have "content gather_pc 0 1 0 = (\<lambda>e. 1000 + e)"
    by (simp add: content_def st) (simp add: home_ctrl_def page_lba_def get_backing_page_def backing_page_def gather_pc_def warp_pc_def fun_eq_iff)
  then show "elem_view gather_pc warp_arr 64 = Some 1000" "elem_view gather_pc warp_arr 65 = Some 1001"
    by (simp_all add: elem_view_def elem_map_def loc) (simp_all add: elems_per_block_def gather_pc_def warp_pc_def warp_arr_def)
  show "in_dom gather_pc 0 1" by (simp add: in_dom_def gather_pc_def warp_pc_def)
  show "row_index gather_fa 0 = 1" by (simp add: row_index_def gather_fa_def)
qed

section \<open>Lemmas: the buffer\<close>

text \<open>The warps that take their row from the buffer, and how they are counted.\<close>

definition buffer_hit :: "'b page_cache \<Rightarrow> u64 \<Rightarrow> 't cpu_buffer \<Rightarrow> bool \<Rightarrow> feature_args \<Rightarrow> warp_run \<Rightarrow> bool" where
  "buffer_hit pc r buf cpu_seq fa = (\<lambda>(w, smid, perms). idx_idx w < fa_num_idx fa \<and> cpu_row pc r fa buf cpu_seq (row_index fa w) \<noteq> None)"

lemma buffer_count:
  assumes inv: "gather_inv arr pc0 s" and ok: "\<forall>w \<in> set ws. run_ok arr fa w \<and> buffer_mirrors pc0 arr r buf cpu_seq fa w"
    and ret: "launch (\<lambda>p out (w, smid, perms). read_feature_kernel_with_cpu_backing_memory p arr r buf cpu_seq out fa w smid perms) ws s out = Some (s', out')"
  shows "snd out' = snd out + of_nat (length (filter (buffer_hit pc0 r buf cpu_seq fa) ws))"
  using inv ok ret
proof (induction ws arbitrary: s out)
  case (Cons wr ws)
  let ?k = "\<lambda>p out (w, smid, perms). read_feature_kernel_with_cpu_backing_memory p arr r buf cpu_seq out fa w smid perms"
  obtain w smid perms where w: "wr = (w, smid, perms)" by (cases wr)
  have o: "run_ok arr fa wr \<and> buffer_mirrors pc0 arr r buf cpu_seq fa wr" using Cons.prems(2) by simp
  obtain s1 out1 where 1: "?k s out wr = Some (s1, out1)" "gather_inv arr pc0 s1" using backed.step [OF Cons.prems(1) o, of out] by blast
  have "snd out1 = snd out + of_bool (buffer_hit pc0 r buf cpu_seq fa wr)"
  proof (cases "idx_idx w < fa_num_idx fa")
    case True
    have "in_dom pc0 r (row_index fa w)" using o True by (simp add: w buffer_mirrors_def)
    then have "get_cpu_offset s r (row_index fa w) = get_cpu_offset pc0 r (row_index fa w)"
      using Cons.prems(1) by (simp add: gather_inv_def gathered_def)
    then have "cpu_row s r fa buf cpu_seq (row_index fa w) = cpu_row pc0 r fa buf cpu_seq (row_index fa w)" by (simp add: cpu_row_def)
    then show ?thesis using 1(1) True
      by (auto simp: w read_feature_kernel_with_cpu_backing_memory_def buffer_hit_def split: option.splits)
  next
    case False
    then show ?thesis using 1(1) by (simp add: w read_feature_kernel_with_cpu_backing_memory_def buffer_hit_def)
  qed
  moreover have "snd out' = snd out1 + of_nat (length (filter (buffer_hit pc0 r buf cpu_seq fa) ws))"
    using Cons.IH [OF 1(2), of out1] Cons.prems(2,3) 1(1) by simp
  ultimately show ?case by simp
qed simp

lemma cpu_buffer_mirrored:
  assumes "array_inv arr pc" and "flat_range pc arr" and "gather_room pc" and "distinct (map fst ws)"
    and "\<forall>w \<in> set ws. run_ok arr fa w \<and> buffer_mirrors pc arr r buf cpu_seq fa w"
  shows "\<exists>pc2 out' m. read_feature_with_cpu pc arr r buf cpu_seq (out, n) fa ws = Some (pc2, out', m) \<and> (\<forall>w \<in> set ws. run_good arr fa pc w out') \<and>
    (\<forall>x. (\<forall>w \<in> set ws. x \<notin> run_cells fa w) \<longrightarrow> out' x = out x) \<and>
    m = n + of_nat (length (filter (buffer_hit pc r buf cpu_seq fa) ws))"
proof -
  have inv: "gather_inv arr pc pc" using assms(1-3) gathered_refl by (simp add: gather_inv_def)
  have ok: "\<forall>w \<in> set ws. run_ok arr fa w" using assms(5) by blast
  obtain pc2 o2 where 2: "read_feature_with_cpu pc arr r buf cpu_seq (out, n) fa ws = Some (pc2, o2)" "\<forall>w \<in> set ws. run_good arr fa pc w (fst o2)"
      "\<forall>x. (\<forall>w \<in> set ws. x \<notin> run_cells fa w) \<longrightarrow> fst o2 x = out x"
    using backed.launch_all [OF inv assms(5) run_cells_disjoint(2,1) [OF assms(4) ok], of "(out, n)"]
    unfolding read_feature_with_cpu_def by auto
  have "snd o2 = n + of_nat (length (filter (buffer_hit pc r buf cpu_seq fa) ws))"
    using buffer_count [OF inv assms(5), of "(out, n)" pc2 o2] 2(1) by (simp add: read_feature_with_cpu_def)
  then show ?thesis using 2 by (intro exI [of _ pc2] exI [of _ "fst o2"] exI [of _ "snd o2"]) (simp add: prod_eq_iff)
qed

text \<open>Marking rows changes the words of their page records and nothing else.\<close>

lemma marks_records:
  "\<exists>f. set_cpu_buffer_marks r idx_ptr num ts pc =
    pc\<lparr>pc_ranges := (\<lambda>r' pg. (pc_ranges pc r' pg)\<lparr>dp_cpu_feature_offset := f r' pg\<rparr>)\<rparr>"
proof (induction ts arbitrary: pc)
  case Nil
  show ?case by (intro exI [of _ "\<lambda>r' pg. dp_cpu_feature_offset (pc_ranges pc r' pg)"]) (simp add: set_cpu_buffer_marks_def)
next
  case (Cons t ts)
  have e: "set_cpu_buffer_marks r idx_ptr num (t # ts) pc = set_cpu_buffer_marks r idx_ptr num ts (set_cpu_buffer_kernel r idx_ptr num t pc)"
    by (simp add: set_cpu_buffer_marks_def)
  obtain g where "set_cpu_buffer_kernel r idx_ptr num t pc = pc\<lparr>pc_ranges := (\<lambda>r' pg. (pc_ranges pc r' pg)\<lparr>dp_cpu_feature_offset := g r' pg\<rparr>)\<rparr>"
  proof (cases "t < num")
    case True
    show ?thesis
      by (rule that [of "\<lambda>r' pg. if r' = r \<and> pg = idx_ptr t then push_bit 1 t OR 1 else dp_cpu_feature_offset (pc_ranges pc r' pg)"])
        (use True in \<open>simp add: set_cpu_buffer_kernel_def set_cpu_buffer_def upd_page_def fun_eq_iff\<close>)
  next
    case False
    show ?thesis
      by (rule that [of "\<lambda>r' pg. dp_cpu_feature_offset (pc_ranges pc r' pg)"]) (use False in \<open>simp add: set_cpu_buffer_kernel_def\<close>)
  qed
  then show ?case unfolding e using Cons.IH [of "set_cpu_buffer_kernel r idx_ptr num t pc"] by auto
qed

lemma marks_keep:
  fixes r :: u64 and idx_ptr :: "u32 \<Rightarrow> u64" and num :: u32 and ts :: "u32 list"
  assumes inv: "array_inv arr pc" and fl: "flat_range pc arr" and room: "gather_room pc"
  defines "pc' \<equiv> set_cpu_buffer_marks r idx_ptr num ts pc"
  shows "array_inv arr pc'" "flat_range pc' arr" "gather_room pc'" "elem_view pc' arr = elem_view pc arr" "in_dom pc' = in_dom pc"
proof -
  obtain f where f: "pc' = pc\<lparr>pc_ranges := (\<lambda>r' pg. (pc_ranges pc r' pg)\<lparr>dp_cpu_feature_offset := f r' pg\<rparr>)\<rparr>"
    using marks_records unfolding pc'_def by blast
  have e: "cfg_eq pc' pc" "pc_cids pc' = pc_cids pc" "pc_cache_pages pc' = pc_cache_pages pc" "disk pc' = disk pc" "frame pc' = frame pc"
    by (simp_all add: f cfg_eq_def)
  have d: "dstate pc' = dstate pc" "doffset pc' = doffset pc" by (simp_all add: f fun_eq_iff dstate_def doffset_def)
  have i: "inv0 {} pc" and q: "quiet pc" and np: "no_prefetch pc" and ok: "ad_ok pc arr" using inv by (simp_all add: array_inv_def cache_inv_def)
  have "inv0 {} pc'" using inv0_flags [OF i e(1) _ e(3-5)] inv0D(2) [OF i] inv0_valid(1) [OF i] inv0_dirty [OF i] by (simp_all add: d e(2))
  moreover show dom: "in_dom pc' = in_dom pc" by (rule cfg_eqD(2) [OF e(1)])
  moreover have "quiet pc'" using q by (simp add: quiet_def d dom)
  moreover have "no_prefetch pc'" using np by (simp add: no_prefetch_def unprefetched_def dom) (simp add: f)
  ultimately show "array_inv arr pc'" using ok cfg_eq_array(1) [OF e(1)] by (simp add: array_inv_def cache_inv_def)
  show "flat_range pc' arr" using fl by (simp add: flat_range_def f)
  have "in_use pc' = in_use pc" by (simp add: in_use_def d dom)
  then show "gather_room pc'" using room by (simp add: gather_room_def d dom) (simp add: f)
  have "content pc' = content pc" using cfg_eqD [OF e(1)] by (simp add: fun_eq_iff content_def slot_data_def d e(4,5)) (simp add: f)
  then show "elem_view pc' arr = elem_view pc arr" unfolding elem_view_def [of pc arr] by (intro elem_view_cong [OF ok e(1)]) simp
qed

text \<open>The word of a row is that of a thread that has marked it, or what it was when no thread has.\<close>

lemma marks_word:
  "(\<exists>t \<in> set ts. t < num \<and> idx_ptr t = row \<and> get_cpu_offset (set_cpu_buffer_marks r idx_ptr num ts pc) r row = push_bit 1 t OR 1) \<or>
   (\<forall>t \<in> set ts. t < num \<longrightarrow> idx_ptr t \<noteq> row) \<and> get_cpu_offset (set_cpu_buffer_marks r idx_ptr num ts pc) r row = get_cpu_offset pc r row"
proof (induction ts rule: rev_induct)
  case Nil
  show ?case by (simp add: set_cpu_buffer_marks_def)
next
  case (snoc t ts)
  have e: "set_cpu_buffer_marks r idx_ptr num (ts @ [t]) pc = set_cpu_buffer_kernel r idx_ptr num t (set_cpu_buffer_marks r idx_ptr num ts pc)"
    by (simp add: set_cpu_buffer_marks_def)
  have k: "get_cpu_offset (set_cpu_buffer_kernel r idx_ptr num t p) r row =
      (if t < num \<and> idx_ptr t = row then push_bit 1 t OR 1 else get_cpu_offset p r row)" for p :: "'a page_cache"
    by (auto simp: set_cpu_buffer_kernel_def get_cpu_offset_def set_cpu_buffer_def upd_page_def)
  show ?case using snoc unfolding e k by auto
qed

lemma position_word:
  assumes "unat t < 2 ^ 31"
  shows "(push_bit 1 t OR 1 :: u32) AND 1 = 1" "drop_bit 1 (push_bit 1 t OR 1 :: u32) = t"
proof -
  let ?o = "push_bit 1 t OR 1 :: u32"
  have b: "bit ?o k \<longleftrightarrow> k = 0 \<or> (1 \<le> k \<and> k < 32 \<and> bit t (k - 1))" for k
    unfolding bit_or_iff bit_push_bit_iff bit_1_iff by (auto simp: possible_bit_word)
  show "?o AND 1 = 1" by (rule bit_word_eqI) (auto simp: bit_and_iff b bit_1_iff)
  have h: "\<not> bit t 31"
  proof
    assume "bit t 31"
    then have "bit (unat t) 31" by (simp only: bit_unsigned_iff) simp
    then have "odd (unat t div 2 ^ 31)" unfolding bit_iff_odd .
    moreover have "unat t div 2 ^ 31 = 0" using assms by (rule div_less)
    ultimately show False by (metis even_zero)
  qed
  show "drop_bit 1 ?o = t"
  proof (rule bit_word_eqI)
    fix k assume "k < LENGTH(32)"
    then have k: "k < 31 \<or> k = 31" by auto
    show "bit (drop_bit 1 ?o) k = bit t k" unfolding bit_drop_bit_eq o_apply b using k h by auto
  qed
qed

lemma place_word:
  assumes "get_cpu_offset pc r row = push_bit 1 t OR 1" and "unat t < 2 ^ 31"
  shows "cpu_row pc r fa buf False row = Some (of_nat ((unat t * fa_cache_dim fa) mod 2 ^ 32))"
proof -
  have "(ucast (t * of_nat (fa_cache_dim fa) :: u32) :: u64) = of_nat (unat (t * of_nat (fa_cache_dim fa)))"
    by (rule of_nat_unat [symmetric])
  also have "unat (t * of_nat (fa_cache_dim fa)) = (unat t * fa_cache_dim fa) mod 2 ^ 32"
    by (simp add: unat_word_ariths unat_of_nat mod_mult_right_eq)
  finally show ?thesis unfolding cpu_row_def Let_def assms(1) position_word [OF assms(2)] by simp
qed

section \<open>Properties\<close>

text \<open>C6: Features are gathered correctly.  Take an array over one range whose elements start at index 0
  (\<open>flat_range\<close>), with no window-buffer or prefetch counter pending on any page (\<open>no_prefetch\<close>, part of
  \<open>array_inv\<close>: with such a counter every acquire pins one user more), a cache with 64 slots beside the pages in
  use, and warps whose rows have no element outside the array.  Then a launch of \<open>read_feature_kernel\<close> over the
  warps, in any order and with any order of the lanes in every warp, returns; the row of every warp is in the output,
  no other cell of the output has changed, and the array, the user counts and the invariants of the cache are as before.\<close>

theorem read_feature_correct:
  assumes "array_inv arr pc" and "flat_range pc arr" and "gather_room pc" and "distinct (map fst ws)" and "\<forall>w \<in> set ws. run_ok arr fa w"
  shows "\<exists>pc' out'. read_feature pc arr out fa ws = Some (pc', out') \<and> gathered arr pc pc' \<and>
    (\<forall>(w, smid, perms) \<in> set ws. idx_idx w < fa_num_idx fa \<longrightarrow>
      (\<forall>t < fa_dim fa. elem_view pc arr (feature_index fa w t) = Some (out' (out_index fa w t)))) \<and>
    (\<forall>x. (\<forall>w \<in> set ws. x \<notin> run_cells fa w) \<longrightarrow> out' x = out x)"
proof -
  have "gather_inv arr pc pc" using assms(1-3) gathered_refl by (simp add: gather_inv_def)
  from plain.launch_all [OF this assms(5) run_cells_disjoint(2,1) [OF assms(4,5)], of out]
  show ?thesis unfolding read_feature_def gather_inv_def run_good_def by (fastforce simp: split_beta)
qed

theorem read_feature_correct_witness:
  "\<exists>pc' out'. read_feature gather_pc warp_arr (\<lambda>_. 0) gather_fa [gather_run] = Some (pc', out') \<and> out' 0 = 1000 \<and> out' 1 = 1001"
proof -
  have ok: "distinct (map fst [gather_run])" "\<forall>w \<in> set [gather_run]. run_ok warp_arr gather_fa w" using gather_example(4) by simp_all
  obtain pc' out' where r: "read_feature gather_pc warp_arr (\<lambda>_. 0) gather_fa [gather_run] = Some (pc', out')"
      "\<forall>t < fa_dim gather_fa. elem_view gather_pc warp_arr (feature_index gather_fa 0 t) = Some (out' (out_index gather_fa 0 t))"
    using read_feature_correct [OF gather_example(1-3) ok, of "\<lambda>_. 0"] gather_example(7) by (auto simp: gather_run_def)
  have "fa_dim gather_fa = 2" by (simp add: gather_fa_def)
  then have "out' 0 = 1000" "out' 1 = 1001"
    using r(2) [rule_format, of 0] r(2) [rule_format, of 1] gather_example(5,6,8) by (simp_all add: out_index_def)
  then show ?thesis using r(1) by blast
qed

text \<open>C14: The buffer in host memory changes nothing.  Take an array over one range with no window-buffer or prefetch counter
  pending, whose page records carry no marks, and a list of \<open>num\<close> rows, each of which has a page record of its number.  Let the
  threads of \<open>set_cpu_buffer_kernel\<close> mark the rows in any order, and let the buffer have the row at position \<open>p\<close> of the list
  from its cell \<open>p * cache_dim\<close> on (what \<open>set_cpu_buffer_data_kernel\<close> copies there), fewer than \<open>2 ^ 32\<close> cells in all.  Then
  the kernel with the buffer returns the output that the kernel without it returns on the unmarked cache, and counts exactly
  the warps whose row is on the list: those rows come from the buffer, all others from the array.\<close>

theorem cpu_buffer_equivalent:
  assumes "array_inv arr pc" and "flat_range pc arr" and "gather_room pc" and "distinct (map fst ws)"
    and "\<forall>(w, smid, perms) \<in> set ws. run_ok arr fa (w, smid, perms) \<and> (idx_idx w < fa_num_idx fa \<longrightarrow> in_dom pc r (row_index fa w))"
    and "\<forall>row. in_dom pc r row \<longrightarrow> get_cpu_offset pc r row = 0"
    and "unat num < 2 ^ 31" and "unat num * fa_cache_dim fa < 2 ^ 32" and "\<forall>p < num. p \<in> set ts"
    and "\<forall>p < num. \<forall>t < fa_dim fa. elem_view pc arr (idx_ptr p * of_nat (fa_cache_dim fa) + of_nat t) =
      Some (device_cpu_buffer buf (of_nat (unat p * fa_cache_dim fa + t)))"
  shows "\<exists>pc1 pc2 out' m. read_feature pc arr out fa ws = Some (pc1, out') \<and>
    read_feature_with_cpu (set_cpu_buffer_marks r idx_ptr num ts pc) arr r buf False (out, n) fa ws = Some (pc2, out', m) \<and>
    m = n + of_nat (length (filter (\<lambda>(w, smid, perms). idx_idx w < fa_num_idx fa \<and> (\<exists>p < num. idx_ptr p = row_index fa w)) ws))"
proof -
  let ?pc = "set_cpu_buffer_marks r idx_ptr num ts pc"
  note K = marks_keep [OF assms(1-3), of r idx_ptr num ts]
  have ok: "\<forall>w \<in> set ws. run_ok arr fa w" using assms(5) by auto
  have place: "cpu_row ?pc r fa buf False row = (if \<exists>p < num. idx_ptr p = row then Some (of_nat (unat q * fa_cache_dim fa)) else None) \<and>
      ((\<exists>p < num. idx_ptr p = row) \<longrightarrow> q < num \<and> idx_ptr q = row)"
    if q: "q = (SOME q. q < num \<and> idx_ptr q = row \<and> get_cpu_offset ?pc r row = push_bit 1 q OR 1)" and d: "in_dom pc r row" for row q
  proof (cases "\<exists>p < num. idx_ptr p = row")
    case True
    then obtain p where "p \<in> set ts" "p < num" "idx_ptr p = row" using assms(9) by blast
    then obtain t where t: "t < num \<and> idx_ptr t = row \<and> get_cpu_offset ?pc r row = push_bit 1 t OR 1"
      using marks_word [of ts num idx_ptr row r pc] by blast
    have Q: "q < num \<and> idx_ptr q = row \<and> get_cpu_offset ?pc r row = push_bit 1 q OR 1" unfolding q using t by (rule someI)
    then have u: "unat q < unat num" by (simp add: word_less_nat_alt)
    then have "unat q < 2 ^ 31" using assms(7) by linarith
    note P = place_word [OF conjunct2 [OF conjunct2 [OF Q]] this, of fa buf]
    have "unat q * fa_cache_dim fa \<le> unat num * fa_cache_dim fa" using u by simp
    then have "unat q * fa_cache_dim fa < 2 ^ 32" using assms(8) by (rule order.strict_trans1)
    then show ?thesis using P Q True by simp
  next
    case False
    then have "get_cpu_offset ?pc r row = 0" using marks_word [of ts num idx_ptr row r pc] assms(6) d by auto
    then show ?thesis using False by (auto simp: cpu_row_def)
  qed
  have m: "\<forall>w \<in> set ws. run_ok arr fa w \<and> buffer_mirrors ?pc arr r buf False fa w"
  proof
    fix wr assume wr: "wr \<in> set ws"
    obtain w smid perms where w: "wr = (w, smid, perms)" by (cases wr)
    have "elem_view ?pc arr (feature_index fa w t) = Some (device_cpu_buffer buf (base + of_nat t))"
      if i: "idx_idx w < fa_num_idx fa" and b: "cpu_row ?pc r fa buf False (row_index fa w) = Some base" and t: "t < fa_dim fa" for base t
    proof -
      have d: "in_dom pc r (row_index fa w)" using assms(5) wr i by (auto simp: w)
      obtain q where q: "base = of_nat (unat q * fa_cache_dim fa)" "q < num" "idx_ptr q = row_index fa w"
        using place [OF refl d] b by (auto split: if_splits)
      have "elem_view pc arr (idx_ptr q * of_nat (fa_cache_dim fa) + of_nat t) = Some (device_cpu_buffer buf (of_nat (unat q * fa_cache_dim fa + t)))"
        using assms(10) q(2) t by blast
      then show ?thesis by (simp add: K(4) feature_index_def q(1,3))
    qed
    then show "run_ok arr fa wr \<and> buffer_mirrors ?pc arr r buf False fa wr"
      using assms(5) wr by (auto simp: w buffer_mirrors_def K(5))
  qed
  have h: "buffer_hit ?pc r buf False fa (w, smid, perms) \<longleftrightarrow> idx_idx w < fa_num_idx fa \<and> (\<exists>p < num. idx_ptr p = row_index fa w)"
    if "(w, smid, perms) \<in> set ws" for w smid perms
  proof (cases "idx_idx w < fa_num_idx fa")
    case True
    then have "in_dom pc r (row_index fa w)" using assms(5) that by auto
    from place [OF refl this] show ?thesis using True by (auto simp: buffer_hit_def)
  qed (simp add: buffer_hit_def)
  have f: "filter (buffer_hit ?pc r buf False fa) ws =
      filter (\<lambda>(w, smid, perms). idx_idx w < fa_num_idx fa \<and> (\<exists>p < num. idx_ptr p = row_index fa w)) ws"
    by (rule filter_cong) (use h in \<open>auto simp: split_beta\<close>)
  obtain pc2 out' where B: "read_feature_with_cpu ?pc arr r buf False (out, n) fa ws =
        Some (pc2, out', n + of_nat (length (filter (buffer_hit ?pc r buf False fa) ws)))"
      "\<forall>w \<in> set ws. run_good arr fa ?pc w out'" "\<forall>x. (\<forall>w \<in> set ws. x \<notin> run_cells fa w) \<longrightarrow> out' x = out x"
    using cpu_buffer_mirrored [OF K(1-3) assms(4) m, of out n] by blast
  obtain pc1 out1 where A: "read_feature pc arr out fa ws = Some (pc1, out1)" "\<forall>w \<in> set ws. run_good arr fa pc w out1"
      "\<forall>x. (\<forall>w \<in> set ws. x \<notin> run_cells fa w) \<longrightarrow> out1 x = out x"
    using plain.launch_all [OF _ ok run_cells_disjoint(2,1) [OF assms(4) ok], of pc pc out] gathered_refl assms(1-3)
    unfolding read_feature_def gather_inv_def by blast
  have "out1 = out'" by (rule good_outputs_eq [OF A(2,3)]) (use B(2,3) in \<open>simp_all add: run_good_def K(4)\<close>)
  then show ?thesis using A(1) B(1) by (auto simp: f)
qed

text \<open>Row 1 of the example, marked as row 0 of the list.\<close>

theorem cpu_buffer_equivalent_witness:
  "\<exists>pc1 pc2 out'. read_feature gather_pc warp_arr (\<lambda>_. 0) gather_fa [gather_run] = Some (pc1, out') \<and>
    read_feature_with_cpu (set_cpu_buffer_marks 0 (\<lambda>_. 1) 1 [0] gather_pc) warp_arr 0
      \<lparr>device_cpu_buffer = (\<lambda>x. 1000 + unat x), cpu_buffer_len = 100\<rparr> False ((\<lambda>_. 0), 0) gather_fa [gather_run] = Some (pc2, out', 1)"
proof -
  let ?buf = "\<lparr>device_cpu_buffer = (\<lambda>x. 1000 + unat x), cpu_buffer_len = 100\<rparr>"
  have two: "t < 2 \<longleftrightarrow> t = 0 \<or> t = 1" for t :: nat by auto
  have one: "p < 1 \<longleftrightarrow> p = 0" for p :: u32 by (simp add: word_less_nat_alt unat_eq_0)
  have dims: "fa_dim gather_fa = 2" "fa_cache_dim gather_fa = 64" by (simp_all add: gather_fa_def)
  have w: "\<forall>(w, smid, perms) \<in> set [gather_run]. run_ok warp_arr gather_fa (w, smid, perms) \<and>
      (idx_idx w < fa_num_idx gather_fa \<longrightarrow> in_dom gather_pc 0 (row_index gather_fa w))"
    using gather_example(4,9,10) by (simp add: gather_run_def)
  have z: "\<forall>row. in_dom gather_pc 0 row \<longrightarrow> get_cpu_offset gather_pc 0 row = 0"
    by (simp add: get_cpu_offset_def gather_pc_def warp_pc_def witness_page_def)
  have e: "\<forall>p < (1 :: u32). \<forall>t < fa_dim gather_fa. elem_view gather_pc warp_arr (1 * of_nat (fa_cache_dim gather_fa) + of_nat t) =
      Some (device_cpu_buffer ?buf (of_nat (unat p * fa_cache_dim gather_fa + t)))"
    using gather_example(5,6) by (auto simp: dims two one)
  obtain pc1 pc2 out' m where r: "read_feature gather_pc warp_arr (\<lambda>_. 0) gather_fa [gather_run] = Some (pc1, out')"
    "read_feature_with_cpu (set_cpu_buffer_marks 0 (\<lambda>_. 1) 1 [0] gather_pc) warp_arr 0 ?buf False ((\<lambda>_. 0), 0) gather_fa [gather_run] = Some (pc2, out', m)"
    "m = 0 + of_nat (length (filter (\<lambda>(w, smid, perms). idx_idx w < fa_num_idx gather_fa \<and> (\<exists>p < (1 :: u32). (1 :: u64) = row_index gather_fa w)) [gather_run]))"
    using cpu_buffer_equivalent [OF gather_example(1-3) _ w z, of 1 "[0]" "\<lambda>_. 1" ?buf "\<lambda>_. 0" 0] e one by (auto simp: dims)
  have m: "m = 1" unfolding r(3) using gather_example(7,10) one by (auto simp: gather_run_def)
  show ?thesis using r(1,2) unfolding m by blast
qed

text \<open>C38: Rows of the buffer collide.  The place of a row in the buffer is a product of 32 bits: a row whose position
  times the row length reaches \<open>2 ^ 32\<close> is read from the beginning of the buffer again.\<close>

theorem cpu_row_wraps:
  assumes "unat position < 2 ^ 31"
  shows "cpu_row (set_cpu_buffer pc r row position) r fa buf False row =
    Some (of_nat ((unat position * fa_cache_dim fa) mod 2 ^ 32))"
  by (rule place_word [OF _ assms]) (simp add: get_cpu_offset_def set_cpu_buffer_def upd_page_def)

theorem cpu_row_wraps_witness:
  "cpu_row (set_cpu_buffer warp_pc 0 7 0x400000) 0 \<lparr>fa_index = (\<lambda>_. 7), fa_dim = 1024, fa_num_idx = 1, fa_cache_dim = 1024, fa_key_off = 0\<rparr>
     (\<lparr>device_cpu_buffer = (\<lambda>_. 0), cpu_buffer_len = 0\<rparr> :: nat cpu_buffer) False 7 = Some 0"
proof -
  have u: "unat (0x400000 :: u32) = 0x400000" by simp
  have "unat (0x400000 :: u32) < 2 ^ 31" by simp
  from cpu_row_wraps [OF this, of warp_pc 0 7 "\<lparr>fa_index = (\<lambda>_. 7), fa_dim = 1024, fa_num_idx = 1, fa_cache_dim = 1024, fa_key_off = 0\<rparr>" "\<lparr>device_cpu_buffer = (\<lambda>_. 0), cpu_buffer_len = 0\<rparr>"]
  show ?thesis unfolding u by simp
qed

end
