(* ===== verification/Gids_Async.thy ===== *)
theory Gids_Async
  imports Gids_Kernel
begin

text \<open>
  The asynchronous reading of features: the array functions that submit a page, wait for it, poll it and look
  at it afterwards (\<open>include/page_cache.h\<close>), the methods of \<open>bam_ptr\<close> over them, and the kernels of
  \<open>gids_kernel.cu\<close> that use them.  Between the kernels the state of a transfer is in a context in device memory;
  the contexts of a warp are shared by its lanes.
\<close>

section \<open>Contexts\<close>

text \<open>The fields of \<open>s_ctx\<close> that the array functions use, around those of the page cache.\<close>

record row_ctx =
  rx_ctx :: s_ctx
  rx_r :: "nat option"
  rx_page :: u64
  rx_eq_mask :: u32
  rx_master :: nat
  rx_count :: u32
  rx_base_master :: u64
  rx_ctrl :: u32
  rx_queue :: u32

text \<open>A context that \<open>cudaMemset\<close> has cleared.\<close>

definition ctx_cleared :: row_ctx where
  "ctx_cleared = \<lparr>rx_ctx = \<lparr>cx_cid = 0, cx_has_pending_io = 0, cx_cmd = \<lparr>dword = replicate 16 0\<rparr>, cx_page_trans = 0, cx_member_acquire_ctrl = 0,
     cx_observed_page_translation = 0, cx_isHit = False\<rparr>, rx_r = Some 0, rx_page = 0, rx_eq_mask = 0, rx_master = 0, rx_count = 0,
     rx_base_master = 0, rx_ctrl = 0, rx_queue = 0\<rparr>"

section \<open>Arrays\<close>

text \<open>The masters submit their pages, one after the other, into the context of the warp.\<close>

fun coalesce_submit ::
  "u32 \<Rightarrow> (nat \<Rightarrow> lane_t) \<Rightarrow> bool \<Rightarrow> u32 \<Rightarrow> nat list \<Rightarrow> 'b async_cache \<Rightarrow> (nat \<Rightarrow> u64) \<Rightarrow> row_ctx \<Rightarrow>
   ('b async_cache \<times> (nat \<Rightarrow> u64) \<times> row_ctx) option"
where
  "coalesce_submit msk L write queue [] ac base ctx = Some (ac, base, ctx)"
| "coalesce_submit msk L write queue (l # ls) ac base ctx =
     (if master_of msk L l = l then
        (case acquire_page_submit_async ac (ln_rng (L l)) (ln_page (L l)) (count_of msk L l) write queue (rx_ctx ctx) of
           None \<Rightarrow> None
         | Some (ac1, c1, b) \<Rightarrow>
             coalesce_submit msk L write queue ls ac1 (base(l := b)) (ctx\<lparr>rx_ctx := c1, rx_page := ln_page (L l)\<rparr>))
      else coalesce_submit msk L write queue ls ac base ctx)"

definition coalesce_page_submit_async ::
  "'b async_cache \<Rightarrow> u32 \<Rightarrow> (nat \<Rightarrow> lane_t) \<Rightarrow> bool \<Rightarrow> u32 \<Rightarrow> nat list \<Rightarrow> row_ctx \<Rightarrow> ('b async_cache \<times> (nat \<Rightarrow> u64) \<times> row_ctx) option"
where
  "coalesce_page_submit_async ac msk L write smid order ctx =
     (let queue = smid mod pc_n_qps (ac_pc ac) 0;
          ctx1 = (if msk = 0 then ctx else ctx\<lparr>rx_ctrl := 0, rx_queue := queue\<rparr>)
      in case coalesce_submit msk L write queue (filter (bit msk) order) ac (\<lambda>_. 0) ctx1 of
           None \<Rightarrow> None
         | Some (ac1, base, ctx2) \<Rightarrow> Some (ac1, \<lambda>l. base (master_of msk L l), ctx2))"

text \<open>What the lanes store in the context before and after, in the order in which they do it.\<close>

definition note_ranges :: "array_d_t \<Rightarrow> (nat \<Rightarrow> u64) \<Rightarrow> nat list \<Rightarrow> row_ctx \<Rightarrow> row_ctx" where
  "note_ranges arr idx ls ctx = foldl (\<lambda>c l. c\<lparr>rx_r := find_range arr (idx l)\<rparr>) ctx ls"

definition note_lanes :: "u32 \<Rightarrow> (nat \<Rightarrow> lane_t) \<Rightarrow> (nat \<Rightarrow> u64) \<Rightarrow> nat list \<Rightarrow> row_ctx \<Rightarrow> row_ctx" where
  "note_lanes msk L base ls ctx =
     foldl (\<lambda>c l. c\<lparr>rx_eq_mask := eq_mask_of msk L l, rx_master := master_of msk L l, rx_count := count_of msk L l, rx_base_master := base l\<rparr>) ctx ls"

text \<open>The reference to a page: position \<open>pos\<close> in \<open>pages\<close>, page number, address.\<close>

definition page_ref_of :: "array_d_t \<Rightarrow> nat \<Rightarrow> u64 \<Rightarrow> u64 \<Rightarrow> u64 option \<Rightarrow> page_ref" where
  "page_ref_of arr r pos page addr =
     (let rng = ad_ranges arr ! r; start = rd_n_elems_per_page rng * page
      in \<lparr>pr_page = Some (rd_range_id rng, pos), pr_start = start, pr_end = start + rd_n_elems_per_page rng, pr_range = Some r, pr_addr = addr\<rparr>)"

definition no_page_ref :: "page_ref \<Rightarrow> page_ref" where
  "no_page_ref old = old\<lparr>pr_page := None, pr_range := None, pr_addr := None\<rparr>"

definition array_acquire_page_submit_async ::
  "'b async_cache \<Rightarrow> array_d_t \<Rightarrow> u32 \<Rightarrow> (nat \<Rightarrow> u64) \<Rightarrow> u32 \<Rightarrow> schedule \<Rightarrow> row_ctx \<Rightarrow> (nat \<Rightarrow> page_ref) \<Rightarrow>
   ('b async_cache \<times> row_ctx \<times> (nat \<Rightarrow> page_ref)) option"
where
  "array_acquire_page_submit_async ac arr msk0 idx smid sd ctx old =
     (let msk = found_mask arr msk0 idx; L = (\<lambda>l. array_lane (ac_pc ac) arr (idx l));
          ctx0 = note_ranges arr idx (filter (bit msk0) (sd_access sd)) ctx
      in case coalesce_page_submit_async ac msk L False smid (sd_acquire sd) ctx0 of
           None \<Rightarrow> None
         | Some (ac1, base, ctx1) \<Rightarrow>
             (let ctx2 = note_lanes msk L base (filter (bit msk) (sd_access sd)) ctx1
              in Some (ac1, ctx2, \<lambda>l.
                (case find_range arr (idx l) of
                   None \<Rightarrow> no_page_ref (old l)
                 | Some r \<Rightarrow> page_ref_of arr r (base l) (ln_page (L l))
                     (if cx_isHit (rx_ctx ctx2) then Some (get_cache_page_addr (ac_pc ac1) (ucast (base l))) else None)))))"

fun coalesce_wait ::
  "u32 \<Rightarrow> (nat \<Rightarrow> lane_t) \<Rightarrow> bool \<Rightarrow> u32 \<Rightarrow> nat list \<Rightarrow> 'b async_cache \<Rightarrow> (nat \<Rightarrow> u64) \<Rightarrow> s_ctx \<Rightarrow> ('b async_cache \<times> (nat \<Rightarrow> u64) \<times> s_ctx) option"
where
  "coalesce_wait msk L write queue [] ac base ctx = Some (ac, base, ctx)"
| "coalesce_wait msk L write queue (l # ls) ac base ctx =
     (if master_of msk L l = l then
        (case acquire_page_wait_async ac (ln_rng (L l)) (ln_page (L l)) (count_of msk L l) write queue ctx of
           None \<Rightarrow> None
         | Some (ac1, c1, b) \<Rightarrow> coalesce_wait msk L write queue ls ac1 (base(l := b)) c1)
      else coalesce_wait msk L write queue ls ac base ctx)"

definition coalesce_page_wait_async ::
  "'b async_cache \<Rightarrow> u32 \<Rightarrow> (nat \<Rightarrow> lane_t) \<Rightarrow> bool \<Rightarrow> nat list \<Rightarrow> row_ctx \<Rightarrow> ('b async_cache \<times> (nat \<Rightarrow> u64) \<times> row_ctx) option"
where
  "coalesce_page_wait_async ac msk L write order ctx =
     (case coalesce_wait msk L write (rx_queue ctx) (filter (bit msk) order) ac (\<lambda>_. rx_base_master ctx) (rx_ctx ctx) of
        None \<Rightarrow> None
      | Some (ac1, base, c1) \<Rightarrow> Some (ac1, \<lambda>l. base (master_of msk L l), ctx\<lparr>rx_ctx := c1\<rparr>))"

definition array_acquire_page_wait_async ::
  "'b async_cache \<Rightarrow> array_d_t \<Rightarrow> u32 \<Rightarrow> (nat \<Rightarrow> u64) \<Rightarrow> schedule \<Rightarrow> row_ctx \<Rightarrow> (nat \<Rightarrow> page_ref) \<Rightarrow>
   ('b async_cache \<times> row_ctx \<times> (nat \<Rightarrow> page_ref)) option"
where
  "array_acquire_page_wait_async ac arr msk0 idx sd ctx old =
     (let msk = found_mask arr msk0 idx; L = (\<lambda>l. array_lane (ac_pc ac) arr (idx l)) in
      case coalesce_page_wait_async ac msk L False (sd_acquire sd) ctx of
        None \<Rightarrow> None
      | Some (ac1, base, ctx1) \<Rightarrow>
          Some (ac1, foldl (\<lambda>c l. c\<lparr>rx_base_master := base l\<rparr>) ctx1 (filter (bit msk) (sd_access sd)), \<lambda>l.
            (case find_range arr (idx l) of
               None \<Rightarrow> no_page_ref (old l)
             | Some r \<Rightarrow> page_ref_of arr r (base l) (ln_page (L l)) (Some (get_cache_page_addr (ac_pc ac1) (ucast (base l)))))))"

text \<open>One thread waits, with the count that the submission has stored.\<close>

definition single_thread_wait ::
  "'b async_cache \<Rightarrow> lane_t \<Rightarrow> u32 \<Rightarrow> row_ctx \<Rightarrow> ('b async_cache \<times> u64 \<times> row_ctx) option"
where
  "single_thread_wait ac ln count ctx =
     (case acquire_page_wait_async ac (ln_rng ln) (ln_page ln) count False (rx_queue ctx) (rx_ctx ctx) of
        None \<Rightarrow> None
      | Some (ac1, c1, base) \<Rightarrow> Some (ac1, base, ctx\<lparr>rx_ctx := c1\<rparr>))"

definition acquire_page_single_thread_poll ::
  "'b async_cache \<Rightarrow> array_d_t \<Rightarrow> u64 \<Rightarrow> row_ctx \<Rightarrow> page_ref \<Rightarrow> ('b async_cache \<times> row_ctx \<times> page_ref) option"
where
  "acquire_page_single_thread_poll ac arr i ctx old =
     (case find_range arr i of
        None \<Rightarrow> Some (ac, ctx, no_page_ref old)
      | Some r \<Rightarrow>
          (let ln = array_lane (ac_pc ac) arr i in
           case single_thread_wait ac ln (rx_count ctx) ctx of
             None \<Rightarrow> None
           | Some (ac1, base, ctx1) \<Rightarrow>
               Some (ac1, ctx1\<lparr>rx_base_master := base\<rparr>,
                     page_ref_of arr r base (ln_page ln) (Some (get_cache_page_addr (ac_pc ac1) (ucast base))))))"

definition acquire_page_single_thread_try_poll ::
  "'b async_cache \<Rightarrow> array_d_t \<Rightarrow> u64 \<Rightarrow> row_ctx \<Rightarrow> page_ref \<Rightarrow> 'b async_cache \<times> row_ctx \<times> page_ref"
where
  "acquire_page_single_thread_try_poll ac arr i ctx old =
     (case find_range arr i of
        None \<Rightarrow> (ac, ctx, no_page_ref old)
      | Some r \<Rightarrow>
          (let ln = array_lane (ac_pc ac) arr i in
           case acquire_page_try_wait_async ac (ln_rng ln) (ln_page ln) (rx_count ctx) False (rx_queue ctx) (rx_ctx ctx) of
             (ac1, c1, None) \<Rightarrow> (ac1, ctx\<lparr>rx_ctx := c1\<rparr>, old\<lparr>pr_page := None, pr_range := Some r, pr_addr := None\<rparr>)
           | (ac1, c1, Some page_trans) \<Rightarrow>
               (ac1, ctx\<lparr>rx_ctx := c1, rx_base_master := page_trans\<rparr>,
                page_ref_of arr r page_trans (ln_page ln) (Some (get_cache_page_addr (ac_pc ac1) (ucast page_trans))))))"

text \<open>After the poll: the reference is made from the context alone.\<close>

definition acquire_page_post_poll_light :: "'b page_cache \<Rightarrow> array_d_t \<Rightarrow> u64 \<Rightarrow> row_ctx \<Rightarrow> page_ref \<Rightarrow> page_ref" where
  "acquire_page_post_poll_light pc arr i ctx old =
     (case find_range arr i of
        None \<Rightarrow> no_page_ref old
      | Some r \<Rightarrow>
          (let page = ln_page (array_lane pc arr i); page_trans = cx_page_trans (rx_ctx ctx) in
           if page_trans = ASYNC_PAGE_TRANS_PENDING \<or> ucast page_trans \<ge> pc_n_pages pc
           then old\<lparr>pr_page := None, pr_range := Some r, pr_addr := None\<rparr>
           else page_ref_of arr r page page (Some (get_cache_page_addr pc page_trans))))"

section \<open>Pointers\<close>

text \<open>\<open>fini(false)\<close> only forgets the page.\<close>

definition bp_update_page_submit_async ::
  "'b async_cache \<Rightarrow> array_d_t \<Rightarrow> u32 \<Rightarrow> (nat \<Rightarrow> bam_ptr) \<Rightarrow> (nat \<Rightarrow> u64) \<Rightarrow> u32 \<Rightarrow> schedule \<Rightarrow> row_ctx \<Rightarrow>
   ('b async_cache \<times> (nat \<Rightarrow> bam_ptr) \<times> row_ctx) option"
where
  "bp_update_page_submit_async ac arr msk ps idx smid sd ctx =
     (let (pc1, ps1) = bp_fini_if (\<lambda>_. False) (ac_pc ac) arr msk ps [] in
      case array_acquire_page_submit_async (ac\<lparr>ac_pc := pc1\<rparr>) arr msk idx smid sd ctx (\<lambda>l. ref_of (ps1 l)) of
        None \<Rightarrow> None
      | Some (ac2, ctx2, ref) \<Rightarrow> Some (ac2, \<lambda>l. if bit msk l then set_ref (ps1 l) (ref l) else ps1 l, ctx2))"

definition bp_read_submit_async ::
  "'b async_cache \<Rightarrow> array_d_t \<Rightarrow> u32 \<Rightarrow> (nat \<Rightarrow> bam_ptr) \<Rightarrow> (nat \<Rightarrow> u64) \<Rightarrow> u32 \<Rightarrow> schedule \<Rightarrow> row_ctx \<Rightarrow>
   ('b async_cache \<times> (nat \<Rightarrow> bam_ptr) \<times> row_ctx) option"
where
  "bp_read_submit_async ac arr msk ps idx smid sd ctx =
     (let need = bp_need msk ps idx in
      if need = 0 then Some (ac, ps, ctx) else bp_update_page_submit_async ac arr need ps idx smid sd ctx)"

definition bp_update_page_wait_async ::
  "'b async_cache \<Rightarrow> array_d_t \<Rightarrow> u32 \<Rightarrow> (nat \<Rightarrow> bam_ptr) \<Rightarrow> (nat \<Rightarrow> u64) \<Rightarrow> schedule \<Rightarrow> row_ctx \<Rightarrow>
   ('b async_cache \<times> (nat \<Rightarrow> bam_ptr) \<times> row_ctx) option"
where
  "bp_update_page_wait_async ac arr msk ps idx sd ctx =
     (case array_acquire_page_wait_async ac arr msk idx sd ctx (\<lambda>l. ref_of (ps l)) of
        None \<Rightarrow> None
      | Some (ac1, ctx1, ref) \<Rightarrow> Some (ac1, \<lambda>l. if bit msk l then set_ref (ps l) (ref l) else ps l, ctx1))"

text \<open>\<open>read_wait_async\<close>, which \<open>read_single_thread_get\<close> repeats; a lane with a null address faults.\<close>

definition bp_read_wait_async ::
  "(nat \<Rightarrow> 't) async_cache \<Rightarrow> array_d_t \<Rightarrow> u32 \<Rightarrow> (nat \<Rightarrow> bam_ptr) \<Rightarrow> (nat \<Rightarrow> u64) \<Rightarrow> schedule \<Rightarrow> row_ctx \<Rightarrow>
   ((nat \<Rightarrow> 't) async_cache \<times> (nat \<Rightarrow> bam_ptr) \<times> row_ctx \<times> (nat \<Rightarrow> 't)) option"
where
  "bp_read_wait_async ac arr msk ps idx sd ctx =
     (case bp_update_page_wait_async ac arr msk ps idx sd ctx of
        None \<Rightarrow> None
      | Some (ac1, ps1, ctx1) \<Rightarrow>
          if list_ex (\<lambda>l. bp_addr (ps1 l) = None) (active_lanes msk) then None
          else Some (ac1, ps1, ctx1, \<lambda>l. load_T (ac_pc ac1) (ad_sizeof_T arr) (bp_elem arr (ps1 l) (idx l))))"

text \<open>The methods of one thread: \<open>read_single_thread_poll\<close>, \<open>read_single_thread_try_poll\<close> and \<open>read_post_poll_light\<close>.\<close>

definition bp_read_single_thread_poll ::
  "(nat \<Rightarrow> 't) async_cache \<Rightarrow> array_d_t \<Rightarrow> bam_ptr \<Rightarrow> u64 \<Rightarrow> row_ctx \<Rightarrow> ((nat \<Rightarrow> 't) async_cache \<times> bam_ptr \<times> row_ctx \<times> 't) option"
where
  "bp_read_single_thread_poll ac arr p i ctx =
     (case acquire_page_single_thread_poll ac arr i ctx (ref_of p) of
        None \<Rightarrow> None
      | Some (ac1, ctx1, ref) \<Rightarrow>
          (let p1 = set_ref p ref in
           if bp_addr p1 = None then None
           else Some (ac1, p1, ctx1, load_T (ac_pc ac1) (ad_sizeof_T arr) (bp_elem arr p1 i))))"

definition bp_read_single_thread_try_poll ::
  "'b async_cache \<Rightarrow> array_d_t \<Rightarrow> bam_ptr \<Rightarrow> u64 \<Rightarrow> row_ctx \<Rightarrow> 'b async_cache \<times> bam_ptr \<times> row_ctx \<times> bool"
where
  "bp_read_single_thread_try_poll ac arr p i ctx =
     (case acquire_page_single_thread_try_poll ac arr i ctx (ref_of p) of
        (ac1, ctx1, ref) \<Rightarrow> (ac1, set_ref p ref, ctx1, pr_addr ref \<noteq> None))"

definition bp_update_page_post_poll_light :: "'b page_cache \<Rightarrow> array_d_t \<Rightarrow> bam_ptr \<Rightarrow> u64 \<Rightarrow> row_ctx \<Rightarrow> bam_ptr" where
  "bp_update_page_post_poll_light pc arr p i ctx = set_ref p (acquire_page_post_poll_light pc arr i ctx (ref_of p))"

definition bp_read_post_poll_light ::
  "(nat \<Rightarrow> 't) page_cache \<Rightarrow> array_d_t \<Rightarrow> bam_ptr \<Rightarrow> u64 \<Rightarrow> row_ctx \<Rightarrow> (bam_ptr \<times> 't) option"
where
  "bp_read_post_poll_light pc arr p i ctx =
     (let p1 = (if i < bp_start p \<or> i \<ge> bp_end p then bp_update_page_post_poll_light pc arr p i ctx else p) in
      if bp_addr p1 = None then None else Some (p1, load_T pc (ad_sizeof_T arr) (bp_elem arr p1 i)))"

section \<open>Kernels with contexts for every pass of a warp\<close>

text \<open>The cache and the contexts in device memory.\<close>

type_synonym 't ctx_dev = "(nat \<Rightarrow> 't) async_cache \<times> (int \<Rightarrow> row_ctx)"

text \<open>The context of pass \<open>j\<close> of a row (\<open>d_warp_ctxs + idx_idx * 32 + loop_idx\<close>), and the destructors.\<close>

definition warp_ctx :: "int \<Rightarrow> u64 \<Rightarrow> nat \<Rightarrow> int" where
  "warp_ctx d_warp_ctxs w j = d_warp_ctxs + idx_idx w * 32 + int j"

definition delete_ptrs :: "array_d_t \<Rightarrow> nat list \<Rightarrow> 'b async_cache \<Rightarrow> (nat \<Rightarrow> bam_ptr) \<Rightarrow> 'b async_cache" where
  "delete_ptrs arr order ac ps =
     ac\<lparr>ac_pc := fst (bam_ptr_delete (ac_pc ac) arr (-1) ps (filter (\<lambda>l. bp_page (ps l) \<noteq> None \<and> bp_is_subRef (ps l)) order))\<rparr>"

fun submit_passes ::
  "array_d_t \<Rightarrow> feature_args \<Rightarrow> int \<Rightarrow> u64 \<Rightarrow> u32 \<Rightarrow> (nat \<Rightarrow> schedule) \<Rightarrow> nat list \<Rightarrow> 't ctx_dev \<Rightarrow> (nat \<Rightarrow> bam_ptr) \<Rightarrow> 't ctx_dev option"
where
  "submit_passes arr fa ctxs w smid perms [] (ac, m) ps = Some (ac, m)"
| "submit_passes arr fa ctxs w smid perms (j # js) (ac, m) ps =
     (case bp_read_submit_async ac arr (loop_mask fa j) ps (\<lambda>l. feature_index fa w (32 * j + l)) smid (perms j) (m (warp_ctx ctxs w j)) of
        None \<Rightarrow> None
      | Some (ac1, ps1, ctx1) \<Rightarrow> submit_passes arr fa ctxs w smid perms js (ac1, m(warp_ctx ctxs w j := ctx1)) ps1)"

definition read_feature_kernel_submit_async ::
  "array_d_t \<Rightarrow> feature_args \<Rightarrow> int \<Rightarrow> u64 \<Rightarrow> u32 \<Rightarrow> (nat \<Rightarrow> schedule) \<Rightarrow> 't ctx_dev \<Rightarrow> 't ctx_dev option"
where
  "read_feature_kernel_submit_async arr fa ctxs w smid perms d =
     (if idx_idx w < fa_num_idx fa then submit_passes arr fa ctxs w smid perms [0..<passes fa] d (\<lambda>_. bam_ptr_new False) else Some d)"

text \<open>The wait kernel; \<open>read_feature_kernel_get_feature\<close> has the same loop.\<close>

fun wait_passes ::
  "array_d_t \<Rightarrow> feature_args \<Rightarrow> int \<Rightarrow> u64 \<Rightarrow> (nat \<Rightarrow> schedule) \<Rightarrow> nat list \<Rightarrow> 't ctx_dev \<Rightarrow> (nat \<Rightarrow> bam_ptr) \<Rightarrow> (u64 \<Rightarrow> 't) \<Rightarrow>
   ('t ctx_dev \<times> (nat \<Rightarrow> bam_ptr) \<times> (u64 \<Rightarrow> 't)) option"
where
  "wait_passes arr fa ctxs w perms [] d ps out = Some (d, ps, out)"
| "wait_passes arr fa ctxs w perms (j # js) (ac, m) ps out =
     (case bp_read_wait_async ac arr (loop_mask fa j) ps (\<lambda>l. feature_index fa w (32 * j + l)) (perms j) (m (warp_ctx ctxs w j)) of
        None \<Rightarrow> None
      | Some (ac1, ps1, ctx1, val) \<Rightarrow>
          wait_passes arr fa ctxs w perms js (ac1, m(warp_ctx ctxs w j := ctx1)) ps1
            (foldl (\<lambda>o' l. o'(out_index fa w (32 * j + l) := val l)) out (active_lanes (loop_mask fa j))))"

definition read_feature_kernel_wait_async ::
  "array_d_t \<Rightarrow> feature_args \<Rightarrow> int \<Rightarrow> u64 \<Rightarrow> (nat \<Rightarrow> schedule) \<Rightarrow> 't ctx_dev \<Rightarrow> (u64 \<Rightarrow> 't) \<Rightarrow> ('t ctx_dev \<times> (u64 \<Rightarrow> 't)) option"
where
  "read_feature_kernel_wait_async arr fa ctxs w perms d out =
     (if idx_idx w < fa_num_idx fa then
        (case wait_passes arr fa ctxs w perms [0..<passes fa] d (\<lambda>_. bam_ptr_new True) out of
           None \<Rightarrow> None
         | Some ((ac1, m1), ps1, out1) \<Rightarrow> Some ((delete_ptrs arr (sd_release (perms (passes fa))) ac1 ps1, m1), out1))
      else Some (d, out))"

text \<open>
  One thread polls for every page of a row: chunk \<open>k\<close> of 32 elements is polled when it is the first one or lies
  in another range or on another page than the chunk before.
\<close>

definition is_page_owner :: "'b page_cache \<Rightarrow> array_d_t \<Rightarrow> u64 \<Rightarrow> nat \<Rightarrow> bool" where
  "is_page_owner pc arr i k \<longleftrightarrow>
     k = 0 \<or> find_range arr (i - 32) = None \<or> find_range arr (i - 32) \<noteq> find_range arr i \<or>
     ln_page (array_lane pc arr (i - 32)) \<noteq> ln_page (array_lane pc arr i)"

fun poll_chunks ::
  "array_d_t \<Rightarrow> feature_args \<Rightarrow> int \<Rightarrow> u64 \<Rightarrow> nat list \<Rightarrow> 't ctx_dev \<Rightarrow> bam_ptr \<Rightarrow> 't ctx_dev option"
where
  "poll_chunks arr fa ctxs w [] d p = Some d"
| "poll_chunks arr fa ctxs w (k # ks) (ac, m) p =
     (let i = feature_index fa w (32 * k) in
      if find_range arr i \<noteq> None \<and> is_page_owner (ac_pc ac) arr i k then
        (case bp_read_single_thread_poll ac arr p i (m (warp_ctx ctxs w k)) of
           None \<Rightarrow> None
         | Some (ac1, p1, ctx1, _) \<Rightarrow> poll_chunks arr fa ctxs w ks (ac1, m(warp_ctx ctxs w k := ctx1)) p1)
      else poll_chunks arr fa ctxs w ks (ac, m) p)"

text \<open>The lanes of the warp run in the order given; lane \<open>l\<close> takes the chunks \<open>l\<close>, \<open>l + 32\<close>, \<open>\<dots>\<close>.\<close>

fun poll_lanes :: "array_d_t \<Rightarrow> feature_args \<Rightarrow> int \<Rightarrow> u64 \<Rightarrow> nat list \<Rightarrow> 't ctx_dev \<Rightarrow> 't ctx_dev option" where
  "poll_lanes arr fa ctxs w [] d = Some d"
| "poll_lanes arr fa ctxs w (l # ls) d =
     (case poll_chunks arr fa ctxs w (filter (\<lambda>k. k mod 32 = l) [0..<passes fa]) d (bam_ptr_new False) of
        None \<Rightarrow> None
      | Some d1 \<Rightarrow> poll_lanes arr fa ctxs w ls d1)"

definition read_feature_kernel_single_thread_poll ::
  "array_d_t \<Rightarrow> feature_args \<Rightarrow> int \<Rightarrow> u64 \<Rightarrow> nat list \<Rightarrow> 't ctx_dev \<Rightarrow> 't ctx_dev option"
where
  "read_feature_kernel_single_thread_poll arr fa ctxs w order d =
     (if idx_idx w < fa_num_idx fa then poll_lanes arr fa ctxs w order d else Some d)"

text \<open>One thread for a row that lies on one page: the row of thread \<open>t\<close>, with its contexts \<open>stride\<close> apart.\<close>

definition single_page_poll :: "int \<Rightarrow> array_d_t \<Rightarrow> feature_args \<Rightarrow> int \<Rightarrow> u32 \<Rightarrow> 't ctx_dev \<Rightarrow> 't ctx_dev option" where
  "single_page_poll stride arr fa ctxs t d =
     (let (ac, m) = d; p = ctxs + uint t * stride;
          i = (fa_index fa (uint t) + fa_key_off fa) * of_nat (fa_cache_dim fa)
      in case bp_read_single_thread_poll ac arr (bam_ptr_new False) i (m p) of
           None \<Rightarrow> None
         | Some (ac1, _, ctx1, _) \<Rightarrow> Some (ac1, m(p := ctx1)))"

definition read_feature_kernel_single_page_single_thread_poll ::
  "array_d_t \<Rightarrow> feature_args \<Rightarrow> int \<Rightarrow> u32 \<Rightarrow> 't ctx_dev \<Rightarrow> 't ctx_dev option"
where
  "read_feature_kernel_single_page_single_thread_poll arr fa ctxs t d =
     (if uint t < fa_num_idx fa then single_page_poll 32 arr fa ctxs t d else Some d)"

definition read_feature_kernel_single_page_single_thread_poll_rowctx ::
  "array_d_t \<Rightarrow> feature_args \<Rightarrow> int \<Rightarrow> u32 \<Rightarrow> 't ctx_dev \<Rightarrow> 't ctx_dev option"
where
  "read_feature_kernel_single_page_single_thread_poll_rowctx arr fa ctxs t d =
     (if t < word_of_int (fa_num_idx fa) then single_page_poll 1 arr fa ctxs t d else Some d)"

text \<open>The lanes of a warp take their elements from pages that have been polled.\<close>

fun light_passes ::
  "(nat \<Rightarrow> 't) page_cache \<Rightarrow> array_d_t \<Rightarrow> feature_args \<Rightarrow> int \<Rightarrow> u64 \<Rightarrow> nat \<Rightarrow> nat list \<Rightarrow> (int \<Rightarrow> row_ctx) \<Rightarrow> bam_ptr \<Rightarrow> (u64 \<Rightarrow> 't) \<Rightarrow>
   (bam_ptr \<times> (u64 \<Rightarrow> 't)) option"
where
  "light_passes pc arr fa ctxs w l [] m p out = Some (p, out)"
| "light_passes pc arr fa ctxs w l (j # js) m p out =
     (case bp_read_post_poll_light pc arr p (feature_index fa w (32 * j + l)) (m (warp_ctx ctxs w j)) of
        None \<Rightarrow> None
      | Some (p1, v) \<Rightarrow> light_passes pc arr fa ctxs w l js m p1 (out(out_index fa w (32 * j + l) := v)))"

fun light_lanes ::
  "(nat \<Rightarrow> 't) page_cache \<Rightarrow> array_d_t \<Rightarrow> feature_args \<Rightarrow> int \<Rightarrow> u64 \<Rightarrow> nat list \<Rightarrow> (int \<Rightarrow> row_ctx) \<Rightarrow> (nat \<Rightarrow> bam_ptr) \<Rightarrow> (u64 \<Rightarrow> 't) \<Rightarrow>
   ((nat \<Rightarrow> bam_ptr) \<times> (u64 \<Rightarrow> 't)) option"
where
  "light_lanes pc arr fa ctxs w [] m ps out = Some (ps, out)"
| "light_lanes pc arr fa ctxs w (l # ls) m ps out =
     (case light_passes pc arr fa ctxs w l (filter (\<lambda>j. 32 * j + l < fa_dim fa) [0..<passes fa]) m (ps l) out of
        None \<Rightarrow> None
      | Some (p1, out1) \<Rightarrow> light_lanes pc arr fa ctxs w ls m (ps(l := p1)) out1)"

definition read_feature_kernel_get_feature_light ::
  "array_d_t \<Rightarrow> feature_args \<Rightarrow> int \<Rightarrow> u64 \<Rightarrow> schedule \<Rightarrow> 't ctx_dev \<Rightarrow> (u64 \<Rightarrow> 't) \<Rightarrow> ('t ctx_dev \<times> (u64 \<Rightarrow> 't)) option"
where
  "read_feature_kernel_get_feature_light arr fa ctxs w sd d out =
     (if idx_idx w < fa_num_idx fa then
        (case light_lanes (ac_pc (fst d)) arr fa ctxs w (sd_access sd) (snd d) (\<lambda>_. bam_ptr_new True) out of
           None \<Rightarrow> None
         | Some (ps1, out1) \<Rightarrow> Some ((delete_ptrs arr (sd_release sd) (fst d) ps1, snd d), out1))
      else Some (d, out))"

section \<open>Kernels with one context for every row\<close>

text \<open>Lane 0 of every warp submits the page of the first element of its row.\<close>

definition lane0 :: schedule where
  "lane0 = \<lparr>sd_acquire = [0], sd_access = [0], sd_release = [0]\<rparr>"

definition read_feature_kernel_submit_async_rowctx ::
  "array_d_t \<Rightarrow> feature_args \<Rightarrow> int \<Rightarrow> u64 \<Rightarrow> u32 \<Rightarrow> 't ctx_dev \<Rightarrow> 't ctx_dev option"
where
  "read_feature_kernel_submit_async_rowctx arr fa ctxs w smid d =
     (if idx_idx w \<ge> fa_num_idx fa then Some d
      else (let (ac, m) = d; p = ctxs + idx_idx w in
        case bp_read_submit_async ac arr 1 (\<lambda>_. bam_ptr_new False) (\<lambda>_. feature_index fa w 0) smid lane0 (m p) of
          None \<Rightarrow> None
        | Some (ac1, _, ctx1) \<Rightarrow> Some (ac1, m(p := ctx1))))"

text \<open>Lane 0 makes the reference, all lanes copy through it, and the pointer of lane 0 gives the page back.\<close>

definition read_feature_kernel_get_feature_light_rowctx ::
  "array_d_t \<Rightarrow> feature_args \<Rightarrow> int \<Rightarrow> u64 \<Rightarrow> 't ctx_dev \<Rightarrow> (u64 \<Rightarrow> 't) \<Rightarrow> ('t ctx_dev \<times> (u64 \<Rightarrow> 't))"
where
  "read_feature_kernel_get_feature_light_rowctx arr fa ctxs w d out =
     (if idx_idx w \<ge> fa_num_idx fa then (d, out)
      else (let (ac, m) = d;
                p = bp_update_page_post_poll_light (ac_pc ac) arr (bam_ptr_new True) (feature_index fa w 0) (m (ctxs + idx_idx w));
                out1 = (case bp_addr p of
                  None \<Rightarrow> out
                | Some a \<Rightarrow> foldl (\<lambda>o' t. o'(out_index fa w t :=
                    load_T (ac_pc ac) (ad_sizeof_T arr) (a + (feature_index fa w t - bp_start p) * ad_sizeof_T arr))) out [0..<fa_dim fa])
            in ((delete_ptrs arr [0] ac ((\<lambda>_. bam_ptr_new True)(0 := p)), m), out1)))"

section \<open>Registered requests\<close>

text \<open>
  The completion service: a table of the contexts by queue and command identifier, with the counters of events,
  of contexts finished and of completions without a context.
\<close>

record 't gids_dev =
  gd_dev :: "'t ctx_dev"
  gd_ctx_lookup :: "u64 \<Rightarrow> int option"
  gd_event_count :: u32
  gd_progress_count :: u32
  gd_lookup_miss_count :: u32

definition kRegisteredCidCapacity :: u32 where "kRegisteredCidCapacity = 65536"

definition kMaxEventsPerQueue :: nat where "kMaxEventsPerQueue = 64"

definition finalize_registered_ctx_completion :: "'b page_cache \<Rightarrow> array_d_t \<Rightarrow> row_ctx \<Rightarrow> 'b page_cache \<times> row_ctx \<times> bool" where
  "finalize_registered_ctx_completion pc arr ctx =
     (case rx_r ctx of
        None \<Rightarrow> (pc, ctx, False)
      | Some k \<Rightarrow>
          (if cx_isHit (rx_ctx ctx) then (pc, ctx, False)
           else (let r = rd_range_id (ad_ranges arr ! k); index = rx_page ctx; c = rx_ctx ctx;
                     st = state_of_word (dp_state (pc_ranges pc r index))
            in if st = V_NB then
                 (let page_trans = dp_offset (pc_ranges pc r index)
                  in (upd_page r index (\<lambda>p. p\<lparr>dp_polling_flag := 0\<rparr>) pc,
                      ctx\<lparr>rx_ctx := c\<lparr>cx_page_trans := page_trans, cx_observed_page_translation := observe pc page_trans,
                                    cx_isHit := True, cx_has_pending_io := 0\<rparr>\<rparr>, True))
               else if st \<noteq> NV_B then (pc, ctx, False)
               else (let pc1 = upd_page r index (\<lambda>p. p\<lparr>dp_offset := cx_page_trans c\<rparr>) pc;
                         obs = observe pc1 (cx_page_trans c);
                         pc2 = pc1\<lparr>pc_miss_cnt := bump r (ucast (rx_count ctx)) (pc_miss_cnt pc1)\<rparr>;
                         pc3 = upd_state r index (\<lambda>s. s XOR DISABLE_BUSY_ENABLE_VALID) pc2;
                         pc4 = upd_page r index (\<lambda>p. p\<lparr>dp_polling_flag := 0\<rparr>) pc3
                     in (pc4, ctx\<lparr>rx_ctx := c\<lparr>cx_observed_page_translation := obs, cx_isHit := True, cx_has_pending_io := 0\<rparr>\<rparr>, True)))))"

definition refresh_registered_ctx_from_valid_page :: "'b page_cache \<Rightarrow> array_d_t \<Rightarrow> row_ctx \<Rightarrow> 'b page_cache \<times> row_ctx \<times> bool" where
  "refresh_registered_ctx_from_valid_page pc arr ctx =
     (case rx_r ctx of
        None \<Rightarrow> (pc, ctx, cx_isHit (rx_ctx ctx))
      | Some k \<Rightarrow>
          (if cx_isHit (rx_ctx ctx) then (pc, ctx, True)
           else (let r = rd_range_id (ad_ranges arr ! k); index = rx_page ctx;
                     page_trans = dp_offset (pc_ranges pc r index)
            in if state_of_word (dp_state (pc_ranges pc r index)) \<noteq> V_NB then (pc, ctx, False)
               else if page_trans = ASYNC_PAGE_TRANS_PENDING \<or> ucast page_trans \<ge> pc_n_pages pc then (pc, ctx, False)
               else (upd_page r index (\<lambda>p. p\<lparr>dp_polling_flag := 0\<rparr>) pc,
                     ctx\<lparr>rx_ctx := (rx_ctx ctx)\<lparr>cx_page_trans := page_trans,
                         cx_observed_page_translation := page_translation (pc_cache_pages pc page_trans), cx_isHit := True\<rparr>\<rparr>, True))))"

text \<open>The number of a queue among those of all controllers, and back.\<close>

definition queues_before :: "'b page_cache \<Rightarrow> nat \<Rightarrow> u32" where
  "queues_before pc n = foldl (\<lambda>q c. q + pc_n_qps pc (of_nat c)) 0 [0..<n]"

definition logical_queue_idx :: "'b page_cache \<Rightarrow> row_ctx \<Rightarrow> u32" where
  "logical_queue_idx pc ctx = rx_queue ctx + queues_before pc (min (unat (rx_ctrl ctx)) (unat (pc_n_ctrls pc)))"

fun find_queue :: "'b page_cache \<Rightarrow> nat list \<Rightarrow> u32 \<Rightarrow> (u64 \<times> u32) option" where
  "find_queue pc [] q = None"
| "find_queue pc (c # cs) q = (if q < pc_n_qps pc (of_nat c) then Some (of_nat c, q) else find_queue pc cs (q - pc_n_qps pc (of_nat c)))"

definition lookup_slot :: "u32 \<Rightarrow> u16 \<Rightarrow> u64" where
  "lookup_slot lq cid = ucast lq * ucast kRegisteredCidCapacity + ucast cid"

definition register_registered_ctx_lookup_kernel :: "int \<Rightarrow> int \<Rightarrow> u32 \<Rightarrow> 't gids_dev \<Rightarrow> 't gids_dev" where
  "register_registered_ctx_lookup_kernel d_row_ctxs num_index row g =
     (if row \<ge> word_of_int num_index then g
      else (let (ac, m) = gd_dev g; p = d_row_ctxs + uint row; ctx = m p in
        if rx_r ctx = None \<or> cx_isHit (rx_ctx ctx) \<or> cx_has_pending_io (rx_ctx ctx) = 0 then g
        else if ucast (cx_cid (rx_ctx ctx)) \<ge> kRegisteredCidCapacity then g
        else g\<lparr>gd_ctx_lookup := (gd_ctx_lookup g)(lookup_slot (logical_queue_idx (ac_pc ac) ctx) (cx_cid (rx_ctx ctx)) \<mapsto> p)\<rparr>))"

text \<open>The completion at the head of a queue: \<open>cq_try_peek_head\<close>, \<open>cq_dequeue\<close> and \<open>put_cid\<close>.\<close>

definition take_head :: "'b async_cache \<Rightarrow> u64 \<Rightarrow> u32 \<Rightarrow> ('b async_cache \<times> u16) option" where
  "take_head ac ctrl queue =
     (case ac_done ac (ctrl, queue) of
        [] \<Rightarrow> None
      | cid # cids \<Rightarrow>
          Some (ac\<lparr>ac_pc := set_cids ctrl queue (put_cid (unat cid) (pc_cids (ac_pc ac) ctrl queue)) (ac_pc ac),
                  ac_done := (ac_done ac)((ctrl, queue) := cids)\<rparr>, cid))"

definition service_event :: "array_d_t \<Rightarrow> u32 \<Rightarrow> u16 \<Rightarrow> 't gids_dev \<Rightarrow> 't gids_dev" where
  "service_event arr lq cid g =
     (let g1 = g\<lparr>gd_event_count := gd_event_count g + 1\<rparr>; slot = lookup_slot lq cid in
      if ucast cid \<ge> kRegisteredCidCapacity then g1\<lparr>gd_lookup_miss_count := gd_lookup_miss_count g1 + 1\<rparr>
      else (case gd_ctx_lookup g1 slot of
              None \<Rightarrow> g1\<lparr>gd_lookup_miss_count := gd_lookup_miss_count g1 + 1\<rparr>
            | Some p \<Rightarrow>
                (let (ac, m) = gd_dev g1; (pc1, ctx1, ok) = finalize_registered_ctx_completion (ac_pc ac) arr (m p)
                 in g1\<lparr>gd_dev := (ac\<lparr>ac_pc := pc1\<rparr>, m(p := ctx1)), gd_ctx_lookup := (gd_ctx_lookup g1)(slot := None),
                       gd_progress_count := gd_progress_count g1 + of_bool ok\<rparr>)))"

fun service_queue :: "nat \<Rightarrow> array_d_t \<Rightarrow> u32 \<Rightarrow> u64 \<Rightarrow> u32 \<Rightarrow> 't gids_dev \<Rightarrow> 't gids_dev" where
  "service_queue 0 arr lq ctrl queue g = g"
| "service_queue (Suc n) arr lq ctrl queue g =
     (case take_head (fst (gd_dev g)) ctrl queue of
        None \<Rightarrow> g
      | Some (ac1, cid) \<Rightarrow> service_queue n arr lq ctrl queue (service_event arr lq cid (g\<lparr>gd_dev := (ac1, snd (gd_dev g))\<rparr>)))"

definition service_registered_cq_window_kernel :: "array_d_t \<Rightarrow> u32 \<Rightarrow> u32 \<Rightarrow> 't gids_dev \<Rightarrow> 't gids_dev" where
  "service_registered_cq_window_kernel arr total_logical_queues lq g =
     (if lq \<ge> total_logical_queues then g
      else (let pc = ac_pc (fst (gd_dev g)) in
        case find_queue pc [0..<unat (pc_n_ctrls pc)] lq of
          None \<Rightarrow> g
        | Some (ctrl, queue) \<Rightarrow> service_queue kMaxEventsPerQueue arr lq ctrl queue g))"

text \<open>One thread of the check; the count is that of rows still pending.\<close>

definition check_registered_request_ready_kernel :: "array_d_t \<Rightarrow> int \<Rightarrow> int \<Rightarrow> int \<Rightarrow> u32 \<Rightarrow> 't ctx_dev \<times> u32 \<Rightarrow> 't ctx_dev \<times> u32" where
  "check_registered_request_ready_kernel arr ctxs num_index stride t s =
     (if t \<ge> word_of_int num_index then s
      else (let ((ac, m), pending) = s; p = ctxs + uint t * stride;
                (pc1, ctx1) = (if cx_isHit (rx_ctx (m p)) then (ac_pc ac, m p)
                  else case refresh_registered_ctx_from_valid_page (ac_pc ac) arr (m p) of (pc', c', _) \<Rightarrow> (pc', c'))
            in ((ac\<lparr>ac_pc := pc1\<rparr>, m(p := ctx1)), if cx_isHit (rx_ctx ctx1) then pending else pending + 1)))"

end
