(* ===== verification/Gids_Rows.thy ===== *)
theory Gids_Rows
  imports Gids_Async
begin

section \<open>Lemmas: one lane\<close>

lemma one_lane: "active_lanes 1 = [0]" "lanes_mask [0] = 1" "ffs 1 = 1" "popc 1 = 1"
proof -
  have "bit (1 :: u32) l \<longleftrightarrow> l = 0" for l by (simp add: bit_1_iff)
  then have "active_lanes 1 = filter (\<lambda>l. l = 0) [0..<32]" unfolding active_lanes_def by (intro filter_cong) simp_all
  also have "[0..<32] = (0::nat) # [1..<32]" by (simp add: upt_rec)
  also have "filter (\<lambda>l. l = 0) (0 # [1..<32]) = [0::nat]" by simp
  finally show a: "active_lanes 1 = [0]" .
  show "lanes_mask [0] = 1" by (simp add: lanes_mask_def)
  show "ffs 1 = 1" "popc 1 = 1" by (simp_all add: ffs_def popc_def a)
qed

lemma one_lane_page:
  "eq_mask_of 1 L 0 = 1" "master_of 1 L 0 = 0" "count_of 1 L 0 = 1"
  by (simp_all add: eq_mask_of_def match_any_def one_lane master_of_def count_of_def)

lemma one_lane_masks:
  "find_range arr (idx 0) \<noteq> None \<Longrightarrow> found_mask arr 1 idx = 1"
  "bp_need 1 (\<lambda>_. bam_ptr_new b) idx = 1"
  by (simp_all add: found_mask_def one_lane bp_need_def sub_mask_def bam_ptr_new_def)

text \<open>The context of a row after its submission.\<close>

definition row_submitted :: "row_ctx \<Rightarrow> s_ctx \<Rightarrow> nat \<Rightarrow> u64 \<Rightarrow> u64 \<Rightarrow> u32 \<Rightarrow> row_ctx" where
  "row_submitted ctx c1 k page b q = ctx\<lparr>rx_r := Some k, rx_ctrl := 0, rx_queue := q, rx_ctx := c1, rx_page := page,
     rx_eq_mask := 1, rx_master := 0, rx_count := 1, rx_base_master := b\<rparr>"

lemma submit_row_eq:
  fixes ctxs :: int and ac :: "(nat \<Rightarrow> 't) async_cache" and smid :: u32
  assumes w: "idx_idx w < fa_num_idx fa" and k: "find_range arr (feature_index fa w 0) = Some k"
  defines "p \<equiv> ctxs + idx_idx w" and "ln \<equiv> array_lane (ac_pc ac) arr (feature_index fa w 0)" and "q \<equiv> smid mod pc_n_qps (ac_pc ac) 0"
  shows "read_feature_kernel_submit_async_rowctx arr fa ctxs w smid (ac, m) =
    (case acquire_page_submit_async ac (ln_rng ln) (ln_page ln) 1 False q (rx_ctx (m p)) of
       None \<Rightarrow> None
     | Some (ac1, c1, b) \<Rightarrow> Some (ac1, m(p := row_submitted (m p) c1 k (ln_page ln) b q)))"
proof -
  let ?i = "feature_index fa w 0"
  have f: "found_mask arr 1 (\<lambda>_. ?i) = 1" by (rule one_lane_masks(1)) (simp add: k)
  have fin: "bp_fini_if (\<lambda>_. False) (ac_pc ac) arr 1 (\<lambda>_. bam_ptr_new False) [] = (ac_pc ac, \<lambda>_. bam_ptr_new False)"
    by (simp add: bp_fini_if_def array_release_page_def bam_ptr_new_def fun_eq_iff)
  have nw: "\<not> fa_num_idx fa \<le> idx_idx w" using w by simp
  have b1: "filter (bit (1::u32)) [0] = [0]" by simp
  have same: "ac\<lparr>ac_pc := ac_pc ac\<rparr> = ac" by simp
  have b0: "bit (1::u32) 0" by simp
  let ?A = "acquire_page_submit_async ac (ln_rng ln) (ln_page ln) 1 False q (rx_ctx (m p))"
  note unf = read_feature_kernel_submit_async_rowctx_def bp_read_submit_async_def one_lane_masks(2)
      bp_update_page_submit_async_def fin array_acquire_page_submit_async_def coalesce_page_submit_async_def Let_def prod.case same
  show ?thesis
  proof (cases ?A)
    case None
    then show ?thesis unfolding unf
      by (simp add: f nw b1 lane0_def note_ranges_def k one_lane_page p_def ln_def q_def)
  next
    case (Some x)
    obtain ac1 c1 b where x: "x = (ac1, c1, b)" by (cases x)
    show ?thesis using Some unfolding unf x
      by (simp add: f nw b1 lane0_def note_ranges_def k one_lane_page note_lanes_def row_submitted_def p_def ln_def q_def)
  qed
qed

section \<open>Transfers under way\<close>

text \<open>The page of a row, the identity and the slot of its transfer, and the command as the controller decodes it.\<close>

definition row_page :: "'b page_cache \<Rightarrow> array_d_t \<Rightarrow> u64 \<Rightarrow> u64 \<times> u64" where
  "row_page pc arr i = (ln_rng (array_lane pc arr i), ln_page (array_lane pc arr i))"

definition fkey :: "row_ctx \<Rightarrow> u64 \<times> u32 \<times> u16" where
  "fkey ctx = (cx_member_acquire_ctrl (rx_ctx ctx), rx_queue ctx, cx_cid (rx_ctx ctx))"

definition fslot :: "row_ctx \<Rightarrow> u32" where
  "fslot ctx = cx_page_trans (rx_ctx ctx)"

definition reads_page :: "'b page_cache \<Rightarrow> nvm_cmd_t \<Rightarrow> u32 \<Rightarrow> u64 \<times> u64 \<Rightarrow> bool" where
  "reads_page pc cmd s x \<longleftrightarrow> cmd_opc cmd = ucast (io_opcode NVM_IO_READ) \<and> cmd_prp1 cmd = pc_prp1 pc (ucast s) \<and>
     cmd_slba cmd = page_lba pc (fst x) (snd x) \<and> cmd_nlb cmd = nblk pc"

definition completed :: "'b async_cache \<Rightarrow> u64 \<times> u32 \<times> u16 \<Rightarrow> bool" where
  "completed ac k \<longleftrightarrow> (case k of (c, q, cid) \<Rightarrow> cid \<in> set (ac_done ac (c, q)))"

text \<open>A context whose page is being read into its slot: the command is at the controller, or completed and the page in the slot.\<close>

definition flight :: "'b async_cache \<Rightarrow> row_ctx \<Rightarrow> u64 \<times> u64 \<Rightarrow> bool" where
  "flight ac ctx x \<longleftrightarrow>
     (let pc = ac_pc ac; c = rx_ctx ctx; s = fslot ctx; (r, pg) = x; (ctrl, q, cid) = fkey ctx in
      in_dom pc r pg \<and> \<not> cx_isHit c \<and> cx_has_pending_io c = 1 \<and> is_busy (dstate pc r pg) \<and> \<not> is_valid (dstate pc r pg) \<and>
      doffset pc r pg = s \<and> is_slot pc s \<and> holds_page pc s r pg \<and> ctrl \<in> ctrls_of pc r pg \<and>
      cp_cid (pc_cids pc ctrl q) (unat cid) = LOCKED \<and>
      (case ac_sub ac (fkey ctx) of
         Some cmd \<Rightarrow> \<not> completed ac (fkey ctx) \<and> reads_page pc cmd s x
       | None \<Rightarrow> completed ac (fkey ctx) \<and> (\<forall>k < nblk pc. slot_data pc s k = content pc r pg k)))"

lemma flightD:
  assumes "flight ac ctx (r, pg)"
  shows "in_dom (ac_pc ac) r pg" "\<not> cx_isHit (rx_ctx ctx)" "cx_has_pending_io (rx_ctx ctx) = 1" "is_busy (dstate (ac_pc ac) r pg)"
    "\<not> is_valid (dstate (ac_pc ac) r pg)" "doffset (ac_pc ac) r pg = fslot ctx" "is_slot (ac_pc ac) (fslot ctx)"
    "holds_page (ac_pc ac) (fslot ctx) r pg" "fst (fkey ctx) \<in> ctrls_of (ac_pc ac) r pg"
    "cp_cid (pc_cids (ac_pc ac) (fst (fkey ctx)) (fst (snd (fkey ctx)))) (unat (snd (snd (fkey ctx)))) = LOCKED"
    "ac_sub ac (fkey ctx) = Some cmd \<Longrightarrow> \<not> completed ac (fkey ctx) \<and> reads_page (ac_pc ac) cmd (fslot ctx) (r, pg)"
    "ac_sub ac (fkey ctx) = None \<Longrightarrow> completed ac (fkey ctx)"
    "ac_sub ac (fkey ctx) = None \<Longrightarrow> k < nblk (ac_pc ac) \<Longrightarrow> slot_data (ac_pc ac) (fslot ctx) k = content (ac_pc ac) r pg k"
  using assms by (auto simp: flight_def Let_def split: prod.splits)

lemma flightI:
  assumes "in_dom (ac_pc ac) r pg" "\<not> cx_isHit (rx_ctx ctx)" "cx_has_pending_io (rx_ctx ctx) = 1" "is_busy (dstate (ac_pc ac) r pg)"
    "\<not> is_valid (dstate (ac_pc ac) r pg)" "doffset (ac_pc ac) r pg = fslot ctx" "is_slot (ac_pc ac) (fslot ctx)"
    "holds_page (ac_pc ac) (fslot ctx) r pg" "fst (fkey ctx) \<in> ctrls_of (ac_pc ac) r pg"
    "cp_cid (pc_cids (ac_pc ac) (fst (fkey ctx)) (fst (snd (fkey ctx)))) (unat (snd (snd (fkey ctx)))) = LOCKED"
    "\<And>cmd. ac_sub ac (fkey ctx) = Some cmd \<Longrightarrow> \<not> completed ac (fkey ctx) \<and> reads_page (ac_pc ac) cmd (fslot ctx) (r, pg)"
    "ac_sub ac (fkey ctx) = None \<Longrightarrow> completed ac (fkey ctx) \<and> (\<forall>k < nblk (ac_pc ac). slot_data (ac_pc ac) (fslot ctx) k = content (ac_pc ac) r pg k)"
  shows "flight ac ctx (r, pg)"
  using assms by (auto simp: flight_def Let_def split: prod.splits option.splits)

text \<open>What a transfer depends on.\<close>

lemma flight_frame:
  assumes fl: "flight ac ctx (r, pg)" and e: "cfg_eq (ac_pc ac') (ac_pc ac)"
    and st: "is_busy (dstate (ac_pc ac') r pg) = is_busy (dstate (ac_pc ac) r pg)" "is_valid (dstate (ac_pc ac') r pg) = is_valid (dstate (ac_pc ac) r pg)"
      "doffset (ac_pc ac') r pg = doffset (ac_pc ac) r pg"
    and sl: "pc_cache_pages (ac_pc ac') (fslot ctx) = pc_cache_pages (ac_pc ac) (fslot ctx)"
    and fr: "frame (ac_pc ac') (pc_prp1 (ac_pc ac) (ucast (fslot ctx))) = frame (ac_pc ac) (pc_prp1 (ac_pc ac) (ucast (fslot ctx)))"
    and sub: "ac_sub ac' (fkey ctx) = ac_sub ac (fkey ctx)" "completed ac' (fkey ctx) = completed ac (fkey ctx)"
    and cid: "cp_cid (pc_cids (ac_pc ac') (fst (fkey ctx)) (fst (snd (fkey ctx)))) (unat (snd (snd (fkey ctx)))) = LOCKED"
    and co: "same_content (ac_pc ac') (ac_pc ac)"
  shows "flight ac' ctx (r, pg)"
proof -
  note F = flightD [OF fl]
  note E = cfg_eqD [OF e]
  have p: "pc_prp1 (ac_pc ac') = pc_prp1 (ac_pc ac)" using e by (simp add: cfg_eq_def)
  have sd: "slot_data (ac_pc ac') (fslot ctx) = slot_data (ac_pc ac) (fslot ctx)" by (simp add: slot_data_def p fr)
  have c: "content (ac_pc ac') r pg k = content (ac_pc ac) r pg k" if "k < nblk (ac_pc ac)" for k
    using co F(1) that by (simp add: same_content_def)
  show ?thesis
  proof (rule flightI)
    show "in_dom (ac_pc ac') r pg" "is_slot (ac_pc ac') (fslot ctx)" "fst (fkey ctx) \<in> ctrls_of (ac_pc ac') r pg" using F(1,7,9) E by simp_all
    show "holds_page (ac_pc ac') (fslot ctx) r pg" using F(8) by (simp add: holds_page_def sl E)
    show "is_busy (dstate (ac_pc ac') r pg)" "\<not> is_valid (dstate (ac_pc ac') r pg)" "doffset (ac_pc ac') r pg = fslot ctx"
      using F(4-6) st by simp_all
    show "\<not> completed ac' (fkey ctx) \<and> reads_page (ac_pc ac') cmd (fslot ctx) (r, pg)" if "ac_sub ac' (fkey ctx) = Some cmd" for cmd
      using F(11) [of cmd] that by (simp add: sub reads_page_def p E)
    show "completed ac' (fkey ctx) \<and> (\<forall>k < nblk (ac_pc ac'). slot_data (ac_pc ac') (fslot ctx) k = content (ac_pc ac') r pg k)"
      if "ac_sub ac' (fkey ctx) = None"
      using F(12,13) that c by (simp add: sub sd E)
  qed (fact F(2), fact F(3), fact cid)
qed

section \<open>The invariant of registered requests\<close>

definition row_users :: "'b page_cache \<Rightarrow> array_d_t \<Rightarrow> (int \<Rightarrow> u64 option) \<Rightarrow> u64 \<Rightarrow> u64 \<Rightarrow> nat" where
  "row_users pc0 arr rows r pg = cnt_of (dstate pc0 r pg) + card {p \<in> dom rows. row_page pc0 arr (the (rows p)) = (r, pg)}"

text \<open>A context of a submitted row: it has the page of the row, in a slot if it is a hit.\<close>

definition row_known :: "'b page_cache \<Rightarrow> array_d_t \<Rightarrow> 'b page_cache \<Rightarrow> row_ctx \<Rightarrow> u64 \<Rightarrow> bool" where
  "row_known pc0 arr pc ctx i \<longleftrightarrow> rx_r ctx = find_range arr i \<and> find_range arr i \<noteq> None \<and> rx_page ctx = snd (row_page pc0 arr i) \<and>
     (cx_isHit (rx_ctx ctx) \<longrightarrow> is_valid (dstate pc (fst (row_page pc0 arr i)) (snd (row_page pc0 arr i))) \<and>
        fslot ctx = doffset pc (fst (row_page pc0 arr i)) (snd (row_page pc0 arr i)))"

definition rows_inv :: "'b page_cache \<Rightarrow> array_d_t \<Rightarrow> (int \<Rightarrow> u64 option) \<Rightarrow> int set \<Rightarrow> 'b async_cache \<Rightarrow> (int \<Rightarrow> row_ctx) \<Rightarrow> bool" where
  "rows_inv pc0 arr rows P ac m \<longleftrightarrow>
     cfg_eq (ac_pc ac) pc0 \<and> inv0 (fslot ` m ` P) (ac_pc ac) \<and> no_prefetch (ac_pc ac) \<and> same_content (ac_pc ac) pc0 \<and>
     finite (dom rows) \<and> P \<subseteq> dom rows \<and>
     (\<forall>r pg. in_dom pc0 r pg \<longrightarrow> cnt_of (dstate (ac_pc ac) r pg) = row_users pc0 arr rows r pg \<and>
        dp_ref_count (pc_ranges (ac_pc ac) r pg) = of_nat (row_users pc0 arr rows r pg)) \<and>
     (\<forall>r pg. in_dom pc0 r pg \<longrightarrow> is_busy (dstate (ac_pc ac) r pg) \<longrightarrow> (\<exists>p \<in> P. row_page pc0 arr (the (rows p)) = (r, pg))) \<and>
     inj_on (\<lambda>p. row_page pc0 arr (the (rows p))) P \<and> inj_on (\<lambda>p. fkey (m p)) P \<and>
     (\<forall>k. ac_sub ac k \<noteq> None \<longrightarrow> (\<exists>p \<in> P. fkey (m p) = k)) \<and> (\<forall>k. completed ac k \<longrightarrow> (\<exists>p \<in> P. fkey (m p) = k)) \<and>
     (\<forall>k. distinct (ac_done ac k)) \<and>
     (\<forall>p \<in> P. flight ac (m p) (row_page pc0 arr (the (rows p)))) \<and>
     (\<forall>p i. rows p = Some i \<longrightarrow> row_known pc0 arr (ac_pc ac) (m p) i \<and>
        (cx_isHit (rx_ctx (m p)) \<or> p \<in> P \<or> cx_has_pending_io (rx_ctx (m p)) = 0) \<and>
        (is_valid (dstate (ac_pc ac) (fst (row_page pc0 arr i)) (snd (row_page pc0 arr i))) \<or>
         (\<exists>p' \<in> P. row_page pc0 arr (the (rows p')) = row_page pc0 arr i)))"

lemma rows_invD:
  assumes "rows_inv pc0 arr rows P ac m"
  shows "cfg_eq (ac_pc ac) pc0" "inv0 (fslot ` m ` P) (ac_pc ac)" "no_prefetch (ac_pc ac)" "same_content (ac_pc ac) pc0"
    "finite (dom rows)" "P \<subseteq> dom rows"
    "in_dom pc0 r pg \<Longrightarrow> cnt_of (dstate (ac_pc ac) r pg) = row_users pc0 arr rows r pg"
    "in_dom pc0 r pg \<Longrightarrow> dp_ref_count (pc_ranges (ac_pc ac) r pg) = of_nat (row_users pc0 arr rows r pg)"
    "in_dom pc0 r pg \<Longrightarrow> is_busy (dstate (ac_pc ac) r pg) \<Longrightarrow> \<exists>p \<in> P. row_page pc0 arr (the (rows p)) = (r, pg)"
    "inj_on (\<lambda>p. row_page pc0 arr (the (rows p))) P" "inj_on (\<lambda>p. fkey (m p)) P"
    "ac_sub ac k \<noteq> None \<Longrightarrow> \<exists>p \<in> P. fkey (m p) = k" "completed ac k \<Longrightarrow> \<exists>p \<in> P. fkey (m p) = k" "distinct (ac_done ac kq)"
    "p \<in> P \<Longrightarrow> flight ac (m p) (row_page pc0 arr (the (rows p)))"
    "rows p = Some i \<Longrightarrow> row_known pc0 arr (ac_pc ac) (m p) i"
    "rows p = Some i \<Longrightarrow> cx_isHit (rx_ctx (m p)) \<or> p \<in> P \<or> cx_has_pending_io (rx_ctx (m p)) = 0"
    "rows p = Some i \<Longrightarrow> is_valid (dstate (ac_pc ac) (fst (row_page pc0 arr i)) (snd (row_page pc0 arr i))) \<or>
         (\<exists>p' \<in> P. row_page pc0 arr (the (rows p')) = row_page pc0 arr i)"
  using assms unfolding rows_inv_def by blast+

lemma rows_invI:
  assumes "cfg_eq (ac_pc ac) pc0" "inv0 (fslot ` m ` P) (ac_pc ac)" "no_prefetch (ac_pc ac)" "same_content (ac_pc ac) pc0"
    "finite (dom rows)" "P \<subseteq> dom rows"
    "\<And>r pg. in_dom pc0 r pg \<Longrightarrow> cnt_of (dstate (ac_pc ac) r pg) = row_users pc0 arr rows r pg"
    "\<And>r pg. in_dom pc0 r pg \<Longrightarrow> dp_ref_count (pc_ranges (ac_pc ac) r pg) = of_nat (row_users pc0 arr rows r pg)"
    "\<And>r pg. in_dom pc0 r pg \<Longrightarrow> is_busy (dstate (ac_pc ac) r pg) \<Longrightarrow> \<exists>p \<in> P. row_page pc0 arr (the (rows p)) = (r, pg)"
    "inj_on (\<lambda>p. row_page pc0 arr (the (rows p))) P" "inj_on (\<lambda>p. fkey (m p)) P"
    "\<And>k. ac_sub ac k \<noteq> None \<Longrightarrow> \<exists>p \<in> P. fkey (m p) = k" "\<And>k. completed ac k \<Longrightarrow> \<exists>p \<in> P. fkey (m p) = k" "\<And>kq. distinct (ac_done ac kq)"
    "\<And>p. p \<in> P \<Longrightarrow> flight ac (m p) (row_page pc0 arr (the (rows p)))"
    "\<And>p i. rows p = Some i \<Longrightarrow> row_known pc0 arr (ac_pc ac) (m p) i"
    "\<And>p i. rows p = Some i \<Longrightarrow> cx_isHit (rx_ctx (m p)) \<or> p \<in> P \<or> cx_has_pending_io (rx_ctx (m p)) = 0"
    "\<And>p i. rows p = Some i \<Longrightarrow> is_valid (dstate (ac_pc ac) (fst (row_page pc0 arr i)) (snd (row_page pc0 arr i))) \<or>
         (\<exists>p' \<in> P. row_page pc0 arr (the (rows p')) = row_page pc0 arr i)"
  shows "rows_inv pc0 arr rows P ac m"
  using assms unfolding rows_inv_def by blast

text \<open>The slots of transfers under way stay theirs.\<close>

lemma rows_users_pos:
  assumes "finite (dom rows)" and "p \<in> dom rows"
  shows "0 < row_users pc0 arr rows (fst (row_page pc0 arr (the (rows p)))) (snd (row_page pc0 arr (the (rows p))))"
proof -
  have "p \<in> {p' \<in> dom rows. row_page pc0 arr (the (rows p')) = row_page pc0 arr (the (rows p))}" using assms(2) by simp
  moreover have "finite {p' \<in> dom rows. row_page pc0 arr (the (rows p')) = row_page pc0 arr (the (rows p))}" using assms(1) by simp
  ultimately have "0 < card {p' \<in> dom rows. row_page pc0 arr (the (rows p')) = row_page pc0 arr (the (rows p))}"
    unfolding card_gt_0_iff by blast
  then show ?thesis by (simp add: row_users_def)
qed

lemma rows_kept:
  assumes inv: "rows_inv pc0 arr rows P ac m"
  shows "slots_kept (fslot ` m ` P) (ac_pc ac)"
proof -
  note D = rows_invD [OF inv]
  note E = cfg_eqD [OF D(1)]
  let ?pc = "ac_pc ac"
  have fl: "\<exists>r pg. row_page pc0 arr (the (rows p)) = (r, pg) \<and> flight ac (m p) (r, pg) \<and> cnt_of (dstate ?pc r pg) \<noteq> 0 \<and> dp_ref_count (pc_ranges ?pc r pg) \<noteq> 0"
    if p: "p \<in> P" for p
  proof -
    obtain r pg where x: "row_page pc0 arr (the (rows p)) = (r, pg)" by force
    have f: "flight ac (m p) (r, pg)" using D(15) [OF p] x by simp
    have d: "in_dom pc0 r pg" using flightD(1) [OF f] E(2) by simp
    have u: "0 < row_users pc0 arr rows r pg" using rows_users_pos [OF D(5), of p] D(6) p x by (metis fst_conv snd_conv subsetD)
    have c: "cnt_of (dstate ?pc r pg) = row_users pc0 arr rows r pg" by (rule D(7) [OF d])
    have "row_users pc0 arr rows r pg < 2 ^ 29" unfolding c [symmetric] by (simp add: cnt_of_mod)
    then have "unat (of_nat (row_users pc0 arr rows r pg) :: u32) = row_users pc0 arr rows r pg" by (simp add: unat_of_nat)
    then have "dp_ref_count (pc_ranges ?pc r pg) \<noteq> 0" using D(8) [OF d] u by auto
    then show ?thesis using x f c u by simp
  qed
  have "held_slots (fslot ` m ` P) ?pc"
    unfolding held_slots_def using fl flightD(1,5,7,8) by (fastforce simp del: One_nat_def)
  moreover have "held_refs (fslot ` m ` P) ?pc"
  proof (unfold held_refs_def, intro ballI allI impI)
    fix s r pg assume s: "s \<in> fslot ` m ` P" and d: "in_dom ?pc r pg" and t: "page_translation (pc_cache_pages ?pc s) = get_global_address ?pc r pg"
    then obtain p where p: "p \<in> P" "s = fslot (m p)" by blast
    obtain r' pg' where f: "flight ac (m p) (r', pg')" "dp_ref_count (pc_ranges ?pc r' pg') \<noteq> 0" using fl [OF p(1)] by blast
    have "get_global_address ?pc r pg = get_global_address ?pc r' pg'" using flightD(8) [OF f(1)] t p(2) by (simp add: holds_page_def)
    then have "r = r' \<and> pg = pg'" using global_address_inj [of ?pc r pg r' pg'] d flightD(1) [OF f(1)] inv0D(1) [OF D(2)] by (auto simp: cfg_ok_def)
    then show "dp_ref_count (pc_ranges ?pc r pg) \<noteq> 0" using f(2) by simp
  qed
  moreover have "refs_ok ?pc"
  proof (unfold refs_ok_def, intro allI impI)
    fix r pg assume "in_dom ?pc r pg"
    then have d: "in_dom pc0 r pg" using E(2) by simp
    have c: "cnt_of (dstate ?pc r pg) = row_users pc0 arr rows r pg" by (rule D(7) [OF d])
    have "row_users pc0 arr rows r pg < 2 ^ 29" unfolding c [symmetric] by (simp add: cnt_of_mod)
    then have u: "unat (of_nat (row_users pc0 arr rows r pg) :: u32) = row_users pc0 arr rows r pg" by (simp add: unat_of_nat)
    show "(dp_ref_count (pc_ranges ?pc r pg) = 0) = (cnt_of (dstate ?pc r pg) = 0)"
      unfolding D(8) [OF d] c using u by (metis unat_0 unat_eq_0)
  qed
  ultimately show ?thesis using D(2) by (simp add: slots_kept_def)
qed

section \<open>Lemmas: one more user of a page\<close>

lemma row_users_add:
  assumes "finite (dom rows)" and "p \<notin> dom rows"
  shows "row_users pc0 arr (rows(p \<mapsto> i)) r pg = row_users pc0 arr rows r pg + (if row_page pc0 arr i = (r, pg) then 1 else 0)"
proof -
  let ?S = "{p' \<in> dom rows. row_page pc0 arr (the (rows p')) = (r, pg)}"
  have "{p' \<in> dom (rows(p \<mapsto> i)). row_page pc0 arr (the ((rows(p \<mapsto> i)) p')) = (r, pg)} = (if row_page pc0 arr i = (r, pg) then insert p ?S else ?S)"
    using assms(2) by (auto split: if_splits)
  then show ?thesis using assms by (simp add: row_users_def)
qed

text \<open>Steps that change neither the slots nor the transfers.\<close>

lemma rows_frame:
  assumes inv: "rows_inv pc0 arr rows P ac m"
    and e: "cfg_eq (ac_pc ac') (ac_pc ac)" and cids: "same_cids (pc_cids (ac_pc ac')) (pc_cids (ac_pc ac))"
    and same: "pc_cache_pages (ac_pc ac') = pc_cache_pages (ac_pc ac)" "disk (ac_pc ac') = disk (ac_pc ac)" "frame (ac_pc ac') = frame (ac_pc ac)"
    and sub: "ac_sub ac' = ac_sub ac" "ac_done ac' = ac_done ac"
    and st: "\<And>r pg. is_valid (dstate (ac_pc ac') r pg) = is_valid (dstate (ac_pc ac) r pg)"
      "\<And>r pg. is_busy (dstate (ac_pc ac') r pg) = is_busy (dstate (ac_pc ac) r pg)"
      "\<And>r pg. is_dirty (dstate (ac_pc ac') r pg) = is_dirty (dstate (ac_pc ac) r pg)"
      "\<And>r pg. doffset (ac_pc ac') r pg = doffset (ac_pc ac) r pg"
      "\<And>r pg. unprefetched (pc_ranges (ac_pc ac) r pg) \<Longrightarrow> unprefetched (pc_ranges (ac_pc ac') r pg)"
    and us: "\<And>r pg. in_dom pc0 r pg \<Longrightarrow> cnt_of (dstate (ac_pc ac') r pg) = row_users pc0 arr rows' r pg \<and>
        dp_ref_count (pc_ranges (ac_pc ac') r pg) = of_nat (row_users pc0 arr rows' r pg)"
    and P: "\<And>q. q \<in> P \<Longrightarrow> rows' q = rows q \<and> m' q = m q" and fin: "finite (dom rows')"
    and ctx: "\<And>q i. rows' q = Some i \<Longrightarrow> row_known pc0 arr (ac_pc ac') (m' q) i \<and> (cx_isHit (rx_ctx (m' q)) \<or> q \<in> P \<or> cx_has_pending_io (rx_ctx (m' q)) = 0) \<and>
        (is_valid (dstate (ac_pc ac) (fst (row_page pc0 arr i)) (snd (row_page pc0 arr i))) \<or> (\<exists>q \<in> P. row_page pc0 arr (the (rows q)) = row_page pc0 arr i))"
  shows "rows_inv pc0 arr rows' P ac' m'"
proof -
  let ?pc = "ac_pc ac" and ?pc' = "ac_pc ac'"
  note D = rows_invD [OF inv]
  have e0: "cfg_eq ?pc' pc0" by (rule cfg_eq_trans [OF e D(1)])
  note E = cfg_eqD [OF e] and E0 = cfg_eqD [OF D(1)]
  have mP: "m' q = m q" "rows' q = rows q" if "q \<in> P" for q using P [OF that] by simp_all
  have img: "fslot ` m' ` P = fslot ` m ` P" unfolding image_image using mP by (intro image_cong refl) simp
  have cf: "cids_free (pc_cids ?pc')" using inv0D(2) [OF D(2)] same_cids_free [OF cids] by simp
  have i0: "inv0 (fslot ` m ` P) ?pc'" "same_content ?pc' ?pc"
    using inv0_flags [OF D(2) e cf same] inv0_valid(1) [OF D(2)] inv0_dirty [OF D(2)] by (simp_all add: st(1-4))
  have fl: "flight ac' (m q) (row_page pc0 arr (the (rows q)))" if q: "q \<in> P" for q
  proof -
    obtain r' pg' where y: "row_page pc0 arr (the (rows q)) = (r', pg')" by force
    have f: "flight ac (m q) (r', pg')" using D(15) [OF q] y by simp
    show ?thesis unfolding y
      by (rule flight_frame [OF f e st(2,1,4) _ _ _ _ _ i0(2)])
        (use flightD(10) [OF f] cids in \<open>simp_all add: same sub completed_def same_cids_def\<close>)
  qed
  have ex: "(\<exists>q \<in> P. row_page pc0 arr (the (rows' q)) = y) = (\<exists>q \<in> P. row_page pc0 arr (the (rows q)) = y)"
    "(\<exists>q \<in> P. fkey (m' q) = k) = (\<exists>q \<in> P. fkey (m q) = k)" for y k using mP by auto
  show ?thesis
  proof (rule rows_invI)
    show "inv0 (fslot ` m' ` P) ?pc'" unfolding img by (fact i0(1))
    show "same_content ?pc' pc0" by (rule same_content_trans [OF i0(2) D(4,1)])
    show "no_prefetch ?pc'" using D(3) st(5) E(2) by (simp add: no_prefetch_def)
    show "P \<subseteq> dom rows'" using D(6) mP(2) by auto
    show "inj_on (\<lambda>q. row_page pc0 arr (the (rows' q))) P" "inj_on (\<lambda>q. fkey (m' q)) P" using D(10,11) mP by (simp_all add: inj_on_def)
    show "distinct (ac_done ac' k)" for k unfolding sub by (rule D(14))
    show "\<exists>q \<in> P. row_page pc0 arr (the (rows' q)) = (r', pg')" if "in_dom pc0 r' pg'" "is_busy (dstate ?pc' r' pg')" for r' pg'
      unfolding ex using D(9) that by (simp add: st(1-4))
    show "\<exists>q \<in> P. fkey (m' q) = k" if "ac_sub ac' k \<noteq> None" for k unfolding ex using D(12) that by (simp add: sub)
    show "\<exists>q \<in> P. fkey (m' q) = k" if "completed ac' k" for k unfolding ex using D(13) that by (simp add: completed_def sub)
    show "flight ac' (m' q) (row_page pc0 arr (the (rows' q)))" if "q \<in> P" for q using fl [OF that] mP [OF that] by simp
    fix q j assume q: "rows' q = Some j"
    note c = ctx [OF q]
    show "row_known pc0 arr ?pc' (m' q) j" "cx_isHit (rx_ctx (m' q)) \<or> q \<in> P \<or> cx_has_pending_io (rx_ctx (m' q)) = 0" using c by simp_all
    show "is_valid (dstate ?pc' (fst (row_page pc0 arr j)) (snd (row_page pc0 arr j))) \<or> (\<exists>q \<in> P. row_page pc0 arr (the (rows' q)) = row_page pc0 arr j)"
      unfolding st(1) ex using c by simp
  qed (use us e0 fin in blast)+
qed

lemma rows_user_added:
  assumes inv: "rows_inv pc0 arr rows P ac m" and p: "p \<notin> dom rows" and x: "row_page pc0 arr i = (r, pg)" and d: "in_dom pc0 r pg"
    and e: "cfg_eq (ac_pc ac') (ac_pc ac)" and cids: "same_cids (pc_cids (ac_pc ac')) (pc_cids (ac_pc ac))"
    and same: "pc_cache_pages (ac_pc ac') = pc_cache_pages (ac_pc ac)" "disk (ac_pc ac') = disk (ac_pc ac)" "frame (ac_pc ac') = frame (ac_pc ac)"
    and sub: "ac_sub ac' = ac_sub ac" "ac_done ac' = ac_done ac"
    and oth: "\<And>r' pg'. (r', pg') \<noteq> (r, pg) \<Longrightarrow> pc_ranges (ac_pc ac') r' pg' = pc_ranges (ac_pc ac) r' pg'"
    and own: "is_valid (dstate (ac_pc ac') r pg) = is_valid (dstate (ac_pc ac) r pg)" "is_busy (dstate (ac_pc ac') r pg) = is_busy (dstate (ac_pc ac) r pg)"
      "is_dirty (dstate (ac_pc ac') r pg) = is_dirty (dstate (ac_pc ac) r pg)" "doffset (ac_pc ac') r pg = doffset (ac_pc ac) r pg"
      "cnt_of (dstate (ac_pc ac') r pg) = cnt_of (dstate (ac_pc ac) r pg) + 1"
      "dp_ref_count (pc_ranges (ac_pc ac') r pg) = dp_ref_count (pc_ranges (ac_pc ac) r pg) + 1" "unprefetched (pc_ranges (ac_pc ac') r pg)"
    and ctx: "row_known pc0 arr (ac_pc ac') ctx i" "cx_isHit (rx_ctx ctx) \<or> cx_has_pending_io (rx_ctx ctx) = 0"
      "is_valid (dstate (ac_pc ac) r pg) \<or> is_busy (dstate (ac_pc ac) r pg)"
  shows "rows_inv pc0 arr (rows(p \<mapsto> i)) P ac' (m(p := ctx))"
proof -
  let ?pc = "ac_pc ac" and ?pc' = "ac_pc ac'" and ?rows = "rows(p \<mapsto> i)" and ?m = "m(p := ctx)"
  note D = rows_invD [OF inv]
  have st: "is_valid (dstate ?pc' r' pg') = is_valid (dstate ?pc r' pg')" "is_busy (dstate ?pc' r' pg') = is_busy (dstate ?pc r' pg')"
    "is_dirty (dstate ?pc' r' pg') = is_dirty (dstate ?pc r' pg')" "doffset ?pc' r' pg' = doffset ?pc r' pg'" for r' pg'
    using own(1-4) oth by (cases "(r', pg') = (r, pg)"; simp add: dstate_def doffset_def)+
  have pr: "is_valid (dstate ?pc r pg) \<or> (\<exists>q \<in> P. row_page pc0 arr (the (rows q)) = (r, pg))" using ctx(3) D(9) [OF d] by blast
  have un: "unprefetched (pc_ranges ?pc' r' pg')" if "unprefetched (pc_ranges ?pc r' pg')" for r' pg'
    using that own(7) oth [of r' pg'] by (cases "(r', pg') = (r, pg)") auto
  show ?thesis
  proof (rule rows_frame [OF inv e cids same sub st un])
    show "cnt_of (dstate ?pc' r' pg') = row_users pc0 arr ?rows r' pg' \<and> dp_ref_count (pc_ranges ?pc' r' pg') = of_nat (row_users pc0 arr ?rows r' pg')"
      if "in_dom pc0 r' pg'" for r' pg'
      using D(7,8) [OF that] own(5,6) oth [of r' pg'] x
      by (cases "(r', pg') = (r, pg)") (auto simp: row_users_add [OF D(5) p] dstate_def)
    show "?rows q = rows q \<and> ?m q = m q" if "q \<in> P" for q using that p D(6) by auto
    show "finite (dom ?rows)" using D(5) by simp
    show "row_known pc0 arr ?pc' (?m q) j \<and> (cx_isHit (rx_ctx (?m q)) \<or> q \<in> P \<or> cx_has_pending_io (rx_ctx (?m q)) = 0) \<and>
        (is_valid (dstate ?pc (fst (row_page pc0 arr j)) (snd (row_page pc0 arr j))) \<or> (\<exists>q \<in> P. row_page pc0 arr (the (rows q)) = row_page pc0 arr j))"
      if q: "?rows q = Some j" for q j
    proof (cases "q = p")
      case True
      then show ?thesis using q ctx(1,2) pr x by auto
    next
      case False
      then have qj: "rows q = Some j" using q by simp
      then show ?thesis using D(16) [OF qj] D(17) [OF qj] D(18) [OF qj] False by (simp add: row_known_def st)
    qed
  qed
qed

section \<open>Lemmas: submitting a row\<close>

definition entered_ref :: "'b page_cache \<Rightarrow> u64 \<Rightarrow> u64 \<Rightarrow> u32 \<Rightarrow> 'b page_cache" where
  "entered_ref pc r pg count =
     upd_page r pg (\<lambda>p. p\<lparr>dp_ref_count := dp_ref_count p + (count + snd (prefetch_enter (pc_ranges pc r pg)))\<rparr>) (entered pc r pg count)"

lemma submit_entered:
  "acquire_page_submit_async ac r pg count w q ctx =
   submit_loop (ac\<lparr>ac_pc := entered_ref (ac_pc ac) r pg count\<rparr>) r pg count w q ctx (dstate (ac_pc ac) r pg)"
proof -
  obtain p n where p: "prefetch_enter (pc_ranges (ac_pc ac) r pg) = (p, n)" by force
  show ?thesis
    using prefetch_enter_keeps(1) [OF p]
    by (simp add: acquire_page_submit_async_def entered_ref_def entered_def Let_def p upd_page_def upd_state_def dstate_def)
qed

lemma entered_ref_page:
  assumes b: "cnt_of (dstate pc r pg) + unat count < 2 ^ 29" and u: "unprefetched (pc_ranges pc r pg)"
  defines "pc' \<equiv> entered_ref pc r pg count"
  shows "is_valid (dstate pc' r pg) = is_valid (dstate pc r pg)" "is_busy (dstate pc' r pg) = is_busy (dstate pc r pg)"
    "is_dirty (dstate pc' r pg) = is_dirty (dstate pc r pg)" "cnt_of (dstate pc' r pg) = cnt_of (dstate pc r pg) + unat count"
    "doffset pc' r pg = doffset pc r pg" "dp_ref_count (pc_ranges pc' r pg) = dp_ref_count (pc_ranges pc r pg) + count"
    "unprefetched (pc_ranges pc' r pg)" "cfg_eq pc' pc" "pc_cids pc' = pc_cids pc" "disk pc' = disk pc" "frame pc' = frame pc"
    "pc_cache_pages pc' = pc_cache_pages pc" "(r', pg') \<noteq> (r, pg) \<Longrightarrow> pc_ranges pc' r' pg' = pc_ranges pc r' pg'"
proof -
  have b': "cnt_of (dstate pc r pg) + unat count + extra_count (pc_ranges pc r pg) < 2 ^ 29" using b unprefetched_extra(1) [OF u] by simp
  have d: "dstate pc' r pg = dstate (entered pc r pg count) r pg" "doffset pc' r pg = doffset (entered pc r pg count) r pg"
    by (simp_all add: pc'_def entered_ref_def upd_page_def dstate_def doffset_def)
  show "is_valid (dstate pc' r pg) = is_valid (dstate pc r pg)" "is_busy (dstate pc' r pg) = is_busy (dstate pc r pg)"
    "is_dirty (dstate pc' r pg) = is_dirty (dstate pc r pg)" "cnt_of (dstate pc' r pg) = cnt_of (dstate pc r pg) + unat count"
    "doffset pc' r pg = doffset pc r pg"
    unfolding d using entered_page [OF b'] unprefetched_extra(1) [OF u] by simp_all
  show "dp_ref_count (pc_ranges pc' r pg) = dp_ref_count (pc_ranges pc r pg) + count"
    by (simp add: pc'_def entered_ref_def prefetch_enter_0 [OF u] entered_def upd_page_def upd_state_def)
  show "unprefetched (pc_ranges pc' r pg)" using entered_unprefetched [OF u, of count] by (simp add: pc'_def entered_ref_def upd_page_def)
  show "cfg_eq pc' pc" "pc_cids pc' = pc_cids pc" "disk pc' = disk pc" "frame pc' = frame pc"
    "pc_cache_pages pc' = pc_cache_pages pc" "(r', pg') \<noteq> (r, pg) \<Longrightarrow> pc_ranges pc' r' pg' = pc_ranges pc r' pg'"
    using entered_rest [where pc = pc and r = r and pg = pg and count = count] by (auto simp: pc'_def entered_ref_def upd_page_def cfg_eq_def)
qed

lemma submit_hit_eq:
  fixes count :: u32
  assumes v: "is_valid (dstate (ac_pc ac) r pg)" and nb: "\<not> is_busy (dstate (ac_pc ac) r pg)"
  defines "pc1 \<equiv> entered_ref (ac_pc ac) r pg count"
  shows "acquire_page_submit_async ac r pg count False q ctx =
    Some (ac\<lparr>ac_pc := pc1\<lparr>pc_hit_cnt := bump r (ucast count) (pc_hit_cnt pc1)\<rparr>\<rparr>,
      ctx\<lparr>cx_isHit := True, cx_page_trans := doffset pc1 r pg, cx_observed_page_translation := observe pc1 (doffset pc1 r pg)\<rparr>,
      ucast (doffset pc1 r pg))"
proof -
  have "state_of_word (dstate (ac_pc ac) r pg) = V_NB" "state_of_word (dstate (ac_pc ac) r pg) \<noteq> NV_NB" using v nb by (simp_all add: state_of_word_cases)
  then show ?thesis
    unfolding submit_entered by (subst submit_loop.simps) (simp add: Let_def pc1_def upd_pc_def doffset_def)
qed

lemma join_wait_offset:
  assumes "join_wait pc r index = Some t"
  shows "t = doffset pc r index"
  by (rule join_wait.raw_induct [where P = "\<lambda>pc r index t. t = doffset pc r index", OF _ assms])
    (auto simp: Let_def doffset_def split: if_splits)

lemma submit_join:
  assumes nv: "\<not> is_valid (dstate (ac_pc ac) r pg)" and b: "is_busy (dstate (ac_pc ac) r pg)"
    and ret: "acquire_page_submit_async ac r pg count False q ctx = Some (ac1, ctx1, a)"
  defines "pc1 \<equiv> entered_ref (ac_pc ac) r pg count"
  shows "\<exists>n t o' c. ac1 = ac\<lparr>ac_pc := pc1\<lparr>pc_ctrl_counter := n\<rparr>\<rparr> \<and>
    ctx1 = ctx\<lparr>cx_isHit := False, cx_page_trans := t, cx_observed_page_translation := o', cx_member_acquire_ctrl := c\<rparr>"
proof -
  have "state_of_word (dstate (ac_pc ac) r pg) = NV_B" using nv b by (simp add: state_of_word_busy)
  moreover have "NV_B \<noteq> NV_NB" "NV_B \<noteq> V_NB" by (simp_all add: NV_B_def NV_NB_def V_NB_def)
  ultimately obtain t where t: "join_wait pc1 r pg = Some t"
    and r: "(case pick_ctrl pc1 r pg of (pc2, ctrl) \<Rightarrow>
      Some (ac\<lparr>ac_pc := pc2\<rparr>, ctx\<lparr>cx_isHit := False, cx_page_trans := t,
         cx_observed_page_translation := page_translation (pc_cache_pages pc1 t), cx_member_acquire_ctrl := ctrl\<rparr>, ucast t)) = Some (ac1, ctx1, a)"
    using ret unfolding submit_entered by (subst (asm) submit_loop.simps) (auto simp: Let_def pc1_def split_beta split: option.splits)
  obtain n c where "pick_ctrl pc1 r pg = (pc1\<lparr>pc_ctrl_counter := n\<rparr>, c)"
    by (cases "get_backing_ctrl pc1 r pg = ALL_CTRLS") (auto simp: pick_ctrl_def Let_def intro: that [of "pc_ctrl_counter pc1"] that)
  then have "ac1 = ac\<lparr>ac_pc := pc1\<lparr>pc_ctrl_counter := n\<rparr>\<rparr>"
    "ctx1 = ctx\<lparr>cx_isHit := False, cx_page_trans := t,
         cx_observed_page_translation := page_translation (pc_cache_pages pc1 t), cx_member_acquire_ctrl := c\<rparr>" using r by simp_all
  then show ?thesis by blast
qed

lemma submitted_unprefetched:
  "unprefetched (pc_ranges pc r pg) \<Longrightarrow> unprefetched (pc_ranges (submitted pc r pg count) r pg)"
  "unprefetched (pc_ranges pc r pg) \<Longrightarrow> dp_ref_count (pc_ranges (submitted pc r pg count) r pg) = dp_ref_count (pc_ranges pc r pg) + count"
  by (simp_all add: submitted_def entered_def Let_def prefetch_enter_0 upd_page_def upd_state_def) (simp_all add: unprefetched_def)

text \<open>The state after a submission that missed, against the state before.\<close>

lemma in_flight_state:
  assumes fl: "in_flight X ac ac1 ctx r pg count q pc3 s" and i: "inv0 X (ac_pc ac)" and dom: "in_dom (ac_pc ac) r pg"
    and nv: "\<not> is_valid (dstate (ac_pc ac) r pg)" and b: "cnt_of (dstate (ac_pc ac) r pg) + unat count < 2 ^ 29"
    and u: "unprefetched (pc_ranges (ac_pc ac) r pg)" and free: "cids_free (pc_cids (ac_pc ac1))"
  defines "pc \<equiv> ac_pc ac" and "pc' \<equiv> ac_pc ac1"
  shows "cfg_eq pc' pc" "inv0 (insert s X) pc'" "same_content pc' pc" "others_kept pc pc' r pg" "s \<notin> X" "is_slot pc s"
    "holds_page pc' s r pg" "frame pc' = frame pc" "x \<noteq> s \<Longrightarrow> pc_cache_pages pc' x = pc_cache_pages pc x"
    "\<not> is_valid (dstate pc' r pg)" "is_busy (dstate pc' r pg)" "cnt_of (dstate pc' r pg) = cnt_of (dstate pc r pg) + unat count"
    "doffset pc' r pg = s" "dp_ref_count (pc_ranges pc' r pg) = dp_ref_count (pc_ranges pc r pg) + count" "unprefetched (pc_ranges pc' r pg)"
proof -
  let ?S = "submitted pc r pg count"
  have b': "cnt_of (dstate pc r pg) + unat count + extra_count (pc_ranges pc r pg) < 2 ^ 29"
    using b unprefetched_extra(1) [OF u] by (simp add: pc_def)
  have nv': "\<not> is_valid (dstate pc r pg)" and dom': "in_dom pc r pg" and i': "inv0 X pc" using nv dom i by (simp_all add: pc_def)
  have t: "slot_taken X ?S pc3 s (get_global_address pc r pg)" using fl by (simp add: in_flight_def Let_def pc_def)
  then have i3: "inv0 (insert s X) pc3" and sc3: "same_content pc3 ?S" and e3: "cfg_eq pc3 ?S" and f3: "frame pc3 = frame ?S"
      and sl: "s \<notin> X" "is_slot ?S s" "page_take_lock (pc_cache_pages pc3 s) = UNLOCKED" "page_translation (pc_cache_pages pc3 s) = get_global_address pc r pg"
      and oc: "\<forall>x. x \<noteq> s \<longrightarrow> pc_cache_pages pc3 x = pc_cache_pages ?S x"
    unfolding slot_taken_def by blast+
  obtain m A C where p': "pc' = pc3\<lparr>pc_ranges := (pc_ranges pc3)(r := (pc_ranges pc3 r)(pg := (pc_ranges pc3 r pg)\<lparr>dp_offset := s\<rparr>)),
        pc_ctrl_counter := m, pc_access_counter := A, pc_cids := C\<rparr>"
    using fl unfolding in_flight_def Let_def pc'_def by blast
  note S = submitted_page [where pc = pc and r = r and pg = pg and count = count]
  have nvS: "\<not> is_valid (dstate ?S r pg)" using nv' busied_page(1) [OF b'] by (simp add: S(1))
  have r3: "pc_ranges pc3 r pg = pc_ranges ?S r pg" by (rule slot_taken_page [OF t nvS])
  have e3': "cfg_eq pc' pc3" by (simp add: p' cfg_eq_def)
  show e: "cfg_eq pc' pc" by (rule cfg_eq_trans [OF cfg_eq_trans [OF e3' e3] S(3)])
  have rg: "pc_ranges pc' r pg = (pc_ranges ?S r pg)\<lparr>dp_offset := s\<rparr>" using r3 by (simp add: p')
  have ro: "pc_ranges pc' r' pg' = pc_ranges pc3 r' pg'" if "(r', pg') \<noteq> (r, pg)" for r' pg' using that by (auto simp: p')
  have st3: "dstate pc' r' pg' = dstate pc3 r' pg'" for r' pg' using ro rg r3 by (cases "(r', pg') = (r, pg)") (auto simp: dstate_def)
  have nv3: "\<not> is_valid (dstate pc3 r pg)" using nvS r3 by (simp add: dstate_def)
  have of3: "doffset pc' r' pg' = doffset pc3 r' pg'" if "is_valid (dstate pc3 r' pg')" for r' pg'
    using ro [of r' pg'] that nv3 by (cases "(r', pg') = (r, pg)") (auto simp: doffset_def)
  have cf: "cids_free (pc_cids pc')" using free by (simp add: pc'_def)
  have same: "pc_cache_pages pc' = pc_cache_pages pc3" "disk pc' = disk pc3" "frame pc' = frame pc3" by (simp_all add: p')
  have fg: "is_valid (dstate pc' r' pg') = is_valid (dstate pc3 r' pg') \<and>
        (is_valid (dstate pc3 r' pg') \<longrightarrow> doffset pc' r' pg' = doffset pc3 r' pg' \<and> \<not> is_busy (dstate pc' r' pg')) \<and>
        (is_dirty (dstate pc3 r' pg') \<longrightarrow> is_dirty (dstate pc' r' pg')) \<and> (is_dirty (dstate pc' r' pg') \<longrightarrow> is_valid (dstate pc3 r' pg'))"
    if "in_dom pc3 r' pg'" for r' pg'
    using inv0_valid(1) [OF i3 that] inv0_dirty [OF i3 that] of3 by (simp add: st3)
  note i0 = inv0_flags [OF i3 e3' cf same fg]
  show "inv0 (insert s X) pc'" by (rule i0(1))
  show "same_content pc' pc"
    by (rule same_content_trans [OF same_content_trans [OF i0(2) sc3 e3] inv0_submitted(2) [OF i' nv' dom' b'] S(3)])
  show "others_kept pc pc' r pg"
    using slot_taken_others [OF t, of r pg] submitted_others(1) [OF nv' b'] S(2) ro by (simp add: others_kept_def)
  show "s \<notin> X" "is_slot pc s" using sl(1,2) cfg_eqD(8) [OF S(3)] by simp_all
  show "holds_page pc' s r pg" using sl(3,4) cfg_eqD(7) [OF e] by (simp add: holds_page_def same)
  show "frame pc' = frame pc" by (simp add: same f3 S(6))
  show "pc_cache_pages pc' x = pc_cache_pages pc x" if "x \<noteq> s" using oc that by (simp add: same S(4))
  have d: "dstate pc' r pg = dstate (busied pc r pg count) r pg" using S(1) rg by (simp add: dstate_def)
  show "\<not> is_valid (dstate pc' r pg)" "is_busy (dstate pc' r pg)" "cnt_of (dstate pc' r pg) = cnt_of (dstate pc r pg) + unat count"
    unfolding d using busied_page(1-4) [OF b'] nv' unprefetched_extra(1) [OF u] by (simp_all add: pc_def)
  show "doffset pc' r pg = s" by (simp add: doffset_def rg)
  show "dp_ref_count (pc_ranges pc' r pg) = dp_ref_count (pc_ranges pc r pg) + count" "unprefetched (pc_ranges pc' r pg)"
    using submitted_unprefetched [OF u, of count] by (simp_all add: rg pc_def)
qed

lemma in_flight_cids:
  assumes fl: "in_flight X ac ac1 c1 r pg n q pc3 s"
  shows "cp_cid (pc_cids (ac_pc ac1) (cx_member_acquire_ctrl c1) q) (unat (cx_cid c1)) = LOCKED"
    "cp_cid (pc_cids (ac_pc ac) c' q') j = LOCKED \<Longrightarrow> cp_cid (pc_cids (ac_pc ac1) c' q') j = LOCKED"
proof -
  let ?c = "cx_member_acquire_ctrl c1"
  obtain m A C where p: "ac_pc ac1 = pc3\<lparr>pc_ranges := (pc_ranges pc3)(r := (pc_ranges pc3 r)(pg := (pc_ranges pc3 r pg)\<lparr>dp_offset := s\<rparr>)),
        pc_ctrl_counter := m, pc_access_counter := A, pc_cids := C\<rparr>"
    and C: "cp_cid (C ?c q) = (cp_cid (pc_cids (ac_pc ac) ?c q))(unat (cx_cid c1) := LOCKED)"
    and C': "\<forall>c' q'. (c', q') \<noteq> (?c, q) \<longrightarrow> cp_cid (C c' q') = cp_cid (pc_cids (ac_pc ac) c' q')"
    using fl unfolding in_flight_def Let_def by blast
  have pC: "pc_cids (ac_pc ac1) = C" unfolding p by simp
  show "cp_cid (pc_cids (ac_pc ac1) ?c q) (unat (cx_cid c1)) = LOCKED" unfolding pC C by simp
  show "cp_cid (pc_cids (ac_pc ac1) c' q') j = LOCKED" if l: "cp_cid (pc_cids (ac_pc ac) c' q') j = LOCKED"
  proof (cases "(c', q') = (?c, q)")
    case True
    then have "c' = ?c" "q' = q" by simp_all
    then show ?thesis unfolding pC using l by (simp add: C)
  next
    case False
    then show ?thesis unfolding pC using l C' by simp
  qed
qed

lemma kept_page:
  assumes "others_kept pc pc' r pg" and "(r', pg') \<noteq> (r, pg)" and "\<not> evictable pc r' pg'"
  shows "pc_ranges pc' r' pg' = pc_ranges pc r' pg'"
  using assms by (auto simp: others_kept_def)

text \<open>A submission that missed adds a transfer.\<close>

lemma rows_flight_added:
  assumes inv: "rows_inv pc0 arr rows P ac m" and p: "p \<notin> dom rows" and x: "row_page pc0 arr i = (r, pg)" and d: "in_dom pc0 r pg"
    and fr: "find_range arr i \<noteq> None"
    and nv: "\<not> is_valid (dstate (ac_pc ac) r pg)" and nb: "\<not> is_busy (dstate (ac_pc ac) r pg)"
    and b: "cnt_of (dstate (ac_pc ac) r pg) + 1 < 2 ^ 29" and free: "cids_free (pc_cids (ac_pc ac1))"
    and fl: "in_flight (fslot ` m ` P) ac ac1 c1 r pg 1 q pc3 s"
    and ctx: "rx_ctx ctx = c1" "rx_queue ctx = q" "rx_r ctx = find_range arr i" "rx_page ctx = pg"
  shows "rows_inv pc0 arr (rows(p \<mapsto> i)) (insert p P) ac1 (m(p := ctx))"
proof -
  let ?pc = "ac_pc ac" and ?pc' = "ac_pc ac1" and ?rows = "rows(p \<mapsto> i)" and ?m = "m(p := ctx)" and ?X = "fslot ` m ` P"
  note D = rows_invD [OF inv]
  note E = cfg_eqD [OF D(1)]
  have dom: "in_dom ?pc r pg" using d E(2) by simp
  have u: "unprefetched (pc_ranges ?pc r pg)" using D(3) dom by (simp add: no_prefetch_def)
  have b1: "cnt_of (dstate ?pc r pg) + unat (1 :: u32) < 2 ^ 29" using b by simp
  note I = in_flight_state [OF fl D(2) dom nv b1 u free]
  have e0: "cfg_eq ?pc' pc0" by (rule cfg_eq_trans [OF I(1) D(1)])
  note E0 = cfg_eqD [OF e0] and E1 = cfg_eqD [OF I(1)]
  have pP: "p \<notin> P" using p D(6) by blast
  have mP: "?m q' = m q'" "?rows q' = rows q'" if "q' \<in> P" for q' using that pP by auto
  let ?k = "fkey ctx"
  have k: "?k = (cx_member_acquire_ctrl c1, q, cx_cid c1)" using ctx by (simp add: fkey_def)
  have F: "\<not> cx_isHit c1" "cx_page_trans c1 = s" "cx_has_pending_io c1 = 1" "cx_member_acquire_ctrl c1 \<in> ctrls_of ?pc r pg"
     "ac_sub ac1 = (ac_sub ac)(?k \<mapsto> rw_cmd ?pc' (cx_cid c1) (ucast (io_opcode NVM_IO_READ)) (page_lba ?pc r pg) (pc_n_blocks_per_page ?pc) (ucast s))"
     "ac_done ac1 = ac_done ac" "cp_cid (pc_cids ?pc (cx_member_acquire_ctrl c1) q) (unat (cx_cid c1)) = UNLOCKED"
    using fl unfolding in_flight_def Let_def k by blast+
  note C = in_flight_cids [OF fl]
  have other: "fkey (m q') \<noteq> ?k" "row_page pc0 arr (the (rows q')) \<noteq> (r, pg)" if q': "q' \<in> P" for q'
  proof -
    obtain r' pg' where y: "row_page pc0 arr (the (rows q')) = (r', pg')" by force
    note f = flightD [OF D(15) [OF q', unfolded y]]
    show "fkey (m q') \<noteq> ?k" using f(10) F(7) unfolding k by auto
    show "row_page pc0 arr (the (rows q')) \<noteq> (r, pg)" using f(4) nb y by auto
  qed
  have nk: "\<not> completed ac ?k" "ac_sub ac ?k = None" using D(12,13) [of ?k] other(1) by blast+
  let ?cmd = "rw_cmd ?pc' (cx_cid c1) (ucast (io_opcode NVM_IO_READ)) (page_lba ?pc r pg) (pc_n_blocks_per_page ?pc) (ucast s)"
  have ok: "wf_cmd (pc_local_cmd ?pc')" "blocks_ok (pc_n_blocks_per_page ?pc)"
    using inv0D(1) [OF I(2)] inv0D(1) [OF D(2)] by (simp_all add: cfg_ok_def cfg_slots_def)
  note dec = rw_cmd_decoded [OF ok]
  have prp: "pc_prp1 ?pc' = pc_prp1 ?pc" using I(1) by (simp add: cfg_eq_def)
  have rd: "reads_page ?pc' ?cmd s (r, pg)"
    unfolding reads_page_def dec using E1 by (simp add: opcodes nblk_def)
  have new: "flight ac1 ctx (r, pg)"
  proof (rule flightI)
    show "in_dom ?pc' r pg" using dom E1(2) by simp
    show "\<not> cx_isHit (rx_ctx ctx)" "cx_has_pending_io (rx_ctx ctx) = 1" using F(1,3) ctx by simp_all
    show "is_busy (dstate ?pc' r pg)" "\<not> is_valid (dstate ?pc' r pg)" by (fact I)+
    show "doffset ?pc' r pg = fslot ctx" "is_slot ?pc' (fslot ctx)" "holds_page ?pc' (fslot ctx) r pg"
      using I(6,7,13) F(2) ctx(1) E1 by (simp_all add: fslot_def)
    show "fst ?k \<in> ctrls_of ?pc' r pg" using F(4) E1 k by simp
    show "cp_cid (pc_cids ?pc' (fst ?k) (fst (snd ?k))) (unat (snd (snd ?k))) = LOCKED" unfolding k using C(1) by simp
    show "\<not> completed ac1 ?k \<and> reads_page ?pc' cmd (fslot ctx) (r, pg)" if "ac_sub ac1 ?k = Some cmd" for cmd
      using that nk rd F(2,5,6) ctx(1) by (auto simp: completed_def fslot_def split: prod.splits)
    show "completed ac1 ?k \<and> (\<forall>j < nblk ?pc'. slot_data ?pc' (fslot ctx) j = content ?pc' r pg j)" if "ac_sub ac1 ?k = None"
      using that F(5) by simp
  qed
  have st: "pc_ranges ?pc' r' pg' = pc_ranges ?pc r' pg'"
    if "(r', pg') \<noteq> (r, pg)" "\<not> is_valid (dstate ?pc r' pg') \<or> cnt_of (dstate ?pc r' pg') \<noteq> 0" for r' pg'
    using kept_page [OF I(4) that(1)] that(2) by (auto simp: evictable_def)
  have ot: "cnt_of (dstate ?pc' r' pg') = cnt_of (dstate ?pc r' pg')"
      "dp_ref_count (pc_ranges ?pc' r' pg') = dp_ref_count (pc_ranges ?pc r' pg')"
      "unprefetched (pc_ranges ?pc' r' pg') = unprefetched (pc_ranges ?pc r' pg')"
      "is_busy (dstate ?pc' r' pg') \<Longrightarrow> is_busy (dstate ?pc r' pg')"
    if y: "(r', pg') \<noteq> (r, pg)" for r' pg'
  proof -
    have "pc_ranges ?pc' r' pg' = pc_ranges ?pc r' pg' \<or> evictable ?pc r' pg' \<and> pc_ranges ?pc' r' pg' = (pc_ranges ?pc r' pg')\<lparr>dp_state := 0\<rparr>"
      using I(4) y by (simp add: others_kept_def)
    then show "cnt_of (dstate ?pc' r' pg') = cnt_of (dstate ?pc r' pg')"
      "dp_ref_count (pc_ranges ?pc' r' pg') = dp_ref_count (pc_ranges ?pc r' pg')"
      "unprefetched (pc_ranges ?pc' r' pg') = unprefetched (pc_ranges ?pc r' pg')"
      "is_busy (dstate ?pc' r' pg') \<Longrightarrow> is_busy (dstate ?pc r' pg')"
      by (auto simp: evictable_def dstate_def cnt_of_def is_busy_def unprefetched_def)
  qed
  have used: "cnt_of (dstate ?pc (fst (row_page pc0 arr j)) (snd (row_page pc0 arr j))) \<noteq> 0 \<or> \<not> in_dom pc0 (fst (row_page pc0 arr j)) (snd (row_page pc0 arr j))"
    if "rows q' = Some j" for q' j
  proof -
    have "q' \<in> dom rows" "the (rows q') = j" using that by auto
    then show ?thesis using rows_users_pos [OF D(5), of q' pc0 arr] D(7) [of "fst (row_page pc0 arr j)" "snd (row_page pc0 arr j)"] by auto
  qed
  have keep: "pc_ranges ?pc' (fst (row_page pc0 arr j)) (snd (row_page pc0 arr j)) = pc_ranges ?pc (fst (row_page pc0 arr j)) (snd (row_page pc0 arr j))"
    if "rows q' = Some j" "is_valid (dstate ?pc (fst (row_page pc0 arr j)) (snd (row_page pc0 arr j)))" for q' j
  proof -
    have "row_page pc0 arr j \<noteq> (r, pg)" using that(2) nv by auto
    then show ?thesis using kept_page [OF I(4), of "fst (row_page pc0 arr j)" "snd (row_page pc0 arr j)"] used [OF that(1)] E(2)
      by (auto simp: evictable_def)
  qed
  have old: "flight ac1 (m q') (row_page pc0 arr (the (rows q')))" if q': "q' \<in> P" for q'
  proof -
    obtain r' pg' where y: "row_page pc0 arr (the (rows q')) = (r', pg')" by force
    have f: "flight ac (m q') (r', pg')" using D(15) [OF q'] y by simp
    have ne: "(r', pg') \<noteq> (r, pg)" using other(2) [OF q'] y by simp
    have eq: "pc_ranges ?pc' r' pg' = pc_ranges ?pc r' pg'" using st [OF ne] flightD(5) [OF f] by simp
    have sl: "fslot (m q') \<noteq> s" using I(5) q' by auto
    have sub: "ac_sub ac1 (fkey (m q')) = ac_sub ac (fkey (m q'))" using other(1) [OF q'] by (simp add: F(5))
    have co: "completed ac1 (fkey (m q')) = completed ac (fkey (m q'))" by (simp add: completed_def F(6))
    have fe: "frame ?pc' x = frame ?pc x" for x using I(8) by simp
    show ?thesis unfolding y
      by (rule flight_frame [OF f I(1) _ _ _ I(9) [OF sl] fe sub co C(2) [OF flightD(10) [OF f]] I(3)])
        (simp_all add: dstate_def doffset_def eq)
  qed
  have img: "fslot ` ?m ` insert p P = insert s ?X"
  proof -
    have "fslot ` ?m ` P = ?X" unfolding image_image using mP(1) by (intro image_cong refl) (simp only:)
    moreover have "fslot (?m p) = s" using F(2) ctx(1) by (simp add: fslot_def)
    ultimately show ?thesis by (simp only: image_insert)
  qed
  have us: "cnt_of (dstate ?pc' r' pg') = row_users pc0 arr ?rows r' pg' \<and> dp_ref_count (pc_ranges ?pc' r' pg') = of_nat (row_users pc0 arr ?rows r' pg')"
    if "in_dom pc0 r' pg'" for r' pg'
    using D(7,8) [OF that] I(12,14) ot(1,2) [of r' pg'] x
    by (cases "(r', pg') = (r, pg)") (auto simp: row_users_add [OF D(5) p])
  have np: "no_prefetch ?pc'" unfolding no_prefetch_def
  proof (intro allI impI)
    fix r' pg' assume "in_dom ?pc' r' pg'"
    then show "unprefetched (pc_ranges ?pc' r' pg')"
      using D(3) I(15) ot(3) E1(2) by (cases "(r', pg') = (r, pg)") (auto simp: no_prefetch_def)
  qed
  have exP: "\<exists>q' \<in> insert p P. row_page pc0 arr (the (?rows q')) = y" if "\<exists>q' \<in> P. row_page pc0 arr (the (rows q')) = y" for y
    using that mP by auto
  have exp: "\<exists>q' \<in> insert p P. row_page pc0 arr (the (?rows q')) = (r, pg)" using x by simp
  have exk: "\<exists>q' \<in> insert p P. fkey (?m q') = y" if "y = ?k \<or> (\<exists>q' \<in> P. fkey (m q') = y)" for y
    using that mP by auto
  show ?thesis
  proof (rule rows_invI)
    show "inv0 (fslot ` ?m ` insert p P) ?pc'" unfolding img by (fact I(2))
    show "same_content ?pc' pc0" by (rule same_content_trans [OF I(3) D(4,1)])
    show "finite (dom ?rows)" "insert p P \<subseteq> dom ?rows" using D(5,6) by auto
    show "inj_on (\<lambda>q'. row_page pc0 arr (the (?rows q'))) (insert p P)"
    proof (rule inj_on_insert [THEN iffD2, OF conjI])
      show "inj_on (\<lambda>q'. row_page pc0 arr (the (?rows q'))) P" using D(10) mP(2) by (simp add: inj_on_def)
      show "row_page pc0 arr (the (?rows p)) \<notin> (\<lambda>q'. row_page pc0 arr (the (?rows q'))) ` (P - {p})"
        using other(2) mP(2) x by fastforce
    qed
    show "inj_on (\<lambda>q'. fkey (?m q')) (insert p P)"
    proof (rule inj_on_insert [THEN iffD2, OF conjI])
      show "inj_on (\<lambda>q'. fkey (?m q')) P" using D(11) mP(1) by (simp add: inj_on_def)
      show "fkey (?m p) \<notin> (\<lambda>q'. fkey (?m q')) ` (P - {p})" using other(1) mP(1) by fastforce
    qed
    show "distinct (ac_done ac1 y)" for y unfolding F(6) by (rule D(14))
    show "\<exists>q' \<in> insert p P. row_page pc0 arr (the (?rows q')) = (r', pg')" if "in_dom pc0 r' pg'" "is_busy (dstate ?pc' r' pg')" for r' pg'
    proof (cases "(r', pg') = (r, pg)")
      case True
      then show ?thesis using exp by simp
    next
      case False
      show ?thesis by (rule exP [OF D(9) [OF that(1) ot(4) [OF False that(2)]]])
    qed
    show "\<exists>q' \<in> insert p P. fkey (?m q') = y" if "ac_sub ac1 y \<noteq> None" for y
      using that D(12) [of y] by (intro exk) (auto simp: F(5) split: if_splits)
    show "\<exists>q' \<in> insert p P. fkey (?m q') = y" if "completed ac1 y" for y
      using that D(13) [of y] by (intro exk) (auto simp: completed_def F(6))
    show "flight ac1 (?m q') (row_page pc0 arr (the (?rows q')))" if "q' \<in> insert p P" for q'
      using that old new mP x by (cases "q' = p") auto
    fix q' j assume q: "?rows q' = Some j"
    show "row_known pc0 arr ?pc' (?m q') j"
    proof (cases "q' = p")
      case True
      then show ?thesis using q ctx x fr F(1) by (auto simp: row_known_def)
    next
      case False
      then have qj: "rows q' = Some j" using q by simp
      then show ?thesis using D(16) [OF qj] keep [OF qj] False by (auto simp: row_known_def dstate_def doffset_def)
    qed
    show "cx_isHit (rx_ctx (?m q')) \<or> q' \<in> insert p P \<or> cx_has_pending_io (rx_ctx (?m q')) = 0"
      using q D(17) [of q' j] by (cases "q' = p") auto
    show "is_valid (dstate ?pc' (fst (row_page pc0 arr j)) (snd (row_page pc0 arr j))) \<or> (\<exists>q' \<in> insert p P. row_page pc0 arr (the (?rows q')) = row_page pc0 arr j)"
    proof (cases "q' = p")
      case True
      then have "row_page pc0 arr j = (r, pg)" using q x by simp
      then show ?thesis using exp by simp
    next
      case False
      then have qj: "rows q' = Some j" using q by simp
      show ?thesis
      proof (cases "is_valid (dstate ?pc (fst (row_page pc0 arr j)) (snd (row_page pc0 arr j)))")
        case True
        then show ?thesis using keep [OF qj] by (simp add: dstate_def)
      next
        case False
        then show ?thesis using D(18) [OF qj] exP [of "row_page pc0 arr j"] by blast
      qed
    qed
  qed (use us e0 np in blast)+
qed

lemma row_page_eq: "cfg_eq pc pc0 \<Longrightarrow> row_page pc arr i = row_page pc0 arr i"
  by (simp add: row_page_def cfg_eq_array(3))

lemma row_page_dom: "ad_ok pc arr \<Longrightarrow> find_range arr i \<noteq> None \<Longrightarrow> row_page pc arr i = (r, pg) \<Longrightarrow> in_dom pc r pg"
  using array_lane(5) by (auto simp: row_page_def)

text \<open>A row is submitted to a page that is valid, being read, or neither.\<close>

lemma submit_keeps:
  assumes inv: "rows_inv pc0 arr rows P ac m" and p: "p \<notin> dom rows" and fr: "find_range arr i \<noteq> None" and x: "row_page pc0 arr i = (r, pg)"
    and d: "in_dom pc0 r pg" and c0: "cx_has_pending_io ctx0 = 0" and b: "row_users pc0 arr rows r pg + 1 < 2 ^ 29"
    and ret: "acquire_page_submit_async ac r pg 1 False q ctx0 = Some (ac1, c1, a)" and free: "cids_free (pc_cids (ac_pc ac1))"
    and ctx: "rx_ctx ctx = c1" "rx_queue ctx = q" "rx_r ctx = find_range arr i" "rx_page ctx = pg"
  shows "\<exists>P'. rows_inv pc0 arr (rows(p \<mapsto> i)) P' ac1 (m(p := ctx)) \<and> (P' = P \<or> P' = insert p P) \<and>
    (P' = P \<longrightarrow> cx_isHit c1 \<or> cx_has_pending_io c1 = 0)"
proof -
  let ?pc = "ac_pc ac" and ?pc1 = "entered_ref (ac_pc ac) r pg 1"
  note D = rows_invD [OF inv]
  note E = cfg_eqD [OF D(1)]
  have dom: "in_dom ?pc r pg" using d E(2) by simp
  have u: "unprefetched (pc_ranges ?pc r pg)" using D(3) dom by (simp add: no_prefetch_def)
  have b': "cnt_of (dstate ?pc r pg) + 1 < 2 ^ 29" using b D(7) [OF d] by simp
  then have b1: "cnt_of (dstate ?pc r pg) + unat (1 :: u32) < 2 ^ 29" by simp
  note N = entered_ref_page [OF b1 u]
  consider (hit) "is_valid (dstate ?pc r pg)" | (join) "\<not> is_valid (dstate ?pc r pg)" "is_busy (dstate ?pc r pg)"
    | (miss) "\<not> is_valid (dstate ?pc r pg)" "\<not> is_busy (dstate ?pc r pg)" by blast
  then show ?thesis
  proof cases
    case hit
    have nb: "\<not> is_busy (dstate ?pc r pg)" using inv0_valid(1) [OF D(2) dom hit] .
    have e: "ac1 = ac\<lparr>ac_pc := ?pc1\<lparr>pc_hit_cnt := bump r (ucast (1::u32)) (pc_hit_cnt ?pc1)\<rparr>\<rparr>"
      "c1 = ctx0\<lparr>cx_isHit := True, cx_page_trans := doffset ?pc1 r pg, cx_observed_page_translation := observe ?pc1 (doffset ?pc1 r pg)\<rparr>"
      using ret unfolding submit_hit_eq [OF hit nb] by simp_all
    have "rows_inv pc0 arr (rows(p \<mapsto> i)) P ac1 (m(p := ctx))"
      by (rule rows_user_added [OF inv p x d])
        (use N x fr ctx hit in \<open>simp_all add: e row_known_def cfg_eq_def dstate_def doffset_def same_cids_def fslot_def\<close>)
    then show ?thesis using e by auto
  next
    case join
    obtain n t o' c where e: "ac1 = ac\<lparr>ac_pc := ?pc1\<lparr>pc_ctrl_counter := n\<rparr>\<rparr>"
      "c1 = ctx0\<lparr>cx_isHit := False, cx_page_trans := t, cx_observed_page_translation := o', cx_member_acquire_ctrl := c\<rparr>"
      using submit_join [OF join ret] by blast
    have "rows_inv pc0 arr (rows(p \<mapsto> i)) P ac1 (m(p := ctx))"
      by (rule rows_user_added [OF inv p x d])
        (use N x fr ctx join c0 in \<open>simp_all add: e row_known_def cfg_eq_def dstate_def doffset_def same_cids_def fslot_def\<close>)
    then show ?thesis using e c0 by auto
  next
    case miss
    have X: "\<forall>s \<in> fslot ` m ` P. page_translation (pc_cache_pages ?pc s) \<noteq> get_global_address ?pc r pg"
    proof
      fix s assume "s \<in> fslot ` m ` P"
      then obtain p' where p': "p' \<in> P" "s = fslot (m p')" by blast
      obtain r' pg' where y: "row_page pc0 arr (the (rows p')) = (r', pg')" by force
      have f: "flight ac (m p') (r', pg')" using D(15) [OF p'(1)] y by simp
      have ne: "(r', pg') \<noteq> (r, pg)" using flightD(4) [OF f] miss(2) by auto
      have "page_translation (pc_cache_pages ?pc s) = get_global_address ?pc r' pg'" using flightD(8) [OF f] p'(2) by (simp add: holds_page_def)
      moreover have "get_global_address ?pc r' pg' \<noteq> get_global_address ?pc r pg"
        using global_address_inj [of ?pc r' pg' r pg] dom flightD(1) [OF f] inv0D(1) [OF D(2)] ne by (auto simp: cfg_ok_def)
      ultimately show "page_translation (pc_cache_pages ?pc s) \<noteq> get_global_address ?pc r pg" by simp
    qed
    have be: "cnt_of (dstate ?pc r pg) + unat (1 :: u32) + extra_count (pc_ranges ?pc r pg) < 2 ^ 29" using b1 unprefetched_extra(1) [OF u] by simp
    obtain pc3 s where fl: "in_flight (fslot ` m ` P) ac ac1 c1 r pg 1 q pc3 s"
      using submit_only_found [OF rows_kept [OF inv] dom miss be X ret] by blast
    have "rows_inv pc0 arr (rows(p \<mapsto> i)) (insert p P) ac1 (m(p := ctx))"
      by (rule rows_flight_added [OF inv p x d fr miss b' free fl ctx])
    moreover have "insert p P \<noteq> P" using p D(6) by auto
    ultimately show ?thesis by blast
  qed
qed

lemma flights_apart:
  assumes inv: "rows_inv pc0 arr rows P ac m" and p: "p \<in> P" "p' \<in> P" and e: "fslot (m p) = fslot (m p')"
  shows "p = p'"
proof -
  note D = rows_invD [OF inv]
  obtain r pg where x: "row_page pc0 arr (the (rows p)) = (r, pg)" by force
  obtain r' pg' where y: "row_page pc0 arr (the (rows p')) = (r', pg')" by force
  have f: "flight ac (m p) (r, pg)" "flight ac (m p') (r', pg')" using D(15) [OF p(1)] D(15) [OF p(2)] x y by simp_all
  have "get_global_address (ac_pc ac) r pg = get_global_address (ac_pc ac) r' pg'"
    using flightD(8) [OF f(1)] flightD(8) [OF f(2)] e by (simp add: holds_page_def)
  then have "(r, pg) = (r', pg')"
    using global_address_inj [of "ac_pc ac" r pg r' pg'] flightD(1) [OF f(1)] flightD(1) [OF f(2)] inv0D(1) [OF D(2)] by (auto simp: cfg_ok_def)
  then show ?thesis using D(10) x y p by (auto simp: inj_on_def)
qed

text \<open>The device completes a command.\<close>

lemma device_keeps:
  assumes inv: "rows_inv pc0 arr rows P ac m"
  shows "rows_inv pc0 arr rows P (device_complete c q cid ac) m"
proof (cases "ac_sub ac (c, q, cid)")
  case None
  then show ?thesis using inv by (simp add: device_complete_def)
next
  case (Some cmd)
  let ?k = "(c, q, cid)" and ?ac = "device_complete c q cid ac" and ?pc = "ac_pc ac"
  note D = rows_invD [OF inv]
  obtain p where p: "p \<in> P" "fkey (m p) = ?k" using D(12) [of ?k] Some by auto
  obtain r pg where x: "row_page pc0 arr (the (rows p)) = (r, pg)" by force
  have f: "flight ac (m p) (r, pg)" using D(15) [OF p(1)] x by simp
  define s where "s = fslot (m p)"
  have nc: "\<not> completed ac ?k" and rd: "reads_page ?pc cmd s (r, pg)" using flightD(11) [OF f, of cmd] Some p(2) by (simp_all add: s_def)
  let ?F = "\<lambda>k. if k < nblk ?pc then disk ?pc c (page_lba ?pc r pg + of_nat k) else frame ?pc (pc_prp1 ?pc (ucast s)) k"
  let ?pc' = "?pc\<lparr>frame := (frame ?pc)(pc_prp1 ?pc (ucast s) := ?F)\<rparr>"
  have ex: "device_exec c cmd ?pc = ?pc'" using rd by (simp add: device_exec_def Let_def reads_page_def cong: if_cong)
  have pc': "ac_pc ?ac = ?pc'" using ex Some by (simp add: device_complete_def)
  have sub: "ac_sub ?ac = (ac_sub ac)(?k := None)" and dn: "ac_done ?ac = (ac_done ac)((c, q) := ac_done ac (c, q) @ [cid])"
    using Some by (simp_all add: device_complete_def)
  have co: "completed ?ac k = (completed ac k \<or> k = ?k)" for k
    by (cases k) (auto simp: completed_def dn)
  have e: "cfg_eq ?pc' ?pc" by (simp add: cfg_eq_def)
  have sl: "is_slot ?pc s" "s \<in> fslot ` m ` P" using flightD(7) [OF f] p(1) by (auto simp: s_def)
  have i: "inv0 (insert s (fslot ` m ` P)) ?pc" using D(2) sl(2) by (simp add: insert_absorb)
  have i': "inv0 (fslot ` m ` P) ?pc'" "same_content ?pc' ?pc"
    using inv0_read [OF i sl(1) e] inv0D(2) [OF D(2)] sl(2) by (simp_all add: insert_absorb)
  have st: "dstate ?pc' = dstate ?pc" "doffset ?pc' = doffset ?pc" by (simp_all add: fun_eq_iff dstate_def doffset_def)
  have old: "flight ?ac (m p') (r', pg')" if p': "p' \<in> P" "p' \<noteq> p" and y: "row_page pc0 arr (the (rows p')) = (r', pg')" for p' r' pg'
  proof -
    have g: "flight ac (m p') (r', pg')" using D(15) [OF p'(1)] y by simp
    have "fslot (m p') \<noteq> s" using flights_apart [OF inv p'(1) p(1)] p'(2) by (auto simp: s_def)
    then have a: "pc_prp1 ?pc (ucast (fslot (m p'))) \<noteq> pc_prp1 ?pc (ucast s)" using prp1_inj [OF inv0D(1) [OF D(2)] flightD(7) [OF g] sl(1)] by blast
    have k: "fkey (m p') \<noteq> ?k" using D(11) p p' by (auto simp: inj_on_def)
    show ?thesis
      by (rule flight_frame [OF g, of ?ac])
        (use a k flightD(10) [OF g] i'(2) e in \<open>simp_all add: pc' st sub co\<close>)
  qed
  have new: "flight ?ac (m p) (r, pg)"
  proof (rule flightI)
    note E = cfg_eqD [OF e]
    show "in_dom (ac_pc ?ac) r pg" "is_busy (dstate (ac_pc ?ac) r pg)" "\<not> is_valid (dstate (ac_pc ?ac) r pg)"
      "doffset (ac_pc ?ac) r pg = fslot (m p)" "is_slot (ac_pc ?ac) (fslot (m p))" "fst (fkey (m p)) \<in> ctrls_of (ac_pc ?ac) r pg"
      using flightD [OF f] by (simp_all add: pc' st E)
    show "holds_page (ac_pc ?ac) (fslot (m p)) r pg" using flightD(8) [OF f] by (simp add: pc' holds_page_def E)
    show "cp_cid (pc_cids (ac_pc ?ac) (fst (fkey (m p))) (fst (snd (fkey (m p))))) (unat (snd (snd (fkey (m p))))) = LOCKED"
      using flightD(10) [OF f] by (simp add: pc')
    show "\<not> completed ?ac (fkey (m p)) \<and> reads_page (ac_pc ?ac) cmd' (fslot (m p)) (r, pg)" if "ac_sub ?ac (fkey (m p)) = Some cmd'" for cmd'
      using that p(2) by (simp add: sub)
    have "slot_data ?pc' s k = content ?pc' r pg k" if k: "k < nblk ?pc" for k
    proof -
      have nd: "\<not> is_dirty (dstate ?pc r pg)" using inv0_dirty [OF D(2) flightD(1) [OF f]] flightD(5) [OF f] by blast
      have "c \<in> ctrls_of ?pc r pg" using flightD(9) [OF f] p(2) by simp
      then have "disk ?pc c (page_lba ?pc r pg + of_nat k) = content ?pc r pg k" by (rule inv0_clean [OF D(2) flightD(1) [OF f] nd k])
      also have "\<dots> = content ?pc' r pg k" using i'(2) flightD(1) [OF f] k by (simp add: same_content_def)
      finally show ?thesis using k by (simp add: slot_data_def)
    qed
    then show "completed ?ac (fkey (m p)) \<and> (\<forall>k < nblk (ac_pc ?ac). slot_data (ac_pc ?ac) (fslot (m p)) k = content (ac_pc ?ac) r pg k)"
      using p(2) E by (simp add: co pc' s_def)
  qed (use flightD(2,3) [OF f] in simp_all)
  show ?thesis
  proof (rule rows_invI)
    show "cfg_eq (ac_pc ?ac) pc0" unfolding pc' by (rule cfg_eq_trans [OF e D(1)])
    show "inv0 (fslot ` m ` P) (ac_pc ?ac)" unfolding pc' by (fact i'(1))
    show "same_content (ac_pc ?ac) pc0" unfolding pc' by (rule same_content_trans [OF i'(2) D(4,1)])
    show "no_prefetch (ac_pc ?ac)" using D(3) cfg_eqD(2) [OF e] by (simp add: pc' no_prefetch_def)
    show "distinct (ac_done ?ac k)" for k using D(14) nc by (auto simp: dn completed_def)
    show "\<exists>p \<in> P. fkey (m p) = k" if "ac_sub ?ac k \<noteq> None" for k using D(12) [of k] that by (auto simp: sub split: if_splits)
    show "\<exists>p \<in> P. fkey (m p) = k" if "completed ?ac k" for k using D(13) [of k] that p by (auto simp: co)
    show "flight ?ac (m p') (row_page pc0 arr (the (rows p')))" if "p' \<in> P" for p'
    proof (cases "p' = p")
      case True
      then show ?thesis using new x by simp
    next
      case False
      obtain r' pg' where y: "row_page pc0 arr (the (rows p')) = (r', pg')" by force
      show ?thesis unfolding y by (rule old [OF that False y])
    qed
  qed (use D in \<open>simp_all add: pc' st row_known_def\<close>)
qed

lemma row_rng: "rd_range_id (ad_ranges arr ! the (find_range arr i)) = fst (row_page pc arr i)"
  by (simp add: row_page_def array_lane_def Let_def)

lemma put_cid_frees: "cids_free C \<Longrightarrow> cids_free (C(c := (C c)(q := put_cid (unat (cid :: u16)) (C c q))))"
proof -
  assume C: "cids_free C"
  have "unat cid < 65536" using unsigned_less [of cid, where 'a = nat] by simp
  then show ?thesis using C by (fastforce simp: cids_free_def put_cid_def pool_ok_def)
qed

text \<open>The page of a finished transfer becomes valid.\<close>

definition finished :: "'b page_cache \<Rightarrow> u64 \<Rightarrow> u64 \<Rightarrow> u32 \<Rightarrow> 'b page_cache \<Rightarrow> bool" where
  "finished pc r pg s pc' \<longleftrightarrow> cfg_eq pc' pc \<and> pc_cache_pages pc' = pc_cache_pages pc \<and> disk pc' = disk pc \<and> frame pc' = frame pc \<and>
     pc_cids pc' = pc_cids pc \<and> (\<forall>r' pg'. (r', pg') \<noteq> (r, pg) \<longrightarrow> pc_ranges pc' r' pg' = pc_ranges pc r' pg') \<and>
     pc_ranges pc' r pg = (pc_ranges pc r pg)\<lparr>dp_offset := s, dp_state := dstate pc r pg XOR DISABLE_BUSY_ENABLE_VALID, dp_polling_flag := 0\<rparr>"

lemma finalize_busy:
  assumes k: "rx_r ctx = Some k" and h: "\<not> cx_isHit (rx_ctx ctx)" and pg: "rx_page ctx = pg" and r: "rd_range_id (ad_ranges arr ! k) = r"
    and st: "is_busy (dstate pc r pg)" "\<not> is_valid (dstate pc r pg)"
  shows "\<exists>pc' obs. finalize_registered_ctx_completion pc arr ctx =
      (pc', ctx\<lparr>rx_ctx := (rx_ctx ctx)\<lparr>cx_observed_page_translation := obs, cx_isHit := True, cx_has_pending_io := 0\<rparr>\<rparr>, True) \<and>
    finished pc r pg (fslot ctx) pc'"
proof -
  have b: "state_of_word (dp_state (pc_ranges pc r pg)) = NV_B" using st by (simp add: state_of_word_busy dstate_def)
  have n: "NV_B \<noteq> V_NB" by (simp add: NV_B_def V_NB_def)
  show ?thesis
    by (simp add: finalize_registered_ctx_completion_def k h Let_def pg r b n)
      (simp add: finished_def cfg_eq_def upd_page_def upd_state_def fslot_def dstate_def, rule exI, rule refl)
qed

text \<open>A completion is taken off its queue and its identifier given back.\<close>

definition completion_taken :: "u64 \<Rightarrow> u32 \<Rightarrow> u16 \<Rightarrow> 'b async_cache \<Rightarrow> 'b async_cache \<Rightarrow> bool" where
  "completion_taken c q cid ac ac1 \<longleftrightarrow> cid \<in> set (ac_done ac (c, q)) \<and> ac_sub ac1 = ac_sub ac \<and>
     ac_done ac1 = (ac_done ac)((c, q) := remove1 cid (ac_done ac (c, q))) \<and>
     pc_cids (ac_pc ac1) = (pc_cids (ac_pc ac))(c := (pc_cids (ac_pc ac) c)(q := put_cid (unat cid) (pc_cids (ac_pc ac) c q))) \<and>
     cfg_eq (ac_pc ac1) (ac_pc ac) \<and> pc_cache_pages (ac_pc ac1) = pc_cache_pages (ac_pc ac) \<and> disk (ac_pc ac1) = disk (ac_pc ac) \<and>
     frame (ac_pc ac1) = frame (ac_pc ac) \<and> pc_ranges (ac_pc ac1) = pc_ranges (ac_pc ac)"

lemma take_head_taken: "take_head ac c q = Some (ac1, cid) \<Longrightarrow> completion_taken c q cid ac ac1"
  by (auto simp: completion_taken_def take_head_def set_cids_def cfg_eq_def split: list.splits)

lemma flight_finished:
  assumes inv: "rows_inv pc0 arr rows P ac m" and p: "p \<in> P" and k: "fkey (m p) = (c, q, cid)" and x: "row_page pc0 arr (the (rows p)) = (r, pg)"
    and T: "completion_taken c q cid ac ac1" and fin: "finished (ac_pc ac1) r pg (fslot (m p)) pc'"
    and ctx: "rx_r ctx' = rx_r (m p)" "rx_page ctx' = rx_page (m p)" "cx_isHit (rx_ctx ctx')" "fslot ctx' = fslot (m p)"
  shows "rows_inv pc0 arr rows (P - {p}) (ac1\<lparr>ac_pc := pc'\<rparr>) (m(p := ctx'))"
proof -
  let ?pc = "ac_pc ac" and ?ac = "ac1\<lparr>ac_pc := pc'\<rparr>" and ?m = "m(p := ctx')" and ?k = "(c, q, cid)" and ?s = "fslot (m p)"
  note D = rows_invD [OF inv]
  have f: "flight ac (m p) (r, pg)" using D(15) [OF p] x by simp
  note F = flightD [OF f]
  have C1: "pc_cids (ac_pc ac1) = (pc_cids ?pc)(c := (pc_cids ?pc c)(q := put_cid (unat cid) (pc_cids ?pc c q)))"
    and A1: "ac_sub ac1 = ac_sub ac" "ac_done ac1 = (ac_done ac)((c, q) := remove1 cid (ac_done ac (c, q)))" "cfg_eq (ac_pc ac1) ?pc" "pc_cache_pages (ac_pc ac1) = pc_cache_pages ?pc"
      "disk (ac_pc ac1) = disk ?pc" "frame (ac_pc ac1) = frame ?pc" "pc_ranges (ac_pc ac1) = pc_ranges ?pc"
    and dn: "cid \<in> set (ac_done ac (c, q))"
    using T unfolding completion_taken_def by blast+
  have R: "cfg_eq pc' ?pc" "pc_cache_pages pc' = pc_cache_pages ?pc" "disk pc' = disk ?pc" "frame pc' = frame ?pc"
      "pc_cids pc' = pc_cids (ac_pc ac1)" "(r', pg') \<noteq> (r, pg) \<Longrightarrow> pc_ranges pc' r' pg' = pc_ranges ?pc r' pg'"
      "pc_ranges pc' r pg = (pc_ranges ?pc r pg)\<lparr>dp_offset := ?s, dp_state := dstate ?pc r pg XOR DISABLE_BUSY_ENABLE_VALID, dp_polling_flag := 0\<rparr>"
    for r' pg'
    using fin A1 cfg_eq_trans [OF _ A1(3)] by (auto simp: finished_def dstate_def)
  have E0: "cfg_eq pc' pc0" by (rule cfg_eq_trans [OF R(1) D(1)])
  have cf: "cids_free (pc_cids pc')" unfolding R(5) C1 by (rule put_cid_frees [OF inv0D(2) [OF D(2)]])
  have own: "is_valid (dstate pc' r pg)" "\<not> is_busy (dstate pc' r pg)" "doffset pc' r pg = ?s" "cnt_of (dstate pc' r pg) = cnt_of (dstate ?pc r pg)"
    using F(4,5) R(7) by (simp_all add: dstate_def doffset_def flag_simps)
  have oth: "dstate pc' r' pg' = dstate ?pc r' pg'" "doffset pc' r' pg' = doffset ?pc r' pg'" if "(r', pg') \<noteq> (r, pg)" for r' pg'
    using R(6) [OF that] by (simp_all add: dstate_def doffset_def)
  have val: "is_valid (dstate pc' r' pg')" if "is_valid (dstate ?pc r' pg')" for r' pg'
    using that own(1) oth [of r' pg'] by (cases "(r', pg') = (r, pg)") auto
  have ck: "completed ac ?k" using dn by (simp add: completed_def)
  have sub: "ac_sub ac ?k = None" using F(11) ck k by (cases "ac_sub ac ?k") auto
  have co: "completed ?ac y = (completed ac y \<and> y \<noteq> ?k)" for y
    using D(14) [of "(c, q)"] by (cases y) (auto simp: completed_def A1(2) set_remove1_eq)
  have sl: "is_slot ?pc ?s" by (rule F(7))
  let ?X = "fslot ` m ` (P - {p})"
  have X: "fslot ` m ` P = insert ?s ?X" using p by (simp only: image_insert [symmetric] insert_Diff)
  have sX: "?s \<notin> ?X" using flights_apart [OF inv p] by auto
  have img: "fslot ` ?m ` (P - {p}) = ?X" unfolding image_image by (intro image_cong refl) simp
  have i0: "inv0 (insert ?s ?X) ?pc" using D(2) unfolding X .
  have oo: "dstate pc' r' pg' = dstate ?pc r' pg' \<and> doffset pc' r' pg' = doffset ?pc r' pg'" if "(r', pg') \<noteq> (r, pg)" for r' pg'
    using oth [OF that] by simp
  have sd: "slot_data ?pc ?s j = content ?pc r pg j" if "j < nblk ?pc" for j
    using F(13) sub k that by simp
  note fill = inv0_fill [OF i0 sl sX R(1) cf R(3,2,4) F(1,8,5) sd own(1-3) oo]
  have st: "row_page pc0 arr (the (rows p')) \<noteq> (r, pg)" if "p' \<in> P - {p}" for p'
    using inj_onD [OF D(10), of p' p] x p that by auto
  have ky: "fkey (m p') \<noteq> ?k" if "p' \<in> P - {p}" for p' using inj_onD [OF D(11), of p' p] k p that by auto
  have old: "flight ?ac (m p') (r', pg')" if p': "p' \<in> P - {p}" and y: "row_page pc0 arr (the (rows p')) = (r', pg')" for p' r' pg'
  proof -
    have g: "flight ac (m p') (r', pg')" using D(15) [of p'] p' y by simp
    have ne: "(r', pg') \<noteq> (r, pg)" using st [OF p'] y by simp
    have l: "cp_cid (pc_cids pc' (fst (fkey (m p'))) (fst (snd (fkey (m p'))))) (unat (snd (snd (fkey (m p'))))) = LOCKED"
    proof -
      obtain c' q' cid' where k': "fkey (m p') = (c', q', cid')" using prod_cases3 by blast
      have "unat cid' \<noteq> unat cid" if "c' = c" "q' = q" using ky [OF p'] k' that by (auto simp: word_unat_eq_iff)
      then show ?thesis using flightD(10) [OF g] k' by (auto simp: R(5) C1 put_cid_def)
    qed
    show ?thesis
      by (rule flight_frame [OF g])
        (use l ne R(1) oth [OF ne] ky [OF p'] fill(2) in \<open>simp_all add: A1(1) co R(2,4)\<close>)
  qed
  have us: "cnt_of (dstate pc' r' pg') = cnt_of (dstate ?pc r' pg')" "dp_ref_count (pc_ranges pc' r' pg') = dp_ref_count (pc_ranges ?pc r' pg')"
    "unprefetched (pc_ranges pc' r' pg') = unprefetched (pc_ranges ?pc r' pg')" for r' pg'
    using own(4) R(6,7) by (cases "(r', pg') = (r, pg)"; simp add: dstate_def unprefetched_def)+
  obtain i where i: "rows p = Some i" "row_page pc0 arr i = (r, pg)" using D(6) p x by (metis domD option.sel subsetD)
  show ?thesis
  proof (rule rows_invI)
    show "cfg_eq (ac_pc ?ac) pc0" using E0 by simp
    show "inv0 (fslot ` ?m ` (P - {p})) (ac_pc ?ac)" unfolding img using fill(1) by simp
    show "same_content (ac_pc ?ac) pc0" using same_content_trans [OF fill(2) D(4,1)] by simp
    show "no_prefetch (ac_pc ?ac)" using D(3) cfg_eqD(2) [OF R(1)] by (simp add: no_prefetch_def us)
    show "finite (dom rows)" "P - {p} \<subseteq> dom rows" using D(5,6) by auto
    show "inj_on (\<lambda>p. row_page pc0 arr (the (rows p))) (P - {p})" using D(10) by (rule inj_on_diff)
    show "inj_on (\<lambda>p. fkey (?m p)) (P - {p})" using inj_on_diff [OF D(11), of "{p}"] by (simp add: inj_on_def)
    show "distinct (ac_done ?ac y)" for y using D(14) [of "(c, q)"] D(14) [of y] by (simp add: A1(2) distinct_remove1)
    show "cnt_of (dstate (ac_pc ?ac) r' pg') = row_users pc0 arr rows r' pg'"
      "dp_ref_count (pc_ranges (ac_pc ?ac) r' pg') = of_nat (row_users pc0 arr rows r' pg')" if "in_dom pc0 r' pg'" for r' pg'
      using D(7,8) [OF that] by (simp_all add: us)
    show "\<exists>p' \<in> P - {p}. row_page pc0 arr (the (rows p')) = (r', pg')" if d: "in_dom pc0 r' pg'" and bz: "is_busy (dstate (ac_pc ?ac) r' pg')" for r' pg'
    proof -
      have ne: "(r', pg') \<noteq> (r, pg)" using bz own(2) by auto
      then have "is_busy (dstate ?pc r' pg')" using bz oth(1) by simp
      then obtain p' where "p' \<in> P" "row_page pc0 arr (the (rows p')) = (r', pg')" using D(9) [OF d] by blast
      then show ?thesis using ne x by auto
    qed
    show "\<exists>p' \<in> P - {p}. fkey (?m p') = y" if "ac_sub ?ac y \<noteq> None" for y
    proof -
      have s: "ac_sub ac y \<noteq> None" using that by (simp add: A1(1))
      then have "y \<noteq> ?k" using sub by auto
      then show ?thesis using D(12) [OF s] k by auto
    qed
    show "\<exists>p' \<in> P - {p}. fkey (?m p') = y" if "completed ?ac y" for y
    proof -
      have "completed ac y" "y \<noteq> ?k" using that by (simp_all add: co)
      then show ?thesis using D(13) [of y] k by auto
    qed
    show "flight ?ac (?m p') (row_page pc0 arr (the (rows p')))" if p': "p' \<in> P - {p}" for p'
    proof -
      obtain r' pg' where y: "row_page pc0 arr (the (rows p')) = (r', pg')" by force
      show ?thesis using old [OF p' y] p' y by simp
    qed
    fix p' j assume j: "rows p' = Some j"
    show "row_known pc0 arr (ac_pc ?ac) (?m p') j"
    proof (cases "p' = p")
      case True
      then have "row_page pc0 arr j = (r, pg)" using i j by simp
      then show ?thesis using D(16) [OF j] own True ctx by (simp add: row_known_def)
    next
      case False
      have v: "doffset pc' r' pg' = doffset ?pc r' pg'" if "is_valid (dstate ?pc r' pg')" for r' pg'
        using that oth(2) [of r' pg'] F(5) by (cases "(r', pg') = (r, pg)") auto
      then show ?thesis using D(16) [OF j] val False by (simp add: row_known_def)
    qed
    show "cx_isHit (rx_ctx (?m p')) \<or> p' \<in> P - {p} \<or> cx_has_pending_io (rx_ctx (?m p')) = 0"
      using D(17) [OF j] ctx by (cases "p' = p") auto
    show "is_valid (dstate (ac_pc ?ac) (fst (row_page pc0 arr j)) (snd (row_page pc0 arr j))) \<or>
        (\<exists>p'' \<in> P - {p}. row_page pc0 arr (the (rows p'')) = row_page pc0 arr j)"
    proof (cases "row_page pc0 arr j = (r, pg)")
      case True
      then show ?thesis using own(1) by simp
    next
      case False
      then show ?thesis using D(18) [OF j] val x by auto
    qed
  qed
qed

lemma slot_not_pending:
  assumes "is_slot pc s" and "pc_n_pages pc < 2 ^ 32"
  shows "s \<noteq> ASYNC_PAGE_TRANS_PENDING" "\<not> ucast s \<ge> pc_n_pages pc"
proof -
  show "\<not> ucast s \<ge> pc_n_pages pc" using assms(1) by (simp add: is_slot_def)
  show "s \<noteq> ASYNC_PAGE_TRANS_PENDING"
  proof
    assume s: "s = ASYNC_PAGE_TRANS_PENDING"
    have "(ucast s :: u64) = 4294967295" unfolding s ASYNC_PAGE_TRANS_PENDING_def by simp
    then have "4294967295 < pc_n_pages pc" using assms(1) by (simp add: is_slot_def)
    then have "unat (4294967295 :: u64) < unat (pc_n_pages pc)" by (rule iffD1 [OF word_less_nat_alt])
    moreover have "unat (pc_n_pages pc) < unat (4294967296 :: u64)" using assms(2) by (simp add: word_less_nat_alt)
    ultimately show False by simp
  qed
qed

text \<open>A row that joined another one's transfer sees that the page is there.\<close>

lemma valid_row:
  assumes inv: "rows_inv pc0 arr rows P ac m" and i: "rows p = Some i" and ok: "ad_ok pc0 arr"
    and v: "is_valid (dstate (ac_pc ac) (fst (row_page pc0 arr i)) (snd (row_page pc0 arr i)))"
  shows "p \<notin> P" "in_dom (ac_pc ac) (fst (row_page pc0 arr i)) (snd (row_page pc0 arr i))"
    "is_slot (ac_pc ac) (doffset (ac_pc ac) (fst (row_page pc0 arr i)) (snd (row_page pc0 arr i)))"
    "state_of_word (dstate (ac_pc ac) (fst (row_page pc0 arr i)) (snd (row_page pc0 arr i))) = V_NB"
proof -
  note D = rows_invD [OF inv]
  have "in_dom pc0 (fst (row_page pc0 arr i)) (snd (row_page pc0 arr i))" using row_page_dom [OF ok, of i "fst (row_page pc0 arr i)" "snd (row_page pc0 arr i)"] D(16) [OF i] by (simp add: row_known_def)
  then show d: "in_dom (ac_pc ac) (fst (row_page pc0 arr i)) (snd (row_page pc0 arr i))" using cfg_eqD(2) [OF D(1)] by simp
  show "is_slot (ac_pc ac) (doffset (ac_pc ac) (fst (row_page pc0 arr i)) (snd (row_page pc0 arr i)))" by (rule inv0_valid(3) [OF D(2) d v])
  show "state_of_word (dstate (ac_pc ac) (fst (row_page pc0 arr i)) (snd (row_page pc0 arr i))) = V_NB"
    using v inv0_valid(1) [OF D(2) d v] by (simp add: state_of_word_cases)
  show "p \<notin> P"
  proof
    assume "p \<in> P"
    then have "flight ac (m p) (row_page pc0 arr i)" using D(15) [of p] i by simp
    then show False using flightD(5) [of ac "m p" "fst (row_page pc0 arr i)" "snd (row_page pc0 arr i)"] v by simp
  qed
qed

lemma refresh_keeps:
  assumes inv: "rows_inv pc0 arr rows P ac m" and i: "rows p = Some i" and ok: "ad_ok pc0 arr" and n: "pc_n_pages pc0 < 2 ^ 32"
    and r: "refresh_registered_ctx_from_valid_page (ac_pc ac) arr (m p) = (pc', ctx', b)"
  shows "rows_inv pc0 arr rows P (ac\<lparr>ac_pc := pc'\<rparr>) (m(p := ctx'))" "b = cx_isHit (rx_ctx ctx')"
    "b = is_valid (dstate (ac_pc ac) (fst (row_page pc0 arr i)) (snd (row_page pc0 arr i)))"
    "cx_isHit (rx_ctx (m p)) \<Longrightarrow> pc' = ac_pc ac \<and> ctx' = m p"
    "cx_has_pending_io (rx_ctx ctx') = cx_has_pending_io (rx_ctx (m p))" "fkey ctx' = fkey (m p)" "rx_ctrl ctx' = rx_ctrl (m p)"
proof -
  let ?pc = "ac_pc ac" and ?ac = "ac\<lparr>ac_pc := pc'\<rparr>" and ?m = "m(p := ctx')"
  note D = rows_invD [OF inv]
  obtain r pg where x: "row_page pc0 arr i = (r, pg)" by force
  obtain k where k: "find_range arr i = Some k" "rx_r (m p) = Some k" using D(16) [OF i] by (auto simp: row_known_def)
  have pg: "rx_page (m p) = pg" using D(16) [OF i] x by (simp add: row_known_def)
  have rr: "rd_range_id (ad_ranges arr ! k) = r" using row_rng [of arr i pc0] k(1) x by simp
  let ?V = "is_valid (dstate ?pc r pg)"
  have known: "rows_inv pc0 arr rows P ?ac ?m" if same: "pc' = ?pc" "ctx' = m p"
    using inv same by simp
  consider (hit) "cx_isHit (rx_ctx (m p))" | (valid) "\<not> cx_isHit (rx_ctx (m p))" ?V | (other) "\<not> cx_isHit (rx_ctx (m p))" "\<not> ?V" by blast
  then have "rows_inv pc0 arr rows P ?ac ?m \<and> b = cx_isHit (rx_ctx ctx') \<and> b = ?V \<and> (cx_isHit (rx_ctx (m p)) \<longrightarrow> pc' = ?pc \<and> ctx' = m p) \<and>
      cx_has_pending_io (rx_ctx ctx') = cx_has_pending_io (rx_ctx (m p)) \<and> fkey ctx' = fkey (m p) \<and> rx_ctrl ctx' = rx_ctrl (m p)"
  proof cases
    case hit
    then have "pc' = ?pc" "ctx' = m p" "b" using r k(2) by (simp_all add: refresh_registered_ctx_from_valid_page_def)
    then show ?thesis using known hit D(16) [OF i] x by (simp add: row_known_def)
  next
    case other
    have "state_of_word (dp_state (pc_ranges ?pc r pg)) \<noteq> V_NB" using other(2) by (simp add: dstate_def state_of_word_cases)
    then have "pc' = ?pc" "ctx' = m p" "\<not> b" using r k(2) other(1) by (simp_all add: refresh_registered_ctx_from_valid_page_def Let_def rr pg)
    then show ?thesis using known other by simp
  next
    case valid
    note V = valid_row [OF inv i ok, unfolded x fst_conv snd_conv, OF valid(2)]
    let ?s = "doffset ?pc r pg"
    have s: "?s \<noteq> ASYNC_PAGE_TRANS_PENDING" "\<not> ucast ?s \<ge> pc_n_pages ?pc"
      using slot_not_pending [OF V(3)] n cfg_eqD [OF D(1)] D(1) by (simp_all add: cfg_eq_def)
    have c: "pc' = upd_page r pg (\<lambda>p. p\<lparr>dp_polling_flag := 0\<rparr>) ?pc" "b"
      "ctx' = (m p)\<lparr>rx_ctx := (rx_ctx (m p))\<lparr>cx_page_trans := ?s, cx_observed_page_translation := page_translation (pc_cache_pages ?pc ?s), cx_isHit := True\<rparr>\<rparr>"
      using r k(2) valid(1) V(4) s by (simp_all add: refresh_registered_ctx_from_valid_page_def Let_def rr pg dstate_def doffset_def)
    have d: "dstate pc' = dstate ?pc" "doffset pc' = doffset ?pc" by (auto simp: c(1) fun_eq_iff dstate_def doffset_def upd_page_def)
    have rg: "dp_ref_count (pc_ranges pc' r' pg') = dp_ref_count (pc_ranges ?pc r' pg')" "unprefetched (pc_ranges pc' r' pg') = unprefetched (pc_ranges ?pc r' pg')"
      for r' pg' by (auto simp: c(1) upd_page_def unprefetched_def)
    have "rows_inv pc0 arr rows P ?ac ?m"
    proof (rule rows_frame [OF inv])
      show "cfg_eq (ac_pc ?ac) ?pc" "same_cids (pc_cids (ac_pc ?ac)) (pc_cids ?pc)" "pc_cache_pages (ac_pc ?ac) = pc_cache_pages ?pc"
        "disk (ac_pc ?ac) = disk ?pc" "frame (ac_pc ?ac) = frame ?pc" by (simp_all add: c(1) upd_page_def cfg_eq_def)
      show "cnt_of (dstate (ac_pc ?ac) r' pg') = row_users pc0 arr rows r' pg' \<and> dp_ref_count (pc_ranges (ac_pc ?ac) r' pg') = of_nat (row_users pc0 arr rows r' pg')"
        if "in_dom pc0 r' pg'" for r' pg' using D(7,8) [OF that] by (simp add: d rg)
      show "rows q = rows q \<and> ?m q = m q" if "q \<in> P" for q using that V(1) by auto
      show "row_known pc0 arr (ac_pc ?ac) (?m q) j \<and> (cx_isHit (rx_ctx (?m q)) \<or> q \<in> P \<or> cx_has_pending_io (rx_ctx (?m q)) = 0) \<and>
        (is_valid (dstate ?pc (fst (row_page pc0 arr j)) (snd (row_page pc0 arr j))) \<or> (\<exists>q \<in> P. row_page pc0 arr (the (rows q)) = row_page pc0 arr j))"
        if q: "rows q = Some j" for q j
        using D(16) [OF q] D(17) [OF q] D(18) [OF q] q i x valid(2) by (cases "q = p") (auto simp: row_known_def d c(3) fslot_def)
    qed (use D(5) in \<open>simp_all add: d rg\<close>)
    then show ?thesis using c valid by (simp add: fkey_def)
  qed
  then show "rows_inv pc0 arr rows P ?ac ?m" "b = cx_isHit (rx_ctx ctx')" "b = is_valid (dstate ?pc (fst (row_page pc0 arr i)) (snd (row_page pc0 arr i)))"
    "cx_isHit (rx_ctx (m p)) \<Longrightarrow> pc' = ?pc \<and> ctx' = m p"
    "cx_has_pending_io (rx_ctx ctx') = cx_has_pending_io (rx_ctx (m p))" "fkey ctx' = fkey (m p)" "rx_ctrl ctx' = rx_ctrl (m p)"
    using x by auto
qed

section \<open>Lemmas: the blocking poll\<close>

text \<open>A waiter whose own transfer is under way returns only with its own completion.\<close>

lemma wait_flight:
  assumes f: "flight ac ctx (r, pg)" and k: "fkey ctx = (c, q, cid)"
    and ret: "acquire_page_wait_async ac r pg count False (rx_queue ctx) (rx_ctx ctx) = Some (ac2, c2, b)"
  shows "\<exists>ac1 pc'. completion_taken c q cid ac ac1 \<and> finished (ac_pc ac1) r pg (fslot ctx) pc' \<and> ac2 = ac1\<lparr>ac_pc := pc'\<rparr> \<and>
    cx_isHit c2 \<and> cx_page_trans c2 = cx_page_trans (rx_ctx ctx)"
proof -
  note F = flightD [OF f]
  have k': "cx_member_acquire_ctrl (rx_ctx ctx) = c" "rx_queue ctx = q" "cx_cid (rx_ctx ctx) = cid" using k by (simp_all add: fkey_def)
  have st: "state_of_word (dstate (ac_pc ac) r pg) = NV_B" using F(4,5) by (simp add: state_of_word_busy)
  have fl: "dp_polling_flag (pc_ranges (ac_pc ac) r pg) = 0"
  proof (rule ccontr)
    assume "dp_polling_flag (pc_ranges (ac_pc ac) r pg) \<noteq> 0"
    then have "acquire_page_wait_async ac r pg count False (rx_queue ctx) (rx_ctx ctx) = None"
      using st F(2) by (simp add: acquire_page_wait_async_def dstate_def wait_loop_stuck)
    then show False using ret by simp
  qed
  have done': "cid \<in> set (ac_done ac (c, q))"
    using wait_without_completion [OF st fl F(2), where q = q] ret k' by force
  let ?ac1 = "fst (async_finish ac c q (rx_ctx ctx))"
  have t: "completion_taken c q cid ac ?ac1"
    using done' by (simp add: completion_taken_def async_finish_def Let_def set_cids_def cfg_eq_def k'(3))
  have w: "(ac2, c2, b) = (let ac1 = upd_pc (upd_page r pg (\<lambda>p. p\<lparr>dp_polling_flag := 1\<rparr>)) ac;
         (ac2, ctx1) = async_finish ac1 c q (rx_ctx ctx) in wait_install ac2 r pg count False ctx1)"
    using wait_wins [OF F(2) st fl, of q count False] done' ret k' by (simp add: Let_def split_beta)
  note defs = wait_install_def async_finish_def Let_def upd_pc_def upd_page_def upd_state_def set_cids_def split_beta
  have r: "finished (ac_pc ?ac1) r pg (fslot ctx) (ac_pc ac2)"
    using w by (simp add: defs finished_def cfg_eq_def fslot_def dstate_def)
  have a: "ac2 = ?ac1\<lparr>ac_pc := ac_pc ac2\<rparr>" using w by (simp add: defs)
  have "cx_isHit c2" "cx_page_trans c2 = cx_page_trans (rx_ctx ctx)" using w by (simp_all add: defs)
  then show ?thesis using t r a by blast
qed

lemma wait_keeps:
  assumes inv: "rows_inv pc0 arr rows P ac m" and i: "rows p = Some i" and x: "row_page pc0 arr i = (r, pg)"
    and own: "cx_isHit (rx_ctx (m p)) \<or> cx_has_pending_io (rx_ctx (m p)) \<noteq> 0"
    and ret: "acquire_page_wait_async ac r pg count False (rx_queue (m p)) (rx_ctx (m p)) = Some (ac', c', b)"
  shows "rows_inv pc0 arr rows (P - {p}) ac' (m(p := (m p)\<lparr>rx_ctx := c', rx_base_master := b\<rparr>))" "cx_isHit c'"
proof -
  let ?ctx = "(m p)\<lparr>rx_ctx := c', rx_base_master := b\<rparr>"
  note D = rows_invD [OF inv]
  have "rows_inv pc0 arr rows (P - {p}) ac' (m(p := ?ctx)) \<and> cx_isHit c'"
  proof (cases "p \<in> P")
    case True
    have x': "row_page pc0 arr (the (rows p)) = (r, pg)" using i x by simp
    have f: "flight ac (m p) (r, pg)" using D(15) [OF True] x' by simp
    obtain c q cid where k: "fkey (m p) = (c, q, cid)" using prod_cases3 by blast
    obtain ac1 pc' where W: "completion_taken c q cid ac ac1" "finished (ac_pc ac1) r pg (fslot (m p)) pc'" "ac' = ac1\<lparr>ac_pc := pc'\<rparr>"
      "cx_isHit c'" "cx_page_trans c' = cx_page_trans (rx_ctx (m p))" using wait_flight [OF f k ret] by blast
    have "rows_inv pc0 arr rows (P - {p}) (ac1\<lparr>ac_pc := pc'\<rparr>) (m(p := ?ctx))"
      by (rule flight_finished [OF inv True k x' W(1,2)]) (simp_all add: W(4,5) fslot_def)
    then show ?thesis using W(3,4) by simp
  next
    case False
    then have h: "cx_isHit (rx_ctx (m p))" using D(17) [OF i] own by blast
    then have e: "ac = ac'" "c' = (rx_ctx (m p))\<lparr>cx_observed_page_translation := observe (ac_pc ac) (cx_page_trans (rx_ctx (m p)))\<rparr>"
      using ret by (auto simp: acquire_page_wait_async_def)
    have "rows_inv pc0 arr rows P ac (m(p := ?ctx))"
    proof (rule rows_frame [OF inv])
      show "row_known pc0 arr (ac_pc ac) ((m(p := ?ctx)) q) j \<and> (cx_isHit (rx_ctx ((m(p := ?ctx)) q)) \<or> q \<in> P \<or> cx_has_pending_io (rx_ctx ((m(p := ?ctx)) q)) = 0) \<and>
        (is_valid (dstate (ac_pc ac) (fst (row_page pc0 arr j)) (snd (row_page pc0 arr j))) \<or> (\<exists>q \<in> P. row_page pc0 arr (the (rows q)) = row_page pc0 arr j))"
        if "rows q = Some j" for q j
        using D(16) [OF that] D(17) [OF that] D(18) [OF that] h by (cases "q = p") (auto simp: row_known_def fslot_def e(2))
    qed (use False D in \<open>auto simp: same_cids_def cfg_eq_def\<close>)
    then show ?thesis using e h False by simp
  qed
  then show "rows_inv pc0 arr rows (P - {p}) ac' (m(p := ?ctx))" "cx_isHit c'" by blast+
qed

lemma single_page_poll_eq:
  fixes ctxs stride :: int and t :: u32 and ac :: "(nat \<Rightarrow> 't) async_cache"
  assumes f: "find_range arr i \<noteq> None" and i: "i = (fa_index fa (uint t) + fa_key_off fa) * of_nat (fa_cache_dim fa)"
    and x: "row_page (ac_pc ac) arr i = (r, pg)"
  defines "p \<equiv> ctxs + uint t * stride"
  shows "single_page_poll stride arr fa ctxs t (ac, m) =
    (case acquire_page_wait_async ac r pg (rx_count (m p)) False (rx_queue (m p)) (rx_ctx (m p)) of
       None \<Rightarrow> None
     | Some (ac1, c1, b) \<Rightarrow> Some (ac1, m(p := (m p)\<lparr>rx_ctx := c1, rx_base_master := b\<rparr>)))"
proof -
  obtain k where k: "find_range arr i = Some k" using f by blast
  have ln: "ln_rng (array_lane (ac_pc ac) arr i) = r" "ln_page (array_lane (ac_pc ac) arr i) = pg" using x by (simp_all add: row_page_def)
  show ?thesis
    by (simp add: single_page_poll_def Let_def i [symmetric] p_def [symmetric] bp_read_single_thread_poll_def
        acquire_page_single_thread_poll_def k single_thread_wait_def ln page_ref_of_def set_ref_def split: option.splits)
qed

section \<open>Lemmas: taking the features of a row\<close>

lemma row_users_del:
  assumes "finite (dom rows)" and "rows p = Some i"
  shows "row_users pc0 arr rows r pg = row_users pc0 arr (rows(p := None)) r pg + (if row_page pc0 arr i = (r, pg) then 1 else 0)"
proof -
  have "(rows(p := None))(p \<mapsto> i) = rows" using assms(2) by (auto simp: fun_eq_iff)
  then show ?thesis using row_users_add [of "rows(p := None)" p pc0 arr i r pg] assms(1) by simp
qed

lemma release_1:
  assumes u: "unprefetched (pc_ranges pc r pg)" and c: "0 < cnt_of (dstate pc r pg)"
  defines "pc' \<equiv> release_page pc r pg 1"
  shows "cnt_of (dstate pc' r pg) = cnt_of (dstate pc r pg) - 1" "is_valid (dstate pc' r pg) = is_valid (dstate pc r pg)"
    "is_busy (dstate pc' r pg) = is_busy (dstate pc r pg)" "is_dirty (dstate pc' r pg) = is_dirty (dstate pc r pg)"
    "doffset pc' r pg = doffset pc r pg" "dp_ref_count (pc_ranges pc' r pg) = dp_ref_count (pc_ranges pc r pg) - 1"
    "unprefetched (pc_ranges pc' r pg)" "(r', pg') \<noteq> (r, pg) \<Longrightarrow> pc_ranges pc' r' pg' = pc_ranges pc r' pg'"
    "cfg_eq pc' pc" "pc_cids pc' = pc_cids pc" "pc_cache_pages pc' = pc_cache_pages pc" "disk pc' = disk pc" "frame pc' = frame pc"
proof -
  have l: "prefetch_leave (dp_prefetch_count (pc_ranges pc r pg)) = (dp_prefetch_count (pc_ranges pc r pg), False)"
      "prefetch_leave (dp_prefetch_counter (pc_ranges pc r pg)) = (dp_prefetch_counter (pc_ranges pc r pg), False)"
    using u by (simp_all add: unprefetched_def prefetch_leave_def)
  have e: "pc' = upd_page r pg (\<lambda>p. p\<lparr>dp_ref_count := dp_ref_count p - 1\<rparr>) (upd_state r pg (\<lambda>s. s - 1) pc)"
    by (simp add: pc'_def release_page_def l Let_def upd_page_def upd_state_def)
  have s: "dstate pc' r pg = dstate pc r pg - 1" by (simp add: e upd_page_def upd_state_def dstate_def)
  have c': "unat (1 :: u32) \<le> cnt_of (dstate pc r pg)" using c by simp
  show "cnt_of (dstate pc' r pg) = cnt_of (dstate pc r pg) - 1" "is_valid (dstate pc' r pg) = is_valid (dstate pc r pg)"
    "is_busy (dstate pc' r pg) = is_busy (dstate pc r pg)" "is_dirty (dstate pc' r pg) = is_dirty (dstate pc r pg)"
    using state_sub_flags [OF c'] by (simp_all add: s)
  show "doffset pc' r pg = doffset pc r pg" "dp_ref_count (pc_ranges pc' r pg) = dp_ref_count (pc_ranges pc r pg) - 1"
    "unprefetched (pc_ranges pc' r pg)" "(r', pg') \<noteq> (r, pg) \<Longrightarrow> pc_ranges pc' r' pg' = pc_ranges pc r' pg'"
    "cfg_eq pc' pc" "pc_cids pc' = pc_cids pc" "pc_cache_pages pc' = pc_cache_pages pc" "disk pc' = disk pc" "frame pc' = frame pc"
    using u by (auto simp: e upd_page_def upd_state_def doffset_def unprefetched_def cfg_eq_def)
qed

text \<open>A row gives its page back.\<close>

lemma row_released:
  assumes inv: "rows_inv pc0 arr rows P ac m" and i: "rows p = Some i" and ok: "ad_ok pc0 arr" and x: "row_page pc0 arr i = (r, pg)"
    and h: "cx_isHit (rx_ctx (m p))"
  shows "rows_inv pc0 arr (rows(p := None)) P (ac\<lparr>ac_pc := release_page (ac_pc ac) r pg 1\<rparr>) m"
proof -
  let ?pc = "ac_pc ac" and ?ac = "ac\<lparr>ac_pc := release_page (ac_pc ac) r pg 1\<rparr>" and ?rows = "rows(p := None)"
  note D = rows_invD [OF inv]
  have v: "is_valid (dstate ?pc r pg)" using D(16) [OF i] h x by (simp add: row_known_def)
  note V = valid_row [OF inv i ok, unfolded x fst_conv snd_conv, OF v]
  have d: "in_dom pc0 r pg" using V(2) cfg_eqD(2) [OF D(1)] by simp
  have u: "unprefetched (pc_ranges ?pc r pg)" using D(3) V(2) by (simp add: no_prefetch_def)
  note U = row_users_del [OF D(5) i, of pc0 arr]
  have c: "0 < cnt_of (dstate ?pc r pg)" using D(7) [OF d] U [of r pg] x by simp
  note L = release_1 [OF u c]
  have st: "is_valid (dstate (ac_pc ?ac) r' pg') = is_valid (dstate ?pc r' pg')" "is_busy (dstate (ac_pc ?ac) r' pg') = is_busy (dstate ?pc r' pg')"
    "is_dirty (dstate (ac_pc ?ac) r' pg') = is_dirty (dstate ?pc r' pg')" "doffset (ac_pc ?ac) r' pg' = doffset ?pc r' pg'"
    "unprefetched (pc_ranges ?pc r' pg') \<Longrightarrow> unprefetched (pc_ranges (ac_pc ?ac) r' pg')" for r' pg'
    using L(2-5,7,8) by (cases "(r', pg') = (r, pg)"; simp add: dstate_def doffset_def)+
  show ?thesis
  proof (rule rows_frame [OF inv _ _ _ _ _ _ _ st])
    show "cfg_eq (ac_pc ?ac) ?pc" "same_cids (pc_cids (ac_pc ?ac)) (pc_cids ?pc)" "pc_cache_pages (ac_pc ?ac) = pc_cache_pages ?pc"
      "disk (ac_pc ?ac) = disk ?pc" "frame (ac_pc ?ac) = frame ?pc" using L(9-13) by simp_all
    show "cnt_of (dstate (ac_pc ?ac) r' pg') = row_users pc0 arr ?rows r' pg' \<and> dp_ref_count (pc_ranges (ac_pc ?ac) r' pg') = of_nat (row_users pc0 arr ?rows r' pg')"
      if "in_dom pc0 r' pg'" for r' pg'
      using D(7,8) [OF that] U [of r' pg'] L(1,6,8) x
      by (cases "(r', pg') = (r, pg)") (auto simp: dstate_def)
    show "?rows q = rows q \<and> m q = m q" if "q \<in> P" for q using that V(1) by auto
    show "finite (dom ?rows)" using D(5) by simp
    show "row_known pc0 arr (ac_pc ?ac) (m q) j \<and> (cx_isHit (rx_ctx (m q)) \<or> q \<in> P \<or> cx_has_pending_io (rx_ctx (m q)) = 0) \<and>
      (is_valid (dstate ?pc (fst (row_page pc0 arr j)) (snd (row_page pc0 arr j))) \<or> (\<exists>q \<in> P. row_page pc0 arr (the (rows q)) = row_page pc0 arr j))"
      if q: "?rows q = Some j" for q j
    proof -
      have qj: "rows q = Some j" using q by (cases "q = p") auto
      show ?thesis using D(16) [OF qj] D(17) [OF qj] D(18) [OF qj] st(1,4) by (simp add: row_known_def)
    qed
  qed simp_all
qed

lemma row_load:
  assumes inv: "rows_inv pc0 arr rows P ac m" and i: "rows p = Some i" and ok: "ad_ok pc0 arr" and fl: "flat_range pc0 arr"
    and x: "row_page pc0 arr i = (r, pg)" and h: "cx_isHit (rx_ctx (m p))" and j: "find_range arr j \<noteq> None" "row_page pc0 arr j = (r, pg)"
  shows "elem_view pc0 arr j =
    Some (load_T (ac_pc ac) (ad_sizeof_T arr) (get_cache_page_addr (ac_pc ac) (fslot (m p)) + (j - epp arr * pg) * ad_sizeof_T arr))"
proof -
  let ?pc = "ac_pc ac" and ?s = "fslot (m p)" and ?ln = "array_lane pc0 arr j" and ?epb = "elems_per_block pc0 (ad_sizeof_T arr)"
  let ?e = "unat (ln_sub ?ln) div unat (ad_sizeof_T arr)"
  note D = rows_invD [OF inv]
  have kn: "is_valid (dstate ?pc r pg)" "?s = doffset ?pc r pg" using D(16) [OF i] h x by (simp_all add: row_known_def)
  note V = valid_row [OF inv i ok, unfolded x fst_conv snd_conv, OF kn(1)]
  have d: "in_dom pc0 r pg" using V(2) cfg_eqD(2) [OF D(1)] by simp
  have ok': "ad_ok ?pc arr" using ok cfg_eq_array(1) [OF D(1)] by simp
  have f0: "find_range arr j = Some 0" by (rule flat_lane(1) [OF ok fl j(1)])
  note A = array_lane [OF ok f0]
  have pg: "ln_rng ?ln = r" "ln_page ?ln = pg" using j(2) by (simp_all add: row_page_def)
  note S = flat_start [OF ok fl j(1), unfolded pg]
  have "unat (epp arr) dvd unat (epp arr * pg)" unfolding S(1) by simp
  then have sub: "(j - epp arr * pg) * ad_sizeof_T arr = ln_sub ?ln"
    by (rule flat_near(2) [OF ok fl S(3) f0 _ S(4,5)])
  have ps: "pc_page_size ?pc = pc_page_size pc0" using D(1) by (simp add: cfg_eq_def)
  have eb: "elems_per_block ?pc (ad_sizeof_T arr) = ?epb" by (rule cfg_eq_array(2) [OF D(1)])
  have b: "?e div ?epb < nblk pc0" using A(8) by (rule less_mult_imp_div_less)
  have "unat (ln_sub ?ln) < unat (pc_page_size ?pc)" using A(7) ps by simp
  note L = slot_access(1) [OF ok' V(3) this, unfolded eb]
  have "load_T ?pc (ad_sizeof_T arr) (get_cache_page_addr ?pc ?s + ln_sub ?ln) = content ?pc r pg (?e div ?epb) (?e mod ?epb)"
    unfolding kn(2) L using kn(1) by (simp add: content_def slot_data_def)
  also have "\<dots> = content pc0 r pg (?e div ?epb) (?e mod ?epb)" using D(4) d b by (simp add: same_content_def)
  finally have "load_T ?pc (ad_sizeof_T arr) (get_cache_page_addr ?pc ?s + ln_sub ?ln) = content pc0 r pg (?e div ?epb) (?e mod ?epb)" .
  then show ?thesis unfolding sub by (simp add: elem_view_def elem_map_def elem_loc_def f0 Let_def pg)
qed

lemma delete_lane0:
  assumes "bp_page p = Some g" and "bp_is_subRef p" and "bp_range p = Some k"
  shows "delete_ptrs arr [0] ac ((\<lambda>_. bam_ptr_new True)(0 := p)) =
    ac\<lparr>ac_pc := release_page (ac_pc ac) (ln_rng (lane_at (ac_pc ac) arr k (bp_start p))) (ln_page (lane_at (ac_pc ac) arr k (bp_start p))) 1\<rparr>"
proof -
  let ?ps = "(\<lambda>_. bam_ptr_new True)(0 := p)"
  have m: "sub_mask (-1) (\<lambda>l. bp_page (?ps l) \<noteq> None \<and> bp_is_subRef (?ps l)) = 1"
    by (rule bit_word_eqI) (use assms in \<open>auto simp: bit_sub_mask bit_one32 bam_ptr_new_def\<close>)
  have m1: "sub_mask 1 (\<lambda>l. bp_range (?ps l) \<noteq> None) = 1"
    by (rule bit_word_eqI) (use assms in \<open>auto simp: bit_sub_mask bit_one32 bam_ptr_new_def\<close>)
  show ?thesis
    unfolding delete_ptrs_def bam_ptr_delete_def bp_fini_if_def array_release_page_def m m1
    using assms m1 by (simp add: master_1)
qed

lemma gather_row:
  assumes inv: "rows_inv pc0 arr rows P ac m" and i: "rows p = Some i" and ok: "ad_ok pc0 arr" and fl: "flat_range pc0 arr" and n: "pc_n_pages pc0 < 2 ^ 32"
    and h: "cx_isHit (rx_ctx (m p))" and w: "idx_idx w < fa_num_idx fa" "p = ctxs + idx_idx w" "i = feature_index fa w 0" and fits: "warp_fits fa w"
    and one: "\<And>t. t < fa_dim fa \<Longrightarrow> find_range arr (feature_index fa w t) \<noteq> None \<and> row_page pc0 arr (feature_index fa w t) = row_page pc0 arr i"
  shows "\<exists>ac' out'. read_feature_kernel_get_feature_light_rowctx arr fa ctxs w (ac, m) out = ((ac', m), out') \<and>
    rows_inv pc0 arr (rows(p := None)) P ac' m \<and> ac_sub ac' = ac_sub ac \<and> ac_done ac' = ac_done ac \<and>
    (\<forall>t < fa_dim fa. elem_view pc0 arr (feature_index fa w t) = Some (out' (out_index fa w t))) \<and>
    (\<forall>y. (\<forall>t < fa_dim fa. y \<noteq> out_index fa w t) \<longrightarrow> out' y = out y)"
proof -
  let ?pc = "ac_pc ac"
  note D = rows_invD [OF inv]
  obtain r pg where x: "row_page pc0 arr i = (r, pg)" by force
  have f: "find_range arr i \<noteq> None" using D(16) [OF i] by (simp add: row_known_def)
  have f0: "find_range arr i = Some 0" by (rule flat_lane(1) [OF ok fl f])
  have kn: "is_valid (dstate ?pc r pg)" "fslot (m p) = doffset ?pc r pg" using D(16) [OF i] h x by (simp_all add: row_known_def)
  note V = valid_row [OF inv i ok, unfolded x fst_conv snd_conv, OF kn(1)]
  have s: "fslot (m p) \<noteq> ASYNC_PAGE_TRANS_PENDING" "\<not> ucast (fslot (m p)) \<ge> pc_n_pages ?pc"
    using slot_not_pending [OF V(3)] n D(1) kn(2) by (simp_all add: cfg_eq_def)
  have pg: "ln_page (array_lane ?pc arr i) = pg" "ln_page (array_lane pc0 arr i) = pg" "ln_rng (array_lane pc0 arr i) = r"
    using x by (simp_all add: row_page_def cfg_eq_array(3) [OF D(1)])
  note S = flat_start [OF ok fl f, unfolded pg]
  let ?p = "bp_update_page_post_poll_light ?pc arr (bam_ptr_new True) i (m p)"
  have p: "bp_addr ?p = Some (get_cache_page_addr ?pc (fslot (m p)))" "bp_start ?p = epp arr * pg" "bp_page ?p \<noteq> None"
    "bp_is_subRef ?p" "bp_range ?p = Some 0"
    using s by (simp_all add: bp_update_page_post_poll_light_def acquire_page_post_poll_light_def f0 Let_def pg page_ref_of_def set_ref_def bam_ptr_new_def fslot_def)
  obtain g where g: "bp_page ?p = Some g" using p(3) by blast
  have "ln_page (array_lane pc0 arr (epp arr * pg)) = pg \<and> ln_rng (array_lane pc0 arr (epp arr * pg)) = r"
    using flat_near(1) [OF ok fl S(3) f0 _ S(4,5), of 0] S(1) pg by (simp add: lane_page_def)
  then have ln: "ln_rng (lane_at ?pc arr 0 (epp arr * pg)) = r" "ln_page (lane_at ?pc arr 0 (epp arr * pg)) = pg"
    using lane_at_array [OF S(3), of ?pc] by (simp_all add: cfg_eq_array(3) [OF D(1)])
  let ?ac = "ac\<lparr>ac_pc := release_page ?pc r pg 1\<rparr>"
  have del: "delete_ptrs arr [0] ac ((\<lambda>_. bam_ptr_new True)(0 := ?p)) = ?ac"
    unfolding delete_lane0 [OF g p(4,5)] p(2) ln ..
  let ?g = "\<lambda>t. load_T ?pc (ad_sizeof_T arr) (get_cache_page_addr ?pc (fslot (m p)) + (feature_index fa w t - epp arr * pg) * ad_sizeof_T arr)"
  let ?out = "foldl (\<lambda>o' t. o'(out_index fa w t := ?g t)) out [0..<fa_dim fa]"
  have e: "read_feature_kernel_get_feature_light_rowctx arr fa ctxs w (ac, m) out = ((?ac, m), ?out)"
    using w(1) del by (simp add: read_feature_kernel_get_feature_light_rowctx_def Let_def w(2) [symmetric] w(3) [symmetric] p(1,2))
  note I = out_index_inj [OF fits [unfolded warp_fits_def] fits [unfolded warp_fits_def]]
  have inj: "inj_on (out_index fa w) (set [0..<fa_dim fa])" using I by (auto simp: inj_on_def)
  have "elem_view pc0 arr (feature_index fa w t) = Some (?out (out_index fa w t))" if t: "t < fa_dim fa" for t
  proof -
    have "?out (out_index fa w t) = ?g t" using foldl_cells(2) [OF inj, of t ?g out] t by simp
    then show ?thesis using row_load [OF inv i ok fl x h, of "feature_index fa w t"] one [OF t] x by simp
  qed
  moreover have "?out y = out y" if "\<forall>t < fa_dim fa. y \<noteq> out_index fa w t" for y
    by (rule foldl_cells(1)) (use that in auto)
  moreover have "rows_inv pc0 arr (rows(p := None)) P ?ac m" by (rule row_released [OF inv i ok x h])
  ultimately show ?thesis using e by (intro exI [of _ ?ac] exI [of _ ?out]) simp
qed

end
