(* ===== verification/Gids_Requests.thy ===== *)
theory Gids_Requests
  imports Gids_Rows
begin

text \<open>
  The machine of registered requests: rows are submitted and registered, the service takes completions off the
  queues and finishes their contexts, a check counts the rows of a request that are not there yet, and the gathering
  kernel takes a request that is ready (\<open>gids_kernel.cu\<close>, with the order in which \<open>gids_nvme.cu\<close> starts the kernels).
  The invariant says which contexts wait for a transfer and that the table of the service has them.
\<close>

section \<open>Lemmas: the kernels\<close>

lemma rows_other_ctxs:
  assumes inv: "rows_inv pc0 arr rows P ac m" and m: "\<And>p. p \<in> dom rows \<Longrightarrow> m' p = m p"
  shows "rows_inv pc0 arr rows P ac m'"
proof (rule rows_frame [OF inv])
  note D = rows_invD [OF inv]
  show "rows q = rows q \<and> m' q = m q" if "q \<in> P" for q using m [of q] that D(6) by blast
  show "row_known pc0 arr (ac_pc ac) (m' q) i \<and> (cx_isHit (rx_ctx (m' q)) \<or> q \<in> P \<or> cx_has_pending_io (rx_ctx (m' q)) = 0) \<and>
      (is_valid (dstate (ac_pc ac) (fst (row_page pc0 arr i)) (snd (row_page pc0 arr i))) \<or> (\<exists>q \<in> P. row_page pc0 arr (the (rows q)) = row_page pc0 arr i))"
    if q: "rows q = Some i" for q i
    using D(16) [OF q] D(17) [OF q] D(18) [OF q] q m [OF domI [of rows, OF q]] by auto
qed (use rows_invD [OF inv] in simp_all)

lemma rows_other_ctx: "rows_inv pc0 arr rows P ac m \<Longrightarrow> p \<notin> dom rows \<Longrightarrow> rows_inv pc0 arr rows P ac (m(p := ctx))"
  by (rule rows_other_ctxs [where m = m]) auto

lemma submit_row_keeps:
  assumes inv: "rows_inv pc0 arr rows P ac m" and p: "p \<notin> dom rows" "p = ctxs + idx_idx w" and ok: "ad_ok pc0 arr"
    and w: "idx_idx w < fa_num_idx fa" and fr: "find_range arr (feature_index fa w 0) \<noteq> None"
    and b: "\<And>r pg. in_dom pc0 r pg \<Longrightarrow> row_users pc0 arr rows r pg + 1 < 2 ^ 29"
    and ret: "read_feature_kernel_submit_async_rowctx arr fa ctxs w smid (ac, m(p := ctx_cleared)) = Some (ac', m')"
    and free: "cids_free (pc_cids (ac_pc ac'))"
  shows "\<exists>P' ctx. m' = m(p := ctx) \<and> rows_inv pc0 arr (rows(p \<mapsto> feature_index fa w 0)) P' ac' m' \<and> (P' = P \<or> P' = insert p P) \<and>
    (P' = P \<longrightarrow> cx_isHit (rx_ctx ctx) \<or> cx_has_pending_io (rx_ctx ctx) = 0) \<and> rx_ctrl ctx = 0 \<and> rx_queue ctx = smid mod pc_n_qps pc0 0"
proof -
  let ?i = "feature_index fa w 0" and ?m = "m(p := ctx_cleared)"
  note D = rows_invD [OF inv]
  obtain r pg where x: "row_page pc0 arr ?i = (r, pg)" by force
  have d: "in_dom pc0 r pg" by (rule row_page_dom [OF ok fr x])
  obtain k where k: "find_range arr ?i = Some k" using fr by blast
  let ?ln = "array_lane (ac_pc ac) arr ?i" and ?q = "smid mod pc_n_qps (ac_pc ac) 0"
  have q: "?q = smid mod pc_n_qps pc0 0" using D(1) by (simp add: cfg_eq_def)
  have ln: "ln_rng ?ln = r" "ln_page ?ln = pg" using x by (simp_all add: row_page_def cfg_eq_array(3) [OF D(1)])
  note S = submit_row_eq [OF w k, where ctxs = ctxs and ac = ac and smid = smid and m = ?m, folded p(2), unfolded ln]
  obtain ac1 c1 a where A: "acquire_page_submit_async ac r pg 1 False ?q (rx_ctx (?m p)) = Some (ac1, c1, a)"
    and R: "ac' = ac1" "m' = ?m(p := row_submitted (?m p) c1 k pg a ?q)"
    using ret unfolding S by (auto split: option.splits)
  define ctx where "ctx = row_submitted ctx_cleared c1 k pg a ?q"
  have C: "rx_ctx ctx = c1" "rx_queue ctx = ?q" "rx_r ctx = find_range arr ?i" "rx_page ctx = pg" "rx_ctrl ctx = 0"
    using k by (simp_all add: ctx_def row_submitted_def)
  have m': "m' = m(p := ctx)" using R(2) by (simp add: ctx_def)
  have A0: "acquire_page_submit_async ac r pg 1 False ?q (rx_ctx ctx_cleared) = Some (ac1, c1, a)" using A by simp
  have h0: "cx_has_pending_io (rx_ctx ctx_cleared) = 0" by (simp add: ctx_cleared_def)
  have "cids_free (pc_cids (ac_pc ac1))" using free R(1) by simp
  from submit_keeps [OF inv p(1) fr x d h0 b [OF d] A0 this C(1-4)]
  obtain P' where "rows_inv pc0 arr (rows(p \<mapsto> ?i)) P' ac1 (m(p := ctx))" "P' = P \<or> P' = insert p P"
    "P' = P \<longrightarrow> cx_isHit c1 \<or> cx_has_pending_io c1 = 0" by blast
  then show ?thesis unfolding R(1) m' using C(1,2,5) q by (intro exI [of _ P'] exI [of _ ctx]) simp
qed

text \<open>The service takes one completion whose context is registered.\<close>

lemma service_event_keeps:
  assumes inv: "rows_inv pc0 arr rows P (fst (gd_dev g)) (snd (gd_dev g))"
    and T: "take_head (fst (gd_dev g)) c q = Some (ac1, cid)"
    and reg: "\<And>p. p \<in> P \<Longrightarrow> fkey (snd (gd_dev g) p) = (c, q, cid) \<Longrightarrow> gd_ctx_lookup g (lookup_slot lq cid) = Some p"
  shows "\<exists>p ctx ac'. p \<in> P \<and> fkey (snd (gd_dev g) p) = (c, q, cid) \<and> fkey ctx = (c, q, cid) \<and> rx_ctrl ctx = rx_ctrl (snd (gd_dev g) p) \<and>
    rows_inv pc0 arr rows (P - {p}) ac' ((snd (gd_dev g))(p := ctx)) \<and> ac_sub ac' = ac_sub (fst (gd_dev g)) \<and>
    ac_done ac' = (ac_done (fst (gd_dev g)))((c, q) := tl (ac_done (fst (gd_dev g)) (c, q))) \<and>
    service_event arr lq cid (g\<lparr>gd_dev := (ac1, snd (gd_dev g))\<rparr>) =
      g\<lparr>gd_dev := (ac', (snd (gd_dev g))(p := ctx)), gd_ctx_lookup := (gd_ctx_lookup g)(lookup_slot lq cid := None),
        gd_event_count := gd_event_count g + 1, gd_progress_count := gd_progress_count g + 1\<rparr>"
proof -
  obtain ac m where g: "gd_dev g = (ac, m)" by force
  have inv': "rows_inv pc0 arr rows P ac m" using inv g by simp
  note D = rows_invD [OF inv']
  obtain rest where dn: "ac_done ac (c, q) = cid # rest" using T g by (auto simp: take_head_def split: list.splits)
  have T': "take_head ac c q = Some (ac1, cid)" using T g by simp
  have A1: "ac_sub ac1 = ac_sub ac" "ac_done ac1 = (ac_done ac)((c, q) := rest)" "pc_ranges (ac_pc ac1) = pc_ranges (ac_pc ac)"
    using T' dn by (auto simp: take_head_def set_cids_def)
  obtain p where p: "p \<in> P" "fkey (m p) = (c, q, cid)" using D(13) [of "(c, q, cid)"] dn by (auto simp: completed_def)
  obtain i where i: "rows p = Some i" using D(6) p(1) by blast
  obtain r pg where x: "row_page pc0 arr i = (r, pg)" by force
  have x': "row_page pc0 arr (the (rows p)) = (r, pg)" using x i by simp
  have f: "flight ac (m p) (r, pg)" using D(15) [OF p(1)] x' by simp
  obtain k where k: "find_range arr i = Some k" "rx_r (m p) = Some k" using D(16) [OF i] by (auto simp: row_known_def)
  have pg: "rx_page (m p) = pg" using D(16) [OF i] x by (simp add: row_known_def)
  have rr: "rd_range_id (ad_ranges arr ! k) = r" using row_rng [of arr i pc0] k(1) x by simp
  have st: "is_busy (dstate (ac_pc ac1) r pg)" "\<not> is_valid (dstate (ac_pc ac1) r pg)" using flightD(4,5) [OF f] A1(3) by (simp_all add: dstate_def)
  obtain pc' obs where F: "finalize_registered_ctx_completion (ac_pc ac1) arr (m p) =
      (pc', (m p)\<lparr>rx_ctx := (rx_ctx (m p))\<lparr>cx_observed_page_translation := obs, cx_isHit := True, cx_has_pending_io := 0\<rparr>\<rparr>, True)"
    "finished (ac_pc ac1) r pg (fslot (m p)) pc'"
    using finalize_busy [OF k(2) flightD(2) [OF f] pg rr st] by blast
  define ctx where "ctx = (m p)\<lparr>rx_ctx := (rx_ctx (m p))\<lparr>cx_observed_page_translation := obs, cx_isHit := True, cx_has_pending_io := 0\<rparr>\<rparr>"
  have keep: "rows_inv pc0 arr rows (P - {p}) (ac1\<lparr>ac_pc := pc'\<rparr>) (m(p := ctx))"
    by (rule flight_finished [OF inv' p x' take_head_taken [OF T'] F(2)]) (simp_all add: ctx_def fslot_def)
  have l: "gd_ctx_lookup g (lookup_slot lq cid) = Some p" using reg p g by simp
  have cap: "\<not> ucast cid \<ge> kRegisteredCidCapacity"
  proof -
    have "unat (ucast cid :: u32) = unat cid" by (simp add: unat_ucast_up)
    then show ?thesis using unsigned_less [of cid, where 'a = nat] by (simp add: kRegisteredCidCapacity_def word_le_nat_alt)
  qed
  have e: "service_event arr lq cid (g\<lparr>gd_dev := (ac1, snd (gd_dev g))\<rparr>) =
      g\<lparr>gd_dev := (ac1\<lparr>ac_pc := pc'\<rparr>, m(p := ctx)), gd_ctx_lookup := (gd_ctx_lookup g)(lookup_slot lq cid := None),
        gd_event_count := gd_event_count g + 1, gd_progress_count := gd_progress_count g + 1\<rparr>"
    using cap l F(1) by (simp add: service_event_def Let_def g ctx_def)
  have "fkey ctx = (c, q, cid)" "rx_ctrl ctx = rx_ctrl (m p)" using p(2) by (simp_all add: ctx_def fkey_def)
  then show ?thesis using p keep e g A1(1,2) dn by (intro exI [of _ p] exI [of _ ctx] exI [of _ "ac1\<lparr>ac_pc := pc'\<rparr>"]) simp
qed

section \<open>The machine\<close>

text \<open>
  The device with its requests: the contexts in use, each with the index of the first element of its row, and
  those whose row has been submitted but whose thread of the registering kernel has not run.
\<close>

record 't reg_state =
  rg_dev :: "'t gids_dev"
  rg_rows :: "int \<Rightarrow> u64 option"
  rg_pend :: "int set"

text \<open>A row that lies on one page, as these kernels assume.\<close>

definition row_fits :: "'b page_cache \<Rightarrow> array_d_t \<Rightarrow> feature_args \<Rightarrow> u64 \<Rightarrow> bool" where
  "row_fits pc arr fa w \<longleftrightarrow> idx_idx w < fa_num_idx fa \<and> warp_fits fa w \<and> find_range arr (feature_index fa w 0) \<noteq> None \<and>
     (\<forall>t < fa_dim fa. find_range arr (feature_index fa w t) \<noteq> None \<and> row_page pc arr (feature_index fa w t) = row_page pc arr (feature_index fa w 0))"

text \<open>Contexts just allocated are cleared.\<close>

definition clear_ctxs :: "int \<Rightarrow> int \<Rightarrow> (int \<Rightarrow> row_ctx) \<Rightarrow> int \<Rightarrow> row_ctx" where
  "clear_ctxs ctxs n m = (\<lambda>p. if ctxs \<le> p \<and> p < ctxs + n then ctx_cleared else m p)"

text \<open>
  A warp of the submitting kernel on a cleared context; the host clearing contexts it has allocated; a thread of the registering kernel; the
  controller; a thread of the service, which the stream starts after the registering kernels; a thread of the check;
  a warp of the gathering kernel, which the host starts after the check has found the row ready; and a thread of
  the blocking poll that returns, on a row whose page was there when it was submitted, or that has a transfer of its own
  (a row that joined the transfer of another one has no identifier to wait for, see \<open>Page_Async\<close>).
\<close>

inductive reg_step :: "array_d_t \<Rightarrow> 't reg_state \<Rightarrow> 't reg_state \<Rightarrow> bool" for arr where
  submit: "\<lbrakk>rg_dev s = g; gd_dev g = (ac, m); p = ctxs + idx_idx w; p \<notin> dom (rg_rows s); row_fits (ac_pc ac) arr fa w;
      card (dom (rg_rows s)) + 1 < 2 ^ 29;
      read_feature_kernel_submit_async_rowctx arr fa ctxs w smid (ac, m(p := ctx_cleared)) = Some d;
      cids_free (pc_cids (ac_pc (fst d)))\<rbrakk> \<Longrightarrow>
    reg_step arr s (s\<lparr>rg_dev := g\<lparr>gd_dev := d\<rparr>, rg_rows := (rg_rows s)(p \<mapsto> feature_index fa w 0), rg_pend := insert p (rg_pend s)\<rparr>)"
| memset: "\<lbrakk>rg_dev s = g; gd_dev g = (ac, m); \<forall>p \<in> dom (rg_rows s). p < ctxs \<or> ctxs + n \<le> p\<rbrakk> \<Longrightarrow>
    reg_step arr s (s\<lparr>rg_dev := g\<lparr>gd_dev := (ac, clear_ctxs ctxs n m)\<rparr>\<rparr>)"
| register: "\<lbrakk>p = ctxs + uint row; row < word_of_int num; p \<in> rg_pend s\<rbrakk> \<Longrightarrow>
    reg_step arr s (s\<lparr>rg_dev := register_registered_ctx_lookup_kernel ctxs num row (rg_dev s), rg_pend := rg_pend s - {p}\<rparr>)"
| device: "\<lbrakk>rg_dev s = g; gd_dev g = (ac, m)\<rbrakk> \<Longrightarrow>
    reg_step arr s (s\<lparr>rg_dev := g\<lparr>gd_dev := (device_complete c q cid ac, m)\<rparr>\<rparr>)"
| service: "\<lbrakk>rg_pend s = {}; nq = pc_n_qps (ac_pc (fst (gd_dev (rg_dev s)))) 0\<rbrakk> \<Longrightarrow>
    reg_step arr s (s\<lparr>rg_dev := service_registered_cq_window_kernel arr nq lq (rg_dev s)\<rparr>)"
| check: "\<lbrakk>rg_dev s = g; ctxs + uint t * stride \<in> dom (rg_rows s); check_registered_request_ready_kernel arr ctxs num stride t (gd_dev g, n) = (d, n')\<rbrakk> \<Longrightarrow>
    reg_step arr s (s\<lparr>rg_dev := g\<lparr>gd_dev := d\<rparr>\<rparr>)"
| gather: "\<lbrakk>rg_dev s = g; gd_dev g = (ac, m); p = ctxs + idx_idx w; rg_rows s p = Some (feature_index fa w 0); row_fits (ac_pc ac) arr fa w;
      cx_isHit (rx_ctx (m p)); read_feature_kernel_get_feature_light_rowctx arr fa ctxs w (ac, m) out = (d, out')\<rbrakk> \<Longrightarrow>
    reg_step arr s (s\<lparr>rg_dev := g\<lparr>gd_dev := d\<rparr>, rg_rows := (rg_rows s)(p := None), rg_pend := rg_pend s - {p}\<rparr>)"
| wait: "\<lbrakk>rg_dev s = g; gd_dev g = (ac, m); p = ctxs + uint t; t < word_of_int (fa_num_idx fa);
      rg_rows s p = Some ((fa_index fa (uint t) + fa_key_off fa) * of_nat (fa_cache_dim fa));
      cx_isHit (rx_ctx (m p)) \<or> cx_has_pending_io (rx_ctx (m p)) \<noteq> 0;
      read_feature_kernel_single_page_single_thread_poll_rowctx arr fa ctxs t (ac, m) = Some d\<rbrakk> \<Longrightarrow>
    reg_step arr s (s\<lparr>rg_dev := g\<lparr>gd_dev := d\<rparr>\<rparr>)"

inductive_cases reg_stepE: "reg_step arr s s'"

definition reg_start :: "(nat \<Rightarrow> 't) page_cache \<Rightarrow> 't reg_state \<Rightarrow> bool" where
  "reg_start pc s \<longleftrightarrow> ac_pc (fst (gd_dev (rg_dev s))) = pc \<and> ac_sub (fst (gd_dev (rg_dev s))) = (\<lambda>_. None) \<and>
     ac_done (fst (gd_dev (rg_dev s))) = (\<lambda>_. []) \<and> rg_rows s = Map.empty \<and> rg_pend s = {}"

inductive reg_reach :: "(nat \<Rightarrow> 't) page_cache \<Rightarrow> array_d_t \<Rightarrow> 't reg_state \<Rightarrow> bool" for pc arr where
  start: "reg_start pc s \<Longrightarrow> reg_reach pc arr s"
| step: "reg_reach pc arr s \<Longrightarrow> reg_step arr s s' \<Longrightarrow> reg_reach pc arr s'"

text \<open>What the machine starts from: one controller, an array over one range, and no users.\<close>

definition reg_cfg :: "'b page_cache \<Rightarrow> array_d_t \<Rightarrow> bool" where
  "reg_cfg pc arr \<longleftrightarrow> array_inv arr pc \<and> flat_range pc arr \<and> pc_n_pages pc < 2 ^ 32 \<and> pc_n_ctrls pc = 1 \<and> 0 < pc_n_qps pc 0 \<and>
     (\<forall>r pg. in_dom pc r pg \<longrightarrow> cnt_of (dstate pc r pg) = 0 \<and> dp_ref_count (pc_ranges pc r pg) = 0)"

text \<open>The invariant: transfers are those of rows, and the table has every context that the service will look for.\<close>

definition reg_inv :: "(nat \<Rightarrow> 't) page_cache \<Rightarrow> array_d_t \<Rightarrow> 't reg_state \<Rightarrow> int set \<Rightarrow> bool" where
  "reg_inv pc arr s P \<longleftrightarrow>
     (let (ac, m) = gd_dev (rg_dev s) in
      rows_inv pc arr (rg_rows s) P ac m \<and> rg_pend s \<subseteq> dom (rg_rows s) \<and>
      (\<forall>p \<in> P. rx_ctrl (m p) = 0 \<and> fst (fkey (m p)) = 0 \<and> rx_queue (m p) < pc_n_qps pc 0 \<and>
         (p \<notin> rg_pend s \<longrightarrow> gd_ctx_lookup (rg_dev s) (lookup_slot (rx_queue (m p)) (cx_cid (rx_ctx (m p)))) = Some p)))"

lemma lookup_slot_inj: "lookup_slot q cid = lookup_slot q' cid' \<longleftrightarrow> q = q' \<and> cid = cid'"
proof -
  have u: "unat (lookup_slot q cid) = unat q * 65536 + unat cid" for q cid
  proof -
    have a: "unat (ucast q :: u64) = unat q" "unat (ucast cid :: u64) = unat cid" "unat (ucast kRegisteredCidCapacity :: u64) = 65536"
      by (simp_all add: unat_ucast_up kRegisteredCidCapacity_def)
    have b: "unat q < 2 ^ 32" "unat cid < 2 ^ 16" using unsigned_less [of q, where 'a = nat] unsigned_less [of cid, where 'a = nat] by simp_all
    then have "unat (ucast q :: u64) * unat (ucast kRegisteredCidCapacity :: u64) < 2 ^ LENGTH(64)" unfolding a by simp
    then have "unat (ucast q * ucast kRegisteredCidCapacity :: u64) = unat (ucast q :: u64) * unat (ucast kRegisteredCidCapacity :: u64)"
      unfolding unat_mult_lem .
    then have m: "unat (ucast q * ucast kRegisteredCidCapacity :: u64) = unat q * 65536" unfolding a .
    show ?thesis unfolding lookup_slot_def using b by (subst unat_add_bounded) (simp_all add: m a)
  qed
  have c: "unat cid < 65536" for cid :: u16 using unsigned_less [of cid, where 'a = nat] by simp
  have "unat q = unat q' \<and> unat cid = unat cid'" if e: "lookup_slot q cid = lookup_slot q' cid'"
  proof -
    have n: "unat q * 65536 + unat cid = unat q' * 65536 + unat cid'" using e u [of q cid] u [of q' cid'] by simp
    have d: "(unat x * 65536 + unat y) div 65536 = unat x" "(unat x * 65536 + unat y) mod 65536 = unat y" for x :: u32 and y :: u16
      using c [of y] by simp_all
    show ?thesis using d [of q cid] d [of q' cid'] n by simp
  qed
  then have "q = q' \<and> cid = cid'" if "lookup_slot q cid = lookup_slot q' cid'" using that by (simp add: word_unat_eq_iff)
  then show ?thesis by blast
qed

lemma reg_invI:
  assumes "gd_dev (rg_dev s) = (ac, m)" and "rows_inv pc arr (rg_rows s) P ac m"
    and "\<And>p. p \<in> P \<Longrightarrow> rx_ctrl (m p) = 0 \<and> fst (fkey (m p)) = 0 \<and> rx_queue (m p) < pc_n_qps pc 0"
    and "\<And>p. p \<in> P \<Longrightarrow> p \<notin> rg_pend s \<Longrightarrow> gd_ctx_lookup (rg_dev s) (lookup_slot (rx_queue (m p)) (cx_cid (rx_ctx (m p)))) = Some p"
    and "rg_pend s \<subseteq> dom (rg_rows s)"
  shows "reg_inv pc arr s P"
  using assms by (simp add: reg_inv_def)

lemma reg_invD:
  assumes "reg_inv pc arr s P" and "gd_dev (rg_dev s) = (ac, m)"
  shows "rows_inv pc arr (rg_rows s) P ac m" "p \<in> P \<Longrightarrow> rx_ctrl (m p) = 0" "p \<in> P \<Longrightarrow> fst (fkey (m p)) = 0" "p \<in> P \<Longrightarrow> rx_queue (m p) < pc_n_qps pc 0"
    "p \<in> P \<Longrightarrow> p \<notin> rg_pend s \<Longrightarrow> gd_ctx_lookup (rg_dev s) (lookup_slot (rx_queue (m p)) (cx_cid (rx_ctx (m p)))) = Some p"
    "rg_pend s \<subseteq> dom (rg_rows s)"
  using assms by (simp_all add: reg_inv_def)

lemma fkey_0: "fst (fkey ctx) = 0 \<Longrightarrow> fkey ctx = (0, rx_queue ctx, cx_cid (rx_ctx ctx))"
  by (simp add: fkey_def)

lemma one_ctrl: "pc_n_ctrls pc = 1 \<Longrightarrow> c \<in> ctrls_of pc r pg \<Longrightarrow> c = 0"
proof -
  assume n: "pc_n_ctrls pc = 1" and c: "c \<in> ctrls_of pc r pg"
  have "pg mod (1 :: u64) = 0" by (simp add: word_unat_eq_iff unat_mod)
  moreover have "c < (1 :: u64) \<Longrightarrow> c = 0" by (simp add: word_less_nat_alt unat_eq_0)
  ultimately show "c = 0" using n c by (cases "pc_dists pc r") (simp_all add: ctrls_of_def)
qed

lemma reg_cfgD:
  assumes "reg_cfg pc arr"
  shows "cache_inv pc" "no_prefetch pc" "ad_ok pc arr" "flat_range pc arr" "pc_n_pages pc < 2 ^ 32" "pc_n_ctrls pc = 1" "0 < pc_n_qps pc 0"
    "in_dom pc r pg \<Longrightarrow> cnt_of (dstate pc r pg) = 0 \<and> dp_ref_count (pc_ranges pc r pg) = 0"
  using assms by (simp_all add: reg_cfg_def array_inv_def)

lemma start_keeps:
  assumes cfg: "reg_cfg pc arr" and s: "reg_start pc s"
  shows "reg_inv pc arr s {}"
proof -
  obtain ac m where g: "gd_dev (rg_dev s) = (ac, m)" by force
  note C = reg_cfgD [OF cfg]
  have a: "ac_pc ac = pc" "ac_sub ac = (\<lambda>_. None)" "ac_done ac = (\<lambda>_. [])" "rg_rows s = Map.empty" using s g by (simp_all add: reg_start_def)
  have u: "row_users pc arr Map.empty r pg = cnt_of (dstate pc r pg)" for r pg by (simp add: row_users_def)
  have i: "inv0 {} pc" "quiet pc" using C(1) by (simp_all add: cache_inv_def)
  have "rows_inv pc arr Map.empty {} ac m"
    by (rule rows_invI) (use i C(2,8) in \<open>auto simp: a u completed_def same_content_def quiet_def\<close>)
  then show ?thesis using g a(4) s by (intro reg_invI) (simp_all add: reg_start_def)
qed

lemma cfg_row_fits: "cfg_eq pc' pc \<Longrightarrow> row_fits pc' arr fa w = row_fits pc arr fa w"
  by (simp add: row_fits_def row_page_eq)

lemma submit_step:
  assumes cfg: "reg_cfg pc arr" and inv: "reg_inv pc arr s P" and g: "gd_dev (rg_dev s) = (ac, m)" and p: "p = ctxs + idx_idx w" "p \<notin> dom (rg_rows s)"
    and w: "row_fits (ac_pc ac) arr fa w" and c: "card (dom (rg_rows s)) + 1 < 2 ^ 29"
    and ret: "read_feature_kernel_submit_async_rowctx arr fa ctxs w smid (ac, m(p := ctx_cleared)) = Some d" and free: "cids_free (pc_cids (ac_pc (fst d)))"
  shows "\<exists>P'. reg_inv pc arr (s\<lparr>rg_dev := (rg_dev s)\<lparr>gd_dev := d\<rparr>, rg_rows := (rg_rows s)(p \<mapsto> feature_index fa w 0), rg_pend := insert p (rg_pend s)\<rparr>) P'"
proof -
  note C = reg_cfgD [OF cfg] and I = reg_invD [OF inv g]
  note D = rows_invD [OF I(1)]
  obtain ac' m' where d: "d = (ac', m')" by force
  have b: "row_users pc arr (rg_rows s) r pg + 1 < 2 ^ 29" if "in_dom pc r pg" for r pg
  proof -
    have "card {p \<in> dom (rg_rows s). row_page pc arr (the (rg_rows s p)) = (r, pg)} \<le> card (dom (rg_rows s))" by (rule card_mono [OF D(5)]) blast
    then show ?thesis using C(8) [OF that] c by (simp add: row_users_def)
  qed
  have w': "idx_idx w < fa_num_idx fa" "find_range arr (feature_index fa w 0) \<noteq> None" using w by (simp_all add: row_fits_def)
  from submit_row_keeps [OF I(1) p(2,1) C(3) w' b ret [unfolded d] free [unfolded d fst_conv]]
  obtain P' ctx where R: "m' = m(p := ctx)" "rows_inv pc arr ((rg_rows s)(p \<mapsto> feature_index fa w 0)) P' ac' m'" "P' = P \<or> P' = insert p P"
    "rx_ctrl ctx = 0" "rx_queue ctx = smid mod pc_n_qps pc 0" by blast
  have pP: "p \<notin> P" using p(2) D(6) by blast
  have q: "rx_queue ctx < pc_n_qps pc 0" unfolding R(5) by (rule word_mod_less_divisor [OF C(7)])
  have f: "fst (fkey (m' q)) = 0" if "q \<in> P'" for q
  proof -
    note D' = rows_invD [OF R(2)]
    let ?x = "row_page pc arr (the (((rg_rows s)(p \<mapsto> feature_index fa w 0)) q))"
    have "flight ac' (m' q) (fst ?x, snd ?x)" using D'(15) [OF that] by simp
    from flightD(9) [OF this] have "fst (fkey (m' q)) \<in> ctrls_of pc (fst ?x) (snd ?x)" using cfg_eqD(3) [OF D'(1)] by simp
    then show ?thesis by (rule one_ctrl [OF C(6)])
  qed
  have "reg_inv pc arr (s\<lparr>rg_dev := (rg_dev s)\<lparr>gd_dev := d\<rparr>, rg_rows := (rg_rows s)(p \<mapsto> feature_index fa w 0), rg_pend := insert p (rg_pend s)\<rparr>) P'"
  proof (rule reg_invI)
    show "rx_ctrl (m' q) = 0 \<and> fst (fkey (m' q)) = 0 \<and> rx_queue (m' q) < pc_n_qps pc 0" if qP: "q \<in> P'" for q
      using f [OF qP] I(2) [of q] I(4) [of q] qP R(1,3,4) q pP by (cases "q = p") auto
    show "gd_dev (rg_dev (s\<lparr>rg_dev := (rg_dev s)\<lparr>gd_dev := d\<rparr>, rg_rows := (rg_rows s)(p \<mapsto> feature_index fa w 0), rg_pend := insert p (rg_pend s)\<rparr>)) = (ac', m')"
      using d by simp
    fix q assume q: "q \<in> P'" "q \<notin> rg_pend (s\<lparr>rg_dev := (rg_dev s)\<lparr>gd_dev := d\<rparr>, rg_rows := (rg_rows s)(p \<mapsto> feature_index fa w 0), rg_pend := insert p (rg_pend s)\<rparr>)"
    then have n: "q \<noteq> p" "q \<notin> rg_pend s" "q \<in> P" using R(3) by auto
    then show "gd_ctx_lookup (rg_dev (s\<lparr>rg_dev := (rg_dev s)\<lparr>gd_dev := d\<rparr>, rg_rows := (rg_rows s)(p \<mapsto> feature_index fa w 0), rg_pend := insert p (rg_pend s)\<rparr>))
        (lookup_slot (rx_queue (m' q)) (cx_cid (rx_ctx (m' q)))) = Some q" using I(5) [OF n(3,2)] R(1) by simp
  qed (use R(2) I(6) in auto)
  then show ?thesis by blast
qed

lemma register_step:
  assumes inv: "reg_inv pc arr s P" and p: "p = ctxs + uint row" "row < word_of_int num" "p \<in> rg_pend s"
  shows "reg_inv pc arr (s\<lparr>rg_dev := register_registered_ctx_lookup_kernel ctxs num row (rg_dev s), rg_pend := rg_pend s - {p}\<rparr>) P"
proof -
  obtain ac m where g: "gd_dev (rg_dev s) = (ac, m)" by force
  note I = reg_invD [OF inv g]
  note D = rows_invD [OF I(1)]
  let ?g = "register_registered_ctx_lookup_kernel ctxs num row (rg_dev s)"
  let ?slot = "\<lambda>q. lookup_slot (rx_queue (m q)) (cx_cid (rx_ctx (m q)))"
  have dev: "gd_dev ?g = gd_dev (rg_dev s)" by (simp add: register_registered_ctx_lookup_kernel_def Let_def split_beta)
  have other: "?slot q \<noteq> ?slot p" if "q \<in> P" "p \<in> P" "q \<noteq> p" for q
  proof
    assume "?slot q = ?slot p"
    then have "rx_queue (m q) = rx_queue (m p)" "cx_cid (rx_ctx (m q)) = cx_cid (rx_ctx (m p))" by (simp_all add: lookup_slot_inj)
    then have "fkey (m q) = fkey (m p)" using I(3) [OF that(1)] I(3) [OF that(2)] by (simp add: fkey_def)
    then show False using inj_onD [OF D(11) _ that(1,2)] that(3) by blast
  qed
  have look: "gd_ctx_lookup ?g = (gd_ctx_lookup (rg_dev s))(?slot p \<mapsto> p)" if pP: "p \<in> P"
  proof -
    obtain i where i: "rg_rows s p = Some i" using D(6) pP by blast
    obtain r pg where x: "row_page pc arr i = (r, pg)" by force
    have f: "flight ac (m p) (r, pg)" using D(15) [OF pP] i x by simp
    obtain k where k: "rx_r (m p) = Some k" using D(16) [OF i] by (auto simp: row_known_def)
    have nr: "\<not> word_of_int num \<le> row" using p(2) by simp
    have cap: "\<not> ucast (cx_cid (rx_ctx (m p))) \<ge> kRegisteredCidCapacity"
    proof -
      have "unat (ucast (cx_cid (rx_ctx (m p))) :: u32) = unat (cx_cid (rx_ctx (m p)))" by (simp add: unat_ucast_up)
      then show ?thesis using unsigned_less [of "cx_cid (rx_ctx (m p))", where 'a = nat] by (simp add: kRegisteredCidCapacity_def word_le_nat_alt)
    qed
    have l: "logical_queue_idx (ac_pc ac) (m p) = rx_queue (m p)" using I(2) [OF pP] by (simp add: logical_queue_idx_def queues_before_def)
    show ?thesis using nr k flightD(2,3) [OF f] cap l
      by (simp add: register_registered_ctx_lookup_kernel_def Let_def g p(1) [symmetric])
  qed
  have none: "gd_ctx_lookup ?g = gd_ctx_lookup (rg_dev s)" if pP: "p \<notin> P" "p \<in> dom (rg_rows s)"
  proof -
    obtain i where i: "rg_rows s p = Some i" using pP(2) by blast
    then have "cx_isHit (rx_ctx (m p)) \<or> cx_has_pending_io (rx_ctx (m p)) = 0" using D(17) [OF i] pP by simp
    then show ?thesis by (simp add: register_registered_ctx_lookup_kernel_def Let_def g p(1) [symmetric])
  qed
  show ?thesis
  proof (rule reg_invI)
    show "gd_ctx_lookup (rg_dev (s\<lparr>rg_dev := ?g, rg_pend := rg_pend s - {p}\<rparr>)) (?slot q) = Some q"
      if qP: "q \<in> P" "q \<notin> rg_pend (s\<lparr>rg_dev := ?g, rg_pend := rg_pend s - {p}\<rparr>)" for q
    proof (cases "q = p")
      case True
      then show ?thesis using look qP(1) by simp
    next
      case False
      then have l: "gd_ctx_lookup (rg_dev s) (?slot q) = Some q" using I(5) [OF qP(1)] qP(2) by simp
      consider "p \<in> P" | "p \<notin> P" by blast
      then show ?thesis
      proof cases
        case 1
        then show ?thesis using look other [OF qP(1) 1 False] l by simp
      next
        case 2
        have "gd_ctx_lookup ?g (?slot q) = Some q" using none [OF 2 subsetD [OF I(6) p(3)]] l by simp
        then show ?thesis by simp
      qed
    qed
  qed (use I(1-4,6) dev g in auto)
qed

lemma device_step:
  assumes inv: "reg_inv pc arr s P" and g: "gd_dev (rg_dev s) = (ac, m)"
  shows "reg_inv pc arr (s\<lparr>rg_dev := (rg_dev s)\<lparr>gd_dev := (device_complete c q cid ac, m)\<rparr>\<rparr>) P"
proof -
  note I = reg_invD [OF inv g]
  show ?thesis by (rule reg_invI [where ac = "device_complete c q cid ac" and m = m]) (use I device_keeps [OF I(1)] in auto)
qed

lemma service_queue_keeps:
  assumes inv: "reg_inv pc arr s P" and pend: "rg_pend s = {}"
  shows "\<exists>P'. reg_inv pc arr (s\<lparr>rg_dev := service_queue n arr q 0 q (rg_dev s)\<rparr>) P' \<and> P' \<subseteq> P \<and>
    (\<forall>k. ac_sub (fst (gd_dev (service_queue n arr q 0 q (rg_dev s)))) k = ac_sub (fst (gd_dev (rg_dev s))) k) \<and>
    (\<forall>k. ac_done (fst (gd_dev (service_queue n arr q 0 q (rg_dev s)))) k =
      (if k = (0, q) then drop n (ac_done (fst (gd_dev (rg_dev s))) (0, q)) else ac_done (fst (gd_dev (rg_dev s))) k))"
  using assms
proof (induction n arbitrary: s P)
  case 0
  then show ?case by (intro exI [of _ P]) simp
next
  case (Suc n)
  obtain ac m where g: "gd_dev (rg_dev s) = (ac, m)" by force
  note I = reg_invD [OF Suc.prems(1) g]
  show ?case
  proof (cases "take_head ac 0 q")
    case None
    then have e: "ac_done ac (0, q) = []" by (auto simp: take_head_def split: list.splits)
    have "service_queue (Suc n) arr q 0 q (rg_dev s) = rg_dev s" using None g by simp
    then show ?thesis using Suc.prems(1) e g by (intro exI [of _ P]) simp
  next
    case (Some x)
    obtain ac1 cid where x: "x = (ac1, cid)" by force
    have T: "take_head (fst (gd_dev (rg_dev s))) 0 q = Some (ac1, cid)" using Some x g by simp
    have reg: "gd_ctx_lookup (rg_dev s) (lookup_slot q cid) = Some p" if "p \<in> P" "fkey (snd (gd_dev (rg_dev s)) p) = (0, q, cid)" for p
      using I(5) [OF that(1)] Suc.prems(2) that(2) g by (simp add: fkey_def)
    have i: "rows_inv pc arr (rg_rows s) P (fst (gd_dev (rg_dev s))) (snd (gd_dev (rg_dev s)))" using I(1) g by simp
    from service_event_keeps [OF i T reg]
    obtain p ctx ac' where R: "p \<in> P" "fkey (m p) = (0, q, cid)" "fkey ctx = (0, q, cid)" "rx_ctrl ctx = rx_ctrl (m p)"
      "rows_inv pc arr (rg_rows s) (P - {p}) ac' (m(p := ctx))" "ac_sub ac' = ac_sub ac" "ac_done ac' = (ac_done ac)((0, q) := tl (ac_done ac (0, q)))"
      "service_event arr q cid ((rg_dev s)\<lparr>gd_dev := (ac1, m)\<rparr>) = (rg_dev s)\<lparr>gd_dev := (ac', m(p := ctx)), gd_ctx_lookup := (gd_ctx_lookup (rg_dev s))(lookup_slot q cid := None),
        gd_event_count := gd_event_count (rg_dev s) + 1, gd_progress_count := gd_progress_count (rg_dev s) + 1\<rparr>" (is "_ = ?g")
      unfolding g fst_conv snd_conv by blast
    let ?s = "s\<lparr>rg_dev := ?g\<rparr>"
    have other: "lookup_slot (rx_queue (m p')) (cx_cid (rx_ctx (m p'))) \<noteq> lookup_slot q cid" if "p' \<in> P - {p}" for p'
    proof
      assume "lookup_slot (rx_queue (m p')) (cx_cid (rx_ctx (m p'))) = lookup_slot q cid"
      then have "fkey (m p') = fkey (m p)" using I(3) that R(2) by (simp add: lookup_slot_inj fkey_def)
      then show False using inj_onD [OF rows_invD(11) [OF I(1)], of p' p] that R(1) by blast
    qed
    have "reg_inv pc arr ?s (P - {p})"
    proof (rule reg_invI)
      show "gd_dev (rg_dev ?s) = (ac', m(p := ctx))" by simp
    qed (use R(5) I other in auto)
    from Suc.IH [OF this] Suc.prems(2)
    obtain P' where IH: "reg_inv pc arr (?s\<lparr>rg_dev := service_queue n arr q 0 q (rg_dev ?s)\<rparr>) P'" "P' \<subseteq> P - {p}"
      "\<forall>k. ac_sub (fst (gd_dev (service_queue n arr q 0 q (rg_dev ?s)))) k = ac_sub (fst (gd_dev (rg_dev ?s))) k"
      "\<forall>k. ac_done (fst (gd_dev (service_queue n arr q 0 q (rg_dev ?s)))) k =
        (if k = (0, q) then drop n (ac_done (fst (gd_dev (rg_dev ?s))) (0, q)) else ac_done (fst (gd_dev (rg_dev ?s))) k)" by auto
    have e: "service_queue (Suc n) arr q 0 q (rg_dev s) = service_queue n arr q 0 q (rg_dev ?s)"
      using Some x g R(8) by simp
    show ?thesis unfolding e using IH R(6,7) g by (intro exI [of _ P']) (auto simp: drop_Suc)
  qed
qed

lemma service_step:
  fixes lq :: u32
  assumes cfg: "reg_cfg pc arr" and inv: "reg_inv pc arr s P" and pend: "rg_pend s = {}" and q: "nq = pc_n_qps (ac_pc (fst (gd_dev (rg_dev s)))) 0"
  defines "g' \<equiv> service_registered_cq_window_kernel arr nq lq (rg_dev s)"
  shows "\<exists>P'. reg_inv pc arr (s\<lparr>rg_dev := g'\<rparr>) P' \<and> P' \<subseteq> P \<and>
    (\<forall>k. ac_sub (fst (gd_dev g')) k = ac_sub (fst (gd_dev (rg_dev s))) k) \<and>
    (\<forall>k. ac_done (fst (gd_dev g')) k =
      (if k = (0, lq) \<and> lq < pc_n_qps pc 0 then drop kMaxEventsPerQueue (ac_done (fst (gd_dev (rg_dev s))) (0, lq)) else ac_done (fst (gd_dev (rg_dev s))) k))"
proof -
  obtain ac m where g: "gd_dev (rg_dev s) = (ac, m)" by force
  note C = reg_cfgD [OF cfg] and I = reg_invD [OF inv g]
  note D = rows_invD [OF I(1)]
  have e: "pc_n_qps (ac_pc ac) 0 = pc_n_qps pc 0" "pc_n_ctrls (ac_pc ac) = 1" using D(1) C(6) by (simp_all add: cfg_eq_def)
  show ?thesis
  proof (cases "lq < pc_n_qps pc 0")
    case True
    then have "g' = service_queue kMaxEventsPerQueue arr lq 0 lq (rg_dev s)"
      using g e q by (simp add: g'_def service_registered_cq_window_kernel_def Let_def)
    then show ?thesis using service_queue_keeps [OF inv pend, of kMaxEventsPerQueue lq] True by simp
  next
    case False
    then have "g' = rg_dev s" using g e q by (simp add: g'_def service_registered_cq_window_kernel_def Let_def)
    then show ?thesis using inv False by (intro exI [of _ P]) simp
  qed
qed

lemma check_eq:
  assumes "t < word_of_int num" and "refresh_registered_ctx_from_valid_page (ac_pc ac) arr (m (ctxs + uint t * stride)) = (pc', ctx', b)"
    and "cx_isHit (rx_ctx (m (ctxs + uint t * stride))) \<Longrightarrow> pc' = ac_pc ac \<and> ctx' = m (ctxs + uint t * stride)"
  shows "check_registered_request_ready_kernel arr ctxs num stride t ((ac, m), n) =
    ((ac\<lparr>ac_pc := pc'\<rparr>, m(ctxs + uint t * stride := ctx')), if cx_isHit (rx_ctx ctx') then n else n + 1)"
  using assms by (auto simp: check_registered_request_ready_kernel_def Let_def)

lemma check_step:
  assumes cfg: "reg_cfg pc arr" and inv: "reg_inv pc arr s P" and p: "ctxs + uint t * stride \<in> dom (rg_rows s)"
    and ret: "check_registered_request_ready_kernel arr ctxs num stride t (gd_dev (rg_dev s), n) = (d, n')"
  shows "reg_inv pc arr (s\<lparr>rg_dev := (rg_dev s)\<lparr>gd_dev := d\<rparr>\<rparr>) P"
    "ac_sub (fst d) = ac_sub (fst (gd_dev (rg_dev s)))" "ac_done (fst d) = ac_done (fst (gd_dev (rg_dev s)))"
    "q \<noteq> ctxs + uint t * stride \<Longrightarrow> snd d q = snd (gd_dev (rg_dev s)) q"
    "t < word_of_int num \<Longrightarrow> n' = (if cx_isHit (rx_ctx (snd d (ctxs + uint t * stride))) then n else n + 1)"
    "t < word_of_int num \<Longrightarrow> P = {} \<Longrightarrow> cx_isHit (rx_ctx (snd d (ctxs + uint t * stride)))"
    "cx_isHit (rx_ctx (snd (gd_dev (rg_dev s)) (ctxs + uint t * stride))) \<Longrightarrow> cx_isHit (rx_ctx (snd d (ctxs + uint t * stride)))"
proof -
  let ?p = "ctxs + uint t * stride"
  obtain ac m where g: "gd_dev (rg_dev s) = (ac, m)" by force
  note C = reg_cfgD [OF cfg] and I = reg_invD [OF inv g]
  note D = rows_invD [OF I(1)]
  obtain i where i: "rg_rows s ?p = Some i" using p by blast
  obtain pc' ctx' b where r: "refresh_registered_ctx_from_valid_page (ac_pc ac) arr (m ?p) = (pc', ctx', b)" using prod_cases3 by blast
  note R = refresh_keeps [OF I(1) i C(3,5) r]
  have e: "check_registered_request_ready_kernel arr ctxs num stride t (gd_dev (rg_dev s), n) =
      (if t < word_of_int num then ((ac\<lparr>ac_pc := pc'\<rparr>, m(?p := ctx')), if cx_isHit (rx_ctx ctx') then n else n + 1) else ((ac, m), n))"
  proof (cases "t < word_of_int num")
    case True
    show ?thesis unfolding g using check_eq [where t = t and num = num and m = m and ctxs = ctxs and stride = stride, OF True r R(4)] True by simp
  next
    case False
    then have "t \<ge> word_of_int num" by simp
    then show ?thesis unfolding g using False by (simp add: check_registered_request_ready_kernel_def)
  qed
  have keep: "reg_inv pc arr (s\<lparr>rg_dev := (rg_dev s)\<lparr>gd_dev := (ac\<lparr>ac_pc := pc'\<rparr>, m(?p := ctx'))\<rparr>\<rparr>) P"
  proof (rule reg_invI [where ac = "ac\<lparr>ac_pc := pc'\<rparr>" and m = "m(?p := ctx')"])
    fix q assume q: "q \<in> P"
    have k: "fkey ((m(?p := ctx')) q) = fkey (m q)" "rx_ctrl ((m(?p := ctx')) q) = rx_ctrl (m q)" using R(6,7) by simp_all
    then have k': "rx_queue ((m(?p := ctx')) q) = rx_queue (m q)" "cx_cid (rx_ctx ((m(?p := ctx')) q)) = cx_cid (rx_ctx (m q))" unfolding fkey_def by simp_all
    show "rx_ctrl ((m(?p := ctx')) q) = 0 \<and> fst (fkey ((m(?p := ctx')) q)) = 0 \<and> rx_queue ((m(?p := ctx')) q) < pc_n_qps pc 0"
      unfolding k k' using I(2-4) [OF q] by simp
    assume "q \<notin> rg_pend (s\<lparr>rg_dev := (rg_dev s)\<lparr>gd_dev := (ac\<lparr>ac_pc := pc'\<rparr>, m(?p := ctx'))\<rparr>\<rparr>)"
    then show "gd_ctx_lookup (rg_dev (s\<lparr>rg_dev := (rg_dev s)\<lparr>gd_dev := (ac\<lparr>ac_pc := pc'\<rparr>, m(?p := ctx'))\<rparr>\<rparr>))
       (lookup_slot (rx_queue ((m(?p := ctx')) q)) (cx_cid (rx_ctx ((m(?p := ctx')) q)))) = Some q"
      unfolding k' using I(5) [OF q] by simp
  qed (use R(1) I(6) in simp_all)
  show "reg_inv pc arr (s\<lparr>rg_dev := (rg_dev s)\<lparr>gd_dev := d\<rparr>\<rparr>) P"
  proof (cases "t < word_of_int num")
    case True
    then show ?thesis using keep ret unfolding e by auto
  next
    case False
    then have "d = gd_dev (rg_dev s)" using ret g unfolding e by simp
    then show ?thesis using inv by simp
  qed
  show "ac_sub (fst d) = ac_sub (fst (gd_dev (rg_dev s)))" "ac_done (fst d) = ac_done (fst (gd_dev (rg_dev s)))"
    "q \<noteq> ?p \<Longrightarrow> snd d q = snd (gd_dev (rg_dev s)) q"
    "t < word_of_int num \<Longrightarrow> n' = (if cx_isHit (rx_ctx (snd d ?p)) then n else n + 1)"
    using ret [unfolded e] unfolding g by (cases "t < word_of_int num"; auto split: if_splits)+
  show "cx_isHit (rx_ctx (snd d ?p))" if "t < word_of_int num" "P = {}"
  proof -
    have "is_valid (dstate (ac_pc ac) (fst (row_page pc arr i)) (snd (row_page pc arr i)))" using D(18) [OF i] that(2) by simp
    then have "cx_isHit (rx_ctx ctx')" using R(2,3) by simp
    then show ?thesis using ret that(1) unfolding e by auto
  qed
  show "cx_isHit (rx_ctx (snd d ?p))" if "cx_isHit (rx_ctx (snd (gd_dev (rg_dev s)) ?p))"
    using R(4) that ret [unfolded e] unfolding g by (cases "t < word_of_int num"; auto split: if_splits)
qed

lemma gather_step:
  assumes cfg: "reg_cfg pc arr" and inv: "reg_inv pc arr s P" and g: "gd_dev (rg_dev s) = (ac, m)" and p: "p = ctxs + idx_idx w" "rg_rows s p = Some (feature_index fa w 0)"
    and w: "row_fits pc arr fa w" and h: "cx_isHit (rx_ctx (m p))"
  shows "\<exists>ac' out'. read_feature_kernel_get_feature_light_rowctx arr fa ctxs w (ac, m) out = ((ac', m), out') \<and>
    reg_inv pc arr (s\<lparr>rg_dev := (rg_dev s)\<lparr>gd_dev := (ac', m)\<rparr>, rg_rows := (rg_rows s)(p := None), rg_pend := rg_pend s - {p}\<rparr>) P \<and>
    (\<forall>t < fa_dim fa. elem_view pc arr (feature_index fa w t) = Some (out' (out_index fa w t))) \<and>
    (\<forall>y. (\<forall>t < fa_dim fa. y \<noteq> out_index fa w t) \<longrightarrow> out' y = out y)"
proof -
  note C = reg_cfgD [OF cfg] and I = reg_invD [OF inv g]
  have w': "idx_idx w < fa_num_idx fa" "warp_fits fa w"
    "\<And>t. t < fa_dim fa \<Longrightarrow> find_range arr (feature_index fa w t) \<noteq> None \<and> row_page pc arr (feature_index fa w t) = row_page pc arr (feature_index fa w 0)"
    using w unfolding row_fits_def by blast+
  obtain ac' out' where G: "read_feature_kernel_get_feature_light_rowctx arr fa ctxs w (ac, m) out = ((ac', m), out')"
    "rows_inv pc arr ((rg_rows s)(p := None)) P ac' m"
    "\<forall>t < fa_dim fa. elem_view pc arr (feature_index fa w t) = Some (out' (out_index fa w t))"
    "\<forall>y. (\<forall>t < fa_dim fa. y \<noteq> out_index fa w t) \<longrightarrow> out' y = out y"
    using gather_row [OF I(1) p(2) C(3,4,5) h w'(1) p(1) refl w'(2,3), of out] by blast
  have pP: "p \<notin> P" using rows_invD(6) [OF G(2)] by auto
  have "reg_inv pc arr (s\<lparr>rg_dev := (rg_dev s)\<lparr>gd_dev := (ac', m)\<rparr>, rg_rows := (rg_rows s)(p := None), rg_pend := rg_pend s - {p}\<rparr>) P"
  proof (rule reg_invI [where ac = ac' and m = m])
    fix q assume q: "q \<in> P"
    show "rx_ctrl (m q) = 0 \<and> fst (fkey (m q)) = 0 \<and> rx_queue (m q) < pc_n_qps pc 0" using I(2-4) [OF q] by simp
    assume "q \<notin> rg_pend (s\<lparr>rg_dev := (rg_dev s)\<lparr>gd_dev := (ac', m)\<rparr>, rg_rows := (rg_rows s)(p := None), rg_pend := rg_pend s - {p}\<rparr>)"
    then have "q \<notin> rg_pend s" using q pP by auto
    then show "gd_ctx_lookup (rg_dev (s\<lparr>rg_dev := (rg_dev s)\<lparr>gd_dev := (ac', m)\<rparr>, rg_rows := (rg_rows s)(p := None), rg_pend := rg_pend s - {p}\<rparr>))
       (lookup_slot (rx_queue (m q)) (cx_cid (rx_ctx (m q)))) = Some q" using I(5) [OF q] by simp
  qed (use I(6) G(2) in auto)
  then show ?thesis using G by blast
qed

text \<open>A thread of the blocking poll returns.\<close>

lemma wait_step:
  assumes cfg: "reg_cfg pc arr" and inv: "reg_inv pc arr s P" and g: "gd_dev (rg_dev s) = (ac, m)" and p: "p = ctxs + uint t"
    and t: "t < word_of_int (fa_num_idx fa)"
    and i: "rg_rows s p = Some ((fa_index fa (uint t) + fa_key_off fa) * of_nat (fa_cache_dim fa))"
    and own: "cx_isHit (rx_ctx (m p)) \<or> cx_has_pending_io (rx_ctx (m p)) \<noteq> 0"
    and ret: "read_feature_kernel_single_page_single_thread_poll_rowctx arr fa ctxs t (ac, m) = Some d"
  shows "reg_inv pc arr (s\<lparr>rg_dev := (rg_dev s)\<lparr>gd_dev := d\<rparr>\<rparr>) (P - {p})" "cx_isHit (rx_ctx (snd d p))" "q \<noteq> p \<Longrightarrow> snd d q = m q"
proof -
  let ?i = "(fa_index fa (uint t) + fa_key_off fa) * of_nat (fa_cache_dim fa)"
  note I = reg_invD [OF inv g]
  note D = rows_invD [OF I(1)]
  obtain r pg where x: "row_page pc arr ?i = (r, pg)" by force
  have f: "find_range arr ?i \<noteq> None" using D(16) [OF i] by (simp add: row_known_def)
  have x': "row_page (ac_pc ac) arr ?i = (r, pg)" using x row_page_eq [OF D(1)] by simp
  have e: "single_page_poll 1 arr fa ctxs t (ac, m) = Some d"
    using ret t by (simp add: read_feature_kernel_single_page_single_thread_poll_rowctx_def)
  have p1: "ctxs + uint t * 1 = p" using p by simp
  obtain ac' c' b where A: "acquire_page_wait_async ac r pg (rx_count (m p)) False (rx_queue (m p)) (rx_ctx (m p)) = Some (ac', c', b)"
    and d: "d = (ac', m(p := (m p)\<lparr>rx_ctx := c', rx_base_master := b\<rparr>))"
    using e unfolding single_page_poll_eq [OF f refl x', where ctxs = ctxs and stride = 1 and m = m, unfolded p1] by (auto split: option.splits)
  note W = wait_keeps [OF I(1) i x own A]
  show "cx_isHit (rx_ctx (snd d p))" "q \<noteq> p \<Longrightarrow> snd d q = m q" using W(2) by (simp_all add: d)
  show "reg_inv pc arr (s\<lparr>rg_dev := (rg_dev s)\<lparr>gd_dev := d\<rparr>\<rparr>) (P - {p})"
  proof (rule reg_invI)
    show "gd_dev (rg_dev (s\<lparr>rg_dev := (rg_dev s)\<lparr>gd_dev := d\<rparr>\<rparr>)) = (ac', m(p := (m p)\<lparr>rx_ctx := c', rx_base_master := b\<rparr>))" by (simp add: d)
  qed (use W(1) I in auto)
qed

lemma memset_step:
  assumes inv: "reg_inv pc arr s P" and g: "gd_dev (rg_dev s) = (ac, m)" and n: "\<forall>p \<in> dom (rg_rows s). p < ctxs \<or> ctxs + n \<le> p"
  shows "reg_inv pc arr (s\<lparr>rg_dev := (rg_dev s)\<lparr>gd_dev := (ac, clear_ctxs ctxs n m)\<rparr>\<rparr>) P"
proof -
  note I = reg_invD [OF inv g]
  have same: "clear_ctxs ctxs n m p = m p" if "p \<in> dom (rg_rows s)" for p using bspec [OF n that] by (auto simp: clear_ctxs_def)
  have P: "clear_ctxs ctxs n m p = m p" if "p \<in> P" for p using same rows_invD(6) [OF I(1)] that by blast
  show ?thesis
    by (rule reg_invI [where ac = ac and m = "clear_ctxs ctxs n m"]) (use I P rows_other_ctxs [OF I(1) same] in auto)
qed

lemma reach_inv:
  assumes cfg: "reg_cfg pc arr" and r: "reg_reach pc arr s"
  shows "\<exists>P. reg_inv pc arr s P"
  using r
proof (induction rule: reg_reach.induct)
  case (start s)
  then show ?case using start_keeps [OF cfg] by blast
next
  case (step s s')
  then obtain P where inv: "reg_inv pc arr s P" by blast
  from step.hyps(2) show ?case
  proof (cases rule: reg_step.cases)
    case (submit g ac m p ctxs w fa smid d)
    then show ?thesis using submit_step [OF cfg inv, of ac m p ctxs w fa smid d] by simp
  next
    case (memset g ac m ctxs n)
    then show ?thesis using memset_step [OF inv, of ac m ctxs n] by auto
  next
    case (register p ctxs row num)
    then show ?thesis using register_step [OF inv] by blast
  next
    case (device g ac m c q cid)
    then show ?thesis using device_step [OF inv, of ac m c q cid] by auto
  next
    case (service nq lq)
    then show ?thesis using service_step [OF cfg inv] by blast
  next
    case (check g ctxs t stride num n d n')
    then show ?thesis using check_step(1) [OF cfg inv, of ctxs t stride num n d n'] by auto
  next
    case (gather g ac m p ctxs w fa out d out')
    have gd: "gd_dev (rg_dev s) = (ac, m)" using gather by simp
    have "row_fits pc arr fa w" using gather(6) cfg_row_fits [OF rows_invD(1) [OF reg_invD(1) [OF inv gd]]] by simp
    from gather_step [OF cfg inv gd gather(4,5) this gather(7), of out] gather show ?thesis by auto
  next
    case (wait g ac m p ctxs t fa d)
    then show ?thesis using wait_step(1) [OF cfg inv, of ac m p ctxs t fa d] by auto
  qed
qed

end
