(* ===== verification/Gids_Registered.thy ===== *)
theory Gids_Registered
  imports Gids_Requests
begin

text \<open>
  What the host starts for registered requests (\<open>gids_nvme.cu\<close>): the check of a request, the rounds of the service,
  and the gathering kernel.  A request that is found ready is gathered correctly, requests become ready when the
  controller has completed their commands, and with a second controller some never do.
\<close>

section \<open>Launches\<close>

text \<open>
  The threads of a launch run in some order: the check that the host starts for a request
  (\<open>registered_request_ready_at\<close>), the rounds of the service (\<open>service_registered_completions_burst\<close>), and the
  gathering kernel.
\<close>

definition check_launch :: "array_d_t \<Rightarrow> int \<Rightarrow> int \<Rightarrow> int \<Rightarrow> u32 list \<Rightarrow> 't ctx_dev \<Rightarrow> 't ctx_dev \<times> u32" where
  "check_launch arr ctxs num stride ts d = foldl (\<lambda>s t. check_registered_request_ready_kernel arr ctxs num stride t s) (d, 0) ts"

definition service_launch :: "array_d_t \<Rightarrow> u32 \<Rightarrow> u32 list \<Rightarrow> 't gids_dev \<Rightarrow> 't gids_dev" where
  "service_launch arr nq lqs g = foldl (\<lambda>g lq. service_registered_cq_window_kernel arr nq lq g) g lqs"

fun service_burst :: "array_d_t \<Rightarrow> u32 \<Rightarrow> u32 list list \<Rightarrow> 't gids_dev \<Rightarrow> 't gids_dev" where
  "service_burst arr nq [] g = g"
| "service_burst arr nq (lqs # rounds) g = service_burst arr nq rounds (service_launch arr nq lqs g)"

definition gather_launch :: "array_d_t \<Rightarrow> feature_args \<Rightarrow> int \<Rightarrow> u64 list \<Rightarrow> 't ctx_dev \<Rightarrow> (u64 \<Rightarrow> 't) \<Rightarrow> 't ctx_dev \<times> (u64 \<Rightarrow> 't)" where
  "gather_launch arr fa ctxs ws d out = foldl (\<lambda>(d, out). \<lambda>w. read_feature_kernel_get_feature_light_rowctx arr fa ctxs w d out) (d, out) ws"

lemma check_launch_reach:
  assumes cfg: "reg_cfg pc arr" and r: "reg_reach pc arr s" and inv: "reg_inv pc arr s P"
    and ts: "\<forall>t \<in> set ts. t < word_of_int num \<and> ctxs + uint t * stride \<in> dom (rg_rows s)"
  shows "\<exists>d k. foldl (\<lambda>s t. check_registered_request_ready_kernel arr ctxs num stride t s) (gd_dev (rg_dev s), n) ts = (d, n + of_nat k) \<and> k \<le> length ts \<and>
    reg_reach pc arr (s\<lparr>rg_dev := (rg_dev s)\<lparr>gd_dev := d\<rparr>\<rparr>) \<and>
    (\<forall>q. cx_isHit (rx_ctx (snd (gd_dev (rg_dev s)) q)) \<longrightarrow> cx_isHit (rx_ctx (snd d q))) \<and>
    (k = 0 \<longrightarrow> (\<forall>t \<in> set ts. cx_isHit (rx_ctx (snd d (ctxs + uint t * stride))))) \<and> (P = {} \<longrightarrow> k = 0)"
  using r inv ts
proof (induction ts arbitrary: s n)
  case Nil
  then show ?case by (intro exI [of _ "gd_dev (rg_dev s)"] exI [of _ 0]) simp
next
  case (Cons t ts)
  let ?p = "ctxs + uint t * stride"
  have t: "t < word_of_int num" "?p \<in> dom (rg_rows s)" using Cons.prems(3) by auto
  obtain d1 n1 where e: "check_registered_request_ready_kernel arr ctxs num stride t (gd_dev (rg_dev s), n) = (d1, n1)" by (rule prod.exhaust)
  note C = check_step [OF cfg Cons.prems(2) t(2) e]
  let ?s = "s\<lparr>rg_dev := (rg_dev s)\<lparr>gd_dev := d1\<rparr>\<rparr>"
  have r1: "reg_reach pc arr ?s" by (rule reg_reach.step [OF Cons.prems(1)]) (rule reg_step.check [OF refl t(2) e])
  have e1: "gd_dev (rg_dev ?s) = d1" "?s\<lparr>rg_dev := (rg_dev ?s)\<lparr>gd_dev := d\<rparr>\<rparr> = s\<lparr>rg_dev := (rg_dev s)\<lparr>gd_dev := d\<rparr>\<rparr>" for d by simp_all
  have "\<forall>t \<in> set ts. t < word_of_int num \<and> ctxs + uint t * stride \<in> dom (rg_rows ?s)" using Cons.prems(3) by simp
  from Cons.IH [OF r1 C(1) this, of n1, unfolded e1] obtain d k where
    IH: "foldl (\<lambda>s t. check_registered_request_ready_kernel arr ctxs num stride t s) (d1, n1) ts = (d, n1 + of_nat k)" "k \<le> length ts"
      "reg_reach pc arr (s\<lparr>rg_dev := (rg_dev s)\<lparr>gd_dev := d\<rparr>\<rparr>)" "\<forall>q. cx_isHit (rx_ctx (snd d1 q)) \<longrightarrow> cx_isHit (rx_ctx (snd d q))"
      "k = 0 \<longrightarrow> (\<forall>t \<in> set ts. cx_isHit (rx_ctx (snd d (ctxs + uint t * stride))))" "P = {} \<longrightarrow> k = 0" by blast
  define h where "h = cx_isHit (rx_ctx (snd d1 ?p))"
  have n1: "n1 = n + of_nat (of_bool (\<not> h))" using C(5) [OF t(1)] by (simp add: h_def)
  have hit: "cx_isHit (rx_ctx (snd d1 q))" if "cx_isHit (rx_ctx (snd (gd_dev (rg_dev s)) q))" for q
    using that C(4) [of q] C(7) by (cases "q = ?p") auto
  have f: "foldl (\<lambda>s t. check_registered_request_ready_kernel arr ctxs num stride t s) (gd_dev (rg_dev s), n) (t # ts) = (d, n + of_nat (of_bool (\<not> h) + k))"
    using IH(1) by (simp add: e n1)
  have "of_bool (\<not> h) + k = 0 \<longrightarrow> (\<forall>t \<in> set (t # ts). cx_isHit (rx_ctx (snd d (ctxs + uint t * stride))))" using IH(4,5) h_def by auto
  moreover have "P = {} \<longrightarrow> of_bool (\<not> h) + k = 0" using IH(6) C(6) [OF t(1)] h_def by simp
  moreover have "of_bool (\<not> h) + k \<le> length (t # ts)" using IH(2) by simp
  moreover have "\<forall>q. cx_isHit (rx_ctx (snd (gd_dev (rg_dev s)) q)) \<longrightarrow> cx_isHit (rx_ctx (snd d q))" using IH(4) hit by simp
  ultimately show ?case using f IH(3) by (intro exI [of _ d] exI [of _ "of_bool (\<not> h) + k"] conjI)
qed

lemma gather_launch_reach:
  assumes cfg: "reg_cfg pc arr" and r: "reg_reach pc arr s" and d: "distinct ws" "inj_on idx_idx (set ws)"
    and ws: "\<forall>w \<in> set ws. row_fits pc arr fa w \<and> rg_rows s (ctxs + idx_idx w) = Some (feature_index fa w 0) \<and> cx_isHit (rx_ctx (snd (gd_dev (rg_dev s)) (ctxs + idx_idx w)))"
  shows "\<exists>s' out'. gather_launch arr fa ctxs ws (gd_dev (rg_dev s)) out = (gd_dev (rg_dev s'), out') \<and> reg_reach pc arr s' \<and>
    (rg_dev s' = (rg_dev s)\<lparr>gd_dev := gd_dev (rg_dev s')\<rparr> \<and> snd (gd_dev (rg_dev s')) = snd (gd_dev (rg_dev s)) \<and> rg_pend s' \<subseteq> rg_pend s) \<and>
    (\<forall>p. rg_rows s' p = (if p \<in> (\<lambda>w. ctxs + idx_idx w) ` set ws then None else rg_rows s p)) \<and>
    (\<forall>w \<in> set ws. \<forall>t < fa_dim fa. elem_view pc arr (feature_index fa w t) = Some (out' (out_index fa w t))) \<and>
    (\<forall>y. (\<forall>w \<in> set ws. \<forall>t < fa_dim fa. y \<noteq> out_index fa w t) \<longrightarrow> out' y = out y)"
  using r d ws
proof (induction ws arbitrary: s out)
  case Nil
  then show ?case by (intro exI [of _ s]) (simp add: gather_launch_def)
next
  case (Cons w ws)
  obtain ac m where g: "gd_dev (rg_dev s) = (ac, m)" by force
  obtain P where inv: "reg_inv pc arr s P" using reach_inv [OF cfg Cons.prems(1)] by blast
  let ?p = "ctxs + idx_idx w"
  have w: "row_fits pc arr fa w" "rg_rows s ?p = Some (feature_index fa w 0)" "cx_isHit (rx_ctx (m ?p))" using Cons.prems(4) g by simp_all
  obtain ac1 out1 where G: "read_feature_kernel_get_feature_light_rowctx arr fa ctxs w (ac, m) out = ((ac1, m), out1)"
    "\<forall>t < fa_dim fa. elem_view pc arr (feature_index fa w t) = Some (out1 (out_index fa w t))"
    "\<forall>y. (\<forall>t < fa_dim fa. y \<noteq> out_index fa w t) \<longrightarrow> out1 y = out y"
    using gather_step [OF cfg inv g refl w(2,1,3), of out] by blast
  define s1 where "s1 = s\<lparr>rg_dev := (rg_dev s)\<lparr>gd_dev := (ac1, m)\<rparr>, rg_rows := (rg_rows s)(?p := None), rg_pend := rg_pend s - {?p}\<rparr>"
  have "row_fits (ac_pc ac) arr fa w" using w(1) cfg_row_fits [OF rows_invD(1) [OF reg_invD(1) [OF inv g]]] by simp
  from reg_step.gather [OF refl g refl w(2) this w(3) G(1)]
  have r1: "reg_reach pc arr s1" unfolding s1_def by (rule reg_reach.step [OF Cons.prems(1)])
  have ne: "idx_idx w' \<noteq> idx_idx w" if "w' \<in> set ws" for w' using Cons.prems(2,3) that by (auto simp: inj_on_def)
  have g1: "gd_dev (rg_dev s1) = (ac1, m)" by (simp add: s1_def)
  have "\<forall>w \<in> set ws. row_fits pc arr fa w \<and> rg_rows s1 (ctxs + idx_idx w) = Some (feature_index fa w 0) \<and> cx_isHit (rx_ctx (snd (gd_dev (rg_dev s1)) (ctxs + idx_idx w)))"
    using Cons.prems(4) ne g by (auto simp: s1_def)
  moreover have "distinct ws" "inj_on idx_idx (set ws)" using Cons.prems(2,3) by (simp_all add: inj_on_def)
  ultimately obtain s' out' where IH: "gather_launch arr fa ctxs ws (ac1, m) out1 = (gd_dev (rg_dev s'), out')" "reg_reach pc arr s'"
    "rg_dev s' = (rg_dev s1)\<lparr>gd_dev := gd_dev (rg_dev s')\<rparr> \<and> snd (gd_dev (rg_dev s')) = snd (gd_dev (rg_dev s1)) \<and> rg_pend s' \<subseteq> rg_pend s1"
    "\<forall>p. rg_rows s' p = (if p \<in> (\<lambda>w. ctxs + idx_idx w) ` set ws then None else rg_rows s1 p)"
    "\<forall>w \<in> set ws. \<forall>t < fa_dim fa. elem_view pc arr (feature_index fa w t) = Some (out' (out_index fa w t))"
    "\<forall>y. (\<forall>w \<in> set ws. \<forall>t < fa_dim fa. y \<noteq> out_index fa w t) \<longrightarrow> out' y = out1 y"
    using Cons.IH [OF r1, of out1] unfolding g1 by blast
  have fits: "warp_fits fa w'" if "w' \<in> set (w # ws)" for w' using Cons.prems(4) that by (auto simp: row_fits_def)
  have out: "out_index fa w t \<noteq> out_index fa w' t'" if "w' \<in> set ws" "t < fa_dim fa" "t' < fa_dim fa" for w' t t'
    using out_index_inj [OF fits [of w, unfolded warp_fits_def] fits [of w', unfolded warp_fits_def] that(2,3)] that(1) Cons.prems(2) by auto
  have "elem_view pc arr (feature_index fa w t) = Some (out' (out_index fa w t))" if t: "t < fa_dim fa" for t
  proof -
    have "out' (out_index fa w t) = out1 (out_index fa w t)" using IH(6) out t by blast
    then show ?thesis using G(2) t by simp
  qed
  moreover have "gather_launch arr fa ctxs (w # ws) (gd_dev (rg_dev s)) out = (gd_dev (rg_dev s'), out')"
    using IH(1) G(1) g by (simp add: gather_launch_def)
  moreover have "rg_dev s' = (rg_dev s)\<lparr>gd_dev := gd_dev (rg_dev s')\<rparr> \<and> snd (gd_dev (rg_dev s')) = snd (gd_dev (rg_dev s)) \<and> rg_pend s' \<subseteq> rg_pend s"
    using IH(3) g by (auto simp: s1_def)
  ultimately show ?case using IH(2,4-6) G(3)
    by (intro exI [of _ s'] exI [of _ out']) (auto simp: s1_def)
qed

lemma service_launch_reach:
  assumes cfg: "reg_cfg pc arr" and r: "reg_reach pc arr s" and inv: "reg_inv pc arr s P" and pend: "rg_pend s = {}" and d: "distinct lqs"
  shows "\<exists>P'. reg_reach pc arr (s\<lparr>rg_dev := service_launch arr (pc_n_qps pc 0) lqs (rg_dev s)\<rparr>) \<and>
    reg_inv pc arr (s\<lparr>rg_dev := service_launch arr (pc_n_qps pc 0) lqs (rg_dev s)\<rparr>) P' \<and> P' \<subseteq> P \<and>
    (\<forall>k. ac_sub (fst (gd_dev (service_launch arr (pc_n_qps pc 0) lqs (rg_dev s)))) k = ac_sub (fst (gd_dev (rg_dev s))) k) \<and>
    (\<forall>lq \<in> set lqs. lq < pc_n_qps pc 0 \<longrightarrow> ac_done (fst (gd_dev (service_launch arr (pc_n_qps pc 0) lqs (rg_dev s)))) (0, lq) = drop kMaxEventsPerQueue (ac_done (fst (gd_dev (rg_dev s))) (0, lq))) \<and>
    (\<forall>k. (\<forall>lq \<in> set lqs. k \<noteq> (0, lq)) \<longrightarrow> ac_done (fst (gd_dev (service_launch arr (pc_n_qps pc 0) lqs (rg_dev s)))) k = ac_done (fst (gd_dev (rg_dev s))) k)"
  using r inv pend d
proof (induction lqs arbitrary: s P)
  case Nil
  then show ?case by (intro exI [of _ P]) (simp add: service_launch_def)
next
  case (Cons lq lqs)
  let ?nq = "pc_n_qps pc 0"
  obtain ac m where g: "gd_dev (rg_dev s) = (ac, m)" by force
  have "cfg_eq (ac_pc ac) pc" using rows_invD(1) [OF reg_invD(1) [OF Cons.prems(2) g]] .
  then have nq: "?nq = pc_n_qps (ac_pc (fst (gd_dev (rg_dev s)))) 0" using g by (simp add: cfg_eq_def)
  define g1 where "g1 = service_registered_cq_window_kernel arr ?nq lq (rg_dev s)"
  let ?s = "s\<lparr>rg_dev := g1\<rparr>"
  have r1: "reg_reach pc arr ?s" unfolding g1_def by (rule reg_reach.step [OF Cons.prems(1)]) (rule reg_step.service [OF Cons.prems(3) nq])
  obtain P1 where S: "reg_inv pc arr ?s P1" "P1 \<subseteq> P" "\<forall>k. ac_sub (fst (gd_dev g1)) k = ac_sub (fst (gd_dev (rg_dev s))) k"
    "\<forall>k. ac_done (fst (gd_dev g1)) k = (if k = (0, lq) \<and> lq < ?nq then drop kMaxEventsPerQueue (ac_done (fst (gd_dev (rg_dev s))) (0, lq)) else ac_done (fst (gd_dev (rg_dev s))) k)"
    using service_step [OF cfg Cons.prems(2,3) nq, of lq] unfolding g1_def by blast
  have pd: "rg_pend ?s = {}" "distinct lqs" "lq \<notin> set lqs" using Cons.prems(3,4) by simp_all
  have e: "service_launch arr ?nq (lq # lqs) (rg_dev s) = service_launch arr ?nq lqs (rg_dev ?s)" by (simp add: service_launch_def g1_def)
  from Cons.IH [OF r1 S(1) pd(1,2)] obtain P2 where
    IH: "reg_reach pc arr (?s\<lparr>rg_dev := service_launch arr ?nq lqs (rg_dev ?s)\<rparr>)" "reg_inv pc arr (?s\<lparr>rg_dev := service_launch arr ?nq lqs (rg_dev ?s)\<rparr>) P2" "P2 \<subseteq> P1"
    "\<forall>k. ac_sub (fst (gd_dev (service_launch arr ?nq lqs (rg_dev ?s)))) k = ac_sub (fst (gd_dev (rg_dev ?s))) k"
    "\<forall>lq \<in> set lqs. lq < ?nq \<longrightarrow> ac_done (fst (gd_dev (service_launch arr ?nq lqs (rg_dev ?s)))) (0, lq) = drop kMaxEventsPerQueue (ac_done (fst (gd_dev (rg_dev ?s))) (0, lq))"
    "\<forall>k. (\<forall>lq \<in> set lqs. k \<noteq> (0, lq)) \<longrightarrow> ac_done (fst (gd_dev (service_launch arr ?nq lqs (rg_dev ?s)))) k = ac_done (fst (gd_dev (rg_dev ?s))) k" by blast
  show ?case unfolding e
  proof (intro exI [of _ P2] conjI allI ballI impI)
    fix q assume q: "q \<in> set (lq # lqs)" "q < ?nq"
    show "ac_done (fst (gd_dev (service_launch arr ?nq lqs (rg_dev ?s)))) (0, q) = drop kMaxEventsPerQueue (ac_done (fst (gd_dev (rg_dev s))) (0, q))"
    proof (cases "q = lq")
      case True
      then show ?thesis using IH(6) [rule_format, of "(0, lq)"] pd(3) S(4) q(2) by auto
    next
      case False
      then show ?thesis using IH(5) q S(4) by simp
    qed
  next
    fix k :: "u64 \<times> u32" assume k: "\<forall>lq \<in> set (lq # lqs). k \<noteq> (0, lq)"
    then show "ac_done (fst (gd_dev (service_launch arr ?nq lqs (rg_dev ?s)))) k = ac_done (fst (gd_dev (rg_dev s))) k"
      using IH(6) [rule_format, of k] S(4) [rule_format, of k] by auto
  qed (use IH S(2,3) in auto)
qed

lemma service_burst_reach:
  assumes cfg: "reg_cfg pc arr" and r: "reg_reach pc arr s" and inv: "reg_inv pc arr s P" and pend: "rg_pend s = {}"
    and d: "\<forall>lqs \<in> set rounds. distinct lqs \<and> (\<forall>q < pc_n_qps pc 0. q \<in> set lqs)"
  shows "\<exists>P'. reg_reach pc arr (s\<lparr>rg_dev := service_burst arr (pc_n_qps pc 0) rounds (rg_dev s)\<rparr>) \<and>
    reg_inv pc arr (s\<lparr>rg_dev := service_burst arr (pc_n_qps pc 0) rounds (rg_dev s)\<rparr>) P' \<and> P' \<subseteq> P \<and>
    (\<forall>k. ac_sub (fst (gd_dev (service_burst arr (pc_n_qps pc 0) rounds (rg_dev s)))) k = ac_sub (fst (gd_dev (rg_dev s))) k) \<and>
    (\<forall>q < pc_n_qps pc 0. ac_done (fst (gd_dev (service_burst arr (pc_n_qps pc 0) rounds (rg_dev s)))) (0, q) =
       drop (kMaxEventsPerQueue * length rounds) (ac_done (fst (gd_dev (rg_dev s))) (0, q)))"
  using r inv pend d
proof (induction rounds arbitrary: s P)
  case Nil
  then show ?case by (intro exI [of _ P]) simp
next
  case (Cons lqs rounds)
  let ?nq = "pc_n_qps pc 0"
  define g1 where "g1 = service_launch arr ?nq lqs (rg_dev s)"
  let ?s = "s\<lparr>rg_dev := g1\<rparr>"
  have d: "distinct lqs" using Cons.prems(4) by simp
  from service_launch_reach [OF cfg Cons.prems(1-3) d, folded g1_def]
  obtain P1 where L: "reg_reach pc arr ?s" "reg_inv pc arr ?s P1" "P1 \<subseteq> P" "\<forall>k. ac_sub (fst (gd_dev g1)) k = ac_sub (fst (gd_dev (rg_dev s))) k"
    "\<forall>lq \<in> set lqs. lq < ?nq \<longrightarrow> ac_done (fst (gd_dev g1)) (0, lq) = drop kMaxEventsPerQueue (ac_done (fst (gd_dev (rg_dev s))) (0, lq))" by blast
  have e: "rg_dev ?s = g1" "?s\<lparr>rg_dev := g\<rparr> = s\<lparr>rg_dev := g\<rparr>" for g by simp_all
  have pd: "rg_pend ?s = {}" "\<forall>lqs \<in> set rounds. distinct lqs \<and> (\<forall>q < ?nq. q \<in> set lqs)" using Cons.prems(3,4) by simp_all
  from Cons.IH [OF L(1,2) pd, unfolded e]
  obtain P2 where IH: "reg_reach pc arr (s\<lparr>rg_dev := service_burst arr ?nq rounds g1\<rparr>)" "reg_inv pc arr (s\<lparr>rg_dev := service_burst arr ?nq rounds g1\<rparr>) P2" "P2 \<subseteq> P1"
    "\<forall>k. ac_sub (fst (gd_dev (service_burst arr ?nq rounds g1))) k = ac_sub (fst (gd_dev g1)) k"
    "\<forall>q < ?nq. ac_done (fst (gd_dev (service_burst arr ?nq rounds g1))) (0, q) = drop (kMaxEventsPerQueue * length rounds) (ac_done (fst (gd_dev g1)) (0, q))" by blast
  have q: "ac_done (fst (gd_dev (service_burst arr ?nq rounds g1))) (0, q) = drop (kMaxEventsPerQueue * length (lqs # rounds)) (ac_done (fst (gd_dev (rg_dev s))) (0, q))"
    if "q < ?nq" for q
  proof -
    have "q \<in> set lqs" using Cons.prems(4) that by simp
    then show ?thesis using IH(5) L(5) that by (simp add: add.commute)
  qed
  have eb: "service_burst arr ?nq (lqs # rounds) (rg_dev s) = service_burst arr ?nq rounds g1" by (simp add: g1_def)
  show ?case unfolding eb using IH(1-4) L(3,4) q by (intro exI [of _ P2]) simp
qed

lemma all_finished:
  assumes cfg: "reg_cfg pc arr" and inv: "reg_inv pc arr s P" and sub: "\<And>k. ac_sub (fst (gd_dev (rg_dev s))) k = None"
    and dn: "\<And>q. q < pc_n_qps pc 0 \<Longrightarrow> ac_done (fst (gd_dev (rg_dev s))) (0, q) = []"
  shows "P = {}"
proof (rule ccontr)
  assume "P \<noteq> {}"
  then obtain p where p: "p \<in> P" by blast
  obtain ac m where g: "gd_dev (rg_dev s) = (ac, m)" by force
  note I = reg_invD [OF inv g]
  let ?x = "row_page pc arr (the (rg_rows s p))"
  have "flight ac (m p) (fst ?x, snd ?x)" using rows_invD(15) [OF I(1) p] by simp
  from flightD(12) [OF this] have "completed ac (fkey (m p))" using sub g by simp
  then have "cx_cid (rx_ctx (m p)) \<in> set (ac_done ac (0, rx_queue (m p)))" unfolding fkey_0 [OF I(3) [OF p]] by (simp add: completed_def)
  then show False using dn [OF I(4) [OF p]] g by simp
qed

text \<open>When the controller has completed every command and every row is registered,
  as many rounds of the service as 64 events a queue need leave no row pending in the check of any request.\<close>

lemma registered_requests_complete:
  assumes cfg: "reg_cfg pc arr" and r: "reg_reach pc arr s" and pend: "rg_pend s = {}" and sub: "\<forall>k. ac_sub (fst (gd_dev (rg_dev s))) k = None"
    and rounds: "\<forall>lqs \<in> set rounds. distinct lqs \<and> (\<forall>q < pc_n_qps pc 0. q \<in> set lqs)"
    and enough: "\<forall>q < pc_n_qps pc 0. length (ac_done (fst (gd_dev (rg_dev s))) (0, q)) \<le> kMaxEventsPerQueue * length rounds"
    and ts: "\<forall>t \<in> set ts. t < word_of_int num \<and> ctxs + uint t * stride \<in> dom (rg_rows s)"
  shows "snd (check_launch arr ctxs num stride ts (gd_dev (service_burst arr (pc_n_qps pc 0) rounds (rg_dev s)))) = 0"
proof -
  obtain P where inv: "reg_inv pc arr s P" using reach_inv [OF cfg r] by blast
  define g where "g = service_burst arr (pc_n_qps pc 0) rounds (rg_dev s)"
  let ?s = "s\<lparr>rg_dev := g\<rparr>"
  from service_burst_reach [OF cfg r inv pend rounds, folded g_def]
  obtain P' where B: "reg_reach pc arr ?s" "reg_inv pc arr ?s P'" "\<forall>k. ac_sub (fst (gd_dev g)) k = ac_sub (fst (gd_dev (rg_dev s))) k"
    "\<forall>q < pc_n_qps pc 0. ac_done (fst (gd_dev g)) (0, q) = drop (kMaxEventsPerQueue * length rounds) (ac_done (fst (gd_dev (rg_dev s))) (0, q))" by blast
  have "P' = {}" proof (rule all_finished [OF cfg B(2)])
    show "ac_sub (fst (gd_dev (rg_dev ?s))) k = None" for k using B(3) [rule_format, of k] sub [rule_format, of k] by simp
    show "ac_done (fst (gd_dev (rg_dev ?s))) (0, q) = []" if "q < pc_n_qps pc 0" for q using B(4) enough that by simp
  qed
  moreover have "\<forall>t \<in> set ts. t < word_of_int num \<and> ctxs + uint t * stride \<in> dom (rg_rows ?s)" using ts by simp
  ultimately show ?thesis using check_launch_reach [OF cfg B(1,2), of ts num ctxs stride 0] by (auto simp: check_launch_def g_def)
qed

section \<open>More controllers than one\<close>

text \<open>
  With more controllers: no context is in the table under the queues behind those of the first controller, and that
  one has no completion.
\<close>

definition first_only :: "'t gids_dev \<Rightarrow> bool" where
  "first_only g \<longleftrightarrow> (\<forall>q. ac_done (fst (gd_dev g)) (0, q) = []) \<and>
     (\<forall>lq cid. pc_n_qps (ac_pc (fst (gd_dev g))) 0 \<le> lq \<longrightarrow> gd_ctx_lookup g (lookup_slot lq cid) = None)"

definition untouched :: "'t gids_dev \<Rightarrow> 't gids_dev \<Rightarrow> bool" where
  "untouched g g' \<longleftrightarrow> snd (gd_dev g') = snd (gd_dev g) \<and> pc_ranges (ac_pc (fst (gd_dev g'))) = pc_ranges (ac_pc (fst (gd_dev g))) \<and>
     pc_n_qps (ac_pc (fst (gd_dev g'))) = pc_n_qps (ac_pc (fst (gd_dev g)))"

lemma untouched_refl: "untouched g g"
  by (simp add: untouched_def)

lemma untouched_trans: "untouched g g' \<Longrightarrow> untouched g' g'' \<Longrightarrow> untouched g g''"
  by (simp add: untouched_def)

lemma service_queue_first_only:
  assumes "first_only g" and "pc_n_qps (ac_pc (fst (gd_dev g))) 0 \<le> lq"
  shows "first_only (service_queue n arr lq c q g) \<and> untouched g (service_queue n arr lq c q g)"
  using assms
proof (induction n arbitrary: g)
  case 0
  then show ?case by (simp add: untouched_refl)
next
  case (Suc n)
  obtain ac m where g: "gd_dev g = (ac, m)" by force
  show ?case
  proof (cases "ac_done ac (c, q)")
    case Nil
    then show ?thesis using Suc.prems(1) g by (simp add: take_head_def untouched_refl)
  next
    case (Cons cid cids)
    define pc1 where "pc1 = set_cids c q (put_cid (unat cid) (pc_cids (ac_pc ac) c q)) (ac_pc ac)"
    define ac1 where "ac1 = ac\<lparr>ac_pc := pc1, ac_done := (ac_done ac)((c, q) := cids)\<rparr>"
    have T: "take_head ac c q = Some (ac1, cid)" by (simp add: take_head_def Cons ac1_def pc1_def)
    have none: "gd_ctx_lookup g (lookup_slot lq cid) = None" using Suc.prems by (simp add: first_only_def)
    define g1 where "g1 = service_event arr lq cid (g\<lparr>gd_dev := (ac1, m)\<rparr>)"
    have g1: "gd_dev g1 = (ac1, m)" "gd_ctx_lookup g1 = gd_ctx_lookup g" using none by (simp_all add: g1_def service_event_def Let_def)
    have nq: "pc_n_qps pc1 = pc_n_qps (ac_pc ac)" "pc_ranges pc1 = pc_ranges (ac_pc ac)" by (simp_all add: pc1_def set_cids_def)
    have "c \<noteq> 0" using Suc.prems(1) Cons g by (auto simp: first_only_def)
    then have "first_only g1" using Suc.prems(1) nq by (simp add: first_only_def g g1 ac1_def)
    moreover have "pc_n_qps (ac_pc (fst (gd_dev g1))) 0 \<le> lq" using Suc.prems(2) nq by (simp add: g g1 ac1_def)
    ultimately have "first_only (service_queue n arr lq c q g1) \<and> untouched g1 (service_queue n arr lq c q g1)" by (rule Suc.IH)
    moreover have "untouched g g1" using nq by (simp add: untouched_def g g1 ac1_def)
    moreover have "service_queue (Suc n) arr lq c q g = service_queue n arr lq c q g1" using T g by (simp add: g1_def)
    ultimately show ?thesis using untouched_trans by metis
  qed
qed

lemma service_kernel_first_only:
  assumes f: "first_only g"
  shows "first_only (service_registered_cq_window_kernel arr nq lq g) \<and> untouched g (service_registered_cq_window_kernel arr nq lq g)"
proof -
  let ?pc = "ac_pc (fst (gd_dev g))"
  consider "lq \<ge> nq \<or> find_queue ?pc [0..<unat (pc_n_ctrls ?pc)] lq = None"
    | c q where "\<not> lq \<ge> nq" "find_queue ?pc [0..<unat (pc_n_ctrls ?pc)] lq = Some (c, q)" by fastforce
  then show ?thesis
  proof cases
    case 1
    then show ?thesis using f by (auto simp: service_registered_cq_window_kernel_def untouched_refl)
  next
    case 2
    have e: "service_registered_cq_window_kernel arr nq lq g = service_queue kMaxEventsPerQueue arr lq c q g"
      using 2 by (simp add: service_registered_cq_window_kernel_def)
    have "find_queue ?pc [] lq = None" by simp
    then have ne: "[0..<unat (pc_n_ctrls ?pc)] \<noteq> []" using 2(2) by (metis option.distinct(1))
    have "[0..<n] \<noteq> [] \<Longrightarrow> [0..<n] = 0 # [1..<n]" for n by (cases n) (simp_all add: upt_rec)
    then have u: "[0..<unat (pc_n_ctrls ?pc)] = 0 # [1..<unat (pc_n_ctrls ?pc)]" using ne .
    show ?thesis
    proof (cases "lq < pc_n_qps ?pc 0")
      case True
      then have "c = 0" using 2(2) unfolding u by simp
      then have "take_head (fst (gd_dev g)) c q = None" using f by (simp add: first_only_def take_head_def)
      then have "service_queue n arr lq c q g = g" for n by (cases n) simp_all
      then show ?thesis using f e by (simp add: untouched_refl)
    next
      case False
      then show ?thesis unfolding e using service_queue_first_only [OF f, of lq] by simp
    qed
  qed
qed

lemma service_launch_first_only:
  "first_only g \<Longrightarrow> first_only (service_launch arr nq lqs g) \<and> untouched g (service_launch arr nq lqs g)"
proof (induction lqs arbitrary: g)
  case (Cons lq lqs)
  have k: "first_only (service_registered_cq_window_kernel arr nq lq g)" "untouched g (service_registered_cq_window_kernel arr nq lq g)"
    using service_kernel_first_only [OF Cons.prems] by simp_all
  show ?case using Cons.IH [OF k(1)] untouched_trans [OF k(2)] by (simp add: service_launch_def)
qed (simp add: service_launch_def untouched_refl)

lemma service_burst_first_only:
  "first_only g \<Longrightarrow> first_only (service_burst arr nq rounds g) \<and> untouched g (service_burst arr nq rounds g)"
proof (induction rounds arbitrary: g)
  case (Cons lqs rounds)
  have k: "first_only (service_launch arr nq lqs g)" "untouched g (service_launch arr nq lqs g)"
    using service_launch_first_only [OF Cons.prems] by simp_all
  show ?case using Cons.IH [OF k(1)] untouched_trans [OF k(2)] by simp
qed (simp add: untouched_refl)

section \<open>Examples\<close>

text \<open>The example of the gathering kernel, from its start.\<close>

definition gather_ac :: "(nat \<Rightarrow> nat) async_cache" where
  "gather_ac = \<lparr>ac_pc = gather_pc, ac_sub = \<lambda>_. None, ac_done = \<lambda>_. []\<rparr>"

definition gather_start :: "nat reg_state" where
  "gather_start = \<lparr>rg_dev = \<lparr>gd_dev = (gather_ac, \<lambda>_. ctx_cleared), gd_ctx_lookup = \<lambda>_. None, gd_event_count = 0, gd_progress_count = 0, gd_lookup_miss_count = 0\<rparr>,
     rg_rows = Map.empty, rg_pend = {}\<rparr>"

lemma gather_cfg: "reg_cfg gather_pc warp_arr" "row_fits gather_pc warp_arr gather_fa 0" "row_page gather_pc warp_arr 64 = (0, 1)"
    "feature_index gather_fa 0 0 = 64" "idx_idx 0 = 0"
proof -
  have st: "dstate gather_pc r pg = 0" "dp_ref_count (pc_ranges gather_pc r pg) = 0" for r pg
    by (simp_all add: dstate_def gather_pc_def warp_pc_def witness_page_def INVALID_def)
  show "reg_cfg gather_pc warp_arr" unfolding reg_cfg_def
    using gather_example(1,2) by (simp add: st) (simp add: gather_pc_def warp_pc_def)
  have pg: "row_page gather_pc warp_arr (64 + x) = (0, 1)" if "x = 0 \<or> x = 1" for x
    using that by (auto simp: row_page_def array_lane_def Let_def find_range_def get_page_def warp_arr_def gather_pc_def warp_pc_def)
  show "row_page gather_pc warp_arr 64 = (0, 1)" using pg [of 0] by simp
  show fi: "feature_index gather_fa 0 0 = 64" using gather_example(8) [of 0] by simp
  show "idx_idx 0 = 0" by (simp add: idx_idx_def)
  have two: "t < 2 \<Longrightarrow> t = 0 \<or> t = 1" for t :: nat by auto
  have f: "find_range warp_arr 64 = Some 0" "find_range warp_arr 65 = Some 0" by (simp_all add: find_range_def warp_arr_def)
  have d: "fa_dim gather_fa = 2" "warp_fits gather_fa 0" by (simp_all add: gather_fa_def warp_fits_def)
  have "find_range warp_arr (feature_index gather_fa 0 t) \<noteq> None \<and> row_page gather_pc warp_arr (feature_index gather_fa 0 t) = (0, 1)" if "t < 2" for t
    using two [OF that] gather_example(8) [OF that] f pg [of 0] pg [of 1] by auto
  moreover have "row_page gather_pc warp_arr (feature_index gather_fa 0 0) = (0, 1)" using fi pg [of 0] by simp
  ultimately show "row_fits gather_pc warp_arr gather_fa 0" unfolding row_fits_def using gather_example(7) fi f d by simp
qed

text \<open>The row of the example submitted.\<close>

lemma gather_submitted:
  "\<exists>ac1 ctx cid. read_feature_kernel_submit_async_rowctx warp_arr gather_fa 0 0 0 (gather_ac, \<lambda>_. ctx_cleared) = Some (ac1, (\<lambda>_. ctx_cleared)(0 := ctx)) \<and>
     cids_free (pc_cids (ac_pc ac1)) \<and> (\<forall>k. ac_sub ac1 k = None \<longleftrightarrow> k \<noteq> (0, 0, cid)) \<and> ac_done ac1 = (\<lambda>_. [])"
proof -
  let ?m = "\<lambda>_ :: int. ctx_cleared"
  have st: "dstate gather_pc r pg = 0" "dp_ref_count (pc_ranges gather_pc r pg) = 0" "extra_count (pc_ranges gather_pc r pg) = 0" for r pg
    by (simp_all add: dstate_def gather_pc_def warp_pc_def witness_page_def INVALID_def extra_count_def prefetch_enter_def)
  have "slots_kept {} gather_pc"
    using gather_example(1) by (simp add: slots_kept_def array_inv_def cache_inv_def refs_ok_def st)
  moreover have "available gather_pc 0" by (simp add: available_def is_slot_def gather_pc_def warp_pc_def)
  ultimately obtain ac1 c1 pc3 s1 where A: "acquire_page_submit_async gather_ac 0 1 1 False 0 (rx_ctx ctx_cleared) = Some (ac1, c1, ucast s1)"
      "in_flight {} gather_ac ac1 c1 0 1 1 0 pc3 s1"
    using submit_in_flight [of "{}" gather_ac 0 1 0 1 False 0 "rx_ctx ctx_cleared"] gather_example(9) by (auto simp: gather_ac_def st)
  have c: "cx_member_acquire_ctrl c1 = 0"
    using A(2) one_ctrl [of gather_pc] by (auto simp: in_flight_def Let_def gather_ac_def gather_pc_def warp_pc_def)
  have sub: "ac_sub ac1 k = None \<longleftrightarrow> k \<noteq> (0, 0, cx_cid c1)" "ac_done ac1 = (\<lambda>_. [])" for k
    using A(2) c by (simp_all add: in_flight_def Let_def gather_ac_def)
  have k: "find_range warp_arr 64 = Some 0" by (simp add: find_range_def warp_arr_def)
  have ln: "ln_rng (array_lane gather_pc warp_arr 64) = 0" "ln_page (array_lane gather_pc warp_arr 64) = 1" using gather_cfg(3) by (simp_all add: row_page_def)
  define ctx where "ctx = row_submitted ctx_cleared c1 0 1 (ucast s1) 0"
  have sm: "0 mod pc_n_qps (ac_pc gather_ac) 0 = 0" by (simp add: gather_ac_def gather_pc_def warp_pc_def)
  have ret: "read_feature_kernel_submit_async_rowctx warp_arr gather_fa 0 0 0 (gather_ac, ?m) = Some (ac1, ?m(0 := ctx))"
  proof -
    have pc: "ac_pc gather_ac = gather_pc" by (simp add: gather_ac_def)
    show ?thesis
      using submit_row_eq [OF gather_example(7), of warp_arr 0 0 0 gather_ac ?m, unfolded gather_cfg(4,5) pc, OF k] A(1) ln sm pc
      by (simp add: ctx_def)
  qed
  have free: "cids_free (pc_cids (ac_pc ac1))" unfolding cids_free_def
  proof (intro allI conjI)
    fix c' q'
    have u: "cp_cid (pc_cids (ac_pc gather_ac) c' q') = (\<lambda>_. UNLOCKED)" for c' q' by (simp add: gather_ac_def gather_pc_def warp_pc_def)
    obtain C where D: "pc_cids (ac_pc ac1) = C" "cp_cid (C 0 0) = (\<lambda>_. UNLOCKED)(unat (cx_cid c1) := LOCKED)"
        "\<forall>c' q'. (c', q') \<noteq> (0, 0) \<longrightarrow> cp_cid (C c' q') = (\<lambda>_. UNLOCKED)"
      using A(2) unfolding in_flight_def Let_def c u by force
    have C: "cp_cid (pc_cids (ac_pc ac1) c' q') i = (if (c', q') = (0, 0) \<and> i = unat (cx_cid c1) then LOCKED else UNLOCKED)" for i
      using D(2) D(3) [rule_format, of c' q'] unfolding D(1) by (cases "(c', q') = (0, 0)") auto
    show "pool_ok (pc_cids (ac_pc ac1) c' q')" by (simp add: pool_ok_def C)
    have "\<exists>i < 65536. i \<noteq> unat (cx_cid c1)" by (rule exI [of _ "if unat (cx_cid c1) = 0 then 1 else 0"]) simp
    then show "\<exists>i < 65536. cp_cid (pc_cids (ac_pc ac1) c' q') i = UNLOCKED" by (auto simp: C)
  qed
  show ?thesis using ret free sub by (intro exI [of _ ac1] exI [of _ ctx] exI [of _ "cx_cid c1"]) simp
qed

text \<open>The row registered and read by the controller.\<close>

lemma gather_registered:
  "\<exists>s cid. reg_reach gather_pc warp_arr s \<and> rg_pend s = {} \<and> rg_rows s = [0 \<mapsto> 64] \<and> (\<forall>k. ac_sub (fst (gd_dev (rg_dev s))) k = None) \<and>
     ac_done (fst (gd_dev (rg_dev s))) (0, 0) = [cid]"
proof -
  let ?m = "\<lambda>_ :: int. ctx_cleared"
  have start: "reg_reach gather_pc warp_arr gather_start" by (rule reg_reach.start) (simp add: reg_start_def gather_start_def gather_ac_def)
  obtain ac1 ctx cid where ret: "read_feature_kernel_submit_async_rowctx warp_arr gather_fa 0 0 0 (gather_ac, ?m) = Some (ac1, ?m(0 := ctx))"
      and free: "cids_free (pc_cids (ac_pc ac1))" and sub: "\<And>k. ac_sub ac1 k = None \<longleftrightarrow> k \<noteq> (0, 0, cid)" "ac_done ac1 = (\<lambda>_. [])"
    using gather_submitted by blast
  have ret: "read_feature_kernel_submit_async_rowctx warp_arr gather_fa 0 0 0 (gather_ac, ?m(0 := ctx_cleared)) = Some (ac1, ?m(0 := ctx))"
    using ret by (simp add: fun_upd_idem)
  define s2 where "s2 = gather_start\<lparr>rg_dev := (rg_dev gather_start)\<lparr>gd_dev := (ac1, ?m(0 := ctx))\<rparr>, rg_rows := [0 \<mapsto> 64], rg_pend := {0}\<rparr>"
  have "reg_step warp_arr gather_start s2"
  proof -
    have g: "gd_dev (rg_dev gather_start) = (gather_ac, ?m)" "rg_rows gather_start = Map.empty" "rg_pend gather_start = {}" by (simp_all add: gather_start_def)
    have "row_fits (ac_pc gather_ac) warp_arr gather_fa 0" using gather_cfg(2) by (simp add: gather_ac_def)
    from reg_step.submit [OF refl g(1), of 0 0 0, OF _ _ this _ ret] free show ?thesis
      unfolding s2_def by (simp add: g gather_cfg(4,5))
  qed
  then have r2: "reg_reach gather_pc warp_arr s2" using start by (rule reg_reach.step [rotated])
  define s3 where "s3 = s2\<lparr>rg_dev := register_registered_ctx_lookup_kernel 0 1 0 (rg_dev s2), rg_pend := rg_pend s2 - {0}\<rparr>"
  have "reg_step warp_arr s2 s3" unfolding s3_def by (rule reg_step.register) (simp_all add: s2_def)
  then have r3: "reg_reach gather_pc warp_arr s3" by (rule reg_reach.step [OF r2])
  have g3: "gd_dev (rg_dev s3) = (ac1, ?m(0 := ctx))"
    by (simp add: s3_def s2_def register_registered_ctx_lookup_kernel_def Let_def split_beta)
  define s4 where "s4 = s3\<lparr>rg_dev := (rg_dev s3)\<lparr>gd_dev := (device_complete 0 0 (cid) ac1, ?m(0 := ctx))\<rparr>\<rparr>"
  have r4: "reg_reach gather_pc warp_arr s4" unfolding s4_def by (rule reg_reach.step [OF r3]) (rule reg_step.device [OF refl g3])
  obtain cmd where cmd: "ac_sub ac1 (0, 0, cid) = Some cmd" using sub(1) by blast
  show ?thesis
  proof (intro exI conjI)
    show "reg_reach gather_pc warp_arr s4" by (rule r4)
    show "\<forall>k. ac_sub (fst (gd_dev (rg_dev s4))) k = None" using sub(1) cmd by (auto simp: s4_def device_complete_def)
    show "ac_done (fst (gd_dev (rg_dev s4))) (0, 0) = [cid]" using sub(2) cmd by (simp add: s4_def device_complete_def)
  qed (simp_all add: s4_def s3_def s2_def)
qed

text \<open>After one round of the service the row is ready.\<close>

lemma gather_served:
  "\<exists>s. reg_reach gather_pc warp_arr s \<and> rg_rows s = [0 \<mapsto> 64] \<and> snd (check_launch warp_arr 0 1 1 [0] (gd_dev (rg_dev s))) = 0"
proof -
  obtain s cid where s: "reg_reach gather_pc warp_arr s" "rg_pend s = {}" "rg_rows s = [0 \<mapsto> 64]" "\<forall>k. ac_sub (fst (gd_dev (rg_dev s))) k = None"
     "ac_done (fst (gd_dev (rg_dev s))) (0, 0) = [cid]" using gather_registered by blast
  have n: "pc_n_qps gather_pc 0 = 1" by (simp add: gather_pc_def warp_pc_def)
  have q: "x < 1 \<longleftrightarrow> x = 0" for x :: u32 by (simp add: word_less_nat_alt unat_eq_0)
  obtain P where P: "reg_inv gather_pc warp_arr s P" using reach_inv [OF gather_cfg(1) s(1)] by blast
  let ?g = "service_burst warp_arr 1 [[0]] (rg_dev s)" and ?s = "s\<lparr>rg_dev := service_burst warp_arr 1 [[0]] (rg_dev s)\<rparr>"
  have "\<forall>lqs \<in> set [[0 :: u32]]. distinct lqs \<and> (\<forall>q < pc_n_qps gather_pc 0. q \<in> set lqs)" by (simp add: n q)
  from service_burst_reach [OF gather_cfg(1) s(1) P s(2) this, unfolded n]
  obtain P' where B: "reg_reach gather_pc warp_arr ?s" "reg_inv gather_pc warp_arr ?s P'" "\<forall>k. ac_sub (fst (gd_dev ?g)) k = ac_sub (fst (gd_dev (rg_dev s))) k"
    "\<forall>q < 1. ac_done (fst (gd_dev ?g)) (0, q) = drop (kMaxEventsPerQueue * length [[0 :: u32]]) (ac_done (fst (gd_dev (rg_dev s))) (0, q))" by blast
  have e: "rg_dev ?s = ?g" "rg_rows ?s = rg_rows s" by simp_all
  have "P' = {}"
  proof (rule all_finished [OF gather_cfg(1) B(2)]; unfold e)
    show "ac_sub (fst (gd_dev ?g)) k = None" for k using B(3) s(4) by metis
    show "ac_done (fst (gd_dev ?g)) (0, q) = []" if "q < pc_n_qps gather_pc 0" for q
      using B(4) s(5) that by (simp add: n q kMaxEventsPerQueue_def del: service_burst.simps)
  qed
  moreover have "\<forall>t \<in> set [0]. t < (word_of_int 1 :: u32) \<and> (0 :: int) + uint t * 1 \<in> dom (rg_rows ?s)" unfolding e by (simp add: s(3))
  ultimately have "snd (check_launch warp_arr 0 1 1 [0] (gd_dev (rg_dev ?s))) = 0"
    using check_launch_reach [OF gather_cfg(1) B(1,2), of "[0]" 1 0 1 0] by (fastforce simp: check_launch_def)
  then show ?thesis using B(1) e(2) s(3) by (intro exI [of _ ?s]) simp
qed

text \<open>The cache of the example with a second controller; page 1 is on that one.\<close>

definition striped_pc :: "(nat \<Rightarrow> nat) page_cache" where
  "striped_pc = gather_pc\<lparr>pc_n_ctrls := 2\<rparr>"

definition striped_ac :: "(nat \<Rightarrow> nat) async_cache" where
  "striped_ac = \<lparr>ac_pc = striped_pc, ac_sub = \<lambda>_. None, ac_done = \<lambda>_. []\<rparr>"

lemma striped_example:
  "cache_inv striped_pc" "refs_ok striped_pc" "ad_ok striped_pc warp_arr" "row_page striped_pc warp_arr (feature_index gather_fa 0 0) = (0, 1)"
  "dstate striped_pc r pg' = 0" "extra_count (pc_ranges striped_pc r pg') = 0" "available striped_pc 0" "ctrls_of striped_pc 0 1 = {1}"
  "find_range warp_arr (feature_index gather_fa 0 0) = Some 0" "in_dom striped_pc 0 1"
proof -
  have one: "x < 1 \<longleftrightarrow> x = 0" for x :: u64 by (simp add: word_less_nat_alt unat_eq_0)
  have two: "x < 2 \<longleftrightarrow> x = 0 \<or> x = 1" for x :: u64 by (auto simp: word_less_nat_alt word_unat_eq_iff)
  have md: "0 mod 2 = (0 :: u64)" "1 mod 2 = (1 :: u64)" "0 div 2 = (0 :: u64)" "1 div 2 = (0 :: u64)" by simp_all
  have "cfg_slots striped_pc" by (simp add: cfg_slots_def striped_pc_def gather_pc_def warp_pc_def wf_cmd_def blocks_ok_def)
  moreover have "cfg_addr striped_pc" by (simp add: cfg_addr_def striped_pc_def gather_pc_def warp_pc_def)
  moreover have "cfg_disk striped_pc" by (auto simp: cfg_disk_def striped_pc_def gather_pc_def warp_pc_def area_len_def nblk_def one two)
  ultimately have "cfg_ok striped_pc" by (simp add: cfg_ok_def)
  then show "cache_inv striped_pc"
    by (rule empty_cache_inv) (auto simp: striped_pc_def gather_pc_def warp_pc_def dstate_def witness_page_def)
  show st: "dstate striped_pc r pg' = 0" for r pg'
    by (simp add: dstate_def striped_pc_def gather_pc_def warp_pc_def witness_page_def INVALID_def)
  show "extra_count (pc_ranges striped_pc r pg') = 0"
    by (simp add: striped_pc_def gather_pc_def warp_pc_def witness_page_def extra_count_def prefetch_enter_def)
  show "refs_ok striped_pc" by (simp add: refs_ok_def st)
  show "ad_ok striped_pc warp_arr" by (simp add: ad_ok_def striped_pc_def gather_pc_def warp_pc_def warp_arr_def elems_per_block_def nblk_def)
  have fi: "feature_index gather_fa 0 0 = 64" using gather_example(8) [of 0] by simp
  show "row_page striped_pc warp_arr (feature_index gather_fa 0 0) = (0, 1)" unfolding fi
    by (simp add: row_page_def array_lane_def Let_def find_range_def get_page_def warp_arr_def striped_pc_def gather_pc_def warp_pc_def)
  show "available striped_pc 0" by (simp add: available_def is_slot_def striped_pc_def gather_pc_def warp_pc_def)
  show "ctrls_of striped_pc 0 1 = {1}" by (simp add: ctrls_of_def striped_pc_def gather_pc_def warp_pc_def)
  show "find_range warp_arr (feature_index gather_fa 0 0) = Some 0" unfolding fi by (simp add: find_range_def warp_arr_def)
  show "in_dom striped_pc 0 1" by (simp add: in_dom_def striped_pc_def gather_pc_def warp_pc_def)
qed

section \<open>Properties\<close>

text \<open>C8: Registered requests, with one controller, an array over one range and no window-buffer or prefetch counter pending
  (\<open>reg_cfg\<close>), in a single stream, where the service runs when every submitted row has been registered: whatever rows have
  been submitted and registered, whatever the service, the checks, the blocking polls of rows with a transfer of their own
  and the gathers of other requests have done and in whatever order the controller has completed commands, once the check
  of a request counts no pending row the gathering kernel puts the row of every warp into the output, changes no other
  cell, gives the pages back, and leaves a state that the machine reaches.\<close>

theorem registered_rows_correct:
  assumes cfg: "reg_cfg pc arr" and r: "reg_reach pc arr s"
    and ws: "\<forall>w \<in> set ws. row_fits pc arr fa w \<and> rg_rows s (ctxs + idx_idx w) = Some (feature_index fa w 0)" and d: "distinct ws" "inj_on idx_idx (set ws)"
    and ts: "\<forall>t \<in> set ts. t < word_of_int (fa_num_idx fa) \<and> ctxs + uint t * 1 \<in> dom (rg_rows s)" "length ts < 2 ^ 32" "\<forall>w \<in> set ws. idx_idx w \<in> uint ` set ts"
    and ready: "check_launch arr ctxs (fa_num_idx fa) 1 ts (gd_dev (rg_dev s)) = (dev, 0)"
  shows "\<exists>s' out'. gather_launch arr fa ctxs ws dev out = (gd_dev (rg_dev s'), out') \<and> reg_reach pc arr s' \<and>
    (\<forall>p. rg_rows s' p = (if p \<in> (\<lambda>w. ctxs + idx_idx w) ` set ws then None else rg_rows s p)) \<and>
    (\<forall>w \<in> set ws. \<forall>t < fa_dim fa. elem_view pc arr (feature_index fa w t) = Some (out' (out_index fa w t))) \<and>
    (\<forall>y. (\<forall>w \<in> set ws. \<forall>t < fa_dim fa. y \<noteq> out_index fa w t) \<longrightarrow> out' y = out y)"
proof -
  obtain P where inv: "reg_inv pc arr s P" using reach_inv [OF cfg r] by blast
  from check_launch_reach [OF cfg r inv ts(1), of 0]
  obtain k where k: "of_nat k = (0 :: u32)" "k \<le> length ts" "reg_reach pc arr (s\<lparr>rg_dev := (rg_dev s)\<lparr>gd_dev := dev\<rparr>\<rparr>)"
    "k = 0 \<longrightarrow> (\<forall>t \<in> set ts. cx_isHit (rx_ctx (snd dev (ctxs + uint t * 1))))"
    using ready unfolding check_launch_def by auto
  have "k < 2 ^ 32" using k(2) ts(2) by simp
  then have "unat (of_nat k :: u32) = k" by (simp add: unat_of_nat)
  then have k0: "k = 0" using k(1) by simp
  have h: "cx_isHit (rx_ctx (snd dev (ctxs + idx_idx w)))" if w: "w \<in> set ws" for w
  proof -
    obtain t where "t \<in> set ts" "idx_idx w = uint t" using ts(3) w by blast
    then show ?thesis using k(4) k0 by auto
  qed
  define s1 where "s1 = s\<lparr>rg_dev := (rg_dev s)\<lparr>gd_dev := dev\<rparr>\<rparr>"
  have e: "gd_dev (rg_dev s1) = dev" "rg_rows s1 = rg_rows s" by (simp_all add: s1_def)
  have r1: "reg_reach pc arr s1" using k(3) by (simp add: s1_def)
  have "\<forall>w \<in> set ws. row_fits pc arr fa w \<and> rg_rows s1 (ctxs + idx_idx w) = Some (feature_index fa w 0) \<and> cx_isHit (rx_ctx (snd (gd_dev (rg_dev s1)) (ctxs + idx_idx w)))"
    unfolding e using ws h by simp
  from gather_launch_reach [OF cfg r1 d this, of out] show ?thesis unfolding e by blast
qed

theorem registered_rows_correct_witness:
  "\<exists>s dev dev' out'. reg_reach gather_pc warp_arr s \<and> check_launch warp_arr 0 1 1 [0] (gd_dev (rg_dev s)) = (dev, 0) \<and>
    gather_launch warp_arr gather_fa 0 [0] dev (\<lambda>_. 0) = (dev', out') \<and> out' 0 = 1000 \<and> out' 1 = 1001"
proof -
  obtain s where s: "reg_reach gather_pc warp_arr s" "rg_rows s = [0 \<mapsto> 64]" "snd (check_launch warp_arr 0 1 1 [0] (gd_dev (rg_dev s))) = 0"
    using gather_served by blast
  obtain dev where c: "check_launch warp_arr 0 1 1 [0] (gd_dev (rg_dev s)) = (dev, 0)" using s(3) by (metis prod.collapse)
  have n: "fa_num_idx gather_fa = 1" "fa_dim gather_fa = 2" by (simp_all add: gather_fa_def)
  have "\<forall>w \<in> set [0]. row_fits gather_pc warp_arr gather_fa w \<and> rg_rows s (0 + idx_idx w) = Some (feature_index gather_fa w 0)"
    "distinct [0 :: u64]" "inj_on idx_idx (set [0])" "length [0 :: u32] < 2 ^ 32" "\<forall>w \<in> set [0]. idx_idx w \<in> uint ` set [0 :: u32]"
    "\<forall>t \<in> set [0]. t < (word_of_int (fa_num_idx gather_fa) :: u32) \<and> 0 + uint t * 1 \<in> dom (rg_rows s)"
    using gather_cfg s(2) by (simp_all add: n)
  from registered_rows_correct [OF gather_cfg(1) s(1) this(1-3,6,4,5), unfolded n(1), OF c, of "\<lambda>_. 0"]
  obtain s' :: "nat reg_state" and out' where g: "gather_launch warp_arr gather_fa 0 [0] dev (\<lambda>_. 0) = (gd_dev (rg_dev s'), out')"
    "\<forall>t < fa_dim gather_fa. elem_view gather_pc warp_arr (feature_index gather_fa 0 t) = Some (out' (out_index gather_fa 0 t))"
    unfolding list.set by blast
  have "out' 0 = 1000" "out' 1 = 1001"
    using g(2) [rule_format, of 0] g(2) [rule_format, of 1] gather_example(5,6,8) by (simp_all add: out_index_def n)
  then show ?thesis using s(1) c g(1) by blast
qed

text \<open>C32: With a second controller registered requests can starve.  A row whose page is on another controller than the first
  is registered under the queue of the first; however many rounds of the service follow the completion of its
  command, its context stays as it was, its page stays busy, and the check still counts the row as pending.\<close>

theorem second_controller_row_lost:
  assumes inv: "cache_inv (ac_pc ac)" "refs_ok (ac_pc ac)" and ad: "ad_ok (ac_pc ac) arr" and dn: "ac_done ac = (\<lambda>_. [])" and nq: "0 < pc_n_qps (ac_pc ac) 0"
    and w: "idx_idx w < fa_num_idx fa" "find_range arr (feature_index fa w 0) \<noteq> None" and x: "row_page (ac_pc ac) arr (feature_index fa w 0) = (r, pg)"
    and pg: "\<not> is_valid (dstate (ac_pc ac) r pg)" "\<not> is_busy (dstate (ac_pc ac) r pg)"
      "cnt_of (dstate (ac_pc ac) r pg) + 1 + extra_count (pc_ranges (ac_pc ac) r pg) < 2 ^ 29"
    and home: "0 \<notin> ctrls_of (ac_pc ac) r pg"
    and ret: "read_feature_kernel_submit_async_rowctx arr fa ctxs w smid (ac, m) = Some (ac1, m1)"
    and g: "gd_dev g = (ac1, m1)" "gd_ctx_lookup g = Map.empty" and row: "uint row = idx_idx w" "row < word_of_int num"
  shows "let ctx = m1 (ctxs + idx_idx w); ac2 = device_complete (cx_member_acquire_ctrl (rx_ctx ctx)) (rx_queue ctx) (cx_cid (rx_ctx ctx)) ac1;
             g1 = service_burst arr n_lq rounds ((register_registered_ctx_lookup_kernel ctxs num row g)\<lparr>gd_dev := (ac2, m1)\<rparr>)
         in snd (gd_dev g1) = m1 \<and> is_busy (dstate (ac_pc (fst (gd_dev g1))) r pg) \<and> snd (check_launch arr ctxs num 1 [row] (gd_dev g1)) = 1"
proof -
  let ?p = "ctxs + idx_idx w" and ?q = "smid mod pc_n_qps (ac_pc ac) 0" and ?ln = "array_lane (ac_pc ac) arr (feature_index fa w 0)"
  obtain k where k: "find_range arr (feature_index fa w 0) = Some k" using w(2) by blast
  have ln: "ln_rng ?ln = r" "ln_page ?ln = pg" using x by (simp_all add: row_page_def)
  obtain c1 b where A: "acquire_page_submit_async ac r pg 1 False ?q (rx_ctx (m ?p)) = Some (ac1, c1, b)"
      and m1: "m1 = m(?p := row_submitted (m ?p) c1 k pg b ?q)"
    using ret unfolding submit_row_eq [OF w(1) k] ln by (auto split: option.splits)
  have d: "in_dom (ac_pc ac) r pg" by (rule row_page_dom [OF ad w(2) x])
  have kept: "slots_kept {} (ac_pc ac)" using inv by (simp add: slots_kept_def cache_inv_def)
  have b: "cnt_of (dstate (ac_pc ac) r pg) + unat (1 :: u32) + extra_count (pc_ranges (ac_pc ac) r pg) < 2 ^ 29" using pg(3) by simp
  obtain pc3 s where fl: "in_flight {} ac ac1 c1 r pg 1 ?q pc3 s" using submit_only_found [OF kept d pg(1,2) b _ A] by auto
  let ?c = "cx_member_acquire_ctrl c1"
  define ac2 where "ac2 = device_complete ?c ?q (cx_cid c1) ac1"
  note P = in_flight_page [OF fl pg(1) b refl]
  have c: "?c \<noteq> 0" "\<not> cx_isHit c1" "cx_has_pending_io c1 = 1" "ac_done ac1 = ac_done ac" using fl home unfolding in_flight_def Let_def by auto
  have rg: "pc_ranges (ac_pc ac2) = pc_ranges (ac_pc ac1)" "pc_n_qps (ac_pc ac2) = pc_n_qps (ac_pc ac1)" "ac_done ac2 (0, q) = []" for q
    using in_flight_completed(1) [OF fl refl refl] c(1,4) dn unfolding ac2_def by (simp_all add: device_complete_def split: option.splits)
  have qs: "pc_n_qps (ac_pc ac1) 0 = pc_n_qps (ac_pc ac) 0"
    using fl submitted_page(3) [of "ac_pc ac" r pg 1] by (auto simp: in_flight_def Let_def slot_taken_def cfg_eq_def)
  have q: "?q < pc_n_qps (ac_pc ac2) 0" unfolding rg qs by (rule word_mod_less_divisor [OF nq])
  let ?g = "(register_registered_ctx_lookup_kernel ctxs num row g)\<lparr>gd_dev := (ac2, m1)\<rparr>"
  have l: "gd_ctx_lookup ?g y = None" if "y = lookup_slot lq cid" "pc_n_qps (ac_pc ac2) 0 \<le> lq" for y lq cid
  proof -
    have "lookup_slot lq cid \<noteq> lookup_slot ?q cid'" for cid' using that(2) q by (auto simp: lookup_slot_inj)
    then show ?thesis using that(1)
      by (auto simp: register_registered_ctx_lookup_kernel_def Let_def g row m1 row_submitted_def logical_queue_idx_def queues_before_def)
  qed
  then have "first_only ?g" using rg(3) by (simp add: first_only_def)
  from service_burst_first_only [OF this, of arr n_lq rounds]
  have u: "untouched ?g (service_burst arr n_lq rounds ?g)" by simp
  define g1 where "g1 = service_burst arr n_lq rounds ?g"
  obtain ac3 where g1: "gd_dev g1 = (ac3, m1)" "pc_ranges (ac_pc ac3) = pc_ranges (ac_pc ac1)"
    using u rg(1) by (cases "gd_dev g1") (auto simp: g1_def [symmetric] untouched_def)
  have st: "\<not> is_valid (dstate (ac_pc ac3) r pg)" "is_busy (dstate (ac_pc ac3) r pg)"
    using P(1) busied_page(1-4) [OF b] pg(1) by (simp_all add: dstate_def g1(2))
  have sw: "state_of_word (dp_state (pc_ranges (ac_pc ac3) r pg)) \<noteq> V_NB"
    using st(1) by (auto simp: state_of_word_cases dstate_def)
  have rr: "rd_range_id (ad_ranges arr ! k) = r" using row_rng [of arr "feature_index fa w 0" "ac_pc ac"] x k by simp
  have "snd (check_launch arr ctxs num 1 [row] (gd_dev g1)) = 1"
    using row sw rr c(2) by (simp add: check_launch_def check_registered_request_ready_kernel_def Let_def g1(1) m1 row_submitted_def refresh_registered_ctx_from_valid_page_def)
  then show ?thesis using st(2) g1(1) unfolding Let_def g1_def ac2_def by (simp add: m1 row_submitted_def)
qed

theorem second_controller_row_lost_witness:
  "\<exists>ac1 m1. read_feature_kernel_submit_async_rowctx warp_arr gather_fa 0 0 0 (striped_ac, \<lambda>_. ctx_cleared) = Some (ac1, m1) \<and>
    (let ctx = m1 0; ac2 = device_complete (cx_member_acquire_ctrl (rx_ctx ctx)) (rx_queue ctx) (cx_cid (rx_ctx ctx)) ac1;
         g = \<lparr>gd_dev = (ac1, m1), gd_ctx_lookup = Map.empty, gd_event_count = 0, gd_progress_count = 0, gd_lookup_miss_count = 0\<rparr>;
         g1 = service_burst warp_arr 2 [[0, 1], [1, 0]] ((register_registered_ctx_lookup_kernel 0 1 0 g)\<lparr>gd_dev := (ac2, m1)\<rparr>)
     in snd (check_launch warp_arr 0 1 1 [0] (gd_dev g1)) = 1)"
proof -
  have pc: "ac_pc striped_ac = striped_pc" "ac_done striped_ac = (\<lambda>_. [])" by (simp_all add: striped_ac_def)
  note E = striped_example
  have i: "idx_idx 0 = 0" by (simp add: idx_idx_def)
  have kept: "slots_kept {} striped_pc" using E(1,2) by (simp add: slots_kept_def cache_inv_def)
  have q: "0 mod pc_n_qps striped_pc 0 = 0" "0 < pc_n_qps striped_pc 0" by (simp_all add: striped_pc_def gather_pc_def warp_pc_def)
  obtain ac1 c1 b where "acquire_page_submit_async striped_ac 0 1 1 False 0 (rx_ctx ctx_cleared) = Some (ac1, c1, b)"
    using submit_in_flight [of "{}" striped_ac 0 1 0 1 False 0 "rx_ctx ctx_cleared"] kept E(5-7,10) by (auto simp: pc)
  then obtain m1 where ret: "read_feature_kernel_submit_async_rowctx warp_arr gather_fa 0 0 0 (striped_ac, \<lambda>_. ctx_cleared) = Some (ac1, m1)"
    using submit_row_eq [OF gather_example(7) E(9), of 0 0 striped_ac "\<lambda>_. ctx_cleared"] E(4) q(1) by (simp add: pc row_page_def)
  let ?g = "\<lparr>gd_dev = (ac1, m1), gd_ctx_lookup = Map.empty, gd_event_count = 0, gd_progress_count = 0, gd_lookup_miss_count = 0\<rparr> :: nat gids_dev"
  have g: "gd_dev ?g = (ac1, m1)" "gd_ctx_lookup ?g = Map.empty" by simp_all
  have n: "\<not> is_valid (dstate (ac_pc striped_ac) 0 1)" "\<not> is_busy (dstate (ac_pc striped_ac) 0 1)"
      "cnt_of (dstate (ac_pc striped_ac) 0 1) + 1 + extra_count (pc_ranges (ac_pc striped_ac) 0 1) < 2 ^ 29" "0 \<notin> ctrls_of (ac_pc striped_ac) 0 1"
    using E(5,6,8) by (simp_all add: pc)
  have r: "uint (0 :: u32) = idx_idx 0" "(0 :: u32) < word_of_int 1" by (simp_all add: i)
  have fr: "find_range warp_arr (feature_index gather_fa 0 0) \<noteq> None" using E(9) by simp
  from second_controller_row_lost [OF E(1-3) [folded pc(1)] pc(2) q(2) [folded pc(1)] gather_example(7) fr E(4) [folded pc(1)] n ret g r, of 2 "[[0, 1], [1, 0]]"]
  show ?thesis using ret unfolding Let_def i by (intro exI [of _ ac1] exI [of _ m1]) (simp del: service_burst.simps)
qed

end
