(* ===== verification/Gids_Host.thy ===== *)
theory Gids_Host
  imports Gids_Registered
begin

text \<open>
  The host side of registered requests: the queue of requests (\<open>include/bam_iostack.cuh\<close>) and the calls of
  \<open>BAM_Feature_Store\<close> in \<open>gids_nvme.cu\<close> that submit a request, look whether requests are ready, and take the
  features of the oldest one.  Statistics, dumps and debug output are left out.  A call answers an error for an
  exception (\<open>Null_Contexts\<close> for a kernel that is given no contexts), and \<open>None\<close> for a kernel that never ends.
\<close>

section \<open>The queue of requests\<close>

datatype request_state_t = SUBMITTED | READY | CONSUMED

record outstanding_meta_t =
  om_request_id :: u64
  om_index_ptr :: u64
  om_num_index :: int
  om_dim :: nat
  om_cache_dim :: nat
  om_key_off :: u64
  om_ctxs :: int
  om_ctx_count :: u64
  om_ctx_stride :: u32
  om_state :: request_state_t

record iostack_t =
  d_warp_ctxs :: "int option"
  d_warp_ctxs_queue :: "int list"
  d_warp_ctxs_count_queue :: "u64 list"
  outstanding_queue :: "outstanding_meta_t list"
  next_request_id :: u64
  last_consumed_request_id :: u64

definition iostack_new :: iostack_t where
  "iostack_new = \<lparr>d_warp_ctxs = None, d_warp_ctxs_queue = [], d_warp_ctxs_count_queue = [], outstanding_queue = [], next_request_id = 1,
     last_consumed_request_id = 0\<rparr>"

definition push_ctxs :: "int \<Rightarrow> u64 \<Rightarrow> iostack_t \<Rightarrow> iostack_t" where
  "push_ctxs ctxs ctx_count io =
     io\<lparr>d_warp_ctxs_queue := d_warp_ctxs_queue io @ [ctxs], d_warp_ctxs_count_queue := d_warp_ctxs_count_queue io @ [ctx_count],
        d_warp_ctxs := (case d_warp_ctxs io of None \<Rightarrow> Some ctxs | Some c \<Rightarrow> Some c)\<rparr>"

definition register_outstanding :: "int \<Rightarrow> u64 \<Rightarrow> u64 \<Rightarrow> int \<Rightarrow> nat \<Rightarrow> nat \<Rightarrow> u64 \<Rightarrow> u32 \<Rightarrow> iostack_t \<Rightarrow> iostack_t \<times> u64" where
  "register_outstanding ctxs ctx_count index_ptr num_index dim cache_dim key_off ctx_stride io =
     (let io1 = push_ctxs ctxs ctx_count io;
          meta = \<lparr>om_request_id = next_request_id io1, om_index_ptr = index_ptr, om_num_index = num_index, om_dim = dim, om_cache_dim = cache_dim,
                  om_key_off = key_off, om_ctxs = ctxs, om_ctx_count = ctx_count, om_ctx_stride = ctx_stride, om_state = SUBMITTED\<rparr>
      in (io1\<lparr>next_request_id := next_request_id io1 + 1, outstanding_queue := outstanding_queue io1 @ [meta]\<rparr>, om_request_id meta))"

definition front_ctxs :: "iostack_t \<Rightarrow> iostack_t \<times> int option" where
  "front_ctxs io = (case d_warp_ctxs_queue io of [] \<Rightarrow> (io\<lparr>d_warp_ctxs := None\<rparr>, None) | c # _ \<Rightarrow> (io\<lparr>d_warp_ctxs := Some c\<rparr>, Some c))"

definition front_ctx_count :: "iostack_t \<Rightarrow> u64" where
  "front_ctx_count io = (case d_warp_ctxs_count_queue io of [] \<Rightarrow> 0 | n # _ \<Rightarrow> n)"

definition outstanding_at :: "u64 \<Rightarrow> iostack_t \<Rightarrow> outstanding_meta_t option" where
  "outstanding_at offset io =
     (if unat offset \<ge> length (outstanding_queue io) then None else Some (outstanding_queue io ! unat offset))"

definition ctxs_at :: "u64 \<Rightarrow> iostack_t \<Rightarrow> int option" where
  "ctxs_at offset io = (if unat offset \<ge> length (d_warp_ctxs_queue io) then None else Some (d_warp_ctxs_queue io ! unat offset))"

definition front_outstanding :: "iostack_t \<Rightarrow> outstanding_meta_t option" where
  "front_outstanding io = (case outstanding_queue io of [] \<Rightarrow> None | o' # _ \<Rightarrow> Some o')"

definition outstanding_count :: "iostack_t \<Rightarrow> u64" where
  "outstanding_count io = of_nat (length (outstanding_queue io))"

definition front_outstanding_ready :: "iostack_t \<Rightarrow> bool" where
  "front_outstanding_ready io = (case front_outstanding io of None \<Rightarrow> False | Some o' \<Rightarrow> om_state o' = READY)"

definition front_ready_request_id :: "iostack_t \<Rightarrow> u64" where
  "front_ready_request_id io =
     (case front_outstanding io of None \<Rightarrow> 0 | Some o' \<Rightarrow> if om_state o' \<noteq> READY then 0 else om_request_id o')"

definition front_state :: "iostack_t \<Rightarrow> request_state_t" where
  "front_state io = (case front_outstanding io of None \<Rightarrow> CONSUMED | Some o' \<Rightarrow> om_state o')"

definition mark_ready_at :: "u64 \<Rightarrow> u64 \<Rightarrow> iostack_t \<Rightarrow> iostack_t \<times> bool" where
  "mark_ready_at offset request_id io =
     (let n = unat offset in
      if n \<ge> length (outstanding_queue io) then (io, False)
      else if request_id \<noteq> 0 \<and> om_request_id (outstanding_queue io ! n) \<noteq> request_id then (io, False)
      else (io\<lparr>outstanding_queue := (outstanding_queue io)[n := (outstanding_queue io ! n)\<lparr>om_state := READY\<rparr>]\<rparr>, True))"

definition mark_front_ready :: "u64 \<Rightarrow> iostack_t \<Rightarrow> iostack_t \<times> bool" where
  "mark_front_ready request_id io =
     (case outstanding_queue io of
        [] \<Rightarrow> (io, False)
      | o' # os \<Rightarrow>
          if request_id \<noteq> 0 \<and> om_request_id o' \<noteq> request_id then (io, False)
          else (io\<lparr>outstanding_queue := o'\<lparr>om_state := READY\<rparr> # os\<rparr>, True))"

definition mark_front_consumed :: "u64 \<Rightarrow> iostack_t \<Rightarrow> iostack_t \<times> bool" where
  "mark_front_consumed request_id io =
     (case outstanding_queue io of
        [] \<Rightarrow> (io, False)
      | o' # os \<Rightarrow>
          if request_id \<noteq> 0 \<and> om_request_id o' \<noteq> request_id then (io, False)
          else (io\<lparr>outstanding_queue := o'\<lparr>om_state := CONSUMED\<rparr> # os, last_consumed_request_id := om_request_id o'\<rparr>, True))"

definition pop_ctxs :: "iostack_t \<Rightarrow> iostack_t" where
  "pop_ctxs io =
     (case d_warp_ctxs_queue io of
        [] \<Rightarrow> io\<lparr>d_warp_ctxs := None\<rparr>
      | _ # cs \<Rightarrow>
          io\<lparr>d_warp_ctxs_queue := cs, d_warp_ctxs_count_queue := tl (d_warp_ctxs_count_queue io),
             outstanding_queue := (case outstanding_queue io of [] \<Rightarrow> [] | _ # os \<Rightarrow> os),
             d_warp_ctxs := (case cs of [] \<Rightarrow> None | c # _ \<Rightarrow> Some c)\<rparr>)"

section \<open>Calls\<close>

text \<open>
  The feature store: the queue, the device, and what the host knows of the table of the service
  (\<open>registered_total_logical_queues\<close>, \<open>registered_ctx_lookup_capacity\<close>).
\<close>

record 't host =
  ho_io :: iostack_t
  ho_dev :: "'t gids_dev"
  ho_queues :: u32
  ho_capacity :: u64

datatype host_error = No_Request | Wrong_Request | Not_Ready | Mark_Failed | Null_Contexts

text \<open>The number of queues of all controllers, counted once.\<close>

definition queues_counted :: "'t host \<Rightarrow> u32" where
  "queues_counted h =
     (if ho_queues h = 0 then (let pc = ac_pc (fst (gd_dev (ho_dev h))) in queues_before pc (unat (pc_n_ctrls pc))) else ho_queues h)"

text \<open>The arguments of the kernels; \<open>idx\<close> is the content of the index tensors.  The offset of the keys is always 0 here.\<close>

definition request_args :: "(u64 \<Rightarrow> int \<Rightarrow> u64) \<Rightarrow> outstanding_meta_t \<Rightarrow> feature_args" where
  "request_args idx o' = \<lparr>fa_index = idx (om_index_ptr o'), fa_dim = om_dim o', fa_num_idx = om_num_index o', fa_cache_dim = om_cache_dim o',
     fa_key_off = 0\<rparr>"

fun submit_launch :: "array_d_t \<Rightarrow> feature_args \<Rightarrow> int \<Rightarrow> (u64 \<times> u32) list \<Rightarrow> 't ctx_dev \<Rightarrow> 't ctx_dev option" where
  "submit_launch arr fa ctxs [] d = Some d"
| "submit_launch arr fa ctxs ((w, smid) # ws) d =
     (case read_feature_kernel_submit_async_rowctx arr fa ctxs w smid d of None \<Rightarrow> None | Some d1 \<Rightarrow> submit_launch arr fa ctxs ws d1)"

definition register_launch :: "int \<Rightarrow> int \<Rightarrow> u32 list \<Rightarrow> 't gids_dev \<Rightarrow> 't gids_dev" where
  "register_launch ctxs num rows g = foldl (\<lambda>g row. register_registered_ctx_lookup_kernel ctxs num row g) g rows"

text \<open>\<open>ctxs\<close> is what \<open>cudaMalloc\<close> answers; \<open>ws\<close> and \<open>rows\<close> are the orders in which the threads run.\<close>

definition read_feature_submit_async_registered_rowctx ::
  "array_d_t \<Rightarrow> (u64 \<Rightarrow> int \<Rightarrow> u64) \<Rightarrow> u64 \<Rightarrow> int \<Rightarrow> nat \<Rightarrow> nat \<Rightarrow> u64 \<Rightarrow> int \<Rightarrow> (u64 \<times> u32) list \<Rightarrow> u32 list \<Rightarrow> 't host \<Rightarrow> ('t host \<times> u64) option"
where
  "read_feature_submit_async_registered_rowctx arr idx index_ptr num_index dim cache_dim key_off ctxs ws rows h =
     (let (ac, m) = gd_dev (ho_dev h);
          m1 = clear_ctxs ctxs num_index m;
          (io1, request_id) = register_outstanding ctxs (word_of_int num_index) index_ptr num_index dim cache_dim key_off 1 (ho_io h);
          fa = \<lparr>fa_index = idx index_ptr, fa_dim = dim, fa_num_idx = num_index, fa_cache_dim = cache_dim, fa_key_off = 0\<rparr>
      in case submit_launch arr fa ctxs ws (ac, m1) of
           None \<Rightarrow> None
         | Some d \<Rightarrow>
             (let nq = queues_counted h; lookup_capacity = ucast nq * ucast kRegisteredCidCapacity;
                  grow = (lookup_capacity > 0 \<and> lookup_capacity > ho_capacity h);
                  g1 = (ho_dev h)\<lparr>gd_dev := d\<rparr>;
                  g2 = (if grow then g1\<lparr>gd_ctx_lookup := Map.empty\<rparr> else g1);
                  cap = (if grow then lookup_capacity else ho_capacity h);
                  g3 = (if cap \<noteq> 0 \<and> nq > 0 then register_launch ctxs num_index rows g2 else g2)
              in Some (h\<lparr>ho_io := io1, ho_dev := g3, ho_queues := nq, ho_capacity := cap\<rparr>, request_id)))"

definition service_registered_completions_burst :: "array_d_t \<Rightarrow> u32 list list \<Rightarrow> 't host \<Rightarrow> 't host" where
  "service_registered_completions_burst arr rounds h =
     (if outstanding_count (ho_io h) = 0 then h
      else (let nq = queues_counted h; h1 = h\<lparr>ho_queues := nq\<rparr> in
        if nq = 0 \<or> ho_capacity h = 0 then h1 else h1\<lparr>ho_dev := service_burst arr nq rounds (ho_dev h)\<rparr>))"

definition registered_request_ready_at :: "array_d_t \<Rightarrow> u32 list \<Rightarrow> u64 \<Rightarrow> 't host \<Rightarrow> 't host \<times> bool" where
  "registered_request_ready_at arr ts offset h =
     (case outstanding_at offset (ho_io h) of
        None \<Rightarrow> (h, False)
      | Some o' \<Rightarrow>
          if om_state o' = READY then (h, True)
          else (case ctxs_at offset (ho_io h) of
                  None \<Rightarrow> (h, False)
                | Some c \<Rightarrow>
                    (let (d, pending) = check_launch arr c (om_num_index o') (uint (om_ctx_stride o')) ts (gd_dev (ho_dev h))
                     in (h\<lparr>ho_dev := (ho_dev h)\<lparr>gd_dev := d\<rparr>\<rparr>, pending = 0))))"

definition service_registered_try_poll :: "array_d_t \<Rightarrow> u32 list list \<Rightarrow> u32 list \<Rightarrow> 't host \<Rightarrow> host_error + 't host \<times> u64" where
  "service_registered_try_poll arr rounds ts h =
     (case front_outstanding (ho_io h) of
        None \<Rightarrow> Inr (h, 0)
      | Some o' \<Rightarrow>
          if om_state o' = READY then Inr (h, om_request_id o')
          else (let h1 = service_registered_completions_burst arr rounds h;
                    (h2, ready) = registered_request_ready_at arr ts 0 h1
                in if ready then
                     (case mark_front_ready (om_request_id o') (ho_io h2) of
                        (io, ok) \<Rightarrow> if ok then Inr (h2\<lparr>ho_io := io\<rparr>, om_request_id o') else Inl Mark_Failed)
                   else Inr (h2, front_ready_request_id (ho_io h2))))"

text \<open>The requests behind the front, one after the other; \<open>tss\<close> has the order of the threads of each check.\<close>

fun try_window :: "array_d_t \<Rightarrow> (nat \<Rightarrow> u32 list) \<Rightarrow> nat list \<Rightarrow> 't host \<Rightarrow> host_error + 't host" where
  "try_window arr tss [] h = Inr h"
| "try_window arr tss (i # is) h =
     (let offset = of_nat i + 1 in
      case outstanding_at offset (ho_io h) of
        None \<Rightarrow> Inr h
      | Some o' \<Rightarrow>
          if om_state o' \<noteq> SUBMITTED then try_window arr tss is h
          else (case registered_request_ready_at arr (tss i) offset h of
                  (h1, False) \<Rightarrow> try_window arr tss is h1
                | (h1, True) \<Rightarrow>
                    (case mark_ready_at offset (om_request_id o') (ho_io h1) of
                       (io, ok) \<Rightarrow> if ok then try_window arr tss is (h1\<lparr>ho_io := io\<rparr>) else Inl Mark_Failed)))"

definition service_registered_try_poll_window_skip_front ::
  "array_d_t \<Rightarrow> u64 \<Rightarrow> u32 list list \<Rightarrow> (nat \<Rightarrow> u32 list) \<Rightarrow> 't host \<Rightarrow> host_error + 't host \<times> u64"
where
  "service_registered_try_poll_window_skip_front arr window_size rounds tss h =
     (let n = outstanding_count (ho_io h) in
      if n \<le> 1 then Inr (h, front_ready_request_id (ho_io h))
      else (let h1 = service_registered_completions_burst arr rounds h; limit = min (max 1 window_size) (n - 1)
            in case try_window arr tss [0..<unat limit] h1 of
                 Inl e \<Rightarrow> Inl e
               | Inr h2 \<Rightarrow> Inr (h2, front_ready_request_id (ho_io h2))))"

text \<open>
  The blocking polls: the threads of a kernel that waits, with the completions of the controller between them.  The
  kernel ends when every thread has returned.
\<close>

datatype poll_event = Poll_Thread u32 | Completes u64 u32 u16

definition poll_threads :: "poll_event list \<Rightarrow> u32 list" where
  "poll_threads es = concat (map (\<lambda>e. case e of Poll_Thread t \<Rightarrow> [t] | Completes c q cid \<Rightarrow> []) es)"

fun poll_launch :: "(u32 \<Rightarrow> 't ctx_dev \<Rightarrow> 't ctx_dev option) \<Rightarrow> poll_event list \<Rightarrow> 't ctx_dev \<Rightarrow> 't ctx_dev option" where
  "poll_launch thread [] d = Some d"
| "poll_launch thread (Poll_Thread t # es) d = (case thread t d of None \<Rightarrow> None | Some d1 \<Rightarrow> poll_launch thread es d1)"
| "poll_launch thread (Completes c q cid # es) d = poll_launch thread es (device_complete c q cid (fst d), snd d)"

definition read_feature_single_page_single_thread_poll_registered ::
  "array_d_t \<Rightarrow> (u64 \<Rightarrow> int \<Rightarrow> u64) \<Rightarrow> u64 \<Rightarrow> poll_event list \<Rightarrow> 't host \<Rightarrow> (host_error + 't host) option"
where
  "read_feature_single_page_single_thread_poll_registered arr idx request_id es h =
     (case front_outstanding (ho_io h) of
        None \<Rightarrow> Some (Inl No_Request)
      | Some o' \<Rightarrow>
          if request_id \<noteq> 0 \<and> om_request_id o' \<noteq> request_id then Some (Inl Wrong_Request)
          else (case front_ctxs (ho_io h) of
                  (_, None) \<Rightarrow> Some (Inl Null_Contexts)
                | (io1, Some ctxs) \<Rightarrow>
                    (case poll_launch (read_feature_kernel_single_page_single_thread_poll arr (request_args idx o') ctxs) es (gd_dev (ho_dev h)) of
                       None \<Rightarrow> None
                     | Some d \<Rightarrow> Some (Inr (h\<lparr>ho_io := io1, ho_dev := (ho_dev h)\<lparr>gd_dev := d\<rparr>\<rparr>)))))"

definition service_registered_poll ::
  "array_d_t \<Rightarrow> (u64 \<Rightarrow> int \<Rightarrow> u64) \<Rightarrow> poll_event list \<Rightarrow> 't host \<Rightarrow> (host_error + 't host \<times> u64) option"
where
  "service_registered_poll arr idx es h =
     (case front_outstanding (ho_io h) of
        None \<Rightarrow> Some (Inr (h, 0))
      | Some o' \<Rightarrow>
          if om_state o' = READY then Some (Inr (h, om_request_id o'))
          else (case read_feature_single_page_single_thread_poll_registered arr idx (om_request_id o') es h of
                  None \<Rightarrow> None
                | Some (Inl e) \<Rightarrow> Some (Inl e)
                | Some (Inr h1) \<Rightarrow>
                    (case mark_front_ready (om_request_id o') (ho_io h1) of
                       (io, ok) \<Rightarrow> Some (if ok then Inr (h1\<lparr>ho_io := io\<rparr>, om_request_id o') else Inl Mark_Failed))))"

definition service_registered_poll_compatible ::
  "array_d_t \<Rightarrow> (u64 \<Rightarrow> int \<Rightarrow> u64) \<Rightarrow> poll_event list \<Rightarrow> 't host \<Rightarrow> (host_error + 't host \<times> u64) option"
where
  "service_registered_poll_compatible arr idx es h =
     (case front_outstanding (ho_io h) of
        None \<Rightarrow> Some (Inr (h, 0))
      | Some o' \<Rightarrow>
          if om_state o' = READY then Some (Inr (h, om_request_id o'))
          else if om_ctx_stride o' \<noteq> 1 then service_registered_poll arr idx es h
          else (case front_ctxs (ho_io h) of
                  (_, None) \<Rightarrow> Some (Inl Null_Contexts)
                | (io1, Some ctxs) \<Rightarrow>
                    (case poll_launch (read_feature_kernel_single_page_single_thread_poll_rowctx arr (request_args idx o') ctxs) es (gd_dev (ho_dev h)) of
                       None \<Rightarrow> None
                     | Some d \<Rightarrow>
                         (case mark_front_ready (om_request_id o') io1 of
                            (io, ok) \<Rightarrow> Some (if ok then Inr (h\<lparr>ho_io := io, ho_dev := (ho_dev h)\<lparr>gd_dev := d\<rparr>\<rparr>, om_request_id o')
                                         else Inl Mark_Failed)))))"

definition read_feature_get_feature_light_registered_rowctx ::
  "array_d_t \<Rightarrow> (u64 \<Rightarrow> int \<Rightarrow> u64) \<Rightarrow> u64 list \<Rightarrow> 't host \<Rightarrow> (u64 \<Rightarrow> 't) \<Rightarrow> host_error + 't host \<times> (u64 \<Rightarrow> 't) \<times> u64"
where
  "read_feature_get_feature_light_registered_rowctx arr idx ws h out =
     (case front_outstanding (ho_io h) of
        None \<Rightarrow> Inl No_Request
      | Some o' \<Rightarrow>
          if om_state o' \<noteq> READY then Inl Not_Ready
          else (case front_ctxs (ho_io h) of
                  (_, None) \<Rightarrow> Inl Null_Contexts
                | (io1, Some ctxs) \<Rightarrow>
                    (let (d, out1) = gather_launch arr (request_args idx o') ctxs ws (gd_dev (ho_dev h)) out
                     in case mark_front_consumed (om_request_id o') io1 of
                          (io2, ok) \<Rightarrow>
                            if ok then Inr (h\<lparr>ho_io := pop_ctxs io2, ho_dev := (ho_dev h)\<lparr>gd_dev := d\<rparr>\<rparr>, out1, om_request_id o')
                            else Inl Mark_Failed)))"

section \<open>Launches\<close>

text \<open>The threads of a grid that covers \<open>num\<close> of them, in some order.\<close>

definition threads_of :: "int \<Rightarrow> 'a::len word list \<Rightarrow> bool" where
  "threads_of num ts \<longleftrightarrow> 0 \<le> num \<and> num \<le> 2 ^ 31 \<and> (\<exists>N. num \<le> int N \<and> N \<le> 2 ^ 31 \<and> distinct ts \<and> set ts = of_nat ` {..<N})"

lemma idx_of_nat: "n < 2 ^ 31 \<Longrightarrow> idx_idx (of_nat n) = int n"
proof -
  assume n: "n < 2 ^ 31"
  have "n mod 2 ^ 64 = n" "n mod 2 ^ 32 = n" using n by simp_all
  then have "(ucast (of_nat n :: u64) :: u32) = of_nat n" by (simp add: word_unat_eq_iff unat_ucast_mod unat_of_nat)
  then have "idx_idx (of_nat n) = sint (of_nat n :: u32)" by (simp add: idx_idx_def)
  also have "\<dots> = int n" using n by (simp add: signed_of_nat signed_take_bit_int_eq_self)
  finally show ?thesis .
qed

lemma grid_warps:
  assumes "threads_of num (ws :: u64 list)"
  shows "inj_on idx_idx (set ws)" "\<forall>w \<in> set ws. 0 \<le> idx_idx w \<and> idx_idx w < 2 ^ 31 \<and> w = word_of_int (idx_idx w)" "0 \<le> i \<and> i < num \<Longrightarrow> word_of_int i \<in> set ws"
    "0 \<le> i \<and> i < num \<Longrightarrow> idx_idx (word_of_int i) = i"
proof -
  obtain N where N: "num \<le> int N" "N \<le> 2 ^ 31" "set ws = of_nat ` {..<N}" and num: "0 \<le> num" "num \<le> 2 ^ 31" using assms unfolding threads_of_def by blast
  show w: "\<forall>w \<in> set ws. 0 \<le> idx_idx w \<and> idx_idx w < 2 ^ 31 \<and> w = word_of_int (idx_idx w)"
    unfolding N(3) using N(2) by (auto simp: idx_of_nat)
  then show "inj_on idx_idx (set ws)" by (auto intro!: inj_onI) metis
  assume i: "0 \<le> i \<and> i < num"
  then obtain n where n: "i = int n" by (metis nonneg_int_cases)
  have "int n < int (2 ^ 31)" using num i n by simp
  then have "n < N" "n < 2 ^ 31" using N(1) i n by (simp_all only: of_nat_less_iff) simp
  then show "word_of_int i \<in> set ws" "idx_idx (word_of_int i) = i" unfolding N(3) n using idx_of_nat [of n] by auto
qed

lemma grid_threads:
  assumes "threads_of num (ts :: u32 list)"
  shows "t \<in> set ts \<Longrightarrow> t < word_of_int num \<longleftrightarrow> uint t < num" "0 \<le> i \<and> i < num \<Longrightarrow> \<exists>t \<in> set ts. uint t = i" "inj_on uint (set ts)"
proof -
  obtain N where N: "num \<le> int N" "N \<le> 2 ^ 31" "set ts = of_nat ` {..<N}" and num: "0 \<le> num" "num \<le> 2 ^ 31" using assms unfolding threads_of_def by blast
  show "inj_on uint (set ts)" by (rule inj_onI) (simp add: word_uint_eq_iff)
  have u: "uint (of_nat n :: u32) = int n" if "n < N" for n using N(2) that by (simp add: unsigned_of_nat take_bit_nat_eq_self)
  show "\<exists>t \<in> set ts. uint t = i" if i: "0 \<le> i \<and> i < num"
  proof -
    obtain n where n: "i = int n" using i by (metis nonneg_int_cases)
    then have "n < N" using i N(1) by simp
    then show ?thesis unfolding N(3) n using u [of n] by (intro bexI [of _ "of_nat n"]) auto
  qed
  show "t < word_of_int num \<longleftrightarrow> uint t < num" if "t \<in> set ts"
  proof -
    have "uint (word_of_int num :: u32) = num" using num by (simp add: unsigned_of_int take_bit_int_eq_self)
    then show ?thesis by (simp add: word_less_def)
  qed
qed

text \<open>Warps past the number of rows do nothing.\<close>

lemma submit_launch_live: "submit_launch arr fa ctxs ws d = submit_launch arr fa ctxs (filter (\<lambda>(w, smid). idx_idx w < fa_num_idx fa) ws) d"
  by (induction arr fa ctxs ws d rule: submit_launch.induct)
    (auto simp: read_feature_kernel_submit_async_rowctx_def split: option.splits)

lemma gather_launch_live: "gather_launch arr fa ctxs ws d out = gather_launch arr fa ctxs (filter (\<lambda>w. idx_idx w < fa_num_idx fa) ws) d out"
proof (induction ws arbitrary: d out)
  case (Cons w ws)
  obtain d1 o1 where e: "read_feature_kernel_get_feature_light_rowctx arr fa ctxs w d out = (d1, o1)" by (rule prod.exhaust)
  have "\<not> idx_idx w < fa_num_idx fa \<Longrightarrow> d1 = d \<and> o1 = out" using e by (simp add: read_feature_kernel_get_feature_light_rowctx_def)
  then show ?case using Cons.IH [of d1 o1] e by (cases "idx_idx w < fa_num_idx fa") (simp_all add: gather_launch_def)
qed simp

lemma check_launch_live: "check_launch arr ctxs num stride ts d = check_launch arr ctxs num stride (filter (\<lambda>t. t < word_of_int num) ts) d"
proof -
  have "foldl (\<lambda>s t. check_registered_request_ready_kernel arr ctxs num stride t s) s ts =
      foldl (\<lambda>s t. check_registered_request_ready_kernel arr ctxs num stride t s) s (filter (\<lambda>t. t < word_of_int num) ts)" for s
  proof (induction ts arbitrary: s)
    case (Cons t ts)
    have "check_registered_request_ready_kernel arr ctxs num stride t s = s" if "\<not> t < word_of_int num"
      using that unfolding check_registered_request_ready_kernel_def by (simp add: not_less)
    then show ?case using Cons.IH by (cases "t < word_of_int num") simp_all
  qed simp
  then show ?thesis by (simp add: check_launch_def)
qed

text \<open>Contexts that are ready stay so while the service runs.\<close>

definition hits_kept :: "'t gids_dev \<Rightarrow> 't gids_dev \<Rightarrow> bool" where
  "hits_kept g g' \<longleftrightarrow> (\<forall>p. cx_isHit (rx_ctx (snd (gd_dev g) p)) \<longrightarrow> cx_isHit (rx_ctx (snd (gd_dev g') p)))"

lemma hits_kept_trans: "hits_kept g g' \<Longrightarrow> hits_kept g' g'' \<Longrightarrow> hits_kept g g''"
  by (simp add: hits_kept_def)

lemma finalize_hit:
  assumes "finalize_registered_ctx_completion pc arr ctx = (pc', ctx', ok)" and "cx_isHit (rx_ctx ctx)"
  shows "cx_isHit (rx_ctx ctx')"
  using assms by (auto simp: finalize_registered_ctx_completion_def split: option.splits)

lemma service_event_hits: "hits_kept g (service_event arr lq cid g)"
proof -
  obtain ac m where g: "gd_dev g = (ac, m)" by force
  show ?thesis using finalize_hit by (auto simp: hits_kept_def service_event_def Let_def g split: option.splits prod.splits)
qed

lemma service_queue_hits: "hits_kept g (service_queue n arr lq c q g)"
proof (induction n arbitrary: g)
  case (Suc n)
  show ?case
  proof (cases "take_head (fst (gd_dev g)) c q")
    case None
    then show ?thesis by (simp add: hits_kept_def)
  next
    case (Some x)
    obtain ac1 cid where x: "x = (ac1, cid)" by force
    have "hits_kept g (g\<lparr>gd_dev := (ac1, snd (gd_dev g))\<rparr>)" by (simp add: hits_kept_def)
    from hits_kept_trans [OF hits_kept_trans [OF this service_event_hits [of _ arr lq cid]] Suc.IH] show ?thesis using Some x by simp
  qed
qed (simp add: hits_kept_def)

lemma service_burst_hits: "hits_kept g (service_burst arr nq rounds g)"
proof (induction rounds arbitrary: g)
  case (Cons lqs rounds)
  have k: "hits_kept g (service_registered_cq_window_kernel arr nq lq g)" for g lq
  proof -
    have "hits_kept g g" by (simp add: hits_kept_def)
    then show ?thesis unfolding service_registered_cq_window_kernel_def Let_def using service_queue_hits [of g] by (auto split: option.splits)
  qed
  have "hits_kept g (service_launch arr nq lqs g)" for g
    unfolding service_launch_def
  proof (induction lqs arbitrary: g)
    case (Cons lq lqs)
    show ?case using hits_kept_trans [OF k Cons.IH, of g lq] by simp
  qed (simp add: hits_kept_def)
  then show ?case using hits_kept_trans Cons.IH by fastforce
qed (simp add: hits_kept_def)

text \<open>A submission of several rows and their registration are steps of the machine.\<close>

lemma submit_launch_reach:
  fixes s :: "'t reg_state"
  assumes cfg: "reg_cfg pc arr" and r: "reg_reach pc arr s" and ret: "submit_launch arr fa ctxs ws (gd_dev (rg_dev s)) = Some d"
    and w: "\<forall>w \<in> fst ` set ws. row_fits pc arr fa w \<and> ctxs + idx_idx w \<notin> dom (rg_rows s) \<and> snd (gd_dev (rg_dev s)) (ctxs + idx_idx w) = ctx_cleared"
    and dis: "distinct (map fst ws)" "inj_on idx_idx (fst ` set ws)" and n: "card (dom (rg_rows s)) + length ws < 2 ^ 29"
    and free: "\<forall>k d'. submit_launch arr fa ctxs (take k ws) (gd_dev (rg_dev s)) = Some d' \<longrightarrow> cids_free (pc_cids (ac_pc (fst d')))"
  shows "\<exists>s'. reg_reach pc arr s' \<and> rg_dev s' = (rg_dev s)\<lparr>gd_dev := d\<rparr> \<and>
    dom (rg_rows s') = dom (rg_rows s) \<union> (\<lambda>w. ctxs + idx_idx w) ` fst ` set ws \<and>
    (\<forall>w \<in> fst ` set ws. rg_rows s' (ctxs + idx_idx w) = Some (feature_index fa w 0)) \<and>
    (\<forall>q. q \<notin> (\<lambda>w. ctxs + idx_idx w) ` fst ` set ws \<longrightarrow> rg_rows s' q = rg_rows s q \<and> snd d q = snd (gd_dev (rg_dev s)) q) \<and>
    rg_pend s' = rg_pend s \<union> (\<lambda>w. ctxs + idx_idx w) ` fst ` set ws"
  using r ret w dis n free
proof (induction ws arbitrary: s)
  case Nil
  then show ?case by (intro exI [of _ s]) simp
next
  case (Cons x ws)
  obtain w smid where x: "x = (w, smid)" by force
  obtain ac m where g: "gd_dev (rg_dev s) = (ac, m)" by force
  obtain P where inv: "reg_inv pc arr s P" using reach_inv [OF cfg Cons.prems(1)] by blast
  let ?p = "ctxs + idx_idx w"
  have w: "row_fits pc arr fa w" "?p \<notin> dom (rg_rows s)" "m ?p = ctx_cleared" using Cons.prems(3) x g by auto
  have m: "m(?p := ctx_cleared) = m" using w(3) by auto
  obtain d1 where d1: "read_feature_kernel_submit_async_rowctx arr fa ctxs w smid (ac, m) = Some d1" and r1: "submit_launch arr fa ctxs ws d1 = Some d"
    using Cons.prems(2) x g by (auto split: option.splits)
  have "submit_launch arr fa ctxs (take 1 (x # ws)) (gd_dev (rg_dev s)) = Some d1" using x g d1 by simp
  then have free1: "cids_free (pc_cids (ac_pc (fst d1)))" using Cons.prems(7) by blast
  have fits: "row_fits (ac_pc ac) arr fa w" using w(1) cfg_row_fits [OF rows_invD(1) [OF reg_invD(1) [OF inv g]]] by simp
  define s1 where "s1 = s\<lparr>rg_dev := (rg_dev s)\<lparr>gd_dev := d1\<rparr>, rg_rows := (rg_rows s)(?p \<mapsto> feature_index fa w 0), rg_pend := insert ?p (rg_pend s)\<rparr>"
  have card: "card (dom (rg_rows s)) + 1 < 2 ^ 29" using Cons.prems(6) by simp
  have step: "reg_reach pc arr s1" unfolding s1_def
    by (rule reg_reach.step [OF Cons.prems(1)]) (rule reg_step.submit [OF refl g refl w(2) fits card, unfolded m, OF d1 free1])
  have i: "idx_idx w < fa_num_idx fa" "find_range arr (feature_index fa w 0) \<noteq> None" using w(1) by (simp_all add: row_fits_def)
  then obtain k where k: "find_range arr (feature_index fa w 0) = Some k" by blast
  have other: "snd d1 q = m q" if "q \<noteq> ?p" for q
    using d1 that unfolding submit_row_eq [OF i(1) k] by (auto split: option.splits)
  have ne: "ctxs + idx_idx w' \<noteq> ?p" if "w' \<in> fst ` set ws" for w'
  proof
    assume "ctxs + idx_idx w' = ?p"
    then have "w' = w" using inj_onD [OF Cons.prems(5), of w' w] that x by auto
    then show False using Cons.prems(4) that x by auto
  qed
  have e: "gd_dev (rg_dev s1) = d1" "dom (rg_rows s1) = insert ?p (dom (rg_rows s))" "rg_pend s1 = insert ?p (rg_pend s)" "rg_rows s1 ?p = Some (feature_index fa w 0)"
      "\<And>q. q \<noteq> ?p \<Longrightarrow> rg_rows s1 q = rg_rows s q" "(rg_dev s1)\<lparr>gd_dev := d\<rparr> = (rg_dev s)\<lparr>gd_dev := d\<rparr>" by (auto simp: s1_def)
  have fin: "finite (dom (rg_rows s))" using rows_invD(5) [OF reg_invD(1) [OF inv g]] .
  have prems: "\<forall>w \<in> fst ` set ws. row_fits pc arr fa w \<and> ctxs + idx_idx w \<notin> dom (rg_rows s1) \<and> snd (gd_dev (rg_dev s1)) (ctxs + idx_idx w) = ctx_cleared"
      "card (dom (rg_rows s1)) + length ws < 2 ^ 29"
    using Cons.prems(3) x g ne other Cons.prems(6) card_insert_if [OF fin, of ?p] w(2) unfolding e by simp_all
  have d: "distinct (map fst ws)" "inj_on idx_idx (fst ` set ws)" using Cons.prems(4,5) by (simp_all add: inj_on_def)
  have fr: "\<forall>k d'. submit_launch arr fa ctxs (take k ws) (gd_dev (rg_dev s1)) = Some d' \<longrightarrow> cids_free (pc_cids (ac_pc (fst d')))"
  proof (intro allI impI)
    fix k d' assume "submit_launch arr fa ctxs (take k ws) (gd_dev (rg_dev s1)) = Some d'"
    then show "cids_free (pc_cids (ac_pc (fst d')))" using Cons.prems(7) [rule_format, of "Suc k" d'] by (simp add: x g d1 e(1))
  qed
  from Cons.IH [OF step r1 [folded e(1)] prems(1) d prems(2) fr] obtain s' :: "'t reg_state" where
    IH: "reg_reach pc arr s'" "rg_dev s' = (rg_dev s)\<lparr>gd_dev := d\<rparr>" "dom (rg_rows s') = insert ?p (dom (rg_rows s)) \<union> (\<lambda>w. ctxs + idx_idx w) ` fst ` set ws"
      "\<forall>w \<in> fst ` set ws. rg_rows s' (ctxs + idx_idx w) = Some (feature_index fa w 0)"
      "\<forall>q. q \<notin> (\<lambda>w. ctxs + idx_idx w) ` fst ` set ws \<longrightarrow> rg_rows s' q = rg_rows s1 q \<and> snd d q = snd d1 q"
      "rg_pend s' = insert ?p (rg_pend s) \<union> (\<lambda>w. ctxs + idx_idx w) ` fst ` set ws" unfolding e by blast
  have p: "?p \<notin> (\<lambda>w. ctxs + idx_idx w) ` fst ` set ws" using ne by fastforce
  have a: "dom (rg_rows s') = dom (rg_rows s) \<union> (\<lambda>w. ctxs + idx_idx w) ` fst ` set (x # ws)"
      "rg_pend s' = rg_pend s \<union> (\<lambda>w. ctxs + idx_idx w) ` fst ` set (x # ws)" using IH(3,6) x by auto
  have b: "\<forall>w \<in> fst ` set (x # ws). rg_rows s' (ctxs + idx_idx w) = Some (feature_index fa w 0)" using IH(4,5) p e(4) x by auto
  have c: "\<forall>q. q \<notin> (\<lambda>w. ctxs + idx_idx w) ` fst ` set (x # ws) \<longrightarrow> rg_rows s' q = rg_rows s q \<and> snd d q = snd (gd_dev (rg_dev s)) q"
    using IH(5) e(5) other x g by auto
  show ?case using IH(1,2) a b c by blast
qed

text \<open>The threads of the blocking poll are steps of the machine.\<close>

definition own_transfer :: "row_ctx \<Rightarrow> bool" where
  "own_transfer ctx \<longleftrightarrow> cx_isHit (rx_ctx ctx) \<or> cx_has_pending_io (rx_ctx ctx) \<noteq> 0"

lemma poll_launch_reach:
  assumes cfg: "reg_cfg pc arr" and r: "reg_reach pc arr s"
    and ret: "poll_launch (read_feature_kernel_single_page_single_thread_poll_rowctx arr fa ctxs) es (gd_dev (rg_dev s)) = Some d"
    and t: "\<forall>t \<in> set (poll_threads es). t < word_of_int (fa_num_idx fa) \<longrightarrow>
      rg_rows s (ctxs + uint t) = Some ((fa_index fa (uint t) + fa_key_off fa) * of_nat (fa_cache_dim fa)) \<and>
      own_transfer (snd (gd_dev (rg_dev s)) (ctxs + uint t))"
  shows "reg_reach pc arr (s\<lparr>rg_dev := (rg_dev s)\<lparr>gd_dev := d\<rparr>\<rparr>) \<and>
    (\<forall>q. cx_isHit (rx_ctx (snd (gd_dev (rg_dev s)) q)) \<longrightarrow> cx_isHit (rx_ctx (snd d q))) \<and>
    (\<forall>t \<in> set (poll_threads es). t < word_of_int (fa_num_idx fa) \<longrightarrow> cx_isHit (rx_ctx (snd d (ctxs + uint t))))"
  using r ret t
proof (induction es arbitrary: s)
  case Nil
  then have d: "d = gd_dev (rg_dev s)" by simp
  have "s\<lparr>rg_dev := (rg_dev s)\<lparr>gd_dev := gd_dev (rg_dev s)\<rparr>\<rparr> = s" by simp
  then show ?case using Nil.prems(1) unfolding d by (simp add: poll_threads_def)
next
  case (Cons e es)
  obtain ac m where g: "gd_dev (rg_dev s) = (ac, m)" by force
  let ?K = "read_feature_kernel_single_page_single_thread_poll_rowctx arr fa ctxs"
  show ?case
  proof (cases e)
    case (Completes c q cid)
    let ?s = "s\<lparr>rg_dev := (rg_dev s)\<lparr>gd_dev := (device_complete c q cid ac, m)\<rparr>\<rparr>"
    have r1: "reg_reach pc arr ?s" by (rule reg_reach.step [OF Cons.prems(1)]) (rule reg_step.device [OF refl g])
    have ret1: "poll_launch ?K es (gd_dev (rg_dev ?s)) = Some d" using Cons.prems(2) by (simp add: Completes g)
    have th: "poll_threads (e # es) = poll_threads es" by (simp add: poll_threads_def Completes)
    from Cons.IH [OF r1 ret1] Cons.prems(3) show ?thesis by (simp add: th g)
  next
    case (Poll_Thread t)
    obtain d1 where d1: "?K t (ac, m) = Some d1" "poll_launch ?K es d1 = Some d"
      using Cons.prems(2) by (auto simp: Poll_Thread g split: option.splits)
    have th: "poll_threads (e # es) = t # poll_threads es" by (simp add: poll_threads_def Poll_Thread)
    let ?s = "s\<lparr>rg_dev := (rg_dev s)\<lparr>gd_dev := d1\<rparr>\<rparr>"
    have one: "reg_reach pc arr ?s \<and> (\<forall>q. cx_isHit (rx_ctx (m q)) \<longrightarrow> cx_isHit (rx_ctx (snd d1 q))) \<and> (\<forall>q. own_transfer (m q) \<longrightarrow> own_transfer (snd d1 q)) \<and>
        (t < word_of_int (fa_num_idx fa) \<longrightarrow> cx_isHit (rx_ctx (snd d1 (ctxs + uint t))))"
    proof (cases "t < word_of_int (fa_num_idx fa)")
      case True
      have w: "rg_rows s (ctxs + uint t) = Some ((fa_index fa (uint t) + fa_key_off fa) * of_nat (fa_cache_dim fa))"
        "cx_isHit (rx_ctx (m (ctxs + uint t))) \<or> cx_has_pending_io (rx_ctx (m (ctxs + uint t))) \<noteq> 0"
        using Cons.prems(3) True by (simp_all add: th g own_transfer_def)
      obtain P where inv: "reg_inv pc arr s P" using reach_inv [OF cfg Cons.prems(1)] by blast
      note W = wait_step [OF cfg inv g refl True w d1(1)]
      have "reg_reach pc arr ?s" by (rule reg_reach.step [OF Cons.prems(1)]) (rule reg_step.wait [OF refl g refl True w d1(1)])
      moreover have "cx_isHit (rx_ctx (snd d1 q)) \<or> snd d1 q = m q" for q using W(2,3) by (cases "q = ctxs + uint t") auto
      ultimately show ?thesis using W(2) unfolding own_transfer_def by metis
    next
      case False
      then have "d1 = (ac, m)" using d1(1) by (simp add: read_feature_kernel_single_page_single_thread_poll_rowctx_def)
      moreover have "s\<lparr>rg_dev := (rg_dev s)\<lparr>gd_dev := gd_dev (rg_dev s)\<rparr>\<rparr> = s" by simp
      ultimately have "?s = s" "d1 = (ac, m)" using g by simp_all
      then show ?thesis using Cons.prems(1) False by simp
    qed
    have ret1: "poll_launch ?K es (gd_dev (rg_dev ?s)) = Some d" using d1(2) by simp
    have t1: "\<forall>t \<in> set (poll_threads es). t < word_of_int (fa_num_idx fa) \<longrightarrow>
      rg_rows ?s (ctxs + uint t) = Some ((fa_index fa (uint t) + fa_key_off fa) * of_nat (fa_cache_dim fa)) \<and>
      own_transfer (snd (gd_dev (rg_dev ?s)) (ctxs + uint t))" using Cons.prems(3) one by (simp add: th g)
    from Cons.IH [OF conjunct1 [OF one] ret1 t1] one show ?thesis by (simp add: th g)
  qed
qed

lemma register_dev: "gd_dev (register_registered_ctx_lookup_kernel ctxs num t g) = gd_dev g"
  by (simp add: register_registered_ctx_lookup_kernel_def Let_def split_beta)

lemma register_launch_dev: "gd_dev (register_launch ctxs num ts g) = gd_dev g"
  unfolding register_launch_def by (induction ts arbitrary: g) (simp_all add: register_dev)

lemma register_launch_reach:
  assumes r: "reg_reach pc arr s" and ts: "\<forall>t \<in> set ts. t < word_of_int num \<longrightarrow> ctxs + uint t \<in> rg_pend s" and d: "distinct ts"
  shows "reg_reach pc arr (s\<lparr>rg_dev := register_launch ctxs num ts (rg_dev s), rg_pend := rg_pend s - (\<lambda>t. ctxs + uint t) ` {t \<in> set ts. t < word_of_int num}\<rparr>)"
  using r ts d
proof (induction ts arbitrary: s)
    case Nil
    then show ?case by (simp add: register_launch_def)
  next
    case (Cons t ts)
    let ?g = "register_registered_ctx_lookup_kernel ctxs num t (rg_dev s)"
    have l: "register_launch ctxs num (t # ts) (rg_dev s) = register_launch ctxs num ts ?g" by (simp add: register_launch_def)
    show ?case
    proof (cases "t < word_of_int num")
      case True
      let ?s = "s\<lparr>rg_dev := ?g, rg_pend := rg_pend s - {ctxs + uint t}\<rparr>"
      have "ctxs + uint t \<in> rg_pend s" using Cons.prems(2) True by simp
      then have r1: "reg_reach pc arr ?s" by (rule reg_reach.step [OF Cons.prems(1) reg_step.register [OF refl True]])
      have "\<forall>t' \<in> set ts. t' < word_of_int num \<longrightarrow> ctxs + uint t' \<in> rg_pend ?s"
        using Cons.prems(2,3) by (auto simp: word_uint_eq_iff [symmetric])
      from Cons.IH [OF r1 this] Cons.prems(3)
      have "reg_reach pc arr (?s\<lparr>rg_dev := register_launch ctxs num ts (rg_dev ?s), rg_pend := rg_pend ?s - (\<lambda>t. ctxs + uint t) ` {t \<in> set ts. t < word_of_int num}\<rparr>)" by simp
      moreover have "rg_pend s - {ctxs + uint t} - (\<lambda>t. ctxs + uint t) ` {t \<in> set ts. t < word_of_int num} =
          rg_pend s - (\<lambda>t. ctxs + uint t) ` {t' \<in> set (t # ts). t' < word_of_int num}" using True by auto
      ultimately show ?thesis unfolding l by simp
    next
      case False
      then have g: "?g = rg_dev s" by (simp add: register_registered_ctx_lookup_kernel_def)
      have "{t' \<in> set (t # ts). t' < word_of_int num} = {t' \<in> set ts. t' < word_of_int num}" using False by auto
      then show ?thesis unfolding l g using Cons.IH [OF Cons.prems(1)] Cons.prems(2,3) by simp
    qed
qed

text \<open>
  A submission without registration (\<open>read_feature_submit_async\<close>, which calls \<open>push_ctxs\<close>) puts its contexts into the queue
  alone: the request registered after it is paired with them, and is gone when they are popped.
\<close>

lemma mixed_requests_lost:
  assumes "register_outstanding c2 cnt2 ip num dim cdim key stride (push_ctxs c1 cnt1 iostack_new) = (io, r)"
  shows "snd (front_ctxs io) = Some c1 \<and> map_option om_ctxs (front_outstanding io) = Some c2 \<and>
    outstanding_queue (pop_ctxs io) = [] \<and> last_consumed_request_id (pop_ctxs io) = 0"
  using assms by (auto simp: register_outstanding_def push_ctxs_def iostack_new_def front_ctxs_def front_outstanding_def pop_ctxs_def Let_def)

end
