(* ===== verification/Gids_Pipeline.thy ===== *)
theory Gids_Pipeline
  imports Gids_Host
begin

text \<open>
  The host and the device together: submissions, polls and takings in any order, with the controller between them.
  The invariant ties the queue of requests to the machine of single threads (\<open>Gids_Requests\<close>); requests are served in the
  order of their submission, with the features of their rows.
\<close>

section \<open>The machine of the host\<close>

definition row_span :: "outstanding_meta_t \<Rightarrow> int set" where
  "row_span o' = {om_ctxs o' ..< om_ctxs o' + om_num_index o'}"

definition request_ok :: "'b page_cache \<Rightarrow> array_d_t \<Rightarrow> (u64 \<Rightarrow> int \<Rightarrow> u64) \<Rightarrow> outstanding_meta_t \<Rightarrow> bool" where
  "request_ok pc arr idx o' \<longleftrightarrow> 0 \<le> om_num_index o' \<and> om_num_index o' \<le> 2 ^ 31 \<and> om_ctx_stride o' = 1 \<and>
     (\<forall>i. 0 \<le> i \<and> i < om_num_index o' \<longrightarrow> row_fits pc arr (request_args idx o') (word_of_int i))"

definition rows_of_all :: "outstanding_meta_t list \<Rightarrow> nat" where
  "rows_of_all os = sum_list (map (\<lambda>o'. nat (om_num_index o')) os)"

text \<open>
  Calls in any order, and the controller between them.  The blocking poll is called when every row of the oldest request is
  a hit or has a transfer of its own: one that joined another row's transfer has no identifier to wait for.  \<open>subs\<close> has the requests as they were submitted, and \<open>n\<close> counts
  those whose features have been taken.  A submission gets new memory for its contexts, its rows lie on one page each,
  and it leaves a free identifier in every queue.
\<close>

inductive host_reach ::
  "(nat \<Rightarrow> 't) page_cache \<Rightarrow> array_d_t \<Rightarrow> (u64 \<Rightarrow> int \<Rightarrow> u64) \<Rightarrow> outstanding_meta_t list \<Rightarrow> nat \<Rightarrow> 't host \<Rightarrow> bool" for pc arr idx
where
  start: "\<lbrakk>ho_io h = iostack_new; gd_dev (ho_dev h) = (\<lparr>ac_pc = pc, ac_sub = \<lambda>_. None, ac_done = \<lambda>_. []\<rparr>, m); gd_ctx_lookup (ho_dev h) = Map.empty;
      ho_queues h = 0; ho_capacity h = 0\<rbrakk> \<Longrightarrow> host_reach pc arr idx [] 0 h"
| submit: "\<lbrakk>host_reach pc arr idx subs n h;
      read_feature_submit_async_registered_rowctx arr idx ip num dim cdim key ctxs ws rows h = Some (h', request_id);
      o' = last (outstanding_queue (ho_io h')); request_ok pc arr idx o'; threads_of num (map fst ws); threads_of num rows;
      \<forall>q \<in> set (outstanding_queue (ho_io h)). row_span q \<inter> row_span o' = {};
      rows_of_all (outstanding_queue (ho_io h)) + nat num < 2 ^ 29;
      \<forall>k d. submit_launch arr (request_args idx o') ctxs (take k (filter (\<lambda>(w, smid). idx_idx w < num) ws))
        (fst (gd_dev (ho_dev h)), clear_ctxs ctxs num (snd (gd_dev (ho_dev h)))) = Some d \<longrightarrow> cids_free (pc_cids (ac_pc (fst d)))\<rbrakk> \<Longrightarrow>
    host_reach pc arr idx (subs @ [o']) n h'"
| poll: "\<lbrakk>host_reach pc arr idx subs n h; service_registered_try_poll arr rounds ts h = Inr (h', request_id); \<forall>lqs \<in> set rounds. distinct lqs;
      \<forall>o'. front_outstanding (ho_io h) = Some o' \<longrightarrow> threads_of (om_num_index o') ts\<rbrakk> \<Longrightarrow>
    host_reach pc arr idx subs n h'"
| window: "\<lbrakk>host_reach pc arr idx subs n h; service_registered_try_poll_window_skip_front arr size' rounds tss h = Inr (h', request_id);
      \<forall>lqs \<in> set rounds. distinct lqs; \<forall>i o'. outstanding_at (of_nat i + 1) (ho_io h) = Some o' \<longrightarrow> threads_of (om_num_index o') (tss i)\<rbrakk> \<Longrightarrow>
    host_reach pc arr idx subs n h'"
| compat: "\<lbrakk>host_reach pc arr idx subs n h; service_registered_poll_compatible arr idx es h = Some (Inr (h', request_id));
      \<forall>o'. front_outstanding (ho_io h) = Some o' \<and> om_state o' \<noteq> READY \<longrightarrow> threads_of (om_num_index o') (poll_threads es) \<and>
        (\<forall>p \<in> row_span o'. own_transfer (snd (gd_dev (ho_dev h)) p))\<rbrakk> \<Longrightarrow>
    host_reach pc arr idx subs n h'"
| get: "\<lbrakk>host_reach pc arr idx subs n h; read_feature_get_feature_light_registered_rowctx arr idx ws h out = Inr (h', out', request_id);
      front_outstanding (ho_io h) = Some o'; threads_of (om_num_index o') ws\<rbrakk> \<Longrightarrow>
    host_reach pc arr idx subs (n + 1) h'"
| device: "\<lbrakk>host_reach pc arr idx subs n h; gd_dev (ho_dev h) = (ac, m)\<rbrakk> \<Longrightarrow>
    host_reach pc arr idx subs n (h\<lparr>ho_dev := (ho_dev h)\<lparr>gd_dev := (device_complete c q cid ac, m)\<rparr>\<rparr>)"

text \<open>The invariant, with the state \<open>s\<close> of the machine of single threads that goes with that of the host.\<close>

definition request_held :: "'b page_cache \<Rightarrow> array_d_t \<Rightarrow> (u64 \<Rightarrow> int \<Rightarrow> u64) \<Rightarrow> 't reg_state \<Rightarrow> outstanding_meta_t \<Rightarrow> bool" where
  "request_held pc arr idx s o' \<longleftrightarrow> request_ok pc arr idx o' \<and> om_state o' \<noteq> CONSUMED \<and>
     (\<forall>i. 0 \<le> i \<and> i < om_num_index o' \<longrightarrow> rg_rows s (om_ctxs o' + i) = Some (feature_index (request_args idx o') (word_of_int i) 0)) \<and>
     (om_state o' = READY \<longrightarrow> (\<forall>p \<in> row_span o'. cx_isHit (rx_ctx (snd (gd_dev (rg_dev s)) p))))"

definition stack_inv :: "outstanding_meta_t list \<Rightarrow> nat \<Rightarrow> iostack_t \<Rightarrow> bool" where
  "stack_inv subs n io \<longleftrightarrow> n \<le> length subs \<and> map (om_state_update (\<lambda>_. SUBMITTED)) (outstanding_queue io) = drop n subs \<and>
     d_warp_ctxs_queue io = map om_ctxs (outstanding_queue io) \<and> next_request_id io = of_nat (length subs) + 1 \<and> last_consumed_request_id io = of_nat n \<and>
     (\<forall>k < length subs. om_request_id (subs ! k) = of_nat k + 1) \<and>
     (\<forall>i < length (outstanding_queue io). \<forall>j < length (outstanding_queue io). i \<noteq> j \<longrightarrow> row_span (outstanding_queue io ! i) \<inter> row_span (outstanding_queue io ! j) = {})"

definition host_inv :: "(nat \<Rightarrow> 't) page_cache \<Rightarrow> array_d_t \<Rightarrow> (u64 \<Rightarrow> int \<Rightarrow> u64) \<Rightarrow> outstanding_meta_t list \<Rightarrow> nat \<Rightarrow> 't host \<Rightarrow> 't reg_state \<Rightarrow> bool" where
  "host_inv pc arr idx subs n h s \<longleftrightarrow> reg_reach pc arr s \<and> rg_dev s = ho_dev h \<and> rg_pend s = {} \<and> stack_inv subs n (ho_io h) \<and>
     dom (rg_rows s) = (\<Union>o' \<in> set (outstanding_queue (ho_io h)). row_span o') \<and>
     (\<forall>o' \<in> set (outstanding_queue (ho_io h)). request_held pc arr idx s o') \<and>
     (ho_queues h = 0 \<or> ho_queues h = pc_n_qps pc 0) \<and>
     (ho_capacity h = 0 \<and> gd_ctx_lookup (ho_dev h) = Map.empty \<and> subs = [] \<or> ho_capacity h = ucast (pc_n_qps pc 0) * ucast kRegisteredCidCapacity)"

lemma host_invD:
  assumes "host_inv pc arr idx subs n h s"
  shows "reg_reach pc arr s" "rg_dev s = ho_dev h" "rg_pend s = {}" "stack_inv subs n (ho_io h)" "dom (rg_rows s) = (\<Union>o' \<in> set (outstanding_queue (ho_io h)). row_span o')"
    "o' \<in> set (outstanding_queue (ho_io h)) \<Longrightarrow> request_held pc arr idx s o'" "ho_queues h = 0 \<or> ho_queues h = pc_n_qps pc 0"
    "ho_capacity h = 0 \<and> gd_ctx_lookup (ho_dev h) = Map.empty \<and> subs = [] \<or> ho_capacity h = ucast (pc_n_qps pc 0) * ucast kRegisteredCidCapacity"
  using assms unfolding host_inv_def by blast+

text \<open>The device may move on while the requests stay.\<close>

lemma host_inv_dev:
  assumes inv: "host_inv pc arr idx subs n h s" and r: "reg_reach pc arr s'" and k: "rg_rows s' = rg_rows s" "rg_pend s' = {}"
    and hits: "hits_kept (rg_dev s) (rg_dev s')" and q: "q = 0 \<or> q = pc_n_qps pc 0"
    and t: "ho_capacity h = 0 \<Longrightarrow> gd_ctx_lookup (rg_dev s') = gd_ctx_lookup (rg_dev s)"
  shows "host_inv pc arr idx subs n (h\<lparr>ho_dev := rg_dev s', ho_queues := q\<rparr>) s'"
proof -
  note H = host_invD [OF inv]
  have "request_held pc arr idx s' o'" if "o' \<in> set (outstanding_queue (ho_io h))" for o'
    using H(6) [OF that] hits by (auto simp: request_held_def k(1) hits_kept_def)
  then show ?thesis using H(1-5,7,8) r k q t unfolding host_inv_def by auto
qed

lemma host_inv_dev':
  assumes inv: "host_inv pc arr idx subs n h s" and r: "reg_reach pc arr (s\<lparr>rg_dev := g\<rparr>)"
    and hits: "hits_kept (ho_dev h) g" and t: "gd_ctx_lookup g = gd_ctx_lookup (ho_dev h)"
  shows "host_inv pc arr idx subs n (h\<lparr>ho_dev := g\<rparr>) (s\<lparr>rg_dev := g\<rparr>)"
  using host_inv_dev [OF inv r, of "ho_queues h"] host_invD(2,3,7) [OF inv] hits t by simp

lemma host_device:
  assumes inv: "host_inv pc arr idx subs n h s" and g: "gd_dev (ho_dev h) = (ac, m)"
  shows "host_inv pc arr idx subs n (h\<lparr>ho_dev := (ho_dev h)\<lparr>gd_dev := (device_complete c q cid ac, m)\<rparr>\<rparr>)
    (s\<lparr>rg_dev := (ho_dev h)\<lparr>gd_dev := (device_complete c q cid ac, m)\<rparr>\<rparr>)"
proof (rule host_inv_dev' [OF inv])
  note H = host_invD [OF inv]
  show "reg_reach pc arr (s\<lparr>rg_dev := (ho_dev h)\<lparr>gd_dev := (device_complete c q cid ac, m)\<rparr>\<rparr>)"
    by (rule reg_reach.step [OF H(1)]) (rule reg_step.device [OF H(2) g])
qed (simp_all add: hits_kept_def g)

lemma host_ready:
  assumes inv: "host_inv pc arr idx subs n h s" and k: "k < length (outstanding_queue (ho_io h))"
    and hits: "\<forall>p \<in> row_span (outstanding_queue (ho_io h) ! k). cx_isHit (rx_ctx (snd (gd_dev (ho_dev h)) p))"
  shows "host_inv pc arr idx subs n
    (h\<lparr>ho_io := (ho_io h)\<lparr>outstanding_queue := (outstanding_queue (ho_io h))[k := (outstanding_queue (ho_io h) ! k)\<lparr>om_state := READY\<rparr>]\<rparr>\<rparr>) s"
proof -
  note H = host_invD [OF inv]
  define os where "os = outstanding_queue (ho_io h)"
  let ?x = "(os ! k)\<lparr>om_state := READY\<rparr>"
  have k: "k < length os" using k by (simp add: os_def)
  have span: "row_span (o'\<lparr>om_state := y\<rparr>) = row_span o'" for o' y by (simp add: row_span_def)
  have nth: "row_span (os[k := ?x] ! i) = row_span (os ! i)" if "i < length os" for i using that k by (cases "i = k") (simp_all add: span)
  have map_eq: "map f (os[k := ?x]) = map f os" if "\<And>o' y. f (o'\<lparr>om_state := y\<rparr>) = f o'" for f :: "outstanding_meta_t \<Rightarrow> 'z"
    using k that by (simp add: map_update list_update_same_conv)
  have "map (om_state_update (\<lambda>_. SUBMITTED)) (os[k := ?x]) = map (om_state_update (\<lambda>_. SUBMITTED)) os" "map om_ctxs (os[k := ?x]) = map om_ctxs os"
    "map row_span (os[k := ?x]) = map row_span os" by (simp_all add: map_eq span)
  then have m: "map (om_state_update (\<lambda>_. SUBMITTED)) (os[k := ?x]) = map (om_state_update (\<lambda>_. SUBMITTED)) os" "map om_ctxs (os[k := ?x]) = map om_ctxs os"
    "(\<Union>o' \<in> set (os[k := ?x]). row_span o') = (\<Union>o' \<in> set os. row_span o')" by simp_all (metis set_map)
  have st: "stack_inv subs n ((ho_io h)\<lparr>outstanding_queue := os[k := ?x]\<rparr>)"
    using H(4) m(1,2) nth unfolding stack_inv_def os_def [symmetric] by simp
  have "request_held pc arr idx s ?x"
    using H(6) [of "os ! k"] hits k nth_mem [OF k] H(2) by (simp add: request_held_def request_ok_def request_args_def span os_def [symmetric])
  then have "request_held pc arr idx s o'" if "o' \<in> set (os[k := ?x])" for o'
    using set_update_subset_insert [of os k ?x] that H(6) [of o'] by (auto simp: os_def [symmetric])
  then show ?thesis using H(1-3,5,7,8) st m(3) unfolding host_inv_def os_def [symmetric] by simp
qed

section \<open>Calls keep the invariant\<close>

lemma burst_reach:
  assumes cfg: "reg_cfg pc arr" and r: "reg_reach pc arr s" and pend: "rg_pend s = {}" and d: "\<forall>lqs \<in> set rounds. distinct lqs"
  shows "reg_reach pc arr (s\<lparr>rg_dev := service_burst arr (pc_n_qps pc 0) rounds (rg_dev s)\<rparr>)"
  using r pend d
proof (induction rounds arbitrary: s)
  case (Cons lqs rounds)
  obtain P where inv: "reg_inv pc arr s P" using reach_inv [OF cfg Cons.prems(1)] by blast
  have dl: "distinct lqs" using Cons.prems(3) by simp
  have "reg_reach pc arr (s\<lparr>rg_dev := service_launch arr (pc_n_qps pc 0) lqs (rg_dev s)\<rparr>)"
    using service_launch_reach [OF cfg Cons.prems(1) inv Cons.prems(2) dl] by blast
  from Cons.IH [OF this] Cons.prems(2,3) show ?case by simp
qed simp

lemma queues_counted_eq:
  assumes cfg: "reg_cfg pc arr" and inv: "host_inv pc arr idx subs n h s"
  shows "queues_counted h = pc_n_qps pc 0"
proof -
  note H = host_invD [OF inv]
  obtain P where i: "reg_inv pc arr s P" using reach_inv [OF cfg H(1)] by blast
  obtain ac m where g: "gd_dev (rg_dev s) = (ac, m)" by force
  have "cfg_eq (ac_pc ac) pc" using rows_invD(1) [OF reg_invD(1) [OF i g]] .
  then have "pc_n_ctrls (ac_pc ac) = 1" "pc_n_qps (ac_pc ac) = pc_n_qps pc" using reg_cfgD(6) [OF cfg] by (simp_all add: cfg_eq_def)
  moreover have "ho_dev h = rg_dev s" using H(2) by simp
  ultimately show ?thesis using H(7) g by (auto simp: queues_counted_def Let_def queues_before_def)
qed

lemma host_burst:
  assumes cfg: "reg_cfg pc arr" and inv: "host_inv pc arr idx subs n h s" and d: "\<forall>lqs \<in> set rounds. distinct lqs"
  shows "\<exists>s'. host_inv pc arr idx subs n (service_registered_completions_burst arr rounds h) s'" "ho_io (service_registered_completions_burst arr rounds h) = ho_io h"
proof -
  note H = host_invD [OF inv]
  let ?nq = "pc_n_qps pc 0"
  note q = queues_counted_eq [OF cfg inv]
  have u: "host_inv pc arr idx subs n (h\<lparr>ho_queues := ?nq\<rparr>) s"
    using host_inv_dev [OF inv H(1) refl H(3), of ?nq] H(2) by (simp add: hits_kept_def)
  let ?B = "service_registered_completions_burst arr rounds h"
  show "\<exists>s'. host_inv pc arr idx subs n ?B s'"
  proof (cases "outstanding_count (ho_io h) = 0 \<or> ?nq = 0 \<or> ho_capacity h = 0")
    case True
    then have "?B = h \<or> ?B = h\<lparr>ho_queues := ?nq\<rparr>" unfolding service_registered_completions_burst_def Let_def q by auto
    then show ?thesis using u inv by metis
  next
    case False
    then have "?B = h\<lparr>ho_dev := service_burst arr ?nq rounds (ho_dev h), ho_queues := ?nq\<rparr>"
      unfolding service_registered_completions_burst_def Let_def q by simp
    moreover have "host_inv pc arr idx subs n (h\<lparr>ho_dev := service_burst arr ?nq rounds (ho_dev h), ho_queues := ?nq\<rparr>) (s\<lparr>rg_dev := service_burst arr ?nq rounds (rg_dev s)\<rparr>)"
      using host_inv_dev [OF inv burst_reach [OF cfg H(1,3) d], of ?nq] H(2,3) False service_burst_hits [of "rg_dev s" arr ?nq rounds] by simp
    ultimately show ?thesis by metis
  qed
  show "ho_io (service_registered_completions_burst arr rounds h) = ho_io h" by (simp add: service_registered_completions_burst_def Let_def)
qed

lemma live_threads:
  assumes "threads_of num ts"
  shows "\<forall>t \<in> set (filter (\<lambda>t. t < word_of_int num) (ts :: u32 list)). t < word_of_int num \<and> uint t < num"
    "length (filter (\<lambda>t. t < word_of_int num) ts) < 2 ^ 32" "0 \<le> i \<and> i < num \<Longrightarrow> \<exists>t \<in> set (filter (\<lambda>t. t < word_of_int num) ts). uint t = i"
proof -
  note G = grid_threads [OF assms]
  show "\<forall>t \<in> set (filter (\<lambda>t. t < word_of_int num) ts). t < word_of_int num \<and> uint t < num" using G(1) by auto
  show "\<exists>t \<in> set (filter (\<lambda>t. t < word_of_int num) ts). uint t = i" if "0 \<le> i \<and> i < num" using G(2) [OF that] G(1) that by auto
  obtain N where N: "N \<le> 2 ^ 31" "distinct ts" "set ts = of_nat ` {..<N}" using assms unfolding threads_of_def by blast
  have "length ts \<le> N" using distinct_card [OF N(2)] card_image_le [of "{..<N}" "of_nat :: nat \<Rightarrow> u32"] by (simp add: N(3))
  then have "length (filter (\<lambda>t. t < word_of_int num) ts) \<le> 2 ^ 31" using N(1) length_filter_le [of "\<lambda>t. t < word_of_int num" ts] by linarith
  then show "length (filter (\<lambda>t. t < word_of_int num) ts) < 2 ^ 32" by simp
qed

lemma host_check:
  assumes cfg: "reg_cfg pc arr" and inv: "host_inv pc arr idx subs n h s" and o': "outstanding_at offset (ho_io h) = Some o'" and ts: "threads_of (om_num_index o') ts"
    and ret: "registered_request_ready_at arr ts offset h = (h', b)"
  shows "ho_io h' = ho_io h \<and> (\<exists>s'. host_inv pc arr idx subs n h' s') \<and> (b \<longrightarrow> (\<forall>p \<in> row_span o'. cx_isHit (rx_ctx (snd (gd_dev (ho_dev h')) p))))"
proof -
  note H = host_invD [OF inv]
  define os where "os = outstanding_queue (ho_io h)"
  have k: "unat offset < length os" "o' = os ! unat offset" using o' by (auto simp: outstanding_at_def os_def split: if_splits)
  have mem: "o' \<in> set os" using k by simp
  note R = H(6) [OF mem [unfolded os_def]]
  show ?thesis
  proof (cases "om_state o' = READY")
    case True
    then have "h' = h" using ret o' by (simp add: registered_request_ready_at_def)
    then show ?thesis using inv True R H(2) by (auto simp: request_held_def)
  next
    case False
    have "d_warp_ctxs_queue (ho_io h) = map om_ctxs os" using H(4) by (simp add: stack_inv_def os_def)
    then have c: "ctxs_at offset (ho_io h) = Some (om_ctxs o')" using k by (simp add: ctxs_at_def)
    have st: "uint (om_ctx_stride o') = 1" using R by (simp add: request_held_def request_ok_def)
    define live where "live = filter (\<lambda>t. t < (word_of_int (om_num_index o') :: u32)) ts"
    obtain d p where e0: "check_launch arr (om_ctxs o') (om_num_index o') 1 ts (gd_dev (ho_dev h)) = (d, p)" by (rule prod.exhaust)
    then have e: "check_launch arr (om_ctxs o') (om_num_index o') 1 live (gd_dev (ho_dev h)) = (d, p)"
      unfolding live_def by (subst check_launch_live [symmetric])
    have h': "h' = h\<lparr>ho_dev := (ho_dev h)\<lparr>gd_dev := d\<rparr>\<rparr>" "b = (p = 0)"
      using ret o' False c st e0 by (simp_all add: registered_request_ready_at_def)
    note L = live_threads [OF ts, folded live_def]
    obtain P where i: "reg_inv pc arr s P" using reach_inv [OF cfg H(1)] by blast
    have dom: "\<forall>t \<in> set live. t < word_of_int (om_num_index o') \<and> om_ctxs o' + uint t * 1 \<in> dom (rg_rows s)"
      using L(1) mem unfolding H(5) os_def [symmetric] by (fastforce simp: row_span_def)
    from check_launch_reach [OF cfg H(1) i dom, of 0] obtain j where
      C: "p = of_nat j" "j \<le> length live" "reg_reach pc arr (s\<lparr>rg_dev := (rg_dev s)\<lparr>gd_dev := d\<rparr>\<rparr>)"
        "\<forall>q. cx_isHit (rx_ctx (snd (gd_dev (rg_dev s)) q)) \<longrightarrow> cx_isHit (rx_ctx (snd d q))"
        "j = 0 \<longrightarrow> (\<forall>t \<in> set live. cx_isHit (rx_ctx (snd d (om_ctxs o' + uint t * 1))))"
      using e H(2) unfolding check_launch_def by auto
    have "host_inv pc arr idx subs n h' (s\<lparr>rg_dev := (ho_dev h)\<lparr>gd_dev := d\<rparr>\<rparr>)" unfolding h'
      by (rule host_inv_dev' [OF inv]) (use C(3,4) H(2) in \<open>simp_all add: hits_kept_def\<close>)
    moreover have "cx_isHit (rx_ctx (snd d x))" if b: "b" and x: "x \<in> row_span o'" for x
    proof -
      have "j < 2 ^ 32" using C(2) L(2) by simp
      then have "unat (of_nat j :: u32) = j" by (simp add: unat_of_nat)
      then have "j = 0" using b h'(2) C(1) by simp
      moreover obtain t where "t \<in> set live" "x = om_ctxs o' + uint t" using L(3) [of "x - om_ctxs o'"] x by (auto simp: row_span_def)
      ultimately show ?thesis using C(5) by auto
    qed
    ultimately show ?thesis unfolding h' by auto
  qed
qed

lemma front_at: "front_outstanding io = outstanding_at 0 io"
  by (cases "outstanding_queue io") (simp_all add: front_outstanding_def outstanding_at_def)

lemma front_ready_at: "mark_front_ready r io = mark_ready_at 0 r io"
  by (cases "outstanding_queue io") (simp_all add: mark_front_ready_def mark_ready_at_def)

lemma host_mark:
  assumes inv: "host_inv pc arr idx subs n h s" and o': "outstanding_at offset (ho_io h) = Some o'"
    and hits: "\<forall>p \<in> row_span o'. cx_isHit (rx_ctx (snd (gd_dev (ho_dev h)) p))"
  shows "\<exists>io. mark_ready_at offset (om_request_id o') (ho_io h) = (io, True) \<and> host_inv pc arr idx subs n (h\<lparr>ho_io := io\<rparr>) s"
proof -
  have k: "unat offset < length (outstanding_queue (ho_io h))" "o' = outstanding_queue (ho_io h) ! unat offset"
    using o' by (auto simp: outstanding_at_def split: if_splits)
  show ?thesis using host_ready [OF inv k(1)] hits k by (simp add: mark_ready_at_def Let_def)
qed

lemma host_poll:
  assumes cfg: "reg_cfg pc arr" and inv: "host_inv pc arr idx subs n h s" and d: "\<forall>lqs \<in> set rounds. distinct lqs"
    and ts: "\<forall>o'. front_outstanding (ho_io h) = Some o' \<longrightarrow> threads_of (om_num_index o') ts"
  shows "\<exists>h' r s'. service_registered_try_poll arr rounds ts h = Inr (h', r) \<and> host_inv pc arr idx subs n h' s'"
proof (cases "front_outstanding (ho_io h)")
  case None
  then show ?thesis using inv by (auto simp: service_registered_try_poll_def)
next
  case (Some o')
  define h1 where "h1 = service_registered_completions_burst arr rounds h"
  obtain s1 where 1: "host_inv pc arr idx subs n h1 s1" "ho_io h1 = ho_io h" using host_burst [OF cfg inv d] by (auto simp: h1_def)
  obtain h2 b where e: "registered_request_ready_at arr ts 0 h1 = (h2, b)" by force
  have at: "outstanding_at 0 (ho_io h1) = Some o'" using Some 1(2) by (simp add: front_at)
  have t: "threads_of (om_num_index o') ts" using ts Some by simp
  obtain s2 where 2: "ho_io h2 = ho_io h1" "host_inv pc arr idx subs n h2 s2" "b \<longrightarrow> (\<forall>p \<in> row_span o'. cx_isHit (rx_ctx (snd (gd_dev (ho_dev h2)) p)))"
    using host_check [OF cfg 1(1) at t e] by blast
  have m: "\<exists>io. mark_front_ready (om_request_id o') (ho_io h2) = (io, True) \<and> host_inv pc arr idx subs n (h2\<lparr>ho_io := io\<rparr>) s2" if b
    using host_mark [OF 2(2)] at 2(1,3) that by (simp add: front_ready_at)
  show ?thesis using Some inv e m 2(2) by (cases "om_state o' = READY"; cases b) (auto simp: service_registered_try_poll_def h1_def [symmetric] Let_def)
qed

lemma host_try_window:
  assumes cfg: "reg_cfg pc arr" and inv: "host_inv pc arr idx subs n h s"
    and ts: "\<forall>i o'. outstanding_at (of_nat i + 1) (ho_io h) = Some o' \<longrightarrow> threads_of (om_num_index o') (tss i)"
  shows "\<exists>h' s'. try_window arr tss is h = Inr h' \<and> host_inv pc arr idx subs n h' s'"
  using inv ts
proof (induction "is" arbitrary: h s)
  case (Cons i "is")
  let ?off = "of_nat i + 1 :: u64"
  show ?case
  proof (cases "outstanding_at ?off (ho_io h)")
    case None
    then show ?thesis using Cons.prems(1) by auto
  next
    case (Some o')
    obtain h1 b where e: "registered_request_ready_at arr (tss i) ?off h = (h1, b)" by force
    have t: "threads_of (om_num_index o') (tss i)" using Cons.prems(2) Some by blast
    obtain s1 where 1: "ho_io h1 = ho_io h" "host_inv pc arr idx subs n h1 s1" "b \<longrightarrow> (\<forall>p \<in> row_span o'. cx_isHit (rx_ctx (snd (gd_dev (ho_dev h1)) p)))"
      using host_check [OF cfg Cons.prems(1) Some t e] by blast
    have ts1: "\<forall>i o'. outstanding_at (of_nat i + 1) (ho_io h1) = Some o' \<longrightarrow> threads_of (om_num_index o') (tss i)" using Cons.prems(2) 1(1) by simp
    show ?thesis
    proof (cases "om_state o' = SUBMITTED \<and> b")
      case True
      obtain io where m: "mark_ready_at ?off (om_request_id o') (ho_io h1) = (io, True)" "host_inv pc arr idx subs n (h1\<lparr>ho_io := io\<rparr>) s1"
        using host_mark [OF 1(2)] Some 1(1,3) True by metis
      have "threads_of (om_num_index o2) (tss j)" if a: "outstanding_at (of_nat j + 1) io = Some o2" for j o2
      proof -
        have io: "io = (ho_io h1)\<lparr>outstanding_queue := (outstanding_queue (ho_io h1))[unat ?off := (outstanding_queue (ho_io h1) ! unat ?off)\<lparr>om_state := READY\<rparr>]\<rparr>"
          using m(1) by (simp add: mark_ready_at_def Let_def split: if_splits)
        let ?os = "outstanding_queue (ho_io h1)" and ?j = "unat (of_nat j + 1 :: u64)"
        have j: "?j < length ?os" using a unfolding io by (simp add: outstanding_at_def split: if_splits)
        then have "om_num_index o2 = om_num_index (?os ! ?j)"
          using a unfolding io by (cases "?j = unat ?off") (auto simp: outstanding_at_def)
        moreover have "outstanding_at (of_nat j + 1) (ho_io h1) = Some (?os ! ?j)" using j by (simp add: outstanding_at_def)
        ultimately show ?thesis using ts1 by metis
      qed
      then have "\<forall>i o'. outstanding_at (of_nat i + 1) (ho_io (h1\<lparr>ho_io := io\<rparr>)) = Some o' \<longrightarrow> threads_of (om_num_index o') (tss i)" by simp
      from Cons.IH [OF m(2) this] show ?thesis using Some True e m(1) by (simp add: Let_def)
    next
      case False
      then show ?thesis using Cons.IH [OF Cons.prems] Cons.IH [OF 1(2) ts1] Some e by (cases "om_state o' = SUBMITTED") (auto simp: Let_def)
    qed
  qed
qed auto

lemma host_window:
  assumes cfg: "reg_cfg pc arr" and inv: "host_inv pc arr idx subs n h s" and d: "\<forall>lqs \<in> set rounds. distinct lqs"
    and ts: "\<forall>i o'. outstanding_at (of_nat i + 1) (ho_io h) = Some o' \<longrightarrow> threads_of (om_num_index o') (tss i)"
  shows "\<exists>h' r s'. service_registered_try_poll_window_skip_front arr size' rounds tss h = Inr (h', r) \<and> host_inv pc arr idx subs n h' s'"
proof -
  define h1 where "h1 = service_registered_completions_burst arr rounds h"
  obtain s1 where 1: "host_inv pc arr idx subs n h1 s1" "ho_io h1 = ho_io h" using host_burst [OF cfg inv d] by (auto simp: h1_def)
  have "\<exists>h' s'. try_window arr tss is h1 = Inr h' \<and> host_inv pc arr idx subs n h' s'" for "is"
    by (rule host_try_window [OF cfg 1(1)]) (use ts 1(2) in simp)
  then obtain h2 s2 where "try_window arr tss [0..<unat (min (max 1 size') (outstanding_count (ho_io h) - 1))] h1 = Inr h2" "host_inv pc arr idx subs n h2 s2" by blast
  then show ?thesis using inv unfolding service_registered_try_poll_window_skip_front_def Let_def h1_def [symmetric]
    by (cases "outstanding_count (ho_io h) \<le> 1") auto
qed

lemma index_row:
  assumes "0 \<le> i" and "i < om_num_index o'" and "om_num_index o' \<le> 2 ^ 31"
  shows "feature_index (request_args idx o') (word_of_int i) 0 =
    (fa_index (request_args idx o') i + fa_key_off (request_args idx o')) * of_nat (fa_cache_dim (request_args idx o'))"
proof -
  obtain k where k: "i = int k" using assms(1) by (metis nonneg_int_cases)
  then have "k < 2 ^ 31" using assms(2,3) by simp
  then have "idx_idx (word_of_int i) = i" using idx_of_nat [of k] k by simp
  then show ?thesis by (simp add: feature_index_def row_index_def)
qed

text \<open>The blocking poll: no error, and when it returns the request is ready.\<close>

lemma front_known:
  assumes inv: "host_inv pc arr idx subs n h s" and o': "front_outstanding (ho_io h) = Some o'"
  shows "front_ctxs (ho_io h) = ((ho_io h)\<lparr>d_warp_ctxs := Some (om_ctxs o')\<rparr>, Some (om_ctxs o'))"
    "outstanding_queue (ho_io h) \<noteq> []" "outstanding_queue (ho_io h) ! 0 = o'" "request_held pc arr idx s o'"
proof -
  note H = host_invD [OF inv]
  obtain os where os: "outstanding_queue (ho_io h) = o' # os" using o' by (auto simp: front_outstanding_def split: list.splits)
  then have "d_warp_ctxs_queue (ho_io h) = om_ctxs o' # map om_ctxs os" using H(4) by (simp add: stack_inv_def)
  then show "front_ctxs (ho_io h) = ((ho_io h)\<lparr>d_warp_ctxs := Some (om_ctxs o')\<rparr>, Some (om_ctxs o'))" by (simp add: front_ctxs_def)
  show "outstanding_queue (ho_io h) \<noteq> []" "outstanding_queue (ho_io h) ! 0 = o'" "request_held pc arr idx s o'" using os H(6) by simp_all
qed

lemma host_blocking_errors:
  assumes inv: "host_inv pc arr idx subs n h s"
  shows "service_registered_poll_compatible arr idx es h \<noteq> Some (Inl e)" "service_registered_poll arr idx es h \<noteq> Some (Inl e)"
proof -
  have m: "\<exists>io'. mark_front_ready (om_request_id o') ((ho_io h)\<lparr>d_warp_ctxs := x\<rparr>) = (io', True)" if "front_outstanding (ho_io h) = Some o'" for o' x
    using that by (auto simp: front_outstanding_def mark_front_ready_def split: list.splits)
  have p: "service_registered_poll arr idx es h \<noteq> Some (Inl e)" for e
  proof (cases "front_outstanding (ho_io h)")
    case (Some o')
    then show ?thesis using front_known(1) [OF inv Some] m [OF Some, of "Some (om_ctxs o')"]
      by (auto simp: service_registered_poll_def read_feature_single_page_single_thread_poll_registered_def split: option.splits)
  qed (simp add: service_registered_poll_def)
  then show "service_registered_poll arr idx es h \<noteq> Some (Inl e)" .
  show "service_registered_poll_compatible arr idx es h \<noteq> Some (Inl e)"
  proof (cases "front_outstanding (ho_io h)")
    case (Some o')
    then show ?thesis using front_known(1) [OF inv Some] m [OF Some, of "Some (om_ctxs o')"] p
      by (auto simp: service_registered_poll_compatible_def split: option.splits)
  qed (simp add: service_registered_poll_compatible_def)
qed

lemma host_compat:
  assumes cfg: "reg_cfg pc arr" and inv: "host_inv pc arr idx subs n h s"
    and ret: "service_registered_poll_compatible arr idx es h = Some (Inr (h', r))"
    and own: "\<forall>o'. front_outstanding (ho_io h) = Some o' \<and> om_state o' \<noteq> READY \<longrightarrow> threads_of (om_num_index o') (poll_threads es) \<and>
      (\<forall>p \<in> row_span o'. own_transfer (snd (gd_dev (ho_dev h)) p))"
  shows "\<exists>s'. host_inv pc arr idx subs n h' s'"
proof (cases "\<exists>o'. front_outstanding (ho_io h) = Some o' \<and> om_state o' \<noteq> READY")
  case False
  then have "h' = h" using ret by (cases "front_outstanding (ho_io h)") (auto simp: service_registered_poll_compatible_def)
  then show ?thesis using inv by blast
next
  case True
  then obtain o' where o': "front_outstanding (ho_io h) = Some o'" "om_state o' \<noteq> READY" by blast
  note H = host_invD [OF inv] and F = front_known [OF inv o'(1)]
  let ?fa = "request_args idx o'" and ?ctxs = "om_ctxs o'" and ?num = "om_num_index o'" and ?io = "(ho_io h)\<lparr>d_warp_ctxs := Some (om_ctxs o')\<rparr>"
  have rk: "request_ok pc arr idx o'" "\<And>i. 0 \<le> i \<Longrightarrow> i < ?num \<Longrightarrow> rg_rows s (?ctxs + i) = Some (feature_index ?fa (word_of_int i) 0)"
    using F(4) by (simp_all add: request_held_def)
  have st: "om_ctx_stride o' = 1" "?num \<le> 2 ^ 31" using rk(1) by (simp_all add: request_ok_def)
  have ts: "threads_of ?num (poll_threads es)" and ow: "\<forall>p \<in> row_span o'. own_transfer (snd (gd_dev (ho_dev h)) p)" using own o' by blast+
  obtain d where d: "poll_launch (read_feature_kernel_single_page_single_thread_poll_rowctx arr ?fa ?ctxs) es (gd_dev (ho_dev h)) = Some d"
    and h': "mark_front_ready (om_request_id o') ?io = (ho_io h', True)" "h' = h\<lparr>ho_io := ho_io h', ho_dev := (ho_dev h)\<lparr>gd_dev := d\<rparr>\<rparr>"
    using ret o' st(1) F(1) by (auto simp: service_registered_poll_compatible_def split: option.splits if_splits prod.splits)
  have fan: "fa_num_idx ?fa = ?num" by (simp add: request_args_def)
  note L = live_threads [OF ts]
  have t: "\<forall>t \<in> set (poll_threads es). t < word_of_int (fa_num_idx ?fa) \<longrightarrow>
      rg_rows s (?ctxs + uint t) = Some ((fa_index ?fa (uint t) + fa_key_off ?fa) * of_nat (fa_cache_dim ?fa)) \<and>
      own_transfer (snd (gd_dev (rg_dev s)) (?ctxs + uint t))"
  proof (intro ballI impI)
    fix t assume t: "t \<in> set (poll_threads es)" "t < word_of_int (fa_num_idx ?fa)"
    then have "t \<in> set (filter (\<lambda>t. t < word_of_int ?num) (poll_threads es))" by (simp add: fan)
    from bspec [OF L(1) this] have u': "uint t < ?num" by (rule conjunct2)
    have u: "0 \<le> uint t" by simp
    have "?ctxs + uint t \<in> row_span o'" using u u' by (simp add: row_span_def)
    then show "rg_rows s (?ctxs + uint t) = Some ((fa_index ?fa (uint t) + fa_key_off ?fa) * of_nat (fa_cache_dim ?fa)) \<and>
        own_transfer (snd (gd_dev (rg_dev s)) (?ctxs + uint t))"
      using rk(2) [OF u u'] index_row [OF u u' st(2), of idx] ow H(2) by simp
  qed
  from poll_launch_reach [OF cfg H(1) _ t] d H(2)
  have R: "reg_reach pc arr (s\<lparr>rg_dev := (ho_dev h)\<lparr>gd_dev := d\<rparr>\<rparr>)"
    "\<forall>q. cx_isHit (rx_ctx (snd (gd_dev (ho_dev h)) q)) \<longrightarrow> cx_isHit (rx_ctx (snd d q))"
    "\<forall>t \<in> set (poll_threads es). t < word_of_int (fa_num_idx ?fa) \<longrightarrow> cx_isHit (rx_ctx (snd d (?ctxs + uint t)))" by simp_all
  let ?h1 = "h\<lparr>ho_dev := (ho_dev h)\<lparr>gd_dev := d\<rparr>\<rparr>" and ?s1 = "s\<lparr>rg_dev := (ho_dev h)\<lparr>gd_dev := d\<rparr>\<rparr>"
  have i1: "host_inv pc arr idx subs n ?h1 ?s1"
    by (rule host_inv_dev' [OF inv R(1)]) (use R(2) in \<open>simp_all add: hits_kept_def\<close>)
  have "cx_isHit (rx_ctx (snd d x))" if x: "x \<in> row_span o'" for x
  proof -
    obtain t where t: "t \<in> set (poll_threads es)" "t < word_of_int ?num" "x = ?ctxs + uint t" using L(3) [of "x - ?ctxs"] x by (auto simp: row_span_def)
    then show ?thesis using R(3) by (simp add: fan)
  qed
  then have hits: "\<forall>p \<in> row_span o'. cx_isHit (rx_ctx (snd (gd_dev (ho_dev ?h1)) p))" by simp
  have at: "outstanding_at 0 (ho_io ?h1) = Some o'" using o'(1) by (simp add: front_at)
  obtain io where m: "mark_front_ready (om_request_id o') (ho_io h) = (io, True)" "host_inv pc arr idx subs n (?h1\<lparr>ho_io := io\<rparr>) ?s1"
    using host_mark [OF i1 at hits] by (auto simp: front_ready_at)
  have c: "x\<lparr>d_warp_ctxs := y, outstanding_queue := z\<rparr> = x\<lparr>outstanding_queue := z, d_warp_ctxs := y\<rparr>" for x :: iostack_t and y z by simp
  have io: "ho_io h' = io\<lparr>d_warp_ctxs := Some ?ctxs\<rparr>"
    using m(1) h'(1) [symmetric] by (auto simp: c mark_front_ready_def split: list.splits if_splits)
  have "h' = (?h1\<lparr>ho_io := io\<rparr>)\<lparr>ho_io := io\<lparr>d_warp_ctxs := Some ?ctxs\<rparr>\<rparr>" by (subst h'(2)) (simp add: io)
  moreover have "host_inv pc arr idx subs n ((?h1\<lparr>ho_io := io\<rparr>)\<lparr>ho_io := io\<lparr>d_warp_ctxs := Some ?ctxs\<rparr>\<rparr>) ?s1"
    using m(2) unfolding host_inv_def stack_inv_def by simp
  ultimately show ?thesis by blast
qed

text \<open>The queue: a request comes in at the back with the next number, and leaves at the front.\<close>

lemma stack_register:
  assumes st: "stack_inv subs n io" and ret: "register_outstanding ctxs cnt ip num dim cdim key stride io = (io', r)" and o': "o' = last (outstanding_queue io')"
    and fresh: "\<forall>q \<in> set (outstanding_queue io). row_span q \<inter> row_span o' = {}"
  shows "stack_inv (subs @ [o']) n io' \<and> r = of_nat (length subs) + 1 \<and> outstanding_queue io' = outstanding_queue io @ [o'] \<and>
    o' = \<lparr>om_request_id = r, om_index_ptr = ip, om_num_index = num, om_dim = dim, om_cache_dim = cdim, om_key_off = key, om_ctxs = ctxs, om_ctx_count = cnt,
      om_ctx_stride = stride, om_state = SUBMITTED\<rparr>"
proof -
  note S = st [unfolded stack_inv_def]
  have e: "o' = \<lparr>om_request_id = r, om_index_ptr = ip, om_num_index = num, om_dim = dim, om_cache_dim = cdim, om_key_off = key, om_ctxs = ctxs, om_ctx_count = cnt,
      om_ctx_stride = stride, om_state = SUBMITTED\<rparr>" "r = of_nat (length subs) + 1" "outstanding_queue io' = outstanding_queue io @ [o']"
      "d_warp_ctxs_queue io' = d_warp_ctxs_queue io @ [ctxs]" "next_request_id io' = r + 1" "last_consumed_request_id io' = last_consumed_request_id io"
    using ret S by (auto simp: register_outstanding_def push_ctxs_def Let_def o')
  have id: "om_request_id o' = of_nat (length subs) + 1" using arg_cong [OF e(1), of om_request_id] e(2) by simp
  have "om_state o' = SUBMITTED" using arg_cong [OF e(1), of om_state] by simp
  then have s: "o'\<lparr>om_state := SUBMITTED\<rparr> = o'" by (cases o') simp
  have c: "om_ctxs o' = ctxs" using arg_cong [OF e(1), of om_ctxs] by simp
  define os where "os = outstanding_queue io"
  have "row_span ((os @ [o']) ! i) \<inter> row_span ((os @ [o']) ! j) = {}" if ij: "i < Suc (length os)" "j < Suc (length os)" "i \<noteq> j" for i j
  proof -
    consider "i < length os" "j < length os" | "i = length os" "j < length os" | "i < length os" "j = length os" using ij by linarith
    then show ?thesis
      by cases (use S ij(3) fresh nth_mem [of i os] nth_mem [of j os] in \<open>auto simp: nth_append os_def\<close>)
  qed
  then have dis: "\<forall>i < length (outstanding_queue io'). \<forall>j < length (outstanding_queue io'). i \<noteq> j \<longrightarrow> row_span (outstanding_queue io' ! i) \<inter> row_span (outstanding_queue io' ! j) = {}"
    unfolding e(3) os_def [symmetric] by simp
  have ids: "\<forall>k < length (subs @ [o']). om_request_id ((subs @ [o']) ! k) = of_nat k + 1" using S id by (auto simp: nth_append less_Suc_eq)
  have "map (om_state_update (\<lambda>_. SUBMITTED)) (outstanding_queue io') = drop n (subs @ [o'])" "n \<le> length (subs @ [o'])"
      "d_warp_ctxs_queue io' = map om_ctxs (outstanding_queue io')" "next_request_id io' = of_nat (length (subs @ [o'])) + 1" "last_consumed_request_id io' = of_nat n"
    using S s c e(2,4-6) by (simp_all add: e(3))
  then have "stack_inv (subs @ [o']) n io'" using dis ids unfolding stack_inv_def by blast
  then show ?thesis using e(1-3) by blast
qed

lemma stack_pop:
  assumes st: "stack_inv subs n io" and o': "front_outstanding io = Some o'"
  shows "\<exists>io1 io2. front_ctxs io = (io1, Some (om_ctxs o')) \<and> mark_front_consumed (om_request_id o') io1 = (io2, True) \<and> stack_inv subs (n + 1) (pop_ctxs io2) \<and>
    outstanding_queue io = o' # outstanding_queue (pop_ctxs io2) \<and> om_request_id o' = of_nat n + 1 \<and> n < length subs \<and> subs ! n = o'\<lparr>om_state := SUBMITTED\<rparr>"
proof -
  note S = st [unfolded stack_inv_def]
  obtain os where os: "outstanding_queue io = o' # os" using o' by (auto simp: front_outstanding_def split: list.splits)
  have d: "drop n subs = o'\<lparr>om_state := SUBMITTED\<rparr> # map (om_state_update (\<lambda>_. SUBMITTED)) os" using S os by simp
  then have n: "n < length subs" by (cases "n < length subs") simp_all
  then have h: "subs ! n = o'\<lparr>om_state := SUBMITTED\<rparr>" "drop (n + 1) subs = map (om_state_update (\<lambda>_. SUBMITTED)) os"
    using d by (simp_all add: Cons_nth_drop_Suc [symmetric])
  then have id: "om_request_id o' = of_nat n + 1" using S n by (metis outstanding_meta_t.select_convs(1) outstanding_meta_t.surjective outstanding_meta_t.update_convs(10))
  have q: "d_warp_ctxs_queue io = om_ctxs o' # map om_ctxs os" using S os by simp
  let ?io1 = "io\<lparr>d_warp_ctxs := Some (om_ctxs o')\<rparr>"
  let ?io2 = "?io1\<lparr>outstanding_queue := o'\<lparr>om_state := CONSUMED\<rparr> # os, last_consumed_request_id := om_request_id o'\<rparr>"
  have f: "front_ctxs io = (?io1, Some (om_ctxs o'))" "mark_front_consumed (om_request_id o') ?io1 = (?io2, True)"
    by (simp_all add: front_ctxs_def q mark_front_consumed_def os)
  have p: "outstanding_queue (pop_ctxs ?io2) = os" "d_warp_ctxs_queue (pop_ctxs ?io2) = map om_ctxs os" "next_request_id (pop_ctxs ?io2) = next_request_id io"
      "last_consumed_request_id (pop_ctxs ?io2) = of_nat n + 1"
    by (simp_all add: pop_ctxs_def q id)
  have "row_span (os ! i) \<inter> row_span (os ! j) = {}" if "i < length os" "j < length os" "i \<noteq> j" for i j
    using S that os by (metis Suc_less_eq length_Cons nat.inject nth_Cons_Suc)
  then have "stack_inv subs (n + 1) (pop_ctxs ?io2)" unfolding stack_inv_def p using S h(2) n by simp
  then show ?thesis using f p(1) os id n h(1) by (intro exI [of _ ?io1] exI [of _ ?io2]) simp
qed

lemma disjoint_spans:
  assumes "stack_inv subs n io" and "outstanding_queue io = o' # os" and "q \<in> set os"
  shows "row_span q \<inter> row_span o' = {}"
proof -
  obtain j where "j < length os" "q = os ! j" using assms(3) by (metis in_set_conv_nth)
  moreover have "\<forall>i < length (o' # os). \<forall>j < length (o' # os). i \<noteq> j \<longrightarrow> row_span ((o' # os) ! i) \<inter> row_span ((o' # os) ! j) = {}"
    using assms(1,2) by (simp add: stack_inv_def)
  ultimately have "row_span ((o' # os) ! Suc j) \<inter> row_span ((o' # os) ! 0) = {}" by (metis Suc_less_eq length_Cons nat.distinct(1) zero_less_Suc)
  then show ?thesis using \<open>q = os ! j\<close> by simp
qed

lemma card_spans: "finite (\<Union>o' \<in> set os. row_span o') \<and> card (\<Union>o' \<in> set os. row_span o') \<le> rows_of_all os"
proof (induction os)
  case (Cons o' os)
  have f: "finite (row_span o')" "card (row_span o') = nat (om_num_index o')" by (simp_all add: row_span_def)
  show ?case using Cons card_Un_le [of "row_span o'" "\<Union>o' \<in> set os. row_span o'"] f by (simp add: rows_of_all_def)
qed (simp add: rows_of_all_def)

text \<open>The rows that the warps of a launch have.\<close>

lemma launch_rows:
  assumes "threads_of num ws"
  defines "live \<equiv> filter (\<lambda>w. idx_idx w < num) ws"
  shows "(\<lambda>w. ctxs + idx_idx w) ` set live = {ctxs ..< ctxs + num}" "\<forall>w \<in> set live. 0 \<le> idx_idx w \<and> idx_idx w < num \<and> word_of_int (idx_idx w) = w"
    "0 \<le> i \<and> i < num \<Longrightarrow> word_of_int i \<in> set live \<and> idx_idx (word_of_int i) = i" "inj_on idx_idx (set live)" "distinct live" "length live = nat num"
proof -
  note G = grid_warps [OF assms(1)]
  show 2: "\<forall>w \<in> set live. 0 \<le> idx_idx w \<and> idx_idx w < num \<and> word_of_int (idx_idx w) = w" using G(2) by (auto simp: live_def)
  show 3: "0 \<le> i \<and> i < num \<Longrightarrow> word_of_int i \<in> set live \<and> idx_idx (word_of_int i) = i" for i using G(3,4) by (simp add: live_def)
  show 1: "(\<lambda>w. ctxs + idx_idx w) ` set live = {ctxs ..< ctxs + num}" for ctxs
  proof -
    have "x \<in> (\<lambda>w. ctxs + idx_idx w) ` set live" if "ctxs \<le> x" "x < ctxs + num" for x
      using 3 [of "x - ctxs"] that by (intro image_eqI [of _ _ "word_of_int (x - ctxs)"]) auto
    then show ?thesis using 2 by auto
  qed
  show 4: "inj_on idx_idx (set live)" using G(1) by (auto simp: live_def inj_on_def)
  show 5: "distinct live" using assms(1) by (auto simp: live_def threads_of_def)
  have "idx_idx ` set live = {0 ..< num}" using 1 [of 0] by simp
  then have "card (set live) = nat num" using card_image [OF 4] by simp
  then show "length live = nat num" using distinct_card [OF 5] by simp
qed

lemma launch_threads:
  assumes "threads_of num ts"
  shows "(\<lambda>t. ctxs + uint t) ` {t \<in> set ts. t < (word_of_int num :: u32)} = {ctxs ..< ctxs + num}"
proof -
  note T = live_threads [OF assms]
  have live: "{t \<in> set ts. t < word_of_int num} = set (filter (\<lambda>t. t < word_of_int num) ts)" by simp
  show ?thesis unfolding live
  proof (intro equalityI subsetI)
    fix x assume "x \<in> (\<lambda>t. ctxs + uint t) ` set (filter (\<lambda>t. t < word_of_int num) ts)"
    then obtain t where t: "t \<in> set (filter (\<lambda>t. t < word_of_int num) ts)" "x = ctxs + uint t" by blast
    show "x \<in> {ctxs ..< ctxs + num}" using bspec [OF T(1) t(1)] t(2) by simp
  next
    fix x assume "x \<in> {ctxs ..< ctxs + num}"
    then have "0 \<le> x - ctxs \<and> x - ctxs < num" by simp
    from T(3) [OF this] obtain t where "t \<in> set (filter (\<lambda>t. t < word_of_int num) ts)" "uint t = x - ctxs" by blast
    then show "x \<in> (\<lambda>t. ctxs + uint t) ` set (filter (\<lambda>t. t < word_of_int num) ts)" by (intro image_eqI [of _ _ t]) simp_all
  qed
qed

lemma lookup_capacity_pos:
  assumes "0 < (nq :: u32)"
  shows "0 < (ucast nq * ucast kRegisteredCidCapacity :: u64)"
proof -
  have "unat nq < 2 ^ 32" "0 < unat nq" using unsigned_less [of nq, where 'a = nat] assms by (simp_all add: word_less_nat_alt)
  then have "unat (ucast nq :: u64) * unat (ucast kRegisteredCidCapacity :: u64) < 2 ^ LENGTH(64)" "0 < unat (ucast nq :: u64)"
    by (simp_all add: unat_ucast_up kRegisteredCidCapacity_def)
  then have "0 < unat (ucast nq * ucast kRegisteredCidCapacity :: u64)" unfolding unat_mult_lem by (simp add: kRegisteredCidCapacity_def)
  then show ?thesis by (simp add: word_less_nat_alt)
qed

lemma host_submit:
  fixes h :: "'t host" and s :: "'t reg_state"
  assumes cfg: "reg_cfg pc arr" and inv: "host_inv pc arr idx subs n h s"
    and ret: "read_feature_submit_async_registered_rowctx arr idx ip num dim cdim key ctxs ws rows h = Some (h', r)"
    and o': "o' = last (outstanding_queue (ho_io h'))" and ok: "request_ok pc arr idx o'" and ws: "threads_of num (map fst ws)" and rows: "threads_of num rows"
    and fresh: "\<forall>q \<in> set (outstanding_queue (ho_io h)). row_span q \<inter> row_span o' = {}" and cnt: "rows_of_all (outstanding_queue (ho_io h)) + nat num < 2 ^ 29"
    and free: "\<forall>k d. submit_launch arr (request_args idx o') ctxs (take k (filter (\<lambda>(w, smid). idx_idx w < num) ws))
        (fst (gd_dev (ho_dev h)), clear_ctxs ctxs num (snd (gd_dev (ho_dev h)))) = Some d \<longrightarrow> cids_free (pc_cids (ac_pc (fst d)))"
  shows "\<exists>s'. host_inv pc arr idx (subs @ [o']) n h' s' \<and> r = of_nat (length subs) + 1"
proof -
  note H = host_invD [OF inv]
  note C = reg_cfgD [OF cfg]
  obtain ac m where g: "gd_dev (ho_dev h) = (ac, m)" by force
  define m1 where "m1 = clear_ctxs ctxs num m"
  obtain io1 r1 where io1: "register_outstanding ctxs (word_of_int num) ip num dim cdim key 1 (ho_io h) = (io1, r1)" by force
  define fa where "fa = \<lparr>fa_index = idx ip, fa_dim = dim, fa_num_idx = num, fa_cache_dim = cdim, fa_key_off = 0\<rparr>"
  let ?cap = "ucast (pc_n_qps pc 0) * ucast kRegisteredCidCapacity :: u64"
  obtain d where L: "submit_launch arr fa ctxs ws (ac, m1) = Some d"
    using ret g io1 by (auto simp: read_feature_submit_async_registered_rowctx_def Let_def m1_def fa_def split: option.splits)
  have capv: "?cap > 0" by (rule lookup_capacity_pos [OF C(7)])
  have nq: "queues_counted h = pc_n_qps pc 0" by (rule queues_counted_eq [OF cfg inv])
  let ?g1 = "(ho_dev h)\<lparr>gd_dev := d\<rparr>"
  have grow: "(if ?cap > 0 \<and> ?cap > ho_capacity h then ?g1\<lparr>gd_ctx_lookup := Map.empty\<rparr> else ?g1) = ?g1" "(if ?cap > 0 \<and> ?cap > ho_capacity h then ?cap else ho_capacity h) = ?cap"
    using H(8) capv by auto
  have "read_feature_submit_async_registered_rowctx arr idx ip num dim cdim key ctxs ws rows h =
      Some (h\<lparr>ho_io := io1, ho_dev := register_launch ctxs num rows ?g1, ho_queues := pc_n_qps pc 0, ho_capacity := ?cap\<rparr>, r1)"
    unfolding read_feature_submit_async_registered_rowctx_def nq Let_def g io1 prod.case m1_def [symmetric] fa_def [symmetric] L option.case grow
    using capv C(7) by simp
  then have h': "h' = h\<lparr>ho_io := io1, ho_dev := register_launch ctxs num rows ?g1, ho_queues := pc_n_qps pc 0, ho_capacity := ?cap\<rparr>" "r = r1"
    using ret by simp_all
  have o1: "o' = last (outstanding_queue io1)" using o' h'(1) by simp
  note S = stack_register [OF H(4) io1 o1 fresh]
  have S1: "stack_inv (subs @ [o']) n io1" "r1 = of_nat (length subs) + 1" using S by blast+
  have e: "om_index_ptr o' = ip" "om_num_index o' = num" "om_dim o' = dim" "om_cache_dim o' = cdim" "om_ctxs o' = ctxs" "om_state o' = SUBMITTED"
    using S by (metis outstanding_meta_t.select_convs)+
  have fa: "request_args idx o' = fa" by (simp add: request_args_def e fa_def)
  have span: "row_span o' = {ctxs ..< ctxs + num}" by (simp add: row_span_def e)
  define os where "os = outstanding_queue (ho_io h)"
  have apart: "p \<notin> {ctxs ..< ctxs + num}" if p: "p \<in> dom (rg_rows s)" for p
  proof -
    obtain q where "q \<in> set (outstanding_queue (ho_io h))" "p \<in> row_span q" using p unfolding H(5) by blast
    then show ?thesis using fresh unfolding span by blast
  qed
  define s1 where "s1 = s\<lparr>rg_dev := (ho_dev h)\<lparr>gd_dev := (ac, m1)\<rparr>\<rparr>"
  have "\<forall>p \<in> dom (rg_rows s). p < ctxs \<or> ctxs + num \<le> p" using apart by fastforce
  then have r1: "reg_reach pc arr s1" unfolding s1_def m1_def using H(2) g by (intro reg_reach.step [OF H(1)] reg_step.memset)
  define live where "live = filter (\<lambda>(w, smid :: u32). idx_idx w < num) ws"
  have lf: "map fst live = filter (\<lambda>w. idx_idx w < num) (map fst ws)" by (simp add: live_def filter_map comp_def case_prod_beta' prod.case_eq_if)
  then have ls: "fst ` set live = set (filter (\<lambda>w. idx_idx w < num) (map fst ws))" by (metis set_map)
  note W = launch_rows [OF ws, folded ls]
  have Wi: "inj_on idx_idx (fst ` set live)" "distinct (map fst live)" "length live = nat num"
    using launch_rows(4-6) [OF ws] unfolding ls lf by (simp_all flip: lf)
  have L1: "submit_launch arr fa ctxs live (gd_dev (rg_dev s1)) = Some d"
    using L unfolding submit_launch_live [of arr fa ctxs ws] by (simp add: s1_def live_def) (simp add: fa_def)
  have rf: "\<forall>i. 0 \<le> i \<and> i < num \<longrightarrow> row_fits pc arr fa (word_of_int i)" using ok by (simp add: request_ok_def e fa)
  have wl: "\<forall>w \<in> fst ` set live. row_fits pc arr fa w \<and> ctxs + idx_idx w \<notin> dom (rg_rows s1) \<and> snd (gd_dev (rg_dev s1)) (ctxs + idx_idx w) = ctx_cleared"
  proof
    fix w assume "w \<in> fst ` set live"
    then have i: "0 \<le> idx_idx w" "idx_idx w < num" "word_of_int (idx_idx w) = w" using W(2) by auto
    have "row_fits pc arr fa w" using rf i by metis
    moreover have "ctxs + idx_idx w \<notin> dom (rg_rows s)" using apart [of "ctxs + idx_idx w"] i by auto
    ultimately show "row_fits pc arr fa w \<and> ctxs + idx_idx w \<notin> dom (rg_rows s1) \<and> snd (gd_dev (rg_dev s1)) (ctxs + idx_idx w) = ctx_cleared"
      using i by (simp add: s1_def m1_def clear_ctxs_def)
  qed
  have "card (dom (rg_rows s)) \<le> rows_of_all os" using card_spans [of os] unfolding H(5) os_def [symmetric] by blast
  then have card: "card (dom (rg_rows s1)) + length live < 2 ^ 29" using cnt Wi(3) by (simp add: s1_def os_def)
  have fr: "\<forall>k d'. submit_launch arr fa ctxs (take k live) (gd_dev (rg_dev s1)) = Some d' \<longrightarrow> cids_free (pc_cids (ac_pc (fst d')))"
    using free unfolding fa live_def [symmetric] g fst_conv snd_conv m1_def [symmetric] by (simp add: s1_def)
  obtain s2 :: "'t reg_state" where s2: "reg_reach pc arr s2" "rg_dev s2 = ?g1" "dom (rg_rows s2) = dom (rg_rows s) \<union> {ctxs ..< ctxs + num}"
      "\<forall>w \<in> fst ` set live. rg_rows s2 (ctxs + idx_idx w) = Some (feature_index fa w 0)"
      "\<forall>q. q \<notin> {ctxs ..< ctxs + num} \<longrightarrow> rg_rows s2 q = rg_rows s q \<and> snd d q = m1 q" "rg_pend s2 = {ctxs ..< ctxs + num}"
  proof -
    have e1: "(rg_dev s1)\<lparr>gd_dev := d\<rparr> = ?g1" "rg_rows s1 = rg_rows s" "snd (gd_dev (rg_dev s1)) = m1" "rg_pend s1 = {}" "{} \<union> X = X" for X :: "int set"
      by (simp_all add: s1_def H(3))
    show ?thesis using submit_launch_reach [OF cfg r1 L1 wl Wi(2,1) card fr, unfolded W(1) e1]
      by (elim exE conjE) (rule that)
  qed
  note pend = launch_threads [OF rows, of ctxs]
  have "\<forall>t \<in> set rows. t < word_of_int num \<longrightarrow> ctxs + uint t \<in> rg_pend s2" unfolding s2(6) pend [symmetric] by blast
  moreover have "distinct rows" using rows by (auto simp: threads_of_def)
  ultimately have r3: "reg_reach pc arr (s2\<lparr>rg_dev := register_launch ctxs num rows (rg_dev s2), rg_pend := rg_pend s2 - {ctxs ..< ctxs + num}\<rparr>)"
    using register_launch_reach [OF s2(1), of rows num ctxs] unfolding pend by blast
  define s3 where "s3 = s2\<lparr>rg_dev := register_launch ctxs num rows ?g1, rg_pend := {}\<rparr>"
  have r3: "reg_reach pc arr s3" using r3 unfolding s2(2,6) by (simp add: s3_def)
  have d3: "gd_dev (rg_dev s3) = d" "rg_rows s3 = rg_rows s2" by (simp_all add: s3_def register_launch_dev)
  have "request_held pc arr idx s3 o'"
  proof -
    have "rg_rows s3 (ctxs + i) = Some (feature_index fa (word_of_int i) 0)" if "0 \<le> i" "i < num" for i
      using s2(4) W(3) [of i] that unfolding d3(2) by fastforce
    then show ?thesis using ok by (simp add: request_held_def e fa)
  qed
  moreover have "request_held pc arr idx s3 q" if q: "q \<in> set os" for q
  proof -
    have R: "request_held pc arr idx s q" using H(6) q by (simp add: os_def)
    have out: "p \<notin> {ctxs ..< ctxs + num}" if "p \<in> row_span q" for p using apart [of p] that q unfolding H(5) os_def [symmetric] by blast
    then have "rg_rows s3 (om_ctxs q + i) = rg_rows s (om_ctxs q + i)" if "0 \<le> i" "i < om_num_index q" for i
      using s2(5) that unfolding d3(2) by (auto simp: row_span_def)
    moreover have "snd d p = m p" if "p \<in> row_span q" for p
      using s2(5) out [OF that] by (auto simp: m1_def clear_ctxs_def)
    ultimately show ?thesis using R H(2) g by (simp add: request_held_def d3(1))
  qed
  ultimately have held: "\<forall>q \<in> set (os @ [o']). request_held pc arr idx s3 q" by auto
  have q: "outstanding_queue io1 = os @ [o']" using S by (simp add: os_def)
  have dom: "dom (rg_rows s3) = (\<Union>q \<in> set (os @ [o']). row_span q)" unfolding d3(2) s2(3) H(5) os_def [symmetric] using span by auto
  have "host_inv pc arr idx (subs @ [o']) n h' s3" unfolding host_inv_def h'(1)
    using r3 held dom S1(1) q by (simp add: s3_def)
  then show ?thesis using S1(2) h'(2) by blast
qed

text \<open>The features of a request, in the output and nowhere else.\<close>

definition features_in :: "(nat \<Rightarrow> 't) page_cache \<Rightarrow> array_d_t \<Rightarrow> feature_args \<Rightarrow> (u64 \<Rightarrow> 't) \<Rightarrow> (u64 \<Rightarrow> 't) \<Rightarrow> bool" where
  "features_in pc arr fa out out' \<longleftrightarrow>
     (\<forall>i t. 0 \<le> i \<and> i < fa_num_idx fa \<and> t < fa_dim fa \<longrightarrow> elem_view pc arr (feature_index fa (word_of_int i) t) = Some (out' (out_index fa (word_of_int i) t))) \<and>
     (\<forall>y. (\<forall>i t. 0 \<le> i \<and> i < fa_num_idx fa \<and> t < fa_dim fa \<longrightarrow> y \<noteq> out_index fa (word_of_int i) t) \<longrightarrow> out' y = out y)"

lemma host_get:
  fixes h :: "'t host" and s :: "'t reg_state"
  assumes cfg: "reg_cfg pc arr" and inv: "host_inv pc arr idx subs n h s" and f: "front_outstanding (ho_io h) = Some o'" and rdy: "om_state o' = READY"
    and ws: "threads_of (om_num_index o') ws"
  shows "\<exists>h' out' s'. read_feature_get_feature_light_registered_rowctx arr idx ws h out = Inr (h', out', of_nat n + 1) \<and> host_inv pc arr idx subs (n + 1) h' s' \<and>
    n < length subs \<and> subs ! n = o'\<lparr>om_state := SUBMITTED\<rparr> \<and> features_in pc arr (request_args idx o') out out'"
proof -
  note H = host_invD [OF inv]
  obtain io1 io2 where P: "front_ctxs (ho_io h) = (io1, Some (om_ctxs o'))" "mark_front_consumed (om_request_id o') io1 = (io2, True)" "stack_inv subs (n + 1) (pop_ctxs io2)"
      "outstanding_queue (ho_io h) = o' # outstanding_queue (pop_ctxs io2)" "om_request_id o' = of_nat n + 1" "n < length subs" "subs ! n = o'\<lparr>om_state := SUBMITTED\<rparr>"
    using stack_pop [OF H(4) f] by blast
  define os where "os = outstanding_queue (pop_ctxs io2)"
  let ?fa = "request_args idx o'" and ?ctxs = "om_ctxs o'" and ?num = "om_num_index o'"
  have R: "request_held pc arr idx s o'" using H(6) P(4) by simp
  define live where "live = filter (\<lambda>w. idx_idx w < ?num) ws"
  note W = launch_rows [OF ws, folded live_def]
  have fan: "fa_num_idx ?fa = ?num" by (simp add: request_args_def)
  have "row_fits pc arr ?fa w \<and> rg_rows s (?ctxs + idx_idx w) = Some (feature_index ?fa w 0) \<and> cx_isHit (rx_ctx (snd (gd_dev (rg_dev s)) (?ctxs + idx_idx w)))"
    if w: "w \<in> set live" for w
  proof -
    have i: "0 \<le> idx_idx w" "idx_idx w < ?num" "word_of_int (idx_idx w) = w" using W(2) w by auto
    then have "?ctxs + idx_idx w \<in> row_span o'" by (simp add: row_span_def)
    then show ?thesis using R rdy i unfolding request_held_def request_ok_def by metis
  qed
  then have fits: "\<forall>w \<in> set live. row_fits pc arr ?fa w \<and> rg_rows s (?ctxs + idx_idx w) = Some (feature_index ?fa w 0) \<and>
      cx_isHit (rx_ctx (snd (gd_dev (rg_dev s)) (?ctxs + idx_idx w)))" by blast
  from gather_launch_reach [OF cfg H(1) W(5,4) fits, of out, unfolded W(1)] obtain s' :: "'t reg_state" and out' where
    G: "gather_launch arr ?fa ?ctxs live (gd_dev (rg_dev s)) out = (gd_dev (rg_dev s'), out')" "reg_reach pc arr s'"
      "rg_dev s' = (rg_dev s)\<lparr>gd_dev := gd_dev (rg_dev s')\<rparr>" "snd (gd_dev (rg_dev s')) = snd (gd_dev (rg_dev s))" "rg_pend s' \<subseteq> rg_pend s"
      "\<forall>p. rg_rows s' p = (if p \<in> {?ctxs ..< ?ctxs + ?num} then None else rg_rows s p)"
      "\<forall>w \<in> set live. \<forall>t < fa_dim ?fa. elem_view pc arr (feature_index ?fa w t) = Some (out' (out_index ?fa w t))"
      "\<forall>y. (\<forall>w \<in> set live. \<forall>t < fa_dim ?fa. y \<noteq> out_index ?fa w t) \<longrightarrow> out' y = out y" by blast
  let ?h = "h\<lparr>ho_io := pop_ctxs io2, ho_dev := (ho_dev h)\<lparr>gd_dev := gd_dev (rg_dev s')\<rparr>\<rparr>"
  have G1: "gather_launch arr ?fa ?ctxs ws (gd_dev (ho_dev h)) out = (gd_dev (rg_dev s'), out')"
    using G(1) H(2) unfolding gather_launch_live [of arr ?fa ?ctxs ws] by (simp add: live_def fan)
  have ret: "read_feature_get_feature_light_registered_rowctx arr idx ws h out = Inr (?h, out', of_nat n + 1)"
    using f rdy P(1,2,5) G1 by (simp add: read_feature_get_feature_light_registered_rowctx_def)
  have span: "row_span o' = {?ctxs ..< ?ctxs + ?num}" by (simp add: row_span_def)
  have dis: "row_span q \<inter> row_span o' = {}" if "q \<in> set os" for q using disjoint_spans [OF H(4) P(4)] that by (simp add: os_def)
  have held: "request_held pc arr idx s' q" if q: "q \<in> set os" for q
  proof -
    have "request_held pc arr idx s q" using H(6) P(4) q by (simp add: os_def)
    moreover have "rg_rows s' (om_ctxs q + i) = rg_rows s (om_ctxs q + i)" if "0 \<le> i" "i < om_num_index q" for i
    proof -
      have "om_ctxs q + i \<in> row_span q" using that by (simp add: row_span_def)
      then show ?thesis using dis [OF q] G(6) span by (metis disjoint_iff)
    qed
    ultimately show ?thesis by (simp add: request_held_def G(4))
  qed
  have "rg_rows s' = (\<lambda>p. if p \<in> row_span o' then None else rg_rows s p)" using G(6) by (simp add: span fun_eq_iff)
  then have "dom (rg_rows s') = dom (rg_rows s) - row_span o'" by (auto simp: dom_def)
  also have "\<dots> = (\<Union>q \<in> set os. row_span q)" unfolding H(5) P(4) os_def [symmetric] using dis by auto
  finally have dom: "dom (rg_rows s') = (\<Union>q \<in> set os. row_span q)" .
  have "rg_dev s' = ho_dev ?h" using G(3) H(2) by simp
  moreover have "rg_pend s' = {}" using G(5) H(3) by simp
  ultimately have hi: "host_inv pc arr idx subs (n + 1) ?h s'"
    unfolding host_inv_def using G(2) P(3,6) dom held H(7,8) by (auto simp: os_def)
  have w: "word_of_int i \<in> set live" if "0 \<le> i" "i < ?num" for i using W(3) that by blast
  have "features_in pc arr ?fa out out'" unfolding features_in_def fan
  proof (intro conjI allI impI)
    fix i t assume "0 \<le> i \<and> i < ?num \<and> t < fa_dim ?fa"
    then show "elem_view pc arr (feature_index ?fa (word_of_int i) t) = Some (out' (out_index ?fa (word_of_int i) t))" using G(7) w by blast
  next
    fix y assume y: "\<forall>i t. 0 \<le> i \<and> i < ?num \<and> t < fa_dim ?fa \<longrightarrow> y \<noteq> out_index ?fa (word_of_int i) t"
    have "y \<noteq> out_index ?fa w t" if "w \<in> set live" "t < fa_dim ?fa" for w t using W(2) that y by metis
    then show "out' y = out y" using G(8) by blast
  qed
  then show ?thesis using ret hi P(6,7) by blast
qed

lemma host_reach_inv:
  assumes cfg: "reg_cfg pc arr" and r: "host_reach pc arr idx subs n h"
  shows "\<exists>s. host_inv pc arr idx subs n h s"
  using r
proof (induction rule: host_reach.induct)
  case (start h m)
  let ?s = "\<lparr>rg_dev = ho_dev h, rg_rows = Map.empty, rg_pend = {}\<rparr>"
  have "reg_reach pc arr ?s" by (rule reg_reach.start) (use start in \<open>simp add: reg_start_def\<close>)
  then show ?case using start by (intro exI [of _ ?s]) (simp add: host_inv_def stack_inv_def iostack_new_def)
next
  case (submit subs n h ip num dim cdim key ctxs ws rows h' request_id o')
  then obtain s where "host_inv pc arr idx subs n h s" by blast
  from host_submit [OF cfg this submit.hyps(2-9)] show ?case by blast
next
  case (poll subs n h rounds ts h' request_id)
  then obtain s where "host_inv pc arr idx subs n h s" by blast
  from host_poll [OF cfg this poll.hyps(3,4)] poll.hyps(2) show ?case by auto
next
  case (window subs n h size' rounds tss h' request_id)
  then obtain s where "host_inv pc arr idx subs n h s" by blast
  from host_window [OF cfg this window.hyps(3,4), of size'] window.hyps(2) show ?case by auto
next
  case (compat subs n h es h' request_id)
  then obtain s where "host_inv pc arr idx subs n h s" by blast
  from host_compat [OF cfg this compat.hyps(2,3)] show ?case .
next
  case (get subs n h ws out h' out' request_id o')
  then obtain s where inv: "host_inv pc arr idx subs n h s" by blast
  have rdy: "om_state o' = READY" using get.hyps(2,3) by (cases "om_state o' = READY") (simp_all add: read_feature_get_feature_light_registered_rowctx_def)
  from host_get [OF cfg inv get.hyps(3) rdy get.hyps(4), of out] get.hyps(2) show ?case by auto
next
  case (device subs n h ac m c q cid)
  then obtain s where "host_inv pc arr idx subs n h s" by blast
  from host_device [OF this device.hyps(2)] show ?case by blast
qed

lemma host_poll_ready:
  assumes cfg: "reg_cfg pc arr" and r: "host_reach pc arr idx subs n h" and n: "n < length subs" "length subs < 2 ^ 64"
    and sub: "\<forall>k. ac_sub (fst (gd_dev (ho_dev h))) k = None" and ts: "threads_of (om_num_index (subs ! n)) ts"
    and rounds: "\<forall>lqs \<in> set rounds. distinct lqs \<and> (\<forall>q < pc_n_qps pc 0. q \<in> set lqs)"
    and enough: "\<forall>q < pc_n_qps pc 0. length (ac_done (fst (gd_dev (ho_dev h))) (0, q)) \<le> kMaxEventsPerQueue * length rounds"
  shows "\<exists>h'. service_registered_try_poll arr rounds ts h = Inr (h', of_nat n + 1) \<and> host_reach pc arr idx subs n h' \<and> front_outstanding_ready (ho_io h')"
proof -
  obtain s where inv: "host_inv pc arr idx subs n h s" using host_reach_inv [OF cfg r] by blast
  note H = host_invD [OF inv]
  have ne: "outstanding_queue (ho_io h) \<noteq> []" using H(4) n(1) by (auto simp: stack_inv_def)
  then obtain o' where o': "front_outstanding (ho_io h) = Some o'" "o' \<in> set (outstanding_queue (ho_io h))" by (cases "outstanding_queue (ho_io h)") (auto simp: front_outstanding_def)
  obtain io1 where p: "om_request_id o' = of_nat n + 1" "subs ! n = o'\<lparr>om_state := SUBMITTED\<rparr>" using stack_pop [OF H(4) o'(1)] by blast
  have t: "threads_of (om_num_index o') ts" using ts p(2) by simp
  have d: "\<forall>lqs \<in> set rounds. distinct lqs" using rounds by blast
  have tso: "\<forall>o''. front_outstanding (ho_io h) = Some o'' \<longrightarrow> threads_of (om_num_index o'') ts" using t o'(1) by simp
  obtain h' r' s' where P: "service_registered_try_poll arr rounds ts h = Inr (h', r')" "host_inv pc arr idx subs n h' s'"
    using host_poll [OF cfg inv d tso] by blast
  have reach: "host_reach pc arr idx subs n h'" by (rule host_reach.poll [OF r P(1) d tso])
  show ?thesis
  proof (cases "om_state o' = READY")
    case True
    then have "service_registered_try_poll arr rounds ts h = Inr (h, of_nat n + 1)" "front_outstanding_ready (ho_io h)"
      using o'(1) p(1) by (simp_all add: service_registered_try_poll_def front_outstanding_ready_def)
    then show ?thesis using r by blast
  next
    case False
    let ?nq = "pc_n_qps pc 0"
    define h1 where "h1 = service_registered_completions_burst arr rounds h"
    have "subs \<noteq> []" using n(1) by auto
    then have cap: "ho_capacity h \<noteq> 0" using H(8) reg_cfgD(7) [OF cfg] lookup_capacity_pos [of "pc_n_qps pc 0"] by auto
    have "length (outstanding_queue (ho_io h)) = length subs - n" using H(4) unfolding stack_inv_def by (metis length_drop length_map)
    moreover have "(length subs - n) mod 2 ^ 64 = length subs - n" using n(2) by simp
    ultimately have "unat (outstanding_count (ho_io h)) = length subs - n" unfolding outstanding_count_def unat_of_nat by simp
    then have len: "outstanding_count (ho_io h) \<noteq> 0" using n(1) by auto
    define g1 where "g1 = service_burst arr ?nq rounds (ho_dev h)"
    have h1: "h1 = h\<lparr>ho_queues := ?nq, ho_dev := g1\<rparr>"
      unfolding h1_def g1_def service_registered_completions_burst_def Let_def queues_counted_eq [OF cfg inv] using cap len reg_cfgD(7) [OF cfg] by auto
    define live where "live = filter (\<lambda>t. t < (word_of_int (om_num_index o') :: u32)) ts"
    have st: "uint (om_ctx_stride o') = 1" using H(6) [OF o'(2)] by (simp add: request_held_def request_ok_def)
    have dom: "\<forall>t \<in> set live. t < word_of_int (om_num_index o') \<and> om_ctxs o' + uint t * 1 \<in> dom (rg_rows s)"
      using live_threads(1) [OF t, folded live_def] o'(2) unfolding H(5) by (fastforce simp: row_span_def)
    have z: "snd (check_launch arr (om_ctxs o') (om_num_index o') 1 ts (gd_dev g1)) = 0"
      using registered_requests_complete [OF cfg H(1,3), of rounds live "om_num_index o'" "om_ctxs o'" 1] sub rounds enough dom H(2)
      unfolding check_launch_live [of arr _ _ _ ts] live_def [symmetric] g1_def by simp
    have io: "ho_io h1 = ho_io h" "gd_dev (ho_dev h1) = gd_dev g1" by (simp_all add: h1)
    have at: "outstanding_at 0 (ho_io h) = Some o'" "ctxs_at 0 (ho_io h) = Some (om_ctxs o')"
      using o'(1) H(4) ne by (auto simp: front_at stack_inv_def ctxs_at_def outstanding_at_def nth_map)
    obtain d p where c: "check_launch arr (om_ctxs o') (om_num_index o') 1 ts (gd_dev g1) = (d, p)" by (rule prod.exhaust)
    have rdy: "registered_request_ready_at arr ts 0 h1 = (h1\<lparr>ho_dev := (ho_dev h1)\<lparr>gd_dev := d\<rparr>\<rparr>, True)"
      using c z False st by (simp add: registered_request_ready_at_def io at)
    obtain os where os: "outstanding_queue (ho_io h) = o' # os" using o'(1) by (auto simp: front_outstanding_def split: list.splits)
    have "service_registered_try_poll arr rounds ts h = Inr (h1\<lparr>ho_dev := (ho_dev h1)\<lparr>gd_dev := d\<rparr>, ho_io := (ho_io h)\<lparr>outstanding_queue := o'\<lparr>om_state := READY\<rparr> # os\<rparr>\<rparr>, of_nat n + 1)"
      using o'(1) False rdy p(1) os io(1) by (simp add: service_registered_try_poll_def h1_def [symmetric] mark_front_ready_def)
    then show ?thesis using P(1) reach by (auto simp: front_outstanding_ready_def front_outstanding_def)
  qed
qed

section \<open>Examples\<close>

text \<open>The row of the example through the calls of the host.\<close>

definition one_idx :: "u64 \<Rightarrow> int \<Rightarrow> u64" where
  "one_idx = (\<lambda>_ _. 1)"

definition host_0 :: "nat host" where
  "host_0 = \<lparr>ho_io = iostack_new, ho_dev = rg_dev gather_start, ho_queues = 0, ho_capacity = 0\<rparr>"

lemma one_thread: "threads_of 1 [0 :: 'a::len word]"
  unfolding threads_of_def by (intro conjI exI [of _ 1]) auto

lemma host_example:
  "\<exists>h o' cid. host_reach gather_pc warp_arr one_idx [o'] 0 h \<and> om_num_index o' = 1 \<and> request_args one_idx o' = gather_fa \<and>
     (\<forall>k. ac_sub (fst (gd_dev (ho_dev h))) k = None) \<and> ac_done (fst (gd_dev (ho_dev h))) (0, 0) = [cid]"
proof -
  let ?m = "\<lambda>_ :: int. ctx_cleared"
  have g: "gd_dev (ho_dev host_0) = (gather_ac, ?m)" "gd_ctx_lookup (ho_dev host_0) = Map.empty" "ho_io host_0 = iostack_new" "ho_queues host_0 = 0" "ho_capacity host_0 = 0"
    by (simp_all add: host_0_def gather_start_def)
  have r0: "host_reach gather_pc warp_arr one_idx [] 0 host_0" by (rule host_reach.start [OF g(3) _ g(2,4,5)]) (simp add: g(1) gather_ac_def)
  have c: "clear_ctxs 0 1 ?m = ?m" by (simp add: clear_ctxs_def fun_eq_iff)
  obtain ac1 ctx cid where ret: "read_feature_kernel_submit_async_rowctx warp_arr gather_fa 0 0 0 (gather_ac, ?m) = Some (ac1, ?m(0 := ctx))"
      and free: "cids_free (pc_cids (ac_pc ac1))" and sub: "\<forall>k. ac_sub ac1 k = None \<longleftrightarrow> k \<noteq> (0, 0, cid)" "ac_done ac1 = (\<lambda>_. [])"
    using gather_submitted by blast
  have fa: "gather_fa = \<lparr>fa_index = one_idx 0, fa_dim = 2, fa_num_idx = 1, fa_cache_dim = 64, fa_key_off = 0\<rparr>"
    by (simp add: gather_fa_def one_idx_def)
  define o' where "o' = \<lparr>om_request_id = 1, om_index_ptr = 0, om_num_index = 1, om_dim = 2, om_cache_dim = 64, om_key_off = 0, om_ctxs = 0, om_ctx_count = 1,
    om_ctx_stride = 1, om_state = SUBMITTED\<rparr>"
  have args: "request_args one_idx o' = gather_fa" by (simp add: request_args_def o'_def fa)
  obtain h r where h: "read_feature_submit_async_registered_rowctx warp_arr one_idx 0 1 2 64 0 0 [(0, 0)] [0] host_0 = Some (h, r)"
      "outstanding_queue (ho_io h) = [o']" "gd_dev (ho_dev h) = (ac1, ?m(0 := ctx))"
    using ret c unfolding read_feature_submit_async_registered_rowctx_def g(1) fa [symmetric]
    by (simp add: Let_def g register_outstanding_def push_ctxs_def iostack_new_def o'_def register_launch_dev)
  have fits: "row_fits gather_pc warp_arr gather_fa (word_of_int i)" if "0 \<le> i \<and> i < 1" for i
  proof -
    have "i = 0" using that by simp
    then show ?thesis using gather_cfg(2) by simp
  qed
  have ok: "request_ok gather_pc warp_arr one_idx o'" using fits by (simp add: request_ok_def args) (simp add: o'_def)
  have fr: "\<forall>k d. submit_launch warp_arr (request_args one_idx o') 0 (take k (filter (\<lambda>(w, smid). idx_idx w < 1) [(0, 0)]))
      (fst (gd_dev (ho_dev host_0)), clear_ctxs 0 1 (snd (gd_dev (ho_dev host_0)))) = Some d \<longrightarrow> cids_free (pc_cids (ac_pc (fst d)))"
  proof (intro allI impI)
    fix k d
    assume a: "submit_launch warp_arr (request_args one_idx o') 0 (take k (filter (\<lambda>(w, smid). idx_idx w < 1) [(0, 0)]))
      (fst (gd_dev (ho_dev host_0)), clear_ctxs 0 1 (snd (gd_dev (ho_dev host_0)))) = Some d"
    have "cids_free (pc_cids gather_pc)" using gather_example(1) by (simp add: array_inv_def cache_inv_def inv0_def cfg_ok_def)
    then show "cids_free (pc_cids (ac_pc (fst d)))" using a ret free
      by (cases k) (auto simp: args g(1) c gather_cfg(5) gather_ac_def)
  qed
  have "host_reach gather_pc warp_arr one_idx ([] @ [o']) 0 h"
    by (rule host_reach.submit [OF r0 h(1) _ ok _ one_thread _ _ fr]) (simp_all add: h(2) one_thread g(3) iostack_new_def rows_of_all_def)
  then have r1: "host_reach gather_pc warp_arr one_idx [o'] 0 h" by simp
  obtain cmd where cmd: "ac_sub ac1 (0, 0, cid) = Some cmd" using sub(1) by blast
  let ?h = "h\<lparr>ho_dev := (ho_dev h)\<lparr>gd_dev := (device_complete 0 0 cid ac1, ?m(0 := ctx))\<rparr>\<rparr>"
  have "host_reach gather_pc warp_arr one_idx [o'] 0 ?h" by (rule host_reach.device [OF r1 h(3)])
  moreover have "\<forall>k. ac_sub (fst (gd_dev (ho_dev ?h))) k = None" using sub(1) cmd by (auto simp: device_complete_def)
  moreover have "ac_done (fst (gd_dev (ho_dev ?h))) (0, 0) = [cid]" using sub(2) cmd by (simp add: device_complete_def)
  ultimately show ?thesis using args by (intro exI [of _ ?h] exI [of _ o'] exI [of _ cid]) (simp add: o'_def)
qed

lemma host_ready_example:
  "\<exists>h o'. host_reach gather_pc warp_arr one_idx [o'] 0 h \<and> om_num_index o' = 1 \<and> request_args one_idx o' = gather_fa \<and> front_outstanding_ready (ho_io h)"
proof -
  obtain h o' cid where h: "host_reach gather_pc warp_arr one_idx [o'] 0 h" "om_num_index o' = 1" "request_args one_idx o' = gather_fa"
      "\<forall>k. ac_sub (fst (gd_dev (ho_dev h))) k = None" "ac_done (fst (gd_dev (ho_dev h))) (0, 0) = [cid]" using host_example by blast
  have n: "pc_n_qps gather_pc 0 = 1" by (simp add: gather_pc_def warp_pc_def)
  have q: "x < 1 \<longleftrightarrow> x = 0" for x :: u32 by (simp add: word_less_nat_alt unat_eq_0)
  have "\<exists>h'. service_registered_try_poll warp_arr [[0]] [0] h = Inr (h', of_nat 0 + 1) \<and> host_reach gather_pc warp_arr one_idx [o'] 0 h' \<and> front_outstanding_ready (ho_io h')"
    by (rule host_poll_ready [OF gather_cfg(1) h(1)]) (use h(2,4,5) one_thread in \<open>simp_all add: n q kMaxEventsPerQueue_def\<close>)
  then show ?thesis using h(2,3) by blast
qed

section \<open>Properties\<close>

text \<open>C7: Registered requests are served in order and correctly.  Take one controller, an array over one range, no window-buffer
  or prefetch counter pending (\<open>reg_cfg\<close>), and any sequence of submissions by
  \<open>read_feature_submit_async_registered_rowctx\<close> (rows on one page each), of \<open>service_registered_try_poll\<close>, of
  \<open>service_registered_try_poll_window_skip_front\<close>, of \<open>service_registered_poll_compatible\<close> (when no row of the oldest request
  has joined the transfer of another row) and of takings, with the controller completing commands in any order between them
  and during the blocking poll.  When the oldest request is ready, the call that takes its features returns, with the number
  of the request submitted first among those left; the features of that request's rows (the kernels get 0 for the caller's
  \<open>key_off\<close>) are in the output and no other cell has changed.\<close>

theorem registered_requests_in_order:
  assumes cfg: "reg_cfg pc arr" and r: "host_reach pc arr idx subs n h" and f: "front_outstanding_ready (ho_io h)"
    and ws: "threads_of (om_num_index (subs ! n)) ws"
  shows "\<exists>h' out'. read_feature_get_feature_light_registered_rowctx arr idx ws h out = Inr (h', out', of_nat n + 1) \<and>
    host_reach pc arr idx subs (n + 1) h' \<and> n < length subs \<and> features_in pc arr (request_args idx (subs ! n)) out out'"
proof -
  obtain s where inv: "host_inv pc arr idx subs n h s" using host_reach_inv [OF cfg r] by blast
  obtain o' where o': "front_outstanding (ho_io h) = Some o'" "om_state o' = READY" using f by (auto simp: front_outstanding_ready_def split: option.splits)
  have e: "subs ! n = o'\<lparr>om_state := SUBMITTED\<rparr>" using stack_pop [OF host_invD(4) [OF inv] o'(1)] by blast
  then have w: "threads_of (om_num_index o') ws" "request_args idx (subs ! n) = request_args idx o'" using ws by (simp_all add: request_args_def)
  obtain h' out' where g: "read_feature_get_feature_light_registered_rowctx arr idx ws h out = Inr (h', out', of_nat n + 1)" "n < length subs"
      "features_in pc arr (request_args idx o') out out'"
    using host_get [OF cfg inv o' w(1), of out] by blast
  then show ?thesis using host_reach.get [OF r g(1) o'(1) w(1)] w(2) by auto
qed

text \<open>C31: The calls throw only what their callers can avoid.  In the states of C7 none of the four polls throws:
  \<open>service_registered_try_poll\<close> and \<open>service_registered_try_poll_window_skip_front\<close> return, and the blocking
  \<open>service_registered_poll\<close> and \<open>service_registered_poll_compatible\<close> return or wait for ever; taking features throws exactly
  when there is no request or the oldest one is not ready.\<close>

theorem registered_calls_throw:
  assumes cfg: "reg_cfg pc arr" and r: "host_reach pc arr idx subs n h" and d: "\<forall>lqs \<in> set rounds. distinct lqs"
    and ts: "\<forall>o'. front_outstanding (ho_io h) = Some o' \<longrightarrow> threads_of (om_num_index o') ts"
    and tss: "\<forall>i o'. outstanding_at (of_nat i + 1) (ho_io h) = Some o' \<longrightarrow> threads_of (om_num_index o') (tss i)"
    and ws: "\<forall>o'. front_outstanding (ho_io h) = Some o' \<longrightarrow> threads_of (om_num_index o') ws"
  shows "service_registered_try_poll arr rounds ts h \<noteq> Inl e \<and> service_registered_try_poll_window_skip_front arr size' rounds tss h \<noteq> Inl e \<and>
    service_registered_poll arr idx es h \<noteq> Some (Inl e) \<and> service_registered_poll_compatible arr idx es h \<noteq> Some (Inl e) \<and>
    (read_feature_get_feature_light_registered_rowctx arr idx ws h out = Inl e \<longleftrightarrow>
       n = length subs \<and> e = No_Request \<or> n < length subs \<and> \<not> front_outstanding_ready (ho_io h) \<and> e = Not_Ready)"
proof (intro conjI)
  obtain s where inv: "host_inv pc arr idx subs n h s" using host_reach_inv [OF cfg r] by blast
  show "service_registered_try_poll arr rounds ts h \<noteq> Inl e" using host_poll [OF cfg inv d ts] by auto
  show "service_registered_try_poll_window_skip_front arr size' rounds tss h \<noteq> Inl e" using host_window [OF cfg inv d tss, of size'] by auto
  show "service_registered_poll arr idx es h \<noteq> Some (Inl e)" "service_registered_poll_compatible arr idx es h \<noteq> Some (Inl e)"
    using host_blocking_errors [OF inv] by blast+
  note S = host_invD(4) [OF inv, unfolded stack_inv_def]
  show "read_feature_get_feature_light_registered_rowctx arr idx ws h out = Inl e \<longleftrightarrow>
      n = length subs \<and> e = No_Request \<or> n < length subs \<and> \<not> front_outstanding_ready (ho_io h) \<and> e = Not_Ready"
  proof (cases "front_outstanding (ho_io h)")
    case None
    then have "outstanding_queue (ho_io h) = []" by (auto simp: front_outstanding_def split: list.splits)
    then have "n = length subs" using S by simp
    then show ?thesis using None by (auto simp: read_feature_get_feature_light_registered_rowctx_def)
  next
    case (Some o')
    have n: "n < length subs" using stack_pop [OF host_invD(4) [OF inv] Some] by blast
    have f: "front_outstanding_ready (ho_io h) \<longleftrightarrow> om_state o' = READY" using Some by (simp add: front_outstanding_ready_def)
    have t: "threads_of (om_num_index o') ws" using ws Some by simp
    show ?thesis
    proof (cases "om_state o' = READY")
      case True
      then show ?thesis using host_get [OF cfg inv Some True t, of out] n f by auto
    next
      case False
      then show ?thesis using Some n f by (auto simp: read_feature_get_feature_light_registered_rowctx_def)
    qed
  qed
qed

text \<open>C9: Registered requests become ready.  When the controller has completed every command, a poll whose service takes as
  many rounds as 64 events a queue need answers the number of the oldest request and leaves it ready.\<close>

theorem registered_poll_completes:
  assumes cfg: "reg_cfg pc arr" and r: "host_reach pc arr idx subs n h" and n: "n < length subs" "length subs < 2 ^ 64"
    and sub: "\<forall>k. ac_sub (fst (gd_dev (ho_dev h))) k = None" and ts: "threads_of (om_num_index (subs ! n)) ts"
    and rounds: "\<forall>lqs \<in> set rounds. distinct lqs \<and> (\<forall>q < pc_n_qps pc 0. q \<in> set lqs)"
    and enough: "\<forall>q < pc_n_qps pc 0. length (ac_done (fst (gd_dev (ho_dev h))) (0, q)) \<le> kMaxEventsPerQueue * length rounds"
  shows "\<exists>h'. service_registered_try_poll arr rounds ts h = Inr (h', of_nat n + 1) \<and> host_reach pc arr idx subs n h' \<and> front_outstanding_ready (ho_io h')"
  using assms by (rule host_poll_ready)

theorem registered_requests_in_order_witness:
  "\<exists>h h' out' o'. host_reach gather_pc warp_arr one_idx [o'] 0 h \<and>
    read_feature_get_feature_light_registered_rowctx warp_arr one_idx [0] h (\<lambda>_. 0) = Inr (h', out', 1) \<and> out' 0 = 1000 \<and> out' 1 = 1001"
proof -
  obtain h o' where h: "host_reach gather_pc warp_arr one_idx [o'] 0 h" "om_num_index o' = 1" "request_args one_idx o' = gather_fa"
      "front_outstanding_ready (ho_io h)" using host_ready_example by blast
  have w: "threads_of (om_num_index ([o'] ! 0)) [0 :: u64]" using h(2) one_thread by simp
  obtain h' out' where g: "read_feature_get_feature_light_registered_rowctx warp_arr one_idx [0] h (\<lambda>_. 0) = Inr (h', out', 1)"
      "features_in gather_pc warp_arr gather_fa (\<lambda>_. 0) out'"
    using registered_requests_in_order [OF gather_cfg(1) h(1,4) w, of "\<lambda>_. 0"] h(3) by auto
  have n: "fa_num_idx gather_fa = 1" "fa_dim gather_fa = 2" by (simp_all add: gather_fa_def)
  have e: "elem_view gather_pc warp_arr (feature_index gather_fa 0 t) = Some (out' (out_index gather_fa 0 t))" if "t < 2" for t
    using g(2) [unfolded features_in_def n, THEN conjunct1, rule_format, of 0 t] that by simp
  have "out' 0 = 1000" "out' 1 = 1001"
    using e [of 0] e [of 1] gather_example(5,6,8) by (simp_all add: out_index_def n)
  then show ?thesis using h(1) g(1) by blast
qed

theorem registered_poll_completes_witness:
  "\<exists>h h' o'. host_reach gather_pc warp_arr one_idx [o'] 0 h \<and>
    service_registered_try_poll warp_arr [[0]] [0] h = Inr (h', 1) \<and> front_outstanding_ready (ho_io h')"
proof -
  obtain h o' cid where h: "host_reach gather_pc warp_arr one_idx [o'] 0 h" "om_num_index o' = 1" "request_args one_idx o' = gather_fa"
      "\<forall>k. ac_sub (fst (gd_dev (ho_dev h))) k = None" "ac_done (fst (gd_dev (ho_dev h))) (0, 0) = [cid]" using host_example by blast
  have n: "pc_n_qps gather_pc 0 = 1" by (simp add: gather_pc_def warp_pc_def)
  have q: "x < 1 \<longleftrightarrow> x = 0" for x :: u32 by (simp add: word_less_nat_alt unat_eq_0)
  have "\<exists>h'. service_registered_try_poll warp_arr [[0]] [0] h = Inr (h', of_nat 0 + 1) \<and> host_reach gather_pc warp_arr one_idx [o'] 0 h' \<and> front_outstanding_ready (ho_io h')"
    by (rule registered_poll_completes [OF gather_cfg(1) h(1)]) (use h(2,4,5) one_thread in \<open>simp_all add: n q kMaxEventsPerQueue_def\<close>)
  then show ?thesis using h(1) by auto
qed

theorem registered_calls_throw_witness:
  "\<exists>h o'. host_reach gather_pc warp_arr one_idx [o'] 0 h \<and> service_registered_try_poll warp_arr [[0]] [0] h \<noteq> Inl Mark_Failed \<and>
    read_feature_get_feature_light_registered_rowctx warp_arr one_idx [0] host_0 (\<lambda>_. 0) = Inl No_Request"
proof -
  obtain h o' where h: "host_reach gather_pc warp_arr one_idx [o'] 0 h" "om_num_index o' = 1"
      "front_outstanding_ready (ho_io h)" using host_ready_example by blast
  obtain s where inv: "host_inv gather_pc warp_arr one_idx [o'] 0 h s" using host_reach_inv [OF gather_cfg(1) h(1)] by blast
  have one: "om_num_index o2 = 1" if "o2 \<in> set (outstanding_queue (ho_io h))" for o2
  proof -
    have "map (om_state_update (\<lambda>_. SUBMITTED)) (outstanding_queue (ho_io h)) = [o']" using host_invD(4) [OF inv] by (simp add: stack_inv_def)
    then have "o2\<lparr>om_state := SUBMITTED\<rparr> = o'" using that by (auto simp: map_eq_Cons_conv)
    then show ?thesis using h(2) by auto
  qed
  have f: "\<forall>o2. front_outstanding (ho_io h) = Some o2 \<longrightarrow> threads_of (om_num_index o2) [0 :: u32]"
      "\<forall>o2. front_outstanding (ho_io h) = Some o2 \<longrightarrow> threads_of (om_num_index o2) [0 :: u64]"
    using one one_thread by (auto simp: front_outstanding_def split: list.splits)
  have t: "\<forall>i o2. outstanding_at (of_nat i + 1) (ho_io h) = Some o2 \<longrightarrow> threads_of (om_num_index o2) [0 :: u32]"
    using one one_thread by (auto simp: outstanding_at_def split: if_splits)
  have d: "\<forall>lqs \<in> set [[0 :: u32]]. distinct lqs" by simp
  have "service_registered_try_poll warp_arr [[0]] [0] h \<noteq> Inl Mark_Failed"
    using registered_calls_throw [OF gather_cfg(1) h(1) d f(1) t f(2), of Mark_Failed] by blast
  moreover have "read_feature_get_feature_light_registered_rowctx warp_arr one_idx [0] host_0 (\<lambda>_. 0) = Inl No_Request"
    by (simp add: read_feature_get_feature_light_registered_rowctx_def host_0_def iostack_new_def front_outstanding_def)
  ultimately show ?thesis using h(1) by blast
qed

end
