(* ===== verification/Nvm_Rpc.thy ===== *)
theory Nvm_Rpc
  imports Nvm_Dma
begin

text \<open>
  Admin commands on the local admin queues (\<open>src/rpc.cpp\<close>): admin references with their handles and bindings,
  the creation of the admin queue pair in a DMA window, and \<open>execute_command\<close>, which puts a command on the queue
  and waits for a completion.  The lock of a reference makes every call one step, so that taking it is only
  an error that it may give.  The memory of the queues is a map from addresses to commands, and to completions; what
  the polls of a call see is an argument.  The last sections put a reference together with a controller that
  executes commands at its own pace.
\<close>

section \<open>Executing a command\<close>

record local_admin =
  la_qmem :: nat
  la_acq :: nvm_queue_t
  la_asq :: nvm_queue_t
  la_timeout :: u64

type_synonym sq_mem = "u64 \<Rightarrow> nvm_cmd_t"

definition set_cid :: "u16 \<Rightarrow> nvm_cmd_t \<Rightarrow> nvm_cmd_t" where
  "set_cid cid cmd = set_dword 0 (push_bit 16 (ucast cid) OR (dword cmd ! 0 AND 0xffff)) cmd"

text \<open>
  The first half of \<open>execute_command\<close>, up to the doorbell; \<open>None\<close> is a full queue.  The identifier is taken after the
  slot, from the advanced tail.
\<close>

definition submit_command :: "local_admin \<Rightarrow> sq_mem \<Rightarrow> nvm_cmd_t \<Rightarrow> (local_admin \<times> sq_mem \<times> (u64 \<times> u32) option) option" where
  "submit_command admin mem cmd =
     (case nvm_sq_enqueue (la_asq admin) of
        (q, None) \<Rightarrow> None
      | (q, Some slot) \<Rightarrow>
          (let local_copy = set_cid (NVM_DEFAULT_CID q) cmd
           in case nvm_sq_submit q of (q', db) \<Rightarrow> Some (admin\<lparr>la_asq := q'\<rparr>, mem(slot := local_copy), db)))"

text \<open>The second half: \<open>mems i\<close> is what the \<open>i\<close>-th poll sees, \<open>after\<close> what is there when the completion is copied.\<close>

definition await_completion ::
  "local_admin \<Rightarrow> (nat \<Rightarrow> cq_mem) \<Rightarrow> cq_mem \<Rightarrow> local_admin \<times> (u64 \<times> u32) option \<times> (errno + nvm_cpl_t)"
where
  "await_completion admin mems after =
     (case nvm_cq_dequeue_block mems (la_acq admin) (la_timeout admin) of
        (c, None) \<Rightarrow> (admin\<lparr>la_acq := c\<rparr>, None, Inl ETIME)
      | (c, Some a) \<Rightarrow>
          (case nvm_cq_update c of
             (c', db) \<Rightarrow> (admin\<lparr>la_asq := nvm_sq_update (la_asq admin), la_acq := c'\<rparr>, db, Inr (after a))))"

definition execute_command ::
  "local_admin \<Rightarrow> sq_mem \<Rightarrow> (nat \<Rightarrow> cq_mem) \<Rightarrow> cq_mem \<Rightarrow> nvm_cmd_t
     \<Rightarrow> local_admin \<times> sq_mem \<times> (u64 \<times> u32) option \<times> (u64 \<times> u32) option \<times> (errno + nvm_cpl_t)"
where
  "execute_command admin mem mems after cmd =
     (case submit_command admin mem cmd of
        None \<Rightarrow> (admin, mem, None, None, Inl EAGAIN)
      | Some (admin1, mem1, sqdb) \<Rightarrow>
          (case await_completion admin1 mems after of (admin2, cqdb, r) \<Rightarrow> (admin2, mem1, sqdb, cqdb, r)))"

section \<open>The controller\<close>

text \<open>
  A controller executes the commands announced at its doorbell in order: \<open>dev\<close> is what a command does to its state,
  with the result (\<open>dword 0\<close> of the completion) and the status.  \<open>as_sub\<close> records the commands submitted, \<open>as_log\<close> the
  completions posted and \<open>as_ans\<close> what the calls answered.
\<close>

record 'd adm_sys =
  as_la :: local_admin
  as_cmds :: sq_mem
  as_cpls :: cq_mem
  as_sqdb :: u32
  as_cqdb :: u32
  as_dev :: 'd
  as_sub :: "nvm_cmd_t list"
  as_log :: "nvm_cpl_t list"
  as_ans :: "(errno + nvm_cpl_t) list"

type_synonym 'd dev_fn = "'d \<Rightarrow> nvm_cmd_t \<Rightarrow> 'd \<times> u32 \<times> u16"

definition cpl_of :: "nvm_cmd_t \<Rightarrow> u32 \<Rightarrow> u16 \<Rightarrow> u16 \<Rightarrow> nvm_cpl_t" where
  "cpl_of cmd res sqhd status = \<lparr>cpl_dword = [res, 0, ucast sqhd, push_bit 17 (ucast status) OR ucast (cmd_cid cmd)]\<rparr>"

definition cq_view :: "nvm_cpl_t list \<Rightarrow> 'd adm_sys \<Rightarrow> cq_sys" where
  "cq_view taken s = \<lparr>sys_q = la_acq (as_la s), sys_mem = as_cpls s, sys_db = as_cqdb s, posted = as_log s, got = taken\<rparr>"

definition ctrl_can_exec :: "'d adm_sys \<Rightarrow> bool" where
  "ctrl_can_exec s \<longleftrightarrow> as_sqdb s \<noteq> of_nat (length (as_log s) mod unat (q_qs (la_asq (as_la s)))) \<and> device_can_post (cq_view [] s)"

definition ctrl_exec :: "'d dev_fn \<Rightarrow> 'd adm_sys \<Rightarrow> 'd adm_sys" where
  "ctrl_exec dev s =
     (let q = la_asq (as_la s); n = length (as_log s);
          cmd = as_cmds s (slot_addr q (of_nat (n mod unat (q_qs q))))
      in case dev (as_dev s) cmd of
           (d, res, status) \<Rightarrow>
             (let v = device_post (cpl_of cmd res (of_nat ((n + 1) mod unat (q_qs q))) status) (cq_view [] s)
              in s\<lparr>as_dev := d, as_cpls := sys_mem v, as_log := posted v\<rparr>))"

text \<open>
  A call of \<open>execute_command\<close> during which the controller posts something before the \<open>k\<close>-th poll, if it has anything to do;
  what it does after the poll that finds a completion is a step of its own.
\<close>

definition ctrl_try :: "'d dev_fn \<Rightarrow> 'd adm_sys \<Rightarrow> 'd adm_sys" where
  "ctrl_try dev s = (if ctrl_can_exec s then ctrl_exec dev s else s)"

text \<open>The state when the doorbell has been rung, which the controller sees.\<close>

definition announced :: "nvm_cmd_t \<Rightarrow> 'd adm_sys \<Rightarrow> 'd adm_sys" where
  "announced cmd s =
     (case submit_command (as_la s) (as_cmds s) cmd of
        None \<Rightarrow> s
      | Some (admin, mem, sqdb) \<Rightarrow>
          s\<lparr>as_la := admin, as_cmds := mem, as_sqdb := (case sqdb of None \<Rightarrow> as_sqdb s | Some (_, v) \<Rightarrow> v),
            as_sub := as_sub s @ [set_cid (NVM_DEFAULT_CID (la_asq admin)) cmd]\<rparr>)"

definition admin_call :: "'d dev_fn \<Rightarrow> nat option \<Rightarrow> nvm_cmd_t \<Rightarrow> 'd adm_sys \<Rightarrow> 'd adm_sys" where
  "admin_call dev when cmd s =
     (let s1 = announced cmd s;
          s2 = (case when of None \<Rightarrow> s1 | Some _ \<Rightarrow> ctrl_try dev s1);
          mems = (\<lambda>i. case when of None \<Rightarrow> as_cpls s1 | Some k \<Rightarrow> if i < k then as_cpls s1 else as_cpls s2)
      in case execute_command (as_la s) (as_cmds s) mems (as_cpls s2) cmd of
           (admin, mem, sqdb, cqdb, r) \<Rightarrow>
             s2\<lparr>as_la := admin, as_cmds := mem, as_cqdb := (case cqdb of None \<Rightarrow> as_cqdb s2 | Some (_, v) \<Rightarrow> v),
                as_ans := as_ans s2 @ [r]\<rparr>)"

text \<open>Calls and steps of the controller in any order.\<close>

inductive adm_reach :: "'d dev_fn \<Rightarrow> 'd adm_sys \<Rightarrow> 'd adm_sys \<Rightarrow> bool" for dev s0 where
  start: "adm_reach dev s0 s0"
| exec: "adm_reach dev s0 s \<Longrightarrow> ctrl_can_exec s \<Longrightarrow> adm_reach dev s0 (ctrl_exec dev s)"
| call: "adm_reach dev s0 s \<Longrightarrow> adm_reach dev s0 (admin_call dev when cmd s)"

definition adm_fresh :: "'d adm_sys \<Rightarrow> bool" where
  "adm_fresh s \<longleftrightarrow>
     (let q = la_asq (as_la s) in
       sq_inv q \<and> q_es q = 64 \<and> q_head q = 0 \<and> q_tail q = 0 \<and> q_last q = 0 \<and> as_sqdb s = 0 \<and>
       q_qs q \<le> q_qs (la_acq (as_la s)) \<and> cq_fresh (cq_view [] s) \<and> as_sub s = [] \<and> as_ans s = [])"

text \<open>What the controller answers to the \<open>i\<close>-th command: it has executed those before.\<close>

definition dev_state :: "'d dev_fn \<Rightarrow> 'd \<Rightarrow> nvm_cmd_t list \<Rightarrow> 'd" where
  "dev_state dev d cmds = foldl (\<lambda>d cmd. fst (dev d cmd)) d cmds"

definition completion :: "'d dev_fn \<Rightarrow> 'd \<Rightarrow> nat \<Rightarrow> nat \<Rightarrow> nvm_cmd_t list \<Rightarrow> nat \<Rightarrow> nvm_cpl_t" where
  "completion dev d sqs cqs cmds i =
     (case dev (dev_state dev d (take i cmds)) (cmds ! i) of
        (_, res, status) \<Rightarrow> set_phase (even (i div cqs)) (cpl_of (cmds ! i) res (of_nat ((i + 1) mod sqs)) status))"

definition successes :: "('e + 'a) list \<Rightarrow> 'a list" where
  "successes rs = concat (map (case_sum (\<lambda>_. []) (\<lambda>x. [x])) rs)"

definition adm_inv :: "'d dev_fn \<Rightarrow> 'd \<Rightarrow> 'd adm_sys \<Rightarrow> bool" where
  "adm_inv dev d0 s \<longleftrightarrow>
     (let q = la_asq (as_la s); qs = unat (q_qs q); cqs = unat (q_qs (la_acq (as_la s)));
          m = length (as_sub s); p = length (as_log s); c = length (successes (as_ans s)) in
       sq_inv q \<and> q_es q = 64 \<and> unat (q_tail q) = m mod qs \<and> unat (q_head q) = c mod qs \<and> c \<le> p \<and> p \<le> m \<and> m < c + qs \<and>
       q_last q = q_tail q \<and> as_sqdb s = q_tail q \<and> qs \<le> cqs \<and>
       cq_inv c (cq_view (successes (as_ans s)) s) \<and>
       (\<forall>i. p \<le> i \<and> i < m \<longrightarrow> as_cmds s (slot_addr q (of_nat (i mod qs))) = as_sub s ! i) \<and>
       as_dev s = dev_state dev d0 (take p (as_sub s)) \<and>
       as_log s = map (completion dev d0 qs cqs (as_sub s)) [0..<p])"

section \<open>Lemmas: the controller\<close>

lemma successes_simps [simp]: "successes [] = []" "successes (Inl e # rs) = successes rs" "successes (Inr x # rs) = x # successes rs"
  "successes (rs @ rs') = successes rs @ successes rs'"
  by (simp_all add: successes_def)

lemma adm_invD:
  assumes "adm_inv dev d0 s"
  defines "q \<equiv> la_asq (as_la s)" and "qs \<equiv> unat (q_qs (la_asq (as_la s)))" and "cqs \<equiv> unat (q_qs (la_acq (as_la s)))"
    and "m \<equiv> length (as_sub s)" and "p \<equiv> length (as_log s)" and "c \<equiv> length (successes (as_ans s))"
  shows "sq_inv q" "q_es q = 64" "unat (q_tail q) = m mod qs" "unat (q_head q) = c mod qs" "c \<le> p" "p \<le> m" "m < c + qs"
    "q_last q = q_tail q" "as_sqdb s = q_tail q" "qs \<le> cqs" "cq_inv c (cq_view (successes (as_ans s)) s)"
    "p \<le> i \<Longrightarrow> i < m \<Longrightarrow> as_cmds s (slot_addr q (of_nat (i mod qs))) = as_sub s ! i"
    "as_dev s = dev_state dev d0 (take p (as_sub s))" "as_log s = map (completion dev d0 qs cqs (as_sub s)) [0..<p]"
  using assms unfolding adm_inv_def Let_def by blast+

lemma completion_append:
  "i < length cmds \<Longrightarrow> completion dev d sqs cqs (cmds @ xs) i = completion dev d sqs cqs cmds i"
  by (simp add: completion_def nth_append)

lemma slot_addr64_inj:
  assumes e: "q_es q = 64" and i: "i < 65536" and j: "j < 65536" and eq: "slot_addr q (of_nat i) = slot_addr q (of_nat j)"
  shows "i = j"
proof -
  have u: "unat (ucast ((64 :: u32) * of_nat k) :: u64) = 64 * k" if "k < 65536" for k
  proof -
    have k: "unat (of_nat k :: u32) = k" using that by (simp add: unat_of_nat)
    have "unat ((64 :: u32) * of_nat k) = 64 * k" using that k unat_mult_lem [of "64 :: u32" "of_nat k"] by simp
    then show ?thesis by (simp add: unat_ucast_up)
  qed
  have "ucast ((64 :: u32) * of_nat i) = (ucast ((64 :: u32) * of_nat j) :: u64)" using eq e by (simp add: slot_addr_def)
  then have "64 * i = 64 * j" using u [OF i] u [OF j] by metis
  then show ?thesis by simp
qed

lemma mod_neq_window: "a \<noteq> b \<Longrightarrow> a < b + q \<Longrightarrow> b < a + q \<Longrightarrow> a mod q \<noteq> b mod (q :: nat)"
  using mod_eq_window [of a q b] mod_eq_window [of b q a] by (metis nat_le_linear)

lemma cq_inv_upd_now:
  assumes "cq_inv a s"
  shows "cq_inv (length (got s)) (driver_update s)"
proof -
  note I = cq_invD [OF assms]
  obtain db where db: "q_db (sys_q s) = Some db" using I(4) by auto
  let ?q' = "(sys_q s)\<lparr>q_last := q_head (sys_q s), q_tail := q_head (sys_q s)\<rparr>"
  have sl: "slot_addr ?q' = slot_addr (sys_q s)" by (simp add: slot_addr_def fun_eq_iff)
  show ?thesis
  proof (cases "q_last (sys_q s) = q_head (sys_q s)")
    case True
    then have "a mod unat (q_qs (sys_q s)) = length (got s) mod unat (q_qs (sys_q s))" using I(8,10,11) by simp
    then have "a = length (got s)" using I(5,6,7) mod_eq_window [of a _ "length (got s)"] by fastforce
    then show ?thesis using assms True by (simp add: driver_update_def nvm_cq_update_def db)
  next
    case False
    then show ?thesis
      unfolding driver_update_def nvm_cq_update_def db cq_inv_def Let_def using I db by (simp add: sl)
  qed
qed

lemma ctrl_can_exec_iff:
  assumes inv: "adm_inv dev d0 s"
  shows "ctrl_can_exec s \<longleftrightarrow> length (as_log s) < length (as_sub s)"
proof -
  note I = adm_invD [OF inv]
  let ?qs = "unat (q_qs (la_asq (as_la s)))" and ?p = "length (as_log s)" and ?m = "length (as_sub s)" and ?c = "length (successes (as_ans s))"
  note C = cq_invD [OF I(11)]
  have q: "2 \<le> ?qs" "?qs \<le> 65536" using sq_invD(2,3) [OF I(1)] by simp_all
  have u: "unat (of_nat (?p mod ?qs) :: u32) = ?p mod ?qs"
  proof -
    have "?p mod ?qs < ?qs" using q(1) by simp
    then show ?thesis using q(2) unfolding unat_of_nat by (intro mod_less) simp
  qed
  have a: "as_sqdb s \<noteq> of_nat (?p mod ?qs) \<longleftrightarrow> ?m mod ?qs \<noteq> ?p mod ?qs" using I(3,9) u by (simp add: unat_eq_iff)
  show ?thesis
  proof (cases "?p < ?m")
    case True
    then have "?m mod ?qs \<noteq> ?p mod ?qs" using I(5,7) by (intro mod_neq_window) simp_all
    moreover have "device_can_post (cq_view [] s)"
    proof -
      have "(?p + 1) mod unat (q_qs (la_acq (as_la s))) \<noteq> ?c mod unat (q_qs (la_acq (as_la s)))"
        using True I(5,7,10) by (intro mod_neq_window) simp_all
      then show ?thesis using C(10) by (simp add: device_can_post_def cq_view_def)
    qed
    ultimately show ?thesis using True a by (simp add: ctrl_can_exec_def)
  next
    case False
    then have "?p = ?m" using I(6) by simp
    then show ?thesis using False a by (simp add: ctrl_can_exec_def)
  qed
qed

lemma ctrl_exec_inv:
  assumes inv: "adm_inv dev d0 s" and can: "ctrl_can_exec s"
  shows "adm_inv dev d0 (ctrl_exec dev s)" "length (as_log (ctrl_exec dev s)) = length (as_log s) + 1"
    "as_la (ctrl_exec dev s) = as_la s" "as_ans (ctrl_exec dev s) = as_ans s" "as_sub (ctrl_exec dev s) = as_sub s"
    "as_cmds (ctrl_exec dev s) = as_cmds s" "as_sqdb (ctrl_exec dev s) = as_sqdb s" "as_cqdb (ctrl_exec dev s) = as_cqdb s"
proof -
  note I = adm_invD [OF inv]
  let ?q = "la_asq (as_la s)" and ?qs = "unat (q_qs (la_asq (as_la s)))" and ?cqs = "unat (q_qs (la_acq (as_la s)))"
  let ?p = "length (as_log s)" and ?m = "length (as_sub s)" and ?c = "length (successes (as_ans s))"
  have pm: "?p < ?m" using can ctrl_can_exec_iff [OF inv] by simp
  obtain d res st where dv: "dev (as_dev s) (as_sub s ! ?p) = (d, res, st)" by (cases "dev (as_dev s) (as_sub s ! ?p)")
  let ?cpl = "cpl_of (as_sub s ! ?p) res (of_nat ((?p + 1) mod ?qs)) st" and ?v = "cq_view (successes (as_ans s)) s"
  have e: "ctrl_exec dev s = s\<lparr>as_dev := d, as_cpls := sys_mem (device_post ?cpl ?v), as_log := posted (device_post ?cpl ?v)\<rparr>"
    using I(12) [of ?p] pm dv by (simp add: ctrl_exec_def Let_def device_post_def cq_view_def)
  have l: "posted (device_post ?cpl ?v) = as_log s @ [completion dev d0 ?qs ?cqs (as_sub s) ?p]"
    using dv I(13) by (simp add: device_post_def Let_def cq_view_def completion_def)
  show L: "length (as_log (ctrl_exec dev s)) = ?p + 1" unfolding e using arg_cong [OF l, of length] by simp
  show F: "as_la (ctrl_exec dev s) = as_la s" "as_ans (ctrl_exec dev s) = as_ans s" "as_sub (ctrl_exec dev s) = as_sub s"
    "as_cmds (ctrl_exec dev s) = as_cmds s" "as_sqdb (ctrl_exec dev s) = as_sqdb s" "as_cqdb (ctrl_exec dev s) = as_cqdb s"
    by (simp_all add: e)
  have "device_can_post ?v" using can by (simp add: ctrl_can_exec_def device_can_post_def cq_view_def)
  then have "cq_inv ?c (device_post ?cpl ?v)" by (rule cq_inv_post [OF I(11)]) (simp add: cpl_of_def)
  moreover have "device_post ?cpl ?v = cq_view (successes (as_ans s)) (ctrl_exec dev s)"
    by (simp add: e device_post_def Let_def cq_view_def)
  ultimately have cq: "cq_inv ?c (cq_view (successes (as_ans s)) (ctrl_exec dev s))" by simp
  have dev: "as_dev (ctrl_exec dev s) = dev_state dev d0 (take (?p + 1) (as_sub s))"
    using dv I(13) pm by (simp add: e dev_state_def take_Suc_conv_app_nth)
  have lg: "as_log (ctrl_exec dev s) = map (completion dev d0 ?qs ?cqs (as_sub s)) [0..<?p + 1]"
    using l I(14) by (simp add: e)
  show "adm_inv dev d0 (ctrl_exec dev s)"
    unfolding adm_inv_def Let_def F L using I(1-10) I(12) cq dev lg pm by auto
qed

lemma ctrl_try_inv:
  assumes inv: "adm_inv dev d0 s"
  shows "adm_inv dev d0 (ctrl_try dev s)"
    "length (as_log (ctrl_try dev s)) = (if length (as_log s) < length (as_sub s) then length (as_log s) + 1 else length (as_log s))"
    "as_la (ctrl_try dev s) = as_la s" "as_ans (ctrl_try dev s) = as_ans s" "as_sub (ctrl_try dev s) = as_sub s"
    "as_cmds (ctrl_try dev s) = as_cmds s" "as_sqdb (ctrl_try dev s) = as_sqdb s" "as_cqdb (ctrl_try dev s) = as_cqdb s"
  using ctrl_exec_inv [OF inv] ctrl_can_exec_iff [OF inv] inv by (auto simp: ctrl_try_def)


section \<open>Lemmas: a call\<close>

lemma sq_count_eq:
  assumes inv: "adm_inv dev d0 s"
  shows "sq_count (la_asq (as_la s)) = length (as_sub s) - length (successes (as_ans s))"
proof -
  note I = adm_invD [OF inv]
  let ?qs = "unat (q_qs (la_asq (as_la s)))" and ?m = "length (as_sub s)" and ?c = "length (successes (as_ans s))"
  have q: "0 < ?qs" using sq_invD(2) [OF I(1)] by simp
  obtain d where d: "?m = ?c + d" "d < ?qs" using I(5,6,7) le_Suc_ex [of ?c ?m] by auto
  have "?c mod ?qs < ?qs" using q by simp
  then have "(?c + d) mod ?qs + ?qs - ?c mod ?qs = (?c + d) mod ?qs + (?qs - ?c mod ?qs)" by simp
  then have "((?c + d) mod ?qs + ?qs - ?c mod ?qs) mod ?qs = ((?c + d) + (?qs - ?c mod ?qs)) mod ?qs" by (simp add: mod_add_left_eq)
  also have "(?c + d) + (?qs - ?c mod ?qs) = d + ?qs + (?c - ?c mod ?qs)" using \<open>?c mod ?qs < ?qs\<close> by simp
  also have "\<dots> mod ?qs = d" using d(2) by (simp add: minus_mod_eq_mult_div)
  finally show ?thesis unfolding sq_count_def I(3,4) using d(1) by simp
qed

lemma announced_full:
  assumes inv: "adm_inv dev d0 s" and full: "length (as_sub s) + 1 = length (successes (as_ans s)) + unat (q_qs (la_asq (as_la s)))"
  shows "submit_command (as_la s) (as_cmds s) cmd = None" "announced cmd s = s"
proof -
  have "nvm_sq_full (la_asq (as_la s))"
    using nvm_sq_full_iff [OF adm_invD(1) [OF inv]] sq_count_eq [OF inv] full by simp
  then show "submit_command (as_la s) (as_cmds s) cmd = None" by (simp add: submit_command_def nvm_sq_enqueue_def)
  then show "announced cmd s = s" by (simp add: announced_def)
qed

lemma announced_inv:
  assumes inv: "adm_inv dev d0 s" and room: "length (as_sub s) + 1 < length (successes (as_ans s)) + unat (q_qs (la_asq (as_la s)))"
    and s1_def: "s1 = announced cmd s"
  shows "\<exists>db. submit_command (as_la s) (as_cmds s) cmd = Some (as_la s1, as_cmds s1, db)"
    "as_sub s1 = as_sub s @ [set_cid (NVM_DEFAULT_CID (la_asq (as_la s1))) cmd]"
    "la_acq (as_la s1) = la_acq (as_la s)" "la_timeout (as_la s1) = la_timeout (as_la s)" "as_log s1 = as_log s" "as_ans s1 = as_ans s"
    "q_qs (la_asq (as_la s1)) = q_qs (la_asq (as_la s))" "as_cpls s1 = as_cpls s" "as_dev s1 = as_dev s" "as_cqdb s1 = as_cqdb s"
    "adm_inv dev d0 s1"
proof -
  note I = adm_invD [OF inv]
  let ?q = "la_asq (as_la s)"
  let ?q1 = "fst (nvm_sq_enqueue ?q)"
  let ?q2 = "?q1\<lparr>q_last := q_tail ?q1\<rparr>" and ?qs = "unat (q_qs ?q)" and ?m = "length (as_sub s)"
  have q: "2 \<le> ?qs" "?qs \<le> 65536" using sq_invD(2,3) [OF I(1)] by simp_all
  have cnt: "sq_count ?q < ?qs - 1" using room I(5,6) unfolding sq_count_eq [OF inv] by linarith
  note E = sq_enqueue_ok [OF I(1) cnt]
  have E': "q_es ?q1 = q_es ?q" "q_vaddr ?q1 = q_vaddr ?q" "q_last ?q1 = q_last ?q" by (simp_all add: nvm_sq_enqueue_def Let_def)
  have tl: "unat (q_tail ?q1) = (?m + 1) mod ?qs" using E(2) I(3) by (simp add: mod_Suc_eq)
  have "(?m + 1) mod ?qs \<noteq> ?m mod ?qs" using q(1) by (intro mod_neq_window) simp_all
  then have nl: "q_last ?q1 \<noteq> q_tail ?q1" using tl I(3,8) E'(3) by (auto simp: unat_eq_iff)
  obtain dbr where db: "q_db ?q1 = Some dbr" using sq_invD(6) [OF I(1)] E(5) by auto
  have enq: "nvm_sq_enqueue ?q = (?q1, Some (slot_addr ?q (q_tail ?q)))" using E(1) by (metis prod.collapse)
  let ?cmd = "set_cid (NVM_DEFAULT_CID ?q1) cmd"
  have cid: "NVM_DEFAULT_CID ?q2 = NVM_DEFAULT_CID ?q1" by (simp add: NVM_DEFAULT_CID_def)
  have sub: "submit_command (as_la s) (as_cmds s) cmd = Some ((as_la s)\<lparr>la_asq := ?q2\<rparr>,
      (as_cmds s)(slot_addr ?q (q_tail ?q) := ?cmd), Some (dbr, q_tail ?q1))"
    using nl db by (subst submit_command_def, subst enq) (simp add: nvm_sq_submit_def Let_def)
  have s1: "s1 = s\<lparr>as_la := (as_la s)\<lparr>la_asq := ?q2\<rparr>, as_cmds := (as_cmds s)(slot_addr ?q (q_tail ?q) := ?cmd),
      as_sqdb := q_tail ?q1, as_sub := as_sub s @ [?cmd]\<rparr>"
    unfolding s1_def announced_def sub by (simp add: cid)
  show "\<exists>db. submit_command (as_la s) (as_cmds s) cmd = Some (as_la s1, as_cmds s1, db)" unfolding sub s1 by simp
  show F: "as_sub s1 = as_sub s @ [set_cid (NVM_DEFAULT_CID (la_asq (as_la s1))) cmd]" "la_acq (as_la s1) = la_acq (as_la s)"
    "la_timeout (as_la s1) = la_timeout (as_la s)" "as_log s1 = as_log s" "as_ans s1 = as_ans s"
    "q_qs (la_asq (as_la s1)) = q_qs (la_asq (as_la s))" "as_cpls s1 = as_cpls s" "as_dev s1 = as_dev s" "as_cqdb s1 = as_cqdb s"
    unfolding s1 using E(4) cid by simp_all
  have sa: "slot_addr ?q2 = slot_addr ?q" using E' by (simp add: slot_addr_def fun_eq_iff)
  have "unat (of_nat (?m mod ?qs) :: u32) = ?m mod ?qs"
  proof -
    have "?m mod ?qs < ?qs" using q(1) by simp
    then show ?thesis using q(2) unfolding unat_of_nat by (intro mod_less) simp
  qed
  then have t: "q_tail ?q = of_nat (?m mod ?qs)" using I(3) by (simp add: unat_eq_iff)
  have slots: "as_cmds s1 (slot_addr ?q2 (of_nat (i mod ?qs))) = as_sub s1 ! i" if i: "length (as_log s) \<le> i" "i < ?m + 1" for i
  proof (cases "i = ?m")
    case True
    then show ?thesis by (simp add: s1 sa t nth_append)
  next
    case False
    then have i': "i < ?m" using i(2) by simp
    have ne: "i mod ?qs \<noteq> ?m mod ?qs" using False i I(5) room by (intro mod_neq_window) simp_all
    have lt: "k mod ?qs < 65536" for k
    proof -
      have "k mod ?qs < ?qs" using q(1) by simp
      then show ?thesis using q(2) by linarith
    qed
    then have "slot_addr ?q (of_nat (i mod ?qs)) \<noteq> slot_addr ?q (q_tail ?q)" using slot_addr64_inj [OF I(2) lt lt] ne unfolding t by blast
    then show ?thesis using I(12) [OF i(1) i'] i' by (simp add: s1 sa nth_append)
  qed
  have "sq_inv ?q2" by (rule sq_inv_cong [OF sq_inv_steps(1) [OF I(1)]]) (use sq_inv_steps(1) [OF I(1)] in \<open>simp_all add: sq_inv_def\<close>)
  moreover have "cq_view g s1 = cq_view g s" for g by (simp add: s1 cq_view_def)
  moreover have "as_log s = map (completion dev d0 ?qs (unat (q_qs (la_acq (as_la s)))) (as_sub s @ [?cmd])) [0..<length (as_log s)]"
    by (subst I(14), rule map_cong [OF refl], subst completion_append) (use I(6) in auto)
  ultimately show "adm_inv dev d0 s1"
    using I(2,4-7,10,11,13) slots tl room E E' unfolding adm_inv_def Let_def F unfolding s1 by (simp add: cid)
qed


lemma nvm_cq_dequeue_none: "snd (nvm_cq_dequeue m q) = None \<Longrightarrow> nvm_cq_dequeue m q = (q, None)"
  by (simp add: nvm_cq_dequeue_def Let_def split: option.splits)

lemma dequeue_block_loop_cases:
  "dequeue_block_loop mems i cq None nsecs = (q', r) \<Longrightarrow>
     r = None \<and> q' = cq \<or> r \<noteq> None \<and> (\<exists>j. nvm_cq_dequeue (mems j) cq = (q', r))"
proof (induction mems i cq "None :: u64 option" nsecs rule: dequeue_block_loop.induct)
  case (1 mems i cq nsecs)
  show ?case
  proof (cases "nsecs > 0")
    case False
    then show ?thesis using 1(2) by (subst (asm) dequeue_block_loop.simps) auto
  next
    case True
    note n = True
    show ?thesis
    proof (cases "snd (nvm_cq_dequeue (mems i) cq)")
      case None
      then have d: "nvm_cq_dequeue (mems i) cq = (cq, None)" by (rule nvm_cq_dequeue_none)
      then have "dequeue_block_loop mems (i + 1) cq None (nvm_delay_remain nsecs) = (q', r)"
        using 1(2) n by (subst (asm) dequeue_block_loop.simps) simp
      then show ?thesis using 1(1) [OF _ d [symmetric]] n by blast
    next
      case (Some a)
      then obtain q1 where d: "nvm_cq_dequeue (mems i) cq = (q1, Some a)" by (metis prod.collapse)
      then have "dequeue_block_loop mems (i + 1) q1 (Some a) (nvm_delay_remain nsecs) = (q', r)"
        using 1(2) n by (subst (asm) dequeue_block_loop.simps) simp
      then have "q1 = q' \<and> r = Some a" by (subst (asm) dequeue_block_loop.simps) simp
      then show ?thesis using d by blast
    qed
  qed
qed

lemma dequeue_block_cases:
  assumes "nvm_cq_dequeue_block mems cq timeout = (q', r)"
  shows "r = None \<and> q' = cq \<or> r \<noteq> None \<and> (\<exists>j. nvm_cq_dequeue (mems j) cq = (q', r))"
proof (cases "snd (nvm_cq_dequeue (mems 0) cq)")
  case None
  then have "nvm_cq_dequeue (mems 0) cq = (cq, None)" by (rule nvm_cq_dequeue_none)
  then show ?thesis using assms dequeue_block_loop_cases by (fastforce simp: nvm_cq_dequeue_block_def)
next
  case (Some a)
  then obtain q1 where d: "nvm_cq_dequeue (mems 0) cq = (q1, Some a)" by (metis prod.collapse)
  then have "q1 = q' \<and> r = Some a"
    using assms by (simp add: nvm_cq_dequeue_block_def) (subst (asm) dequeue_block_loop.simps, simp)
  then show ?thesis using d by blast
qed

lemma adm_dequeue:
  assumes inv: "adm_inv dev d0 s"
  shows "snd (nvm_cq_dequeue (as_cpls s) (la_acq (as_la s))) = None \<longleftrightarrow> length (successes (as_ans s)) = length (as_log s)"
    and "snd (nvm_cq_dequeue (as_cpls s) (la_acq (as_la s))) = Some a \<Longrightarrow> as_cpls s a = as_log s ! length (successes (as_ans s))"
proof -
  note I = adm_invD(5,11) [OF inv]
  have v: "sys_mem (cq_view g s) = as_cpls s" "sys_q (cq_view g s) = la_acq (as_la s)" "posted (cq_view g s) = as_log s" "got (cq_view g s) = g" for g
    by (simp_all add: cq_view_def)
  note P = cq_poll_eq [OF I(2), unfolded v]
  show "snd (nvm_cq_dequeue (as_cpls s) (la_acq (as_la s))) = None \<longleftrightarrow> length (successes (as_ans s)) = length (as_log s)"
    using P(1) I(1) by (auto simp: nvm_cq_dequeue_def Let_def)
  show "as_cpls s a = as_log s ! length (successes (as_ans s))" if "snd (nvm_cq_dequeue (as_cpls s) (la_acq (as_la s))) = Some a"
    using that P by (auto simp: nvm_cq_dequeue_def Let_def split: if_splits)
qed

text \<open>A completion found in an older memory is found in the newer one.\<close>

lemma adm_dequeue_mono:
  assumes i: "adm_inv dev d0 s" and i': "adm_inv dev d0 s'" and la: "as_la s' = as_la s" and an: "as_ans s' = as_ans s"
    and le: "length (as_log s) \<le> length (as_log s')" and d: "nvm_cq_dequeue (as_cpls s) (la_acq (as_la s)) = (q, Some a)"
  shows "nvm_cq_dequeue (as_cpls s') (la_acq (as_la s)) = (q, Some a)"
proof -
  have v: "sys_mem (cq_view g s) = as_cpls s" "sys_q (cq_view g s) = la_acq (as_la s)" "posted (cq_view g s) = as_log s" "got (cq_view g s) = g"
    for g and s :: "'b adm_sys" by (simp_all add: cq_view_def)
  note P = cq_poll_eq(1) [OF adm_invD(11) [OF i], unfolded v] and P' = cq_poll_eq(1) [OF adm_invD(11) [OF i'], unfolded v]
  have "length (successes (as_ans s)) < length (as_log s)" using d P by (auto simp: nvm_cq_dequeue_def split: if_splits)
  then have "nvm_cq_poll (as_cpls s') (la_acq (as_la s)) = nvm_cq_poll (as_cpls s) (la_acq (as_la s))" using P P' le la an by simp
  then show ?thesis using d by (simp add: nvm_cq_dequeue_def)
qed

lemma await_inv:
  assumes inv: "adm_inv dev d0 s" and inv': "adm_inv dev d0 s'" and la: "as_la s' = as_la s" and an: "as_ans s' = as_ans s"
    and le: "length (as_log s) \<le> length (as_log s')" and mems: "\<And>j. mems j = as_cpls s \<or> mems j = as_cpls s'"
    and aw: "await_completion (as_la s') mems (as_cpls s') = (admin, db, r)"
  defines "t \<equiv> s'\<lparr>as_la := admin, as_cqdb := (case db of None \<Rightarrow> as_cqdb s' | Some (_, v) \<Rightarrow> v), as_ans := as_ans s' @ [r]\<rparr>"
  shows "adm_inv dev d0 t"
    and "r = Inl ETIME \<or> length (successes (as_ans s')) < length (as_log s') \<and> r = Inr (as_log s' ! length (successes (as_ans s')))"
proof -
  note I = adm_invD [OF inv'] and D = adm_dequeue [OF inv']
  let ?acq = "la_acq (as_la s')" and ?c = "length (successes (as_ans s'))"
  obtain c' x where b: "nvm_cq_dequeue_block mems ?acq (la_timeout (as_la s')) = (c', x)" by (metis prod.collapse)
  have "adm_inv dev d0 t \<and> (r = Inl ETIME \<or> ?c < length (as_log s') \<and> r = Inr (as_log s' ! ?c))"
  proof (cases x)
    case None
    then have e: "admin = as_la s'" "db = None" "r = Inl ETIME" using aw b dequeue_block_cases [OF b] by (auto simp: await_completion_def)
    have "t = s'\<lparr>as_ans := as_ans s' @ [Inl ETIME]\<rparr>" by (simp add: t_def e)
    moreover have "cq_view g (s'\<lparr>as_ans := as_ans s' @ [Inl ETIME]\<rparr>) = cq_view g s'" for g by (simp add: cq_view_def)
    ultimately show ?thesis using inv' e(3) by (simp add: adm_inv_def Let_def)
  next
    case (Some a)
    obtain j where j: "nvm_cq_dequeue (mems j) ?acq = (c', Some a)" using dequeue_block_cases [OF b] Some by auto
    have d: "nvm_cq_dequeue (as_cpls s') ?acq = (c', Some a)"
      using mems [of j] j adm_dequeue_mono [OF inv inv' la an le] la by auto
    obtain c'' db' where u: "nvm_cq_update c' = (c'', db')" by (metis prod.collapse)
    have e: "admin = (as_la s')\<lparr>la_asq := nvm_sq_update (la_asq (as_la s')), la_acq := c''\<rparr>" "db = db'" "r = Inr (as_cpls s' a)"
      using aw b Some u by (auto simp: await_completion_def)
    have lt: "?c < length (as_log s')" using D(1) d I(5) by simp
    have r: "as_cpls s' a = as_log s' ! ?c" using D(2) d by simp
    let ?v = "cq_view (successes (as_ans s')) s'"
    have "cq_inv (length (got (driver_dequeue ?v))) (driver_update (driver_dequeue ?v))"
      by (rule cq_inv_upd_now [OF cq_inv_deq [OF I(11)]])
    moreover have "driver_dequeue ?v = ?v\<lparr>sys_q := c', got := successes (as_ans s') @ [as_cpls s' a]\<rparr>"
      using d by (simp add: driver_dequeue_def cq_view_def)
    moreover have "driver_update (?v\<lparr>sys_q := c', got := successes (as_ans s') @ [as_cpls s' a]\<rparr>) = cq_view (successes (as_ans t)) t"
      using u by (simp add: driver_update_def t_def e cq_view_def split: option.split)
    ultimately have cq: "cq_inv (?c + 1) (cq_view (successes (as_ans t)) t)" by simp
    note U = sq_update_ok [OF I(1)] sq_inv_steps(2) [OF I(1)]
    have U': "q_es (nvm_sq_update (la_asq (as_la s'))) = q_es (la_asq (as_la s'))" "q_vaddr (nvm_sq_update (la_asq (as_la s'))) = q_vaddr (la_asq (as_la s'))"
      "q_last (nvm_sq_update (la_asq (as_la s'))) = q_last (la_asq (as_la s'))" by (simp_all add: nvm_sq_update_def Let_def)
    have sl: "slot_addr (nvm_sq_update (la_asq (as_la s'))) = slot_addr (la_asq (as_la s'))" using U' by (simp add: slot_addr_def fun_eq_iff)
    have cqs: "q_qs c'' = q_qs ?acq"
      using d u by (auto simp: nvm_cq_dequeue_def nvm_cq_update_def Let_def split: option.splits if_splits)
    have F: "la_asq (as_la t) = nvm_sq_update (la_asq (as_la s'))" "la_acq (as_la t) = c''" "as_sub t = as_sub s'" "as_log t = as_log s'"
      "as_sqdb t = as_sqdb s'" "as_cmds t = as_cmds s'" "as_dev t = as_dev s'" "length (successes (as_ans t)) = ?c + 1"
      by (simp_all add: t_def e)
    have hd: "unat (q_head (nvm_sq_update (la_asq (as_la s')))) = (?c + 1) mod unat (q_qs (la_asq (as_la s')))"
      using U(1) I(4) by (simp add: mod_Suc_eq)
    have "adm_inv dev d0 t"
      unfolding adm_inv_def Let_def F U(2,3) sl U' cqs using I(2,3,6-10,12-14) hd cq lt U(5) unfolding F by simp
    then show ?thesis using lt r e(3) by simp
  qed
  then show "adm_inv dev d0 t" and "r = Inl ETIME \<or> ?c < length (as_log s') \<and> r = Inr (as_log s' ! ?c)" by blast+
qed


definition call_full :: "'d adm_sys \<Rightarrow> bool" where
  "call_full s \<longleftrightarrow> length (as_sub s) + 1 = length (successes (as_ans s)) + unat (q_qs (la_asq (as_la s)))"

definition call_cmd :: "nvm_cmd_t \<Rightarrow> 'd adm_sys \<Rightarrow> nvm_cmd_t" where
  "call_cmd cmd s = set_cid (NVM_DEFAULT_CID (la_asq (as_la (announced cmd s)))) cmd"

text \<open>The answer of a call: \<open>full\<close>, \<open>late\<close>, or the completion after those taken before.\<close>

lemma admin_call_inv:
  assumes inv: "adm_inv dev d0 s"
  defines "c \<equiv> length (successes (as_ans s))"
  shows "adm_inv dev d0 (admin_call dev w cmd s)"
    and "call_full s \<Longrightarrow> admin_call dev w cmd s = (case w of None \<Rightarrow> s | Some _ \<Rightarrow> ctrl_try dev s)\<lparr>as_ans := as_ans s @ [Inl EAGAIN]\<rparr>"
    and "\<not> call_full s \<Longrightarrow> as_sub (admin_call dev w cmd s) = as_sub s @ [call_cmd cmd s] \<and>
      (as_ans (admin_call dev w cmd s) = as_ans s @ [Inl ETIME] \<or>
       c \<le> length (as_sub s) \<and> as_ans (admin_call dev w cmd s) = as_ans s @ [Inr (completion dev d0 (unat (q_qs (la_asq (as_la s))))
         (unat (q_qs (la_acq (as_la s)))) (as_sub s @ [call_cmd cmd s]) c)])"
    and "\<not> call_full s \<Longrightarrow> w = Some k \<Longrightarrow> k \<le> unat (la_timeout (as_la s)) \<Longrightarrow> unat (la_timeout (as_la s)) * 1000000 < 2 ^ 64 \<Longrightarrow>
      as_ans (admin_call dev w cmd s) \<noteq> as_ans s @ [Inl ETIME]"
proof -
  note I = adm_invD [OF inv]
  let ?s1 = "announced cmd s"
  define s2 where "s2 = (case w of None \<Rightarrow> ?s1 | Some _ \<Rightarrow> ctrl_try dev ?s1)"
  define mems where "mems = (\<lambda>i :: nat. case w of None \<Rightarrow> as_cpls ?s1 | Some k \<Rightarrow> if i < k then as_cpls ?s1 else as_cpls s2)"
  let ?t = "admin_call dev w cmd s"
  have t: "?t = (case execute_command (as_la s) (as_cmds s) mems (as_cpls s2) cmd of (admin, mem, sqdb, cqdb, r) \<Rightarrow>
      s2\<lparr>as_la := admin, as_cmds := mem, as_cqdb := (case cqdb of None \<Rightarrow> as_cqdb s2 | Some (_, v) \<Rightarrow> v), as_ans := as_ans s2 @ [r]\<rparr>)"
    unfolding admin_call_def mems_def s2_def Let_def by (rule refl)
  have full: "?t = s2\<lparr>as_ans := as_ans s @ [Inl EAGAIN]\<rparr> \<and> adm_inv dev d0 ?t \<and> ?s1 = s" if "call_full s"
  proof -
    note A = announced_full [OF inv that [unfolded call_full_def]]
    have s2: "adm_inv dev d0 s2" "as_la s2 = as_la s" "as_cmds s2 = as_cmds s" "as_ans s2 = as_ans s"
      using ctrl_try_inv [OF inv] inv by (auto simp: s2_def A(2) split: option.split)
    have e: "?t = s2\<lparr>as_ans := as_ans s @ [Inl EAGAIN]\<rparr>" using s2 by (simp add: t execute_command_def A(1))
    have "cq_view g (s2\<lparr>as_ans := as_ans s @ [Inl EAGAIN]\<rparr>) = cq_view g s2" for g by (simp add: cq_view_def)
    then have "adm_inv dev d0 ?t" using s2(1,4) by (simp add: e adm_inv_def Let_def)
    then show ?thesis using e A(2) by blast
  qed
  have calls: "adm_inv dev d0 ?t \<and> as_sub ?t = as_sub s @ [call_cmd cmd s] \<and>
      (as_ans ?t = as_ans s @ [Inl ETIME] \<or>
       c \<le> length (as_sub s) \<and> as_ans ?t = as_ans s @ [Inr (completion dev d0 (unat (q_qs (la_asq (as_la s))))
         (unat (q_qs (la_acq (as_la s)))) (as_sub s @ [call_cmd cmd s]) c)]) \<and>
      (\<forall>k. w = Some k \<and> k \<le> unat (la_timeout (as_la s)) \<and> unat (la_timeout (as_la s)) * 1000000 < 2 ^ 64 \<longrightarrow>
        as_ans ?t \<noteq> as_ans s @ [Inl ETIME])" if nf: "\<not> call_full s"
  proof -
    have "length (as_sub s) + 1 < length (successes (as_ans s)) + unat (q_qs (la_asq (as_la s)))" using nf I(7) by (simp add: call_full_def)
    note A = announced_inv [OF inv this refl, of cmd]
    obtain db0 where sub: "submit_command (as_la s) (as_cmds s) cmd = Some (as_la ?s1, as_cmds ?s1, db0)" using A(1) by blast
    note T = ctrl_try_inv [OF A(11)]
    have s2: "adm_inv dev d0 s2" "as_la s2 = as_la ?s1" "as_cmds s2 = as_cmds ?s1" "as_ans s2 = as_ans ?s1" "as_sub s2 = as_sub ?s1"
      "length (as_log ?s1) \<le> length (as_log s2)"
      using T A(11) by (auto simp: s2_def split: option.split)
    have mm: "mems j = as_cpls ?s1 \<or> mems j = as_cpls s2" for j by (auto simp: mems_def split: option.split)
    obtain admin db r where aw: "await_completion (as_la s2) mems (as_cpls s2) = (admin, db, r)" by (metis prod.collapse)
    have e: "?t = s2\<lparr>as_la := admin, as_cqdb := (case db of None \<Rightarrow> as_cqdb s2 | Some (_, v) \<Rightarrow> v), as_ans := as_ans s2 @ [r]\<rparr>"
      using aw s2(2,3) by (simp add: t execute_command_def sub)
    note W = await_inv [OF A(11) s2(1,2,4,6) mm aw, folded e]
    have ans: "as_ans ?t = as_ans s @ [r]" "as_sub ?t = as_sub s @ [call_cmd cmd s]" using s2(4,5) A(2,6) by (simp_all add: e call_cmd_def)
    have log: "as_log s2 = map (completion dev d0 (unat (q_qs (la_asq (as_la s)))) (unat (q_qs (la_acq (as_la s)))) (as_sub s @ [call_cmd cmd s])) [0..<length (as_log s2)]"
      using adm_invD(14) [OF s2(1)] s2(2,5) A(2,3,7) by (simp add: call_cmd_def)
    have "r = Inr (completion dev d0 (unat (q_qs (la_asq (as_la s)))) (unat (q_qs (la_acq (as_la s)))) (as_sub s @ [call_cmd cmd s]) c)"
      if "length (successes (as_ans s2)) < length (as_log s2)" "r = Inr (as_log s2 ! length (successes (as_ans s2)))"
    proof -
      have "as_log s2 ! c = completion dev d0 (unat (q_qs (la_asq (as_la s)))) (unat (q_qs (la_acq (as_la s)))) (as_sub s @ [call_cmd cmd s]) c"
        using that(1) s2(4) A(6) by (subst log) (simp add: c_def)
      then show ?thesis using that(2) s2(4) A(6) by (simp add: c_def)
    qed
    then have rr: "r = Inl ETIME \<or> r = Inr (completion dev d0 (unat (q_qs (la_asq (as_la s)))) (unat (q_qs (la_acq (as_la s)))) (as_sub s @ [call_cmd cmd s]) c)"
      using W(2) by blast
    have live: "r \<noteq> Inl ETIME" if k: "w = Some k" "k \<le> unat (la_timeout (as_la s))" "unat (la_timeout (as_la s)) * 1000000 < 2 ^ 64" for k
    proof -
      have p: "length (successes (as_ans s2)) \<noteq> length (as_log s2)"
        using T(2) adm_invD(5,6) [OF A(11)] adm_invD(5,6) [OF inv] s2(4) A(2,6) k(1) by (auto simp: s2_def split: if_splits)
      have la: "la_acq (as_la s2) = la_acq (as_la ?s1)" "la_timeout (as_la s2) = la_timeout (as_la s)" using s2(2) A(4) by simp_all
      obtain q a where q: "nvm_cq_dequeue (as_cpls s2) (la_acq (as_la s2)) = (q, Some a)"
        using adm_dequeue(1) [OF s2(1)] p by (metis option.exhaust prod.collapse)
      have "nvm_cq_dequeue_block mems (la_acq (as_la s2)) (la_timeout (as_la s2)) = (q, Some a)"
      proof (cases "snd (nvm_cq_dequeue (as_cpls ?s1) (la_acq (as_la s2)))")
        case None
        show ?thesis by (rule dequeue_block_in_time [of k]) (use None k la q in \<open>simp_all add: mems_def\<close>)
      next
        case (Some x)
        then obtain q' where q': "nvm_cq_dequeue (as_cpls ?s1) (la_acq (as_la ?s1)) = (q', Some x)" using la by (metis prod.collapse)
        have "nvm_cq_dequeue (as_cpls s2) (la_acq (as_la ?s1)) = (q', Some x)" by (rule adm_dequeue_mono [OF A(11) s2(1,2,4,6) q'])
        then have "nvm_cq_dequeue (mems 0) (la_acq (as_la s2)) = (q, Some a)" using q q' la k(1) by (simp add: mems_def)
        then show ?thesis by (intro dequeue_block_in_time [of 0]) (use k la in simp_all)
      qed
      then show ?thesis using aw by (auto simp: await_completion_def split: prod.splits)
    qed
    show ?thesis using W(1) ans rr live I(5,6) by (auto simp: c_def)
  qed
  show "adm_inv dev d0 ?t" using full calls by blast
  show "?t = (case w of None \<Rightarrow> s | Some _ \<Rightarrow> ctrl_try dev s)\<lparr>as_ans := as_ans s @ [Inl EAGAIN]\<rparr>" if "call_full s"
    using full [OF that] unfolding s2_def by metis
  show "as_sub ?t = as_sub s @ [call_cmd cmd s] \<and> (as_ans ?t = as_ans s @ [Inl ETIME] \<or>
      c \<le> length (as_sub s) \<and> as_ans ?t = as_ans s @ [Inr (completion dev d0 (unat (q_qs (la_asq (as_la s))))
         (unat (q_qs (la_acq (as_la s)))) (as_sub s @ [call_cmd cmd s]) c)])" if "\<not> call_full s"
    using calls [OF that] by blast
  show "as_ans ?t \<noteq> as_ans s @ [Inl ETIME]" if "\<not> call_full s" "w = Some k" "k \<le> unat (la_timeout (as_la s))" "unat (la_timeout (as_la s)) * 1000000 < 2 ^ 64"
    using calls [OF that(1)] that by blast
qed


lemma adm_fresh_inv: "adm_fresh s \<Longrightarrow> adm_inv dev (as_dev s) s"
proof -
  assume f: "adm_fresh s"
  then have v: "cq_fresh (cq_view [] s)" by (simp add: adm_fresh_def Let_def)
  then have l: "as_log s = []" by (simp add: cq_fresh_def cq_view_def Let_def)
  have q: "sq_inv (la_asq (as_la s))" using f by (simp add: adm_fresh_def Let_def)
  show ?thesis using f l cq_inv_fresh [OF v] sq_invD(2) [OF q] by (simp add: adm_inv_def adm_fresh_def Let_def dev_state_def word_le_nat_alt)
qed

lemma adm_reach_inv: "adm_reach dev s0 s \<Longrightarrow> adm_fresh s0 \<Longrightarrow> adm_inv dev (as_dev s0) s"
  by (induction rule: adm_reach.induct) (auto simp: adm_fresh_inv intro: ctrl_exec_inv(1) admin_call_inv(1))

lemma await_frame:
  "await_completion la mems after = (la', db, r) \<Longrightarrow>
     q_qs (la_asq la') = q_qs (la_asq la) \<and> q_qs (la_acq la') = q_qs (la_acq la) \<and> la_timeout la' = la_timeout la"
proof -
  assume a: "await_completion la mems after = (la', db, r)"
  obtain q x where b: "nvm_cq_dequeue_block mems (la_acq la) (la_timeout la) = (q, x)" by (metis prod.collapse)
  have "q_qs q = q_qs (la_acq la)"
    using dequeue_block_cases [OF b] by (auto simp: nvm_cq_dequeue_def Let_def split: option.splits if_splits)
  then show ?thesis using a b
    by (auto simp: await_completion_def nvm_sq_update_def nvm_cq_update_def Let_def split: option.splits prod.splits if_splits)
qed

lemma submit_frame:
  "submit_command la mem cmd = Some (la', mem', db) \<Longrightarrow>
     q_qs (la_asq la') = q_qs (la_asq la) \<and> la_acq la' = la_acq la \<and> la_timeout la' = la_timeout la"
  by (auto simp: submit_command_def nvm_sq_enqueue_def nvm_sq_submit_def Let_def split: option.splits prod.splits if_splits)

lemma ctrl_try_la [simp]: "as_la (ctrl_try dev s) = as_la s"
  by (simp add: ctrl_try_def ctrl_exec_def Let_def split: prod.split)

lemma adm_sizes:
  "adm_reach dev s0 s \<Longrightarrow> q_qs (la_asq (as_la s)) = q_qs (la_asq (as_la s0)) \<and> q_qs (la_acq (as_la s)) = q_qs (la_acq (as_la s0)) \<and>
     la_timeout (as_la s) = la_timeout (as_la s0)"
proof (induction rule: adm_reach.induct)
  case (exec s)
  then show ?case by (simp add: ctrl_exec_def Let_def split: prod.split)
next
  case (call s w cmd)
  show ?case
    using call.IH by (auto simp: admin_call_def Let_def execute_command_def split: prod.splits option.splits
        dest!: submit_frame await_frame) 
qed simp

section \<open>Properties of admin calls\<close>

text \<open>Whatever happened, answers are the completions of the commands in order: the \<open>j\<close>-th success has that of the \<open>j\<close>-th
  command on the queue, whether it is the command of that call or not.\<close>

lemma admin_answers_in_order:
  assumes "adm_fresh s0" and "adm_reach dev s0 s"
  shows "successes (as_ans s) = map (completion dev (as_dev s0) (unat (q_qs (la_asq (as_la s0)))) (unat (q_qs (la_acq (as_la s0)))) (as_sub s))
           [0..<length (successes (as_ans s))]"
proof -
  note inv = adm_reach_inv [OF assms(2,1)] and z = adm_sizes [OF assms(2)]
  note I = adm_invD [OF inv]
  have "successes (as_ans s) = take (length (successes (as_ans s))) (as_log s)"
    using cq_invD(12) [OF I(11)] by (simp add: cq_view_def)
  also have "\<dots> = map (completion dev (as_dev s0) (unat (q_qs (la_asq (as_la s)))) (unat (q_qs (la_acq (as_la s)))) (as_sub s))
      [0..<length (successes (as_ans s))]"
    using I(5) by (subst I(14)) (simp add: take_map)
  finally show ?thesis using z by simp
qed


text \<open>Commands are answered, one by one, or their calls timed out.\<close>

lemma adm_count:
  assumes "adm_fresh s0" and "adm_reach dev s0 s"
  shows "length (successes (as_ans s)) + length (filter (\<lambda>r. r = Inl ETIME) (as_ans s)) = length (as_sub s)"
  using assms(2)
proof (induction rule: adm_reach.induct)
  case start
  then show ?case using assms(1) by (simp add: adm_fresh_def Let_def)
next
  case (exec s)
  note E = ctrl_exec_inv [OF adm_reach_inv [OF exec(1) assms(1)] exec(2)]
  show ?case using exec.IH E by simp
next
  case (call s w cmd)
  note inv = adm_reach_inv [OF call(1) assms(1)]
  note C = admin_call_inv [OF inv, where w = w and cmd = cmd]
  have f: "as_sub (case w of None \<Rightarrow> s | Some k \<Rightarrow> ctrl_try dev s) = as_sub s" using ctrl_try_inv(5) [OF inv] by (simp split: option.split)
  show ?case
  proof (cases "call_full s")
    case True
    then show ?thesis using C(2) call.IH f by simp
  next
    case False
    then show ?thesis using C(3) call.IH by auto
  qed
qed

lemma call_cmd_tl: "wf_cmd cmd \<Longrightarrow> tl (dword (call_cmd cmd s)) = tl (dword cmd)"
  by (cases "dword cmd") (auto simp: call_cmd_def set_cid_def set_dword_def wf_cmd_def)

lemma set_cid_cid: "wf_cmd cmd \<Longrightarrow> cmd_cid (set_cid i cmd) = i"
proof -
  assume "wf_cmd cmd"
  moreover have "ucast (drop_bit 16 (push_bit 16 (ucast i) OR (w AND 0xffff))) = i" for w :: u32
    unfolding mask16_word by (rule bit_word_eqI) (auto simp: bit_simps)
  ultimately show ?thesis by (simp add: cmd_cid_def set_cid_def)
qed

text \<open>Whatever calls were made before, as long as none of them timed out: when the controller executes the command
  within the timeout (here before the \<open>k\<close>-th poll, one per millisecond), the call returns the completion of its own
  command, with the result and status that the controller computes in the state left by the commands before, and
  the identifier that the command was given.\<close>

lemma admin_command_answered:
  assumes fresh: "adm_fresh s0" and reach: "adm_reach dev s0 s" and ok: "Inl ETIME \<notin> set (as_ans s)" and cmd: "wf_cmd cmd"
    and k: "k \<le> unat (la_timeout (as_la s0))" "unat (la_timeout (as_la s0)) * 1000000 < 2 ^ 64"
  shows "\<exists>c ph hd res status. tl (dword c) = tl (dword cmd) \<and>
      snd (dev (dev_state dev (as_dev s0) (as_sub s)) c) = (res, status) \<and>
      as_sub (admin_call dev (Some k) cmd s) = as_sub s @ [c] \<and>
      as_ans (admin_call dev (Some k) cmd s) = as_ans s @ [Inr (set_phase ph (cpl_of c res hd status))]"
proof -
  note inv = adm_reach_inv [OF reach fresh] and z = adm_sizes [OF reach]
  note C = admin_call_inv [OF inv, where w = "Some k" and cmd = cmd]
  have "filter (\<lambda>r. r = Inl ETIME) (as_ans s) = []" using ok by (auto simp: filter_empty_conv)
  then have n: "length (successes (as_ans s)) = length (as_sub s)" using adm_count [OF fresh reach] by simp
  then have nf: "\<not> call_full s" using sq_invD(2) [OF adm_invD(1) [OF inv]] by (simp add: call_full_def)
  have "as_ans (admin_call dev (Some k) cmd s) \<noteq> as_ans s @ [Inl ETIME]" using C(4) [OF nf refl] k z by simp
  then have a: "as_ans (admin_call dev (Some k) cmd s) = as_ans s @ [Inr (completion dev (as_dev s0) (unat (q_qs (la_asq (as_la s))))
      (unat (q_qs (la_acq (as_la s)))) (as_sub s @ [call_cmd cmd s]) (length (as_sub s)))]"
    using C(3) [OF nf] n by auto
  obtain res st where r: "snd (dev (dev_state dev (as_dev s0) (as_sub s)) (call_cmd cmd s)) = (res, st)"
    by (cases "snd (dev (dev_state dev (as_dev s0) (as_sub s)) (call_cmd cmd s))")
  show ?thesis
    by (intro exI conjI, rule call_cmd_tl [OF cmd], rule r, use C(3) [OF nf] in blast, unfold a)
      (use r in \<open>auto simp: completion_def split: prod.splits\<close>)
qed

definition witness_adm :: "u64 \<Rightarrow> u32 adm_sys" where
  "witness_adm t = \<lparr>as_la = \<lparr>la_qmem = 1,
      la_acq = (sys_q witness_cq)\<lparr>q_no := 0, q_qs := 8, q_db := Some 0x1004\<rparr>,
      la_asq = (sys_q witness_cq)\<lparr>q_no := 0, q_es := 64, q_qs := 4, q_db := Some 0x1000, q_vaddr := 0x11000\<rparr>,
      la_timeout = t\<rparr>,
    as_cmds = (\<lambda>_. \<lparr>dword = replicate 16 0\<rparr>), as_cpls = (\<lambda>_. \<lparr>cpl_dword = [0, 0, 0, 0]\<rparr>), as_sqdb = 0, as_cqdb = 0, as_dev = 100,
    as_sub = [], as_log = [], as_ans = []\<rparr>"

lemma witness_adm_fresh: "adm_fresh (witness_adm t)"
proof -
  have "(4 :: nat) = 2 ^ 2" by simp
  then have "\<exists>k \<ge> 1. k \<le> 16 \<and> (4 :: nat) = 2 ^ k" by (intro exI [of _ 2]) simp
  then show ?thesis
    by (simp add: adm_fresh_def witness_adm_def sq_inv_def cq_fresh_def cq_view_def cpl_phase_bit witness_cq_def Let_def)
qed

lemma admin_command_answered_witness:
  "\<exists>c ph hd. as_ans (admin_call (\<lambda>d cmd. (d + 1, d, 0)) (Some 3) \<lparr>dword = replicate 16 7\<rparr> (witness_adm 5)) =
      [Inr (set_phase ph (cpl_of c 100 hd 0))]"
proof -
  have a: "la_timeout (as_la (witness_adm 5)) = 5" "as_ans (witness_adm 5) = []" "as_sub (witness_adm 5) = []" "as_dev (witness_adm 5) = 100"
    by (simp_all add: witness_adm_def)
  show ?thesis
    using admin_command_answered [OF witness_adm_fresh adm_reach.start, of 5 "\<lparr>dword = replicate 16 7\<rparr>" 3 "\<lambda>d cmd. (d + 1, d, 0)"]
    by (auto simp: a wf_cmd_def dev_state_def)
qed

text \<open>The identifier of a completion is not compared with that of the command, and a call that times out leaves its
  command on the queue: from then on a call that succeeds always returns the completion of an earlier command.\<close>

lemma late_completion_answers_next:
  assumes fresh: "adm_fresh s0" and reach: "adm_reach dev s0 s" and late: "Inl ETIME \<in> set (as_ans s)"
    and ans: "as_ans (admin_call dev w cmd s) = as_ans s @ [Inr cpl]"
  shows "\<exists>i < length (as_sub s). cpl = completion dev (as_dev s0) (unat (q_qs (la_asq (as_la s0)))) (unat (q_qs (la_acq (as_la s0)))) (as_sub s) i"
proof -
  note inv = adm_reach_inv [OF reach fresh] and z = adm_sizes [OF reach]
  note C = admin_call_inv [OF inv, where w = w and cmd = cmd]
  let ?c = "length (successes (as_ans s))"
  have "filter (\<lambda>r. r = Inl ETIME) (as_ans s) \<noteq> []" using late by (auto simp: filter_empty_conv)
  then have n: "?c < length (as_sub s)" using adm_count [OF fresh reach] by (cases "filter (\<lambda>r. r = Inl ETIME) (as_ans s)") auto
  have "\<not> call_full s" using C(2) ans by auto
  then have "cpl = completion dev (as_dev s0) (unat (q_qs (la_asq (as_la s)))) (unat (q_qs (la_acq (as_la s)))) (as_sub s @ [call_cmd cmd s]) ?c"
    using C(3) ans by auto
  then show ?thesis using n z completion_append [OF n] by (intro exI [of _ ?c]) simp
qed


lemma witness_late:
  "as_ans (admin_call (\<lambda>d cmd. (d + 1, d, 0)) None \<lparr>dword = replicate 16 7\<rparr> (witness_adm 0)) = [Inl ETIME]"
  by code_simp

lemma witness_late_next:
  "as_ans (admin_call (\<lambda>d cmd. (d + 1, d, 0)) (Some 0) \<lparr>dword = replicate 16 8\<rparr>
     (admin_call (\<lambda>d cmd. (d + 1, d, 0)) None \<lparr>dword = replicate 16 7\<rparr> (witness_adm 0))) =
   [Inl ETIME, Inr \<lparr>cpl_dword = [100, 0, 1, 0x10001]\<rparr>]"
  by code_simp

lemma late_completion_answers_next_witness:
  "\<exists>i < 1. \<lparr>cpl_dword = [100, 0, 1, 0x10001]\<rparr> = completion (\<lambda>d cmd. (d + 1, d, 0)) (100 :: u32) 4 8
     (as_sub (admin_call (\<lambda>d cmd. (d + 1, d, 0)) None \<lparr>dword = replicate 16 7\<rparr> (witness_adm 0))) i"
proof -
  let ?dev = "\<lambda>(d :: u32) (cmd :: nvm_cmd_t). (d + 1, d, 0 :: u16)"
  let ?s = "admin_call ?dev None \<lparr>dword = replicate 16 7\<rparr> (witness_adm 0)"
  have r: "adm_reach ?dev (witness_adm 0) ?s" by (rule adm_reach.call [OF adm_reach.start])
  have l: "Inl ETIME \<in> set (as_ans ?s)" unfolding witness_late by simp
  have a: "as_ans (admin_call ?dev (Some 0) \<lparr>dword = replicate 16 8\<rparr> ?s) = as_ans ?s @ [Inr \<lparr>cpl_dword = [100, 0, 1, 0x10001]\<rparr>]"
    unfolding witness_late witness_late_next by simp
  have "length (as_sub ?s) = 1" using adm_count [OF witness_adm_fresh r] unfolding witness_late by simp
  moreover have "as_dev (witness_adm 0) = 100" "unat (q_qs (la_asq (as_la (witness_adm 0)))) = 4" "unat (q_qs (la_acq (as_la (witness_adm 0)))) = 8"
    by (simp_all add: witness_adm_def witness_cq_def)
  ultimately show ?thesis using late_completion_answers_next [OF witness_adm_fresh r l a] by simp
qed

end
