(* ===== verification/Nvm_Aq.thy ===== *)
theory Nvm_Aq
  imports Nvm_Rpc
begin

text \<open>
  Admin references (\<open>src/rpc.cpp\<close>): the list of handles of a server, the binding of a reference to a stub, taking and
  giving back the controller with the heap of \<open>Nvm_Dma\<close>, and the creation of the local admin queues.  A callback is a
  number; the calls of callbacks are listed.  A reference is \<open>nvm_admin_reference\<close>; where the code would follow a null
  pointer the value is \<open>None\<close>.
\<close>

section \<open>References\<close>

record rpc_handle =
  rh_key :: u32
  rh_data :: nat

datatype rpc_stub_t = Execute_Command | Remote_Stub nat
datatype rpc_free_binding_t = Remove_Admin | Free_Binding nat
datatype rpc_data = Null_Data | Local_Admin local_admin | Remote_Data nat

record nvm_admin_reference =
  ar_ctrl :: nat
  ar_handles :: "rpc_handle list"
  ar_data :: rpc_data
  ar_release :: "rpc_free_binding_t option"
  ar_stub :: "rpc_stub_t option"

text \<open>The loops over the handles: the end of the list with the new handle, unless the key is there; and a removal.\<close>

fun handle_append :: "rpc_handle \<Rightarrow> rpc_handle list \<Rightarrow> rpc_handle list option" where
  "handle_append handle [] = Some [handle]"
| "handle_append handle (h # rest) =
     (if rh_key h = rh_key handle then None else map_option ((#) h) (handle_append handle rest))"

fun handle_unlink :: "u32 \<Rightarrow> rpc_handle list \<Rightarrow> (rpc_handle \<times> rpc_handle list) option" where
  "handle_unlink key [] = None"
| "handle_unlink key (h # rest) =
     (if rh_key h \<noteq> key then map_option (map_prod id ((#) h)) (handle_unlink key rest) else Some (h, rest))"

definition nvm_rpc_handle_insert ::
  "nvm_admin_reference \<Rightarrow> bool \<Rightarrow> errno option \<Rightarrow> u32 \<Rightarrow> nat option \<Rightarrow> bool \<Rightarrow> nvm_admin_reference \<times> errno option"
where
  "nvm_rpc_handle_insert ref malloc_ok lock_err key data has_release =
     (case data of
        None \<Rightarrow> (ref, Some EINVAL)
      | Some d \<Rightarrow>
          if \<not> has_release then (ref, Some EINVAL)
          else if \<not> malloc_ok then (ref, Some ENOMEM)
          else (case lock_err of
                  Some e \<Rightarrow> (ref, Some e)
                | None \<Rightarrow>
                    (case handle_append \<lparr>rh_key = key, rh_data = d\<rparr> (ar_handles ref) of
                       None \<Rightarrow> (ref, Some EINVAL)
                     | Some hs \<Rightarrow> (ref\<lparr>ar_handles := hs\<rparr>, None))))"

text \<open>With the handle for which \<open>release\<close> is called.\<close>

definition nvm_rpc_handle_remove :: "nvm_admin_reference \<Rightarrow> u32 \<Rightarrow> (nvm_admin_reference \<times> rpc_handle) option" where
  "nvm_rpc_handle_remove ref key = map_option (\<lambda>(h, hs). (ref\<lparr>ar_handles := hs\<rparr>, h)) (handle_unlink key (ar_handles ref))"

definition release_handles :: "nvm_admin_reference \<Rightarrow> nvm_admin_reference \<times> rpc_handle list" where
  "release_handles ref = (ref\<lparr>ar_handles := []\<rparr>, ar_handles ref)"

definition nvm_ref_get :: "dma_heap \<Rightarrow> bool \<Rightarrow> errno option \<Rightarrow> nat \<Rightarrow> dma_heap \<times> (errno + nvm_admin_reference)" where
  "nvm_ref_get h malloc_ok mutex_err ctrl =
     (case heap_ctrl_get h ctrl of
        None \<Rightarrow> (h, Inl ENOTTY)
      | Some h1 \<Rightarrow>
          if \<not> malloc_ok then (heap_ctrl_put h1 ctrl, Inl ENOMEM)
          else (case mutex_err of
                  Some e \<Rightarrow> (heap_ctrl_put h1 ctrl, Inl e)
                | None \<Rightarrow> (h1, Inr \<lparr>ar_ctrl = ctrl, ar_handles = [], ar_data = Null_Data, ar_release = None, ar_stub = None\<rparr>)))"

definition remove_admin :: "dma_heap \<Rightarrow> local_admin \<Rightarrow> dma_heap" where
  "remove_admin h admin = nvm_dma_unmap h (la_qmem admin)"

text \<open>With the handles and the binding that are released.\<close>

definition nvm_ref_put :: "dma_heap \<Rightarrow> nvm_admin_reference \<Rightarrow> dma_heap \<times> rpc_handle list \<times> (nat \<times> rpc_data) option" where
  "nvm_ref_put h ref =
     (case release_handles ref of
        (ref1, released) \<Rightarrow>
          (let h1 = (case (ar_release ref1, ar_data ref1) of (Some Remove_Admin, Local_Admin admin) \<Rightarrow> remove_admin h admin | _ \<Rightarrow> h);
               freed = (case ar_release ref1 of Some (Free_Binding f) \<Rightarrow> Some (f, ar_data ref1) | _ \<Rightarrow> None)
           in (heap_ctrl_put h1 (ar_ctrl ref1), released, freed)))"

definition nvm_rpc_bind ::
  "nvm_admin_reference \<Rightarrow> errno option \<Rightarrow> rpc_data \<Rightarrow> rpc_free_binding_t \<Rightarrow> rpc_stub_t \<Rightarrow> nvm_admin_reference \<times> errno option"
where
  "nvm_rpc_bind ref lock_err data release stub =
     (case lock_err of
        Some e \<Rightarrow> (ref, Some e)
      | None \<Rightarrow>
          if ar_data ref \<noteq> Null_Data \<or> ar_stub ref \<noteq> None then (ref, Some EINVAL)
          else (ref\<lparr>ar_data := data, ar_release := Some release, ar_stub := Some stub\<rparr>, None))"

definition nvm_aq_destroy :: "dma_heap \<Rightarrow> nvm_admin_reference option \<Rightarrow> dma_heap" where
  "nvm_aq_destroy h ref = (case ref of None \<Rightarrow> h | Some r \<Rightarrow> fst (nvm_ref_put h r))"

definition nvm_rpc_unbind :: "dma_heap \<Rightarrow> nvm_admin_reference option \<Rightarrow> dma_heap" where
  "nvm_rpc_unbind h ref = (case ref of None \<Rightarrow> h | Some r \<Rightarrow> fst (nvm_ref_put h r))"

definition nvm_ctrl_from_aq_ref :: "dma_heap \<Rightarrow> nvm_admin_reference option \<Rightarrow> nvm_ctrl_t option" where
  "nvm_ctrl_from_aq_ref h ref = (case ref of None \<Rightarrow> None | Some r \<Rightarrow> map_option ct_handle (hp_ctrls h (ar_ctrl r)))"

section \<open>Calls\<close>

text \<open>The values of \<open>errno.h\<close>.\<close>

fun errno_code :: "errno \<Rightarrow> int" where
  "errno_code EINVAL = 22" | "errno_code ENOMEM = 12" | "errno_code ENOTTY = 25" | "errno_code EIO = 5"
| "errno_code ENOSPC = 28" | "errno_code EAGAIN = 11" | "errno_code ENODEV = 19" | "errno_code EINTR = 4"
| "errno_code EFAULT = 14" | "errno_code ETIME = 62" | "errno_code ERANGE = 34" | "errno_code EBADF = 9"

definition err_int :: "errno option \<Rightarrow> int" where
  "err_int e = (case e of None \<Rightarrow> 0 | Some x \<Rightarrow> errno_code x)"

text \<open>
  A stub is called with its data, the command and the completion of the caller, which it overwrites or not; \<open>'s\<close> is the
  state behind it.
\<close>

type_synonym 's stub_fn = "rpc_stub_t \<Rightarrow> rpc_data \<Rightarrow> 's \<Rightarrow> nvm_cmd_t \<Rightarrow> nvm_cpl_t \<Rightarrow> 's \<times> errno option \<times> nvm_cpl_t"

definition nvm_raw_rpc ::
  "'s stub_fn \<Rightarrow> nvm_admin_reference \<Rightarrow> errno option \<Rightarrow> 's \<Rightarrow> nvm_cmd_t \<Rightarrow> nvm_cpl_t \<Rightarrow> 's \<times> int \<times> nvm_cpl_t"
where
  "nvm_raw_rpc stub_fn ref lock_err s cmd cpl =
     (case lock_err of
        Some e \<Rightarrow> (s, NVM_ERR_PACK None (errno_code e), cpl)
      | None \<Rightarrow>
          (case ar_stub ref of
             None \<Rightarrow> (s, NVM_ERR_PACK None (errno_code EINVAL), cpl)
           | Some stub \<Rightarrow>
               (case stub_fn stub (ar_data ref) s cmd cpl of
                  (s', err, cpl') \<Rightarrow> (s', NVM_ERR_PACK (Some (NVM_CPL_SF cpl')) (err_int err), cpl'))))"

definition nvm_local_admin ::
  "'s stub_fn \<Rightarrow> nvm_admin_reference \<Rightarrow> errno option \<Rightarrow> 's \<Rightarrow> nvm_cmd_t \<Rightarrow> nvm_cpl_t \<Rightarrow> 's \<times> int \<times> nvm_cpl_t"
where
  "nvm_local_admin stub_fn ref lock_err s cmd cpl =
     (case lock_err of
        Some e \<Rightarrow> (s, NVM_ERR_PACK None (errno_code e), cpl)
      | None \<Rightarrow>
          if ar_stub ref \<noteq> Some Execute_Command then (s, NVM_ERR_PACK None (errno_code EINVAL), cpl)
          else (case stub_fn Execute_Command (ar_data ref) s cmd cpl of
                  (s', err, cpl') \<Rightarrow> (s', NVM_ERR_PACK None (err_int err), cpl')))"

section \<open>Creating the admin queues\<close>

text \<open>
  \<open>q0\<close> and \<open>q1\<close> are what \<open>malloc\<close> left in the descriptors: what \<open>nvm_queue_clear\<close> answers is not looked at.  The two pages of
  the window are cleared, seen as commands and as completions.
\<close>

definition zero_cmd :: nvm_cmd_t where "zero_cmd = \<lparr>dword = replicate 16 0\<rparr>"
definition zero_cpl :: nvm_cpl_t where "zero_cpl = \<lparr>cpl_dword = replicate 4 0\<rparr>"

definition memset_zero :: "u64 \<Rightarrow> u64 \<Rightarrow> 'a \<Rightarrow> (u64 \<Rightarrow> 'a) \<Rightarrow> u64 \<Rightarrow> 'a" where
  "memset_zero vaddr len z mem = (\<lambda>a. if a - vaddr < len then z else mem a)"

definition queue_clear_unchecked :: "nvm_queue_t \<Rightarrow> nvm_ctrl_t \<Rightarrow> bool \<Rightarrow> u32 \<Rightarrow> bool \<Rightarrow> u64 \<Rightarrow> u64 \<Rightarrow> nvm_queue_t" where
  "queue_clear_unchecked q ctrl cq qs loc vaddr ioaddr =
     (case nvm_queue_clear q ctrl cq 0 qs loc vaddr ioaddr of Inl _ \<Rightarrow> q | Inr q' \<Rightarrow> q')"

definition create_admin ::
  "dma_heap \<Rightarrow> nat option \<Rightarrow> nvm_dma_t \<Rightarrow> bool \<Rightarrow> nvm_queue_t \<Rightarrow> nvm_queue_t \<Rightarrow> nat \<Rightarrow> nat \<Rightarrow> sq_mem \<Rightarrow> cq_mem
     \<Rightarrow> dma_heap \<times> sq_mem \<times> cq_mem \<times> (errno + local_admin)"
where
  "create_admin h mem_cont junk malloc_ok q0 q1 c window cmds cpls =
     (case (hp_ctrls h c, hp_conts h window) of
        (Some ct, Some wc) \<Rightarrow>
          (let ctrl = ct_handle ct; w = cn_handle wc in
           if c_page_size ctrl \<noteq> dma_page_size w then (h, cmds, cpls, Inl EINVAL)
           else if length (dma_ioaddrs w) < 2 then (h, cmds, cpls, Inl ERANGE)
           else if dma_vaddr w = 0 then (h, cmds, cpls, Inl EINVAL)
           else (case nvm_dma_remap h mem_cont junk window of
                   (h1, Inl e) \<Rightarrow> (h1, cmds, cpls, Inl e)
                 | (h1, Inr k) \<Rightarrow>
                     if \<not> malloc_ok then (nvm_dma_unmap h1 k, cmds, cpls, Inl ENOMEM)
                     else
                       (let q = cn_handle (the (hp_conts h1 k)); ps = dma_page_size q in
                        (h1, memset_zero (dma_vaddr q) (2 * ps) zero_cmd cmds, memset_zero (dma_vaddr q) (2 * ps) zero_cpl cpls,
                         Inr \<lparr>la_qmem = k,
                              la_acq = queue_clear_unchecked q0 ctrl True (ucast (c_page_size ctrl div sizeof_nvm_cpl_t))
                                         (dma_local q) (dma_vaddr q) (dma_ioaddrs q ! 0),
                              la_asq = queue_clear_unchecked q1 ctrl False (ucast (c_page_size ctrl div sizeof_nvm_cmd_t))
                                         (dma_local q) (NVM_PTR_OFFSET (dma_vaddr q) ps 1) (dma_ioaddrs q ! 1),
                              la_timeout = c_timeout ctrl\<rparr>))))
      | _ \<Rightarrow> (h, cmds, cpls, Inl EINVAL))"

text \<open>
  \<open>cc\<close> and \<open>csts\<close> are the registers read during the reset, whose answer is not looked at; the list has the registers written.
\<close>

definition nvm_aq_create ::
  "dma_heap \<Rightarrow> bool \<Rightarrow> errno option \<Rightarrow> nat option \<Rightarrow> nvm_dma_t \<Rightarrow> bool \<Rightarrow> nvm_queue_t \<Rightarrow> nvm_queue_t \<Rightarrow> nat \<Rightarrow> nat \<Rightarrow> sq_mem \<Rightarrow> cq_mem
     \<Rightarrow> u32 \<Rightarrow> (nat \<Rightarrow> u32) \<Rightarrow> dma_heap \<times> sq_mem \<times> cq_mem \<times> reg_write list \<times> (errno + nvm_admin_reference)"
where
  "nvm_aq_create h malloc_ref mutex_err mem_cont junk malloc_ok q0 q1 c window cmds cpls cc csts =
     (case nvm_ref_get h malloc_ref mutex_err c of
        (h1, Inl e) \<Rightarrow> (h1, cmds, cpls, [], Inl e)
      | (h1, Inr ref) \<Rightarrow>
          (case create_admin h1 mem_cont junk malloc_ok q0 q1 (ar_ctrl ref) window cmds cpls of
             (h2, cmds2, cpls2, Inl e) \<Rightarrow> (fst (nvm_ref_put h2 ref), cmds2, cpls2, [], Inl e)
           | (h2, cmds2, cpls2, Inr admin) \<Rightarrow>
               (let ref1 = ref\<lparr>ar_data := Local_Admin admin, ar_stub := Some Execute_Command, ar_release := Some Remove_Admin\<rparr>;
                    q = cn_handle (the (hp_conts h2 (la_qmem admin)));
                    ctrl = ct_handle (the (hp_ctrls h2 c));
                    writes = snd (nvm_raw_ctrl_reset cc csts ctrl (dma_ioaddrs q ! 0) (dma_ioaddrs q ! 1))
                in (h2, cmds2, cpls2, writes, Inr ref1))))"


section \<open>Lemmas: handles\<close>

text \<open>The list of handles is a finite map from keys to data, with the handles in the order of their insertion.\<close>

definition handle_map :: "rpc_handle list \<Rightarrow> u32 \<rightharpoonup> nat" where
  "handle_map hs = map_of (map (\<lambda>h. (rh_key h, rh_data h)) hs)"

lemma handle_append_eq:
  "handle_append h hs = (if rh_key h \<in> rh_key ` set hs then None else Some (hs @ [h]))"
  by (induction hs) auto

lemma handle_unlink_None: "handle_unlink key hs = None \<longleftrightarrow> key \<notin> rh_key ` set hs"
  by (induction hs) auto

lemma handle_unlink_Some:
  "handle_unlink key hs = Some (h, hs') \<Longrightarrow>
     rh_key h = key \<and> (\<exists>xs ys. hs = xs @ h # ys \<and> hs' = xs @ ys \<and> key \<notin> rh_key ` set xs)"
proof (induction hs arbitrary: hs')
  case (Cons a hs)
  show ?case
  proof (cases "rh_key a = key")
    case True
    then show ?thesis using Cons.prems by (intro conjI exI [of _ "[]"] exI [of _ hs]) auto
  next
    case False
    then obtain hs1 where u: "handle_unlink key hs = Some (h, hs1)" "hs' = a # hs1" using Cons.prems by auto
    obtain xs ys where "rh_key h = key" "hs = xs @ h # ys" "hs1 = xs @ ys" "key \<notin> rh_key ` set xs" using Cons.IH [OF u(1)] by blast
    then show ?thesis using False u(2) by (intro conjI exI [of _ "a # xs"] exI [of _ ys]) auto
  qed
qed simp

lemma handle_map_dom: "dom (handle_map hs) = rh_key ` set hs"
  by (auto simp: handle_map_def dom_map_of_conv_image_fst image_image)

text \<open>Insertion and removal are those of the map; keys stay distinct.\<close>

lemma nvm_rpc_handle_insert_map:
  assumes "distinct (map rh_key (ar_handles ref))" and "nvm_rpc_handle_insert ref True None key (Some d) True = (ref', err)"
  shows "(case err of
      None \<Rightarrow> key \<notin> dom (handle_map (ar_handles ref)) \<and> handle_map (ar_handles ref') = (handle_map (ar_handles ref))(key \<mapsto> d)
    | Some e \<Rightarrow> e = EINVAL \<and> key \<in> dom (handle_map (ar_handles ref)) \<and> ref' = ref)"
    and "distinct (map rh_key (ar_handles ref'))"
proof -
  have m: "handle_map (hs @ [\<lparr>rh_key = key, rh_data = d\<rparr>]) = (handle_map hs)(key \<mapsto> d)" if "key \<notin> rh_key ` set hs" for hs
  proof -
    have "handle_map hs key = None" using that handle_map_dom [of hs] by (metis domIff)
    then show ?thesis unfolding handle_map_def map_append map_of_append
      by (auto simp: fun_eq_iff map_add_def split: option.split)
  qed
  show "(case err of
      None \<Rightarrow> key \<notin> dom (handle_map (ar_handles ref)) \<and> handle_map (ar_handles ref') = (handle_map (ar_handles ref))(key \<mapsto> d)
    | Some e \<Rightarrow> e = EINVAL \<and> key \<in> dom (handle_map (ar_handles ref)) \<and> ref' = ref)"
    using assms(2) m by (auto simp: nvm_rpc_handle_insert_def handle_append_eq handle_map_dom split: if_splits)
  show "distinct (map rh_key (ar_handles ref'))"
    using assms by (auto simp: nvm_rpc_handle_insert_def handle_append_eq split: if_splits)
qed

lemma nvm_rpc_handle_remove_map:
  assumes d: "distinct (map rh_key (ar_handles ref))"
  shows "nvm_rpc_handle_remove ref key = None \<longleftrightarrow> key \<notin> dom (handle_map (ar_handles ref))"
    and "nvm_rpc_handle_remove ref key = Some (ref', h) \<Longrightarrow>
      handle_map (ar_handles ref) key = Some (rh_data h) \<and> handle_map (ar_handles ref') = (handle_map (ar_handles ref))(key := None) \<and>
      distinct (map rh_key (ar_handles ref'))"
proof -
  show "nvm_rpc_handle_remove ref key = None \<longleftrightarrow> key \<notin> dom (handle_map (ar_handles ref))"
    by (simp add: nvm_rpc_handle_remove_def handle_unlink_None handle_map_dom)
  show "handle_map (ar_handles ref) key = Some (rh_data h) \<and> handle_map (ar_handles ref') = (handle_map (ar_handles ref))(key := None) \<and>
      distinct (map rh_key (ar_handles ref'))" if s: "nvm_rpc_handle_remove ref key = Some (ref', h)"
  proof -
    obtain hs' where u: "handle_unlink key (ar_handles ref) = Some (h, hs')" "ref' = ref\<lparr>ar_handles := hs'\<rparr>"
      using s by (auto simp: nvm_rpc_handle_remove_def)
    obtain xs ys where k: "rh_key h = key" "ar_handles ref = xs @ h # ys" "hs' = xs @ ys" "key \<notin> rh_key ` set xs"
      using handle_unlink_Some [OF u(1)] by blast
    have y: "key \<notin> rh_key ` set ys" using d k(1,2) by auto
    have n: "handle_map xs key = None" "handle_map ys key = None" using k(4) y handle_map_dom by (metis domIff)+
    have "handle_map (ar_handles ref) = handle_map ys ++ (\<lambda>k. if k = key then Some (rh_data h) else None) ++ handle_map xs"
      using k(1) by (auto simp: handle_map_def k(2) map_of_append fun_eq_iff map_add_def split: option.split)
    moreover have "handle_map (ar_handles ref') = handle_map ys ++ handle_map xs"
      by (simp add: handle_map_def u(2) k(3))
    ultimately show ?thesis using n d k(2,3) u(2) by (auto simp: fun_eq_iff map_add_def split: option.split)
  qed
qed

section \<open>Lemmas: references and the heap\<close>

lemma ref_get_put:
  assumes "hp_ctrls h c = Some ct" and "ct_count ct \<noteq> 0"
  shows "nvm_ref_get h malloc_ok mutex_err c = (h1, Inr ref) \<Longrightarrow> fst (nvm_ref_put h1 ref) = h"
    and "nvm_ref_get h malloc_ok mutex_err c = (h1, Inl e) \<Longrightarrow> h1 = h"
proof -
  obtain h0 where g: "heap_ctrl_get h c = Some h0" using assms(1) by (simp add: heap_ctrl_get_def)
  have p: "heap_ctrl_put h0 c = h" by (rule ctrl_get_put [OF g]) (use assms in simp)
  show "fst (nvm_ref_put h1 ref) = h" if "nvm_ref_get h malloc_ok mutex_err c = (h1, Inr ref)"
    using that g p by (auto simp: nvm_ref_get_def nvm_ref_put_def release_handles_def split: if_splits option.splits)
  show "h1 = h" if "nvm_ref_get h malloc_ok mutex_err c = (h1, Inl e)"
    using that g p by (auto simp: nvm_ref_get_def split: if_splits option.splits)
qed

lemma remap_unmap:
  assumes o: "hp_conts h w = Some oc" and md: "hp_maps h (cn_map oc) = Some md" "mp_count md \<noteq> 0" "mp_va md \<noteq> None"
    and f: "mem_cont = Some k \<Longrightarrow> hp_conts h k = None"
  shows "nvm_dma_remap h mem_cont junk w = (h1, Inl e) \<Longrightarrow> h1 = h"
    and "nvm_dma_remap h mem_cont junk w = (h1, Inr k) \<Longrightarrow>
      nvm_dma_unmap h1 k = h \<and> hp_ctrls h1 = hp_ctrls h \<and> (\<exists>cn. hp_conts h1 k = Some cn \<and> mem_cont = Some k) \<and>
      (\<forall>C. nvm_dma_unmap (h1\<lparr>hp_ctrls := C\<rparr>) k = h\<lparr>hp_ctrls := C\<rparr>)"
proof -
  let ?h1 = "h\<lparr>hp_maps := (hp_maps h)(cn_map oc \<mapsto> md\<lparr>mp_count := mp_count md + 1\<rparr>)\<rparr>"
  have g: "get_map h (cn_map oc) = (?h1, None)" using md(1) by (simp add: get_map_def)
  have p: "put_map (?h1\<lparr>hp_conts := X, hp_ctrls := C\<rparr>) (cn_map oc) = h\<lparr>hp_conts := X, hp_ctrls := C\<rparr>" for X C
    using md by (auto simp: put_map_def Let_def fun_upd_idem)
  have p0: "put_map ?h1 (cn_map oc) = h" using md by (auto simp: put_map_def Let_def fun_upd_idem)
  show "h1 = h" if "nvm_dma_remap h mem_cont junk w = (h1, Inl e)"
    using that o g p0 by (auto simp: nvm_dma_remap_def Let_def split: sum.splits)
  show "nvm_dma_unmap h1 k = h \<and> hp_ctrls h1 = hp_ctrls h \<and> (\<exists>cn. hp_conts h1 k = Some cn \<and> mem_cont = Some k) \<and>
      (\<forall>C. nvm_dma_unmap (h1\<lparr>hp_ctrls := C\<rparr>) k = h\<lparr>hp_ctrls := C\<rparr>)" if r: "nvm_dma_remap h mem_cont junk w = (h1, Inr k)"
  proof -
    obtain cont where c: "create_container ?h1 mem_cont junk (cn_map oc) = Inr cont" and k: "mem_cont = Some k" "cn_map cont = cn_map oc"
      using r o g by (auto simp: nvm_dma_remap_def Let_def create_container_def split: sum.splits option.splits if_splits)
    then obtain dh where h1: "h1 = ?h1\<lparr>hp_conts := (hp_conts h)(k \<mapsto> \<lparr>cn_map = cn_map oc, cn_handle = dh\<rparr>)\<rparr>"
      using r o g by (cases cont) (auto simp: nvm_dma_remap_def Let_def)
    have n: "hp_conts h k = None" by (rule f [OF k(1)])
    have u: "nvm_dma_unmap (h1\<lparr>hp_ctrls := C\<rparr>) k = h\<lparr>hp_ctrls := C\<rparr>" for C
      using p [where X = "(hp_conts h)(k \<mapsto> \<lparr>cn_map = cn_map oc, cn_handle = dh\<rparr>)" and C = C] n
      by (simp add: h1 nvm_dma_unmap_def Let_def fun_upd_idem)
    have "h1\<lparr>hp_ctrls := hp_ctrls h\<rparr> = h1" by (simp add: h1)
    then show ?thesis using u [of "hp_ctrls h"] u k(1) by (simp add: h1)
  qed
qed


text \<open>A window with its descriptor, as \<open>dma_inv\<close> has it for every mapping.\<close>

definition window_ok :: "dma_heap \<Rightarrow> nat \<Rightarrow> nat \<Rightarrow> bool" where
  "window_ok h c w \<longleftrightarrow> (\<exists>ct oc md. hp_ctrls h c = Some ct \<and> ct_count ct \<noteq> 0 \<and> hp_conts h w = Some oc \<and>
     hp_maps h (cn_map oc) = Some md \<and> mp_count md \<noteq> 0 \<and> mp_va md \<noteq> None)"

lemma window_ok_inv: "dma_inv U h \<Longrightarrow> hp_ctrls h c \<noteq> None \<Longrightarrow> hp_conts h w \<noteq> None \<Longrightarrow> window_ok h c w"
  using dma_invD(3) dma_invD(4) dma_invD(6) unfolding window_ok_def by (metis not_None_eq)

lemma create_admin_cases:
  assumes "window_ok h c w" and f: "\<And>k. mem_cont = Some k \<Longrightarrow> hp_conts h k = None"
    and r: "create_admin h mem_cont junk malloc_ok q0 q1 c w cmds cpls = (h1, cmds1, cpls1, res)"
  shows "case res of
      Inl e \<Rightarrow> h1 = h
    | Inr admin \<Rightarrow> nvm_dma_remap h mem_cont junk w = (h1, Inr (la_qmem admin)) \<and> nvm_dma_unmap h1 (la_qmem admin) = h \<and>
        hp_ctrls h1 = hp_ctrls h"
proof -
  obtain ct oc md where o: "hp_ctrls h c = Some ct" "hp_conts h w = Some oc" "hp_maps h (cn_map oc) = Some md" "mp_count md \<noteq> 0" "mp_va md \<noteq> None"
    using assms(1) by (auto simp: window_ok_def)
  note R = remap_unmap [OF o(2-5) f]
  obtain h2 x where m: "nvm_dma_remap h mem_cont junk w = (h2, x)" by (metis prod.collapse)
  show ?thesis
  proof (cases x)
    case (Inl e)
    then have "h2 = h" using R(1) m by blast
    then show ?thesis using r o m Inl by (auto simp: create_admin_def Let_def split: if_splits)
  next
    case (Inr k)
    then have "nvm_dma_unmap h2 k = h" "hp_ctrls h2 = hp_ctrls h" using R(2) m by blast+
    then show ?thesis using r o m Inr by (auto simp: create_admin_def Let_def split: if_splits)
  qed
qed

lemma heap_ctrl_get_frame: "heap_ctrl_get h c = Some h1 \<Longrightarrow> hp_maps h1 = hp_maps h \<and> hp_conts h1 = hp_conts h"
  by (auto simp: heap_ctrl_get_def split: option.splits)

lemma ref_get_frame:
  "nvm_ref_get h malloc_ok mutex_err c = (h1, Inr ref) \<Longrightarrow> heap_ctrl_get h c = Some h1 \<and>
     ref = \<lparr>ar_ctrl = c, ar_handles = [], ar_data = Null_Data, ar_release = None, ar_stub = None\<rparr>"
  by (auto simp: nvm_ref_get_def split: option.splits if_splits)

section \<open>Lemmas: new admin queues\<close>

definition adm_start :: "local_admin \<Rightarrow> sq_mem \<Rightarrow> cq_mem \<Rightarrow> 'd \<Rightarrow> 'd adm_sys" where
  "adm_start admin cmds cpls d = \<lparr>as_la = admin, as_cmds = cmds, as_cpls = cpls, as_sqdb = 0, as_cqdb = 0, as_dev = d,
     as_sub = [], as_log = [], as_ans = []\<rparr>"

lemma queue_clear_unchecked_ok:
  assumes "2 \<le> qs" "qs \<le> 0x10000" "qs \<le> c_max_qs ctrl" and "q' = queue_clear_unchecked q ctrl cq qs loc vaddr ioaddr"
  shows "q_qs q' = qs" "q_es q' = (if cq then 16 else 64)" "q_head q' = 0" "q_tail q' = 0" "q_last q' = 0" "q_phase q'"
    "q_db q' \<noteq> None" "q_vaddr q' = vaddr"
proof -
  have "\<not> (qs < 2 \<or> qs > 0x10000 \<or> qs > c_max_qs ctrl)" using assms(1-3) by (simp add: not_less)
  then show "q_qs q' = qs" "q_es q' = (if cq then 16 else 64)" "q_head q' = 0" "q_tail q' = 0" "q_last q' = 0" "q_phase q'"
    "q_db q' \<noteq> None" "q_vaddr q' = vaddr"
    unfolding assms(4) queue_clear_unchecked_def nvm_queue_clear_def by (simp_all add: sizeof_nvm_cpl_t_def sizeof_nvm_cmd_t_def)
qed

text \<open>With fewer entries supported than fit into a page the descriptor stays as \<open>malloc\<close> left it.\<close>

lemma queue_clear_unchecked_junk:
  "c_max_qs ctrl < qs \<Longrightarrow> queue_clear_unchecked q ctrl cq qs loc vaddr ioaddr = q"
  by (simp add: queue_clear_unchecked_def nvm_queue_clear_def)

lemma page_entries:
  assumes ps: "unat ps = 2 ^ j" and j: "12 \<le> j" "j \<le> 20"
  shows "unat (ucast (ps div sizeof_nvm_cpl_t) :: u32) = 2 ^ (j - 4)" "unat (ucast (ps div sizeof_nvm_cmd_t) :: u32) = 2 ^ (j - 6)"
proof -
  have e: "(2 :: nat) ^ j div 2 ^ i = 2 ^ (j - i)" if "i \<le> j" for i using that by (simp add: power_diff)
  have lt: "(2 :: nat) ^ (j - i) < 2 ^ 32" for i using j by (intro power_strict_increasing) simp_all
  have "unat (ps div 16) = 2 ^ (j - 4)" using ps e [of 4] j by (simp add: unat_div_distrib)
  then show "unat (ucast (ps div sizeof_nvm_cpl_t) :: u32) = 2 ^ (j - 4)"
    using lt [of 4] by (simp add: sizeof_nvm_cpl_t_def unat_ucast_mod)
  have "unat (ps div 64) = 2 ^ (j - 6)" using ps e [of 6] j by (simp add: unat_div_distrib)
  then show "unat (ucast (ps div sizeof_nvm_cmd_t) :: u32) = 2 ^ (j - 6)"
    using lt [of 6] by (simp add: sizeof_nvm_cmd_t_def unat_ucast_mod)
qed

lemma create_admin_fresh:
  assumes o: "hp_ctrls h c = Some ct" "hp_conts h w = Some oc" "hp_maps h (cn_map oc) = Some md" and own: "mp_ctrl md = c"
    and ps: "unat (c_page_size (ct_handle ct)) = 2 ^ j" "12 \<le> j" "j \<le> 20" "2 ^ (j - 4) \<le> unat (c_max_qs (ct_handle ct))"
    and r: "create_admin h mem_cont junk malloc_ok q0 q1 c w cmds cpls = (h1, cmds1, cpls1, Inr admin)"
  shows "adm_fresh (adm_start admin cmds1 cpls1 d)" "la_timeout admin = c_timeout (ct_handle ct)"
    "q_vaddr (la_acq admin) \<noteq> q_vaddr (la_asq admin)"
proof -
  let ?ct = "ct_handle ct" and ?ps = "c_page_size (ct_handle ct)"
  obtain k where m: "nvm_dma_remap h mem_cont junk w = (h1, Inr k)"
    using r o(1,2) by (auto simp: create_admin_def Let_def split: if_splits prod.splits sum.splits)
  let ?q = "cn_handle (the (hp_conts h1 k))"
  have q: "dma_page_size ?q = ?ps"
    using m o own by (auto simp: nvm_dma_remap_def get_map_def create_container_def ctrl_page_size_def populate_handle_def Let_def
        split: sum.splits option.splits if_splits)
  have a: "cpls1 = memset_zero (dma_vaddr ?q) (2 * ?ps) zero_cpl cpls"
    "la_acq admin = queue_clear_unchecked q0 ?ct True (ucast (?ps div sizeof_nvm_cpl_t)) (dma_local ?q) (dma_vaddr ?q) (dma_ioaddrs ?q ! 0)"
    "la_asq admin = queue_clear_unchecked q1 ?ct False (ucast (?ps div sizeof_nvm_cmd_t)) (dma_local ?q) (NVM_PTR_OFFSET (dma_vaddr ?q) ?ps 1) (dma_ioaddrs ?q ! 1)"
    "la_timeout admin = c_timeout ?ct"
    using r o(1,2) m q by (auto simp: create_admin_def Let_def split: if_splits)
  show "la_timeout admin = c_timeout ?ct" by (rule a(4))
  note E = page_entries [OF ps(1-3)]
  have p: "(2 :: nat) ^ (j - 4) \<le> 2 ^ 16" "(2 :: nat) ^ 8 \<le> 2 ^ (j - 4)" "(2 :: nat) ^ 6 \<le> 2 ^ (j - 6)" "(2 :: nat) ^ (j - 6) \<le> 2 ^ (j - 4)"
    using ps(2,3) by (intro power_increasing; simp)+
  have le: "ucast (?ps div sizeof_nvm_cmd_t) \<le> (ucast (?ps div sizeof_nvm_cpl_t) :: u32)"
    "2 \<le> (ucast (?ps div sizeof_nvm_cmd_t) :: u32)" "ucast (?ps div sizeof_nvm_cpl_t) \<le> (0x10000 :: u32)"
    "ucast (?ps div sizeof_nvm_cpl_t) \<le> c_max_qs ?ct"
    using p ps(4) E by (simp_all add: word_le_nat_alt)
  have A': "q_qs (la_acq admin) = ucast (?ps div sizeof_nvm_cpl_t)" "q_es (la_acq admin) = 16" "q_head (la_acq admin) = 0" "q_last (la_acq admin) = 0"
    "q_phase (la_acq admin)" "q_db (la_acq admin) \<noteq> None" "q_vaddr (la_acq admin) = dma_vaddr ?q"
    using queue_clear_unchecked_ok [OF order_trans [OF le(2,1)] le(3,4) a(2)] by simp_all
  have B': "q_qs (la_asq admin) = ucast (?ps div sizeof_nvm_cmd_t)" "q_es (la_asq admin) = 64" "q_head (la_asq admin) = 0" "q_last (la_asq admin) = 0"
    "q_tail (la_asq admin) = 0" "q_db (la_asq admin) \<noteq> None" "q_vaddr (la_asq admin) = NVM_PTR_OFFSET (dma_vaddr ?q) ?ps 1"
    using queue_clear_unchecked_ok [OF le(2) order_trans [OF le(1,3)] order_trans [OF le(1,4)] a(3)] by simp_all
  have pos: "(0 :: nat) < 2 ^ j" by simp
  have "?ps \<noteq> 0" using ps(1) by auto
  then show "q_vaddr (la_acq admin) \<noteq> q_vaddr (la_asq admin)" by (simp add: A' B' NVM_PTR_OFFSET_def)
  have "sq_inv (la_asq admin)"
    unfolding sq_inv_def using B' E(2) ps(2,3) p by (auto simp: word_gt_0_no word_less_nat_alt intro!: exI [of _ "j - 6"])
  moreover have "\<not> cpl_phase (cpls1 (slot_addr (la_acq admin) (of_nat i)))" if i: "i < 2 ^ (j - 4)" for i
  proof -
    have j4: "(2 :: nat) ^ j = 16 * 2 ^ (j - 4)" using ps(2) power_add [of "2 :: nat" 4 "j - 4"] by simp
    have i': "i < 65536" using i p(1) by simp
    have "slot_addr (la_acq admin) (of_nat i) - dma_vaddr ?q = of_nat (16 * i)" using slot_addr_unat [OF A'(2) i'] A'(7) by simp
    moreover have "unat (of_nat (16 * i) :: u64) = 16 * i" using i' unfolding unat_of_nat by (intro mod_less) simp
    moreover have "unat (2 * ?ps) = 2 * 2 ^ j"
    proof -
      have "(2 :: nat) ^ j \<le> 2 ^ 20" using ps(3) by (intro power_increasing) simp_all
      then show ?thesis using ps(1) unat_mult_lem [of 2 ?ps] by simp
    qed
    ultimately have "slot_addr (la_acq admin) (of_nat i) - dma_vaddr ?q < 2 * ?ps" using i j4 by (simp add: word_less_nat_alt)
    then show ?thesis by (simp add: a(1) memset_zero_def zero_cpl_def cpl_phase_bit)
  qed
  ultimately show "adm_fresh (adm_start admin cmds1 cpls1 d)"
    using A' B' E le p(2) by (simp add: adm_fresh_def adm_start_def cq_fresh_def cq_view_def Let_def word_le_nat_alt)
qed

section \<open>Lemmas: calls through a reference\<close>

text \<open>The stub of the local queues, on the queues with their controller.\<close>

definition local_stub :: "'d dev_fn \<Rightarrow> nat option \<Rightarrow> 'd adm_sys stub_fn" where
  "local_stub dev w stub data s cmd cpl =
     (let s' = admin_call dev w cmd s in
      case last (as_ans s') of Inl e \<Rightarrow> (s', Some e, cpl) | Inr cpl' \<Rightarrow> (s', None, cpl'))"

text \<open>The status that a caller sees is that of its completion.\<close>

lemma cid_below_phase:
  fixes x :: u32 and y :: u16
  assumes "16 \<le> k"
  shows "ucast ((push_bit 17 x OR ucast y) OR push_bit k 1) = y" "ucast ((push_bit 17 x OR ucast y) AND NOT (push_bit k 1)) = y"
  using assms by (auto intro!: bit_word_eqI simp: bit_simps)

lemma cpl_of_fields:
  "cpl_dword (set_phase ph (cpl_of c res sqhd status)) ! 0 = res" "NVM_CPL_CID (set_phase ph (cpl_of c res sqhd status)) = cmd_cid c"
  using cid_below_phase [of 16 "ucast status" "cmd_cid c"] by (simp_all add: set_phase_def cpl_of_def NVM_CPL_CID_def)

section \<open>Properties of admin references\<close>

text \<open>Admin references leave nothing behind.  When the admin queues of a controller cannot be created, whatever
  fails on the way, the references to controllers and DMA mappings are what they were; when they are created,
  destroying the reference brings them back to what they were.\<close>

lemma aq_create_destroy:
  assumes inv: "dma_inv U h" and room: "room h" and c: "hp_ctrls h c \<noteq> None" and w: "hp_conts h w \<noteq> None"
    and f: "\<And>k. mem_cont = Some k \<Longrightarrow> hp_conts h k = None"
    and r: "nvm_aq_create h malloc_ref mutex_err mem_cont junk malloc_ok q0 q1 c w cmds cpls cc csts = (h', cmds', cpls', writes, res)"
  shows "case res of Inl e \<Rightarrow> h' = h \<and> writes = [] | Inr ref \<Rightarrow> h' \<noteq> h \<and> nvm_aq_destroy h' (Some ref) = h"
proof -
  have ok: "window_ok h c w" using window_ok_inv [OF inv c w] .
  obtain ct where ct: "hp_ctrls h c = Some ct" "ct_count ct \<noteq> 0" using ok by (auto simp: window_ok_def)
  note G = ref_get_put [OF ct]
  obtain h1 x where g: "nvm_ref_get h malloc_ref mutex_err c = (h1, x)" by (metis prod.collapse)
  show ?thesis
  proof (cases x)
    case (Inl e)
    then show ?thesis using r g G(2) by (auto simp: nvm_aq_create_def)
  next
    case (Inr ref)
    note F = ref_get_frame [OF g [unfolded Inr]]
    have h1: "hp_maps h1 = hp_maps h" "hp_conts h1 = hp_conts h" "hp_ctrls h1 c = Some (ct\<lparr>ct_count := ct_count ct + 1\<rparr>)"
      using F ct(1) heap_ctrl_get_frame [of h c h1] by (auto simp: heap_ctrl_get_def)
    have "ct_count ct + 1 \<noteq> 0" using room ct(1) unat_Suc [of "ct_count ct"] by (auto simp: room_def)
    then have ok1: "window_ok h1 c w" using ok h1 by (auto simp: window_ok_def)
    have put: "heap_ctrl_put h1 c = h" using G(1) [OF g [unfolded Inr]] F by (simp add: nvm_ref_put_def release_handles_def)
    obtain h2 cm cp y where a: "create_admin h1 mem_cont junk malloc_ok q0 q1 c w cmds cpls = (h2, cm, cp, y)" by (metis prod.collapse)
    have f1: "mem_cont = Some k \<Longrightarrow> hp_conts h1 k = None" for k using f h1 by simp
    note A = create_admin_cases [OF ok1 f1 a]
    show ?thesis
    proof (cases y)
      case (Inl e)
      then have "h2 = h1" using A by simp
      then show ?thesis using r g Inr a Inl F put by (auto simp: nvm_aq_create_def nvm_ref_put_def release_handles_def)
    next
      case (Inr admin)
      then have m: "nvm_dma_unmap h2 (la_qmem admin) = h1" "hp_ctrls h2 = hp_ctrls h1" using A by simp_all
      have "hp_ctrls h2 \<noteq> hp_ctrls h"
      proof
        assume "hp_ctrls h2 = hp_ctrls h"
        then have "ct\<lparr>ct_count := ct_count ct + 1\<rparr> = ct" using m(2) h1(3) ct(1) by simp
        then have "ct_count ct + 1 = ct_count ct" by (cases ct) simp
        then show False by simp
      qed
      then have "h2 \<noteq> h" by auto
      then show ?thesis using r g \<open>x = Inr ref\<close> a Inr F put m(1)
        by (auto simp: nvm_aq_create_def nvm_aq_destroy_def nvm_ref_put_def release_handles_def remove_admin_def Let_def)
    qed
  qed
qed

text \<open>The answer of the reset is not looked at: a controller that never becomes ready is reported as created.\<close>

lemma aq_create_ignores_reset:
  "nvm_aq_create h malloc_ref mutex_err mem_cont junk malloc_ok q0 q1 c w cmds cpls cc csts = (h', cmds', cpls', writes, Inr ref) \<Longrightarrow>
     \<exists>writes'. nvm_aq_create h malloc_ref mutex_err mem_cont junk malloc_ok q0 q1 c w cmds cpls cc csts' = (h', cmds', cpls', writes', Inr ref)"
  by (auto simp: nvm_aq_create_def Let_def split: prod.splits sum.splits)


lemma aq_create_destroy_witness_heap:
  "dma_inv {0} witness_heap \<and> room witness_heap"
  by (simp add: dma_inv_def room_def witness_heap_def witness_ctrl_def maps_in_def)

definition witness_window :: dma_heap where
  "witness_window = fst (nvm_dma_map witness_heap True (Some 5) (Some 7) witness_dh 0 0x7000 4096 3 (Some [0x10000, 0x40000, 0x80000]))"

lemma witness_window_fields:
  "hp_ctrls witness_window = [0 \<mapsto> witness_ctrl\<lparr>ct_count := 2\<rparr>]"
  "hp_maps witness_window = [5 \<mapsto> \<lparr>mp_count = 1, mp_ctrl = 0, mp_va = Some \<lparr>va_remote = False, va_vaddr = 0x7000, va_page_size = 4096, va_n_pages = 3\<rparr>, mp_unmap = False\<rparr>]"
  "\<exists>dh. hp_conts witness_window = [7 \<mapsto> \<lparr>cn_map = 5, cn_handle = dh\<rparr>] \<and> dma_vaddr dh = 0x7000 \<and> dma_page_size dh = 4096 \<and> length (dma_ioaddrs dh) = 3"
proof -
  note d = witness_window_def nvm_dma_map_def create_map_def create_container_def heap_ctrl_get_def ctrl_page_size_def Let_def
      witness_heap_def witness_ctrl_def witness_dh_def populate_handle_def n_ctrl_pages_def
  show "hp_ctrls witness_window = [0 \<mapsto> witness_ctrl\<lparr>ct_count := 2\<rparr>]"
    "hp_maps witness_window = [5 \<mapsto> \<lparr>mp_count = 1, mp_ctrl = 0, mp_va = Some \<lparr>va_remote = False, va_vaddr = 0x7000, va_page_size = 4096, va_n_pages = 3\<rparr>, mp_unmap = False\<rparr>]"
    by (simp_all add: d)
  show "\<exists>dh. hp_conts witness_window = [7 \<mapsto> \<lparr>cn_map = 5, cn_handle = dh\<rparr>] \<and> dma_vaddr dh = 0x7000 \<and> dma_page_size dh = 4096 \<and> length (dma_ioaddrs dh) = 3"
    by (simp add: d, rule exI, rule conjI, rule refl, simp)
qed

lemma aq_create_destroy_witness:
  "\<exists>h cm cp ws ref. nvm_aq_create witness_window True None (Some 8) witness_dh True witness_sq witness_sq 0 7 (\<lambda>_. zero_cmd) (\<lambda>_. zero_cpl) 0 (\<lambda>_. 0) =
      (h, cm, cp, ws, Inr ref) \<and> nvm_aq_destroy h (Some ref) = witness_window"
proof -
  note W = witness_window_fields
  obtain dh where dh: "hp_conts witness_window = [7 \<mapsto> \<lparr>cn_map = 5, cn_handle = dh\<rparr>]" "dma_vaddr dh = 0x7000" "dma_page_size dh = 4096"
    "length (dma_ioaddrs dh) = 3" using W(3) by blast
  have s: "dma_step ({0}, witness_heap) ({0}, witness_window)"
    unfolding witness_window_def by (rule step_map) (simp_all add: witness_heap_def witness_ctrl_def fresh_def room_def)
  have inv: "dma_inv {0} witness_window" using dma_step_inv [OF s] aq_create_destroy_witness_heap by simp
  have rm: "room witness_window" by (simp add: room_def W witness_ctrl_def)
  obtain h cm cp ws r where c: "nvm_aq_create witness_window True None (Some 8) witness_dh True witness_sq witness_sq 0 7 (\<lambda>_. zero_cmd) (\<lambda>_. zero_cpl) 0 (\<lambda>_. 0) =
      (h, cm, cp, ws, r)" by (metis prod.collapse)
  have "isl r = False"
    using c by (auto simp: nvm_aq_create_def nvm_ref_get_def heap_ctrl_get_def W create_admin_def witness_ctrl_def dh Let_def
        nvm_dma_remap_def get_map_def create_container_def ctrl_page_size_def)
  then obtain ref where "r = Inr ref" by (cases r) auto
  then show ?thesis using c aq_create_destroy [OF inv rm _ _ _ c] by (auto simp: W dh)
qed

end
