(* ===== verification/Nvm_Admin.thy ===== *)
theory Nvm_Admin
  imports Nvm_Aq
begin

text \<open>
  Admin commands (\<open>src/admin.cpp\<close>): the builders of the commands, and the calls that send one over a reference and take
  the answer apart: identifying a controller and a namespace, log pages, the number of queues, and the creation and
  deletion of I/O queues.  \<open>rpc\<close> is \<open>nvm_raw_rpc\<close> on a reference, over a state that includes the page that the controller
  writes data to; \<open>rd\<close> reads this page and \<open>clr\<close> clears it.  Cache invalidation has no effect on values.
\<close>

section \<open>Commands\<close>

definition opc :: "nvm_admin_command_set \<Rightarrow> u8" where
  "opc c = ucast (admin_opcode c)"

definition admin_cq_create :: "nvm_cmd_t \<Rightarrow> nvm_queue_t \<Rightarrow> u64 \<Rightarrow> bool \<Rightarrow> nvm_cmd_t" where
  "admin_cq_create cmd cq ioaddr need_prp =
     set_dword 11 (push_bit 16 0 OR push_bit 1 0 OR of_bool (\<not> need_prp))
       (set_dword 10 (push_bit 16 (q_qs cq - 1) OR ucast (q_no cq))
          (nvm_cmd_data_ptr (nvm_cmd_header cmd 0 (opc NVM_ADMIN_CREATE_CQ) 0) ioaddr 0))"

definition admin_cq_delete :: "nvm_cmd_t \<Rightarrow> nvm_queue_t \<Rightarrow> nvm_cmd_t" where
  "admin_cq_delete cmd cq = set_dword 10 (ucast (q_no cq) AND 0xffff) (nvm_cmd_header cmd 0 (opc NVM_ADMIN_DELETE_CQ) 0)"

definition admin_sq_create :: "nvm_cmd_t \<Rightarrow> nvm_queue_t \<Rightarrow> nvm_queue_t \<Rightarrow> u64 \<Rightarrow> bool \<Rightarrow> nvm_cmd_t" where
  "admin_sq_create cmd sq cq ioaddr need_prp =
     set_dword 11 (push_bit 16 (ucast (q_no cq)) OR push_bit 1 0 OR of_bool (\<not> need_prp))
       (set_dword 10 (push_bit 16 (q_qs sq - 1) OR ucast (q_no sq))
          (nvm_cmd_data_ptr (nvm_cmd_header cmd 0 (opc NVM_ADMIN_CREATE_SQ) 0) ioaddr 0))"

definition admin_sq_delete :: "nvm_cmd_t \<Rightarrow> nvm_queue_t \<Rightarrow> nvm_cmd_t" where
  "admin_sq_delete cmd sq = set_dword 10 (ucast (q_no sq) AND 0xffff) (nvm_cmd_header cmd 0 (opc NVM_ADMIN_DELETE_SQ) 0)"

text \<open>\<open>n_cqs - 1\<close> and \<open>n_sqs - 1\<close> are computed on \<open>int\<close>.\<close>

definition admin_current_num_queues :: "nvm_cmd_t \<Rightarrow> bool \<Rightarrow> u16 \<Rightarrow> u16 \<Rightarrow> nvm_cmd_t" where
  "admin_current_num_queues cmd is_set n_cqs n_sqs =
     set_dword 11 (if is_set then push_bit 16 (ucast n_cqs - 1) OR (ucast n_sqs - 1) else 0)
       (set_dword 10 (push_bit 8 0 OR 7)
          (nvm_cmd_data_ptr (nvm_cmd_header cmd 0 (opc (if is_set then NVM_ADMIN_SET_FEATURES else NVM_ADMIN_GET_FEATURES)) 0) 0 0))"

definition admin_identify_ctrl :: "nvm_cmd_t \<Rightarrow> u64 \<Rightarrow> nvm_cmd_t" where
  "admin_identify_ctrl cmd ioaddr =
     set_dword 11 0 (set_dword 10 (push_bit 16 0 OR 1) (nvm_cmd_data_ptr (nvm_cmd_header cmd 0 (opc NVM_ADMIN_IDENTIFY) 0) ioaddr 0))"

definition admin_identify_ns :: "nvm_cmd_t \<Rightarrow> u32 \<Rightarrow> u64 \<Rightarrow> nvm_cmd_t" where
  "admin_identify_ns cmd ns_id ioaddr =
     set_dword 11 0 (set_dword 10 (push_bit 16 0 OR 0) (nvm_cmd_data_ptr (nvm_cmd_header cmd 0 (opc NVM_ADMIN_IDENTIFY) ns_id) ioaddr 0))"

definition admin_get_log_page :: "nvm_cmd_t \<Rightarrow> u32 \<Rightarrow> u64 \<Rightarrow> u8 \<Rightarrow> u64 \<Rightarrow> nvm_cmd_t" where
  "admin_get_log_page cmd ns_id ioaddr log_id log_offset =
     set_dword 13 (ucast (drop_bit 32 log_offset))
       (set_dword 12 (ucast log_offset)
          (set_dword 11 0
             (set_dword 10 (push_bit 16 1024 OR ucast log_id)
                (nvm_cmd_data_ptr (nvm_cmd_header cmd 0 (opc NVM_ADMIN_GET_LOG_PAGE) ns_id) ioaddr 0))))"

section \<open>Calls\<close>

type_synonym 's rpc = "'s \<Rightarrow> nvm_cmd_t \<Rightarrow> nvm_cpl_t \<Rightarrow> 's \<times> int \<times> nvm_cpl_t"

record nvm_ctrl_info =
  ci_nvme_version :: u32
  ci_page_size :: u64
  ci_db_stride :: u64
  ci_timeout :: u64
  ci_contiguous :: bool
  ci_max_entries :: u16
  ci_pci_vendor :: "u8 list"
  ci_serial_no :: "u8 list"
  ci_model_no :: "u8 list"
  ci_firmware :: "u8 list"
  ci_max_data_size :: u64
  ci_max_data_pages :: u64
  ci_cq_entry_size :: u64
  ci_sq_entry_size :: u64
  ci_max_out_cmds :: u64
  ci_max_n_ns :: u64

record nvm_ns_info =
  ni_ns_id :: u32
  ni_size :: u64
  ni_capacity :: u64
  ni_utilization :: u64
  ni_lba_data_size :: u64
  ni_metadata_size :: u64

definition zero_ctrl_info :: nvm_ctrl_info where
  "zero_ctrl_info = \<lparr>ci_nvme_version = 0, ci_page_size = 0, ci_db_stride = 0, ci_timeout = 0, ci_contiguous = False, ci_max_entries = 0,
     ci_pci_vendor = replicate 4 0, ci_serial_no = replicate 20 0, ci_model_no = replicate 40 0, ci_firmware = replicate 8 0,
     ci_max_data_size = 0, ci_max_data_pages = 0, ci_cq_entry_size = 0, ci_sq_entry_size = 0, ci_max_out_cmds = 0, ci_max_n_ns = 0\<rparr>"

definition zero_ns_info :: nvm_ns_info where
  "zero_ns_info = \<lparr>ni_ns_id = 0, ni_size = 0, ni_capacity = 0, ni_utilization = 0, ni_lba_data_size = 0, ni_metadata_size = 0\<rparr>"

text \<open>Numbers in memory are little-endian.\<close>

definition le_bytes :: "(nat \<Rightarrow> u8) \<Rightarrow> nat \<Rightarrow> nat \<Rightarrow> u64" where
  "le_bytes bytes off n = foldr (\<lambda>i acc. push_bit 8 acc OR ucast (bytes (off + i))) [0..<n] 0"

definition byte_range :: "(nat \<Rightarrow> u8) \<Rightarrow> nat \<Rightarrow> nat \<Rightarrow> u8 list" where
  "byte_range bytes off n = map bytes [off..<off + n]"

text \<open>\<open>ctrl\<close> is what \<open>nvm_ctrl_from_aq_ref\<close> gives, \<open>ver\<close> and \<open>cap\<close> are its registers.\<close>

definition nvm_admin_ctrl_info ::
  "'s rpc \<Rightarrow> ('s \<Rightarrow> 's) \<Rightarrow> ('s \<Rightarrow> nat \<Rightarrow> u8) \<Rightarrow> nvm_ctrl_t \<Rightarrow> u32 \<Rightarrow> u64 \<Rightarrow> nvm_ctrl_info option \<Rightarrow> bool \<Rightarrow> u64 \<Rightarrow> 's
     \<Rightarrow> 's \<times> int \<times> nvm_ctrl_info option"
where
  "nvm_admin_ctrl_info rpc clr rd ctrl ver cap info ptr ioaddr s =
     (case info of
        None \<Rightarrow> (s, errno_code EINVAL, None)
      | Some _ \<Rightarrow>
          if \<not> ptr \<or> ioaddr = 0 then (s, errno_code EINVAL, info)
          else
            (let info1 = zero_ctrl_info\<lparr>ci_nvme_version := ver, ci_page_size := c_page_size ctrl, ci_db_stride := push_bit (unat (c_dstrd ctrl)) 1,
                   ci_timeout := CAP_TO cap * 500, ci_contiguous := CAP_CQR cap \<noteq> 0, ci_max_entries := ucast (CAP_MQES cap + 1)\<rparr>
             in case rpc (clr s) (admin_identify_ctrl zero_cmd ioaddr) zero_cpl of
                  (s', err, _) \<Rightarrow>
                    if \<not> nvm_ok err then (s', err, Some info1)
                    else
                      (let bytes = rd s';
                           mds = push_bit (unat (bytes 77)) 1 * push_bit (12 + unat (CAP_MPSMIN cap)) 1
                       in (s', 0, Some (info1\<lparr>ci_pci_vendor := byte_range bytes 0 4, ci_serial_no := byte_range bytes 4 20,
                             ci_model_no := byte_range bytes 24 40, ci_firmware := byte_range bytes 64 8, ci_max_data_size := mds,
                             ci_max_data_pages := mds div c_page_size ctrl, ci_sq_entry_size := push_bit (unat (RB (ucast (bytes 512)) 3 0)) 1,
                             ci_cq_entry_size := push_bit (unat (RB (ucast (bytes 513)) 3 0)) 1, ci_max_out_cmds := le_bytes bytes 514 2,
                             ci_max_n_ns := le_bytes bytes 516 4\<rparr>)))))"

text \<open>\<open>1 << _RB(lba_format, 23, 16)\<close> is a shift of a 32-bit \<open>int\<close>, which is converted to \<open>size_t\<close>.\<close>

definition nvm_admin_ns_info ::
  "'s rpc \<Rightarrow> ('s \<Rightarrow> 's) \<Rightarrow> ('s \<Rightarrow> nat \<Rightarrow> u8) \<Rightarrow> nvm_ns_info option \<Rightarrow> u32 \<Rightarrow> bool \<Rightarrow> u64 \<Rightarrow> 's \<Rightarrow> 's \<times> int \<times> nvm_ns_info option"
where
  "nvm_admin_ns_info rpc clr rd info ns_id ptr ioaddr s =
     (case info of
        None \<Rightarrow> (s, errno_code EINVAL, None)
      | Some _ \<Rightarrow>
          if \<not> ptr \<or> ioaddr = 0 then (s, errno_code EINVAL, info)
          else
            (case rpc (clr s) (admin_identify_ns zero_cmd ns_id ioaddr) zero_cpl of
               (s', err, _) \<Rightarrow>
                 if \<not> nvm_ok err then (s', err, Some (zero_ns_info\<lparr>ni_ns_id := ns_id\<rparr>))
                 else
                   (let bytes = rd s';
                        format_idx = unat (RB (ucast (bytes 26)) 3 0);
                        lba_format = le_bytes bytes (128 + 4 * format_idx) 4
                    in (s', 0, Some (zero_ns_info\<lparr>ni_ns_id := ns_id, ni_size := le_bytes bytes 0 8, ni_capacity := le_bytes bytes 8 8,
                          ni_utilization := le_bytes bytes 16 8,
                          ni_lba_data_size := scast (push_bit (unat (RB lba_format 23 16)) (1 :: u32)),
                          ni_metadata_size := RB lba_format 15 0\<rparr>)))))"

definition nvm_admin_get_log_page :: "'s rpc \<Rightarrow> ('s \<Rightarrow> 's) \<Rightarrow> u32 \<Rightarrow> u64 \<Rightarrow> u8 \<Rightarrow> u64 \<Rightarrow> 's \<Rightarrow> 's \<times> int" where
  "nvm_admin_get_log_page rpc clr ns_id ioaddr log_id log_offset s =
     (case rpc (clr s) (admin_get_log_page zero_cmd ns_id ioaddr log_id log_offset) zero_cpl of
        (s', err, _) \<Rightarrow> if \<not> nvm_ok err then (s', err) else (s', 0))"

definition nvm_admin_get_num_queues :: "'s rpc \<Rightarrow> u16 \<Rightarrow> u16 \<Rightarrow> 's \<Rightarrow> 's \<times> int \<times> u16 \<times> u16" where
  "nvm_admin_get_num_queues rpc n_cqs n_sqs s =
     (case rpc s (admin_current_num_queues zero_cmd False 0 0) zero_cpl of
        (s', err, cpl) \<Rightarrow>
          if \<not> nvm_ok err then (s', err, n_cqs, n_sqs)
          else (s', 0, ucast ((cpl_dword cpl ! 0 AND 0xffff) + 1), ucast (drop_bit 16 (cpl_dword cpl ! 0) + 1)))"

definition nvm_admin_request_num_queues :: "'s rpc \<Rightarrow> u16 \<Rightarrow> u16 \<Rightarrow> 's \<Rightarrow> 's \<times> int \<times> u16 \<times> u16" where
  "nvm_admin_request_num_queues rpc n_cqs n_sqs s =
     (if n_cqs = 0 \<or> n_sqs = 0 then (s, errno_code EINVAL, n_cqs, n_sqs)
      else
        (case rpc s (admin_current_num_queues zero_cmd True n_cqs n_sqs) zero_cpl of
           (s', err, cpl) \<Rightarrow>
             if err \<noteq> 0 then (s', err, n_cqs, n_sqs)
             else (s', 0, ucast ((cpl_dword cpl ! 0 AND 0xffff) + 1), ucast (drop_bit 16 (cpl_dword cpl ! 0) + 1))))"

definition nvm_admin_set_num_queues :: "'s rpc \<Rightarrow> u16 \<Rightarrow> u16 \<Rightarrow> 's \<Rightarrow> 's \<times> int" where
  "nvm_admin_set_num_queues rpc n_cqs n_sqs s = (case nvm_admin_request_num_queues rpc n_cqs n_sqs s of (s', err, _, _) \<Rightarrow> (s', err))"

text \<open>
  \<open>ctrl\<close> is \<open>None\<close> for a null reference; \<open>vaddr_null\<close> in the handle is address 0.  The new descriptor is built in a local
  variable (\<open>queue\<close>, uninitialised) and copied out at the end.
\<close>

definition nvm_admin_cq_create ::
  "'s rpc \<Rightarrow> nvm_ctrl_t option \<Rightarrow> nvm_queue_t \<Rightarrow> nvm_queue_t \<Rightarrow> u16 \<Rightarrow> nvm_dma_t \<Rightarrow> u64 \<Rightarrow> u64 \<Rightarrow> bool \<Rightarrow> 's \<Rightarrow> 's \<times> int \<times> nvm_queue_t"
where
  "nvm_admin_cq_create rpc ctrl queue cq no dma offset qs0 need_prp s =
     (if no = 0 then (s, errno_code EINVAL, cq)
      else case ctrl of
        None \<Rightarrow> (s, errno_code ENOTTY, cq)
      | Some ct \<Rightarrow>
          (let qs = (if qs0 = 0 then min (dma_page_size dma div sizeof_nvm_cpl_t) (ucast (c_max_qs ct)) else qs0);
               n_pages = NVM_CQ_PAGES (c_page_size ct) qs;
               n = of_nat (length (dma_ioaddrs dma))
           in if qs < 2 \<or> qs > 0x10000 \<or> qs > ucast (c_max_qs ct) then (s, errno_code EINVAL, cq)
              else if dma_vaddr dma = 0 then (s, errno_code EINVAL, cq)
              else if n_pages = 0 \<or> n_pages > n \<or> offset > n \<or> offset + n_pages > n then (s, errno_code EINVAL, cq)
              else case nvm_queue_clear queue ct True no (ucast qs) (dma_local dma)
                          (NVM_PTR_OFFSET (dma_vaddr dma) (dma_page_size dma) offset) (dma_ioaddrs dma ! unat offset) of
                     Inl e \<Rightarrow> (s, errno_code e, cq)
                   | Inr q \<Rightarrow>
                       (case rpc s (admin_cq_create zero_cmd q (dma_ioaddrs dma ! unat offset) need_prp) zero_cpl of
                          (s', err, _) \<Rightarrow> if \<not> nvm_ok err then (s', err, cq) else (s', 0, q))))"

definition nvm_admin_cq_delete :: "'s rpc \<Rightarrow> nvm_queue_t \<Rightarrow> 's \<Rightarrow> 's \<times> int \<times> nvm_queue_t" where
  "nvm_admin_cq_delete rpc cq s =
     (if q_db cq = None then (s, errno_code EINVAL, cq)
      else case rpc s (admin_cq_delete zero_cmd cq) zero_cpl of
        (s', err, _) \<Rightarrow> if \<not> nvm_ok err then (s', err, cq) else (s', 0, cq\<lparr>q_db := None\<rparr>))"

definition nvm_admin_sq_create ::
  "'s rpc \<Rightarrow> nvm_ctrl_t option \<Rightarrow> nvm_queue_t \<Rightarrow> nvm_queue_t \<Rightarrow> nvm_queue_t \<Rightarrow> u16 \<Rightarrow> nvm_dma_t \<Rightarrow> u64 \<Rightarrow> u64 \<Rightarrow> bool \<Rightarrow> 's
     \<Rightarrow> 's \<times> int \<times> nvm_queue_t"
where
  "nvm_admin_sq_create rpc ctrl queue sq cq no dma offset qs0 need_prp s =
     (if no = 0 then (s, errno_code EINVAL, sq)
      else case ctrl of
        None \<Rightarrow> (s, errno_code ENOTTY, sq)
      | Some ct \<Rightarrow>
          (let qs = (if qs0 = 0 then min (dma_page_size dma div sizeof_nvm_cmd_t) (ucast (c_max_qs ct)) else qs0);
               n_pages = NVM_SQ_PAGES (c_page_size ct) qs;
               n = of_nat (length (dma_ioaddrs dma))
           in if qs < 2 \<or> qs > 0x10000 \<or> qs > ucast (c_max_qs ct) then (s, errno_code EINVAL, sq)
              else if dma_vaddr dma = 0 then (s, errno_code EINVAL, sq)
              else if n_pages = 0 \<or> n_pages > n \<or> offset > n \<or> offset + n_pages > n then (s, errno_code EINVAL, sq)
              else case nvm_queue_clear queue ct False no (ucast qs) (dma_local dma)
                          (NVM_PTR_OFFSET (dma_vaddr dma) (dma_page_size dma) offset) (dma_ioaddrs dma ! unat offset) of
                     Inl e \<Rightarrow> (s, errno_code e, sq)
                   | Inr q \<Rightarrow>
                       (case rpc s (admin_sq_create zero_cmd q cq (dma_ioaddrs dma ! unat offset) need_prp) zero_cpl of
                          (s', err, _) \<Rightarrow> if \<not> nvm_ok err then (s', err, sq) else (s', 0, q))))"

definition nvm_admin_sq_delete :: "'s rpc \<Rightarrow> nvm_queue_t \<Rightarrow> nvm_queue_t option \<Rightarrow> 's \<Rightarrow> 's \<times> int \<times> nvm_queue_t" where
  "nvm_admin_sq_delete rpc sq cq s =
     (if (case cq of None \<Rightarrow> True | Some c \<Rightarrow> q_db c = None) then (s, errno_code EINVAL, sq)
      else if q_db sq = None then (s, errno_code EINVAL, sq)
      else case rpc s (admin_sq_delete zero_cmd sq) zero_cpl of
        (s', err, _) \<Rightarrow> if \<not> nvm_ok err then (s', err, sq) else (s', 0, sq\<lparr>q_db := None\<rparr>))"


section \<open>What the controller reads\<close>

text \<open>Queue size, queue identifier, the completion queue of a submission queue and the flag for contiguous memory.\<close>

definition cmd_qsize :: "nvm_cmd_t \<Rightarrow> nat" where "cmd_qsize cmd = unat (drop_bit 16 (dword cmd ! 10)) + 1"
definition cmd_qid :: "nvm_cmd_t \<Rightarrow> u16" where "cmd_qid cmd = ucast (dword cmd ! 10)"
definition cmd_cqid :: "nvm_cmd_t \<Rightarrow> u16" where "cmd_cqid cmd = ucast (drop_bit 16 (dword cmd ! 11))"
definition cmd_pc :: "nvm_cmd_t \<Rightarrow> bool" where "cmd_pc cmd = bit (dword cmd ! 11) 0"

text \<open>The numbers of queues asked for, and the answer of a controller that has \<open>max_c\<close> and \<open>max_s\<close> of them.\<close>

definition cmd_ncqr :: "nvm_cmd_t \<Rightarrow> nat" where "cmd_ncqr cmd = unat (drop_bit 16 (dword cmd ! 11)) + 1"
definition cmd_nsqr :: "nvm_cmd_t \<Rightarrow> nat" where "cmd_nsqr cmd = unat (dword cmd ! 11 AND 0xffff) + 1"

definition grant :: "nat \<Rightarrow> nat \<Rightarrow> u32" where
  "grant n_cqs n_sqs = push_bit 16 (of_nat (n_cqs - 1)) OR of_nat (n_sqs - 1)"

section \<open>Lemmas: commands\<close>

lemma wf_zero_cmd [simp]: "wf_cmd zero_cmd"
  by (simp add: wf_cmd_def zero_cmd_def)

lemma zero_cmd_length [simp]: "length (dword zero_cmd) = 16"
  by (simp add: zero_cmd_def)

lemma opc_values:
  "opc NVM_ADMIN_DELETE_SQ = 0" "opc NVM_ADMIN_CREATE_SQ = 1" "opc NVM_ADMIN_GET_LOG_PAGE = 2" "opc NVM_ADMIN_DELETE_CQ = 4"
  "opc NVM_ADMIN_CREATE_CQ = 5" "opc NVM_ADMIN_IDENTIFY = 6" "opc NVM_ADMIN_ABORT = 8" "opc NVM_ADMIN_SET_FEATURES = 9" "opc NVM_ADMIN_GET_FEATURES = 10"
  by (simp_all add: opc_def NVM_CMD_OPCODE_def WB_def NVM_MASK_PART_def NVM_MASK_def)

lemma set_dword_fields:
  "i \<noteq> 0 \<Longrightarrow> wf_cmd cmd \<Longrightarrow> cmd_opc (set_dword i v cmd) = cmd_opc cmd"
  "i \<noteq> 6 \<Longrightarrow> i \<noteq> 7 \<Longrightarrow> wf_cmd cmd \<Longrightarrow> i < 16 \<Longrightarrow> cmd_prp1 (set_dword i v cmd) = cmd_prp1 cmd"
  "wf_cmd cmd \<Longrightarrow> wf_cmd (set_dword i v cmd)"
  by (simp_all add: cmd_opc_def cmd_prp1_def set_dword_def wf_cmd_def)

lemma header_ptr_opc:
  "wf_cmd cmd \<Longrightarrow> cmd_opc (nvm_cmd_data_ptr (nvm_cmd_header cmd cid opcode ns) p q) = opcode AND 0x7f"
  "wf_cmd cmd \<Longrightarrow> dword (nvm_cmd_data_ptr (nvm_cmd_header cmd cid opcode ns) p q) ! 1 = ns"
  using header_opc [of cid opcode] by (simp_all add: cmd_opc_def nvm_cmd_data_ptr_def nvm_cmd_header_def Let_def)

text \<open>Sizes and identifiers: two halves of a word.\<close>

lemma unat_halves:
  fixes a :: u32 and b :: u16
  assumes "unat a < 65536"
  shows "unat (drop_bit 16 (push_bit 16 a OR ucast b)) = unat a" "ucast (push_bit 16 a OR ucast b) = b"
proof -
  have m: "a = a AND mask 16" using assms by (simp add: unat_eq_iff unat_and_mask)
  have "drop_bit 16 (push_bit 16 (a AND mask 16) OR ucast b) = a AND mask 16"
    by (rule bit_word_eqI) (auto simp: bit_simps dest: bit_imp_le_length)
  then show "unat (drop_bit 16 (push_bit 16 a OR ucast b)) = unat a" using m by metis
  show "ucast (push_bit 16 a OR ucast b) = b" by (rule bit_word_eqI) (auto simp: bit_simps)
qed

lemma queue_size_field:
  fixes qs :: u32
  assumes "2 \<le> qs" "qs \<le> 0x10000"
  shows "unat (drop_bit 16 (push_bit 16 (qs - 1) OR ucast (no :: u16))) + 1 = unat qs" "ucast (push_bit 16 (qs - 1) OR ucast no) = no"
proof -
  have q: "unat (qs - 1) = unat qs - 1" "2 \<le> unat qs" "unat qs \<le> 65536"
    using assms unat_sub_le [of 1 qs] by (auto simp: word_le_nat_alt)
  then have "unat (qs - 1) < 65536" by simp
  note H = unat_halves [OF this, of no]
  show "unat (drop_bit 16 (push_bit 16 (qs - 1) OR ucast no)) + 1 = unat qs" using H(1) q by simp
  show "ucast (push_bit 16 (qs - 1) OR ucast no) = no" by (rule H(2))
qed

text \<open>The controller reads from a command what the caller asked for.\<close>

lemma admin_cq_create_fields:
  assumes "2 \<le> q_qs cq" "q_qs cq \<le> 0x10000" and cmd_def: "cmd = admin_cq_create zero_cmd cq ioaddr need_prp"
  shows "cmd_opc cmd = 5" "cmd_qsize cmd = unat (q_qs cq)" "cmd_qid cmd = q_no cq" "cmd_pc cmd = (\<not> need_prp)" "cmd_prp1 cmd = ioaddr" "wf_cmd cmd"
  using queue_size_field [OF assms(1,2), of "q_no cq"]
  by (simp_all add: cmd_def admin_cq_create_def set_dword_fields header_ptr_opc opc_values data_ptr_fields cmd_qsize_def cmd_qid_def cmd_pc_def)

lemma admin_sq_create_fields:
  assumes "2 \<le> q_qs sq" "q_qs sq \<le> 0x10000" and cmd_def: "cmd = admin_sq_create zero_cmd sq cq ioaddr need_prp"
  shows "cmd_opc cmd = 1" "cmd_qsize cmd = unat (q_qs sq)" "cmd_qid cmd = q_no sq" "cmd_cqid cmd = q_no cq" "cmd_pc cmd = (\<not> need_prp)"
    "cmd_prp1 cmd = ioaddr" "wf_cmd cmd"
proof -
  have b: "bit (push_bit 16 (ucast (q_no cq)) OR of_bool (\<not> need_prp) :: u32) 0 = (\<not> need_prp)" by (auto simp: bit_simps)
  have c: "ucast (drop_bit 16 (push_bit 16 (ucast n) OR of_bool p :: u32)) = n" for n :: u16 and p
    by (rule bit_word_eqI) (auto simp: bit_simps)
  show "cmd_opc cmd = 1" "cmd_qsize cmd = unat (q_qs sq)" "cmd_qid cmd = q_no sq" "cmd_cqid cmd = q_no cq" "cmd_pc cmd = (\<not> need_prp)"
    "cmd_prp1 cmd = ioaddr" "wf_cmd cmd"
    using queue_size_field [OF assms(1,2), of "q_no sq"] b c [of "q_no cq" "\<not> need_prp"]
    by (simp_all add: cmd_def admin_sq_create_def set_dword_fields header_ptr_opc opc_values data_ptr_fields cmd_qsize_def cmd_qid_def cmd_pc_def cmd_cqid_def
        del: bit_0)
qed

lemma admin_delete_fields:
  "cmd_opc (admin_cq_delete zero_cmd q) = 4" "cmd_qid (admin_cq_delete zero_cmd q) = q_no q"
  "cmd_opc (admin_sq_delete zero_cmd q) = 0" "cmd_qid (admin_sq_delete zero_cmd q) = q_no q"
proof -
  have m: "ucast (ucast n AND 0xffff :: u32) = n" for n :: u16 unfolding mask16_word by (rule bit_word_eqI) (auto simp: bit_simps)
  show "cmd_opc (admin_cq_delete zero_cmd q) = 4" "cmd_qid (admin_cq_delete zero_cmd q) = q_no q"
    "cmd_opc (admin_sq_delete zero_cmd q) = 0" "cmd_qid (admin_sq_delete zero_cmd q) = q_no q"
    using m by (simp_all add: admin_cq_delete_def admin_sq_delete_def cmd_qid_def cmd_opc_def nvm_cmd_header_def opc_values)
qed

text \<open>A log page is asked for with one double word too many: 4100 bytes, for a buffer of 4096.\<close>

lemma log_page_length:
  "4 * (unat (drop_bit 16 (dword (admin_get_log_page zero_cmd ns ioaddr log_id off) ! 10)) + 1) = 4100"
proof -
  have "drop_bit 16 (push_bit 16 1024 OR ucast log_id) = (1024 :: u32)"
  proof -
    have "drop_bit 16 (push_bit 16 (x AND mask 16) OR ucast log_id) = x AND mask 16" for x :: u32
      by (rule bit_word_eqI) (auto simp: bit_simps dest: bit_imp_le_length)
    from this [of 1024] show ?thesis by (simp add: mask_numeral)
  qed
  then show ?thesis by (simp add: admin_get_log_page_def set_dword_fields wf_cmd_length)
qed


section \<open>Lemmas: queue memory\<close>

lemma pages_value:
  fixes qs es ps :: u64
  assumes qs: "2 \<le> qs" "qs \<le> 0x10000" and es: "unat es \<le> 64"
  shows "unat ((ucast (ucast (qs - 1) :: u16) * es) div ps + 1) = (unat qs - 1) * unat es div unat ps + 1"
proof -
  have q: "2 \<le> unat qs" "unat qs \<le> 65536" using qs by (simp_all add: word_le_nat_alt)
  have m: "unat (qs - 1) = unat qs - 1" using unat_sub_le [of 1 qs] q by (simp add: word_le_nat_alt)
  have u: "unat (ucast (ucast (qs - 1) :: u16) :: u64) = unat qs - 1"
    using m q by (simp add: unat_ucast_up unat_ucast_mod)
  have b: "(unat qs - 1) * unat es \<le> 65535 * 64" using q es by (intro mult_mono) simp_all
  then have p: "unat (ucast (ucast (qs - 1) :: u16) * es) = (unat qs - 1) * unat es"
    using unat_mult_lem [of "ucast (ucast (qs - 1) :: u16)" es] u by simp
  have "(unat qs - 1) * unat es div unat ps \<le> 65535 * 64" using b div_le_dividend order_trans by blast
  then show ?thesis using p by (subst unat_inc) (simp_all add: unat_div_distrib)
qed

text \<open>The pages that are counted for a queue hold all of its entries.\<close>

lemma pages_hold:
  assumes "e dvd ps" "0 < (e :: nat)" "0 < ps" "0 < q"
  shows "q * e \<le> ((q - 1) * e div ps + 1) * ps"
proof -
  obtain k where k: "ps = e * k" using assms(1) by blast
  have "(q - 1) * e div ps = (q - 1) div k" using assms(2) by (simp add: k mult.commute [of _ e])
  moreover have "q \<le> ((q - 1) div k + 1) * k"
  proof -
    have k0: "0 < k" using assms(3) k by simp
    have "q - 1 = (q - 1) div k * k + (q - 1) mod k" by simp
    moreover have "(q - 1) mod k < k" using k0 by simp
    ultimately have "q - 1 < (q - 1) div k * k + k" by linarith
    then show ?thesis using assms(4) by simp
  qed
  then have "q * e \<le> ((q - 1) div k + 1) * k * e" by (rule mult_le_mono1)
  ultimately show ?thesis by (simp add: k algebra_simps)
qed

lemma window_fits:
  fixes n offset :: u64
  assumes "\<not> (np = 0 \<or> np > n \<or> offset > n \<or> offset + np > n)" and "unat n < 2 ^ 63"
  shows "unat offset + unat np \<le> unat n"
proof -
  have "unat np \<le> unat n" "unat offset \<le> unat n" using assms(1) by (simp_all add: word_le_nat_alt not_less)
  then have "unat (offset + np) = unat offset + unat np" using assms(2) by (intro unat_add_bounded) simp
  then show ?thesis using assms(1) by (simp add: word_le_nat_alt not_less)
qed

lemma nvm_queue_clear_fields:
  assumes "nvm_queue_clear queue ct cq no qs loc vaddr ioaddr = Inr q"
  shows "2 \<le> qs" "qs \<le> 0x10000" "q_no q = no" "q_qs q = qs" "q_es q = (if cq then 16 else 64)" "q_head q = 0" "q_tail q = 0" "q_last q = 0"
    "q_phase q" "q_db q \<noteq> None" "q_vaddr q = vaddr" "q_ioaddr q = ioaddr"
  using assms by (auto simp: nvm_queue_clear_def sizeof_nvm_cpl_t_def sizeof_nvm_cmd_t_def not_less split: if_splits)

lemma ucast_qs: "qs \<le> 0x10000 \<Longrightarrow> unat (ucast (qs :: u64) :: u32) = unat qs"
  by (simp add: unat_ucast_mod word_le_nat_alt)

text \<open>A new queue: empty, with its entries inside the window.\<close>

definition new_queue_ok :: "nvm_dma_t \<Rightarrow> u64 \<Rightarrow> u16 \<Rightarrow> nat \<Rightarrow> nvm_queue_t \<Rightarrow> bool" where
  "new_queue_ok dma offset no es q \<longleftrightarrow> q_no q = no \<and> 2 \<le> q_qs q \<and> q_qs q \<le> 0x10000 \<and> unat (q_es q) = es \<and> q_head q = 0 \<and> q_tail q = 0 \<and>
     q_last q = 0 \<and> q_phase q \<and> q_db q \<noteq> None \<and> q_vaddr q = NVM_PTR_OFFSET (dma_vaddr dma) (dma_page_size dma) offset \<and>
     unat offset * unat (dma_page_size dma) + unat (q_qs q) * es \<le> length (dma_ioaddrs dma) * unat (dma_page_size dma)"

lemma new_queue_fits:
  fixes ps qs offset n es :: u64
  assumes ps: "e dvd unat ps" "0 < unat ps" and e: "unat es = e" "0 < e" "e \<le> 64" and qs: "2 \<le> qs" "qs \<le> 0x10000"
    and n: "n = of_nat len" "len < 2 ^ 63"
    and w: "\<not> (((ucast (ucast (qs - 1) :: u16) * es) div ps + 1) = 0 \<or> ((ucast (ucast (qs - 1) :: u16) * es) div ps + 1) > n \<or>
      offset > n \<or> offset + ((ucast (ucast (qs - 1) :: u16) * es) div ps + 1) > n)"
  shows "unat offset * unat ps + unat qs * e \<le> len * unat ps"
proof -
  have u: "unat n = len" using n by (simp add: unat_of_nat)
  have "unat es \<le> 64" using e by simp
  note P = pages_value [OF qs this, of ps]
  have "unat offset + ((unat qs - 1) * e div unat ps + 1) \<le> len"
    using window_fits [OF w] n(2) u P e(1) by simp
  then have "(unat offset + ((unat qs - 1) * e div unat ps + 1)) * unat ps \<le> len * unat ps" by (rule mult_le_mono1)
  moreover have "unat qs * e \<le> ((unat qs - 1) * e div unat ps + 1) * unat ps"
    using pages_hold [OF ps(1) e(2) ps(2)] qs(1) by (simp add: word_le_nat_alt)
  ultimately show ?thesis by (simp add: algebra_simps)
qed

lemma cq_create_cases:
  assumes ps: "64 dvd unat (c_page_size ct)" "0 < unat (c_page_size ct)" "dma_page_size dma = c_page_size ct" and n: "length (dma_ioaddrs dma) < 2 ^ 63"
    and r: "nvm_admin_cq_create rpc (Some ct) queue cq no dma offset qs np s = (s', err, cq')"
  shows "s' = s \<and> err = 22 \<and> cq' = cq \<or>
    (\<exists>cmd q cpl. cmd_opc cmd = 5 \<and> cmd_qid cmd = no \<and> cmd_qsize cmd = unat (q_qs q) \<and> cmd_pc cmd = (\<not> np) \<and>
       cmd_prp1 cmd = dma_ioaddrs dma ! unat offset \<and> rpc s cmd zero_cpl = (s', err, cpl) \<and> cq' = (if err = 0 then q else cq) \<and>
       (qs \<noteq> 0 \<longrightarrow> unat (q_qs q) = unat qs) \<and> q_qs q \<le> c_max_qs ct \<and> new_queue_ok dma offset no 16 q)"
proof (cases "s' = s \<and> err = 22 \<and> cq' = cq")
  case False
  define q2 where "q2 = (if qs = 0 then min (dma_page_size dma div sizeof_nvm_cpl_t) (ucast (c_max_qs ct)) else qs)"
  let ?n = "of_nat (length (dma_ioaddrs dma)) :: u64" and ?np = "NVM_CQ_PAGES (c_page_size ct) q2"
  have ne: "no \<noteq> 0" "\<not> (q2 < 2 \<or> q2 > 0x10000 \<or> q2 > ucast (c_max_qs ct))" "dma_vaddr dma \<noteq> 0" "\<not> (?np = 0 \<or> ?np > ?n \<or> offset > ?n \<or> offset + ?np > ?n)"
    using r False unfolding nvm_admin_cq_create_def Let_def by (auto simp: q2_def split: if_splits)
  let ?clear = "nvm_queue_clear queue ct True no (ucast q2) (dma_local dma) (NVM_PTR_OFFSET (dma_vaddr dma) (dma_page_size dma) offset)
      (dma_ioaddrs dma ! unat offset)"
  have r2: "(case ?clear of Inl e \<Rightarrow> (s, errno_code e, cq)
      | Inr q \<Rightarrow> (case rpc s (admin_cq_create zero_cmd q (dma_ioaddrs dma ! unat offset) np) zero_cpl of
          (s', err, _) \<Rightarrow> if \<not> nvm_ok err then (s', err, cq) else (s', 0, q))) = (s', err, cq')"
    using r ne unfolding nvm_admin_cq_create_def Let_def option.case q2_def [symmetric] by (simp only: if_False)
  obtain q where q: "?clear = Inr q"
  proof (cases ?clear)
    case (Inl e)
    then have "e = EINVAL" by (auto simp: nvm_queue_clear_def split: if_splits)
    then show ?thesis using r2 Inl False by simp
  qed blast
  note Q = nvm_queue_clear_fields [OF q]
  obtain cpl err0 where rp: "rpc s (admin_cq_create zero_cmd q (dma_ioaddrs dma ! unat offset) np) zero_cpl = (s', err0, cpl)"
    "err = err0" "cq' = (if err = 0 then q else cq)"
    using r2 q by (auto simp: nvm_ok_def split: prod.splits if_splits)
  have b: "2 \<le> q2" "q2 \<le> 0x10000" using ne(2) by (simp_all add: not_less)
  have u: "unat (q_qs q) = unat q2" using ucast_qs [OF b(2)] Q(4) by simp
  then have uq: "qs \<noteq> 0 \<longrightarrow> unat (q_qs q) = unat qs" by (simp add: q2_def)
  have m: "q_qs q \<le> c_max_qs ct"
    using ne(2) u by (simp add: word_le_nat_alt not_less unat_ucast_up)
  have "unat offset * unat (c_page_size ct) + unat q2 * 16 \<le> length (dma_ioaddrs dma) * unat (c_page_size ct)"
    by (rule new_queue_fits [of 16 "c_page_size ct" sizeof_nvm_cpl_t, OF _ ps(2) _ _ _ b refl n])
      (use ps(1) ne(4) dvd_trans [of "16 :: nat" 64] in \<open>simp_all add: sizeof_nvm_cpl_t_def NVM_CQ_PAGES_def\<close>)
  then have "new_queue_ok dma offset no 16 q" using Q ps(3) u by (simp add: new_queue_ok_def)
  then show ?thesis
    using admin_cq_create_fields [OF Q(1,2) [folded Q(4)] refl, of "dma_ioaddrs dma ! unat offset" np] rp Q(3) uq m
    by (intro disjI2 exI [of _ "admin_cq_create zero_cmd q (dma_ioaddrs dma ! unat offset) np"] exI [of _ q] exI [of _ cpl]) simp
qed blast

lemma sq_create_cases:
  assumes ps: "64 dvd unat (c_page_size ct)" "0 < unat (c_page_size ct)" "dma_page_size dma = c_page_size ct" and n: "length (dma_ioaddrs dma) < 2 ^ 63"
    and r: "nvm_admin_sq_create rpc (Some ct) queue sq cq no dma offset qs np s = (s', err, sq')"
  shows "s' = s \<and> err = 22 \<and> sq' = sq \<or>
    (\<exists>cmd q cpl. cmd_opc cmd = 1 \<and> cmd_qid cmd = no \<and> cmd_qsize cmd = unat (q_qs q) \<and> cmd_pc cmd = (\<not> np) \<and> cmd_cqid cmd = q_no cq \<and>
       cmd_prp1 cmd = dma_ioaddrs dma ! unat offset \<and> rpc s cmd zero_cpl = (s', err, cpl) \<and> sq' = (if err = 0 then q else sq) \<and>
       (qs \<noteq> 0 \<longrightarrow> unat (q_qs q) = unat qs) \<and> q_qs q \<le> c_max_qs ct \<and> new_queue_ok dma offset no 64 q)"
proof (cases "s' = s \<and> err = 22 \<and> sq' = sq")
  case False
  define q2 where "q2 = (if qs = 0 then min (dma_page_size dma div sizeof_nvm_cmd_t) (ucast (c_max_qs ct)) else qs)"
  let ?n = "of_nat (length (dma_ioaddrs dma)) :: u64" and ?np = "NVM_SQ_PAGES (c_page_size ct) q2"
  have ne: "no \<noteq> 0" "\<not> (q2 < 2 \<or> q2 > 0x10000 \<or> q2 > ucast (c_max_qs ct))" "dma_vaddr dma \<noteq> 0" "\<not> (?np = 0 \<or> ?np > ?n \<or> offset > ?n \<or> offset + ?np > ?n)"
    using r False unfolding nvm_admin_sq_create_def Let_def by (auto simp: q2_def split: if_splits)
  let ?clear = "nvm_queue_clear queue ct False no (ucast q2) (dma_local dma) (NVM_PTR_OFFSET (dma_vaddr dma) (dma_page_size dma) offset)
      (dma_ioaddrs dma ! unat offset)"
  have r2: "(case ?clear of Inl e \<Rightarrow> (s, errno_code e, sq)
      | Inr q \<Rightarrow> (case rpc s (admin_sq_create zero_cmd q cq (dma_ioaddrs dma ! unat offset) np) zero_cpl of
          (s', err, _) \<Rightarrow> if \<not> nvm_ok err then (s', err, sq) else (s', 0, q))) = (s', err, sq')"
    using r ne unfolding nvm_admin_sq_create_def Let_def option.case q2_def [symmetric] by (simp only: if_False)
  obtain q where q: "?clear = Inr q"
  proof (cases ?clear)
    case (Inl e)
    then have "e = EINVAL" by (auto simp: nvm_queue_clear_def split: if_splits)
    then show ?thesis using r2 Inl False by simp
  qed blast
  note Q = nvm_queue_clear_fields [OF q]
  obtain cpl err0 where rp: "rpc s (admin_sq_create zero_cmd q cq (dma_ioaddrs dma ! unat offset) np) zero_cpl = (s', err0, cpl)"
    "err = err0" "sq' = (if err = 0 then q else sq)"
    using r2 q by (auto simp: nvm_ok_def split: prod.splits if_splits)
  have b: "2 \<le> q2" "q2 \<le> 0x10000" using ne(2) by (simp_all add: not_less)
  have u: "unat (q_qs q) = unat q2" using ucast_qs [OF b(2)] Q(4) by simp
  then have uq: "qs \<noteq> 0 \<longrightarrow> unat (q_qs q) = unat qs" by (simp add: q2_def)
  have m: "q_qs q \<le> c_max_qs ct"
    using ne(2) u by (simp add: word_le_nat_alt not_less unat_ucast_up)
  have "unat offset * unat (c_page_size ct) + unat q2 * 64 \<le> length (dma_ioaddrs dma) * unat (c_page_size ct)"
    by (rule new_queue_fits [of 64 "c_page_size ct" sizeof_nvm_cmd_t, OF _ ps(2) _ _ _ b refl n])
      (use ps(1) ne(4) in \<open>simp_all add: sizeof_nvm_cmd_t_def NVM_SQ_PAGES_def\<close>)
  then have "new_queue_ok dma offset no 64 q" using Q ps(3) u by (simp add: new_queue_ok_def)
  then show ?thesis
    using admin_sq_create_fields [OF Q(1,2) [folded Q(4)] refl, of cq "dma_ioaddrs dma ! unat offset" np] rp Q(3) uq m
    by (intro disjI2 exI [of _ "admin_sq_create zero_cmd q cq (dma_ioaddrs dma ! unat offset) np"] exI [of _ q] exI [of _ cpl]) simp
qed blast



section \<open>Properties of admin commands\<close>

text \<open>Creating a submission queue.  \<open>nvm_admin_sq_create\<close> either rejects its arguments with \<open>EINVAL\<close>, before any command, and
  leaves the descriptor alone, or sends exactly one command, from which the controller reads the identifier, size, completion
  queue, contiguity and bus address that the caller asked for; its answer is that of the command.  The descriptor is written only
  on success: the queue is empty, not larger than the controller supports, and all of its entries are inside the window.\<close>

lemma sq_create_checked:
  assumes ps: "64 dvd unat (c_page_size ct)" "0 < unat (c_page_size ct)" "dma_page_size dma = c_page_size ct" and n: "length (dma_ioaddrs dma) < 2 ^ 63"
    and r: "nvm_admin_sq_create rpc (Some ct) queue sq cq no dma offset qs np s = (s', err, sq')"
  shows "s' = s \<and> err = 22 \<and> sq' = sq \<or>
    (\<exists>cmd q cpl. cmd_opc cmd = 1 \<and> cmd_qid cmd = no \<and> cmd_qsize cmd = unat (q_qs q) \<and> cmd_pc cmd = (\<not> np) \<and> cmd_cqid cmd = q_no cq \<and>
       cmd_prp1 cmd = dma_ioaddrs dma ! unat offset \<and> rpc s cmd zero_cpl = (s', err, cpl) \<and> sq' = (if err = 0 then q else sq) \<and>
       (qs \<noteq> 0 \<longrightarrow> unat (q_qs q) = unat qs) \<and> q_qs q \<le> c_max_qs ct \<and> new_queue_ok dma offset no 64 q)"
  by (rule sq_create_cases [OF ps n r])

definition witness_qdma :: nvm_dma_t where
  "witness_qdma = \<lparr>dma_vaddr = 0x100000, dma_local = True, dma_contiguous = True, dma_page_size = 4096,
     dma_ioaddrs = map (\<lambda>i. 0x10000 + of_nat i * 4096) [0..<4]\<rparr>"

lemma sq_create_checked_witness:
  "\<exists>sq' cmd. nvm_admin_sq_create (\<lambda>s cmd cpl. (s @ [cmd], 0, cpl)) (Some (ct_handle witness_ctrl)) witness_sq witness_sq witness_sq 3 witness_qdma 2 128 False [] =
      ([cmd], 0, sq') \<and> cmd_qsize cmd = 128 \<and> new_queue_ok witness_qdma 2 3 64 sq'"
proof -
  let ?rpc = "\<lambda>s cmd (cpl :: nvm_cpl_t). (s @ [cmd], 0 :: int, cpl)"
  obtain s' err sq' where r: "nvm_admin_sq_create ?rpc (Some (ct_handle witness_ctrl)) witness_sq witness_sq witness_sq 3 witness_qdma 2 128 False [] = (s', err, sq')"
    by (metis prod.collapse)
  have d: "64 dvd unat (c_page_size (ct_handle witness_ctrl))" "0 < unat (c_page_size (ct_handle witness_ctrl))"
    "dma_page_size witness_qdma = c_page_size (ct_handle witness_ctrl)" "length (dma_ioaddrs witness_qdma) < 2 ^ 63"
    by (simp_all add: witness_ctrl_def witness_qdma_def)
  have "err = 0"
    using r by (simp add: nvm_admin_sq_create_def witness_ctrl_def witness_qdma_def NVM_SQ_PAGES_def sizeof_nvm_cmd_t_def nvm_queue_clear_def
        nvm_ok_def Let_def)
  then show ?thesis using sq_create_checked [OF d r] r by auto
qed

lemma num_queues_fields:
  assumes "n_cqs \<noteq> 0" "n_sqs \<noteq> 0"
  shows "cmd_ncqr (admin_current_num_queues zero_cmd True n_cqs n_sqs) = unat n_cqs" "cmd_nsqr (admin_current_num_queues zero_cmd True n_cqs n_sqs) = unat n_sqs"
    "cmd_opc (admin_current_num_queues zero_cmd True n_cqs n_sqs) = 9" "unat (dword (admin_current_num_queues zero_cmd True n_cqs n_sqs) ! 10) = 7"
proof -
  have m: "unat (ucast n - 1 :: u32) = unat n - 1" "1 \<le> unat n" "unat n < 65536" if "n \<noteq> 0" for n :: u16
  proof -
    show "1 \<le> unat n" using that by (metis less_one not_le unat_eq_zero)
    moreover have "unat (ucast n :: u32) = unat n" by (simp add: unat_ucast_up)
    ultimately show "unat (ucast n - 1 :: u32) = unat n - 1" by (subst unat_sub) (simp_all add: word_le_nat_alt)
    show "unat n < 65536" using unsigned_less [of n, where 'a = nat] by simp
  qed
  have e: "ucast n_sqs - 1 = (ucast (n_sqs - 1) :: u32)"
    using m [OF assms(2)] unat_sub_le [of 1 n_sqs] by (simp add: unat_eq_iff unat_ucast_up word_le_nat_alt)
  have b: "unat (ucast n_cqs - 1 :: u32) < 65536" using m [OF assms(1)] by simp
  note H = unat_halves [OF b, of "n_sqs - 1"]
  have h2: "unat ((push_bit 16 (ucast n_cqs - 1) OR ucast (n_sqs - 1)) AND (0xffff :: u32)) = unat (n_sqs - 1)"
    using H(2) by (simp add: unat_mask16 unat_eq_iff unat_ucast_mod)
  show "cmd_ncqr (admin_current_num_queues zero_cmd True n_cqs n_sqs) = unat n_cqs"
    using H(1) m [OF assms(1)] by (simp add: cmd_ncqr_def admin_current_num_queues_def e set_dword_fields)
  show "cmd_nsqr (admin_current_num_queues zero_cmd True n_cqs n_sqs) = unat n_sqs"
    using h2 m [OF assms(2)] unat_sub_le [of 1 n_sqs] by (simp add: cmd_nsqr_def admin_current_num_queues_def e set_dword_fields word_le_nat_alt)
  show "cmd_opc (admin_current_num_queues zero_cmd True n_cqs n_sqs) = 9" "unat (dword (admin_current_num_queues zero_cmd True n_cqs n_sqs) ! 10) = 7"
    by (simp_all add: admin_current_num_queues_def set_dword_fields header_ptr_opc opc_values)
qed


lemma grant_fields:
  assumes "1 \<le> a" "a \<le> 65536" "1 \<le> b" "b \<le> 65536"
  shows "(ucast ((grant a b AND 0xffff) + 1) :: u16) = of_nat b" "(ucast (drop_bit 16 (grant a b) + 1) :: u16) = of_nat a"
proof -
  have n32: "unat (of_nat (k - 1) :: u32) = k - 1" "unat (of_nat (k - 1) :: u16) = k - 1" if "1 \<le> k" "k \<le> 65536" for k
    unfolding unat_of_nat using that by simp_all
  note x = n32(1) [OF assms(1,2)] and z = n32 [OF assms(3,4)]
  have "unat (ucast (of_nat (b - 1) :: u16) :: u32) = b - 1" using z(2) by (subst unat_ucast_up) simp_all
  then have y: "of_nat (b - 1) = (ucast (of_nat (b - 1) :: u16) :: u32)" using z(1) by (metis word_unat_eq_iff)
  have lt: "unat (of_nat (a - 1) :: u32) < 65536" using x assms by simp
  note H = unat_halves [OF lt, of "of_nat (b - 1)", folded y]
  have "unat (grant a b AND 0xffff) = b - 1"
  proof -
    have "unat (ucast (grant a b) :: u16) = b - 1" using H(2) z(2) by (simp only: grant_def)
    then show ?thesis by (simp add: unat_mask16 unat_ucast_mod)
  qed
  then have lo: "grant a b AND 0xffff = of_nat (b - 1)" using z(1) by (simp only: unat_eq_iff)
  have hi: "drop_bit 16 (grant a b) = of_nat (a - 1)" using H(1) by (simp only: grant_def unat_eq_iff)
  have s: "of_nat (k - 1) + 1 = (of_nat k :: u32)" if "1 \<le> k" for k using that by (cases k) simp_all
  have u: "(ucast (of_nat k :: u32) :: u16) = of_nat k" if "k \<le> 65536" for k
    using that unfolding unat_eq_iff unat_ucast_mod unat_of_nat by simp
  show "(ucast ((grant a b AND 0xffff) + 1) :: u16) = of_nat b" unfolding lo s [OF assms(3)] by (rule u [OF assms(4)])
  show "(ucast (drop_bit 16 (grant a b) + 1) :: u16) = of_nat a" unfolding hi s [OF assms(1)] by (rule u [OF assms(2)])
qed

text \<open>The numbers of queues in the answer of the controller are taken the wrong way round: the completion asks for \<open>n_cqs\<close> completion
  queues in the high half of a word and \<open>n_sqs\<close> submission queues in the low half, and from a controller that grants as many of each as it
  has, in the same halves, the caller learns the number of submission queues as that of completion queues, and the other way round.\<close>

lemma granted_queues_swapped:
  assumes n: "n_cqs \<noteq> 0" "n_sqs \<noteq> 0" and m: "1 \<le> max_c" "1 \<le> max_s"
    and rpc: "\<And>cmd. cmd_opc cmd = 9 \<Longrightarrow> rpc s cmd zero_cpl =
      (s', 0, \<lparr>cpl_dword = [grant (min (cmd_ncqr cmd) max_c) (min (cmd_nsqr cmd) max_s), 0, 0, 0]\<rparr>)"
  shows "nvm_admin_request_num_queues rpc n_cqs n_sqs s = (s', 0, of_nat (min (unat n_sqs) max_s), of_nat (min (unat n_cqs) max_c))"
proof -
  let ?cmd = "admin_current_num_queues zero_cmd True n_cqs n_sqs"
  note F = num_queues_fields [OF n]
  have p: "1 \<le> unat k" "unat k \<le> 65536" if "k \<noteq> 0" for k :: u16
    using that unsigned_less [of k, where 'a = nat] by (simp_all add: Suc_le_eq unat_gt_0)
  have "rpc s ?cmd zero_cpl = (s', 0, \<lparr>cpl_dword = [grant (min (unat n_cqs) max_c) (min (unat n_sqs) max_s), 0, 0, 0]\<rparr>)"
    using rpc [OF F(3)] F(1,2) by simp
  then show ?thesis
    using n m p [OF n(1)] p [OF n(2)] by (simp add: nvm_admin_request_num_queues_def grant_fields min_le_iff_disj)
qed

lemma granted_queues_swapped_witness:
  "snd (nvm_admin_request_num_queues (\<lambda>s cmd cpl. (s, 0, \<lparr>cpl_dword = [grant (min (cmd_ncqr cmd) 100) (min (cmd_nsqr cmd) 8), 0, 0, 0]\<rparr>)) 64 16 (0 :: nat)) =
    (0, 8, 64)"
  using granted_queues_swapped [of 64 16 100 8 "\<lambda>s cmd cpl. (s, 0, \<lparr>cpl_dword = [grant (min (cmd_ncqr cmd) 100) (min (cmd_nsqr cmd) 8), 0, 0, 0]\<rparr>)" "0 :: nat" 0]
  by simp

end
