(* ===== verification/Spec2Isabelle.thy ===== *)
theory Spec2Isabelle
  imports Nvm_Cmd Nvm_Queue Ticket_Ring Par_Sq Par_Cq Page_Cache_Ops Page_Async Nvm_Ctrl Nvm_Dma Page_Cache_Setup Bam_Array Bam_Ptr Gids_Kernel Gids_Rows Gids_Pipeline Nvm_Admin
begin

text \<open>
  Verification of a GPU-initiated storage stack: BaM (\<open>src/bam\<close>), a user-space NVMe driver with a software page
  cache that GPU threads run themselves, and the feature store of the GIDS dataloader on top of it
  (\<open>src/gids_module\<close>).

  \<^bold>\<open>The program.\<close>  From the bottom up:

  \<^item> libnvm (\<open>include/nvm_*.h\<close>, \<open>src/*.cpp\<close>) maps a controller's registers and memory for DMA, builds the commands of
    the NVMe protocol, and keeps submission and completion queues for one thread.
  \<^item> the parallel queues (\<open>include/nvm_parallel_queue.h\<close>) let any number of GPU threads share one queue pair without
    locks: tickets give every command a slot and a turn, marks say which slots are written, and whoever gets the tail
    lock rings the doorbell for all of them.
  \<^item> the page cache (\<open>include/page_cache.h\<close>) holds pages of the controllers in slots of GPU memory.  A page has one state
    word: a count of users and the bits valid, busy and dirty.  A miss takes a slot, evicts the page in it, writes it
    back when it is dirty, and reads the new page through a queue.
  \<^item> arrays and pointers over the page cache (\<open>array_d_t\<close>, \<open>bam_ptr\<close>, same file) give a warp element access; lanes on the
    same page act through one of them.
  \<^item> the feature store (\<open>gids_kernel.cu\<close>, \<open>gids_nvme.cu\<close>, \<open>bam_iostack.cuh\<close>) gathers rows of a feature matrix, at once
    or asynchronously: a request is submitted row by row, a service takes completions off the queues and finishes the
    contexts registered for them, the host polls, and the oldest request is gathered when all of its rows are there.

  \<^bold>\<open>Theories and what they model.\<close>  Names of definitions are those of the code where there is one function for them.

  \<^item> \<open>Prelude\<close>: word types, lemma collections, lemmas on words and rings.  No code.
  \<^item> \<open>Nvm_Util\<close>: \<open>nvm_util.h\<close>, \<open>regs.h\<close>, \<open>nvm_error.h\<close>, \<open>lib_util.h\<close>.  Macros on 64-bit words; field read-back.
  \<^item> \<open>Nvm_Cmd\<close>: \<open>nvm_cmd.h\<close>.  A command is sixteen 32-bit words, and a page list lives in a memory of 64-bit entries.
    \<open>nvm_cmd_data_device_pages\<close> follows the data pointer as a controller does and finds the caller's pages.
  \<^item> \<open>Nvm_Queue\<close>: \<open>nvm_queue.h\<close>, \<open>queue.cpp\<close>.  The record \<open>nvm_queue_t\<close> has the fields of the struct.  The submission
    side refines a bounded FIFO (locale \<open>slot_ring\<close>), the completion side delivers what a device posts, once and in order.
  \<^item> \<open>Ticket_Ring\<close>: the ticket protocol on unbounded numbers.  \<open>Par_Sq\<close>: \<open>sq_enqueue\<close> and \<open>move_tail\<close> as one definition
    per atomic access, interleaved by the step relation \<open>psq_step\<close>, a simulation of \<open>Ticket_Ring\<close>.
  \<^item> \<open>Par_Cq\<close>: command identifiers, the scans for a completion, \<open>move_head_cq\<close>, and \<open>cq_dequeue\<close> by atomic accesses.
  \<^item> \<open>Page_Cache\<close>: the state and the operations of the page cache, one call at a time; \<open>Page_Cache_Inv\<close>: the invariant
    \<open>cache_inv\<close> and the abstraction \<open>content\<close>, the block that a user of a page must see; \<open>Page_Cache_Ops\<close>: what every
    operation does, and the refinement of a flat memory (locale \<open>memory_view\<close>) for callers that keep the contract \<open>cache_ok\<close>: they store only on held
    dirty pages and flush only used slots, which \<open>flush_cache\<close> and \<open>bam_ptr\<close> do not (two properties show what follows).  \<open>Page_Cache_Setup\<close>: the constructors,
    which establish the invariant and the page lists of all commands.  \<open>Page_Async\<close>: submit, wait and try-wait,
    with the commands outstanding at the device as part of the state.
  \<^item> \<open>Nvm_Ctrl\<close>, \<open>Nvm_Dma\<close>: controller handles (\<open>ctrl.cpp\<close>), reset, DMA handles and descriptors on a heap (\<open>dma.cpp\<close>).
  \<^item> \<open>Nvm_Rpc\<close>, \<open>Nvm_Aq\<close>, \<open>Nvm_Admin\<close>: the admin queues (\<open>rpc.cpp\<close>, \<open>admin.cpp\<close>).  \<open>execute_command\<close> runs with a controller that
    executes commands at its own pace: answers come in the order of the commands, and after a timeout a command gets the answer
    of an earlier one (\<open>late_completion_answers_next\<close>).  References count controllers and DMA descriptors on the heap of \<open>Nvm_Dma\<close>;
    \<open>nvm_rpc_handle_insert\<close> and \<open>nvm_rpc_handle_remove\<close> are those of a finite map.  Creating a queue checks its memory before any command
    is sent (\<open>sq_create_checked\<close>), and the controller reads from a command what the caller asked for.
  \<^item> \<open>Bam_Array\<close>, \<open>Bam_Ptr\<close>: warp-wide operations.  A warp is a msk of 32 lanes; the orders in which divergent lanes
    run are arguments, and the properties hold for all of them.  Both refine a flat array (\<open>memory_view\<close> again).
  \<^item> \<open>Gids_Kernel\<close>: the synchronous kernels (locale \<open>row_kernel\<close> shares the proof between the kernel with and without the
    host buffer); the marks that \<open>set_cpu_buffer_kernel\<close> leaves on pages send rows to the buffer, and which rows these are is proved
    from those marks.  \<open>Gids_Async\<close>: the asynchronous ones, on contexts in device memory.  \<open>Gids_Rows\<close>: what the
    kernels of one thread do to the rows of a request.
  \<^item> \<open>Gids_Requests\<close>, \<open>Gids_Registered\<close>: all threads of registered requests and the controller as one machine
    (\<open>reg_step\<close>), with its invariant by rule induction, and the launches made of such threads.
  \<^item> \<open>Gids_Host\<close>, \<open>Gids_Pipeline\<close>: the queue of requests, the host calls, and the machine of host and device
    (\<open>host_reach\<close>), which serves requests in order, with the features of their rows.  The host submits with one context a
    row, polls by \<open>service_registered_try_poll\<close>, by its window form, or by the blocking \<open>service_registered_poll_compatible\<close>, during which the
    controller goes on completing commands, and takes the oldest request.  The kernels get 0 for the caller's \<open>key_off\<close>, in the code
    and so in the model (\<open>request_args\<close>).

  \<^bold>\<open>Conventions.\<close>  Machine integers are words and wrap; a struct is a record, an array of atomics a function of its index.
  What a device register returns, what an allocation or a call of the operating system answers is an argument.
  A loop that can spin is a \<open>partial_function (option)\<close>: \<open>None\<close> is not returning, and where code is said to return the
  theorem says \<open>Some\<close>.  Exceptions of the host code are the left side of a sum.  Loops with a bound in the code have
  that bound: 32 lanes, \<open>kMaxEventsPerQueue\<close> = 64 completions for a thread of the service.  No fuel is used, except that
  the scan \<open>cq_scan\<close> and \<open>mark_run\<close> count down the positions of the queue, of which the code visits each at most once.

  \<^bold>\<open>Bounds in hypotheses.\<close>  The ticket counters of the parallel queue are read below \<open>2 ^ 32\<close>; a page has fewer than
  \<open>2 ^ 29\<close> users, the bits of the count; requests have at most \<open>2 ^ 31\<close> rows, the range of \<open>int\<close>; a row fits into a page,
  as the setup of the feature store has it.  Room in the cache is a hypothesis (64 or as many slots as rows in flight),
  because the code spins when every slot is in use, and the theorems on termination say so.

  \<^bold>\<open>Window buffering and several ranges.\<close>  \<open>acquire_page\<close> is modelled and proved with the window-buffer and prefetch counters of a
  page: each pins one user more while it is pending.  From \<open>Bam_Array\<close> on the theorems ask that none is pending on any page
  (\<open>no_prefetch\<close>, a part of \<open>array_inv\<close> and of \<open>reg_cfg\<close>), because otherwise user counts are not given back; so they do not cover runs after
  \<open>set_window_buffering_kernel\<close>, which is modelled as a definition only.  The theorems on pointers and on the feature store ask for an
  array over one range whose elements start at index 0 (\<open>flat_range\<close>), as the feature store has it: with several ranges \<open>find_range\<close>
  and \<open>bam_ptr\<close> go wrong.  The theorems on requests ask for one controller; with a second one rows are lost
  (\<open>second_controller_row_lost\<close>).  A blocking poll is covered when every row it waits for has a transfer of its own: a row that
  has joined another's has no identifier to wait for (\<open>async_joiner_deadlock\<close>).

  \<^bold>\<open>Interleaving.\<close>  Threads are interleaved by atomic accesses in \<open>Par_Sq\<close>, \<open>Par_Cq\<close> and for the handle counts, under
  sequential consistency: the memory orders of the code are not distinguished.  Calls of the page cache are
  interleaved as a whole in \<open>Page_Cache_Ops\<close> to \<open>Gids_Pipeline\<close>.  So the races inside \<open>acquire_page\<close>
  between two threads on one page are not covered, except for the joins of a miss in flight that \<open>Page_Async\<close> has.
  A launch is the sequence of its threads or warps in any order.

  \<^bold>\<open>What is not modelled.\<close>  The cq.tail field, which only counts; debug output, event counters and statistics; the
  write-back queues and the CPU aggregation queue of the page cache; the SmartIO back end (\<open>src/dis\<close>), whose calls are
  those of libraries outside the repository; the kernel module; mutexes and error strings; the
  PyTorch bindings and their Python callers; benchmarks and deprecated examples, which use the
  library; \<open>page_cache_backup.h\<close>, an older copy of \<open>page_cache.h\<close> that no file includes.  On the host side the
  requests with one context per row are modelled; those with 32 contexts a warp are modelled as kernels only, with the poll
  \<open>service_registered_poll\<close> that waits for them.  Submissions that are not registered push contexts without a request, after which
  requests and contexts no longer pair up; they are no step of \<open>host_reach\<close>.  The second launch of \<open>set_cpu_buffer\<close>, which copies
  the rows into the host buffer, is a definition without a theorem: its \<open>operator[]\<close> marks unrelated pages dirty (\<open>bp_mark_other\<close>), so
  the theorem on the buffer takes the copied rows as given.
\<close>

end
